(* ===== verification/Prelude.thy ===== *)
theory Prelude
  imports Main "HOL-Library.Word"
begin

text \<open>
  The vocabulary every component of the development shares: the machine integers of the C
  sources as words, the error numbers they return, the \<open>errno + 'a\<close> results that stand for
  "negative error or value", the two named collections the component proofs feed, and the
  generic facts on lists and words that more than one component needs.
\<close>

section \<open>Machine integers and results\<close>

type_synonym u8 = "8 word"
type_synonym u16 = "16 word"
type_synonym u32 = "32 word"
type_synonym u64 = "64 word"

definition UINT32_MAX :: u32 where
  "UINT32_MAX = 4294967295"

definition INT_MAX :: u32 where
  "INT_MAX = 2147483647"

text \<open>The error numbers the modelled functions return, by their C names.\<close>

datatype errno =
    EPERM | ENOENT | ESRCH | EINTR | EIO | E2BIG | ENOEXEC | EBADF | EAGAIN | ENOMEM
  | EACCES | EFAULT | EBUSY | EEXIST | EINVAL | ENOSPC | ERANGE | ENAMETOOLONG | ELOOP
  | ENOMSG | EPROTO | EOPNOTSUPP | ENOTSUP | ENETUNREACH | EHOSTUNREACH | ENOPROTOOPT
  | ECONNREFUSED | EAFNOSUPPORT | EFBIG | EIDRM | ENODATA | EROFS

type_synonym 'a result = "errno + 'a"

named_theorems inv_intros \<open>one-step preservation facts of the component invariants\<close>
named_theorems frame_simps \<open>what an operation leaves unchanged\<close>

section \<open>Words\<close>

text \<open>\<open>x - a < n\<close> under \<open>a \<le> x\<close> is membership of the half-open interval, on naturals.\<close>

lemma word_interval_nat:
  fixes x a n :: "'a::len word"
  shows "a \<le> x \<and> x - a < n \<longleftrightarrow> unat a \<le> unat x \<and> unat x < unat a + unat n"
proof (cases "a \<le> x")
  case True
  then have "unat (x - a) = unat x - unat a" by (rule unat_sub)
  with True show ?thesis by (auto simp: word_le_nat_alt word_less_nat_alt)
next
  case False
  then show ?thesis by (simp add: word_le_nat_alt)
qed

lemma unat_add_lem_bound:
  fixes a b :: "'a::len word"
  assumes "unat a + unat b < 2 ^ LENGTH('a)"
  shows "unat (a + b) = unat a + unat b"
  using assms by (simp add: unat_word_ariths)

lemma unat32_less: "unat (x :: u32) < 2 ^ 32"
  using unsigned_less [of x] by simp

lemma unat_plus_one: "x < (y :: u32) \<Longrightarrow> unat (x + 1) = unat x + 1"
  using unat32_less [of y] by (simp add: word_less_nat_alt unat_word_ariths)

lemma unat_UINT32_MAX: "unat UINT32_MAX = 2 ^ 32 - 1"
  by (simp add: UINT32_MAX_def)

lemma neq_UINT32_MAX_iff: "x \<noteq> UINT32_MAX \<longleftrightarrow> unat x < 2 ^ 32 - 1"
proof -
  have "unat x < 2 ^ 32" using unsigned_less [of x] by simp
  then show ?thesis
    by (auto simp: word_unat_eq_iff unat_UINT32_MAX)
qed

section \<open>Lists\<close>

lemma sorted_wrt_snoc_iff:
  "sorted_wrt P (xs @ [x]) \<longleftrightarrow> sorted_wrt P xs \<and> (\<forall>y \<in> set xs. P y x)"
  by (simp add: sorted_wrt_append)

lemma find_Some_iff_distinct:
  assumes "distinct (map f xs)"
  shows "find (\<lambda>x. f x = k) xs = Some x \<longleftrightarrow> x \<in> set xs \<and> f x = k"
  using assms by (induction xs) auto

lemma find_None_iff_notin:
  "find (\<lambda>x. f x = k) xs = None \<longleftrightarrow> k \<notin> f ` set xs"
  by (induction xs) auto

lemma find_SomeD: "find P xs = Some x \<Longrightarrow> x \<in> set xs \<and> P x"
  by (induction xs) (auto split: if_splits)

section \<open>Cells addressed by keys\<close>

text \<open>
  The contract of a component that keeps one value per key inside a larger state: reading
  after writing, writing back what is there, overwriting, and independence of distinct keys.
\<close>

locale keyed_cells =
  fixes get :: "'s \<Rightarrow> 'k \<Rightarrow> 'v" and put :: "'k \<Rightarrow> 'v \<Rightarrow> 's \<Rightarrow> 's" and live :: "'s \<Rightarrow> 'k \<Rightarrow> bool"
  assumes get_put: "get (put k v s) j = (if j = k then v else get s j)"
    and put_get: "live s k \<Longrightarrow> put k (get s k) s = s"
    and put_put: "put k v (put k w s) = put k v s"
    and put_swap: "j \<noteq> k \<Longrightarrow> put j v (put k w s) = put k w (put j v s)"
    and live_put: "live s j \<Longrightarrow> live (put k v s) j"
begin

lemma get_fold_other:
  "k \<notin> key ` set es \<Longrightarrow> get (fold (\<lambda>e s. put (key e) (f e (get s (key e))) s) es s) k = get s k"
  by (induction es arbitrary: s) (auto simp: get_put)

lemma get_fold_at:
  assumes "distinct (map key es)" "e \<in> set es"
  shows "get (fold (\<lambda>e s. put (key e) (f e (get s (key e))) s) es s) (key e) = f e (get s (key e))"
  using assms
proof (induction es arbitrary: s)
  case (Cons a es)
  show ?case
  proof (cases "e = a")
    case True
    with Cons.prems show ?thesis by (simp add: get_fold_other get_put)
  next
    case False
    with Cons.prems have "e \<in> set es" "key e \<noteq> key a" by (auto simp: image_iff)
    with Cons show ?thesis by (simp add: get_put)
  qed
qed simp

lemma put_fold_swap:
  "k \<notin> key ` set es \<Longrightarrow>
   put k v (fold (\<lambda>e s. put (key e) (f e (get s (key e))) s) es s)
     = fold (\<lambda>e s. put (key e) (f e (get s (key e))) s) es (put k v s)"
proof (induction es arbitrary: s)
  case (Cons a es)
  then have "k \<noteq> key a" by auto
  then have "put k v (put (key a) w s) = put (key a) w (put k v s)" for w by (rule put_swap)
  with Cons \<open>k \<noteq> key a\<close> show ?case by (simp add: get_put)
qed simp

lemma live_fold:
  "live s k \<Longrightarrow> live (fold (\<lambda>e s. put (key e) (f e (get s (key e))) s) es s) k"
  by (induction es arbitrary: s) (auto simp: live_put)

text \<open>Undoing an update of every key of a list restores the state, whatever the order.\<close>

lemma fold_cancel:
  assumes "distinct (map key es)" "\<forall>e \<in> set es. live s (key e)"
    and "\<And>e v. g e (f e v) = v"
  shows "fold (\<lambda>e s. put (key e) (g e (get s (key e))) s) es
           (fold (\<lambda>e s. put (key e) (f e (get s (key e))) s) es s) = s"
  using assms(1,2)
proof (induction es arbitrary: s)
  case (Cons a es)
  let ?F = "fold (\<lambda>e s. put (key e) (f e (get s (key e))) s) es"
  have a: "key a \<notin> key ` set es" using Cons.prems by auto
  let ?s = "put (key a) (f a (get s (key a))) s"
  have "put (key a) (g a (get (?F ?s) (key a))) (?F ?s) = ?F (put (key a) (get s (key a)) ?s)"
    using a by (simp add: get_fold_other put_fold_swap get_put assms(3))
  also have "put (key a) (get s (key a)) ?s = s" using Cons.prems by (simp add: put_put put_get)
  finally show ?case using Cons by simp
qed simp

end

section \<open>Sequences of calls\<close>

text \<open>Sequences of calls, on a model and on its specification.\<close>

fun run_calls :: "('c \<Rightarrow> 's \<Rightarrow> 'r \<times> 's) \<Rightarrow> 'c list \<Rightarrow> 's \<Rightarrow> 'r list \<times> 's" where
  "run_calls step [] s = ([], s)"
| "run_calls step (c # cs) s =
    (let (r, s') = step c s; (rs, s'') = run_calls step cs s' in (r # rs, s''))"

fun run_allowed :: "('c \<Rightarrow> 'd \<Rightarrow> 'r \<Rightarrow> 'd \<Rightarrow> bool) \<Rightarrow> 'c list \<Rightarrow> 'r list \<Rightarrow> 'd \<Rightarrow> 'd \<Rightarrow> bool" where
  "run_allowed spec [] [] d d' \<longleftrightarrow> d' = d"
| "run_allowed spec (c # cs) (r # rs) d d'' \<longleftrightarrow> (\<exists>d'. spec c d r d' \<and> run_allowed spec cs rs d' d'')"
| "run_allowed spec _ _ d d' \<longleftrightarrow> False"

text \<open>
  The contract between a component with state and its specification: a step keeps the invariant and
  gives an answer the specification allows. Sequences of calls follow.
\<close>

locale simulation =
  fixes step :: "'c \<Rightarrow> 's \<Rightarrow> 'r \<times> 's" and inv :: "'s \<Rightarrow> bool" and abst :: "'s \<Rightarrow> 'd"
    and allows :: "'c \<Rightarrow> 'd \<Rightarrow> 'r \<Rightarrow> 'd \<Rightarrow> bool" and fits :: "'c \<Rightarrow> 'd \<Rightarrow> bool"
  assumes step_allowed: "inv s \<Longrightarrow> fits c (abst s) \<Longrightarrow> step c s = (r, s') \<Longrightarrow>
      inv s' \<and> allows c (abst s) r (abst s')"
    and fits_stable: "allows c d r d' \<Longrightarrow> fits b d' = fits b d"
begin

lemma run_refines:
  assumes "inv s" "\<forall>c \<in> set cs. fits c (abst s)"
  shows "inv (snd (run_calls step cs s))
    \<and> run_allowed allows cs (fst (run_calls step cs s)) (abst s) (abst (snd (run_calls step cs s)))"
  using assms
proof (induction cs arbitrary: s)
  case (Cons c cs)
  obtain r s' where st: "step c s = (r, s')" by fastforce
  with Cons.prems have s': "inv s'" "allows c (abst s) r (abst s')" using step_allowed by auto
  then have "\<forall>c \<in> set cs. fits c (abst s')" using Cons.prems fits_stable by auto
  from Cons.IH [OF s'(1) this] s'(2) show ?case by (auto simp: st split: prod.splits)
qed simp

end

end
