(* ===== verification/User_Namespace.thy ===== *)
theory User_Namespace
  imports Prelude
begin

unbundle bit_operations_syntax

text \<open>
  Guest user namespaces, from \<^verbatim>\<open>src/native/shroot/src/user_namespace.c\<close>: the policy page of a
  namespace with its two identity maps, the walk of an identifier through the chain of maps,
  the capability rule, publication of a map, and the per-user accounting that charges a
  resource to the whole chain of creators.

  A \<open>struct md_user_namespace *\<close> is the list of the object's address and the addresses of
  its ancestors, innermost first (type \<open>ns_ptr\<close>); \<open>NULL\<close>, the launch's initial namespace, is
  the empty list. The \<open>parent\<close> field is written once, before the pointer escapes its creator,
  so a pointer's tail and the field never disagree (\<open>ns_wf\<close> below); everything mutable (reference counts, pages,
  accounts) is in the store, at the object's address, and is shared by every pointer to it.
  A \<open>struct md_user_charge *\<close> is the namespace that owns the account list and the account's
  user, which is unique in that list.
\<close>

section \<open>Data\<close>

definition CAP_SETGID :: nat where "CAP_SETGID = 6"
definition CAP_SETUID :: nat where "CAP_SETUID = 7"
definition CAP_SYS_ADMIN :: nat where "CAP_SYS_ADMIN = 21"
definition CAP_SETFCAP :: nat where "CAP_SETFCAP = 31"

definition MD_USER_OVERFLOW_ID :: u32 where "MD_USER_OVERFLOW_ID = 65534"
definition MD_USER_MAP_EXTENTS :: nat where "MD_USER_MAP_EXTENTS = 340"
definition MD_USER_NAMESPACE_DEPTH :: nat where "MD_USER_NAMESPACE_DEPTH = 33"

text \<open>\<open>enum md_user_resource\<close>: indices of the limit and count arrays.\<close>

definition MD_USER_NAMESPACES :: nat where "MD_USER_NAMESPACES = 0"
definition MD_USER_INOTIFY_INSTANCES :: nat where "MD_USER_INOTIFY_INSTANCES = 1"
definition MD_USER_INOTIFY_WATCHES :: nat where "MD_USER_INOTIFY_WATCHES = 2"
definition MD_USER_RESOURCE_COUNT :: nat where "MD_USER_RESOURCE_COUNT = 3"

definition NS_MAGIC :: u32 where "NS_MAGIC = 0x4d44554e"
definition NS_VERSION :: u32 where "NS_VERSION = 4"

record ns_key =
  key_device :: u64
  key_inode :: u64
  key_generation :: u64

definition null_key :: ns_key where
  "null_key = \<lparr>key_device = 0, key_inode = 0, key_generation = 0\<rparr>"

record id_extent =
  inside :: u32
  outside :: u32
  extent_count :: u32

text \<open>
  \<open>struct namespace_page\<close>. An \<open>id_map\<close> is the list of its first \<open>count\<close> extents: the
  release store of \<open>count\<close> is what publishes them.
\<close>

record namespace_page =
  magic :: u32
  version :: u32
  depth :: nat
  owner :: u32
  group :: u32
  creator_setfcap :: u32
  page_inode :: u64
  page_parent :: ns_key
  groups_allowed :: u32
  limits :: "u32 list"
  uid_map :: "id_extent list"
  gid_map :: "id_extent list"

type_synonym ns_ptr = "nat list"

record user_charge =
  charge_uid :: u32
  charge_count :: "u32 list"
  charge_references :: u64

record ns_object =
  references :: u32
  parent :: ns_ptr
  object_id :: ns_key
  object_fd :: int
  writer :: bool
  page :: namespace_page
  accounts :: "user_charge list"
  charge :: "u32 option" \<comment> \<open>account of the parent namespace this one is charged to\<close>

record user_store =
  ns_heap :: "nat \<Rightarrow> ns_object option"
  initial_accounts :: "user_charge list"
  initial_limits :: "u32 list"

type_synonym charge_ptr = "ns_ptr \<times> u32"

text \<open>The zero page and object: what \<open>calloc\<close> and a fresh \<open>memfd\<close> hold.\<close>

definition zero_page :: namespace_page where
  "zero_page = \<lparr>magic = 0, version = 0, depth = 0, owner = 0, group = 0, creator_setfcap = 0,
     page_inode = 0, page_parent = null_key, groups_allowed = 0, limits = [0, 0, 0],
     uid_map = [], gid_map = []\<rparr>"

definition zero_object :: ns_object where
  "zero_object = \<lparr>references = 0, parent = [], object_id = null_key, object_fd = 0, writer = False,
     page = zero_page, accounts = [], charge = None\<rparr>"

definition initial_store :: user_store where
  "initial_store = \<lparr>ns_heap = (\<lambda>_. None), initial_accounts = [],
     initial_limits = [INT_MAX, 128, 8192]\<rparr>"

text \<open>Dereferencing. No live pointer names a free cell; the zero object stands for one.\<close>

definition ns_object :: "user_store \<Rightarrow> nat \<Rightarrow> ns_object" where
  "ns_object s a = (case ns_heap s a of Some ob \<Rightarrow> ob | None \<Rightarrow> zero_object)"

definition ns_page :: "user_store \<Rightarrow> nat \<Rightarrow> namespace_page" where
  "ns_page s a = page (ns_object s a)"

definition ns_update :: "nat \<Rightarrow> (ns_object \<Rightarrow> ns_object) \<Rightarrow> user_store \<Rightarrow> user_store" where
  "ns_update a f s = s\<lparr>ns_heap := (ns_heap s)(a \<mapsto> f (ns_object s a))\<rparr>"

definition ns_put :: "nat \<Rightarrow> ns_object option \<Rightarrow> user_store \<Rightarrow> user_store" where
  "ns_put a ob s = s\<lparr>ns_heap := (ns_heap s)(a := ob)\<rparr>"

definition ns_free :: "nat \<Rightarrow> user_store \<Rightarrow> user_store" where
  "ns_free a = ns_put a None"

text \<open>\<open>n->page->maps[!!group]\<close>\<close>

definition ns_map :: "user_store \<Rightarrow> nat \<Rightarrow> bool \<Rightarrow> id_extent list" where
  "ns_map s a grp = (if grp then gid_map (ns_page s a) else uid_map (ns_page s a))"

section \<open>Identity of namespaces\<close>

definition md_user_namespace_key :: "user_store \<Rightarrow> ns_ptr \<Rightarrow> ns_key" where
  "md_user_namespace_key s n = (case n of [] \<Rightarrow> null_key | a # _ \<Rightarrow> object_id (ns_object s a))"

definition same_id :: "ns_key \<Rightarrow> ns_key \<Rightarrow> bool" where
  "same_id a b \<longleftrightarrow> key_device a = key_device b \<and> key_inode a = key_inode b
     \<and> key_generation a = key_generation b"

definition same :: "user_store \<Rightarrow> ns_ptr \<Rightarrow> ns_ptr \<Rightarrow> bool" where
  "same s m n \<longleftrightarrow> m = n \<or> (m \<noteq> [] \<and> n \<noteq> []
     \<and> same_id (md_user_namespace_key s m) (md_user_namespace_key s n))"

definition md_user_namespace_parent :: "ns_ptr \<Rightarrow> ns_ptr" where
  "md_user_namespace_parent n = (case n of [] \<Rightarrow> [] | _ # up \<Rightarrow> up)"

definition md_user_namespace_inode :: "user_store \<Rightarrow> ns_ptr \<Rightarrow> u64" where
  "md_user_namespace_inode s n = (case n of [] \<Rightarrow> 1 | a # _ \<Rightarrow> page_inode (ns_page s a))"

definition md_user_namespace_creator :: "user_store \<Rightarrow> ns_ptr \<Rightarrow> u32" where
  "md_user_namespace_creator s n = (case n of [] \<Rightarrow> 0 | a # _ \<Rightarrow> owner (ns_page s a))"

definition md_user_namespace_depth :: "user_store \<Rightarrow> ns_ptr \<Rightarrow> nat" where
  "md_user_namespace_depth s n = (case n of [] \<Rightarrow> 0 | a # _ \<Rightarrow> depth (ns_page s a))"

fun md_user_namespace_contains :: "user_store \<Rightarrow> ns_ptr \<Rightarrow> ns_ptr \<Rightarrow> bool" where
  "md_user_namespace_contains s ancestor n =
     (if same s n ancestor then True
      else case n of [] \<Rightarrow> False | _ # up \<Rightarrow> md_user_namespace_contains s ancestor up)"

declare md_user_namespace_contains.simps [simp del]

section \<open>Identifier translation\<close>

fun translate_ranges :: "id_extent list \<Rightarrow> u32 \<Rightarrow> bool \<Rightarrow> u32" where
  "translate_ranges [] x reverse = UINT32_MAX"
| "translate_ranges (r # rs) x reverse =
     (let start = (if reverse then outside r else inside r)
      in if start \<le> x \<and> x - start < extent_count r
         then (if reverse then inside r else outside r) + (x - start)
         else translate_ranges rs x reverse)"

definition translate :: "id_extent list \<Rightarrow> u32 \<Rightarrow> bool \<Rightarrow> u32" where
  "translate m x reverse = (if x = UINT32_MAX then UINT32_MAX else translate_ranges m x reverse)"

fun md_user_namespace_into :: "user_store \<Rightarrow> ns_ptr \<Rightarrow> bool \<Rightarrow> u32 \<Rightarrow> u32" where
  "md_user_namespace_into s [] grp x = x"
| "md_user_namespace_into s (a # up) grp x =
     (if x = UINT32_MAX then x
      else md_user_namespace_into s up grp (translate (ns_map s a grp) x False))"

fun md_user_namespace_from :: "user_store \<Rightarrow> ns_ptr \<Rightarrow> bool \<Rightarrow> u32 \<Rightarrow> u32" where
  "md_user_namespace_from s [] grp x = x"
| "md_user_namespace_from s (a # up) grp x =
     (if x = UINT32_MAX then x
      else translate (ns_map s a grp) (md_user_namespace_from s up grp x) True)"

section \<open>Capabilities over a namespace\<close>

fun capable_walk :: "user_store \<Rightarrow> ns_ptr \<Rightarrow> u32 \<Rightarrow> u64 \<Rightarrow> ns_ptr \<Rightarrow> nat \<Rightarrow> bool" where
  "capable_walk s actor uid caps target cap =
     (if same s actor target then bit caps cap
      else case target of
        [] \<Rightarrow> False
      | a # up \<Rightarrow> if same s up actor \<and> owner (ns_page s a) = uid then True
                  else capable_walk s actor uid caps up cap)"

declare capable_walk.simps [simp del]

definition md_user_namespace_capable ::
  "user_store \<Rightarrow> ns_ptr \<Rightarrow> u32 \<Rightarrow> u64 \<Rightarrow> ns_ptr \<Rightarrow> nat \<Rightarrow> bool" where
  "md_user_namespace_capable s actor uid caps target cap =
     (if cap \<ge> 64 then False else capable_walk s actor uid caps target cap)"

record user_authority =
  auth_namespace :: ns_ptr
  auth_uid :: u32
  auth_gid :: u32
  auth_caps :: u64

definition capable :: "user_store \<Rightarrow> user_authority option \<Rightarrow> ns_ptr \<Rightarrow> nat \<Rightarrow> bool" where
  "capable s a n cap = (case a of None \<Rightarrow> False
     | Some au \<Rightarrow> md_user_namespace_capable s (auth_namespace au) (auth_uid au) (auth_caps au) n cap)"

section \<open>Publication of maps\<close>

text \<open>The \<open>uint64_t\<close> sums of two 32-bit values cannot wrap, so they are sums of naturals.\<close>

definition overlap :: "u32 \<Rightarrow> u32 \<Rightarrow> u32 \<Rightarrow> u32 \<Rightarrow> bool" where
  "overlap a an b bn \<longleftrightarrow> unat a + unat an > unat b \<and> unat b + unat bn > unat a"

fun covered :: "user_store \<Rightarrow> ns_ptr \<Rightarrow> bool \<Rightarrow> u32 \<Rightarrow> u32 \<Rightarrow> bool" where
  "covered s [] grp start cnt = True"
| "covered s (a # up) grp start cnt =
     (case find (\<lambda>r. start \<ge> inside r
          \<and> unat start + unat cnt \<le> unat (inside r) + unat (extent_count r)) (ns_map s a grp) of
        None \<Rightarrow> False
      | Some r \<Rightarrow> covered s up grp (outside r + (start - inside r)) cnt)"

definition md_user_namespace_groups_allowed :: "user_store \<Rightarrow> ns_ptr \<Rightarrow> bool" where
  "md_user_namespace_groups_allowed s n =
     (case n of [] \<Rightarrow> True | a # _ \<Rightarrow> groups_allowed (ns_page s a) \<noteq> 0)"

definition md_user_namespace_may_setgroups :: "user_store \<Rightarrow> ns_ptr \<Rightarrow> bool" where
  "md_user_namespace_may_setgroups s n =
     (case n of [] \<Rightarrow> True
      | a # _ \<Rightarrow> md_user_namespace_groups_allowed s n \<and> ns_map s a True \<noteq> [])"

definition md_user_namespace_map_admit ::
  "user_store \<Rightarrow> ns_ptr \<Rightarrow> bool \<Rightarrow> user_authority option \<Rightarrow> unit result" where
  "md_user_namespace_map_admit s n grp opener =
     (case (n, opener) of
        (a # up, Some op) \<Rightarrow>
          if \<not> writer (ns_object s a)
             \<or> (\<not> same s (auth_namespace op) n \<and> \<not> same s (auth_namespace op) up) then Inl EPERM
          else if ns_map s a grp \<noteq> [] then Inl EPERM
          else if \<not> capable s opener n CAP_SYS_ADMIN then Inl EPERM
          else Inr ()
      | _ \<Rightarrow> Inl EPERM)"

definition extent_valid :: "id_extent \<Rightarrow> bool" where
  "extent_valid r \<longleftrightarrow> extent_count r \<noteq> 0
     \<and> \<not> unat (inside r) + unat (extent_count r) > unat UINT32_MAX
     \<and> \<not> unat (outside r) + unat (extent_count r) > unat UINT32_MAX"

definition extents_overlap :: "id_extent \<Rightarrow> id_extent \<Rightarrow> bool" where
  "extents_overlap r q \<longleftrightarrow> overlap (inside r) (extent_count r) (inside q) (extent_count q)
     \<or> overlap (outside r) (extent_count r) (outside q) (extent_count q)"

text \<open>The validation loop: entry \<open>i\<close> is checked against the entries \<open>j < i\<close> before it.\<close>

fun ranges_valid :: "id_extent list \<Rightarrow> id_extent list \<Rightarrow> bool" where
  "ranges_valid earlier [] = True"
| "ranges_valid earlier (r # rs) =
     (extent_valid r \<and> (\<forall>q \<in> set earlier. \<not> extents_overlap r q)
      \<and> ranges_valid (earlier @ [r]) rs)"

definition set_map :: "bool \<Rightarrow> id_extent list \<Rightarrow> ns_object \<Rightarrow> ns_object" where
  "set_map grp m ob = ob\<lparr>page := (if grp then (page ob)\<lparr>gid_map := m\<rparr> else (page ob)\<lparr>uid_map := m\<rparr>)\<rparr>"

definition map_privileged ::
  "user_store \<Rightarrow> ns_ptr \<Rightarrow> bool \<Rightarrow> user_authority option \<Rightarrow> user_authority option \<Rightarrow> bool" where
  "map_privileged s up grp opener auth_writer \<longleftrightarrow>
     (let cap = (if grp then CAP_SETGID else CAP_SETUID)
      in capable s opener up cap \<and> capable s auth_writer up cap)"

text \<open>What an unprivileged opener may publish: one identifier, its own.\<close>

definition own_id_only ::
  "user_store \<Rightarrow> ns_ptr \<Rightarrow> bool \<Rightarrow> user_authority \<Rightarrow> id_extent list \<Rightarrow> bool" where
  "own_id_only s n grp op ranges \<longleftrightarrow>
     (case (n, ranges) of
        (a # up, [r]) \<Rightarrow> extent_count r = 1 \<and> owner (ns_page s a) = auth_uid op
          \<and> md_user_namespace_into s up grp (outside r) = (if grp then auth_gid op else auth_uid op)
          \<and> \<not> (grp \<and> md_user_namespace_groups_allowed s n)
      | _ \<Rightarrow> False)"

definition range_admitted ::
  "user_store \<Rightarrow> ns_ptr \<Rightarrow> bool \<Rightarrow> user_authority \<Rightarrow> id_extent \<Rightarrow> bool" where
  "range_admitted s n grp op r \<longleftrightarrow>
     (let a = hd n; up = tl n
      in \<not> (\<not> grp \<and> outside r = 0
             \<and> \<not> (if same s (auth_namespace op) n then creator_setfcap (ns_page s a) \<noteq> 0
                   else capable s (Some op) up CAP_SETFCAP))
         \<and> covered s up grp (outside r) (extent_count r))"

definition md_user_namespace_map ::
  "user_store \<Rightarrow> ns_ptr \<Rightarrow> bool \<Rightarrow> user_authority option \<Rightarrow> user_authority option
     \<Rightarrow> id_extent list \<Rightarrow> user_store result" where
  "md_user_namespace_map s n grp opener auth_writer ranges =
     (case md_user_namespace_map_admit s n grp opener of
        Inl e \<Rightarrow> Inl e
      | Inr _ \<Rightarrow>
         let op = the opener; a = hd n; up = tl n in
         if ranges = [] \<or> length ranges > MD_USER_MAP_EXTENTS then Inl EINVAL
         else if \<not> ranges_valid [] ranges then Inl EINVAL
         else if \<not> map_privileged s up grp opener auth_writer
                 \<and> \<not> own_id_only s n grp op ranges then Inl EPERM
         else if \<not> (\<forall>r \<in> set ranges. range_admitted s n grp op r) then Inl EPERM
         else Inr (ns_update a (set_map grp ranges) s))"

definition md_user_namespace_setgroups :: "user_store \<Rightarrow> ns_ptr \<Rightarrow> bool \<Rightarrow> user_store result" where
  "md_user_namespace_setgroups s n allowed =
     (case n of
        [] \<Rightarrow> Inl EPERM
      | a # _ \<Rightarrow>
          if \<not> writer (ns_object s a) then Inl EPERM
          else if allowed then (if md_user_namespace_groups_allowed s n then Inr s else Inl EPERM)
          else if ns_map s a True \<noteq> [] then Inl EPERM
          else Inr (ns_update a (\<lambda>ob. ob\<lparr>page := (page ob)\<lparr>groups_allowed := 0\<rparr>\<rparr>) s))"

definition md_user_namespace_extents ::
  "user_store \<Rightarrow> ns_ptr \<Rightarrow> bool \<Rightarrow> nat \<Rightarrow> id_extent list result" where
  "md_user_namespace_extents s n grp capacity =
     (let m = (case n of [] \<Rightarrow> [\<lparr>inside = 0, outside = 0, extent_count = UINT32_MAX\<rparr>]
                 | a # _ \<Rightarrow> ns_map s a grp)
      in if capacity < length m then Inl ERANGE else Inr m)"

text \<open>The checks \<open>valid_page\<close> and publication make of one map under its parent namespace.\<close>

definition map_valid_in :: "user_store \<Rightarrow> ns_ptr \<Rightarrow> bool \<Rightarrow> id_extent list \<Rightarrow> bool" where
  "map_valid_in s up grp m \<longleftrightarrow> length m \<le> MD_USER_MAP_EXTENTS \<and> ranges_valid [] m
     \<and> (\<forall>r \<in> set m. covered s up grp (outside r) (extent_count r))"

section \<open>Well-formed namespaces\<close>

definition map_wf :: "id_extent list \<Rightarrow> bool" where
  "map_wf m \<longleftrightarrow> (\<forall>r \<in> set m. extent_valid r) \<and> sorted_wrt (\<lambda>r q. \<not> extents_overlap r q) m"

fun ns_wf :: "user_store \<Rightarrow> ns_ptr \<Rightarrow> bool" where
  "ns_wf s [] = True"
| "ns_wf s (a # up) = (ns_heap s a \<noteq> None \<and> parent (ns_object s a) = up
     \<and> map_valid_in s up False (ns_map s a False) \<and> map_valid_in s up True (ns_map s a True)
     \<and> ns_wf s up)"

text \<open>Membership of an identifier in an extent, read forwards or in reverse.\<close>

definition ext_start :: "bool \<Rightarrow> id_extent \<Rightarrow> u32" where
  "ext_start reverse r = (if reverse then outside r else inside r)"

definition in_extent :: "bool \<Rightarrow> u32 \<Rightarrow> id_extent \<Rightarrow> bool" where
  "in_extent reverse x r \<longleftrightarrow> unat (ext_start reverse r) \<le> unat x
     \<and> unat x < unat (ext_start reverse r) + unat (extent_count r)"

text \<open>The keys of a chain of namespaces.\<close>

definition chain_keys :: "user_store \<Rightarrow> ns_ptr \<Rightarrow> ns_key list" where
  "chain_keys s n = map (\<lambda>a. object_id (ns_object s a)) n"

section \<open>Translation through one map\<close>

lemma overlap_sym: "overlap a an b bn = overlap b bn a an"
  by (auto simp: overlap_def)

lemma extents_overlap_sym: "extents_overlap r q = extents_overlap q r"
  by (simp add: extents_overlap_def overlap_sym)

lemma ranges_valid_iff:
  "ranges_valid earlier rs \<longleftrightarrow>
     (\<forall>r \<in> set rs. extent_valid r \<and> (\<forall>q \<in> set earlier. \<not> extents_overlap r q))
     \<and> sorted_wrt (\<lambda>r q. \<not> extents_overlap r q) rs"
  by (induction rs arbitrary: earlier) (auto simp: extents_overlap_sym)

lemma ranges_valid_map_wf: "ranges_valid [] m \<longleftrightarrow> map_wf m"
  by (auto simp: ranges_valid_iff map_wf_def)

lemma translate_ranges_cons:
  "translate_ranges (r # rs) x reverse =
     (if in_extent reverse x r then ext_start (\<not> reverse) r + (x - ext_start reverse r)
      else translate_ranges rs x reverse)"
  by (auto simp: in_extent_def ext_start_def Let_def word_interval_nat)

declare translate_ranges.simps(2) [simp del]

lemma ext_shift_unat:
  assumes "extent_valid r" "in_extent reverse x r"
  shows "unat (ext_start (\<not> reverse) r + (x - ext_start reverse r))
       = unat (ext_start (\<not> reverse) r) + (unat x - unat (ext_start reverse r))"
proof -
  have le: "ext_start reverse r \<le> x"
    using assms(2) by (simp add: in_extent_def word_le_nat_alt)
  have d: "unat (x - ext_start reverse r) = unat x - unat (ext_start reverse r)"
    using le by (rule unat_sub)
  have b: "unat (ext_start (\<not> reverse) r) + unat (extent_count r) < 2 ^ 32"
    using assms(1) by (auto simp: extent_valid_def ext_start_def unat_UINT32_MAX)
  have "unat x - unat (ext_start reverse r) < unat (extent_count r)"
    using assms(2) by (auto simp: in_extent_def)
  with b have "unat (ext_start (\<not> reverse) r) + unat (x - ext_start reverse r) < 2 ^ 32"
    unfolding d by linarith
  then show ?thesis using d by (simp add: unat_word_ariths)
qed

lemma in_extent_shift:
  assumes "extent_valid r" "in_extent reverse x r"
  shows "in_extent (\<not> reverse) (ext_start (\<not> reverse) r + (x - ext_start reverse r)) r"
  using assms ext_shift_unat [OF assms] by (auto simp: in_extent_def)

lemma in_extent_shift_max:
  assumes "extent_valid r" "in_extent reverse x r"
  shows "ext_start (\<not> reverse) r + (x - ext_start reverse r) \<noteq> UINT32_MAX"
  using assms ext_shift_unat [OF assms]
  by (auto simp: neq_UINT32_MAX_iff in_extent_def extent_valid_def ext_start_def unat_UINT32_MAX split: if_splits)

lemma in_extent_not_overlap:
  assumes "\<not> extents_overlap r q" "in_extent rv x r"
  shows "\<not> in_extent rv x q"
  using assms by (auto simp: extents_overlap_def overlap_def in_extent_def ext_start_def split: if_splits)

lemma translate_ranges_hit:
  assumes "map_wf m" "r \<in> set m" "in_extent rv x r"
  shows "translate_ranges m x rv = ext_start (\<not> rv) r + (x - ext_start rv r)"
  using assms
proof (induction m)
  case (Cons q m)
  show ?case
  proof (cases "r = q")
    case True
    then show ?thesis using Cons.prems by (simp add: translate_ranges_cons)
  next
    case False
    then have "r \<in> set m" using Cons.prems by simp
    then have "\<not> extents_overlap r q"
      using Cons.prems(1) by (auto simp: map_wf_def extents_overlap_sym)
    then have "\<not> in_extent rv x q" using Cons.prems(3) by (rule in_extent_not_overlap)
    with Cons \<open>r \<in> set m\<close> show ?thesis by (simp add: translate_ranges_cons map_wf_def)
  qed
qed simp

lemma translate_ranges_miss:
  "(\<forall>r \<in> set m. \<not> in_extent rv x r) \<Longrightarrow> translate_ranges m x rv = UINT32_MAX"
  by (induction m) (auto simp: translate_ranges_cons)

lemma translate_ranges_cases:
  assumes "translate_ranges m x rv \<noteq> UINT32_MAX"
  obtains r where "r \<in> set m" "in_extent rv x r"
  using assms translate_ranges_miss by blast

lemma translate_inverse:
  assumes "map_wf m" "translate m x rv = y" "y \<noteq> UINT32_MAX"
  shows "translate m y (\<not> rv) = x"
proof -
  from assms have x: "x \<noteq> UINT32_MAX" and t: "translate_ranges m x rv = y"
    by (auto simp: translate_def split: if_splits)
  then obtain r where r: "r \<in> set m" "in_extent rv x r"
    using assms(3) translate_ranges_cases by blast
  from assms(1) r(1) have v: "extent_valid r" by (simp add: map_wf_def)
  have y: "y = ext_start (\<not> rv) r + (x - ext_start rv r)"
    using translate_ranges_hit [OF assms(1) r] t by simp
  have "translate_ranges m y (\<not> rv) = ext_start rv r + (y - ext_start (\<not> rv) r)"
    using translate_ranges_hit [OF assms(1) r(1) in_extent_shift [OF v r(2)]] y by simp
  then show ?thesis using assms(3) y by (simp add: translate_def)
qed

section \<open>Translation through the chain of maps\<close>

lemma map_wf_of_valid_in: "map_valid_in s up grp m \<Longrightarrow> map_wf m"
  by (simp add: map_valid_in_def ranges_valid_map_wf)

lemma ns_wf_map: "ns_wf s (a # up) \<Longrightarrow> map_valid_in s up grp (ns_map s a grp)"
  by (cases grp) auto

lemma ns_wf_map_wf: "ns_wf s (a # up) \<Longrightarrow> map_wf (ns_map s a grp)"
  by (blast intro: map_wf_of_valid_in ns_wf_map)

lemma translate_max [simp]: "translate m UINT32_MAX rv = UINT32_MAX"
  by (simp add: translate_def)

lemma into_max [simp]: "md_user_namespace_into s n grp UINT32_MAX = UINT32_MAX"
  by (cases n) simp_all

lemma from_max [simp]: "md_user_namespace_from s n grp UINT32_MAX = UINT32_MAX"
  by (cases n) simp_all

lemma from_into:
  "ns_wf s n \<Longrightarrow> md_user_namespace_into s n grp x = y \<Longrightarrow> y \<noteq> UINT32_MAX
     \<Longrightarrow> md_user_namespace_from s n grp y = x"
proof (induction n arbitrary: x)
  case (Cons a up)
  let ?t = "translate (ns_map s a grp) x False"
  from Cons.prems have up: "md_user_namespace_into s up grp ?t = y"
    by (auto split: if_splits)
  then have "?t \<noteq> UINT32_MAX" using Cons.prems(3) by auto
  then have "translate (ns_map s a grp) ?t True = x"
    using translate_inverse [OF ns_wf_map_wf [OF Cons.prems(1)] refl, of grp x False] by simp
  moreover have "md_user_namespace_from s up grp y = ?t"
    using Cons.IH [OF _ up Cons.prems(3)] Cons.prems(1) by simp
  ultimately show ?case using Cons.prems(3) by simp
qed simp

lemma into_from:
  "ns_wf s n \<Longrightarrow> md_user_namespace_from s n grp y = x \<Longrightarrow> x \<noteq> UINT32_MAX
     \<Longrightarrow> md_user_namespace_into s n grp x = y"
proof (induction n arbitrary: x)
  case (Cons a up)
  let ?t = "md_user_namespace_from s up grp y"
  from Cons.prems have t: "translate (ns_map s a grp) ?t True = x" 
    by (auto split: if_splits)
  then have t_ok: "?t \<noteq> UINT32_MAX" using Cons.prems(3) by auto
  have "translate (ns_map s a grp) x False = ?t"
    using translate_inverse [OF ns_wf_map_wf [OF Cons.prems(1)] t Cons.prems(3)] by simp
  moreover have "md_user_namespace_into s up grp ?t = y"
    using Cons.IH [OF _ refl t_ok] Cons.prems(1) by simp
  ultimately show ?case using Cons.prems(3) by simp
qed simp

text \<open>
  The contract the clients of the maps rely on: what the two directions do to the reserved
  identifier, and that each undoes the other wherever it answers.
\<close>

locale id_translation =
  fixes wf :: "'n \<Rightarrow> bool"
    and into_ids :: "'n \<Rightarrow> bool \<Rightarrow> u32 \<Rightarrow> u32"
    and from_ids :: "'n \<Rightarrow> bool \<Rightarrow> u32 \<Rightarrow> u32"
  assumes into_reserved: "into_ids n grp UINT32_MAX = UINT32_MAX"
    and from_reserved: "from_ids n grp UINT32_MAX = UINT32_MAX"
    and from_into_id: "wf n \<Longrightarrow> into_ids n grp x = y \<Longrightarrow> y \<noteq> UINT32_MAX \<Longrightarrow> from_ids n grp y = x"
    and into_from_id: "wf n \<Longrightarrow> from_ids n grp y = x \<Longrightarrow> x \<noteq> UINT32_MAX \<Longrightarrow> into_ids n grp x = y"
begin

lemma mapped_iff:
  assumes "wf n" "x \<noteq> UINT32_MAX" "y \<noteq> UINT32_MAX"
  shows "into_ids n grp x = y \<longleftrightarrow> from_ids n grp y = x"
  using assms from_into_id into_from_id by blast

lemma into_injective:
  assumes "wf n" "into_ids n grp x = into_ids n grp x'" "into_ids n grp x \<noteq> UINT32_MAX"
  shows "x = x'"
  using assms from_into_id by metis

lemma from_injective:
  assumes "wf n" "from_ids n grp y = from_ids n grp y'" "from_ids n grp y \<noteq> UINT32_MAX"
  shows "y = y'"
  using assms into_from_id by metis

lemma visible_of_mapped:
  assumes "wf n" "into_ids n grp x \<noteq> UINT32_MAX"
  shows "from_ids n grp (into_ids n grp x) = x"
  using assms from_into_id by blast

end

interpretation ids: id_translation "ns_wf s" "md_user_namespace_into s" "md_user_namespace_from s" for s
  by unfold_locales (auto intro: from_into into_from)

section \<open>Every admitted identifier is mapped\<close>

lemma find_extent_in:
  assumes "find P m = Some r"
  shows "r \<in> set m \<and> P r"
  using assms by (auto simp: find_Some_iff)

lemma covered_into:
  assumes "ns_wf s n" "covered s n grp start cnt"
    and "unat start + unat cnt \<le> 2 ^ 32 - 1" "unat i < unat cnt"
  shows "md_user_namespace_into s n grp (start + i) \<noteq> UINT32_MAX"
  using assms
proof (induction n arbitrary: start)
  case Nil
  then have "unat (start + i) = unat start + unat i" by (simp add: unat_word_ariths)
  with Nil show ?case by (simp add: neq_UINT32_MAX_iff)
next
  case (Cons a up)
  from Cons.prems(2) obtain r where
    r: "find (\<lambda>r. inside r \<le> start \<and> unat start + unat cnt \<le> unat (inside r) + unat (extent_count r))
          (ns_map s a grp) = Some r"
    and up: "covered s up grp (outside r + (start - inside r)) cnt"
    by (auto split: option.splits)
  from find_extent_in [OF r] have rm: "r \<in> set (ns_map s a grp)" and le: "inside r \<le> start"
    and fits: "unat start + unat cnt \<le> unat (inside r) + unat (extent_count r)" by auto
  have wf: "map_wf (ns_map s a grp)" by (rule ns_wf_map_wf [OF Cons.prems(1)])
  then have v: "extent_valid r" using rm by (simp add: map_wf_def)
  have si: "unat (start + i) = unat start + unat i"
    using Cons.prems(3,4) by (simp add: unat_word_ariths)
  have ins: "in_extent False (start + i) r"
    using le fits si Cons.prems(4) by (simp add: in_extent_def ext_start_def word_le_nat_alt)
  have t: "translate_ranges (ns_map s a grp) (start + i) False = outside r + (start - inside r) + i"
    using translate_ranges_hit [OF wf rm ins] by (simp add: ext_start_def algebra_simps)
  have ne: "start + i \<noteq> UINT32_MAX"
    using si Cons.prems(3,4) by (simp add: neq_UINT32_MAX_iff)
  have in0: "in_extent False start r"
    using le fits Cons.prems(4) by (simp add: in_extent_def ext_start_def word_le_nat_alt)
  have "unat (outside r + (start - inside r)) = unat (outside r) + (unat start - unat (inside r))"
    using ext_shift_unat [OF v in0] by (simp add: ext_start_def)
  then have "unat (outside r + (start - inside r)) + unat cnt \<le> 2 ^ 32 - 1"
    using v fits le by (auto simp: extent_valid_def unat_UINT32_MAX word_le_nat_alt)
  from Cons.IH [OF _ up this Cons.prems(4)] Cons.prems(1) t ne show ?case
    by (simp add: translate_def)
qed

lemma wf_extent_into:
  assumes "ns_wf s (a # up)" "r \<in> set (ns_map s a grp)" "in_extent False x r"
  shows "md_user_namespace_into s (a # up) grp x \<noteq> UINT32_MAX"
proof -
  have valid: "map_valid_in s up grp (ns_map s a grp)" by (rule ns_wf_map [OF assms(1)])
  then have wf: "map_wf (ns_map s a grp)" by (rule map_wf_of_valid_in)
  have v: "extent_valid r" using wf assms(2) by (simp add: map_wf_def)
  have c: "covered s up grp (outside r) (extent_count r)"
    using valid assms(2) by (simp add: map_valid_in_def)
  have xle: "inside r \<le> x" using assms(3) by (simp add: in_extent_def ext_start_def word_le_nat_alt)
  have "unat (x - inside r) < unat (extent_count r)"
    using assms(3) xle by (auto simp: in_extent_def ext_start_def unat_sub)
  then have "md_user_namespace_into s up grp (outside r + (x - inside r)) \<noteq> UINT32_MAX"
    using covered_into [OF _ c] assms(1) v by (simp add: extent_valid_def unat_UINT32_MAX)
  moreover have "translate_ranges (ns_map s a grp) x False = outside r + (x - inside r)"
    using translate_ranges_hit [OF wf assms(2,3)] by (simp add: ext_start_def)
  moreover have "x \<noteq> UINT32_MAX"
    using assms(3) v by (auto simp: in_extent_def ext_start_def extent_valid_def neq_UINT32_MAX_iff unat_UINT32_MAX)
  ultimately show ?thesis by (simp add: translate_def)
qed

section \<open>Publication\<close>

lemma ns_object_update [simp]:
  "ns_object (ns_update a f s) b = (if b = a then f (ns_object s a) else ns_object s b)"
  by (simp add: ns_object_def ns_update_def)

lemma ns_heap_update_None [simp]:
  "ns_heap (ns_update a f s) b = None \<longleftrightarrow> b \<noteq> a \<and> ns_heap s b = None"
  by (simp add: ns_update_def)

lemma ns_page_update [simp]:
  "ns_page (ns_update a f s) b = (if b = a then page (f (ns_object s a)) else ns_page s b)"
  by (simp add: ns_page_def)

lemma ns_map_publish:
  "ns_map (ns_update a (set_map grp m) s) b g = (if b = a \<and> g = grp then m else ns_map s b g)"
  by (auto simp: ns_map_def set_map_def ns_page_def)

lemma parent_publish [simp]: "parent (set_map grp m ob) = parent ob"
  by (simp add: set_map_def)

text \<open>Only an empty map is ever replaced, so nothing already covered or translated changes.\<close>

lemma covered_publish:
  assumes "ns_map s a grp = []" "covered s n g start cnt"
  shows "covered (ns_update a (set_map grp m) s) n g start cnt"
  using assms(2)
proof (induction n arbitrary: start)
  case (Cons b up)
  show ?case
  proof (cases "b = a \<and> g = grp")
    case True
    with Cons.prems assms(1) show ?thesis by simp
  next
    case False
    then have "ns_map (ns_update a (set_map grp m) s) b g = ns_map s b g"
      by (auto simp: ns_map_publish)
    with Cons show ?thesis by (auto split: option.splits)
  qed
qed simp

lemma into_publish:
  assumes "ns_map s a grp = []" "md_user_namespace_into s n g x \<noteq> UINT32_MAX"
  shows "md_user_namespace_into (ns_update a (set_map grp m) s) n g x = md_user_namespace_into s n g x"
  using assms(2)
proof (induction n arbitrary: x)
  case (Cons b up)
  show ?case
  proof (cases "b = a \<and> g = grp")
    case True
    with Cons.prems assms(1) show ?thesis by (auto simp: translate_def split: if_splits)
  next
    case False
    with Cons show ?thesis by (auto simp: ns_map_publish split: if_splits)
  qed
qed simp

lemma map_valid_in_publish:
  assumes "ns_map s a grp = []" "map_valid_in s up g m"
  shows "map_valid_in (ns_update a (set_map grp r) s) up g m"
  using assms covered_publish by (auto simp: map_valid_in_def)

text \<open>The facts a successful publication gives, in the form the proofs use.\<close>

lemma map_admit_InrE:
  assumes "md_user_namespace_map_admit s n grp opener = Inr u"
  obtains a up op where "n = a # up" "opener = Some op" "writer (ns_object s a)"
    "same s (auth_namespace op) n \<or> same s (auth_namespace op) up"
    "ns_map s a grp = []" "capable s opener n CAP_SYS_ADMIN"
  using assms
  by (auto simp: md_user_namespace_map_admit_def split: list.splits option.splits if_splits)

lemma map_InrE:
  assumes "md_user_namespace_map s n grp opener wr ranges = Inr s'"
  obtains a up op where "n = a # up" "opener = Some op" "ns_map s a grp = []"
    "capable s opener n CAP_SYS_ADMIN"
    "ranges \<noteq> []" "length ranges \<le> MD_USER_MAP_EXTENTS" "ranges_valid [] ranges"
    "map_privileged s up grp opener wr \<or> own_id_only s n grp op ranges"
    "\<forall>r \<in> set ranges. range_admitted s n grp op r"
    "s' = ns_update a (set_map grp ranges) s"
proof -
  from assms obtain u where adm: "md_user_namespace_map_admit s n grp opener = Inr u"
    by (auto simp: md_user_namespace_map_def split: sum.splits)
  from map_admit_InrE [OF this] obtain a up op where
    n: "n = a # up" "opener = Some op" "ns_map s a grp = []" "capable s opener n CAP_SYS_ADMIN" by metis
  show thesis
    by (rule that [OF n])
      (use assms adm n in \<open>auto simp: md_user_namespace_map_def Let_def not_le split: if_splits\<close>)
qed

lemma map_publishes_valid:
  assumes "md_user_namespace_map s n grp opener wr ranges = Inr s'"
  shows "map_valid_in s (tl n) grp ranges"
  using assms by (rule map_InrE) (auto simp: map_valid_in_def range_admitted_def Let_def)

lemma map_keeps_ns_wf [inv_intros]:
  assumes pub: "md_user_namespace_map s n grp opener wr ranges = Inr s'"
    and n: "ns_wf s n" and m: "ns_wf s m"
  shows "ns_wf s' m"
proof -
  from pub obtain a up where a: "n = a # up" "ns_map s a grp = []"
    and s': "s' = ns_update a (set_map grp ranges) s" by (rule map_InrE)
  have val: "map_valid_in s up grp ranges" using map_publishes_valid [OF pub] a by simp
  have pa: "parent (ns_object s a) = up" using n a by simp
  show ?thesis using m
  proof (induction m)
    case (Cons b q)
    then have IH: "ns_wf s' q" and q: "parent (ns_object s b) = q"
      and mb: "\<And>g. map_valid_in s q g (ns_map s b g)"
      using ns_wf_map [OF Cons.prems] by auto
    have keep: "map_valid_in s' q g (ns_map s' b g)" for g
    proof (cases "b = a \<and> g = grp")
      case True
      with q pa val a s' show ?thesis by (simp add: ns_map_publish map_valid_in_publish)
    next
      case False
      then have "ns_map s' b g = ns_map s b g" unfolding s' by (auto simp: ns_map_publish)
      with mb [of g] a(2) show ?thesis unfolding s' by (simp add: map_valid_in_publish)
    qed
    show ?case using IH keep q Cons.prems by (auto simp: s')
  qed simp
qed

section \<open>Authority\<close>

lemma same_refl [simp]: "same s n n" by (simp add: same_def)

lemma same_sym: "same s m n \<longleftrightarrow> same s n m"
  by (auto simp: same_def same_id_def)

lemma capable_walk_contains:
  "capable_walk s actor uid caps target cap \<Longrightarrow> md_user_namespace_contains s actor target"
proof (induction target)
  case Nil
  then show ?case
    by (subst md_user_namespace_contains.simps)
      (auto simp: capable_walk.simps [of s actor uid caps "[]"] same_sym split: if_splits)
next
  case (Cons a up)
  show ?case
  proof (cases "same s actor (a # up)")
    case True
    then show ?thesis by (subst md_user_namespace_contains.simps) (simp add: same_sym)
  next
    case False
    with Cons.prems have "same s up actor \<or> capable_walk s actor uid caps up cap"
      by (subst (asm) capable_walk.simps) (auto split: if_splits)
    then have "md_user_namespace_contains s actor up"
    proof
      assume "same s up actor"
      then show ?thesis by (subst md_user_namespace_contains.simps) simp
    qed (rule Cons.IH)
    then show ?thesis by (subst md_user_namespace_contains.simps) simp
  qed
qed

text \<open>Where the keys along a chain are distinct, \<open>same\<close> is equality of its suffixes.\<close>

lemma same_suffix:
  assumes "distinct (chain_keys s (xs @ n))" "xs \<noteq> []"
  shows "\<not> same s (xs @ n) n"
proof -
  obtain x ys where x: "xs = x # ys" using assms(2) by (cases xs) auto
  show ?thesis
  proof (cases n)
    case Nil
    then show ?thesis using x by (simp add: same_def)
  next
    case (Cons b up)
    have "object_id (ns_object s x) \<noteq> object_id (ns_object s b)"
      using assms(1) x Cons by (auto simp: chain_keys_def)
    then show ?thesis using x Cons
      by (auto simp: same_def same_id_def md_user_namespace_key_def)
  qed
qed

lemma capable_walk_descendant:
  assumes "distinct (chain_keys s (xs @ [c] @ actor))"
  shows "capable_walk s actor uid caps (xs @ [c] @ actor) cap
     \<longleftrightarrow> bit caps cap \<or> owner (ns_page s c) = uid"
  using assms
proof (induction xs)
  case Nil
  have "\<not> same s actor (c # actor)"
    using same_suffix [of s "[c]" actor] Nil by (simp add: same_sym)
  then show ?case
    by (subst capable_walk.simps) (auto simp: capable_walk.simps [of s actor uid caps actor])
next
  case (Cons x xs)
  have no: "\<not> same s actor (x # xs @ [c] @ actor)"
    using same_suffix [of s "x # xs @ [c]" actor] Cons.prems by (simp add: same_sym)
  have no2: "\<not> same s (xs @ [c] @ actor) actor"
    using same_suffix [of s "xs @ [c]" actor] Cons.prems by (auto simp: chain_keys_def)
  have "distinct (chain_keys s (xs @ [c] @ actor))" using Cons.prems by (simp add: chain_keys_def)
  with Cons.IH no no2 show ?case by (simp add: capable_walk.simps [of s actor uid caps "x # xs @ c # actor"])
qed

section \<open>Properties\<close>

text \<open>
  A concrete store for the witnesses: address 7 holds a child of the initial namespace owned
  by user 1000 with nothing published, address 9 a grandchild of it.
\<close>

definition demo_child :: ns_object where
  "demo_child = zero_object\<lparr>references := 1, writer := True,
     object_id := \<lparr>key_device = 1, key_inode = 10, key_generation = 2\<rparr>,
     page := zero_page\<lparr>magic := NS_MAGIC, version := NS_VERSION, depth := 1, owner := 1000,
       group := 1000, groups_allowed := 1, limits := [INT_MAX, INT_MAX, INT_MAX]\<rparr>\<rparr>"

definition demo_grandchild :: ns_object where
  "demo_grandchild = demo_child\<lparr>parent := [7],
     object_id := \<lparr>key_device = 1, key_inode = 11, key_generation = 3\<rparr>,
     page := (page demo_child)\<lparr>depth := 2, owner := 1005\<rparr>\<rparr>"

definition demo_store :: user_store where
  "demo_store = initial_store\<lparr>ns_heap := [7 \<mapsto> demo_child, 9 \<mapsto> demo_grandchild]\<rparr>"

definition demo_user :: user_authority where
  "demo_user = \<lparr>auth_namespace = [], auth_uid = 1000, auth_gid = 1000, auth_caps = 0\<rparr>"

definition demo_range :: id_extent where
  "demo_range = \<lparr>inside = 0, outside = 1000, extent_count = 1\<rparr>"

definition demo_mapped :: user_store where
  "demo_mapped = ns_update 7 (set_map False [demo_range]) demo_store"

lemmas demo_defs = demo_store_def demo_child_def demo_grandchild_def demo_user_def demo_range_def
  demo_mapped_def initial_store_def zero_object_def zero_page_def ns_object_def ns_page_def
  ns_update_def ns_map_def set_map_def

lemma demo_wf: "ns_wf demo_store [7]" "ns_wf demo_store [9, 7]"
  by (simp_all add: demo_defs map_valid_in_def)

lemma demo_map: "md_user_namespace_map demo_store [7] False (Some demo_user) None [demo_range] = Inr demo_mapped"
  by (simp add: md_user_namespace_map_def md_user_namespace_map_admit_def capable_def
      md_user_namespace_capable_def capable_walk.simps same_def same_id_def md_user_namespace_key_def
      map_privileged_def own_id_only_def range_admitted_def extent_valid_def Let_def
      CAP_SYS_ADMIN_def CAP_SETUID_def MD_USER_MAP_EXTENTS_def UINT32_MAX_def demo_defs)

lemma demo_mapped_wf: "ns_wf demo_mapped [7]"
  using demo_wf(1) by (rule map_keeps_ns_wf [OF demo_map demo_wf(1)])

text \<open>
  C2: Translation in the two directions is mutually inverse. In a well-formed namespace of any
  depth, a guest identifier maps into the initial namespace as \<open>y\<close> exactly when \<open>y\<close> maps back
  to that identifier, for every pair of identifiers other than the reserved one.
\<close>

theorem ns_translation_inverse:
  assumes "ns_wf s n" "x \<noteq> UINT32_MAX" "y \<noteq> UINT32_MAX"
  shows "md_user_namespace_into s n grp x = y \<longleftrightarrow> md_user_namespace_from s n grp y = x"
  using assms by (rule ids.mapped_iff)

theorem ns_translation_inverse_witness:
  "ns_wf demo_mapped [7] \<and> md_user_namespace_into demo_mapped [7] False 0 = 1000
     \<and> md_user_namespace_from demo_mapped [7] False 1000 = 0"
proof -
  have "md_user_namespace_into demo_mapped [7] False 0 = 1000"
    by (simp add: demo_defs translate_def translate_ranges.simps UINT32_MAX_def)
  then show ?thesis
    using ns_translation_inverse [OF demo_mapped_wf, of 0 1000 False] demo_mapped_wf
    by (simp add: UINT32_MAX_def)
qed

text \<open>
  C3: Publishing a map is sound and final. When \<open>md_user_namespace_map\<close> succeeds, every
  well-formed namespace of the launch stays well-formed, no translation that existed before
  changes for any namespace, every identifier of a published extent now translates, and the
  same map can never be published again, whoever asks.
\<close>

theorem map_publication_sound:
  assumes "md_user_namespace_map s n grp opener wr ranges = Inr s'" "ns_wf s n"
  shows "(\<forall>m. ns_wf s m \<longrightarrow> ns_wf s' m)
    \<and> (\<forall>m g x. md_user_namespace_into s m g x \<noteq> UINT32_MAX
         \<longrightarrow> md_user_namespace_into s' m g x = md_user_namespace_into s m g x)
    \<and> (\<forall>r \<in> set ranges. \<forall>x. in_extent False x r \<longrightarrow> md_user_namespace_into s' n grp x \<noteq> UINT32_MAX)
    \<and> (\<forall>op. md_user_namespace_map_admit s' n grp op = Inl EPERM)"
proof -
  from assms(1) obtain a up where a: "n = a # up" "ns_map s a grp = []" "ranges \<noteq> []"
    and s': "s' = ns_update a (set_map grp ranges) s" by (rule map_InrE)
  have wf': "\<And>m. ns_wf s m \<Longrightarrow> ns_wf s' m" using map_keeps_ns_wf assms by blast
  have pub: "ns_map s' a grp = ranges" by (simp add: s' ns_map_publish)
  have "md_user_namespace_into s' n grp x \<noteq> UINT32_MAX"
    if "r \<in> set ranges" "in_extent False x r" for r x
    using wf_extent_into [of s' a up r grp x] wf' [OF assms(2)] that pub a(1) by simp
  moreover have "md_user_namespace_map_admit s' n grp op = Inl EPERM" for op
    using pub a by (auto simp: md_user_namespace_map_admit_def split: option.splits)
  ultimately show ?thesis
    using wf' into_publish [OF a(2)] s' by auto
qed

theorem map_publication_sound_witness:
  "md_user_namespace_map demo_store [7] False (Some demo_user) None [demo_range] = Inr demo_mapped
   \<and> ns_wf demo_store [7] \<and> ns_wf demo_mapped [9, 7]
   \<and> md_user_namespace_map_admit demo_mapped [7] False (Some demo_user) = Inl EPERM"
  using map_publication_sound [OF demo_map demo_wf(1)] demo_map demo_wf by blast

text \<open>
  C4: An unprivileged writer can only map itself. If the opener and the writer do not both hold
  the set-ID capability over the parent namespace, a successful publication consists of one
  single-identifier extent, the opener owns the namespace, the only canonical identifier the
  new map reaches is the opener's own, and for groups \<open>setgroups\<close> has been denied before.
\<close>

theorem unprivileged_map_own_id:
  assumes pub: "md_user_namespace_map s n grp (Some op) wr ranges = Inr s'"
    and wf: "ns_wf s n" and unpriv: "\<not> map_privileged s (tl n) grp (Some op) wr"
  shows "md_user_namespace_creator s n = auth_uid op
    \<and> (\<forall>x y. md_user_namespace_into s' n grp x = y \<longrightarrow> y \<noteq> UINT32_MAX
         \<longrightarrow> y = (if grp then auth_gid op else auth_uid op))
    \<and> (grp \<longrightarrow> \<not> md_user_namespace_groups_allowed s n)"
proof -
  from pub obtain a up where n: "n = a # up" "ns_map s a grp = []"
    and own: "map_privileged s up grp (Some op) wr \<or> own_id_only s n grp op ranges"
    and val: "ranges_valid [] ranges" and adm: "\<forall>r \<in> set ranges. range_admitted s n grp op r"
    and s': "s' = ns_update a (set_map grp ranges) s" by (rule map_InrE) auto
  then have own: "own_id_only s n grp op ranges" using unpriv by simp
  then obtain r where r: "ranges = [r]" "extent_count r = 1"
    "md_user_namespace_into s up grp (outside r) = (if grp then auth_gid op else auth_uid op)"
    using n by (auto simp: own_id_only_def split: list.splits)
  have one: "md_user_namespace_into s' n grp x = (if grp then auth_gid op else auth_uid op)"
    if y: "md_user_namespace_into s' n grp x \<noteq> UINT32_MAX" for x
  proof -
    have x: "in_extent False x r" using y n r s'
      by (auto simp: ns_map_publish translate_def translate_ranges_cons split: if_splits)
    then have "inside r = x" using r(2)
      by (simp add: in_extent_def ext_start_def word_unat_eq_iff)
    with x y n r s' have into: "md_user_namespace_into s' n grp x = md_user_namespace_into s' up grp (outside r)"
      by (auto simp: ns_map_publish translate_def translate_ranges_cons ext_start_def)
    moreover have "md_user_namespace_into s up grp (outside r) \<noteq> UINT32_MAX"
      using adm r covered_into [of s up grp "outside r" "extent_count r" 0] n wf val
      by (auto simp: range_admitted_def Let_def extent_valid_def unat_UINT32_MAX)
    ultimately show ?thesis using into_publish [OF n(2)] r(3) s' by simp
  qed
  show ?thesis using own n one by (auto simp: own_id_only_def md_user_namespace_creator_def split: list.splits)
qed

theorem unprivileged_map_own_id_witness:
  "md_user_namespace_map demo_store [7] False (Some demo_user) None [demo_range] = Inr demo_mapped
   \<and> \<not> map_privileged demo_store [] False (Some demo_user) None
   \<and> md_user_namespace_into demo_mapped [7] False 0 = auth_uid demo_user"
proof -
  have np: "\<not> map_privileged demo_store (tl [7]) False (Some demo_user) None"
    by (simp add: map_privileged_def capable_def)
  have "md_user_namespace_into demo_mapped [7] False 0 \<noteq> UINT32_MAX"
    by (simp add: demo_defs translate_def translate_ranges.simps UINT32_MAX_def)
  then show ?thesis
    using unprivileged_map_own_id [OF demo_map demo_wf(1) np] demo_map np
    by (simp del: md_user_namespace_into.simps)
qed

text \<open>
  C6: Capabilities never leave a namespace upwards, and creation of a namespace gives its
  creator everything in it. Holding a capability over \<open>target\<close> implies that the actor's
  namespace contains it; and for an actor in the namespace that is the parent of \<open>target\<close>'s
  ancestor \<open>c\<close>, the answer is exactly: the capability bit is set, or the actor owns \<open>c\<close>.
\<close>

theorem capability_confinement:
  assumes "distinct (chain_keys s (xs @ [c] @ actor))" "cap < 64"
  shows "(md_user_namespace_capable s other uid caps target cap
            \<longrightarrow> md_user_namespace_contains s other target)
    \<and> (md_user_namespace_capable s actor uid caps (xs @ [c] @ actor) cap
          \<longleftrightarrow> bit caps cap \<or> owner (ns_page s c) = uid)"
  using capable_walk_contains capable_walk_descendant [OF assms(1)] assms(2)
  by (auto simp: md_user_namespace_capable_def)

theorem capability_confinement_witness:
  "md_user_namespace_capable demo_store [] 1000 0 [9, 7] CAP_SYS_ADMIN
   \<and> \<not> md_user_namespace_capable demo_store [] 1005 0 [9, 7] CAP_SYS_ADMIN"
proof -
  have d: "distinct (chain_keys demo_store ([9] @ [7] @ []))" and "CAP_SYS_ADMIN < 64"
    by (simp_all add: chain_keys_def demo_defs CAP_SYS_ADMIN_def)
  then show ?thesis
    using capability_confinement [OF d, of CAP_SYS_ADMIN] by (simp add: demo_defs)
qed

end
