(* ===== verification/User_Charge.thy ===== *)
theory User_Charge
  imports User_Namespace
begin

text \<open>
  Accounting and lifetime of user namespaces, the second half of
  \<^verbatim>\<open>src/native/shroot/src/user_namespace.c\<close>: per-user counts charged along the chain of
  creators, creation, retain and release, and transport of the sealed policy pages. The
  mutex that serialises the counts makes each operation one step of the store.
\<close>

section \<open>Limits\<close>

definition md_user_namespace_limit :: "user_store \<Rightarrow> ns_ptr \<Rightarrow> nat \<Rightarrow> u32" where
  "md_user_namespace_limit s n resource =
     (if resource \<ge> MD_USER_RESOURCE_COUNT then 0
      else case n of [] \<Rightarrow> initial_limits s ! resource
           | a # _ \<Rightarrow> limits (ns_page s a) ! resource)"

definition md_user_namespace_set_limit ::
  "user_store \<Rightarrow> ns_ptr \<Rightarrow> nat \<Rightarrow> u32 \<Rightarrow> user_store result" where
  "md_user_namespace_set_limit s n resource limit =
     (if resource \<ge> MD_USER_RESOURCE_COUNT \<or> limit > INT_MAX then Inl EINVAL
      else case n of
        [] \<Rightarrow> Inr (s\<lparr>initial_limits := (initial_limits s)[resource := limit]\<rparr>)
      | a # _ \<Rightarrow>
          if \<not> writer (ns_object s a) then Inl EPERM
          else Inr (ns_update a
            (\<lambda>ob. ob\<lparr>page := (page ob)\<lparr>limits := (limits (page ob))[resource := limit]\<rparr>\<rparr>) s))"

section \<open>Accounts\<close>

text \<open>\<open>space ? space->accounts : initial_accounts\<close>, read and replaced.\<close>

definition accounts_of :: "user_store \<Rightarrow> ns_ptr \<Rightarrow> user_charge list" where
  "accounts_of s n = (case n of [] \<Rightarrow> initial_accounts s | a # _ \<Rightarrow> accounts (ns_object s a))"

definition set_accounts :: "ns_ptr \<Rightarrow> user_charge list \<Rightarrow> user_store \<Rightarrow> user_store" where
  "set_accounts n xs s = (case n of
     [] \<Rightarrow> s\<lparr>initial_accounts := xs\<rparr>
   | a # _ \<Rightarrow> ns_update a (\<lambda>ob. ob\<lparr>accounts := xs\<rparr>) s)"

definition zero_charge :: "u32 \<Rightarrow> user_charge" where
  "zero_charge uid = \<lparr>charge_uid = uid, charge_count = [0, 0, 0], charge_references = 0\<rparr>"

definition charge_at :: "user_store \<Rightarrow> charge_ptr \<Rightarrow> user_charge" where
  "charge_at s c = (case find (\<lambda>x. charge_uid x = snd c) (accounts_of s (fst c)) of
     Some x \<Rightarrow> x | None \<Rightarrow> zero_charge (snd c))"

definition at_uid :: "u32 \<Rightarrow> (user_charge \<Rightarrow> user_charge) \<Rightarrow> user_charge list \<Rightarrow> user_charge list" where
  "at_uid uid f = map (\<lambda>x. if charge_uid x = uid then f x else x)"

definition modify_charge :: "charge_ptr \<Rightarrow> (user_charge \<Rightarrow> user_charge) \<Rightarrow> user_store \<Rightarrow> user_store" where
  "modify_charge c f s = set_accounts (fst c) (at_uid (snd c) f (accounts_of s (fst c))) s"

definition count_parent :: "user_store \<Rightarrow> charge_ptr \<Rightarrow> charge_ptr option" where
  "count_parent s c = (case fst c of
     [] \<Rightarrow> None
   | a # up \<Rightarrow> map_option (\<lambda>u. (up, u)) (charge (ns_object s a)))"

text \<open>The accounts a loop \<open>for (p=c; p; p=count_parent(p))\<close> visits, in order.\<close>

fun count_chain :: "user_store \<Rightarrow> ns_ptr \<Rightarrow> u32 \<Rightarrow> charge_ptr list" where
  "count_chain s [] uid = [([], uid)]"
| "count_chain s (a # up) uid =
     (a # up, uid) # (case charge (ns_object s a) of None \<Rightarrow> [] | Some u \<Rightarrow> count_chain s up u)"

definition count_remove :: "charge_ptr \<Rightarrow> user_store \<Rightarrow> user_store" where
  "count_remove c s = set_accounts (fst c)
     (filter (\<lambda>x. charge_uid x \<noteq> snd c) (accounts_of s (fst c))) s"

definition count_of :: "user_store \<Rightarrow> nat \<Rightarrow> charge_ptr \<Rightarrow> u32" where
  "count_of s resource c = charge_count (charge_at s c) ! resource"

definition bump :: "nat \<Rightarrow> u32 \<Rightarrow> user_charge \<Rightarrow> user_charge" where
  "bump resource delta x =
     x\<lparr>charge_count := (charge_count x)[resource := charge_count x ! resource + delta]\<rparr>"

definition count_bump :: "nat \<Rightarrow> u32 \<Rightarrow> charge_ptr \<Rightarrow> user_store \<Rightarrow> user_store" where
  "count_bump resource delta c = modify_charge c (bump resource delta)"

fun count_forward :: "nat \<Rightarrow> charge_ptr list \<Rightarrow> user_store \<Rightarrow> charge_ptr option \<times> user_store" where
  "count_forward resource [] s = (None, s)"
| "count_forward resource (p # ps) s =
     (if count_of s resource p \<ge> md_user_namespace_limit s (fst p) resource then (Some p, s)
      else count_forward resource ps (count_bump resource 1 p s))"

fun count_backward :: "nat \<Rightarrow> charge_ptr list \<Rightarrow> charge_ptr \<Rightarrow> user_store \<Rightarrow> user_store" where
  "count_backward resource [] bad s = s"
| "count_backward resource (p # ps) bad s =
     (if p = bad then s else count_backward resource ps bad (count_bump resource (- 1) p s))"

definition md_user_namespace_retain :: "ns_ptr \<Rightarrow> user_store \<Rightarrow> user_store" where
  "md_user_namespace_retain n s = (case n of [] \<Rightarrow> s
     | a # _ \<Rightarrow> ns_update a (\<lambda>ob. ob\<lparr>references := references ob + 1\<rparr>) s)"

definition charge_refs :: "u64 \<Rightarrow> charge_ptr \<Rightarrow> user_store \<Rightarrow> user_store" where
  "charge_refs delta c = modify_charge c (\<lambda>x. x\<lparr>charge_references := charge_references x + delta\<rparr>)"

definition count_add :: "charge_ptr \<Rightarrow> nat \<Rightarrow> user_store \<Rightarrow> unit result \<times> user_store" where
  "count_add c resource s =
     (let chain = count_chain s (fst c) (snd c); (bad, s1) = count_forward resource chain s
      in case bad of
           Some b \<Rightarrow> (Inl ENOSPC, count_backward resource chain b s1)
         | None \<Rightarrow> (Inr (), md_user_namespace_retain (fst c) (charge_refs 1 c s1)))"

text \<open>The account of \<open>uid\<close>, linked in front of the list when there is none.\<close>

definition has_account :: "user_store \<Rightarrow> charge_ptr \<Rightarrow> bool" where
  "has_account s c \<longleftrightarrow> snd c \<in> charge_uid ` set (accounts_of s (fst c))"

definition link_account :: "charge_ptr \<Rightarrow> user_store \<Rightarrow> user_store" where
  "link_account c s =
     (if has_account s c then s
      else set_accounts (fst c) (zero_charge (snd c) # accounts_of s (fst c)) s)"

text \<open>\<open>alloc\<close>: whether the \<open>calloc\<close> of a missing account succeeds.\<close>

definition md_user_charge_acquire ::
  "bool \<Rightarrow> ns_ptr \<Rightarrow> u32 \<Rightarrow> nat \<Rightarrow> user_store \<Rightarrow> charge_ptr result \<times> user_store" where
  "md_user_charge_acquire alloc space uid resource s =
     (if resource \<ge> MD_USER_RESOURCE_COUNT \<or> uid = UINT32_MAX then (Inl EINVAL, s)
      else if space \<noteq> [] \<and> \<not> writer (ns_object s (hd space)) then (Inl EOPNOTSUPP, s)
      else if \<not> has_account s (space, uid) \<and> \<not> alloc then (Inl ENOMEM, s)
      else case count_add (space, uid) resource (link_account (space, uid) s) of
          (Inl e, s2) \<Rightarrow> (Inl e, if charge_references (charge_at s2 (space, uid)) = 0
                                then count_remove (space, uid) s2 else s2)
        | (Inr _, s2) \<Rightarrow> (Inr (space, uid), s2))"

definition md_user_charge_add ::
  "charge_ptr \<Rightarrow> nat \<Rightarrow> user_store \<Rightarrow> unit result \<times> user_store" where
  "md_user_charge_add c resource s =
     (if resource \<ge> MD_USER_RESOURCE_COUNT then (Inl EINVAL, s) else count_add c resource s)"

section \<open>Release\<close>

definition charge_drop :: "charge_ptr \<Rightarrow> nat \<Rightarrow> user_store \<Rightarrow> user_store" where
  "charge_drop c resource s =
     (let s1 = fold (count_bump resource (- 1)) (count_chain s (fst c) (snd c)) s;
          s2 = charge_refs (- 1) c s1
      in if charge_references (charge_at s2 c) = 0 then count_remove c s2 else s2)"

text \<open>
  Dropping the last reference of a namespace releases its charge, which retains the parent
  once, and its own reference to the parent; both may cascade.
\<close>

function md_user_namespace_release :: "ns_ptr \<Rightarrow> user_store \<Rightarrow> user_store"
  and md_user_charge_release :: "ns_ptr \<Rightarrow> u32 \<Rightarrow> nat \<Rightarrow> user_store \<Rightarrow> user_store" where
  "md_user_namespace_release [] s = s"
| "md_user_namespace_release (a # up) s =
     (let ob = ns_object s a;
          s1 = ns_update a (\<lambda>ob. ob\<lparr>references := references ob - 1\<rparr>) s
      in if references ob \<noteq> 1 then s1
         else
           let s2 = (case charge ob of None \<Rightarrow> s1
                     | Some uid \<Rightarrow> md_user_charge_release up uid MD_USER_NAMESPACES s1)
           in ns_free a (md_user_namespace_release up s2))"
| "md_user_charge_release space uid resource s =
     md_user_namespace_release space (charge_drop (space, uid) resource s)"
  by pat_completeness auto
termination
  by (relation "measure (\<lambda>x. case x of Inl (n, _) \<Rightarrow> 2 * length n
        | Inr (n, _, _, _) \<Rightarrow> Suc (2 * length n))") auto

section \<open>Creation\<close>

text \<open>\<open>md_namespace_identity_new\<close>: draws until a value above 1 appears in 63 bits.\<close>

datatype random_draw = RandomError errno | RandomShort | RandomValue u64

fun md_namespace_identity_new :: "random_draw list \<Rightarrow> u64 result option" where
  "md_namespace_identity_new [] = None"
| "md_namespace_identity_new (RandomError e # ds) =
     (if e = EINTR then md_namespace_identity_new ds else Some (Inl e))"
| "md_namespace_identity_new (RandomShort # ds) = Some (Inl EIO)"
| "md_namespace_identity_new (RandomValue v # ds) =
     (let w = v AND mask 63
      in if w > 1 then Some (Inr w) else md_namespace_identity_new ds)"

text \<open>
  The answers of the operating system to one creation: \<open>None\<close> is success where the call has
  no other result; \<open>os_stat\<close> is device and inode of the new \<open>memfd\<close>, \<open>os_cell\<close> the address
  \<open>calloc\<close> returns.
\<close>

record ns_os =
  os_memfd :: "int result"
  os_truncate :: "errno option"
  os_stat :: "(u64 \<times> u64) result"
  os_cell :: "nat option"
  os_mmap :: "errno option"
  os_identity :: "u64 result"
  os_seal :: "errno option"
  os_account :: bool

definition allocate :: "ns_os \<Rightarrow> int \<Rightarrow> bool \<Rightarrow> namespace_page \<Rightarrow> (nat \<times> ns_object) result" where
  "allocate os fd wr pg =
     (case os_stat os of Inl e \<Rightarrow> Inl e
      | Inr (dev, ino) \<Rightarrow>
         (case os_cell os of None \<Rightarrow> Inl ENOMEM
          | Some a \<Rightarrow>
             (case os_mmap os of Some e \<Rightarrow> Inl e
              | None \<Rightarrow> Inr (a, zero_object\<lparr>references := 1, object_fd := fd, writer := wr, page := pg,
                  object_id := \<lparr>key_device = dev, key_inode = ino, key_generation = page_inode pg\<rparr>\<rparr>))))"

definition new_page :: "user_store \<Rightarrow> ns_ptr \<Rightarrow> u32 \<Rightarrow> u32 \<Rightarrow> bool \<Rightarrow> namespace_page" where
  "new_page s up own grp setfcap = zero_page\<lparr>magic := NS_MAGIC, version := NS_VERSION,
     depth := md_user_namespace_depth s up + 1, owner := own, group := grp,
     creator_setfcap := of_bool setfcap, page_parent := md_user_namespace_key s up,
     groups_allowed := of_bool (md_user_namespace_groups_allowed s up),
     limits := replicate MD_USER_RESOURCE_COUNT INT_MAX, uid_map := [], gid_map := []\<rparr>"

text \<open>The end of creation: link to the parent and charge the creator, or free everything.\<close>

definition new_attach ::
  "bool \<Rightarrow> nat \<Rightarrow> ns_object \<Rightarrow> ns_ptr \<Rightarrow> u32 \<Rightarrow> user_store \<Rightarrow> ns_ptr result \<times> user_store" where
  "new_attach alloc a ob up own s =
     (case md_user_charge_acquire alloc up own MD_USER_NAMESPACES
             (md_user_namespace_retain up (ns_put a (Some ob) s)) of
        (Inl e, s2) \<Rightarrow> (Inl e, md_user_namespace_release (a # up) s2)
      | (Inr c, s2) \<Rightarrow> (Inr (a # up), ns_update a (\<lambda>ob. ob\<lparr>charge := Some (snd c)\<rparr>) s2))"

definition md_user_namespace_new ::
  "ns_os \<Rightarrow> ns_ptr \<Rightarrow> u32 \<Rightarrow> u32 \<Rightarrow> bool \<Rightarrow> user_store \<Rightarrow> ns_ptr result \<times> user_store" where
  "md_user_namespace_new os up own grp setfcap s =
     (let deep = (up \<noteq> [] \<and> md_user_namespace_depth s up \<ge> MD_USER_NAMESPACE_DEPTH) in
      if deep \<or> own = UINT32_MAX \<or> grp = UINT32_MAX then (Inl (if deep then ENOSPC else EINVAL), s)
      else if md_user_namespace_from s up False own = UINT32_MAX
           \<or> md_user_namespace_from s up True grp = UINT32_MAX then (Inl EPERM, s)
      else case os_memfd os of Inl e \<Rightarrow> (Inl e, s)
      | Inr fd \<Rightarrow>
        (case os_truncate os of Some e \<Rightarrow> (Inl e, s)
         | None \<Rightarrow>
          (case allocate os fd True zero_page of Inl e \<Rightarrow> (Inl e, s)
           | Inr (a, ob) \<Rightarrow>
            (case os_identity os of Inl e \<Rightarrow> (Inl e, s)
             | Inr inode \<Rightarrow>
               let pg = (new_page s up own grp setfcap)\<lparr>page_inode := inode\<rparr>;
                   ob1 = ob\<lparr>page := pg, object_id := (object_id ob)\<lparr>key_generation := inode\<rparr>\<rparr>
               in case os_seal os of Some e \<Rightarrow> (Inl e, s)
                  | None \<Rightarrow> new_attach (os_account os) a (ob1\<lparr>parent := up\<rparr>) up own s))))"

section \<open>Transport of policy pages\<close>

text \<open>
  Duplicates the pages from the innermost outwards; the result is parent first. On failure
  the descriptors already duplicated are closed and returned as such.
\<close>

fun export_pages :: "(int \<Rightarrow> int result) \<Rightarrow> user_store \<Rightarrow> ns_ptr \<Rightarrow> int list
    \<Rightarrow> (errno \<times> int list) + int list" where
  "export_pages dup s [] fds = Inr fds"
| "export_pages dup s (a # up) fds =
     (case dup (object_fd (ns_object s a)) of
        Inl e \<Rightarrow> Inl (e, fds)
      | Inr fd \<Rightarrow> export_pages dup s up (fd # fds))"

definition md_user_namespace_export ::
  "(int \<Rightarrow> int result) \<Rightarrow> user_store \<Rightarrow> ns_ptr \<Rightarrow> nat \<Rightarrow> (errno \<times> int list) + int list" where
  "md_user_namespace_export dup s n capacity =
     (if capacity < md_user_namespace_depth s n then Inl (ERANGE, [])
      else export_pages dup s n [])"

definition valid_page :: "user_store \<Rightarrow> namespace_page \<Rightarrow> nat \<Rightarrow> ns_ptr \<Rightarrow> unit result" where
  "valid_page s p dep up =
     (if magic p \<noteq> NS_MAGIC \<or> version p \<noteq> NS_VERSION \<or> depth p \<noteq> dep
         \<or> owner p = UINT32_MAX \<or> group p = UINT32_MAX \<or> creator_setfcap p > 1
         \<or> groups_allowed p > 1
         \<or> \<not> same_id (page_parent p) (md_user_namespace_key s up) then Inl EPROTO
      else if \<exists>l \<in> set (take MD_USER_RESOURCE_COUNT (limits p)). l > INT_MAX then Inl EPROTO
      else if \<not> map_valid_in s up False (uid_map p) then Inl EPROTO
      else if \<not> map_valid_in s up True (gid_map p) then Inl EPROTO
      else Inr ())"

text \<open>
  One received descriptor: what \<open>fstat\<close> and \<open>F_GET_SEALS\<close> say of it (regular file of the
  page's size carrying every required seal), its duplicate, the allocation answers and the
  page it maps.
\<close>

record page_right =
  right_stat :: "errno option"
  right_sealed :: bool
  right_dup :: "int result"
  right_os :: ns_os
  right_page :: namespace_page

fun import_pages :: "page_right list \<Rightarrow> nat \<Rightarrow> ns_ptr \<Rightarrow> user_store \<Rightarrow> ns_ptr result \<times> user_store" where
  "import_pages [] i up s = (Inr up, s)"
| "import_pages (r # rs) i up s =
     (case right_stat r of Some e \<Rightarrow> (Inl e, md_user_namespace_release up s)
      | None \<Rightarrow>
        if \<not> right_sealed r then (Inl EPROTO, md_user_namespace_release up s)
        else case right_dup r of Inl e \<Rightarrow> (Inl e, md_user_namespace_release up s)
        | Inr fd \<Rightarrow>
          (case allocate (right_os r) fd False (right_page r) of
             Inl e \<Rightarrow> (Inl e, md_user_namespace_release up s)
           | Inr (a, ob) \<Rightarrow>
              (case valid_page s (page ob) (i + 1) up of
                 Inl e \<Rightarrow> (Inl e, md_user_namespace_release up s)
               | Inr _ \<Rightarrow> import_pages rs (i + 1) (a # up)
                            (ns_put a (Some (ob\<lparr>parent := up\<rparr>)) s))))"

definition md_user_namespace_import ::
  "page_right list \<Rightarrow> user_store \<Rightarrow> ns_ptr result \<times> user_store" where
  "md_user_namespace_import rights s =
     (if length rights > MD_USER_NAMESPACE_DEPTH then (Inl EINVAL, s)
      else import_pages rights 0 [] s)"

section \<open>Account lists as cells\<close>

text \<open>
  The list heads \<open>initial_accounts\<close> and \<open>space->accounts\<close>, one per namespace.
\<close>

definition slot :: "ns_ptr \<Rightarrow> nat option" where
  "slot n = (case n of [] \<Rightarrow> None | a # _ \<Rightarrow> Some a)"

definition slot_accounts :: "user_store \<Rightarrow> nat option \<Rightarrow> user_charge list" where
  "slot_accounts s k = (case k of None \<Rightarrow> initial_accounts s | Some a \<Rightarrow> accounts (ns_object s a))"

definition put_slot :: "nat option \<Rightarrow> user_charge list \<Rightarrow> user_store \<Rightarrow> user_store" where
  "put_slot k xs s = (case k of None \<Rightarrow> s\<lparr>initial_accounts := xs\<rparr>
     | Some a \<Rightarrow> ns_update a (\<lambda>ob. ob\<lparr>accounts := xs\<rparr>) s)"

definition slot_live :: "user_store \<Rightarrow> nat option \<Rightarrow> bool" where
  "slot_live s k = (case k of None \<Rightarrow> True | Some a \<Rightarrow> ns_heap s a \<noteq> None)"

interpretation acct: keyed_cells slot_accounts put_slot slot_live
proof unfold_locales
  show "slot_live s k \<Longrightarrow> put_slot k (slot_accounts s k) s = s" for s k
    by (cases k) (auto simp: slot_live_def put_slot_def slot_accounts_def ns_update_def ns_object_def fun_upd_idem)
  show "j \<noteq> k \<Longrightarrow> put_slot j v (put_slot k w s) = put_slot k w (put_slot j v s)" for j k v w s
    by (cases j; cases k) (auto simp: put_slot_def ns_update_def ns_object_def fun_upd_twist)
qed (auto simp: slot_live_def put_slot_def slot_accounts_def ns_update_def ns_object_def split: option.splits)

lemma accounts_of_slot: "accounts_of s n = slot_accounts s (slot n)"
  by (simp add: accounts_of_def slot_def slot_accounts_def split: list.splits)

lemma set_accounts_slot: "set_accounts n = put_slot (slot n)"
  by (auto simp: set_accounts_def slot_def put_slot_def fun_eq_iff split: list.splits)

lemma count_bump_slot:
  "count_bump resource delta = (\<lambda>c s. put_slot (slot (fst c))
     (at_uid (snd c) (bump resource delta) (slot_accounts s (slot (fst c)))) s)"
  by (simp add: fun_eq_iff count_bump_def modify_charge_def set_accounts_slot accounts_of_slot)

lemma at_uid_inverse:
  assumes "\<And>x. g (f x) = x" "\<And>x. charge_uid (f x) = charge_uid x"
  shows "at_uid u g (at_uid u f xs) = xs"
  by (induction xs) (auto simp: at_uid_def assms)

lemma charge_uid_bump [simp]: "charge_uid (bump r d x) = charge_uid x"
  by (simp add: bump_def)

lemma bump_inverse [simp]: "bump r (- d) (bump r d x) = x"
  by (cases "r < length (charge_count x)") (simp_all add: bump_def list_update_beyond)

text \<open>The fields of the store other than the account lists.\<close>

lemma put_slot_frame [frame_simps]:
  "initial_limits (put_slot k xs s) = initial_limits s"
  "charge (ns_object (put_slot k xs s) a) = charge (ns_object s a)"
  "page (ns_object (put_slot k xs s) a) = page (ns_object s a)"
  "ns_page (put_slot k xs s) a = ns_page s a"
  "parent (ns_object (put_slot k xs s) a) = parent (ns_object s a)"
  "references (ns_object (put_slot k xs s) a) = references (ns_object s a)"
  "writer (ns_object (put_slot k xs s) a) = writer (ns_object s a)"
  by (auto simp: put_slot_def ns_object_def ns_update_def ns_page_def split: option.splits)

lemma count_bump_frame [frame_simps]:
  "charge (ns_object (count_bump r d c s) a) = charge (ns_object s a)"
  "page (ns_object (count_bump r d c s) a) = page (ns_object s a)"
  "md_user_namespace_limit (count_bump r d c s) n q = md_user_namespace_limit s n q"
  by (simp_all add: count_bump_slot frame_simps md_user_namespace_limit_def ns_page_def split: list.splits)

lemma count_chain_cong:
  "(\<And>a. charge (ns_object s' a) = charge (ns_object s a)) \<Longrightarrow> count_chain s' n uid = count_chain s n uid"
  by (induction n arbitrary: uid) (auto split: option.splits)

lemma count_chain_bump [frame_simps]: "count_chain (count_bump r d c s) n uid = count_chain s n uid"
  by (rule count_chain_cong) (simp add: frame_simps)

section \<open>Chains of accounts\<close>

lemma chain_suffix: "p \<in> set (count_chain s n uid) \<Longrightarrow> \<exists>xs. n = xs @ fst p"
proof (induction n arbitrary: uid)
  case (Cons a up)
  then consider "fst p = a # up" | xs where "up = xs @ fst p"
    by (auto split: option.splits)
  then show ?case
  proof cases
    case 2
    then have "a # up = (a # xs) @ fst p" by simp
    then show ?thesis by blast
  qed simp
qed simp

lemma ns_wf_append: "ns_wf s (xs @ n) \<Longrightarrow> ns_wf s n"
  by (induction xs) auto

lemma ns_wf_distinct: "ns_wf s n \<Longrightarrow> distinct n"
proof (induction n)
  case (Cons a up)
  have "a \<notin> set up"
  proof
    assume "a \<in> set up"
    then obtain xs ys where up: "up = xs @ a # ys" by (auto simp: in_set_conv_decomp)
    with Cons.prems have "ns_wf s (a # ys)" using ns_wf_append [of s xs "a # ys"] by simp
    then have "up = ys" using Cons.prems by simp
    with up show False by simp
  qed
  with Cons show ?case by simp
qed simp

lemma slot_in_chain:
  "p \<in> set (count_chain s n uid) \<Longrightarrow> slot (fst p) = None \<or> (\<exists>a \<in> set n. slot (fst p) = Some a)"
  using chain_suffix [of p s n uid] by (auto simp: slot_def split: list.splits)

lemma chain_slots_distinct:
  "distinct n \<Longrightarrow> distinct (map (\<lambda>p. slot (fst p)) (count_chain s n uid))"
proof (induction n arbitrary: uid)
  case (Cons a up)
  have "Some a \<noteq> slot (fst p)" if "p \<in> set (count_chain s up u)" for p u
    using slot_in_chain [OF that] Cons.prems by auto
  with Cons show ?case by (auto simp: slot_def split: option.splits)
qed simp

lemma chain_live:
  assumes "ns_wf s n" "p \<in> set (count_chain s n uid)"
  shows "slot_live s (slot (fst p))"
proof -
  obtain xs where "n = xs @ fst p" using chain_suffix [OF assms(2)] by blast
  then have "ns_wf s (fst p)" using ns_wf_append assms(1) by blast
  then show ?thesis by (auto simp: slot_live_def slot_def split: list.splits)
qed

section \<open>Charging is all or nothing\<close>

lemma count_forward_cases:
  assumes "count_forward r ps s = (bad, s1)"
  shows "(bad = None \<and> s1 = fold (count_bump r 1) ps s) \<or>
    (\<exists>qs b rest. bad = Some b \<and> ps = qs @ b # rest \<and> s1 = fold (count_bump r 1) qs s)"
  using assms
proof (induction ps arbitrary: s)
  case (Cons p ps)
  show ?case
  proof (cases "count_of s r p \<ge> md_user_namespace_limit s (fst p) r")
    case True
    with Cons.prems show ?thesis by (auto intro: exI [of _ "[]"])
  next
    case False
    then have "count_forward r ps (count_bump r 1 p s) = (bad, s1)" using Cons.prems by simp
    from Cons.IH [OF this] show ?thesis
    proof (elim disjE exE conjE)
      fix qs b rest
      assume "bad = Some b" "ps = qs @ b # rest"
        "s1 = fold (count_bump r 1) qs (count_bump r 1 p s)"
      then have "bad = Some b \<and> p # ps = (p # qs) @ b # rest \<and> s1 = fold (count_bump r 1) (p # qs) s" by simp
      then show ?thesis by blast
    qed simp
  qed
qed simp

lemma count_backward_prefix:
  "b \<notin> set qs \<Longrightarrow> count_backward r (qs @ b # rest) b s = fold (count_bump r (- 1)) qs s"
  by (induction qs arbitrary: s) auto

lemma count_undo:
  assumes "ns_wf s n" "count_chain s n uid = qs @ rest"
  shows "fold (count_bump r (- 1)) qs (fold (count_bump r 1) qs s) = s"
  unfolding count_bump_slot
proof (rule acct.fold_cancel)
  show "distinct (map (\<lambda>p. slot (fst p)) qs)"
    using chain_slots_distinct [OF ns_wf_distinct [OF assms(1)], of s uid] assms(2) by simp
  show "\<forall>p \<in> set qs. slot_live s (slot (fst p))"
    using chain_live [OF assms(1), of _ uid] assms(2) by simp
qed (rule at_uid_inverse, simp_all)

lemma count_add_fails:
  assumes "ns_wf s (fst c)" "count_add c r s = (Inl e, s')"
  shows "s' = s \<and> e = ENOSPC"
proof -
  let ?ps = "count_chain s (fst c) (snd c)"
  obtain bad s1 where f: "count_forward r ?ps s = (bad, s1)" by (cases "count_forward r ?ps s")
  with assms(2) obtain b where "bad = Some b" and s': "s' = count_backward r ?ps b s1" "e = ENOSPC"
    by (auto simp: count_add_def Let_def split: option.splits)
  with count_forward_cases [OF f] obtain qs rest
    where ps: "?ps = qs @ b # rest" "s1 = fold (count_bump r 1) qs s" by auto
  have "distinct (map (\<lambda>p. slot (fst p)) ?ps)"
    by (rule chain_slots_distinct [OF ns_wf_distinct [OF assms(1)]])
  then have "b \<notin> set qs" using ps by (auto simp: image_iff)
  then show ?thesis using s' ps count_backward_prefix count_undo [OF assms(1) ps(1)] by simp
qed

section \<open>Acquiring and releasing\<close>

text \<open>Every account list and reference count in use is positive.\<close>

definition refs_positive :: "user_store \<Rightarrow> ns_ptr \<Rightarrow> bool" where
  "refs_positive s n \<longleftrightarrow> (\<forall>x \<in> set (accounts_of s n). charge_references x \<noteq> 0)
     \<and> (case n of [] \<Rightarrow> True | a # _ \<Rightarrow> references (ns_object s a) \<noteq> 0)"

definition shift_refs :: "u64 \<Rightarrow> user_charge \<Rightarrow> user_charge" where
  "shift_refs d x = x\<lparr>charge_references := charge_references x + d\<rparr>"

lemma charge_refs_slot:
  "charge_refs d c s = put_slot (slot (fst c)) (at_uid (snd c) (shift_refs d) (slot_accounts s (slot (fst c)))) s"
  by (simp add: charge_refs_def modify_charge_def set_accounts_slot accounts_of_slot shift_refs_def [abs_def])

lemma object_update_swap:
  "ob\<lparr>references := q, accounts := xs\<rparr> = ob\<lparr>accounts := xs, references := q\<rparr>"
  by (cases ob) simp

lemma put_slot_retain [frame_simps]:
  "put_slot k xs (md_user_namespace_retain n s) = md_user_namespace_retain n (put_slot k xs s)"
  by (auto simp: put_slot_def md_user_namespace_retain_def ns_update_def ns_object_def fun_upd_twist
      object_update_swap split: option.splits list.splits)

lemma slot_accounts_retain [frame_simps]:
  "slot_accounts (md_user_namespace_retain n s) k = slot_accounts s k"
  by (auto simp: slot_accounts_def md_user_namespace_retain_def ns_update_def ns_object_def
      split: option.splits list.splits)

lemma charge_retain [frame_simps]:
  "charge (ns_object (md_user_namespace_retain n s) a) = charge (ns_object s a)"
  by (auto simp: md_user_namespace_retain_def split: list.splits)

lemma at_uid_swap:
  assumes "\<And>x. f (g x) = g (f x)" "\<And>x. charge_uid (f x) = charge_uid x" "\<And>x. charge_uid (g x) = charge_uid x"
  shows "at_uid u f (at_uid v g xs) = at_uid v g (at_uid u f xs)"
  by (auto simp: at_uid_def assms)

lemma shift_refs_simps [simp]:
  "charge_uid (shift_refs d x) = charge_uid x" "shift_refs (- d) (shift_refs d x) = x"
  "bump r e (shift_refs d x) = shift_refs d (bump r e x)"
  by (simp_all add: shift_refs_def bump_def)

lemma count_bump_refs: "count_bump r d p (charge_refs e c s) = charge_refs e c (count_bump r d p s)"
proof (cases "slot (fst p) = slot (fst c)")
  case True
  then show ?thesis
    by (simp add: count_bump_slot charge_refs_slot acct.get_put acct.put_put at_uid_swap [of "bump r d" "shift_refs e"])
next
  case False
  then show ?thesis
    by (simp add: count_bump_slot charge_refs_slot acct.get_put acct.put_swap)
qed

lemma count_fold_refs:
  "fold (count_bump r d) ps (charge_refs e c s) = charge_refs e c (fold (count_bump r d) ps s)"
  by (induction ps arbitrary: s) (simp_all add: count_bump_refs)

lemma count_fold_retain:
  "fold (count_bump r d) ps (md_user_namespace_retain n s) = md_user_namespace_retain n (fold (count_bump r d) ps s)"
  by (induction ps arbitrary: s) (simp_all add: count_bump_slot frame_simps)

lemma count_fold_charge [frame_simps]:
  "charge (ns_object (fold (count_bump r d) ps s) a) = charge (ns_object s a)"
  by (induction ps arbitrary: s) (simp_all add: frame_simps)

lemma count_add_done:
  assumes "count_add c r s = (Inr u, s')"
  shows "s' = md_user_namespace_retain (fst c) (charge_refs 1 c
            (fold (count_bump r 1) (count_chain s (fst c) (snd c)) s))"
  using assms count_forward_cases [of r "count_chain s (fst c) (snd c)" s]
  by (auto simp: count_add_def Let_def split: option.splits prod.splits)

lemma charge_at_slot:
  "charge_at s c = (case find (\<lambda>x. charge_uid x = snd c) (slot_accounts s (slot (fst c))) of
     Some x \<Rightarrow> x | None \<Rightarrow> zero_charge (snd c))"
  by (simp add: charge_at_def accounts_of_slot)

lemma count_remove_slot:
  "count_remove c s = put_slot (slot (fst c))
     (filter (\<lambda>x. charge_uid x \<noteq> snd c) (slot_accounts s (slot (fst c)))) s"
  by (simp add: count_remove_def set_accounts_slot accounts_of_slot)

lemma ns_wf_live: "ns_wf s n \<Longrightarrow> slot_live s (slot n)"
  by (auto simp: slot_live_def slot_def split: list.splits)

lemma charge_refs_undo:
  "slot_live s (slot (fst c)) \<Longrightarrow> charge_refs (- d) c (charge_refs d c s) = s"
  by (simp add: charge_refs_slot acct.get_put acct.put_put at_uid_inverse acct.put_get)

text \<open>Dropping a charge right after it was added leaves only the reference to the namespace.\<close>

lemma charge_drop_added:
  assumes "ns_wf s (fst c)" "count_add c r s = (Inr u, s')"
  shows "charge_drop c r s' =
    (if charge_references (charge_at s c) = 0 then md_user_namespace_retain (fst c) (count_remove c s)
     else md_user_namespace_retain (fst c) s)"
proof -
  let ?ps = "count_chain s (fst c) (snd c)"
  note s' = count_add_done [OF assms(2)]
  have chain: "count_chain s' (fst c) (snd c) = ?ps"
    by (rule count_chain_cong) (simp add: s' frame_simps charge_refs_slot)
  have undo: "fold (count_bump r (- 1)) ?ps (fold (count_bump r 1) ?ps s) = s"
    using count_undo [OF assms(1), of "snd c" ?ps "[]"] by simp
  have live: "slot_live s (slot (fst c))" by (rule ns_wf_live [OF assms(1)])
  have swap: "charge_refs (- 1) c (md_user_namespace_retain (fst c) t) = md_user_namespace_retain (fst c) (charge_refs (- 1) c t)" for t
    by (simp add: charge_refs_slot frame_simps)
  have "charge_refs (- 1) c (fold (count_bump r (- 1)) ?ps s') = md_user_namespace_retain (fst c) s"
    unfolding s' count_fold_retain count_fold_refs undo swap charge_refs_undo [OF live] ..
  then show ?thesis
    by (simp add: charge_drop_def Let_def chain charge_at_slot count_remove_slot frame_simps)
qed

lemma release_retain:
  assumes "ns_wf s n" "refs_positive s n"
  shows "md_user_namespace_release n (md_user_namespace_retain n s) = s"
proof (cases n)
  case (Cons a up)
  with assms obtain ob where "ns_heap s a = Some ob" "references ob \<noteq> 0"
    by (auto simp: refs_positive_def ns_object_def)
  then show ?thesis using Cons
    by (auto simp: md_user_namespace_retain_def Let_def ns_update_def ns_object_def fun_upd_idem)
qed (simp add: md_user_namespace_retain_def)


text \<open>What well-formedness depends on: liveness of cells, their parents and pages.\<close>

lemma covered_cong:
  "(\<And>a. ns_page s' a = ns_page s a) \<Longrightarrow> covered s' n g start cnt = covered s n g start cnt"
  by (induction n arbitrary: start) (auto simp: ns_map_def split: option.splits)

lemma ns_wf_cong:
  assumes "\<And>a. ns_heap s a \<noteq> None \<Longrightarrow> ns_heap s' a \<noteq> None"
    and "\<And>a. parent (ns_object s' a) = parent (ns_object s a)" and "\<And>a. ns_page s' a = ns_page s a"
  shows "ns_wf s n \<Longrightarrow> ns_wf s' n"
  using assms(1) by (induction n) (auto simp: assms(2,3) ns_map_def map_valid_in_def covered_cong [OF assms(3)])

lemma ns_wf_put_slot [inv_intros]: "ns_wf s n \<Longrightarrow> ns_wf (put_slot k xs s) n"
  by (rule ns_wf_cong) (auto simp: frame_simps, simp add: put_slot_def ns_update_def split: option.splits if_splits)

lemma ns_wf_retain [inv_intros]: "ns_wf s n \<Longrightarrow> ns_wf (md_user_namespace_retain m s) n"
  by (rule ns_wf_cong) (auto simp: md_user_namespace_retain_def ns_page_def ns_update_def ns_object_def split: list.splits)

lemma ns_wf_link [inv_intros]: "ns_wf s n \<Longrightarrow> ns_wf (link_account c s) n"
  by (simp add: link_account_def set_accounts_slot inv_intros)

text \<open>Undoing the link: an account without references is removed, an older one stays.\<close>

lemma unlink_account:
  assumes "ns_wf s n" "refs_positive s n"
  shows "(if charge_references (charge_at (link_account (n, uid) s) (n, uid)) = 0
          then count_remove (n, uid) (link_account (n, uid) s) else link_account (n, uid) s) = s"
proof (cases "has_account s (n, uid)")
  case True
  then obtain x where "find (\<lambda>x. charge_uid x = uid) (accounts_of s n) = Some x"
    by (cases "find (\<lambda>x. charge_uid x = uid) (accounts_of s n)") (auto simp: has_account_def find_None_iff)
  then have "x \<in> set (accounts_of s n)" "charge_at s (n, uid) = x"
    by (auto simp: charge_at_def dest: find_SomeD)
  then show ?thesis using assms(2) True by (simp add: refs_positive_def link_account_def)
next
  case False
  then have "filter (\<lambda>x. charge_uid x \<noteq> uid) (accounts_of s n) = accounts_of s n"
    by (auto simp: has_account_def filter_id_conv)
  then show ?thesis using False ns_wf_live [OF assms(1)]
    by (simp add: link_account_def set_accounts_slot charge_at_slot count_remove_slot accounts_of_slot
        acct.get_put acct.put_put acct.put_get zero_charge_def)
qed

lemma acquire_fails:
  assumes "ns_wf s n" "refs_positive s n" "md_user_charge_acquire alloc n uid r s = (Inl e, s')"
  shows "s' = s"
proof -
  let ?s1 = "link_account (n, uid) s"
  have wf: "ns_wf ?s1 (fst (n, uid))" using assms(1) by (simp add: inv_intros)
  consider "s' = s" | s2 where "count_add (n, uid) r ?s1 = (Inl e, s2)"
    "s' = (if charge_references (charge_at s2 (n, uid)) = 0 then count_remove (n, uid) s2 else s2)"
    using assms(3) by (auto simp: md_user_charge_acquire_def split: if_splits sum.splits prod.splits)
  then show ?thesis
  proof cases
    case 2
    with count_add_fails [OF wf] have "s2 = ?s1" by blast
    with 2 unlink_account [OF assms(1,2), of uid] show ?thesis by (simp split: if_splits)
  qed
qed

lemma acquire_release:
  assumes "ns_wf s n" "refs_positive s n" "md_user_charge_acquire alloc n uid r s = (Inr c, s')"
  shows "md_user_charge_release n uid r s' = s" "c = (n, uid)"
proof -
  let ?s1 = "link_account (n, uid) s"
  have wf: "ns_wf ?s1 (fst (n, uid))" using assms(1) by (simp add: inv_intros)
  obtain u where add: "count_add (n, uid) r ?s1 = (Inr u, s')" and c: "c = (n, uid)"
    using assms(3) by (auto simp: md_user_charge_acquire_def split: if_splits sum.splits prod.splits)
  have "charge_drop (n, uid) r s' = md_user_namespace_retain n s"
    using charge_drop_added [OF wf add] unlink_account [OF assms(1,2), of uid] by (simp split: if_splits)
  then show "md_user_charge_release n uid r s' = s" "c = (n, uid)"
    using release_retain [OF assms(1,2)] c by simp_all
qed

section \<open>Creation and import build well-formed namespaces\<close>

lemma ns_wf_count_bump [inv_intros]: "ns_wf s n \<Longrightarrow> ns_wf (fold (count_bump r d) ps s) n"
  by (induction ps arbitrary: s) (simp_all add: count_bump_slot inv_intros)

lemma acquire_keeps_ns_wf [inv_intros]:
  assumes "md_user_charge_acquire alloc n uid r s = (Inr c, s')" "ns_wf s m"
  shows "ns_wf s' m"
proof -
  obtain u where "count_add (n, uid) r (link_account (n, uid) s) = (Inr u, s')"
    using assms(1) by (auto simp: md_user_charge_acquire_def split: if_splits sum.splits prod.splits)
  from count_add_done [OF this] show ?thesis
    using assms(2) by (simp add: charge_refs_slot inv_intros)
qed

lemma ns_put_simps [simp]:
  "ns_heap (ns_put a ob s) b = (if b = a then ob else ns_heap s b)"
  "ns_object (ns_put a ob s) b =
     (if b = a then (case ob of None \<Rightarrow> zero_object | Some ob \<Rightarrow> ob) else ns_object s b)"
  by (simp_all add: ns_put_def ns_object_def)

lemma fresh_not_in: "ns_wf s n \<Longrightarrow> ns_heap s a = None \<Longrightarrow> a \<notin> set n"
  by (induction n) auto

lemma covered_fresh:
  "a \<notin> set n \<Longrightarrow> covered (ns_put a ob s) n g start cnt = covered s n g start cnt"
  by (induction n arbitrary: start) (auto simp: ns_map_def ns_page_def split: option.splits)

lemma ns_wf_put_fresh:
  assumes "ns_wf s n" "a \<notin> set n"
  shows "ns_wf (ns_put a ob s) n"
  using assms by (induction n) (auto simp: map_valid_in_def covered_fresh ns_map_def ns_page_def)

lemma ns_wf_link_fresh:
  assumes "ns_wf s up" "ns_heap s a = None" "parent ob = up"
    and "map_valid_in s up False (uid_map (page ob))" "map_valid_in s up True (gid_map (page ob))"
  shows "ns_wf (ns_put a (Some ob) s) (a # up)"
  using assms fresh_not_in [OF assms(1,2)] ns_wf_put_fresh [OF assms(1), of a "Some ob"]
  by (auto simp: map_valid_in_def covered_fresh ns_map_def ns_page_def)

lemma allocate_Inr:
  assumes "allocate os fd wr pg = Inr (a, ob)"
  shows "os_cell os = Some a \<and> writer ob = wr \<and> page ob = pg \<and> references ob = 1
    \<and> accounts ob = [] \<and> charge ob = None"
  using assms by (auto simp: allocate_def zero_object_def split: sum.splits option.splits prod.splits)

text \<open>
  The addresses \<open>calloc\<close> returns are free cells, and distinct while none is freed.
\<close>

definition cells_fresh :: "user_store \<Rightarrow> page_right list \<Rightarrow> bool" where
  "cells_fresh s rs \<longleftrightarrow> distinct (map (\<lambda>r. os_cell (right_os r)) rs)
     \<and> (\<forall>r \<in> set rs. \<forall>a. os_cell (right_os r) = Some a \<longrightarrow> ns_heap s a = None)"

lemma cells_fresh_step:
  "cells_fresh s (r # rs) \<Longrightarrow> os_cell (right_os r) = Some a \<Longrightarrow> cells_fresh (ns_put a (Some ob) s) rs"
  by (auto simp: cells_fresh_def image_iff)

lemma import_pages_InrE:
  assumes "import_pages (r # rs) i up s = (Inr n, s')" "cells_fresh s (r # rs)" "ns_wf s up"
  obtains a ob where "os_cell (right_os r) = Some a" "ns_heap s a = None" "\<not> writer ob"
    "ns_wf (ns_put a (Some ob) s) (a # up)"
    "import_pages rs (i + 1) (a # up) (ns_put a (Some ob) s) = (Inr n, s')"
proof -
  from assms(1) obtain fd a ob u where
    al: "allocate (right_os r) fd False (right_page r) = Inr (a, ob)"
    and v: "valid_page s (page ob) (i + 1) up = Inr u"
    and rec: "import_pages rs (i + 1) (a # up) (ns_put a (Some (ob\<lparr>parent := up\<rparr>)) s) = (Inr n, s')"
    by (auto split: option.splits if_splits sum.splits prod.splits)
  have cell: "os_cell (right_os r) = Some a" "ns_heap s a = None"
    using allocate_Inr [OF al] assms(2) by (auto simp: cells_fresh_def)
  show thesis
  proof (rule that [OF cell _ _ rec])
    show "ns_wf (ns_put a (Some (ob\<lparr>parent := up\<rparr>)) s) (a # up)"
      using v cell assms(3) by (intro ns_wf_link_fresh) (auto simp: valid_page_def split: if_splits)
  qed (use allocate_Inr [OF al] in simp)
qed

lemma import_pages_wf:
  assumes "import_pages rs i up s = (Inr n, s')" "ns_wf s up" "cells_fresh s rs"
  shows "ns_wf s' n \<and> (\<exists>xs. n = xs @ up \<and> length xs = length rs \<and> (\<forall>a \<in> set xs. \<not> writer (ns_object s' a)))
    \<and> (\<forall>a. ns_heap s a \<noteq> None \<longrightarrow> ns_heap s' a = ns_heap s a)"
  using assms
proof (induction rs arbitrary: i up s)
  case (Cons r rs)
  from Cons.prems(1,3,2) obtain a ob where cell: "os_cell (right_os r) = Some a" "ns_heap s a = None"
    and wr: "\<not> writer ob" and wf: "ns_wf (ns_put a (Some ob) s) (a # up)"
    and rec: "import_pages rs (i + 1) (a # up) (ns_put a (Some ob) s) = (Inr n, s')"
    by (rule import_pages_InrE)
  from Cons.IH [OF rec wf cells_fresh_step [OF Cons.prems(3) cell(1)]]
  obtain xs where IH: "ns_wf s' n" "n = xs @ a # up" "length xs = length rs"
      "\<forall>a \<in> set xs. \<not> writer (ns_object s' a)"
    and keep: "\<forall>b. ns_heap (ns_put a (Some ob) s) b \<noteq> None \<longrightarrow> ns_heap s' b = ns_heap (ns_put a (Some ob) s) b"
    by blast
  have "ns_heap s' a = Some ob" using keep by simp
  then have "\<not> writer (ns_object s' a)" using wr by (simp add: ns_object_def)
  then have "n = (xs @ [a]) @ up \<and> length (xs @ [a]) = length (r # rs) \<and> (\<forall>a \<in> set (xs @ [a]). \<not> writer (ns_object s' a))"
    using IH by simp
  moreover have "\<forall>b. ns_heap s b \<noteq> None \<longrightarrow> ns_heap s' b = ns_heap s b"
    using keep cell(2) by (auto split: if_splits)
  ultimately show ?case using IH(1) by blast
qed simp

text \<open>
  The three ways \<open>md_user_namespace_new\<close> ends: before anything is stored, after the charge
  of the creator was refused, or with the new namespace.
\<close>

definition fresh_child :: "user_store \<Rightarrow> nat \<Rightarrow> ns_ptr \<Rightarrow> ns_object \<Rightarrow> bool" where
  "fresh_child s a up ob \<longleftrightarrow> ns_heap s a = None \<and> references ob = 1 \<and> charge ob = None \<and> parent ob = up
     \<and> uid_map (page ob) = [] \<and> gid_map (page ob) = [] \<and> accounts ob = [] \<and> writer ob
     \<and> depth (page ob) = md_user_namespace_depth s up + 1"

lemma new_cases:
  assumes "md_user_namespace_new os up own grp sf s = (res, s')"
    and "\<forall>a. os_cell os = Some a \<longrightarrow> ns_heap s a = None"
  obtains (early) e where "res = Inl e" "s' = s"
  | (attach) a ob where "fresh_child s a up ob" "new_attach (os_account os) a ob up own s = (res, s')"
      "own \<noteq> UINT32_MAX" "md_user_namespace_from s up False own \<noteq> UINT32_MAX"
      "up = [] \<or> md_user_namespace_depth s up < MD_USER_NAMESPACE_DEPTH"
proof (cases "\<exists>e. res = Inl e \<and> s' = s")
  case True
  then show thesis using early by blast
next
  case False
  with assms(1) obtain fd a ob inode where al: "allocate os fd True zero_page = Inr (a, ob)"
    and ok: "own \<noteq> UINT32_MAX" "md_user_namespace_from s up False own \<noteq> UINT32_MAX"
      "up = [] \<or> md_user_namespace_depth s up < MD_USER_NAMESPACE_DEPTH"
    and body: "new_attach (os_account os) a (ob\<lparr>page := (new_page s up own grp sf)\<lparr>page_inode := inode\<rparr>,
       object_id := (object_id ob)\<lparr>key_generation := inode\<rparr>, parent := up\<rparr>) up own s = (res, s')"
    by (auto simp: md_user_namespace_new_def Let_def split: if_splits sum.splits option.splits prod.splits)
  show thesis
    by (rule attach [OF _ body ok])
      (use allocate_Inr [OF al] assms(2) in \<open>simp add: fresh_child_def new_page_def zero_page_def\<close>)
qed

lemma retain_put_swap:
  "a \<notin> set n \<Longrightarrow> md_user_namespace_retain n (ns_put a ob s) = ns_put a ob (md_user_namespace_retain n s)"
  by (auto simp: md_user_namespace_retain_def ns_update_def ns_put_def ns_object_def fun_upd_twist split: list.splits)

lemma refs_positive_put:
  "a \<notin> set n \<Longrightarrow> refs_positive (ns_put a ob s) n = refs_positive s n"
  by (auto simp: refs_positive_def accounts_of_def ns_put_def ns_object_def split: list.splits)

lemma refs_positive_retain:
  assumes "refs_positive s n" "\<forall>a \<in> set n. references (ns_object s a) \<noteq> UINT32_MAX"
  shows "refs_positive (md_user_namespace_retain n s) n"
proof -
  have "x + 1 \<noteq> 0" if "x \<noteq> UINT32_MAX" for x :: u32
  proof
    assume "x + 1 = 0"
    then have "x = - 1" by (simp add: eq_neg_iff_add_eq_0)
    with that show False by (simp add: UINT32_MAX_def)
  qed
  moreover have "accounts_of (md_user_namespace_retain n s) n = accounts_of s n"
    by (simp add: accounts_of_slot frame_simps)
  ultimately show ?thesis using assms
    by (cases n) (auto simp: refs_positive_def md_user_namespace_retain_def)
qed

lemma refused_child_undone:
  assumes "ns_wf s up" "refs_positive s up" "fresh_child s a up ob"
  shows "md_user_namespace_release (a # up) (md_user_namespace_retain up (ns_put a (Some ob) s)) = s"
proof -
  have a: "ns_heap s a = None" "a \<notin> set up" using assms(1,3) fresh_not_in by (auto simp: fresh_child_def)
  let ?t = "ns_put a (Some (ob\<lparr>references := 0\<rparr>)) s"
  have upd: "ns_update a (\<lambda>ob. ob\<lparr>references := references ob - 1\<rparr>) (ns_put a (Some ob) (md_user_namespace_retain up s)) = md_user_namespace_retain up ?t"
    using assms(3) a by (simp add: retain_put_swap) (simp add: ns_update_def ns_put_def ns_object_def fresh_child_def)
  have "md_user_namespace_release up (md_user_namespace_retain up ?t) = ?t"
    using assms a by (intro release_retain) (simp_all add: ns_wf_put_fresh refs_positive_put)
  moreover have "ns_free a ?t = s" using a by (simp add: ns_free_def ns_put_def fun_upd_idem)
  ultimately show ?thesis
    using assms(3) a upd by (simp add: retain_put_swap Let_def fresh_child_def)
qed

lemma new_attach_fails:
  assumes "ns_wf s up" "refs_positive s up" "\<forall>b \<in> set up. references (ns_object s b) \<noteq> UINT32_MAX"
    and "fresh_child s a up ob" "new_attach alloc a ob up own s = (Inl e, s')"
  shows "s' = s"
proof -
  let ?s1 = "md_user_namespace_retain up (ns_put a (Some ob) s)"
  have a: "a \<notin> set up" using assms(1,4) fresh_not_in by (auto simp: fresh_child_def)
  have wf: "ns_wf ?s1 up" using assms(1) a by (simp add: inv_intros ns_wf_put_fresh)
  have pos: "refs_positive ?s1 up"
    using assms(2,3) a by (intro refs_positive_retain) (auto simp: refs_positive_put)
  obtain s2 where acq: "md_user_charge_acquire alloc up own MD_USER_NAMESPACES ?s1 = (Inl e, s2)"
    and s': "s' = md_user_namespace_release (a # up) s2"
    using assms(5) by (auto simp: new_attach_def split: prod.splits sum.splits)
  have "s2 = ?s1" by (rule acquire_fails [OF wf pos acq])
  then show ?thesis using s' refused_child_undone [OF assms(1,2,4)] by simp
qed

lemma ns_wf_set_charge [inv_intros]:
  "ns_wf s n \<Longrightarrow> ns_wf (ns_update a (\<lambda>ob. ob\<lparr>charge := c\<rparr>) s) n"
  by (rule ns_wf_cong) (auto simp: ns_page_def ns_update_def ns_object_def)

lemma new_attach_wf:
  assumes "ns_wf s up" "fresh_child s a up ob" "new_attach alloc a ob up own s = (Inr n, s')"
  shows "n = a # up" "ns_wf s' n" "ns_wf s m \<Longrightarrow> ns_wf s' m"
proof -
  let ?s1 = "md_user_namespace_retain up (ns_put a (Some ob) s)"
  obtain c s2 where acq: "md_user_charge_acquire alloc up own MD_USER_NAMESPACES ?s1 = (Inr c, s2)"
    and n: "n = a # up" and s': "s' = ns_update a (\<lambda>ob. ob\<lparr>charge := Some (snd c)\<rparr>) s2"
    using assms(3) by (auto simp: new_attach_def split: prod.splits sum.splits)
  have wf: "ns_wf (ns_put a (Some ob) s) (a # up)"
    using assms(1,2) by (intro ns_wf_link_fresh) (auto simp: fresh_child_def map_valid_in_def)
  have keep: "ns_wf (ns_put a (Some ob) s) k \<Longrightarrow> ns_wf s' k" for k
    using acquire_keeps_ns_wf [OF acq] by (simp add: s' inv_intros del: ns_wf.simps)
  show "n = a # up" "ns_wf s' n" using n wf keep by blast+
  show "ns_wf s' m" if "ns_wf s m"
    using that assms(2) fresh_not_in [OF that] by (intro keep ns_wf_put_fresh) (auto simp: fresh_child_def)
qed

section \<open>What a successful charge changes\<close>

lemma find_at_uid:
  "(\<And>x. charge_uid (f x) = charge_uid x) \<Longrightarrow>
   find (\<lambda>x. charge_uid x = v) (at_uid u f xs) =
     map_option (\<lambda>x. if charge_uid x = u then f x else x) (find (\<lambda>x. charge_uid x = v) xs)"
  by (induction xs) (auto simp: at_uid_def)

lemma count_of_slot:
  "count_of s r p = charge_count (case find (\<lambda>x. charge_uid x = snd p) (slot_accounts s (slot (fst p))) of
     Some x \<Rightarrow> x | None \<Rightarrow> zero_charge (snd p)) ! r"
  by (simp add: count_of_def charge_at_slot)

lemma count_of_bump_other:
  "slot (fst p) \<noteq> slot (fst q) \<Longrightarrow> count_of (count_bump r d q s) r' p = count_of s r' p"
  by (simp add: count_of_slot count_bump_slot acct.get_put)

lemma count_forward_below:
  assumes "count_forward r ps s = (None, s1)" "distinct (map (\<lambda>p. slot (fst p)) ps)" "p \<in> set ps"
  shows "count_of s r p < md_user_namespace_limit s (fst p) r"
  using assms
proof (induction ps arbitrary: s)
  case (Cons q ps)
  show ?case
  proof (cases "p = q")
    case True
    with Cons.prems show ?thesis by (auto split: if_splits)
  next
    case False
    with Cons.prems have p: "p \<in> set ps" "slot (fst p) \<noteq> slot (fst q)"
      and rec: "count_forward r ps (count_bump r 1 q s) = (None, s1)"
      by (auto simp: image_iff split: if_splits)
    with Cons.IH [OF rec] Cons.prems(2) show ?thesis by (simp add: count_of_bump_other frame_simps)
  qed
qed simp

lemma count_of_refs: "count_of (charge_refs d c s) r p = count_of s r p"
proof (cases "slot (fst p) = slot (fst c)")
  case True
  then show ?thesis
    by (auto simp: count_of_slot charge_refs_slot acct.get_put find_at_uid shift_refs_def split: option.splits)
next
  case False
  then show ?thesis by (simp add: count_of_slot charge_refs_slot acct.get_put)
qed

definition counted :: "user_store \<Rightarrow> nat \<Rightarrow> charge_ptr \<Rightarrow> bool" where
  "counted s r p \<longleftrightarrow> has_account s p \<and> (\<forall>x \<in> set (accounts_of s (fst p)). r < length (charge_count x))"

lemma count_of_fold:
  assumes "distinct (map (\<lambda>p. slot (fst p)) ps)" "p \<in> set ps" "counted s r p"
  shows "count_of (fold (count_bump r d) ps s) r p = count_of s r p + d"
proof -
  let ?xs = "slot_accounts s (slot (fst p))"
  have get: "slot_accounts (fold (count_bump r d) ps s) (slot (fst p)) = at_uid (snd p) (bump r d) ?xs"
    unfolding count_bump_slot
    using acct.get_fold_at [OF assms(1,2), where f = "\<lambda>p. at_uid (snd p) (bump r d)" and s = s] .
  obtain x where x: "find (\<lambda>x. charge_uid x = snd p) ?xs = Some x"
    using assms(3) by (cases "find (\<lambda>x. charge_uid x = snd p) ?xs")
      (auto simp: counted_def has_account_def accounts_of_slot find_None_iff)
  then have "x \<in> set ?xs" and uid: "charge_uid x = snd p" by (auto dest: find_SomeD)
  then have len: "r < length (charge_count x)" using assms(3) by (simp add: counted_def accounts_of_slot)
  have "count_of (fold (count_bump r d) ps s) r p = charge_count (bump r d x) ! r"
    unfolding count_of_slot get find_at_uid [of "bump r d", OF charge_uid_bump] x using uid by simp
  also have "\<dots> = count_of s r p + d"
    unfolding count_of_slot x using len by (simp add: bump_def)
  finally show ?thesis .
qed

lemma count_add_counts:
  assumes "ns_wf s (fst c)" "count_add c r s = (Inr u, s')" "p \<in> set (count_chain s (fst c) (snd c))"
    and "counted s r p"
  shows "count_of s r p < md_user_namespace_limit s (fst p) r" "count_of s' r p = count_of s r p + 1"
proof -
  let ?ps = "count_chain s (fst c) (snd c)"
  have d: "distinct (map (\<lambda>p. slot (fst p)) ?ps)"
    by (rule chain_slots_distinct [OF ns_wf_distinct [OF assms(1)]])
  obtain s1 where "count_forward r ?ps s = (None, s1)"
    using assms(2) by (cases "count_forward r ?ps s") (auto simp: count_add_def Let_def split: option.splits)
  from count_forward_below [OF this d assms(3)]
  show "count_of s r p < md_user_namespace_limit s (fst p) r" .
  have "count_of (md_user_namespace_retain (fst c) t) r p = count_of t r p" for t
    by (simp add: count_of_slot frame_simps)
  then show "count_of s' r p = count_of s r p + 1"
    by (simp add: count_add_done [OF assms(2)] count_of_refs count_of_fold [OF d assms(3,4)])
qed

lemma acquire_page [frame_simps]:
  assumes "md_user_charge_acquire alloc n uid r s = (Inr c, s')"
  shows "ns_page s' a = ns_page s a"
proof -
  obtain u where add: "count_add (n, uid) r (link_account (n, uid) s) = (Inr u, s')"
    using assms by (auto simp: md_user_charge_acquire_def split: if_splits sum.splits prod.splits)
  have fold: "ns_page (fold (count_bump r d) ps t) a = ns_page t a" for d ps t
    by (induction ps arbitrary: t) (simp_all add: ns_page_def frame_simps)
  have ret: "ns_page (md_user_namespace_retain m t) a = ns_page t a" for m t
    by (simp add: md_user_namespace_retain_def split: list.splits) (simp add: ns_page_def)
  show ?thesis
    by (simp add: count_add_done [OF add] ret charge_refs_slot frame_simps fold)
      (simp add: link_account_def set_accounts_slot frame_simps)
qed

lemma new_attach_unmapped:
  assumes "new_attach alloc a ob up own s = (Inr n, s')" "fresh_child s a up ob"
  shows "ns_map s' a g = []" "depth (ns_page s' a) = md_user_namespace_depth s up + 1"
proof -
  let ?s1 = "md_user_namespace_retain up (ns_put a (Some ob) s)"
  obtain c s2 where acq: "md_user_charge_acquire alloc up own MD_USER_NAMESPACES ?s1 = (Inr c, s2)"
    and s': "s' = ns_update a (\<lambda>ob. ob\<lparr>charge := Some (snd c)\<rparr>) s2"
    using assms(1) by (auto simp: new_attach_def split: prod.splits sum.splits)
  have "ns_page s' a = ns_page s2 a" by (simp add: s' ns_page_def)
  also have "\<dots> = page ob" using acquire_page [OF acq, of a]
    by (simp add: md_user_namespace_retain_def ns_page_def split: list.splits)
  finally show "ns_map s' a g = []" "depth (ns_page s' a) = md_user_namespace_depth s up + 1"
    using assms(2) by (simp_all add: ns_map_def fresh_child_def)
qed

section \<open>Properties\<close>

text \<open>
  A store for the witnesses: namespace 7 of the initial namespace, charged to user 1000 there,
  where one account with one reference exists.
\<close>

definition demo_accounts :: user_store where
  "demo_accounts = ns_update 7 (\<lambda>ob. ob\<lparr>charge := Some 1000\<rparr>)
     (demo_store\<lparr>initial_accounts := [\<lparr>charge_uid = 1000, charge_count = [1, 0, 0], charge_references = 1\<rparr>]\<rparr>)"

definition demo_charged :: user_store where
  "demo_charged = snd (md_user_charge_acquire True [7] 1000 0 demo_accounts)"

definition demo_os :: ns_os where
  "demo_os = \<lparr>os_memfd = Inr 5, os_truncate = None, os_stat = Inr (1, 99), os_cell = Some 3, os_mmap = None,
     os_identity = Inr 77, os_seal = None, os_account = True\<rparr>"

lemma demo_accounts_wf: "ns_wf demo_accounts [7]" "refs_positive demo_accounts [7]"
  by (simp_all add: demo_accounts_def demo_defs map_valid_in_def refs_positive_def accounts_of_def)

lemmas charge_eval = md_user_charge_acquire_def link_account_def has_account_def accounts_of_def set_accounts_def
  count_add_def count_of_def charge_at_def count_bump_def modify_charge_def at_uid_def bump_def zero_charge_def
  md_user_namespace_limit_def MD_USER_RESOURCE_COUNT_def INT_MAX_def charge_refs_def md_user_namespace_retain_def

lemma demo_acquire:
  "md_user_charge_acquire True [7] 1000 0 demo_accounts = (Inr ([7], 1000), demo_charged)"
  by (simp add: demo_charged_def) (simp add: charge_eval demo_accounts_def demo_defs UINT32_MAX_def word_le_nat_alt)

lemma demo_refuse:
  "md_user_charge_acquire False [7] 1000 0 demo_accounts = (Inl ENOMEM, demo_accounts)"
  by (simp add: charge_eval demo_accounts_def demo_defs UINT32_MAX_def word_le_nat_alt)

text \<open>
  C9: Charging a user is a transaction. Whatever refuses a charge - a limit anywhere on the chain
  of creators, memory, a read-only namespace - leaves the store of namespaces and accounts
  exactly as it was; and releasing a charge right after acquiring it restores the store exactly,
  including an account that had to be linked first.
\<close>

theorem charge_transaction:
  assumes "ns_wf s n" "refs_positive s n"
  shows "case md_user_charge_acquire alloc n uid r s of
      (Inl e, s') \<Rightarrow> s' = s
    | (Inr c, s') \<Rightarrow> c = (n, uid) \<and> md_user_charge_release n uid r s' = s"
  using acquire_fails [OF assms] acquire_release [OF assms]
  by (auto split: prod.splits sum.splits simp del: md_user_charge_release.simps)

theorem charge_transaction_witness:
  "ns_wf demo_accounts [7] \<and> refs_positive demo_accounts [7]
   \<and> md_user_charge_acquire True [7] 1000 0 demo_accounts = (Inr ([7], 1000), demo_charged)
   \<and> md_user_charge_release [7] 1000 0 demo_charged = demo_accounts"
  using charge_transaction [OF demo_accounts_wf, where alloc = True and uid = 1000 and r = 0] demo_acquire demo_accounts_wf by simp

text \<open>
  C10: A charge respects every limit on its way out. If it succeeds, then along the whole chain of
  accounts - the user in the namespace, the creator in its parent, and so on - each count was
  strictly below the limit of its namespace, and each is now exactly one higher.
\<close>

theorem charge_within_limits:
  assumes "ns_wf s n" "count_add (n, uid) r s = (Inr u, s')"
    and "p \<in> set (count_chain s n uid)" "counted s r p"
  shows "count_of s r p < md_user_namespace_limit s (fst p) r \<and> count_of s' r p = count_of s r p + 1
    \<and> unat (count_of s' r p) = unat (count_of s r p) + 1"
proof -
  have cnt: "count_of s r p < md_user_namespace_limit s (fst p) r" "count_of s' r p = count_of s r p + 1"
    using count_add_counts [of s "(n, uid)" r u s' p] assms by simp_all
  have "unat (count_of s r p + 1) = unat (count_of s r p) + 1"
    using cnt(1) by (rule unat_plus_one)
  with cnt show ?thesis by simp
qed

theorem charge_within_limits_witness:
  "count_add ([7], 1000) 0 (link_account ([7], 1000) demo_accounts) = (Inr (), demo_charged)
   \<and> count_of (link_account ([7], 1000) demo_accounts) 0 ([], 1000) = 1
   \<and> count_of demo_charged 0 ([], 1000) = 2"
proof -
  let ?s = "link_account ([7], 1000) demo_accounts"
  have add: "count_add ([7], 1000) 0 ?s = (Inr (), demo_charged)"
    by (simp add: demo_charged_def) (simp add: charge_eval demo_accounts_def demo_defs UINT32_MAX_def word_le_nat_alt)
  have wf: "ns_wf ?s [7]" using demo_accounts_wf(1) by (rule ns_wf_link)
  have mem: "([], 1000) \<in> set (count_chain ?s [7] 1000)" "counted ?s 0 ([], 1000)"
    by (simp_all add: charge_eval counted_def demo_accounts_def demo_defs)
  have "count_of ?s 0 ([], 1000) = 1" by (simp add: charge_eval demo_accounts_def demo_defs)
  with add charge_within_limits [OF wf add mem] show ?thesis by simp
qed

text \<open>
  C11: Creating a namespace either fails without a trace or yields a well-formed child. Every
  failure - depth, an unmapped creator, the operating system, the creator's limit - leaves the
  store unchanged; success returns a fresh child one level deeper and within the depth limit, in
  which no identifier is mapped yet, and keeps every existing namespace well-formed.
\<close>

theorem creation_sound:
  assumes wf: "ns_wf s up" and pos: "refs_positive s up"
    and refs: "\<forall>a \<in> set up. references (ns_object s a) \<noteq> UINT32_MAX"
    and fresh: "\<forall>a. os_cell os = Some a \<longrightarrow> ns_heap s a = None"
  shows "case md_user_namespace_new os up own grp sf s of
      (Inl e, s') \<Rightarrow> s' = s
    | (Inr n, s') \<Rightarrow> tl n = up \<and> ns_heap s (hd n) = None \<and> ns_wf s' n
        \<and> (\<forall>m. ns_wf s m \<longrightarrow> ns_wf s' m) \<and> (\<forall>g x. md_user_namespace_into s' n g x = UINT32_MAX)
        \<and> md_user_namespace_depth s' n = md_user_namespace_depth s up + 1
        \<and> md_user_namespace_depth s' n \<le> MD_USER_NAMESPACE_DEPTH"
proof (cases "md_user_namespace_new os up own grp sf s")
  case (Pair res s')
  from Pair fresh show ?thesis
  proof (cases rule: new_cases)
    case (attach a ob)
    show ?thesis
    proof (cases res)
      case (Inl e)
      then have "s' = s" using new_attach_fails [OF wf pos refs attach(1)] attach(2) by simp
      then show ?thesis using Pair Inl by simp
    next
      case (Inr n)
      note ok = attach(2) [unfolded Inr]
      have n: "n = a # up" using new_attach_wf(1) [OF wf attach(1) ok] .
      have "md_user_namespace_into s' n g x = UINT32_MAX" for g x
        using new_attach_unmapped(1) [OF ok attach(1)] by (simp add: n translate_def into_max)
      moreover have "md_user_namespace_depth s' n = md_user_namespace_depth s up + 1"
        using new_attach_unmapped(2) [OF ok attach(1)] by (simp add: n md_user_namespace_depth_def)
      ultimately show ?thesis
        using Pair Inr n attach new_attach_wf [OF wf attach(1) ok]
        by (auto simp: fresh_child_def md_user_namespace_depth_def MD_USER_NAMESPACE_DEPTH_def split: list.splits)
    qed
  qed (simp add: Pair)
qed

theorem creation_sound_witness:
  "\<exists>s'. md_user_namespace_new demo_os [] 1000 1000 False initial_store = (Inr [3], s') \<and> ns_wf s' [3]"
proof -
  have "\<exists>s'. md_user_namespace_new demo_os [] 1000 1000 False initial_store = (Inr [3], s')"
    by (simp add: md_user_namespace_new_def Let_def demo_os_def allocate_def new_attach_def charge_eval
        initial_store_def ns_put_def UINT32_MAX_def MD_USER_NAMESPACES_def word_le_nat_alt)
  then show ?thesis
    using creation_sound [of initial_store "[]" demo_os 1000 1000 False]
    by (auto simp: refs_positive_def accounts_of_def initial_store_def)
qed

text \<open>
  C12: A namespace accepted from another process is as good as a local one. If importing a list
  of sealed pages succeeds, the result is a well-formed chain with one namespace per page, so
  its translations invert each other, none of its namespaces can be mapped again, and
  everything already in the store is untouched.
\<close>

theorem import_sound:
  assumes "md_user_namespace_import rights s = (Inr n, s')" "cells_fresh s rights"
  shows "ns_wf s' n \<and> length n = length rights \<and> length n \<le> MD_USER_NAMESPACE_DEPTH
    \<and> (\<forall>a. ns_heap s a \<noteq> None \<longrightarrow> ns_heap s' a = ns_heap s a)
    \<and> (n \<noteq> [] \<longrightarrow> (\<forall>grp op. md_user_namespace_map_admit s' n grp op = Inl EPERM))"
proof -
  have len: "length rights \<le> MD_USER_NAMESPACE_DEPTH" and imp: "import_pages rights 0 [] s = (Inr n, s')"
    using assms(1) by (auto simp: md_user_namespace_import_def split: if_splits)
  from import_pages_wf [OF imp _ assms(2)] have w: "ns_wf s' n" "length n = length rights"
    "\<forall>a \<in> set n. \<not> writer (ns_object s' a)" "\<forall>a. ns_heap s a \<noteq> None \<longrightarrow> ns_heap s' a = ns_heap s a" by auto
  then have "n \<noteq> [] \<longrightarrow> (\<forall>grp op. md_user_namespace_map_admit s' n grp op = Inl EPERM)"
    by (cases n) (auto simp: md_user_namespace_map_admit_def split: option.splits)
  with w len show ?thesis by auto
qed

definition demo_right :: page_right where
  "demo_right = \<lparr>right_stat = None, right_sealed = True, right_dup = Inr 8, right_os = demo_os,
     right_page = (page demo_child)\<lparr>page_inode := 77, uid_map := [demo_range]\<rparr>\<rparr>"

theorem import_sound_witness:
  "\<exists>s'. md_user_namespace_import [demo_right] initial_store = (Inr [3], s') \<and> ns_wf s' [3]
     \<and> md_user_namespace_map_admit s' [3] False (Some demo_user) = Inl EPERM"
proof -
  have imp: "\<exists>s'. md_user_namespace_import [demo_right] initial_store = (Inr [3], s')"
    by (simp add: md_user_namespace_import_def MD_USER_NAMESPACE_DEPTH_def demo_right_def demo_os_def allocate_def
        valid_page_def MD_USER_RESOURCE_COUNT_def md_user_namespace_key_def same_id_def map_valid_in_def
        MD_USER_MAP_EXTENTS_def extent_valid_def UINT32_MAX_def demo_child_def demo_range_def zero_page_def zero_object_def null_key_def)
  have "cells_fresh initial_store [demo_right]"
    by (simp add: cells_fresh_def initial_store_def)
  then show ?thesis using import_sound [of "[demo_right]" initial_store "[3]"] imp by fastforce
qed

end
