(* ===== verification/File_Capability.thy ===== *)
theory File_Capability
  imports Prelude
begin

unbundle bit_operations_syntax

text \<open>
  The value of the \<^verbatim>\<open>security.capability\<close> attribute,
  \<^verbatim>\<open>src/native/shroot/src/file_capability.h\<close>: validation and decoding of the three
  little-endian revisions.
\<close>

record file_capabilities =
  fc_permitted :: u64
  fc_inheritable :: u64
  fc_rootid :: u32
  fc_present :: bool
  fc_effective :: bool

definition no_file_capabilities :: file_capabilities where
  "no_file_capabilities = \<lparr>fc_permitted = 0, fc_inheritable = 0, fc_rootid = 0,
     fc_present = False, fc_effective = False\<rparr>"

text \<open>A 32-bit little-endian word at offset \<open>i\<close> of a byte string.\<close>

definition md_file_capability_word :: "u8 list \<Rightarrow> nat \<Rightarrow> u32" where
  "md_file_capability_word p i =
     ucast (p ! i) OR push_bit 8 (ucast (p ! (i + 1)))
       OR push_bit 16 (ucast (p ! (i + 2))) OR push_bit 24 (ucast (p ! (i + 3)))"

definition md_file_capability_valid :: "u8 list \<Rightarrow> bool" where
  "md_file_capability_valid p =
     (if length p < 4 then False
      else let magic = md_file_capability_word p 0; revision = drop_bit 24 magic
           in magic AND 0x00fffffe = 0 \<and>
              (revision = 1 \<and> length p = 12 \<or> revision = 2 \<and> length p = 20
                \<or> revision = 3 \<and> length p = 24))"

text \<open>The decoded value and whether the decoder accepts it.\<close>

definition md_file_capability_decode :: "u8 list \<Rightarrow> file_capabilities \<times> bool" where
  "md_file_capability_decode p =
     (if \<not> md_file_capability_valid p then (no_file_capabilities, False)
      else
        let low = \<lparr>fc_permitted = ucast (md_file_capability_word p 4),
              fc_inheritable = ucast (md_file_capability_word p 8), fc_rootid = 0,
              fc_present = True, fc_effective = p ! 0 AND 1 \<noteq> 0\<rparr>;
            wide = (if length p \<ge> 20
              then low\<lparr>fc_permitted := fc_permitted low OR push_bit 32 (ucast (md_file_capability_word p 12)),
                fc_inheritable := fc_inheritable low OR push_bit 32 (ucast (md_file_capability_word p 16))\<rparr>
              else low);
            out = (if length p = 24 then wide\<lparr>fc_rootid := md_file_capability_word p 20\<rparr> else wide)
        in (out, fc_rootid out \<noteq> UINT32_MAX))"

end
