(* ===== verification/Guest_Identity.thy ===== *)
theory Guest_Identity
  imports User_Charge File_Capability
begin

unbundle bit_operations_syntax

text \<open>
  Guest credentials, \<^verbatim>\<open>src/native/shroot/src/guest_identity.c\<close>: user and group identifiers,
  supplementary groups, the five capability sets with their securebits, and the change of
  credentials at \<open>execve\<close>. Identifiers are canonical; the user namespace of the identity
  translates at the system-call boundary. The immutable group array is a sorted list, so the
  count of its owners is not part of the model.
\<close>

section \<open>Data\<close>

definition MD_IDENTITY_GROUPS_MAX :: nat where "MD_IDENTITY_GROUPS_MAX = 65536"

definition MD_USER_OVERFLOW_ID :: u32 where "MD_USER_OVERFLOW_ID = 65534"

definition MD_CAP_LAST :: nat where "MD_CAP_LAST = 40"

definition MD_CAP_VALID :: u64 where "MD_CAP_VALID = push_bit (MD_CAP_LAST + 1) 1 - 1"

definition CAP_CHOWN :: nat where "CAP_CHOWN = 0"
definition CAP_DAC_OVERRIDE :: nat where "CAP_DAC_OVERRIDE = 1"
definition CAP_DAC_READ_SEARCH :: nat where "CAP_DAC_READ_SEARCH = 2"
definition CAP_FOWNER :: nat where "CAP_FOWNER = 3"
definition CAP_FSETID :: nat where "CAP_FSETID = 4"
definition CAP_SETPCAP :: nat where "CAP_SETPCAP = 8"
definition CAP_SYS_CHROOT :: nat where "CAP_SYS_CHROOT = 18"
definition CAP_SYS_PTRACE :: nat where "CAP_SYS_PTRACE = 19"
definition CAP_SYS_RESOURCE :: nat where "CAP_SYS_RESOURCE = 24"

record identity_ids =
  id_real :: u32
  id_effective :: u32
  id_saved :: u32
  id_fs :: u32

record capabilities =
  permitted :: u64
  effective :: u64
  inheritable :: u64
  bounding :: u64
  ambient :: u64
  securebits :: u32

record identity =
  id_uid :: identity_ids
  id_gid :: identity_ids
  id_caps :: capabilities
  no_new_privs :: bool
  id_groups :: "u32 list"
  id_ns :: ns_ptr

definition SECBIT_NOROOT :: u32 where "SECBIT_NOROOT = 0x01"
definition SECBIT_NO_SETUID_FIXUP :: u32 where "SECBIT_NO_SETUID_FIXUP = 0x04"
definition SECBIT_KEEP_CAPS :: u32 where "SECBIT_KEEP_CAPS = 0x10"
definition SECBIT_KEEP_CAPS_LOCKED :: u32 where "SECBIT_KEEP_CAPS_LOCKED = 0x20"
definition SECBIT_NO_CAP_AMBIENT_RAISE :: u32 where "SECBIT_NO_CAP_AMBIENT_RAISE = 0x40"
definition SECURE_LOCKS :: u32 where "SECURE_LOCKS = 0xAA"

definition cap_bit :: "nat \<Rightarrow> u64" where
  "cap_bit c = push_bit c 1"

section \<open>Groups\<close>

definition md_identity_groups :: "bool \<Rightarrow> identity \<Rightarrow> u32 list \<Rightarrow> identity result" where
  "md_identity_groups alloc v gids =
     (if length gids > MD_IDENTITY_GROUPS_MAX then Inl EINVAL
      else if \<exists>g \<in> set gids. g = UINT32_MAX then Inl EINVAL
      else if gids \<noteq> [] \<and> \<not> alloc then Inl ENOMEM
      else Inr (v\<lparr>id_groups := sort gids\<rparr>))"

text \<open>The binary search of the C library over \<open>ids[lo..<hi]\<close>.\<close>

function bsearch :: "u32 \<Rightarrow> u32 list \<Rightarrow> nat \<Rightarrow> nat \<Rightarrow> bool" where
  "bsearch key ids lo hi =
     (if lo \<ge> hi then False
      else let mid = (lo + hi) div 2
           in if key < ids ! mid then bsearch key ids lo mid
              else if key > ids ! mid then bsearch key ids (mid + 1) hi
              else True)"
  by pat_completeness auto
termination
  by (relation "measure (\<lambda>(_, _, lo, hi). hi - lo)") auto

definition md_identity_in_group :: "identity \<Rightarrow> u32 \<Rightarrow> bool" where
  "md_identity_in_group v gid \<longleftrightarrow>
     (if id_fs (id_gid v) = gid then True else bsearch gid (id_groups v) 0 (length (id_groups v)))"

section \<open>Authority\<close>

definition md_identity_capable :: "identity \<Rightarrow> nat \<Rightarrow> bool" where
  "md_identity_capable v cap \<longleftrightarrow> cap < 64 \<and> effective (id_caps v) AND cap_bit cap \<noteq> 0"

definition md_identity_capable_in :: "user_store \<Rightarrow> identity \<Rightarrow> ns_ptr \<Rightarrow> nat \<Rightarrow> bool" where
  "md_identity_capable_in s v target cap =
     md_user_namespace_capable s (id_ns v) (id_effective (id_uid v)) (effective (id_caps v)) target cap"

definition md_identity_visible_id :: "user_store \<Rightarrow> identity \<Rightarrow> bool \<Rightarrow> u32 \<Rightarrow> u32" where
  "md_identity_visible_id s v grp i =
     (let mapped = md_user_namespace_from s (id_ns v) grp i
      in if mapped = UINT32_MAX then MD_USER_OVERFLOW_ID else mapped)"

definition md_identity_root :: "user_store \<Rightarrow> identity \<Rightarrow> u32" where
  "md_identity_root s v = md_user_namespace_into s (id_ns v) False 0"

definition md_identity_may_inspect :: "user_store \<Rightarrow> identity \<Rightarrow> identity \<Rightarrow> bool \<Rightarrow> bool" where
  "md_identity_may_inspect s from to filesystem =
     (if md_identity_capable_in s from (id_ns to) CAP_SYS_PTRACE then True
      else
        let uid = (if filesystem then id_fs (id_uid from) else id_real (id_uid from));
            gid = (if filesystem then id_fs (id_gid from) else id_real (id_gid from));
            caps = (if filesystem then effective (id_caps from) else permitted (id_caps from))
        in uid = id_real (id_uid to) \<and> uid = id_effective (id_uid to) \<and> uid = id_saved (id_uid to)
         \<and> gid = id_real (id_gid to) \<and> gid = id_effective (id_gid to) \<and> gid = id_saved (id_gid to)
         \<and> id_ns from = id_ns to \<and> permitted (id_caps to) AND NOT caps = 0)"

fun map_groups :: "user_store \<Rightarrow> ns_ptr \<Rightarrow> u32 list \<Rightarrow> u32 list option" where
  "map_groups s n [] = Some []"
| "map_groups s n (g # gs) =
     (let k = md_user_namespace_into s n True g
      in if k = UINT32_MAX then None else map_option (Cons k) (map_groups s n gs))"

definition md_identity_setgroups ::
  "user_store \<Rightarrow> bool \<Rightarrow> identity \<Rightarrow> u32 list \<Rightarrow> identity result" where
  "md_identity_setgroups s alloc v gids =
     (if \<not> md_identity_capable v CAP_SETGID \<or> \<not> md_user_namespace_may_setgroups s (id_ns v) then Inl EPERM
      else if length gids > MD_IDENTITY_GROUPS_MAX then Inl EINVAL
      else case map_groups s (id_ns v) gids of
             None \<Rightarrow> Inl EINVAL
           | Some ks \<Rightarrow> md_identity_groups alloc v ks)"

definition same_ids :: "u32 \<Rightarrow> identity_ids" where
  "same_ids i = \<lparr>id_real = i, id_effective = i, id_saved = i, id_fs = i\<rparr>"

definition md_identity_new :: "u32 \<Rightarrow> u32 \<Rightarrow> identity" where
  "md_identity_new uid gid =
     (let supported = MD_CAP_VALID
      in \<lparr>id_uid = same_ids uid, id_gid = same_ids gid,
          id_caps = \<lparr>permitted = if uid \<noteq> 0 then 0 else supported,
            effective = if uid \<noteq> 0 then 0 else supported, inheritable = 0,
            bounding = supported, ambient = 0, securebits = 0\<rparr>,
          no_new_privs = False, id_groups = [], id_ns = []\<rparr>)"

definition md_identity_enter_user_namespace ::
  "ns_os \<Rightarrow> identity \<Rightarrow> user_store \<Rightarrow> identity result \<times> user_store" where
  "md_identity_enter_user_namespace os v s =
     (case md_user_namespace_new os (id_ns v) (id_effective (id_uid v)) (id_effective (id_gid v))
             (md_identity_capable v CAP_SETFCAP) s of
        (Inl e, s1) \<Rightarrow> (Inl e, s1)
      | (Inr n, s1) \<Rightarrow> (Inr (v\<lparr>id_ns := n, id_caps := id_caps (md_identity_new 0 0)\<rparr>),
                       md_user_namespace_release (id_ns v) s1))"

definition md_identity_join_user_namespace ::
  "identity \<Rightarrow> ns_ptr \<Rightarrow> user_store \<Rightarrow> identity result \<times> user_store" where
  "md_identity_join_user_namespace v target s =
     (if same s (id_ns v) target then (Inl EINVAL, s)
      else if \<not> md_identity_capable_in s v target CAP_SYS_ADMIN then (Inl EPERM, s)
      else (Inr (v\<lparr>id_ns := target, id_caps := id_caps (md_identity_new 0 0)\<rparr>),
            md_user_namespace_release (id_ns v) (md_user_namespace_retain target s)))"

section \<open>Capabilities after a change of user\<close>

definition fs_caps :: u64 where
  "fs_caps = cap_bit CAP_CHOWN OR cap_bit CAP_DAC_OVERRIDE OR cap_bit CAP_FOWNER OR cap_bit CAP_FSETID"

definition uid_changed :: "user_store \<Rightarrow> identity_ids \<Rightarrow> identity \<Rightarrow> identity" where
  "uid_changed s old v =
     (if securebits (id_caps v) AND SECBIT_NO_SETUID_FIXUP \<noteq> 0 then v
      else
        let root = md_identity_root s v; new = id_uid v; c0 = id_caps v;
            c1 = (if (id_real old = root \<or> id_effective old = root \<or> id_saved old = root)
                     \<and> id_real new \<noteq> root \<and> id_effective new \<noteq> root \<and> id_saved new \<noteq> root
                  then (if securebits c0 AND SECBIT_KEEP_CAPS = 0 then c0\<lparr>permitted := 0\<rparr> else c0)
                         \<lparr>effective := 0, ambient := 0\<rparr>
                  else c0);
            c2 = (if id_effective old = root \<and> id_effective new \<noteq> root then c1\<lparr>effective := 0\<rparr> else c1);
            c3 = (if id_effective old \<noteq> root \<and> id_effective new = root
                  then c2\<lparr>effective := permitted c2\<rparr> else c2);
            c4 = (if id_fs old = root \<and> id_fs new \<noteq> root
                  then c3\<lparr>effective := effective c3 AND NOT fs_caps\<rparr> else c3);
            c5 = (if id_fs old \<noteq> root \<and> id_fs new = root
                  then c4\<lparr>effective := effective c4 OR (permitted c4 AND fs_caps)\<rparr> else c4)
        in v\<lparr>id_caps := c5\<rparr>)"

definition md_identity_capset :: "identity \<Rightarrow> u64 \<Rightarrow> u64 \<Rightarrow> u64 \<Rightarrow> identity result" where
  "md_identity_capset v perm eff inh =
     (let c = id_caps v;
          allowed0 = inheritable c OR permitted c;
          allowed = (if md_identity_capable v CAP_SETPCAP then allowed0 OR bounding c else allowed0)
      in if perm AND NOT (permitted c) \<noteq> 0 \<or> eff AND NOT perm \<noteq> 0 \<or> inh AND NOT allowed \<noteq> 0
            \<or> inh AND NOT (inheritable c OR bounding c) \<noteq> 0 then Inl EPERM
         else Inr (v\<lparr>id_caps := c\<lparr>permitted := perm, effective := eff, inheritable := inh,
                ambient := ambient c AND (perm AND inh)\<rparr>\<rparr>))"

datatype cap_op = PR_GET_KEEPCAPS | PR_SET_KEEPCAPS | PR_GET_SECUREBITS | PR_SET_SECUREBITS
  | PR_CAPBSET_READ | PR_CAPBSET_DROP | PR_CAP_AMBIENT | PR_OTHER

definition PR_CAP_AMBIENT_IS_SET :: u64 where "PR_CAP_AMBIENT_IS_SET = 1"
definition PR_CAP_AMBIENT_RAISE :: u64 where "PR_CAP_AMBIENT_RAISE = 2"
definition PR_CAP_AMBIENT_LOWER :: u64 where "PR_CAP_AMBIENT_LOWER = 3"
definition PR_CAP_AMBIENT_CLEAR_ALL :: u64 where "PR_CAP_AMBIENT_CLEAR_ALL = 4"

definition set_keepcaps :: "identity \<Rightarrow> u64 \<Rightarrow> u64 result \<times> identity" where
  "set_keepcaps v a0 =
     (let c = id_caps v in
      if a0 > 1 then (Inl EINVAL, v)
      else if securebits c AND SECBIT_KEEP_CAPS_LOCKED \<noteq> 0 then (Inl EPERM, v)
      else (Inr 0, v\<lparr>id_caps := c\<lparr>securebits := (securebits c AND NOT SECBIT_KEEP_CAPS)
              OR (if a0 \<noteq> 0 then SECBIT_KEEP_CAPS else 0)\<rparr>\<rparr>))"

definition set_securebits :: "identity \<Rightarrow> u64 \<Rightarrow> u64 result \<times> identity" where
  "set_securebits v a0 =
     (let c = id_caps v; bits = ucast (securebits c) :: u64; locks = ucast SECURE_LOCKS :: u64 in
      if a0 AND NOT (locks OR drop_bit 1 locks) \<noteq> 0 then (Inl EINVAL, v)
      else if \<not> md_identity_capable v CAP_SETPCAP \<or> (bits AND locks) AND NOT a0 \<noteq> 0
              \<or> push_bit 1 (bits XOR a0) AND bits AND locks \<noteq> 0 then (Inl EPERM, v)
      else (Inr 0, v\<lparr>id_caps := c\<lparr>securebits := ucast a0\<rparr>\<rparr>))"

definition cap_bounding :: "identity \<Rightarrow> bool \<Rightarrow> u64 \<Rightarrow> u64 result \<times> identity" where
  "cap_bounding v reading a0 =
     (let c = id_caps v in
      if unat a0 > MD_CAP_LAST then (Inl EINVAL, v)
      else if reading then (Inr (if bounding c AND cap_bit (unat a0) \<noteq> 0 then 1 else 0), v)
      else if \<not> md_identity_capable v CAP_SETPCAP then (Inl EPERM, v)
      else (Inr 0, v\<lparr>id_caps := c\<lparr>bounding := bounding c AND NOT (cap_bit (unat a0))\<rparr>\<rparr>))"

definition cap_ambient :: "identity \<Rightarrow> u64 \<Rightarrow> u64 \<Rightarrow> u64 \<Rightarrow> u64 \<Rightarrow> u64 result \<times> identity" where
  "cap_ambient v a0 a1 a2 a3 =
     (let c = id_caps v; b = cap_bit (unat a1) in
      if a2 \<noteq> 0 \<or> a3 \<noteq> 0 then (Inl EINVAL, v)
      else if a0 = PR_CAP_AMBIENT_CLEAR_ALL then
        (if a1 \<noteq> 0 then (Inl EINVAL, v) else (Inr 0, v\<lparr>id_caps := c\<lparr>ambient := 0\<rparr>\<rparr>))
      else if unat a1 > MD_CAP_LAST then (Inl EINVAL, v)
      else if a0 = PR_CAP_AMBIENT_IS_SET then (Inr (if ambient c AND b \<noteq> 0 then 1 else 0), v)
      else if a0 = PR_CAP_AMBIENT_LOWER then (Inr 0, v\<lparr>id_caps := c\<lparr>ambient := ambient c AND NOT b\<rparr>\<rparr>)
      else if a0 \<noteq> PR_CAP_AMBIENT_RAISE then (Inl EINVAL, v)
      else if permitted c AND inheritable c AND b = 0
              \<or> securebits c AND SECBIT_NO_CAP_AMBIENT_RAISE \<noteq> 0 then (Inl EPERM, v)
      else (Inr 0, v\<lparr>id_caps := c\<lparr>ambient := ambient c OR b\<rparr>\<rparr>))"

fun md_identity_cap_prctl ::
  "identity \<Rightarrow> cap_op \<Rightarrow> u64 \<Rightarrow> u64 \<Rightarrow> u64 \<Rightarrow> u64 \<Rightarrow> u64 result \<times> identity" where
  "md_identity_cap_prctl v PR_GET_KEEPCAPS a0 a1 a2 a3 =
     (Inr (if securebits (id_caps v) AND SECBIT_KEEP_CAPS \<noteq> 0 then 1 else 0), v)"
| "md_identity_cap_prctl v PR_SET_KEEPCAPS a0 a1 a2 a3 = set_keepcaps v a0"
| "md_identity_cap_prctl v PR_GET_SECUREBITS a0 a1 a2 a3 = (Inr (ucast (securebits (id_caps v))), v)"
| "md_identity_cap_prctl v PR_SET_SECUREBITS a0 a1 a2 a3 = set_securebits v a0"
| "md_identity_cap_prctl v PR_CAPBSET_READ a0 a1 a2 a3 = cap_bounding v True a0"
| "md_identity_cap_prctl v PR_CAPBSET_DROP a0 a1 a2 a3 = cap_bounding v False a0"
| "md_identity_cap_prctl v PR_CAP_AMBIENT a0 a1 a2 a3 = cap_ambient v a0 a1 a2 a3"
| "md_identity_cap_prctl v PR_OTHER a0 a1 a2 a3 = (Inl ENOTSUP, v)"

section \<open>Change of identifiers\<close>

definition existing :: "identity_ids \<Rightarrow> u32 \<Rightarrow> bool" where
  "existing ids i \<longleftrightarrow> i = UINT32_MAX \<or> i = id_real ids \<or> i = id_effective ids \<or> i = id_saved ids"

definition map_optional :: "user_store \<Rightarrow> identity \<Rightarrow> bool \<Rightarrow> u32 \<Rightarrow> u32 option" where
  "map_optional s v grp i =
     (if i = UINT32_MAX then Some i
      else let k = md_user_namespace_into s (id_ns v) grp i
           in if k = UINT32_MAX then None else Some k)"

definition keep_or :: "u32 \<Rightarrow> u32 \<Rightarrow> u32" where
  "keep_or new old = (if new \<noteq> UINT32_MAX then new else old)"

definition setres :: "identity_ids \<Rightarrow> bool \<Rightarrow> u32 \<Rightarrow> u32 \<Rightarrow> u32 \<Rightarrow> identity_ids result" where
  "setres ids privileged r e sv =
     (if \<not> privileged \<and> (\<not> existing ids r \<or> \<not> existing ids e \<or> \<not> existing ids sv) then Inl EPERM
      else Inr \<lparr>id_real = keep_or r (id_real ids), id_effective = keep_or e (id_effective ids),
                id_saved = keep_or sv (id_saved ids), id_fs = keep_or e (id_effective ids)\<rparr>)"

definition setid :: "identity_ids \<Rightarrow> bool \<Rightarrow> u32 \<Rightarrow> identity_ids result" where
  "setid ids root i =
     (if i = UINT32_MAX then Inl EINVAL
      else if root then Inr (same_ids i)
      else if i = id_real ids \<or> i = id_saved ids then Inr (ids\<lparr>id_effective := i, id_fs := i\<rparr>)
      else Inl EPERM)"

definition setre :: "identity_ids \<Rightarrow> bool \<Rightarrow> u32 \<Rightarrow> u32 \<Rightarrow> identity_ids result" where
  "setre ids root r e =
     (if \<not> root \<and> (r \<noteq> UINT32_MAX \<and> r \<noteq> id_real ids \<and> r \<noteq> id_effective ids \<or> \<not> existing ids e)
      then Inl EPERM
      else
        let eff = keep_or e (id_effective ids)
        in Inr \<lparr>id_real = keep_or r (id_real ids), id_effective = eff,
                id_saved = if r \<noteq> UINT32_MAX \<or> e \<noteq> UINT32_MAX \<and> e \<noteq> id_real ids then eff else id_saved ids,
                id_fs = eff\<rparr>)"

definition setfs :: "identity_ids \<Rightarrow> bool \<Rightarrow> u32 \<Rightarrow> identity_ids \<times> u32" where
  "setfs ids root i =
     ((if i \<noteq> UINT32_MAX \<and> (root \<or> existing ids i \<or> i = id_fs ids) then ids\<lparr>id_fs := i\<rparr> else ids),
      id_fs ids)"

text \<open>The user identifiers and what follows for the capabilities.\<close>

definition commit_uid :: "user_store \<Rightarrow> identity \<Rightarrow> identity_ids result \<Rightarrow> identity result" where
  "commit_uid s v r =
     (case r of Inl e \<Rightarrow> Inl e | Inr ids \<Rightarrow> Inr (uid_changed s (id_uid v) (v\<lparr>id_uid := ids\<rparr>)))"

definition commit_gid :: "identity \<Rightarrow> identity_ids result \<Rightarrow> identity result" where
  "commit_gid v r = (case r of Inl e \<Rightarrow> Inl e | Inr ids \<Rightarrow> Inr (v\<lparr>id_gid := ids\<rparr>))"

definition md_identity_setresuid :: "user_store \<Rightarrow> identity \<Rightarrow> u32 \<Rightarrow> u32 \<Rightarrow> u32 \<Rightarrow> identity result" where
  "md_identity_setresuid s v r e sv =
     (case (map_optional s v False r, map_optional s v False e, map_optional s v False sv) of
        (Some r, Some e, Some sv) \<Rightarrow>
          commit_uid s v (setres (id_uid v) (md_identity_capable v CAP_SETUID) r e sv)
      | _ \<Rightarrow> Inl EINVAL)"

definition md_identity_setresgid :: "user_store \<Rightarrow> identity \<Rightarrow> u32 \<Rightarrow> u32 \<Rightarrow> u32 \<Rightarrow> identity result" where
  "md_identity_setresgid s v r e sv =
     (case (map_optional s v True r, map_optional s v True e, map_optional s v True sv) of
        (Some r, Some e, Some sv) \<Rightarrow>
          commit_gid v (setres (id_gid v) (md_identity_capable v CAP_SETGID) r e sv)
      | _ \<Rightarrow> Inl EINVAL)"

definition md_identity_setuid :: "user_store \<Rightarrow> identity \<Rightarrow> u32 \<Rightarrow> identity result" where
  "md_identity_setuid s v i =
     commit_uid s v (setid (id_uid v) (md_identity_capable v CAP_SETUID)
       (md_user_namespace_into s (id_ns v) False i))"

definition md_identity_setgid :: "user_store \<Rightarrow> identity \<Rightarrow> u32 \<Rightarrow> identity result" where
  "md_identity_setgid s v i =
     commit_gid v (setid (id_gid v) (md_identity_capable v CAP_SETGID)
       (md_user_namespace_into s (id_ns v) True i))"

definition md_identity_setreuid :: "user_store \<Rightarrow> identity \<Rightarrow> u32 \<Rightarrow> u32 \<Rightarrow> identity result" where
  "md_identity_setreuid s v r e =
     (case (map_optional s v False r, map_optional s v False e) of
        (Some r, Some e) \<Rightarrow> commit_uid s v (setre (id_uid v) (md_identity_capable v CAP_SETUID) r e)
      | _ \<Rightarrow> Inl EINVAL)"

definition md_identity_setregid :: "user_store \<Rightarrow> identity \<Rightarrow> u32 \<Rightarrow> u32 \<Rightarrow> identity result" where
  "md_identity_setregid s v r e =
     (case (map_optional s v True r, map_optional s v True e) of
        (Some r, Some e) \<Rightarrow> commit_gid v (setre (id_gid v) (md_identity_capable v CAP_SETGID) r e)
      | _ \<Rightarrow> Inl EINVAL)"

definition md_identity_setfsuid :: "user_store \<Rightarrow> identity \<Rightarrow> u32 \<Rightarrow> u32 \<times> identity" where
  "md_identity_setfsuid s v i =
     (let (ids, old) = setfs (id_uid v) (md_identity_capable v CAP_SETUID)
            (md_user_namespace_into s (id_ns v) False i);
          v1 = uid_changed s (id_uid v) (v\<lparr>id_uid := ids\<rparr>)
      in (md_identity_visible_id s v1 False old, v1))"

definition md_identity_setfsgid :: "user_store \<Rightarrow> identity \<Rightarrow> u32 \<Rightarrow> u32 \<times> identity" where
  "md_identity_setfsgid s v i =
     (let (ids, old) = setfs (id_gid v) (md_identity_capable v CAP_SETGID)
            (md_user_namespace_into s (id_ns v) True i);
          v1 = v\<lparr>id_gid := ids\<rparr>
      in (md_identity_visible_id s v1 True old, v1))"

definition md_identity_no_new_privs :: "identity \<Rightarrow> u32 \<Rightarrow> identity result" where
  "md_identity_no_new_privs v enable =
     (if enable \<noteq> 1 then Inl EINVAL else Inr (v\<lparr>no_new_privs := True\<rparr>))"

definition md_identity_may_chroot :: "identity \<Rightarrow> bool" where
  "md_identity_may_chroot v = md_identity_capable v CAP_SYS_CHROOT"

definition md_identity_file_capable :: "user_store \<Rightarrow> identity \<Rightarrow> u32 \<Rightarrow> u32 \<Rightarrow> nat \<Rightarrow> bool" where
  "md_identity_file_capable s v uid gid cap \<longleftrightarrow>
     md_identity_capable v cap \<and> md_user_namespace_from s (id_ns v) False uid \<noteq> UINT32_MAX
     \<and> (cap = CAP_FOWNER \<or> md_user_namespace_from s (id_ns v) True gid \<noteq> UINT32_MAX)"

definition md_identity_access :: "user_store \<Rightarrow> identity \<Rightarrow> bool \<Rightarrow> identity" where
  "md_identity_access s v eff =
     (if eff then v
      else v\<lparr>id_uid := (id_uid v)\<lparr>id_fs := id_real (id_uid v)\<rparr>,
             id_gid := (id_gid v)\<lparr>id_fs := id_real (id_gid v)\<rparr>,
             id_caps := (id_caps v)\<lparr>effective :=
               if id_real (id_uid v) = md_identity_root s v then permitted (id_caps v) else 0\<rparr>\<rparr>)"

section \<open>Execution\<close>

text \<open>The root of the capabilities' namespace is root here or in an ancestor.\<close>

fun rootid_applies :: "user_store \<Rightarrow> ns_ptr \<Rightarrow> u32 \<Rightarrow> bool" where
  "rootid_applies s n rootid =
     (if md_user_namespace_from s n False rootid = 0 then True
      else case n of [] \<Rightarrow> False | _ # up \<Rightarrow> rootid_applies s up rootid)"

definition file_capabilities_apply :: "user_store \<Rightarrow> identity \<Rightarrow> file_capabilities option \<Rightarrow> bool" where
  "file_capabilities_apply s v f =
     (case f of None \<Rightarrow> False
      | Some c \<Rightarrow> if \<not> fc_present c \<or> fc_rootid c = UINT32_MAX then False
                  else rootid_applies s (id_ns v) (fc_rootid c))"

definition exec_file_permitted :: "capabilities \<Rightarrow> bool \<Rightarrow> file_capabilities option \<Rightarrow> u64" where
  "exec_file_permitted c has_file f =
     (case f of
        Some fc \<Rightarrow> (if has_file then (bounding c AND fc_permitted fc) OR (inheritable c AND fc_inheritable fc)
                    else 0) AND MD_CAP_VALID
      | None \<Rightarrow> 0)"

definition exec_as_root :: "user_store \<Rightarrow> identity \<Rightarrow> file_capabilities option \<Rightarrow> bool" where
  "exec_as_root s nx f \<longleftrightarrow>
     (let root = md_identity_root s nx
      in securebits (id_caps nx) AND SECBIT_NOROOT = 0
       \<and> \<not> (file_capabilities_apply s nx f \<and> id_real (id_uid nx) \<noteq> root \<and> id_effective (id_uid nx) = root))"

definition exec_permitted :: "user_store \<Rightarrow> identity \<Rightarrow> identity \<Rightarrow> file_capabilities option \<Rightarrow> u64" where
  "exec_permitted s old nx f =
     (let c = id_caps nx; root = md_identity_root s nx;
          perm = (if exec_as_root s nx f \<and> (id_real (id_uid nx) = root \<or> id_effective (id_uid nx) = root)
                  then bounding c OR inheritable c
                  else exec_file_permitted c (file_capabilities_apply s nx f) f)
      in if no_new_privs old then perm AND permitted (id_caps old) else perm)"

definition exec_effective :: "user_store \<Rightarrow> identity \<Rightarrow> file_capabilities option \<Rightarrow> bool" where
  "exec_effective s nx f \<longleftrightarrow>
     file_capabilities_apply s nx f \<and> (case f of Some fc \<Rightarrow> fc_effective fc | None \<Rightarrow> False)
     \<or> exec_as_root s nx f \<and> id_effective (id_uid nx) = md_identity_root s nx"

definition exec_ambient :: "user_store \<Rightarrow> identity \<Rightarrow> identity \<Rightarrow> file_capabilities option \<Rightarrow> u64" where
  "exec_ambient s old nx f =
     (let privileged = (id_effective (id_uid old) \<noteq> id_effective (id_uid nx)
            \<or> id_effective (id_gid old) \<noteq> id_effective (id_gid nx))
      in if privileged \<or> file_capabilities_apply s nx f then 0 else ambient (id_caps nx))"

definition exec_secure :: "user_store \<Rightarrow> identity \<Rightarrow> identity \<Rightarrow> file_capabilities option \<Rightarrow> bool" where
  "exec_secure s old nx f \<longleftrightarrow>
     id_real (id_uid nx) \<noteq> id_effective (id_uid nx) \<or> id_real (id_gid nx) \<noteq> id_effective (id_gid nx)
     \<or> id_real (id_uid nx) \<noteq> md_identity_root s nx
       \<and> (exec_effective s nx f
           \<or> (exec_permitted s old nx f OR exec_ambient s old nx f) AND NOT (exec_ambient s old nx f) \<noteq> 0)"

text \<open>A program that does not manage capabilities gets all of its file's set or does not run.\<close>

definition exec_capability_dumb :: "user_store \<Rightarrow> identity \<Rightarrow> file_capabilities option \<Rightarrow> bool" where
  "exec_capability_dumb s nx f \<longleftrightarrow>
     (case f of None \<Rightarrow> False
      | Some fc \<Rightarrow> file_capabilities_apply s nx f \<and> fc_effective fc
          \<and> fc_permitted fc AND MD_CAP_VALID
              AND NOT (exec_file_permitted (id_caps nx) (file_capabilities_apply s nx f) f) \<noteq> 0)"

definition exec_capabilities ::
  "user_store \<Rightarrow> identity \<Rightarrow> identity \<Rightarrow> file_capabilities option \<Rightarrow> (identity \<times> bool) result" where
  "exec_capabilities s old nx f =
     (if exec_capability_dumb s nx f then Inl EPERM
      else
        let amb = exec_ambient s old nx f; perm = exec_permitted s old nx f OR amb
        in Inr (nx\<lparr>id_caps := (id_caps nx)\<lparr>ambient := amb, permitted := perm,
                  effective := if exec_effective s nx f then perm else amb,
                  securebits := securebits (id_caps nx) AND NOT SECBIT_KEEP_CAPS\<rparr>\<rparr>,
                exec_secure s old nx f))"

text \<open>With no file capabilities the computation cannot fail, so its error is not looked at.\<close>

definition md_identity_exec :: "user_store \<Rightarrow> identity \<Rightarrow> identity \<Rightarrow> identity" where
  "md_identity_exec s old nx =
     (case exec_capabilities s old nx None of Inr (v, _) \<Rightarrow> v | Inl _ \<Rightarrow> nx)"

definition S_IFMT :: u32 where "S_IFMT = 0xF000"
definition S_IFREG :: u32 where "S_IFREG = 0x8000"
definition S_IFDIR :: u32 where "S_IFDIR = 0x4000"
definition S_ISUID :: u32 where "S_ISUID = 0x800"
definition S_ISGID :: u32 where "S_ISGID = 0x400"
definition S_IXUSR :: u32 where "S_IXUSR = 0x40"
definition S_IXGRP :: u32 where "S_IXGRP = 0x8"
definition S_IXOTH :: u32 where "S_IXOTH = 0x1"

definition S_ISREG :: "u32 \<Rightarrow> bool" where "S_ISREG m \<longleftrightarrow> m AND S_IFMT = S_IFREG"
definition S_ISDIR :: "u32 \<Rightarrow> bool" where "S_ISDIR m \<longleftrightarrow> m AND S_IFMT = S_IFDIR"

record exec_image =
  image_fd :: int
  image_uid :: u32
  image_gid :: u32
  image_mode :: u32
  image_capabilities :: file_capabilities

record elf_header =
  elf_ident :: "u8 list" \<comment> \<open>the 16 bytes of \<open>e_ident\<close>\<close>
  elf_machine :: u16
  elf_version :: u32
  elf_ehsize :: u16
  elf_type :: u16

text \<open>
  What the operating system answers of the descriptor: its duplicate, the mode of the file,
  its seals (\<open>F_SEAL_SHRINK\<close> 2, \<open>F_SEAL_GROW\<close> 4, \<open>F_SEAL_WRITE\<close> 8), a complete ELF header
  if one could be read, and whether memory is left.
\<close>

record image_os =
  io_dup :: "int result"
  io_stat :: "u32 result"
  io_seals :: "u32 option"
  io_header :: "elf_header option"
  io_alloc :: bool

definition native_header :: "elf_header \<Rightarrow> bool" where
  "native_header h \<longleftrightarrow>
     elf_ident h ! 0 = 0x7f \<and> elf_ident h ! 1 = 0x45 \<and> elf_ident h ! 2 = 0x4c \<and> elf_ident h ! 3 = 0x46
     \<and> elf_ident h ! 4 = 2 \<and> elf_ident h ! 5 = 1 \<and> elf_machine h = 183 \<and> elf_ident h ! 6 = 1
     \<and> elf_version h = 1 \<and> elf_ehsize h = 64 \<and> (elf_type h = 2 \<or> elf_type h = 3)"

definition image_admit ::
  "image_os \<Rightarrow> u32 \<Rightarrow> u32 \<Rightarrow> u32 \<Rightarrow> file_capabilities option \<Rightarrow> bool \<Rightarrow> exec_image result" where
  "image_admit os uid gid mode caps native_elf =
     (if uid = UINT32_MAX \<or> gid = UINT32_MAX \<or> \<not> S_ISREG mode \<or> mode AND NOT (S_IFREG OR 0xFFF) \<noteq> 0
      then Inl EINVAL
      else case io_dup os of Inl e \<Rightarrow> Inl e
      | Inr fd \<Rightarrow>
        (case io_stat os of Inl e \<Rightarrow> Inl e
         | Inr st \<Rightarrow>
            if \<not> S_ISREG st then Inl EACCES
            else if (case io_seals os of None \<Rightarrow> True | Some seals \<Rightarrow> seals AND 0xE \<noteq> 0xE) then Inl EPERM
            else if native_elf \<and> (case io_header os of None \<Rightarrow> True | Some h \<Rightarrow> \<not> native_header h) then Inl ENOEXEC
            else if \<not> io_alloc os then Inl ENOMEM
            else Inr \<lparr>image_fd = fd, image_uid = uid, image_gid = gid, image_mode = mode,
                   image_capabilities = (case caps of Some c \<Rightarrow> c | None \<Rightarrow> no_file_capabilities)\<rparr>))"

definition md_exec_image_admit ::
  "image_os \<Rightarrow> u32 \<Rightarrow> u32 \<Rightarrow> u32 \<Rightarrow> file_capabilities option \<Rightarrow> exec_image result" where
  "md_exec_image_admit os uid gid mode caps = image_admit os uid gid mode caps True"

definition md_exec_image_admit_interpreted ::
  "image_os \<Rightarrow> u32 \<Rightarrow> u32 \<Rightarrow> u32 \<Rightarrow> file_capabilities option \<Rightarrow> exec_image result" where
  "md_exec_image_admit_interpreted os uid gid mode caps = image_admit os uid gid mode caps False"

text \<open>The set-ID part of \<open>md_identity_prepare_exec\<close>.\<close>

definition exec_ids :: "user_store \<Rightarrow> identity \<Rightarrow> exec_image \<Rightarrow> bool \<Rightarrow> identity" where
  "exec_ids s v im nosuid =
     (let admitted = (\<not> no_new_privs v \<and> \<not> nosuid
            \<and> md_user_namespace_from s (id_ns v) False (image_uid im) \<noteq> UINT32_MAX
            \<and> md_user_namespace_from s (id_ns v) True (image_gid im) \<noteq> UINT32_MAX);
          euid = (if admitted \<and> image_mode im AND S_ISUID \<noteq> 0 then image_uid im
                  else id_effective (id_uid v));
          egid = (if admitted \<and> image_mode im AND (S_ISGID OR S_IXGRP) = S_ISGID OR S_IXGRP
                  then image_gid im else id_effective (id_gid v))
      in v\<lparr>id_uid := (id_uid v)\<lparr>id_effective := euid, id_saved := euid, id_fs := euid\<rparr>,
           id_gid := (id_gid v)\<lparr>id_effective := egid, id_saved := egid, id_fs := egid\<rparr>\<rparr>)"

definition md_identity_prepare_exec ::
  "user_store \<Rightarrow> identity \<Rightarrow> exec_image option \<Rightarrow> bool \<Rightarrow> (identity \<times> bool) result" where
  "md_identity_prepare_exec s current img nosuid =
     (case img of None \<Rightarrow> Inl EACCES
      | Some im \<Rightarrow>
          let own = (if id_fs (id_uid current) = image_uid im then S_IXUSR
                     else if md_identity_in_group current (image_gid im) then S_IXGRP else S_IXOTH);
              permission = (if md_identity_file_capable s current (image_uid im) (image_gid im) CAP_DAC_OVERRIDE
                            then S_IXUSR OR S_IXGRP OR S_IXOTH else own)
          in if image_mode im AND permission = 0 then Inl EACCES
             else exec_capabilities s current (exec_ids s current im nosuid)
                    (if nosuid then None else Some (image_capabilities im)))"

declare bsearch.simps [simp del] rootid_applies.simps [simp del]

section \<open>Invariant of the capability sets\<close>

definition csub :: "u64 \<Rightarrow> u64 \<Rightarrow> bool" where
  "csub x y \<longleftrightarrow> x AND NOT y = 0"

definition caps_wf :: "capabilities \<Rightarrow> bool" where
  "caps_wf c \<longleftrightarrow> csub (effective c) (permitted c) \<and> csub (ambient c) (permitted c)
     \<and> csub (ambient c) (inheritable c) \<and> csub (permitted c) MD_CAP_VALID
     \<and> csub (inheritable c) MD_CAP_VALID \<and> csub (bounding c) MD_CAP_VALID"

text \<open>The calls of a task on its own credentials, apart from \<open>execve\<close> and namespaces.\<close>

inductive id_call :: "user_store \<Rightarrow> identity \<Rightarrow> identity \<Rightarrow> bool" for s where
  call_setgroups: "md_identity_setgroups s alloc v gids = Inr v' \<Longrightarrow> id_call s v v'"
| call_capset: "md_identity_capset v p e i = Inr v' \<Longrightarrow> id_call s v v'"
| call_prctl: "md_identity_cap_prctl v opn a0 a1 a2 a3 = (r, v') \<Longrightarrow> id_call s v v'"
| call_setresuid: "md_identity_setresuid s v r e sv = Inr v' \<Longrightarrow> id_call s v v'"
| call_setresgid: "md_identity_setresgid s v r e sv = Inr v' \<Longrightarrow> id_call s v v'"
| call_setuid: "md_identity_setuid s v i = Inr v' \<Longrightarrow> id_call s v v'"
| call_setgid: "md_identity_setgid s v i = Inr v' \<Longrightarrow> id_call s v v'"
| call_setreuid: "md_identity_setreuid s v r e = Inr v' \<Longrightarrow> id_call s v v'"
| call_setregid: "md_identity_setregid s v r e = Inr v' \<Longrightarrow> id_call s v v'"
| call_setfsuid: "md_identity_setfsuid s v i = (old, v') \<Longrightarrow> id_call s v v'"
| call_setfsgid: "md_identity_setfsgid s v i = (old, v') \<Longrightarrow> id_call s v v'"
| call_no_new_privs: "md_identity_no_new_privs v k = Inr v' \<Longrightarrow> id_call s v v'"

text \<open>Every way the credentials of a task evolve, with the store of namespaces.\<close>

inductive id_evolve :: "user_store \<times> identity \<Rightarrow> user_store \<times> identity \<Rightarrow> bool" where
  evolve_call: "id_call s v v' \<Longrightarrow> id_evolve (s, v) (s, v')"
| evolve_exec: "md_identity_prepare_exec s v im nosuid = Inr (v', secure) \<Longrightarrow> id_evolve (s, v) (s, v')"
| evolve_enter: "md_identity_enter_user_namespace os v s = (Inr v', s') \<Longrightarrow> id_evolve (s, v) (s', v')"
| evolve_join: "md_identity_join_user_namespace v n s = (Inr v', s') \<Longrightarrow> id_evolve (s, v) (s', v')"
| evolve_others: "id_evolve (s, v) (s', v)"

lemma word64_zero_iff: "(x :: u64) = 0 \<longleftrightarrow> (\<forall>n. \<not> bit x n)"
  by (metis bit_0_eq bit_word_eqI bot_apply bot_bool_def)

lemma csub_iff: "csub x y \<longleftrightarrow> (\<forall>n. bit x n \<longrightarrow> bit y n)"
  using bit_imp_le_length [of x]
  by (auto simp: csub_def word64_zero_iff bit_and_iff bit_not_iff possible_bit_word)

lemma bit_cap_bit [simp]: "bit (cap_bit c) n \<longleftrightarrow> n = c \<and> c < 64"
  by (auto simp: cap_bit_def bit_simps)

lemma and_cap_bit: "x AND cap_bit c = 0 \<longleftrightarrow> \<not> bit x c"
  by (auto simp: word64_zero_iff bit_and_iff dest: bit_imp_le_length)

lemma bit_MD_CAP_VALID [simp]: "bit MD_CAP_VALID n \<longleftrightarrow> n \<le> MD_CAP_LAST"
proof -
  have "MD_CAP_VALID = mask 41" by (simp add: MD_CAP_VALID_def MD_CAP_LAST_def mask_eq_exp_minus_1 push_bit_eq_mult)
  then have "bit MD_CAP_VALID n = bit (mask 41 :: u64) n" by simp
  then show ?thesis unfolding bit_mask_iff by (auto simp: MD_CAP_LAST_def possible_bit_word)
qed

lemma uid_changed_wf:
  "caps_wf (id_caps v) \<Longrightarrow> caps_wf (id_caps (uid_changed s old v))"
  by (auto simp: uid_changed_def Let_def caps_wf_def csub_iff bit_simps)

lemma capset_wf:
  "md_identity_capset v p e i = Inr v' \<Longrightarrow> caps_wf (id_caps v) \<Longrightarrow> caps_wf (id_caps v')"
  unfolding md_identity_capset_def Let_def
  by (auto simp: caps_wf_def csub_iff csub_def [symmetric] bit_simps split: if_splits)

lemma cap_ambient_wf:
  assumes "caps_wf (id_caps v)"
  shows "caps_wf (id_caps (snd (cap_ambient v a0 a1 a2 a3)))"
proof (cases "permitted (id_caps v) AND inheritable (id_caps v) AND cap_bit (unat a1) = 0")
  case True
  with assms show ?thesis by (auto simp: cap_ambient_def Let_def caps_wf_def csub_iff bit_simps)
next
  case False
  then have "bit (permitted (id_caps v)) (unat a1)" "bit (inheritable (id_caps v)) (unat a1)"
    using and_cap_bit [of "permitted (id_caps v) AND inheritable (id_caps v)" "unat a1"]
    by (simp_all add: bit_and_iff and.assoc)
  with assms show ?thesis by (auto simp: cap_ambient_def Let_def caps_wf_def csub_iff bit_simps)
qed

lemma cap_prctl_wf:
  "caps_wf (id_caps v) \<Longrightarrow> md_identity_cap_prctl v opn a0 a1 a2 a3 = (r, v') \<Longrightarrow> caps_wf (id_caps v')"
  using cap_ambient_wf [of v a0 a1 a2 a3]
  by (cases opn) (auto simp: set_keepcaps_def set_securebits_def cap_bounding_def Let_def caps_wf_def csub_iff bit_simps
      split: if_splits)


lemma exec_file_permitted_bits:
  "bit (exec_file_permitted c b f) n \<Longrightarrow> n \<le> MD_CAP_LAST"
  by (auto simp: exec_file_permitted_def bit_simps split: option.splits)

lemma exec_permitted_bits:
  "bit (exec_permitted s old nx f) n \<Longrightarrow>
    bit (bounding (id_caps nx)) n \<or> bit (inheritable (id_caps nx)) n"
  by (auto simp: exec_permitted_def exec_file_permitted_def Let_def bit_simps split: if_splits option.splits)

lemma exec_permitted_valid:
  "bit (exec_permitted s old nx f) n \<Longrightarrow> caps_wf (id_caps nx) \<Longrightarrow> n \<le> MD_CAP_LAST"
  by (drule exec_permitted_bits) (auto simp: caps_wf_def csub_iff)

lemma exec_ambient_bits: "bit (exec_ambient s old nx f) n \<Longrightarrow> bit (ambient (id_caps nx)) n"
  by (auto simp: exec_ambient_def Let_def split: if_splits)

lemma caps_wf_bits:
  assumes "caps_wf c"
  shows "bit (ambient c) n \<Longrightarrow> bit (inheritable c) n" "bit (ambient c) n \<Longrightarrow> bit (permitted c) n"
    "bit (effective c) n \<Longrightarrow> bit (permitted c) n" "bit (permitted c) n \<Longrightarrow> n \<le> MD_CAP_LAST"
    "bit (inheritable c) n \<Longrightarrow> n \<le> MD_CAP_LAST" "bit (bounding c) n \<Longrightarrow> n \<le> MD_CAP_LAST"
  using assms by (auto simp: caps_wf_def csub_iff)

lemma exec_capabilities_wf:
  assumes "exec_capabilities s old nx f = Inr (v, secure)" "caps_wf (id_caps nx)"
  shows "caps_wf (id_caps v)"
proof -
  note bits = caps_wf_bits [OF assms(2)]
  have "caps_wf ((id_caps nx)\<lparr>ambient := a, permitted := p OR a, effective := if e then p OR a else a,
      securebits := b\<rparr>)"
    if "\<And>n. bit p n \<Longrightarrow> n \<le> MD_CAP_LAST" "\<And>n. bit a n \<Longrightarrow> bit (ambient (id_caps nx)) n" for a p e b
    using that bits by (auto simp: caps_wf_def csub_iff bit_or_iff)
  from this [of "exec_permitted s old nx f" "exec_ambient s old nx f" _ "exec_effective s nx f"]
  show ?thesis
    using assms exec_permitted_valid [OF _ assms(2)] exec_ambient_bits [of s old nx f]
    by (auto simp: exec_capabilities_def Let_def split: if_splits)
qed

lemma commit_uid_wf:
  "commit_uid s v r = Inr v' \<Longrightarrow> caps_wf (id_caps v) \<Longrightarrow> caps_wf (id_caps v')"
  by (auto simp: commit_uid_def intro!: uid_changed_wf split: sum.splits)

lemma caps_wf_new: "caps_wf (id_caps (md_identity_new uid gid))"
  by (simp add: md_identity_new_def Let_def caps_wf_def csub_iff)

lemma commit_gid_caps: "commit_gid v r = Inr v' \<Longrightarrow> id_caps v' = id_caps v"
  by (auto simp: commit_gid_def split: sum.splits)

lemma setgroups_result:
  assumes "md_identity_setgroups s alloc v gids = Inr v'"
  obtains ks where "map_groups s (id_ns v) gids = Some ks" "v' = v\<lparr>id_groups := sort ks\<rparr>"
    "md_identity_capable v CAP_SETGID" "md_user_namespace_may_setgroups s (id_ns v)"
  using assms by (auto simp: md_identity_setgroups_def md_identity_groups_def split: if_splits option.splits)

lemmas set_id_defs = md_identity_setresuid_def md_identity_setresgid_def md_identity_setuid_def
  md_identity_setgid_def md_identity_setreuid_def md_identity_setregid_def

lemma id_call_wf: "id_call s v v' \<Longrightarrow> caps_wf (id_caps v) \<Longrightarrow> caps_wf (id_caps v')"
proof (induction rule: id_call.induct)
  case (call_setgroups alloc v gids v')
  then show ?case by (elim setgroups_result) simp
qed (auto simp: set_id_defs md_identity_setfsuid_def md_identity_setfsgid_def Let_def md_identity_no_new_privs_def
      intro: capset_wf cap_prctl_wf commit_uid_wf uid_changed_wf dest: commit_gid_caps
      split: option.splits prod.splits if_splits)

lemma prepare_exec_result:
  assumes "md_identity_prepare_exec s v im nosuid = Inr (v', secure)"
  obtains img where "im = Some img"
    "exec_capabilities s v (exec_ids s v img nosuid) (if nosuid then None else Some (image_capabilities img)) = Inr (v', secure)"
  using assms by (auto simp: md_identity_prepare_exec_def Let_def split: option.splits if_splits)

lemma exec_ids_caps [simp]:
  "id_caps (exec_ids s v im nosuid) = id_caps v" "id_ns (exec_ids s v im nosuid) = id_ns v"
  "no_new_privs (exec_ids s v im nosuid) = no_new_privs v"
  "id_real (id_uid (exec_ids s v im nosuid)) = id_real (id_uid v)"
  "id_real (id_gid (exec_ids s v im nosuid)) = id_real (id_gid v)"
  by (simp_all add: exec_ids_def Let_def)

lemma id_evolve_wf:
  "id_evolve (s, v) (s', v') \<Longrightarrow> caps_wf (id_caps v) \<Longrightarrow> caps_wf (id_caps v')"
proof (induction "(s, v)" "(s', v')" rule: id_evolve.induct)
  case (evolve_exec im nosuid secure)
  then show ?case by (elim prepare_exec_result) (auto intro: exec_capabilities_wf)
qed (auto intro: id_call_wf caps_wf_new simp: md_identity_enter_user_namespace_def
      md_identity_join_user_namespace_def split: prod.splits sum.splits if_splits)

lemma csub_and: "csub x (y AND z) \<longleftrightarrow> csub x y \<and> csub x z"
  by (auto simp: csub_iff bit_and_iff)

lemma csub_or: "csub (x OR y) z \<longleftrightarrow> csub x z \<and> csub y z"
  by (auto simp: csub_iff bit_or_iff)

lemma csub_zero: "csub x 0 \<longleftrightarrow> x = 0"
  by (simp add: csub_iff word64_zero_iff)

section \<open>Group membership\<close>

lemma bsearch_sound: "bsearch key ids lo hi \<Longrightarrow> hi \<le> length ids \<Longrightarrow> key \<in> set ids"
  by (induction key ids lo hi rule: bsearch.induct)
    (subst (asm) (2) bsearch.simps, auto simp: Let_def not_less split: if_splits intro: nth_mem antisym)

lemma bsearch_complete:
  assumes "sorted ids" "hi \<le> length ids" "lo \<le> i" "i < hi" "ids ! i = key"
  shows "bsearch key ids lo hi"
  using assms
proof (induction key ids lo hi rule: bsearch.induct)
  case (1 key ids lo hi)
  let ?m = "(lo + hi) div 2"
  have m: "lo \<le> ?m" "?m < hi" using "1.prems" by linarith+
  have below: "i < ?m" if "key < ids ! ?m"
    using that "1.prems" m sorted_nth_mono [of ids ?m i] by (meson leD leI le_less_trans order.strict_trans2)
  have above: "?m < i" if "ids ! ?m < key"
    using that "1.prems" m sorted_nth_mono [of ids i ?m] by (meson leD leI le_less_trans order.strict_trans2)
  show ?case
    by (subst bsearch.simps) (use "1.IH" "1.prems" m below above in \<open>auto simp: Let_def\<close>)
qed

lemma bsearch_iff: "sorted ids \<Longrightarrow> bsearch key ids 0 (length ids) \<longleftrightarrow> key \<in> set ids"
  by (metis bsearch_complete bsearch_sound in_set_conv_nth le0 order_refl)

lemma in_group_iff:
  "sorted (id_groups v) \<Longrightarrow> md_identity_in_group v g \<longleftrightarrow> g = id_fs (id_gid v) \<or> g \<in> set (id_groups v)"
  by (auto simp: md_identity_in_group_def bsearch_iff)

lemma map_groups_set: "map_groups s n gs = Some ks \<Longrightarrow> ks = map (md_user_namespace_into s n True) gs"
  by (induction gs arbitrary: ks) (auto simp: Let_def split: if_splits)

section \<open>What an unprivileged task can reach\<close>

abbreviation ids_set :: "identity_ids \<Rightarrow> u32 set" where
  "ids_set i \<equiv> {id_real i, id_effective i, id_saved i}"

lemma setres_ids: "setres ids False r e sv = Inr ids' \<Longrightarrow> ids_set ids' \<subseteq> ids_set ids \<and> id_fs ids' = id_effective ids'"
  by (auto simp: setres_def existing_def keep_or_def split: if_splits)

lemma setid_ids: "setid ids False i = Inr ids' \<Longrightarrow> ids_set ids' \<subseteq> ids_set ids \<and> id_fs ids' = id_effective ids'"
  by (auto simp: setid_def split: if_splits)

lemma setre_ids: "setre ids False r e = Inr ids' \<Longrightarrow> ids_set ids' \<subseteq> ids_set ids \<and> id_fs ids' = id_effective ids'"
  by (auto simp: setre_def existing_def keep_or_def Let_def split: if_splits)

lemma setfs_ids: "ids_set (fst (setfs ids root i)) = ids_set ids"
  by (simp add: setfs_def)

lemma uid_changed_uid [simp]:
  "id_uid (uid_changed s old v) = id_uid v" "id_gid (uid_changed s old v) = id_gid v"
  "id_ns (uid_changed s old v) = id_ns v" "no_new_privs (uid_changed s old v) = no_new_privs v"
  "id_groups (uid_changed s old v) = id_groups v"
  by (simp_all add: uid_changed_def Let_def)

lemma uid_changed_permitted: "csub (permitted (id_caps (uid_changed s old v))) (permitted (id_caps v))"
  by (auto simp: uid_changed_def Let_def csub_iff)

text \<open>A task without any permitted capability and away from the root user.\<close>

definition powerless :: "user_store \<Rightarrow> identity \<Rightarrow> bool" where
  "powerless s v \<longleftrightarrow> permitted (id_caps v) = 0 \<and> caps_wf (id_caps v)
     \<and> md_identity_root s v \<notin> ids_set (id_uid v)"

lemma powerless_capable: "powerless s v \<Longrightarrow> \<not> md_identity_capable v cap"
  by (auto simp: powerless_def md_identity_capable_def caps_wf_def csub_iff and_cap_bit)

lemma powerless_uid:
  assumes "powerless s v" "ids_set ids \<subseteq> ids_set (id_uid v)"
  shows "powerless s (uid_changed s old (v\<lparr>id_uid := ids\<rparr>))"
proof -
  let ?v = "v\<lparr>id_uid := ids\<rparr>"
  have "permitted (id_caps (uid_changed s old ?v)) = 0"
    using uid_changed_permitted [of s old ?v] assms(1) by (simp add: powerless_def csub_zero)
  moreover have "caps_wf (id_caps (uid_changed s old ?v))"
    using assms(1) by (intro uid_changed_wf) (simp add: powerless_def)
  moreover have "md_identity_root s (uid_changed s old ?v) = md_identity_root s v" by (simp add: md_identity_root_def)
  ultimately show ?thesis using assms by (auto simp: powerless_def)
qed

lemma prctl_frame:
  assumes "md_identity_cap_prctl v opn a0 a1 a2 a3 = (r, v')"
  shows "id_uid v' = id_uid v" "id_gid v' = id_gid v" "id_ns v' = id_ns v" "id_groups v' = id_groups v"
    "no_new_privs v' = no_new_privs v" "permitted (id_caps v') = permitted (id_caps v)"
  using assms by (cases opn; auto simp: set_keepcaps_def set_securebits_def cap_bounding_def cap_ambient_def
      Let_def split: if_splits)+


text \<open>The effect of the set-user-ID calls without \<open>CAP_SETUID\<close>.\<close>

definition uid_within :: "user_store \<Rightarrow> identity \<Rightarrow> identity \<Rightarrow> bool" where
  "uid_within s v v' \<longleftrightarrow> (\<exists>ids. v' = uid_changed s (id_uid v) (v\<lparr>id_uid := ids\<rparr>) \<and> ids_set ids \<subseteq> ids_set (id_uid v))"

lemma commit_uid_within:
  "commit_uid s v r = Inr v' \<Longrightarrow> (\<And>ids. r = Inr ids \<Longrightarrow> ids_set ids \<subseteq> ids_set (id_uid v)) \<Longrightarrow> uid_within s v v'"
  by (auto simp: commit_uid_def uid_within_def split: sum.splits)

lemma setresuid_within:
  assumes "md_identity_setresuid s v r e sv = Inr v'" "\<not> md_identity_capable v CAP_SETUID"
  shows "uid_within s v v'"
proof -
  obtain r e sv where "commit_uid s v (setres (id_uid v) False r e sv) = Inr v'"
    using assms by (auto simp: md_identity_setresuid_def split: option.splits)
  then show ?thesis by (rule commit_uid_within) (drule setres_ids, blast)
qed

lemma setreuid_within:
  assumes "md_identity_setreuid s v r e = Inr v'" "\<not> md_identity_capable v CAP_SETUID"
  shows "uid_within s v v'"
proof -
  obtain r e where "commit_uid s v (setre (id_uid v) False r e) = Inr v'"
    using assms by (auto simp: md_identity_setreuid_def split: option.splits)
  then show ?thesis by (rule commit_uid_within) (drule setre_ids, blast)
qed

lemma setuid_within:
  assumes "md_identity_setuid s v i = Inr v'" "\<not> md_identity_capable v CAP_SETUID"
  shows "uid_within s v v'"
proof -
  have "commit_uid s v (setid (id_uid v) False (md_user_namespace_into s (id_ns v) False i)) = Inr v'"
    using assms by (simp add: md_identity_setuid_def)
  then show ?thesis by (rule commit_uid_within) (drule setid_ids, blast)
qed

lemma setfsuid_within:
  assumes "md_identity_setfsuid s v i = (old, v')"
  shows "uid_within s v v'"
proof -
  let ?ids = "fst (setfs (id_uid v) (md_identity_capable v CAP_SETUID) (md_user_namespace_into s (id_ns v) False i))"
  have "v' = uid_changed s (id_uid v) (v\<lparr>id_uid := ?ids\<rparr>)"
    using assms by (simp add: md_identity_setfsuid_def Let_def split: prod.splits)
  moreover have "ids_set ?ids \<subseteq> ids_set (id_uid v)" by (simp only: setfs_ids order_refl)
  ultimately show ?thesis unfolding uid_within_def by blast
qed

text \<open>The group calls leave everything else alone.\<close>

lemma commit_gid_frame:
  "commit_gid v r = Inr v' \<Longrightarrow> id_caps v' = id_caps v \<and> id_uid v' = id_uid v \<and> id_ns v' = id_ns v
     \<and> no_new_privs v' = no_new_privs v \<and> id_groups v' = id_groups v"
  by (auto simp: commit_gid_def split: sum.splits)

lemma gid_calls_frame:
  "md_identity_setresgid s v r e sv = Inr v' \<Longrightarrow> \<exists>q. commit_gid v q = Inr v'"
  "md_identity_setgid s v i = Inr v' \<Longrightarrow> \<exists>q. commit_gid v q = Inr v'"
  "md_identity_setregid s v r e = Inr v' \<Longrightarrow> \<exists>q. commit_gid v q = Inr v'"
  "md_identity_setfsgid s v i = (old, v') \<Longrightarrow> \<exists>q. commit_gid v q = Inr v'"
  by (auto simp: md_identity_setresgid_def md_identity_setgid_def md_identity_setregid_def split: option.splits)
    (auto simp: md_identity_setfsgid_def Let_def commit_gid_def split: prod.splits sum.splits intro: exI [of _ "Inr _"])

lemma powerless_commit_gid: "powerless s v \<Longrightarrow> \<exists>q. commit_gid v q = Inr v' \<Longrightarrow> powerless s v'"
  by (auto dest!: commit_gid_frame simp: powerless_def md_identity_root_def)

lemma powerless_within: "powerless s v \<Longrightarrow> uid_within s v v' \<Longrightarrow> powerless s v'"
  by (auto simp: uid_within_def intro: powerless_uid)

lemma powerless_call: "id_call s v v' \<Longrightarrow> powerless s v \<Longrightarrow> powerless s v'"
proof (induction rule: id_call.induct)
  case (call_setgroups alloc v gids v')
  then show ?case using powerless_capable by (blast elim: setgroups_result)
next
  case (call_capset v p e i v')
  then have "permitted (id_caps v') = 0" "id_uid v' = id_uid v" "id_ns v' = id_ns v"
    by (auto simp: md_identity_capset_def Let_def powerless_def split: if_splits)
  with capset_wf [OF call_capset(1)] call_capset(2) show ?case
    by (simp add: powerless_def md_identity_root_def)
next
  case (call_prctl v opn a0 a1 a2 a3 r v')
  with prctl_frame [OF call_prctl(1)] cap_prctl_wf [OF _ call_prctl(1)] show ?case
    by (simp add: powerless_def md_identity_root_def)
next
  case (call_no_new_privs v k v')
  then show ?case by (auto simp: md_identity_no_new_privs_def powerless_def md_identity_root_def split: if_splits)
qed (metis powerless_within setresuid_within setuid_within setreuid_within setfsuid_within powerless_capable
      powerless_commit_gid gid_calls_frame)+

section \<open>Permitted capabilities and locked securebits over calls\<close>

text \<open>
  A securebit at an even position is frozen by the lock bit next to it.
\<close>

definition locks_kept :: "u32 \<Rightarrow> u32 \<Rightarrow> bool" where
  "locks_kept old new \<longleftrightarrow>
     (\<forall>b \<in> {0, 2, 4, 6}. bit old (b + 1) \<longrightarrow> bit new (b + 1) \<and> (bit new b \<longleftrightarrow> bit old b))"

lemma word32_zero_iff: "(x :: u32) = 0 \<longleftrightarrow> (\<forall>n. \<not> bit x n)"
  by (metis bit_0_eq bit_word_eqI bot_apply bot_bool_def)

lemma locks_kept_refl [simp]: "locks_kept x x"
  by (simp add: locks_kept_def)

lemma bit_SECURE_LOCKS: "b \<in> {0, 2, 4, 6} \<Longrightarrow> bit SECURE_LOCKS (b + 1)"
  by (auto simp: SECURE_LOCKS_def)

lemma set_securebits_locks:
  assumes "set_securebits v a0 = (r, v')"
  shows "locks_kept (securebits (id_caps v)) (securebits (id_caps v'))"
proof (cases "\<exists>e. r = Inl e")
  case True
  with assms show ?thesis by (auto simp: set_securebits_def Let_def split: if_splits)
next
  case False
  let ?o = "securebits (id_caps v)"
  from assms False have v': "securebits (id_caps v') = ucast a0"
    and lock: "(ucast ?o AND ucast SECURE_LOCKS) AND NOT a0 = 0"
    and base: "push_bit 1 (ucast ?o XOR a0) AND ucast ?o AND ucast SECURE_LOCKS = 0"
    by (auto simp: set_securebits_def Let_def split: if_splits)
  have "bit a0 (b + 1) \<and> (bit a0 b \<longleftrightarrow> bit ?o b)" if b: "b \<in> {0, 2, 4, 6}" "bit ?o (b + 1)" for b
  proof -
    have locks: "bit SECURE_LOCKS (b + 1)" by (rule bit_SECURE_LOCKS [OF b(1)])
    have "b < 31" using b(1) by auto
    note locks = locks this
    have "\<not> bit ((ucast ?o AND ucast SECURE_LOCKS) AND NOT a0) (b + 1)"
      using lock word64_zero_iff by blast
    then have one: "bit a0 (b + 1)" using locks b(2) by (simp add: bit_simps)
    have "\<not> bit (push_bit 1 (ucast ?o XOR a0) AND ucast ?o AND ucast SECURE_LOCKS) (b + 1)"
      using base word64_zero_iff by blast
    then have "bit a0 b \<longleftrightarrow> bit ?o b"
      unfolding bit_and_iff bit_push_bit_iff bit_xor_iff using locks b(2) by (auto simp: bit_simps)
    with one show ?thesis by simp
  qed
  then show ?thesis using v' by (auto simp: locks_kept_def bit_simps)
qed


lemma set_keepcaps_locks:
  "set_keepcaps v a0 = (r, v') \<Longrightarrow> locks_kept (securebits (id_caps v)) (securebits (id_caps v'))"
  by (auto simp: set_keepcaps_def Let_def locks_kept_def word32_zero_iff bit_simps SECBIT_KEEP_CAPS_def
      SECBIT_KEEP_CAPS_LOCKED_def split: if_splits)

lemma uid_changed_securebits [simp]: "securebits (id_caps (uid_changed s old v)) = securebits (id_caps v)"
  by (simp add: uid_changed_def Let_def)

lemma commit_uid_frame:
  assumes "commit_uid s v r = Inr v'"
  shows "securebits (id_caps v') = securebits (id_caps v)
     \<and> csub (permitted (id_caps v')) (permitted (id_caps v)) \<and> no_new_privs v' = no_new_privs v"
proof -
  obtain ids where "v' = uid_changed s (id_uid v) (v\<lparr>id_uid := ids\<rparr>)"
    using assms by (auto simp: commit_uid_def split: sum.splits)
  then show ?thesis using uid_changed_permitted [of s "id_uid v" "v\<lparr>id_uid := ids\<rparr>"] by simp
qed

text \<open>What every call keeps: locked securebits, \<open>no_new_privs\<close>, and permitted only shrinks.\<close>

definition call_keeps :: "identity \<Rightarrow> identity \<Rightarrow> bool" where
  "call_keeps v v' \<longleftrightarrow> locks_kept (securebits (id_caps v)) (securebits (id_caps v'))
     \<and> csub (permitted (id_caps v')) (permitted (id_caps v)) \<and> (no_new_privs v \<longrightarrow> no_new_privs v')"

lemma call_keeps_refl: "call_keeps v v"
  by (simp add: call_keeps_def csub_iff)

lemma call_keeps_commit: "commit_uid s v r = Inr v' \<Longrightarrow> call_keeps v v'"
  by (auto dest!: commit_uid_frame simp: call_keeps_def)

lemma call_keeps_commit_gid: "\<exists>q. commit_gid v q = Inr v' \<Longrightarrow> call_keeps v v'"
  by (auto dest!: commit_gid_frame simp: call_keeps_def csub_iff)

lemma call_keeps_prctl:
  assumes "md_identity_cap_prctl v opn a0 a1 a2 a3 = (r, v')"
  shows "call_keeps v v'"
proof -
  have "locks_kept (securebits (id_caps v)) (securebits (id_caps v'))"
    using assms set_keepcaps_locks set_securebits_locks
    by (cases opn) (auto simp: cap_bounding_def cap_ambient_def Let_def split: if_splits)
  with prctl_frame [OF assms] show ?thesis by (simp add: call_keeps_def csub_iff)
qed

lemma call_keeps_call: "id_call s v v' \<Longrightarrow> call_keeps v v'"
proof (induction rule: id_call.induct)
  case (call_setgroups alloc v gids v')
  then show ?case by (elim setgroups_result) (simp add: call_keeps_def csub_iff)
next
  case (call_capset v p e i v')
  then show ?case by (auto simp: md_identity_capset_def Let_def call_keeps_def csub_def split: if_splits)
next
  case (call_prctl v opn a0 a1 a2 a3 r v')
  then show ?case by (rule call_keeps_prctl)
next
  case (call_setfsuid v i old v')
  then obtain ids where "v' = uid_changed s (id_uid v) (v\<lparr>id_uid := ids\<rparr>)"
    using setfsuid_within [of s v i old v'] unfolding uid_within_def by blast
  then show ?case using uid_changed_permitted [of s "id_uid v" "v\<lparr>id_uid := ids\<rparr>"] by (simp add: call_keeps_def)
next
  case (call_no_new_privs v k v')
  then show ?case by (auto simp: md_identity_no_new_privs_def call_keeps_def csub_iff split: if_splits)
qed (auto simp: md_identity_setresuid_def md_identity_setuid_def md_identity_setreuid_def
      intro: call_keeps_commit call_keeps_commit_gid [OF gid_calls_frame(1)] call_keeps_commit_gid [OF gid_calls_frame(2)]
        call_keeps_commit_gid [OF gid_calls_frame(3)] call_keeps_commit_gid [OF gid_calls_frame(4)]
      split: option.splits)

section \<open>Execution\<close>

lemma exec_ids_no_new_privs:
  "no_new_privs v \<Longrightarrow> id_effective (id_uid (exec_ids s v im nosuid)) = id_effective (id_uid v)
     \<and> id_effective (id_gid (exec_ids s v im nosuid)) = id_effective (id_gid v)"
  by (simp add: exec_ids_def Let_def)

lemma exec_no_gain:
  assumes "md_identity_prepare_exec s v im nosuid = Inr (v', secure)" "no_new_privs v" "caps_wf (id_caps v)"
  shows "csub (permitted (id_caps v')) (permitted (id_caps v))" "no_new_privs v'"
    "id_effective (id_uid v') = id_effective (id_uid v)" "id_effective (id_gid v') = id_effective (id_gid v)"
proof -
  from assms(1) obtain img f where ex: "exec_capabilities s v (exec_ids s v img nosuid) f = Inr (v', secure)"
    by (rule prepare_exec_result)
  let ?nx = "exec_ids s v img nosuid"
  have "bit (exec_permitted s v ?nx f) n \<Longrightarrow> bit (permitted (id_caps v)) n" for n
    using assms(2) by (auto simp: exec_permitted_def Let_def bit_and_iff split: if_splits)
  moreover have "bit (exec_ambient s v ?nx f) n \<Longrightarrow> bit (permitted (id_caps v)) n" for n
    using exec_ambient_bits [of s v ?nx f n] caps_wf_bits [OF assms(3)] by simp
  ultimately show "csub (permitted (id_caps v')) (permitted (id_caps v))"
    using ex by (auto simp: exec_capabilities_def Let_def csub_iff bit_or_iff split: if_splits)
  show "no_new_privs v'" "id_effective (id_uid v') = id_effective (id_uid v)"
    "id_effective (id_gid v') = id_effective (id_gid v)"
    using ex exec_ids_no_new_privs [OF assms(2), of s img nosuid] assms(2)
    by (auto simp: exec_capabilities_def Let_def split: if_splits)
qed

section \<open>Properties\<close>

lemma evolve_wf_star:
  "id_evolve\<^sup>*\<^sup>* x y \<Longrightarrow> caps_wf (id_caps (snd x)) \<Longrightarrow> caps_wf (id_caps (snd y))"
  by (induction rule: rtranclp_induct) (auto intro: id_evolve_wf)

text \<open>
  C24: The capability sets of a task are always consistent. However its credentials evolve from
  a fresh identity - set-ID calls, \<open>capset\<close>, \<open>prctl\<close>, \<open>execve\<close>, entering or joining user
  namespaces - the effective set is contained in the permitted set, the ambient set in both the
  permitted and the inheritable set, and no set holds a capability beyond the last valid one.
\<close>

theorem capability_sets_consistent:
  assumes "id_evolve\<^sup>*\<^sup>* (s, md_identity_new uid gid) (s', v)"
  shows "csub (effective (id_caps v)) (permitted (id_caps v))
    \<and> csub (ambient (id_caps v)) (permitted (id_caps v) AND inheritable (id_caps v))
    \<and> csub (permitted (id_caps v) OR inheritable (id_caps v) OR bounding (id_caps v)) MD_CAP_VALID"
  using evolve_wf_star [OF assms] caps_wf_new by (simp add: caps_wf_def csub_and csub_or)

definition demo_root :: identity where
  "demo_root = md_identity_new 0 0"

definition demo_dropped :: identity where
  "demo_dropped = demo_root\<lparr>id_uid := same_ids 1000, id_caps := (id_caps demo_root)\<lparr>permitted := 0, effective := 0, ambient := 0\<rparr>\<rparr>"

lemma demo_root_capable: "md_identity_capable demo_root CAP_SETUID" "md_identity_capable demo_root CAP_SETGID"
  by (simp_all add: demo_root_def md_identity_new_def Let_def md_identity_capable_def and_cap_bit
      CAP_SETUID_def CAP_SETGID_def MD_CAP_LAST_def)

lemma demo_setuid: "md_identity_setuid initial_store demo_root 1000 = Inr demo_dropped"
  using demo_root_capable(1)
  by (simp add: md_identity_setuid_def setid_def commit_uid_def UINT32_MAX_def)
    (simp add: demo_dropped_def demo_root_def md_identity_new_def same_ids_def uid_changed_def Let_def
      md_identity_root_def)

theorem capability_sets_consistent_witness:
  "id_evolve\<^sup>*\<^sup>* (initial_store, md_identity_new 0 0) (initial_store, demo_dropped)
   \<and> csub (effective (id_caps demo_dropped)) (permitted (id_caps demo_dropped))"
proof -
  have "id_evolve (initial_store, md_identity_new 0 0) (initial_store, demo_dropped)"
    using demo_setuid by (intro evolve_call call_setuid) (simp add: demo_root_def)
  then have "id_evolve\<^sup>*\<^sup>* (initial_store, md_identity_new 0 0) (initial_store, demo_dropped)" by blast
  then show ?thesis using capability_sets_consistent by blast
qed

lemma uid_changed_drop:
  assumes "v' = uid_changed s (id_uid v) (v\<lparr>id_uid := ids\<rparr>)" "caps_wf (id_caps v)"
    and "md_identity_root s v \<in> ids_set (id_uid v)" "md_identity_root s v \<notin> ids_set (id_uid v')"
    and "securebits (id_caps v) AND (SECBIT_NO_SETUID_FIXUP OR SECBIT_KEEP_CAPS) = 0"
  shows "powerless s v'"
proof -
  have "securebits (id_caps v) AND SECBIT_NO_SETUID_FIXUP = 0" "securebits (id_caps v) AND SECBIT_KEEP_CAPS = 0"
    using assms(5) by (auto simp: word32_zero_iff bit_and_iff bit_or_iff)
  moreover have "caps_wf (id_caps v')" using assms(1,2) uid_changed_wf by simp
  moreover have "md_identity_root s v' = md_identity_root s v" "md_identity_root s (v\<lparr>id_uid := ids\<rparr>) = md_identity_root s v"
    using assms(1) by (simp_all add: md_identity_root_def)
  ultimately show ?thesis using assms(1,3,4)
    by (auto simp: powerless_def) (auto simp: uid_changed_def Let_def)
qed

lemma powerless_star: "(id_call s)\<^sup>*\<^sup>* v v' \<Longrightarrow> powerless s v \<Longrightarrow> powerless s v'"
  by (induction rule: rtranclp_induct) (auto intro: powerless_call)

text \<open>
  C20: Dropping root is permanent. When a task whose user identifiers include the root of its
  namespace moves all of them away from it with \<open>setuid\<close> or \<open>setresuid\<close>, and neither securebit
  that keeps capabilities is set, then after any further sequence of credential calls it still
  has no capability in any of its sets and its real, effective and saved users are still not root.
\<close>

theorem privilege_drop_permanent:
  assumes "md_identity_setuid s v i = Inr v' \<or> md_identity_setresuid s v r e sv = Inr v'"
    and "caps_wf (id_caps v)"
    and "securebits (id_caps v) AND (SECBIT_NO_SETUID_FIXUP OR SECBIT_KEEP_CAPS) = 0"
    and "md_identity_root s v \<in> ids_set (id_uid v)" "md_identity_root s v \<notin> ids_set (id_uid v')"
    and "(id_call s)\<^sup>*\<^sup>* v' w"
  shows "permitted (id_caps w) = 0 \<and> effective (id_caps w) = 0 \<and> ambient (id_caps w) = 0
    \<and> md_identity_root s w \<notin> ids_set (id_uid w)"
proof -
  obtain ids where "v' = uid_changed s (id_uid v) (v\<lparr>id_uid := ids\<rparr>)"
    using assms(1) by (auto simp: md_identity_setuid_def md_identity_setresuid_def commit_uid_def
        split: option.splits sum.splits)
  then have "powerless s v'" using assms(2-5) by (rule_tac uid_changed_drop) auto
  then have "powerless s w" using powerless_star [OF assms(6)] by simp
  then show ?thesis by (auto simp: powerless_def caps_wf_def csub_zero)
qed

theorem privilege_drop_permanent_witness:
  "md_identity_setuid initial_store demo_root 1000 = Inr demo_dropped
   \<and> permitted (id_caps demo_dropped) = 0 \<and> 0 \<notin> ids_set (id_uid demo_dropped)"
proof -
  have "md_identity_root initial_store demo_root \<in> ids_set (id_uid demo_root)"
    "md_identity_root initial_store demo_root \<notin> ids_set (id_uid demo_dropped)"
    "caps_wf (id_caps demo_root)"
    "securebits (id_caps demo_root) AND (SECBIT_NO_SETUID_FIXUP OR SECBIT_KEEP_CAPS) = 0"
    by (simp_all add: demo_root_def caps_wf_new)
      (simp_all add: md_identity_root_def demo_dropped_def md_identity_new_def Let_def same_ids_def)
  from privilege_drop_permanent [OF disjI1 [OF demo_setuid] this(3,4,1,2) rtranclp.rtrancl_refl]
  show ?thesis using demo_setuid by (simp add: md_identity_root_def demo_dropped_def demo_root_def md_identity_new_def Let_def)
qed

lemma created_child: "md_user_namespace_new os up own grp sf s = (Inr n, s') \<Longrightarrow> \<exists>a. n = a # up"
  by (auto simp: md_user_namespace_new_def new_attach_def Let_def split: if_splits sum.splits option.splits prod.splits)

text \<open>A step of the credentials loses capabilities or leads into another user namespace below.\<close>

lemma evolve_nnp:
  assumes "id_evolve (s, v) (s', v')" "no_new_privs v" "caps_wf (id_caps v)"
  shows "no_new_privs v' \<and> (csub (permitted (id_caps v')) (permitted (id_caps v))
     \<or> id_ns v' \<noteq> id_ns v \<and> md_user_namespace_contains s (id_ns v) (id_ns v'))"
  using assms
proof (induction "(s, v)" "(s', v')" rule: id_evolve.induct)
  case evolve_call
  then show ?case using call_keeps_call by (auto simp: call_keeps_def)
next
  case (evolve_exec im nosuid secure)
  then show ?case using exec_no_gain [OF evolve_exec(1)] by simp
next
  case (evolve_enter os)
  then obtain a where "id_ns v' = a # id_ns v" "no_new_privs v' = no_new_privs v"
    by (auto simp: md_identity_enter_user_namespace_def dest!: created_child split: prod.splits sum.splits)
  moreover have "md_user_namespace_contains s up up" for up
    by (subst md_user_namespace_contains.simps) (simp add: same_def)
  then have "md_user_namespace_contains s up (a # up)" for up
    by (subst md_user_namespace_contains.simps) simp
  ultimately show ?case using evolve_enter(2) by simp
next
  case (evolve_join n)
  then have "\<not> same s (id_ns v) n" "md_identity_capable_in s v n CAP_SYS_ADMIN" "id_ns v' = n" "no_new_privs v' = no_new_privs v"
    by (auto simp: md_identity_join_user_namespace_def split: if_splits)
  then show ?case using evolve_join(2) capable_walk_contains
    by (auto simp: same_def md_identity_capable_in_def md_user_namespace_capable_def split: if_splits)
qed (simp add: csub_iff)

lemma evolves_nnp:
  assumes "id_evolve\<^sup>*\<^sup>* x y" "no_new_privs (snd x)" "caps_wf (id_caps (snd x))"
  shows "no_new_privs (snd y) \<and> caps_wf (id_caps (snd y))"
  using assms
proof (induction rule: rtranclp_induct)
  case (step y z)
  then show ?case using evolve_nnp [of "fst y" "snd y" "fst z" "snd z"] id_evolve_wf [of "fst y" "snd y" "fst z" "snd z"] by simp
qed simp

text \<open>The steps of a task that stays in its user namespace.\<close>

abbreviation id_stay :: "user_store \<times> identity \<Rightarrow> user_store \<times> identity \<Rightarrow> bool" where
  "id_stay x y \<equiv> id_evolve x y \<and> id_ns (snd y) = id_ns (snd x)"

lemma stays_nnp:
  assumes "id_stay\<^sup>*\<^sup>* x y" "no_new_privs (snd x)" "caps_wf (id_caps (snd x))"
  shows "csub (permitted (id_caps (snd y))) (permitted (id_caps (snd x)))"
  using assms
proof (induction rule: rtranclp_induct)
  case (step y z)
  have "id_evolve\<^sup>*\<^sup>* x y" using step(1) by (rule rtranclp_mono [THEN predicate2D, rotated]) blast
  then have "no_new_privs (snd y)" "caps_wf (id_caps (snd y))" using evolves_nnp step.prems by blast+
  then have "csub (permitted (id_caps (snd z))) (permitted (id_caps (snd y)))"
    using evolve_nnp [of "fst y" "snd y" "fst z" "snd z"] step(2) by auto
  then show ?case using step by (simp add: csub_iff)
qed (simp add: csub_iff)

text \<open>
  C22: \<open>no_new_privs\<close> is permanent. Over any sequence of credential calls, executions and entries into new
  or existing user namespaces it is never cleared. From then on an execution changes neither the
  effective user nor the effective group, whatever the file's set-ID bits and capabilities; the permitted
  set only shrinks as long as the task stays in its user namespace; and a step after which it is larger has
  moved the task into a different user namespace that its own one contains, where the full set counts.
\<close>

theorem no_new_privs_permanent:
  assumes "id_evolve\<^sup>*\<^sup>* (s, v) (t, w)" "no_new_privs v" "caps_wf (id_caps v)"
  shows "no_new_privs w
    \<and> (\<forall>im nosuid x secure. md_identity_prepare_exec t w im nosuid = Inr (x, secure)
         \<longrightarrow> id_effective (id_uid x) = id_effective (id_uid w) \<and> id_effective (id_gid x) = id_effective (id_gid w))
    \<and> (\<forall>u x. id_stay\<^sup>*\<^sup>* (t, w) (u, x) \<longrightarrow> csub (permitted (id_caps x)) (permitted (id_caps w)))
    \<and> (\<forall>u x. id_evolve (t, w) (u, x) \<longrightarrow> \<not> csub (permitted (id_caps x)) (permitted (id_caps w))
         \<longrightarrow> id_ns x \<noteq> id_ns w \<and> md_user_namespace_contains t (id_ns w) (id_ns x))"
proof -
  have w: "no_new_privs w" "caps_wf (id_caps w)" using evolves_nnp [OF assms(1)] assms(2,3) by simp_all
  have "csub (permitted (id_caps x)) (permitted (id_caps w))" if "id_stay\<^sup>*\<^sup>* (t, w) (u, x)" for u x
    using stays_nnp [OF that] w by simp
  then show ?thesis using w exec_no_gain(3,4) [OF _ w] evolve_nnp [OF _ w] by blast
qed

definition demo_locked_root :: identity where
  "demo_locked_root = demo_root\<lparr>no_new_privs := True\<rparr>"

definition demo_entered :: "identity result \<times> user_store" where
  "demo_entered = md_identity_enter_user_namespace demo_os demo_locked_root initial_store"

theorem no_new_privs_permanent_witness:
  "\<exists>w. fst demo_entered = Inr w \<and> id_ns w = [3] \<and> no_new_privs w
    \<and> (\<forall>im nosuid x secure. md_identity_prepare_exec (snd demo_entered) w im nosuid = Inr (x, secure) \<longrightarrow> id_effective (id_uid x) = 0)"
proof -
  have wf: "no_new_privs demo_locked_root" "caps_wf (id_caps demo_locked_root)" "id_effective (id_uid demo_locked_root) = 0"
    using caps_wf_new [of 0 0] by (simp_all add: demo_locked_root_def demo_root_def md_identity_new_def Let_def same_ids_def)
  have "case fst demo_entered of Inl _ \<Rightarrow> False | Inr w \<Rightarrow> id_ns w = [3] \<and> id_effective (id_uid w) = 0" by code_simp
  then obtain w where w: "fst demo_entered = Inr w" "id_ns w = [3]" "id_effective (id_uid w) = 0" by (auto split: sum.splits)
  then have "id_evolve (initial_store, demo_locked_root) (snd demo_entered, w)"
    by (intro evolve_enter [of demo_os]) (simp add: demo_entered_def prod_eq_iff)
  from no_new_privs_permanent [OF r_into_rtranclp [of id_evolve, OF this] wf(1,2)] show ?thesis using w by auto
qed

lemma locks_kept_trans: "locks_kept x y \<Longrightarrow> locks_kept y z \<Longrightarrow> locks_kept x z"
  by (simp add: locks_kept_def)

lemma calls_keep_locks:
  "(id_call s)\<^sup>*\<^sup>* v w \<Longrightarrow> locks_kept (securebits (id_caps v)) (securebits (id_caps w))"
proof (induction rule: rtranclp_induct)
  case (step y z)
  then show ?case using call_keeps_call [OF step(2)] locks_kept_trans unfolding call_keeps_def by blast
qed simp

text \<open>
  A locked securebit is frozen. Over any sequence of credential calls, a securebit whose lock
  is set keeps its value, and the lock itself stays set.
\<close>

theorem securebits_locked:
  assumes "(id_call s)\<^sup>*\<^sup>* v w" "b \<in> {0, 2, 4, 6}" "bit (securebits (id_caps v)) (b + 1)"
  shows "bit (securebits (id_caps w)) (b + 1) \<and> (bit (securebits (id_caps w)) b \<longleftrightarrow> bit (securebits (id_caps v)) b)"
  using calls_keep_locks [OF assms(1)] assms(2,3) unfolding locks_kept_def by blast

definition demo_noroot :: identity where
  "demo_noroot = demo_root\<lparr>id_caps := (id_caps demo_root)\<lparr>securebits := 0x3\<rparr>\<rparr>"

theorem securebits_locked_witness:
  "id_call initial_store demo_noroot (snd (md_identity_cap_prctl demo_noroot PR_SET_KEEPCAPS 1 0 0 0))
   \<and> bit (securebits (id_caps (snd (md_identity_cap_prctl demo_noroot PR_SET_KEEPCAPS 1 0 0 0)))) 0"
proof -
  let ?w = "snd (md_identity_cap_prctl demo_noroot PR_SET_KEEPCAPS 1 0 0 0)"
  have call: "id_call initial_store demo_noroot ?w"
    by (rule call_prctl [of _ PR_SET_KEEPCAPS 1 0 0 0 "fst (md_identity_cap_prctl demo_noroot PR_SET_KEEPCAPS 1 0 0 0)"]) simp
  have "bit (securebits (id_caps demo_noroot)) (0 + 1)" "bit (securebits (id_caps demo_noroot)) 0"
    by (simp_all add: demo_noroot_def)
  with call securebits_locked [OF r_into_rtranclp [of "id_call initial_store", OF call], of 0] show ?thesis by simp
qed

text \<open>
  Supplementary groups mean what was set. After a successful \<open>setgroups\<close>, the binary search
  of the sorted canonical groups answers membership exactly: a group is held if and only if it is
  the file-system group or the image of one of the given groups under the namespace's group map;
  and the call required the capability and a namespace that allows it.
\<close>

theorem setgroups_membership:
  assumes "md_identity_setgroups s alloc v gids = Inr v'"
  shows "(\<forall>g. md_identity_in_group v' g \<longleftrightarrow>
            g = id_fs (id_gid v) \<or> g \<in> md_user_namespace_into s (id_ns v) True ` set gids)
    \<and> md_identity_capable v CAP_SETGID \<and> md_user_namespace_may_setgroups s (id_ns v)"
proof -
  from assms obtain ks where ks: "map_groups s (id_ns v) gids = Some ks" and v': "v' = v\<lparr>id_groups := sort ks\<rparr>"
    and ok: "md_identity_capable v CAP_SETGID" "md_user_namespace_may_setgroups s (id_ns v)"
    by (rule setgroups_result)
  have "set ks = md_user_namespace_into s (id_ns v) True ` set gids" using map_groups_set [OF ks] by simp
  then show ?thesis using ok v' by (simp add: in_group_iff)
qed

theorem setgroups_membership_witness:
  "\<exists>v'. md_identity_setgroups initial_store True demo_root [30, 10, 20] = Inr v'
     \<and> md_identity_in_group v' 20 \<and> \<not> md_identity_in_group v' 15"
proof -
  let ?v = "demo_root\<lparr>id_groups := sort [30, 10, 20]\<rparr>"
  have ok: "md_identity_setgroups initial_store True demo_root [30, 10, 20] = Inr ?v"
    using demo_root_capable(2)
    by (simp add: md_identity_setgroups_def md_identity_groups_def MD_IDENTITY_GROUPS_MAX_def UINT32_MAX_def Let_def
        md_user_namespace_may_setgroups_def demo_root_def md_identity_new_def)
  have "id_ns demo_root = []" "id_fs (id_gid demo_root) = 0"
    by (simp_all add: demo_root_def md_identity_new_def Let_def same_ids_def)
  with setgroups_membership [OF ok] ok show ?thesis by (intro exI [of _ ?v]) simp
qed

text \<open>
  C28: What an execution gives, and what it gives unmarked. It keeps the real user and group; it changes
  the effective user or group only to the owner of an image with the set-ID bit, on a mount that
  admits it, mapped in the namespace and without \<open>no_new_privs\<close>. If the execution is not marked secure,
  the program runs with the real user and group of its caller, and unless that user is the root of its
  namespace, its permitted and effective capabilities are ambient ones the caller already had. That
  root can gain unmarked; but no execution at all gives a capability outside the caller's bounding and
  inheritable sets.
\<close>

theorem exec_secure_flag:
  assumes "md_identity_prepare_exec s v (Some im) nosuid = Inr (v', secure)" "caps_wf (id_caps v)"
  shows "id_real (id_uid v') = id_real (id_uid v) \<and> id_real (id_gid v') = id_real (id_gid v)
    \<and> (let admitted = \<not> no_new_privs v \<and> \<not> nosuid \<and> md_user_namespace_from s (id_ns v) False (image_uid im) \<noteq> UINT32_MAX
              \<and> md_user_namespace_from s (id_ns v) True (image_gid im) \<noteq> UINT32_MAX
       in (id_effective (id_uid v') \<noteq> id_effective (id_uid v) \<longrightarrow>
             admitted \<and> image_mode im AND S_ISUID \<noteq> 0 \<and> id_effective (id_uid v') = image_uid im)
        \<and> (id_effective (id_gid v') \<noteq> id_effective (id_gid v) \<longrightarrow>
             admitted \<and> image_mode im AND S_ISGID \<noteq> 0 \<and> id_effective (id_gid v') = image_gid im))
    \<and> (\<not> secure \<longrightarrow> id_effective (id_uid v') = id_real (id_uid v) \<and> id_effective (id_gid v') = id_real (id_gid v)
        \<and> (id_real (id_uid v) \<noteq> md_identity_root s v \<longrightarrow>
             permitted (id_caps v') = ambient (id_caps v') \<and> effective (id_caps v') = ambient (id_caps v')
             \<and> csub (permitted (id_caps v')) (permitted (id_caps v))))
    \<and> csub (permitted (id_caps v')) (bounding (id_caps v) OR inheritable (id_caps v))"
proof -
  let ?nx = "exec_ids s v im nosuid"
  from assms(1) obtain f where ex: "exec_capabilities s v ?nx f = Inr (v', secure)"
    by (elim prepare_exec_result) blast
  let ?a = "exec_ambient s v ?nx f" and ?p = "exec_permitted s v ?nx f"
  have v': "id_uid v' = id_uid ?nx" "id_gid v' = id_gid ?nx"
    "permitted (id_caps v') = ?p OR ?a" "ambient (id_caps v') = ?a"
    "effective (id_caps v') = (if exec_effective s ?nx f then ?p OR ?a else ?a)" "secure = exec_secure s v ?nx f"
    using ex by (auto simp: exec_capabilities_def Let_def split: if_splits)
  have root: "md_identity_root s ?nx = md_identity_root s v" by (simp add: md_identity_root_def)
  have same: "(?p OR ?a) AND NOT ?a = 0 \<Longrightarrow> ?p OR ?a = ?a"
    using csub_iff [of "?p OR ?a" ?a] unfolding csub_def by (intro bit_word_eqI) (auto simp: bit_or_iff)
  have a: "bit ?a n \<Longrightarrow> bit (permitted (id_caps v)) n \<and> bit (inheritable (id_caps v)) n" for n
    using exec_ambient_bits [of s v ?nx f n] caps_wf_bits(1,2) [OF assms(2)] by simp
  have few: "csub (?p OR ?a) (bounding (id_caps v) OR inheritable (id_caps v))"
    using exec_permitted_bits [of s v ?nx f] a by (auto simp: csub_iff bit_or_iff)
  have gid: "bit S_ISGID 10" by code_simp
  have group_bit: "image_mode im AND S_ISGID \<noteq> 0" if "image_mode im AND (S_ISGID OR S_IXGRP) = S_ISGID OR S_IXGRP"
  proof -
    have "bit (image_mode im) 10" using arg_cong [OF that, of "\<lambda>x. bit x 10"] gid by (simp add: bit_and_iff bit_or_iff)
    then have "bit (image_mode im AND S_ISGID) 10" using gid by (simp add: bit_and_iff)
    then show ?thesis by auto
  qed
  have ids: "let admitted = \<not> no_new_privs v \<and> \<not> nosuid \<and> md_user_namespace_from s (id_ns v) False (image_uid im) \<noteq> UINT32_MAX
              \<and> md_user_namespace_from s (id_ns v) True (image_gid im) \<noteq> UINT32_MAX
       in (id_effective (id_uid ?nx) \<noteq> id_effective (id_uid v) \<longrightarrow>
             admitted \<and> image_mode im AND S_ISUID \<noteq> 0 \<and> id_effective (id_uid ?nx) = image_uid im)
        \<and> (id_effective (id_gid ?nx) \<noteq> id_effective (id_gid v) \<longrightarrow>
             admitted \<and> image_mode im AND S_ISGID \<noteq> 0 \<and> id_effective (id_gid ?nx) = image_gid im)"
    using group_bit by (auto simp: exec_ids_def Let_def)
  have "\<not> secure \<longrightarrow> id_effective (id_uid ?nx) = id_real (id_uid v) \<and> id_effective (id_gid ?nx) = id_real (id_gid v)
        \<and> (id_real (id_uid v) \<noteq> md_identity_root s v \<longrightarrow> ?p OR ?a = ?a)"
    unfolding v'(6) exec_secure_def root using same by auto
  then show ?thesis using ids few a unfolding v' by (auto simp: csub_iff)
qed

text \<open>A user without privileges runs an ordinary program and one with the set-user-ID bit of root.\<close>

definition demo_program :: "u32 \<Rightarrow> exec_image" where
  "demo_program mode = \<lparr>image_fd = 4, image_uid = 0, image_gid = 0, image_mode = mode, image_capabilities = no_file_capabilities\<rparr>"

theorem exec_secure_flag_witness:
  "(\<exists>x. md_identity_prepare_exec initial_store demo_dropped (Some (demo_program 0x81ED)) False = Inr (x, False)
      \<and> id_effective (id_uid x) = 1000 \<and> csub (permitted (id_caps x)) (permitted (id_caps demo_dropped)))
   \<and> (\<exists>x. md_identity_prepare_exec initial_store demo_dropped (Some (demo_program 0x89ED)) False = Inr (x, True)
      \<and> id_effective (id_uid x) = 0)"
proof -
  have wf: "caps_wf (id_caps demo_dropped)"
    using caps_wf_new [of 0 0] by (auto simp: demo_dropped_def demo_root_def caps_wf_def csub_iff)
  have ids: "id_real (id_uid demo_dropped) = 1000" "md_identity_root initial_store demo_dropped \<noteq> 1000" by code_simp+
  have "case md_identity_prepare_exec initial_store demo_dropped (Some (demo_program 0x81ED)) False of Inl _ \<Rightarrow> False | Inr (x, secure) \<Rightarrow> \<not> secure"
    "case md_identity_prepare_exec initial_store demo_dropped (Some (demo_program 0x89ED)) False of Inl _ \<Rightarrow> False | Inr (x, secure) \<Rightarrow> id_effective (id_uid x) = 0"
    by code_simp+
  then obtain x y secure where run: "md_identity_prepare_exec initial_store demo_dropped (Some (demo_program 0x81ED)) False = Inr (x, False)"
    "md_identity_prepare_exec initial_store demo_dropped (Some (demo_program 0x89ED)) False = Inr (y, secure)" "id_effective (id_uid y) = 0"
    by (auto split: sum.splits prod.splits)
  show ?thesis
    using run ids exec_secure_flag [OF run(1) wf] exec_secure_flag [OF run(2) wf] by (cases secure) auto
qed

end
