(* ===== verification/Permissions.thy ===== *)
theory Permissions
  imports Guest_Identity "HOL-Library.Product_Lexorder"
begin

unbundle bit_operations_syntax

text \<open>
  Access decisions on files and System V objects: mode bits
  (\<^verbatim>\<open>src/native/shroot/src/file_permissions.h\<close>), POSIX access control lists
  (\<^verbatim>\<open>posix_acl.c\<close>) and IPC permissions (\<^verbatim>\<open>ipc_permissions.c\<close>).
\<close>

section \<open>Mode bits\<close>

record stat =
  st_mode :: u32
  st_uid :: u32
  st_gid :: u32

definition X_OK :: u32 where "X_OK = 1"
definition W_OK :: u32 where "W_OK = 2"

definition md_file_mode_allows :: "stat \<Rightarrow> u32 \<Rightarrow> identity \<Rightarrow> bool" where
  "md_file_mode_allows st mode v =
     (let shift = (if id_fs (id_uid v) = st_uid st then 6
                   else if md_identity_in_group v (st_gid st) then 3 else 0)
      in drop_bit shift (st_mode st) AND mode = mode)"

definition md_file_dac_override :: "user_store \<Rightarrow> stat \<Rightarrow> u32 \<Rightarrow> identity \<Rightarrow> bool" where
  "md_file_dac_override s st mode v =
     (if (mode AND X_OK = 0 \<or> S_ISDIR (st_mode st) \<or> st_mode st AND 0x49 \<noteq> 0)
         \<and> md_identity_file_capable s v (st_uid st) (st_gid st) CAP_DAC_OVERRIDE then True
      else mode AND W_OK = 0 \<and> (mode AND X_OK = 0 \<or> S_ISDIR (st_mode st))
         \<and> md_identity_file_capable s v (st_uid st) (st_gid st) CAP_DAC_READ_SEARCH)"

definition md_file_permissions :: "user_store \<Rightarrow> stat \<Rightarrow> u32 \<Rightarrow> identity option \<Rightarrow> unit result" where
  "md_file_permissions s st mode ov =
     (case ov of
        None \<Rightarrow> Inl EINVAL
      | Some v \<Rightarrow>
          if mode AND NOT 7 \<noteq> 0 then Inl EINVAL
          else if md_file_mode_allows st mode v \<or> md_file_dac_override s st mode v then Inr ()
          else Inl EACCES)"

definition md_file_noatime :: "user_store \<Rightarrow> stat \<Rightarrow> identity \<Rightarrow> unit result" where
  "md_file_noatime s st v =
     (if st_uid st = id_fs (id_uid v) \<or> md_identity_file_capable s v (st_uid st) (st_gid st) CAP_FOWNER
      then Inr () else Inl EPERM)"

section \<open>Access control lists\<close>

definition MD_ACL_MAX :: nat where "MD_ACL_MAX = 65532"
definition MD_ACL_USER_OBJ :: u16 where "MD_ACL_USER_OBJ = 1"
definition MD_ACL_USER :: u16 where "MD_ACL_USER = 2"
definition MD_ACL_GROUP_OBJ :: u16 where "MD_ACL_GROUP_OBJ = 4"
definition MD_ACL_GROUP :: u16 where "MD_ACL_GROUP = 8"
definition MD_ACL_MASK :: u16 where "MD_ACL_MASK = 16"
definition MD_ACL_OTHER :: u16 where "MD_ACL_OTHER = 32"

lemmas acl_tags = MD_ACL_USER_OBJ_def MD_ACL_USER_def MD_ACL_GROUP_OBJ_def MD_ACL_GROUP_def
  MD_ACL_MASK_def MD_ACL_OTHER_def

record acl_entry =
  acl_tag :: u16
  acl_permissions :: u16
  acl_id :: u32

text \<open>
  A value of \<open>size\<close> bytes holds the version and \<open>count(size)\<close> entries; a list of entries
  stands for the array, of which only those are read.
\<close>

record acl =
  acl_version :: u32
  acl_entries :: "acl_entry list"

definition acl_count :: "nat \<Rightarrow> nat" where
  "acl_count sz = (sz - 4) div 8"

text \<open>The variables \<open>phase\<close>, \<open>named\<close>, \<open>mask\<close> and \<open>previous\<close> of the validation loop.\<close>

record acl_scan =
  acl_phase :: nat
  acl_named :: bool
  acl_mask :: bool
  acl_previous :: u32

definition acl_entry_step :: "acl_scan \<Rightarrow> acl_entry \<Rightarrow> acl_scan option" where
  "acl_entry_step st e =
     (let phase = acl_phase st in
      if acl_permissions e > 7 then None
      else if acl_tag e \<noteq> MD_ACL_USER \<and> acl_tag e \<noteq> MD_ACL_GROUP \<and> acl_id e \<noteq> UINT32_MAX then None
      else if acl_tag e = MD_ACL_USER_OBJ then
        (if phase \<noteq> 0 then None else Some (st\<lparr>acl_phase := 1\<rparr>))
      else if acl_tag e = MD_ACL_USER then
        (if phase \<noteq> 1 \<and> phase \<noteq> 2 \<or> acl_id e = UINT32_MAX \<or> phase = 2 \<and> acl_id e \<le> acl_previous st then None
         else Some (st\<lparr>acl_phase := 2, acl_previous := acl_id e, acl_named := True\<rparr>))
      else if acl_tag e = MD_ACL_GROUP_OBJ then
        (if phase \<noteq> 1 \<and> phase \<noteq> 2 then None else Some (st\<lparr>acl_phase := 3\<rparr>))
      else if acl_tag e = MD_ACL_GROUP then
        (if phase \<noteq> 3 \<and> phase \<noteq> 4 \<or> acl_id e = UINT32_MAX \<or> phase = 4 \<and> acl_id e \<le> acl_previous st then None
         else Some (st\<lparr>acl_phase := 4, acl_previous := acl_id e, acl_named := True\<rparr>))
      else if acl_tag e = MD_ACL_MASK then
        (if phase \<noteq> 3 \<and> phase \<noteq> 4 then None else Some (st\<lparr>acl_phase := 5, acl_mask := True\<rparr>))
      else if acl_tag e = MD_ACL_OTHER then
        (if phase < 3 \<or> phase > 5 \<or> acl_named st \<and> \<not> acl_mask st then None
         else Some (st\<lparr>acl_phase := 6\<rparr>))
      else None)"

fun acl_scan_entries :: "acl_scan \<Rightarrow> acl_entry list \<Rightarrow> bool" where
  "acl_scan_entries st [] = (acl_phase st = 6)"
| "acl_scan_entries st (e # es) =
     (case acl_entry_step st e of None \<Rightarrow> False | Some st' \<Rightarrow> acl_scan_entries st' es)"

definition acl_scan_start :: acl_scan where
  "acl_scan_start = \<lparr>acl_phase = 0, acl_named = False, acl_mask = False, acl_previous = 0\<rparr>"

definition md_acl_valid :: "acl option \<Rightarrow> nat \<Rightarrow> bool" where
  "md_acl_valid data sz =
     (case data of
        None \<Rightarrow> False
      | Some a \<Rightarrow>
          if sz < 4 \<or> sz > MD_ACL_MAX \<or> (sz - 4) mod 8 \<noteq> 0 then False
          else if acl_version a \<noteq> 2 then False
          else if sz = 4 then True
          else acl_scan_entries acl_scan_start (take (acl_count sz) (acl_entries a)))"

text \<open>
  The order of \<open>entry_order\<close>; \<open>qsort\<close> puts the entries in it. For entries that compare
  equal, which only unmapped identifiers can produce, the model keeps their order.
\<close>

definition entry_key :: "acl_entry \<Rightarrow> u16 \<times> u32" where
  "entry_key e = (acl_tag e, acl_id e)"

definition entry_order :: "acl_entry \<Rightarrow> acl_entry \<Rightarrow> int" where
  "entry_order a b =
     (if acl_tag a \<noteq> acl_tag b then (if acl_tag a > acl_tag b then 1 else - 1)
      else of_bool (acl_id a > acl_id b) - of_bool (acl_id a < acl_id b))"

abbreviation named_entry :: "acl_entry \<Rightarrow> bool" where
  "named_entry e \<equiv> acl_tag e = MD_ACL_USER \<or> acl_tag e = MD_ACL_GROUP"

definition map_entry :: "user_store \<Rightarrow> identity \<Rightarrow> bool \<Rightarrow> acl_entry \<Rightarrow> acl_entry" where
  "map_entry s v into e =
     (if \<not> named_entry e then e
      else e\<lparr>acl_id := if into then md_user_namespace_into s (id_ns v) (acl_tag e = MD_ACL_GROUP) (acl_id e)
             else md_identity_visible_id s v (acl_tag e = MD_ACL_GROUP) (acl_id e)\<rparr>)"

definition md_acl_map :: "user_store \<Rightarrow> identity option \<Rightarrow> bool \<Rightarrow> acl_entry list \<Rightarrow> acl_entry list result" where
  "md_acl_map s ov into es =
     (case ov of
        None \<Rightarrow> Inr es
      | Some v \<Rightarrow>
          if id_ns v = [] then Inr es
          else if into \<and> (\<exists>e \<in> set es. named_entry e
                 \<and> md_user_namespace_into s (id_ns v) (acl_tag e = MD_ACL_GROUP) (acl_id e) = UINT32_MAX)
          then Inl EINVAL
          else Inr (sort_key entry_key (map (map_entry s v into) es)))"

definition acl_mode_step :: "acl_entry \<Rightarrow> u32 \<Rightarrow> u32" where
  "acl_mode_step e mode =
     (let p = ucast (acl_permissions e) :: u32 in
      if acl_tag e = MD_ACL_USER_OBJ then mode OR push_bit 6 p
      else if acl_tag e = MD_ACL_GROUP_OBJ then mode OR push_bit 3 p
      else if acl_tag e = MD_ACL_MASK then (mode AND NOT 0x38) OR push_bit 3 p
      else if acl_tag e = MD_ACL_OTHER then mode OR p
      else mode)"

definition md_acl_mode :: "acl_entry list \<Rightarrow> u32 \<Rightarrow> u32" where
  "md_acl_mode es mode = fold acl_mode_step es (mode AND NOT 0x1FF)"

definition chmod_entry :: "bool \<Rightarrow> u32 \<Rightarrow> bool \<Rightarrow> acl_entry \<Rightarrow> acl_entry" where
  "chmod_entry has_mask mode inherit e =
     (let put = (\<lambda>bits :: u32. e\<lparr>acl_permissions :=
            if inherit then acl_permissions e AND ucast bits else ucast bits\<rparr>) in
      if acl_tag e = MD_ACL_USER_OBJ then put (drop_bit 6 mode AND 7)
      else if acl_tag e = MD_ACL_MASK \<or> acl_tag e = MD_ACL_GROUP_OBJ \<and> \<not> has_mask then put (drop_bit 3 mode AND 7)
      else if acl_tag e = MD_ACL_OTHER then put (mode AND 7)
      else e)"

definition md_acl_chmod :: "acl_entry list \<Rightarrow> u32 \<Rightarrow> bool \<Rightarrow> acl_entry list" where
  "md_acl_chmod es mode inherit =
     (let has_mask = (\<exists>e \<in> set es. acl_tag e = MD_ACL_MASK) in map (chmod_entry has_mask mode inherit) es)"

definition acl_mask_of :: "acl_entry list \<Rightarrow> u32" where
  "acl_mask_of es = fold (\<lambda>e m. if acl_tag e = MD_ACL_MASK then ucast (acl_permissions e) else m) es 7"

fun acl_walk ::
  "identity \<Rightarrow> u32 \<Rightarrow> u32 \<Rightarrow> u32 \<Rightarrow> u32 \<Rightarrow> bool \<Rightarrow> bool \<Rightarrow> u32 \<Rightarrow> acl_entry list \<Rightarrow> unit result" where
  "acl_walk v own grp requested mk seen allowed other [] =
     (if seen then (if allowed then Inr () else Inl EACCES)
      else if other AND requested = requested then Inr () else Inl EACCES)"
| "acl_walk v own grp requested mk seen allowed other (e # es) =
     (let p = ucast (acl_permissions e) :: u32 in
      if acl_tag e = MD_ACL_USER_OBJ \<and> id_fs (id_uid v) = own then
        (if p AND requested = requested then Inr () else Inl EACCES)
      else if acl_tag e = MD_ACL_USER \<and> id_fs (id_uid v) = acl_id e then
        (if p AND mk AND requested = requested then Inr () else Inl EACCES)
      else
        let hit = (acl_tag e = MD_ACL_GROUP_OBJ \<and> md_identity_in_group v grp
                   \<or> acl_tag e = MD_ACL_GROUP \<and> md_identity_in_group v (acl_id e))
        in acl_walk v own grp requested mk (seen \<or> hit)
             (allowed \<or> hit \<and> p AND mk AND requested = requested)
             (if acl_tag e = MD_ACL_OTHER then p else other) es)"

definition md_acl_permission :: "acl_entry list \<Rightarrow> identity \<Rightarrow> u32 \<Rightarrow> u32 \<Rightarrow> u32 \<Rightarrow> unit result" where
  "md_acl_permission es v own grp requested =
     acl_walk v own grp requested (acl_mask_of es) False False 0 es"

section \<open>System V permissions\<close>

record ipc_perm =
  ipc_uid :: u32
  ipc_gid :: u32
  ipc_cuid :: u32
  ipc_cgid :: u32
  ipc_mode :: u32

definition CAP_IPC_OWNER :: nat where "CAP_IPC_OWNER = 15"

definition md_ipc_perm_access :: "user_store \<Rightarrow> ns_ptr \<Rightarrow> identity \<Rightarrow> ipc_perm \<Rightarrow> u32 \<Rightarrow> unit result" where
  "md_ipc_perm_access s own v p mode =
     (if md_identity_capable_in s v own CAP_IPC_OWNER then Inr ()
      else
        let e = id_effective (id_uid v);
            shift = (if e = ipc_uid p \<or> e = ipc_cuid p then 6
                     else if md_identity_in_group v (ipc_gid p) \<or> md_identity_in_group v (ipc_cgid p) then 3
                     else 0)
        in if drop_bit shift (ipc_mode p) AND mode = mode then Inr () else Inl EACCES)"

definition md_ipc_perm_owner :: "user_store \<Rightarrow> ns_ptr \<Rightarrow> identity \<Rightarrow> ipc_perm \<Rightarrow> unit result" where
  "md_ipc_perm_owner s own v p =
     (if id_effective (id_uid v) = ipc_uid p \<or> id_effective (id_uid v) = ipc_cuid p
         \<or> md_identity_capable_in s v own CAP_SYS_ADMIN then Inr () else Inl EPERM)"

definition md_ipc_perm_visible :: "user_store \<Rightarrow> identity \<Rightarrow> ipc_perm \<Rightarrow> ipc_perm" where
  "md_ipc_perm_visible s v p =
     p\<lparr>ipc_uid := md_identity_visible_id s v False (ipc_uid p), ipc_cuid := md_identity_visible_id s v False (ipc_cuid p),
       ipc_gid := md_identity_visible_id s v True (ipc_gid p), ipc_cgid := md_identity_visible_id s v True (ipc_cgid p)\<rparr>"

definition md_ipc_perm_set :: "user_store \<Rightarrow> identity \<Rightarrow> ipc_perm \<Rightarrow> u32 \<Rightarrow> u32 \<Rightarrow> u32 \<Rightarrow> ipc_perm result" where
  "md_ipc_perm_set s v p uid gid mode =
     (let u = md_user_namespace_into s (id_ns v) False uid; g = md_user_namespace_into s (id_ns v) True gid
      in if u = UINT32_MAX \<or> g = UINT32_MAX then Inl EINVAL
         else Inr (p\<lparr>ipc_uid := u, ipc_gid := g,
                ipc_mode := (ipc_mode p AND NOT 0x1FF) OR (mode AND 0x1FF)\<rparr>))"

section \<open>What a valid list looks like\<close>

definition entry_ok :: "acl_entry \<Rightarrow> bool" where
  "entry_ok e \<longleftrightarrow> acl_tag e \<in> {1, 2, 4, 8, 16, 32} \<and> acl_permissions e \<le> 7
     \<and> (acl_id e = UINT32_MAX \<longleftrightarrow> \<not> named_entry e)"

definition strictly_ordered :: "acl_entry list \<Rightarrow> bool" where
  "strictly_ordered es \<longleftrightarrow> sorted_wrt (\<lambda>a b. entry_key a < entry_key b) es"

text \<open>
  The specification: entries strictly in order of tag and identifier, one for the owner, the
  owning group and the others, and a mask if anything is named.
\<close>

definition acl_wf :: "acl_entry list \<Rightarrow> bool" where
  "acl_wf es \<longleftrightarrow> strictly_ordered es \<and> (\<forall>e \<in> set es. entry_ok e)
     \<and> {MD_ACL_USER_OBJ, MD_ACL_GROUP_OBJ, MD_ACL_OTHER} \<subseteq> acl_tag ` set es
     \<and> ((\<exists>e \<in> set es. named_entry e) \<longrightarrow> MD_ACL_MASK \<in> acl_tag ` set es)"

text \<open>The same from the middle of the scan: what is still required, and the last key seen.\<close>

definition acl_floor :: "acl_scan \<Rightarrow> (u16 \<times> u32) option" where
  "acl_floor st = [None, Some (1, UINT32_MAX), Some (2, acl_previous st), Some (4, UINT32_MAX),
     Some (8, acl_previous st), Some (16, UINT32_MAX), Some (32, UINT32_MAX)] ! acl_phase st"

definition acl_required :: "nat \<Rightarrow> u16 set" where
  "acl_required ph = (if ph = 0 then {1, 4, 32} else if ph \<le> 2 then {4, 32} else if ph \<le> 5 then {32} else {})"

definition acl_rest :: "acl_scan \<Rightarrow> acl_entry list \<Rightarrow> bool" where
  "acl_rest st es \<longleftrightarrow> strictly_ordered es \<and> (\<forall>e \<in> set es. entry_ok e)
     \<and> (\<forall>k. acl_floor st = Some k \<longrightarrow> (\<forall>e \<in> set es. k < entry_key e))
     \<and> acl_required (acl_phase st) \<subseteq> acl_tag ` set es
     \<and> (acl_named st \<or> (\<exists>e \<in> set es. named_entry e) \<longrightarrow> acl_mask st \<or> MD_ACL_MASK \<in> acl_tag ` set es)"

definition scan_inv :: "acl_scan \<Rightarrow> bool" where
  "scan_inv st \<longleftrightarrow> acl_phase st \<le> 6 \<and> (acl_mask st \<longrightarrow> acl_phase st \<ge> 5)
     \<and> (acl_phase st = 6 \<longrightarrow> acl_named st \<longrightarrow> acl_mask st)"

lemma scan_inv_start: "scan_inv acl_scan_start"
  by (simp add: scan_inv_def acl_scan_start_def)

lemma scan_inv_step: "acl_entry_step st e = Some st' \<Longrightarrow> scan_inv st \<Longrightarrow> scan_inv st'"
  by (auto simp: acl_entry_step_def scan_inv_def Let_def split: if_splits)

lemma phase_cases:
  assumes "(n::nat) \<le> 6"
  obtains "n = 0" | "n = 1" | "n = 2" | "n = 3" | "n = 4" | "n = 5" | "n = 6"
  using assms by linarith

lemma entry_key_less: "k < entry_key e \<longleftrightarrow> fst k < acl_tag e \<or> fst k = acl_tag e \<and> snd k < acl_id e"
  by (cases k) (auto simp: entry_key_def)

lemma le_UINT32_MAX [simp]: "x \<le> UINT32_MAX" "\<not> UINT32_MAX < x"
proof -
  show "x \<le> UINT32_MAX" using unat32_less [of x] by (simp add: word_le_nat_alt unat_UINT32_MAX)
  then show "\<not> UINT32_MAX < x" by simp
qed

text \<open>One accepted entry moves the scan to the specification of the rest.\<close>

lemma acl_step_ok:
  "acl_entry_step st e = Some st' \<Longrightarrow> entry_ok e"
  by (auto simp: acl_entry_step_def entry_ok_def acl_tags Let_def split: if_splits)

lemma acl_step_floor:
  "acl_entry_step st e = Some st' \<Longrightarrow> acl_floor st' = Some (entry_key e)"
  by (auto simp: acl_entry_step_def acl_floor_def entry_key_def acl_tags Let_def split: if_splits)

lemma acl_step_above:
  assumes "acl_entry_step st e = Some st'" "acl_floor st = Some k"
  shows "k < entry_key e"
proof -
  consider "acl_phase st = 0" | "acl_phase st \<in> {1, 2}" | "acl_phase st \<in> {3, 4}" | "acl_phase st = 5"
    using assms(1) by (force simp: acl_entry_step_def Let_def split: if_splits)
  then show ?thesis using assms
    by cases (auto simp: acl_entry_step_def acl_floor_def entry_key_less acl_tags Let_def not_le split: if_splits)
qed

lemma acl_step_required:
  "acl_entry_step st e = Some st' \<Longrightarrow>
   acl_tag e \<notin> acl_required (acl_phase st') \<and> acl_required (acl_phase st') \<subseteq> acl_required (acl_phase st)
   \<and> acl_required (acl_phase st) \<subseteq> insert (acl_tag e) (acl_required (acl_phase st'))"
  by (auto simp: acl_entry_step_def acl_required_def acl_tags Let_def split: if_splits)

lemma acl_step_named:
  "acl_entry_step st e = Some st' \<Longrightarrow>
   acl_named st' = (acl_named st \<or> named_entry e) \<and> acl_mask st' = (acl_mask st \<or> acl_tag e = MD_ACL_MASK)"
  by (auto simp: acl_entry_step_def acl_tags Let_def split: if_splits)

lemma acl_rest_step:
  assumes "acl_entry_step st e = Some st'"
  shows "acl_rest st (e # es) \<longleftrightarrow> acl_rest st' es"
proof -
  note facts = acl_step_ok [OF assms] acl_step_floor [OF assms] acl_step_named [OF assms] acl_step_required [OF assms]
  have above: "acl_floor st = Some k \<Longrightarrow> entry_key e < entry_key x \<Longrightarrow> k < entry_key x" for k x
    using acl_step_above [OF assms] by (blast intro: less_trans)
  have req: "acl_required (acl_phase st) \<subseteq> acl_tag ` set (e # es) \<longleftrightarrow> acl_required (acl_phase st') \<subseteq> acl_tag ` set es"
    using facts(4) by auto
  have named: "(acl_named st \<or> (\<exists>x \<in> set (e # es). named_entry x) \<longrightarrow> acl_mask st \<or> MD_ACL_MASK \<in> acl_tag ` set (e # es))
    \<longleftrightarrow> (acl_named st' \<or> (\<exists>x \<in> set es. named_entry x) \<longrightarrow> acl_mask st' \<or> MD_ACL_MASK \<in> acl_tag ` set es)"
    using facts(3) by (simp only: list.simps insert_iff bex_simps image_insert eq_commute [of MD_ACL_MASK]) blast
  have floor: "(strictly_ordered (e # es) \<and> (\<forall>k. acl_floor st = Some k \<longrightarrow> (\<forall>x \<in> set (e # es). k < entry_key x)))
    \<longleftrightarrow> (strictly_ordered es \<and> (\<forall>k. acl_floor st' = Some k \<longrightarrow> (\<forall>x \<in> set es. k < entry_key x)))"
    using above acl_step_above [OF assms] by (simp add: strictly_ordered_def facts(2)) blast
  have ok: "(\<forall>x \<in> set (e # es). entry_ok x) \<longleftrightarrow> (\<forall>x \<in> set es. entry_ok x)" using facts(1) by simp
  show ?thesis
    unfolding acl_rest_def req named ok using floor by blast
qed

text \<open>A refused entry cannot start a list the specification accepts.\<close>

lemma acl_restD:
  assumes "acl_rest st (e # es)"
  shows "entry_ok e" "\<And>k. acl_floor st = Some k \<Longrightarrow> k < entry_key e"
    "acl_required (acl_phase st) \<subseteq> insert (acl_tag e) (acl_tag ` set es)"
    "\<And>x. x \<in> set es \<Longrightarrow> acl_tag e \<le> acl_tag x"
    "acl_named st \<Longrightarrow> acl_mask st \<or> MD_ACL_MASK \<in> insert (acl_tag e) (acl_tag ` set es)"
proof -
  note r = assms [unfolded acl_rest_def strictly_ordered_def]
  show "entry_ok e" "\<And>k. acl_floor st = Some k \<Longrightarrow> k < entry_key e"
    "acl_required (acl_phase st) \<subseteq> insert (acl_tag e) (acl_tag ` set es)"
    "acl_named st \<Longrightarrow> acl_mask st \<or> MD_ACL_MASK \<in> insert (acl_tag e) (acl_tag ` set es)"
    using r by simp_all
  show "acl_tag e \<le> acl_tag x" if "x \<in> set es" for x
  proof -
    have "entry_key e < entry_key x" using r that by simp
    then show ?thesis by (auto simp: entry_key_def)
  qed
qed

lemma required_below:
  assumes "acl_rest st (e # es)" "t \<in> acl_required (acl_phase st)" "t < acl_tag e"
  shows False
  using acl_restD(3,4) [OF assms(1)] assms(2,3) by fastforce

lemma acl_rest_refused:
  assumes "acl_entry_step st e = None" "scan_inv st"
  shows "\<not> acl_rest st (e # es)"
proof
  assume r: "acl_rest st (e # es)"
  note ok = acl_restD(1) [OF r] and above = acl_restD(2) [OF r] and req = required_below [OF r]
  have phase: "acl_phase st \<in> {0, 1, 2, 3, 4, 5, 6}" using assms(2) by (auto simp: scan_inv_def)
  have no_mask: "\<not> acl_named st" if "acl_tag e = 32" "\<not> acl_mask st"
  proof
    assume "acl_named st"
    then have "MD_ACL_MASK \<in> insert (acl_tag e) (acl_tag ` set es)" using acl_restD(5) [OF r] that by blast
    then have "16 \<in> acl_tag ` set es" using that(1) by (simp add: acl_tags)
    then obtain x where "x \<in> set es" "acl_tag x = 16" by (metis imageE)
    with acl_restD(4) [OF r] that(1) show False by fastforce
  qed
  note defs = acl_entry_step_def acl_floor_def acl_required_def entry_key_less acl_tags Let_def
  from ok consider "acl_tag e = 1" | "acl_tag e = 2" | "acl_tag e = 4" | "acl_tag e = 8" | "acl_tag e = 16" | "acl_tag e = 32"
    by (auto simp: entry_ok_def)
  then show False
  proof cases
    case 1
    with assms(1) ok phase above show False by (auto simp: defs entry_ok_def not_less split: if_splits)
  next
    case 2
    with assms(1) ok phase above req [of 1] show False by (auto simp: defs entry_ok_def not_less split: if_splits)
  next
    case 3
    with assms(1) ok phase above req [of 1] show False by (auto simp: defs entry_ok_def not_less split: if_splits)
  next
    case 4
    with assms(1) ok phase above req [of 4] show False by (auto simp: defs entry_ok_def not_less split: if_splits)
  next
    case 5
    with assms(1) ok phase above req [of 4] show False by (auto simp: defs entry_ok_def not_less split: if_splits)
  next
    case 6
    with assms(1) ok phase above req [of 4] no_mask show False by (auto simp: defs entry_ok_def not_less split: if_splits)
  qed
qed

lemma acl_scan_rest: "scan_inv st \<Longrightarrow> acl_scan_entries st es \<longleftrightarrow> acl_rest st es"
proof (induction es arbitrary: st)
  case Nil
  then show ?case by (auto simp: acl_rest_def strictly_ordered_def acl_required_def scan_inv_def)
next
  case (Cons e es)
  then show ?case using acl_rest_step acl_rest_refused scan_inv_step by (auto split: option.splits)
qed

lemma acl_scan_wf: "acl_scan_entries acl_scan_start es \<longleftrightarrow> acl_wf es"
  by (simp add: acl_scan_rest scan_inv_start)
    (auto simp: acl_rest_def acl_wf_def acl_scan_start_def acl_floor_def acl_required_def acl_tags)

section \<open>Translation of a list\<close>

lemma strictly_ordered_iff:
  "strictly_ordered es \<longleftrightarrow> sorted (map entry_key es) \<and> distinct (map entry_key es)"
  by (simp add: strictly_ordered_def sorted_wrt_map [symmetric] flip: strict_sorted_iff)

lemma strictly_ordered_unique:
  assumes "strictly_ordered xs" "strictly_ordered ys" "set xs = set ys"
  shows "xs = ys"
proof (rule map_inj_on [of entry_key])
  show "map entry_key xs = map entry_key ys"
    using assms by (intro sorted_distinct_set_unique) (auto simp: strictly_ordered_iff)
  show "inj_on entry_key (set xs \<union> set ys)"
    using assms by (simp add: strictly_ordered_iff distinct_map)
qed

lemma sort_key_strict:
  assumes "inj_on entry_key (set es)" "distinct es"
  shows "strictly_ordered (sort_key entry_key es)"
  using assms by (simp add: strictly_ordered_iff distinct_map)

lemma map_entry_tag [simp]: "acl_tag (map_entry s v b e) = acl_tag e"
  and map_entry_perm [simp]: "acl_permissions (map_entry s v b e) = acl_permissions e"
  by (simp_all add: map_entry_def)

lemma map_entry_id: "acl_id (map_entry s v True e) =
   (if named_entry e then md_user_namespace_into s (id_ns v) (acl_tag e = MD_ACL_GROUP) (acl_id e) else acl_id e)"
  by (simp add: map_entry_def)

lemma map_entry_visible: "acl_id (map_entry s v False e) =
   (if named_entry e then md_identity_visible_id s v (acl_tag e = MD_ACL_GROUP) (acl_id e) else acl_id e)"
  by (simp add: map_entry_def)

lemma map_entry_back:
  assumes "ns_wf s (id_ns v)" "entry_ok e"
    and "named_entry e \<Longrightarrow> md_user_namespace_into s (id_ns v) (acl_tag e = MD_ACL_GROUP) (acl_id e) \<noteq> UINT32_MAX"
  shows "map_entry s v False (map_entry s v True e) = e"
proof (cases "named_entry e")
  case True
  let ?g = "acl_tag e = MD_ACL_GROUP" and ?y = "md_user_namespace_into s (id_ns v) (acl_tag e = MD_ACL_GROUP) (acl_id e)"
  have "acl_id e \<noteq> UINT32_MAX" using True assms(2) by (simp add: entry_ok_def)
  then have "md_user_namespace_from s (id_ns v) ?g ?y = acl_id e"
    using ids.mapped_iff [OF assms(1)] assms(3) True by blast
  with True \<open>acl_id e \<noteq> UINT32_MAX\<close> show ?thesis
    by (auto simp: map_entry_def md_identity_visible_id_def)
next
  case False
  then show ?thesis by (simp add: map_entry_def)
qed

text \<open>Mapping into the initial namespace loses nothing.\<close>

lemma acl_map_into:
  assumes wf: "acl_wf es" and ns: "ns_wf s (id_ns v)" "id_ns v \<noteq> []"
    and map: "md_acl_map s (Some v) True es = Inr es'"
  shows "acl_wf es'" "md_acl_map s (Some v) False es' = Inr es"
proof -
  let ?f = "map_entry s v True" and ?b = "map_entry s v False"
  from map ns(2) have es': "es' = sort_key entry_key (map ?f es)"
    and into: "\<And>e. e \<in> set es \<Longrightarrow> named_entry e \<Longrightarrow>
       md_user_namespace_into s (id_ns v) (acl_tag e = MD_ACL_GROUP) (acl_id e) \<noteq> UINT32_MAX"
    by (auto simp: md_acl_map_def split: if_splits)
  have ok: "\<And>e. e \<in> set es \<Longrightarrow> entry_ok e" using wf by (simp add: acl_wf_def)
  have undo: "\<And>e. e \<in> set es \<Longrightarrow> ?b (?f e) = e" using map_entry_back ns(1) ok into by blast
  then have inj: "inj_on ?f (set es)" by (metis inj_onI)
  have dist: "distinct es" and keys: "inj_on entry_key (set es)"
    using wf by (auto simp: acl_wf_def strictly_ordered_iff distinct_map)
  have ok': "entry_ok (?f e)" if "e \<in> set es" for e
    using ok [OF that] into [OF that] by (auto simp: entry_ok_def map_entry_id)
  have "e = d" if "e \<in> set es" "d \<in> set es" "entry_key (?f e) = entry_key (?f d)" for e d
  proof -
    have t: "acl_tag e = acl_tag d" "acl_id (?f e) = acl_id (?f d)" using that by (simp_all add: entry_key_def)
    have "acl_id (?b (?f e)) = acl_id (?b (?f d))" unfolding map_entry_visible map_entry_tag t ..
    then have "entry_key e = entry_key d" using t undo that by (simp add: entry_key_def)
    then show ?thesis using keys that by (auto dest: inj_onD)
  qed
  then have "inj_on entry_key (set (map ?f es))" by (auto simp: inj_on_def)
  then have "strictly_ordered es'" unfolding es' using dist inj by (intro sort_key_strict) (auto simp: distinct_map)
  then show "acl_wf es'" using wf ok' by (auto simp: acl_wf_def es' image_image)
  have img: "?b ` ?f ` set es = set es" using undo by force
  have "distinct (map ?b es')"
    using dist inj undo by (simp add: es' distinct_map inj_on_def)
  then have "strictly_ordered (sort_key entry_key (map ?b es'))"
    using keys img by (intro sort_key_strict) (simp_all add: es')
  moreover have "set (sort_key entry_key (map ?b es')) = set es" using img by (simp add: es')
  ultimately have "sort_key entry_key (map ?b es') = es"
    using strictly_ordered_unique wf by (auto simp: acl_wf_def)
  then show "md_acl_map s (Some v) False es' = Inr es" using ns(2) by (simp add: md_acl_map_def)
qed

section \<open>Access lists and mode bits\<close>

lemma scan_phase5: "acl_scan_entries st es \<Longrightarrow> acl_phase st \<ge> 5 \<Longrightarrow>
   es = [] \<or> (\<exists>ot. es = [ot] \<and> acl_tag ot = 32)"
proof (induction es arbitrary: st)
  case (Cons e es)
  then obtain st' where st: "acl_entry_step st e = Some st'" "acl_scan_entries st' es" by (auto split: option.splits)
  then have "acl_tag e = 32" "acl_phase st' = 6"
    using Cons.prems(2) by (auto simp: acl_entry_step_def acl_tags Let_def split: if_splits)
  moreover have "es = []"
  proof (cases es)
    case (Cons d ds)
    with st(2) \<open>acl_phase st' = 6\<close> show ?thesis
      by (auto simp: acl_entry_step_def Let_def split: option.splits if_splits)
  qed simp
  ultimately show ?case by simp
qed simp

lemma scan_phase3:
  "acl_scan_entries st es \<Longrightarrow> acl_phase st \<in> {3, 4} \<Longrightarrow>
   \<exists>gs ms ot. es = gs @ ms @ [ot] \<and> (\<forall>g \<in> set gs. acl_tag g = 8) \<and> (ms = [] \<or> (\<exists>m. ms = [m] \<and> acl_tag m = 16))
     \<and> acl_tag ot = 32"
proof (induction es arbitrary: st)
  case (Cons e es)
  then obtain st' where st: "acl_entry_step st e = Some st'" "acl_scan_entries st' es" by (auto split: option.splits)
  then consider "acl_tag e = 8" "acl_phase st' = 4" | "acl_tag e = 16" "acl_phase st' = 5" | "acl_tag e = 32" "acl_phase st' = 6"
    using Cons.prems(2) by (auto simp: acl_entry_step_def acl_tags Let_def split: if_splits)
  then show ?case
  proof cases
    case 1
    with Cons.IH [OF st(2)] obtain gs ms ot where "es = gs @ ms @ [ot]" "\<forall>g \<in> set gs. acl_tag g = 8"
      "ms = [] \<or> (\<exists>m. ms = [m] \<and> acl_tag m = 16)" "acl_tag ot = 32" by auto
    with 1 show ?thesis by (intro exI [of _ "e # gs"] exI [of _ ms] exI [of _ ot]) simp
  next
    case 2
    then obtain ot where "es = [ot]" "acl_tag ot = 32" using scan_phase5 [OF st(2)] st(2) by auto
    with 2 show ?thesis by (intro exI [of _ "[]"] exI [of _ "[e]"] exI [of _ ot]) simp
  next
    case 3
    then have "es = []" using st(2) by (cases es) (auto simp: acl_entry_step_def Let_def split: option.splits if_splits)
    with 3 show ?thesis by (intro exI [of _ "[]"] exI [of _ "[]"] exI [of _ e]) simp
  qed
qed simp

lemma scan_phase1:
  "acl_scan_entries st es \<Longrightarrow> acl_phase st \<in> {1, 2} \<Longrightarrow>
   \<exists>us g rest st'. es = us @ g # rest \<and> (\<forall>u \<in> set us. acl_tag u = 2) \<and> acl_tag g = 4
     \<and> acl_scan_entries st' rest \<and> acl_phase st' = 3"
proof (induction es arbitrary: st)
  case (Cons e es)
  then obtain st' where st: "acl_entry_step st e = Some st'" "acl_scan_entries st' es" by (auto split: option.splits)
  then consider "acl_tag e = 2" "acl_phase st' = 2" | "acl_tag e = 4" "acl_phase st' = 3"
    using Cons.prems(2) by (auto simp: acl_entry_step_def acl_tags Let_def split: if_splits)
  then show ?case
  proof cases
    case 1
    with Cons.IH [OF st(2)] obtain us g rest st2 where "es = us @ g # rest" "\<forall>u \<in> set us. acl_tag u = 2" "acl_tag g = 4"
      "acl_scan_entries st2 rest" "acl_phase st2 = 3" by auto
    with 1 show ?thesis by (intro exI [of _ "e # us"] exI [of _ g] exI [of _ rest] exI [of _ st2]) simp
  next
    case 2
    with st(2) show ?thesis by (intro exI [of _ "[]"] exI [of _ e] exI [of _ es] exI [of _ st']) simp
  qed
qed simp

lemma acl_wf_shape:
  assumes "acl_wf es"
  obtains u us g gs ms ot where "es = u # us @ g # gs @ ms @ [ot]" "acl_tag u = 1" "\<forall>x \<in> set us. acl_tag x = 2"
    "acl_tag g = 4" "\<forall>x \<in> set gs. acl_tag x = 8" "ms = [] \<or> (\<exists>m. ms = [m] \<and> acl_tag m = 16)" "acl_tag ot = 32"
proof -
  have scan: "acl_scan_entries acl_scan_start es" using assms by (simp add: acl_scan_wf)
  then obtain u es1 st where es: "es = u # es1" and st: "acl_entry_step acl_scan_start u = Some st" "acl_scan_entries st es1"
    by (cases es) (auto simp: acl_scan_start_def split: option.splits)
  have u: "acl_tag u = 1" "acl_phase st = 1"
    using st(1) by (auto simp: acl_entry_step_def acl_scan_start_def acl_tags Let_def split: if_splits)
  obtain us g rest st3 where es1: "es1 = us @ g # rest" "\<forall>x \<in> set us. acl_tag x = 2" "acl_tag g = 4"
    and st3: "acl_scan_entries st3 rest" "acl_phase st3 = 3" using scan_phase1 [OF st(2)] u(2) by auto
  obtain gs ms ot where rest: "rest = gs @ ms @ [ot]" "\<forall>x \<in> set gs. acl_tag x = 8"
    "ms = [] \<or> (\<exists>m. ms = [m] \<and> acl_tag m = 16)" "acl_tag ot = 32" using scan_phase3 [OF st3(1)] st3(2) by auto
  show thesis by (rule that [OF _ u(1) es1(2,3) rest(2,3,4)]) (simp add: es es1(1) rest(1))
qed

text \<open>Masks of low bits, bit by bit.\<close>

lemma bit_low_masks:
  "bit (7 :: u32) n \<longleftrightarrow> n < 3" "bit (7 :: u16) n \<longleftrightarrow> n < 3" "bit (0x1FF :: u32) n \<longleftrightarrow> n < 9"
  "bit (0x38 :: u32) n \<longleftrightarrow> 3 \<le> n \<and> n < 6"
proof -
  have e: "(7 :: u32) = mask 3" "(7 :: u16) = mask 3" "(0x1FF :: u32) = mask 9" "(0x38 :: u32) = push_bit 3 (mask 3)"
    by (simp_all add: mask_eq_exp_minus_1)
  show "bit (7 :: u32) n \<longleftrightarrow> n < 3" "bit (7 :: u16) n \<longleftrightarrow> n < 3" "bit (0x1FF :: u32) n \<longleftrightarrow> n < 9"
    unfolding e bit_mask_iff by (auto simp: possible_bit_word)
  show "bit (0x38 :: u32) n \<longleftrightarrow> 3 \<le> n \<and> n < 6"
    unfolding e bit_push_bit_iff bit_mask_iff by (auto simp: possible_bit_word)
qed

lemma perm_le_bits: "(p :: u16) \<le> 7 \<Longrightarrow> bit p n \<Longrightarrow> n < 3"
proof -
  assume "p \<le> 7" "bit p n"
  have "unat p < 2 ^ 3" using \<open>p \<le> 7\<close> by (simp add: word_le_nat_alt)
  then have "take_bit 3 p = p" by (simp add: unsigned_take_bit_eq word_unat_eq_iff take_bit_nat_eq_self)
  with \<open>bit p n\<close> show "n < 3" by (metis bit_take_bit_iff)
qed

lemma fold_mode_named:
  "\<forall>x \<in> set xs. acl_tag x = 2 \<or> acl_tag x = 8 \<Longrightarrow> fold acl_mode_step xs m = m"
  by (induction xs) (auto simp: acl_mode_step_def acl_tags)

text \<open>The mode of a list from its entries, and the entry that stands for the group class.\<close>

definition class_entry :: "acl_entry \<Rightarrow> acl_entry list \<Rightarrow> acl_entry" where
  "class_entry g ms = (case ms of [] \<Rightarrow> g | m # _ \<Rightarrow> m)"

lemma acl_mode_bits:
  assumes es: "es = u # us @ g # gs @ ms @ [ot]" "acl_tag u = 1" "\<forall>x \<in> set us. acl_tag x = 2"
    "acl_tag g = 4" "\<forall>x \<in> set gs. acl_tag x = 8" "ms = [] \<or> (\<exists>m. ms = [m] \<and> acl_tag m = 16)" "acl_tag ot = 32"
    and ok: "\<forall>e \<in> set es. acl_permissions e \<le> 7" and n: "n < 9"
  shows "bit (md_acl_mode es m) n \<longleftrightarrow>
    (if n < 3 then bit (acl_permissions ot) n
     else if n < 6 then bit (acl_permissions (class_entry g ms)) (n - 3) else bit (acl_permissions u) (n - 6))"
proof -
  have perm: "k \<ge> 3 \<Longrightarrow> \<not> bit (acl_permissions e) k" if "e \<in> set es" for e k
    using perm_le_bits ok that by (meson leD)
  have named: "fold acl_mode_step us = (\<lambda>m. m)" "fold acl_mode_step gs = (\<lambda>m. m)"
    using es by (auto intro!: fold_mode_named)
  note bits = bit_or_iff bit_and_iff bit_not_iff bit_push_bit_iff bit_unsigned_iff bit_low_masks possible_bit_word
  show ?thesis using es(6)
  proof
    assume ms: "ms = []"
    then have "md_acl_mode es m = (((m AND NOT 0x1FF) OR push_bit 6 (ucast (acl_permissions u)))
        OR push_bit 3 (ucast (acl_permissions g))) OR ucast (acl_permissions ot)"
      using es by (simp add: md_acl_mode_def named acl_mode_step_def acl_tags Let_def)
    then have "bit (md_acl_mode es m) n \<longleftrightarrow> 6 \<le> n \<and> bit (acl_permissions u) (n - 6)
        \<or> 3 \<le> n \<and> bit (acl_permissions g) (n - 3) \<or> bit (acl_permissions ot) n"
      using n by (simp only: bits) auto
    then show ?thesis using n perm [of g "n - 3"] perm [of ot n] es(1) ms
      by (simp add: class_entry_def)
  next
    assume "\<exists>m. ms = [m] \<and> acl_tag m = 16"
    then obtain k where k: "ms = [k]" "acl_tag k = 16" by blast
    then have "md_acl_mode es m = (((((m AND NOT 0x1FF) OR push_bit 6 (ucast (acl_permissions u)))
        OR push_bit 3 (ucast (acl_permissions g))) AND NOT 0x38) OR push_bit 3 (ucast (acl_permissions k)))
        OR ucast (acl_permissions ot)"
      using es by (simp add: md_acl_mode_def named acl_mode_step_def acl_tags Let_def)
    then have "bit (md_acl_mode es m) n \<longleftrightarrow> (6 \<le> n \<and> bit (acl_permissions u) (n - 6)
        \<or> 3 \<le> n \<and> bit (acl_permissions g) (n - 3)) \<and> \<not> (3 \<le> n \<and> n < 6)
        \<or> 3 \<le> n \<and> bit (acl_permissions k) (n - 3) \<or> bit (acl_permissions ot) n"
      using n by (simp only: bits) auto
    then show ?thesis using n perm [of g "n - 3"] perm [of k "n - 3"] perm [of ot n] es(1) k(1)
      by (simp add: class_entry_def)
  qed
qed

section \<open>Changing the mode\<close>

lemma chmod_entry_key [simp]:
  "acl_tag (chmod_entry b mode i e) = acl_tag e" "acl_id (chmod_entry b mode i e) = acl_id e"
  by (simp_all add: chmod_entry_def Let_def)

lemma low3_le: "(x :: u32) AND 7 = y \<Longrightarrow> ucast y \<le> (7 :: u16)"
proof -
  assume y: "x AND 7 = y"
  have "7 = (mask 3 :: u32)" by (simp add: mask_eq_exp_minus_1)
  then have "y = take_bit 3 x" using y by (simp add: take_bit_eq_mask)
  then have "unat y < 8" using take_bit_nat_less_exp [of 3 "unat x"] by (simp add: unsigned_take_bit_eq)
  then show ?thesis by (simp add: word_le_nat_alt unsigned_ucast_eq take_bit_nat_eq_self)
qed

lemma chmod_entry_perm: "acl_permissions e \<le> 7 \<Longrightarrow> acl_permissions (chmod_entry b mode i e) \<le> 7"
  using low3_le [OF refl] by (auto simp: chmod_entry_def Let_def intro: order_trans [OF word_and_le1])

lemma chmod_wf: "acl_wf es \<Longrightarrow> acl_wf (md_acl_chmod es mode i)"
  by (auto simp: acl_wf_def md_acl_chmod_def Let_def strictly_ordered_def sorted_wrt_map entry_key_def
      entry_ok_def image_image chmod_entry_perm)

lemma chmod_bits:
  assumes wf: "acl_wf es" and n: "n < 9"
  shows "bit (md_acl_mode (md_acl_chmod es mode False) m) n \<longleftrightarrow> bit mode n"
proof -
  from wf obtain u us g gs ms ot where es: "es = u # us @ g # gs @ ms @ [ot]" "acl_tag u = 1" "\<forall>x \<in> set us. acl_tag x = 2"
    "acl_tag g = 4" "\<forall>x \<in> set gs. acl_tag x = 8" "ms = [] \<or> (\<exists>m. ms = [m] \<and> acl_tag m = 16)" "acl_tag ot = 32"
    by (rule acl_wf_shape)
  define hm where "hm = (\<exists>e \<in> set es. acl_tag e = MD_ACL_MASK)"
  let ?c = "chmod_entry hm mode False"
  have hm: "hm \<longleftrightarrow> ms \<noteq> []" using es by (auto simp: hm_def acl_tags)
  have es': "md_acl_chmod es mode False = ?c u # map ?c us @ ?c g # map ?c gs @ map ?c ms @ [?c ot]"
    by (simp add: md_acl_chmod_def Let_def hm_def [symmetric]) (simp add: es(1))
  have ok: "\<forall>e \<in> set (md_acl_chmod es mode False). acl_permissions e \<le> 7"
    using chmod_wf [OF wf, of mode False] by (simp add: acl_wf_def entry_ok_def)
  have perms: "acl_permissions (?c u) = ucast (drop_bit 6 mode AND 7)" "acl_permissions (?c ot) = ucast (mode AND 7)"
    "acl_permissions (class_entry (?c g) (map ?c ms)) = ucast (drop_bit 3 mode AND 7)"
    using es hm by (auto simp: chmod_entry_def Let_def acl_tags class_entry_def)
  have "bit (md_acl_mode (md_acl_chmod es mode False) m) n \<longleftrightarrow>
    (if n < 3 then bit (acl_permissions (?c ot)) n
     else if n < 6 then bit (acl_permissions (class_entry (?c g) (map ?c ms))) (n - 3)
     else bit (acl_permissions (?c u)) (n - 6))"
    by (rule acl_mode_bits [OF es' _ _ _ _ _ _ ok n]) (use es in auto)
  also have "\<dots> \<longleftrightarrow> bit mode n"
    unfolding perms bit_and_iff bit_drop_bit_eq bit_unsigned_iff bit_low_masks possible_bit_word comp_apply
    using n by auto
  finally show ?thesis .
qed

section \<open>A list without named entries is the mode\<close>

lemma requested_bits:
  assumes "(req :: u32) AND NOT 7 = 0"
  shows "x AND req = req \<longleftrightarrow> (\<forall>n < 3. bit req n \<longrightarrow> bit x n)"
proof -
  have low: "bit req n \<Longrightarrow> n < 3" for n
  proof (rule ccontr)
    assume "bit req n" "\<not> n < 3"
    then have "bit (req AND NOT 7) n" using bit_imp_le_length [OF \<open>bit req n\<close>]
      unfolding bit_and_iff bit_not_iff bit_low_masks possible_bit_word by simp
    then show False using assms by simp
  qed
  have "x AND req = req \<longleftrightarrow> (\<forall>n. bit req n \<longrightarrow> bit x n)"
    using bit_imp_le_length [of req] by (auto simp: bit_eq_iff bit_and_iff)
  then show ?thesis using low by blast
qed

lemma acl_wf_minimal:
  assumes "acl_wf es" "MD_ACL_MASK \<notin> acl_tag ` set es"
  obtains u g ot where "es = [u, g, ot]" "acl_tag u = 1" "acl_tag g = 4" "acl_tag ot = 32"
proof -
  from assms(1) obtain u us g gs ms ot where es: "es = u # us @ g # gs @ ms @ [ot]" "acl_tag u = 1" "\<forall>x \<in> set us. acl_tag x = 2"
    "acl_tag g = 4" "\<forall>x \<in> set gs. acl_tag x = 8" "ms = [] \<or> (\<exists>m. ms = [m] \<and> acl_tag m = 16)" "acl_tag ot = 32"
    by (rule acl_wf_shape)
  have no: "\<forall>e \<in> set es. \<not> named_entry e" using assms by (auto simp: acl_wf_def)
  have "us = []" using no es(1,3) by (cases us) (simp_all add: acl_tags)
  moreover have "gs = []" using no es(1,5) by (cases gs) (simp_all add: acl_tags)
  moreover have "ms = []" using assms(2) es(1,6) by (auto simp: acl_tags)
  ultimately show thesis using that es by simp
qed

lemma acl_minimal_mode:
  assumes wf: "acl_wf es" "MD_ACL_MASK \<notin> acl_tag ` set es" and req: "req AND NOT 7 = 0"
    and st: "st_mode st = md_acl_mode es m" "st_uid st = own" "st_gid st = grp"
  shows "md_acl_permission es v own grp req = Inr () \<longleftrightarrow> md_file_mode_allows st req v"
proof -
  from wf obtain u g ot where es: "es = [u, g, ot]" "acl_tag u = 1" "acl_tag g = 4" "acl_tag ot = 32"
    by (rule acl_wf_minimal)
  have ok: "\<forall>e \<in> set es. acl_permissions e \<le> 7" using wf(1) by (simp add: acl_wf_def entry_ok_def)
  have bits: "n < 9 \<Longrightarrow> bit (st_mode st) n \<longleftrightarrow> (if n < 3 then bit (acl_permissions ot) n
     else if n < 6 then bit (acl_permissions g) (n - 3) else bit (acl_permissions u) (n - 6))" for n
    using acl_mode_bits [of es u "[]" g "[]" "[]" ot n m] es ok st(1) by (simp add: class_entry_def)
  have perm: "ucast (acl_permissions e) AND req = req \<longleftrightarrow> (\<forall>n < 3. bit req n \<longrightarrow> bit (acl_permissions e) n)" for e
    unfolding requested_bits [OF req] by (auto simp: bit_unsigned_iff possible_bit_word)
  have mask: "acl_mask_of es = 7" using es by (simp add: acl_mask_of_def acl_tags)
  have perm7: "ucast (acl_permissions e) AND 7 AND req = req \<longleftrightarrow> (\<forall>n < 3. bit req n \<longrightarrow> bit (acl_permissions e) n)" for e
  proof -
    have "ucast (acl_permissions e) AND 7 AND req = req \<longleftrightarrow> (ucast (acl_permissions e) AND 7) AND req = req" by (simp add: and.assoc)
    also have "\<dots> \<longleftrightarrow> (\<forall>n < 3. bit req n \<longrightarrow> bit (acl_permissions e) n)"
      unfolding requested_bits [OF req] bit_and_iff bit_low_masks bit_unsigned_iff possible_bit_word by auto
    finally show ?thesis .
  qed
  have mode: "drop_bit k (st_mode st) AND req = req \<longleftrightarrow> (\<forall>n < 3. bit req n \<longrightarrow> bit (st_mode st) (k + n))" for k
    unfolding requested_bits [OF req] bit_drop_bit_eq comp_apply ..
  have shift: "(\<forall>n < 3. bit req n \<longrightarrow> bit (st_mode st) (6 + n)) \<longleftrightarrow> (\<forall>n < 3. bit req n \<longrightarrow> bit (acl_permissions u) n)"
    "(\<forall>n < 3. bit req n \<longrightarrow> bit (st_mode st) (3 + n)) \<longleftrightarrow> (\<forall>n < 3. bit req n \<longrightarrow> bit (acl_permissions g) n)"
    "(\<forall>n < 3. bit req n \<longrightarrow> bit (st_mode st) (0 + n)) \<longleftrightarrow> (\<forall>n < 3. bit req n \<longrightarrow> bit (acl_permissions ot) n)"
    by (auto simp: bits)
  show ?thesis
    unfolding md_acl_permission_def md_file_mode_allows_def Let_def mode mask
    using es st(2,3) shift by (auto simp: acl_tags perm perm7 Let_def)
qed

section \<open>Properties\<close>

text \<open>
  C37: Validation of an access control list is exact. The one-pass scan accepts the bytes of a
  list if and only if its version is 2, it fits the size limit, and it is empty or its entries
  are strictly ordered by tag and identifier, carry only the known tags, permissions of three
  bits and an identifier exactly where one is named, contain an entry for the owner, the owning
  group and the others, and contain a mask if anything is named.
\<close>

theorem acl_validation_exact:
  "md_acl_valid (Some a) (4 + 8 * length (acl_entries a)) \<longleftrightarrow>
     acl_version a = 2 \<and> length (acl_entries a) \<le> 8191 \<and> (acl_entries a = [] \<or> acl_wf (acl_entries a))"
  by (cases "acl_entries a = []")
    (auto simp: md_acl_valid_def acl_count_def MD_ACL_MAX_def acl_scan_wf acl_wf_def)

definition demo_acl :: "acl_entry list" where
  "demo_acl = [\<lparr>acl_tag = 1, acl_permissions = 7, acl_id = UINT32_MAX\<rparr>,
     \<lparr>acl_tag = 2, acl_permissions = 6, acl_id = 0\<rparr>, \<lparr>acl_tag = 4, acl_permissions = 5, acl_id = UINT32_MAX\<rparr>,
     \<lparr>acl_tag = 16, acl_permissions = 7, acl_id = UINT32_MAX\<rparr>, \<lparr>acl_tag = 32, acl_permissions = 0, acl_id = UINT32_MAX\<rparr>]"

definition demo_minimal :: "acl_entry list" where
  "demo_minimal = [\<lparr>acl_tag = 1, acl_permissions = 6, acl_id = UINT32_MAX\<rparr>,
     \<lparr>acl_tag = 4, acl_permissions = 4, acl_id = UINT32_MAX\<rparr>, \<lparr>acl_tag = 32, acl_permissions = 0, acl_id = UINT32_MAX\<rparr>]"

lemma demo_acl_wf: "acl_wf demo_acl" "acl_wf demo_minimal"
  by (simp_all add: acl_scan_wf [symmetric] demo_acl_def demo_minimal_def acl_scan_start_def acl_entry_step_def
      acl_tags UINT32_MAX_def Let_def)

definition demo_inside :: identity where
  "demo_inside = (md_identity_new 1000 1000)\<lparr>id_ns := [7]\<rparr>"

text \<open>
  C38: An access control list survives the user namespace. If a valid list given by a task maps
  into canonical identifiers, the stored list is valid again, in spite of map extents that
  reverse the numeric order, and reading it back in the same namespace returns the original list.
\<close>

theorem acl_map_roundtrip:
  assumes "acl_wf es" "ns_wf s (id_ns v)" "id_ns v \<noteq> []" "md_acl_map s (Some v) True es = Inr es'"
  shows "acl_wf es' \<and> md_acl_map s (Some v) False es' = Inr es"
  using acl_map_into [OF assms] by simp

theorem acl_map_roundtrip_witness:
  "\<exists>es'. md_acl_map demo_mapped (Some demo_inside) True demo_acl = Inr es' \<and> acl_wf es'
     \<and> md_acl_map demo_mapped (Some demo_inside) False es' = Inr demo_acl"
proof -
  have "id_ns demo_inside = [7]" by (simp add: demo_inside_def)
  moreover have "md_user_namespace_into demo_mapped [7] False 0 = 1000"
    by (simp add: demo_defs translate_def translate_ranges.simps UINT32_MAX_def)
  ultimately have "\<exists>es'. md_acl_map demo_mapped (Some demo_inside) True demo_acl = Inr es'"
    by (simp add: md_acl_map_def demo_acl_def acl_tags UINT32_MAX_def del: md_user_namespace_into.simps)
  then show ?thesis
    using acl_map_roundtrip [OF demo_acl_wf(1), of demo_mapped demo_inside] demo_mapped_wf
    by (auto simp: demo_inside_def simp del: ns_wf.simps)
qed

text \<open>
  \<open>chmod\<close> and the mode of a list agree. Setting the permission bits of a valid list keeps it
  valid, and the mode computed from the result carries exactly the nine bits that were set,
  the group bits through the mask if there is one.
\<close>

lemma acl_chmod_roundtrip:
  assumes "acl_wf es"
  shows "acl_wf (md_acl_chmod es mode inherit)
    \<and> md_acl_mode (md_acl_chmod es mode False) m AND 0x1FF = mode AND 0x1FF"
proof -
  have "md_acl_mode (md_acl_chmod es mode False) m AND 0x1FF = mode AND 0x1FF"
    by (rule bit_word_eqI) (unfold bit_and_iff bit_low_masks, use chmod_bits [OF assms] in blast)
  then show ?thesis using chmod_wf [OF assms] by simp
qed

lemma acl_chmod_roundtrip_witness:
  "md_acl_mode (md_acl_chmod demo_acl 0x81ED False) 0x8000 AND 0x1FF = 0x1ED"
  using acl_chmod_roundtrip [OF demo_acl_wf(1), of "0x81ED" False "0x8000"] by simp

text \<open>
  A list without a mask decides exactly like the mode bits. For every identity and every
  request of read, write and execute, walking the list and testing the class bits of the mode
  computed from it give the same answer.
\<close>

theorem acl_minimal_is_mode:
  assumes "acl_wf es" "MD_ACL_MASK \<notin> acl_tag ` set es" "req AND NOT 7 = 0"
  shows "md_acl_permission es v own grp req = Inr () \<longleftrightarrow>
    md_file_mode_allows \<lparr>st_mode = md_acl_mode es m, st_uid = own, st_gid = grp\<rparr> req v"
  using acl_minimal_mode [OF assms, of "\<lparr>st_mode = md_acl_mode es m, st_uid = own, st_gid = grp\<rparr>" m own grp v] by simp

theorem acl_minimal_is_mode_witness:
  "md_acl_permission demo_minimal demo_dropped 1000 0 6 = Inr ()
   \<and> md_file_mode_allows \<lparr>st_mode = md_acl_mode demo_minimal 0x8000, st_uid = 1000, st_gid = 0\<rparr> 6 demo_dropped"
proof -
  have mask: "MD_ACL_MASK \<notin> acl_tag ` set demo_minimal" and req: "(6 :: u32) AND NOT 7 = 0"
    by (simp_all add: demo_minimal_def acl_tags)
  have "md_acl_permission demo_minimal demo_dropped 1000 0 6 = Inr ()"
    by (simp add: md_acl_permission_def demo_minimal_def demo_dropped_def demo_root_def same_ids_def acl_tags Let_def)
  then show ?thesis using acl_minimal_is_mode [OF demo_acl_wf(2) mask req, of demo_dropped 1000 0 "0x8000"] by simp
qed

end
