(* ===== verification/Landlock.thy ===== *)
theory Landlock
  imports Guest_Identity
begin

unbundle bit_operations_syntax

text \<open>
  Landlock policies, \<^verbatim>\<open>src/native/shroot/src/landlock_policy.c\<close>, the accesses a file-system
  request needs (\<^verbatim>\<open>fs_landlock.c\<close>) and the matching of rules against inodes
  (\<^verbatim>\<open>inode_landlock.c\<close>). Rulesets and policies are values: a policy copies the rules it is
  made of, so the counts of their owners and of the pinned descriptors are not modelled. The
  ancestry query on the inode store is a parameter.
\<close>

section \<open>Accesses\<close>

definition MD_LANDLOCK_LAYERS :: nat where "MD_LANDLOCK_LAYERS = 16"

definition MD_LL_EXECUTE :: u64 where "MD_LL_EXECUTE = push_bit 0 1"
definition MD_LL_WRITE_FILE :: u64 where "MD_LL_WRITE_FILE = push_bit 1 1"
definition MD_LL_READ_FILE :: u64 where "MD_LL_READ_FILE = push_bit 2 1"
definition MD_LL_READ_DIR :: u64 where "MD_LL_READ_DIR = push_bit 3 1"
definition MD_LL_REMOVE_DIR :: u64 where "MD_LL_REMOVE_DIR = push_bit 4 1"
definition MD_LL_REMOVE_FILE :: u64 where "MD_LL_REMOVE_FILE = push_bit 5 1"
definition MD_LL_MAKE_CHAR :: u64 where "MD_LL_MAKE_CHAR = push_bit 6 1"
definition MD_LL_MAKE_DIR :: u64 where "MD_LL_MAKE_DIR = push_bit 7 1"
definition MD_LL_MAKE_REG :: u64 where "MD_LL_MAKE_REG = push_bit 8 1"
definition MD_LL_MAKE_SOCK :: u64 where "MD_LL_MAKE_SOCK = push_bit 9 1"
definition MD_LL_MAKE_FIFO :: u64 where "MD_LL_MAKE_FIFO = push_bit 10 1"
definition MD_LL_MAKE_BLOCK :: u64 where "MD_LL_MAKE_BLOCK = push_bit 11 1"
definition MD_LL_MAKE_SYM :: u64 where "MD_LL_MAKE_SYM = push_bit 12 1"
definition MD_LL_ALL :: u64 where "MD_LL_ALL = push_bit 13 1 - 1"

definition O_PATH :: u32 where "O_PATH = 0x200000"
definition O_CREAT :: u32 where "O_CREAT = 0x40"
definition O_ACCMODE :: u32 where "O_ACCMODE = 3"
definition O_WRONLY :: u32 where "O_WRONLY = 1"
definition O_RDONLY :: u32 where "O_RDONLY = 0"
definition AT_REMOVEDIR :: u32 where "AT_REMOVEDIR = 0x200"

definition S_IFLNK :: u32 where "S_IFLNK = 0xA000"
definition S_IFSOCK :: u32 where "S_IFSOCK = 0xC000"
definition S_IFIFO :: u32 where "S_IFIFO = 0x1000"
definition S_IFCHR :: u32 where "S_IFCHR = 0x2000"
definition S_IFBLK :: u32 where "S_IFBLK = 0x6000"

definition md_landlock_open_access :: "u32 \<Rightarrow> u32 \<Rightarrow> u64" where
  "md_landlock_open_access flags kind =
     (if flags AND O_PATH \<noteq> 0 then 0
      else if S_ISDIR kind then MD_LL_READ_DIR
      else (if flags AND O_ACCMODE \<noteq> O_WRONLY then MD_LL_READ_FILE else 0)
        OR (if flags AND O_ACCMODE \<noteq> O_RDONLY then MD_LL_WRITE_FILE else 0))"

definition md_landlock_make_access :: "u32 \<Rightarrow> u64" where
  "md_landlock_make_access kind =
     (let k = kind AND S_IFMT in
      if k = S_IFREG then MD_LL_MAKE_REG
      else if k = S_IFDIR then MD_LL_MAKE_DIR
      else if k = S_IFLNK then MD_LL_MAKE_SYM
      else if k = S_IFSOCK then MD_LL_MAKE_SOCK
      else if k = S_IFIFO then MD_LL_MAKE_FIFO
      else if k = S_IFCHR then MD_LL_MAKE_CHAR
      else if k = S_IFBLK then MD_LL_MAKE_BLOCK
      else 0)"

datatype fs_operation = FS_OPEN_IMAGE | FS_OPEN_OBJECT | FS_REOPEN | FS_OPEN | FS_CREATE | FS_MKDIR
  | FS_MKNOD | FS_SYMLINK | FS_SOCKET_BIND | FS_UNLINK | FS_OTHER

record fs_request =
  fs_op :: fs_operation
  fs_mode :: u32
  fs_flags :: u32

definition MD_FS_OBJECT_EXECUTE :: u32 where "MD_FS_OBJECT_EXECUTE = 1"
definition MD_FS_REOPEN_EXECUTE :: u32 where "MD_FS_REOPEN_EXECUTE = 4"

definition requested :: "fs_request \<Rightarrow> u32 \<Rightarrow> bool \<Rightarrow> u64" where
  "requested q kind present =
     (case fs_op q of
        FS_OPEN_IMAGE \<Rightarrow> MD_LL_EXECUTE
      | FS_OPEN_OBJECT \<Rightarrow> if fs_mode q AND MD_FS_OBJECT_EXECUTE \<noteq> 0 then MD_LL_EXECUTE
                         else md_landlock_open_access (fs_flags q) kind
      | FS_REOPEN \<Rightarrow> if fs_mode q AND MD_FS_REOPEN_EXECUTE \<noteq> 0 then MD_LL_EXECUTE
                     else md_landlock_open_access (fs_flags q) kind
      | FS_OPEN \<Rightarrow> md_landlock_open_access (fs_flags q) kind
                   OR (if \<not> present \<and> fs_flags q AND O_CREAT \<noteq> 0 \<and> fs_flags q AND O_PATH = 0
                       then MD_LL_MAKE_REG else 0)
      | FS_CREATE \<Rightarrow> MD_LL_MAKE_REG OR MD_LL_READ_FILE OR MD_LL_WRITE_FILE
      | FS_MKDIR \<Rightarrow> MD_LL_MAKE_DIR
      | FS_MKNOD \<Rightarrow> md_landlock_make_access (fs_mode q)
      | FS_SYMLINK \<Rightarrow> MD_LL_MAKE_SYM
      | FS_SOCKET_BIND \<Rightarrow> MD_LL_MAKE_SOCK
      | FS_UNLINK \<Rightarrow> if fs_flags q AND AT_REMOVEDIR \<noteq> 0 then MD_LL_REMOVE_DIR else MD_LL_REMOVE_FILE
      | FS_OTHER \<Rightarrow> 0)"

section \<open>Rulesets and policies\<close>

text \<open>The identity of an inode store: device, inode and scope of its root.\<close>

record inode_lifetime =
  lifetime_device :: u64
  lifetime_inode :: u64
  lifetime_scope :: string

definition md_inode_lifetime_same :: "inode_lifetime option \<Rightarrow> inode_lifetime option \<Rightarrow> bool" where
  "md_inode_lifetime_same a b =
     (case (a, b) of
        (None, None) \<Rightarrow> True
      | (Some x, Some y) \<Rightarrow> lifetime_device x = lifetime_device y \<and> lifetime_inode x = lifetime_inode y
           \<and> lifetime_scope x = lifetime_scope y
      | _ \<Rightarrow> False)"

record landlock_key =
  key_store :: "inode_lifetime option"
  key_object :: string

record landlock_rule =
  rule_key :: landlock_key
  rule_allowed :: u64
  rule_pin :: "int option"

record landlock_ruleset =
  ruleset_handled :: u64
  ruleset_rules :: "landlock_rule list"

record landlock_layer =
  layer_depth :: nat
  layer_rules :: landlock_ruleset

text \<open>A policy is the chain of its layers, the latest first; no policy is the empty chain.\<close>

type_synonym landlock_policy = "landlock_layer list"

definition md_landlock_ruleset_new :: "bool \<Rightarrow> u64 \<Rightarrow> landlock_ruleset result" where
  "md_landlock_ruleset_new alloc handled =
     (if handled = 0 then Inl ENOMSG
      else if handled AND NOT MD_LL_ALL \<noteq> 0 then Inl EINVAL
      else if \<not> alloc then Inl ENOMEM
      else Inr \<lparr>ruleset_handled = handled, ruleset_rules = []\<rparr>)"

definition same_key :: "landlock_key \<Rightarrow> landlock_key \<Rightarrow> bool" where
  "same_key a b \<longleftrightarrow> md_inode_lifetime_same (key_store a) (key_store b) \<and> key_object a = key_object b"

text \<open>The first rule with the key gets the accesses, if there is one.\<close>

fun rule_merge :: "landlock_key \<Rightarrow> u64 \<Rightarrow> landlock_rule list \<Rightarrow> landlock_rule list option" where
  "rule_merge key allowed [] = None"
| "rule_merge key allowed (r # rs) =
     (if same_key (rule_key r) key then Some (r\<lparr>rule_allowed := rule_allowed r OR allowed\<rparr> # rs)
      else map_option (Cons r) (rule_merge key allowed rs))"

definition RULES_MAX :: nat where "RULES_MAX = (2 ^ 64 - 1) div 64 - 1"

text \<open>
  \<open>pin\<close>: the duplicate of the native descriptor, if one is given; \<open>pin_alloc\<close> and \<open>grow\<close>:
  whether memory is left for the pin and for one more rule.
\<close>

definition md_landlock_rule_add ::
  "landlock_ruleset \<Rightarrow> landlock_key \<Rightarrow> u64 \<Rightarrow> int result option \<Rightarrow> bool \<Rightarrow> bool \<Rightarrow> landlock_ruleset result" where
  "md_landlock_rule_add r key allowed pin pin_alloc grow =
     (if allowed = 0 then Inl ENOMSG
      else if allowed AND NOT (ruleset_handled r) \<noteq> 0 then Inl EINVAL
      else case rule_merge key allowed (ruleset_rules r) of
        Some rs \<Rightarrow> Inr (r\<lparr>ruleset_rules := rs\<rparr>)
      | None \<Rightarrow>
          let append = (\<lambda>fd. if \<not> grow then Inl ENOMEM
                else Inr (r\<lparr>ruleset_rules := ruleset_rules r
                  @ [\<lparr>rule_key = key, rule_allowed = allowed, rule_pin = fd\<rparr>]\<rparr>))
          in if length (ruleset_rules r) \<ge> RULES_MAX then Inl ENOMEM
             else case pin of
                    None \<Rightarrow> append None
                  | Some dup \<Rightarrow>
                      if \<not> pin_alloc then Inl ENOMEM
                      else (case dup of Inl e \<Rightarrow> Inl e | Inr fd \<Rightarrow> append (Some fd)))"

definition md_landlock_restrict ::
  "bool \<Rightarrow> landlock_policy \<Rightarrow> landlock_ruleset \<Rightarrow> landlock_policy result" where
  "md_landlock_restrict alloc p r =
     (if p \<noteq> [] \<and> layer_depth (hd p) \<ge> MD_LANDLOCK_LAYERS then Inl E2BIG
      else if \<not> alloc then Inl ENOMEM
      else Inr (\<lparr>layer_depth = if p \<noteq> [] then layer_depth (hd p) + 1 else 1, layer_rules = r\<rparr> # p))"

section \<open>Checks\<close>

text \<open>
  \<open>matches\<close> answers whether the rule of a key applies to the object, or an error of the lookup.
\<close>

fun check_rules ::
  "(landlock_key \<Rightarrow> bool result) \<Rightarrow> landlock_rule list \<Rightarrow> u64 \<Rightarrow> u64 result" where
  "check_rules matches [] missing = Inr missing"
| "check_rules matches (r # rs) missing =
     (if missing = 0 then Inr missing
      else if missing AND rule_allowed r = 0 then check_rules matches rs missing
      else case matches (rule_key r) of
             Inl e \<Rightarrow> Inl e
           | Inr m \<Rightarrow> check_rules matches rs (if m then missing AND NOT (rule_allowed r) else missing))"

fun md_landlock_check ::
  "landlock_policy \<Rightarrow> u64 \<Rightarrow> (landlock_key \<Rightarrow> bool result) \<Rightarrow> unit result" where
  "md_landlock_check [] access matches = Inr ()"
| "md_landlock_check (l # p) access matches =
     (case check_rules matches (ruleset_rules (layer_rules l)) (access AND ruleset_handled (layer_rules l)) of
        Inl e \<Rightarrow> Inl e
      | Inr missing \<Rightarrow> if missing \<noteq> 0 then Inl EACCES else md_landlock_check p access matches)"

record inode_node =
  node_id :: string
  node_kind :: u32

text \<open>
  \<open>ancestor\<close>: the query whether an object is an ancestor of a directory, an answer of the
  inode store.
\<close>

definition landlock_matches ::
  "(string \<Rightarrow> string \<Rightarrow> bool result) \<Rightarrow> inode_lifetime option \<Rightarrow> inode_node option \<Rightarrow> inode_node option
     \<Rightarrow> landlock_key \<Rightarrow> bool result" where
  "landlock_matches ancestor lifetime node par key =
     (if \<not> md_inode_lifetime_same (key_store key) lifetime then Inr False
      else if (case node of Some n \<Rightarrow> key_object key = node_id n | None \<Rightarrow> False) then Inr True
      else
        let dir = (case node of Some n \<Rightarrow> if node_kind n = S_IFDIR then Some n else par | None \<Rightarrow> par)
        in case dir of Some d \<Rightarrow> ancestor (key_object key) (node_id d) | None \<Rightarrow> Inr False)"

definition mdi_landlock ::
  "(string \<Rightarrow> string \<Rightarrow> bool result) \<Rightarrow> landlock_policy \<Rightarrow> inode_lifetime option
     \<Rightarrow> inode_node option \<Rightarrow> inode_node option \<Rightarrow> u64 \<Rightarrow> unit result" where
  "mdi_landlock ancestor p lifetime node par access =
     (if p = [] \<or> access = 0 then Inr ()
      else md_landlock_check p access (landlock_matches ancestor lifetime node par))"

section \<open>What a policy grants\<close>

definition grants :: "(landlock_key \<Rightarrow> bool result) \<Rightarrow> landlock_rule list \<Rightarrow> nat \<Rightarrow> bool" where
  "grants matches rs n \<longleftrightarrow> (\<exists>r \<in> set rs. matches (rule_key r) = Inr True \<and> bit (rule_allowed r) n)"

lemma check_rules_sound:
  "check_rules matches rs missing = Inr rest \<Longrightarrow> bit missing n \<Longrightarrow> bit rest n \<or> grants matches rs n"
proof (induction rs arbitrary: missing)
  case (Cons r rs)
  show ?case
  proof (cases "missing AND rule_allowed r = 0 \<or> missing = 0")
    case True
    with Cons show ?thesis by (auto simp: grants_def split: if_splits)
  next
    case False
    with Cons.prems obtain m where m: "matches (rule_key r) = Inr m"
      "check_rules matches rs (if m then missing AND NOT (rule_allowed r) else missing) = Inr rest"
      by (auto split: sum.splits)
    show ?thesis
    proof (cases "m \<and> bit (rule_allowed r) n")
      case True
      with m(1) show ?thesis by (auto simp: grants_def)
    next
      case False
      then have "bit (if m then missing AND NOT (rule_allowed r) else missing) n"
        using Cons.prems(2) bit_imp_le_length [OF Cons.prems(2)]
        by (auto simp: bit_and_iff bit_not_iff possible_bit_word)
      from Cons.IH [OF m(2) this] show ?thesis by (auto simp: grants_def)
    qed
  qed
qed simp

lemma check_rules_complete:
  assumes "check_rules matches rs missing = Inr rest" "bit rest n"
  shows "bit missing n \<and> \<not> grants matches rs n"
  using assms
proof (induction rs arbitrary: missing)
  case (Cons r rs)
  show ?case
  proof (cases "missing = 0")
    case False
    show ?thesis
    proof (cases "missing AND rule_allowed r = 0")
      case True
      with Cons \<open>missing \<noteq> 0\<close> have IH: "bit missing n" "\<not> grants matches rs n" by auto
      moreover have "\<not> bit (rule_allowed r) n" using IH(1) True word64_zero_iff [of "missing AND rule_allowed r"]
        by (auto simp: bit_and_iff)
      ultimately show ?thesis by (auto simp: grants_def)
    next
      case nz: False
      with Cons.prems False obtain m where m: "matches (rule_key r) = Inr m"
        "check_rules matches rs (if m then missing AND NOT (rule_allowed r) else missing) = Inr rest"
        by (auto split: sum.splits)
      from Cons.IH [OF m(2) Cons.prems(2)] m(1) show ?thesis
        by (cases m) (auto simp: grants_def bit_and_iff bit_not_iff)
    qed
  qed (use Cons.prems in simp)
qed (simp add: grants_def)

lemma check_rules_total:
  "(\<And>r. r \<in> set rs \<Longrightarrow> \<exists>b. matches (rule_key r) = Inr b) \<Longrightarrow> \<exists>rest. check_rules matches rs missing = Inr rest"
proof (induction rs arbitrary: missing)
  case (Cons r rs)
  then obtain b where "matches (rule_key r) = Inr b" by auto
  with Cons show ?case by auto
qed simp

definition layer_grants :: "(landlock_key \<Rightarrow> bool result) \<Rightarrow> u64 \<Rightarrow> landlock_layer \<Rightarrow> bool" where
  "layer_grants matches access l \<longleftrightarrow>
     (\<forall>n. bit access n \<and> bit (ruleset_handled (layer_rules l)) n \<longrightarrow> grants matches (ruleset_rules (layer_rules l)) n)"

lemma check_layer:
  assumes "check_rules matches (ruleset_rules (layer_rules l)) (access AND ruleset_handled (layer_rules l)) = Inr rest"
  shows "rest = 0 \<longleftrightarrow> layer_grants matches access l"
  using check_rules_sound [OF assms] check_rules_complete [OF assms]
  by (auto simp: layer_grants_def word64_zero_iff bit_and_iff)

lemma landlock_check_sound:
  "md_landlock_check p access matches = Inr () \<Longrightarrow> l \<in> set p \<Longrightarrow> layer_grants matches access l"
  by (induction p) (auto simp: check_layer [symmetric] split: sum.splits if_splits)

lemma landlock_check_complete:
  "(\<And>k. \<exists>b. matches k = Inr b) \<Longrightarrow> (\<And>l. l \<in> set p \<Longrightarrow> layer_grants matches access l) \<Longrightarrow>
   md_landlock_check p access matches = Inr ()"
proof (induction p)
  case (Cons l p)
  obtain rest where rest: "check_rules matches (ruleset_rules (layer_rules l)) (access AND ruleset_handled (layer_rules l)) = Inr rest"
    using check_rules_total [of "ruleset_rules (layer_rules l)" matches] Cons.prems(1) by blast
  have "layer_grants matches access l" using Cons.prems(2) by simp
  then have "rest = 0" using check_layer [OF rest] by simp
  with rest Cons show ?case by simp
qed simp

text \<open>Adding a rule grants exactly its accesses on top of the old ones.\<close>

lemma rule_merge_grants:
  assumes "rule_merge key allowed rs = Some rs'" "\<And>k. same_key k key \<Longrightarrow> matches k = matches key"
  shows "grants matches rs' n \<longleftrightarrow> grants matches rs n \<or> matches key = Inr True \<and> bit allowed n"
  using assms(1)
proof (induction rs arbitrary: rs')
  case (Cons r rs)
  then show ?case using assms(2) by (fastforce simp: grants_def bit_or_iff split: if_splits)
qed simp

text \<open>Depth counts the layers, and never exceeds the limit.\<close>

definition policy_wf :: "landlock_policy \<Rightarrow> bool" where
  "policy_wf p \<longleftrightarrow> map layer_depth p = rev [1..<length p + 1] \<and> length p \<le> MD_LANDLOCK_LAYERS"

lemma restrict_wf:
  assumes "policy_wf p" "md_landlock_restrict alloc p r = Inr p'"
  shows "policy_wf p'"
proof -
  have d: "p \<noteq> [] \<Longrightarrow> layer_depth (hd p) = length p"
    using assms(1) by (cases p) (auto simp: policy_wf_def)
  then show ?thesis using assms
    by (cases "p = []") (auto simp: md_landlock_restrict_def policy_wf_def MD_LANDLOCK_LAYERS_def split: if_splits)
qed

section \<open>Properties\<close>

definition demo_key :: landlock_key where
  "demo_key = \<lparr>key_store = None, key_object = ''a''\<rparr>"

definition demo_rules :: landlock_ruleset where
  "demo_rules = \<lparr>ruleset_handled = MD_LL_READ_FILE,
     ruleset_rules = [\<lparr>rule_key = demo_key, rule_allowed = MD_LL_READ_FILE, rule_pin = None\<rparr>]\<rparr>"

definition demo_policy :: landlock_policy where
  "demo_policy = [\<lparr>layer_depth = 1, layer_rules = demo_rules\<rparr>]"

definition demo_matches :: "string \<Rightarrow> landlock_key \<Rightarrow> bool result" where
  "demo_matches name k = Inr (key_object k = name)"

text \<open>
  C39: A Landlock check is exact. If it succeeds, then in every layer each requested access that
  the layer handles is allowed by some rule that matches the object, even when lookups of other
  rules fail; and if no lookup fails and every layer grants the access in this sense, the check
  succeeds.
\<close>

theorem landlock_check_exact:
  "(md_landlock_check p access matches = Inr () \<longrightarrow> (\<forall>l \<in> set p. layer_grants matches access l))
   \<and> ((\<forall>k. \<exists>b. matches k = Inr b) \<longrightarrow>
       (md_landlock_check p access matches = Inr () \<longleftrightarrow> (\<forall>l \<in> set p. layer_grants matches access l)))"
  using landlock_check_sound landlock_check_complete by blast

theorem landlock_check_exact_witness:
  "md_landlock_check demo_policy MD_LL_READ_FILE (demo_matches ''a'') = Inr ()
   \<and> grants (demo_matches ''a'') (ruleset_rules demo_rules) 2
   \<and> md_landlock_check demo_policy MD_LL_READ_FILE (demo_matches ''b'') \<noteq> Inr ()"
proof -
  have bit2: "bit MD_LL_READ_FILE 2" by (simp add: MD_LL_READ_FILE_def)
  have total: "\<forall>k. \<exists>b. demo_matches x k = Inr b" for x by (simp add: demo_matches_def)
  have a: "md_landlock_check demo_policy MD_LL_READ_FILE (demo_matches ''a'') = Inr ()"
    by (simp add: demo_policy_def demo_rules_def demo_key_def demo_matches_def)
  have "\<not> grants (demo_matches ''b'') (ruleset_rules demo_rules) 2"
    by (simp add: grants_def demo_rules_def demo_key_def demo_matches_def)
  then have "md_landlock_check demo_policy MD_LL_READ_FILE (demo_matches ''b'') \<noteq> Inr ()"
    using landlock_check_exact [of demo_policy MD_LL_READ_FILE "demo_matches ''b''"] bit2
    by (auto simp: demo_policy_def layer_grants_def demo_rules_def)
  moreover have "grants (demo_matches ''a'') (ruleset_rules demo_rules) 2"
    using landlock_check_exact [of demo_policy MD_LL_READ_FILE "demo_matches ''a''"] a bit2
    by (auto simp: demo_policy_def layer_grants_def demo_rules_def)
  ultimately show ?thesis using a by simp
qed

text \<open>
  Restricting a task only takes away. A new layer is added within the limit of sixteen, and
  under the resulting policy a check that succeeds also succeeds under the old policy and is
  granted by the new layer's own rules; what the parent refused stays refused.
\<close>

theorem landlock_restrict_monotone:
  assumes "policy_wf p" "md_landlock_restrict alloc p r = Inr p'"
  shows "policy_wf p' \<and> length p' = length p + 1 \<and> length p' \<le> MD_LANDLOCK_LAYERS
    \<and> (\<forall>access matches. md_landlock_check p' access matches = Inr () \<longrightarrow>
         md_landlock_check p access matches = Inr ()
         \<and> (\<forall>n. bit access n \<and> bit (ruleset_handled r) n \<longrightarrow> grants matches (ruleset_rules r) n))"
proof -
  from assms(2) obtain d where p': "p' = \<lparr>layer_depth = d, layer_rules = r\<rparr> # p"
    by (auto simp: md_landlock_restrict_def split: if_splits)
  have "md_landlock_check p access matches = Inr ()" if "md_landlock_check p' access matches = Inr ()" for access matches
    using that by (auto simp: p' split: sum.splits if_splits)
  moreover have "\<forall>n. bit access n \<and> bit (ruleset_handled r) n \<longrightarrow> grants matches (ruleset_rules r) n"
    if "md_landlock_check p' access matches = Inr ()" for access matches
    using landlock_check_sound [OF that, of "hd p'"] by (simp add: p' layer_grants_def)
  ultimately show ?thesis using restrict_wf [OF assms] p' by (simp add: policy_wf_def)
qed

theorem landlock_restrict_monotone_witness:
  "md_landlock_restrict True [] demo_rules = Inr demo_policy \<and> policy_wf demo_policy"
proof -
  have "policy_wf []" by (simp add: policy_wf_def)
  moreover have "md_landlock_restrict True [] demo_rules = Inr demo_policy"
    by (simp add: md_landlock_restrict_def demo_policy_def)
  ultimately show ?thesis using landlock_restrict_monotone by blast
qed

end
