(* ===== verification/Pid_Namespace.thy ===== *)
theory Pid_Namespace
  imports Guest_Identity
begin

text \<open>
  PID namespaces, \<^verbatim>\<open>src/native/shroot/src/pid_namespace.c\<close>: allocation of visible numbers in
  every namespace of a chain, publication, exit, reaping and lookup. A namespace pointer is the
  chain of its cell and its ancestors' cells, as for user namespaces; a \<open>struct pid_number\<close> is
  identified by its identity's cell and its index there. The mutexes make each operation on a
  namespace one step of the store.
\<close>

section \<open>Data\<close>

definition MD_PID_LEVELS :: nat where "MD_PID_LEVELS = 32"
definition MD_PID_MAX :: int where "MD_PID_MAX = 4194304"
definition PID_BUCKETS :: nat where "PID_BUCKETS = 127"

type_synonym pid_ptr = "nat list"

record pid_number =
  pn_identity :: nat
  pn_index :: nat
  pn_number :: int

type_synonym pid_table = "pid_number list list"

record pid_space =
  ps_references :: u32
  ps_parent :: pid_ptr
  ps_owner :: ns_ptr
  ps_inode :: u64
  ps_depth :: nat
  ps_next :: int
  ps_dead :: bool
  ps_reboot_signal :: int
  ps_initialized :: bool
  ps_numbers :: pid_table

record pid_identity =
  pi_references :: u32
  pi_space :: pid_ptr
  pi_native :: int
  pi_group :: int
  pi_live :: bool
  pi_subreaper :: bool
  pi_reaped :: bool
  pi_numbers :: "(pid_ptr \<times> int) list" \<comment> \<open>space and number of each \<open>numbers[i]\<close>\<close>

record pid_store =
  pid_spaces :: "nat \<Rightarrow> pid_space option"
  pid_identities :: "nat \<Rightarrow> pid_identity option"
  pid_registry :: "nat list"
  pid_users :: user_store

definition zero_space :: pid_space where
  "zero_space = \<lparr>ps_references = 0, ps_parent = [], ps_owner = [], ps_inode = 0, ps_depth = 0, ps_next = 0,
     ps_dead = False, ps_reboot_signal = 0, ps_initialized = False, ps_numbers = replicate PID_BUCKETS []\<rparr>"

definition zero_identity :: pid_identity where
  "zero_identity = \<lparr>pi_references = 0, pi_space = [], pi_native = 0, pi_group = 0, pi_live = False,
     pi_subreaper = False, pi_reaped = False, pi_numbers = []\<rparr>"

definition space_at :: "pid_store \<Rightarrow> nat \<Rightarrow> pid_space" where
  "space_at s a = (case pid_spaces s a of Some n \<Rightarrow> n | None \<Rightarrow> zero_space)"

definition identity_at :: "pid_store \<Rightarrow> nat \<Rightarrow> pid_identity" where
  "identity_at s p = (case pid_identities s p of Some i \<Rightarrow> i | None \<Rightarrow> zero_identity)"

text \<open>Updates through a pointer; a pointer to a freed cell is never written.\<close>

definition put_space :: "nat \<Rightarrow> (pid_space \<Rightarrow> pid_space) \<Rightarrow> pid_store \<Rightarrow> pid_store" where
  "put_space a f s = s\<lparr>pid_spaces := (pid_spaces s)(a := map_option f (pid_spaces s a))\<rparr>"

definition put_identity :: "nat \<Rightarrow> (pid_identity \<Rightarrow> pid_identity) \<Rightarrow> pid_store \<Rightarrow> pid_store" where
  "put_identity p f s = s\<lparr>pid_identities := (pid_identities s)(p := map_option f (pid_identities s p))\<rparr>"

section \<open>Namespaces\<close>

definition md_pid_namespace_parent :: "pid_store \<Rightarrow> pid_ptr \<Rightarrow> pid_ptr" where
  "md_pid_namespace_parent s n = (case n of [] \<Rightarrow> [] | a # _ \<Rightarrow> ps_parent (space_at s a))"

definition md_pid_namespace_owner :: "pid_store \<Rightarrow> pid_ptr \<Rightarrow> ns_ptr" where
  "md_pid_namespace_owner s n = (case n of [] \<Rightarrow> [] | a # _ \<Rightarrow> ps_owner (space_at s a))"

definition md_pid_namespace_inode :: "pid_store \<Rightarrow> pid_ptr \<Rightarrow> u64" where
  "md_pid_namespace_inode s n = (case n of [] \<Rightarrow> 0xeffffffc | a # _ \<Rightarrow> ps_inode (space_at s a))"

definition md_pid_namespace_depth :: "pid_store \<Rightarrow> pid_ptr \<Rightarrow> nat" where
  "md_pid_namespace_depth s n = (case n of [] \<Rightarrow> 0 | a # _ \<Rightarrow> ps_depth (space_at s a))"

definition md_pid_namespace_dead :: "pid_store \<Rightarrow> pid_ptr \<Rightarrow> bool" where
  "md_pid_namespace_dead s n = (case n of [] \<Rightarrow> False | a # _ \<Rightarrow> ps_dead (space_at s a))"

definition md_pid_namespace_initialized :: "pid_store \<Rightarrow> pid_ptr \<Rightarrow> bool" where
  "md_pid_namespace_initialized s n = (case n of [] \<Rightarrow> True | a # _ \<Rightarrow> ps_initialized (space_at s a))"

fun md_pid_namespace_contains :: "pid_ptr \<Rightarrow> pid_ptr \<Rightarrow> bool" where
  "md_pid_namespace_contains par [] = (par = [])"
| "md_pid_namespace_contains par (a # up) =
     (if a # up = par then True else md_pid_namespace_contains par up)"

definition CAP_SYS_BOOT :: nat where "CAP_SYS_BOOT = 22"
definition CAP_CHECKPOINT_RESTORE :: nat where "CAP_CHECKPOINT_RESTORE = 40"

text \<open>\<open>SIGHUP\<close> is 1 and \<open>SIGINT\<close> 2; the magic numbers are those of \<^verbatim>\<open>linux/reboot.h\<close>.\<close>

definition md_pid_namespace_reboot ::
  "pid_store \<Rightarrow> pid_ptr \<Rightarrow> identity \<Rightarrow> u32 \<Rightarrow> u32 \<Rightarrow> u32 \<Rightarrow> int result" where
  "md_pid_namespace_reboot s n v magic1 magic2 command =
     (case n of [] \<Rightarrow> Inl EPERM
      | a # _ \<Rightarrow>
        if \<not> md_identity_capable_in (pid_users s) v (ps_owner (space_at s a)) CAP_SYS_BOOT then Inl EPERM
        else if magic1 \<noteq> 0xfee1dead \<or> magic2 \<notin> {672274793, 85072278, 369367448, 537993216} then Inl EINVAL
        else
          let signal = (if command = 0x01234567 \<or> command = 0xA1B2C3D4 then Some 1
                        else if command = 0xCDEF0123 \<or> command = 0x4321FEDC then Some 2
                        else None)
          in case signal of
               None \<Rightarrow> Inl EINVAL
             | Some k \<Rightarrow> if ps_dead (space_at s a) then Inl ESRCH else Inr k)"

definition md_pid_namespace_reboot_started :: "nat \<Rightarrow> int \<Rightarrow> pid_store \<Rightarrow> pid_store" where
  "md_pid_namespace_reboot_started a signal = put_space a (\<lambda>n. n\<lparr>ps_reboot_signal := signal\<rparr>)"

definition md_pid_namespace_retain :: "pid_ptr \<Rightarrow> pid_store \<Rightarrow> pid_store" where
  "md_pid_namespace_retain n s = (case n of [] \<Rightarrow> s
     | a # _ \<Rightarrow> put_space a (\<lambda>x. x\<lparr>ps_references := ps_references x + 1\<rparr>) s)"

text \<open>
  \<open>cell\<close>: the address \<open>calloc\<close> returns; \<open>lock\<close>: an error of \<open>pthread_mutex_init\<close>; \<open>inode\<close>: the
  answer of \<open>md_namespace_identity_new\<close>.
\<close>

definition md_pid_namespace_new ::
  "nat option \<Rightarrow> errno option \<Rightarrow> u64 result \<Rightarrow> pid_ptr \<Rightarrow> ns_ptr \<Rightarrow> pid_store \<Rightarrow> pid_ptr result \<times> pid_store" where
  "md_pid_namespace_new cell lock inode par own s =
     (if md_pid_namespace_depth s par \<ge> MD_PID_LEVELS then (Inl ENOSPC, s)
      else if par \<noteq> [] \<and> \<not> md_user_namespace_contains (pid_users s) (md_pid_namespace_owner s par) own
      then (Inl EINVAL, s)
      else case cell of None \<Rightarrow> (Inl ENOMEM, s)
      | Some a \<Rightarrow>
        (case lock of Some e \<Rightarrow> (Inl e, s)
         | None \<Rightarrow>
          (case inode of Inl e \<Rightarrow> (Inl e, s)
           | Inr ino \<Rightarrow>
              let s1 = md_pid_namespace_retain par s;
                  n = zero_space\<lparr>ps_references := 1, ps_inode := ino, ps_parent := par, ps_owner := own,
                        ps_depth := md_pid_namespace_depth s par + 1, ps_next := 1\<rparr>
              in (Inr (a # par), s1\<lparr>pid_spaces := (pid_spaces s1)(a \<mapsto> n), pid_registry := a # pid_registry s1,
                    pid_users := md_user_namespace_retain own (pid_users s1)\<rparr>))))"

text \<open>Releasing the last reference unlinks the namespace and releases its parent and owner.\<close>

fun md_pid_namespace_release :: "pid_ptr \<Rightarrow> pid_store \<Rightarrow> pid_store" where
  "md_pid_namespace_release [] s = s"
| "md_pid_namespace_release (a # up) s =
     (let n = space_at s a; s1 = put_space a (\<lambda>x. x\<lparr>ps_references := ps_references x - 1\<rparr>) s
      in if ps_references n \<noteq> 1 then s1
         else
           let s2 = s1\<lparr>pid_registry := remove1 a (pid_registry s1)\<rparr>;
               s3 = md_pid_namespace_release up s2
           in s3\<lparr>pid_spaces := (pid_spaces s3)(a := None),
                 pid_users := md_user_namespace_release (ps_owner n) (pid_users s3)\<rparr>)"

text \<open>The compare-and-swap loops of \<open>md_pid_namespace_by_inode\<close> and \<open>try_retain\<close>, as one step.\<close>

definition may_retain :: "u32 \<Rightarrow> bool" where
  "may_retain refs \<longleftrightarrow> refs \<noteq> 0 \<and> refs < UINT32_MAX"

definition md_pid_namespace_by_inode :: "u64 \<Rightarrow> pid_store \<Rightarrow> nat option \<times> pid_store" where
  "md_pid_namespace_by_inode inode s =
     (case find (\<lambda>a. ps_inode (space_at s a) = inode) (pid_registry s) of
        None \<Rightarrow> (None, s)
      | Some a \<Rightarrow>
          if may_retain (ps_references (space_at s a))
          then (Some a, put_space a (\<lambda>x. x\<lparr>ps_references := ps_references x + 1\<rparr>) s)
          else (None, s))"

section \<open>The table of numbers\<close>

definition bucket_of :: "int \<Rightarrow> nat" where
  "bucket_of number = nat number mod PID_BUCKETS"

text \<open>\<open>*slot(n,number)\<close>\<close>

definition slot_find :: "pid_table \<Rightarrow> int \<Rightarrow> pid_number option" where
  "slot_find t number = find (\<lambda>x. pn_number x = number) (t ! bucket_of number)"

text \<open>\<open>*slot(n,number)=entry\<close> where the slot is the end of its list.\<close>

definition slot_insert :: "pid_number \<Rightarrow> pid_table \<Rightarrow> pid_table" where
  "slot_insert x t = (let b = bucket_of (pn_number x) in t[b := t ! b @ [x]])"

text \<open>\<open>if (*link==entry) *link=entry->next\<close>\<close>

definition slot_remove :: "pid_number \<Rightarrow> pid_table \<Rightarrow> pid_table" where
  "slot_remove x t =
     (let b = bucket_of (pn_number x)
      in if slot_find t (pn_number x) = Some x then t[b := remove1 x (t ! b)] else t)"

definition next_number :: "int \<Rightarrow> int" where
  "next_number k = (if k = MD_PID_MAX - 1 then 2 else k + 1)"

text \<open>
  The \<open>do ... while (next!=start)\<close> loop: the first free number from \<open>next\<close> on, or \<open>start\<close> again
  after a full round. \<open>None\<close> stands for a loop still running when the fuel is used up.
\<close>

fun reserve_scan :: "nat \<Rightarrow> pid_table \<Rightarrow> int \<Rightarrow> int \<Rightarrow> int option" where
  "reserve_scan 0 t start k = None"
| "reserve_scan (Suc fuel) t start k =
     (if slot_find t k = None then Some k
      else if next_number k = start then Some start
      else reserve_scan fuel t start (next_number k))"

definition reserve_start :: "pid_space \<Rightarrow> int \<Rightarrow> int" where
  "reserve_start n selected =
     (if selected \<noteq> 0 then selected
      else if \<not> ps_initialized n \<and> slot_find (ps_numbers n) 1 = None then 1
      else if ps_next n < 2 then 2 else ps_next n)"

definition reserve :: "nat \<Rightarrow> nat \<Rightarrow> int \<Rightarrow> pid_space \<Rightarrow> (int result \<times> pid_space) option" where
  "reserve p index selected n =
     (if ps_dead n then Some (Inl ENOMEM, n)
      else if selected \<noteq> 0 \<and> selected \<noteq> 1 \<and> \<not> ps_initialized n then Some (Inl EINVAL, n)
      else if selected \<noteq> 0 \<and> slot_find (ps_numbers n) selected \<noteq> None then Some (Inl EEXIST, n)
      else
        let start = reserve_start n selected
        in case reserve_scan (nat MD_PID_MAX) (ps_numbers n) start start of
             None \<Rightarrow> None
           | Some k \<Rightarrow>
               if slot_find (ps_numbers n) k \<noteq> None then Some (Inl EAGAIN, n)
               else Some (Inr k, n\<lparr>ps_numbers :=
                        slot_insert \<lparr>pn_identity = p, pn_index = index, pn_number = k\<rparr> (ps_numbers n),
                      ps_next := if selected = 0 then next_number k else ps_next n\<rparr>))"

section \<open>Identities\<close>

definition md_pid_identity_native :: "pid_store \<Rightarrow> nat option \<Rightarrow> int" where
  "md_pid_identity_native s op = (case op of None \<Rightarrow> 0 | Some p \<Rightarrow> pi_native (identity_at s p))"

definition md_pid_identity_group :: "pid_store \<Rightarrow> nat option \<Rightarrow> int" where
  "md_pid_identity_group s op = (case op of None \<Rightarrow> 0 | Some p \<Rightarrow> pi_group (identity_at s p))"

definition md_pid_identity_live :: "pid_store \<Rightarrow> nat option \<Rightarrow> bool" where
  "md_pid_identity_live s op = (case op of None \<Rightarrow> False | Some p \<Rightarrow> pi_live (identity_at s p))"

definition md_pid_identity_subreaper :: "pid_store \<Rightarrow> nat option \<Rightarrow> bool" where
  "md_pid_identity_subreaper s op = (case op of None \<Rightarrow> False | Some p \<Rightarrow> pi_subreaper (identity_at s p))"

definition md_pid_identity_set_subreaper :: "nat option \<Rightarrow> bool \<Rightarrow> pid_store \<Rightarrow> pid_store" where
  "md_pid_identity_set_subreaper op b s =
     (case op of None \<Rightarrow> s | Some p \<Rightarrow> put_identity p (\<lambda>i. i\<lparr>pi_subreaper := b\<rparr>) s)"

definition md_pid_identity_number :: "pid_store \<Rightarrow> nat option \<Rightarrow> pid_ptr \<Rightarrow> int" where
  "md_pid_identity_number s op n =
     (case op of None \<Rightarrow> 0
      | Some p \<Rightarrow>
          if n = [] then pi_native (identity_at s p)
          else case find (\<lambda>x. fst x = n) (pi_numbers (identity_at s p)) of Some x \<Rightarrow> snd x | None \<Rightarrow> 0)"

definition md_pid_identity_reboot_signal :: "pid_store \<Rightarrow> nat option \<Rightarrow> int" where
  "md_pid_identity_reboot_signal s op =
     (case op of None \<Rightarrow> 0
      | Some p \<Rightarrow>
          let sp = pi_space (identity_at s p)
          in if md_pid_identity_number s op sp = 1
             then (case sp of [] \<Rightarrow> 0 | a # _ \<Rightarrow> ps_reboot_signal (space_at s a)) else 0)"

definition unreserve_one :: "nat \<Rightarrow> nat \<Rightarrow> pid_ptr \<times> int \<Rightarrow> pid_store \<Rightarrow> pid_store" where
  "unreserve_one p i x s =
     (case fst x of [] \<Rightarrow> s
      | a # _ \<Rightarrow> put_space a (\<lambda>n. n\<lparr>ps_numbers :=
          slot_remove \<lparr>pn_identity = p, pn_index = i, pn_number = snd x\<rparr> (ps_numbers n)\<rparr>) s)"

fun unreserve_from :: "nat \<Rightarrow> nat \<Rightarrow> (pid_ptr \<times> int) list \<Rightarrow> pid_store \<Rightarrow> pid_store" where
  "unreserve_from p i [] s = s"
| "unreserve_from p i (x # xs) s = unreserve_from p (Suc i) xs (unreserve_one p i x s)"

definition unreserve :: "nat \<Rightarrow> pid_store \<Rightarrow> pid_store" where
  "unreserve p s = unreserve_from p 0 (pi_numbers (identity_at s p)) s"

definition md_pid_identity_retain :: "nat option \<Rightarrow> pid_store \<Rightarrow> pid_store" where
  "md_pid_identity_retain op s =
     (case op of None \<Rightarrow> s | Some p \<Rightarrow> put_identity p (\<lambda>i. i\<lparr>pi_references := pi_references i + 1\<rparr>) s)"

definition try_retain :: "nat \<Rightarrow> pid_store \<Rightarrow> nat option \<times> pid_store" where
  "try_retain p s =
     (if may_retain (pi_references (identity_at s p)) then (Some p, md_pid_identity_retain (Some p) s)
      else (None, s))"

definition md_pid_identity_release :: "nat option \<Rightarrow> pid_store \<Rightarrow> pid_store" where
  "md_pid_identity_release op s =
     (case op of None \<Rightarrow> s
      | Some p \<Rightarrow>
          let refs = pi_references (identity_at s p);
              s1 = put_identity p (\<lambda>i. i\<lparr>pi_references := pi_references i - 1\<rparr>) s
          in if refs \<noteq> 1 then s1
             else
               let s2 = md_pid_namespace_release (pi_space (identity_at s p)) (unreserve p s1)
               in s2\<lparr>pid_identities := (pid_identities s2)(p := None)\<rparr>)"

text \<open>The numbers requested of \<open>clone3\<close>, checked one namespace at a time on the way out.\<close>

definition select_error :: "pid_store \<Rightarrow> identity option \<Rightarrow> nat \<Rightarrow> int option \<Rightarrow> errno option" where
  "select_error s ov a req =
     (case req of None \<Rightarrow> None
      | Some k \<Rightarrow>
          if k < 1 \<or> k \<ge> MD_PID_MAX then Some EINVAL
          else case ov of
                 None \<Rightarrow> Some EPERM
               | Some v \<Rightarrow>
                   let own = ps_owner (space_at s a)
                   in if \<not> md_identity_capable_in (pid_users s) v own CAP_CHECKPOINT_RESTORE
                         \<and> \<not> md_identity_capable_in (pid_users s) v own CAP_SYS_ADMIN
                      then Some EPERM else None)"

fun prepare_chain ::
  "identity option \<Rightarrow> int list \<Rightarrow> nat \<Rightarrow> nat \<Rightarrow> pid_ptr \<Rightarrow> pid_store \<Rightarrow> (unit result \<times> pid_store) option" where
  "prepare_chain ov sel p i [] s = Some (Inr (), s)"
| "prepare_chain ov sel p i (a # up) s =
     (let req = (if i < length sel then Some (sel ! i) else None) in
      case select_error s ov a req of
        Some e \<Rightarrow> Some (Inl e, md_pid_identity_release (Some p) s)
      | None \<Rightarrow>
          (case reserve p i (case req of Some k \<Rightarrow> k | None \<Rightarrow> 0) (space_at s a) of
             None \<Rightarrow> None
           | Some (Inl e, _) \<Rightarrow> Some (Inl e, md_pid_identity_release (Some p) s)
           | Some (Inr k, n) \<Rightarrow>
               prepare_chain ov sel p (Suc i) up
                 (put_identity p (\<lambda>x. x\<lparr>pi_numbers := pi_numbers x @ [(a # up, k)]\<rparr>) (put_space a (\<lambda>_. n) s))))"

definition md_pid_identity_prepare_selected ::
  "nat option \<Rightarrow> pid_ptr \<Rightarrow> identity option \<Rightarrow> int list option \<Rightarrow> nat \<Rightarrow> pid_store
     \<Rightarrow> (nat option result \<times> pid_store) option" where
  "md_pid_identity_prepare_selected cell space ov selected cnt s =
     (if cnt > md_pid_namespace_depth s space \<or> cnt \<noteq> 0 \<and> (selected = None \<or> ov = None) then Some (Inl EINVAL, s)
      else if space = [] then Some (Inr None, s)
      else case cell of None \<Rightarrow> Some (Inl ENOMEM, s)
      | Some p \<Rightarrow>
          let s1 = md_pid_namespace_retain space
                (s\<lparr>pid_identities := (pid_identities s)(p \<mapsto> zero_identity\<lparr>pi_references := 1, pi_space := space\<rparr>)\<rparr>)
          in (case prepare_chain ov (case selected of Some ks \<Rightarrow> take cnt ks | None \<Rightarrow> []) p 0 space s1 of
                None \<Rightarrow> None
              | Some (Inl e, s2) \<Rightarrow> Some (Inl e, s2)
              | Some (Inr _, s2) \<Rightarrow> Some (Inr (Some p), s2)))"

definition md_pid_identity_prepare ::
  "nat option \<Rightarrow> pid_ptr \<Rightarrow> pid_store \<Rightarrow> (nat option result \<times> pid_store) option" where
  "md_pid_identity_prepare cell space s = md_pid_identity_prepare_selected cell space None None 0 s"

definition mark_initialized :: "pid_ptr \<times> int \<Rightarrow> pid_store \<Rightarrow> pid_store" where
  "mark_initialized x s =
     (case fst x of [] \<Rightarrow> s
      | a # _ \<Rightarrow> if snd x = 1 then put_space a (\<lambda>n. n\<lparr>ps_initialized := True\<rparr>) s else s)"

definition md_pid_identity_publish :: "nat option \<Rightarrow> int \<Rightarrow> int \<Rightarrow> pid_store \<Rightarrow> unit result \<times> pid_store" where
  "md_pid_identity_publish op native grp s =
     (case op of None \<Rightarrow> (Inr (), s)
      | Some p \<Rightarrow>
          if native \<le> 0 \<or> grp \<le> 0 \<or> pi_native (identity_at s p) \<noteq> 0 then (Inl EINVAL, s)
          else (Inr (), put_identity p (\<lambda>i. i\<lparr>pi_group := grp, pi_native := native, pi_live := True\<rparr>)
                 (fold mark_initialized (pi_numbers (identity_at s p)) s)))"

text \<open>The last live thread of the thread group of PID 1 closes the namespace.\<close>

definition md_pid_identity_exit :: "nat option \<Rightarrow> pid_store \<Rightarrow> bool \<times> pid_store" where
  "md_pid_identity_exit op s =
     (case op of None \<Rightarrow> (False, s)
      | Some p \<Rightarrow>
          if \<not> pi_live (identity_at s p) then (False, s)
          else
            let s1 = put_identity p (\<lambda>i. i\<lparr>pi_live := False\<rparr>) s
            in case pi_space (identity_at s p) of
                 [] \<Rightarrow> (False, s1)
               | a # _ \<Rightarrow>
                   let n = space_at s1 a; grp = pi_group (identity_at s1 p);
                       last = (case slot_find (ps_numbers n) 1 of
                                 None \<Rightarrow> False
                               | Some x \<Rightarrow> pi_group (identity_at s1 (pn_identity x)) = grp)
                             \<and> (\<forall>b \<in> set (ps_numbers n). \<forall>x \<in> set b.
                                  \<not> (pi_live (identity_at s1 (pn_identity x))
                                     \<and> pi_group (identity_at s1 (pn_identity x)) = grp))
                   in (last, if last then put_space a (\<lambda>n. n\<lparr>ps_dead := True\<rparr>) s1 else s1))"

definition md_pid_identity_reap :: "nat option \<Rightarrow> pid_store \<Rightarrow> pid_store" where
  "md_pid_identity_reap op s =
     (case op of None \<Rightarrow> s
      | Some p \<Rightarrow> if pi_live (identity_at s p) then s
                  else unreserve p (put_identity p (\<lambda>i. i\<lparr>pi_reaped := True\<rparr>) s))"

definition md_pid_identity_exec :: "nat option \<Rightarrow> nat option \<Rightarrow> pid_store \<Rightarrow> pid_store" where
  "md_pid_identity_exec thread grp s =
     (case (thread, grp) of
        (Some t, Some g) \<Rightarrow>
          if t = g then s
          else put_identity t (\<lambda>i. i\<lparr>pi_live := False\<rparr>)
                 (put_identity g (\<lambda>i. i\<lparr>pi_reaped := False, pi_live := True\<rparr>) s)
      | _ \<Rightarrow> s)"

definition visible_identity :: "pid_store \<Rightarrow> pid_number \<Rightarrow> bool" where
  "visible_identity s x \<longleftrightarrow> pi_native (identity_at s (pn_identity x)) \<noteq> 0 \<and> \<not> pi_reaped (identity_at s (pn_identity x))"

definition md_pid_namespace_lookup :: "pid_ptr \<Rightarrow> int \<Rightarrow> pid_store \<Rightarrow> nat option \<times> pid_store" where
  "md_pid_namespace_lookup n visible s =
     (case n of [] \<Rightarrow> (None, s)
      | a # _ \<Rightarrow>
          if visible \<le> 0 then (None, s)
          else case slot_find (ps_numbers (space_at s a)) visible of
                 None \<Rightarrow> (None, s)
               | Some x \<Rightarrow> if visible_identity s x then try_retain (pn_identity x) s else (None, s))"

text \<open>The first match of each bucket, until one could be retained.\<close>

fun find_native :: "pid_store \<Rightarrow> int \<Rightarrow> pid_table \<Rightarrow> nat option \<times> pid_store" where
  "find_native s native [] = (None, s)"
| "find_native s native (b # bs) =
     (case find (\<lambda>x. pi_native (identity_at s (pn_identity x)) = native
               \<and> \<not> pi_reaped (identity_at s (pn_identity x))) b of
        None \<Rightarrow> find_native s native bs
      | Some x \<Rightarrow> (case try_retain (pn_identity x) s of
                     (Some p, s1) \<Rightarrow> (Some p, s1)
                   | (None, s1) \<Rightarrow> find_native s1 native bs))"

definition md_pid_namespace_find :: "pid_ptr \<Rightarrow> int \<Rightarrow> pid_store \<Rightarrow> nat option \<times> pid_store" where
  "md_pid_namespace_find n native s =
     (case n of [] \<Rightarrow> (None, s)
      | a # _ \<Rightarrow> if native \<le> 0 then (None, s) else find_native s native (ps_numbers (space_at s a)))"

section \<open>Numbers captured in messages\<close>

record pid_number_value =
  nv_namespace :: u64
  nv_number :: int
  nv_reserved :: u32

definition md_pid_identity_export :: "pid_store \<Rightarrow> nat option \<Rightarrow> pid_number_value list" where
  "md_pid_identity_export s op =
     (case op of None \<Rightarrow> []
      | Some p \<Rightarrow> map (\<lambda>x. \<lparr>nv_namespace = md_pid_namespace_inode s (fst x), nv_number = snd x, nv_reserved = 0\<rparr>)
                     (pi_numbers (identity_at s p)))"

fun numbers_scan :: "u64 \<Rightarrow> pid_number_value list \<Rightarrow> int result" where
  "numbers_scan inode [] = Inr 0"
| "numbers_scan inode (v # vs) =
     (if nv_reserved v \<noteq> 0 \<or> nv_number v \<le> 0 then Inl EPROTO
      else if nv_namespace v = inode then Inr (nv_number v)
      else numbers_scan inode vs)"

text \<open>\<open>bytes\<close> is the size of the encoded values, of sixteen bytes each.\<close>

definition md_pid_numbers_visible ::
  "pid_store \<Rightarrow> pid_number_value list \<Rightarrow> nat \<Rightarrow> pid_ptr \<Rightarrow> int \<Rightarrow> int result" where
  "md_pid_numbers_visible s values bytes space native =
     (if bytes mod 16 \<noteq> 0 \<or> bytes > MD_PID_LEVELS * 16 then Inl EPROTO
      else if space = [] \<or> native \<le> 0 then Inr native
      else numbers_scan (md_pid_namespace_inode s space) (take (bytes div 16) values))"

section \<open>The table's contract\<close>

definition table_wf :: "pid_table \<Rightarrow> bool" where
  "table_wf t \<longleftrightarrow> length t = PID_BUCKETS
     \<and> (\<forall>b < PID_BUCKETS. distinct (map pn_number (t ! b))
          \<and> (\<forall>x \<in> set (t ! b). bucket_of (pn_number x) = b \<and> 1 \<le> pn_number x \<and> pn_number x < MD_PID_MAX))"

lemma bucket_less [simp]: "bucket_of k < PID_BUCKETS"
  by (simp add: bucket_of_def PID_BUCKETS_def)

lemma table_wf_length [simp]: "table_wf t \<Longrightarrow> length t = PID_BUCKETS"
  by (simp add: table_wf_def)

lemma table_wf_bucket:
  assumes "table_wf t"
  shows "distinct (map pn_number (t ! bucket_of k))"
    and "x \<in> set (t ! bucket_of k) \<Longrightarrow> bucket_of (pn_number x) = bucket_of k"
  using assms bucket_less [of k] unfolding table_wf_def by blast+

text \<open>What the code relies on of the table: what a lookup returns after an insertion and a removal.\<close>

locale number_table =
  fixes look :: "'t \<Rightarrow> int \<Rightarrow> 'e option"
    and ins :: "'e \<Rightarrow> 't \<Rightarrow> 't"
    and del :: "'e \<Rightarrow> 't \<Rightarrow> 't"
    and key :: "'e \<Rightarrow> int"
    and ok :: "'t \<Rightarrow> bool"
  assumes look_key: "look t k = Some x \<Longrightarrow> key x = k"
    and look_ins: "ok t \<Longrightarrow> look t (key x) = None \<Longrightarrow> look (ins x t) k = (if k = key x then Some x else look t k)"
    and look_del: "ok t \<Longrightarrow> look (del x t) k = (if look t k = Some x then None else look t k)"
    and ok_ins: "ok t \<Longrightarrow> look t (key x) = None \<Longrightarrow> 1 \<le> key x \<Longrightarrow> key x < MD_PID_MAX \<Longrightarrow> ok (ins x t)"
    and ok_del: "ok t \<Longrightarrow> ok (del x t)"
begin

lemma del_ins:
  assumes "ok t" "look t (key x) = None" "1 \<le> key x" "key x < MD_PID_MAX"
  shows "look (del x (ins x t)) = look t"
proof
  fix k
  have "look t k = Some x \<longrightarrow> key x = k"
    using look_key by blast
  thus "look (del x (ins x t)) k = look t k"
    using assms by (cases "k = key x") (simp_all add: look_del look_ins ok_ins)
qed

lemma look_dels: "ok t \<Longrightarrow> ok (fold del xs t) \<and>
    look (fold del xs t) k = (case look t k of None \<Rightarrow> None | Some y \<Rightarrow> if y \<in> set xs then None else Some y)"
  by (induction xs arbitrary: t) (auto simp: look_del ok_del split: option.splits)

lemma ins_keeps: "ok t \<Longrightarrow> look t (key x) = None \<Longrightarrow> look t k = Some y \<Longrightarrow> look (ins x t) k = Some y"
  by (auto simp: look_ins)

end

lemma find_append_single: "find P (xs @ [x]) = (case find P xs of None \<Rightarrow> if P x then Some x else None | Some y \<Rightarrow> Some y)"
  by (induction xs) auto

lemma find_remove1_other:
  "distinct (map g xs) \<Longrightarrow> x \<in> set xs \<Longrightarrow> find (\<lambda>y. g y = k) (remove1 x xs)
     = (if g x = k then None else find (\<lambda>y. g y = k) xs)"
  by (induction xs) (force simp: find_None_iff image_iff)+

lemma slot_find_key: "slot_find t k = Some x \<Longrightarrow> pn_number x = k"
  by (auto simp: slot_find_def find_Some_iff)

lemma slot_find_in: "slot_find t k = Some x \<Longrightarrow> x \<in> set (t ! bucket_of k)"
  by (auto simp: slot_find_def find_Some_iff)

lemma slot_find_insert:
  assumes "table_wf t" "slot_find t (pn_number x) = None"
  shows "slot_find (slot_insert x t) k = (if k = pn_number x then Some x else slot_find t k)"
proof (cases "bucket_of k = bucket_of (pn_number x)")
  case True
  hence "slot_find (slot_insert x t) k = find (\<lambda>y. pn_number y = k) (t ! bucket_of k @ [x])"
    using assms(1) by (simp add: slot_find_def slot_insert_def Let_def)
  also have "\<dots> = (case slot_find t k of None \<Rightarrow> if pn_number x = k then Some x else None | Some y \<Rightarrow> Some y)"
    by (simp add: find_append_single slot_find_def)
  finally show ?thesis using assms(2) by (cases "k = pn_number x") (auto split: option.splits)
next
  case False
  thus ?thesis by (cases "k = pn_number x") (simp_all add: slot_find_def slot_insert_def Let_def)
qed

lemma slot_find_remove:
  assumes "table_wf t"
  shows "slot_find (slot_remove x t) k = (if slot_find t k = Some x then None else slot_find t k)"
proof (cases "slot_find t (pn_number x) = Some x")
  case True
  have mem: "x \<in> set (t ! bucket_of (pn_number x))"
    using slot_find_in [OF True] .
  show ?thesis
  proof (cases "bucket_of k = bucket_of (pn_number x)")
    case same: True
    have "slot_find (slot_remove x t) k = (if pn_number x = k then None else slot_find t k)"
      using True same assms find_remove1_other [OF table_wf_bucket(1) [OF assms] mem, of k]
      by (simp add: slot_remove_def Let_def slot_find_def)
    thus ?thesis using True by (auto dest: slot_find_key)
  next
    case False
    hence "slot_find (slot_remove x t) k = slot_find t k"
      by (simp add: slot_remove_def Let_def slot_find_def)
    moreover have "slot_find t k \<noteq> Some x"
      using False by (auto dest: slot_find_key)
    ultimately show ?thesis by simp
  qed
next
  case False
  thus ?thesis by (auto simp: slot_remove_def Let_def dest: slot_find_key)
qed

lemma table_wf_update:
  assumes "table_wf t" "distinct (map pn_number l)"
    and "\<And>x. x \<in> set l \<Longrightarrow> bucket_of (pn_number x) = b \<and> 1 \<le> pn_number x \<and> pn_number x < MD_PID_MAX"
  shows "table_wf (t[b := l])"
proof -
  have "distinct (map pn_number (t[b := l] ! c))
      \<and> (\<forall>x \<in> set (t[b := l] ! c). bucket_of (pn_number x) = c \<and> 1 \<le> pn_number x \<and> pn_number x < MD_PID_MAX)"
    if "c < PID_BUCKETS" for c
    using assms that unfolding table_wf_def by (cases "c = b") simp_all
  thus ?thesis using assms(1) by (simp add: table_wf_def)
qed

lemma table_wf_mem:
  "table_wf t \<Longrightarrow> x \<in> set (t ! bucket_of k)
     \<Longrightarrow> bucket_of (pn_number x) = bucket_of k \<and> 1 \<le> pn_number x \<and> pn_number x < MD_PID_MAX"
  using bucket_less [of k] unfolding table_wf_def by blast

lemma table_wf_insert:
  assumes "table_wf t" "slot_find t (pn_number x) = None" "1 \<le> pn_number x" "pn_number x < MD_PID_MAX"
  shows "table_wf (slot_insert x t)"
proof -
  have "pn_number x \<notin> pn_number ` set (t ! bucket_of (pn_number x))"
    using assms(2) by (auto simp: slot_find_def find_None_iff)
  thus ?thesis
    using assms table_wf_bucket(1) table_wf_mem unfolding slot_insert_def Let_def
    by (intro table_wf_update) auto
qed

lemma distinct_map_remove1: "distinct (map g l) \<Longrightarrow> distinct (map g (remove1 x l))"
  by (induction l) (auto dest: set_mp [OF set_remove1_subset])

lemma table_wf_remove:
  assumes "table_wf t"
  shows "table_wf (slot_remove x t)"
proof -
  have "table_wf (t[bucket_of (pn_number x) := remove1 x (t ! bucket_of (pn_number x))])"
  proof (rule table_wf_update [OF assms])
    show "distinct (map pn_number (remove1 x (t ! bucket_of (pn_number x))))"
      by (rule distinct_map_remove1 [OF table_wf_bucket(1) [OF assms]])
    fix y
    assume "y \<in> set (remove1 x (t ! bucket_of (pn_number x)))"
    thus "bucket_of (pn_number y) = bucket_of (pn_number x) \<and> 1 \<le> pn_number y \<and> pn_number y < MD_PID_MAX"
      by (rule table_wf_mem [OF assms set_mp [OF set_remove1_subset]])
  qed
  thus ?thesis using assms by (simp add: slot_remove_def Let_def)
qed

interpretation nums: number_table slot_find slot_insert slot_remove pn_number table_wf
  using slot_find_key slot_find_insert slot_find_remove table_wf_insert table_wf_remove
  by unfold_locales

lemma table_wf_range:
  assumes "table_wf t" "slot_find t k = Some x"
  shows "1 \<le> k" "k < MD_PID_MAX"
  using assms slot_find_key [OF assms(2)] slot_find_in [OF assms(2)] bucket_less [of k]
  unfolding table_wf_def by blast+

lemma table_wf_empty [simp]: "table_wf (replicate PID_BUCKETS [])"
  by (simp add: table_wf_def)

section \<open>Allocation\<close>

definition space_wf :: "pid_space \<Rightarrow> bool" where
  "space_wf n \<longleftrightarrow> table_wf (ps_numbers n) \<and> 0 \<le> ps_next n \<and> ps_next n < MD_PID_MAX"

lemma space_wf_zero [simp]: "space_wf zero_space"
  by (simp add: space_wf_def zero_space_def MD_PID_MAX_def)

lemma next_number_range: "1 \<le> k \<Longrightarrow> k < MD_PID_MAX \<Longrightarrow> 2 \<le> next_number k \<and> next_number k < MD_PID_MAX"
  by (auto simp: next_number_def MD_PID_MAX_def)

text \<open>How many numbers remain to be tried before the scan is back at \<open>start\<close>.\<close>

definition scan_left :: "int \<Rightarrow> int \<Rightarrow> nat" where
  "scan_left start k = nat (if k < start then start - k else start - 2 + (MD_PID_MAX - k))"

lemma scan_left_step:
  assumes "2 \<le> start" "start < MD_PID_MAX" "2 \<le> k" "k < MD_PID_MAX" "next_number k \<noteq> start"
  shows "scan_left start (next_number k) + 1 = scan_left start k"
proof (cases "k = MD_PID_MAX - 1")
  case True
  thus ?thesis using assms by (auto simp: scan_left_def next_number_def split: if_splits)
next
  case False
  thus ?thesis using assms by (auto simp: scan_left_def next_number_def split: if_splits)
qed

lemma scan_left_pos: "2 \<le> start \<Longrightarrow> k < MD_PID_MAX \<Longrightarrow> 0 < scan_left start k"
  by (auto simp: scan_left_def)

lemma scan_returns:
  "2 \<le> start \<Longrightarrow> start < MD_PID_MAX \<Longrightarrow> 2 \<le> k \<Longrightarrow> k < MD_PID_MAX \<Longrightarrow> scan_left start k \<le> fuel
     \<Longrightarrow> \<exists>r. reserve_scan fuel t start k = Some r \<and> 2 \<le> r \<and> r < MD_PID_MAX
           \<and> (slot_find t r \<noteq> None \<longrightarrow>
               (\<forall>j. (if k < start then k \<le> j \<and> j < start else (k \<le> j \<and> j < MD_PID_MAX) \<or> (2 \<le> j \<and> j < start))
                   \<longrightarrow> slot_find t j \<noteq> None))"
proof (induction fuel arbitrary: k)
  case 0
  thus ?case using scan_left_pos [of start k] by simp
next
  case (Suc fuel)
  show ?case
  proof (cases "slot_find t k = None \<or> next_number k = start")
    case True
    thus ?thesis using Suc.prems
      by (auto simp: next_number_def split: if_splits) (metis antisym_conv2 int_one_le_iff_zero_less less_le_not_le linorder_not_less zle_diff1_eq zless_imp_add1_zle)+
  next
    case False
    let ?k = "next_number k"
    have left: "scan_left start ?k \<le> fuel"
      using scan_left_step [of start k] Suc.prems False by simp
    have rng: "2 \<le> ?k" "?k < MD_PID_MAX"
      using next_number_range [of k] Suc.prems by auto
    obtain r where r: "reserve_scan fuel t start ?k = Some r" "2 \<le> r" "r < MD_PID_MAX"
      and full: "slot_find t r \<noteq> None \<Longrightarrow>
        (if ?k < start then ?k \<le> j \<and> j < start else (?k \<le> j \<and> j < MD_PID_MAX) \<or> (2 \<le> j \<and> j < start))
        \<Longrightarrow> slot_find t j \<noteq> None" for j
      using Suc.IH [OF Suc.prems(1,2) rng left] by blast
    have "slot_find t j \<noteq> None" if used: "slot_find t r \<noteq> None"
      and j: "if k < start then k \<le> j \<and> j < start else (k \<le> j \<and> j < MD_PID_MAX) \<or> (2 \<le> j \<and> j < start)" for j
    proof (cases "j = k")
      case True
      thus ?thesis using False by simp
    next
      case other: False
      show ?thesis
        by (rule full [OF used]) (use j other False Suc.prems in \<open>auto simp: next_number_def split: if_splits\<close>)
    qed
    thus ?thesis using r False by auto
  qed
qed

lemma scan_full_round:
  assumes "2 \<le> start" "start < MD_PID_MAX"
  obtains r where "reserve_scan (nat MD_PID_MAX) t start start = Some r" "2 \<le> r" "r < MD_PID_MAX"
    and "slot_find t r \<noteq> None \<Longrightarrow> \<forall>j. 2 \<le> j \<and> j < MD_PID_MAX \<longrightarrow> slot_find t j \<noteq> None"
proof -
  have left: "scan_left start start \<le> nat MD_PID_MAX"
    using assms by (simp add: scan_left_def)
  obtain r where r: "reserve_scan (nat MD_PID_MAX) t start start = Some r" "2 \<le> r" "r < MD_PID_MAX"
    and all: "slot_find t r \<noteq> None \<Longrightarrow> start \<le> j \<and> j < MD_PID_MAX \<or> 2 \<le> j \<and> j < start \<Longrightarrow> slot_find t j \<noteq> None" for j
    using scan_returns [OF assms assms left, of t] by auto
  show thesis
  proof (rule that [OF r], intro allI impI)
    fix j
    assume "slot_find t r \<noteq> None" "2 \<le> j \<and> j < MD_PID_MAX"
    thus "slot_find t j \<noteq> None" using all [of j] by linarith
  qed
qed

lemma scan_free: "slot_find t k = None \<Longrightarrow> reserve_scan (nat MD_PID_MAX) t start k = Some k"
proof -
  obtain m where "nat MD_PID_MAX = Suc m"
    by (cases "nat MD_PID_MAX") (auto simp: MD_PID_MAX_def)
  thus "slot_find t k = None \<Longrightarrow> reserve_scan (nat MD_PID_MAX) t start k = Some k"
    by simp
qed

text \<open>The three ways \<open>reserve\<close> can refuse, and what it does when it does not.\<close>

definition reserve_refused :: "int \<Rightarrow> pid_space \<Rightarrow> errno option" where
  "reserve_refused selected n =
     (if ps_dead n then Some ENOMEM
      else if selected \<noteq> 0 \<and> selected \<noteq> 1 \<and> \<not> ps_initialized n then Some EINVAL
      else if selected \<noteq> 0 \<and> slot_find (ps_numbers n) selected \<noteq> None then Some EEXIST
      else None)"

lemma reserve_cases:
  assumes wf: "space_wf n" and sel: "0 \<le> selected" "selected < MD_PID_MAX"
  obtains (refused) e where "reserve_refused selected n = Some e" "reserve p i selected n = Some (Inl e, n)"
  | (full) "reserve_refused selected n = None" "selected = 0" "\<forall>j. 2 \<le> j \<and> j < MD_PID_MAX \<longrightarrow> slot_find (ps_numbers n) j \<noteq> None"
      "\<not> (\<not> ps_initialized n \<and> slot_find (ps_numbers n) 1 = None)" "reserve p i selected n = Some (Inl EAGAIN, n)"
  | (granted) k where "reserve_refused selected n = None" "slot_find (ps_numbers n) k = None" "1 \<le> k" "k < MD_PID_MAX"
      "selected \<noteq> 0 \<Longrightarrow> k = selected"
      "selected = 0 \<Longrightarrow> \<not> ps_initialized n \<Longrightarrow> slot_find (ps_numbers n) 1 = None \<Longrightarrow> k = 1"
      "selected = 0 \<Longrightarrow> ps_initialized n \<or> slot_find (ps_numbers n) 1 \<noteq> None \<Longrightarrow> 2 \<le> k"
      "reserve p i selected n = Some (Inr k, n\<lparr>ps_numbers :=
         slot_insert \<lparr>pn_identity = p, pn_index = i, pn_number = k\<rparr> (ps_numbers n),
         ps_next := if selected = 0 then next_number k else ps_next n\<rparr>)"
proof (cases "reserve_refused selected n")
  case (Some e)
  thus thesis using refused by (auto simp: reserve_refused_def reserve_def split: if_splits)
next
  case None
  hence ok: "\<not> ps_dead n" "selected \<noteq> 0 \<Longrightarrow> slot_find (ps_numbers n) selected = None"
    "\<not> (selected \<noteq> 0 \<and> selected \<noteq> 1 \<and> \<not> ps_initialized n)"
    "\<not> (selected \<noteq> 0 \<and> slot_find (ps_numbers n) selected \<noteq> None)"
    by (auto simp: reserve_refused_def split: if_splits)
  let ?st = "reserve_start n selected"
  show thesis
  proof (cases "slot_find (ps_numbers n) ?st = None")
    case True
    have "1 \<le> ?st" "?st < MD_PID_MAX" "selected \<noteq> 0 \<Longrightarrow> ?st = selected"
      "selected = 0 \<Longrightarrow> \<not> ps_initialized n \<Longrightarrow> slot_find (ps_numbers n) 1 = None \<Longrightarrow> ?st = 1"
      "selected = 0 \<Longrightarrow> ps_initialized n \<or> slot_find (ps_numbers n) 1 \<noteq> None \<Longrightarrow> 2 \<le> ?st"
      using wf sel by (auto simp: reserve_start_def space_wf_def MD_PID_MAX_def)
    thus thesis using granted [OF None True] True ok
      by (simp add: reserve_def Let_def scan_free)
  next
    case False
    hence zero: "selected = 0" and st: "2 \<le> ?st" "?st < MD_PID_MAX"
      and one: "\<not> (\<not> ps_initialized n \<and> slot_find (ps_numbers n) 1 = None)"
      using ok wf sel by (auto simp: reserve_start_def space_wf_def MD_PID_MAX_def split: if_splits)
    obtain r where r: "reserve_scan (nat MD_PID_MAX) (ps_numbers n) ?st ?st = Some r" "2 \<le> r" "r < MD_PID_MAX"
      and all: "slot_find (ps_numbers n) r \<noteq> None \<Longrightarrow>
          \<forall>j. 2 \<le> j \<and> j < MD_PID_MAX \<longrightarrow> slot_find (ps_numbers n) j \<noteq> None"
      by (rule scan_full_round [OF st, of "ps_numbers n"]) blast
    show thesis
    proof (cases "slot_find (ps_numbers n) r = None")
      case True
      thus thesis using granted [OF None True] r one ok zero by (auto simp: reserve_def Let_def)
    next
      case used: False
      thus thesis using full [OF None zero all [OF used] one] r ok zero by (auto simp: reserve_def Let_def)
    qed
  qed
qed

lemma reserve_wf:
  assumes "space_wf n" "0 \<le> selected" "selected < MD_PID_MAX" "reserve p i selected n = Some (r, n')"
  shows "space_wf n'"
  using assms(1,2,3)
proof (cases rule: reserve_cases [where p = p and i = i])
  case (granted k)
  thus ?thesis using assms next_number_range [of k] by (auto simp: space_wf_def intro: table_wf_insert)
qed (use assms in auto)

section \<open>The invariant of the store\<close>

fun pid_chain :: "pid_ptr \<Rightarrow> pid_ptr list" where
  "pid_chain [] = []"
| "pid_chain (a # up) = (a # up) # pid_chain up"

text \<open>A pointer whose cells are allocated and linked by \<open>parent\<close>.\<close>

fun chain_ok :: "pid_store \<Rightarrow> pid_ptr \<Rightarrow> bool" where
  "chain_ok s [] \<longleftrightarrow> True"
| "chain_ok s (a # up) \<longleftrightarrow> map_option ps_parent (pid_spaces s a) = Some up \<and> chain_ok s up"

definition entry_ok :: "pid_store \<Rightarrow> pid_ptr \<Rightarrow> int \<Rightarrow> pid_number \<Rightarrow> bool" where
  "entry_ok s ptr k x \<longleftrightarrow> (case pid_identities s (pn_identity x) of
       None \<Rightarrow> False
     | Some i \<Rightarrow> pn_index x < length (pi_numbers i) \<and> pi_numbers i ! pn_index x = (ptr, k))"

definition identity_ok :: "pid_identity \<Rightarrow> bool" where
  "identity_ok i \<longleftrightarrow> map fst (pi_numbers i) = take (length (pi_numbers i)) (pid_chain (pi_space i))"

definition pid_wf :: "pid_store \<Rightarrow> bool" where
  "pid_wf s \<longleftrightarrow>
     (\<forall>a n. pid_spaces s a = Some n \<longrightarrow> space_wf n
        \<and> (\<forall>k x. slot_find (ps_numbers n) k = Some x \<longrightarrow> entry_ok s (a # ps_parent n) k x))
   \<and> (\<forall>p i. pid_identities s p = Some i \<longrightarrow> identity_ok i)"

definition number_at :: "pid_store \<Rightarrow> nat \<Rightarrow> int \<Rightarrow> pid_number option" where
  "number_at s a k = (case pid_spaces s a of None \<Rightarrow> None | Some n \<Rightarrow> slot_find (ps_numbers n) k)"

lemma number_at_space: "number_at s a k = slot_find (ps_numbers (space_at s a)) k"
  by (simp add: number_at_def space_at_def zero_space_def slot_find_def split: option.split)

named_theorems pid_frame

lemma put_space_simps [pid_frame]:
  "pid_spaces (put_space a f s) = (pid_spaces s)(a := map_option f (pid_spaces s a))"
  "pid_identities (put_space a f s) = pid_identities s"
  "pid_registry (put_space a f s) = pid_registry s"
  "pid_users (put_space a f s) = pid_users s"
  "identity_at (put_space a f s) p = identity_at s p"
  by (simp_all add: put_space_def identity_at_def)

lemma put_identity_simps [pid_frame]:
  "pid_identities (put_identity p f s) = (pid_identities s)(p := map_option f (pid_identities s p))"
  "pid_spaces (put_identity p f s) = pid_spaces s"
  "pid_registry (put_identity p f s) = pid_registry s"
  "pid_users (put_identity p f s) = pid_users s"
  "space_at (put_identity p f s) a = space_at s a"
  "number_at (put_identity p f s) = number_at s"
  by (simp_all add: put_identity_def space_at_def number_at_def fun_eq_iff)

text \<open>
  A step is quiet when it enters no number into any table, revives no namespace and changes
  neither the parents nor the numbers of what stays allocated.
\<close>

definition space_quiet :: "pid_space \<Rightarrow> pid_space \<Rightarrow> bool" where
  "space_quiet n n' \<longleftrightarrow> ps_parent n' = ps_parent n \<and> (ps_dead n \<longrightarrow> ps_dead n')
     \<and> (space_wf n \<longrightarrow> space_wf n' \<and>
          (\<forall>k x. slot_find (ps_numbers n') k = Some x \<longrightarrow> slot_find (ps_numbers n) k = Some x))"

definition quiet :: "pid_store \<Rightarrow> pid_store \<Rightarrow> bool" where
  "quiet s s' \<longleftrightarrow>
     (\<forall>a n'. pid_spaces s' a = Some n' \<longrightarrow> (\<exists>n. pid_spaces s a = Some n \<and> space_quiet n n'))
   \<and> (\<forall>p i'. pid_identities s' p = Some i' \<longrightarrow> (\<exists>i. pid_identities s p = Some i
        \<and> pi_numbers i' = pi_numbers i \<and> pi_space i' = pi_space i))"

lemma space_quiet_refl [simp]: "space_quiet n n"
  by (simp add: space_quiet_def)

lemma space_quiet_trans: "space_quiet a b \<Longrightarrow> space_quiet b c \<Longrightarrow> space_quiet a c"
  unfolding space_quiet_def by auto

lemma quiet_refl [simp]: "quiet s s"
  by (simp add: quiet_def)

lemma quiet_spaceD: "quiet s s' \<Longrightarrow> pid_spaces s' a = Some n' \<Longrightarrow> \<exists>n. pid_spaces s a = Some n \<and> space_quiet n n'"
  by (simp add: quiet_def)

lemma quiet_identityD: "quiet s s' \<Longrightarrow> pid_identities s' p = Some i' \<Longrightarrow>
    \<exists>i. pid_identities s p = Some i \<and> pi_numbers i' = pi_numbers i \<and> pi_space i' = pi_space i"
  by (simp add: quiet_def)

lemma quiet_trans [trans]:
  assumes "quiet a b" "quiet b c"
  shows "quiet a c"
proof -
  have "\<exists>n. pid_spaces a x = Some n \<and> space_quiet n n'" if "pid_spaces c x = Some n'" for x n'
    using quiet_spaceD [OF assms(2) that] quiet_spaceD [OF assms(1)] space_quiet_trans by blast
  moreover have "\<exists>i. pid_identities a p = Some i \<and> pi_numbers i' = pi_numbers i \<and> pi_space i' = pi_space i"
    if "pid_identities c p = Some i'" for p i'
    using quiet_identityD [OF assms(2) that] quiet_identityD [OF assms(1)] by metis
  ultimately show ?thesis by (simp add: quiet_def)
qed

lemma quiet_put_space:
  assumes "\<And>n. space_quiet n (f n)"
  shows "quiet s (put_space a f s)"
  using assms by (auto simp: quiet_def pid_frame)

lemma quiet_put_identity:
  assumes "\<And>i. pi_numbers (f i) = pi_numbers i \<and> pi_space (f i) = pi_space i"
  shows "quiet s (put_identity p f s)"
  using assms by (auto simp: quiet_def pid_frame)

lemma quiet_same:
  "pid_spaces s' = pid_spaces s \<Longrightarrow> pid_identities s' = pid_identities s \<Longrightarrow> quiet s s'"
  by (simp add: quiet_def)

lemma quiet_free_space: "pid_spaces s' = (pid_spaces s)(a := None) \<Longrightarrow> pid_identities s' = pid_identities s \<Longrightarrow> quiet s s'"
  by (simp add: quiet_def)

lemma quiet_free_identity: "pid_spaces s' = pid_spaces s \<Longrightarrow> pid_identities s' = (pid_identities s)(p := None) \<Longrightarrow> quiet s s'"
  by (simp add: quiet_def)

text \<open>A quiet step keeps the invariant when the identities in the tables stay allocated.\<close>

lemma pid_wf_quiet:
  assumes wf: "pid_wf s" and q: "quiet s s'"
    and kept: "\<And>a k x. number_at s' a k = Some x \<Longrightarrow> pid_identities s' (pn_identity x) \<noteq> None"
  shows "pid_wf s'"
proof -
  have "entry_ok s' (a # ps_parent n') k x"
    if n': "pid_spaces s' a = Some n'" and x: "slot_find (ps_numbers n') k = Some x" for a n' k x
  proof -
    obtain n where n: "pid_spaces s a = Some n" "space_quiet n n'"
      using quiet_spaceD [OF q n'] by blast
    hence sub: "slot_find (ps_numbers n) k = Some x" "ps_parent n' = ps_parent n"
      using x wf by (auto simp: space_quiet_def pid_wf_def)
    obtain i' where i': "pid_identities s' (pn_identity x) = Some i'"
      using kept [of a k x] n' x by (auto simp: number_at_def)
    obtain i where "pid_identities s (pn_identity x) = Some i" "pi_numbers i' = pi_numbers i"
      using quiet_identityD [OF q i'] by blast
    moreover have "entry_ok s (a # ps_parent n) k x"
      using wf n(1) sub by (auto simp: pid_wf_def)
    ultimately show ?thesis using i' sub by (simp add: entry_ok_def)
  qed
  moreover have "space_wf n'" if "pid_spaces s' a = Some n'" for a n'
    using wf quiet_spaceD [OF q that] by (auto simp: space_quiet_def pid_wf_def)
  moreover have "identity_ok i'" if "pid_identities s' p = Some i'" for p i'
    using wf quiet_identityD [OF q that] by (auto simp: identity_ok_def pid_wf_def)
  ultimately show ?thesis by (simp add: pid_wf_def)
qed

lemma quiet_number: "pid_wf s \<Longrightarrow> quiet s s' \<Longrightarrow> number_at s' a k = Some x \<Longrightarrow> number_at s a k = Some x"
  using quiet_spaceD [of s s' a] by (force simp: number_at_def space_quiet_def pid_wf_def split: option.splits)

lemma pid_wf_identity: "pid_wf s \<Longrightarrow> number_at s a k = Some x \<Longrightarrow> pid_identities s (pn_identity x) \<noteq> None"
  by (force simp: number_at_def pid_wf_def entry_ok_def split: option.splits)

lemma pid_wf_quiet_same:
  assumes "pid_wf s" "quiet s s'" "\<And>p. pid_identities s p \<noteq> None \<Longrightarrow> pid_identities s' p \<noteq> None"
  shows "pid_wf s'"
  using assms pid_wf_quiet quiet_number pid_wf_identity by metis

section \<open>The operations that enter no number\<close>

lemma quiet_namespace_retain: "quiet s (md_pid_namespace_retain n s)"
  by (auto simp: md_pid_namespace_retain_def space_quiet_def space_wf_def
      split: list.split intro!: quiet_put_space)

lemma identities_namespace_retain [pid_frame]: "pid_identities (md_pid_namespace_retain n s) = pid_identities s"
  by (simp add: md_pid_namespace_retain_def pid_frame split: list.split)

lemma identities_namespace_release [pid_frame]: "pid_identities (md_pid_namespace_release n s) = pid_identities s"
  by (induction n arbitrary: s) (simp_all add: Let_def pid_frame)

lemma quiet_reference_step: "quiet s (put_space a (\<lambda>x. x\<lparr>ps_references := f x\<rparr>) s)"
  by (rule quiet_put_space) (simp add: space_quiet_def space_wf_def)

lemma quiet_namespace_release: "quiet s (md_pid_namespace_release n s)"
proof (induction n arbitrary: s)
  case (Cons a up)
  let ?s1 = "put_space a (\<lambda>x. x\<lparr>ps_references := ps_references x - 1\<rparr>) s"
  let ?s2 = "?s1\<lparr>pid_registry := remove1 a (pid_registry ?s1)\<rparr>"
  let ?s3 = "md_pid_namespace_release up ?s2"
  have one: "quiet s ?s1" by (rule quiet_reference_step)
  have "quiet ?s1 ?s2" by (rule quiet_same) simp_all
  also have "quiet ?s2 ?s3" by (rule Cons.IH)
  also have "quiet ?s3 (?s3\<lparr>pid_spaces := (pid_spaces ?s3)(a := None),
      pid_users := md_user_namespace_release (ps_owner (space_at s a)) (pid_users ?s3)\<rparr>)"
    by (rule quiet_free_space) simp_all
  finally show ?case using one quiet_trans [OF one] by (simp add: Let_def)
qed simp

lemma unreserve_one_frame [pid_frame]: "pid_identities (unreserve_one p i x s) = pid_identities s"
  by (simp add: unreserve_one_def pid_frame split: list.split)

lemma unreserve_from_frame [pid_frame]: "pid_identities (unreserve_from p i xs s) = pid_identities s"
  by (induction p i xs s rule: unreserve_from.induct) (simp_all add: pid_frame)

lemma quiet_unreserve_one: "quiet s (unreserve_one p i x s)"
  by (auto simp: unreserve_one_def space_quiet_def space_wf_def nums.look_del nums.ok_del
      split: list.split if_splits intro!: quiet_put_space)

lemma quiet_unreserve_from: "quiet s (unreserve_from p i xs s)"
  by (induction p i xs s rule: unreserve_from.induct) (auto intro: quiet_trans quiet_unreserve_one)

lemma quiet_unreserve: "quiet s (unreserve p s)"
  by (simp add: unreserve_def quiet_unreserve_from)

definition spaces_wf :: "pid_store \<Rightarrow> bool" where
  "spaces_wf s \<longleftrightarrow> (\<forall>a n. pid_spaces s a = Some n \<longrightarrow> space_wf n)"

lemma pid_wf_spaces: "pid_wf s \<Longrightarrow> spaces_wf s"
  by (simp add: pid_wf_def spaces_wf_def)

lemma spaces_wf_quiet: "spaces_wf s \<Longrightarrow> quiet s s' \<Longrightarrow> spaces_wf s'"
  using quiet_spaceD by (fastforce simp: spaces_wf_def space_quiet_def)

lemma number_at_unreserve_one:
  assumes "spaces_wf s"
  shows "number_at (unreserve_one p i x s) a k =
    (if fst x \<noteq> [] \<and> hd (fst x) = a \<and> number_at s a k = Some \<lparr>pn_identity = p, pn_index = i, pn_number = snd x\<rparr>
     then None else number_at s a k)"
proof (cases "fst x \<noteq> [] \<and> hd (fst x) = a")
  case True
  then obtain up where x: "fst x = a # up" by (cases "fst x") auto
  show ?thesis
  proof (cases "pid_spaces s a")
    case (Some n)
    hence "table_wf (ps_numbers n)" using assms by (simp add: spaces_wf_def space_wf_def)
    thus ?thesis using x Some by (simp add: unreserve_one_def number_at_def pid_frame nums.look_del)
  qed (use x in \<open>simp add: unreserve_one_def number_at_def pid_frame\<close>)
next
  case False
  thus ?thesis by (auto simp: unreserve_one_def number_at_def pid_frame split: list.split)
qed

text \<open>Unreserving removes exactly the entries that the identity recorded.\<close>

lemma number_at_unreserve_from:
  "spaces_wf s \<Longrightarrow> number_at (unreserve_from p i xs s) a k =
    (case number_at s a k of None \<Rightarrow> None
     | Some x \<Rightarrow>
        if \<exists>j < length xs. fst (xs ! j) \<noteq> [] \<and> hd (fst (xs ! j)) = a
             \<and> x = \<lparr>pn_identity = p, pn_index = i + j, pn_number = snd (xs ! j)\<rparr>
        then None else Some x)"
proof (induction xs arbitrary: i s)
  case (Cons y ys)
  have wf: "spaces_wf (unreserve_one p i y s)"
    by (rule spaces_wf_quiet [OF Cons.prems quiet_unreserve_one])
  have split: "(\<exists>j < length (y # ys). Q ((y # ys) ! j) (i + j)) \<longleftrightarrow> Q y i \<or> (\<exists>j < length ys. Q (ys ! j) (Suc i + j))" for Q
    by (simp add: ex_simps Bex_def [symmetric] less_Suc_eq_0_disj) auto
  show ?case
    unfolding unreserve_from.simps Cons.IH [OF wf] number_at_unreserve_one [OF Cons.prems]
    using split [of "\<lambda>z m. fst z \<noteq> [] \<and> hd (fst z) = a \<and> the (number_at s a k) = \<lparr>pn_identity = p, pn_index = m, pn_number = snd z\<rparr>"]
    by (cases "number_at s a k") auto
qed (simp split: option.split)

lemma number_at_unreserve:
  assumes wf: "pid_wf s"
  shows "number_at (unreserve p s) a k =
    (case number_at s a k of None \<Rightarrow> None | Some x \<Rightarrow> if pn_identity x = p then None else Some x)"
proof (cases "number_at s a k")
  case (Some x)
  have "pn_identity x = p \<longleftrightarrow> (\<exists>j < length (pi_numbers (identity_at s p)). fst (pi_numbers (identity_at s p) ! j) \<noteq> []
      \<and> hd (fst (pi_numbers (identity_at s p) ! j)) = a
      \<and> x = \<lparr>pn_identity = p, pn_index = 0 + j, pn_number = snd (pi_numbers (identity_at s p) ! j)\<rparr>)" (is "_ \<longleftrightarrow> ?R")
  proof
    assume p: "pn_identity x = p"
    obtain n where n: "pid_spaces s a = Some n" "slot_find (ps_numbers n) k = Some x"
      using Some by (auto simp: number_at_def split: option.splits)
    hence e: "entry_ok s (a # ps_parent n) k x" using wf by (simp add: pid_wf_def)
    obtain i where i: "pid_identities s p = Some i" "pn_index x < length (pi_numbers i)"
        "pi_numbers i ! pn_index x = (a # ps_parent n, k)"
      using e p by (auto simp: entry_ok_def split: option.splits)
    show ?R
      using i slot_find_key [OF n(2)] p by (intro exI [of _ "pn_index x"]) (simp add: identity_at_def)
  qed auto
  thus ?thesis
    using Some by (simp add: unreserve_def number_at_unreserve_from [OF pid_wf_spaces [OF wf]])
qed (simp add: unreserve_def number_at_unreserve_from [OF pid_wf_spaces [OF wf]])

lemma pid_wf_unreserve: "pid_wf s \<Longrightarrow> pid_wf (unreserve p s)"
  using pid_wf_quiet_same [OF _ quiet_unreserve] by (simp add: unreserve_def pid_frame)

lemma pid_wf_put_identity:
  assumes "pid_wf s" "\<And>i. pi_numbers (f i) = pi_numbers i \<and> pi_space (f i) = pi_space i"
  shows "pid_wf (put_identity p f s)"
  by (rule pid_wf_quiet_same [OF assms(1) quiet_put_identity [OF assms(2)]]) (auto simp: pid_frame)

lemma pid_wf_put_space:
  assumes "pid_wf s" "\<And>n. space_quiet n (f n)"
  shows "pid_wf (put_space a f s)"
  by (rule pid_wf_quiet_same [OF assms(1) quiet_put_space [OF assms(2)]]) (auto simp: pid_frame)

lemma pid_wf_namespace_release: "pid_wf s \<Longrightarrow> pid_wf (md_pid_namespace_release n s)"
  by (rule pid_wf_quiet_same [OF _ quiet_namespace_release]) (simp_all add: pid_frame)

lemma pid_wf_namespace_retain: "pid_wf s \<Longrightarrow> pid_wf (md_pid_namespace_retain n s)"
  by (rule pid_wf_quiet_same [OF _ quiet_namespace_retain]) (simp_all add: pid_frame)

lemma quiet_identity_release: "quiet s (md_pid_identity_release op s)"
proof (cases op)
  case (Some p)
  let ?s1 = "put_identity p (\<lambda>i. i\<lparr>pi_references := pi_references i - 1\<rparr>) s"
  let ?s2 = "md_pid_namespace_release (pi_space (identity_at s p)) (unreserve p ?s1)"
  have one: "quiet s ?s1" by (rule quiet_put_identity) simp
  have "quiet s (unreserve p ?s1)"
    by (rule quiet_trans [OF one quiet_unreserve])
  also have "quiet \<dots> ?s2" by (rule quiet_namespace_release)
  also have "quiet \<dots> (?s2\<lparr>pid_identities := (pid_identities ?s2)(p := None)\<rparr>)"
    by (rule quiet_free_identity) simp_all
  finally show ?thesis using Some one by (simp add: md_pid_identity_release_def Let_def)
qed (simp add: md_pid_identity_release_def)

text \<open>The last release of an identity takes its numbers out of every table.\<close>

lemma number_at_release_last:
  assumes wf: "pid_wf s" and last: "pi_references (identity_at s p) = 1"
    and x: "number_at (md_pid_identity_release (Some p) s) a k = Some x"
  shows "pn_identity x \<noteq> p"
proof -
  let ?s1 = "put_identity p (\<lambda>i. i\<lparr>pi_references := pi_references i - 1\<rparr>) s"
  let ?s2 = "md_pid_namespace_release (pi_space (identity_at s p)) (unreserve p ?s1)"
  have wf1: "pid_wf ?s1" by (rule pid_wf_put_identity [OF wf]) simp
  have "number_at ?s2 a k = Some x"
    using x last by (simp add: md_pid_identity_release_def Let_def number_at_def)
  hence "number_at (unreserve p ?s1) a k = Some x"
    by (rule quiet_number [OF pid_wf_unreserve [OF wf1] quiet_namespace_release])
  thus ?thesis by (auto simp: number_at_unreserve [OF wf1] split: option.splits if_splits)
qed

lemma identities_release:
  "q \<noteq> p \<Longrightarrow> pid_identities (md_pid_identity_release (Some p) s) q = pid_identities s q"
  "pi_references (identity_at s p) \<noteq> 1 \<Longrightarrow> pid_identities s p \<noteq> None
     \<Longrightarrow> pid_identities (md_pid_identity_release (Some p) s) p \<noteq> None"
  by (simp_all add: md_pid_identity_release_def Let_def pid_frame unreserve_def)

lemma pid_wf_identity_release:
  assumes wf: "pid_wf s"
  shows "pid_wf (md_pid_identity_release op s)"
proof (cases op)
  case (Some p)
  show ?thesis
  proof (rule pid_wf_quiet [OF wf quiet_identity_release])
    fix a k x
    assume x: "number_at (md_pid_identity_release op s) a k = Some x"
    hence "pid_identities s (pn_identity x) \<noteq> None"
      using quiet_number [OF wf quiet_identity_release] pid_wf_identity [OF wf] by blast
    thus "pid_identities (md_pid_identity_release op s) (pn_identity x) \<noteq> None"
      using Some x number_at_release_last [OF wf] identities_release by metis
  qed
qed (simp add: wf md_pid_identity_release_def)

lemma quiet_identity_retain: "quiet s (md_pid_identity_retain op s)"
  by (simp add: md_pid_identity_retain_def quiet_put_identity split: option.split)

lemma quiet_try_retain: "quiet s (snd (try_retain p s))"
  by (simp add: try_retain_def quiet_identity_retain)

lemma quiet_mark: "quiet s (fold mark_initialized xs s)"
proof (induction xs arbitrary: s)
  case (Cons x xs)
  have "quiet s (mark_initialized x s)"
    by (auto simp: mark_initialized_def space_quiet_def space_wf_def split: list.split intro!: quiet_put_space)
  thus ?case using quiet_trans [OF _ Cons.IH] by simp
qed simp

lemma quiet_publish: "quiet s (snd (md_pid_identity_publish op native grp s))"
  by (auto simp: md_pid_identity_publish_def split: option.split
      intro!: quiet_trans [OF quiet_mark quiet_put_identity])

lemma quiet_exit: "quiet s (snd (md_pid_identity_exit op s))"
proof -
  have one: "quiet s (put_identity p (\<lambda>i. i\<lparr>pi_live := False\<rparr>) s)" for p
    by (rule quiet_put_identity) simp
  have "quiet t (put_space a (\<lambda>n. n\<lparr>ps_dead := True\<rparr>) t)" for a t
    by (rule quiet_put_space) (simp add: space_quiet_def space_wf_def)
  hence "quiet s (put_space a (\<lambda>n. n\<lparr>ps_dead := True\<rparr>) (put_identity p (\<lambda>i. i\<lparr>pi_live := False\<rparr>) s))" for a p
    using quiet_trans [OF one] by blast
  thus ?thesis
    using one by (simp add: md_pid_identity_exit_def Let_def split: option.split list.split)
qed

lemma quiet_reap: "quiet s (md_pid_identity_reap op s)"
  by (auto simp: md_pid_identity_reap_def split: option.split
      intro!: quiet_trans [OF quiet_put_identity quiet_unreserve])

lemma quiet_exec: "quiet s (md_pid_identity_exec t g s)"
  by (auto simp: md_pid_identity_exec_def split: option.split
      intro!: quiet_trans [OF quiet_put_identity quiet_put_identity])

lemma quiet_set_subreaper: "quiet s (md_pid_identity_set_subreaper op b s)"
  by (auto simp: md_pid_identity_set_subreaper_def split: option.split intro!: quiet_put_identity)

lemma quiet_reboot_started: "quiet s (md_pid_namespace_reboot_started a k s)"
  by (auto simp: md_pid_namespace_reboot_started_def space_quiet_def space_wf_def intro!: quiet_put_space)

lemma quiet_by_inode: "quiet s (snd (md_pid_namespace_by_inode ino s))"
  by (auto simp: md_pid_namespace_by_inode_def quiet_reference_step split: option.split)

lemma quiet_lookup: "quiet s (snd (md_pid_namespace_lookup n k s))"
  by (simp add: md_pid_namespace_lookup_def quiet_try_retain split: list.split option.split)

lemma quiet_find_native: "quiet s (snd (find_native s native bs))"
proof (induction bs arbitrary: s)
  case (Cons b bs)
  show ?case
    using Cons.IH quiet_try_retain quiet_trans
    by (fastforce split: option.split prod.split simp: try_retain_def quiet_identity_retain)
qed simp

lemma quiet_find: "quiet s (snd (md_pid_namespace_find n native s))"
  by (simp add: md_pid_namespace_find_def quiet_find_native split: list.split)

lemmas quiet_ops = quiet_identity_retain quiet_publish quiet_exit quiet_reap quiet_exec quiet_set_subreaper
  quiet_reboot_started quiet_by_inode quiet_lookup quiet_find quiet_namespace_retain quiet_namespace_release
  quiet_identity_release

lemma identities_mark [pid_frame]: "pid_identities (fold mark_initialized xs s) = pid_identities s"
  by (induction xs arbitrary: s) (simp_all add: mark_initialized_def pid_frame split: list.split)

lemma identities_find_native: "pid_identities s q \<noteq> None \<Longrightarrow> pid_identities (snd (find_native s native bs)) q \<noteq> None"
  by (induction bs arbitrary: s)
    (auto simp: try_retain_def md_pid_identity_retain_def pid_frame split: option.split prod.split)

text \<open>Every operation but the last release keeps every identity allocated.\<close>

lemma identities_kept:
  assumes "pid_identities s q \<noteq> None"
  shows "pid_identities (md_pid_identity_retain op s) q \<noteq> None"
    and "pid_identities (snd (md_pid_identity_publish op native grp s)) q \<noteq> None"
    and "pid_identities (snd (md_pid_identity_exit op s)) q \<noteq> None"
    and "pid_identities (md_pid_identity_reap op s) q \<noteq> None"
    and "pid_identities (md_pid_identity_exec op og s) q \<noteq> None"
    and "pid_identities (md_pid_identity_set_subreaper op b s) q \<noteq> None"
    and "pid_identities (md_pid_namespace_reboot_started a k s) q \<noteq> None"
    and "pid_identities (snd (md_pid_namespace_by_inode ino s)) q \<noteq> None"
    and "pid_identities (snd (md_pid_namespace_lookup n k s)) q \<noteq> None"
  using assms
  by (auto simp: md_pid_identity_retain_def md_pid_identity_publish_def md_pid_identity_exit_def Let_def
      md_pid_identity_reap_def unreserve_def md_pid_identity_exec_def md_pid_identity_set_subreaper_def
      md_pid_namespace_reboot_started_def md_pid_namespace_by_inode_def md_pid_namespace_lookup_def
      try_retain_def pid_frame
      split: option.split list.split)

lemma identities_kept_find:
  "pid_identities s q \<noteq> None \<Longrightarrow> pid_identities (snd (md_pid_namespace_find n native s)) q \<noteq> None"
  using identities_find_native by (simp add: md_pid_namespace_find_def split: list.split)

section \<open>Reservation in every namespace of a chain\<close>

text \<open>\<open>grown p s s'\<close>: from \<open>s\<close> to \<open>s'\<close> the tables lost nothing and gained entries of \<open>p\<close> only.\<close>

definition same_frame :: "pid_space \<Rightarrow> pid_space \<Rightarrow> bool" where
  "same_frame n n' \<longleftrightarrow> ps_parent n' = ps_parent n \<and> ps_references n' = ps_references n \<and> ps_dead n' = ps_dead n"

definition grown :: "nat \<Rightarrow> pid_store \<Rightarrow> pid_store \<Rightarrow> bool" where
  "grown p s s' \<longleftrightarrow>
     (\<forall>a. rel_option same_frame (pid_spaces s a) (pid_spaces s' a))
   \<and> (\<forall>a k x. number_at s a k = Some x \<longrightarrow> number_at s' a k = Some x)
   \<and> (\<forall>a k x. number_at s' a k = Some x \<longrightarrow> number_at s a k = Some x \<or> pn_identity x = p)
   \<and> (\<forall>a n k x. pid_spaces s a = Some n \<and> ps_dead n \<and> number_at s' a k = Some x \<longrightarrow> number_at s a k = Some x)"

lemma grown_refl: "grown p s s"
  by (auto simp: grown_def same_frame_def option.rel_refl)

lemma grown_space:
  assumes "grown p s s'" "pid_spaces s a = Some n"
  obtains n' where "pid_spaces s' a = Some n'" "ps_parent n' = ps_parent n" "ps_references n' = ps_references n"
    "ps_dead n' = ps_dead n"
  using assms that unfolding grown_def same_frame_def by (metis (mono_tags, lifting) option_rel_Some1)

lemma grown_chain_ok: "grown p s s' \<Longrightarrow> chain_ok s ptr \<Longrightarrow> chain_ok s' ptr"
  by (induction ptr) (auto elim: grown_space)

lemma grown_dead: "grown p s s' \<Longrightarrow> pid_spaces s a = Some n \<Longrightarrow> ps_dead n \<Longrightarrow> \<exists>n'. pid_spaces s' a = Some n' \<and> ps_dead n'"
  by (metis grown_space)

lemma grown_frame: "grown p s s' \<Longrightarrow> rel_option same_frame (pid_spaces s a) (pid_spaces s' a)"
  unfolding grown_def by blast

lemma grown_trans:
  assumes "grown p s t" "grown p t u"
  shows "grown p s u"
proof -
  have "rel_option same_frame (pid_spaces s a) (pid_spaces u a)" for a
    using grown_frame [OF assms(1), of a] grown_frame [OF assms(2), of a]
    by (cases "pid_spaces s a"; cases "pid_spaces t a"; cases "pid_spaces u a") (auto simp: same_frame_def)
  moreover have "number_at s a k = Some x"
    if "pid_spaces s a = Some n" "ps_dead n" "number_at u a k = Some x" for a n k x
    using that assms grown_dead [OF assms(1)] unfolding grown_def by metis
  moreover have "number_at u a k = Some x" if "number_at s a k = Some x" for a k x
    using that assms unfolding grown_def by metis
  moreover have "number_at s a k = Some x \<or> pn_identity x = p" if "number_at u a k = Some x" for a k x
    using that assms unfolding grown_def by metis
  ultimately show ?thesis
    unfolding grown_def by simp
qed

text \<open>One granted reservation of \<open>prepare_chain\<close>.\<close>

definition reserved_store :: "nat \<Rightarrow> nat \<Rightarrow> pid_ptr \<Rightarrow> int \<Rightarrow> pid_space \<Rightarrow> pid_store \<Rightarrow> pid_store" where
  "reserved_store p a up k n s =
     put_identity p (\<lambda>x. x\<lparr>pi_numbers := pi_numbers x @ [(a # up, k)]\<rparr>) (put_space a (\<lambda>_. n) s)"

lemma reserved_grown:
  assumes wf: "pid_wf s" and n: "pid_spaces s a = Some n" and alive: "\<not> ps_dead n"
    and free: "slot_find (ps_numbers n) k = None"
    and n': "ps_parent n' = ps_parent n" "ps_references n' = ps_references n" "ps_dead n' = ps_dead n"
      "ps_numbers n' = slot_insert \<lparr>pn_identity = p, pn_index = j, pn_number = k\<rparr> (ps_numbers n)"
  shows "grown p s (reserved_store p a up k n' s)"
    and "number_at (reserved_store p a up k n' s) b l =
      (if b = a \<and> l = k then Some \<lparr>pn_identity = p, pn_index = j, pn_number = k\<rparr> else number_at s b l)"
proof -
  have twf: "table_wf (ps_numbers n)" using wf n by (simp add: pid_wf_def space_wf_def)
  have at: "number_at (reserved_store p a up k n' s) b l =
      (if b = a \<and> l = k then Some \<lparr>pn_identity = p, pn_index = j, pn_number = k\<rparr> else number_at s b l)" for b l
    using n n' free
    by (simp add: reserved_store_def number_at_def pid_frame nums.look_ins [OF twf])
  have "number_at s a k = None" using n free by (simp add: number_at_def)
  moreover have "rel_option same_frame (pid_spaces s b) (pid_spaces (reserved_store p a up k n' s) b)" for b
    using n n' by (simp add: reserved_store_def pid_frame same_frame_def option.rel_refl)
  ultimately show "grown p s (reserved_store p a up k n' s)"
    using at n alive by (auto simp: grown_def)
  show "number_at (reserved_store p a up k n' s) b l =
      (if b = a \<and> l = k then Some \<lparr>pn_identity = p, pn_index = j, pn_number = k\<rparr> else number_at s b l)"
    by (rule at)
qed

lemma reserved_wf:
  assumes wf: "pid_wf s" and n: "pid_spaces s a = Some n" and up: "ps_parent n = up"
    and i: "pid_identities s p = Some i"
    and chain: "map fst (pi_numbers i) @ (a # up) # rest = pid_chain (pi_space i)"
    and alive: "\<not> ps_dead n" and free: "slot_find (ps_numbers n) k = None" and n'wf: "space_wf n'"
    and n': "ps_parent n' = ps_parent n" "ps_references n' = ps_references n" "ps_dead n' = ps_dead n"
      "ps_numbers n' = slot_insert \<lparr>pn_identity = p, pn_index = length (pi_numbers i), pn_number = k\<rparr> (ps_numbers n)"
  shows "pid_wf (reserved_store p a up k n' s)" (is "pid_wf ?t")
proof -
  let ?e = "\<lparr>pn_identity = p, pn_index = length (pi_numbers i), pn_number = k\<rparr>"
  let ?i = "i\<lparr>pi_numbers := pi_numbers i @ [(a # up, k)]\<rparr>"
  have ids: "pid_identities ?t = (pid_identities s)(p \<mapsto> ?i)"
    using i by (simp add: reserved_store_def pid_frame)
  have spaces: "pid_spaces ?t = (pid_spaces s)(a \<mapsto> n')"
    using n by (simp add: reserved_store_def pid_frame)
  have old: "entry_ok ?t ptr l x" if "entry_ok s ptr l x" for ptr l x
    using that i by (auto simp: entry_ok_def ids nth_append split: option.splits if_splits)
  have at: "number_at ?t b l = (if b = a \<and> l = k then Some ?e else number_at s b l)" for b l
    by (rule reserved_grown(2) [OF wf n alive free n'])
  have "entry_ok ?t (b # ps_parent m) l x" if m: "pid_spaces ?t b = Some m" and x: "slot_find (ps_numbers m) l = Some x" for b m l x
  proof (cases "b = a \<and> l = k")
    case True
    hence "x = ?e" "m = n'" using at [of b l] m x spaces by (auto simp: number_at_def)
    thus ?thesis using True up n' by (simp add: entry_ok_def ids)
  next
    case False
    hence "number_at s b l = Some x" using at [of b l] m x by (auto simp: number_at_def)
    then obtain m0 where m0: "pid_spaces s b = Some m0" "slot_find (ps_numbers m0) l = Some x"
      by (auto simp: number_at_def split: option.splits)
    hence "ps_parent m = ps_parent m0" using m spaces n n' by (auto split: if_splits)
    thus ?thesis using old m0 wf by (simp add: pid_wf_def)
  qed
  moreover have "space_wf m" if "pid_spaces ?t b = Some m" for b m
    using that n'wf wf by (auto simp: spaces pid_wf_def split: if_splits)
  moreover have "identity_ok ?i"
    using chain by (auto simp: identity_ok_def simp flip: chain)
  hence "identity_ok m" if "pid_identities ?t q = Some m" for q m
    using that wf by (auto simp: ids pid_wf_def split: if_splits)
  ultimately show ?thesis by (simp add: pid_wf_def)
qed

text \<open>The numbers recorded by \<open>p\<close> are in the tables, under \<open>p\<close>.\<close>

definition backed :: "nat \<Rightarrow> pid_store \<Rightarrow> bool" where
  "backed p s \<longleftrightarrow> (\<forall>j < length (pi_numbers (identity_at s p)).
     \<exists>a up k. pi_numbers (identity_at s p) ! j = (a # up, k)
       \<and> number_at s a k = Some \<lparr>pn_identity = p, pn_index = j, pn_number = k\<rparr>)"

definition fresh_in :: "pid_store \<Rightarrow> (pid_ptr \<times> int) list \<Rightarrow> bool" where
  "fresh_in s ks \<longleftrightarrow> (\<forall>(ptr, k) \<in> set ks. ptr \<noteq> [] \<and> number_at s (hd ptr) k = None \<and> 1 \<le> k \<and> k < MD_PID_MAX)"

lemma select_range: "select_error s ov a req = None \<Longrightarrow> 0 \<le> (case req of Some k \<Rightarrow> k | None \<Rightarrow> 0)
    \<and> (case req of Some k \<Rightarrow> k | None \<Rightarrow> 0) < MD_PID_MAX"
  by (auto simp: select_error_def MD_PID_MAX_def split: option.splits if_splits)

text \<open>
  What \<open>prepare_chain\<close> leaves behind from the identity \<open>i\<close> on: \<open>ks\<close> are the numbers it reserved,
  released again when it fails.
\<close>

definition prepared ::
  "nat \<Rightarrow> int list \<Rightarrow> pid_identity \<Rightarrow> pid_ptr \<Rightarrow> pid_store \<Rightarrow> unit result \<Rightarrow> pid_store \<Rightarrow> (pid_ptr \<times> int) list \<Rightarrow> bool" where
  "prepared p sel i ptr s r t ks \<longleftrightarrow> fresh_in s ks
     \<and> (case r of
          Inl e \<Rightarrow> \<exists>u. t = md_pid_identity_release (Some p) u \<and> pid_wf u \<and> grown p s u
                    \<and> pid_identities u = (pid_identities s)(p \<mapsto> i\<lparr>pi_numbers := pi_numbers i @ ks\<rparr>)
        | Inr _ \<Rightarrow> pid_wf t \<and> grown p s t \<and> backed p t \<and> map fst ks = pid_chain ptr
                    \<and> (\<forall>j < length ks. length (pi_numbers i) + j < length sel
                          \<longrightarrow> snd (ks ! j) = sel ! (length (pi_numbers i) + j))
                    \<and> pid_identities t = (pid_identities s)(p \<mapsto> i\<lparr>pi_numbers := pi_numbers i @ ks\<rparr>))"

lemma prepared_stop:
  assumes "pid_wf s" "pid_identities s p = Some i"
  shows "prepared p sel i ptr s (Inl e) (md_pid_identity_release (Some p) s) []"
  using assms grown_refl by (auto simp: prepared_def fresh_in_def fun_upd_idem)

lemma prepared_step:
  assumes g: "grown p s t" and free: "number_at s a k = None" "1 \<le> k" "k < MD_PID_MAX"
    and sel: "length (pi_numbers i) < length sel \<Longrightarrow> k = sel ! length (pi_numbers i)"
    and ids: "pid_identities t = (pid_identities s)(p \<mapsto> i\<lparr>pi_numbers := pi_numbers i @ [(a # up, k)]\<rparr>)"
    and rest: "prepared p sel (i\<lparr>pi_numbers := pi_numbers i @ [(a # up, k)]\<rparr>) up t r u ks"
  shows "prepared p sel i (a # up) s r u ((a # up, k) # ks)"
proof -
  have "number_at s b l = None" if "number_at t b l = None" for b l
    using that g unfolding grown_def by (metis not_None_eq option.distinct(1))
  hence "fresh_in s ((a # up, k) # ks)"
    using rest free by (force simp: prepared_def fresh_in_def)
  moreover have "snd (((a # up, k) # ks) ! j) = sel ! (length (pi_numbers i) + j)"
    if "r = Inr ()" "j < length ((a # up, k) # ks)" "length (pi_numbers i) + j < length sel" for j
    using that sel rest by (cases j) (auto simp: prepared_def)
  moreover have "grown p s u" if "r = Inr ()"
    using that rest grown_trans [OF g] by (simp add: prepared_def)
  moreover have "grown p s v" if "grown p t v" for v
    by (rule grown_trans [OF g that])
  ultimately show ?thesis
    using rest by (auto simp: prepared_def ids split: sum.splits)
qed

lemma backed_step:
  assumes "backed p s" "pid_identities s p = Some i" "grown p s t"
    and "pid_identities t p = Some (i\<lparr>pi_numbers := pi_numbers i @ [(a # up, k)]\<rparr>)"
    and "number_at t a k = Some \<lparr>pn_identity = p, pn_index = length (pi_numbers i), pn_number = k\<rparr>"
  shows "backed p t"
proof -
  have keep: "number_at s b l = Some x \<Longrightarrow> number_at t b l = Some x" for b l x
    using assms(3) unfolding grown_def by blast
  have "\<exists>b up' l. (pi_numbers i @ [(a # up, k)]) ! j = (b # up', l)
      \<and> number_at t b l = Some \<lparr>pn_identity = p, pn_index = j, pn_number = l\<rparr>"
    if "j < Suc (length (pi_numbers i))" for j
  proof (cases "j = length (pi_numbers i)")
    case False
    hence "j < length (pi_numbers i)" using that by simp
    then obtain b up' l where "pi_numbers i ! j = (b # up', l)"
        "number_at s b l = Some \<lparr>pn_identity = p, pn_index = j, pn_number = l\<rparr>"
      using assms(1,2) by (force simp: backed_def identity_at_def)
    thus ?thesis using keep that False by (simp add: nth_append)
  qed (use assms(5) in simp)
  thus ?thesis using assms(4) by (simp add: backed_def identity_at_def)
qed

lemma prepare_chain_spec:
  assumes "pid_wf s" "chain_ok s ptr" "pid_identities s p = Some i"
    and "map fst (pi_numbers i) @ pid_chain ptr = pid_chain (pi_space i)" "backed p s"
  shows "\<exists>r t ks. prepare_chain ov sel p (length (pi_numbers i)) ptr s = Some (r, t) \<and> prepared p sel i ptr s r t ks"
  using assms
proof (induction ptr arbitrary: s i)
  case Nil
  have "prepared p sel i [] s (Inr ()) s []"
    using Nil by (simp add: prepared_def fresh_in_def grown_refl fun_upd_idem)
  thus ?case by auto
next
  case (Cons a up)
  let ?j = "length (pi_numbers i)"
  let ?req = "if ?j < length sel then Some (sel ! ?j) else None"
  let ?sel = "case ?req of Some k \<Rightarrow> k | None \<Rightarrow> 0"
  have stop: ?case
    if "prepare_chain ov sel p ?j (a # up) s = Some (Inl e, md_pid_identity_release (Some p) s)" for e
    using that prepared_stop [OF Cons.prems(1,3)] by blast
  obtain n where n: "pid_spaces s a = Some n" "ps_parent n = up" and at: "space_at s a = n"
    using Cons.prems(2) by (auto simp: space_at_def)
  have nwf: "space_wf n" using n Cons.prems(1) by (simp add: pid_wf_def)
  show ?case
  proof (cases "select_error s ov a ?req")
    case (Some e)
    thus ?thesis by (intro stop [of e]) (simp add: Let_def)
  next
    case None
    have rng: "0 \<le> ?sel" "?sel < MD_PID_MAX" using select_range [OF None] by auto
    from nwf rng show ?thesis
    proof (cases rule: reserve_cases [where p = p and i = ?j])
      case (granted k)
      let ?n = "n\<lparr>ps_numbers := slot_insert \<lparr>pn_identity = p, pn_index = ?j, pn_number = k\<rparr> (ps_numbers n),
         ps_next := if ?sel = 0 then next_number k else ps_next n\<rparr>"
      let ?t = "reserved_store p a up k ?n s"
      let ?i = "i\<lparr>pi_numbers := pi_numbers i @ [(a # up, k)]\<rparr>"
      have alive: "\<not> ps_dead n" using granted(1) by (simp add: reserve_refused_def split: if_splits)
      have g: "grown p s ?t" and e: "number_at ?t a k = Some \<lparr>pn_identity = p, pn_index = ?j, pn_number = k\<rparr>"
        using reserved_grown [OF Cons.prems(1) n(1) alive granted(2), of ?n p ?j up] by simp_all
      have "space_wf ?n" by (rule reserve_wf [OF nwf rng granted(8)])
      hence twf: "pid_wf ?t"
        using reserved_wf [OF Cons.prems(1) n Cons.prems(3) _ alive granted(2), of "pid_chain up" ?n] Cons.prems(4) by simp
      have ids: "pid_identities ?t = (pid_identities s)(p \<mapsto> ?i)"
        using Cons.prems(3) by (simp add: reserved_store_def pid_frame)
      have "backed p ?t"
        by (rule backed_step [OF Cons.prems(5,3) g _ e]) (simp add: ids)
      then obtain r u ks where run: "prepare_chain ov sel p (length (pi_numbers ?i)) up ?t = Some (r, u)"
        and IH: "prepared p sel ?i up ?t r u ks"
        using Cons.IH [OF twf, of ?i] grown_chain_ok [OF g] Cons.prems(2,4) ids by auto
      have "?j < length sel \<Longrightarrow> k = sel ! ?j"
        using granted(5) None by (auto simp: select_error_def split: if_splits)
      hence "prepared p sel i (a # up) s r u ((a # up, k) # ks)"
        using prepared_step [OF g _ granted(3,4) _ ids IH] granted(2) n(1) by (simp add: number_at_def)
      thus ?thesis
        using run None granted(8) at by (auto simp: Let_def reserved_store_def)
    next
      case (refused e)
      thus ?thesis using None at by (intro stop [of e]) (simp add: Let_def)
    next
      case full
      thus ?thesis using None at by (intro stop [of EAGAIN]) (simp add: Let_def)
    qed
  qed
qed

definition fresh_identity :: "pid_ptr \<Rightarrow> pid_identity" where
  "fresh_identity space = zero_identity\<lparr>pi_references := 1, pi_space := space\<rparr>"

definition staged_store :: "nat \<Rightarrow> pid_ptr \<Rightarrow> pid_store \<Rightarrow> pid_store" where
  "staged_store p space s = md_pid_namespace_retain space
     (s\<lparr>pid_identities := (pid_identities s)(p \<mapsto> fresh_identity space)\<rparr>)"

lemma staged_frame:
  "pid_identities (staged_store p space s) = (pid_identities s)(p \<mapsto> fresh_identity space)"
  "number_at (staged_store p space s) a k = number_at s a k"
  "map_option ps_parent (pid_spaces (staged_store p space s) a) = map_option ps_parent (pid_spaces s a)"
  "map_option ps_dead (pid_spaces (staged_store p space s) a) = map_option ps_dead (pid_spaces s a)"
  by (auto simp: staged_store_def md_pid_namespace_retain_def number_at_def pid_frame option.map_comp o_def
      split: list.split option.split)

lemma staged_chain [simp]: "chain_ok (staged_store p space s) ptr = chain_ok s ptr"
  by (induction ptr) (simp_all add: staged_frame)

lemma staged_wf:
  assumes wf: "pid_wf s" and fresh: "pid_identities s p = None"
  shows "pid_wf (staged_store p space s)"
proof -
  let ?t = "s\<lparr>pid_identities := (pid_identities s)(p \<mapsto> fresh_identity space)\<rparr>"
  have "entry_ok ?t ptr k x" if "entry_ok s ptr k x" for ptr k x
    using that fresh by (auto simp: entry_ok_def split: option.splits)
  moreover have "identity_ok (fresh_identity space)"
    by (simp add: identity_ok_def fresh_identity_def zero_identity_def)
  ultimately have "pid_wf ?t" using wf by (auto simp: pid_wf_def split: if_splits)
  thus ?thesis unfolding staged_store_def by (rule pid_wf_namespace_retain)
qed

lemma prepare_selected_cases:
  assumes wf: "pid_wf s" and fresh: "pid_identities s p = None" and chain: "chain_ok s space"
  obtains (refused) e where "md_pid_identity_prepare_selected (Some p) space ov selected cnt s = Some (Inl e, s)"
  | (none) "space = []" "md_pid_identity_prepare_selected (Some p) space ov selected cnt s = Some (Inr None, s)"
  | (failed) e t ks where "prepared p (case selected of Some xs \<Rightarrow> take cnt xs | None \<Rightarrow> []) (fresh_identity space) space (staged_store p space s) (Inl e) t ks"
      "md_pid_identity_prepare_selected (Some p) space ov selected cnt s = Some (Inl e, t)" "space \<noteq> []"
  | (granted) t ks where "prepared p (case selected of Some xs \<Rightarrow> take cnt xs | None \<Rightarrow> []) (fresh_identity space) space (staged_store p space s) (Inr ()) t ks"
      "md_pid_identity_prepare_selected (Some p) space ov selected cnt s = Some (Inr (Some p), t)" "space \<noteq> []"
proof -
  let ?sel = "case selected of Some xs \<Rightarrow> take cnt xs | None \<Rightarrow> []"
  have "backed p (staged_store p space s)"
    by (simp add: backed_def identity_at_def staged_frame fresh_identity_def zero_identity_def)
  then obtain r t ks where run: "prepare_chain ov ?sel p 0 space (staged_store p space s) = Some (r, t)"
    and post: "prepared p ?sel (fresh_identity space) space (staged_store p space s) r t ks"
    using prepare_chain_spec [OF staged_wf [OF wf fresh, of space], of space p "fresh_identity space" ov ?sel] chain
    by (auto simp: staged_frame fresh_identity_def zero_identity_def)
  note unfold = md_pid_identity_prepare_selected_def Let_def fresh_identity_def [symmetric] staged_store_def [symmetric]
  show thesis
  proof (cases "cnt > md_pid_namespace_depth s space \<or> cnt \<noteq> 0 \<and> (selected = None \<or> ov = None)")
    case True
    thus thesis using refused [of EINVAL] by (simp add: unfold)
  next
    case False
    show thesis
    proof (cases "space = []")
      case True
      thus thesis using False none by (simp add: unfold)
    next
      case ne: False
      have eq: "md_pid_identity_prepare_selected (Some p) space ov selected cnt s =
          (case r of Inl e \<Rightarrow> Some (Inl e, t) | Inr _ \<Rightarrow> Some (Inr (Some p), t))"
        using False ne run by (auto simp: unfold split: sum.split)
      show thesis using eq ne post failed granted by (cases r) auto
    qed
  qed
qed

lemma grown_keeps: "grown p s t \<Longrightarrow> number_at s a k = Some x \<Longrightarrow> number_at t a k = Some x"
  unfolding grown_def by blast

lemma grown_new: "grown p s t \<Longrightarrow> number_at t a k = Some x \<Longrightarrow> number_at s a k = Some x \<or> pn_identity x = p"
  unfolding grown_def by blast

lemma grown_dead_closed:
  "grown p s t \<Longrightarrow> pid_spaces s a = Some n \<Longrightarrow> ps_dead n \<Longrightarrow> number_at t a k = Some x \<Longrightarrow> number_at s a k = Some x"
  unfolding grown_def by blast

lemma references_unreserve [pid_frame]:
  "map_option ps_references (pid_spaces (unreserve_from p i xs s) a) = map_option ps_references (pid_spaces s a)"
  by (induction p i xs s rule: unreserve_from.induct)
    (auto simp: unreserve_one_def pid_frame option.map_comp o_def split: list.split)

lemma number_at_reference_step [pid_frame]: "number_at (put_space a (\<lambda>x. x\<lparr>ps_references := f x\<rparr>) s) b k = number_at s b k"
  by (simp add: number_at_def pid_frame split: option.split)

lemma number_at_identities [simp]: "number_at (s\<lparr>pid_identities := m\<rparr>) a k = number_at s a k"
  by (simp add: number_at_def)

lemma namespace_release_shared:
  "map_option ps_references (pid_spaces s a) \<noteq> Some 1 \<Longrightarrow> pid_spaces s a \<noteq> None
     \<Longrightarrow> number_at (md_pid_namespace_release (a # up) s) b k = number_at s b k"
  by (auto simp: Let_def pid_frame space_at_def)

text \<open>A failed preparation takes back everything it entered.\<close>

lemma failed_restores:
  assumes wf: "pid_wf s" and fresh: "pid_identities s p = None" and chain: "chain_ok s space"
    and refs: "space \<noteq> []" "ps_references (space_at s (hd space)) \<noteq> 0"
    and post: "prepared p sel (fresh_identity space) space (staged_store p space s) (Inl e) t ks"
  shows "number_at t a k = number_at s a k" and "pid_identities t = pid_identities s"
proof -
  obtain u where u: "t = md_pid_identity_release (Some p) u" "pid_wf u" "grown p (staged_store p space s) u"
    and ids: "pid_identities u = (pid_identities (staged_store p space s))(p \<mapsto> (fresh_identity space)\<lparr>pi_numbers := ks\<rparr>)"
    using post by (auto simp: prepared_def fresh_identity_def zero_identity_def)
  obtain b up where sp: "space = b # up" using refs(1) by (cases space) auto
  have one: "pi_references (identity_at u p) = 1" "pi_space (identity_at u p) = space"
    by (simp_all add: identity_at_def ids fresh_identity_def)
  let ?u1 = "put_identity p (\<lambda>i. i\<lparr>pi_references := pi_references i - 1\<rparr>) u"
  have wf1: "pid_wf ?u1" by (rule pid_wf_put_identity [OF u(2)]) simp
  obtain n where n: "pid_spaces s b = Some n" "ps_references n \<noteq> 0"
    using chain sp refs(2) by (auto simp: space_at_def)
  have "pid_spaces (staged_store p space s) b = Some (n\<lparr>ps_references := ps_references n + 1\<rparr>)"
    using n sp by (simp add: staged_store_def md_pid_namespace_retain_def pid_frame)
  then obtain n' where "pid_spaces u b = Some n'" "ps_references n' = ps_references n + 1"
    using grown_space [OF u(3)] by force
  hence r: "map_option ps_references (pid_spaces (unreserve p ?u1) b) = Some (ps_references n + 1)"
    by (simp add: unreserve_def pid_frame)
  hence shared: "number_at (md_pid_namespace_release (b # up) (unreserve p ?u1)) a k = number_at (unreserve p ?u1) a k"
    using n(2) by (intro namespace_release_shared) auto
  have "number_at t a k = number_at (unreserve p ?u1) a k"
    using one sp shared by (simp add: u(1) md_pid_identity_release_def Let_def)
  also have "\<dots> = (case number_at u a k of None \<Rightarrow> None | Some x \<Rightarrow> if pn_identity x = p then None else Some x)"
    by (simp add: number_at_unreserve [OF wf1] pid_frame)
  also have "\<dots> = number_at s a k"
  proof (cases "number_at s a k")
    case (Some x)
    hence "number_at u a k = Some x" "pn_identity x \<noteq> p"
      using grown_keeps [OF u(3)] pid_wf_identity [OF wf Some] fresh by (auto simp: staged_frame)
    thus ?thesis using Some by simp
  next
    case None
    hence "number_at u a k = Some x \<Longrightarrow> pn_identity x = p" for x
      using grown_new [OF u(3), of a k x] by (simp add: staged_frame)
    thus ?thesis using None by (simp split: option.split)
  qed
  finally show "number_at t a k = number_at s a k" .
  show "pid_identities t = pid_identities s"
    using fresh one by (simp add: u(1) md_pid_identity_release_def Let_def pid_frame unreserve_def ids staged_frame fun_upd_idem)
qed

lemma granted_numbers:
  assumes post: "prepared p sel (fresh_identity space) space (staged_store p space s) (Inr ()) t ks"
    and wf: "pid_wf s" and fresh: "pid_identities s p = None"
  shows "map fst ks = pid_chain space" "pi_numbers (identity_at t p) = ks" "pid_wf t"
    and "\<And>j. j < length ks \<Longrightarrow> j < length sel \<Longrightarrow> snd (ks ! j) = sel ! j"
    and "\<And>a up k. (a # up, k) \<in> set ks \<Longrightarrow> number_at s a k = None \<and> 1 \<le> k \<and> k < MD_PID_MAX
          \<and> map_option pn_identity (number_at t a k) = Some p"
    and "\<And>a k. number_at t a k = None \<or> number_at t a k = number_at s a k \<or> map_option pn_identity (number_at t a k) = Some p"
    and "\<And>a k x. number_at s a k = Some x \<Longrightarrow> number_at t a k = Some x"
proof -
  show nums: "pi_numbers (identity_at t p) = ks"
    using post by (simp add: prepared_def identity_at_def fresh_identity_def zero_identity_def)
  show "map fst ks = pid_chain space" "pid_wf t" using post by (simp_all add: prepared_def)
  show "snd (ks ! j) = sel ! j" if "j < length ks" "j < length sel" for j
    using post that by (simp add: prepared_def fresh_identity_def zero_identity_def)
  show "number_at s a k = None \<and> 1 \<le> k \<and> k < MD_PID_MAX \<and> map_option pn_identity (number_at t a k) = Some p"
    if m: "(a # up, k) \<in> set ks" for a up k
  proof -
    obtain j where "j < length ks" "ks ! j = (a # up, k)" using m by (auto simp: in_set_conv_nth)
    thus ?thesis
      using m post nums by (force simp: prepared_def backed_def fresh_in_def staged_frame)
  qed
  show "number_at t a k = None \<or> number_at t a k = number_at s a k \<or> map_option pn_identity (number_at t a k) = Some p" for a k
    using post grown_new by (cases "number_at t a k") (force simp: prepared_def staged_frame)+
  show "number_at t a k = Some x" if "number_at s a k = Some x" for a k x
    using post that grown_keeps by (force simp: prepared_def staged_frame)
qed

section \<open>Runs of the operations\<close>

text \<open>The calls, each with the store before and after; a new cell is one that is not allocated.\<close>

inductive pid_step :: "pid_store \<Rightarrow> pid_store \<Rightarrow> bool" where
  new: "pid_spaces s a = None \<Longrightarrow> md_pid_namespace_new (Some a) lock inode par own s = (r, s') \<Longrightarrow> pid_step s s'"
| prepare: "pid_identities s p = None \<Longrightarrow> chain_ok s space
     \<Longrightarrow> space = [] \<or> ps_references (space_at s (hd space)) \<noteq> 0
     \<Longrightarrow> md_pid_identity_prepare_selected (Some p) space ov selected cnt s = Some (r, s') \<Longrightarrow> pid_step s s'"
| publish: "pid_step s (snd (md_pid_identity_publish op native grp s))"
| exit: "pid_step s (snd (md_pid_identity_exit op s))"
| reap: "pid_step s (md_pid_identity_reap op s)"
| exec: "pid_step s (md_pid_identity_exec op og s)"
| subreaper: "pid_step s (md_pid_identity_set_subreaper op b s)"
| retain: "pid_step s (md_pid_identity_retain op s)"
| release: "pid_step s (md_pid_identity_release op s)"
| retain_space: "pid_step s (md_pid_namespace_retain n s)"
| release_space: "pid_step s (md_pid_namespace_release n s)"
| by_inode: "pid_step s (snd (md_pid_namespace_by_inode ino s))"
| lookup: "pid_step s (snd (md_pid_namespace_lookup n k s))"
| find: "pid_step s (snd (md_pid_namespace_find n native s))"
| reboot: "pid_step s (md_pid_namespace_reboot_started a k s)"

lemma new_wf:
  assumes wf: "pid_wf s" and free: "pid_spaces s a = None"
    and new: "md_pid_namespace_new (Some a) lock inode par own s = (r, s')"
  shows "pid_wf s'"
    and "pid_spaces s b = Some n \<Longrightarrow> \<exists>n'. pid_spaces s' b = Some n' \<and> ps_dead n' = ps_dead n"
    and "number_at s' b k = number_at s b k"
proof -
  let ?s1 = "md_pid_namespace_retain par s"
  have wf1: "pid_wf ?s1" by (rule pid_wf_namespace_retain [OF wf])
  have s1: "pid_spaces ?s1 a = None"
    using free by (auto simp: md_pid_namespace_retain_def pid_frame split: list.split)
  have keep: "pid_spaces s b = Some n \<Longrightarrow> \<exists>n'. pid_spaces ?s1 b = Some n' \<and> ps_dead n' = ps_dead n"
    "number_at ?s1 b k = number_at s b k" for b n k
    by (auto simp: md_pid_namespace_retain_def pid_frame split: list.split)
  consider "s' = s"
    | n where "pid_spaces s' = (pid_spaces ?s1)(a \<mapsto> n)" "pid_identities s' = pid_identities ?s1"
        "space_wf n" "ps_numbers n = replicate PID_BUCKETS []"
    using new by (auto simp: md_pid_namespace_new_def Let_def space_wf_def zero_space_def MD_PID_MAX_def
        split: if_splits option.splits sum.splits)
  note cs = this
  have none: "slot_find (replicate PID_BUCKETS []) k = None" for k
    by (simp add: slot_find_def)
  show "pid_wf s'" using cs
  proof cases
    case (2 n)
    thus ?thesis using wf1 none by (simp add: pid_wf_def entry_ok_def)
  qed (use wf in simp)
  show "\<exists>n'. pid_spaces s' b = Some n' \<and> ps_dead n' = ps_dead n" if "pid_spaces s b = Some n"
    using cs keep(1) [OF that] free that by cases auto
  show "number_at s' b k = number_at s b k"
    using cs
  proof cases
    case (2 n)
    thus ?thesis using keep(2) [of b k] none s1 by (auto simp: number_at_def)
  qed simp
qed

lemma prepare_wf:
  assumes wf: "pid_wf s" and fresh: "pid_identities s p = None" and chain: "chain_ok s space"
    and run: "md_pid_identity_prepare_selected (Some p) space ov selected cnt s = Some (r, s')"
  shows "pid_wf s'"
  using wf fresh chain
proof (cases rule: prepare_selected_cases [where ov = ov and selected = selected and cnt = cnt])
  case (failed e t ks)
  thus ?thesis using run pid_wf_identity_release by (auto simp: prepared_def)
qed (use run wf in \<open>auto simp: prepared_def\<close>)

lemma step_wf: "pid_step s s' \<Longrightarrow> pid_wf s \<Longrightarrow> pid_wf s'"
proof (induction rule: pid_step.induct)
  case (new s a lock inode par own r s')
  thus ?case using new_wf(1) by blast
next
  case (prepare s p space ov selected cnt r s')
  thus ?case using prepare_wf by blast
next
  case (release s op)
  thus ?case by (rule pid_wf_identity_release)
qed (erule pid_wf_quiet_same, rule quiet_ops, (erule identities_kept identities_kept_find | simp add: pid_frame))+

lemma run_wf: "pid_step\<^sup>*\<^sup>* s s' \<Longrightarrow> pid_wf s \<Longrightarrow> pid_wf s'"
  by (induction rule: rtranclp_induct) (auto intro: step_wf)

text \<open>Once dead, a namespace stays dead and takes no number, whatever call comes next.\<close>

definition closes :: "nat \<Rightarrow> pid_store \<Rightarrow> pid_store \<Rightarrow> bool" where
  "closes a s s' \<longleftrightarrow> (\<forall>n'. pid_spaces s' a = Some n' \<longrightarrow> ps_dead n')
     \<and> (\<forall>k x. number_at s' a k = Some x \<longrightarrow> number_at s a k = Some x)"

lemma quiet_closes:
  assumes "pid_wf s" "quiet s s'" "pid_spaces s a = Some n" "ps_dead n"
  shows "closes a s s'"
  using assms quiet_number [OF assms(1,2)] quiet_spaceD [OF assms(2), of a]
  by (fastforce simp: closes_def space_quiet_def)

lemma prepared_closes:
  assumes wf: "pid_wf s" and fresh: "pid_identities s p = None" and n: "pid_spaces s a = Some n" "ps_dead n"
    and post: "prepared p sel (fresh_identity space) space (staged_store p space s) r t ks"
  shows "closes a s t"
proof -
  let ?s = "staged_store p space s"
  obtain n0 where n0: "pid_spaces ?s a = Some n0" "ps_dead n0"
    using n staged_frame(4) [of p space s a] by auto
  have grown: "closes a s u" if "grown p ?s u" for u
    using grown_dead_closed [OF that n0] grown_dead [OF that n0] by (auto simp: closes_def staged_frame)
  show ?thesis
  proof (cases r)
    case (Inl e)
    then obtain u where u: "t = md_pid_identity_release (Some p) u" "pid_wf u" "grown p ?s u"
      using post by (auto simp: prepared_def)
    obtain nu where "pid_spaces u a = Some nu" "ps_dead nu" using grown_dead [OF u(3) n0] by blast
    hence "closes a u t" using quiet_closes [OF u(2) quiet_identity_release] u(1) by blast
    thus ?thesis using grown [OF u(3)] by (simp add: closes_def)
  next
    case (Inr x)
    thus ?thesis using post grown by (simp add: prepared_def)
  qed
qed

lemma step_closes:
  assumes "pid_step s s'" "pid_wf s" "pid_spaces s a = Some n" "ps_dead n"
  shows "closes a s s'"
  using assms
proof (induction rule: pid_step.induct)
  case (new s b lock inode par own r s')
  note w = new_wf [OF new.prems(1) new.hyps]
  show ?case using w(2) [OF new.prems(2)] w(3) new.prems(3) by (auto simp: closes_def)
next
  case (prepare s p space ov selected cnt r s')
  have "closes a s s" using prepare.prems by (simp add: closes_def)
  moreover have "closes a s t" if "prepared p (case selected of Some xs \<Rightarrow> take cnt xs | None \<Rightarrow> []) (fresh_identity space) space (staged_store p space s) q t ks" for q t ks
    by (rule prepared_closes [OF prepare.prems(1) prepare.hyps(1) prepare.prems(2,3) that])
  ultimately show ?case
    by (cases rule: prepare_selected_cases [OF prepare.prems(1) prepare.hyps(1,2), of ov selected cnt])
      (use prepare.hyps(4) in auto)
qed (erule quiet_closes, rule quiet_ops, assumption+)+

lemma pid_chain_length: "ptr \<in> set (pid_chain n) \<Longrightarrow> length ptr \<le> length n \<and> ptr \<noteq> []"
  by (induction n) auto

lemma pid_chain_distinct: "distinct (pid_chain n)"
  by (induction n) (auto dest: pid_chain_length)

lemma find_distinct_fst:
  "distinct (map fst xs) \<Longrightarrow> j < length xs \<Longrightarrow> find (\<lambda>x. fst x = fst (xs ! j)) xs = Some (xs ! j)"
proof (induction xs arbitrary: j)
  case (Cons x xs)
  thus ?case by (cases j) (auto simp: image_iff dest!: nth_mem)
qed simp

lemma identity_number_at:
  assumes "pid_identities s p = Some i" "identity_ok i" "j < length (pi_numbers i)" "pi_numbers i ! j = (ptr, k)" "ptr \<noteq> []"
  shows "md_pid_identity_number s (Some p) ptr = k"
proof -
  have "distinct (map fst (pi_numbers i))"
    using assms(2) pid_chain_distinct by (simp add: identity_ok_def)
  thus ?thesis
    using find_distinct_fst [of "pi_numbers i" j] assms by (simp add: md_pid_identity_number_def identity_at_def)
qed

definition pid_store_init :: "user_store \<Rightarrow> pid_store" where
  "pid_store_init u = \<lparr>pid_spaces = Map.empty, pid_identities = Map.empty, pid_registry = [], pid_users = u\<rparr>"

lemma pid_wf_init: "pid_wf (pid_store_init u)"
  by (simp add: pid_wf_def pid_store_init_def)

section \<open>Properties\<close>

text \<open>
  C25: Allocating a number in a namespace always ends, within one round of the number space. It fails
  exactly for a dead namespace (\<open>ENOMEM\<close>), a requested number other than 1 before PID 1 exists
  (\<open>EINVAL\<close>), a requested number in use (\<open>EEXIST\<close>), or when every number from 2 on is in use
  (\<open>EAGAIN\<close>), and then changes nothing. Otherwise it returns a number that was free, between 1 and
  \<open>MD_PID_MAX-1\<close>, the requested one if any, and 1 exactly for the first allocation before PID 1;
  the table then maps it to the new entry and every other number as before.
\<close>
theorem reserve_exact:
  assumes wf: "space_wf n" and sel: "0 \<le> selected" "selected < MD_PID_MAX"
  shows "\<exists>r n'. reserve p i selected n = Some (r, n') \<and> space_wf n' \<and>
    (case r of
       Inl e \<Rightarrow> n' = n \<and>
         (case reserve_refused selected n of
            Some f \<Rightarrow> e = f
          | None \<Rightarrow> e = EAGAIN \<and> selected = 0 \<and> (\<forall>j. 2 \<le> j \<and> j < MD_PID_MAX \<longrightarrow> slot_find (ps_numbers n) j \<noteq> None))
     | Inr k \<Rightarrow> reserve_refused selected n = None \<and> 1 \<le> k \<and> k < MD_PID_MAX
         \<and> slot_find (ps_numbers n) k = None
         \<and> (if selected = 0 then (k = 1 \<longleftrightarrow> \<not> ps_initialized n \<and> slot_find (ps_numbers n) 1 = None) else k = selected)
         \<and> (\<forall>j. slot_find (ps_numbers n') j =
               (if j = k then Some \<lparr>pn_identity = p, pn_index = i, pn_number = k\<rparr> else slot_find (ps_numbers n) j)))"
  using wf sel
proof (cases rule: reserve_cases [where p = p and i = i])
  case (granted k)
  have twf: "table_wf (ps_numbers n)" using wf by (simp add: space_wf_def)
  have "k = 1 \<longleftrightarrow> \<not> ps_initialized n \<and> slot_find (ps_numbers n) 1 = None" if "selected = 0"
    using granted(6,7) [OF that] by fastforce
  thus ?thesis
    using granted reserve_wf [OF wf sel granted(8)] nums.look_ins [OF twf] by simp
qed (use wf in simp_all)

text \<open>
  C23: Reserving the numbers of a new process is a transaction over the whole chain of namespaces. It
  always ends; when it fails, in whichever namespace, every table maps every number as before and no
  identity is left behind; when it succeeds the process has in every namespace of the chain a number
  that was free there and now leads to it, the requested ones where requested, and no other entry
  has changed.
\<close>
theorem prepare_transaction:
  assumes wf: "pid_wf s" and fresh: "pid_identities s p = None" and chain: "chain_ok s space"
    and live: "space = [] \<or> ps_references (space_at s (hd space)) \<noteq> 0"
  shows "\<exists>r s'. md_pid_identity_prepare_selected (Some p) space ov selected cnt s = Some (r, s') \<and> pid_wf s' \<and>
    (case r of
       Inl e \<Rightarrow> number_at s' = number_at s \<and> pid_identities s' = pid_identities s
     | Inr None \<Rightarrow> space = [] \<and> s' = s
     | Inr (Some q) \<Rightarrow> q = p
         \<and> (\<forall>j < length (pid_chain space).
              let ptr = pid_chain space ! j; k = md_pid_identity_number s' (Some p) ptr
              in 1 \<le> k \<and> k < MD_PID_MAX \<and> number_at s (hd ptr) k = None
                 \<and> map_option pn_identity (number_at s' (hd ptr) k) = Some p
                 \<and> (case selected of Some xs \<Rightarrow> j < cnt \<and> j < length xs \<longrightarrow> k = xs ! j | None \<Rightarrow> True))
         \<and> (\<forall>a k x. number_at s a k = Some x \<longrightarrow> number_at s' a k = Some x)
         \<and> (\<forall>a k x. number_at s' a k = Some x \<longrightarrow> number_at s a k = Some x \<or> pn_identity x = p))"
  using wf fresh chain
proof (cases rule: prepare_selected_cases [where ov = ov and selected = selected and cnt = cnt])
  case (failed e t ks)
  thus ?thesis
    using failed_restores [OF wf fresh chain failed(3) _ failed(1)] live prepare_wf [OF wf fresh chain failed(2)]
    by (simp add: fun_eq_iff)
next
  case (granted t ks)
  let ?sel = "case selected of Some xs \<Rightarrow> take cnt xs | None \<Rightarrow> []"
  note g = granted_numbers [OF granted(1) wf fresh]
  have "1 \<le> k \<and> k < MD_PID_MAX \<and> number_at s (hd ptr) k = None \<and> map_option pn_identity (number_at t (hd ptr) k) = Some p
      \<and> (case selected of Some xs \<Rightarrow> j < cnt \<and> j < length xs \<longrightarrow> k = xs ! j | None \<Rightarrow> True)"
    if j: "j < length (pid_chain space)" and ptr: "ptr = pid_chain space ! j"
      and k: "k = md_pid_identity_number t (Some p) ptr" for j ptr k
  proof -
    have len: "j < length ks" and fst: "fst (ks ! j) = ptr"
      using j ptr g(1) by (metis length_map, metis length_map nth_map)
    obtain a up where aup: "ptr = a # up"
      using pid_chain_length [OF nth_mem [OF j]] ptr by (metis list.exhaust)
    obtain i where i: "pid_identities t p = Some i" "pi_numbers i = ks"
      using g(2) granted(1) by (auto simp: prepared_def fresh_identity_def zero_identity_def)
    have "identity_ok i" using g(3) i(1) by (simp add: pid_wf_def)
    hence eq: "ks ! j = (a # up, k)"
      using identity_number_at [OF i(1), of j ptr "snd (ks ! j)"] i(2) len fst aup k by (cases "ks ! j") auto
    have "k = xs ! j" if "selected = Some xs" "j < cnt" "j < length xs" for xs
      using g(4) [OF len] that eq by simp
    thus ?thesis
      using g(5) [of a up k] nth_mem [OF len] eq aup by (simp split: option.split)
  qed
  moreover have "number_at s a k = Some x \<or> pn_identity x = p" if "number_at t a k = Some x" for a k x
    using g(6) [of a k] that by auto
  ultimately show ?thesis using granted(2) g(3,7) by (simp add: Let_def)
qed (use wf in simp_all)

text \<open>
  C29: After any sequence of calls, what a lookup returns agrees with the numbers the identity itself
  reports: if looking \<open>k\<close> up in a namespace returns a process, the process is published, not
  reaped, and its number in that namespace is \<open>k\<close>.
\<close>
theorem lookup_number_agree:
  assumes run: "pid_step\<^sup>*\<^sup>* (pid_store_init u) s" and ptr: "chain_ok s (a # up)"
    and look: "md_pid_namespace_lookup (a # up) k s = (Some p, s')"
  shows "md_pid_identity_number s (Some p) (a # up) = k
    \<and> pi_native (identity_at s p) \<noteq> 0 \<and> \<not> pi_reaped (identity_at s p)"
proof -
  have wf: "pid_wf s" by (rule run_wf [OF run pid_wf_init])
  obtain n where n: "pid_spaces s a = Some n" "ps_parent n = up" using ptr by auto
  obtain x where x: "slot_find (ps_numbers n) k = Some x" "pn_identity x = p" "visible_identity s x"
    using look n by (auto simp: md_pid_namespace_lookup_def space_at_def try_retain_def
        split: if_splits option.splits)
  hence "pi_native (identity_at s p) \<noteq> 0" "\<not> pi_reaped (identity_at s p)"
    by (simp_all add: visible_identity_def)
  moreover have "entry_ok s (a # up) k x" using wf n x by (auto simp: pid_wf_def)
  then obtain i where i: "pid_identities s p = Some i" "pn_index x < length (pi_numbers i)" "pi_numbers i ! pn_index x = (a # up, k)"
    using x by (auto simp: entry_ok_def split: option.splits)
  moreover have "identity_ok i" using wf i by (simp add: pid_wf_def)
  ultimately show ?thesis
    using identity_number_at [OF i(1) _ i(2,3)] by simp
qed

text \<open>
  C31: A dead namespace is closed for good: as long as it stays allocated, whatever calls follow, it
  stays dead, every number in its table was there when it died, and allocation in it is refused.
\<close>
theorem dead_namespace_closed:
  assumes run: "pid_step\<^sup>*\<^sup>* (pid_store_init u) s" and dead: "pid_spaces s a = Some n" "ps_dead n"
    and more: "(\<lambda>t t'. pid_step t t' \<and> pid_spaces t' a \<noteq> None)\<^sup>*\<^sup>* s s'"
  shows "ps_dead (space_at s' a) \<and> (\<forall>k x. number_at s' a k = Some x \<longrightarrow> number_at s a k = Some x)
    \<and> reserve p i selected (space_at s' a) = Some (Inl ENOMEM, space_at s' a)"
proof -
  have "pid_wf s' \<and> (\<exists>n'. pid_spaces s' a = Some n' \<and> ps_dead n') \<and> closes a s s'"
    using more
  proof (induction rule: rtranclp_induct)
    case base
    show ?case using run_wf [OF run pid_wf_init] dead by (simp add: closes_def)
  next
    case (step t t')
    then obtain n' where "pid_spaces t a = Some n'" "ps_dead n'" by blast
    hence "closes a t t'" using step step_closes by blast
    thus ?case using step step_wf [of t t'] by (auto simp: closes_def)
  qed
  thus ?thesis by (auto simp: closes_def space_at_def reserve_def)
qed

section \<open>A concrete namespace\<close>

definition demo_pid0 :: pid_store where "demo_pid0 = pid_store_init demo_store"
definition demo_pid1 :: pid_store where
  "demo_pid1 = snd (md_pid_namespace_new (Some 0) None (Inr 4026532001) [] [] demo_pid0)"
definition demo_pid2 :: pid_store where
  "demo_pid2 = (case md_pid_identity_prepare (Some 7) [0] demo_pid1 of Some (_, s) \<Rightarrow> s | None \<Rightarrow> demo_pid1)"
definition demo_pid3 :: pid_store where "demo_pid3 = snd (md_pid_identity_publish (Some 7) 1234 1234 demo_pid2)"
definition demo_pid4 :: pid_store where "demo_pid4 = snd (md_pid_identity_exit (Some 7) demo_pid3)"

definition demo_space :: pid_space where
  "demo_space = zero_space\<lparr>ps_references := 1, ps_inode := 4026532001, ps_depth := 1, ps_next := 1\<rparr>"

definition demo_entry :: pid_number where
  "demo_entry = \<lparr>pn_identity = 7, pn_index = 0, pn_number = 1\<rparr>"

lemma demo_space_find: "slot_find (ps_numbers demo_space) k = None"
  by (simp add: demo_space_def zero_space_def slot_find_def)

lemma demo_pid1_spaces: "pid_spaces demo_pid1 = [0 \<mapsto> demo_space]" "pid_identities demo_pid1 = Map.empty"
  by (simp_all add: demo_pid1_def demo_pid0_def pid_store_init_def md_pid_namespace_new_def Let_def demo_space_def
      md_pid_namespace_depth_def md_pid_namespace_retain_def MD_PID_LEVELS_def zero_space_def)

lemma demo_reserve: "reserve 7 0 0 (demo_space\<lparr>ps_references := r\<rparr>) =
    Some (Inr 1, demo_space\<lparr>ps_references := r, ps_numbers := slot_insert demo_entry (ps_numbers demo_space), ps_next := 2\<rparr>)"
proof -
  have "\<not> ps_dead demo_space" "\<not> ps_initialized demo_space"
    by (simp_all add: demo_space_def zero_space_def)
  moreover have "next_number 1 = 2" by (simp add: next_number_def MD_PID_MAX_def)
  ultimately show ?thesis
    by (simp add: reserve_def reserve_start_def scan_free demo_space_find demo_entry_def)
qed

lemma demo_pid2_spaces:
  "pid_spaces demo_pid2 = [0 \<mapsto> demo_space\<lparr>ps_references := 2, ps_numbers := slot_insert demo_entry (ps_numbers demo_space), ps_next := 2\<rparr>]"
  "pid_identities demo_pid2 = [7 \<mapsto> (fresh_identity [0])\<lparr>pi_numbers := [([0], 1)]\<rparr>]"
proof -
  have [simp]: "ps_references demo_space = 1" by (simp add: demo_space_def)
  show "pid_spaces demo_pid2 = [0 \<mapsto> demo_space\<lparr>ps_references := 2, ps_numbers := slot_insert demo_entry (ps_numbers demo_space), ps_next := 2\<rparr>]"
    "pid_identities demo_pid2 = [7 \<mapsto> (fresh_identity [0])\<lparr>pi_numbers := [([0], 1)]\<rparr>]"
    by (simp_all add: demo_pid2_def md_pid_identity_prepare_def md_pid_identity_prepare_selected_def Let_def
        md_pid_namespace_depth_def md_pid_namespace_retain_def demo_pid1_spaces pid_frame select_error_def
        space_at_def demo_reserve fresh_identity_def zero_identity_def)
qed

lemma demo_pid3_spaces:
  "pid_spaces demo_pid3 = [0 \<mapsto> demo_space\<lparr>ps_references := 2, ps_numbers := slot_insert demo_entry (ps_numbers demo_space),
     ps_next := 2, ps_initialized := True\<rparr>]"
  "pid_identities demo_pid3 = [7 \<mapsto> (fresh_identity [0])\<lparr>pi_numbers := [([0], 1)], pi_group := 1234, pi_native := 1234, pi_live := True\<rparr>]"
  by (simp_all add: demo_pid3_def md_pid_identity_publish_def demo_pid2_spaces identity_at_def pid_frame
      fresh_identity_def zero_identity_def mark_initialized_def)

lemma demo_table: "slot_insert demo_entry (ps_numbers demo_space) = (replicate PID_BUCKETS [])[1 := [demo_entry]]"
  by (simp add: slot_insert_def demo_entry_def bucket_of_def PID_BUCKETS_def demo_space_def zero_space_def)

lemma demo_table_find: "slot_find (slot_insert demo_entry (ps_numbers demo_space)) k = (if k = 1 then Some demo_entry else None)"
  by (subst nums.look_ins) (simp_all add: demo_space_find, simp_all add: demo_space_def zero_space_def demo_entry_def)

lemma demo_prepare: "md_pid_identity_prepare_selected (Some 7) [0] None None 0 demo_pid1 = Some (Inr (Some 7), demo_pid2)"
proof -
  have [simp]: "ps_references demo_space = 1" by (simp add: demo_space_def)
  show ?thesis
    by (simp add: demo_pid2_def md_pid_identity_prepare_def md_pid_identity_prepare_selected_def Let_def
        md_pid_namespace_depth_def md_pid_namespace_retain_def demo_pid1_spaces pid_frame select_error_def
        space_at_def demo_reserve)
qed

lemma demo_pid_run: "pid_step\<^sup>*\<^sup>* (pid_store_init demo_store) demo_pid3"
proof -
  have one: "pid_step demo_pid0 demo_pid1"
    unfolding demo_pid1_def
    by (rule pid_step.new [where a = 0]) (simp add: demo_pid0_def pid_store_init_def, rule surjective_pairing)
  have two: "pid_step demo_pid1 demo_pid2"
    by (rule pid_step.prepare [OF _ _ _ demo_prepare])
      (simp_all add: demo_pid1_spaces space_at_def, simp_all add: demo_space_def zero_space_def)
  have three: "pid_step demo_pid2 demo_pid3"
    unfolding demo_pid3_def by (rule pid_step.publish)
  from one two three show ?thesis
    unfolding demo_pid0_def by (meson rtranclp.rtrancl_into_rtrancl rtranclp.rtrancl_refl)
qed

text \<open>PID 1 allocated in the empty namespace.\<close>

theorem reserve_exact_witness:
  "\<exists>n'. reserve 7 0 0 demo_space = Some (Inr 1, n') \<and> space_wf n' \<and> slot_find (ps_numbers n') 1 = Some demo_entry"
proof -
  have wf: "space_wf demo_space" "ps_references demo_space = 1"
    by (simp_all add: space_wf_def demo_space_def zero_space_def MD_PID_MAX_def)
  have r: "reserve 7 0 0 demo_space = Some (Inr 1, demo_space\<lparr>ps_numbers := slot_insert demo_entry (ps_numbers demo_space), ps_next := 2\<rparr>)"
    using demo_reserve [of 1] wf(2) by (metis (no_types, lifting) pid_space.surjective pid_space.update_convs(1))
  show ?thesis
    using reserve_exact [OF wf(1), of 0 7 0] by (simp add: r MD_PID_MAX_def demo_entry_def)
qed

text \<open>A first process of a namespace of depth one.\<close>

theorem prepare_transaction_witness:
  "md_pid_identity_prepare_selected (Some 7) [0] None None 0 demo_pid1 = Some (Inr (Some 7), demo_pid2)
     \<and> pid_wf demo_pid2 \<and> number_at demo_pid1 0 (md_pid_identity_number demo_pid2 (Some 7) [0]) = None
     \<and> map_option pn_identity (number_at demo_pid2 0 (md_pid_identity_number demo_pid2 (Some 7) [0])) = Some 7"
proof -
  have "pid_wf demo_pid1"
    by (rule new_wf(1) [OF pid_wf_init, of demo_store 0 None "Inr 4026532001" "[]" "[]"])
      (simp add: pid_store_init_def, unfold demo_pid1_def demo_pid0_def, rule surjective_pairing)
  moreover have "chain_ok demo_pid1 [0]" "ps_references (space_at demo_pid1 0) \<noteq> 0" "pid_identities demo_pid1 7 = None"
    by (simp_all add: demo_pid1_spaces space_at_def, simp_all add: demo_space_def zero_space_def)
  ultimately show ?thesis
    using prepare_transaction [of demo_pid1 7 "[0]" None None 0] by (simp add: demo_prepare Let_def)
qed

text \<open>The published first process is found as number 1.\<close>

theorem lookup_number_agree_witness:
  "fst (md_pid_namespace_lookup [0] 1 demo_pid3) = Some 7 \<and> md_pid_identity_number demo_pid3 (Some 7) [0] = 1"
proof -
  have look: "md_pid_namespace_lookup [0] 1 demo_pid3 = (Some 7, md_pid_identity_retain (Some 7) demo_pid3)"
    by (simp add: md_pid_namespace_lookup_def space_at_def demo_pid3_spaces demo_table_find visible_identity_def
        identity_at_def try_retain_def may_retain_def UINT32_MAX_def, simp add: demo_entry_def fresh_identity_def zero_identity_def)
  have "chain_ok demo_pid3 [0]"
    by (simp add: demo_pid3_spaces, simp add: demo_space_def zero_space_def)
  thus ?thesis using lookup_number_agree [OF demo_pid_run _ look] look by simp
qed

text \<open>The exit of PID 1 closes its namespace.\<close>

theorem dead_namespace_closed_witness:
  "ps_dead (space_at demo_pid4 0) \<and> reserve 8 0 0 (space_at demo_pid4 0) = Some (Inl ENOMEM, space_at demo_pid4 0)"
proof -
  have run: "pid_step\<^sup>*\<^sup>* (pid_store_init demo_store) demo_pid4"
    using demo_pid_run pid_step.exit unfolding demo_pid4_def by (rule rtranclp.rtrancl_into_rtrancl)
  have live: "pi_live (identity_at demo_pid3 7)" "pi_space (identity_at demo_pid3 7) = [0]"
    by (simp_all add: identity_at_def demo_pid3_spaces fresh_identity_def)
  let ?s = "put_identity 7 (\<lambda>i. i\<lparr>pi_live := False\<rparr>) demo_pid3"
  have quiet: "\<not> pi_live (identity_at ?s q)" for q
    by (simp add: identity_at_def pid_frame demo_pid3_spaces zero_identity_def)
  have "slot_find (ps_numbers (space_at ?s 0)) 1 = Some demo_entry" "pn_identity demo_entry = 7"
    by (simp_all add: pid_frame space_at_def demo_pid3_spaces demo_table_find, simp add: demo_entry_def)
  hence four: "demo_pid4 = put_space 0 (\<lambda>n. n\<lparr>ps_dead := True\<rparr>) ?s"
    unfolding demo_pid4_def md_pid_identity_exit_def Let_def using live quiet by simp
  have "\<exists>n. pid_spaces demo_pid4 0 = Some n \<and> ps_dead n"
    unfolding four by (simp add: pid_frame demo_pid3_spaces)
  then obtain n where "pid_spaces demo_pid4 0 = Some n" "ps_dead n" by blast
  thus ?thesis using dead_namespace_closed [OF run _ _ rtranclp.rtrancl_refl] by blast
qed

end
