(* ===== verification/Network_Address.thy ===== *)
theory Network_Address
  imports Prelude
begin

text \<open>
  Logical IP addresses and their conversion to socket addresses
  (\<^verbatim>\<open>src/native/shroot/src/network_ip.h\<close>, \<^verbatim>\<open>network_ip.c\<close>), and the refusals a network policy
  can express (\<^verbatim>\<open>network_reject.c\<close>). The union of \<open>struct md_ip_address\<close> is its sixteen bytes in
  memory order, so that \<open>v4\<close> is the first four of them, in network byte order.
\<close>

unbundle bit_operations_syntax

section \<open>Addresses\<close>

definition AF_INET :: u32 where "AF_INET = 2"
definition AF_INET6 :: u32 where "AF_INET6 = 10"

record ip_address =
  ip_family :: u32
  ip_bytes :: "u8 list"

record inet_address =
  ia_ip :: ip_address
  ia_scope :: u32
  ia_port :: u16 \<comment> \<open>in network byte order\<close>

definition md_ip_any :: "u32 \<Rightarrow> ip_address" where
  "md_ip_any fam = \<lparr>ip_family = fam, ip_bytes = replicate 16 0\<rparr>"

definition md_ip_size :: "ip_address \<Rightarrow> nat" where
  "md_ip_size a = (if ip_family a = AF_INET6 then 16 else 4)"

definition md_ip_load :: "u32 \<Rightarrow> u8 list \<Rightarrow> ip_address" where
  "md_ip_load fam bs =
     (let n = md_ip_size (md_ip_any fam) in (md_ip_any fam)\<lparr>ip_bytes := take n bs @ replicate (16 - n) 0\<rparr>)"

text \<open>The argument is the four bytes of the C argument in memory.\<close>

definition md_ip_v4 :: "u8 list \<Rightarrow> ip_address" where
  "md_ip_v4 bs = \<lparr>ip_family = AF_INET, ip_bytes = take 4 bs @ replicate 12 0\<rparr>"

definition md_ip_in6 :: "ip_address \<Rightarrow> u8 list" where
  "md_ip_in6 a =
     (if ip_family a = AF_INET6 then ip_bytes a
      else replicate 10 0 @ [0xff, 0xff] @ take 4 (ip_bytes a))"

definition md_ip_equal :: "ip_address \<Rightarrow> ip_address \<Rightarrow> bool" where
  "md_ip_equal a b \<longleftrightarrow> ip_family a = ip_family b
     \<and> (if ip_family a = AF_INET then take 4 (ip_bytes a) = take 4 (ip_bytes b) else ip_bytes a = ip_bytes b)"

definition md_ip_unspecified :: "ip_address \<Rightarrow> bool" where
  "md_ip_unspecified a \<longleftrightarrow>
     (if ip_family a = AF_INET then take 4 (ip_bytes a) = replicate 4 0 else ip_bytes a = replicate 16 0)"

definition md_ip_is_loopback :: "ip_address \<Rightarrow> bool" where
  "md_ip_is_loopback a \<longleftrightarrow>
     (if ip_family a = AF_INET then ip_bytes a ! 0 = 127 else ip_bytes a = replicate 15 0 @ [1])"

definition md_ip_multicast :: "ip_address \<Rightarrow> bool" where
  "md_ip_multicast a \<longleftrightarrow>
     (if ip_family a = AF_INET then drop_bit 4 (ip_bytes a ! 0) = 14 else ip_bytes a ! 0 = 0xff)"

definition md_ip_linklocal :: "ip_address \<Rightarrow> bool" where
  "md_ip_linklocal a \<longleftrightarrow> ip_family a = AF_INET6 \<and> ip_bytes a ! 0 = 0xfe \<and> (ip_bytes a ! 1) AND 0xc0 = 0x80"

definition md_ip_loopback :: "u32 \<Rightarrow> ip_address" where
  "md_ip_loopback fam =
     (md_ip_any fam)\<lparr>ip_bytes :=
        if fam = AF_INET then [127, 0, 0, 1] @ replicate 12 0 else replicate 15 0 @ [1]\<rparr>"

definition md_ip_network :: "ip_address \<Rightarrow> nat \<Rightarrow> ip_address" where
  "md_ip_network a prefix =
     (let len = md_ip_size a in
      if prefix > len * 8 then md_ip_any (ip_family a)
      else
        let whole = prefix div 8; bits = prefix mod 8; bs = ip_bytes a;
            part = (if bits \<noteq> 0 then [(bs ! whole) AND push_bit (8 - bits) 0xff] else [])
        in a\<lparr>ip_bytes := take whole bs @ part @ replicate (len - whole - length part) 0 @ drop len bs\<rparr>)"

definition md_ip_prefix :: "ip_address \<Rightarrow> ip_address \<Rightarrow> nat \<Rightarrow> bool" where
  "md_ip_prefix a b prefix \<longleftrightarrow>
     prefix \<le> md_ip_size a * 8 \<and> md_ip_equal (md_ip_network a prefix) (md_ip_network b prefix)"

definition md_inet_equal :: "inet_address \<Rightarrow> inet_address \<Rightarrow> bool" where
  "md_inet_equal a b \<longleftrightarrow> ia_port a = ia_port b \<and> md_ip_equal (ia_ip a) (ia_ip b)
     \<and> (\<not> md_ip_linklocal (ia_ip a) \<or> ia_scope a = ia_scope b)"

section \<open>Socket addresses\<close>

text \<open>
  The fields of \<open>sockaddr_in\<close> and \<open>sockaddr_in6\<close> that the code reads or writes; the port is at the
  same offset in both. The sizes are those of the structures, and of \<open>sa_family_t\<close>.
\<close>

record sockaddr =
  sa_family :: u32
  sin_port :: u16
  sin_addr :: "u8 list"
  sin6_addr :: "u8 list"
  sin6_scope_id :: u32

definition SOCKADDR_IN_SIZE :: nat where "SOCKADDR_IN_SIZE = 16"
definition SOCKADDR_IN6_SIZE :: nat where "SOCKADDR_IN6_SIZE = 28"

definition v4mapped :: "u8 list \<Rightarrow> bool" where
  "v4mapped bs \<longleftrightarrow> take 12 bs = replicate 10 0 @ [0xff, 0xff]"

definition md_inet_decode :: "sockaddr \<Rightarrow> nat \<Rightarrow> inet_address result" where
  "md_inet_decode sa len =
     (if len < 2 then Inl EINVAL
      else if sa_family sa = AF_INET then
        if len < SOCKADDR_IN_SIZE then Inl EINVAL
        else Inr \<lparr>ia_ip = md_ip_load AF_INET (sin_addr sa), ia_scope = 0, ia_port = sin_port sa\<rparr>
      else if sa_family sa = AF_INET6 then
        if len < SOCKADDR_IN6_SIZE then Inl EINVAL
        else if v4mapped (sin6_addr sa)
        then Inr \<lparr>ia_ip = md_ip_load AF_INET (drop 12 (sin6_addr sa)), ia_scope = 0, ia_port = sin_port sa\<rparr>
        else Inr \<lparr>ia_ip = md_ip_load AF_INET6 (sin6_addr sa), ia_scope = sin6_scope_id sa, ia_port = sin_port sa\<rparr>
      else Inl EAFNOSUPPORT)"

definition zero_sockaddr :: sockaddr where
  "zero_sockaddr = \<lparr>sa_family = 0, sin_port = 0, sin_addr = replicate 4 0, sin6_addr = replicate 16 0, sin6_scope_id = 0\<rparr>"

definition md_inet_encode :: "inet_address \<Rightarrow> u32 \<Rightarrow> (sockaddr \<times> nat) result" where
  "md_inet_encode a family0 =
     (let fam = (if family0 = 0 then ip_family (ia_ip a) else family0) in
      if fam = AF_INET then
        if ip_family (ia_ip a) \<noteq> AF_INET then Inl EAFNOSUPPORT
        else Inr (zero_sockaddr\<lparr>sa_family := AF_INET, sin_port := ia_port a, sin_addr := take 4 (ip_bytes (ia_ip a))\<rparr>,
                  SOCKADDR_IN_SIZE)
      else if fam = AF_INET6 then
        if ip_family (ia_ip a) = AF_INET6 then
          Inr (zero_sockaddr\<lparr>sa_family := AF_INET6, sin_port := ia_port a, sin6_scope_id := ia_scope a,
                 sin6_addr := ip_bytes (ia_ip a)\<rparr>, SOCKADDR_IN6_SIZE)
        else if ip_family (ia_ip a) = AF_INET then
          Inr (zero_sockaddr\<lparr>sa_family := AF_INET6, sin_port := ia_port a, sin6_scope_id := ia_scope a,
                 sin6_addr := replicate 10 0 @ [0xff, 0xff] @ take 4 (ip_bytes (ia_ip a))\<rparr>, SOCKADDR_IN6_SIZE)
        else Inl EAFNOSUPPORT
      else Inl EAFNOSUPPORT)"

text \<open>The wrappers around the socket calls; the kernel's answer to the call is an argument.\<close>

definition md_inet_bind :: "(sockaddr \<Rightarrow> nat \<Rightarrow> unit result) \<Rightarrow> inet_address \<Rightarrow> u32 \<Rightarrow> unit result" where
  "md_inet_bind call a fam = (case md_inet_encode a fam of Inl e \<Rightarrow> Inl e | Inr (sa, n) \<Rightarrow> call sa n)"

definition md_inet_connect :: "(sockaddr \<Rightarrow> nat \<Rightarrow> unit result) \<Rightarrow> inet_address \<Rightarrow> u32 \<Rightarrow> unit result" where
  "md_inet_connect call a fam = (case md_inet_encode a fam of Inl e \<Rightarrow> Inl e | Inr (sa, n) \<Rightarrow> call sa n)"

definition md_inet_name :: "(sockaddr \<times> nat) result \<Rightarrow> inet_address result" where
  "md_inet_name answer = (case answer of Inl e \<Rightarrow> Inl e | Inr (sa, n) \<Rightarrow> md_inet_decode sa n)"

text \<open>The second component says whether the accepted descriptor was closed again.\<close>

definition md_inet_accept :: "(nat \<times> sockaddr \<times> nat) result \<Rightarrow> (nat \<times> inet_address) result \<times> bool" where
  "md_inet_accept answer =
     (case answer of Inl e \<Rightarrow> (Inl e, False)
      | Inr (fd, sa, n) \<Rightarrow>
         (case md_inet_decode sa n of Inl e \<Rightarrow> (Inl e, True) | Inr out \<Rightarrow> (Inr (fd, out), False)))"

definition md_inet_sendto :: "(sockaddr \<Rightarrow> nat \<Rightarrow> nat result) \<Rightarrow> inet_address \<Rightarrow> u32 \<Rightarrow> nat result" where
  "md_inet_sendto call a fam = (case md_inet_encode a fam of Inl e \<Rightarrow> Inl e | Inr (sa, n) \<Rightarrow> call sa n)"

definition md_inet_recvfrom :: "(nat \<times> sockaddr \<times> nat) result \<Rightarrow> (nat \<times> inet_address) result" where
  "md_inet_recvfrom answer =
     (case answer of Inl e \<Rightarrow> Inl e
      | Inr (received, sa, n) \<Rightarrow>
         (case md_inet_decode sa n of Inl e \<Rightarrow> Inl e | Inr out \<Rightarrow> Inr (received, out)))"

section \<open>Refusals\<close>

datatype reject_type = MD_REJECT_NONE | MD_REJECT_TCP | MD_REJECT_ICMP4 | MD_REJECT_ICMP6 | MD_REJECT_ICMPX

definition reject_type_of :: "u32 \<Rightarrow> reject_type option" where
  "reject_type_of n = (if n = 0 then Some MD_REJECT_NONE else if n = 1 then Some MD_REJECT_TCP
     else if n = 2 then Some MD_REJECT_ICMP4 else if n = 3 then Some MD_REJECT_ICMP6
     else if n = 4 then Some MD_REJECT_ICMPX else None)"

record rejection =
  rj_type :: reject_type
  rj_code :: u8

definition no_rejection :: rejection where
  "no_rejection = \<lparr>rj_type = MD_REJECT_NONE, rj_code = 0\<rparr>"

definition md_network_reject_valid :: "reject_type \<Rightarrow> u32 \<Rightarrow> bool" where
  "md_network_reject_valid t c \<longleftrightarrow>
     (case t of
        MD_REJECT_TCP \<Rightarrow> c = 0
      | MD_REJECT_ICMP4 \<Rightarrow> c \<le> 3 \<or> c = 9 \<or> c = 10 \<or> c = 13
      | MD_REJECT_ICMP6 \<Rightarrow> c \<le> 6
      | MD_REJECT_ICMPX \<Rightarrow> c \<le> 3
      | MD_REJECT_NONE \<Rightarrow> False)"

definition icmpx_v4 :: "u32 list" where "icmpx_v4 = [0, 3, 1, 13]"
definition icmpx_v6 :: "u32 list" where "icmpx_v6 = [0, 4, 3, 1]"

definition reject_concrete :: "reject_type \<Rightarrow> u32 \<Rightarrow> u32 \<Rightarrow> rejection" where
  "reject_concrete t c fam =
     (if \<not> md_network_reject_valid t c \<or> t = MD_REJECT_ICMP4 \<and> fam \<noteq> AF_INET \<or> t = MD_REJECT_ICMP6 \<and> fam \<noteq> AF_INET6
      then no_rejection else \<lparr>rj_type = t, rj_code = ucast c\<rparr>)"

definition md_network_reject_resolve :: "reject_type \<Rightarrow> u32 \<Rightarrow> u32 \<Rightarrow> rejection" where
  "md_network_reject_resolve t c fam =
     (if t = MD_REJECT_ICMPX then
        if c > 3 then no_rejection
        else reject_concrete (if fam = AF_INET6 then MD_REJECT_ICMP6 else MD_REJECT_ICMP4)
               ((if fam = AF_INET6 then icmpx_v6 else icmpx_v4) ! unat c) fam
      else reject_concrete t c fam)"

definition md_network_reject_error :: "rejection \<Rightarrow> errno" where
  "md_network_reject_error r =
     (let c = rj_code r in
      case rj_type r of
        MD_REJECT_TCP \<Rightarrow> ECONNREFUSED
      | MD_REJECT_ICMP4 \<Rightarrow>
          if c = 0 then ENETUNREACH else if c = 1 then EHOSTUNREACH else if c = 2 then ENOPROTOOPT
          else if c = 3 then ECONNREFUSED else if c = 9 then ENETUNREACH else if c = 10 then EHOSTUNREACH
          else if c = 13 then EACCES else EOPNOTSUPP
      | MD_REJECT_ICMP6 \<Rightarrow>
          if c = 0 then ENETUNREACH else if c = 1 \<or> c = 5 then EACCES else if c = 2 \<or> c = 3 then EHOSTUNREACH
          else if c = 4 then ECONNREFUSED else if c = 6 then EACCES else EOPNOTSUPP
      | _ \<Rightarrow> EOPNOTSUPP)"

section \<open>Well-formed addresses and their bits\<close>

definition ip_wf :: "ip_address \<Rightarrow> bool" where
  "ip_wf a \<longleftrightarrow> length (ip_bytes a) = 16
     \<and> (ip_family a = AF_INET6 \<or> ip_family a = AF_INET \<and> drop 4 (ip_bytes a) = replicate 12 0)"

text \<open>Bit \<open>i\<close> of the address, counted from the most significant one.\<close>

definition addr_bit :: "ip_address \<Rightarrow> nat \<Rightarrow> bool" where
  "addr_bit a i = bit (ip_bytes a ! (i div 8)) (7 - i mod 8)"

lemma family_neq [simp]: "AF_INET \<noteq> AF_INET6" "AF_INET6 \<noteq> AF_INET" "AF_INET \<noteq> 0" "AF_INET6 \<noteq> 0"
  by (simp_all add: AF_INET_def AF_INET6_def)

lemma ip_wf_size: "ip_wf a \<Longrightarrow> md_ip_size a \<le> length (ip_bytes a)"
  by (auto simp: ip_wf_def md_ip_size_def)

lemma ip_network_length [simp]: "ip_wf a \<Longrightarrow> length (ip_bytes (md_ip_network a p)) = 16"
  by (auto simp: md_ip_network_def Let_def md_ip_any_def ip_wf_def md_ip_size_def) presburger+

lemma ip_network_family [simp]: "ip_family (md_ip_network a p) = ip_family a" "md_ip_size (md_ip_network a p) = md_ip_size a"
  by (simp_all add: md_ip_network_def Let_def md_ip_any_def md_ip_size_def)

lemma byte_bits_ext:
  fixes x y :: u8
  assumes "\<And>j. j < 8 \<Longrightarrow> bit x (7 - j) = bit y (7 - j)"
  shows "x = y"
proof (rule bit_word_eqI)
  fix n :: nat
  assume "n < LENGTH(8)"
  thus "bit x n = bit y n" using assms [of "7 - n"] by simp
qed

lemma bytes_eq_bits:
  assumes "length xs = n" "length ys = n"
  shows "xs = ys \<longleftrightarrow> (\<forall>i < n * 8. bit ((xs :: u8 list) ! (i div 8)) (7 - i mod 8) = bit (ys ! (i div 8)) (7 - i mod 8))"
proof
  assume r: "\<forall>i < n * 8. bit (xs ! (i div 8)) (7 - i mod 8) = bit (ys ! (i div 8)) (7 - i mod 8)"
  have "xs ! b = ys ! b" if "b < n" for b
  proof (rule byte_bits_ext)
    fix j :: nat
    assume "j < 8"
    thus "bit (xs ! b) (7 - j) = bit (ys ! b) (7 - j)" using r [rule_format, of "b * 8 + j"] that by simp
  qed
  thus "xs = ys" using assms by (auto intro: nth_equalityI)
qed simp

text \<open>The network part keeps exactly the first \<open>p\<close> bits of the significant bytes.\<close>

lemma mask_bit:
  fixes x :: u8
  assumes "0 < r" "r < 8" "j < 8"
  shows "bit (x AND push_bit (8 - r) 0xff) (7 - j) \<longleftrightarrow> j < r \<and> bit x (7 - j)"
proof -
  have m: "(0xff :: u8) = mask 8" by (simp add: mask_eq_exp_minus_1)
  have "bit (push_bit (8 - r) (0xff :: u8)) (7 - j) \<longleftrightarrow> j < r"
    unfolding m bit_push_bit_iff bit_mask_iff possible_bit_word using assms by auto
  thus ?thesis
    by (simp only: bit_and_iff) blast
qed

lemma ip_network_bit:
  assumes wf: "ip_wf a" and p: "p \<le> md_ip_size a * 8" and i: "i < md_ip_size a * 8"
  shows "addr_bit (md_ip_network a p) i \<longleftrightarrow> i < p \<and> addr_bit a i"
proof -
  let ?bs = "ip_bytes a" and ?w = "p div 8" and ?r = "p mod 8" and ?n = "md_ip_size a"
  let ?part = "if ?r \<noteq> 0 then [(?bs ! ?w) AND push_bit (8 - ?r) 0xff] else []"
  let ?out = "take ?w ?bs @ ?part @ replicate (?n - ?w - length ?part) 0 @ drop ?n ?bs"
  have len: "?n \<le> length ?bs" by (rule ip_wf_size [OF wf])
  have w: "?w \<le> ?n" "?r \<noteq> 0 \<Longrightarrow> ?w < ?n" using p by presburger+
  have b: "i div 8 < ?n" using i by presburger
  have out: "ip_bytes (md_ip_network a p) = ?out"
    using p by (simp add: md_ip_network_def Let_def)
  consider "i div 8 < ?w" | "i div 8 = ?w" | "?w < i div 8" by linarith
  thus ?thesis
  proof cases
    case 1
    hence "?out ! (i div 8) = ?bs ! (i div 8)" "i < p" using len w by (auto simp: nth_append)
    thus ?thesis by (simp add: addr_bit_def out)
  next
    case 2
    show ?thesis
    proof (cases "?r = 0")
      case True
      hence "?out ! (i div 8) = 0" "\<not> i < p" using 2 b len by (auto simp: nth_append)
      thus ?thesis by (simp add: addr_bit_def out)
    next
      case False
      hence "?out ! (i div 8) = (?bs ! ?w) AND push_bit (8 - ?r) 0xff" using 2 b len by (simp add: nth_append)
      moreover have "i mod 8 < ?r \<longleftrightarrow> i < p" using 2 div_mult_mod_eq [of i 8] div_mult_mod_eq [of p 8] by linarith
      ultimately show ?thesis
        using False 2 mask_bit [of ?r "i mod 8" "?bs ! ?w"] by (simp add: addr_bit_def out)
    qed
  next
    case 3
    hence "?out ! (i div 8) = 0" "\<not> i < p" using b len w by (auto simp: nth_append)
    thus ?thesis by (simp add: addr_bit_def out)
  qed
qed

lemma ip_equal_bits:
  assumes "ip_wf a" "ip_wf b" "length (ip_bytes x) = 16" "length (ip_bytes y) = 16"
    "ip_family x = ip_family a" "ip_family y = ip_family b"
  shows "md_ip_equal x y \<longleftrightarrow> ip_family a = ip_family b \<and> (\<forall>i < md_ip_size a * 8. addr_bit x i = addr_bit y i)"
proof (cases "ip_family a = AF_INET")
  case True
  have "take 4 (ip_bytes x) = take 4 (ip_bytes y) \<longleftrightarrow> (\<forall>i < 4 * 8. addr_bit x i = addr_bit y i)"
    using assms(3,4) bytes_eq_bits [of "take 4 (ip_bytes x)" 4 "take 4 (ip_bytes y)"] by (auto simp: addr_bit_def)
  thus ?thesis using assms True by (simp add: md_ip_equal_def md_ip_size_def)
next
  case False
  hence "ip_family a = AF_INET6" using assms(1) by (simp add: ip_wf_def)
  thus ?thesis
    using assms bytes_eq_bits [of "ip_bytes x" 16 "ip_bytes y"] by (simp add: md_ip_equal_def md_ip_size_def addr_bit_def)
qed

text \<open>The valid refusals, listed.\<close>

definition valid_refusals :: "(reject_type \<times> u32) list" where
  "valid_refusals = (MD_REJECT_TCP, 0) # map (Pair MD_REJECT_ICMP4) [0, 1, 2, 3, 9, 10, 13]
     @ map (Pair MD_REJECT_ICMP6) [0, 1, 2, 3, 4, 5, 6] @ map (Pair MD_REJECT_ICMPX) [0, 1, 2, 3]"

lemma word_le_3: "(c :: u32) \<le> 3 \<Longrightarrow> c \<in> {0, 1, 2, 3}"
  by (auto simp: word_le_nat_alt word_unat_eq_iff)

lemma word_le_6: "(c :: u32) \<le> 6 \<Longrightarrow> c \<in> {0, 1, 2, 3, 4, 5, 6}"
  by (auto simp: word_le_nat_alt word_unat_eq_iff)

lemma reject_valid_listed: "md_network_reject_valid t c \<Longrightarrow> (t, c) \<in> set valid_refusals"
  using word_le_3 [of c] word_le_6 [of c]
  by (cases t) (auto simp: md_network_reject_valid_def valid_refusals_def)

section \<open>Properties\<close>

text \<open>
  Two addresses share a prefix of \<open>p\<close> bits, as \<open>md_ip_prefix\<close> computes it by masking whole
  and partial bytes, exactly if they are of one family, \<open>p\<close> is at most the length of its addresses,
  and their first \<open>p\<close> bits agree.
\<close>
theorem ip_prefix_exact:
  assumes "ip_wf a" "ip_wf b"
  shows "md_ip_prefix a b p \<longleftrightarrow>
    p \<le> md_ip_size a * 8 \<and> ip_family a = ip_family b \<and> (\<forall>i < p. addr_bit a i = addr_bit b i)"
proof (cases "p \<le> md_ip_size a * 8 \<and> ip_family a = ip_family b")
  case True
  hence n: "md_ip_size b = md_ip_size a" by (simp add: md_ip_size_def)
  have "(\<forall>i < md_ip_size a * 8. addr_bit (md_ip_network a p) i = addr_bit (md_ip_network b p) i)
      \<longleftrightarrow> (\<forall>i < p. addr_bit a i = addr_bit b i)"
    using True n ip_network_bit [OF assms(1)] ip_network_bit [OF assms(2)] by (simp, meson order_less_le_trans)
  thus ?thesis
    using True ip_equal_bits [OF assms, of "md_ip_network a p" "md_ip_network b p"] assms
    by (simp add: md_ip_prefix_def)
next
  case False
  thus ?thesis by (auto simp: md_ip_prefix_def md_ip_equal_def)
qed

text \<open>10.1.2.3 and 10.1.7.9 share sixteen bits but not twenty-two.\<close>

theorem ip_prefix_exact_witness:
  "md_ip_prefix (md_ip_v4 [10, 1, 2, 3]) (md_ip_v4 [10, 1, 7, 9]) 16
     \<and> \<not> md_ip_prefix (md_ip_v4 [10, 1, 2, 3]) (md_ip_v4 [10, 1, 7, 9]) 22
     \<and> (\<exists>i < 22. addr_bit (md_ip_v4 [10, 1, 2, 3]) i \<noteq> addr_bit (md_ip_v4 [10, 1, 7, 9]) i)"
proof -
  have wf: "ip_wf (md_ip_v4 [10, 1, 2, 3])" "ip_wf (md_ip_v4 [10, 1, 7, 9])"
    by (simp_all add: ip_wf_def md_ip_v4_def)
  have "\<not> md_ip_prefix (md_ip_v4 [10, 1, 2, 3]) (md_ip_v4 [10, 1, 7, 9]) 22"
    "md_ip_prefix (md_ip_v4 [10, 1, 2, 3]) (md_ip_v4 [10, 1, 7, 9]) 16"
    by code_simp+
  thus ?thesis
    using ip_prefix_exact [OF wf, of 22] by (auto simp: md_ip_v4_def md_ip_size_def)
qed

text \<open>
  A logical address survives the conversion to a socket address and back. A well-formed address
  encodes to its own family and, if it is IPv4, also to a mapped IPv6 address, and in each case
  decoding returns the address, port and, where the family carries one, scope it started from. An
  IPv6 address is refused for an IPv4 socket.
\<close>
theorem inet_roundtrip:
  assumes wf: "ip_wf (ia_ip a)" and scope: "ip_family (ia_ip a) = AF_INET \<longrightarrow> ia_scope a = 0"
    and plain: "ip_family (ia_ip a) = AF_INET6 \<longrightarrow> \<not> v4mapped (ip_bytes (ia_ip a))"
    and fam: "family0 \<in> {0, AF_INET, AF_INET6}"
  shows "case md_inet_encode a family0 of
      Inl e \<Rightarrow> e = EAFNOSUPPORT \<and> family0 = AF_INET \<and> ip_family (ia_ip a) = AF_INET6
    | Inr (sa, n) \<Rightarrow> md_inet_decode sa n = Inr a \<and> sa_family sa = (if family0 = 0 then ip_family (ia_ip a) else family0)"
proof (cases "ip_family (ia_ip a) = AF_INET")
  case True
  hence rest: "take 4 (ip_bytes (ia_ip a)) @ replicate 12 0 = ip_bytes (ia_ip a)"
    using wf append_take_drop_id [of 4 "ip_bytes (ia_ip a)"] by (simp add: ip_wf_def)
  hence load: "md_ip_load AF_INET (take 4 (ip_bytes (ia_ip a))) = ia_ip a"
    using True by (simp add: md_ip_load_def md_ip_size_def md_ip_any_def)
  have "length (ip_bytes (ia_ip a)) = 16" using wf by (simp add: ip_wf_def)
  hence "v4mapped (replicate 10 0 @ [0xff, 0xff] @ take 4 (ip_bytes (ia_ip a)))"
    by (simp add: v4mapped_def)
  thus ?thesis
    using fam True load scope
    by (auto simp: md_inet_encode_def Let_def md_inet_decode_def zero_sockaddr_def SOCKADDR_IN_SIZE_def SOCKADDR_IN6_SIZE_def)
next
  case False
  hence six: "ip_family (ia_ip a) = AF_INET6" using wf by (simp add: ip_wf_def)
  hence "md_ip_load AF_INET6 (ip_bytes (ia_ip a)) = ia_ip a"
    using wf by (simp add: md_ip_load_def md_ip_size_def md_ip_any_def ip_wf_def)
  thus ?thesis
    using fam six plain
    by (auto simp: md_inet_encode_def Let_def md_inet_decode_def zero_sockaddr_def SOCKADDR_IN6_SIZE_def)
qed

text \<open>127.0.0.1 as a mapped address on an IPv6 socket.\<close>

theorem inet_roundtrip_witness:
  "\<exists>sa. md_inet_encode \<lparr>ia_ip = md_ip_loopback AF_INET, ia_scope = 0, ia_port = 80\<rparr> AF_INET6 = Inr (sa, 28)
     \<and> md_inet_decode sa 28 = Inr \<lparr>ia_ip = md_ip_loopback AF_INET, ia_scope = 0, ia_port = 80\<rparr>"
proof -
  let ?a = "\<lparr>ia_ip = md_ip_loopback AF_INET, ia_scope = 0, ia_port = 80\<rparr>"
  have "ip_family (md_ip_loopback AF_INET) = AF_INET" "ip_wf (md_ip_loopback AF_INET)"
    by (simp_all add: md_ip_loopback_def md_ip_any_def ip_wf_def)
  thus ?thesis
    using inet_roundtrip [of ?a AF_INET6] by (auto simp: md_inet_encode_def Let_def SOCKADDR_IN6_SIZE_def)
qed

text \<open>
  Every valid refusal that fits the packet's family resolves to a concrete type, never the
  family-independent \<open>ICMPX\<close>, that is itself valid, and has an error number of its own: the
  fallback \<open>EOPNOTSUPP\<close> is never what a refused sender sees.
\<close>
theorem reject_resolves:
  assumes valid: "md_network_reject_valid t c" and fam: "fam = AF_INET \<or> fam = AF_INET6"
    and fits: "t = MD_REJECT_ICMP4 \<longrightarrow> fam = AF_INET" "t = MD_REJECT_ICMP6 \<longrightarrow> fam = AF_INET6"
  shows "rj_type (md_network_reject_resolve t c fam) \<in> {MD_REJECT_TCP, MD_REJECT_ICMP4, MD_REJECT_ICMP6}
    \<and> md_network_reject_valid (rj_type (md_network_reject_resolve t c fam)) (ucast (rj_code (md_network_reject_resolve t c fam)))
    \<and> md_network_reject_error (md_network_reject_resolve t c fam) \<noteq> EOPNOTSUPP"
proof -
  have "(t, c) \<in> set valid_refusals"
    using reject_valid_listed [OF valid] .
  moreover have "list_all (\<lambda>(t, c). \<forall>fam \<in> {AF_INET, AF_INET6}.
      (t = MD_REJECT_ICMP4 \<longrightarrow> fam = AF_INET) \<and> (t = MD_REJECT_ICMP6 \<longrightarrow> fam = AF_INET6) \<longrightarrow>
      (let r = md_network_reject_resolve t c fam
       in rj_type r \<in> {MD_REJECT_TCP, MD_REJECT_ICMP4, MD_REJECT_ICMP6}
          \<and> md_network_reject_valid (rj_type r) (ucast (rj_code r)) \<and> md_network_reject_error r \<noteq> EOPNOTSUPP)) valid_refusals"
    by code_simp
  ultimately show ?thesis
    using fam fits by (auto simp: list_all_iff Let_def)
qed

theorem reject_resolves_witness:
  "md_network_reject_error (md_network_reject_resolve MD_REJECT_ICMPX 1 AF_INET6) \<noteq> EOPNOTSUPP
     \<and> md_network_reject_resolve MD_REJECT_ICMPX 1 AF_INET6 = \<lparr>rj_type = MD_REJECT_ICMP6, rj_code = 4\<rparr>"
proof -
  have "md_network_reject_valid MD_REJECT_ICMPX 1" by (simp add: md_network_reject_valid_def)
  moreover have "md_network_reject_resolve MD_REJECT_ICMPX 1 AF_INET6 = \<lparr>rj_type = MD_REJECT_ICMP6, rj_code = 4\<rparr>"
    by code_simp
  ultimately show ?thesis using reject_resolves [of MD_REJECT_ICMPX 1 AF_INET6] by simp
qed

end
