(* ===== verification/Network_Filter.thy ===== *)
theory Network_Filter
  imports Network_Address "HOL-Library.List_Lexorder"
begin

text \<open>
  The packet filter's catalogue of tables, chains, rules and sets
  (\<^verbatim>\<open>src/native/shroot/src/network_filter.h\<close>, \<^verbatim>\<open>network_filter.c\<close>): the data the rule language is
  made of, the operations on the catalogue, and the ordered storage of sets with its binary search.
  Arrays are lists, so that the counts of the C structures are their lengths; the members of the
  union of \<open>struct md_filter_expression\<close> are separate fields, of which an opcode uses one.
\<close>

section \<open>Data\<close>

datatype filter_opcode =
    MD_FILTER_IMMEDIATE | MD_FILTER_VERDICT | MD_FILTER_META | MD_FILTER_META_SET
  | MD_FILTER_PAYLOAD | MD_FILTER_COMPARE | MD_FILTER_RANGE | MD_FILTER_BITWISE
  | MD_FILTER_CT | MD_FILTER_CT_SET | MD_FILTER_FIB | MD_FILTER_LOOKUP
  | MD_FILTER_NAT | MD_FILTER_MASQUERADE | MD_FILTER_VERDICT_MAP | MD_FILTER_DATA_MAP | MD_FILTER_COUNTER
  | MD_FILTER_TRANSPORT | MD_FILTER_STATE_MATCH | MD_FILTER_MARK_MATCH | MD_FILTER_CONNMARK_MATCH | MD_FILTER_ADDRESS_TYPE
  | MD_FILTER_PACKET_TYPE | MD_FILTER_REVERSE_PATH | MD_FILTER_ICMP_MATCH | MD_FILTER_REJECT
  | MD_FILTER_IPSET | MD_FILTER_MULTIPORT | MD_FILTER_LIMIT | MD_FILTER_LOG | MD_FILTER_PHYSDEV

record filter_table =
  ft_handle :: u64
  ft_family :: u32
  ft_name :: string
  ft_userdata :: "u8 list"

record filter_counter =
  ctr_packets :: u64
  ctr_bytes :: u64

record filter_limit =
  lim_cost :: u64
  lim_capacity :: u64
  lim_credit :: u64
  lim_previous :: u64

record filter_log =
  log_group :: u32
  log_prefix :: string

record filter_physdev =
  pd_names :: "u8 list list"
  pd_masks :: "u8 list list"
  pd_flags :: u32
  pd_invert :: u32

definition MD_FILTER_INVERT_SOURCE :: u32 where "MD_FILTER_INVERT_SOURCE = 1"
definition MD_FILTER_INVERT_DESTINATION :: u32 where "MD_FILTER_INVERT_DESTINATION = 2"

record filter_transport =
  tr_source :: "u16 \<times> u16"
  tr_destination :: "u16 \<times> u16"
  tr_protocol :: u32
  tr_inversion :: u32

record filter_multiport =
  mu_ports :: "u16 list"
  mu_ranges :: u16
  mu_count :: nat
  mu_direction :: u32
  mu_invert :: u32

record filter_expression =
  fe_code :: filter_opcode
  fe_src :: nat
  fe_dst :: nat
  fe_size :: nat
  fe_key :: u32
  fe_operation :: u32
  fe_aux :: u32
  fe_constant :: u32
  fe_family :: u32
  fe_port_range :: u32
  fe_port_max :: u32
  fe_nat_flags :: u32
  fe_target :: u64
  fe_value :: "u8 list"
  fe_mask :: "u8 list"
  fe_counter :: filter_counter
  fe_transport :: filter_transport
  fe_multiport :: filter_multiport
  fe_limit :: filter_limit
  fe_log :: filter_log
  fe_physdev :: filter_physdev
  fe_nat_port :: u16

record filter_chain =
  fc_table :: u64
  fc_handle :: u64
  fc_id :: u32
  fc_name :: string
  fc_hook :: int
  fc_priority :: int
  fc_nat :: bool
  fc_reroute :: bool
  fc_policy :: u32
  fc_counters :: bool
  fc_counter :: filter_counter
  fc_userdata :: "u8 list"

record filter_rule =
  fr_chain :: u64
  fr_handle :: u64
  fr_id :: u32
  fr_expressions :: "filter_expression list"
  fr_wire :: "u8 list"
  fr_userdata :: "u8 list"

record filter_verdict =
  fv_operation :: u32
  fv_target :: u64

record filter_element =
  el_key :: "u8 list"
  el_end :: u32
  el_verdict :: filter_verdict
  el_data :: "u8 list"

record filter_set =
  fs_table :: u64
  fs_handle :: u64
  fs_id :: u32
  fs_flags :: u32
  fs_key_type :: u32
  fs_key_size :: nat
  fs_data_type :: u32
  fs_data_size :: nat
  fs_name :: string
  fs_elements :: "filter_element list"
  fs_capacity :: nat
  fs_userdata :: "u8 list"
  fs_ipset_kind :: u32
  fs_ipset_family :: u32
  fs_ipset_index :: u32
  fs_ipset_revision :: u32
  fs_ipset_max :: u32
  fs_ipset_hashsize :: u32
  fs_ipset_timeout :: bool
  fs_prefixes :: "u64 list"

record network_filter =
  nf_generation :: u32
  nf_next_handle :: u64
  nf_tables :: "filter_table list"
  nf_capacity :: nat
  nf_chains :: "filter_chain list"
  nf_chain_capacity :: nat
  nf_rules :: "filter_rule list"
  nf_rule_capacity :: nat
  nf_sets :: "filter_set list"
  nf_set_capacity :: nat

unbundle bit_operations_syntax

text \<open>The ports of a multiport match: an element whose bit is set in \<open>ranges\<close> starts a range.\<close>

function multiport_scan :: "filter_multiport \<Rightarrow> nat \<Rightarrow> nat \<Rightarrow> bool" where
  "multiport_scan m port i =
     (if i < mu_count m then
        let range = bit (mu_ranges m) i; first = unat (mu_ports m ! i);
            j = (if range then Suc i else i); last = (if range then unat (mu_ports m ! j) else first)
        in if first \<le> port \<and> port \<le> last then True else multiport_scan m port (Suc j)
      else False)"
  by pat_completeness auto
termination by (relation "measure (\<lambda>(m, port, i). mu_count m - i)") (auto split: if_splits)

declare multiport_scan.simps [simp del]

definition md_filter_multiport_contains :: "filter_multiport \<Rightarrow> nat \<Rightarrow> bool" where
  "md_filter_multiport_contains m port = multiport_scan m port 0"

definition md_filter_port_matches :: "nat \<Rightarrow> u16 \<times> u16 \<Rightarrow> bool \<Rightarrow> bool" where
  "md_filter_port_matches port bounds invert =
     ((unat (fst bounds) \<le> port \<and> port \<le> unat (snd bounds)) \<noteq> invert)"

definition md_filter_set_expression :: "filter_expression \<Rightarrow> bool" where
  "md_filter_set_expression e \<longleftrightarrow>
     fe_code e = MD_FILTER_LOOKUP \<or> fe_code e = MD_FILTER_VERDICT_MAP \<or> fe_code e = MD_FILTER_DATA_MAP"

section \<open>The catalogue\<close>

definition UINT64_MAX :: u64 where "UINT64_MAX = 18446744073709551615"

definition md_network_filter_generation :: "network_filter option \<Rightarrow> u32" where
  "md_network_filter_generation f = (case f of Some g \<Rightarrow> nf_generation g | None \<Rightarrow> 1)"

definition md_network_filter_next_generation :: "network_filter option \<Rightarrow> u32" where
  "md_network_filter_next_generation f =
     (let nxt = md_network_filter_generation f + 1 in if nxt \<noteq> 0 then nxt else 1)"

text \<open>\<open>grown\<close> says whether \<open>realloc\<close> succeeds; the result is the new capacity.\<close>

definition md_filter_reserve :: "bool \<Rightarrow> nat \<Rightarrow> nat \<Rightarrow> nat \<Rightarrow> nat result" where
  "md_filter_reserve realloced capacity cnt limit =
     (if cnt > limit then Inl ENOSPC
      else if cnt \<le> capacity then Inr capacity
      else
        let nxt = (if capacity \<noteq> 0 then capacity * 2 else 4);
            nxt = (if nxt < cnt then cnt else nxt);
            nxt = (if nxt > limit then limit else nxt)
        in if realloced then Inr nxt else Inl ENOMEM)"

text \<open>The allocations of a copy.\<close>

datatype copy_alloc = ASelf | ATables | AChains | ARules | ASets | AWire nat | AElements nat

fun copy_rules :: "(copy_alloc \<Rightarrow> bool) \<Rightarrow> nat \<Rightarrow> filter_rule list \<Rightarrow> filter_rule list option" where
  "copy_rules ok i [] = Some []"
| "copy_rules ok i (r # rs) =
     (if fr_wire r \<noteq> [] \<and> \<not> ok (AWire i) then None
      else map_option ((#) r) (copy_rules ok (Suc i) rs))"

fun copy_sets :: "(copy_alloc \<Rightarrow> bool) \<Rightarrow> nat \<Rightarrow> filter_set list \<Rightarrow> filter_set list option" where
  "copy_sets ok i [] = Some []"
| "copy_sets ok i (s # ss) =
     (case md_filter_reserve (ok (AElements i)) 0 (length (fs_elements s)) 1024 of
        Inl _ \<Rightarrow> None
      | Inr cap \<Rightarrow> map_option ((#) (s\<lparr>fs_capacity := cap\<rparr>)) (copy_sets ok (Suc i) ss))"

definition empty_filter :: network_filter where
  "empty_filter = \<lparr>nf_generation = 1, nf_next_handle = 1, nf_tables = [], nf_capacity = 0, nf_chains = [],
     nf_chain_capacity = 0, nf_rules = [], nf_rule_capacity = 0, nf_sets = [], nf_set_capacity = 0\<rparr>"

definition md_network_filter_copy :: "(copy_alloc \<Rightarrow> bool) \<Rightarrow> network_filter option \<Rightarrow> network_filter option" where
  "md_network_filter_copy ok src =
     (if \<not> ok ASelf then None
      else case src of
        None \<Rightarrow> Some empty_filter
      | Some g \<Rightarrow>
          if nf_tables g \<noteq> [] \<and> \<not> ok ATables then None
          else (case (md_filter_reserve (ok AChains) 0 (length (nf_chains g)) 256,
                      md_filter_reserve (ok ARules) 0 (length (nf_rules g)) 1024,
                      md_filter_reserve (ok ASets) 0 (length (nf_sets g)) 256) of
                  (Inr cc, Inr rc, Inr sc) \<Rightarrow>
                    (case (copy_rules ok 0 (nf_rules g), copy_sets ok 0 (nf_sets g)) of
                       (Some rs, Some ss) \<Rightarrow>
                         Some (empty_filter\<lparr>nf_generation := nf_generation g, nf_next_handle := nf_next_handle g,
                           nf_tables := nf_tables g, nf_capacity := length (nf_tables g),
                           nf_chains := nf_chains g, nf_chain_capacity := cc,
                           nf_rules := rs, nf_rule_capacity := rc, nf_sets := ss, nf_set_capacity := sc\<rparr>)
                     | _ \<Rightarrow> None)
                | _ \<Rightarrow> None))"

definition md_network_filter_find :: "network_filter option \<Rightarrow> u32 \<Rightarrow> string option \<Rightarrow> u64 \<Rightarrow> filter_table option" where
  "md_network_filter_find f fam name handle =
     (case f of None \<Rightarrow> None
      | Some g \<Rightarrow> find (\<lambda>t. ft_family t = fam \<and> (case name of Some n \<Rightarrow> n = ft_name t | None \<Rightarrow> ft_handle t = handle)) (nf_tables g))"

definition md_network_filter_add ::
  "bool \<Rightarrow> network_filter \<Rightarrow> u32 \<Rightarrow> string option \<Rightarrow> u8 list \<Rightarrow> unit result \<times> network_filter" where
  "md_network_filter_add realloced f fam name userdata =
     (case name of
        None \<Rightarrow> (Inl EINVAL, f)
      | Some n \<Rightarrow>
         if n = [] \<or> length n \<ge> 256 \<or> length userdata > 256 then (Inl EINVAL, f)
         else if md_network_filter_find (Some f) fam (Some n) 0 \<noteq> None then (Inl EEXIST, f)
         else if length (nf_tables f) = 256 \<or> nf_next_handle f = UINT64_MAX then (Inl ENOSPC, f)
         else
           let full = (length (nf_tables f) = nf_capacity f);
               cap = (if nf_capacity f \<noteq> 0 then nf_capacity f * 2 else 4);
               cap = (if cap > 256 then 256 else cap)
           in if full \<and> \<not> realloced then (Inl ENOMEM, f)
              else (Inr (), f\<lparr>nf_capacity := (if full then cap else nf_capacity f),
                     nf_tables := nf_tables f @ [\<lparr>ft_handle = nf_next_handle f, ft_family = fam, ft_name = n, ft_userdata = userdata\<rparr>],
                     nf_next_handle := nf_next_handle f + 1\<rparr>))"

definition remove_at :: "nat \<Rightarrow> 'a list \<Rightarrow> 'a list" where
  "remove_at i xs = take i xs @ drop (Suc i) xs"

definition md_filter_rule_delete :: "network_filter \<Rightarrow> nat \<Rightarrow> network_filter" where
  "md_filter_rule_delete f index = f\<lparr>nf_rules := remove_at index (nf_rules f)\<rparr>"

lemma length_remove_at [simp]: "i < length xs \<Longrightarrow> length (remove_at i xs) = length xs - 1"
  by (simp add: remove_at_def)

function chain_rules_loop :: "u64 \<Rightarrow> nat \<Rightarrow> network_filter \<Rightarrow> network_filter" where
  "chain_rules_loop handle i f =
     (if i < length (nf_rules f) then
        if fr_chain (nf_rules f ! i) = handle then chain_rules_loop handle i (md_filter_rule_delete f i)
        else chain_rules_loop handle (Suc i) f
      else f)"
  by pat_completeness auto
termination by (relation "measure (\<lambda>(handle, i, f). length (nf_rules f) - i)") (auto simp: md_filter_rule_delete_def)

declare chain_rules_loop.simps [simp del]

definition md_filter_chain_delete :: "network_filter \<Rightarrow> nat \<Rightarrow> network_filter" where
  "md_filter_chain_delete f index =
     (let g = chain_rules_loop (fc_handle (nf_chains f ! index)) 0 f
      in g\<lparr>nf_chains := remove_at index (nf_chains g)\<rparr>)"

definition md_filter_set_delete :: "network_filter \<Rightarrow> nat \<Rightarrow> network_filter" where
  "md_filter_set_delete f index = f\<lparr>nf_sets := remove_at index (nf_sets f)\<rparr>"

lemma chain_rules_loop_frame [simp]:
  "nf_chains (chain_rules_loop h i f) = nf_chains f" "nf_sets (chain_rules_loop h i f) = nf_sets f"
  "nf_tables (chain_rules_loop h i f) = nf_tables f"
  by (induction h i f rule: chain_rules_loop.induct; subst chain_rules_loop.simps; simp add: md_filter_rule_delete_def)+

function table_chains_loop :: "u64 \<Rightarrow> nat \<Rightarrow> network_filter \<Rightarrow> network_filter" where
  "table_chains_loop handle j f =
     (if j < length (nf_chains f) then
        if fc_table (nf_chains f ! j) = handle then table_chains_loop handle j (md_filter_chain_delete f j)
        else table_chains_loop handle (Suc j) f
      else f)"
  by pat_completeness auto
termination by (relation "measure (\<lambda>(handle, j, f). length (nf_chains f) - j)") (auto simp: md_filter_chain_delete_def Let_def)

declare table_chains_loop.simps [simp del]

function table_sets_loop :: "u64 \<Rightarrow> nat \<Rightarrow> network_filter \<Rightarrow> network_filter" where
  "table_sets_loop handle j f =
     (if j < length (nf_sets f) then
        if fs_table (nf_sets f ! j) = handle then table_sets_loop handle j (md_filter_set_delete f j)
        else table_sets_loop handle (Suc j) f
      else f)"
  by pat_completeness auto
termination by (relation "measure (\<lambda>(handle, j, f). length (nf_sets f) - j)") (auto simp: md_filter_set_delete_def)

declare table_sets_loop.simps [simp del]

lemma table_chains_frame [simp]:
  "nf_tables (table_chains_loop h j f) = nf_tables f" "nf_sets (table_chains_loop h j f) = nf_sets f"
  by (induction h j f rule: table_chains_loop.induct; subst table_chains_loop.simps; simp add: md_filter_chain_delete_def Let_def)+

lemma table_sets_frame [simp]:
  "nf_tables (table_sets_loop h j f) = nf_tables f" "nf_chains (table_sets_loop h j f) = nf_chains f"
  "nf_rules (table_sets_loop h j f) = nf_rules f"
  by (induction h j f rule: table_sets_loop.induct; subst table_sets_loop.simps; simp add: md_filter_set_delete_def)+

definition table_matches :: "u32 \<Rightarrow> string option \<Rightarrow> u64 \<Rightarrow> filter_table \<Rightarrow> bool" where
  "table_matches fam name handle t \<longleftrightarrow> (fam = 0 \<or> ft_family t = fam)
     \<and> (case name of None \<Rightarrow> True | Some n \<Rightarrow> ft_name t = n) \<and> (handle = 0 \<or> ft_handle t = handle)"

function tables_delete_loop :: "u32 \<Rightarrow> string option \<Rightarrow> u64 \<Rightarrow> nat \<Rightarrow> network_filter \<Rightarrow> network_filter" where
  "tables_delete_loop fam name handle i f =
     (if i < length (nf_tables f) then
        let t = nf_tables f ! i in
        if table_matches fam name handle t then
          let g = table_sets_loop (ft_handle t) 0 (table_chains_loop (ft_handle t) 0 f)
          in tables_delete_loop fam name handle i (g\<lparr>nf_tables := remove_at i (nf_tables g)\<rparr>)
        else tables_delete_loop fam name handle (Suc i) f
      else f)"
  by pat_completeness auto
termination by (relation "measure (\<lambda>(fam, name, handle, i, f). length (nf_tables f) - i)") auto

declare tables_delete_loop.simps [simp del]

definition md_network_filter_delete ::
  "network_filter option \<Rightarrow> u32 \<Rightarrow> string option \<Rightarrow> u64 \<Rightarrow> network_filter option" where
  "md_network_filter_delete f fam name handle = map_option (tables_delete_loop fam name handle 0) f"

definition md_filter_chain_find ::
  "network_filter option \<Rightarrow> u64 \<Rightarrow> string option \<Rightarrow> u64 \<Rightarrow> u32 \<Rightarrow> filter_chain option" where
  "md_filter_chain_find f table name handle ident =
     (case f of None \<Rightarrow> None
      | Some g \<Rightarrow> find (\<lambda>c. (table = 0 \<or> fc_table c = table)
          \<and> (case name of Some n \<Rightarrow> n = fc_name c
             | None \<Rightarrow> if handle \<noteq> 0 then handle = fc_handle c else ident \<noteq> 0 \<and> ident = fc_id c)) (nf_chains g))"

definition md_filter_set_find ::
  "network_filter option \<Rightarrow> u64 \<Rightarrow> string option \<Rightarrow> u64 \<Rightarrow> u32 \<Rightarrow> filter_set option" where
  "md_filter_set_find f table name handle ident =
     (case f of None \<Rightarrow> None
      | Some g \<Rightarrow> find (\<lambda>s. (table = 0 \<or> fs_table s = table)
          \<and> (case name of Some n \<Rightarrow> n = fs_name s
             | None \<Rightarrow> if handle \<noteq> 0 then handle = fs_handle s else ident \<noteq> 0 \<and> ident = fs_id s)) (nf_sets g))"

section \<open>Sets\<close>

definition NFT_SET_INTERVAL :: u32 where "NFT_SET_INTERVAL = 4"

text \<open>The sign of \<open>memcmp\<close> over \<open>n\<close> bytes.\<close>

fun memcmp :: "nat \<Rightarrow> u8 list \<Rightarrow> u8 list \<Rightarrow> int" where
  "memcmp (Suc n) (x # xs) (y # ys) = (if x < y then -1 else if y < x then 1 else memcmp n xs ys)"
| "memcmp _ _ _ = 0"

definition element_before :: "nat \<Rightarrow> u8 list \<Rightarrow> u32 \<Rightarrow> filter_element \<Rightarrow> bool" where
  "element_before n key fin e \<longleftrightarrow>
     (let order = memcmp n (el_key e) key in order < 0 \<or> order = 0 \<and> el_end e > fin)"

function position_loop :: "filter_set \<Rightarrow> u8 list \<Rightarrow> u32 \<Rightarrow> nat \<Rightarrow> nat \<Rightarrow> nat" where
  "position_loop s key fin low high =
     (if low < high then
        let mid = low + (high - low) div 2
        in if element_before (fs_key_size s) key fin (fs_elements s ! mid)
           then position_loop s key fin (mid + 1) high
           else position_loop s key fin low mid
      else low)"
  by pat_completeness auto
termination by (relation "measure (\<lambda>(s, key, fin, low, high). high - low)") auto

declare position_loop.simps [simp del]

definition md_filter_set_position :: "filter_set \<Rightarrow> u8 list \<Rightarrow> u32 \<Rightarrow> nat" where
  "md_filter_set_position s key fin = position_loop s key fin 0 (length (fs_elements s))"

text \<open>The index of the element found; the code returns its address.\<close>

definition md_filter_set_lookup_index :: "filter_set \<Rightarrow> u8 list \<Rightarrow> nat option" where
  "md_filter_set_lookup_index s key =
     (let at = md_filter_set_position s key 0; es = fs_elements s in
      if at < length es \<and> el_end (es ! at) = 0 \<and> memcmp (fs_key_size s) (el_key (es ! at)) key = 0 then Some at
      else if (fs_flags s AND NFT_SET_INTERVAL) \<noteq> 0 \<and> at \<noteq> 0 \<and> el_end (es ! (at - 1)) = 0 then Some (at - 1)
      else None)"

definition md_filter_set_lookup :: "filter_set \<Rightarrow> u8 list \<Rightarrow> filter_element option" where
  "md_filter_set_lookup s key = map_option ((!) (fs_elements s)) (md_filter_set_lookup_index s key)"

definition NFT_CONTINUE :: u32 where "NFT_CONTINUE = -1"

text \<open>\<open>md_filter_verdict_count\<close> and \<open>md_filter_verdict_at\<close>, by index.\<close>

definition md_filter_verdict_count :: "network_filter \<Rightarrow> filter_expression \<Rightarrow> nat" where
  "md_filter_verdict_count f e =
     (if fe_code e = MD_FILTER_VERDICT then 1
      else if fe_code e = MD_FILTER_VERDICT_MAP
      then (case find (\<lambda>s. fs_handle s = fe_target e) (nf_sets f) of Some s \<Rightarrow> length (fs_elements s) | None \<Rightarrow> 0)
      else 0)"

definition md_filter_verdict_at :: "network_filter \<Rightarrow> filter_expression \<Rightarrow> nat \<Rightarrow> filter_verdict" where
  "md_filter_verdict_at f e at =
     (if fe_code e = MD_FILTER_VERDICT then \<lparr>fv_operation = fe_operation e, fv_target = fe_target e\<rparr>
      else case find (\<lambda>s. fs_handle s = fe_target e) (nf_sets f) of
             Some s \<Rightarrow> if el_end (fs_elements s ! at) \<noteq> 0 then \<lparr>fv_operation = NFT_CONTINUE, fv_target = 0\<rparr>
                       else el_verdict (fs_elements s ! at)
           | None \<Rightarrow> \<lparr>fv_operation = 0, fv_target = 0\<rparr>)"

text \<open>Accounting: the cells are addressed by key, a cell listed twice counts twice.\<close>

definition md_filter_account :: "'k list \<Rightarrow> u64 \<Rightarrow> ('k \<Rightarrow> filter_counter) \<Rightarrow> 'k \<Rightarrow> filter_counter" where
  "md_filter_account cells bytes = fold (\<lambda>k m. m(k :=
     \<lparr>ctr_packets = ctr_packets (m k) + 1, ctr_bytes = ctr_bytes (m k) + bytes\<rparr>)) cells"

section \<open>Deletion\<close>

text \<open>One turn of a loop that removes the element at its index or moves on.\<close>

lemma filter_from_drop:
  assumes "i < length xs"
  shows "take i xs @ filter P (drop i xs) =
    (if P (xs ! i) then take (Suc i) xs @ filter P (drop (Suc i) xs)
     else take i (remove_at i xs) @ filter P (drop i (remove_at i xs)))"
  using assms by (simp add: remove_at_def take_Suc_conv_app_nth flip: Cons_nth_drop_Suc)

lemma drop_remove_at: "i < length xs \<Longrightarrow> drop i (remove_at i xs) = drop (Suc i) xs"
  by (simp add: remove_at_def)

lemma set_drop_nth: "i < length xs \<Longrightarrow> set (drop i xs) = insert (xs ! i) (set (drop (Suc i) xs))"
  by (simp flip: Cons_nth_drop_Suc)

lemma chain_rules_loop_eq:
  "chain_rules_loop h i f = f\<lparr>nf_rules := take i (nf_rules f) @ filter (\<lambda>r. fr_chain r \<noteq> h) (drop i (nf_rules f))\<rparr>"
proof (induction h i f rule: chain_rules_loop.induct)
  case (1 h i f)
  show ?case
    by (subst chain_rules_loop.simps) (use 1 filter_from_drop [of i "nf_rules f" "\<lambda>r. fr_chain r \<noteq> h"] in
        \<open>auto simp: md_filter_rule_delete_def\<close>)
qed

lemma table_sets_loop_eq:
  "table_sets_loop h j f = f\<lparr>nf_sets := take j (nf_sets f) @ filter (\<lambda>s. fs_table s \<noteq> h) (drop j (nf_sets f))\<rparr>"
proof (induction h j f rule: table_sets_loop.induct)
  case (1 h j f)
  show ?case
    by (subst table_sets_loop.simps) (use 1 filter_from_drop [of j "nf_sets f" "\<lambda>r. fs_table r \<noteq> h"] in
        \<open>auto simp: md_filter_set_delete_def\<close>)
qed

text \<open>The handles of the chains from \<open>j\<close> on that belong to a table.\<close>

definition chain_handles :: "(filter_chain \<Rightarrow> bool) \<Rightarrow> filter_chain list \<Rightarrow> u64 set" where
  "chain_handles P cs = fc_handle ` {c \<in> set cs. P c}"

lemma chain_handles_nth:
  "j < length cs \<Longrightarrow> chain_handles P (drop j cs) =
     (if P (cs ! j) then insert (fc_handle (cs ! j)) (chain_handles P (drop (Suc j) cs)) else chain_handles P (drop (Suc j) cs))"
  by (auto simp: chain_handles_def set_drop_nth)

lemma table_chains_loop_eq:
  "table_chains_loop h j f = f\<lparr>
     nf_chains := take j (nf_chains f) @ filter (\<lambda>c. fc_table c \<noteq> h) (drop j (nf_chains f)),
     nf_rules := filter (\<lambda>r. fr_chain r \<notin> chain_handles (\<lambda>c. fc_table c = h) (drop j (nf_chains f))) (nf_rules f)\<rparr>"
proof (induction h j f rule: table_chains_loop.induct)
  case (1 h j f)
  let ?cs = "nf_chains f"
  note step = filter_from_drop [of j ?cs "\<lambda>c. fc_table c \<noteq> h"]
  show ?case
  proof (cases "j < length ?cs")
    case True
    note drop = drop_remove_at [OF True] and handles = chain_handles_nth [OF True, of "\<lambda>c. fc_table c = h"]
    show ?thesis
    proof (cases "fc_table (?cs ! j) = h")
      case del: True
      let ?g = "md_filter_chain_delete f j"
      have g: "?g = f\<lparr>nf_rules := filter (\<lambda>r. fr_chain r \<noteq> fc_handle (?cs ! j)) (nf_rules f), nf_chains := remove_at j ?cs\<rparr>"
        by (simp add: md_filter_chain_delete_def Let_def chain_rules_loop_eq)
      show ?thesis
        by (subst table_chains_loop.simps) (use True del 1(1) step handles drop in \<open>simp add: g conj_commute\<close>)
    next
      case False
      show ?thesis
        by (subst table_chains_loop.simps) (use True False 1(2) step handles in simp)
    qed
  next
    case False
    thus ?thesis by (subst table_chains_loop.simps) (simp add: chain_handles_def)
  qed
qed

definition table_handles :: "(filter_table \<Rightarrow> bool) \<Rightarrow> filter_table list \<Rightarrow> u64 set" where
  "table_handles P ts = ft_handle ` {t \<in> set ts. P t}"

lemma table_handles_nth:
  "j < length ts \<Longrightarrow> table_handles P (drop j ts) =
     (if P (ts ! j) then insert (ft_handle (ts ! j)) (table_handles P (drop (Suc j) ts)) else table_handles P (drop (Suc j) ts))"
  by (auto simp: table_handles_def set_drop_nth)

lemma tables_delete_loop_eq:
  fixes fam name handle i f
  defines "P \<equiv> table_matches fam name handle"
  shows "tables_delete_loop fam name handle i f = (let H = table_handles P (drop i (nf_tables f)) in f\<lparr>
     nf_tables := take i (nf_tables f) @ filter (\<lambda>t. \<not> P t) (drop i (nf_tables f)),
     nf_chains := filter (\<lambda>c. fc_table c \<notin> H) (nf_chains f),
     nf_rules := filter (\<lambda>r. fr_chain r \<notin> chain_handles (\<lambda>c. fc_table c \<in> H) (nf_chains f)) (nf_rules f),
     nf_sets := filter (\<lambda>s. fs_table s \<notin> H) (nf_sets f)\<rparr>)"
  unfolding P_def
proof (induction fam name handle i f rule: tables_delete_loop.induct)
  case (1 fam name handle i f)
  let ?ts = "nf_tables f" and ?P = "table_matches fam name handle"
  note step = filter_from_drop [of i ?ts "\<lambda>t. \<not> ?P t"]
  show ?case
  proof (cases "i < length ?ts")
    case True
    note drop = drop_remove_at [OF True] and handles = table_handles_nth [OF True, of ?P]
    show ?thesis
    proof (cases "?P (?ts ! i)")
      case del: True
      let ?h = "ft_handle (?ts ! i)"
      let ?g = "table_sets_loop ?h 0 (table_chains_loop ?h 0 f)"
      let ?H = "table_handles ?P (drop (Suc i) ?ts)"
      have g: "?g = f\<lparr>nf_chains := filter (\<lambda>c. fc_table c \<noteq> ?h) (nf_chains f),
          nf_rules := filter (\<lambda>r. fr_chain r \<notin> chain_handles (\<lambda>c. fc_table c = ?h) (nf_chains f)) (nf_rules f),
          nf_sets := filter (\<lambda>s. fs_table s \<noteq> ?h) (nf_sets f)\<rparr>"
        by (simp add: table_sets_loop_eq table_chains_loop_eq)
      have rules: "chain_handles (\<lambda>c. fc_table c \<in> insert ?h ?H) (nf_chains f)
          = chain_handles (\<lambda>c. fc_table c = ?h) (nf_chains f)
            \<union> chain_handles (\<lambda>c. fc_table c \<in> ?H) (filter (\<lambda>c. fc_table c \<noteq> ?h) (nf_chains f))"
        by (auto simp: chain_handles_def)
      show ?thesis
        by (subst tables_delete_loop.simps)
          (use True del 1(1) [OF True refl del refl] step handles drop rules in \<open>simp add: g Let_def conj_ac\<close>)
    next
      case False
      show ?thesis
        by (subst tables_delete_loop.simps) (use True False 1(2) [OF True refl False] step handles in \<open>simp add: Let_def\<close>)
    qed
  next
    case False
    thus ?thesis by (subst tables_delete_loop.simps) (simp add: table_handles_def chain_handles_def)
  qed
qed

section \<open>Ordered storage of sets\<close>

lemma memcmp_take:
  assumes "n \<le> length xs" "n \<le> length ys"
  shows "memcmp n xs ys < 0 \<longleftrightarrow> take n xs < take n ys" and "memcmp n xs ys = 0 \<longleftrightarrow> take n xs = take n ys"
  using assms
proof (induction n xs ys rule: memcmp.induct)
  case (1 n x xs y ys)
  {
    case 1
    thus ?case using "1.IH"(1) by (auto)
  next
    case 2
    thus ?case using "1.IH"(2) by auto
  }
qed auto

text \<open>The order the elements of a set are kept in: by key, an end before a start at the same key.\<close>

definition element_less :: "nat \<Rightarrow> filter_element \<Rightarrow> filter_element \<Rightarrow> bool" where
  "element_less n a b \<longleftrightarrow> memcmp n (el_key a) (el_key b) < 0
     \<or> memcmp n (el_key a) (el_key b) = 0 \<and> el_end b < el_end a"

definition set_ok :: "filter_set \<Rightarrow> bool" where
  "set_ok s \<longleftrightarrow> (\<forall>e \<in> set (fs_elements s). fs_key_size s \<le> length (el_key e))
     \<and> sorted_wrt (element_less (fs_key_size s)) (fs_elements s)"

lemma element_less_iff:
  assumes "n \<le> length (el_key a)" "n \<le> length (el_key b)"
  shows "element_less n a b \<longleftrightarrow> take n (el_key a) < take n (el_key b)
     \<or> take n (el_key a) = take n (el_key b) \<and> el_end b < el_end a"
  using memcmp_take [OF assms] by (simp add: element_less_def)

lemma element_before_iff:
  assumes "n \<le> length (el_key e)" "n \<le> length key"
  shows "element_before n key fin e \<longleftrightarrow> take n (el_key e) < take n key \<or> take n (el_key e) = take n key \<and> fin < el_end e"
  using memcmp_take [OF assms] by (simp add: element_before_def Let_def)

lemma before_down:
  assumes "element_less n a b" "element_before n key fin b"
    and "n \<le> length (el_key a)" "n \<le> length (el_key b)" "n \<le> length key"
  shows "element_before n key fin a"
  using assms by (auto simp: element_less_iff element_before_iff)

lemma position_loop_least:
  assumes "\<And>i j. i < j \<Longrightarrow> j < length es \<Longrightarrow> B (es ! j) \<Longrightarrow> B (es ! i)"
    and "es = fs_elements s" "B = element_before (fs_key_size s) key fin"
    and "low \<le> high" "high \<le> length es" "\<And>i. i < low \<Longrightarrow> B (es ! i)" "\<And>i. high \<le> i \<Longrightarrow> i < length es \<Longrightarrow> \<not> B (es ! i)"
  shows "position_loop s key fin low high \<le> length es
    \<and> (\<forall>i < length es. B (es ! i) \<longleftrightarrow> i < position_loop s key fin low high)"
  using assms
proof (induction s key fin low high rule: position_loop.induct)
  case (1 s key fin low high)
  show ?case
  proof (cases "low < high")
    case True
    let ?m = "low + (high - low) div 2"
    have m: "low \<le> ?m" "?m < high" using True by auto
    show ?thesis
    proof (cases "B (es ! ?m)")
      case below: True
      have low: "B (es ! i)" if "i < ?m + 1" for i
        using below that "1.prems"(1) [of i ?m] m "1.prems"(5) by (cases "i = ?m") auto
      have eq: "position_loop s key fin low high = position_loop s key fin (?m + 1) high"
        using True below by (subst position_loop.simps) (simp add: Let_def "1.prems"(2,3))
      show ?thesis
        unfolding eq
        by (rule 1(1) [OF True refl _ "1.prems"(1,2,3) _ "1.prems"(5) low "1.prems"(7)])
          (use below m in \<open>simp_all add: "1.prems"(2,3)\<close>)
    next
      case above: False
      have high: "\<not> B (es ! i)" if "?m \<le> i" "i < length es" for i
        using above that "1.prems"(1) [of ?m i] by (cases "i = ?m") auto
      have eq: "position_loop s key fin low high = position_loop s key fin low ?m"
        using True above by (subst position_loop.simps) (simp add: Let_def "1.prems"(2,3))
      show ?thesis
        unfolding eq
        by (rule 1(2) [OF True refl _ "1.prems"(1,2,3) _ _ "1.prems"(6) high])
          (use above m "1.prems"(5) in \<open>simp_all add: "1.prems"(2,3)\<close>)
    qed
  next
    case False
    hence eq: "position_loop s key fin low high = low" by (subst position_loop.simps) simp
    have "B (es ! i) \<longleftrightarrow> i < low" if "i < length es" for i
      using "1.prems"(4,6,7) False that by (metis le_neq_implies_less leI)
    thus ?thesis unfolding eq using "1.prems"(4,5) by simp
  qed
qed

lemma position_exact:
  assumes ok: "set_ok s" and key: "fs_key_size s \<le> length key"
  shows "md_filter_set_position s key fin \<le> length (fs_elements s)
    \<and> (\<forall>i < length (fs_elements s). element_before (fs_key_size s) key fin (fs_elements s ! i) \<longleftrightarrow> i < md_filter_set_position s key fin)"
  unfolding md_filter_set_position_def
proof (rule position_loop_least [OF _ refl refl])
  fix i j
  assume ij: "i < j" "j < length (fs_elements s)" and b: "element_before (fs_key_size s) key fin (fs_elements s ! j)"
  have "element_less (fs_key_size s) (fs_elements s ! i) (fs_elements s ! j)"
    using ok ij by (simp add: set_ok_def sorted_wrt_iff_nth_less)
  thus "element_before (fs_key_size s) key fin (fs_elements s ! i)"
    using b ok ij key by (intro before_down [of _ "fs_elements s ! i" "fs_elements s ! j"]) (auto simp: set_ok_def)
qed auto

text \<open>
  The reference: a set is the list of its elements, and an interval set holds the keys from each
  start up to the next end.
\<close>

definition set_lookup_spec :: "filter_set \<Rightarrow> u8 list \<Rightarrow> filter_element option" where
  "set_lookup_spec s key =
     (let k = take (fs_key_size s) key; at = (\<lambda>e. take (fs_key_size s) (el_key e)) in
      if (fs_flags s AND NFT_SET_INTERVAL) \<noteq> 0 then
        (case rev (filter (\<lambda>e. at e \<le> k) (fs_elements s)) of
           [] \<Rightarrow> None | e # _ \<Rightarrow> if el_end e = 0 then Some e else None)
      else find (\<lambda>e. at e = k \<and> el_end e = 0) (fs_elements s))"

lemma filter_prefix:
  assumes "m \<le> length xs" "\<And>i. i < length xs \<Longrightarrow> P (xs ! i) \<longleftrightarrow> i < m"
  shows "filter P xs = take m xs"
proof -
  have "filter P (take m xs) = take m xs"
    using assms by (auto simp: filter_id_conv in_set_conv_nth)
  moreover have "filter P (drop m xs) = []"
    using assms by (auto simp: filter_empty_conv in_set_conv_nth)
  ultimately show ?thesis by (metis append_Nil2 append_take_drop_id filter_append)
qed

lemma exact_at_position:
  assumes ok: "set_ok s" and key: "fs_key_size s \<le> length key" and i: "i < length (fs_elements s)"
    and hit: "take (fs_key_size s) (el_key (fs_elements s ! i)) = take (fs_key_size s) key" "el_end (fs_elements s ! i) = 0"
  shows "i = md_filter_set_position s key 0"
proof -
  let ?n = "fs_key_size s" and ?es = "fs_elements s" and ?at = "md_filter_set_position s key 0"
  have len: "?n \<le> length (el_key (?es ! j))" if "j < length ?es" for j
    using ok that by (simp add: set_ok_def)
  have "\<not> element_before ?n key 0 (?es ! i)"
    using hit element_before_iff [OF len [OF i] key] by simp
  hence "?at \<le> i" using position_exact [OF ok key, of 0] i by auto
  moreover have "\<not> ?at < i"
  proof
    assume lt: "?at < i"
    hence less: "element_less ?n (?es ! ?at) (?es ! i)"
      using ok i by (simp add: set_ok_def sorted_wrt_iff_nth_less)
    have "element_before ?n key 0 (?es ! ?at)"
      using less hit lt i len by (auto simp: element_less_iff element_before_iff key)
    thus False using position_exact [OF ok key, of 0] lt i by auto
  qed
  ultimately show ?thesis by simp
qed

lemma lookup_exact_hit:
  assumes ok: "set_ok s" and key: "fs_key_size s \<le> length key"
  shows "(md_filter_set_position s key 0 < length (fs_elements s)
      \<and> el_end (fs_elements s ! md_filter_set_position s key 0) = 0
      \<and> memcmp (fs_key_size s) (el_key (fs_elements s ! md_filter_set_position s key 0)) key = 0)
    \<longleftrightarrow> (\<exists>i < length (fs_elements s). take (fs_key_size s) (el_key (fs_elements s ! i)) = take (fs_key_size s) key
          \<and> el_end (fs_elements s ! i) = 0)" (is "?L \<longleftrightarrow> ?R")
proof
  assume ?L
  thus ?R using ok key memcmp_take(2) [of "fs_key_size s" _ key] by (auto simp: set_ok_def)
next
  assume ?R
  then obtain i where i: "i < length (fs_elements s)" "take (fs_key_size s) (el_key (fs_elements s ! i)) = take (fs_key_size s) key"
    "el_end (fs_elements s ! i) = 0" by blast
  have "i = md_filter_set_position s key 0" by (rule exact_at_position [OF ok key i])
  thus ?L using i ok key memcmp_take(2) [of "fs_key_size s" _ key] by (auto simp: set_ok_def)
qed

lemma elements_up_to:
  assumes ok: "set_ok s" and key: "fs_key_size s \<le> length key"
  shows "filter (\<lambda>e. take (fs_key_size s) (el_key e) \<le> take (fs_key_size s) key) (fs_elements s) =
    take (md_filter_set_position s key 0 +
      (if \<exists>i < length (fs_elements s). take (fs_key_size s) (el_key (fs_elements s ! i)) = take (fs_key_size s) key
            \<and> el_end (fs_elements s ! i) = 0 then 1 else 0)) (fs_elements s)"
    (is "_ = take (?at + (if ?hit then 1 else 0)) ?es")
proof (rule filter_prefix)
  have pos: "?at \<le> length ?es" using position_exact [OF ok key] by blast
  have at: "?at < length ?es" if ?hit using that exact_at_position [OF ok key] by metis
  show "?at + (if ?hit then 1 else 0) \<le> length ?es"
    by (rule disjE [of ?hit "\<not> ?hit"], blast) (use pos at in \<open>simp_all only: if_True if_False, simp_all add: Suc_leI\<close>)
  fix i
  assume i: "i < length ?es"
  let ?k = "take (fs_key_size s) key" and ?ki = "take (fs_key_size s) (el_key (?es ! i))"
  have len: "fs_key_size s \<le> length (el_key (?es ! i))" using ok i by (simp add: set_ok_def)
  have "?ki \<le> ?k \<longleftrightarrow> element_before (fs_key_size s) key 0 (?es ! i) \<or> ?ki = ?k \<and> el_end (?es ! i) = 0"
    unfolding element_before_iff [OF len key] le_less using word_neq_0_conv [of "el_end (?es ! i)"] by blast
  also have "\<dots> \<longleftrightarrow> i < ?at \<or> ?hit \<and> i = ?at"
    using position_exact [OF ok key, of 0] i exact_at_position [OF ok key] by metis
  finally show "?ki \<le> ?k \<longleftrightarrow> i < ?at + (if ?hit then 1 else 0)" by auto
qed

lemma set_lookup_eq_spec:
  assumes ok: "set_ok s" and key: "fs_key_size s \<le> length key"
  shows "md_filter_set_lookup s key = set_lookup_spec s key"
proof -
  let ?n = "fs_key_size s" and ?es = "fs_elements s" and ?at = "md_filter_set_position s key 0" and ?k = "take (fs_key_size s) key"
  let ?hit = "\<exists>i < length ?es. take ?n (el_key (?es ! i)) = ?k \<and> el_end (?es ! i) = 0"
  let ?P = "\<lambda>e. take ?n (el_key e) = ?k \<and> el_end e = 0"
  have upto: "filter (\<lambda>e. take ?n (el_key e) \<le> ?k) ?es = take (?at + (if ?hit then 1 else 0)) ?es"
    by (rule elements_up_to [OF ok key])
  have pos: "?at \<le> length ?es" using position_exact [OF ok key] by blast
  show ?thesis
  proof (cases ?hit)
    case True
    then obtain i where i: "i < length ?es" "?P (?es ! i)" by blast
    have eq: "i = ?at" using exact_at_position [OF ok key] i by blast
    have "\<not> ?P (?es ! j)" if "j < ?at" for j
      using that i(1) eq exact_at_position [OF ok key, of j] by auto
    hence "find ?P ?es = Some (?es ! ?at)"
      unfolding find_Some_iff using i unfolding eq by blast
    moreover have "rev (take (Suc ?at) ?es) = ?es ! ?at # rev (take ?at ?es)"
      using i eq by (simp add: take_Suc_conv_app_nth)
    moreover have "md_filter_set_lookup s key = Some (?es ! ?at)"
      using lookup_exact_hit [OF ok key] True by (simp add: md_filter_set_lookup_def md_filter_set_lookup_index_def Let_def)
    ultimately show ?thesis
      using upto True i eq by (simp add: set_lookup_spec_def Let_def)
  next
    case False
    have "find ?P ?es = None" using False by (auto simp: find_None_iff in_set_conv_nth)
    moreover have "rev (take ?at ?es) = (if ?at = 0 then [] else ?es ! (?at - 1) # rev (take (?at - 1) ?es))"
      using pos take_Suc_conv_app_nth [of "?at - 1" ?es] by auto
    moreover have "filter (\<lambda>e. take ?n (el_key e) \<le> ?k) ?es = take ?at ?es"
      using upto False by simp
    moreover have "md_filter_set_lookup_index s key =
        (if (fs_flags s AND NFT_SET_INTERVAL) \<noteq> 0 \<and> ?at \<noteq> 0 \<and> el_end (?es ! (?at - 1)) = 0 then Some (?at - 1) else None)"
      unfolding md_filter_set_lookup_index_def Let_def lookup_exact_hit [OF ok key] by (rule if_not_P [OF False])
    ultimately show ?thesis
      by (cases "?at = 0") (simp_all add: md_filter_set_lookup_def Let_def set_lookup_spec_def)
  qed
qed

section \<open>Properties\<close>

text \<open>
  C35: Looking a key up in a set by binary search returns what the plain reading of the set gives. In an
  ordinary set it is the element with that key; in an interval set it is the start of the interval
  that contains the key, the last element not after the key, unless that is an end. It holds for
  every set whose elements are in the order that validation demands.
\<close>
theorem set_lookup_exact:
  assumes "set_ok s" and "fs_key_size s \<le> length key"
  shows "md_filter_set_lookup s key = set_lookup_spec s key"
  using assms by (rule set_lookup_eq_spec)

definition demo_element :: "u8 list \<Rightarrow> u32 \<Rightarrow> filter_element" where
  "demo_element key fin = \<lparr>el_key = key, el_end = fin, el_verdict = \<lparr>fv_operation = 0, fv_target = 0\<rparr>, el_data = []\<rparr>"

text \<open>The ports 80 to 89 and 443 onwards.\<close>

definition demo_set :: filter_set where
  "demo_set = \<lparr>fs_table = 1, fs_handle = 7, fs_id = 0, fs_flags = 4, fs_key_type = 0, fs_key_size = 2, fs_data_type = 0,
     fs_data_size = 0, fs_name = ''ports'',
     fs_elements = [demo_element [0, 80] 0, demo_element [0, 90] 1, demo_element [1, 187] 0],
     fs_capacity = 4, fs_userdata = [], fs_ipset_kind = 0, fs_ipset_family = 0, fs_ipset_index = 0, fs_ipset_revision = 0,
     fs_ipset_max = 0, fs_ipset_hashsize = 0, fs_ipset_timeout = False, fs_prefixes = [0, 0, 0]\<rparr>"

theorem set_lookup_exact_witness:
  "md_filter_set_lookup demo_set [0, 85] = Some (demo_element [0, 80] 0)
     \<and> md_filter_set_lookup demo_set [0, 95] = None \<and> set_lookup_spec demo_set [0, 85] = Some (demo_element [0, 80] 0)"
proof -
  have "set_ok demo_set"
    by code_simp
  moreover have "set_lookup_spec demo_set [0, 85] = Some (demo_element [0, 80] 0)" "set_lookup_spec demo_set [0, 95] = None"
    by code_simp+
  ultimately show ?thesis
    using set_lookup_exact [of demo_set "[0, 85]"] set_lookup_exact [of demo_set "[0, 95]"] by (simp add: demo_set_def)
qed

text \<open>
  Deleting tables removes exactly the matching tables, the chains and sets that belong to one of
  them, and the rules of the removed chains; everything else stays, in the same order. The index
  loops that shift the arrays while they walk them neither skip nor keep an element.
\<close>
theorem table_delete_exact:
  "md_network_filter_delete (Some f) fam name handle =
     (let H = table_handles (table_matches fam name handle) (nf_tables f)
      in Some (f\<lparr>
           nf_tables := filter (\<lambda>t. \<not> table_matches fam name handle t) (nf_tables f),
           nf_chains := filter (\<lambda>c. fc_table c \<notin> H) (nf_chains f),
           nf_rules := filter (\<lambda>r. fr_chain r \<notin> chain_handles (\<lambda>c. fc_table c \<in> H) (nf_chains f)) (nf_rules f),
           nf_sets := filter (\<lambda>s. fs_table s \<notin> H) (nf_sets f)\<rparr>))"
  by (simp add: md_network_filter_delete_def tables_delete_loop_eq Let_def)

end
