(* ===== verification/Network_Ipset.thy ===== *)
theory Network_Ipset
  imports Network_Filter
begin

text \<open>
  Address sets of the packet filter, \<^verbatim>\<open>src/native/shroot/src/network_ipset.c\<close>: lookup by longest
  prefix, creation, and the commands on elements and on whole sets. The netlink attributes of a
  request arrive decoded, as the arguments of each command.
\<close>

unbundle bit_operations_syntax

section \<open>Data\<close>

datatype ipset_error =
    Errno errno | IPSET_ERR_FIND_TYPE | IPSET_ERR_MAX_SETS | IPSET_ERR_BUSY | IPSET_ERR_EXIST_SETNAME2
  | IPSET_ERR_TYPE_MISMATCH | IPSET_ERR_EXIST | IPSET_ERR_INVALID_CIDR | IPSET_ERR_INVALID_FAMILY
  | IPSET_ERR_TIMEOUT | IPSET_ERR_REFERENCED | IPSET_ERR_HASH_ELEM

type_synonym 'a ipset_result = "ipset_error + 'a"

datatype ipset_command = IPSET_CMD_ADD | IPSET_CMD_DEL | IPSET_CMD_TEST

definition SET_IP :: u32 where "SET_IP = 1"
definition SET_NET :: u32 where "SET_NET = 2"
definition IPSET_FLAG_NOMATCH :: u32 where "IPSET_FLAG_NOMATCH = 4"
definition IPSET_INVALID_ID :: u32 where "IPSET_INVALID_ID = 65535"

definition ipset_kind_of :: "string option \<Rightarrow> u32" where
  "ipset_kind_of name = (case name of None \<Rightarrow> 0
     | Some n \<Rightarrow> if n = ''hash:ip'' then SET_IP else if n = ''hash:net'' then SET_NET else 0)"

definition ipset_revision_of :: "u32 \<Rightarrow> u32" where
  "ipset_revision_of k = (if k = SET_NET then 2 else 0)"

definition md_ipset_find :: "network_filter option \<Rightarrow> string option \<Rightarrow> u32 \<Rightarrow> nat option" where
  "md_ipset_find f name index =
     (case f of None \<Rightarrow> None
      | Some g \<Rightarrow> find (\<lambda>i. let s = nf_sets g ! i in fs_ipset_kind s \<noteq> 0
          \<and> (case name of Some n \<Rightarrow> fs_name s = n | None \<Rightarrow> fs_ipset_index s = index)) [0..<length (nf_sets g)])"

definition ipset_references :: "network_filter \<Rightarrow> u64 \<Rightarrow> nat" where
  "ipset_references f handle = length (filter (\<lambda>e. fe_code e = MD_FILTER_IPSET \<and> fe_target e = handle)
     (concat (map fr_expressions (nf_rules f))))"

section \<open>Prefix lengths and lookup\<close>

definition element_prefix :: "filter_set \<Rightarrow> filter_element \<Rightarrow> nat" where
  "element_prefix s e = unat (el_key e ! (fs_key_size s - 1))"

definition prefix_words :: "nat list \<Rightarrow> u64 list" where
  "prefix_words ps = fold (\<lambda>p ws. ws[p div 64 := (ws ! (p div 64)) OR push_bit (p mod 64) 1]) ps [0, 0, 0]"

definition prefixes :: "filter_set \<Rightarrow> filter_set" where
  "prefixes s = s\<lparr>fs_prefixes :=
     if fs_ipset_kind s = SET_NET then prefix_words (map (element_prefix s) (fs_elements s)) else [0, 0, 0]\<rparr>"

text \<open>The bits of a word from the highest down, and the prefix lengths they stand for.\<close>

definition bits_desc :: "u64 \<Rightarrow> nat list" where
  "bits_desc w = filter (bit w) (rev [0..<64])"

definition prefixes_desc :: "u64 list \<Rightarrow> nat list" where
  "prefixes_desc ws = concat (map (\<lambda>word. map (\<lambda>b. word * 64 + b) (bits_desc (ws ! word))) [2, 1, 0])"

definition prefix_key :: "filter_set \<Rightarrow> ip_address \<Rightarrow> nat \<Rightarrow> u8 list" where
  "prefix_key s ip prefix =
     ((take (md_ip_size ip) (ip_bytes (md_ip_network ip prefix)) @ replicate (20 - md_ip_size ip) 0))
       [fs_key_size s - 1 := of_nat prefix]"

fun ipset_scan :: "filter_set \<Rightarrow> ip_address \<Rightarrow> nat list \<Rightarrow> bool" where
  "ipset_scan s ip [] = False"
| "ipset_scan s ip (p # ps) =
     (case md_filter_set_lookup s (prefix_key s ip p) of
        Some e \<Rightarrow> el_data e ! 0 = 0
      | None \<Rightarrow> ipset_scan s ip ps)"

definition md_ipset_matches :: "filter_set option \<Rightarrow> ip_address \<Rightarrow> bool" where
  "md_ipset_matches os ip =
     (case os of None \<Rightarrow> False
      | Some s \<Rightarrow>
          if fs_ipset_family s \<noteq> ip_family ip then False
          else if fs_ipset_kind s = SET_IP then md_filter_set_lookup s (ip_bytes ip) \<noteq> None
          else ipset_scan s ip (prefixes_desc (fs_prefixes s)))"

section \<open>Commands\<close>

text \<open>
  \<open>create\<close>, from the decoded attributes: \<open>netmask\<close> and \<open>timeout\<close> are present or not. \<open>index\<close> is the
  first free one; \<open>realloced\<close> the answer of \<open>realloc\<close>.
\<close>

record ipset_create_args =
  ca_type :: "string option"
  ca_family :: u32
  ca_revision :: u32
  ca_hashsize :: u32
  ca_max :: u32
  ca_timeout :: "u32 option"
  ca_flags :: u32
  ca_netmask :: "u32 option"

definition family_bits :: "u32 \<Rightarrow> nat" where
  "family_bits fam = (if fam = AF_INET then 32 else 128)"

definition free_index :: "network_filter \<Rightarrow> u32" where
  "free_index f = (case find (\<lambda>i. md_ipset_find (Some f) None i = None) (map of_nat [0..<length (nf_sets f) + 1]) of
     Some i \<Rightarrow> i | None \<Rightarrow> 0)"

definition new_ipset :: "network_filter \<Rightarrow> ipset_create_args \<Rightarrow> u32 \<Rightarrow> u32 \<Rightarrow> string \<Rightarrow> filter_set" where
  "new_ipset f a k index name =
     \<lparr>fs_table = 0, fs_handle = nf_next_handle f, fs_id = 0, fs_flags = 0, fs_key_type = 0,
      fs_key_size = (if ca_family a = AF_INET then 4 else 16) + (if k = SET_NET then 1 else 0),
      fs_data_type = 0, fs_data_size = 0, fs_name = name, fs_elements = [], fs_capacity = 0, fs_userdata = [],
      fs_ipset_kind = k, fs_ipset_family = ca_family a, fs_ipset_index = index, fs_ipset_revision = ca_revision a,
      fs_ipset_max = (if ca_max a \<noteq> 0 then ca_max a else 65536),
      fs_ipset_hashsize = (if ca_hashsize a \<noteq> 0 then ca_hashsize a else 1024),
      fs_ipset_timeout = (ca_timeout a \<noteq> None), fs_prefixes = [0, 0, 0]\<rparr>"

definition ipset_create ::
  "bool \<Rightarrow> network_filter \<Rightarrow> ipset_create_args \<Rightarrow> string \<Rightarrow> bool \<Rightarrow> unit ipset_result \<times> network_filter" where
  "ipset_create realloced f a name exist =
     (let k = ipset_kind_of (ca_type a) in
      if k = 0 \<or> ca_revision a > ipset_revision_of k then (Inl IPSET_ERR_FIND_TYPE, f)
      else if ca_family a \<noteq> AF_INET \<and> ca_family a \<noteq> AF_INET6 then (Inl IPSET_ERR_INVALID_FAMILY, f)
      else if (case ca_timeout a of Some t \<Rightarrow> t \<noteq> 0 | None \<Rightarrow> False) \<or> ca_flags a \<noteq> 0
          \<or> (case ca_netmask a of Some m \<Rightarrow> unat m \<noteq> family_bits (ca_family a) | None \<Rightarrow> False)
      then (Inl (Errno EOPNOTSUPP), f)
      else case md_ipset_find (Some f) (Some name) 0 of
        Some i \<Rightarrow>
          let s = nf_sets f ! i in
          if exist \<and> fs_ipset_kind s = k \<and> fs_ipset_family s = ca_family a \<and> fs_ipset_revision s = ca_revision a
             \<and> fs_ipset_timeout s = (ca_timeout a \<noteq> None) \<and> fs_ipset_max s = (if ca_max a \<noteq> 0 then ca_max a else 65536)
          then (Inr (), f) else (Inl (Errno EEXIST), f)
      | None \<Rightarrow>
          let index = free_index f in
          if index \<ge> IPSET_INVALID_ID \<or> nf_next_handle f = UINT64_MAX then (Inl IPSET_ERR_MAX_SETS, f)
          else case md_filter_reserve realloced (nf_set_capacity f) (length (nf_sets f) + 1) 256 of
            Inl e \<Rightarrow> (Inl (Errno e), f)
          | Inr cap \<Rightarrow> (Inr (), f\<lparr>nf_set_capacity := cap, nf_sets := nf_sets f @ [new_ipset f a k index name],
                                  nf_next_handle := nf_next_handle f + 1\<rparr>))"

text \<open>\<open>element\<close>, from the decoded attributes; \<open>ea_address\<close> has the set's address size.\<close>

record ipset_element_args =
  ea_address :: "u8 list"
  ea_cidr :: "u32 option"
  ea_timeout :: "u32 option"
  ea_flags :: u32

definition ipset_entry :: "filter_set \<Rightarrow> ip_address \<Rightarrow> nat \<Rightarrow> u32 \<Rightarrow> filter_element" where
  "ipset_entry s v prefix flags =
     (let n = (if fs_ipset_family s = AF_INET then 4 else 16) in
      \<lparr>el_key = take n (ip_bytes (md_ip_network v prefix))
           @ (if fs_ipset_kind s = SET_NET then [of_nat prefix] else []) @ replicate (20 - n - (if fs_ipset_kind s = SET_NET then 1 else 0)) 0,
       el_end = 0, el_verdict = \<lparr>fv_operation = 0, fv_target = 0\<rparr>,
       el_data = (if flags AND IPSET_FLAG_NOMATCH \<noteq> 0 then 1 else 0) # replicate 63 0\<rparr>)"

definition insert_at :: "nat \<Rightarrow> 'a \<Rightarrow> 'a list \<Rightarrow> 'a list" where
  "insert_at i x xs = take i xs @ x # drop i xs"

definition ipset_place ::
  "bool \<Rightarrow> filter_set \<Rightarrow> filter_element \<Rightarrow> ipset_command \<Rightarrow> bool \<Rightarrow> unit ipset_result \<times> filter_set" where
  "ipset_place realloced s e command exist =
     (let es = fs_elements s; at = md_filter_set_position s (el_key e) 0;
          hit = (at < length es \<and> memcmp (fs_key_size s) (el_key (es ! at)) (el_key e) = 0)
      in case command of
           IPSET_CMD_TEST \<Rightarrow> (if hit \<and> el_data (es ! at) ! 0 = 0 then Inr () else Inl IPSET_ERR_EXIST, s)
         | IPSET_CMD_DEL \<Rightarrow>
             if \<not> hit then (if exist then Inr () else Inl IPSET_ERR_EXIST, s)
             else (Inr (), s\<lparr>fs_elements := remove_at at es\<rparr>)
         | IPSET_CMD_ADD \<Rightarrow>
             if hit then
               if \<not> exist then (Inl IPSET_ERR_EXIST, s) else (Inr (), s\<lparr>fs_elements := es[at := e]\<rparr>)
             else case md_filter_reserve realloced (fs_capacity s) (length es + 1)
                         (if fs_ipset_max s < 1024 then unat (fs_ipset_max s) else 1024) of
                    Inl err \<Rightarrow> (Inl (Errno err), s)
                  | Inr cap \<Rightarrow> (Inr (), s\<lparr>fs_capacity := cap, fs_elements := insert_at at e es\<rparr>))"

definition ipset_element ::
  "bool \<Rightarrow> filter_set \<Rightarrow> ipset_element_args \<Rightarrow> ipset_command \<Rightarrow> bool \<Rightarrow> unit ipset_result \<times> filter_set" where
  "ipset_element realloced s a command exist =
     (let bits = family_bits (fs_ipset_family s); prefix = (case ea_cidr a of Some c \<Rightarrow> unat c | None \<Rightarrow> bits);
          flags = ea_flags a; v = md_ip_load (fs_ipset_family s) (ea_address a) in
      if (case ea_timeout a of Some t \<Rightarrow> t \<noteq> 0 \<or> \<not> fs_ipset_timeout s | None \<Rightarrow> False) then (Inl IPSET_ERR_TIMEOUT, s)
      else if flags AND NOT IPSET_FLAG_NOMATCH \<noteq> 0 \<or> flags \<noteq> 0 \<and> (fs_ipset_kind s \<noteq> SET_NET \<or> fs_ipset_revision s < 2)
      then (Inl (Errno EOPNOTSUPP), s)
      else if prefix = 0 \<or> prefix > bits \<or> fs_ipset_kind s = SET_IP \<and> prefix \<noteq> bits then (Inl IPSET_ERR_INVALID_CIDR, s)
      else if fs_ipset_kind s = SET_IP \<and> md_ip_unspecified v then (Inl IPSET_ERR_HASH_ELEM, s)
      else if command = IPSET_CMD_TEST \<and> fs_ipset_kind s = SET_NET \<and> prefix = bits
      then (if md_ipset_matches (Some s) v then Inr () else Inl IPSET_ERR_EXIST, s)
      else ipset_place realloced s (ipset_entry s v prefix flags) command exist)"

definition put_set :: "nat \<Rightarrow> filter_set \<Rightarrow> network_filter \<Rightarrow> network_filter" where
  "put_set i s f = f\<lparr>nf_sets := (nf_sets f)[i := s]\<rparr>"

text \<open>The branches of \<open>dispatch\<close> that change a set.\<close>

definition ipset_update ::
  "bool \<Rightarrow> network_filter \<Rightarrow> nat \<Rightarrow> ipset_element_args \<Rightarrow> ipset_command \<Rightarrow> bool \<Rightarrow> unit ipset_result \<times> network_filter" where
  "ipset_update realloced f i a command exist =
     (case ipset_element realloced (nf_sets f ! i) a command exist of
        (Inl e, s) \<Rightarrow> (Inl e, put_set i s f)
      | (Inr _, s) \<Rightarrow> (Inr (), put_set i (if command = IPSET_CMD_TEST then s else prefixes s) f))"

fun ipset_elements ::
  "bool \<Rightarrow> filter_set \<Rightarrow> ipset_element_args list \<Rightarrow> ipset_command \<Rightarrow> bool \<Rightarrow> unit ipset_result \<times> filter_set" where
  "ipset_elements realloced s [] command exist = (Inr (), prefixes s)"
| "ipset_elements realloced s (a # as) command exist =
     (case ipset_element realloced s a command exist of
        (Inl e, t) \<Rightarrow> (Inl e, t)
      | (Inr _, t) \<Rightarrow> ipset_elements realloced t as command exist)"

definition ipset_rename :: "network_filter \<Rightarrow> nat \<Rightarrow> string option \<Rightarrow> unit ipset_result \<times> network_filter" where
  "ipset_rename f i name2 =
     (case name2 of None \<Rightarrow> (Inl (Errno EINVAL), f)
      | Some n \<Rightarrow>
          if md_ipset_find (Some f) (Some n) 0 \<noteq> None then (Inl IPSET_ERR_EXIST_SETNAME2, f)
          else if ipset_references f (fs_handle (nf_sets f ! i)) \<noteq> 0 then (Inl IPSET_ERR_REFERENCED, f)
          else (Inr (), put_set i ((nf_sets f ! i)\<lparr>fs_name := n\<rparr>) f))"

definition ipset_swap :: "network_filter \<Rightarrow> nat \<Rightarrow> string option \<Rightarrow> unit ipset_result \<times> network_filter" where
  "ipset_swap f i name2 =
     (case name2 of None \<Rightarrow> (Inl (Errno EINVAL), f)
      | Some n \<Rightarrow>
         (case md_ipset_find (Some f) (Some n) 0 of
            None \<Rightarrow> (Inl (Errno ENOENT), f)
          | Some j \<Rightarrow>
              let l = nf_sets f ! i; r = nf_sets f ! j in
              if fs_ipset_kind l \<noteq> fs_ipset_kind r \<or> fs_ipset_family l \<noteq> fs_ipset_family r
                 \<or> fs_ipset_timeout l \<noteq> fs_ipset_timeout r
              then (Inl IPSET_ERR_TYPE_MISMATCH, f)
              else
                (Inr (), put_set j (l\<lparr>fs_name := fs_name r, fs_handle := fs_handle r, fs_ipset_index := fs_ipset_index r\<rparr>)
                   (put_set i (r\<lparr>fs_name := fs_name l, fs_handle := fs_handle l, fs_ipset_index := fs_ipset_index l\<rparr>) f))))"

text \<open>\<open>IPSET_CMD_DESTROY\<close> and \<open>IPSET_CMD_FLUSH\<close>: a named set, or every one.\<close>

function ipset_destroy_loop :: "string option \<Rightarrow> nat \<Rightarrow> network_filter \<Rightarrow> unit ipset_result \<times> network_filter" where
  "ipset_destroy_loop name i f =
     (if i < length (nf_sets f) then
        let s = nf_sets f ! i in
        if fs_ipset_kind s = 0 \<or> (case name of Some n \<Rightarrow> fs_name s \<noteq> n | None \<Rightarrow> False) then ipset_destroy_loop name (Suc i) f
        else if ipset_references f (fs_handle s) \<noteq> 0 then (Inl IPSET_ERR_BUSY, f)
        else ipset_destroy_loop name i (md_filter_set_delete f i)
      else (Inr (), f))"
  by pat_completeness auto
termination by (relation "measure (\<lambda>(name, i, f). length (nf_sets f) - i)") (auto simp: md_filter_set_delete_def)

declare ipset_destroy_loop.simps [simp del]

definition ipset_flush :: "string option \<Rightarrow> network_filter \<Rightarrow> network_filter" where
  "ipset_flush name f = f\<lparr>nf_sets := map (\<lambda>s.
     if fs_ipset_kind s = 0 \<or> (case name of Some n \<Rightarrow> fs_name s \<noteq> n | None \<Rightarrow> False) then s
     else prefixes (s\<lparr>fs_elements := []\<rparr>)) (nf_sets f)\<rparr>"

definition ipset_destroy :: "network_filter \<Rightarrow> string option \<Rightarrow> bool \<Rightarrow> unit ipset_result \<times> network_filter" where
  "ipset_destroy f name exist =
     (if name \<noteq> None \<and> md_ipset_find (Some f) name 0 = None
      then (if exist then Inr () else Inl (Errno ENOENT), f)
      else ipset_destroy_loop name 0 f)"

definition ipset_flush_command :: "network_filter \<Rightarrow> string option \<Rightarrow> unit ipset_result \<times> network_filter" where
  "ipset_flush_command f name =
     (if name \<noteq> None \<and> md_ipset_find (Some f) name 0 = None then (Inl (Errno ENOENT), f)
      else (Inr (), ipset_flush name f))"

section \<open>Prefix lengths\<close>

lemma prefix_words_bits:
  assumes "\<forall>p \<in> set ps. p < 192" "length ws = 3"
  shows "length (fold (\<lambda>p ws. ws[p div 64 := (ws ! (p div 64)) OR push_bit (p mod 64) 1]) ps ws) = 3
    \<and> (\<forall>w < 3. \<forall>b < 64. bit (fold (\<lambda>p ws. ws[p div 64 := (ws ! (p div 64)) OR push_bit (p mod 64) 1]) ps ws ! w :: u64) b
          \<longleftrightarrow> bit (ws ! w) b \<or> w * 64 + b \<in> set ps)"
  using assms
proof (induction ps arbitrary: ws)
  case (Cons p ps)
  let ?ws = "ws[p div 64 := (ws ! (p div 64)) OR push_bit (p mod 64) 1] :: u64 list"
  have p: "p div 64 < 3" "length ?ws = 3" using Cons.prems by auto
  have step: "bit (?ws ! w) b \<longleftrightarrow> bit (ws ! w) b \<or> w * 64 + b = p" if "w < 3" "b < 64" for w b
  proof -
    have "w * 64 + b = p \<longleftrightarrow> w = p div 64 \<and> b = p mod 64" using that by auto
    thus ?thesis
      using that p Cons.prems
      by (auto simp: nth_list_update bit_or_iff bit_push_bit_iff bit_1_iff bit_exp_iff)
  qed
  show ?case using Cons.IH [of ?ws] Cons.prems p step by auto
qed simp

lemma prefixes_desc_mem: "p \<in> set (prefixes_desc ws) \<longleftrightarrow> p < 192 \<and> bit (ws ! (p div 64)) (p mod 64)"
proof -
  have seg: "p \<in> (\<lambda>b. w * 64 + b) ` {b. b < 64 \<and> bit (ws ! w) b} \<longleftrightarrow> p div 64 = w \<and> bit (ws ! w) (p mod 64)" for w
  proof
    assume "p div 64 = w \<and> bit (ws ! w) (p mod 64)"
    hence "p = w * 64 + p mod 64" "p mod 64 \<in> {b. b < 64 \<and> bit (ws ! w) b}" by auto
    thus "p \<in> (\<lambda>b. w * 64 + b) ` {b. b < 64 \<and> bit (ws ! w) b}" by (rule image_eqI)
  qed auto
  have "set (bits_desc v) = {b. b < 64 \<and> bit v b}" for v
    by (auto simp: bits_desc_def)
  hence "p \<in> set (prefixes_desc ws) \<longleftrightarrow> (\<exists>w \<in> {2, 1, 0}. p \<in> (\<lambda>b. w * 64 + b) ` {b. b < 64 \<and> bit (ws ! w) b})"
    by (simp add: prefixes_desc_def)
  also have "\<dots> \<longleftrightarrow> (\<exists>w \<in> {2, 1, 0}. p div 64 = w \<and> bit (ws ! w) (p mod 64))"
    by (simp only: seg)
  also have "\<dots> \<longleftrightarrow> p div 64 < 3 \<and> bit (ws ! (p div 64)) (p mod 64)"
    by (auto simp: less_Suc_eq numeral_3_eq_3 numeral_2_eq_2)
  finally show ?thesis by (simp add: div_less_iff_less_mult)
qed

lemma prefixes_desc_set:
  assumes "\<forall>p \<in> set ps. p < 192"
  shows "set (prefixes_desc (prefix_words ps)) = set ps"
proof -
  have zero: "bit (([0, 0, 0] :: u64 list) ! w) b = False" if "w < 3" for w b
    using that by (auto simp: less_Suc_eq numeral_3_eq_3)
  have "p < 192 \<and> bit (prefix_words ps ! (p div 64)) (p mod 64) \<longleftrightarrow> p < 192 \<and> p \<in> set ps" for p
  proof (cases "p < 192")
    case True
    hence "p div 64 < 3" "p mod 64 < 64" by auto
    thus ?thesis
      using prefix_words_bits [OF assms, of "[0, 0, 0]"] zero by (simp add: prefix_words_def)
  qed simp
  thus ?thesis using assms unfolding set_eq_iff prefixes_desc_mem by blast
qed

lemma bits_desc_sorted: "sorted_wrt (>) (bits_desc w)"
proof -
  have "sorted_wrt (>) (rev [0..<64])" by (simp add: sorted_wrt_rev)
  thus ?thesis unfolding bits_desc_def by (rule sorted_wrt_filter)
qed

lemma bits_desc_less: "b \<in> set (bits_desc w) \<Longrightarrow> b < 64"
  by (simp add: bits_desc_def)

lemma prefixes_desc_sorted: "sorted_wrt (>) (prefixes_desc ws)"
proof -
  have seg: "sorted_wrt (>) (map (\<lambda>b. word * 64 + b) (bits_desc (ws ! word)))" for word
    using bits_desc_sorted [of "ws ! word"] by (simp add: sorted_wrt_map)
  show ?thesis
    using seg [of 2] seg [of 1] bits_desc_sorted [of "ws ! 0"]
    by (auto simp: prefixes_desc_def sorted_wrt_append sorted_wrt_map dest!: bits_desc_less)
qed

section \<open>Longest prefix match\<close>

definition address_size :: "filter_set \<Rightarrow> nat" where
  "address_size s = (if fs_ipset_family s = AF_INET then 4 else 16)"

text \<open>The invariant of an address set: ordered, no interval ends, keys as \<open>element\<close> builds them.\<close>

definition ipset_ok :: "filter_set \<Rightarrow> bool" where
  "ipset_ok s \<longleftrightarrow> set_ok s \<and> fs_flags s AND NFT_SET_INTERVAL = 0
     \<and> (fs_ipset_family s = AF_INET \<or> fs_ipset_family s = AF_INET6)
     \<and> (fs_ipset_kind s = SET_IP \<and> fs_key_size s = address_size s \<or> fs_ipset_kind s = SET_NET \<and> fs_key_size s = address_size s + 1)
     \<and> (\<forall>e \<in> set (fs_elements s). el_end e = 0 \<and> length (el_key e) = 20
          \<and> (fs_ipset_kind s = SET_NET \<longrightarrow> element_prefix s e \<le> family_bits (fs_ipset_family s)))"

definition prefixes_current :: "filter_set \<Rightarrow> bool" where
  "prefixes_current s \<longleftrightarrow> fs_prefixes s = fs_prefixes (prefixes s)"

text \<open>The element's network contains the address.\<close>

definition covers :: "filter_set \<Rightarrow> ip_address \<Rightarrow> filter_element \<Rightarrow> bool" where
  "covers s ip e \<longleftrightarrow> take (address_size s) (el_key e) = take (address_size s) (ip_bytes (md_ip_network ip (element_prefix s e)))"

lemma lookup_plain:
  assumes ok: "ipset_ok s" and key: "fs_key_size s \<le> length key"
  shows "md_filter_set_lookup s key = find (\<lambda>e. take (fs_key_size s) (el_key e) = take (fs_key_size s) key) (fs_elements s)"
proof -
  have "find (\<lambda>e. take (fs_key_size s) (el_key e) = take (fs_key_size s) key \<and> el_end e = 0) (fs_elements s)
      = find (\<lambda>e. take (fs_key_size s) (el_key e) = take (fs_key_size s) key) (fs_elements s)"
    using ok by (intro find_cong) (auto simp: ipset_ok_def)
  thus ?thesis
    using ok key set_lookup_eq_spec [of s key] by (simp add: ipset_ok_def set_lookup_spec_def Let_def)
qed

lemma take_key_split:
  assumes "length k = 20" "n < 20"
  shows "take (n + 1) k = take n k @ [k ! n]"
  using assms by (simp add: take_Suc_conv_app_nth)

lemma prefix_key_take:
  assumes "ip_wf ip" "md_ip_size ip = n" "fs_key_size s = n + 1" "n < 20"
  shows "take (n + 1) (prefix_key s ip p) = take n (ip_bytes (md_ip_network ip p)) @ [of_nat p]" "length (prefix_key s ip p) = 20"
  using assms by (auto simp: prefix_key_def md_ip_size_def list_update_append numeral_eq_Suc)

lemma net_lookup_hit:
  assumes ok: "ipset_ok s" and net: "fs_ipset_kind s = SET_NET" and ip: "ip_wf ip" "fs_ipset_family s = ip_family ip" and p: "p < 256"
  shows "md_filter_set_lookup s (prefix_key s ip p) = find (\<lambda>e. element_prefix s e = p \<and> covers s ip e) (fs_elements s)"
proof -
  let ?n = "address_size s"
  have n: "?n = md_ip_size ip" "?n < 20" "fs_key_size s = ?n + 1"
    using ok net ip by (auto simp: ipset_ok_def address_size_def md_ip_size_def SET_IP_def SET_NET_def)
  note key = prefix_key_take [OF ip(1) n(1) [symmetric] n(3,2), of p]
  have "take (?n + 1) (el_key e) = take (?n + 1) (prefix_key s ip p) \<longleftrightarrow> element_prefix s e = p \<and> covers s ip e"
    if "e \<in> set (fs_elements s)" for e
  proof -
    have len: "length (el_key e) = 20" using ok that by (simp add: ipset_ok_def)
    have "el_key e ! ?n = of_nat p \<longleftrightarrow> element_prefix s e = p"
      using p n(3) by (auto simp: element_prefix_def unat_of_nat word_unat_eq_iff)
    thus ?thesis
      using take_key_split [OF len n(2)] key(1) len n(2) by (auto simp: covers_def)
  qed
  thus ?thesis
    using lookup_plain [OF ok, of "prefix_key s ip p"] n(2,3) key(2) by (auto intro: find_cong)
qed

lemma ipset_scan_first:
  assumes "sorted_wrt (>) ps" "\<And>p. p \<in> set ps \<Longrightarrow> md_filter_set_lookup s (prefix_key s ip p) = L p"
  shows "ipset_scan s ip ps \<longleftrightarrow> (\<exists>p \<in> set ps. \<exists>e. L p = Some e \<and> el_data e ! 0 = 0 \<and> (\<forall>q \<in> set ps. q > p \<longrightarrow> L q = None))"
  using assms
proof (induction ps)
  case (Cons p ps)
  have IH: "ipset_scan s ip ps \<longleftrightarrow> (\<exists>p \<in> set ps. \<exists>e. L p = Some e \<and> el_data e ! 0 = 0 \<and> (\<forall>q \<in> set ps. q > p \<longrightarrow> L q = None))"
    using Cons by simp
  have low: "\<forall>q \<in> set ps. q < p" using Cons.prems(1) by simp
  show ?case
  proof (cases "L p")
    case None
    thus ?thesis using IH Cons.prems(2) [of p] low by auto
  next
    case (Some e)
    have "\<not> (\<forall>q \<in> set (p # ps). q > r \<longrightarrow> L q = None)" if "r \<in> set ps" for r
      using that low Some by auto
    thus ?thesis using Some Cons.prems(2) [of p] low by auto
  qed
qed simp

lemma net_prefix_small: "ipset_ok s \<Longrightarrow> fs_ipset_kind s = SET_NET \<Longrightarrow> e \<in> set (fs_elements s) \<Longrightarrow> element_prefix s e < 192"
  by (fastforce simp: ipset_ok_def family_bits_def)

lemma net_elements_unique:
  assumes ok: "ipset_ok s" and net: "fs_ipset_kind s = SET_NET"
    and a: "a \<in> set (fs_elements s)" "covers s ip a" and b: "b \<in> set (fs_elements s)" "covers s ip b"
    and same: "element_prefix s a = element_prefix s b"
  shows "a = b"
proof (rule ccontr)
  assume ne: "a \<noteq> b"
  have n: "fs_key_size s = address_size s + 1" "address_size s < 20"
    using ok net by (auto simp: ipset_ok_def address_size_def SET_IP_def SET_NET_def)
  have len: "length (el_key a) = 20" "length (el_key b) = 20" using ok a b by (simp_all add: ipset_ok_def)
  have "take (fs_key_size s) (el_key a) = take (fs_key_size s) (el_key b)"
    using a b same take_key_split [OF len(1) n(2)] take_key_split [OF len(2) n(2)]
    by (simp add: n covers_def element_prefix_def word_unat_eq_iff)
  hence "\<not> element_less (fs_key_size s) a b" "\<not> element_less (fs_key_size s) b a"
    using ok a b len n by (auto simp: element_less_iff ipset_ok_def)
  moreover obtain i j where "i < length (fs_elements s)" "fs_elements s ! i = a" "j < length (fs_elements s)" "fs_elements s ! j = b"
    using a b by (auto simp: in_set_conv_nth)
  ultimately show False
    using ok ne by (metis ipset_ok_def linorder_neqE_nat set_ok_def sorted_wrt_nth_less)
qed

text \<open>What an address set says of an address: the longest covering network decides.\<close>

definition longest_match :: "filter_set \<Rightarrow> ip_address \<Rightarrow> bool" where
  "longest_match s ip \<longleftrightarrow> (\<exists>e \<in> set (fs_elements s). covers s ip e \<and> el_data e ! 0 = 0
     \<and> (\<forall>e' \<in> set (fs_elements s). covers s ip e' \<longrightarrow> element_prefix s e' \<le> element_prefix s e))"

lemma longest_equiv:
  fixes f :: "'a \<Rightarrow> nat"
  shows "(\<exists>p \<in> f ` E. \<exists>e. (e \<in> E \<and> f e = p \<and> C e) \<and> D e \<and> (\<forall>q \<in> f ` E. q > p \<longrightarrow> (\<forall>x \<in> E. \<not> (f x = q \<and> C x))))
    \<longleftrightarrow> (\<exists>e \<in> E. C e \<and> D e \<and> (\<forall>x \<in> E. C x \<longrightarrow> f x \<le> f e))"
  by (auto simp: not_less) (metis not_less)+

lemma net_matches:
  assumes ok: "ipset_ok s" and net: "fs_ipset_kind s = SET_NET" and cur: "prefixes_current s"
    and ip: "ip_wf ip" "fs_ipset_family s = ip_family ip"
  shows "ipset_scan s ip (prefixes_desc (fs_prefixes s)) \<longleftrightarrow> longest_match s ip"
proof -
  let ?P = "\<lambda>p e. element_prefix s e = p \<and> covers s ip e"
  let ?L = "\<lambda>p. find (?P p) (fs_elements s)"
  let ?ps = "prefixes_desc (fs_prefixes s)"
  have small: "\<forall>p \<in> set (map (element_prefix s) (fs_elements s)). p < 192"
    using net_prefix_small [OF ok net] by auto
  have set: "set ?ps = element_prefix s ` set (fs_elements s)"
    using cur net prefixes_desc_set [OF small] by (simp add: prefixes_current_def prefixes_def)
  have look: "md_filter_set_lookup s (prefix_key s ip p) = ?L p" if "p \<in> set ?ps" for p
    using net_lookup_hit [OF ok net ip, of p] that small set by fastforce
  have some: "?L p = Some e \<longleftrightarrow> e \<in> set (fs_elements s) \<and> ?P p e" for p e
  proof
    assume "?L p = Some e"
    thus "e \<in> set (fs_elements s) \<and> ?P p e" by (rule find_SomeD)
  next
    assume e: "e \<in> set (fs_elements s) \<and> ?P p e"
    then obtain e' where e': "?L p = Some e'" by (cases "?L p") (auto simp: find_None_iff)
    have "e' \<in> set (fs_elements s) \<and> ?P p e'" using e' by (rule find_SomeD)
    hence "e' = e" using e net_elements_unique [OF ok net, of e' ip e] by simp
    thus "?L p = Some e" using e' by simp
  qed
  have none: "?L p = None \<longleftrightarrow> (\<forall>e \<in> set (fs_elements s). \<not> ?P p e)" for p
    by (auto simp: find_None_iff)
  have "ipset_scan s ip ?ps \<longleftrightarrow> (\<exists>p \<in> set ?ps. \<exists>e. ?L p = Some e \<and> el_data e ! 0 = 0 \<and> (\<forall>q \<in> set ?ps. q > p \<longrightarrow> ?L q = None))"
    by (rule ipset_scan_first [OF prefixes_desc_sorted look])
  also have "\<dots> \<longleftrightarrow> longest_match s ip"
    unfolding some none set longest_match_def by (rule longest_equiv)
  finally show ?thesis .
qed

section \<open>The commands keep the order\<close>

lemma sorted_wrt_insert_at:
  assumes "sorted_wrt R xs" "at \<le> length xs" "\<And>i. i < at \<Longrightarrow> R (xs ! i) x" "\<And>i. at \<le> i \<Longrightarrow> i < length xs \<Longrightarrow> R x (xs ! i)"
  shows "sorted_wrt R (insert_at at x xs)"
proof -
  have "sorted_wrt R (take at xs)" "sorted_wrt R (drop at xs)" "\<forall>a \<in> set (take at xs). \<forall>b \<in> set (drop at xs). R a b"
    using assms(1) sorted_wrt_append [of R "take at xs" "drop at xs"] by auto
  moreover have "\<forall>a \<in> set (take at xs). R a x" "\<forall>b \<in> set (drop at xs). R x b"
    using assms(2,3,4) by (auto simp: in_set_conv_nth)
  ultimately show ?thesis by (simp add: insert_at_def sorted_wrt_append)
qed

lemma sorted_wrt_remove_at:
  assumes "sorted_wrt R xs"
  shows "sorted_wrt R (remove_at i xs)"
proof -
  have "sorted_wrt R (take i xs)" "sorted_wrt R (drop i xs)" "\<forall>a \<in> set (take i xs). \<forall>b \<in> set (drop i xs). R a b"
    using assms sorted_wrt_append [of R "take i xs" "drop i xs"] by auto
  moreover have "set (drop (Suc i) xs) \<subseteq> set (drop i xs)" by (rule set_drop_subset_set_drop) simp
  moreover have "sorted_wrt R (drop (Suc i) xs)" using assms by (rule sorted_wrt_drop)
  ultimately show ?thesis
    unfolding remove_at_def sorted_wrt_append by blast
qed

lemma sorted_wrt_update:
  assumes "sorted_wrt R xs" "i < length xs" "\<And>y. y \<in> set xs \<Longrightarrow> R y x \<longleftrightarrow> R y (xs ! i)"
    "\<And>y. y \<in> set xs \<Longrightarrow> R x y \<longleftrightarrow> R (xs ! i) y"
  shows "sorted_wrt R (xs[i := x])"
  using assms by (auto simp: sorted_wrt_iff_nth_less nth_list_update)

lemma set_insert_at: "set (insert_at i x xs) = insert x (set xs)"
  using append_take_drop_id [of i xs] by (metis Un_insert_right insert_at_def list.simps(15) set_append)

lemma set_remove_at: "set (remove_at i xs) \<subseteq> set xs"
  by (auto simp: remove_at_def dest: in_set_takeD in_set_dropD)

definition entry_ok_for :: "filter_set \<Rightarrow> filter_element \<Rightarrow> bool" where
  "entry_ok_for s e \<longleftrightarrow> el_end e = 0 \<and> length (el_key e) = 20
     \<and> (fs_ipset_kind s = SET_NET \<longrightarrow> element_prefix s e \<le> family_bits (fs_ipset_family s))"

definition key_of :: "filter_set \<Rightarrow> filter_element \<Rightarrow> u8 list" where
  "key_of s e = take (fs_key_size s) (el_key e)"

lemma ipset_key_size: "ipset_ok s \<Longrightarrow> fs_key_size s \<le> 20"
  by (auto simp: ipset_ok_def address_size_def)

lemma ipset_element_ok: "ipset_ok s \<Longrightarrow> e \<in> set (fs_elements s) \<Longrightarrow> entry_ok_for s e"
  by (simp add: ipset_ok_def entry_ok_for_def)

lemma entry_less:
  assumes "ipset_ok s" "entry_ok_for s a" "entry_ok_for s b"
  shows "element_less (fs_key_size s) a b \<longleftrightarrow> key_of s a < key_of s b"
    and "memcmp (fs_key_size s) (el_key a) (el_key b) = 0 \<longleftrightarrow> key_of s a = key_of s b"
  using assms ipset_key_size [OF assms(1)]
  by (simp_all add: element_less_iff memcmp_take entry_ok_for_def key_of_def)

lemma entry_position:
  assumes ok: "ipset_ok s" and e: "entry_ok_for s e" and i: "i < length (fs_elements s)"
  shows "i < md_filter_set_position s (el_key e) 0 \<longleftrightarrow> key_of s (fs_elements s ! i) < key_of s e"
proof -
  have len: "fs_key_size s \<le> length (el_key e)" "fs_key_size s \<le> length (el_key (fs_elements s ! i))"
    using ok e i ipset_key_size [OF ok] ipset_element_ok [OF ok, of "fs_elements s ! i"] by (auto simp: entry_ok_for_def)
  have "set_ok s" "el_end (fs_elements s ! i) = 0" using ok i by (simp_all add: ipset_ok_def)
  thus ?thesis
    using position_exact [of s "el_key e" 0] len i element_before_iff [OF len(2,1), of 0] by (auto simp: key_of_def)
qed

lemma entry_position_le: "ipset_ok s \<Longrightarrow> entry_ok_for s e \<Longrightarrow> md_filter_set_position s (el_key e) 0 \<le> length (fs_elements s)"
  using position_exact [of s "el_key e" 0] ipset_key_size [of s] by (simp add: ipset_ok_def entry_ok_for_def)

lemma ipset_ok_elements:
  assumes "ipset_ok s" "sorted_wrt (element_less (fs_key_size s)) es" "\<And>e. e \<in> set es \<Longrightarrow> entry_ok_for s e"
  shows "ipset_ok (s\<lparr>fs_elements := es\<rparr>)" "ipset_ok (s\<lparr>fs_capacity := c, fs_elements := es\<rparr>)"
  using assms ipset_key_size [OF assms(1)]
  by (auto simp: ipset_ok_def set_ok_def entry_ok_for_def address_size_def element_prefix_def)

text \<open>Placing an element: found by its key, and found there only.\<close>

lemma place_hit:
  assumes ok: "ipset_ok s" and e: "entry_ok_for s e"
  defines "at \<equiv> md_filter_set_position s (el_key e) 0"
  shows "(at < length (fs_elements s) \<and> memcmp (fs_key_size s) (el_key (fs_elements s ! at)) (el_key e) = 0)
    \<longleftrightarrow> key_of s e \<in> key_of s ` set (fs_elements s)"
proof
  assume "at < length (fs_elements s) \<and> memcmp (fs_key_size s) (el_key (fs_elements s ! at)) (el_key e) = 0"
  thus "key_of s e \<in> key_of s ` set (fs_elements s)"
    using entry_less(2) [OF ok ipset_element_ok [OF ok] e] by (metis imageI nth_mem)
next
  assume "key_of s e \<in> key_of s ` set (fs_elements s)"
  then obtain i where i: "i < length (fs_elements s)" "key_of s (fs_elements s ! i) = key_of s e"
    by (auto simp: in_set_conv_nth)
  have "at \<le> i" using entry_position [OF ok e i(1)] i(2) by (simp add: at_def)
  moreover have "\<not> at < i"
  proof
    assume lt: "at < i"
    have "element_less (fs_key_size s) (fs_elements s ! at) (fs_elements s ! i)"
      using ok i lt by (simp add: ipset_ok_def set_ok_def sorted_wrt_iff_nth_less)
    hence "key_of s (fs_elements s ! at) < key_of s e"
      using entry_less(1) [OF ok ipset_element_ok [OF ok] ipset_element_ok [OF ok]] i lt by simp
    thus False using entry_position [OF ok e, of at] lt i by (simp add: at_def)
  qed
  ultimately show "at < length (fs_elements s) \<and> memcmp (fs_key_size s) (el_key (fs_elements s ! at)) (el_key e) = 0"
    using i entry_less(2) [OF ok ipset_element_ok [OF ok] e] by (simp add: order.antisym)
qed

lemma place_ok:
  assumes ok: "ipset_ok s" and e: "entry_ok_for s e"
  shows "ipset_ok (snd (ipset_place realloced s e command exist))"
proof -
  let ?at = "md_filter_set_position s (el_key e) 0" and ?es = "fs_elements s" and ?R = "element_less (fs_key_size s)"
  have sorted: "sorted_wrt ?R ?es" using ok by (simp add: ipset_ok_def set_ok_def)
  note old = ipset_element_ok [OF ok]
  have del: "ipset_ok (s\<lparr>fs_elements := remove_at ?at ?es\<rparr>)"
    by (rule ipset_ok_elements [OF ok sorted_wrt_remove_at [OF sorted]]) (rule old [OF subsetD [OF set_remove_at]])
  have upd: "ipset_ok (s\<lparr>fs_elements := ?es[?at := e]\<rparr>)" if "?at < length ?es" "key_of s (?es ! ?at) = key_of s e"
  proof (rule ipset_ok_elements(1) [OF ok])
    show "sorted_wrt ?R (?es[?at := e])"
      by (rule sorted_wrt_update [OF sorted that(1)])
        (use that entry_less(1) [OF ok old e] entry_less(1) [OF ok e old] entry_less(1) [OF ok old old] in auto)
    show "entry_ok_for s x" if "x \<in> set (?es[?at := e])" for x
      using that e old set_update_subset_insert [of ?es ?at e] by blast
  qed
  have ins: "ipset_ok (s\<lparr>fs_capacity := c, fs_elements := insert_at ?at e ?es\<rparr>)" if "key_of s e \<notin> key_of s ` set ?es" for c
  proof (rule ipset_ok_elements(2) [OF ok])
    show "sorted_wrt ?R (insert_at ?at e ?es)"
    proof (rule sorted_wrt_insert_at [OF sorted entry_position_le [OF ok e]])
      show "?R (?es ! i) e" if "i < ?at" for i
        using that entry_position_le [OF ok e] entry_position [OF ok e, of i] entry_less(1) [OF ok old e] by simp
      show "?R e (?es ! i)" if "?at \<le> i" "i < length ?es" for i
      proof -
        have "key_of s (?es ! i) \<in> key_of s ` set ?es" using that by simp
        hence "key_of s (?es ! i) \<noteq> key_of s e" using \<open>key_of s e \<notin> key_of s ` set ?es\<close> by metis
        moreover have "\<not> key_of s (?es ! i) < key_of s e" using entry_position [OF ok e, of i] that by simp
        ultimately show ?thesis using entry_less(1) [OF ok e old] that by simp
      qed
    qed
    show "entry_ok_for s x" if "x \<in> set (insert_at ?at e ?es)" for x
      using that e old by (auto simp: set_insert_at)
  qed
  show ?thesis
    using ok del upd ins place_hit [OF ok e] entry_less(2) [OF ok old e]
    by (auto simp: ipset_place_def Let_def split: ipset_command.split sum.split)
qed

lemma entry_ok_entry:
  assumes ok: "ipset_ok s" and v: "ip_wf v" "ip_family v = fs_ipset_family s" and p: "p \<le> family_bits (fs_ipset_family s)"
  shows "entry_ok_for s (ipset_entry s v p flags)"
proof -
  have len: "length (ip_bytes (md_ip_network v p)) = 16" using v by simp
  have fam: "fs_ipset_family s = AF_INET \<or> fs_ipset_family s = AF_INET6" using ok by (simp add: ipset_ok_def)
  have "unat (of_nat p :: u8) = p" using p fam by (auto simp: family_bits_def unat_of_nat)
  thus ?thesis
    using ok len p fam
    by (auto simp: entry_ok_for_def ipset_entry_def Let_def element_prefix_def ipset_ok_def address_size_def nth_append
        SET_IP_def SET_NET_def)
qed

lemma ip_wf_load: "fam = AF_INET \<or> fam = AF_INET6 \<Longrightarrow> length bs = (if fam = AF_INET then 4 else 16) \<Longrightarrow> ip_wf (md_ip_load fam bs)"
  by (auto simp: ip_wf_def md_ip_load_def md_ip_any_def md_ip_size_def)

lemma ip_family_load [simp]: "ip_family (md_ip_load fam bs) = fam"
  by (simp add: md_ip_load_def md_ip_any_def Let_def)

lemma element_keeps_ok:
  assumes ok: "ipset_ok s" and len: "length (ea_address a) = address_size s"
  shows "ipset_ok (snd (ipset_element realloced s a command exist))"
proof -
  have fam: "fs_ipset_family s = AF_INET \<or> fs_ipset_family s = AF_INET6" using ok by (simp add: ipset_ok_def)
  have "ip_wf (md_ip_load (fs_ipset_family s) (ea_address a))"
    using fam len by (intro ip_wf_load) (auto simp: address_size_def)
  thus ?thesis
    using ok place_ok [OF ok entry_ok_entry [OF ok]] by (simp add: ipset_element_def Let_def)
qed

lemma ipset_ok_prefixes: "ipset_ok s \<Longrightarrow> ipset_ok (prefixes s)" "prefixes_current (prefixes s)"
  by (auto simp: ipset_ok_def prefixes_def set_ok_def address_size_def element_prefix_def [abs_def] prefixes_current_def)

lemma place_family: "fs_ipset_family (snd (ipset_place realloced s e command exist)) = fs_ipset_family s"
  by (simp add: ipset_place_def Let_def split: ipset_command.split sum.split)

lemma element_family: "fs_ipset_family (snd (ipset_element realloced s a command exist)) = fs_ipset_family s"
  by (simp add: ipset_element_def Let_def place_family)

section \<open>Properties\<close>

text \<open>
  C36: An address matches a set exactly if the longest network of the set that contains it is not
  marked as an exception. The search over the installed prefix lengths, longest first, and the
  binary search for each of them together compute this longest prefix match.
\<close>
theorem ipset_longest_match:
  assumes "ipset_ok s" "fs_ipset_kind s = SET_NET" "prefixes_current s" "ip_wf ip"
  shows "md_ipset_matches (Some s) ip \<longleftrightarrow> fs_ipset_family s = ip_family ip \<and> longest_match s ip"
  using assms net_matches [OF assms(1-4)] by (simp add: md_ipset_matches_def SET_IP_def SET_NET_def)

text \<open>
  The commands on the elements of an address set, in any sequence and whether they succeed or
  fail, keep it well-formed: ordered by key without duplicates and, after a successful sequence,
  with the bitmap of prefix lengths that the lookup relies on up to date.
\<close>
theorem ipset_commands_keep:
  assumes "ipset_ok s" "\<forall>a \<in> set as. length (ea_address a) = address_size s"
  shows "ipset_ok (snd (ipset_elements realloced s as command exist))
    \<and> (fst (ipset_elements realloced s as command exist) = Inr ()
        \<longrightarrow> prefixes_current (snd (ipset_elements realloced s as command exist)))"
  using assms
proof (induction as arbitrary: s)
  case (Cons a as)
  obtain r t where step: "ipset_element realloced s a command exist = (r, t)" by fastforce
  have t: "ipset_ok t" using element_keeps_ok [OF Cons.prems(1), of a realloced command exist] Cons.prems(2) step by simp
  have "address_size t = address_size s"
    using element_family [of realloced s a command exist] step by (simp add: address_size_def)
  thus ?case using Cons.IH [OF t] Cons.prems(2) step t by (auto split: sum.split)
qed (simp add: ipset_ok_prefixes)

text \<open>The networks 10.0.0.0/8, with the exception 10.1.0.0/16.\<close>

definition demo_net :: filter_set where
  "demo_net = demo_set\<lparr>fs_flags := 0, fs_key_size := 5, fs_elements := [], fs_ipset_kind := SET_NET, fs_ipset_family := AF_INET,
     fs_ipset_revision := 2, fs_ipset_max := 100\<rparr>"

definition demo_args :: "ipset_element_args list" where
  "demo_args = [\<lparr>ea_address = [10, 0, 0, 0], ea_cidr = Some 8, ea_timeout = None, ea_flags = 0\<rparr>,
     \<lparr>ea_address = [10, 1, 0, 0], ea_cidr = Some 16, ea_timeout = None, ea_flags = 4\<rparr>]"

definition demo_net2 :: filter_set where
  "demo_net2 = snd (ipset_elements True demo_net demo_args IPSET_CMD_ADD False)"

lemma demo_net_ok: "ipset_ok demo_net"
  by (simp add: ipset_ok_def demo_net_def demo_set_def set_ok_def address_size_def SET_IP_def SET_NET_def)

theorem ipset_commands_keep_witness:
  "fst (ipset_elements True demo_net demo_args IPSET_CMD_ADD False) = Inr () \<and> ipset_ok demo_net2 \<and> prefixes_current demo_net2"
proof -
  have "fst (ipset_elements True demo_net demo_args IPSET_CMD_ADD False) = Inr ()" by code_simp
  thus ?thesis
    using ipset_commands_keep [OF demo_net_ok, of demo_args True IPSET_CMD_ADD False]
    by (auto simp: demo_net2_def demo_args_def address_size_def demo_net_def demo_set_def)
qed

text \<open>10.2.3.4 matches, 10.1.3.4 falls under the exception.\<close>

theorem ipset_longest_match_witness:
  "md_ipset_matches (Some demo_net2) (md_ip_v4 [10, 2, 3, 4]) \<and> longest_match demo_net2 (md_ip_v4 [10, 2, 3, 4])
     \<and> \<not> longest_match demo_net2 (md_ip_v4 [10, 1, 3, 4])"
proof -
  have ok: "ipset_ok demo_net2" "prefixes_current demo_net2" "fs_ipset_kind demo_net2 = SET_NET"
      "fs_ipset_family demo_net2 = AF_INET"
    by code_simp+
  have wf: "ip_wf (md_ip_v4 [10, 2, 3, 4])" "ip_wf (md_ip_v4 [10, 1, 3, 4])"
    by (simp_all add: ip_wf_def md_ip_v4_def)
  have "md_ipset_matches (Some demo_net2) (md_ip_v4 [10, 2, 3, 4])" "\<not> md_ipset_matches (Some demo_net2) (md_ip_v4 [10, 1, 3, 4])"
    by code_simp+
  thus ?thesis
    using ipset_longest_match [OF ok(1,3,2) wf(1)] ipset_longest_match [OF ok(1,3,2) wf(2)] ok(4)
    by (simp add: md_ip_v4_def)
qed

end
