(* ===== verification/Filter_Validate.thy ===== *)
theory Filter_Validate
  imports Network_Ipset
begin

text \<open>
  Validation of a ruleset before it is published: the first half of
  \<^verbatim>\<open>src/native/shroot/src/network_filter_program.c\<close>. Sets must be ordered, jumps must stay in their
  table, reach regular chains only and never nest deeper than sixteen, and statements must stand
  where every hook that can reach them supports them. An array indexed by chain is a list.
\<close>

unbundle bit_operations_syntax

section \<open>Constants of the netfilter interface\<close>

text \<open>Verdicts, as the signed integers the code compares.\<close>

definition NF_DROP :: int where "NF_DROP = 0"
definition NF_ACCEPT :: int where "NF_ACCEPT = 1"
definition NFT_BREAK :: int where "NFT_BREAK = -2"
definition NFT_JUMP :: int where "NFT_JUMP = -3"
definition NFT_GOTO :: int where "NFT_GOTO = -4"
definition NFT_RETURN :: int where "NFT_RETURN = -5"

definition NF_INET_PRE_ROUTING :: nat where "NF_INET_PRE_ROUTING = 0"
definition NF_INET_LOCAL_IN :: nat where "NF_INET_LOCAL_IN = 1"
definition NF_INET_FORWARD :: nat where "NF_INET_FORWARD = 2"
definition NF_INET_LOCAL_OUT :: nat where "NF_INET_LOCAL_OUT = 3"
definition NF_INET_POST_ROUTING :: nat where "NF_INET_POST_ROUTING = 4"
definition NF_INET_NUMHOOKS :: nat where "NF_INET_NUMHOOKS = 5"

definition NFPROTO_INET :: u32 where "NFPROTO_INET = 1"
definition NFPROTO_IPV4 :: u32 where "NFPROTO_IPV4 = 2"
definition NFPROTO_IPV6 :: u32 where "NFPROTO_IPV6 = 10"
definition IPPROTO_ICMP :: u32 where "IPPROTO_ICMP = 1"
definition IPPROTO_TCP :: u32 where "IPPROTO_TCP = 6"
definition IPPROTO_UDP :: u32 where "IPPROTO_UDP = 17"

definition NFT_CMP_EQ :: u32 where "NFT_CMP_EQ = 0"
definition NFT_CMP_NEQ :: u32 where "NFT_CMP_NEQ = 1"
definition NFT_RANGE_EQ :: u32 where "NFT_RANGE_EQ = 0"
definition NFT_RANGE_NEQ :: u32 where "NFT_RANGE_NEQ = 1"
definition NFT_PAYLOAD_NETWORK_HEADER :: u32 where "NFT_PAYLOAD_NETWORK_HEADER = 1"
definition NFT_PAYLOAD_TRANSPORT_HEADER :: u32 where "NFT_PAYLOAD_TRANSPORT_HEADER = 2"
definition NFT_META_MARK :: u32 where "NFT_META_MARK = 3"
definition NFT_META_IIF :: u32 where "NFT_META_IIF = 4"
definition NFT_META_OIF :: u32 where "NFT_META_OIF = 5"
definition NFT_META_IIFNAME :: u32 where "NFT_META_IIFNAME = 6"
definition NFT_META_OIFNAME :: u32 where "NFT_META_OIFNAME = 7"
definition NFT_META_NFPROTO :: u32 where "NFT_META_NFPROTO = 15"
definition NFT_META_L4PROTO :: u32 where "NFT_META_L4PROTO = 16"
definition NFT_META_PKTTYPE :: u32 where "NFT_META_PKTTYPE = 19"
definition NFT_CT_STATE :: u32 where "NFT_CT_STATE = 0"
definition NFT_CT_MARK :: u32 where "NFT_CT_MARK = 3"
definition NFT_FIB_RESULT_OIFNAME :: u32 where "NFT_FIB_RESULT_OIFNAME = 2"
definition NFT_FIB_RESULT_ADDRTYPE :: u32 where "NFT_FIB_RESULT_ADDRTYPE = 3"
definition NFTA_FIB_F_SADDR :: u32 where "NFTA_FIB_F_SADDR = 1"
definition NFTA_FIB_F_DADDR :: u32 where "NFTA_FIB_F_DADDR = 2"
definition NFTA_FIB_F_MARK :: u32 where "NFTA_FIB_F_MARK = 4"
definition NFTA_FIB_F_IIF :: u32 where "NFTA_FIB_F_IIF = 8"
definition NFTA_FIB_F_OIF :: u32 where "NFTA_FIB_F_OIF = 16"
definition NFTA_FIB_F_PRESENT :: u32 where "NFTA_FIB_F_PRESENT = 32"
definition NFT_NAT_DNAT :: u32 where "NFT_NAT_DNAT = 1"

section \<open>Jumps\<close>

definition chain_index :: "network_filter \<Rightarrow> u64 \<Rightarrow> nat option" where
  "chain_index f handle = find (\<lambda>i. fc_handle (nf_chains f ! i) = handle) [0..<length (nf_chains f)]"

text \<open>Whether the expressions before the \<open>end\<close>-th pin the protocol to TCP.\<close>

definition tcp_load :: "u32 \<Rightarrow> filter_expression \<Rightarrow> bool" where
  "tcp_load fam load \<longleftrightarrow>
     fe_code load = MD_FILTER_META \<and> fe_key load = NFT_META_L4PROTO
   \<or> fe_code load = MD_FILTER_PAYLOAD \<and> fe_key load = NFT_PAYLOAD_NETWORK_HEADER \<and> fe_size load = 1
       \<and> (fam = NFPROTO_IPV4 \<and> fe_aux load = 9 \<or> fam = NFPROTO_IPV6 \<and> fe_aux load = 6)"

definition chain_family :: "network_filter \<Rightarrow> filter_rule \<Rightarrow> u32" where
  "chain_family f r =
     (case chain_index f (fr_chain r) of None \<Rightarrow> 0
      | Some c \<Rightarrow> fold (\<lambda>t fam. if ft_handle t = fc_table (nf_chains f ! c) then ft_family t else fam) (nf_tables f) 0)"

definition tcp_predicate :: "network_filter \<Rightarrow> filter_rule \<Rightarrow> nat \<Rightarrow> bool" where
  "tcp_predicate f r fin \<longleftrightarrow>
     (let fam = chain_family f r; es = fr_expressions r in
      \<exists>i \<in> set [0..<fin].
        fe_code (es ! i) = MD_FILTER_TRANSPORT \<and> tr_protocol (fe_transport (es ! i)) = IPPROTO_TCP
      \<or> i \<noteq> 0 \<and> fe_code (es ! i) = MD_FILTER_COMPARE \<and> fe_operation (es ! i) = NFT_CMP_EQ \<and> fe_size (es ! i) = 1
          \<and> fe_value (es ! i) ! 0 = 6 \<and> fe_dst (es ! (i - 1)) = fe_src (es ! i) \<and> tcp_load fam (es ! (i - 1)))"

definition is_jump :: "filter_verdict \<Rightarrow> bool" where
  "is_jump v \<longleftrightarrow> sint (fv_operation v) = NFT_JUMP \<or> sint (fv_operation v) = NFT_GOTO"

definition verdicts_of :: "network_filter \<Rightarrow> filter_expression \<Rightarrow> filter_verdict list" where
  "verdicts_of f e = map (md_filter_verdict_at f e) [0..<md_filter_verdict_count f e]"

text \<open>The two arrays of \<open>validate_chain\<close>: 0 unvisited, 1 being visited, 2 done; and nesting below.\<close>

record visit =
  vi_state :: "nat list"
  vi_height :: "nat list"

fun validate_verdicts ::
  "(nat \<Rightarrow> visit \<Rightarrow> errno option \<times> visit) \<Rightarrow> network_filter \<Rightarrow> nat \<Rightarrow> filter_verdict list \<Rightarrow> visit \<Rightarrow> errno option \<times> visit" where
  "validate_verdicts call f chain [] vi = (None, vi)"
| "validate_verdicts call f chain (v # vs) vi =
     (if \<not> is_jump v then validate_verdicts call f chain vs vi
      else case chain_index f (fv_target v) of
        None \<Rightarrow> (Some ENOENT, vi)
      | Some target \<Rightarrow>
          if fc_table (nf_chains f ! target) \<noteq> fc_table (nf_chains f ! chain) \<or> fc_hook (nf_chains f ! target) \<ge> 0
          then (Some EOPNOTSUPP, vi)
          else (case call target vi of
                  (Some e, vi) \<Rightarrow> (Some e, vi)
                | (None, vi) \<Rightarrow>
                    let h = vi_height vi ! target + 1;
                        vi = (if h > vi_height vi ! chain then vi\<lparr>vi_height := (vi_height vi)[chain := h]\<rparr> else vi)
                    in validate_verdicts call f chain vs vi))"

definition missing_set :: "network_filter \<Rightarrow> nat \<Rightarrow> filter_expression \<Rightarrow> bool" where
  "missing_set f chain e \<longleftrightarrow>
     md_filter_set_expression e
       \<and> \<not> (\<exists>s \<in> set (nf_sets f). fs_handle s = fe_target e \<and> fs_table s = fc_table (nf_chains f ! chain))
   \<or> fe_code e = MD_FILTER_IPSET
       \<and> \<not> (\<exists>s \<in> set (nf_sets f). fs_ipset_kind s \<noteq> 0 \<and> fs_handle s = fe_target e)"

fun validate_expressions ::
  "(nat \<Rightarrow> visit \<Rightarrow> errno option \<times> visit) \<Rightarrow> network_filter \<Rightarrow> nat \<Rightarrow> filter_expression list \<Rightarrow> visit \<Rightarrow> errno option \<times> visit" where
  "validate_expressions call f chain [] vi = (None, vi)"
| "validate_expressions call f chain (e # es) vi =
     (case validate_verdicts call f chain (verdicts_of f e) vi of
        (Some err, vi) \<Rightarrow> (Some err, vi)
      | (None, vi) \<Rightarrow>
          if missing_set f chain e then (Some ENOENT, vi) else validate_expressions call f chain es vi)"

definition chain_expressions :: "network_filter \<Rightarrow> filter_chain \<Rightarrow> filter_expression list" where
  "chain_expressions f c = concat (map fr_expressions (filter (\<lambda>r. fr_chain r = fc_handle c) (nf_rules f)))"

text \<open>\<open>levels\<close> is \<open>17 - depth\<close>: how many nested calls the depth limit still allows.\<close>

primrec validate_chain :: "nat \<Rightarrow> network_filter \<Rightarrow> nat \<Rightarrow> visit \<Rightarrow> errno option \<times> visit" where
  "validate_chain 0 f chain vi = (Some ELOOP, vi)"
| "validate_chain (Suc levels) f chain vi =
     (if vi_state vi ! chain = 1 then (Some ELOOP, vi)
      else if vi_state vi ! chain = 2
      then (if 16 - levels + vi_height vi ! chain > 16 then Some ELOOP else None, vi)
      else case validate_expressions (validate_chain levels f) f chain (chain_expressions f (nf_chains f ! chain))
                  (vi\<lparr>vi_state := (vi_state vi)[chain := 1]\<rparr>) of
             (Some e, vi) \<Rightarrow> (Some e, vi)
           | (None, vi) \<Rightarrow> (None, vi\<lparr>vi_state := (vi_state vi)[chain := 2]\<rparr>))"

fun validate_chains :: "network_filter \<Rightarrow> nat list \<Rightarrow> visit \<Rightarrow> errno option \<times> visit" where
  "validate_chains f [] vi = (None, vi)"
| "validate_chains f (i # is) vi =
     (case validate_chain 17 f i vi of (Some e, vi) \<Rightarrow> (Some e, vi) | (None, vi) \<Rightarrow> validate_chains f is vi)"

section \<open>Sets\<close>

fun validate_elements :: "filter_set \<Rightarrow> filter_element list \<Rightarrow> errno option" where
  "validate_elements s (a # b # es) =
     (let order = memcmp (fs_key_size s) (el_key a) (el_key b) in
      if order > 0 \<or> order = 0 \<and> el_end a \<le> el_end b then Some EINVAL
      else if (fs_flags s AND NFT_SET_INTERVAL) \<noteq> 0 \<and> el_end a = el_end b then Some EEXIST
      else validate_elements s (b # es))"
| "validate_elements s es = None"

fun first_error :: "errno option list \<Rightarrow> errno option" where
  "first_error [] = None"
| "first_error (Some e # es) = Some e"
| "first_error (None # es) = first_error es"

section \<open>Hooks that reach a chain\<close>

definition hook_bit :: "nat \<Rightarrow> u32" where "hook_bit h = push_bit h 1"

definition initial_context :: "filter_chain \<Rightarrow> u32" where
  "initial_context c = (if fc_hook c \<ge> 0 then hook_bit (nat (fc_hook c) + (if fc_nat c then 0 else NF_INET_NUMHOOKS)) else 0)"

text \<open>The jumps of all rules, from chain to chain, in the order the fixpoint loop visits them.\<close>

definition jump_targets :: "network_filter \<Rightarrow> filter_rule \<Rightarrow> nat list" where
  "jump_targets f r = List.map_filter (\<lambda>v. if is_jump v then chain_index f (fv_target v) else None)
     (concat (map (verdicts_of f) (fr_expressions r)))"

definition jump_edges :: "network_filter \<Rightarrow> (nat \<times> nat) list" where
  "jump_edges f = concat (map (\<lambda>r. case chain_index f (fr_chain r) of
     None \<Rightarrow> [] | Some src \<Rightarrow> map (Pair src) (jump_targets f r)) (nf_rules f))"

definition context_pass :: "(nat \<times> nat) list \<Rightarrow> u32 list \<Rightarrow> u32 list" where
  "context_pass es cs = fold (\<lambda>(a, b) cs. cs[b := (cs ! b) OR (cs ! a)]) es cs"

text \<open>Bits not yet set, which every pass that changes something reduces.\<close>

definition clear_bits :: "u32 list \<Rightarrow> nat" where
  "clear_bits cs = (\<Sum>c \<leftarrow> cs. card {b. b < 32 \<and> \<not> bit c b})"

lemma card_clear_or:
  fixes x y :: u32
  shows "card {b. b < 32 \<and> \<not> bit (x OR y) b} \<le> card {b. b < 32 \<and> \<not> bit x b}"
    and "x OR y \<noteq> x \<Longrightarrow> card {b. b < 32 \<and> \<not> bit (x OR y) b} < card {b. b < 32 \<and> \<not> bit x b}"
proof -
  show "card {b. b < 32 \<and> \<not> bit (x OR y) b} \<le> card {b. b < 32 \<and> \<not> bit x b}"
    by (rule card_mono) (auto simp: bit_or_iff)
  assume "x OR y \<noteq> x"
  then obtain b where b: "b < 32" "bit y b" "\<not> bit x b"
    by (auto simp: bit_eq_iff bit_or_iff)
  show "card {b. b < 32 \<and> \<not> bit (x OR y) b} < card {b. b < 32 \<and> \<not> bit x b}"
    by (rule psubset_card_mono) (use b in \<open>auto simp: bit_or_iff\<close>)
qed

lemma clear_bits_update:
  assumes "b < length cs"
  shows "clear_bits (cs[b := (cs ! b) OR y]) \<le> clear_bits cs"
    and "cs[b := (cs ! b) OR y] \<noteq> cs \<Longrightarrow> clear_bits (cs[b := (cs ! b) OR y]) < clear_bits cs"
proof -
  let ?k = "\<lambda>c :: u32. card {b. b < 32 \<and> \<not> bit c b}"
  have sum: "clear_bits (cs[b := z]) + ?k (cs ! b) = clear_bits cs + ?k z" for z
    using assms member_le_sum_list [of "?k (cs ! b)" "map ?k cs"]
    by (simp add: clear_bits_def map_update sum_list_update)
  show "clear_bits (cs[b := (cs ! b) OR y]) \<le> clear_bits cs"
    using sum [of "(cs ! b) OR y"] card_clear_or(1) [of "cs ! b" y] by linarith
  assume "cs[b := (cs ! b) OR y] \<noteq> cs"
  hence "(cs ! b) OR y \<noteq> cs ! b" by (metis list_update_id)
  thus "clear_bits (cs[b := (cs ! b) OR y]) < clear_bits cs"
    using sum [of "(cs ! b) OR y"] card_clear_or(2) [of "cs ! b" y] by linarith
qed

lemma context_pass_clear: "clear_bits (context_pass es cs) \<le> clear_bits cs \<and>
    (context_pass es cs \<noteq> cs \<longrightarrow> clear_bits (context_pass es cs) < clear_bits cs)"
proof (induction es arbitrary: cs)
  case (Cons e es)
  obtain a b where e: "e = (a, b)" by fastforce
  let ?cs = "cs[b := (cs ! b) OR (cs ! a)]"
  have eq: "context_pass (e # es) cs = context_pass es ?cs" by (simp add: context_pass_def e)
  have step: "clear_bits ?cs \<le> clear_bits cs \<and> (?cs \<noteq> cs \<longrightarrow> clear_bits ?cs < clear_bits cs)"
    using clear_bits_update [of b cs "cs ! a"] by (cases "b < length cs") (auto simp: list_update_beyond)
  show ?case unfolding eq using Cons.IH [of ?cs] step by (cases "?cs = cs") auto
qed (simp add: context_pass_def)

function context_loop :: "(nat \<times> nat) list \<Rightarrow> u32 list \<Rightarrow> u32 list" where
  "context_loop es cs = (let cs' = context_pass es cs in if cs' \<noteq> cs then context_loop es cs' else cs')"
  by pat_completeness auto
termination by (relation "measure (\<lambda>(es, cs). clear_bits cs)") (simp_all add: context_pass_clear)

declare context_loop.simps [simp del]

section \<open>Statements\<close>

definition limited_ok :: "filter_rule \<Rightarrow> bool" where
  "limited_ok r \<longleftrightarrow>
     (let es = fr_expressions r in
      (\<exists>e \<in> set es. fe_code e = MD_FILTER_LIMIT) \<longrightarrow>
        (\<exists>e \<in> set es. fe_code e = MD_FILTER_LOG)
      \<and> \<not> (\<exists>e \<in> set es. fe_code e = MD_FILTER_VERDICT \<and> sint (fe_operation e) \<noteq> sint NFT_CONTINUE
             \<or> fe_code e \<in> {MD_FILTER_VERDICT_MAP, MD_FILTER_NAT, MD_FILTER_MASQUERADE, MD_FILTER_META_SET,
                            MD_FILTER_CT_SET, MD_FILTER_REJECT}))"

definition hook_bits :: "nat list \<Rightarrow> u32" where
  "hook_bits hs = fold (\<lambda>h w. w OR hook_bit h) hs 0"

text \<open>The contexts a statement is allowed in; \<open>None\<close> for a statement allowed everywhere.\<close>

definition allowed_contexts :: "filter_expression \<Rightarrow> u32 option" where
  "allowed_contexts e =
     (if fe_code e = MD_FILTER_MASQUERADE then Some (hook_bits [NF_INET_POST_ROUTING])
      else if fe_code e = MD_FILTER_NAT then
        Some (if fe_operation e = NFT_NAT_DNAT then hook_bits [NF_INET_PRE_ROUTING, NF_INET_LOCAL_OUT]
              else hook_bits [NF_INET_POST_ROUTING, NF_INET_LOCAL_IN])
      else if fe_code e = MD_FILTER_FIB then
        let both = (\<lambda>w. w OR push_bit NF_INET_NUMHOOKS w) in
        if fe_key e \<noteq> NFT_FIB_RESULT_ADDRTYPE \<or> fe_operation e AND NFTA_FIB_F_IIF \<noteq> 0
        then Some (both (hook_bits [NF_INET_PRE_ROUTING, NF_INET_LOCAL_IN, NF_INET_FORWARD]))
        else if fe_operation e AND NFTA_FIB_F_OIF \<noteq> 0
        then Some (both (hook_bits [NF_INET_LOCAL_OUT, NF_INET_POST_ROUTING, NF_INET_FORWARD]))
        else None
      else if fe_code e = MD_FILTER_REJECT then
        Some (push_bit NF_INET_NUMHOOKS (hook_bits [NF_INET_LOCAL_IN, NF_INET_FORWARD, NF_INET_LOCAL_OUT]))
      else None)"

definition reject_ok :: "network_filter \<Rightarrow> filter_rule \<Rightarrow> nat \<Rightarrow> bool" where
  "reject_ok f r j \<longleftrightarrow>
     (let e = fr_expressions r ! j in
      fe_code e = MD_FILTER_REJECT \<longrightarrow>
        (case reject_type_of (fe_key e) of
           None \<Rightarrow> False
         | Some t \<Rightarrow> md_network_reject_valid t (fe_aux e) \<and> (t = MD_REJECT_TCP \<longrightarrow> tcp_predicate f r j)))"

definition statement_error :: "network_filter \<Rightarrow> filter_rule \<Rightarrow> u32 \<Rightarrow> nat \<Rightarrow> errno option" where
  "statement_error f r context j =
     (if \<not> reject_ok f r j then Some EOPNOTSUPP
      else case allowed_contexts (fr_expressions r ! j) of
             None \<Rightarrow> None
           | Some allowed \<Rightarrow> if context AND NOT allowed \<noteq> 0 then Some EOPNOTSUPP else None)"

definition validate_rule :: "network_filter \<Rightarrow> u32 list \<Rightarrow> filter_rule \<Rightarrow> errno option" where
  "validate_rule f contexts r =
     (let context = (case chain_index f (fr_chain r) of Some i \<Rightarrow> contexts ! i | None \<Rightarrow> 0) in
      if \<not> limited_ok r then Some EOPNOTSUPP
      else first_error (map (statement_error f r context) [0..<length (fr_expressions r)]))"

definition md_filter_validate :: "network_filter \<Rightarrow> errno option" where
  "md_filter_validate f =
     (case first_error (map (\<lambda>s. validate_elements s (fs_elements s)) (nf_sets f)) of
        Some e \<Rightarrow> Some e
      | None \<Rightarrow>
         (case validate_chains f [0..<length (nf_chains f)] \<lparr>vi_state = replicate 256 0, vi_height = replicate 256 0\<rparr> of
            (Some e, _) \<Rightarrow> Some e
          | (None, _) \<Rightarrow>
              if \<exists>r \<in> set (nf_rules f). chain_index f (fr_chain r) = None then Some ENOENT
              else first_error (map (validate_rule f (context_loop (jump_edges f) (map initial_context (nf_chains f)))) (nf_rules f))))"

section \<open>What validation establishes about jumps\<close>

lemma chain_index_Some:
  assumes "chain_index f h = Some t"
  shows "t < length (nf_chains f)" "fc_handle (nf_chains f ! t) = h" "\<And>i. i < t \<Longrightarrow> fc_handle (nf_chains f ! i) \<noteq> h"
proof -
  have "t \<in> set [0..<length (nf_chains f)] \<and> fc_handle (nf_chains f ! t) = h"
    using assms unfolding chain_index_def by (rule find_SomeD)
  thus "t < length (nf_chains f)" "fc_handle (nf_chains f ! t) = h" by simp_all
  obtain k where k: "k < length [0..<length (nf_chains f)]" "t = [0..<length (nf_chains f)] ! k"
    "\<forall>j < k. fc_handle (nf_chains f ! ([0..<length (nf_chains f)] ! j)) \<noteq> h"
    using assms unfolding chain_index_def find_Some_iff by blast
  hence "t = k" by simp
  thus "fc_handle (nf_chains f ! i) \<noteq> h" if "i < t" for i
    using k that by auto
qed

text \<open>A jump of chain \<open>i\<close> that leads to a finished regular chain of the same table, nested less deep.\<close>

definition jump_done :: "network_filter \<Rightarrow> visit \<Rightarrow> nat \<Rightarrow> filter_verdict \<Rightarrow> bool" where
  "jump_done f vi i v \<longleftrightarrow> is_jump v \<longrightarrow> (\<exists>t. chain_index f (fv_target v) = Some t
     \<and> fc_table (nf_chains f ! t) = fc_table (nf_chains f ! i) \<and> fc_hook (nf_chains f ! t) < 0
     \<and> vi_state vi ! t = 2 \<and> vi_height vi ! t < vi_height vi ! i)"

definition expressions_done :: "network_filter \<Rightarrow> visit \<Rightarrow> nat \<Rightarrow> filter_expression list \<Rightarrow> bool" where
  "expressions_done f vi i es \<longleftrightarrow>
     (\<forall>e \<in> set es. \<not> missing_set f i e \<and> (\<forall>v \<in> set (verdicts_of f e). jump_done f vi i v))"

definition visit_ok :: "network_filter \<Rightarrow> visit \<Rightarrow> bool" where
  "visit_ok f vi \<longleftrightarrow> length (vi_state vi) = 256 \<and> length (vi_height vi) = 256
     \<and> (\<forall>i < length (nf_chains f). vi_state vi ! i \<le> 2 \<and> (vi_state vi ! i = 0 \<longrightarrow> vi_height vi ! i = 0)
          \<and> (vi_state vi ! i = 2 \<longrightarrow> expressions_done f vi i (chain_expressions f (nf_chains f ! i))))"

text \<open>Visited chains are not touched again, except the one being visited by itself.\<close>

definition visit_frame :: "visit \<Rightarrow> visit \<Rightarrow> bool" where
  "visit_frame vi vi' \<longleftrightarrow> (\<forall>i. vi_state vi ! i \<noteq> 0 \<longrightarrow> vi_state vi' ! i = vi_state vi ! i \<and> vi_height vi' ! i = vi_height vi ! i)"

lemma visit_frame_refl: "visit_frame vi vi"
  by (simp add: visit_frame_def)

lemma visit_frame_trans: "visit_frame a b \<Longrightarrow> visit_frame b c \<Longrightarrow> visit_frame a c"
  unfolding visit_frame_def by metis

text \<open>What a call on a chain guarantees when it succeeds with \<open>levels\<close> to go.\<close>

definition call_spec :: "network_filter \<Rightarrow> nat \<Rightarrow> (nat \<Rightarrow> visit \<Rightarrow> errno option \<times> visit) \<Rightarrow> bool" where
  "call_spec f levels call \<longleftrightarrow> (\<forall>t vi vi'. t < length (nf_chains f) \<longrightarrow> visit_ok f vi \<longrightarrow> call t vi = (None, vi') \<longrightarrow>
     visit_ok f vi' \<and> visit_frame vi vi' \<and> vi_state vi' ! t = 2 \<and> vi_height vi' ! t < levels)"

text \<open>Frame of the loops inside a visit of \<open>i\<close>, whose own height may grow.\<close>

definition inner_frame :: "nat \<Rightarrow> visit \<Rightarrow> visit \<Rightarrow> bool" where
  "inner_frame i vi vi' \<longleftrightarrow> (\<forall>j. vi_state vi ! j \<noteq> 0 \<longrightarrow> vi_state vi' ! j = vi_state vi ! j \<and> (j \<noteq> i \<longrightarrow> vi_height vi' ! j = vi_height vi ! j))
     \<and> vi_height vi ! i \<le> vi_height vi' ! i"

lemma inner_frame_trans: "inner_frame i a b \<Longrightarrow> inner_frame i b c \<Longrightarrow> inner_frame i a c"
  unfolding inner_frame_def by (metis order.trans)

lemma jump_done_frame:
  assumes "inner_frame i vi vi'" "vi_state vi ! i = 1" "jump_done f vi i v"
  shows "jump_done f vi' i v"
  unfolding jump_done_def
proof
  assume "is_jump v"
  then obtain t where t: "chain_index f (fv_target v) = Some t" "fc_table (nf_chains f ! t) = fc_table (nf_chains f ! i)"
      "fc_hook (nf_chains f ! t) < 0" "vi_state vi ! t = 2" "vi_height vi ! t < vi_height vi ! i"
    using assms(3) by (auto simp: jump_done_def)
  have "t \<noteq> i" using t(4) assms(2) by auto
  hence "vi_state vi' ! t = 2" "vi_height vi' ! t = vi_height vi ! t" "vi_height vi ! i \<le> vi_height vi' ! i"
    using assms(1) t(4) by (simp_all add: inner_frame_def)
  thus "\<exists>t. chain_index f (fv_target v) = Some t \<and> fc_table (nf_chains f ! t) = fc_table (nf_chains f ! i)
      \<and> fc_hook (nf_chains f ! t) < 0 \<and> vi_state vi' ! t = 2 \<and> vi_height vi' ! t < vi_height vi' ! i"
    using t by auto
qed

lemma expressions_done_finished:
  assumes "\<And>t. vi_state vi ! t = 2 \<Longrightarrow> vi_state vi' ! t = 2 \<and> vi_height vi' ! t = vi_height vi ! t"
    and "vi_state vi ! j = 2" "expressions_done f vi j es"
  shows "expressions_done f vi' j es"
  using assms unfolding expressions_done_def jump_done_def by metis

text \<open>State of the loops while chain \<open>i\<close> is visited, with the bound on its height.\<close>

definition visiting :: "network_filter \<Rightarrow> nat \<Rightarrow> nat \<Rightarrow> visit \<Rightarrow> bool" where
  "visiting f levels i vi \<longleftrightarrow> visit_ok f vi \<and> i < length (nf_chains f) \<and> length (nf_chains f) \<le> 256
     \<and> vi_state vi ! i = 1 \<and> vi_height vi ! i \<le> levels"

lemma raise_height:
  assumes vis: "visiting f levels i vi" and h: "h \<le> levels"
  defines "vi' \<equiv> (if h > vi_height vi ! i then vi\<lparr>vi_height := (vi_height vi)[i := h]\<rparr> else vi)"
  shows "visiting f levels i vi'" "inner_frame i vi vi'" "h \<le> vi_height vi' ! i"
proof -
  have len: "i < 256" "length (vi_height vi) = 256" using vis by (auto simp: visiting_def visit_ok_def)
  show fr: "inner_frame i vi vi'" "h \<le> vi_height vi' ! i"
    using len by (auto simp: inner_frame_def vi'_def)
  have same: "vi_state vi' = vi_state vi" "\<And>j. j \<noteq> i \<Longrightarrow> vi_height vi' ! j = vi_height vi ! j"
    by (simp_all add: vi'_def)
  have "i \<noteq> t" if "vi_state vi ! t = 2" for t
    using that vis by (auto simp: visiting_def)
  hence "expressions_done f vi' j es" if "expressions_done f vi j es" "vi_state vi ! j = 2" for j es
    using expressions_done_finished [of vi vi' j f es] that same by metis
  moreover have "length (vi_height vi') = 256" using len by (simp add: vi'_def)
  ultimately show "visiting f levels i vi'"
    using vis same len h by (auto simp: visiting_def visit_ok_def vi'_def nth_list_update)
qed

lemma verdicts_spec:
  assumes "call_spec f levels call" "visiting f levels i vi" "validate_verdicts call f i vs vi = (None, vi')"
  shows "visiting f levels i vi' \<and> inner_frame i vi vi' \<and> (\<forall>v \<in> set vs. jump_done f vi' i v)"
  using assms(2,3)
proof (induction vs arbitrary: vi)
  case Nil
  thus ?case by (simp add: inner_frame_def)
next
  case (Cons v vs)
  show ?case
  proof (cases "is_jump v")
    case False
    thus ?thesis using Cons by (auto simp: jump_done_def)
  next
    case True
    obtain t where t: "chain_index f (fv_target v) = Some t" "fc_table (nf_chains f ! t) = fc_table (nf_chains f ! i)"
        "fc_hook (nf_chains f ! t) < 0"
      using Cons.prems(2) True by (auto split: option.splits if_splits)
    obtain vi1 where c: "call t vi = (None, vi1)"
      using Cons.prems(2) True t by (auto split: prod.splits option.splits)
    have spec: "visit_ok f vi1" "visit_frame vi vi1" "vi_state vi1 ! t = 2" "vi_height vi1 ! t < levels"
      using assms(1) c chain_index_Some(1) [OF t(1)] Cons.prems(1) unfolding call_spec_def visiting_def by blast+
    have vis1: "visiting f levels i vi1"
      using spec Cons.prems(1) by (simp add: visiting_def visit_frame_def)
    let ?h = "vi_height vi1 ! t + 1"
    define vi2 where "vi2 = (if ?h > vi_height vi1 ! i then vi1\<lparr>vi_height := (vi_height vi1)[i := ?h]\<rparr> else vi1)"
    have up: "visiting f levels i vi2" "inner_frame i vi1 vi2" "?h \<le> vi_height vi2 ! i"
      using raise_height [OF vis1, of ?h] spec(4) by (simp_all add: vi2_def)
    have fr: "inner_frame i vi vi1"
      using spec(2) Cons.prems(1) by (auto simp: inner_frame_def visit_frame_def visiting_def)
    have "t \<noteq> i" using spec(3) vis1 by (auto simp: visiting_def)
    hence d: "jump_done f vi2 i v"
      using t spec(3) up(2,3) by (auto simp: jump_done_def inner_frame_def)
    have "validate_verdicts call f i vs vi2 = (None, vi')"
      using Cons.prems(2) True t c by (auto simp: Let_def vi2_def)
    hence rest: "visiting f levels i vi' \<and> inner_frame i vi2 vi' \<and> (\<forall>v \<in> set vs. jump_done f vi' i v)"
      using Cons.IH up(1) by simp
    have "jump_done f vi' i v"
      by (rule jump_done_frame [OF _ _ d]) (use rest up(1) in \<open>simp_all add: visiting_def\<close>)
    moreover have "inner_frame i vi vi'"
      using inner_frame_trans [OF fr inner_frame_trans [OF up(2)]] rest by simp
    ultimately show ?thesis using rest by simp
  qed
qed

lemma expressions_done_mono:
  assumes "vi_height vi' = vi_height vi" "\<And>t. vi_state vi ! t = 2 \<Longrightarrow> vi_state vi' ! t = 2" "expressions_done f vi j es"
  shows "expressions_done f vi' j es"
  using assms unfolding expressions_done_def jump_done_def by metis

lemma visit_ok_state:
  assumes ok: "visit_ok f vi" and i: "i < length (nf_chains f)" "length (nf_chains f) \<le> 256"
    and v: "vi_state vi ! i \<noteq> 2" "v = 1 \<or> v = 2 \<and> expressions_done f vi i (chain_expressions f (nf_chains f ! i))"
  shows "visit_ok f (vi\<lparr>vi_state := (vi_state vi)[i := v]\<rparr>)"
proof -
  let ?vi = "vi\<lparr>vi_state := (vi_state vi)[i := v]\<rparr>"
  have len: "i < length (vi_state vi)" using ok i by (auto simp: visit_ok_def)
  have keep: "vi_state ?vi ! t = 2" if "vi_state vi ! t = 2" for t
    using that v by (cases "t = i") auto
  have "expressions_done f ?vi j (chain_expressions f (nf_chains f ! j))"
    if "j < length (nf_chains f)" "vi_state ?vi ! j = 2" for j
  proof (cases "j = i")
    case True
    hence "v = 2" using that len by simp
    thus ?thesis using True v keep expressions_done_mono [of ?vi vi f i] by auto
  next
    case False
    hence "expressions_done f vi j (chain_expressions f (nf_chains f ! j))"
      using that ok by (auto simp: visit_ok_def)
    thus ?thesis using keep expressions_done_mono [of ?vi vi f j] by auto
  qed
  thus ?thesis
    using ok v len by (auto simp: visit_ok_def nth_list_update)
qed

lemma expressions_spec:
  assumes "call_spec f levels call" "visiting f levels i vi" "validate_expressions call f i es vi = (None, vi')"
  shows "visiting f levels i vi' \<and> inner_frame i vi vi' \<and> expressions_done f vi' i es"
  using assms(2,3)
proof (induction es arbitrary: vi)
  case Nil
  thus ?case by (simp add: inner_frame_def expressions_done_def)
next
  case (Cons e es)
  obtain vi1 where v: "validate_verdicts call f i (verdicts_of f e) vi = (None, vi1)" "\<not> missing_set f i e"
      and r: "validate_expressions call f i es vi1 = (None, vi')"
    using Cons.prems(2) by (auto split: prod.splits option.splits if_splits)
  have a: "visiting f levels i vi1" "inner_frame i vi vi1" "\<forall>v \<in> set (verdicts_of f e). jump_done f vi1 i v"
    using verdicts_spec [OF assms(1) Cons.prems(1) v(1)] by auto
  have b: "visiting f levels i vi'" "inner_frame i vi1 vi'" "expressions_done f vi' i es"
    using Cons.IH [OF a(1) r] by auto
  have "\<forall>v \<in> set (verdicts_of f e). jump_done f vi' i v"
    using a jump_done_frame [OF b(2)] by (simp add: visiting_def)
  thus ?case using b v(2) inner_frame_trans [OF a(2) b(2)] by (simp add: expressions_done_def)
qed

lemma validate_chain_spec:
  assumes "length (nf_chains f) \<le> 256" "levels \<le> 17"
  shows "call_spec f levels (validate_chain levels f)"
  using assms(2)
proof (induction levels)
  case 0
  show ?case by (simp add: call_spec_def)
next
  case (Suc n)
  show ?case
    unfolding call_spec_def
  proof (intro allI impI)
    fix i vi vi'
    assume i: "i < length (nf_chains f)" and ok: "visit_ok f vi" and run: "validate_chain (Suc n) f i vi = (None, vi')"
    show "visit_ok f vi' \<and> visit_frame vi vi' \<and> vi_state vi' ! i = 2 \<and> vi_height vi' ! i < Suc n"
    proof (cases "vi_state vi ! i = 2")
      case True
      hence "vi' = vi" "\<not> 16 - n + vi_height vi ! i > 16" using run by (auto split: if_splits)
      thus ?thesis using True ok Suc.prems by (simp add: visit_frame_refl)
    next
      case False
      let ?vi0 = "vi\<lparr>vi_state := (vi_state vi)[i := 1]\<rparr>"
      have ne: "vi_state vi ! i \<noteq> 1" using run by auto
      obtain vi1 where e: "validate_expressions (validate_chain n f) f i (chain_expressions f (nf_chains f ! i)) ?vi0 = (None, vi1)"
          and vi': "vi' = vi1\<lparr>vi_state := (vi_state vi1)[i := 2]\<rparr>"
        using run False ne by (auto split: prod.splits option.splits)
      have len: "i < 256" "length (vi_state vi) = 256" using i assms(1) ok by (auto simp: visit_ok_def)
      have zero: "vi_state vi ! i = 0" "vi_height vi ! i = 0"
        using ok i False ne by (auto simp: visit_ok_def)
      have vis0: "visiting f n i ?vi0"
        using visit_ok_state [OF ok i assms(1), of 1] zero i assms(1) len by (simp add: visiting_def)
      have vis1: "visiting f n i vi1" "inner_frame i ?vi0 vi1" "expressions_done f vi1 i (chain_expressions f (nf_chains f ! i))"
        using expressions_spec [OF Suc.IH vis0 e] Suc.prems by auto
      have "visit_ok f vi'"
        unfolding vi' by (rule visit_ok_state) (use vis1 in \<open>auto simp: visiting_def\<close>)
      moreover have "visit_frame vi vi'"
        unfolding visit_frame_def
      proof (intro allI impI)
        fix j
        assume j: "vi_state vi ! j \<noteq> 0"
        hence "j \<noteq> i" using zero(1) by auto
        thus "vi_state vi' ! j = vi_state vi ! j \<and> vi_height vi' ! j = vi_height vi ! j"
          using vis1(2) j by (simp add: inner_frame_def vi')
      qed
      moreover have "vi_state vi' ! i = 2" "vi_height vi' ! i < Suc n"
        using vis1(1) len by (auto simp: vi' visiting_def visit_ok_def)
      ultimately show ?thesis by simp
    qed
  qed
qed

lemma validate_chains_spec:
  assumes "length (nf_chains f) \<le> 256" "visit_ok f vi" "\<forall>i \<in> set is. i < length (nf_chains f)"
    "validate_chains f is vi = (None, vi')"
  shows "visit_ok f vi' \<and> visit_frame vi vi' \<and> (\<forall>i \<in> set is. vi_state vi' ! i = 2 \<and> vi_height vi' ! i \<le> 16)"
  using assms(2-4)
proof (induction "is" arbitrary: vi)
  case Nil
  thus ?case by (simp add: visit_frame_refl)
next
  case (Cons i js)
  obtain vi1 where a: "validate_chain 17 f i vi = (None, vi1)" and b: "validate_chains f js vi1 = (None, vi')"
    using Cons.prems(3) by (auto split: prod.splits option.splits)
  have one: "visit_ok f vi1" "visit_frame vi vi1" "vi_state vi1 ! i = 2" "vi_height vi1 ! i < 17"
    using validate_chain_spec [OF assms(1), of 17] a Cons.prems(1,2) unfolding call_spec_def by auto
  have two: "visit_ok f vi'" "visit_frame vi1 vi'" "\<forall>i \<in> set js. vi_state vi' ! i = 2 \<and> vi_height vi' ! i \<le> 16"
    using Cons.IH [OF one(1) _ b] Cons.prems(2) by auto
  have "vi_state vi' ! i = 2" "vi_height vi' ! i \<le> 16" using two(2) one(3,4) by (simp_all add: visit_frame_def)
  thus ?case using two visit_frame_trans [OF one(2) two(2)] by simp
qed

text \<open>
  The nesting a valid ruleset has: a height for every chain, at most sixteen, that falls along every
  jump; every jump leads to a regular chain of the same table and every set referred to exists.
\<close>

definition nesting_ok :: "network_filter \<Rightarrow> (nat \<Rightarrow> nat) \<Rightarrow> bool" where
  "nesting_ok f height \<longleftrightarrow> (\<forall>i < length (nf_chains f). height i \<le> 16
     \<and> (\<forall>e \<in> set (chain_expressions f (nf_chains f ! i)). \<not> missing_set f i e
         \<and> (\<forall>v \<in> set (verdicts_of f e). is_jump v \<longrightarrow> (\<exists>t. chain_index f (fv_target v) = Some t
              \<and> fc_table (nf_chains f ! t) = fc_table (nf_chains f ! i) \<and> fc_hook (nf_chains f ! t) < 0 \<and> height t < height i))))"

lemma validate_nesting:
  assumes "md_filter_validate f = None" "length (nf_chains f) \<le> 256"
  shows "\<exists>height. nesting_ok f height"
proof -
  let ?vi = "\<lparr>vi_state = replicate 256 0, vi_height = replicate 256 0\<rparr>"
  obtain vi' where run: "validate_chains f [0..<length (nf_chains f)] ?vi = (None, vi')"
    using assms(1) by (auto simp: md_filter_validate_def split: option.splits prod.splits)
  have "visit_ok f ?vi" using assms(2) by (auto simp: visit_ok_def)
  hence ok: "visit_ok f vi'" "\<forall>i < length (nf_chains f). vi_state vi' ! i = 2 \<and> vi_height vi' ! i \<le> 16"
    using validate_chains_spec [OF assms(2) _ _ run] by auto
  have "nesting_ok f ((!) (vi_height vi'))"
    using ok unfolding nesting_ok_def visit_ok_def expressions_done_def jump_done_def by blast
  thus ?thesis by blast
qed

lemma elements_sorted:
  assumes "validate_elements s es = None" "\<forall>e \<in> set es. fs_key_size s \<le> length (el_key e)"
  shows "sorted_wrt (element_less (fs_key_size s)) es"
proof -
  let ?n = "fs_key_size s"
  have adj: "\<forall>i. Suc i < length es \<longrightarrow> element_less ?n (es ! i) (es ! Suc i)"
    using assms(1)
  proof (induction s es rule: validate_elements.induct)
    case (1 s a b es)
    have ab: "element_less (fs_key_size s) a b" and rest: "validate_elements s (b # es) = None"
      using 1(2) by (auto simp: Let_def element_less_def not_le split: if_splits)
    show ?case using 1(1) 1(2) ab rest by (auto simp: Let_def less_Suc_eq_0_disj nth_Cons split: if_splits nat.split)
  qed auto
  have trans: "element_less ?n a c" if "element_less ?n a b" "element_less ?n b c" "a \<in> set es" "b \<in> set es" "c \<in> set es" for a b c
    using that assms(2) by (auto simp: element_less_iff)
  have "element_less ?n (es ! i) (es ! j)" if "i < j" "j < length es" for i j
    using that
  proof (induction j)
    case (Suc j)
    show ?case
    proof (cases "i = j")
      case False
      thus ?thesis
        using Suc adj trans [of "es ! i" "es ! j" "es ! Suc j"] by simp
    qed (use Suc adj in simp)
  qed simp
  thus ?thesis by (simp add: sorted_wrt_iff_nth_less)
qed

lemma first_error_None: "first_error xs = None \<longleftrightarrow> (\<forall>x \<in> set xs. x = None)"
  by (induction xs rule: first_error.induct) auto

lemma validate_sets_ok:
  assumes "md_filter_validate f = None" "s \<in> set (nf_sets f)" "\<forall>e \<in> set (fs_elements s). fs_key_size s \<le> length (el_key e)"
  shows "set_ok s"
  using assms elements_sorted [of s "fs_elements s"]
  by (auto simp: md_filter_validate_def set_ok_def first_error_None split: option.splits)

end
