(* ===== verification/Filter_Program.thy ===== *)
theory Filter_Program
  imports Filter_Validate "HOL-Library.Product_Lexorder"
begin

text \<open>
  Evaluation of a ruleset on a packet: the second half of
  \<^verbatim>\<open>src/native/shroot/src/network_filter_program.c\<close>. The rate limiters, which the code keeps inside
  the rules, are a separate component of the evaluation state, addressed by rule and expression;
  the rest of the ruleset does not change. Clock, random numbers, routing, source port allocation
  and logging are supplied by an environment. Registers and multi-byte values are little-endian,
  as on the ABIs the runtime is built for.
\<close>

unbundle bit_operations_syntax

section \<open>Bytes\<close>

definition ntohs :: "u16 \<Rightarrow> u16" where
  "ntohs x = push_bit 8 x OR drop_bit 8 x"

definition native16 :: "u16 \<Rightarrow> u8 list" where
  "native16 x = [ucast x, ucast (drop_bit 8 x)]"

definition native32 :: "u32 \<Rightarrow> u8 list" where
  "native32 x = [ucast x, ucast (drop_bit 8 x), ucast (drop_bit 16 x), ucast (drop_bit 24 x)]"

definition load16 :: "u8 list \<Rightarrow> u16" where
  "load16 bs = ucast (bs ! 0) OR push_bit 8 (ucast (bs ! 1))"

definition load32 :: "u8 list \<Rightarrow> u32" where
  "load32 bs = ucast (bs ! 0) OR push_bit 8 (ucast (bs ! 1)) OR push_bit 16 (ucast (bs ! 2)) OR push_bit 24 (ucast (bs ! 3))"

text \<open>\<open>memcpy\<close> into a register file, and the size of an operand rounded up to whole registers.\<close>

definition put_bytes :: "nat \<Rightarrow> u8 list \<Rightarrow> u8 list \<Rightarrow> u8 list" where
  "put_bytes off bs regs = take off regs @ bs @ drop (off + length bs) regs"

definition pad4 :: "nat \<Rightarrow> nat" where "pad4 n = (n + 3) div 4 * 4"

definition put_padded :: "nat \<Rightarrow> nat \<Rightarrow> u8 list \<Rightarrow> u8 list \<Rightarrow> u8 list" where
  "put_padded off n bs regs = put_bytes off (take n bs @ replicate (pad4 n - n) 0) regs"

section \<open>Packets and the environment\<close>

datatype counter_cell = Expression_Counter nat nat | Chain_Counter nat

record route_result =
  rr_type :: u32
  rr_interface :: u32
  rr_name :: "u8 list"

record filter_packet =
  fp_source :: ip_address
  fp_destination :: ip_address
  fp_source_port :: u16
  fp_destination_port :: u16
  fp_protocol :: u32
  fp_state :: u32
  fp_mark :: u32
  fp_ctmark :: u32
  fp_status :: u32
  fp_input :: u32
  fp_output :: u32
  fp_fib_type :: u32
  fp_source_fib_type :: u32
  fp_packet_type :: u32
  fp_rejection :: rejection
  fp_transport :: "u8 list"
  fp_transport_size :: nat
  fp_input_name :: "u8 list"
  fp_output_name :: "u8 list"
  fp_physical :: "u32 list"
  fp_bridged :: bool
  fp_physical_name :: "u8 list list"
  fp_snat :: bool
  fp_dnat :: bool
  fp_masquerade :: bool
  fp_masquerade_address :: ip_address
  fp_accounting :: "(counter_cell list \<times> nat) option" \<comment> \<open>cells and capacity\<close>
  fp_unmediated :: bool
  fp_hook :: nat

record filter_rewrite =
  rw_source :: ip_address
  rw_destination :: ip_address
  rw_fib_type :: u32
  rw_source_fib_type :: u32
  rw_source_port :: u16
  rw_destination_port :: u16
  rw_priority :: int

record filter_env =
  en_now :: "nat \<Rightarrow> u64" \<comment> \<open>the n-th reading of the monotonic clock, in nanoseconds\<close>
  en_random :: "nat \<Rightarrow> u32 \<Rightarrow> u32" \<comment> \<open>the n-th random number below a bound\<close>
  en_realloc :: bool
  en_route :: "(filter_packet \<Rightarrow> u32 \<Rightarrow> route_result) option"
  en_source_nat :: "(filter_packet \<Rightarrow> u16 \<Rightarrow> u16 \<Rightarrow> int \<times> filter_packet) option"
  en_log :: bool

record eval_state =
  ev_packet :: filter_packet
  ev_limits :: "nat \<Rightarrow> nat \<Rightarrow> filter_limit"
  ev_samples :: nat
  ev_logged :: "(filter_packet \<times> filter_log) list"

fun errno_number :: "errno \<Rightarrow> int" where
  "errno_number EPERM = 1" | "errno_number ENOENT = 2" | "errno_number ESRCH = 3" | "errno_number EINTR = 4"
| "errno_number EIO = 5" | "errno_number E2BIG = 7" | "errno_number ENOEXEC = 8" | "errno_number EBADF = 9"
| "errno_number EAGAIN = 11" | "errno_number ENOMEM = 12" | "errno_number EACCES = 13" | "errno_number EFAULT = 14"
| "errno_number EBUSY = 16" | "errno_number EEXIST = 17" | "errno_number EINVAL = 22" | "errno_number EFBIG = 27"
| "errno_number ENOSPC = 28" | "errno_number ERANGE = 34" | "errno_number ENAMETOOLONG = 36" | "errno_number ELOOP = 40"
| "errno_number ENOMSG = 42" | "errno_number EIDRM = 43" | "errno_number ENODATA = 61" | "errno_number EPROTO = 71"
| "errno_number ENOPROTOOPT = 92" | "errno_number EOPNOTSUPP = 95" | "errno_number ENOTSUP = 95"
| "errno_number EAFNOSUPPORT = 97" | "errno_number ENETUNREACH = 101" | "errno_number ECONNREFUSED = 111"
| "errno_number EHOSTUNREACH = 113"

text \<open>The verdict an error number is returned as.\<close>

definition neg :: "errno \<Rightarrow> int" where "neg e = - errno_number e"

section \<open>Matches and statements\<close>

definition account_counter :: "filter_env \<Rightarrow> counter_cell \<Rightarrow> eval_state \<Rightarrow> int \<times> eval_state" where
  "account_counter en cell ev =
     (let p = ev_packet ev in
      if fp_unmediated p then (0, ev)
      else case fp_accounting p of
        None \<Rightarrow> (0, ev)
      | Some (cells, cap) \<Rightarrow>
         (case md_filter_reserve (en_realloc en) cap (length cells + 1) 1024 of
            Inl e \<Rightarrow> (neg e, ev)
          | Inr cap' \<Rightarrow> (0, ev\<lparr>ev_packet := p\<lparr>fp_accounting := Some (cells @ [cell], cap')\<rparr>\<rparr>)))"

definition reverse_path :: "filter_env \<Rightarrow> filter_packet \<Rightarrow> u32 \<Rightarrow> bool" where
  "reverse_path en p flags =
     (if fp_input p = 0 then False
      else if fp_input p = 1 then True
      else if md_ip_unspecified (fp_source p)
          \<and> (ip_family (fp_source p) = AF_INET6 \<or> fp_packet_type p = 1 \<or> fp_packet_type p = 2) then True
      else case en_route en of
        None \<Rightarrow> False
      | Some route \<Rightarrow>
          let query = NFTA_FIB_F_SADDR;
              query = (if flags AND 1 = 0 \<or> md_ip_linklocal (fp_source p) then query OR NFTA_FIB_F_IIF else query);
              query = (if flags AND 2 \<noteq> 0 then query OR NFTA_FIB_F_MARK else query);
              r = route p query
          in if rr_type r \<noteq> 1 \<and> \<not> (rr_type r = 2 \<and> flags AND 4 \<noteq> 0) then False else rr_interface r \<noteq> 0)"

text \<open>The source ports a translation may use: the range of the rule, or the class of the port.\<close>

definition nat_range :: "filter_expression \<Rightarrow> u8 list \<Rightarrow> u16 \<Rightarrow> u16 \<times> u16" where
  "nat_range e regs port =
     (if fe_aux e \<noteq> 0 then
        let low = (if fe_constant e \<noteq> 0 then fe_nat_port e else load16 (drop (fe_src e) regs));
            high = (if fe_port_range e \<noteq> 0 then
                      if fe_constant e \<noteq> 0 then ucast (fe_port_max e) else load16 (drop (unat (fe_port_max e)) regs)
                    else low)
        in (ntohs low, ntohs high)
      else (if port < 512 then 1 else if port < 1024 then 600 else 1024,
            if port < 512 then 511 else if port < 1024 then 1023 else 65535))"

definition source_nat :: "filter_env \<Rightarrow> filter_expression \<Rightarrow> u8 list \<Rightarrow> eval_state \<Rightarrow> int \<times> eval_state" where
  "source_nat en e regs ev =
     (let p = ev_packet ev in
      if fp_protocol p \<noteq> IPPROTO_TCP \<and> fp_protocol p \<noteq> IPPROTO_UDP
      then (if fe_aux e \<noteq> 0 \<or> fe_nat_flags e \<noteq> 0 then neg EOPNOTSUPP else 0, ev)
      else
        let port = ntohs (fp_source_port p); (low, high) = nat_range e regs port in
        if fe_aux e \<noteq> 0 \<and> low > high then (neg EINVAL, ev)
        else
          let drawn = low + ucast (en_random en (ev_samples ev) (ucast high - ucast low + 1));
              (port, p, n) = (if fe_nat_flags e \<noteq> 0
                 then (drawn, p\<lparr>fp_source_port := ntohs drawn\<rparr>, Suc (ev_samples ev)) else (port, p, ev_samples ev));
              ev = ev\<lparr>ev_packet := p, ev_samples := n\<rparr>
          in case en_source_nat en of
               Some call \<Rightarrow> (case call p low high of (r, q) \<Rightarrow> (r, ev\<lparr>ev_packet := q\<rparr>))
             | None \<Rightarrow> (0, if port < low \<or> port > high then ev\<lparr>ev_packet := p\<lparr>fp_source_port := ntohs low\<rparr>\<rparr> else ev))"

definition same_name :: "u8 list \<Rightarrow> u8 list \<Rightarrow> u8 list \<Rightarrow> bool" where
  "same_name name want msk \<longleftrightarrow> (\<forall>k \<in> set [0..<16]. ((name ! k) XOR (want ! k)) AND (msk ! k) = 0)"

definition physdev_observed :: "filter_packet \<Rightarrow> filter_physdev \<Rightarrow> u32" where
  "physdev_observed p v =
     (let at = (\<lambda>i. fp_physical p ! i \<noteq> 0 \<and> same_name (fp_physical_name p ! i) (pd_names v ! i) (pd_masks v ! i)) in
      (if fp_physical p ! 0 \<noteq> 0 then 8 else 0) OR (if fp_physical p ! 1 \<noteq> 0 then 16 else 0)
      OR (if fp_bridged p then 4 else 0) OR (if at 0 then 1 else 0) OR (if at 1 then 2 else 0))"

definition physdev_matches :: "filter_packet \<Rightarrow> filter_physdev \<Rightarrow> bool" where
  "physdev_matches p v \<longleftrightarrow> (physdev_observed p v XOR pd_invert v) AND pd_flags v = pd_flags v"

text \<open>One draw of the token bucket at a reading of the clock.\<close>

definition limit_refill :: "filter_limit \<Rightarrow> u64 \<Rightarrow> u64" where
  "limit_refill l now =
     (let elapsed = (if now \<ge> lim_previous l then now - lim_previous l else 0)
      in if elapsed \<ge> lim_capacity l - lim_credit l then lim_capacity l else lim_credit l + elapsed)"

definition limit_step :: "filter_limit \<Rightarrow> u64 \<Rightarrow> bool \<times> filter_limit" where
  "limit_step l now =
     (let credit = limit_refill l now; ok = (credit \<ge> lim_cost l)
      in (ok, l\<lparr>lim_credit := (if ok then credit - lim_cost l else credit), lim_previous := now\<rparr>))"

definition icmp_matches :: "filter_packet \<Rightarrow> filter_expression \<Rightarrow> bool" where
  "icmp_matches p e \<longleftrightarrow>
     (let v = fe_value e; t = fp_transport p;
          m = (fe_key e = IPPROTO_ICMP \<and> v ! 0 = 255) \<or> (t ! 0 = v ! 0 \<and> t ! 1 \<ge> v ! 1 \<and> t ! 1 \<le> v ! 2)
      in fp_protocol p = fe_key e \<and> fp_transport_size p \<ge> 2 \<and> (m \<noteq> (v ! 3 \<noteq> 0)))"

definition transport_matches :: "filter_packet \<Rightarrow> filter_transport \<Rightarrow> bool" where
  "transport_matches p t \<longleftrightarrow> fp_protocol p = tr_protocol t
     \<and> md_filter_port_matches (unat (ntohs (fp_source_port p))) (tr_source t) (tr_inversion t AND MD_FILTER_INVERT_SOURCE \<noteq> 0)
     \<and> md_filter_port_matches (unat (ntohs (fp_destination_port p))) (tr_destination t) (tr_inversion t AND MD_FILTER_INVERT_DESTINATION \<noteq> 0)"

definition multiport_matches :: "filter_packet \<Rightarrow> filter_multiport \<Rightarrow> bool" where
  "multiport_matches p m \<longleftrightarrow>
     (let hit = (mu_direction m \<noteq> 1 \<and> md_filter_multiport_contains m (unat (ntohs (fp_source_port p))))
             \<or> (mu_direction m \<noteq> 0 \<and> md_filter_multiport_contains m (unat (ntohs (fp_destination_port p))))
      in (fp_protocol p = IPPROTO_TCP \<or> fp_protocol p = IPPROTO_UDP) \<and> (hit \<noteq> (mu_invert m \<noteq> 0)))"

definition network_header :: "filter_packet \<Rightarrow> u8 list" where
  "network_header p =
     (let proto = (ucast (fp_protocol p) :: u8) in
      if ip_family (fp_destination p) = AF_INET6
      then [0x60, 0, 0, 0, 0, 0, proto, 0] @ take 16 (ip_bytes (fp_source p)) @ take 16 (ip_bytes (fp_destination p))
      else [0x45, 0, 0, 0, 0, 0, 0, 0, 0, proto, 0, 0] @ take 4 (ip_bytes (fp_source p)) @ take 4 (ip_bytes (fp_destination p))
           @ replicate 20 0)"

text \<open>The bytes a payload expression loads, \<open>None\<close> where the packet has too few.\<close>

definition payload_load :: "filter_packet \<Rightarrow> filter_expression \<Rightarrow> u8 list option" where
  "payload_load p e =
     (let aux = unat (fe_aux e); n = fe_size e; net = (fe_key e = NFT_PAYLOAD_NETWORK_HEADER);
          ports = (fp_protocol p = IPPROTO_TCP \<or> fp_protocol p = IPPROTO_UDP);
          hdr = (if net then network_header p
                    else if ports then native16 (fp_source_port p) @ native16 (fp_destination_port p) @ replicate 36 0
                    else take (fp_transport_size p) (fp_transport p) @ replicate (40 - fp_transport_size p) 0);
          bound = (if net then if ip_family (fp_destination p) = AF_INET6 then 40 else 20 else 4)
      in if \<not> net \<and> \<not> ports \<and> aux + n > fp_transport_size p then None
         else if aux + n > bound then None
         else Some (take n (drop aux hdr)))"

definition meta_value :: "filter_packet \<Rightarrow> u32 \<Rightarrow> u32" where
  "meta_value p key =
     (if key = NFT_META_NFPROTO then (if ip_family (fp_destination p) = AF_INET6 then NFPROTO_IPV6 else NFPROTO_IPV4)
      else if key = NFT_META_L4PROTO then fp_protocol p
      else if key = NFT_META_PKTTYPE then fp_packet_type p
      else if key = NFT_META_MARK then fp_mark p
      else if key = NFT_META_IIF then fp_input p
      else if key = NFT_META_OIF then fp_output p
      else 0)"

definition meta_load :: "filter_packet \<Rightarrow> filter_expression \<Rightarrow> u8 list \<Rightarrow> u8 list" where
  "meta_load p e regs =
     (let regs = (if fe_key e = NFT_META_IIFNAME then put_bytes (fe_dst e) (fp_input_name p) regs
                  else if fe_key e = NFT_META_OIFNAME then put_bytes (fe_dst e) (fp_output_name p) regs else regs)
      in if fe_size e \<le> 4 then put_bytes (fe_dst e) (native32 (meta_value p (fe_key e))) regs else regs)"

definition mark_set :: "filter_packet \<Rightarrow> filter_expression \<Rightarrow> u8 list \<Rightarrow> filter_packet" where
  "mark_set p e regs =
     (let meta = (fe_code e = MD_FILTER_META_SET); old = (if meta then fp_mark p else fp_ctmark p);
          v = (if fe_constant e = 2 then (if meta then fp_ctmark p else fp_mark p) AND fe_aux e else load32 (fe_value e));
          m = (if fe_constant e \<noteq> 0 then (old AND NOT (load32 (fe_mask e))) XOR v else load32 (drop (fe_src e) regs))
      in if meta then p\<lparr>fp_mark := m\<rparr> else p\<lparr>fp_ctmark := m\<rparr>)"

definition ct_value :: "filter_packet \<Rightarrow> u32 \<Rightarrow> u32" where
  "ct_value p key = (if key = NFT_CT_STATE then fp_state p else if key = NFT_CT_MARK then fp_ctmark p else fp_status p)"

definition address_type_matches :: "filter_packet \<Rightarrow> filter_expression \<Rightarrow> bool" where
  "address_type_matches p e \<longleftrightarrow>
     (fe_key e = 0 \<or> bit (fe_key e) (unat (fp_source_fib_type p)) \<noteq> (fe_operation e AND MD_FILTER_INVERT_SOURCE \<noteq> 0))
   \<and> (fe_aux e = 0 \<or> bit (fe_aux e) (unat (fp_fib_type p)) \<noteq> (fe_operation e AND MD_FILTER_INVERT_DESTINATION \<noteq> 0))"

definition fib_load :: "filter_env \<Rightarrow> filter_packet \<Rightarrow> filter_expression \<Rightarrow> u8 list \<Rightarrow> u8 list" where
  "fib_load en p e regs =
     (let default = \<lparr>rr_type = (if fe_operation e AND NFTA_FIB_F_SADDR \<noteq> 0 then fp_source_fib_type p else fp_fib_type p),
                     rr_interface = 0, rr_name = replicate 16 0\<rparr>;
          r = (case en_route en of Some route \<Rightarrow> route p (fe_operation e) | None \<Rightarrow> default);
          regs = put_bytes (fe_dst e) (replicate (fe_size e) 0) regs
      in if fe_key e = NFT_FIB_RESULT_ADDRTYPE then put_bytes (fe_dst e) (native32 (rr_type r)) regs
         else if fe_operation e AND NFTA_FIB_F_PRESENT \<noteq> 0
         then put_bytes (fe_dst e) (native32 (if rr_interface r \<noteq> 0 then 1 else 0)) regs
         else if fe_key e = NFT_FIB_RESULT_OIFNAME then put_bytes (fe_dst e) (rr_name r) regs
         else put_bytes (fe_dst e) (native32 (rr_interface r)) regs)"

definition bitwise_load :: "filter_expression \<Rightarrow> u8 list \<Rightarrow> u8 list" where
  "bitwise_load e regs = put_padded (fe_dst e) (fe_size e)
     (map (\<lambda>k. ((regs ! (fe_src e + k)) AND (fe_mask e ! k)) XOR (fe_value e ! k)) [0..<fe_size e]) regs"

text \<open>Address and port rewriting of \<open>MD_FILTER_NAT\<close>.\<close>

definition put_address :: "ip_address \<Rightarrow> u8 list \<Rightarrow> ip_address" where
  "put_address a bs = a\<lparr>ip_bytes := take (md_ip_size a) bs @ drop (md_ip_size a) (ip_bytes a)\<rparr>"

definition nat_operand :: "filter_expression \<Rightarrow> u8 list \<Rightarrow> u8 list" where
  "nat_operand e regs = (if fe_constant e \<noteq> 0 then fe_value e else drop (fe_dst e) regs)"

definition destination_nat :: "filter_expression \<Rightarrow> u8 list \<Rightarrow> filter_packet \<Rightarrow> filter_packet" where
  "destination_nat e regs p =
     (let p = (if fe_key e \<noteq> 0 then p\<lparr>fp_destination := put_address (fp_destination p) (nat_operand e regs)\<rparr> else p);
          p = (if fe_aux e \<noteq> 0 then p\<lparr>fp_destination_port :=
                 (if fe_constant e \<noteq> 0 then fe_nat_port e else load16 (drop (fe_src e) regs))\<rparr> else p)
      in p\<lparr>fp_dnat := True, fp_status := fp_status p OR push_bit 5 1\<rparr>)"

section \<open>Expressions\<close>

text \<open>
  The outcome of an expression: the rule goes on if it matched, with its registers, or the chain
  ends with a verdict.
\<close>

datatype outcome = Step bool "u8 list" eval_state | Verdict int eval_state

definition lookup_set :: "network_filter \<Rightarrow> filter_chain \<Rightarrow> filter_expression \<Rightarrow> filter_set option" where
  "lookup_set f c e = md_filter_set_find (Some f) (fc_table c) None (fe_target e) 0"

definition eval_nat :: "filter_env \<Rightarrow> filter_expression \<Rightarrow> u8 list \<Rightarrow> eval_state \<Rightarrow> outcome" where
  "eval_nat en e regs ev =
     (let p = ev_packet ev in
      if fe_family e \<noteq> 0 \<and> fe_family e \<noteq> ip_family (fp_destination p) then Step False regs ev
      else if fe_operation e = NFT_NAT_DNAT then Verdict NF_ACCEPT (ev\<lparr>ev_packet := destination_nat e regs p\<rparr>)
      else
        let p = (if fe_key e \<noteq> 0 then p\<lparr>fp_source := put_address (fp_source p) (nat_operand e regs)\<rparr> else p)
        in case source_nat en e regs (ev\<lparr>ev_packet := p\<rparr>) of
             (r, ev) \<Rightarrow> if r \<noteq> 0 then Verdict r ev
               else let q = ev_packet ev
                    in Verdict NF_ACCEPT (ev\<lparr>ev_packet := q\<lparr>fp_snat := True, fp_status := fp_status q OR push_bit 4 1\<rparr>\<rparr>))"

definition eval_masquerade :: "filter_env \<Rightarrow> filter_expression \<Rightarrow> u8 list \<Rightarrow> eval_state \<Rightarrow> outcome" where
  "eval_masquerade en e regs ev =
     (let p = ev_packet ev; p = p\<lparr>fp_source := fp_masquerade_address p\<rparr>
      in case source_nat en e regs (ev\<lparr>ev_packet := p\<rparr>) of
           (r, ev) \<Rightarrow> if r \<noteq> 0 then Verdict r ev
             else let q = ev_packet ev
                  in Verdict NF_ACCEPT (ev\<lparr>ev_packet := q\<lparr>fp_snat := True, fp_masquerade := True,
                       fp_status := fp_status q OR push_bit 4 1\<rparr>\<rparr>))"

definition eval_reject :: "filter_expression \<Rightarrow> u8 list \<Rightarrow> eval_state \<Rightarrow> outcome" where
  "eval_reject e regs ev =
     (let p = ev_packet ev; t = reject_type_of (fe_key e) in
      if t = Some MD_REJECT_TCP \<and> fp_protocol p \<noteq> IPPROTO_TCP then Verdict (neg EOPNOTSUPP) ev
      else
        let r = (case t of Some t \<Rightarrow> md_network_reject_resolve t (fe_aux e) (ip_family (fp_destination p)) | None \<Rightarrow> no_rejection)
        in Verdict (neg (md_network_reject_error r)) (ev\<lparr>ev_packet := p\<lparr>fp_rejection := r\<rparr>\<rparr>))"

text \<open>A verdict: \<open>call\<close> evaluates the target of a jump, one level deeper.\<close>

definition eval_verdict ::
  "(filter_chain \<Rightarrow> eval_state \<Rightarrow> int \<times> eval_state) \<Rightarrow> network_filter \<Rightarrow> filter_chain \<Rightarrow> filter_verdict \<Rightarrow> u8 list \<Rightarrow> eval_state \<Rightarrow> outcome" where
  "eval_verdict call f c v regs ev =
     (if is_jump v then
        (case md_filter_chain_find (Some f) (fc_table c) None (fv_target v) 0 of
           None \<Rightarrow> Verdict (neg ENOENT) ev
         | Some target \<Rightarrow>
            (case call target ev of
               (verdict, ev) \<Rightarrow>
                 if verdict \<noteq> NFT_RETURN \<or> sint (fv_operation v) = NFT_GOTO then Verdict verdict ev else Step True regs ev))
      else if sint (fv_operation v) = NFT_BREAK then Step False regs ev
      else if sint (fv_operation v) \<noteq> sint NFT_CONTINUE then Verdict (sint (fv_operation v)) ev
      else Step True regs ev)"

definition eval_expression ::
  "filter_env \<Rightarrow> (filter_chain \<Rightarrow> eval_state \<Rightarrow> int \<times> eval_state) \<Rightarrow> network_filter \<Rightarrow> filter_chain
     \<Rightarrow> nat \<Rightarrow> nat \<Rightarrow> filter_expression \<Rightarrow> u8 list \<Rightarrow> eval_state \<Rightarrow> outcome" where
  "eval_expression en call f c i j e regs ev =
     (let p = ev_packet ev; src = drop (fe_src e) regs in
      case fe_code e of
        MD_FILTER_PHYSDEV \<Rightarrow> Step (physdev_matches p (fe_physdev e)) regs ev
      | MD_FILTER_LIMIT \<Rightarrow>
          if fp_unmediated p then Verdict (neg EBUSY) ev
          else (case limit_step (ev_limits ev i j) (en_now en (ev_samples ev)) of
                  (ok, l) \<Rightarrow> Step ok regs (ev\<lparr>ev_samples := Suc (ev_samples ev),
                              ev_limits := (ev_limits ev)(i := (ev_limits ev i)(j := l))\<rparr>))
      | MD_FILTER_LOG \<Rightarrow>
          if fp_unmediated p then Verdict (neg EBUSY) ev
          else Step True regs (if en_log en then ev\<lparr>ev_logged := ev_logged ev @ [(p, fe_log e)]\<rparr> else ev)
      | MD_FILTER_IPSET \<Rightarrow>
          (case md_filter_set_find (Some f) 0 None (fe_target e) 0 of
             None \<Rightarrow> Verdict (neg ENOENT) ev
           | Some s \<Rightarrow> Step (md_ipset_matches (Some s) (if fe_key e \<noteq> 0 then fp_source p else fp_destination p)
                          \<noteq> (fe_operation e \<noteq> 0)) regs ev)
      | MD_FILTER_REJECT \<Rightarrow> eval_reject e regs ev
      | MD_FILTER_ICMP_MATCH \<Rightarrow> Step (icmp_matches p e) regs ev
      | MD_FILTER_TRANSPORT \<Rightarrow> Step (transport_matches p (fe_transport e)) regs ev
      | MD_FILTER_MULTIPORT \<Rightarrow> Step (multiport_matches p (fe_multiport e)) regs ev
      | MD_FILTER_COUNTER \<Rightarrow>
          (case account_counter en (Expression_Counter i j) ev of
             (r, ev) \<Rightarrow> if r \<noteq> 0 then Verdict r ev else Step True regs ev)
      | MD_FILTER_IMMEDIATE \<Rightarrow> Step True (put_padded (fe_dst e) (fe_size e) (fe_value e) regs) ev
      | MD_FILTER_COMPARE \<Rightarrow>
          Step ((memcmp (fe_size e) src (fe_value e) = 0) = (fe_operation e = NFT_CMP_EQ)) regs ev
      | MD_FILTER_RANGE \<Rightarrow>
          Step ((memcmp (fe_size e) src (fe_value e) \<ge> 0 \<and> memcmp (fe_size e) src (fe_mask e) \<le> 0) = (fe_operation e = NFT_RANGE_EQ)) regs ev
      | MD_FILTER_BITWISE \<Rightarrow> Step True (bitwise_load e regs) ev
      | MD_FILTER_PAYLOAD \<Rightarrow>
          (case payload_load p e of
             None \<Rightarrow> Step False regs ev
           | Some bs \<Rightarrow> Step True (put_padded (fe_dst e) (fe_size e) bs regs) ev)
      | MD_FILTER_META \<Rightarrow> Step True (meta_load p e regs) ev
      | MD_FILTER_META_SET \<Rightarrow> Step True regs (ev\<lparr>ev_packet := mark_set p e regs\<rparr>)
      | MD_FILTER_CT_SET \<Rightarrow> Step True regs (ev\<lparr>ev_packet := mark_set p e regs\<rparr>)
      | MD_FILTER_CT \<Rightarrow> Step True (put_bytes (fe_dst e) (native32 (ct_value p (fe_key e))) regs) ev
      | MD_FILTER_STATE_MATCH \<Rightarrow>
          Step ((fp_state p AND fe_key e \<noteq> 0 \<or> fp_status p AND fe_aux e \<noteq> 0) \<noteq> (fe_operation e \<noteq> 0)) regs ev
      | MD_FILTER_MARK_MATCH \<Rightarrow> Step ((fp_mark p AND fe_aux e = fe_key e) \<noteq> (fe_operation e \<noteq> 0)) regs ev
      | MD_FILTER_CONNMARK_MATCH \<Rightarrow> Step ((fp_ctmark p AND fe_aux e = fe_key e) \<noteq> (fe_operation e \<noteq> 0)) regs ev
      | MD_FILTER_PACKET_TYPE \<Rightarrow> Step ((fp_packet_type p = fe_key e) \<noteq> (fe_operation e \<noteq> 0)) regs ev
      | MD_FILTER_REVERSE_PATH \<Rightarrow> Step (reverse_path en p (fe_key e) \<noteq> (fe_key e AND 8 \<noteq> 0)) regs ev
      | MD_FILTER_ADDRESS_TYPE \<Rightarrow> Step (address_type_matches p e) regs ev
      | MD_FILTER_FIB \<Rightarrow> Step True (fib_load en p e regs) ev
      | MD_FILTER_LOOKUP \<Rightarrow>
          (case lookup_set f c e of
             None \<Rightarrow> Verdict (neg ENOENT) ev
           | Some s \<Rightarrow> Step ((md_filter_set_lookup s src \<noteq> None) \<noteq> (fe_operation e \<noteq> 0)) regs ev)
      | MD_FILTER_DATA_MAP \<Rightarrow>
          (case lookup_set f c e of
             None \<Rightarrow> Verdict (neg ENOENT) ev
           | Some s \<Rightarrow>
              (case md_filter_set_lookup s src of
                 None \<Rightarrow> Step False regs ev
               | Some el \<Rightarrow> Step True (put_padded (fe_dst e) (fs_data_size s) (el_data el) regs) ev))
      | MD_FILTER_NAT \<Rightarrow> eval_nat en e regs ev
      | MD_FILTER_MASQUERADE \<Rightarrow> eval_masquerade en e regs ev
      | MD_FILTER_VERDICT_MAP \<Rightarrow>
          (case lookup_set f c e of
             None \<Rightarrow> Verdict (neg ENOENT) ev
           | Some s \<Rightarrow>
              (case md_filter_set_lookup s src of
                 None \<Rightarrow> Step False regs ev
               | Some el \<Rightarrow> eval_verdict call f c (el_verdict el) regs ev))
      | MD_FILTER_VERDICT \<Rightarrow>
          eval_verdict call f c \<lparr>fv_operation = fe_operation e, fv_target = fe_target e\<rparr> regs ev)"

section \<open>Chains\<close>

text \<open>The expressions of rule \<open>i\<close> from the \<open>j\<close>-th on: \<open>None\<close> when the rule is over.\<close>

fun eval_expressions ::
  "filter_env \<Rightarrow> (filter_chain \<Rightarrow> eval_state \<Rightarrow> int \<times> eval_state) \<Rightarrow> network_filter \<Rightarrow> filter_chain
     \<Rightarrow> nat \<Rightarrow> nat \<Rightarrow> filter_expression list \<Rightarrow> u8 list \<Rightarrow> eval_state \<Rightarrow> int option \<times> eval_state" where
  "eval_expressions en call f c i j [] regs ev = (None, ev)"
| "eval_expressions en call f c i j (e # es) regs ev =
     (case eval_expression en call f c i j e regs ev of
        Verdict v ev \<Rightarrow> (Some v, ev)
      | Step match regs ev \<Rightarrow> if match then eval_expressions en call f c i (Suc j) es regs ev else (None, ev))"

fun eval_rules ::
  "filter_env \<Rightarrow> (filter_chain \<Rightarrow> eval_state \<Rightarrow> int \<times> eval_state) \<Rightarrow> network_filter \<Rightarrow> filter_chain
     \<Rightarrow> (nat \<times> filter_rule) list \<Rightarrow> eval_state \<Rightarrow> int \<times> eval_state" where
  "eval_rules en call f c [] ev = (NFT_RETURN, ev)"
| "eval_rules en call f c ((i, r) # rs) ev =
     (if fr_chain r \<noteq> fc_handle c then eval_rules en call f c rs ev
      else case eval_expressions en call f c i 0 (fr_expressions r) (replicate 64 0) ev of
             (Some v, ev) \<Rightarrow> (v, ev)
           | (None, ev) \<Rightarrow> eval_rules en call f c rs ev)"

text \<open>\<open>levels\<close> is \<open>17 - depth\<close>.\<close>

primrec evaluate_chain ::
  "filter_env \<Rightarrow> network_filter \<Rightarrow> nat \<Rightarrow> filter_chain \<Rightarrow> eval_state \<Rightarrow> int \<times> eval_state" where
  "evaluate_chain en f 0 c ev = (neg ELOOP, ev)"
| "evaluate_chain en f (Suc levels) c ev =
     eval_rules en (evaluate_chain en f levels) f c (List.enumerate 0 (nf_rules f)) ev"

section \<open>Hooks\<close>

definition md_filter_chain_applies :: "network_filter \<Rightarrow> filter_chain \<Rightarrow> u32 \<Rightarrow> bool" where
  "md_filter_chain_applies f c fam =
     (case find (\<lambda>t. ft_handle t = fc_table c) (nf_tables f) of
        Some t \<Rightarrow> ft_family t = NFPROTO_INET \<or> ft_family t = (if fam = AF_INET6 then NFPROTO_IPV6 else NFPROTO_IPV4)
      | None \<Rightarrow> False)"

text \<open>The chain the loop takes next: the least priority after the previous chain, then the least index.\<close>

definition hook_candidate :: "network_filter \<Rightarrow> nat \<Rightarrow> u32 \<Rightarrow> (int \<times> nat) option \<Rightarrow> nat \<Rightarrow> bool" where
  "hook_candidate f hook fam prev i \<longleftrightarrow>
     (let c = nf_chains f ! i in
      md_filter_chain_applies f c fam \<and> fc_hook c = int hook
      \<and> (case prev of None \<Rightarrow> True
         | Some (pri, ix) \<Rightarrow> \<not> (fc_priority c < pri \<or> fc_priority c = pri \<and> i \<le> ix)))"

definition select_chain :: "network_filter \<Rightarrow> nat \<Rightarrow> u32 \<Rightarrow> (int \<times> nat) option \<Rightarrow> nat option" where
  "select_chain f hook fam prev =
     fold (\<lambda>i sel. if \<not> hook_candidate f hook fam prev i then sel
             else case sel of
                    None \<Rightarrow> Some i
                  | Some s \<Rightarrow> if fc_priority (nf_chains f ! i) < fc_priority (nf_chains f ! s) then Some i else sel)
       [0..<length (nf_chains f)] None"

definition apply_rewrite :: "filter_rewrite \<Rightarrow> filter_packet \<Rightarrow> filter_packet" where
  "apply_rewrite w p = p\<lparr>fp_source := rw_source w, fp_destination := rw_destination w,
     fp_source_port := rw_source_port w, fp_destination_port := rw_destination_port w,
     fp_fib_type := rw_fib_type w, fp_source_fib_type := rw_source_fib_type w\<rparr>"

text \<open>
  One base chain: its verdict, the policy where it returned, and the rerouting of a changed packet.
  \<open>Inl\<close> ends the hook. The last component is the priority recorded for a new translation.
\<close>

definition hook_chain ::
  "filter_env \<Rightarrow> network_filter \<Rightarrow> nat \<Rightarrow> bool \<Rightarrow> nat \<Rightarrow> eval_state \<Rightarrow> (int + unit) \<times> eval_state \<times> int option" where
  "hook_chain en f hook retained i ev =
     (let c = nf_chains f ! i; p = ev_packet ev;
          mapped = (if hook = NF_INET_PRE_ROUTING \<or> hook = NF_INET_LOCAL_OUT then fp_dnat p else fp_snat p);
          (verdict, ev1) = (if fc_nat c \<and> (retained \<or> fp_state p \<noteq> 8 \<or> mapped) then (NF_ACCEPT, ev) else evaluate_chain en f 17 c ev);
          prio = (if fc_nat c \<and> \<not> mapped \<and> (fp_dnat (ev_packet ev1) \<or> fp_snat (ev_packet ev1)) then Some (fc_priority c) else None);
          (r, ev2) = (if verdict = NFT_RETURN \<and> fc_counters c then account_counter en (Chain_Counter i) ev1 else (0, ev1));
          verdict = (if verdict = NFT_RETURN then sint (fc_policy c) else verdict);
          q = ev_packet ev2
      in if r \<noteq> 0 then (Inl r, ev2, prio)
         else if verdict \<noteq> NF_ACCEPT
         then (Inl (if verdict = NF_DROP then neg EACCES else if verdict < 0 then verdict else neg EOPNOTSUPP), ev2, prio)
         else if fc_reroute c \<and> (fp_mark q \<noteq> fp_mark p \<or> \<not> md_ip_equal (fp_source q) (fp_source p)
                                \<or> \<not> md_ip_equal (fp_destination q) (fp_destination p))
         then (case en_route en of
                 None \<Rightarrow> (Inl (neg EOPNOTSUPP), ev2, prio)
               | Some route \<Rightarrow>
                   let rt = route q (NFTA_FIB_F_DADDR OR NFTA_FIB_F_MARK)
                   in if rr_interface rt = 0 then (Inl (neg ENETUNREACH), ev2, prio)
                      else (Inr (), ev2\<lparr>ev_packet := q\<lparr>fp_output := rr_interface rt, fp_output_name := rr_name rt\<rparr>\<rparr>, prio))
         else (Inr (), ev2, prio))"

text \<open>
  The \<open>for (;;)\<close> loop, with the retained rewrite still to be applied. Running out of fuel is
  \<open>None\<close>; one round per chain and one more to find none left is enough.
\<close>

fun hook_loop ::
  "nat \<Rightarrow> filter_env \<Rightarrow> network_filter \<Rightarrow> nat \<Rightarrow> bool \<Rightarrow> filter_rewrite option \<Rightarrow> (int \<times> nat) option \<Rightarrow> int option \<Rightarrow> eval_state
     \<Rightarrow> (int \<times> eval_state \<times> int option) option" where
  "hook_loop 0 en f hook retained rw prev prio ev = None"
| "hook_loop (Suc fuel) en f hook retained rw prev prio ev =
     (let sel = select_chain f hook (ip_family (fp_destination (ev_packet ev))) prev;
          due = (case rw of None \<Rightarrow> False
                 | Some w \<Rightarrow> (case sel of None \<Rightarrow> True | Some i \<Rightarrow> fc_priority (nf_chains f ! i) \<ge> rw_priority w));
          ev = (case rw of Some w \<Rightarrow> if due then ev\<lparr>ev_packet := apply_rewrite w (ev_packet ev)\<rparr> else ev | None \<Rightarrow> ev);
          rw = (if due then None else rw)
      in case sel of
           None \<Rightarrow> Some (0, ev, prio)
         | Some i \<Rightarrow>
            (case hook_chain en f hook retained i ev of
               (Inl r, ev, pr) \<Rightarrow> Some (r, ev, case pr of Some _ \<Rightarrow> pr | None \<Rightarrow> prio)
             | (Inr _, ev, pr) \<Rightarrow> hook_loop fuel en f hook retained rw (Some (fc_priority (nf_chains f ! i), i))
                                   (case pr of Some _ \<Rightarrow> pr | None \<Rightarrow> prio) ev))"

definition hook_start :: "nat \<Rightarrow> eval_state \<Rightarrow> eval_state" where
  "hook_start hook ev = ev\<lparr>ev_packet := (ev_packet ev)\<lparr>fp_hook := hook, fp_rejection := no_rejection\<rparr>\<rparr>"

definition md_filter_evaluate_transition ::
  "filter_env \<Rightarrow> network_filter option \<Rightarrow> nat \<Rightarrow> filter_rewrite option \<Rightarrow> eval_state \<Rightarrow> (int \<times> eval_state \<times> int option) option" where
  "md_filter_evaluate_transition en f hook rw ev =
     (let g = (case f of Some g \<Rightarrow> g | None \<Rightarrow> empty_filter)
      in hook_loop (length (nf_chains g) + 1) en g hook (rw \<noteq> None) rw None None (hook_start hook ev))"

definition md_filter_evaluate ::
  "filter_env \<Rightarrow> network_filter option \<Rightarrow> nat \<Rightarrow> eval_state \<Rightarrow> (int \<times> eval_state) option" where
  "md_filter_evaluate en f hook ev =
     map_option (\<lambda>(r, ev, _). (r, ev)) (md_filter_evaluate_transition en f hook None ev)"

section \<open>The depth limit and validation\<close>

lemma chain_find_target:
  assumes "chain_index f h = Some t" "fc_table (nf_chains f ! t) = fc_table c" "h \<noteq> 0"
  shows "md_filter_chain_find (Some f) (fc_table c) None h 0 = Some (nf_chains f ! t)"
proof -
  note t = chain_index_Some [OF assms(1)]
  show ?thesis
    unfolding md_filter_chain_find_def option.case find_Some_iff
  proof (intro exI [of _ t] conjI allI impI)
    fix j
    assume "j < t"
    hence "fc_handle (nf_chains f ! j) \<noteq> h" by (rule t(3))
    thus "\<not> ((fc_table c = 0 \<or> fc_table (nf_chains f ! j) = fc_table c)
              \<and> (if h \<noteq> 0 then h = fc_handle (nf_chains f ! j) else 0 \<noteq> (0 :: u32) \<and> 0 = fc_id (nf_chains f ! j)))"
      by auto
  qed (use t(1,2) assms(2,3) in auto)
qed

lemma position_loop_le: "low \<le> high \<Longrightarrow> position_loop s key fin low high \<le> high"
proof (induction s key fin low high rule: position_loop.induct)
  case (1 s key fin low high)
  show ?case
  proof (cases "low < high")
    case True
    thus ?thesis
      using 1(1) [OF True refl] 1(2) [OF True refl] by (subst position_loop.simps) (auto simp: Let_def)
  qed (use 1(3) in \<open>simp add: position_loop.simps\<close>)
qed

lemma lookup_index_bound:
  assumes "md_filter_set_lookup_index s key = Some i"
  shows "i < length (fs_elements s) \<and> el_end (fs_elements s ! i) = 0"
  using assms position_loop_le [of 0 "length (fs_elements s)" s key 0]
  by (auto simp: md_filter_set_lookup_index_def md_filter_set_position_def Let_def split: if_splits)

lemma find_unique:
  assumes "distinct (map g xs)" "x \<in> set xs" "g x = k" "find (\<lambda>y. g y = k) xs = Some y"
  shows "x = y"
  using assms find_SomeD [OF assms(4)] by (auto simp: distinct_map inj_on_def)

text \<open>The verdicts an expression can reach are among those validation looked at.\<close>

lemma map_verdict_listed:
  assumes sets: "distinct (map fs_handle (nf_sets f))" and code: "fe_code e = MD_FILTER_VERDICT_MAP"
    and s: "lookup_set f c e = Some s" and el: "md_filter_set_lookup s key = Some el"
  shows "el_verdict el \<in> set (verdicts_of f e)"
proof -
  have mem: "s \<in> set (nf_sets f)" "fs_handle s = fe_target e"
    using find_SomeD [OF s [unfolded lookup_set_def md_filter_set_find_def option.case]] by (auto split: if_splits)
  have "find (\<lambda>s. fs_handle s = fe_target e) (nf_sets f) = Some s"
  proof (cases "find (\<lambda>s. fs_handle s = fe_target e) (nf_sets f)")
    case None
    thus ?thesis using mem by (auto simp: find_None_iff)
  next
    case (Some s')
    thus ?thesis using find_unique [OF sets mem(1) mem(2) Some] by simp
  qed
  note found = this
  obtain i where i: "md_filter_set_lookup_index s key = Some i" "el = fs_elements s ! i"
    using el by (auto simp: md_filter_set_lookup_def)
  have bound: "i < length (fs_elements s) \<and> el_end el = 0"
    using lookup_index_bound [OF i(1)] i(2) by simp
  have "md_filter_verdict_at f e i = el_verdict el"
    using code found i bound by (simp add: md_filter_verdict_at_def)
  moreover have "i < md_filter_verdict_count f e"
    using code found bound by (simp add: md_filter_verdict_count_def)
  ultimately show ?thesis by (force simp: verdicts_of_def)
qed

lemma plain_verdict_listed:
  "fe_code e = MD_FILTER_VERDICT \<Longrightarrow> \<lparr>fv_operation = fe_operation e, fv_target = fe_target e\<rparr> \<in> set (verdicts_of f e)"
  by (simp add: verdicts_of_def md_filter_verdict_count_def md_filter_verdict_at_def)

text \<open>Evaluation depends on the deeper calls only through the targets of the chain's jumps.\<close>

definition calls_agree ::
  "network_filter \<Rightarrow> filter_chain \<Rightarrow> filter_expression \<Rightarrow> (filter_chain \<Rightarrow> eval_state \<Rightarrow> int \<times> eval_state)
     \<Rightarrow> (filter_chain \<Rightarrow> eval_state \<Rightarrow> int \<times> eval_state) \<Rightarrow> bool" where
  "calls_agree f c e call call' \<longleftrightarrow> (\<forall>v \<in> set (verdicts_of f e). is_jump v \<longrightarrow>
     (\<forall>t. md_filter_chain_find (Some f) (fc_table c) None (fv_target v) 0 = Some t \<longrightarrow> call t = call' t))"

lemma eval_verdict_cong:
  assumes "is_jump v \<Longrightarrow> (\<And>t. md_filter_chain_find (Some f) (fc_table c) None (fv_target v) 0 = Some t \<Longrightarrow> call t = call' t)"
  shows "eval_verdict call f c v regs ev = eval_verdict call' f c v regs ev"
  using assms by (auto simp: eval_verdict_def split: option.split)

lemma eval_expression_cong:
  assumes sets: "distinct (map fs_handle (nf_sets f))" and agree: "calls_agree f c e call call'"
  shows "eval_expression en call f c i j e regs ev = eval_expression en call' f c i j e regs ev"
proof -
  have "eval_verdict call f c v regs ev = eval_verdict call' f c v regs ev" if "v \<in> set (verdicts_of f e)" for v
    using agree that by (intro eval_verdict_cong) (auto simp: calls_agree_def)
  thus ?thesis
    using map_verdict_listed [OF sets] plain_verdict_listed
    by (cases "fe_code e") (auto simp: eval_expression_def Let_def split: option.split)
qed

lemma eval_expressions_cong:
  assumes "distinct (map fs_handle (nf_sets f))" "\<forall>e \<in> set es. calls_agree f c e call call'"
  shows "eval_expressions en call f c i j es regs ev = eval_expressions en call' f c i j es regs ev"
  using assms(2)
proof (induction es arbitrary: j regs ev)
  case (Cons e es)
  thus ?case using eval_expression_cong [OF assms(1), of c e call call' en i j regs ev] by (simp split: outcome.split)
qed simp

lemma eval_rules_cong:
  assumes "distinct (map fs_handle (nf_sets f))"
    "\<forall>(i, r) \<in> set rs. fr_chain r = fc_handle c \<longrightarrow> (\<forall>e \<in> set (fr_expressions r). calls_agree f c e call call')"
  shows "eval_rules en call f c rs ev = eval_rules en call' f c rs ev"
  using assms(2)
proof (induction rs arbitrary: ev)
  case (Cons ir rs)
  obtain i r where ir: "ir = (i, r)" by fastforce
  show ?case
    using Cons eval_expressions_cong [OF assms(1), of "fr_expressions r" c call call' en i 0 "replicate 64 0" ev]
    by (auto simp: ir split: prod.split option.split)
qed simp

lemma chain_expression_mem:
  "a < length (nf_rules f) \<Longrightarrow> fr_chain (nf_rules f ! a) = fc_handle c \<Longrightarrow> e \<in> set (fr_expressions (nf_rules f ! a))
     \<Longrightarrow> e \<in> set (chain_expressions f c)"
  by (auto simp: chain_expressions_def intro!: exI [of _ "nf_rules f ! a"])

lemma depth_irrelevant:
  assumes nest: "nesting_ok f height" and sets: "distinct (map fs_handle (nf_sets f))"
  shows "i < length (nf_chains f) \<Longrightarrow> height i < n
    \<Longrightarrow> evaluate_chain en f (n + k) (nf_chains f ! i) ev = evaluate_chain en f n (nf_chains f ! i) ev"
proof (induction n arbitrary: i ev)
  case (Suc n)
  let ?c = "nf_chains f ! i"
  have "calls_agree f ?c e (evaluate_chain en f (n + k)) (evaluate_chain en f n)" if e: "e \<in> set (chain_expressions f ?c)" for e
    unfolding calls_agree_def
  proof (intro ballI impI allI)
    fix v t
    assume v: "v \<in> set (verdicts_of f e)" "is_jump v"
      and find: "md_filter_chain_find (Some f) (fc_table ?c) None (fv_target v) 0 = Some t"
    obtain u where u: "chain_index f (fv_target v) = Some u" "fc_table (nf_chains f ! u) = fc_table ?c" "height u < height i"
      using nest Suc.prems(1) e v unfolding nesting_ok_def by blast
    have "fv_target v \<noteq> 0"
      using find_SomeD [OF find [unfolded md_filter_chain_find_def option.case]] by auto
    hence "t = nf_chains f ! u" using chain_find_target [OF u(1,2)] find by simp
    thus "evaluate_chain en f (n + k) t = evaluate_chain en f n t"
      using Suc.IH [of u] chain_index_Some(1) [OF u(1)] u(3) Suc.prems(2) by auto
  qed
  hence "\<forall>(j, r) \<in> set (List.enumerate 0 (nf_rules f)). fr_chain r = fc_handle ?c \<longrightarrow>
      (\<forall>e \<in> set (fr_expressions r). calls_agree f ?c e (evaluate_chain en f (n + k)) (evaluate_chain en f n))"
    by (auto simp: in_set_enumerate_eq chain_expression_mem)
  from eval_rules_cong [OF sets this] show ?case by simp
qed simp

text \<open>
  C5: In a filter that validation accepts, the limit on nested jumps never cuts an evaluation short:
  allowing more levels than the code does changes neither the verdict of a chain nor the packet it
  leaves, whatever the packet. Sets are told apart by their handles.
\<close>

theorem validated_depth_enough:
  assumes "md_filter_validate f = None" "length (nf_chains f) \<le> 256" "distinct (map fs_handle (nf_sets f))"
    "i < length (nf_chains f)"
  shows "evaluate_chain en f (17 + k) (nf_chains f ! i) ev = evaluate_chain en f 17 (nf_chains f ! i) ev"
proof -
  obtain height where h: "nesting_ok f height" using validate_nesting [OF assms(1,2)] by blast
  hence "height i \<le> 16" using assms(4) by (simp add: nesting_ok_def)
  thus ?thesis using depth_irrelevant [OF h assms(3,4), of 17] by simp
qed

section \<open>An example\<close>

definition demo_chain :: "u64 \<Rightarrow> int \<Rightarrow> int \<Rightarrow> filter_chain" where
  "demo_chain h hook prio = \<lparr>fc_table = 1, fc_handle = h, fc_id = 0, fc_name = ''chain'', fc_hook = hook, fc_priority = prio,
     fc_nat = False, fc_reroute = False, fc_policy = 1, fc_counters = False, fc_counter = \<lparr>ctr_packets = 0, ctr_bytes = 0\<rparr>,
     fc_userdata = []\<rparr>"

definition demo_verdict :: "u32 \<Rightarrow> u64 \<Rightarrow> filter_expression" where
  "demo_verdict operation target = \<lparr>fe_code = MD_FILTER_VERDICT, fe_src = 0, fe_dst = 0, fe_size = 0, fe_key = 0,
     fe_operation = operation, fe_aux = 0, fe_constant = 0, fe_family = 0, fe_port_range = 0, fe_port_max = 0, fe_nat_flags = 0,
     fe_target = target, fe_value = [], fe_mask = [], fe_counter = \<lparr>ctr_packets = 0, ctr_bytes = 0\<rparr>,
     fe_transport = \<lparr>tr_source = (0, 0), tr_destination = (0, 0), tr_protocol = 0, tr_inversion = 0\<rparr>,
     fe_multiport = \<lparr>mu_ports = [], mu_ranges = 0, mu_count = 0, mu_direction = 0, mu_invert = 0\<rparr>,
     fe_limit = \<lparr>lim_cost = 0, lim_capacity = 0, lim_credit = 0, lim_previous = 0\<rparr>,
     fe_log = \<lparr>log_group = 0, log_prefix = []\<rparr>,
     fe_physdev = \<lparr>pd_names = [], pd_masks = [], pd_flags = 0, pd_invert = 0\<rparr>, fe_nat_port = 0\<rparr>"

definition demo_rule :: "u64 \<Rightarrow> filter_expression list \<Rightarrow> filter_rule" where
  "demo_rule chain es = \<lparr>fr_chain = chain, fr_handle = 9, fr_id = 0, fr_expressions = es, fr_wire = [], fr_userdata = []\<rparr>"

text \<open>
  A base chain of priority 10 that jumps to a chain that drops, behind a base chain of priority 0 with
  no rules.
\<close>

definition demo_filter :: network_filter where
  "demo_filter = empty_filter\<lparr>nf_tables := [\<lparr>ft_handle = 1, ft_family = NFPROTO_INET, ft_name = ''t'', ft_userdata = []\<rparr>],
     nf_chains := [demo_chain 2 1 10, demo_chain 3 (-1) 0, demo_chain 4 1 0],
     nf_rules := [demo_rule 2 [demo_verdict (-3) 3], demo_rule 3 [demo_verdict 0 0]]\<rparr>"

definition demo_address :: ip_address where
  "demo_address = \<lparr>ip_family = AF_INET, ip_bytes = [10, 0, 0, 1] @ replicate 12 0\<rparr>"

definition demo_packet :: filter_packet where
  "demo_packet = \<lparr>fp_source = demo_address, fp_destination = demo_address, fp_source_port = 0, fp_destination_port = 0,
     fp_protocol = IPPROTO_TCP, fp_state = 8, fp_mark = 0, fp_ctmark = 0, fp_status = 0, fp_input = 0, fp_output = 0,
     fp_fib_type = 0, fp_source_fib_type = 0, fp_packet_type = 0, fp_rejection = no_rejection, fp_transport = [],
     fp_transport_size = 0, fp_input_name = [], fp_output_name = [], fp_physical = [0, 0], fp_bridged = False,
     fp_physical_name = [[], []], fp_snat = False, fp_dnat = False, fp_masquerade = False, fp_masquerade_address = demo_address,
     fp_accounting = None, fp_unmediated = False, fp_hook = 0\<rparr>"

definition demo_env :: filter_env where
  "demo_env = \<lparr>en_now = (\<lambda>_. 0), en_random = (\<lambda>_ _. 0), en_realloc = True, en_route = None, en_source_nat = None, en_log = False\<rparr>"

definition demo_state :: eval_state where
  "demo_state = \<lparr>ev_packet = demo_packet, ev_limits = (\<lambda>_ _. \<lparr>lim_cost = 0, lim_capacity = 0, lim_credit = 0, lim_previous = 0\<rparr>),
     ev_samples = 0, ev_logged = []\<rparr>"

lemma demo_validates: "md_filter_validate demo_filter = None" by code_simp

lemma demo_chain_drops: "fst (evaluate_chain demo_env demo_filter 17 (nf_chains demo_filter ! 0) demo_state) = NF_DROP" by code_simp

theorem validated_depth_enough_witness:
  "fst (evaluate_chain demo_env demo_filter (17 + 100) (nf_chains demo_filter ! 0) demo_state) = NF_DROP"
proof -
  have "length (nf_chains demo_filter) = 3" "nf_sets demo_filter = []"
    by (simp_all add: demo_filter_def empty_filter_def)
  with validated_depth_enough [OF demo_validates, of 0 demo_env 100 demo_state] demo_chain_drops
  show ?thesis by simp
qed

section \<open>The order of the base chains\<close>

definition chain_key :: "network_filter \<Rightarrow> nat \<Rightarrow> int \<times> nat" where
  "chain_key f i = (fc_priority (nf_chains f ! i), i)"

text \<open>The base chains of a hook for an address family, by priority and then by position.\<close>

definition hook_order :: "network_filter \<Rightarrow> nat \<Rightarrow> u32 \<Rightarrow> nat list" where
  "hook_order f hook fam = sort_key (chain_key f)
     (filter (\<lambda>i. md_filter_chain_applies f (nf_chains f ! i) fam \<and> fc_hook (nf_chains f ! i) = int hook) [0..<length (nf_chains f)])"

definition key_after :: "network_filter \<Rightarrow> (int \<times> nat) option \<Rightarrow> nat \<Rightarrow> bool" where
  "key_after f prev i \<longleftrightarrow> (case prev of None \<Rightarrow> True | Some k \<Rightarrow> k < chain_key f i)"

lemma hook_candidate_iff:
  "i < length (nf_chains f) \<Longrightarrow> hook_candidate f hook fam prev i \<longleftrightarrow> i \<in> set (hook_order f hook fam) \<and> key_after f prev i"
  by (auto simp: hook_candidate_def hook_order_def key_after_def chain_key_def Let_def split: option.split)

lemma inj_chain_key: "inj (chain_key f)" by (auto simp: inj_on_def chain_key_def)

lemma hook_order_strict: "sorted_wrt (\<lambda>i j. chain_key f i < chain_key f j) (hook_order f hook fam)"
proof -
  have "sorted (map (chain_key f) (hook_order f hook fam))" by (simp add: hook_order_def)
  moreover have "distinct (map (chain_key f) (hook_order f hook fam))"
    by (simp add: hook_order_def distinct_map inj_on_subset [OF inj_chain_key])
  ultimately have "sorted_wrt (<) (map (chain_key f) (hook_order f hook fam))"
    by (simp add: strict_sorted_iff)
  thus ?thesis by (simp add: sorted_wrt_map)
qed

lemma hook_order_bound: "i \<in> set (hook_order f hook fam) \<Longrightarrow> i < length (nf_chains f)"
  by (simp add: hook_order_def)

text \<open>The scan for the next chain finds the candidate with the least key.\<close>

lemma select_fold:
  "case fold (\<lambda>i sel. if \<not> P i then sel
             else case sel of None \<Rightarrow> Some i
                  | Some s \<Rightarrow> if fc_priority (nf_chains f ! i) < fc_priority (nf_chains f ! s) then Some i else sel) [0..<n] None of
           None \<Rightarrow> \<forall>i < n. \<not> P i
         | Some s \<Rightarrow> s < n \<and> P s \<and> (\<forall>i < n. P i \<longrightarrow> chain_key f s \<le> chain_key f i)"
proof (induction n)
  case (Suc n)
  thus ?case
    by (auto simp: less_Suc_eq chain_key_def split: option.splits if_splits)
qed simp

lemma select_chain_least:
  assumes "filter (key_after f prev) (hook_order f hook fam) = L"
  shows "select_chain f hook fam prev = (case L of [] \<Rightarrow> None | i # _ \<Rightarrow> Some i)"
proof (cases L)
  case Nil
  hence "\<forall>i < length (nf_chains f). \<not> hook_candidate f hook fam prev i"
    using assms by (auto simp: hook_candidate_iff filter_empty_conv)
  thus ?thesis
    using select_fold [of "length (nf_chains f)" "hook_candidate f hook fam prev" f] Nil
    by (auto simp: select_chain_def split: option.splits)
next
  case (Cons i js)
  have strict: "sorted_wrt (\<lambda>i j. chain_key f i < chain_key f j) L"
    using sorted_wrt_filter [OF hook_order_strict] assms by blast
  have mem: "j \<in> set L \<longleftrightarrow> j < length (nf_chains f) \<and> hook_candidate f hook fam prev j" for j
    using assms hook_order_bound by (auto simp: hook_candidate_iff)
  have i: "i < length (nf_chains f)" "hook_candidate f hook fam prev i" using mem [of i] Cons by auto
  then obtain s where s: "select_chain f hook fam prev = Some s" "s < length (nf_chains f)"
      "hook_candidate f hook fam prev s" "chain_key f s \<le> chain_key f i"
    using select_fold [of "length (nf_chains f)" "hook_candidate f hook fam prev" f]
    by (auto simp: select_chain_def split: option.splits)
  have "s \<in> set L" using mem s by blast
  hence "s = i" using strict s(4) Cons by auto
  thus ?thesis using s Cons by simp
qed

lemma filter_after_tail:
  assumes "filter (key_after f prev) (hook_order f hook fam) = i # L"
  shows "filter (key_after f (Some (fc_priority (nf_chains f ! i), i))) (hook_order f hook fam) = L"
proof -
  let ?after = "key_after f (Some (chain_key f i))"
  have strict: "sorted_wrt (\<lambda>i j. chain_key f i < chain_key f j) (i # L)"
    using sorted_wrt_filter [OF hook_order_strict] assms by metis
  have "key_after f prev i" using assms by (metis filter_eq_Cons_iff list.set_intros(1))
  hence "?after j \<Longrightarrow> key_after f prev j" for j by (auto simp: key_after_def split: option.splits)
  hence "filter ?after (hook_order f hook fam) = filter ?after (filter (key_after f prev) (hook_order f hook fam))"
    by (auto intro: filter_cong)
  also have "\<dots> = L" using strict unfolding assms by (simp add: key_after_def)
  finally show ?thesis by (simp add: chain_key_def)
qed

section \<open>The family of the destination\<close>

text \<open>
  The source port of a translation is chosen by the caller of the evaluator; it leaves the family of
  the destination alone.
\<close>

definition keeps_family :: "filter_env \<Rightarrow> bool" where
  "keeps_family en \<longleftrightarrow> (case en_source_nat en of None \<Rightarrow> True
     | Some call \<Rightarrow> \<forall>p low high. ip_family (fp_destination (snd (call p low high))) = ip_family (fp_destination p))"

definition family_of :: "eval_state \<Rightarrow> u32" where
  "family_of ev = ip_family (fp_destination (ev_packet ev))"

fun outcome_state :: "outcome \<Rightarrow> eval_state" where
  "outcome_state (Step m regs ev) = ev"
| "outcome_state (Verdict v ev) = ev"

lemma account_family: "family_of (snd (account_counter en cell ev)) = family_of ev"
  by (auto simp: account_counter_def family_of_def Let_def split: option.split prod.split sum.split)

lemma source_nat_family:
  assumes "keeps_family en"
  shows "family_of (snd (source_nat en e regs ev)) = family_of ev"
proof -
  have "ip_family (fp_destination q) = ip_family (fp_destination p)"
    if "en_source_nat en = Some call" "call p low high = (r, q)" for call p low high r q
    using assms that by (simp add: keeps_family_def) (metis snd_conv)
  thus ?thesis
    by (auto simp: source_nat_def family_of_def Let_def split: option.split prod.split)
qed

lemma put_address_family [simp]: "ip_family (put_address a bs) = ip_family a" by (simp add: put_address_def)

lemma destination_nat_family [simp]: "ip_family (fp_destination (destination_nat e regs p)) = ip_family (fp_destination p)"
  by (simp add: destination_nat_def Let_def)

lemma mark_set_family [simp]: "fp_destination (mark_set p e regs) = fp_destination p"
  by (simp add: mark_set_def Let_def)

lemma source_nat_familyD:
  "source_nat en e regs ev = (r, ev') \<Longrightarrow> keeps_family en \<Longrightarrow> family_of ev' = family_of ev"
  using source_nat_family [of en e regs ev] by simp

lemma eval_nat_family:
  "keeps_family en \<Longrightarrow> family_of (outcome_state (eval_nat en e regs ev)) = family_of ev"
  by (auto simp: eval_nat_def family_of_def Let_def split: prod.split dest!: source_nat_familyD)

lemma eval_masquerade_family:
  "keeps_family en \<Longrightarrow> family_of (outcome_state (eval_masquerade en e regs ev)) = family_of ev"
  by (auto simp: eval_masquerade_def family_of_def Let_def split: prod.split dest!: source_nat_familyD)

lemma eval_reject_family: "family_of (outcome_state (eval_reject e regs ev)) = family_of ev"
  by (simp add: eval_reject_def family_of_def Let_def)

lemma eval_verdict_family:
  assumes "\<And>t ev. family_of (snd (call t ev)) = family_of ev"
  shows "family_of (outcome_state (eval_verdict call f c v regs ev)) = family_of ev"
  using assms by (auto simp: eval_verdict_def split: option.split prod.split) (metis snd_conv)+

lemma eval_expression_family:
  assumes "keeps_family en" "\<And>t ev. family_of (snd (call t ev)) = family_of ev"
  shows "family_of (outcome_state (eval_expression en call f c i j e regs ev)) = family_of ev"
proof (cases "fe_code e")
  case MD_FILTER_COUNTER
  thus ?thesis using account_family [of en "Expression_Counter i j" ev]
    by (auto simp: eval_expression_def Let_def split: prod.split)
qed (simp_all add: eval_expression_def Let_def eval_nat_family eval_masquerade_family eval_reject_family
      eval_verdict_family assms split: option.split prod.split, simp_all add: family_of_def)

lemma eval_expressions_family:
  assumes "keeps_family en" "\<And>t ev. family_of (snd (call t ev)) = family_of ev"
  shows "family_of (snd (eval_expressions en call f c i j es regs ev)) = family_of ev"
proof (induction es arbitrary: j regs ev)
  case (Cons e es)
  thus ?case using eval_expression_family [where call = call and f = f and c = c and i = i and j = j and e = e and regs = regs and ev = ev, OF assms] by (auto split: outcome.split)
qed simp

lemma eval_rules_family:
  assumes "keeps_family en" "\<And>t ev. family_of (snd (call t ev)) = family_of ev"
  shows "family_of (snd (eval_rules en call f c rs ev)) = family_of ev"
proof (induction rs arbitrary: ev)
  case (Cons ir rs)
  obtain i r where ir: "ir = (i, r)" by fastforce
  show ?case
    using Cons eval_expressions_family [where call = call and f = f and c = c and i = i and j = 0 and es = "fr_expressions r"
      and regs = "replicate 64 0" and ev = ev, OF assms]
    by (auto simp: ir split: prod.split option.split)
qed simp

lemma evaluate_chain_family:
  "keeps_family en \<Longrightarrow> family_of (snd (evaluate_chain en f n c ev)) = family_of ev"
proof (induction n arbitrary: c ev)
  case (Suc n)
  thus ?case using eval_rules_family [of en "evaluate_chain en f n"] by simp
qed simp

lemma hook_chain_family:
  assumes keeps: "keeps_family en" and eq: "hook_chain en f hook retained i ev = (res, ev', prio)"
  shows "family_of ev' = family_of ev"
proof -
  let ?c = "nf_chains f ! i" and ?p = "ev_packet ev"
  let ?mapped = "if hook = NF_INET_PRE_ROUTING \<or> hook = NF_INET_LOCAL_OUT then fp_dnat ?p else fp_snat ?p"
  obtain v ev1 where v: "(if fc_nat ?c \<and> (retained \<or> fp_state ?p \<noteq> 8 \<or> ?mapped) then (NF_ACCEPT, ev) else evaluate_chain en f 17 ?c ev) = (v, ev1)"
    by fastforce
  obtain r ev2 where r: "(if v = NFT_RETURN \<and> fc_counters ?c then account_counter en (Chain_Counter i) ev1 else (0, ev1)) = (r, ev2)"
    by fastforce
  have "family_of ev1 = family_of ev"
    using v evaluate_chain_family [OF keeps, of f 17 ?c ev] by (auto split: if_splits)
  moreover have "family_of ev2 = family_of ev1"
    using r account_family [of en "Chain_Counter i" ev1] by (auto split: if_splits)
  moreover have "family_of ev' = family_of ev2"
    using eq unfolding hook_chain_def Let_def v r prod.case family_of_def by (auto split: if_splits option.splits)
  ultimately show ?thesis by simp
qed

section \<open>A hook as a sequence of chains\<close>

text \<open>
  The chains of a list in turn, up to the first that denies or fails (\<open>Inl\<close>), recording the priority
  of the last new translation.
\<close>

fun run_chains ::
  "filter_env \<Rightarrow> network_filter \<Rightarrow> nat \<Rightarrow> bool \<Rightarrow> nat list \<Rightarrow> int option \<Rightarrow> eval_state
     \<Rightarrow> (int \<times> eval_state \<times> int option) + (int option \<times> eval_state)" where
  "run_chains en f hook retained [] prio ev = Inr (prio, ev)"
| "run_chains en f hook retained (i # is) prio ev =
     (case hook_chain en f hook retained i ev of
        (Inl r, ev, pr) \<Rightarrow> Inl (r, ev, case pr of Some _ \<Rightarrow> pr | None \<Rightarrow> prio)
      | (Inr _, ev, pr) \<Rightarrow> run_chains en f hook retained is (case pr of Some _ \<Rightarrow> pr | None \<Rightarrow> prio) ev)"

definition accepted :: "(int \<times> eval_state \<times> int option) + (int option \<times> eval_state) \<Rightarrow> int \<times> eval_state \<times> int option" where
  "accepted res = (case res of Inl x \<Rightarrow> x | Inr (prio, ev) \<Rightarrow> (0, ev, prio))"

definition rewritten :: "filter_rewrite \<Rightarrow> eval_state \<Rightarrow> eval_state" where
  "rewritten w ev = ev\<lparr>ev_packet := apply_rewrite w (ev_packet ev)\<rparr>"

text \<open>
  A retained translation is applied after the chains of a lower priority and before all others.
\<close>

definition transition_spec ::
  "filter_env \<Rightarrow> network_filter \<Rightarrow> nat \<Rightarrow> filter_rewrite option \<Rightarrow> eval_state \<Rightarrow> int \<times> eval_state \<times> int option" where
  "transition_spec en f hook rw ev =
     (let ev = hook_start hook ev; order = hook_order f hook (family_of ev)
      in case rw of
           None \<Rightarrow> accepted (run_chains en f hook False order None ev)
         | Some w \<Rightarrow>
            let early = (\<lambda>i. fc_priority (nf_chains f ! i) < rw_priority w)
            in (case run_chains en f hook True (filter early order) None ev of
                  Inl x \<Rightarrow> x
                | Inr (prio, ev) \<Rightarrow> accepted (run_chains en f hook True (filter (Not \<circ> early) order) prio (rewritten w ev))))"

lemma loop_plain:
  assumes "keeps_family en"
  shows "filter (key_after f prev) (hook_order f hook fam) = L \<Longrightarrow> length L < fuel \<Longrightarrow> family_of ev = fam
    \<Longrightarrow> hook_loop fuel en f hook retained None prev prio ev = Some (accepted (run_chains en f hook retained L prio ev))"
proof (induction L arbitrary: fuel prev prio ev)
  case Nil
  then obtain n where "fuel = Suc n" by (cases fuel) auto
  thus ?case using select_chain_least [OF Nil(1)] Nil(3) by (simp add: family_of_def accepted_def)
next
  case (Cons i L)
  obtain n where n: "fuel = Suc n" "length L < n" using Cons.prems(2) by (cases fuel) auto
  obtain res ev' pr where h: "hook_chain en f hook retained i ev = (res, ev', pr)" by (metis prod_cases3)
  have fam: "family_of ev' = fam" using hook_chain_family [OF assms h] Cons.prems(3) by simp
  show ?case
    using Cons.IH [OF filter_after_tail [OF Cons.prems(1)] n(2) fam] select_chain_least [OF Cons.prems(1)] Cons.prems(3)
    by (cases res) (simp_all add: n(1) h family_of_def accepted_def)
qed

lemma loop_due:
  assumes "select_chain f hook (family_of ev) prev = sel" "family_of (rewritten w ev) = family_of ev"
    "case sel of None \<Rightarrow> True | Some i \<Rightarrow> fc_priority (nf_chains f ! i) \<ge> rw_priority w"
  shows "hook_loop fuel en f hook retained (Some w) prev prio ev = hook_loop fuel en f hook retained None prev prio (rewritten w ev)"
  using assms by (cases fuel) (simp_all add: family_of_def rewritten_def Let_def)

text \<open>In the order of the hook, once a chain is late all the later ones are.\<close>

lemma early_split:
  assumes "filter (key_after f prev) (hook_order f hook fam) = i # L" "\<not> fc_priority (nf_chains f ! i) < p"
  shows "filter (\<lambda>i. fc_priority (nf_chains f ! i) < p) (i # L) = []"
    "filter (Not \<circ> (\<lambda>i. fc_priority (nf_chains f ! i) < p)) (i # L) = i # L"
proof -
  have "sorted_wrt (\<lambda>i j. chain_key f i < chain_key f j) (i # L)"
    using sorted_wrt_filter [OF hook_order_strict] assms(1) by metis
  hence "\<forall>j \<in> set (i # L). \<not> fc_priority (nf_chains f ! j) < p"
    using assms(2) by (auto simp: chain_key_def)
  thus "filter (\<lambda>i. fc_priority (nf_chains f ! i) < p) (i # L) = []"
    "filter (Not \<circ> (\<lambda>i. fc_priority (nf_chains f ! i) < p)) (i # L) = i # L"
    unfolding filter_empty_conv filter_id_conv comp_def by simp_all
qed

lemma loop_rewrite:
  assumes keeps: "keeps_family en" and w: "ip_family (rw_destination w) = fam"
  shows "filter (key_after f prev) (hook_order f hook fam) = L \<Longrightarrow> length L < fuel \<Longrightarrow> family_of ev = fam
    \<Longrightarrow> hook_loop fuel en f hook retained (Some w) prev prio ev =
      Some (case run_chains en f hook retained (filter (\<lambda>i. fc_priority (nf_chains f ! i) < rw_priority w) L) prio ev of
              Inl x \<Rightarrow> x
            | Inr (prio, ev) \<Rightarrow> accepted (run_chains en f hook retained
                (filter (Not \<circ> (\<lambda>i. fc_priority (nf_chains f ! i) < rw_priority w)) L) prio (rewritten w ev)))"
proof (induction L arbitrary: fuel prev prio ev)
  case Nil
  have fam: "family_of (rewritten w ev) = fam" using w by (simp add: family_of_def rewritten_def apply_rewrite_def)
  show ?case
    using loop_due [of f hook ev prev None w] select_chain_least [OF Nil(1)] Nil(3) fam
      loop_plain [OF keeps Nil(1) Nil(2) fam] by simp
next
  case (Cons i L)
  have fam: "family_of (rewritten w ev) = fam" using w by (simp add: family_of_def rewritten_def apply_rewrite_def)
  show ?case
  proof (cases "fc_priority (nf_chains f ! i) < rw_priority w")
    case False
    show ?thesis
      unfolding early_split [OF Cons.prems(1) False]
      using loop_due [of f hook ev prev "Some i" w] select_chain_least [OF Cons.prems(1)] Cons.prems(3) fam False
        loop_plain [OF keeps Cons.prems(1,2) fam] by simp
  next
    case True
    obtain n where n: "fuel = Suc n" "length L < n" using Cons.prems(2) by (cases fuel) auto
    obtain res ev' pr where h: "hook_chain en f hook retained i ev = (res, ev', pr)" by (metis prod_cases3)
    have fam': "family_of ev' = fam" using hook_chain_family [OF keeps h] Cons.prems(3) by simp
    have late: "filter (Not \<circ> (\<lambda>i. fc_priority (nf_chains f ! i) < rw_priority w)) (i # L)
        = filter (Not \<circ> (\<lambda>i. fc_priority (nf_chains f ! i) < rw_priority w)) L"
      using True by simp
    show ?thesis
      unfolding late
      using Cons.IH [OF filter_after_tail [OF Cons.prems(1)] n(2) fam'] select_chain_least [OF Cons.prems(1)] Cons.prems(3) True
      by (cases res) (simp_all add: n(1) h family_of_def)
  qed
qed

text \<open>
  C1: Evaluating a hook of a filter always returns, and it is the same as running its base chains one
  after the other in the order of priority, and of position among equal priorities, up to the first
  that does not accept; a retained translation is applied between the chains of a lower priority and
  the others. The caller's choice of a source port must leave the destination's family alone, and so
  must the retained translation.
\<close>

theorem hook_order_exact:
  assumes "keeps_family en" "\<And>w. rw = Some w \<Longrightarrow> ip_family (rw_destination w) = ip_family (fp_destination (ev_packet ev))"
  shows "md_filter_evaluate_transition en (Some f) hook rw ev = Some (transition_spec en f hook rw ev)"
proof -
  have order: "filter (key_after f None) (hook_order f hook fam) = hook_order f hook fam" for fam
    by (simp add: key_after_def)
  have len: "length (hook_order f hook fam) < length (nf_chains f) + 1" for fam
    using length_filter_le [of _ "[0..<length (nf_chains f)]"] by (simp add: hook_order_def less_Suc_eq_le)
  have start: "family_of (hook_start hook ev) = ip_family (fp_destination (ev_packet ev))"
    by (simp add: family_of_def hook_start_def)
  show ?thesis
  proof (cases rw)
    case None
    thus ?thesis using loop_plain [OF assms(1) order len refl]
      by (simp add: md_filter_evaluate_transition_def transition_spec_def Let_def)
  next
    case (Some w)
    show ?thesis using loop_rewrite [OF assms(1) assms(2) [OF Some] order len start]
      unfolding transition_spec_def Let_def start by (simp add: Some md_filter_evaluate_transition_def)
  qed
qed

definition demo_rewrite :: filter_rewrite where
  "demo_rewrite = \<lparr>rw_source = demo_address, rw_destination = demo_address\<lparr>ip_bytes := replicate 16 7\<rparr>, rw_fib_type = 0,
     rw_source_fib_type = 0, rw_source_port = 1, rw_destination_port = 2, rw_priority = 5\<rparr>"

theorem hook_order_exact_witness:
  "hook_order demo_filter 1 AF_INET = [2, 0]
   \<and> (case md_filter_evaluate_transition demo_env (Some demo_filter) 1 (Some demo_rewrite) demo_state of
        Some (r, ev, _) \<Rightarrow> r = neg EACCES \<and> fp_destination_port (ev_packet ev) = 2 | None \<Rightarrow> False)"
proof -
  have "keeps_family demo_env" by (simp add: keeps_family_def demo_env_def)
  moreover have "ip_family (rw_destination demo_rewrite) = ip_family (fp_destination (ev_packet demo_state))"
    by (simp add: demo_rewrite_def demo_state_def demo_packet_def demo_address_def)
  ultimately have "md_filter_evaluate_transition demo_env (Some demo_filter) 1 (Some demo_rewrite) demo_state
      = Some (transition_spec demo_env demo_filter 1 (Some demo_rewrite) demo_state)"
    by (intro hook_order_exact) auto
  moreover have "case transition_spec demo_env demo_filter 1 (Some demo_rewrite) demo_state of
      (r, ev, _) \<Rightarrow> r = neg EACCES \<and> fp_destination_port (ev_packet ev) = 2" by code_simp
  moreover have "hook_order demo_filter 1 AF_INET = [2, 0]" by code_simp
  ultimately show ?thesis by simp
qed

section \<open>The rate limiter\<close>

text \<open>The packets a limit lets through, at the readings of a clock.\<close>

fun limit_run :: "filter_limit \<Rightarrow> u64 list \<Rightarrow> nat \<times> filter_limit" where
  "limit_run l [] = (0, l)"
| "limit_run l (t # ts) =
     (case limit_step l t of (ok, l') \<Rightarrow> case limit_run l' ts of (n, l'') \<Rightarrow> (if ok then Suc n else n, l''))"

lemma limit_refill_unat:
  assumes "lim_credit l \<le> lim_capacity l" "lim_previous l \<le> t"
  shows "unat (limit_refill l t) = min (unat (lim_capacity l)) (unat (lim_credit l) + (unat t - unat (lim_previous l)))"
proof -
  have d: "unat (t - lim_previous l) = unat t - unat (lim_previous l)" using assms(2) by (simp add: unat_sub)
  have r: "unat (lim_capacity l - lim_credit l) = unat (lim_capacity l) - unat (lim_credit l)" using assms(1) by (simp add: unat_sub)
  have c: "unat (lim_credit l) \<le> unat (lim_capacity l)" using assms(1) by (simp add: word_le_nat_alt)
  show ?thesis
  proof (cases "t - lim_previous l \<ge> lim_capacity l - lim_credit l")
    case True
    hence "unat (lim_capacity l) - unat (lim_credit l) \<le> unat t - unat (lim_previous l)"
      using d r by (simp add: word_le_nat_alt)
    thus ?thesis using True assms(2) c by (simp add: limit_refill_def Let_def)
  next
    case False
    hence lt: "unat t - unat (lim_previous l) < unat (lim_capacity l) - unat (lim_credit l)"
      using d r by (simp add: word_le_nat_alt)
    have "unat (lim_credit l + (t - lim_previous l)) = unat (lim_credit l) + unat (t - lim_previous l)"
      using lt d unsigned_less [of "lim_capacity l", where ?'a = nat] by (intro unat_add_lem [THEN iffD1]) simp
    thus ?thesis using False assms(2) lt d by (simp add: limit_refill_def Let_def)
  qed
qed

lemma limit_step_bound:
  assumes "lim_credit l \<le> lim_capacity l" "lim_previous l \<le> t" "limit_step l t = (ok, l')"
  shows "lim_capacity l' = lim_capacity l" "lim_cost l' = lim_cost l" "lim_previous l' = t" "lim_credit l' \<le> lim_capacity l'"
    "unat (lim_credit l') + (if ok then unat (lim_cost l) else 0) \<le> unat (lim_credit l) + (unat t - unat (lim_previous l))"
proof -
  note eq = assms(3) [unfolded limit_step_def Let_def, symmetric]
  note r = limit_refill_unat [OF assms(1,2)]
  show "lim_capacity l' = lim_capacity l" "lim_cost l' = lim_cost l" "lim_previous l' = t" using eq by simp_all
  have spent: "unat (lim_credit l') + (if ok then unat (lim_cost l) else 0) = unat (limit_refill l t)"
    using eq by (auto simp: word_le_nat_alt unat_sub)
  thus "unat (lim_credit l') + (if ok then unat (lim_cost l) else 0) \<le> unat (lim_credit l) + (unat t - unat (lim_previous l))"
    using r by simp
  show "lim_credit l' \<le> lim_capacity l'"
    using spent r eq by (simp add: word_le_nat_alt split: if_splits)
qed

lemma limit_run_bound:
  assumes "lim_credit l \<le> lim_capacity l" "sorted (lim_previous l # ts)" "limit_run l ts = (n, l')"
  shows "lim_credit l' \<le> lim_capacity l' \<and> lim_capacity l' = lim_capacity l \<and> lim_previous l' = last (lim_previous l # ts) \<and> lim_previous l \<le> lim_previous l'
    \<and> unat (lim_credit l') + n * unat (lim_cost l) \<le> unat (lim_credit l) + (unat (lim_previous l') - unat (lim_previous l))"
  using assms
proof (induction ts arbitrary: l n)
  case (Cons t ts)
  obtain ok m where s: "limit_step l t = (ok, m)" by fastforce
  obtain k where k: "limit_run m ts = (k, l')" "n = (if ok then Suc k else k)"
    using Cons.prems(3) s by (auto split: prod.splits)
  have t: "lim_previous l \<le> t" "sorted (t # ts)" using Cons.prems(2) by simp_all
  note m = limit_step_bound [OF Cons.prems(1) t(1) s]
  have "sorted (lim_previous m # ts)" using t(2) m(3) by simp
  note ih = Cons.IH [OF m(4) this k(1)]
  have "unat (lim_previous l) \<le> unat (lim_previous m)" "unat (lim_previous m) \<le> unat (lim_previous l')"
    using t(1) m(3) ih unfolding word_le_nat_alt by blast+
  with ih m(1,2,3,5) k(2) t(1) show ?case by (cases ok) auto
qed simp

text \<open>
  C40: A rate limit never lets more through than its credit and the time that passed pay for: over
  readings of a clock that does not go back, the cost of the packets let through and the credit left
  are within the credit at the start and the time elapsed, and the credit stays within the burst
  capacity, on 64-bit words with no wrap-around.
\<close>

theorem limit_rate_bound:
  assumes "lim_credit l \<le> lim_capacity l" "sorted (lim_previous l # ts)"
  shows "case limit_run l ts of (n, l') \<Rightarrow>
    lim_credit l' \<le> lim_capacity l'
    \<and> unat (lim_credit l') + n * unat (lim_cost l) \<le> unat (lim_credit l) + (unat (last (lim_previous l # ts)) - unat (lim_previous l))"
proof -
  obtain n l' where run: "limit_run l ts = (n, l')" by fastforce
  note b = limit_run_bound [OF assms run]
  from b have last: "last (lim_previous l # ts) = lim_previous l'" by simp
  show ?thesis unfolding run prod.case last using b by blast
qed

definition demo_limit :: "u64 \<Rightarrow> u64 \<Rightarrow> filter_limit" where
  "demo_limit credit t = \<lparr>lim_cost = 10, lim_capacity = 25, lim_credit = credit, lim_previous = t\<rparr>"

lemma demo_limit_steps:
  "limit_step (demo_limit 25 100) 100 = (True, demo_limit 15 100)"
  "limit_step (demo_limit 15 100) 102 = (True, demo_limit 7 102)"
  "limit_step (demo_limit 7 102) 104 = (False, demo_limit 9 104)"
  "limit_step (demo_limit 9 104) 200 = (True, demo_limit 15 200)"
  by (simp_all add: limit_step_def limit_refill_def Let_def demo_limit_def)

theorem limit_rate_bound_witness:
  "case limit_run (demo_limit 25 100) [100, 102, 104, 200] of
     (n, l') \<Rightarrow> n = 3 \<and> lim_credit l' \<le> lim_capacity l' \<and> unat (lim_credit l') + 3 * 10 \<le> 25 + 100"
proof -
  have "lim_credit (demo_limit 25 100) \<le> lim_capacity (demo_limit 25 100)" "sorted (lim_previous (demo_limit 25 100) # [100, 102, 104, 200])"
    by (simp_all add: demo_limit_def)
  from limit_rate_bound [OF this] show ?thesis
    by (simp add: demo_limit_steps) (simp add: demo_limit_def)
qed

end
