(* ===== verification/Resource_Order.thy ===== *)
theory Resource_Order
  imports Prelude
begin

text \<open>
  Turns on a shared resource, from \<^verbatim>\<open>src/native/shroot/src/resource_order.c\<close>, and their use for
  open file descriptions, from \<^verbatim>\<open>ofd_order.c\<close>. Every operation that wants a resource enters a
  record into the resource's queue, a doubly linked list threaded through the records; the first
  record holds the turn. Records, queues and wakeup tokens are cells of a store, named by their
  addresses, so that the pointer writes of the code are updates of the store; the list a queue
  stands for is recovered by the predicate \<open>order_wf\<close>. The queue's mutex makes each operation one
  step. What the operating system answers (duplicating descriptors, signalling an event, comparing
  descriptors) is a parameter.
\<close>

section \<open>Data\<close>

datatype order_state =
    MD_RESOURCE_ORDER_IDLE | MD_RESOURCE_ORDER_QUEUED | MD_RESOURCE_ORDER_READY
  | MD_RESOURCE_ORDER_RUNNING | MD_RESOURCE_ORDER_CANCELLING

record resource_queue =
  rq_first :: "nat option"
  rq_last :: "nat option"

record resource_order =
  or_queue :: "nat option"
  or_previous :: "nat option"
  or_next :: "nat option"
  or_state :: order_state
  or_wakeup :: "nat option"

record resource_wakeup =
  wk_refs :: u32
  wk_fd :: int
  wk_reader :: int

text \<open>\<open>rs_closed\<close> and \<open>rs_signals\<close> record the descriptors closed and signalled, in order.\<close>

record resource_store =
  rs_queues :: "nat \<Rightarrow> resource_queue"
  rs_orders :: "nat \<Rightarrow> resource_order"
  rs_wakeups :: "nat \<Rightarrow> resource_wakeup option"
  rs_closed :: "int list"
  rs_signals :: "int list"

definition zero_order :: resource_order where
  "zero_order = \<lparr>or_queue = None, or_previous = None, or_next = None, or_state = MD_RESOURCE_ORDER_IDLE, or_wakeup = None\<rparr>"

definition zero_queue :: resource_queue where
  "zero_queue = \<lparr>rq_first = None, rq_last = None\<rparr>"

definition put_order :: "nat \<Rightarrow> resource_order \<Rightarrow> resource_store \<Rightarrow> resource_store" where
  "put_order op r s = s\<lparr>rs_orders := (rs_orders s)(op := r)\<rparr>"

definition put_queue :: "nat \<Rightarrow> resource_queue \<Rightarrow> resource_store \<Rightarrow> resource_store" where
  "put_queue q r s = s\<lparr>rs_queues := (rs_queues s)(q := r)\<rparr>"

text \<open>\<open>error\<close>: what initialising the mutex returns.\<close>

definition md_resource_queue_init :: "errno option \<Rightarrow> nat \<Rightarrow> resource_store \<Rightarrow> unit result \<times> resource_store" where
  "md_resource_queue_init error q s =
     (case error of None \<Rightarrow> Inr () | Some e \<Rightarrow> Inl e, put_queue q zero_queue s)"

section \<open>Wakeup tokens\<close>

text \<open>
  The answers of the operating system to one creation: the status flags of the descriptor, the
  address of the new token, and the duplicates of the two descriptors.
\<close>

record wakeup_os =
  wo_nonblock :: "bool result"
  wo_cell :: "nat option"
  wo_dup :: "int result"
  wo_dup_reader :: "int result"

definition create_wakeup :: "wakeup_os \<Rightarrow> int \<Rightarrow> resource_store \<Rightarrow> nat result \<times> resource_store" where
  "create_wakeup os reader s =
     (case wo_nonblock os of
        Inl e \<Rightarrow> (Inl e, s)
      | Inr nonblock \<Rightarrow>
         if \<not> nonblock then (Inl EINVAL, s)
         else case wo_cell os of
           None \<Rightarrow> (Inl ENOMEM, s)
         | Some w \<Rightarrow>
            (case wo_dup os of
               Inl e \<Rightarrow> (Inl e, s)
             | Inr fd \<Rightarrow>
                if reader \<ge> 0 then
                  (case wo_dup_reader os of
                     Inl e \<Rightarrow> (Inl e, s\<lparr>rs_closed := rs_closed s @ [fd]\<rparr>)
                   | Inr rd \<Rightarrow> (Inr w, s\<lparr>rs_wakeups := (rs_wakeups s)(w \<mapsto> \<lparr>wk_refs = 1, wk_fd = fd, wk_reader = rd\<rparr>)\<rparr>))
                else (Inr w, s\<lparr>rs_wakeups := (rs_wakeups s)(w \<mapsto> \<lparr>wk_refs = 1, wk_fd = fd, wk_reader = -1\<rparr>)\<rparr>)))"

definition md_resource_wakeup_create :: "wakeup_os \<Rightarrow> resource_store \<Rightarrow> nat result \<times> resource_store" where
  "md_resource_wakeup_create os = create_wakeup os (-1)"

definition md_resource_wakeup_create_pipe :: "wakeup_os \<Rightarrow> int \<Rightarrow> resource_store \<Rightarrow> nat result \<times> resource_store" where
  "md_resource_wakeup_create_pipe os reader s = (if reader < 0 then (Inl EINVAL, s) else create_wakeup os reader s)"

definition md_resource_wakeup_retain :: "nat option \<Rightarrow> resource_store \<Rightarrow> resource_store" where
  "md_resource_wakeup_retain wake s =
     (case wake of None \<Rightarrow> s
      | Some w \<Rightarrow> (case rs_wakeups s w of None \<Rightarrow> s
          | Some k \<Rightarrow> s\<lparr>rs_wakeups := (rs_wakeups s)(w \<mapsto> k\<lparr>wk_refs := wk_refs k + 1\<rparr>)\<rparr>))"

definition md_resource_wakeup_release :: "nat option \<Rightarrow> resource_store \<Rightarrow> resource_store" where
  "md_resource_wakeup_release wake s =
     (case wake of None \<Rightarrow> s
      | Some w \<Rightarrow> (case rs_wakeups s w of None \<Rightarrow> s
          | Some k \<Rightarrow>
             if wk_refs k \<noteq> 1 then s\<lparr>rs_wakeups := (rs_wakeups s)(w \<mapsto> k\<lparr>wk_refs := wk_refs k - 1\<rparr>)\<rparr>
             else s\<lparr>rs_wakeups := (rs_wakeups s)(w := None),
                    rs_closed := rs_closed s @ wk_fd k # (if wk_reader k \<ge> 0 then [wk_reader k] else [])\<rparr>))"

definition md_resource_wakeup_signal ::
  "(int \<Rightarrow> unit result) \<Rightarrow> nat option \<Rightarrow> resource_store \<Rightarrow> unit result \<times> resource_store" where
  "md_resource_wakeup_signal event wake s =
     (case wake of None \<Rightarrow> (Inr (), s)
      | Some w \<Rightarrow> (case rs_wakeups s w of None \<Rightarrow> (Inr (), s)
          | Some k \<Rightarrow> (event (wk_fd k), s\<lparr>rs_signals := rs_signals s @ [wk_fd k]\<rparr>)))"

section \<open>Turns\<close>

definition md_resource_order_state :: "nat option \<Rightarrow> resource_store \<Rightarrow> order_state" where
  "md_resource_order_state op s =
     (case op of None \<Rightarrow> MD_RESOURCE_ORDER_IDLE | Some x \<Rightarrow> or_state (rs_orders s x))"

text \<open>The result is whether the turn is there at once.\<close>

definition md_resource_order_begin ::
  "nat option \<Rightarrow> nat option \<Rightarrow> nat option \<Rightarrow> resource_store \<Rightarrow> bool result \<times> resource_store" where
  "md_resource_order_begin queue op wake s =
     (case (queue, op) of
        (Some q, Some x) \<Rightarrow>
          let r = rs_orders s x in
          if md_resource_order_state op s \<noteq> MD_RESOURCE_ORDER_IDLE \<or> or_queue r \<noteq> None \<or> or_previous r \<noteq> None \<or> or_next r \<noteq> None
          then (Inl EBUSY, s)
          else
            let s1 = md_resource_wakeup_retain wake s;
                k = rs_queues s1 q;
                s2 = put_order x (r\<lparr>or_queue := Some q, or_wakeup := wake, or_previous := rq_last k\<rparr>) s1;
                s3 = (case rq_last k of
                        Some l \<Rightarrow> put_queue q (k\<lparr>rq_last := Some x\<rparr>) (put_order l ((rs_orders s2 l)\<lparr>or_next := Some x\<rparr>) s2)
                      | None \<Rightarrow> put_queue q (k\<lparr>rq_first := Some x, rq_last := Some x\<rparr>) s2);
                ready = (rq_first (rs_queues s3 q) = Some x)
            in (Inr ready, put_order x ((rs_orders s3 x)\<lparr>or_state :=
                  (if ready then MD_RESOURCE_ORDER_READY else MD_RESOURCE_ORDER_QUEUED)\<rparr>) s3)
      | _ \<Rightarrow> (Inl EINVAL, s))"

definition md_resource_order_start :: "nat option \<Rightarrow> resource_store \<Rightarrow> unit result \<times> resource_store" where
  "md_resource_order_start op s =
     (case op of None \<Rightarrow> (Inl EINVAL, s)
      | Some x \<Rightarrow>
         if or_queue (rs_orders s x) = None then (Inl EINVAL, s)
         else if md_resource_order_state op s \<noteq> MD_RESOURCE_ORDER_READY then (Inl EINVAL, s)
         else (Inr (), put_order x ((rs_orders s x)\<lparr>or_state := MD_RESOURCE_ORDER_RUNNING\<rparr>) s))"

text \<open>Taking a record out of the list and handing the turn on. It is in the queue.\<close>

definition unlink :: "nat \<Rightarrow> nat \<Rightarrow> resource_store \<Rightarrow> resource_store" where
  "unlink q x s =
     (let r = rs_orders s x;
          s1 = (case or_previous r of
                  Some p \<Rightarrow> put_order p ((rs_orders s p)\<lparr>or_next := or_next r\<rparr>) s
                | None \<Rightarrow> put_queue q ((rs_queues s q)\<lparr>rq_first := or_next r\<rparr>) s);
          s2 = (case or_next r of
                  Some n \<Rightarrow> put_order n ((rs_orders s1 n)\<lparr>or_previous := or_previous r\<rparr>) s1
                | None \<Rightarrow> put_queue q ((rs_queues s1 q)\<lparr>rq_last := or_previous r\<rparr>) s1)
      in put_order x zero_order s2)"

definition retire :: "(int \<Rightarrow> unit result) \<Rightarrow> nat \<Rightarrow> nat \<Rightarrow> resource_store \<Rightarrow> unit result \<times> resource_store" where
  "retire event q x s =
     (let owner = or_wakeup (rs_orders s x); first = (rq_first (rs_queues s q) = Some x);
          s1 = unlink q x s
      in case (if first then rq_first (rs_queues s1 q) else None) of
           None \<Rightarrow> (Inr (), md_resource_wakeup_release owner s1)
         | Some h \<Rightarrow>
             let s2 = put_order h ((rs_orders s1 h)\<lparr>or_state := MD_RESOURCE_ORDER_READY\<rparr>) s1;
                 wake = or_wakeup (rs_orders s2 h);
                 s3 = md_resource_wakeup_retain wake s2;
                 (error, s4) = md_resource_wakeup_signal event wake s3
             in (error, md_resource_wakeup_release owner (md_resource_wakeup_release wake s4)))"

definition md_resource_order_move :: "nat option \<Rightarrow> nat option \<Rightarrow> resource_store \<Rightarrow> unit result \<times> resource_store" where
  "md_resource_order_move src dst s =
     (case (src, dst) of
        (Some a, Some b) \<Rightarrow>
          (case or_queue (rs_orders s a) of
             None \<Rightarrow> (Inl EINVAL, s)
           | Some q \<Rightarrow>
              let t = rs_orders s b; r = rs_orders s a in
              if a = b then (Inl EINVAL, s)
              else if or_queue t \<noteq> None \<or> md_resource_order_state dst s \<noteq> MD_RESOURCE_ORDER_IDLE \<or> or_wakeup t \<noteq> None
                   \<or> or_previous t \<noteq> None \<or> or_next t \<noteq> None then (Inl EBUSY, s)
              else
                let s1 = put_order b r s;
                    s2 = (case or_previous r of
                            Some p \<Rightarrow> put_order p ((rs_orders s1 p)\<lparr>or_next := Some b\<rparr>) s1
                          | None \<Rightarrow> put_queue q ((rs_queues s1 q)\<lparr>rq_first := Some b\<rparr>) s1);
                    s3 = (case or_next r of
                            Some n \<Rightarrow> put_order n ((rs_orders s2 n)\<lparr>or_previous := Some b\<rparr>) s2
                          | None \<Rightarrow> put_queue q ((rs_queues s2 q)\<lparr>rq_last := Some b\<rparr>) s2)
                in (Inr (), put_order a zero_order s3))
      | _ \<Rightarrow> (Inl EINVAL, s))"

text \<open>The result of a cancellation is whether the turn is kept until its completion.\<close>

definition md_resource_order_cancel ::
  "(int \<Rightarrow> unit result) \<Rightarrow> nat option \<Rightarrow> resource_store \<Rightarrow> bool result \<times> resource_store" where
  "md_resource_order_cancel event op s =
     (case op of None \<Rightarrow> (Inl EINVAL, s)
      | Some x \<Rightarrow>
         (case or_queue (rs_orders s x) of None \<Rightarrow> (Inl EINVAL, s)
          | Some q \<Rightarrow>
             let state = md_resource_order_state op s in
             if state = MD_RESOURCE_ORDER_RUNNING \<or> state = MD_RESOURCE_ORDER_CANCELLING
             then (Inr True, put_order x ((rs_orders s x)\<lparr>or_state := MD_RESOURCE_ORDER_CANCELLING\<rparr>) s)
             else if state \<noteq> MD_RESOURCE_ORDER_QUEUED \<and> state \<noteq> MD_RESOURCE_ORDER_READY then (Inl EINVAL, s)
             else (case retire event q x s of (r, s1) \<Rightarrow> (map_sum id (\<lambda>_. False) r, s1))))"

definition md_resource_order_complete ::
  "(int \<Rightarrow> unit result) \<Rightarrow> nat option \<Rightarrow> resource_store \<Rightarrow> unit result \<times> resource_store" where
  "md_resource_order_complete event op s =
     (case op of None \<Rightarrow> (Inl EINVAL, s)
      | Some x \<Rightarrow>
         (case or_queue (rs_orders s x) of None \<Rightarrow> (Inl EINVAL, s)
          | Some q \<Rightarrow>
             let state = md_resource_order_state op s in
             if state \<noteq> MD_RESOURCE_ORDER_RUNNING \<and> state \<noteq> MD_RESOURCE_ORDER_CANCELLING then (Inl EINVAL, s)
             else retire event q x s))"

section \<open>The list a queue stands for\<close>

definition fst_of :: "nat list \<Rightarrow> nat option \<Rightarrow> nat option" where
  "fst_of xs n = (case xs of [] \<Rightarrow> n | x # _ \<Rightarrow> Some x)"

definition lst_of :: "nat option \<Rightarrow> nat list \<Rightarrow> nat option" where
  "lst_of p xs = (if xs = [] then p else Some (last xs))"

lemma fst_of_simps [simp]: "fst_of [] n = n" "fst_of (x # xs) n = Some x"
  by (simp_all add: fst_of_def)

lemma lst_of_simps [simp]: "lst_of p [] = p" "lst_of p (xs @ [x]) = Some x" "lst_of p (x # xs) = lst_of (Some x) xs"
  by (simp_all add: lst_of_def)

lemma lst_of_append: "lst_of p (xs @ ys) = lst_of (lst_of p xs) ys" by (simp add: lst_of_def)

text \<open>A segment of the list between a previous and a following record.\<close>

fun seg :: "(nat \<Rightarrow> resource_order) \<Rightarrow> nat option \<Rightarrow> nat list \<Rightarrow> nat option \<Rightarrow> bool" where
  "seg f p [] n = True"
| "seg f p (x # xs) n = (or_previous (f x) = p \<and> or_next (f x) = fst_of xs n \<and> seg f (Some x) xs n)"

lemma seg_append: "seg f p (xs @ ys) n \<longleftrightarrow> seg f p xs (fst_of ys n) \<and> seg f (lst_of p xs) ys n"
proof (induction xs arbitrary: p)
  case (Cons x xs)
  have "fst_of (xs @ ys) n = fst_of xs (fst_of ys n)" by (cases xs) simp_all
  thus ?case by (simp add: Cons)
qed simp

lemma seg_cong:
  "(\<And>x. x \<in> set xs \<Longrightarrow> or_previous (g x) = or_previous (f x) \<and> or_next (g x) = or_next (f x)) \<Longrightarrow> seg g p xs n = seg f p xs n"
  by (induction xs arbitrary: p) simp_all

lemma seg_upd_other: "z \<notin> set xs \<Longrightarrow> seg (f(z := r)) p xs n = seg f p xs n"
  by (rule seg_cong) auto

lemma seg_set_next:
  assumes "seg f p (xs @ [x]) n" "x \<notin> set xs"
  shows "seg (f(x := (f x)\<lparr>or_next := m\<rparr>)) p (xs @ [x]) m"
  using assms by (simp add: seg_append seg_upd_other)

lemma seg_set_previous:
  assumes "seg f p (x # xs) n" "x \<notin> set xs"
  shows "seg (f(x := (f x)\<lparr>or_previous := m\<rparr>)) m (x # xs) n"
  using assms by (simp add: seg_upd_other)

text \<open>A queue stands for a list whose first record has the turn and whose others wait.\<close>

definition has_turn :: "order_state \<Rightarrow> bool" where
  "has_turn st \<longleftrightarrow> st \<in> {MD_RESOURCE_ORDER_READY, MD_RESOURCE_ORDER_RUNNING, MD_RESOURCE_ORDER_CANCELLING}"

definition queue_ok :: "resource_store \<Rightarrow> nat \<Rightarrow> nat list \<Rightarrow> bool" where
  "queue_ok s q xs \<longleftrightarrow> seg (rs_orders s) None xs None \<and> distinct xs
     \<and> rs_queues s q = \<lparr>rq_first = fst_of xs None, rq_last = lst_of None xs\<rparr>
     \<and> (\<forall>x. or_queue (rs_orders s x) = Some q \<longleftrightarrow> x \<in> set xs)
     \<and> (xs \<noteq> [] \<longrightarrow> has_turn (or_state (rs_orders s (hd xs))))
     \<and> (\<forall>x \<in> set (tl xs). or_state (rs_orders s x) = MD_RESOURCE_ORDER_QUEUED)"

definition order_wf :: "resource_store \<Rightarrow> (nat \<Rightarrow> nat list) \<Rightarrow> bool" where
  "order_wf s A \<longleftrightarrow> (\<forall>q. queue_ok s q (A q)) \<and> (\<forall>x. or_queue (rs_orders s x) = None \<longrightarrow> rs_orders s x = zero_order)"

lemma order_wf_queue: "order_wf s A \<Longrightarrow> or_queue (rs_orders s x) = Some q \<longleftrightarrow> x \<in> set (A q)"
  by (simp add: order_wf_def queue_ok_def)

lemma order_wf_turn:
  assumes "order_wf s A" "A q = x # xs"
  shows "has_turn (or_state (rs_orders s x))"
  using assms by (auto simp: order_wf_def queue_ok_def dest!: spec [of _ q])

lemma order_wf_wait:
  assumes "order_wf s A" "A q = y # xs" "x \<in> set xs"
  shows "or_state (rs_orders s x) = MD_RESOURCE_ORDER_QUEUED"
  using assms by (auto simp: order_wf_def queue_ok_def dest!: spec [of _ q])

text \<open>Only the records and the queues matter; wakeup tokens do not.\<close>

lemma order_wf_cong:
  "rs_orders t = rs_orders s \<Longrightarrow> rs_queues t = rs_queues s \<Longrightarrow> order_wf t A = order_wf s A"
  by (simp add: order_wf_def queue_ok_def)

lemma wakeup_frame [simp]:
  "rs_orders (md_resource_wakeup_retain w s) = rs_orders s" "rs_queues (md_resource_wakeup_retain w s) = rs_queues s"
  "rs_orders (md_resource_wakeup_release w s) = rs_orders s" "rs_queues (md_resource_wakeup_release w s) = rs_queues s"
  "rs_orders (snd (md_resource_wakeup_signal event w s)) = rs_orders s" "rs_queues (snd (md_resource_wakeup_signal event w s)) = rs_queues s"
  by (simp_all add: md_resource_wakeup_retain_def md_resource_wakeup_release_def md_resource_wakeup_signal_def split: option.split)

lemma put_frame [simp]:
  "rs_orders (put_order x r s) = (rs_orders s)(x := r)" "rs_queues (put_order x r s) = rs_queues s"
  "rs_orders (put_queue q k s) = rs_orders s" "rs_queues (put_queue q k s) = (rs_queues s)(q := k)"
  by (simp_all add: put_order_def put_queue_def)

text \<open>A change of one queue and of records that belong to it alone.\<close>

lemma order_wf_change:
  assumes wf: "order_wf s A" and ok: "queue_ok t q xs"
    and queues: "\<And>r. r \<noteq> q \<Longrightarrow> rs_queues t r = rs_queues s r"
    and frame: "\<And>x. or_queue (rs_orders s x) \<notin> {None, Some q} \<Longrightarrow> rs_orders t x = rs_orders s x"
    and own: "\<And>x. or_queue (rs_orders s x) \<in> {None, Some q} \<Longrightarrow> or_queue (rs_orders t x) = Some q \<or> rs_orders t x = zero_order"
  shows "order_wf t (A(q := xs))"
  unfolding order_wf_def
proof (intro conjI allI impI)
  fix r
  show "queue_ok t r ((A(q := xs)) r)"
  proof (cases "r = q")
    case False
    have old: "queue_ok s r (A r)" using wf by (simp add: order_wf_def)
    have same: "rs_orders t x = rs_orders s x" if "x \<in> set (A r)" for x
      using that False order_wf_queue [OF wf, of x r] by (intro frame) simp
    have "or_queue (rs_orders t x) = Some r \<longleftrightarrow> or_queue (rs_orders s x) = Some r" for x
      using frame [of x] own [of x] False by (cases "or_queue (rs_orders s x) \<in> {None, Some q}") (auto simp: zero_order_def)
    moreover have "seg (rs_orders t) None (A r) None = seg (rs_orders s) None (A r) None"
      using same by (intro seg_cong) simp
    ultimately show ?thesis
      using old False same queues [OF False] by (cases "A r") (auto simp: queue_ok_def)
  qed (use ok in simp)
next
  fix x
  assume "or_queue (rs_orders t x) = None"
  thus "rs_orders t x = zero_order"
    using own [of x] frame [of x] by (cases "or_queue (rs_orders s x) \<in> {None, Some q}") auto
qed

lemma begin_orders:
  assumes wf: "order_wf s A" and idle: "or_queue (rs_orders s x) = None"
  shows "case md_resource_order_begin (Some q) (Some x) wake s of
    (r, t) \<Rightarrow> r = Inr (A q = []) \<and> order_wf t (A(q := A q @ [x]))"
proof -
  have zero: "rs_orders s x = zero_order" using wf idle by (simp add: order_wf_def)
  have ok: "queue_ok s q (A q)" using wf by (simp add: order_wf_def)
  have new: "x \<notin> set (A q)" using order_wf_queue [OF wf, of x q] idle by simp
  have free: "or_queue (rs_orders s y) = None \<Longrightarrow> rs_orders s y = zero_order" for y using wf by (simp add: order_wf_def)
  obtain r t where run: "md_resource_order_begin (Some q) (Some x) wake s = (r, t)" by fastforce
  show ?thesis
  proof (cases "A q" rule: rev_cases)
    case Nil
    have q: "rs_queues s q = \<lparr>rq_first = None, rq_last = None\<rparr>" using ok Nil by (simp add: queue_ok_def)
    let ?r = "\<lparr>or_queue = Some q, or_previous = None, or_next = None, or_state = MD_RESOURCE_ORDER_READY, or_wakeup = wake\<rparr>"
    have t: "r = Inr True" "rs_orders t = (rs_orders s)(x := ?r)"
        "rs_queues t = (rs_queues s)(q := \<lparr>rq_first = Some x, rq_last = Some x\<rparr>)"
      using run zero q by (auto simp: md_resource_order_begin_def md_resource_order_state_def Let_def zero_order_def)
    have "queue_ok t q [x]"
      using t ok Nil by (auto simp: queue_ok_def has_turn_def)
    with wf have "order_wf t (A(q := [x]))"
      by (rule order_wf_change) (use t ok Nil idle free in \<open>auto simp: queue_ok_def\<close>)
    thus ?thesis using run t Nil by simp
  next
    case (snoc xs l)
    have q: "rs_queues s q = \<lparr>rq_first = fst_of (xs @ [l]) None, rq_last = Some l\<rparr>"
      using ok snoc by (simp add: queue_ok_def)
    have first: "fst_of (xs @ [l]) None \<noteq> Some x" using new snoc by (cases xs) auto
    let ?r = "\<lparr>or_queue = Some q, or_previous = Some l, or_next = None, or_state = MD_RESOURCE_ORDER_QUEUED, or_wakeup = wake\<rparr>"
    have t: "r = Inr False" "rs_orders t = (rs_orders s)(l := (rs_orders s l)\<lparr>or_next := Some x\<rparr>, x := ?r)"
        "rs_queues t = (rs_queues s)(q := \<lparr>rq_first = fst_of (xs @ [l]) None, rq_last = Some x\<rparr>)"
      using run zero q first new snoc
      by (auto simp: md_resource_order_begin_def md_resource_order_state_def Let_def zero_order_def)
    have lq: "or_queue (rs_orders s l) = Some q" using order_wf_queue [OF wf, of l q] snoc by simp
    have "seg (rs_orders t) None (xs @ [l]) (Some x)"
      unfolding t(2) using ok snoc new by (subst seg_upd_other) (auto simp: queue_ok_def intro!: seg_set_next)
    hence seg: "seg (rs_orders t) None (xs @ [l, x]) None"
      using t(2) seg_append [of "rs_orders t" None "xs @ [l]" "[x]" None] by simp
    have "queue_ok t q (xs @ [l, x])"
      unfolding queue_ok_def
    proof (intro conjI)
      show "\<forall>y. or_queue (rs_orders t y) = Some q \<longleftrightarrow> y \<in> set (xs @ [l, x])"
        using t(2) ok snoc by (auto simp: queue_ok_def)
      show "\<forall>y \<in> set (tl (xs @ [l, x])). or_state (rs_orders t y) = MD_RESOURCE_ORDER_QUEUED"
        using t(2) ok snoc by (cases xs) (auto simp: queue_ok_def)
      show "xs @ [l, x] \<noteq> [] \<longrightarrow> has_turn (or_state (rs_orders t (hd (xs @ [l, x]))))"
        using t(2) ok snoc new by (cases xs) (auto simp: queue_ok_def)
      show "rs_queues t q = \<lparr>rq_first = fst_of (xs @ [l, x]) None, rq_last = lst_of None (xs @ [l, x])\<rparr>"
        using t(3) by (cases xs) (simp_all add: lst_of_def)
      show "distinct (xs @ [l, x])" using ok snoc new by (auto simp: queue_ok_def)
    qed (rule seg)
    with wf have "order_wf t (A(q := xs @ [l, x]))"
      by (rule order_wf_change) (use t lq idle free in auto)
    thus ?thesis using run t snoc by simp
  qed
qed

lemma fst_of_neq: "xs \<noteq> [] \<Longrightarrow> fst_of xs n = Some (hd xs)" by (cases xs) simp_all

lemma fst_of_append: "fst_of (xs @ ys) n = fst_of xs (fst_of ys n)" by (cases xs) simp_all

lemma put_state_wf:
  assumes wf: "order_wf s A" and q: "A q = x # xs" and turn: "has_turn st"
  shows "order_wf (put_order x ((rs_orders s x)\<lparr>or_state := st\<rparr>) s) A"
proof -
  let ?t = "put_order x ((rs_orders s x)\<lparr>or_state := st\<rparr>) s"
  have ok: "queue_ok s q (x # xs)" using wf q by (metis order_wf_def)
  have xq: "or_queue (rs_orders s x) = Some q" using order_wf_queue [OF wf, of x q] q by simp
  have "seg (rs_orders ?t) None (x # xs) None = seg (rs_orders s) None (x # xs) None" by (rule seg_cong) simp
  hence "queue_ok ?t q (x # xs)" using ok turn by (auto simp: queue_ok_def)
  with wf have "order_wf ?t (A(q := x # xs))"
    by (rule order_wf_change) (use xq wf in \<open>auto simp: order_wf_def\<close>)
  thus ?thesis using q by (simp add: fun_upd_idem)
qed

lemma unlink_seg:
  assumes seg: "seg (rs_orders s) None (xs @ x # ys) None" and dist: "distinct (xs @ x # ys)"
    and q: "rs_queues s q = \<lparr>rq_first = fst_of (xs @ x # ys) None, rq_last = lst_of None (xs @ x # ys)\<rparr>"
  shows "seg (rs_orders (unlink q x s)) None (xs @ ys) None"
    "rs_queues (unlink q x s) = (rs_queues s)(q := \<lparr>rq_first = fst_of (xs @ ys) None, rq_last = lst_of None (xs @ ys)\<rparr>)"
proof -
  let ?f = "rs_orders s" and ?n = "fst_of ys None" and ?p = "lst_of None xs"
  have x: "or_previous (?f x) = ?p" "or_next (?f x) = ?n" "seg ?f None xs (Some x)" "seg ?f (Some x) ys None"
    using seg by (simp_all add: seg_append)
  define f1 where "f1 = (case ?p of Some p \<Rightarrow> ?f(p := (?f p)\<lparr>or_next := ?n\<rparr>) | None \<Rightarrow> ?f)"
  define f2 where "f2 = (case ?n of Some n \<Rightarrow> f1(n := (f1 n)\<lparr>or_previous := ?p\<rparr>) | None \<Rightarrow> f1)"
  have f1: "seg f1 None xs ?n" "seg f1 (Some x) ys None"
    using x dist by (cases xs rule: rev_cases; force simp: f1_def seg_upd_other intro!: seg_set_next)+
  have "seg f2 None xs ?n" "seg f2 ?p ys None"
    using f1 dist by (cases ys; force simp: f2_def seg_upd_other intro!: seg_set_previous)+
  hence "seg (f2(x := zero_order)) None (xs @ ys) None"
    using dist by (simp add: seg_append seg_upd_other)
  moreover have "rs_orders (unlink q x s) = f2(x := zero_order)"
    by (auto simp: unlink_def Let_def x f1_def f2_def split: option.split)
  ultimately show "seg (rs_orders (unlink q x s)) None (xs @ ys) None" by simp
  show "rs_queues (unlink q x s) = (rs_queues s)(q := \<lparr>rq_first = fst_of (xs @ ys) None, rq_last = lst_of None (xs @ ys)\<rparr>)"
    using q by (cases "xs = []"; cases "ys = []") (auto simp: unlink_def Let_def x lst_of_def fst_of_neq fst_of_append)
qed

lemma unlink_fields:
  "rs_orders (unlink q x s) x = zero_order"
  "z \<noteq> x \<Longrightarrow> or_state (rs_orders (unlink q x s) z) = or_state (rs_orders s z)"
  "z \<noteq> x \<Longrightarrow> or_queue (rs_orders (unlink q x s) z) = or_queue (rs_orders s z)"
  "z \<noteq> x \<Longrightarrow> or_wakeup (rs_orders (unlink q x s) z) = or_wakeup (rs_orders s z)"
  "z \<noteq> x \<Longrightarrow> or_previous (rs_orders s x) \<noteq> Some z \<Longrightarrow> or_next (rs_orders s x) \<noteq> Some z
     \<Longrightarrow> rs_orders (unlink q x s) z = rs_orders s z"
  by (auto simp: unlink_def Let_def split: option.split)

lemma queue_neighbours:
  assumes "seg f None (xs @ x # ys) None"
  shows "or_previous (f x) = Some z \<Longrightarrow> z \<in> set xs" "or_next (f x) = Some z \<Longrightarrow> z \<in> set ys"
  using assms by (auto simp: seg_append lst_of_def fst_of_def split: if_splits list.splits)

lemma retire_frame:
  assumes "rs_queues s q = \<lparr>rq_first = fst_of (xs @ x # ys) None, rq_last = l\<rparr>" "x \<notin> set xs"
    "rs_queues (unlink q x s) q = \<lparr>rq_first = fst_of (xs @ ys) None, rq_last = l'\<rparr>"
  shows "rs_queues (snd (retire event q x s)) = rs_queues (unlink q x s)"
    "rs_orders (snd (retire event q x s)) = (case ys of
       h # _ \<Rightarrow> if xs = [] then (rs_orders (unlink q x s))(h := (rs_orders (unlink q x s) h)\<lparr>or_state := MD_RESOURCE_ORDER_READY\<rparr>)
               else rs_orders (unlink q x s)
     | [] \<Rightarrow> rs_orders (unlink q x s))"
proof -
  have first: "rq_first (rs_queues s q) = Some x \<longleftrightarrow> xs = []" using assms(1,2) by (cases xs) auto
  show "rs_queues (snd (retire event q x s)) = rs_queues (unlink q x s)"
    by (simp add: retire_def Let_def split: option.split prod.split) (metis put_frame(2) snd_conv wakeup_frame(2,6))
  show "rs_orders (snd (retire event q x s)) = (case ys of
       h # _ \<Rightarrow> if xs = [] then (rs_orders (unlink q x s))(h := (rs_orders (unlink q x s) h)\<lparr>or_state := MD_RESOURCE_ORDER_READY\<rparr>)
               else rs_orders (unlink q x s)
     | [] \<Rightarrow> rs_orders (unlink q x s))"
    unfolding retire_def Let_def first using assms(3)
    by (cases "xs = []"; cases ys) (simp_all add: split_beta)
qed

lemma queue_okD:
  assumes "queue_ok s q xs"
  shows "seg (rs_orders s) None xs None" "distinct xs" "rs_queues s q = \<lparr>rq_first = fst_of xs None, rq_last = lst_of None xs\<rparr>"
    "or_queue (rs_orders s z) = Some q \<longleftrightarrow> z \<in> set xs"
  using assms by (auto simp: queue_ok_def)

text \<open>Retiring takes the order out and passes the turn to a new first one.\<close>

lemma retire_effects:
  assumes ok: "queue_ok s q (xs @ x # ys)"
  shows "rs_queues (snd (retire event q x s)) = rs_queues (unlink q x s)"
    "rs_orders (snd (retire event q x s)) = (case ys of
       h # _ \<Rightarrow> if xs = [] then (rs_orders (unlink q x s))(h := (rs_orders (unlink q x s) h)\<lparr>or_state := MD_RESOURCE_ORDER_READY\<rparr>)
                else rs_orders (unlink q x s)
     | [] \<Rightarrow> rs_orders (unlink q x s))"
proof -
  note d = queue_okD [OF ok]
  show "rs_queues (snd (retire event q x s)) = rs_queues (unlink q x s)"
    "rs_orders (snd (retire event q x s)) = (case ys of
       h # _ \<Rightarrow> if xs = [] then (rs_orders (unlink q x s))(h := (rs_orders (unlink q x s) h)\<lparr>or_state := MD_RESOURCE_ORDER_READY\<rparr>)
                else rs_orders (unlink q x s)
     | [] \<Rightarrow> rs_orders (unlink q x s))"
    using retire_frame [OF d(3), of "lst_of None (xs @ ys)"] d(2) unlink_seg(2) [OF d(1-3)] by auto
qed

lemma retire_links:
  assumes "queue_ok s q (xs @ x # ys)"
  shows "or_previous (rs_orders (snd (retire event q x s)) z) = or_previous (rs_orders (unlink q x s) z)
      \<and> or_next (rs_orders (snd (retire event q x s)) z) = or_next (rs_orders (unlink q x s) z)
      \<and> or_queue (rs_orders (snd (retire event q x s)) z) = or_queue (rs_orders (unlink q x s) z)"
  by (auto simp: retire_effects(2) [OF assms] split: list.split)

lemma retire_queue_ok:
  assumes ok: "queue_ok s q (xs @ x # ys)"
  shows "queue_ok (snd (retire event q x s)) q (xs @ ys)"
proof -
  let ?t = "snd (retire event q x s)"
  note d = queue_okD [OF ok]
  note u = unlink_seg [OF d(1-3)]
  note fr = retire_effects [OF ok, of event]
  note links = retire_links [OF ok, of event]
  have state: "or_state (rs_orders ?t z) = or_state (rs_orders s z)" if "z \<noteq> x" "\<not> (xs = [] \<and> z = hd ys)" for z
    using that by (auto simp: fr(2) unlink_fields split: list.split)
  show ?thesis unfolding queue_ok_def
  proof (intro conjI allI ballI)
    show "seg (rs_orders ?t) None (xs @ ys) None" using u(1) links by (subst seg_cong) auto
    show "distinct (xs @ ys)" using d(2) by simp
    show "rs_queues ?t q = \<lparr>rq_first = fst_of (xs @ ys) None, rq_last = lst_of None (xs @ ys)\<rparr>" using fr(1) u(2) by simp
    show "or_queue (rs_orders ?t z) = Some q \<longleftrightarrow> z \<in> set (xs @ ys)" for z
      using links [of z] d(4) [of z] unlink_fields(1,3) d(2) by (cases "z = x") (auto simp: zero_order_def)
    show "xs @ ys \<noteq> [] \<longrightarrow> has_turn (or_state (rs_orders ?t (hd (xs @ ys))))"
    proof (cases xs)
      case (Cons h us)
      thus ?thesis using ok d(2) fr(2) by (auto simp: queue_ok_def unlink_fields split: list.split)
    qed (auto simp: fr(2) has_turn_def split: list.split)
    fix z
    assume z: "z \<in> set (tl (xs @ ys))"
    have "z \<noteq> x" "\<not> (xs = [] \<and> z = hd ys)" "z \<in> set (tl (xs @ x # ys))"
      using z d(2) by (cases xs; cases ys; auto)+
    thus "or_state (rs_orders ?t z) = MD_RESOURCE_ORDER_QUEUED"
      using ok state unfolding queue_ok_def by metis
  qed
qed

lemma retire_wf:
  assumes wf: "order_wf s A" and x: "x \<in> set (A q)"
  shows "order_wf (snd (retire event q x s)) (A(q := remove1 x (A q)))"
proof -
  let ?t = "snd (retire event q x s)"
  obtain xs ys where q: "A q = xs @ x # ys" using split_list [OF x] by blast
  have ok: "queue_ok s q (xs @ x # ys)" using wf q by (metis order_wf_def)
  note d = queue_okD [OF ok]
  note fr = retire_effects [OF ok, of event]
  have same: "rs_orders ?t z = rs_orders s z" if "z \<notin> set (xs @ x # ys)" for z
    using that queue_neighbours [OF d(1), of z] unlink_fields(5) [of z x s q] fr(2) by (auto split: list.split)
  have mine: "or_queue (rs_orders ?t z) = Some q \<or> rs_orders ?t z = zero_order" if "z \<in> set (xs @ x # ys)" for z
    using that retire_links [OF ok, of event z] d(4) [of z] unlink_fields(1,3) d(2) fr(2)
    by (cases "z = x") (auto simp: split: list.split)
  have "order_wf ?t (A(q := xs @ ys))"
  proof (rule order_wf_change [OF wf retire_queue_ok [OF ok]])
    fix z
    show "or_queue (rs_orders s z) \<notin> {None, Some q} \<Longrightarrow> rs_orders ?t z = rs_orders s z"
      using d(4) [of z] by (intro same) simp
    show "or_queue (rs_orders s z) \<in> {None, Some q} \<Longrightarrow> or_queue (rs_orders ?t z) = Some q \<or> rs_orders ?t z = zero_order"
      using d(4) [of z] same [of z] mine [of z] wf by (cases "z \<in> set (xs @ x # ys)") (auto simp: order_wf_def)
  qed (simp add: fr(1) unlink_seg(2) [OF d(1-3)])
  thus ?thesis using q d(2) by (simp add: remove1_append)
qed

text \<open>The records after a move.\<close>

definition moved :: "(nat \<Rightarrow> resource_order) \<Rightarrow> nat \<Rightarrow> nat \<Rightarrow> nat \<Rightarrow> resource_order" where
  "moved f a b =
     (let f1 = f(b := f a);
          f2 = (case or_previous (f a) of Some p \<Rightarrow> f1(p := (f1 p)\<lparr>or_next := Some b\<rparr>) | None \<Rightarrow> f1);
          f3 = (case or_next (f a) of Some n \<Rightarrow> f2(n := (f2 n)\<lparr>or_previous := Some b\<rparr>) | None \<Rightarrow> f2)
      in f3(a := zero_order))"

lemma move_orders:
  assumes seg: "seg f None (xs @ a # ys) None" and dist: "distinct (xs @ a # ys)" and b: "b \<notin> set (xs @ a # ys)"
  shows "seg (moved f a b) None (xs @ b # ys) None"
    "moved f a b b = f a"
    "z \<notin> {a, b} \<Longrightarrow> or_state (moved f a b z) = or_state (f z) \<and> or_queue (moved f a b z) = or_queue (f z)"
    "z \<notin> set (xs @ a # ys) \<union> {b} \<Longrightarrow> moved f a b z = f z"
proof -
  let ?n = "fst_of ys None" and ?p = "lst_of None xs"
  define f1 where "f1 = f(b := f a)"
  define f2 where "f2 = (case or_previous (f a) of Some p \<Rightarrow> f1(p := (f1 p)\<lparr>or_next := Some b\<rparr>) | None \<Rightarrow> f1)"
  define f3 where "f3 = (case or_next (f a) of Some n \<Rightarrow> f2(n := (f2 n)\<lparr>or_previous := Some b\<rparr>) | None \<Rightarrow> f2)"
  have eq: "moved f a b = f3(a := zero_order)" unfolding moved_def Let_def f3_def f2_def f1_def by (rule refl)
  have x: "or_previous (f a) = ?p" "or_next (f a) = ?n" "seg f None xs (Some a)" "seg f (Some a) ys None"
    using seg by (simp_all add: seg_append)
  have f1: "seg f1 None xs (Some a)" "seg f1 (Some a) ys None" "f1 b = f a"
    using x b by (simp_all add: f1_def seg_upd_other)
  have f2: "seg f2 None xs (Some b)" "seg f2 (Some a) ys None" "f2 b = f a"
    using f1 dist b x by (cases xs rule: rev_cases; force simp: f2_def seg_upd_other intro!: seg_set_next)+
  have f3: "seg f3 None xs (Some b)" "seg f3 (Some b) ys None" "f3 b = f a"
    using f2 dist b x by (cases ys; force simp: f3_def seg_upd_other intro!: seg_set_previous)+
  show "seg (moved f a b) None (xs @ b # ys) None"
    using f3 dist b x by (auto simp: eq seg_append seg_upd_other)
  show "moved f a b b = f a" using f3 b by (auto simp: eq)
  show "z \<notin> {a, b} \<Longrightarrow> or_state (moved f a b z) = or_state (f z) \<and> or_queue (moved f a b z) = or_queue (f z)"
    by (auto simp: eq f1_def f2_def f3_def split: option.split)
  show "z \<notin> set (xs @ a # ys) \<union> {b} \<Longrightarrow> moved f a b z = f z"
    using queue_neighbours [OF seg, of z] by (auto simp: eq f1_def f2_def f3_def split: option.split)
qed

lemma moved_queue_ok:
  assumes ok: "queue_ok s q (xs @ a # ys)" and b: "b \<notin> set (xs @ a # ys)" and orders: "rs_orders t = moved (rs_orders s) a b"
    and queue: "rs_queues t q = \<lparr>rq_first = fst_of (xs @ b # ys) None, rq_last = lst_of None (xs @ b # ys)\<rparr>"
  shows "queue_ok t q (xs @ b # ys)"
proof -
  note d = queue_okD [OF ok]
  note move = move_orders [OF d(1,2) b, folded orders]
  have gone: "rs_orders t a = zero_order" by (simp add: orders moved_def Let_def)
  have aq: "or_queue (rs_orders s a) = Some q" using d(4) [of a] by simp
  show ?thesis unfolding queue_ok_def
  proof (intro conjI allI ballI)
    show "distinct (xs @ b # ys)" using d(2) b by auto
    show "or_queue (rs_orders t z) = Some q \<longleftrightarrow> z \<in> set (xs @ b # ys)" for z
      using move(2) move(3) [of z] d(4) [of z] gone aq b d(2) by (cases "z \<in> {a, b}") (auto simp: zero_order_def)
    show "xs @ b # ys \<noteq> [] \<longrightarrow> has_turn (or_state (rs_orders t (hd (xs @ b # ys))))"
      using move(2) move(3) [of "hd xs"] ok b d(2) by (cases xs) (auto simp: queue_ok_def)
    fix z
    assume z: "z \<in> set (tl (xs @ b # ys))"
    show "or_state (rs_orders t z) = MD_RESOURCE_ORDER_QUEUED"
    proof (cases "z = b")
      case True
      hence "a \<in> set (tl (xs @ a # ys))" using z b by (cases xs) auto
      thus ?thesis using True move(2) ok by (auto simp: queue_ok_def)
    next
      case False
      hence "z \<noteq> a" "z \<in> set (tl (xs @ a # ys))" using z d(2) by (cases xs; auto)+
      thus ?thesis using False move(3) [of z] ok by (simp add: queue_ok_def)
    qed
  qed (use move(1) queue in simp_all)
qed

lemma move_wf:
  assumes wf: "order_wf s A" and a: "a \<in> set (A q)" and idle: "or_queue (rs_orders s b) = None"
  shows "case md_resource_order_move (Some a) (Some b) s of
    (r, t) \<Rightarrow> r = Inr () \<and> order_wf t (A(q := map (\<lambda>z. if z = a then b else z) (A q)))"
proof -
  obtain xs ys where q: "A q = xs @ a # ys" using split_list [OF a] by blast
  have ok: "queue_ok s q (xs @ a # ys)" using wf q by (metis order_wf_def)
  note d = queue_okD [OF ok]
  have b: "b \<notin> set (xs @ a # ys)" using d(4) [of b] idle by simp
  have zero: "rs_orders s b = zero_order" using wf idle by (simp add: order_wf_def)
  have aq: "or_queue (rs_orders s a) = Some q" using d(4) [of a] by simp
  note links = d(1) [unfolded seg_append, simplified]
  obtain r t where run: "md_resource_order_move (Some a) (Some b) s = (r, t)" by fastforce
  have t: "r = Inr ()" "rs_queues t = (rs_queues s)(q := \<lparr>rq_first = fst_of (xs @ b # ys) None, rq_last = lst_of None (xs @ b # ys)\<rparr>)"
    using run d(3) b zero aq links by (cases "xs = []"; cases "ys = []";
      auto simp: md_resource_order_move_def md_resource_order_state_def zero_order_def Let_def lst_of_def fst_of_neq fst_of_append)+
  have orders: "rs_orders t = moved (rs_orders s) a b"
    using run b zero aq
    by (auto simp: md_resource_order_move_def md_resource_order_state_def zero_order_def moved_def Let_def split: option.split)
  note move = move_orders [OF d(1,2) b, folded orders]
  have gone: "rs_orders t a = zero_order" by (simp add: orders moved_def Let_def)
  have ok': "queue_ok t q (xs @ b # ys)" by (rule moved_queue_ok [OF ok b orders]) (simp add: t(2))
  have "order_wf t (A(q := xs @ b # ys))"
  proof (rule order_wf_change [OF wf ok'])
    fix z
    show "or_queue (rs_orders s z) \<notin> {None, Some q} \<Longrightarrow> rs_orders t z = rs_orders s z"
      using d(4) [of z] idle by (intro move(4)) auto
    show "or_queue (rs_orders s z) \<in> {None, Some q} \<Longrightarrow> or_queue (rs_orders t z) = Some q \<or> rs_orders t z = zero_order"
      using d(4) [of z] move(2) move(3) [of z] move(4) [of z] gone aq wf
      by (cases "z \<in> set (xs @ a # ys) \<union> {b}"; cases "z \<in> {a, b}") (auto simp: order_wf_def)
  qed (simp add: t(2))
  moreover have "map (\<lambda>z. if z = a then b else z) (A q) = xs @ b # ys"
    using q d(2) by (auto intro: map_idI)
  ultimately show ?thesis using run t(1) by simp
qed

section \<open>Sequences of calls\<close>

datatype order_call =
    Begin nat nat "nat option" | Start nat | Cancel nat | Complete nat | Move nat nat

fun order_step :: "(int \<Rightarrow> unit result) \<Rightarrow> order_call \<Rightarrow> resource_store \<Rightarrow> resource_store" where
  "order_step event (Begin q x wake) s = snd (md_resource_order_begin (Some q) (Some x) wake s)"
| "order_step event (Start x) s = snd (md_resource_order_start (Some x) s)"
| "order_step event (Cancel x) s = snd (md_resource_order_cancel event (Some x) s)"
| "order_step event (Complete x) s = snd (md_resource_order_complete event (Some x) s)"
| "order_step event (Move a b) s = snd (md_resource_order_move (Some a) (Some b) s)"

definition order_run :: "(int \<Rightarrow> unit result) \<Rightarrow> order_call list \<Rightarrow> resource_store \<Rightarrow> resource_store" where
  "order_run event cs s = fold (order_step event) cs s"

definition no_orders :: resource_store where
  "no_orders = \<lparr>rs_queues = (\<lambda>_. zero_queue), rs_orders = (\<lambda>_. zero_order), rs_wakeups = (\<lambda>_. None), rs_closed = [], rs_signals = []\<rparr>"

lemma no_orders_wf: "order_wf no_orders (\<lambda>_. [])"
  by (simp add: order_wf_def queue_ok_def no_orders_def zero_queue_def zero_order_def)

text \<open>What a call does to the lists.\<close>

fun list_step :: "order_call \<Rightarrow> resource_store \<Rightarrow> (nat \<Rightarrow> nat list) \<Rightarrow> (nat \<Rightarrow> nat list)" where
  "list_step (Begin q x wake) s A = (if or_queue (rs_orders s x) = None then A(q := A q @ [x]) else A)"
| "list_step (Start x) s A = A"
| "list_step (Cancel x) s A = (case or_queue (rs_orders s x) of None \<Rightarrow> A
     | Some q \<Rightarrow> if or_state (rs_orders s x) \<in> {MD_RESOURCE_ORDER_QUEUED, MD_RESOURCE_ORDER_READY} then A(q := remove1 x (A q)) else A)"
| "list_step (Complete x) s A = (case or_queue (rs_orders s x) of None \<Rightarrow> A
     | Some q \<Rightarrow> if or_state (rs_orders s x) \<in> {MD_RESOURCE_ORDER_RUNNING, MD_RESOURCE_ORDER_CANCELLING} then A(q := remove1 x (A q)) else A)"
| "list_step (Move a b) s A = (case or_queue (rs_orders s a) of None \<Rightarrow> A
     | Some q \<Rightarrow> if or_queue (rs_orders s b) = None then A(q := map (\<lambda>z. if z = a then b else z) (A q)) else A)"

text \<open>Only the first record of a queue is past waiting.\<close>

lemma turn_is_first:
  assumes wf: "order_wf s A" and q: "or_queue (rs_orders s x) = Some q" and st: "or_state (rs_orders s x) \<noteq> MD_RESOURCE_ORDER_QUEUED"
  shows "\<exists>xs. A q = x # xs"
proof -
  have "x \<in> set (A q)" using order_wf_queue [OF wf, of x q] q by simp
  then obtain h xs where h: "A q = h # xs" "x \<in> set (h # xs)" by (cases "A q") auto
  with order_wf_wait [OF wf h(1)] st show ?thesis by auto
qed

lemma queued_state:
  assumes wf: "order_wf s A" and q: "or_queue (rs_orders s x) = Some q"
  shows "or_state (rs_orders s x) \<noteq> MD_RESOURCE_ORDER_IDLE"
proof
  assume idle: "or_state (rs_orders s x) = MD_RESOURCE_ORDER_IDLE"
  then obtain xs where "A q = x # xs" using turn_is_first [OF wf q] by auto
  from order_wf_turn [OF wf this] idle show False by (simp add: has_turn_def)
qed

lemma cancel_wf:
  assumes wf: "order_wf s A"
  shows "order_wf (order_step event (Cancel x) s) (list_step (Cancel x) s A)"
proof (cases "or_queue (rs_orders s x)")
  case (Some q)
  have x: "x \<in> set (A q)" using order_wf_queue [OF wf, of x q] Some by simp
  show ?thesis
  proof (cases "or_state (rs_orders s x) \<in> {MD_RESOURCE_ORDER_RUNNING, MD_RESOURCE_ORDER_CANCELLING}")
    case True
    then obtain xs where "A q = x # xs" using turn_is_first [OF wf Some] by fastforce
    with True wf Some show ?thesis
      by (auto simp: md_resource_order_cancel_def md_resource_order_state_def has_turn_def Let_def intro!: put_state_wf)
  next
    case False
    thus ?thesis using Some queued_state [OF wf Some] retire_wf [OF wf x, of event]
      by (cases "or_state (rs_orders s x)") (simp_all add: md_resource_order_cancel_def md_resource_order_state_def Let_def split_beta)
  qed
qed (use wf in \<open>simp add: md_resource_order_cancel_def\<close>)

lemma order_step_wf:
  assumes wf: "order_wf s A"
  shows "order_wf (order_step event c s) (list_step c s A)"
proof (cases c)
  case (Begin q x wake)
  show ?thesis
  proof (cases "or_queue (rs_orders s x)")
    case None
    thus ?thesis using begin_orders [OF wf None, of q wake] by (simp add: Begin split_beta)
  qed (use wf in \<open>simp add: Begin md_resource_order_begin_def Let_def\<close>)
next
  case (Start x)
  show ?thesis
  proof (cases "or_queue (rs_orders s x) \<noteq> None \<and> or_state (rs_orders s x) = MD_RESOURCE_ORDER_READY")
    case True
    then obtain q xs where "A q = x # xs" using turn_is_first [OF wf, of x] by fastforce
    with True wf show ?thesis
      by (simp add: Start md_resource_order_start_def md_resource_order_state_def) (rule put_state_wf, auto simp: has_turn_def)
  qed (use wf in \<open>auto simp: Start md_resource_order_start_def md_resource_order_state_def\<close>)
next
  case (Cancel x)
  show ?thesis unfolding Cancel by (rule cancel_wf [OF wf])
next
  case (Complete x)
  show ?thesis
  proof (cases "or_queue (rs_orders s x)")
    case (Some q)
    have x: "x \<in> set (A q)" using order_wf_queue [OF wf, of x q] Some by simp
    show ?thesis using Some wf retire_wf [OF wf x, of event]
      by (simp add: Complete md_resource_order_complete_def md_resource_order_state_def Let_def)
  qed (use wf in \<open>simp add: Complete md_resource_order_complete_def\<close>)
next
  case (Move a b)
  show ?thesis
  proof (cases "or_queue (rs_orders s a)")
    case (Some q)
    have a: "a \<in> set (A q)" using order_wf_queue [OF wf, of a q] Some by simp
    show ?thesis
    proof (cases "or_queue (rs_orders s b)")
      case None
      thus ?thesis using Some move_wf [OF wf a None] by (simp add: Move split_beta)
    qed (use wf Some in \<open>simp add: Move md_resource_order_move_def Let_def\<close>)
  qed (use wf in \<open>simp add: Move md_resource_order_move_def\<close>)
qed

section \<open>Every turn comes\<close>

text \<open>Whether a call concerns a record as the one to give up or replace its place.\<close>

fun touches :: "nat \<Rightarrow> order_call \<Rightarrow> bool" where
  "touches x (Cancel y) = (y = x)"
| "touches x (Complete y) = (y = x)"
| "touches x (Move a b) = (a = x)"
| "touches x c = False"

text \<open>Whether a call ends a turn of a queue, and how many of a sequence do.\<close>

fun ends_turn :: "nat \<Rightarrow> order_call \<Rightarrow> resource_store \<Rightarrow> bool" where
  "ends_turn q (Complete y) s = (or_queue (rs_orders s y) = Some q
     \<and> or_state (rs_orders s y) \<in> {MD_RESOURCE_ORDER_RUNNING, MD_RESOURCE_ORDER_CANCELLING})"
| "ends_turn q c s = False"

fun turns_ended :: "(int \<Rightarrow> unit result) \<Rightarrow> nat \<Rightarrow> order_call list \<Rightarrow> resource_store \<Rightarrow> nat" where
  "turns_ended event q [] s = 0"
| "turns_ended event q (c # cs) s = (if ends_turn q c s then 1 else 0) + turns_ended event q cs (order_step event c s)"

lemma remove1_split:
  assumes "distinct (xs @ x # ys)" "y \<noteq> x"
  shows "\<exists>us vs. remove1 y (xs @ x # ys) = us @ x # vs \<and> length us \<le> length xs \<and> (y \<in> set xs \<longrightarrow> length us < length xs)"
proof (cases "y \<in> set xs")
  case True
  hence "remove1 y (xs @ x # ys) = remove1 y xs @ x # ys" "length (remove1 y xs) < length xs"
    using length_pos_if_in_set [of y xs] by (auto simp: remove1_append length_remove1)
  thus ?thesis by fastforce
next
  case False
  hence "remove1 y (xs @ x # ys) = xs @ x # remove1 y ys" using assms by (auto simp: remove1_append)
  thus ?thesis using False by fastforce
qed

lemma ahead_step:
  assumes wf: "order_wf s A" and q: "A q = xs @ x # ys" and free: "\<not> touches x c"
  shows "\<exists>us vs. list_step c s A q = us @ x # vs \<and> length us + (if ends_turn q c s then 1 else 0) \<le> length xs"
proof -
  have dist: "distinct (xs @ x # ys)" using wf q unfolding order_wf_def queue_ok_def by metis
  have xq: "or_queue (rs_orders s x) = Some q" using order_wf_queue [OF wf, of x q] q by simp
  show ?thesis
  proof (cases c)
    case (Begin r y wake)
    thus ?thesis using q by (cases "r = q") auto
  next
    case (Start y)
    thus ?thesis using q by auto
  next
    case (Cancel y)
    hence "y \<noteq> x" using free by simp
    from remove1_split [OF dist this] obtain us vs
      where rm: "remove1 y (A q) = us @ x # vs" "length us \<le> length xs" unfolding q by blast
    have "list_step c s A q = A q \<or> list_step c s A q = remove1 y (A q)" using Cancel by (auto split: option.split)
    moreover have "\<not> ends_turn q c s" using Cancel by simp
    ultimately show ?thesis using rm q by (metis add.right_neutral le_refl)
  next
    case (Complete y)
    hence y: "y \<noteq> x" using free by simp
    have "y \<in> set xs" if "ends_turn q c s"
    proof -
      have "or_queue (rs_orders s y) = Some q" "or_state (rs_orders s y) \<noteq> MD_RESOURCE_ORDER_QUEUED"
        using that Complete by auto
      from turn_is_first [OF wf this] q y show ?thesis by (cases xs) auto
    qed
    with remove1_split [OF dist y] obtain us vs
      where rm: "remove1 y (A q) = us @ x # vs" "ends_turn q c s \<longrightarrow> length us < length xs" unfolding q by blast
    have "list_step c s A q = (if ends_turn q c s then remove1 y (A q) else A q)" using Complete by (auto split: option.split)
    thus ?thesis using rm q by (cases "ends_turn q c s") (auto simp: Suc_le_eq intro: exI [of _ us])
  next
    case (Move a b)
    let ?g = "\<lambda>z. if z = a then b else z"
    have "a \<noteq> x" using Move free by simp
    hence map: "map ?g (A q) = map ?g xs @ x # map ?g ys" using q by simp
    obtain us vs where us: "map ?g (A q) = us @ x # vs" "length us = length xs" by (rule that [OF map]) simp
    have "list_step c s A q = A q \<or> list_step c s A q = map ?g (A q)" using Move by (auto split: option.split)
    moreover have "\<not> ends_turn q c s" using Move by simp
    ultimately show ?thesis using us q by (elim disjE) auto
  qed
qed

lemma ahead_run:
  assumes "order_wf s A" "A q = xs @ x # ys" "\<forall>c \<in> set cs. \<not> touches x c"
  shows "\<exists>B us vs. order_wf (order_run event cs s) B \<and> B q = us @ x # vs \<and> length us + turns_ended event q cs s \<le> length xs"
  using assms
proof (induction cs arbitrary: s A xs ys)
  case Nil
  thus ?case by (auto simp: order_run_def)
next
  case (Cons c cs)
  obtain us vs where step: "list_step c s A q = us @ x # vs" "length us + (if ends_turn q c s then 1 else 0) \<le> length xs"
    using ahead_step [OF Cons.prems(1,2)] Cons.prems(3) by force
  have "\<forall>c \<in> set cs. \<not> touches x c" using Cons.prems(3) by simp
  from Cons.IH [OF order_step_wf [OF Cons.prems(1)] step(1) this]
  obtain B us' vs' where B: "order_wf (order_run event cs (order_step event c s)) B" "B q = us' @ x # vs'"
    "length us' + turns_ended event q cs (order_step event c s) \<le> length us" by blast
  show ?case using B step(2) by (intro exI [of _ B] exI [of _ us'] exI [of _ vs']) (auto simp: order_run_def)
qed

text \<open>
  C7: Turns come in order and to everyone: a record that waits behind others holds the turn, alone,
  as soon as as many turns of its queue have ended as records were ahead of it, whatever else
  happens on any queue meanwhile (arrivals, cancellations of others, moves), as long as its owner
  does not withdraw it.
\<close>

theorem turn_comes:
  assumes "order_wf s A" "A q = xs @ x # ys" "\<forall>c \<in> set cs. \<not> touches x c" "length xs \<le> turns_ended event q cs s"
  shows "has_turn (md_resource_order_state (Some x) (order_run event cs s))
    \<and> (\<forall>y. or_queue (rs_orders (order_run event cs s) y) = Some q \<and> has_turn (md_resource_order_state (Some y) (order_run event cs s)) \<longrightarrow> y = x)"
proof -
  obtain B us vs where B: "order_wf (order_run event cs s) B" "B q = us @ x # vs" "length us + turns_ended event q cs s \<le> length xs"
    using ahead_run [OF assms(1-3)] by blast
  hence "length us = 0" using assms(4) by linarith
  hence first: "B q = x # vs" using B(2) by simp
  have "y = x" if y: "or_queue (rs_orders (order_run event cs s) y) = Some q" "has_turn (or_state (rs_orders (order_run event cs s) y))" for y
  proof -
    have "or_state (rs_orders (order_run event cs s) y) \<noteq> MD_RESOURCE_ORDER_QUEUED" using y(2) by (auto simp: has_turn_def)
    from turn_is_first [OF B(1) y(1) this] first show ?thesis by simp
  qed
  thus ?thesis using order_wf_turn [OF B(1) first] by (auto simp: md_resource_order_state_def)
qed

theorem turn_comes_witness:
  "has_turn (md_resource_order_state (Some 2)
     (order_run (\<lambda>_. Inr ()) [Start 1, Begin 0 3 None, Complete 1] (order_run (\<lambda>_. Inr ()) [Begin 0 1 None, Begin 0 2 None] no_orders)))"
proof -
  let ?e = "\<lambda>_ :: int. Inr () :: unit result" and ?s = "order_run (\<lambda>_. Inr ()) [Begin 0 1 None, Begin 0 2 None] no_orders"
  let ?s1 = "order_step ?e (Begin 0 1 None) no_orders"
  have "order_wf ?s1 (list_step (Begin 0 1 None) no_orders (\<lambda>_. []))" by (rule order_step_wf [OF no_orders_wf])
  from order_step_wf [OF this, of ?e "Begin 0 2 None"]
  have wf: "order_wf ?s (list_step (Begin 0 2 None) ?s1 (list_step (Begin 0 1 None) no_orders (\<lambda>_. [])))" by (simp add: order_run_def)
  have "or_queue (rs_orders ?s1 2) = None" by code_simp
  hence q: "list_step (Begin 0 2 None) ?s1 (list_step (Begin 0 1 None) no_orders (\<lambda>_. [])) 0 = [1] @ 2 # []"
    by (simp add: no_orders_def zero_order_def)
  have "turns_ended ?e 0 [Start 1, Begin 0 3 None, Complete 1] ?s = 1" by code_simp
  with turn_comes [OF wf q, of "[Start 1, Begin 0 3 None, Complete 1]" ?e] show ?thesis by simp
qed

section \<open>Turns on open file descriptions\<close>

text \<open>
  A registry of the descriptions that have active operations: an entry is named by the address of
  its queue, and an operation's order record by the address of the operation.
\<close>

record ofd_entry =
  oe_queue :: nat
  oe_refs :: u32
  oe_fd :: int

record ofd_registry =
  oo_refs :: u32
  oo_entries :: "ofd_entry list"

record ofd_store =
  ofd_resources :: resource_store
  ofd_orders :: "ofd_registry option" \<comment> \<open>\<open>None\<close> when freed\<close>
  ofd_entry_of :: "nat \<Rightarrow> nat option" \<comment> \<open>the entry of an operation; its owner is the registry\<close>

text \<open>\<open>error\<close>: the failures of \<open>calloc\<close> and of the mutex.\<close>

definition md_ofd_orders_new :: "errno option \<Rightarrow> ofd_store \<Rightarrow> unit result \<times> ofd_store" where
  "md_ofd_orders_new error s =
     (if ofd_orders s \<noteq> None then (Inl EINVAL, s)
      else case error of Some e \<Rightarrow> (Inl e, s)
           | None \<Rightarrow> (Inr (), s\<lparr>ofd_orders := Some \<lparr>oo_refs = 1, oo_entries = []\<rparr>\<rparr>))"

definition md_ofd_orders_release :: "ofd_store \<Rightarrow> ofd_store" where
  "md_ofd_orders_release s =
     (case ofd_orders s of None \<Rightarrow> s
      | Some q \<Rightarrow> if oo_refs q \<noteq> 1 then s\<lparr>ofd_orders := Some (q\<lparr>oo_refs := oo_refs q - 1\<rparr>)\<rparr> else s\<lparr>ofd_orders := None\<rparr>)"

definition find_entry :: "nat \<Rightarrow> ofd_registry \<Rightarrow> ofd_entry option" where
  "find_entry k q = find (\<lambda>e. oe_queue e = k) (oo_entries q)"

definition entry_refs :: "nat \<Rightarrow> (u32 \<Rightarrow> u32) \<Rightarrow> ofd_registry \<Rightarrow> ofd_registry" where
  "entry_refs k f q = q\<lparr>oo_entries := map (\<lambda>e. if oe_queue e = k then e\<lparr>oe_refs := f (oe_refs e)\<rparr> else e) (oo_entries q)\<rparr>"

definition close_fd :: "int \<Rightarrow> ofd_store \<Rightarrow> ofd_store" where
  "close_fd fd s = s\<lparr>ofd_resources := (ofd_resources s)\<lparr>rs_closed := rs_closed (ofd_resources s) @ [fd]\<rparr>\<rparr>"

text \<open>The end of an operation: its entry goes with the last one.\<close>

definition ofd_drop :: "nat \<Rightarrow> ofd_store \<Rightarrow> ofd_store" where
  "ofd_drop op s =
     (case (ofd_entry_of s op, ofd_orders s) of
        (Some k, Some q) \<Rightarrow>
          let q1 = entry_refs k (\<lambda>n. n - 1) q;
              gone = (case find_entry k q1 of Some e \<Rightarrow> if oe_refs e = 0 then Some e else None | None \<Rightarrow> None);
              s1 = (case gone of
                      Some e \<Rightarrow> close_fd (oe_fd e) (s\<lparr>ofd_orders := Some (q1\<lparr>oo_entries := filter (\<lambda>e. oe_queue e \<noteq> k) (oo_entries q1)\<rparr>)\<rparr>)
                    | None \<Rightarrow> s\<lparr>ofd_orders := Some q1\<rparr>)
          in md_ofd_orders_release (s1\<lparr>ofd_resources := put_order op zero_order (ofd_resources s1),
                                       ofd_entry_of := (ofd_entry_of s1)(op := None)\<rparr>)
      | _ \<Rightarrow> s)"

text \<open>
  \<open>kcmp\<close> compares two descriptors, 0 when they share their description; \<open>cell\<close>, \<open>dup\<close> and \<open>init\<close>
  are the answers to the creation of an entry.
\<close>

record ofd_os =
  ofd_kcmp :: "int \<Rightarrow> int \<Rightarrow> int result"
  ofd_cell :: "nat option"
  ofd_dup :: "int result"
  ofd_init :: "errno option"

fun ofd_find :: "(int \<Rightarrow> int \<Rightarrow> int result) \<Rightarrow> int \<Rightarrow> ofd_entry list \<Rightarrow> ofd_entry option result" where
  "ofd_find kcmp fd [] = Inr None"
| "ofd_find kcmp fd (e # es) =
     (case kcmp fd (oe_fd e) of Inl err \<Rightarrow> Inl err | Inr d \<Rightarrow> if d = 0 then Inr (Some e) else ofd_find kcmp fd es)"

text \<open>The entry to wait at: the one found, or a new one, or none where nothing is to be reserved.\<close>

definition ofd_admit :: "ofd_os \<Rightarrow> int \<Rightarrow> bool \<Rightarrow> ofd_registry \<Rightarrow> ofd_store \<Rightarrow> nat option result \<times> ofd_store" where
  "ofd_admit os fd reserve q s =
     (case ofd_find (ofd_kcmp os) fd (oo_entries q) of
        Inl e \<Rightarrow> (Inl e, s)
      | Inr (Some e) \<Rightarrow> (Inr (Some (oe_queue e)), s)
      | Inr None \<Rightarrow>
         if \<not> reserve then (Inr None, s)
         else case ofd_cell os of
           None \<Rightarrow> (Inl ENOMEM, s)
         | Some k \<Rightarrow>
            (case ofd_dup os of
               Inl e \<Rightarrow> (Inl e, s)
             | Inr dup \<Rightarrow>
                (case md_resource_queue_init (ofd_init os) k (ofd_resources s) of
                   (Inl e, r) \<Rightarrow> (Inl e, close_fd dup (s\<lparr>ofd_resources := r\<rparr>))
                 | (Inr _, r) \<Rightarrow>
                    (Inr (Some k), s\<lparr>ofd_resources := r,
                       ofd_orders := Some (q\<lparr>oo_entries := \<lparr>oe_queue = k, oe_refs = 0, oe_fd = dup\<rparr> # oo_entries q\<rparr>)\<rparr>))))"

definition md_ofd_order_begin ::
  "ofd_os \<Rightarrow> int \<Rightarrow> bool \<Rightarrow> nat option \<Rightarrow> nat option \<Rightarrow> ofd_store \<Rightarrow> bool result \<times> ofd_store" where
  "md_ofd_order_begin os fd reserve op wake s =
     (case (ofd_orders s, op) of
        (Some q, Some x) \<Rightarrow>
          if fd < 0 then (Inl EINVAL, s)
          else if ofd_entry_of s x \<noteq> None \<or> or_queue (rs_orders (ofd_resources s) x) \<noteq> None then (Inl EBUSY, s)
          else (case ofd_admit os fd reserve q s of
                  (Inl e, s) \<Rightarrow> (Inl e, s)
                | (Inr None, s) \<Rightarrow> (Inr True, s)
                | (Inr (Some k), s) \<Rightarrow>
                    let s1 = s\<lparr>ofd_orders := map_option (\<lambda>q. entry_refs k (\<lambda>n. n + 1) (q\<lparr>oo_refs := oo_refs q + 1\<rparr>)) (ofd_orders s),
                               ofd_entry_of := (ofd_entry_of s)(x \<mapsto> k)\<rparr>;
                        (ready, r) = md_resource_order_begin (Some k) op wake (ofd_resources s1);
                        s2 = s1\<lparr>ofd_resources := r\<rparr>
                    in case ready of Inl e \<Rightarrow> (Inl e, ofd_drop x s2) | Inr b \<Rightarrow> (Inr b, s2))
      | _ \<Rightarrow> (Inl EINVAL, s))"

definition md_ofd_order_state :: "nat option \<Rightarrow> ofd_store \<Rightarrow> order_state" where
  "md_ofd_order_state op s = md_resource_order_state op (ofd_resources s)"

definition md_ofd_order_start :: "nat option \<Rightarrow> ofd_store \<Rightarrow> unit result \<times> ofd_store" where
  "md_ofd_order_start op s =
     (case op of None \<Rightarrow> (Inl EINVAL, s)
      | Some x \<Rightarrow>
         if ofd_entry_of s x = None then (Inl EINVAL, s)
         else (case md_resource_order_start op (ofd_resources s) of (r, t) \<Rightarrow> (r, s\<lparr>ofd_resources := t\<rparr>)))"

definition drop_if_idle :: "nat \<Rightarrow> ofd_store \<Rightarrow> ofd_store" where
  "drop_if_idle x s = (if or_queue (rs_orders (ofd_resources s) x) = None then ofd_drop x s else s)"

definition md_ofd_order_cancel :: "(int \<Rightarrow> unit result) \<Rightarrow> nat option \<Rightarrow> ofd_store \<Rightarrow> bool result \<times> ofd_store" where
  "md_ofd_order_cancel event op s =
     (case op of None \<Rightarrow> (Inl EINVAL, s)
      | Some x \<Rightarrow>
         if ofd_entry_of s x = None then (Inl EINVAL, s)
         else (case md_resource_order_cancel event op (ofd_resources s) of (r, t) \<Rightarrow> (r, drop_if_idle x (s\<lparr>ofd_resources := t\<rparr>))))"

definition md_ofd_order_complete :: "(int \<Rightarrow> unit result) \<Rightarrow> nat option \<Rightarrow> ofd_store \<Rightarrow> unit result \<times> ofd_store" where
  "md_ofd_order_complete event op s =
     (case op of None \<Rightarrow> (Inl EINVAL, s)
      | Some x \<Rightarrow>
         if ofd_entry_of s x = None then (Inl EINVAL, s)
         else (case md_resource_order_complete event op (ofd_resources s) of (r, t) \<Rightarrow> (r, drop_if_idle x (s\<lparr>ofd_resources := t\<rparr>))))"

end
