(* ===== verification/Watch_Queue.thy ===== *)
theory Watch_Queue
  imports Prelude
begin

unbundle bit_operations_syntax

text \<open>
  The queue of file-change records behind a guest's inotify descriptor, from
  \<^verbatim>\<open>src/native/shroot/src/watch_queue.c\<close>. The linked list of records is a list of nodes, the list of
  recycled nodes its length. The stream the guest polls carries one marker byte while there is
  something to read; \<open>wq_markers\<close> is the number of markers on their way. A reader takes a lease on
  the first records and completes it after delivery. What \<open>send\<close>, \<open>recv\<close> and \<open>malloc\<close> answer are
  parameters of the operations; interrupted calls are repeated by the code and not seen here.
\<close>

definition NAME_MAX :: nat where "NAME_MAX = 255"
definition IN_Q_OVERFLOW :: u32 where "IN_Q_OVERFLOW = 0x4000"
definition IN_NONBLOCK :: u32 where "IN_NONBLOCK = 0x800"
definition IN_CLOEXEC :: u32 where "IN_CLOEXEC = 0x80000"

text \<open>A node holds the bytes of its record; the overflow node is part of the queue itself.\<close>

datatype watch_node = Overflow | Event "u8 list"

record watch_queue =
  wq_error :: "errno option"
  wq_limit :: nat
  wq_count :: nat
  wq_bytes :: nat
  wq_list :: "watch_node list"
  wq_free :: nat
  wq_overflow_queued :: bool
  wq_reserved :: nat
  wq_reserved_bytes :: nat
  wq_markers :: nat

definition word_bytes :: "u32 \<Rightarrow> u8 list" where
  "word_bytes w = [ucast w, ucast (drop_bit 8 w), ucast (drop_bit 16 w), ucast (drop_bit 24 w)]"

text \<open>\<open>struct inotify_event\<close> without its name.\<close>

definition event_header :: "u32 \<Rightarrow> u32 \<Rightarrow> u32 \<Rightarrow> nat \<Rightarrow> u8 list" where
  "event_header wd event cookie len = word_bytes wd @ word_bytes event @ word_bytes cookie @ word_bytes (of_nat len)"

definition overflow_bytes :: "u8 list" where
  "overflow_bytes = event_header (- 1) IN_Q_OVERFLOW 0 0"

fun node_bytes :: "watch_node \<Rightarrow> u8 list" where
  "node_bytes Overflow = overflow_bytes"
| "node_bytes (Event bs) = bs"

definition node_size :: "watch_node \<Rightarrow> nat" where
  "node_size r = length (node_bytes r)"

text \<open>The answers to a creation, in the order of the calls: allocation, the socket pair, the two flag changes.\<close>

record create_os =
  co_alloc :: bool
  co_socketpair :: "errno option"
  co_setfl :: "errno option"
  co_setfd :: "errno option"

definition md_watch_queue_create :: "create_os \<Rightarrow> u32 \<Rightarrow> u32 \<Rightarrow> watch_queue result" where
  "md_watch_queue_create os limit flags =
     (if limit > INT_MAX \<or> flags AND NOT (IN_NONBLOCK OR IN_CLOEXEC) \<noteq> 0 then Inl EINVAL
      else if \<not> co_alloc os then Inl ENOMEM
      else case co_socketpair os of Some e \<Rightarrow> Inl e
      | None \<Rightarrow>
         (case (if flags AND IN_NONBLOCK = 0 then co_setfl os else None) of Some e \<Rightarrow> Inl e
          | None \<Rightarrow>
             (case (if flags AND IN_CLOEXEC = 0 then co_setfd os else None) of Some e \<Rightarrow> Inl e
              | None \<Rightarrow> Inr \<lparr>wq_error = None, wq_limit = unat limit, wq_count = 0, wq_bytes = 0, wq_list = [], wq_free = 0,
                   wq_overflow_queued = False, wq_reserved = 0, wq_reserved_bytes = 0, wq_markers = 0\<rparr>)))"

definition md_watch_queue_bytes :: "watch_queue \<Rightarrow> nat" where "md_watch_queue_bytes q = wq_bytes q"

section \<open>Emission\<close>

text \<open>\<open>failed\<close>: the error of \<open>send\<close>, if it failed. The result is \<open>q->error\<close>.\<close>

definition signal_ready :: "errno option \<Rightarrow> watch_queue \<Rightarrow> errno option \<times> watch_queue" where
  "signal_ready failed q =
     (case failed of
        None \<Rightarrow> (wq_error q, q\<lparr>wq_markers := wq_markers q + 1\<rparr>)
      | Some e \<Rightarrow> (Some e, q\<lparr>wq_error := Some e\<rparr>))"

definition append_node :: "errno option \<Rightarrow> watch_node \<Rightarrow> watch_queue \<Rightarrow> errno option \<times> watch_queue" where
  "append_node failed r q =
     (let (e, q) = (if wq_list q = [] then signal_ready failed q else (None, q))
      in if e \<noteq> None then (e, q)
         else (None, q\<lparr>wq_list := wq_list q @ [r], wq_count := wq_count q + 1, wq_bytes := wq_bytes q + node_size r\<rparr>))"

definition overflow :: "errno option \<Rightarrow> watch_queue \<Rightarrow> errno option \<times> watch_queue" where
  "overflow failed q =
     (if wq_overflow_queued q then (None, q)
      else case append_node failed Overflow q of
             (None, q) \<Rightarrow> (None, q\<lparr>wq_overflow_queued := True\<rparr>)
           | (Some e, q) \<Rightarrow> (Some e, q))"

definition padded_size :: "u8 list option \<Rightarrow> nat" where
  "padded_size name = (case name of None \<Rightarrow> 0 | Some n \<Rightarrow> (length n + 1 + 15) div 16 * 16)"

definition event_bytes :: "u32 \<Rightarrow> u32 \<Rightarrow> u32 \<Rightarrow> u8 list option \<Rightarrow> u8 list" where
  "event_bytes wd event cookie name =
     event_header wd event cookie (padded_size name)
     @ (case name of None \<Rightarrow> [] | Some n \<Rightarrow> n @ replicate (padded_size name - length n) 0)"

text \<open>The name is given without its terminating zero; 47 is the slash.\<close>

definition name_error :: "u8 list option \<Rightarrow> errno option" where
  "name_error name =
     (case name of None \<Rightarrow> None
      | Some n \<Rightarrow> if length n > NAME_MAX then Some ENAMETOOLONG else if n = [] \<or> 47 \<in> set n then Some EINVAL else None)"

definition repeats_tail :: "u8 list \<Rightarrow> watch_queue \<Rightarrow> bool" where
  "repeats_tail bs q \<longleftrightarrow> wq_list q \<noteq> [] \<and> wq_reserved q \<noteq> wq_count q \<and> node_bytes (last (wq_list q)) = bs"

definition md_watch_queue_emit ::
  "errno option \<Rightarrow> bool \<Rightarrow> u32 \<Rightarrow> u32 \<Rightarrow> u32 \<Rightarrow> u8 list option \<Rightarrow> watch_queue \<Rightarrow> errno option \<times> watch_queue" where
  "md_watch_queue_emit failed alloc wd event cookie name q =
     (if wq_error q \<noteq> None then (wq_error q, q)
      else if name_error name \<noteq> None then (name_error name, q)
      else
        let bs = event_bytes wd event cookie name in
        if repeats_tail bs q then (None, q)
        else if wq_count q \<ge> wq_limit q then overflow failed q
        else if wq_free q = 0 \<and> \<not> alloc then overflow failed q
        else
          let q1 = (if wq_free q = 0 then q else q\<lparr>wq_free := wq_free q - 1\<rparr>)
          in case append_node failed (Event bs) q1 of
               (None, q2) \<Rightarrow> (None, q2)
             | (Some e, q2) \<Rightarrow> (Some e, q2\<lparr>wq_free := wq_free q2 + 1\<rparr>))"

section \<open>Leases\<close>

text \<open>How many of the records fit into \<open>room\<close> bytes, whole records only.\<close>

fun fitting :: "nat \<Rightarrow> watch_node list \<Rightarrow> nat" where
  "fitting room [] = 0"
| "fitting room (r # rs) = (if node_size r \<le> room then Suc (fitting (room - node_size r) rs) else 0)"

text \<open>\<open>received\<close>: whether \<open>recv\<close> returns what is in the stream.\<close>

definition drain_marker :: "bool \<Rightarrow> watch_queue \<Rightarrow> errno option \<times> watch_queue" where
  "drain_marker received q =
     (if received \<and> wq_markers q > 0 then (None, q\<lparr>wq_markers := wq_markers q - 1\<rparr>) else (Some EIO, q))"

definition md_watch_queue_reserve :: "bool \<Rightarrow> bool \<Rightarrow> nat \<Rightarrow> watch_queue \<Rightarrow> u8 list result \<times> watch_queue" where
  "md_watch_queue_reserve received buffer capacity q =
     (case wq_error q of
        Some e \<Rightarrow> (Inl e, q)
      | None \<Rightarrow>
         if wq_reserved q \<noteq> 0 then (Inl EAGAIN, q)
         else case wq_list q of
           [] \<Rightarrow> (Inl EAGAIN, q)
         | r # _ \<Rightarrow>
            if capacity < node_size r then (Inl EINVAL, q)
            else if \<not> buffer then (Inl EFAULT, q)
            else
              let n = fitting capacity (wq_list q); bs = concat (map node_bytes (take n (wq_list q)))
              in case drain_marker received q of
                   (Some e, q) \<Rightarrow> (Inl e, q\<lparr>wq_error := Some e\<rparr>)
                 | (None, q) \<Rightarrow> (Inr bs, q\<lparr>wq_reserved := n, wq_reserved_bytes := length bs\<rparr>))"

definition md_watch_queue_complete :: "errno option \<Rightarrow> bool \<Rightarrow> watch_queue \<Rightarrow> errno option \<times> watch_queue" where
  "md_watch_queue_complete failed delivered q =
     (let n = wq_reserved q; used = wq_reserved_bytes q; q = q\<lparr>wq_reserved := 0, wq_reserved_bytes := 0\<rparr> in
      if n = 0 then (None, q)
      else if \<not> delivered then signal_ready failed q
      else
        let gone = take n (wq_list q);
            q = q\<lparr>wq_list := drop n (wq_list q), wq_overflow_queued := wq_overflow_queued q \<and> Overflow \<notin> set gone,
                  wq_free := wq_free q + length (filter (\<lambda>r. r \<noteq> Overflow) gone),
                  wq_count := wq_count q - n, wq_bytes := wq_bytes q - used\<rparr>
        in if wq_list q \<noteq> [] then signal_ready failed q else (None, q))"

text \<open>A synchronous read: \<open>deliver\<close> is what the delivery of the bytes returns, 0 for success.\<close>

definition md_watch_queue_read ::
  "bool \<Rightarrow> bool \<Rightarrow> nat \<Rightarrow> (u8 list \<Rightarrow> errno option) \<Rightarrow> errno option \<Rightarrow> watch_queue \<Rightarrow> u8 list result \<times> watch_queue" where
  "md_watch_queue_read received buffer capacity deliver failed q =
     (case md_watch_queue_reserve received buffer capacity q of
        (Inl e, q) \<Rightarrow> (Inl e, q)
      | (Inr bs, q) \<Rightarrow>
          (let r = deliver bs; (completed, q) = md_watch_queue_complete failed (r = None) q
           in (case r of Some e \<Rightarrow> Inl e | None \<Rightarrow> (case completed of Some e \<Rightarrow> Inl e | None \<Rightarrow> Inr bs), q)))"

section \<open>The invariant of the queue\<close>

definition is_event :: "watch_node \<Rightarrow> bool" where "is_event r \<longleftrightarrow> r \<noteq> Overflow"

definition wq_ok :: "watch_queue \<Rightarrow> bool" where
  "wq_ok q \<longleftrightarrow> wq_count q = length (wq_list q)
     \<and> wq_bytes q = sum_list (map node_size (wq_list q))
     \<and> (wq_overflow_queued q \<longleftrightarrow> Overflow \<in> set (wq_list q))
     \<and> length (filter (\<lambda>r. r = Overflow) (wq_list q)) \<le> 1
     \<and> length (filter is_event (wq_list q)) \<le> wq_limit q
     \<and> wq_reserved q \<le> wq_count q
     \<and> wq_reserved_bytes q = sum_list (map node_size (take (wq_reserved q) (wq_list q)))
     \<and> (wq_error q = None \<longrightarrow> wq_markers q = (if wq_list q \<noteq> [] \<and> wq_reserved q = 0 then 1 else 0))"

lemma append_node_ok:
  assumes "append_node failed r q = (e, q')" "wq_error q = None"
  shows "case e of
      Some err \<Rightarrow> wq_list q = [] \<and> failed = Some err \<and> q' = q\<lparr>wq_error := Some err\<rparr>
    | None \<Rightarrow> (wq_list q = [] \<longrightarrow> failed = None) \<and> q' = q\<lparr>wq_markers := wq_markers q + (if wq_list q = [] then 1 else 0),
        wq_list := wq_list q @ [r], wq_count := wq_count q + 1, wq_bytes := wq_bytes q + node_size r\<rparr>"
  using assms by (cases failed) (auto simp: append_node_def signal_ready_def Let_def split: if_splits)

lemma append_keeps:
  assumes ok: "wq_ok q" and run: "append_node failed r q = (None, q')" and err: "wq_error q = None"
    and lim: "r \<noteq> Overflow \<Longrightarrow> wq_count q < wq_limit q" and once: "r = Overflow \<Longrightarrow> \<not> wq_overflow_queued q"
  shows "wq_ok (q'\<lparr>wq_overflow_queued := (wq_overflow_queued q \<or> r = Overflow)\<rparr>) \<and> wq_list q' = wq_list q @ [r]"
proof -
  have q': "q' = q\<lparr>wq_markers := wq_markers q + (if wq_list q = [] then 1 else 0),
        wq_list := wq_list q @ [r], wq_count := wq_count q + 1, wq_bytes := wq_bytes q + node_size r\<rparr>"
    using append_node_ok [OF run err] by simp
  have events: "Suc (length (filter is_event (wq_list q))) \<le> wq_limit q" if "r \<noteq> Overflow"
  proof -
    have "wq_count q = length (wq_list q)" using ok by (simp add: wq_ok_def)
    thus ?thesis using lim [OF that] le_less_trans [OF length_filter_le, of "wq_list q" "wq_limit q" is_event] by simp
  qed
  have "filter (\<lambda>r. r = Overflow) (wq_list q) = []" if "\<not> wq_overflow_queued q"
    using ok that by (auto simp: wq_ok_def filter_empty_conv)
  with ok events once err show ?thesis
    by (auto simp: q' wq_ok_def is_event_def)
qed

lemma overflow_keeps:
  assumes ok: "wq_ok q" and err: "wq_error q = None" and run: "overflow failed q = (e, q')"
  shows "wq_ok q' \<and> wq_list q' = wq_list q @ (if wq_overflow_queued q \<or> e \<noteq> None then [] else [Overflow])
    \<and> wq_reserved q' = wq_reserved q \<and> (e \<noteq> None \<longleftrightarrow> \<not> wq_overflow_queued q \<and> wq_list q = [] \<and> failed \<noteq> None)"
proof (cases "wq_overflow_queued q")
  case True
  thus ?thesis using assms by (simp add: overflow_def)
next
  case False
  obtain a t where a: "append_node failed Overflow q = (a, t)" by fastforce
  note n = append_node_ok [OF a err]
  show ?thesis
  proof (cases a)
    case None
    hence q': "q' = t\<lparr>wq_overflow_queued := True\<rparr>" "e = None" using run a False by (simp_all add: overflow_def)
    from append_keeps [OF ok a [unfolded None] err] False
    have "wq_ok q'" "wq_list q' = wq_list q @ [Overflow]" by (simp_all add: q')
    thus ?thesis using n None q' False by auto
  next
    case (Some x)
    hence "q' = t" "e = Some x" using run a False by (simp_all add: overflow_def)
    thus ?thesis using n Some ok False by (auto simp: wq_ok_def)
  qed
qed

section \<open>Runs and what readers get\<close>

datatype watch_call =
    Emit "errno option" bool u32 u32 u32 "u8 list option"
  | Reserve bool bool nat
  | Finish "errno option" bool

text \<open>
  The record an emission adds to the stream: none where it fails or repeats the last record or
  where an overflow is already reported, the overflow record where the queue is full.
\<close>

definition full :: "bool \<Rightarrow> watch_queue \<Rightarrow> bool" where
  "full alloc q \<longleftrightarrow> wq_count q \<ge> wq_limit q \<or> wq_free q = 0 \<and> \<not> alloc"

fun accepted_by :: "watch_call \<Rightarrow> watch_queue \<Rightarrow> u8 list list" where
  "accepted_by (Emit failed alloc wd event cookie name) q =
     (let bs = event_bytes wd event cookie name in
      if wq_error q \<noteq> None \<or> name_error name \<noteq> None \<or> repeats_tail bs q then []
      else if full alloc q \<and> wq_overflow_queued q then []
      else if wq_list q = [] \<and> failed \<noteq> None then []
      else [if full alloc q then overflow_bytes else bs])"
| "accepted_by c q = []"

text \<open>
  A history: the queue, the bytes of the lease that is out, the bytes delivered and the records
  accepted so far.
\<close>

record watch_history =
  wh_queue :: watch_queue
  wh_lease :: "u8 list"
  wh_out :: "u8 list"
  wh_accepted :: "u8 list list"

definition watch_step :: "watch_call \<Rightarrow> watch_history \<Rightarrow> watch_history" where
  "watch_step c h =
     (let q = wh_queue h; h = h\<lparr>wh_accepted := wh_accepted h @ accepted_by c q\<rparr> in
      case c of
        Emit failed alloc wd event cookie name \<Rightarrow> h\<lparr>wh_queue := snd (md_watch_queue_emit failed alloc wd event cookie name q)\<rparr>
      | Reserve received buffer capacity \<Rightarrow>
          (case md_watch_queue_reserve received buffer capacity q of
             (Inl e, q) \<Rightarrow> h\<lparr>wh_queue := q\<rparr>
           | (Inr bs, q) \<Rightarrow> h\<lparr>wh_queue := q, wh_lease := bs\<rparr>)
      | Finish failed delivered \<Rightarrow>
          h\<lparr>wh_queue := snd (md_watch_queue_complete failed delivered q), wh_lease := [],
            wh_out := wh_out h @ (if delivered then wh_lease h else [])\<rparr>)"

definition wh_ok :: "watch_history \<Rightarrow> bool" where
  "wh_ok h \<longleftrightarrow> wq_ok (wh_queue h)
     \<and> wh_lease h = concat (map node_bytes (take (wq_reserved (wh_queue h)) (wq_list (wh_queue h))))
     \<and> wh_out h @ concat (map node_bytes (wq_list (wh_queue h))) = concat (wh_accepted h)"

lemma emit_keeps:
  assumes ok: "wq_ok q" and q'_def: "q' = snd (md_watch_queue_emit failed alloc wd event cookie name q)"
  shows "wq_ok q' \<and> map node_bytes (wq_list q') = map node_bytes (wq_list q) @ accepted_by (Emit failed alloc wd event cookie name) q
    \<and> wq_reserved q' = wq_reserved q \<and> take (wq_reserved q') (wq_list q') = take (wq_reserved q) (wq_list q)"
proof -
  let ?bs = "event_bytes wd event cookie name"
  have res: "wq_reserved q \<le> length (wq_list q)" using ok by (simp add: wq_ok_def)
  consider (skip) "wq_error q \<noteq> None \<or> name_error name \<noteq> None \<or> repeats_tail ?bs q"
    | (over) "wq_error q = None" "name_error name = None" "\<not> repeats_tail ?bs q" "full alloc q"
    | (add) "wq_error q = None" "name_error name = None" "\<not> repeats_tail ?bs q" "\<not> full alloc q" by blast
  thus ?thesis
  proof cases
    case skip
    hence "q' = q" by (auto simp: q'_def md_watch_queue_emit_def Let_def)
    thus ?thesis using skip ok by auto
  next
    case over
    have q': "q' = snd (overflow failed q)" using over by (auto simp: q'_def md_watch_queue_emit_def full_def Let_def)
    obtain e t where run: "overflow failed q = (e, t)" by fastforce
    show ?thesis using overflow_keeps [OF ok over(1) run] over res run by (cases e) (auto simp: q')
  next
    case add
    let ?q1 = "if wq_free q = 0 then q else q\<lparr>wq_free := wq_free q - 1\<rparr>"
    have ok1: "wq_ok ?q1" "wq_error ?q1 = None" "wq_count ?q1 < wq_limit ?q1"
      using ok add by (auto simp: wq_ok_def full_def)
    obtain e t where run: "append_node failed (Event ?bs) ?q1 = (e, t)" by fastforce
    have q': "q' = (case e of None \<Rightarrow> t | Some _ \<Rightarrow> t\<lparr>wq_free := wq_free t + 1\<rparr>)"
      using add run by (auto simp: q'_def md_watch_queue_emit_def full_def Let_def split: option.splits if_splits)
    note n = append_node_ok [OF run ok1(2)]
    show ?thesis
    proof (cases e)
      case None
      have "t\<lparr>wq_overflow_queued := wq_overflow_queued ?q1 \<or> Event ?bs = Overflow\<rparr> = t" using n None by auto
      with append_keeps [OF ok1(1) run [unfolded None] ok1(2)] ok1(3)
      have "wq_ok t" "wq_list t = wq_list q @ [Event ?bs]" by auto
      thus ?thesis using n None add res by (auto simp: q')
    next
      case (Some x)
      thus ?thesis using n ok1(1) add by (auto simp: q' wq_ok_def split: if_splits)
    qed
  qed
qed

lemma fitting_le: "fitting room rs \<le> length rs"
  by (induction room rs rule: fitting.induct) auto

lemma length_concat_nodes: "length (concat (map node_bytes rs)) = sum_list (map node_size rs)"
  by (induction rs) (simp_all add: node_size_def)

lemma reserve_keeps:
  assumes ok: "wq_ok q" and run: "md_watch_queue_reserve received buffer capacity q = (res, q')"
  shows "wq_ok q' \<and> wq_list q' = wq_list q \<and> (case res of
      Inl e \<Rightarrow> wq_reserved q' = wq_reserved q
    | Inr bs \<Rightarrow> wq_reserved q = 0 \<and> bs = concat (map node_bytes (take (wq_reserved q') (wq_list q))))"
proof (cases "wq_error q = None \<and> wq_reserved q = 0 \<and> wq_list q \<noteq> [] \<and> capacity \<ge> node_size (hd (wq_list q)) \<and> buffer")
  case True
  let ?n = "fitting capacity (wq_list q)"
  have n: "?n \<noteq> 0" "?n \<le> length (wq_list q)" using True fitting_le by (cases "wq_list q"; auto)+
  have m: "wq_markers q = 1" using ok True by (simp add: wq_ok_def)
  show ?thesis
  proof (cases received)
    case True': True
    have "res = Inr (concat (map node_bytes (take ?n (wq_list q))))"
        "q' = q\<lparr>wq_markers := 0, wq_reserved := ?n, wq_reserved_bytes := sum_list (map node_size (take ?n (wq_list q)))\<rparr>"
      using run True True' m
      by (auto simp: md_watch_queue_reserve_def drain_marker_def Let_def length_concat_nodes split: list.splits)
    thus ?thesis using ok n True by (auto simp: wq_ok_def)
  next
    case False
    hence "res = Inl EIO" "q' = q\<lparr>wq_error := Some EIO\<rparr>"
      using run True by (auto simp: md_watch_queue_reserve_def drain_marker_def Let_def split: list.splits)
    thus ?thesis using ok by (auto simp: wq_ok_def)
  qed
next
  case False
  hence "q' = q \<and> (\<exists>e. res = Inl e)"
    using run by (auto simp: md_watch_queue_reserve_def split: option.splits list.splits if_splits)
  thus ?thesis using ok by auto
qed

lemma signal_keeps:
  assumes "wq_ok (q\<lparr>wq_markers := wq_markers q + 1\<rparr>)"
  shows "wq_ok (snd (signal_ready failed q)) \<and> wq_list (snd (signal_ready failed q)) = wq_list q
    \<and> wq_reserved (snd (signal_ready failed q)) = wq_reserved q"
  using assms by (cases failed) (auto simp: signal_ready_def wq_ok_def)

lemma overflow_split:
  assumes "length (filter (\<lambda>r. r = Overflow) rs) \<le> 1"
  shows "Overflow \<in> set (drop n rs) \<longleftrightarrow> Overflow \<in> set rs \<and> Overflow \<notin> set (take n rs)"
proof -
  let ?f = "filter (\<lambda>r. r = Overflow)"
  have "length (?f (take n rs)) + length (?f (drop n rs)) \<le> 1"
    using assms by (metis append_take_drop_id filter_append length_append)
  moreover have "Overflow \<in> set xs \<longleftrightarrow> length (?f xs) \<ge> 1" for xs
    by (induction xs) auto
  moreover have "set rs = set (take n rs) \<union> set (drop n rs)" by (metis append_take_drop_id set_append)
  ultimately show ?thesis by auto
qed

lemma complete_keeps:
  assumes ok: "wq_ok q" and q': "q' = snd (md_watch_queue_complete failed delivered q)"
  shows "wq_ok q' \<and> wq_reserved q' = 0 \<and> wq_list q' = (if delivered then drop (wq_reserved q) (wq_list q) else wq_list q)"
proof (cases "wq_reserved q = 0")
  case True
  hence "q' = q\<lparr>wq_reserved := 0, wq_reserved_bytes := 0\<rparr>" using q' by (simp add: md_watch_queue_complete_def Let_def)
  thus ?thesis using ok True by (auto simp: wq_ok_def)
next
  case False
  let ?n = "wq_reserved q" and ?l = "wq_list q"
  have n: "?n \<le> length ?l" "?l \<noteq> []" "wq_error q = None \<longrightarrow> wq_markers q = 0"
    using ok False by (auto simp: wq_ok_def)
  show ?thesis
  proof (cases delivered)
    case True
    let ?q = "q\<lparr>wq_reserved := 0, wq_reserved_bytes := 0, wq_list := drop ?n ?l,
        wq_overflow_queued := wq_overflow_queued q \<and> Overflow \<notin> set (take ?n ?l),
        wq_free := wq_free q + length (filter (\<lambda>r. r \<noteq> Overflow) (take ?n ?l)),
        wq_count := wq_count q - ?n, wq_bytes := wq_bytes q - wq_reserved_bytes q\<rparr>"
    have run: "q' = (if drop ?n ?l \<noteq> [] then snd (signal_ready failed ?q) else ?q)"
      using q' True False by (simp add: md_watch_queue_complete_def Let_def)
    have sum: "sum_list (map node_size ?l) = sum_list (map node_size (take ?n ?l)) + sum_list (map node_size (drop ?n ?l))"
      by (metis append_take_drop_id map_append sum_list_append)
    have events: "length (filter P (drop ?n ?l)) \<le> length (filter P ?l)" for P
      by (metis append_take_drop_id filter_append le_add2 length_append)
    have over: "length (filter (\<lambda>r. r = Overflow) ?l) \<le> 1" using ok by (simp add: wq_ok_def)
    have ok': "wq_ok (?q\<lparr>wq_markers := (if drop ?n ?l \<noteq> [] then wq_markers q + 1 else wq_markers q)\<rparr>)"
      using ok sum n(3) le_trans [OF events, of is_event] le_trans [OF events over] overflow_split [OF over, of ?n]
      by (auto simp: wq_ok_def)
    show ?thesis
    proof (cases "drop ?n ?l = []")
      case True': True
      hence "q' = ?q" "wq_ok ?q" using run ok' by (simp_all add: wq_ok_def)
      thus ?thesis using True by simp
    next
      case False': False
      have "wq_ok (?q\<lparr>wq_markers := wq_markers ?q + 1\<rparr>)" using ok' False' by simp
      moreover have "q' = snd (signal_ready failed ?q)" using run False' by simp
      ultimately show ?thesis using signal_keeps [of ?q failed] True by simp
    qed
  next
    case False': False
    let ?q = "q\<lparr>wq_reserved := 0, wq_reserved_bytes := 0\<rparr>"
    have "wq_ok (?q\<lparr>wq_markers := wq_markers ?q + 1\<rparr>)" using ok n by (auto simp: wq_ok_def)
    moreover have "q' = snd (signal_ready failed ?q)" using q' False False' by (simp add: md_watch_queue_complete_def Let_def)
    ultimately show ?thesis using signal_keeps [of ?q failed] False' by simp
  qed
qed

lemma watch_step_ok:
  assumes ok: "wh_ok h"
  shows "wh_ok (watch_step c h)"
proof (cases c)
  case (Emit failed alloc wd event cookie name)
  have q: "wq_ok (wh_queue h)" using ok by (simp add: wh_ok_def)
  note e = emit_keeps [OF q refl, of failed alloc wd event cookie name]
  let ?q' = "snd (md_watch_queue_emit failed alloc wd event cookie name (wh_queue h))"
  have acc: "concat (map node_bytes (wq_list ?q')) = concat (map node_bytes (wq_list (wh_queue h))) @ concat (accepted_by c (wh_queue h))"
    unfolding Emit using e by (metis concat_append)
  have step: "watch_step c h = h\<lparr>wh_accepted := wh_accepted h @ accepted_by c (wh_queue h), wh_queue := ?q'\<rparr>"
    by (simp add: watch_step_def Emit Let_def)
  from e have "wq_ok ?q'" "take (wq_reserved ?q') (wq_list ?q') = take (wq_reserved (wh_queue h)) (wq_list (wh_queue h))" by blast+
  thus ?thesis using ok acc unfolding wh_ok_def step by (simp del: accepted_by.simps)
next
  case (Reserve received buffer capacity)
  have q: "wq_ok (wh_queue h)" using ok by (simp add: wh_ok_def)
  obtain res q' where run: "md_watch_queue_reserve received buffer capacity (wh_queue h) = (res, q')" by fastforce
  show ?thesis using reserve_keeps [OF q run] ok run
    by (cases res) (auto simp: watch_step_def wh_ok_def Reserve)
next
  case (Finish failed delivered)
  let ?q = "wh_queue h"
  have q: "wq_ok ?q" using ok by (simp add: wh_ok_def)
  have "concat (map node_bytes (wq_list ?q)) =
      concat (map node_bytes (take (wq_reserved ?q) (wq_list ?q))) @ concat (map node_bytes (drop (wq_reserved ?q) (wq_list ?q)))"
    by (metis append_take_drop_id concat_append map_append)
  with complete_keeps [OF q refl, of failed delivered] ok show ?thesis
    by (auto simp: watch_step_def wh_ok_def Finish)
qed

lemma watch_run_ok: "wh_ok h \<Longrightarrow> wh_ok (fold watch_step cs h)"
  by (induction cs arbitrary: h) (simp_all add: watch_step_ok)

text \<open>The history of a queue just created.\<close>

definition new_history :: "watch_queue \<Rightarrow> watch_history" where
  "new_history q = \<lparr>wh_queue = q, wh_lease = [], wh_out = [], wh_accepted = []\<rparr>"

lemma create_ok: "md_watch_queue_create os limit flags = Inr q \<Longrightarrow> wh_ok (new_history q) \<and> wq_limit q = unat limit"
  by (auto simp: md_watch_queue_create_def wh_ok_def wq_ok_def new_history_def split: if_splits option.splits)

lemma limit_kept: "wq_limit (wh_queue (watch_step c h)) = wq_limit (wh_queue h)"
  by (cases c) (auto simp: watch_step_def md_watch_queue_emit_def md_watch_queue_reserve_def md_watch_queue_complete_def overflow_def
      append_node_def signal_ready_def drain_marker_def Let_def split: prod.splits option.splits sum.splits list.splits if_splits)

lemma limit_run: "wq_limit (wh_queue (fold watch_step cs h)) = wq_limit (wh_queue h)"
  by (induction cs arbitrary: h) (simp_all add: limit_kept)

text \<open>
  C26: Over any sequence of emissions, leases and completions on a new queue, with any failures of
  the system calls, the bytes delivered to readers followed by the records still queued are exactly
  the records accepted, in order; the queue holds at most its limit of records and one overflow
  report; and while it has not failed, the reader's stream is ready exactly when there is a record
  to read and no lease is out, with a single marker.
\<close>

theorem watch_queue_stream:
  assumes "md_watch_queue_create os limit flags = Inr q"
  shows "let h = fold watch_step cs (new_history q); q' = wh_queue h in
    wh_out h @ concat (map node_bytes (wq_list q')) = concat (wh_accepted h)
    \<and> length (wq_list q') \<le> unat limit + 1 \<and> length (filter (\<lambda>r. r = Overflow) (wq_list q')) \<le> 1
    \<and> (wq_error q' = None \<longrightarrow> wq_markers q' = (if wq_list q' \<noteq> [] \<and> wq_reserved q' = 0 then 1 else 0))"
proof -
  let ?h = "fold watch_step cs (new_history q)"
  have ok: "wh_ok ?h" using create_ok [OF assms] by (intro watch_run_ok) simp
  have lim: "wq_limit (wh_queue ?h) = unat limit" using create_ok [OF assms] by (simp add: limit_run new_history_def)
  have "length rs = length (filter (\<lambda>r. r = Overflow) rs) + length (filter is_event rs)" for rs
    unfolding is_event_def by (rule sum_length_filter_compl [symmetric])
  moreover have "length (filter (\<lambda>r. r = Overflow) (wq_list (wh_queue ?h))) \<le> 1"
      "length (filter is_event (wq_list (wh_queue ?h))) \<le> unat limit"
    using ok lim by (simp_all add: wh_ok_def wq_ok_def)
  ultimately have "length (wq_list (wh_queue ?h)) \<le> unat limit + 1" by (metis add.commute add_mono)
  thus ?thesis using ok by (simp add: wh_ok_def wq_ok_def Let_def)
qed

definition demo_queue :: watch_queue where
  "demo_queue = \<lparr>wq_error = None, wq_limit = 2, wq_count = 0, wq_bytes = 0, wq_list = [], wq_free = 0,
     wq_overflow_queued = False, wq_reserved = 0, wq_reserved_bytes = 0, wq_markers = 0\<rparr>"

text \<open>Three records into a queue of two, the repeated one dropped, then a delivery.\<close>

definition demo_calls :: "watch_call list" where
  "demo_calls = [Emit None True 1 2 0 None, Emit None True 1 2 0 None, Emit None True 2 2 0 (Some [97]), Emit None True 3 2 0 None,
     Reserve True True 20, Finish None True]"

theorem watch_queue_stream_witness:
  "let h = fold watch_step demo_calls (new_history demo_queue); q' = wh_queue h in
     wh_out h @ concat (map node_bytes (wq_list q')) = concat (wh_accepted h)
     \<and> length (wh_accepted h) = 3 \<and> length (wh_out h) = 16 \<and> wq_markers q' = 1"
proof -
  let ?os = "\<lparr>co_alloc = True, co_socketpair = None, co_setfl = None, co_setfd = None\<rparr>"
  have "md_watch_queue_create ?os 2 0 = Inr demo_queue" by (simp add: md_watch_queue_create_def demo_queue_def INT_MAX_def)
  note stream = watch_queue_stream [OF this, of demo_calls]
  have "let h = fold watch_step demo_calls (new_history demo_queue); q' = wh_queue h in
      length (wh_accepted h) = 3 \<and> length (wh_out h) = 16 \<and> wq_markers q' = 1" by code_simp
  with stream show ?thesis by (simp add: Let_def)
qed

end
