(* ===== verification/Mount_Policy.thy ===== *)
theory Mount_Policy
  imports Prelude
begin

unbundle bit_operations_syntax

text \<open>
  The flags of a mount and their locks, from \<^verbatim>\<open>src/native/shroot/src/mount_policy.c\<close>: local to the mount
  until it is shared, then on a sealed page of a memory file that other processes map read-only. A
  page is a cell of a store, so that the writer and its observers see the same flags. What the
  operating system answers is a parameter.
\<close>

definition MD_MOUNT_READONLY :: u32 where "MD_MOUNT_READONLY = 1"
definition MD_MOUNT_NOSUID :: u32 where "MD_MOUNT_NOSUID = 2"
definition MD_MOUNT_NODEV :: u32 where "MD_MOUNT_NODEV = 4"
definition MD_MOUNT_NOEXEC :: u32 where "MD_MOUNT_NOEXEC = 8"
definition MD_MOUNT_NOSYMFOLLOW :: u32 where "MD_MOUNT_NOSYMFOLLOW = 16"
definition MD_MOUNT_FLAGS :: u32 where
  "MD_MOUNT_FLAGS = MD_MOUNT_READONLY OR MD_MOUNT_NOSUID OR MD_MOUNT_NODEV OR MD_MOUNT_NOEXEC OR MD_MOUNT_NOSYMFOLLOW"
definition MD_MOUNT_LOCK_SHIFT :: nat where "MD_MOUNT_LOCK_SHIFT = 16"
definition MD_MOUNT_LOCKABLE :: u32 where
  "MD_MOUNT_LOCKABLE = MD_MOUNT_READONLY OR MD_MOUNT_NOSUID OR MD_MOUNT_NODEV OR MD_MOUNT_NOEXEC"
definition MD_MOUNT_LOCKS :: u32 where "MD_MOUNT_LOCKS = push_bit MD_MOUNT_LOCK_SHIFT MD_MOUNT_LOCKABLE"
definition MD_MOUNT_POLICY_MASK :: u32 where "MD_MOUNT_POLICY_MASK = MD_MOUNT_FLAGS OR MD_MOUNT_LOCKS"

definition POLICY_MAGIC :: u32 where "POLICY_MAGIC = 0x4d444d50"
definition POLICY_VERSION :: u32 where "POLICY_VERSION = 5"

record policy_page =
  pp_magic :: u32
  pp_version :: u32
  pp_reserved :: u32
  pp_flags :: u32

text \<open>\<open>mp_page\<close> is the page's address; the descriptor and the right to write belong to the mapping.\<close>

record mount_policy =
  mp_local :: u32
  mp_page :: "nat option"
  mp_fd :: int
  mp_writer :: bool

type_synonym page_store = "nat \<Rightarrow> policy_page"

definition zero_policy :: mount_policy where
  "zero_policy = \<lparr>mp_local = 0, mp_page = None, mp_fd = 0, mp_writer = False\<rparr>"

text \<open>\<open>f_flag\<close> of \<open>fstatvfs\<close> with the Linux values of its bits.\<close>

definition md_mount_native_policy :: "u64 result \<Rightarrow> u32 result" where
  "md_mount_native_policy info =
     (case info of Inl e \<Rightarrow> Inl e
      | Inr f \<Rightarrow> Inr ((if bit f 0 then MD_MOUNT_READONLY else 0) OR (if bit f 1 then MD_MOUNT_NOSUID else 0)
           OR (if bit f 2 then MD_MOUNT_NODEV else 0) OR (if bit f 3 then MD_MOUNT_NOEXEC else 0)
           OR (if bit f 13 then MD_MOUNT_NOSYMFOLLOW else 0)))"

definition md_mount_policy_shared_flags :: "page_store \<Rightarrow> nat \<Rightarrow> u32" where
  "md_mount_policy_shared_flags s page = pp_flags (s page)"

definition md_mount_policy_flags :: "page_store \<Rightarrow> mount_policy \<Rightarrow> u32" where
  "md_mount_policy_flags s p =
     (case mp_page p of Some a \<Rightarrow> md_mount_policy_shared_flags s a | None \<Rightarrow> mp_local p)"

definition md_mount_policy_check :: "page_store \<Rightarrow> mount_policy option \<Rightarrow> u32 \<Rightarrow> unit result" where
  "md_mount_policy_check s policy flags =
     (case policy of None \<Rightarrow> Inl EINVAL
      | Some p \<Rightarrow>
         if flags AND NOT MD_MOUNT_POLICY_MASK \<noteq> 0 \<or> drop_bit MD_MOUNT_LOCK_SHIFT flags AND NOT flags \<noteq> 0 then Inl EINVAL
         else if drop_bit MD_MOUNT_LOCK_SHIFT (md_mount_policy_flags s p) AND NOT flags \<noteq> 0 then Inl EPERM
         else if mp_page p \<noteq> None \<and> \<not> mp_writer p then Inl EPERM
         else Inr ())"

definition put_flags :: "mount_policy \<Rightarrow> u32 \<Rightarrow> page_store \<Rightarrow> mount_policy \<times> page_store" where
  "put_flags p flags s =
     (case mp_page p of None \<Rightarrow> (p\<lparr>mp_local := flags\<rparr>, s) | Some a \<Rightarrow> (p, s(a := (s a)\<lparr>pp_flags := flags\<rparr>)))"

definition md_mount_policy_set :: "page_store \<Rightarrow> mount_policy \<Rightarrow> u32 \<Rightarrow> unit result \<times> mount_policy \<times> page_store" where
  "md_mount_policy_set s p flags =
     (case md_mount_policy_check s (Some p) flags of
        Inl e \<Rightarrow> (Inl e, p, s)
      | Inr _ \<Rightarrow> (Inr (), put_flags p (flags OR (md_mount_policy_flags s p AND MD_MOUNT_LOCKS)) s))"

definition md_mount_policy_lock :: "page_store \<Rightarrow> mount_policy \<Rightarrow> unit result \<times> mount_policy \<times> page_store" where
  "md_mount_policy_lock s p =
     (let flags = md_mount_policy_flags s p
      in md_mount_policy_set s p (flags OR push_bit MD_MOUNT_LOCK_SHIFT (flags AND MD_MOUNT_LOCKABLE)))"

definition md_mount_policy_close :: "mount_policy \<Rightarrow> mount_policy" where
  "md_mount_policy_close p = zero_policy"

text \<open>The answers to a publication: the new memory file, its size, its mapping, its seals.\<close>

record share_os =
  so_memfd :: "int result"
  so_truncate :: "errno option"
  so_mmap :: "nat result"
  so_seals :: "errno option"

definition md_mount_policy_share ::
  "share_os \<Rightarrow> page_store \<Rightarrow> mount_policy option \<Rightarrow> int result \<times> mount_policy option \<times> page_store" where
  "md_mount_policy_share os s policy =
     (case policy of None \<Rightarrow> (Inl EINVAL, policy, s)
      | Some p \<Rightarrow>
         if mp_page p \<noteq> None then (Inr (mp_fd p), policy, s)
         else case so_memfd os of Inl e \<Rightarrow> (Inl e, policy, s)
         | Inr fd \<Rightarrow>
            (case so_truncate os of Some e \<Rightarrow> (Inl e, policy, s)
             | None \<Rightarrow>
                (case so_mmap os of Inl e \<Rightarrow> (Inl e, policy, s)
                 | Inr a \<Rightarrow>
                    let s1 = s(a := \<lparr>pp_magic = POLICY_MAGIC, pp_version = POLICY_VERSION, pp_reserved = 0, pp_flags = mp_local p\<rparr>)
                    in (case so_seals os of Some e \<Rightarrow> (Inl e, policy, s)
                        | None \<Rightarrow> (Inr fd, Some (p\<lparr>mp_page := Some a, mp_fd := fd, mp_writer := True\<rparr>), s1)))))"

text \<open>
  What a received descriptor shows: its close-on-exec flag, its kind and size, whether it carries
  the seals, and the address of the page it maps.
\<close>

record import_os =
  io_cloexec :: "bool result"
  io_stat :: "bool result" \<comment> \<open>a regular file of the size of a page\<close>
  io_seals :: "bool result"
  io_mmap :: "nat result"

definition md_mount_policy_import :: "import_os \<Rightarrow> page_store \<Rightarrow> mount_policy option \<Rightarrow> int \<Rightarrow> mount_policy result" where
  "md_mount_policy_import os s policy fd =
     (case policy of None \<Rightarrow> Inl EINVAL
      | Some p \<Rightarrow>
         if mp_page p \<noteq> None \<or> mp_local p \<noteq> 0 \<or> fd < 0 then Inl EINVAL
         else case io_cloexec os of Inl e \<Rightarrow> Inl e
         | Inr cloexec \<Rightarrow>
           if \<not> cloexec then Inl EINVAL
           else case io_stat os of Inl e \<Rightarrow> Inl e
           | Inr shape \<Rightarrow>
             if \<not> shape then Inl EPROTO
             else case io_seals os of Inl e \<Rightarrow> Inl e
             | Inr sealed \<Rightarrow>
               if \<not> sealed then Inl EPROTO
               else case io_mmap os of Inl e \<Rightarrow> Inl e
               | Inr a \<Rightarrow>
                  let g = s a; v = pp_flags g in
                  if pp_magic g \<noteq> POLICY_MAGIC \<or> pp_version g \<noteq> POLICY_VERSION \<or> pp_reserved g \<noteq> 0
                     \<or> v AND NOT MD_MOUNT_POLICY_MASK \<noteq> 0 \<or> drop_bit MD_MOUNT_LOCK_SHIFT v AND NOT v \<noteq> 0 then Inl EPROTO
                  else Inr (p\<lparr>mp_page := Some a, mp_fd := fd, mp_writer := False\<rparr>))"

section \<open>Well-formed flags and permanent locks\<close>

text \<open>Flags of the known bits, where every lock is on a flag that is set.\<close>

definition flags_ok :: "u32 \<Rightarrow> bool" where
  "flags_ok v \<longleftrightarrow> v AND NOT MD_MOUNT_POLICY_MASK = 0 \<and> drop_bit MD_MOUNT_LOCK_SHIFT v AND NOT v = 0"

text \<open>The flags in force that are locked.\<close>

definition locked :: "u32 \<Rightarrow> u32" where
  "locked v = drop_bit MD_MOUNT_LOCK_SHIFT v"

lemmas policy_consts = MD_MOUNT_FLAGS_def MD_MOUNT_READONLY_def MD_MOUNT_NOSUID_def MD_MOUNT_NODEV_def MD_MOUNT_NOEXEC_def
  MD_MOUNT_NOSYMFOLLOW_def MD_MOUNT_LOCKABLE_def MD_MOUNT_LOCKS_def MD_MOUNT_POLICY_MASK_def MD_MOUNT_LOCK_SHIFT_def

lemma bit_policy_mask: "bit MD_MOUNT_POLICY_MASK n \<longleftrightarrow> n \<in> {0, 1, 2, 3, 4, 16, 17, 18, 19}"
proof (cases "n < 32")
  case True
  have "\<forall>n \<in> set [0..<32]. bit MD_MOUNT_POLICY_MASK n = (n \<in> {0, 1, 2, 3, 4, 16, 17, 18, 19})" by code_simp
  with True show ?thesis by (metis atLeastLessThan_iff atLeastLessThan_upt zero_le)
next
  case False
  hence "\<not> bit MD_MOUNT_POLICY_MASK n" using bit_imp_le_length [of MD_MOUNT_POLICY_MASK n] by auto
  with False show ?thesis by auto
qed

lemma bit_locks: "bit MD_MOUNT_LOCKS n \<longleftrightarrow> n \<in> {16, 17, 18, 19}"
proof (cases "n < 32")
  case True
  have "\<forall>n \<in> set [0..<32]. bit MD_MOUNT_LOCKS n = (n \<in> {16, 17, 18, 19})" by code_simp
  with True show ?thesis by (metis atLeastLessThan_iff atLeastLessThan_upt zero_le)
next
  case False
  hence "\<not> bit MD_MOUNT_LOCKS n" using bit_imp_le_length [of MD_MOUNT_LOCKS n] by auto
  with False show ?thesis by auto
qed

lemma and_not_zero_iff: "(v :: u32) AND NOT w = 0 \<longleftrightarrow> (\<forall>n. bit v n \<longrightarrow> bit w n)"
proof -
  have len: "bit v n \<Longrightarrow> n < 32" for n using bit_imp_le_length [of v n] by simp
  have "v AND NOT w = 0 \<longleftrightarrow> (\<forall>n < 32. \<not> (bit v n \<and> bit (NOT w) n))" by (simp add: bit_eq_iff bit_and_iff)
  also have "\<dots> \<longleftrightarrow> (\<forall>n. bit v n \<longrightarrow> bit w n)"
    using len by (auto simp: bit_not_iff possible_bit_word)
  finally show ?thesis .
qed

lemma flags_ok_iff:
  "flags_ok v \<longleftrightarrow> (\<forall>n. bit v n \<longrightarrow> n \<in> {0, 1, 2, 3, 4, 16, 17, 18, 19} \<and> (16 \<le> n \<longrightarrow> bit v (n - 16)))"
proof -
  have "(\<forall>n. bit (drop_bit MD_MOUNT_LOCK_SHIFT v) n \<longrightarrow> bit v n) \<longleftrightarrow> (\<forall>n. bit v n \<longrightarrow> 16 \<le> n \<longrightarrow> bit v (n - 16))"
    by (auto simp: bit_drop_bit_eq MD_MOUNT_LOCK_SHIFT_def)
  thus ?thesis unfolding flags_ok_def and_not_zero_iff bit_policy_mask by blast
qed

lemma set_flags_ok:
  assumes "flags_ok old" "flags_ok new" "locked old AND NOT new = 0"
  shows "flags_ok (new OR (old AND MD_MOUNT_LOCKS))" "locked (new OR (old AND MD_MOUNT_LOCKS)) AND NOT (new OR (old AND MD_MOUNT_LOCKS)) = 0"
    "locked old AND NOT (locked (new OR (old AND MD_MOUNT_LOCKS))) = 0"
proof -
  have keep: "bit new (n - 16)" if "bit old n" "16 \<le> n" for n
    using assms(3) that unfolding locked_def and_not_zero_iff
    by (auto simp: bit_drop_bit_eq MD_MOUNT_LOCK_SHIFT_def dest: spec [of _ "n - 16"])
  show ok: "flags_ok (new OR (old AND MD_MOUNT_LOCKS))"
    using assms(1,2) keep unfolding flags_ok_iff by (auto simp: bit_or_iff bit_and_iff bit_locks)
  show "locked (new OR (old AND MD_MOUNT_LOCKS)) AND NOT (new OR (old AND MD_MOUNT_LOCKS)) = 0"
    using ok by (simp add: flags_ok_def locked_def)
  have "bit old n \<Longrightarrow> 16 \<le> n \<Longrightarrow> bit MD_MOUNT_LOCKS n" for n using assms(1) unfolding flags_ok_iff bit_locks by force
  thus "locked old AND NOT (locked (new OR (old AND MD_MOUNT_LOCKS))) = 0"
    unfolding and_not_zero_iff locked_def by (auto simp: bit_drop_bit_eq bit_or_iff bit_and_iff MD_MOUNT_LOCK_SHIFT_def)
qed

text \<open>The calls of the process that owns a mount.\<close>

datatype policy_call = Set_Flags u32 | Lock_Flags | Share_Policy share_os

fun policy_step :: "policy_call \<Rightarrow> mount_policy \<times> page_store \<Rightarrow> mount_policy \<times> page_store" where
  "policy_step (Set_Flags v) (p, s) = snd (md_mount_policy_set s p v)"
| "policy_step Lock_Flags (p, s) = snd (md_mount_policy_lock s p)"
| "policy_step (Share_Policy os) (p, s) = (case md_mount_policy_share os s (Some p) of (_, q, t) \<Rightarrow> (case q of Some q \<Rightarrow> (q, t) | None \<Rightarrow> (p, t)))"

definition in_force :: "mount_policy \<times> page_store \<Rightarrow> u32" where
  "in_force w = md_mount_policy_flags (snd w) (fst w)"

lemma in_force_put: "in_force (put_flags p v s) = v"
  by (simp add: in_force_def put_flags_def md_mount_policy_flags_def md_mount_policy_shared_flags_def split: option.split)

text \<open>What one flag word may become: still well-formed, every lock kept.\<close>

definition tightened :: "u32 \<Rightarrow> u32 \<Rightarrow> bool" where
  "tightened v w \<longleftrightarrow> flags_ok w \<and> locked v AND NOT w = 0 \<and> locked v AND NOT (locked w) = 0"

lemma tightened_refl: "flags_ok v \<Longrightarrow> tightened v v"
  unfolding tightened_def and_not_zero_iff by (simp add: flags_ok_def locked_def and_not_zero_iff)

lemma tightened_trans: "tightened u v \<Longrightarrow> tightened v w \<Longrightarrow> tightened u w"
  unfolding tightened_def and_not_zero_iff by blast

lemma set_tightens:
  assumes "flags_ok (in_force (p, s))"
  shows "tightened (in_force (p, s)) (in_force (snd (md_mount_policy_set s p v)))"
proof (cases "md_mount_policy_check s (Some p) v")
  case (Inl e)
  thus ?thesis using tightened_refl [OF assms] by (simp add: md_mount_policy_set_def)
next
  case (Inr u)
  let ?old = "in_force (p, s)"
  have ok: "flags_ok v" "locked ?old AND NOT v = 0"
    using Inr by (auto simp: md_mount_policy_check_def flags_ok_def locked_def in_force_def split: if_splits)
  have "in_force (snd (md_mount_policy_set s p v)) = v OR (?old AND MD_MOUNT_LOCKS)"
    using Inr by (simp add: md_mount_policy_set_def in_force_put) (simp add: in_force_def)
  moreover have "locked ?old AND NOT (v OR (?old AND MD_MOUNT_LOCKS)) = 0"
    using ok(2) unfolding and_not_zero_iff by (simp add: bit_or_iff)
  ultimately show ?thesis using set_flags_ok [OF assms ok] by (simp add: tightened_def)
qed

lemma policy_step_tightens:
  assumes "flags_ok (in_force w)"
  shows "tightened (in_force w) (in_force (policy_step c w))"
proof (cases c)
  case (Share_Policy os)
  obtain p s where w: "w = (p, s)" by fastforce
  have "in_force (policy_step c w) = in_force w"
    by (auto simp: Share_Policy w md_mount_policy_share_def in_force_def md_mount_policy_flags_def
        md_mount_policy_shared_flags_def Let_def split: sum.split option.split)
  thus ?thesis using tightened_refl [OF assms] by simp
qed (use set_tightens assms in \<open>cases w; simp add: md_mount_policy_lock_def Let_def\<close>)+

lemma policy_run_tightens:
  "flags_ok (in_force w) \<Longrightarrow> tightened (in_force w) (in_force (fold policy_step cs w))"
proof (induction cs arbitrary: w)
  case (Cons c cs)
  have step: "tightened (in_force w) (in_force (policy_step c w))" by (rule policy_step_tightens [OF Cons.prems])
  hence "flags_ok (in_force (policy_step c w))" by (simp add: tightened_def)
  from tightened_trans [OF step Cons.IH [OF this]] show ?case by simp
qed (simp add: tightened_refl)

text \<open>
  The flags of a mount stay a well-formed flag word under every sequence of changes, locks and
  publication (known bits only, every lock on a flag that is set), and a lock is permanent: a flag
  once locked stays set and stays locked.
\<close>

theorem mount_locks_permanent:
  assumes "flags_ok (in_force w)"
  shows "flags_ok (in_force (fold policy_step cs w))
    \<and> locked (in_force w) AND NOT (in_force (fold policy_step cs w)) = 0
    \<and> locked (in_force w) AND NOT (locked (in_force (fold policy_step cs w))) = 0"
  using policy_run_tightens [OF assms, of cs] by (simp add: tightened_def)

text \<open>A read-only and nosuid mount is locked, published, and then asked to become writable.\<close>

definition demo_policy_calls :: "policy_call list" where
  "demo_policy_calls = [Set_Flags 3, Lock_Flags,
     Share_Policy \<lparr>so_memfd = Inr 5, so_truncate = None, so_mmap = Inr 7, so_seals = None\<rparr>, Set_Flags 2, Set_Flags 11]"

theorem mount_locks_permanent_witness:
  "in_force (fold policy_step demo_policy_calls (zero_policy, \<lambda>_. \<lparr>pp_magic = 0, pp_version = 0, pp_reserved = 0, pp_flags = 0\<rparr>)) = 0x3000B
   \<and> flags_ok (in_force (fold policy_step [Set_Flags 0]
       (fold policy_step demo_policy_calls (zero_policy, \<lambda>_. \<lparr>pp_magic = 0, pp_version = 0, pp_reserved = 0, pp_flags = 0\<rparr>))))"
proof -
  let ?w = "fold policy_step demo_policy_calls (zero_policy, \<lambda>_. \<lparr>pp_magic = 0, pp_version = 0, pp_reserved = 0, pp_flags = 0\<rparr>)"
  have v: "in_force ?w = 0x3000B" by code_simp
  have "flags_ok 0x3000B" by code_simp
  with v mount_locks_permanent [of ?w "[Set_Flags 0]"] show ?thesis by simp
qed

end
