(* ===== verification/Process_Limits.thy ===== *)
theory Process_Limits
  imports Guest_Identity
begin

text \<open>
  Process accounting and resource limits of guest tasks, from
  \<^verbatim>\<open>src/native/shroot/src/process_limits.c\<close>. Every task is a member charged to the account of its real
  user in its user namespace, and with it to the accounts of the creators of the enclosing
  namespaces. Accounts, scopes, limit blocks and members are cells of a store, named by address. A
  pointer to an account is the list of its address and those of its parents, innermost first; the
  parent field is written once, at creation. \<open>calloc\<close> hands out the addresses in order, and its
  \<open>n\<close>-th call succeeds where \<open>ok n\<close>.
\<close>

section \<open>Data\<close>

definition CLONE_THREAD :: u64 where "CLONE_THREAD = 0x10000"
definition RLIMIT_NPROC :: nat where "RLIMIT_NPROC = 6"
definition RLIMIT_NOFILE :: nat where "RLIMIT_NOFILE = 7"
definition RLIM_NLIMITS :: nat where "RLIM_NLIMITS = 16"
definition MD_PROCESS_NOFILE_MAX :: u64 where "MD_PROCESS_NOFILE_MAX = 1024 * 1024"
definition BUCKETS :: nat where "BUCKETS = 127"

record rlimit =
  rlim_cur :: u64
  rlim_max :: u64

record process_limits =
  nproc :: rlimit
  nofile :: rlimit

type_synonym account_ptr = "nat list"

record scope =
  scope_key :: ns_key
  scope_ceiling :: u64

record account =
  account_parent :: account_ptr
  account_scope :: nat
  account_uid :: u32
  account_count :: u64

record limits_cell =
  limits_references :: u32
  limits_value :: process_limits
  native_nofile_max :: u64

record process_member =
  member_references :: u32
  member_account :: account_ptr
  member_limits :: "nat option"
  exec_check :: bool

record accounting =
  owner_members :: u32
  owner_scopes :: "nat list"
  owner_accounts :: "nat \<Rightarrow> nat list"

record process_store =
  ps_owner :: accounting
  ps_scopes :: "nat \<Rightarrow> scope option"
  ps_accounts :: "nat \<Rightarrow> account option"
  ps_limits :: "nat \<Rightarrow> limits_cell option"
  ps_members :: "nat \<Rightarrow> process_member option"
  ps_next :: nat

text \<open>Dereferencing; no pointer of the store names a free cell.\<close>

definition scope_at :: "process_store \<Rightarrow> nat \<Rightarrow> scope" where "scope_at s a = the (ps_scopes s a)"
definition account_at :: "process_store \<Rightarrow> nat \<Rightarrow> account" where "account_at s a = the (ps_accounts s a)"
definition limits_at :: "process_store \<Rightarrow> nat \<Rightarrow> limits_cell" where "limits_at s a = the (ps_limits s a)"
definition member_at :: "process_store \<Rightarrow> nat \<Rightarrow> process_member" where "member_at s a = the (ps_members s a)"

definition calloc :: "(nat \<Rightarrow> bool) \<Rightarrow> process_store \<Rightarrow> nat option \<times> process_store" where
  "calloc ok s = (if ok (ps_next s) then Some (ps_next s) else None, s\<lparr>ps_next := ps_next s + 1\<rparr>)"

definition put_account :: "nat \<Rightarrow> account \<Rightarrow> process_store \<Rightarrow> process_store" where
  "put_account a x s = s\<lparr>ps_accounts := (ps_accounts s)(a \<mapsto> x)\<rparr>"

definition put_member :: "nat \<Rightarrow> process_member option \<Rightarrow> process_store \<Rightarrow> process_store" where
  "put_member m x s = s\<lparr>ps_members := (ps_members s)(m := x)\<rparr>"

definition put_limits :: "nat \<Rightarrow> limits_cell option \<Rightarrow> process_store \<Rightarrow> process_store" where
  "put_limits l x s = s\<lparr>ps_limits := (ps_limits s)(l := x)\<rparr>"

section \<open>Scopes and accounts\<close>

definition scope_get ::
  "(nat \<Rightarrow> bool) \<Rightarrow> user_store \<Rightarrow> ns_ptr \<Rightarrow> u64 \<Rightarrow> process_store \<Rightarrow> nat option \<times> process_store" where
  "scope_get ok us space ceiling s =
     (let key = md_user_namespace_key us space in
      case find (\<lambda>a. same_id (scope_key (scope_at s a)) key) (owner_scopes (ps_owner s)) of
        Some a \<Rightarrow> (Some a, s)
      | None \<Rightarrow>
         (case calloc ok s of
            (None, s) \<Rightarrow> (None, s)
          | (Some a, s) \<Rightarrow>
             (Some a, s\<lparr>ps_scopes := (ps_scopes s)(a \<mapsto> \<lparr>scope_key = key, scope_ceiling = (if space \<noteq> [] then ceiling else - 1)\<rparr>),
                        ps_owner := (ps_owner s)\<lparr>owner_scopes := a # owner_scopes (ps_owner s)\<rparr>\<rparr>)))"

definition account_bucket :: "user_store \<Rightarrow> ns_ptr \<Rightarrow> u32 \<Rightarrow> nat" where
  "account_bucket us space uid = unat (Bit_Operations.xor (ucast uid) (md_user_namespace_inode us space)) mod BUCKETS"

definition account_matches :: "user_store \<Rightarrow> ns_ptr \<Rightarrow> u32 \<Rightarrow> process_store \<Rightarrow> nat \<Rightarrow> bool" where
  "account_matches us space uid s a \<longleftrightarrow> account_uid (account_at s a) = uid
     \<and> same_id (scope_key (scope_at s (account_scope (account_at s a)))) (md_user_namespace_key us space)"

definition new_account ::
  "(nat \<Rightarrow> bool) \<Rightarrow> nat \<Rightarrow> account_ptr \<Rightarrow> nat \<Rightarrow> u32 \<Rightarrow> process_store \<Rightarrow> account_ptr option \<times> process_store" where
  "new_account ok bucket par sc uid s =
     (case calloc ok s of
        (None, s) \<Rightarrow> (None, s)
      | (Some a, s) \<Rightarrow>
         (Some (a # par),
          put_account a \<lparr>account_parent = par, account_scope = sc, account_uid = uid, account_count = 0\<rparr>
            (s\<lparr>ps_owner := (ps_owner s)\<lparr>owner_accounts :=
                 (owner_accounts (ps_owner s))(bucket := a # owner_accounts (ps_owner s) bucket)\<rparr>\<rparr>)))"

fun account_get ::
  "(nat \<Rightarrow> bool) \<Rightarrow> user_store \<Rightarrow> ns_ptr \<Rightarrow> u32 \<Rightarrow> u64 \<Rightarrow> process_store \<Rightarrow> account_ptr option \<times> process_store" where
  "account_get ok us space uid ceiling s =
     (let bucket = account_bucket us space uid in
      case find (account_matches us space uid s) (owner_accounts (ps_owner s) bucket) of
        Some a \<Rightarrow> (Some (a # account_parent (account_at s a)), s)
      | None \<Rightarrow>
         (case scope_get ok us space ceiling s of
            (None, s) \<Rightarrow> (None, s)
          | (Some sc, s) \<Rightarrow>
             (case space of
                [] \<Rightarrow> new_account ok bucket [] sc uid s
              | _ # up \<Rightarrow>
                 (case account_get ok us up (md_user_namespace_creator us space) ceiling s of
                    (None, s) \<Rightarrow> (None, s)
                  | (Some p, s) \<Rightarrow> new_account ok bucket p sc uid s))))"

declare account_get.simps [simp del]

definition bump_count :: "u64 \<Rightarrow> nat \<Rightarrow> process_store \<Rightarrow> process_store" where
  "bump_count delta a s = put_account a ((account_at s a)\<lparr>account_count := account_count (account_at s a) + delta\<rparr>) s"

definition charge_account :: "u64 \<Rightarrow> account_ptr \<Rightarrow> process_store \<Rightarrow> process_store" where
  "charge_account delta p s = fold (bump_count delta) p s"

fun overlimit :: "process_store \<Rightarrow> account_ptr \<Rightarrow> u64 \<Rightarrow> u64 \<Rightarrow> bool" where
  "overlimit s [] limit adding = False"
| "overlimit s (a # p) limit adding =
     (let n = account_count (account_at s a) in
      if n > limit \<or> adding > limit - n then True
      else overlimit s p (scope_ceiling (scope_at s (account_scope (account_at s a)))) adding)"

definition accounting_release :: "process_store \<Rightarrow> process_store" where
  "accounting_release s =
     (let w = ps_owner s; w = w\<lparr>owner_members := owner_members w - 1\<rparr> in
      if owner_members w \<noteq> 0 then s\<lparr>ps_owner := w\<rparr>
      else s\<lparr>ps_owner := w\<lparr>owner_scopes := [], owner_accounts := (\<lambda>_. [])\<rparr>, ps_scopes := (\<lambda>_. None), ps_accounts := (\<lambda>_. None)\<rparr>)"

section \<open>Members\<close>

definition nproc_limit :: "process_store \<Rightarrow> process_member \<Rightarrow> u64" where
  "nproc_limit s m = rlim_cur (nproc (limits_value (limits_at s (the (member_limits m)))))"

definition md_process_member_retain :: "nat option \<Rightarrow> process_store \<Rightarrow> process_store" where
  "md_process_member_retain member s =
     (case member of None \<Rightarrow> s
      | Some m \<Rightarrow> put_member m (Some ((member_at s m)\<lparr>member_references := member_references (member_at s m) + 1\<rparr>)) s)"

definition limits_release :: "nat option \<Rightarrow> process_store \<Rightarrow> process_store" where
  "limits_release cell s =
     (case cell of None \<Rightarrow> s
      | Some l \<Rightarrow>
         let c = limits_at s l; c = c\<lparr>limits_references := limits_references c - 1\<rparr>
         in put_limits l (if limits_references c = 0 then None else Some c) s)"

definition md_process_member_release :: "nat option \<Rightarrow> process_store \<Rightarrow> process_store" where
  "md_process_member_release member s =
     (case member of None \<Rightarrow> s
      | Some m \<Rightarrow>
         let x = member_at s m; x = x\<lparr>member_references := member_references x - 1\<rparr> in
         if member_references x \<noteq> 0 then put_member m (Some x) s
         else put_member m None
                (accounting_release (limits_release (member_limits x) (charge_account (- 1) (member_account x) s))))"

definition charged_to :: "user_store \<Rightarrow> identity \<Rightarrow> process_member \<Rightarrow> process_store \<Rightarrow> bool" where
  "charged_to us ident x s \<longleftrightarrow>
     (case member_account x of [] \<Rightarrow> False | a # _ \<Rightarrow> account_matches us (id_ns ident) (id_real (id_uid ident)) s a)"

definition md_process_member_identity ::
  "(nat \<Rightarrow> bool) \<Rightarrow> user_store \<Rightarrow> identity \<Rightarrow> nat option \<Rightarrow> process_store \<Rightarrow> unit result \<times> process_store" where
  "md_process_member_identity ok us ident member s =
     (case member of None \<Rightarrow> (Inr (), s)
      | Some m \<Rightarrow>
         let x = member_at s m; uid = id_real (id_uid ident) in
         if charged_to us ident x s then (Inr (), s)
         else case account_get ok us (id_ns ident) uid (nproc_limit s x) s of
           (None, s) \<Rightarrow> (Inl ENOMEM, s)
         | (Some p, s) \<Rightarrow>
            let changed = (case member_account x of [] \<Rightarrow> False | a # _ \<Rightarrow> account_uid (account_at s a) \<noteq> uid);
                s1 = charge_account (- 1) (member_account x) (charge_account 1 p s);
                x1 = x\<lparr>member_account := p\<rparr>;
                x2 = (if changed then x1\<lparr>exec_check := (uid \<noteq> 0 \<and> overlimit s1 p (nproc_limit s1 x1) 0)\<rparr> else x1)
            in (Inr (), put_member m (Some x2) s1))"

definition no_processes :: process_store where
  "no_processes = \<lparr>ps_owner = \<lparr>owner_members = 0, owner_scopes = [], owner_accounts = (\<lambda>_. [])\<rparr>, ps_scopes = (\<lambda>_. None),
     ps_accounts = (\<lambda>_. None), ps_limits = (\<lambda>_. None), ps_members = (\<lambda>_. None), ps_next = 0\<rparr>"

text \<open>The first member of a launch, with an accounting of its own.\<close>

definition md_process_member_new ::
  "(nat \<Rightarrow> bool) \<Rightarrow> user_store \<Rightarrow> identity \<Rightarrow> process_limits \<Rightarrow> (nat \<times> process_store) option" where
  "md_process_member_new ok us ident limit =
     (let (m, s) = calloc ok no_processes; (w, s) = calloc ok s; (l, s) = calloc ok s in
      case (m, w, l) of
        (Some m, Some _, Some l) \<Rightarrow>
          let s = put_limits l (Some \<lparr>limits_references = 1, limits_value = limit, native_nofile_max = rlim_max (nofile limit)\<rparr>)
                    (put_member m (Some \<lparr>member_references = 1, member_account = [], member_limits = Some l, exec_check = False\<rparr>)
                      (s\<lparr>ps_owner := (ps_owner s)\<lparr>owner_members := 1\<rparr>\<rparr>))
          in (case md_process_member_identity ok us ident (Some m) s of
                (Inr _, s) \<Rightarrow> Some (m, s) | (Inl _, s) \<Rightarrow> None)
      | _ \<Rightarrow> None)"

definition fork_refused :: "user_store \<Rightarrow> identity \<Rightarrow> process_member \<Rightarrow> process_store \<Rightarrow> bool" where
  "fork_refused us ident x s \<longleftrightarrow> overlimit s (member_account x) (nproc_limit s x) 1 \<and> id_real (id_uid ident) \<noteq> 0
     \<and> \<not> md_identity_capable_in us ident [] CAP_SYS_RESOURCE \<and> \<not> md_identity_capable_in us ident [] CAP_SYS_ADMIN"

text \<open>The limits of a new task: shared within a thread group, copied otherwise.\<close>

definition fork_limits :: "(nat \<Rightarrow> bool) \<Rightarrow> u64 \<Rightarrow> nat \<Rightarrow> process_store \<Rightarrow> nat option \<times> process_store" where
  "fork_limits ok flags l s =
     (let c = limits_at s l in
      if Bit_Operations.and flags CLONE_THREAD \<noteq> 0
      then (Some l, put_limits l (Some (c\<lparr>limits_references := limits_references c + 1\<rparr>)) s)
      else (case calloc ok s of
              (None, s) \<Rightarrow> (None, s)
            | (Some k, s) \<Rightarrow> (Some k, put_limits k (Some (c\<lparr>limits_references := 1\<rparr>)) s)))"

definition md_process_member_fork ::
  "(nat \<Rightarrow> bool) \<Rightarrow> user_store \<Rightarrow> identity \<Rightarrow> u64 \<Rightarrow> nat option \<Rightarrow> process_store \<Rightarrow> nat result \<times> process_store" where
  "md_process_member_fork ok us ident flags member s =
     (case member of None \<Rightarrow> (Inl EINVAL, s)
      | Some pm \<Rightarrow>
         let x = member_at s pm in
         if fork_refused us ident x s then (Inl EAGAIN, s)
         else case calloc ok s of
           (None, s) \<Rightarrow> (Inl ENOMEM, s)
         | (Some m, s) \<Rightarrow>
            (case fork_limits ok flags (the (member_limits x))
                    (s\<lparr>ps_owner := (ps_owner s)\<lparr>owner_members := owner_members (ps_owner s) + 1\<rparr>\<rparr>) of
               (None, s) \<Rightarrow> (Inl ENOMEM, accounting_release s)
             | (Some k, s) \<Rightarrow>
                (Inr m, charge_account 1 (member_account x)
                   (put_member m (Some \<lparr>member_references = 1, member_account = member_account x, member_limits = Some k, exec_check = False\<rparr>) s))))"

definition md_process_member_forked :: "nat option \<Rightarrow> process_store \<Rightarrow> process_store" where
  "md_process_member_forked member s =
     (case member of None \<Rightarrow> s | Some m \<Rightarrow> put_member m (Some ((member_at s m)\<lparr>exec_check := False\<rparr>)) s)"

definition md_process_member_exec :: "nat option \<Rightarrow> process_store \<Rightarrow> unit result \<times> process_store" where
  "md_process_member_exec member s =
     (case member of None \<Rightarrow> (Inr (), s)
      | Some m \<Rightarrow>
         let x = member_at s m in
         if \<not> exec_check x then (Inr (), s)
         else if overlimit s (member_account x) (nproc_limit s x) 0 then (Inl EAGAIN, s)
         else (Inr (), put_member m (Some (x\<lparr>exec_check := False\<rparr>)) s))"

section \<open>Limits\<close>

definition md_process_limits_value :: "process_store \<Rightarrow> nat \<Rightarrow> process_limits" where
  "md_process_limits_value s m = limits_value (limits_at s (the (member_limits (member_at s m))))"

definition md_process_native_nofile :: "process_store \<Rightarrow> nat \<Rightarrow> u64" where
  "md_process_native_nofile s m =
     (let c = limits_at s (the (member_limits (member_at s m))); soft = rlim_cur (nofile (limits_value c))
      in if soft < native_nofile_max c then soft else native_nofile_max c)"

text \<open>Whether an actor may see or change the limits of a target in another thread group.\<close>

definition limit_permitted :: "user_store \<Rightarrow> identity \<Rightarrow> identity \<Rightarrow> bool \<Rightarrow> bool" where
  "limit_permitted us actor target same_group \<longleftrightarrow> same_group
     \<or> md_identity_capable_in us actor (id_ns target) CAP_SYS_RESOURCE
     \<or> (let u = id_real (id_uid actor); g = id_real (id_gid actor) in
        u = id_real (id_uid target) \<and> u = id_effective (id_uid target) \<and> u = id_saved (id_uid target)
        \<and> g = id_real (id_gid target) \<and> g = id_effective (id_gid target) \<and> g = id_saved (id_gid target))"

text \<open>
  The result is the old limit. \<open>native\<close> answers for a limit the runtime does not keep, \<open>set\<close> for
  the \<open>prlimit\<close> call that lowers the kernel's own descriptor limit, given its soft limit.
\<close>

definition md_process_limit ::
  "user_store \<Rightarrow> identity \<Rightarrow> identity \<Rightarrow> bool \<Rightarrow> nat \<Rightarrow> rlimit option \<Rightarrow> rlimit result \<Rightarrow> (rlimit \<Rightarrow> errno option)
     \<Rightarrow> nat option \<Rightarrow> process_store \<Rightarrow> rlimit result \<times> process_store" where
  "md_process_limit us actor target same_group resource next_limit native set_native member s =
     (case member of None \<Rightarrow> (Inl ESRCH, s)
      | Some m \<Rightarrow>
         let l = the (member_limits (member_at s m)); c = limits_at s l; v = limits_value c;
             kept = (resource = RLIMIT_NPROC \<or> resource = RLIMIT_NOFILE);
             val = (if resource = RLIMIT_NPROC then nproc v else nofile v)
         in if resource \<ge> RLIM_NLIMITS \<or> (\<not> kept \<and> next_limit \<noteq> None) then (Inl EINVAL, s)
            else if (case next_limit of Some n \<Rightarrow> rlim_cur n > rlim_max n | None \<Rightarrow> False) then (Inl EINVAL, s)
            else if \<not> limit_permitted us actor target same_group then (Inl EPERM, s)
            else if \<not> kept then (native, s)
            else case next_limit of
              None \<Rightarrow> (Inr val, s)
            | Some n \<Rightarrow>
               if resource = RLIMIT_NOFILE \<and> rlim_max n > MD_PROCESS_NOFILE_MAX then (Inl EPERM, s)
               else if rlim_max n > rlim_max val \<and> \<not> md_identity_capable_in us actor [] CAP_SYS_RESOURCE then (Inl EPERM, s)
               else
                 let top = native_nofile_max c;
                     error = (if resource = RLIMIT_NOFILE
                       then set_native \<lparr>rlim_cur = (if rlim_cur n < top then rlim_cur n else top), rlim_max = top\<rparr> else None)
                 in (case error of
                       Some e \<Rightarrow> (Inl e, s)
                     | None \<Rightarrow> (Inr val, put_limits l (Some (c\<lparr>limits_value :=
                         (if resource = RLIMIT_NPROC then v\<lparr>nproc := n\<rparr> else v\<lparr>nofile := n\<rparr>)\<rparr>)) s)))"

section \<open>The counts are exact\<close>

text \<open>A pointer to an account: every address is live, its parent field is the rest, none repeats.\<close>

fun chain_ok :: "process_store \<Rightarrow> account_ptr \<Rightarrow> bool" where
  "chain_ok s [] = True"
| "chain_ok s (a # p) = ((\<exists>x. ps_accounts s a = Some x \<and> account_parent x = p) \<and> a \<notin> set p \<and> chain_ok s p)"

definition charged :: "process_store \<Rightarrow> nat \<Rightarrow> nat set" where
  "charged s a = {m. \<exists>x. ps_members s m = Some x \<and> a \<in> set (member_account x)}"

definition process_ok :: "process_store \<Rightarrow> bool" where
  "process_ok s \<longleftrightarrow> finite (dom (ps_members s)) \<and> unat (owner_members (ps_owner s)) = card (dom (ps_members s))
     \<and> (\<forall>a x. ps_accounts s a = Some x \<longrightarrow> a < ps_next s \<and> chain_ok s (a # account_parent x) \<and> account_count x = of_nat (card (charged s a)))
     \<and> (\<forall>b. \<forall>a \<in> set (owner_accounts (ps_owner s) b). ps_accounts s a \<noteq> None)
     \<and> (\<forall>m x. ps_members s m = Some x \<longrightarrow> m < ps_next s \<and> chain_ok s (member_account x))"

lemma chain_ok_live: "chain_ok s p \<Longrightarrow> a \<in> set p \<Longrightarrow> ps_accounts s a \<noteq> None"
  by (induction p) auto

lemma chain_ok_distinct: "chain_ok s p \<Longrightarrow> distinct p"
  by (induction p) auto

lemma chain_ok_mono:
  assumes "chain_ok s p" "\<And>a x. ps_accounts s a = Some x \<Longrightarrow> \<exists>y. ps_accounts t a = Some y \<and> account_parent y = account_parent x"
  shows "chain_ok t p"
  using assms(1) by (induction p) (auto dest: assms(2))

text \<open>A charge changes the counts of a chain by its amount and nothing else.\<close>

lemma charge_account_at:
  assumes "distinct p"
  shows "ps_accounts (charge_account d p s) a =
    (if a \<in> set p then Some ((account_at s a)\<lparr>account_count := account_count (account_at s a) + d\<rparr>) else ps_accounts s a)"
  using assms
proof (induction p arbitrary: s)
  case (Cons b p)
  thus ?case by (auto simp: charge_account_def bump_count_def put_account_def account_at_def)
qed (simp add: charge_account_def)

lemma charge_account_frame [simp]:
  "ps_members (charge_account d p s) = ps_members s" "ps_owner (charge_account d p s) = ps_owner s"
  "ps_scopes (charge_account d p s) = ps_scopes s" "ps_limits (charge_account d p s) = ps_limits s"
  "ps_next (charge_account d p s) = ps_next s"
  unfolding charge_account_def
  by (induction p arbitrary: s; simp add: bump_count_def put_account_def)+

lemma charge_chain_ok:
  assumes "chain_ok s p"
  shows "chain_ok (charge_account d p s) q = chain_ok s q"
proof -
  have live: "ps_accounts s a = Some (account_at s a)" if "a \<in> set p" for a
    using chain_ok_live [OF assms that] by (auto simp: account_at_def)
  show ?thesis using live
    by (induction q) (auto simp: charge_account_at [OF chain_ok_distinct [OF assms]])
qed

lemma charged_live: "process_ok s \<Longrightarrow> charged s a \<noteq> {} \<Longrightarrow> ps_accounts s a \<noteq> None"
  using chain_ok_live by (fastforce simp: charged_def process_ok_def)

lemma finite_charged: "process_ok s \<Longrightarrow> finite (charged s a)"
  by (rule finite_subset [of _ "dom (ps_members s)"]) (auto simp: charged_def process_ok_def)

text \<open>How a store may grow while an account is looked up: members and existing accounts stay.\<close>

definition grows :: "process_store \<Rightarrow> process_store \<Rightarrow> bool" where
  "grows s t \<longleftrightarrow> process_ok t \<and> ps_members t = ps_members s \<and> ps_limits t = ps_limits s \<and> ps_next s \<le> ps_next t
     \<and> owner_members (ps_owner t) = owner_members (ps_owner s)
     \<and> (\<forall>a x. ps_accounts s a = Some x \<longrightarrow> ps_accounts t a = Some x)"

lemma grows_refl: "process_ok s \<Longrightarrow> grows s s" by (simp add: grows_def)

lemma grows_trans: "grows s t \<Longrightarrow> grows t u \<Longrightarrow> grows s u" by (auto simp: grows_def)

lemma process_ok_next:
  assumes "process_ok s" "ps_next s \<le> n"
  shows "process_ok (s\<lparr>ps_next := n\<rparr>)"
proof -
  have "chain_ok (s\<lparr>ps_next := n\<rparr>) p = chain_ok s p" for p by (induction p) auto
  moreover have "charged (s\<lparr>ps_next := n\<rparr>) a = charged s a" for a by (simp add: charged_def)
  ultimately show ?thesis using assms unfolding process_ok_def by fastforce
qed

lemma calloc_grows: "process_ok s \<Longrightarrow> calloc ok s = (r, t) \<Longrightarrow> grows s t"
  using process_ok_next [of s "ps_next s + 1"] by (auto simp: calloc_def grows_def)

lemma process_ok_scopes:
  assumes "process_ok s"
  shows "process_ok (s\<lparr>ps_scopes := f, ps_owner := (ps_owner s)\<lparr>owner_scopes := g\<rparr>\<rparr>)"
proof -
  let ?t = "s\<lparr>ps_scopes := f, ps_owner := (ps_owner s)\<lparr>owner_scopes := g\<rparr>\<rparr>"
  have "chain_ok ?t p = chain_ok s p" for p by (induction p) auto
  moreover have "charged ?t a = charged s a" for a by (simp add: charged_def)
  ultimately show ?thesis using assms unfolding process_ok_def by simp
qed

lemma scope_get_grows:
  assumes ok: "process_ok s" and run: "scope_get al us space ceiling s = (r, t)"
  shows "grows s t"
proof (cases "find (\<lambda>a. same_id (scope_key (scope_at s a)) (md_user_namespace_key us space)) (owner_scopes (ps_owner s))")
  case None
  obtain q u where c: "calloc al s = (q, u)" by fastforce
  have g: "grows s u" by (rule calloc_grows [OF ok c])
  hence "process_ok u" by (simp add: grows_def)
  thus ?thesis using run None c g process_ok_scopes
    by (cases q) (auto simp: scope_get_def Let_def grows_def)
next
  case (Some a)
  thus ?thesis using run grows_refl [OF ok] by (simp add: scope_get_def Let_def)
qed

text \<open>Adding an account nobody is charged to keeps everything in place.\<close>

lemma fresh_account_ok:
  assumes ok: "process_ok s" and fresh: "ps_accounts s (ps_next s) = None" and chain: "chain_ok s par"
    and x: "account_parent x = par" "account_count x = 0" and t: "ps_accounts t = (ps_accounts s)(ps_next s \<mapsto> x)"
    and frame: "ps_members t = ps_members s" "ps_next t = Suc (ps_next s)" "owner_members (ps_owner t) = owner_members (ps_owner s)"
    and buckets: "\<And>b. set (owner_accounts (ps_owner t) b) \<subseteq> insert (ps_next s) (set (owner_accounts (ps_owner s) b))"
  shows "process_ok t \<and> chain_ok t (ps_next s # par)"
proof -
  let ?a = "ps_next s"
  have mono: "chain_ok s p \<Longrightarrow> chain_ok t p" for p
    by (rule chain_ok_mono [of s]) (use t fresh in \<open>auto split: if_splits\<close>)
  have "?a \<notin> set par" using chain_ok_live [OF chain, of ?a] fresh by auto
  hence new: "chain_ok t (?a # par)" using t x(1) mono [OF chain] by simp
  have charged: "charged t b = charged s b" "charged s ?a = {}" for b
    using charged_live [OF ok, of ?a] fresh frame(1) by (auto simp: charged_def)
  have old: "b < ?a" "chain_ok s (b # account_parent y)" "account_count y = of_nat (card (charged s b))"
    if "ps_accounts s b = Some y" for b y using ok that by (auto simp: process_ok_def)
  have "process_ok t"
    unfolding process_ok_def
  proof (intro conjI allI impI ballI)
    fix b y
    assume b: "ps_accounts t b = Some y"
    show "b < ps_next t" using b t frame(2) old(1) [of b y] by (cases "b = ?a") auto
    show "chain_ok t (b # account_parent y)" using b t x(1) new mono [OF old(2)] by (cases "b = ?a") auto
    show "account_count y = of_nat (card (charged t b))" using b t x(2) charged old(3) [of b y] by (cases "b = ?a") auto
  next
    fix b c
    assume "c \<in> set (owner_accounts (ps_owner t) b)"
    hence "c = ?a \<or> c \<in> set (owner_accounts (ps_owner s) b)" using buckets [of b] by blast
    moreover have "c \<in> set (owner_accounts (ps_owner s) b) \<Longrightarrow> ps_accounts s c \<noteq> None" using ok unfolding process_ok_def by blast
    ultimately show "ps_accounts t c \<noteq> None" using t by auto
  next
    fix m y
    assume "ps_members t m = Some y"
    thus "m < ps_next t" "chain_ok t (member_account y)" using frame ok mono by (auto simp: process_ok_def less_Suc_eq)
  qed (use ok frame in \<open>simp_all add: process_ok_def\<close>)
  with new show ?thesis by blast
qed

lemma new_account_grows:
  assumes ok: "process_ok s" and run: "new_account al bucket par sc uid s = (r, t)" and chain: "chain_ok s par"
  shows "grows s t \<and> (\<forall>p. r = Some p \<longrightarrow> p \<noteq> [] \<and> chain_ok t p)"
proof -
  obtain q u where c: "calloc al s = (q, u)" by fastforce
  have g: "grows s u" by (rule calloc_grows [OF ok c])
  show ?thesis
  proof (cases q)
    case None
    thus ?thesis using run c g by (simp add: new_account_def)
  next
    case (Some a)
    have a: "a = ps_next s" "ps_next u = Suc a" "ps_accounts u = ps_accounts s" using c Some by (auto simp: calloc_def split: if_splits)
    let ?x = "\<lparr>account_parent = par, account_scope = sc, account_uid = uid, account_count = 0\<rparr>"
    have t: "r = Some (a # par)" "ps_accounts t = (ps_accounts s)(a \<mapsto> ?x)" "ps_members t = ps_members s" "ps_next t = Suc a"
        "ps_limits t = ps_limits s" "owner_members (ps_owner t) = owner_members (ps_owner s)"
        "\<And>b. set (owner_accounts (ps_owner t) b) \<subseteq> insert a (set (owner_accounts (ps_owner s) b))"
      using run c Some a g by (auto simp: new_account_def put_account_def grows_def calloc_def split: if_splits)
    have fresh: "ps_accounts s a = None" using ok a by (auto simp: process_ok_def) (metis less_irrefl not_Some_eq)
    have "process_ok t \<and> chain_ok t (a # par)"
      using fresh_account_ok [OF ok fresh [unfolded a(1)] chain, of ?x t] t a(1) by simp
    thus ?thesis using t a fresh by (auto simp: grows_def)
  qed
qed

lemma account_get_grows:
  "process_ok s \<Longrightarrow> account_get al us space uid ceiling s = (r, t)
    \<Longrightarrow> grows s t \<and> (\<forall>p. r = Some p \<longrightarrow> p \<noteq> [] \<and> chain_ok t p)"
proof (induction al us space uid ceiling s arbitrary: r t rule: account_get.induct)
  case (1 al us space uid ceiling s)
  let ?bucket = "account_bucket us space uid"
  note eq = 1(3) [unfolded account_get.simps [of al us space] Let_def]
  show ?case
  proof (cases "find (account_matches us space uid s) (owner_accounts (ps_owner s) ?bucket)")
    case (Some a)
    hence "a \<in> set (owner_accounts (ps_owner s) ?bucket)" by (auto dest: find_SomeD)
    then obtain x where "ps_accounts s a = Some x" using 1(2) unfolding process_ok_def by blast
    hence "chain_ok s (a # account_parent (account_at s a))" using 1(2) by (auto simp: process_ok_def account_at_def)
    thus ?thesis using eq Some grows_refl [OF 1(2)] by auto
  next
    case None
    obtain sc u where sc: "scope_get al us space ceiling s = (sc, u)" by fastforce
    have g: "grows s u" by (rule scope_get_grows [OF 1(2) sc])
    hence ok: "process_ok u" by (simp add: grows_def)
    show ?thesis
    proof (cases sc)
      case None': None
      thus ?thesis using eq None sc g by simp
    next
      case (Some k)
      show ?thesis
      proof (cases space)
        case Nil
        hence "new_account al ?bucket [] k uid u = (r, t)" using eq None sc Some by simp
        from new_account_grows [OF ok this] show ?thesis using grows_trans [OF g] by auto
      next
        case (Cons b up)
        obtain par v where par: "account_get al us up (md_user_namespace_creator us space) ceiling u = (par, v)" by fastforce
        have ih: "grows u v \<and> (\<forall>p. par = Some p \<longrightarrow> p \<noteq> [] \<and> chain_ok v p)"
          using 1(1) [OF refl None sc [symmetric] Some Cons ok par] .
        hence okv: "process_ok v" by (simp add: grows_def)
        show ?thesis
        proof (cases par)
          case None'': None
          thus ?thesis using eq None sc Some Cons par ih grows_trans [OF g] by simp
        next
          case Some': (Some p)
          hence "new_account al ?bucket p k uid v = (r, t)" using eq None sc Some Cons par by simp
          from new_account_grows [OF okv this] ih Some' show ?thesis using grows_trans [OF g] grows_trans by blast
        qed
      qed
    qed
  qed
qed

text \<open>One member changes its account from \<open>q\<close> to \<open>p\<close>; a missing member has the empty pointer.\<close>

definition account_of :: "process_member option \<Rightarrow> account_ptr" where
  "account_of x = (case x of None \<Rightarrow> [] | Some x \<Rightarrow> member_account x)"

definition recount :: "account_ptr \<Rightarrow> account_ptr \<Rightarrow> nat \<Rightarrow> account \<Rightarrow> account" where
  "recount p q a x = x\<lparr>account_count := account_count x + of_bool (a \<in> set p) - of_bool (a \<in> set q)\<rparr>"

lemma card_reassign:
  fixes C :: "nat set"
  assumes "finite C" "m \<in> C \<longleftrightarrow> old"
  shows "(of_nat (card (C - {m} \<union> (if new then {m} else {}))) :: u64) = of_nat (card C) + of_bool new - of_bool old"
proof (cases old)
  case True
  hence "card C = Suc (card (C - {m}))" using assms by (metis card_Suc_Diff1)
  moreover have "insert m C = C" using True assms by auto
  ultimately show ?thesis using True assms by simp
qed (use assms in simp)

lemma reassign_ok:
  assumes ok: "process_ok s"
    and members: "ps_members t = (ps_members s)(m := x)"
    and accounts: "\<And>a. ps_accounts t a = map_option (recount (account_of x) (account_of (ps_members s m)) a) (ps_accounts s a)"
    and chain: "chain_ok s (account_of x)"
    and "ps_next s \<le> ps_next t" "m < ps_next t" "owner_accounts (ps_owner t) = owner_accounts (ps_owner s)"
    and count: "unat (owner_members (ps_owner t)) = card (dom (ps_members t))"
  shows "process_ok t"
proof -
  let ?p = "account_of x" and ?q = "account_of (ps_members s m)"
  have chains: "chain_ok t p = chain_ok s p" for p
    by (induction p) (auto simp: accounts recount_def)
  have m: "m \<in> charged s a \<longleftrightarrow> a \<in> set ?q" for a by (cases "ps_members s m") (simp_all add: charged_def account_of_def)
  have charged: "charged t a = charged s a - {m} \<union> (if a \<in> set ?p then {m} else {})" for a
    by (auto simp: charged_def members account_of_def split: option.splits if_splits)
  have new: "(of_nat (card (charged t a)) :: u64) = of_nat (card (charged s a)) + of_bool (a \<in> set ?p) - of_bool (a \<in> set ?q)" for a
    unfolding charged by (rule card_reassign [OF finite_charged [OF ok] m])
  show ?thesis
    unfolding process_ok_def
  proof (intro conjI allI impI ballI)
    show "finite (dom (ps_members t))" using ok by (simp add: members process_ok_def)
  next
    fix a y
    assume y: "ps_accounts t a = Some y"
    then obtain z where z: "ps_accounts s a = Some z" "y = recount ?p ?q a z" using accounts [of a] by auto
    have old: "a < ps_next s" "chain_ok s (a # account_parent z)" "account_count z = of_nat (card (charged s a))"
      using ok z(1) unfolding process_ok_def by blast+
    show "a < ps_next t" "chain_ok t (a # account_parent y)" "account_count y = of_nat (card (charged t a))"
      using old assms(5) z(2) new chains [of "a # account_parent y"] by (auto simp: recount_def simp del: chain_ok.simps)
  next
    fix b a
    assume "a \<in> set (owner_accounts (ps_owner t) b)"
    thus "ps_accounts t a \<noteq> None" using ok assms(7) accounts [of a] by (auto simp: process_ok_def)
  next
    fix k y
    assume y: "ps_members t k = Some y"
    have "k < ps_next t \<and> chain_ok s (member_account y)"
    proof (cases "k = m")
      case True
      hence "account_of x = member_account y" using y members by (simp add: account_of_def)
      thus ?thesis using True chain assms(6) by simp
    next
      case False
      hence "ps_members s k = Some y" using y members by simp
      hence "k < ps_next s \<and> chain_ok s (member_account y)" using ok unfolding process_ok_def by blast
      thus ?thesis using assms(5) by simp
    qed
    thus "k < ps_next t" "chain_ok t (member_account y)" using chains by simp_all
  qed (rule count)
qed

lemma charge_recount:
  assumes "chain_ok s p"
  shows "ps_accounts (charge_account 1 p s) a = map_option (recount p [] a) (ps_accounts s a)"
    "ps_accounts (charge_account (- 1) p s) a = map_option (recount [] p a) (ps_accounts s a)"
proof -
  have live: "ps_accounts s a = Some (account_at s a)" if "a \<in> set p"
    using chain_ok_live [OF assms that] by (auto simp: account_at_def)
  show "ps_accounts (charge_account 1 p s) a = map_option (recount p [] a) (ps_accounts s a)"
    "ps_accounts (charge_account (- 1) p s) a = map_option (recount [] p a) (ps_accounts s a)"
    using live by (cases "ps_accounts s a"; auto simp: charge_account_at [OF chain_ok_distinct [OF assms]] recount_def)+
qed

lemma recount_recount: "recount [] q a (recount p [] a x) = recount p q a x"
  by (simp add: recount_def)

lemma charge_swap:
  assumes "chain_ok s p" "chain_ok s q"
  shows "ps_accounts (charge_account (- 1) q (charge_account 1 p s)) a = map_option (recount p q a) (ps_accounts s a)"
proof -
  have "chain_ok (charge_account 1 p s) q" using assms by (simp add: charge_chain_ok)
  thus ?thesis
    using charge_recount(1) [OF assms(1)] by (simp add: charge_recount(2) option.map_comp comp_def recount_recount)
qed

lemma member_chain: "process_ok s \<Longrightarrow> ps_members s m = Some x \<Longrightarrow> m < ps_next s \<and> chain_ok s (member_account x)"
  unfolding process_ok_def by blast

lemma member_dom: "ps_members s m = Some x \<Longrightarrow> insert m (dom (ps_members s)) = dom (ps_members s)" by auto

lemma recount_same: "map_option (recount p p a) y = y"
  by (cases y) (simp_all add: recount_def)

lemma member_update_ok:
  assumes "process_ok s" "ps_members s m = Some x" "member_account y = member_account x"
  shows "process_ok (put_member m (Some y) s)"
  using assms member_chain [OF assms(1,2)]
  by (intro reassign_ok [OF assms(1), of _ m "Some y"])
    (auto simp: put_member_def account_of_def recount_same process_ok_def member_dom [OF assms(2)])

lemma identity_ok:
  assumes ok: "process_ok s" and x: "ps_members s m = Some x"
    and run: "md_process_member_identity al us ident (Some m) s = (r, t)"
  shows "process_ok t \<and> dom (ps_members t) = dom (ps_members s)"
proof (cases "charged_to us ident x s")
  case True
  thus ?thesis using ok x run by (simp add: md_process_member_identity_def member_at_def)
next
  case False
  obtain p u where get: "account_get al us (id_ns ident) (id_real (id_uid ident)) (nproc_limit s x) s = (p, u)" by fastforce
  have g: "grows s u" and chain: "\<And>q. p = Some q \<Longrightarrow> chain_ok u q" using account_get_grows [OF ok get] by auto
  hence u: "process_ok u" "ps_members u = ps_members s" by (auto simp: grows_def)
  show ?thesis
  proof (cases p)
    case None
    thus ?thesis using run False get x u by (simp add: md_process_member_identity_def member_at_def)
  next
    case (Some q)
    let ?s1 = "charge_account (- 1) (member_account x) (charge_account 1 q u)"
    have old: "m < ps_next u" "chain_ok u (member_account x)" using member_chain [OF u(1)] u(2) x by auto
    obtain y where t: "t = put_member m (Some y) ?s1" "member_account y = q"
      using run False get x Some by (auto simp: md_process_member_identity_def member_at_def Let_def split: if_splits)
    have "process_ok t"
      by (rule reassign_ok [OF u(1), of _ m "Some y"])
        (use t old x u(2) chain [OF Some] charge_swap [OF chain [OF Some] old(2)] u(1) in
          \<open>auto simp: put_member_def account_of_def process_ok_def member_dom [OF x]\<close>)
    thus ?thesis using t x u(2) by (auto simp: put_member_def)
  qed
qed

lemma process_ok_cong:
  assumes "process_ok s" "ps_members t = ps_members s" "ps_accounts t = ps_accounts s" "ps_next s \<le> ps_next t"
    "owner_accounts (ps_owner t) = owner_accounts (ps_owner s)" "owner_members (ps_owner t) = owner_members (ps_owner s)"
  shows "process_ok t"
proof -
  have "chain_ok t p = chain_ok s p" for p by (induction p) (auto simp: assms(3))
  moreover have "charged t a = charged s a" for a by (simp add: charged_def assms(2))
  ultimately show ?thesis using assms unfolding process_ok_def by fastforce
qed

lemma limits_release_frame [simp]:
  "ps_members (limits_release l s) = ps_members s" "ps_accounts (limits_release l s) = ps_accounts s"
  "ps_owner (limits_release l s) = ps_owner s" "ps_next (limits_release l s) = ps_next s"
  by (simp_all add: limits_release_def put_limits_def Let_def split: option.split)

lemma release_ok:
  assumes ok: "process_ok s" and x: "ps_members s m = Some x"
  shows "process_ok (md_process_member_release (Some m) s)
    \<and> dom (ps_members (md_process_member_release (Some m) s)) \<subseteq> dom (ps_members s)"
proof (cases "member_references x - 1 = 0")
  case False
  thus ?thesis using x member_update_ok [OF ok x, of "x\<lparr>member_references := member_references x - 1\<rparr>"]
    by (auto simp: md_process_member_release_def member_at_def Let_def put_member_def)
next
  case True
  let ?s1 = "limits_release (member_limits x) (charge_account (- 1) (member_account x) s)"
  let ?t = "put_member m None (accounting_release ?s1)"
  have t: "md_process_member_release (Some m) s = ?t"
    using True x by (simp add: md_process_member_release_def member_at_def Let_def)
  have old: "m < ps_next s" "chain_ok s (member_account x)" using member_chain [OF ok x] by auto
  have members: "ps_members ?t = (ps_members s)(m := None)" by (simp add: put_member_def accounting_release_def Let_def)
  have fin: "finite (dom (ps_members s))" and n: "unat (owner_members (ps_owner s)) = card (dom (ps_members s))"
    using ok by (auto simp: process_ok_def)
  have card: "card (dom (ps_members s)) = Suc (card (dom (ps_members ?t)))"
  proof -
    have "dom (ps_members ?t) = dom (ps_members s) - {m}" "m \<in> dom (ps_members s)" using members x by auto
    thus ?thesis using fin by (metis card_Suc_Diff1)
  qed
  have dec: "unat (owner_members (ps_owner s) - 1) = card (dom (ps_members ?t))"
  proof -
    have "owner_members (ps_owner s) \<noteq> 0" using n card by auto
    thus ?thesis using n card by (simp add: unat_minus_one)
  qed
  show ?thesis
  proof (cases "owner_members (ps_owner s) - 1 = 0")
    case True
    hence "dom (ps_members ?t) = {}" using dec fin members by simp
    moreover have "ps_accounts ?t = (\<lambda>_. None)" "owner_accounts (ps_owner ?t) = (\<lambda>_. [])" "unat (owner_members (ps_owner ?t)) = 0"
      using True by (simp_all add: put_member_def accounting_release_def Let_def)
    ultimately show ?thesis unfolding t by (simp add: process_ok_def)
  next
    case False
    have "process_ok ?t"
    proof (rule reassign_ok [OF ok members])
      fix a
      have "ps_accounts ?t a = ps_accounts (charge_account (- 1) (member_account x) s) a"
        using False by (simp add: put_member_def accounting_release_def Let_def)
      thus "ps_accounts ?t a = map_option (recount (account_of None) (account_of (ps_members s m)) a) (ps_accounts s a)"
        using charge_recount(2) [OF old(2)] x by (simp add: account_of_def)
    qed (use old False dec in \<open>simp_all add: put_member_def accounting_release_def Let_def account_of_def\<close>)
    thus ?thesis using t members by auto
  qed
qed

lemma unat_succ32: "unat (w :: u32) < 2 ^ 32 - 1 \<Longrightarrow> unat (w + 1) = Suc (unat w)"
  by (simp add: unat_word_ariths)

lemma fork_limits_frame:
  assumes "fork_limits al flags l s = (cell, u)"
  shows "ps_members u = ps_members s" "ps_accounts u = ps_accounts s" "ps_owner u = ps_owner s" "ps_next s \<le> ps_next u"
  using assms by (auto simp: fork_limits_def calloc_def put_limits_def Let_def split: if_splits)

lemma fork_ok:
  assumes ok: "process_ok s" and x: "ps_members s pm = Some x" and room: "card (dom (ps_members s)) < 2 ^ 32 - 1"
    and run: "md_process_member_fork al us ident flags (Some pm) s = (r, t)"
  shows "process_ok t \<and> card (dom (ps_members t)) \<le> Suc (card (dom (ps_members s)))"
proof (cases "fork_refused us ident x s \<or> \<not> al (ps_next s)")
  case True
  have "calloc al s = (None, s\<lparr>ps_next := ps_next s + 1\<rparr>)" if "\<not> al (ps_next s)" using that by (simp add: calloc_def)
  hence "t = s \<or> t = s\<lparr>ps_next := ps_next s + 1\<rparr>"
    using True run x by (cases "fork_refused us ident x s") (auto simp: md_process_member_fork_def member_at_def)
  thus ?thesis using ok process_ok_next [OF ok, of "ps_next s + 1"] by auto
next
  case False
  let ?m = "ps_next s"
  let ?s1 = "s\<lparr>ps_next := ?m + 1, ps_owner := (ps_owner s)\<lparr>owner_members := owner_members (ps_owner s) + 1\<rparr>\<rparr>"
  have fin: "finite (dom (ps_members s))" and n: "unat (owner_members (ps_owner s)) = card (dom (ps_members s))"
    using ok by (auto simp: process_ok_def)
  have old: "chain_ok s (member_account x)" using member_chain [OF ok x] by auto
  have fresh: "ps_members s ?m = None" using member_chain [OF ok, of ?m] by fastforce
  have alloc: "calloc al s = (Some ?m, s\<lparr>ps_next := ?m + 1\<rparr>)" using False by (simp add: calloc_def)
  obtain cell u where l: "fork_limits al flags (the (member_limits x)) ?s1 = (cell, u)" by fastforce
  note u = fork_limits_frame [OF l]
  show ?thesis
  proof (cases cell)
    case None
    hence t: "t = accounting_release u" using run x False alloc l by (simp add: md_process_member_fork_def member_at_def)
    have "dom (ps_members s) \<noteq> {}" using x by auto
    hence "owner_members (ps_owner s) \<noteq> 0" using n fin by (metis card_0_eq unat_0)
    hence "process_ok t"
      using t u by (intro process_ok_cong [OF ok]) (simp_all add: accounting_release_def Let_def)
    thus ?thesis using t u by (simp add: accounting_release_def Let_def)
  next
    case (Some k)
    let ?y = "\<lparr>member_references = 1, member_account = member_account x, member_limits = Some k, exec_check = False\<rparr>"
    have t: "t = charge_account 1 (member_account x) (put_member ?m (Some ?y) u)"
      using run x False alloc l Some by (simp add: md_process_member_fork_def member_at_def)
    have members: "ps_members t = (ps_members s)(?m := Some ?y)" using t u by (simp add: put_member_def)
    have card: "card (dom (ps_members t)) = Suc (card (dom (ps_members s)))" using members fin fresh by (simp add: domIff)
    have "chain_ok (put_member ?m (Some ?y) u) (member_account x)"
      by (rule chain_ok_mono [OF old]) (use u in \<open>simp add: put_member_def\<close>)
    hence "process_ok t"
      using u old fresh card n room unat_succ32 [of "owner_members (ps_owner s)"] charge_recount(1) t members
      by (intro reassign_ok [OF ok members]) (auto simp: account_of_def put_member_def)
    thus ?thesis using card by simp
  qed
qed

section \<open>Histories of a launch\<close>

datatype process_call =
    Fork_Task user_store identity u64 nat
  | Set_Identity user_store identity nat
  | Retain_Task nat | Release_Task nat | Exec_Task nat | Forked_Task nat

fun call_member :: "process_call \<Rightarrow> nat" where
  "call_member (Fork_Task us ident flags m) = m"
| "call_member (Set_Identity us ident m) = m"
| "call_member (Retain_Task m) = m"
| "call_member (Release_Task m) = m"
| "call_member (Exec_Task m) = m"
| "call_member (Forked_Task m) = m"

fun perform_call :: "(nat \<Rightarrow> bool) \<Rightarrow> process_call \<Rightarrow> process_store \<Rightarrow> process_store" where
  "perform_call ok (Fork_Task us ident flags m) s = snd (md_process_member_fork ok us ident flags (Some m) s)"
| "perform_call ok (Set_Identity us ident m) s = snd (md_process_member_identity ok us ident (Some m) s)"
| "perform_call ok (Retain_Task m) s = md_process_member_retain (Some m) s"
| "perform_call ok (Release_Task m) s = md_process_member_release (Some m) s"
| "perform_call ok (Exec_Task m) s = snd (md_process_member_exec (Some m) s)"
| "perform_call ok (Forked_Task m) s = md_process_member_forked (Some m) s"

text \<open>Callers name live members only.\<close>

definition process_step :: "(nat \<Rightarrow> bool) \<Rightarrow> process_call \<Rightarrow> process_store \<Rightarrow> process_store" where
  "process_step ok c s = (if ps_members s (call_member c) = None then s else perform_call ok c s)"

lemma process_step_ok:
  assumes ok: "process_ok s" and room: "card (dom (ps_members s)) < 2 ^ 32 - 1"
  shows "process_ok (process_step al c s) \<and> card (dom (ps_members (process_step al c s))) \<le> Suc (card (dom (ps_members s)))"
proof (cases "ps_members s (call_member c)")
  case None
  thus ?thesis using ok by (simp add: process_step_def)
next
  case (Some x)
  have upd: "process_ok (put_member m (Some y) s) \<and> dom (ps_members (put_member m (Some y) s)) = dom (ps_members s)"
    if "m = call_member c" "member_account y = member_account x" for m y
    using member_update_ok [OF ok Some that(2)] that(1) Some by (auto simp: put_member_def)
  have fin: "finite (dom (ps_members s))" using ok by (simp add: process_ok_def)
  show ?thesis
  proof (cases c)
    case (Fork_Task us ident flags m)
    obtain r t where "md_process_member_fork al us ident flags (Some m) s = (r, t)" by fastforce
    thus ?thesis using fork_ok [OF ok _ room] Some Fork_Task by (simp add: process_step_def)
  next
    case (Set_Identity us ident m)
    obtain r t where "md_process_member_identity al us ident (Some m) s = (r, t)" by fastforce
    thus ?thesis using identity_ok [OF ok] Some Set_Identity by (simp add: process_step_def)
  next
    case (Retain_Task m)
    thus ?thesis using upd [of m "x\<lparr>member_references := member_references x + 1\<rparr>"] Some
      by (simp add: process_step_def md_process_member_retain_def member_at_def)
  next
    case (Release_Task m)
    hence "process_ok (md_process_member_release (Some m) s)" "dom (ps_members (md_process_member_release (Some m) s)) \<subseteq> dom (ps_members s)"
      using release_ok [OF ok] Some by auto
    thus ?thesis using Some Release_Task card_mono [OF fin] by (simp add: process_step_def le_SucI)
  next
    case (Exec_Task m)
    thus ?thesis using upd [of m "x\<lparr>exec_check := False\<rparr>"] Some ok
      by (simp add: process_step_def md_process_member_exec_def member_at_def Let_def)
  next
    case (Forked_Task m)
    thus ?thesis using upd [of m "x\<lparr>exec_check := False\<rparr>"] Some
      by (simp add: process_step_def md_process_member_forked_def member_at_def)
  qed
qed

lemma process_run_ok:
  "process_ok s \<Longrightarrow> card (dom (ps_members s)) + length cs < 2 ^ 32 \<Longrightarrow>
    process_ok (fold (process_step al) cs s) \<and> card (dom (ps_members (fold (process_step al) cs s))) \<le> card (dom (ps_members s)) + length cs"
proof (induction cs arbitrary: s)
  case (Cons c cs)
  have "card (dom (ps_members s)) < 2 ^ 32 - 1" using Cons.prems(2) by simp
  from process_step_ok [OF Cons.prems(1) this, of al c]
  have step: "process_ok (process_step al c s)" "card (dom (ps_members (process_step al c s))) \<le> Suc (card (dom (ps_members s)))" by auto
  from Cons.IH [OF step(1)] step(2) Cons.prems(2) show ?case by simp
qed simp

lemma member_new_ok:
  assumes "md_process_member_new al us ident limit = Some (m, s)"
  shows "process_ok s \<and> card (dom (ps_members s)) = 1"
proof -
  let ?l = "\<lparr>limits_references = 1, limits_value = limit, native_nofile_max = rlim_max (nofile limit)\<rparr>"
  let ?x = "\<lparr>member_references = 1, member_account = [], member_limits = Some 2, exec_check = False\<rparr>"
  define s0 where "s0 = put_limits 2 (Some ?l) (put_member 0 (Some ?x) (no_processes\<lparr>ps_next := 3,
      ps_owner := (ps_owner no_processes)\<lparr>owner_members := 1\<rparr>\<rparr>))"
  have al: "al 0" "al 1" "al 2"
    using assms by (auto simp: md_process_member_new_def calloc_def no_processes_def Let_def numeral_2_eq_2 split: if_splits)
  obtain r t where run: "md_process_member_identity al us ident (Some 0) s0 = (r, t)" by fastforce
  have "s = t" using assms run al
    by (auto simp: md_process_member_new_def calloc_def no_processes_def Let_def s0_def numeral_2_eq_2 numeral_3_eq_3 split: sum.splits)
  moreover have "process_ok s0"
    by (auto simp: s0_def process_ok_def no_processes_def put_limits_def put_member_def)
  moreover have "ps_members s0 0 = Some ?x" "dom (ps_members s0) = {0}"
    by (auto simp: s0_def no_processes_def put_limits_def put_member_def)
  ultimately show ?thesis using identity_ok [OF _ _ run] by simp
qed

text \<open>
  C21: Process accounting is exact: however tasks of a launch fork, change their identity, exec and
  die, the count of every account is the number of live tasks charged to it directly or through a
  namespace below, and every task's chain of accounts is live. No failed allocation leaves a count
  behind.
\<close>

theorem process_counts_exact:
  assumes "md_process_member_new al us ident limit = Some (m, s)" "length cs < 2 ^ 32 - 1"
  shows "let t = fold (process_step al) cs s in
    (\<forall>a x. ps_accounts t a = Some x \<longrightarrow> unat (account_count x) = card {k. \<exists>y. ps_members t k = Some y \<and> a \<in> set (member_account y)})
    \<and> (\<forall>k y a. ps_members t k = Some y \<and> a \<in> set (member_account y) \<longrightarrow> ps_accounts t a \<noteq> None)"
proof -
  let ?t = "fold (process_step al) cs s"
  have start: "process_ok s" "card (dom (ps_members s)) = 1" using member_new_ok [OF assms(1)] by auto
  have ok: "process_ok ?t" and few: "card (dom (ps_members ?t)) < 2 ^ 32"
    using process_run_ok [OF start(1), of cs al] start(2) assms(2) by auto
  have "unat (account_count x) = card (charged ?t a)" if a: "ps_accounts ?t a = Some x" for a x
  proof -
    have "account_count x = of_nat (card (charged ?t a))" using ok a unfolding process_ok_def by blast
    moreover have "card (charged ?t a) < 2 ^ 64"
    proof -
      have "card (charged ?t a) \<le> card (dom (ps_members ?t))"
        using ok by (intro card_mono) (auto simp: process_ok_def charged_def)
      thus ?thesis using few by simp
    qed
    ultimately show ?thesis by (simp add: unat_of_nat take_bit_nat_eq_self)
  qed
  moreover have "ps_accounts ?t a \<noteq> None" if "ps_members ?t k = Some y" "a \<in> set (member_account y)" for k y a
    using member_chain [OF ok that(1)] that(2) chain_ok_live by blast
  ultimately show ?thesis unfolding Let_def charged_def by blast
qed

definition demo_process_limits :: process_limits where
  "demo_process_limits = \<lparr>nproc = \<lparr>rlim_cur = 10, rlim_max = 10\<rparr>, nofile = \<lparr>rlim_cur = 1024, rlim_max = 4096\<rparr>\<rparr>"

lemmas process_member_defs =
  process_step_def md_process_member_new_def md_process_member_fork_def md_process_member_release_def md_process_member_identity_def
  calloc_def no_processes_def put_limits_def put_member_def put_account_def member_at_def account_at_def limits_at_def scope_at_def
  charged_to_def scope_get_def new_account_def bump_count_def charge_account_def fork_refused_def fork_limits_def nproc_limit_def
  limits_release_def accounting_release_def

definition demo_launch :: process_store where
  "demo_launch = snd (the (md_process_member_new (\<lambda>_. True) initial_store demo_root demo_process_limits))"

definition demo_calls :: "process_call list" where
  "demo_calls = [Fork_Task initial_store demo_root 0 0, Fork_Task initial_store demo_root CLONE_THREAD 5, Release_Task 0]"

lemma demo_root_ids: "id_ns demo_root = []" "id_real (id_uid demo_root) = 0"
  by (simp_all add: demo_root_def md_identity_new_def Let_def same_ids_def)

lemma demo_launch_starts:
  "md_process_member_new (\<lambda>_. True) initial_store demo_root demo_process_limits = Some (0, demo_launch)"
  "ps_accounts demo_launch = [4 \<mapsto> \<lparr>account_parent = [], account_scope = 3, account_uid = 0, account_count = 1\<rparr>]"
  "ps_members demo_launch = [0 \<mapsto> \<lparr>member_references = 1, member_account = [4], member_limits = Some 2, exec_check = False\<rparr>]"
  "ps_limits demo_launch = [2 \<mapsto> \<lparr>limits_references = 1, limits_value = demo_process_limits, native_nofile_max = 4096\<rparr>]"
  "ps_next demo_launch = 5" "owner_members (ps_owner demo_launch) = 1"
  by (simp_all add: demo_launch_def process_member_defs Let_def demo_root_ids demo_process_limits_def account_get.simps [of _ _ "[]"] eval_nat_numeral)

lemma demo_launch_counts:
  "map_option account_count (ps_accounts (fold (process_step (\<lambda>_. True)) demo_calls demo_launch) 4) = Some 2"
  by (simp add: demo_calls_def process_member_defs demo_launch_starts Let_def demo_root_ids CLONE_THREAD_def eval_nat_numeral)

theorem process_counts_exact_witness:
  "let t = fold (process_step (\<lambda>_. True)) demo_calls demo_launch in
   card {k. \<exists>y. ps_members t k = Some y \<and> 4 \<in> set (member_account y)} = 2"
proof -
  have few: "length demo_calls < 2 ^ 32 - 1" by (simp add: demo_calls_def)
  obtain x where x: "ps_accounts (fold (process_step (\<lambda>_. True)) demo_calls demo_launch) 4 = Some x" "account_count x = 2"
    using demo_launch_counts by auto
  show ?thesis using process_counts_exact [OF demo_launch_starts(1) few] x unfolding Let_def by fastforce
qed

end
