(* ===== verification/Sysv_Ipc_Db.thy ===== *)
theory Sysv_Ipc_Db
  imports Permissions Pid_Namespace
begin

unbundle bit_operations_syntax

text \<open>
  The database of System V objects, from \<^verbatim>\<open>src/native/shroot/src/sysv_ipc_db.c\<close>,
  \<^verbatim>\<open>sysv_ipc_internal.h\<close> and \<^verbatim>\<open>ipc_database.c\<close>. Every supervisor of a store opens the same SQLite
  file; an operation runs in one transaction under the gate. The tables of the schema are lists of
  rows and every SQL statement of the source is a function on them: an insertion appends, an update
  maps, a deletion filters and cascades along the foreign keys.

  SQLite, the file system and the allocator answer from a script: \<open>st_faults\<close> holds what the next
  statements and system calls report, and an empty script means success. A statement that fails
  changes no table. Operations return \<open>ipc_stop\<close> for the negative results of the code, an error or
  the request to wait.

  The layout of the kernel's structures is a parameter (\<open>sysv_abi\<close>).
\<close>

section \<open>Constants\<close>

definition MD_IPC_SEM :: int where "MD_IPC_SEM = 1"
definition MD_IPC_MSG :: int where "MD_IPC_MSG = 2"
definition MD_MSGMAX :: nat where "MD_MSGMAX = 8192"
definition MD_MSGMNB :: u64 where "MD_MSGMNB = 16384"
definition IPC_CREAT :: u32 where "IPC_CREAT = 0x200"
definition IPC_EXCL :: u32 where "IPC_EXCL = 0x400"
definition IPC_NOWAIT :: u32 where "IPC_NOWAIT = 0x800"
definition IPC_RMID :: u32 where "IPC_RMID = 0"
definition IPC_SET :: u32 where "IPC_SET = 1"
definition IPC_STAT :: u32 where "IPC_STAT = 2"
definition IPC_64 :: u32 where "IPC_64 = 0x100"
definition PACKET_DATA :: nat where "PACKET_DATA = 32"

section \<open>Rows\<close>

record semid_ds =
  sem_perm :: ipc_perm
  sem_key :: int
  sem_otime :: int
  sem_ctime :: int
  sem_nsems :: nat

record msqid_ds =
  msg_perm :: ipc_perm
  msg_key :: int
  msg_stime :: int
  msg_rtime :: int
  msg_ctime :: int
  msg_cbytes :: u64
  msg_qnum :: u64
  msg_qbytes :: u64
  msg_lspid :: int
  msg_lrpid :: int

text \<open>The column \<open>info\<close> is a blob that holds one of the two structures; reading checks its size.\<close>

datatype ipc_info = Sem_Info semid_ds | Msg_Info msqid_ds

record object_row =
  ob_id :: int
  ob_kind :: int
  ob_key :: int
  ob_info :: ipc_info
  ob_namespace :: u64
  ob_send_pids :: "pid_number_value list"
  ob_receive_pids :: "pid_number_value list"

record sem_row =
  se_object :: int
  se_n :: int
  se_value :: int
  se_pid :: int
  se_pids :: "pid_number_value list"

record undo_row =
  ud_owner :: int
  ud_space :: u64
  ud_object :: int
  ud_n :: int
  ud_delta :: int
  ud_pid :: int
  ud_pids :: "pid_number_value list"

record waiter_row =
  wt_owner :: int
  wt_tid :: int
  wt_object :: int
  wt_n :: int
  wt_zero :: bool

record message_row =
  me_seq :: int
  me_object :: int
  me_type :: int
  me_data :: "u8 list"

text \<open>The two \<open>AUTOINCREMENT\<close> keys continue after the largest number ever given.\<close>

record ipc_tables =
  tb_objects :: "object_row list"
  tb_sems :: "sem_row list"
  tb_undo :: "undo_row list"
  tb_waiters :: "waiter_row list"
  tb_messages :: "message_row list"
  tb_owners :: "(int \<times> u64) list"
  tb_last_object :: int
  tb_last_message :: int

definition no_tables :: ipc_tables where
  "no_tables = \<lparr>tb_objects = [], tb_sems = [], tb_undo = [], tb_waiters = [], tb_messages = [], tb_owners = [],
     tb_last_object = 0, tb_last_message = 0\<rparr>"

section \<open>The open database and its surroundings\<close>

record sysv_abi =
  abi_semid_size :: nat
  abi_get_semid :: "u8 list \<Rightarrow> semid_ds"
  abi_put_semid :: "semid_ds \<Rightarrow> u8 list"
  abi_msqid_size :: nat
  abi_get_msqid :: "u8 list \<Rightarrow> msqid_ds"
  abi_put_msqid :: "msqid_ds \<Rightarrow> u8 list"

text \<open>
  \<open>struct md_ipc\<close> and what its operations read of the world: user and PID namespaces, the clocks,
  and for every owner whether its lease file is free.
\<close>

record md_ipc =
  ip_owner :: int
  ip_namespace :: u64
  ip_space :: ns_ptr
  ip_users :: user_store
  ip_pids :: pid_store
  ip_abi :: sysv_abi
  ip_time :: int
  ip_clock :: "int result"
  ip_dead :: "int \<Rightarrow> bool result"

datatype ipc_stop = Error errno | Wait

text \<open>
  What an operation changes: the tables, the flag \<open>changed\<close>, the gate, the packet of the caller, the
  fields \<open>number\<close> and \<open>zero\<close> of the pending call, and the script of answers.
\<close>

record ipc_state =
  st_tables :: ipc_tables
  st_changed :: bool
  st_locked :: bool
  st_packet :: "u8 list"
  st_output :: nat
  st_number :: int
  st_zero :: bool
  st_faults :: "errno option list"

type_synonym 'a ipc = "ipc_state \<Rightarrow> (ipc_stop + 'a) \<times> ipc_state"

definition ipc_return :: "'a \<Rightarrow> 'a ipc" where
  "ipc_return x s = (Inr x, s)"

definition ipc_fail :: "errno \<Rightarrow> 'a ipc" where
  "ipc_fail e s = (Inl (Error e), s)"

definition ipc_then :: "'a ipc \<Rightarrow> ('a \<Rightarrow> 'b ipc) \<Rightarrow> 'b ipc" where
  "ipc_then m f s = (case m s of (Inl e, t) \<Rightarrow> (Inl e, t) | (Inr x, t) \<Rightarrow> f x t)"

definition ipc_lift :: "'a result \<Rightarrow> 'a ipc" where
  "ipc_lift r s = (case r of Inl e \<Rightarrow> (Inl (Error e), s) | Inr x \<Rightarrow> (Inr x, s))"

definition ipc_check :: "bool \<Rightarrow> errno \<Rightarrow> unit ipc" where
  "ipc_check refused e = (if refused then ipc_fail e else ipc_return ())"

text \<open>The next answer of the script.\<close>

definition answer :: "unit ipc" where
  "answer s = (case st_faults s of
       [] \<Rightarrow> (Inr (), s)
     | None # rest \<Rightarrow> (Inr (), s\<lparr>st_faults := rest\<rparr>)
     | Some e # rest \<Rightarrow> (Inl (Error e), s\<lparr>st_faults := rest\<rparr>))"

definition answer_or :: "errno \<Rightarrow> unit ipc" where
  "answer_or e s = (case answer s of (Inl _, t) \<Rightarrow> (Inl (Error e), t) | (Inr _, t) \<Rightarrow> (Inr (), t))"

definition sql_select :: "(ipc_tables \<Rightarrow> 'a) \<Rightarrow> 'a ipc" where
  "sql_select f = ipc_then answer (\<lambda>_ s. (Inr (f (st_tables s)), s))"

definition sql_update :: "(ipc_tables \<Rightarrow> ipc_tables) \<Rightarrow> unit ipc" where
  "sql_update f = ipc_then answer (\<lambda>_ s. (Inr (), s\<lparr>st_tables := f (st_tables s)\<rparr>))"

text \<open>An insertion that violates a constraint of the schema is the error \<open>EIO\<close>.\<close>

definition sql_insert :: "(ipc_tables \<Rightarrow> bool) \<Rightarrow> (ipc_tables \<Rightarrow> ipc_tables) \<Rightarrow> unit ipc" where
  "sql_insert allowed f =
     ipc_then (sql_select allowed) (\<lambda>ok s. if ok then (Inr (), s\<lparr>st_tables := f (st_tables s)\<rparr>) else (Inl (Error EIO), s))"

definition mark_changed :: "unit ipc" where
  "mark_changed s = (Inr (), s\<lparr>st_changed := True\<rparr>)"

section \<open>Guest memory\<close>

text \<open>
  Addresses are offsets into the packet, whose data starts behind four lengths. Reading returns the
  bytes, writing extends the output.
\<close>

definition md_ipc_memory :: "u64 \<Rightarrow> u8 list \<Rightarrow> nat \<Rightarrow> bool \<Rightarrow> u8 list ipc" where
  "md_ipc_memory address data bytes writing s =
     (let start = unat address - PACKET_DATA; capacity = length (st_packet s) in
      if bytes = 0 then (Inr [], s)
      else if unat address < PACKET_DATA \<or> start > capacity \<or> bytes > capacity - start then (Inl (Error EFAULT), s)
      else if writing
      then (Inr data, s\<lparr>st_packet := take start (st_packet s) @ take bytes data @ drop (start + bytes) (st_packet s),
                       st_output := max (st_output s) (start + bytes)\<rparr>)
      else (Inr (take bytes (drop start (st_packet s))), s))"

section \<open>Objects\<close>

definition md_ipc_get :: "md_ipc \<Rightarrow> int \<Rightarrow> int \<Rightarrow> u32 \<Rightarrow> int ipc" where
  "md_ipc_get ip kind key flags =
     ipc_then (sql_select (\<lambda>t. find (\<lambda>x. ob_kind x = kind \<and> ob_key x = key \<and> ob_key x \<noteq> 0 \<and> ob_namespace x = ip_namespace ip) (tb_objects t)))
       (\<lambda>row. let object = (case row of Some x \<Rightarrow> ob_id x | None \<Rightarrow> 0) in
        ipc_then (ipc_check (object \<noteq> 0 \<and> flags AND (IPC_CREAT OR IPC_EXCL) = IPC_CREAT OR IPC_EXCL) EEXIST)
       (\<lambda>_. ipc_then (ipc_check (object = 0 \<and> key \<noteq> 0 \<and> flags AND IPC_CREAT = 0) ENOENT)
       (\<lambda>_. ipc_return object)))"

definition md_ipc_load :: "md_ipc \<Rightarrow> int \<Rightarrow> int \<Rightarrow> ipc_info ipc" where
  "md_ipc_load ip kind object =
     ipc_then (sql_select (\<lambda>t. find (\<lambda>x. ob_id x = object \<and> ob_kind x = kind \<and> ob_namespace x = ip_namespace ip) (tb_objects t)))
       (\<lambda>row. case row of None \<Rightarrow> ipc_fail EINVAL | Some x \<Rightarrow> ipc_return (ob_info x))"

text \<open>The caller's structure has the size of its kind.\<close>

definition load_sem :: "md_ipc \<Rightarrow> int \<Rightarrow> semid_ds ipc" where
  "load_sem ip object = ipc_then (md_ipc_load ip MD_IPC_SEM object)
     (\<lambda>info. case info of Sem_Info st \<Rightarrow> ipc_return st | Msg_Info _ \<Rightarrow> ipc_fail EIO)"

definition load_msg :: "md_ipc \<Rightarrow> int \<Rightarrow> msqid_ds ipc" where
  "load_msg ip object = ipc_then (md_ipc_load ip MD_IPC_MSG object)
     (\<lambda>info. case info of Msg_Info st \<Rightarrow> ipc_return st | Sem_Info _ \<Rightarrow> ipc_fail EIO)"

definition save_info :: "int \<Rightarrow> ipc_info \<Rightarrow> ipc_tables \<Rightarrow> ipc_tables" where
  "save_info object info t = t\<lparr>tb_objects := map (\<lambda>x. if ob_id x = object then x\<lparr>ob_info := info\<rparr> else x) (tb_objects t)\<rparr>"

definition md_ipc_save :: "int \<Rightarrow> ipc_info \<Rightarrow> unit ipc" where
  "md_ipc_save object info = ipc_then (sql_update (save_info object info)) (\<lambda>_. mark_changed)"

definition object_key_free :: "md_ipc \<Rightarrow> int \<Rightarrow> int \<Rightarrow> ipc_tables \<Rightarrow> bool" where
  "object_key_free ip kind key t \<longleftrightarrow>
     key = 0 \<or> (\<forall>x \<in> set (tb_objects t). \<not> (ob_namespace x = ip_namespace ip \<and> ob_kind x = kind \<and> ob_key x = key))"

definition insert_object :: "md_ipc \<Rightarrow> int \<Rightarrow> int \<Rightarrow> ipc_info \<Rightarrow> ipc_tables \<Rightarrow> ipc_tables" where
  "insert_object ip kind key info t =
     (let object = tb_last_object t + 1 in
      t\<lparr>tb_objects := tb_objects t @ [\<lparr>ob_id = object, ob_kind = kind, ob_key = key, ob_info = info, ob_namespace = ip_namespace ip,
             ob_send_pids = [], ob_receive_pids = []\<rparr>], tb_last_object := object\<rparr>)"

definition md_ipc_create :: "md_ipc \<Rightarrow> int \<Rightarrow> int \<Rightarrow> ipc_info \<Rightarrow> int ipc" where
  "md_ipc_create ip kind key info =
     ipc_then (sql_insert (object_key_free ip kind key) (insert_object ip kind key info))
       (\<lambda>_. ipc_then mark_changed
       (\<lambda>_ s. let object = tb_last_object (st_tables s) in
        if object \<le> 0 \<or> object > 2 ^ 31 - 1 then (Inl (Error ENOSPC), s) else (Inr object, s)))"

definition delete_objects :: "(object_row \<Rightarrow> bool) \<Rightarrow> ipc_tables \<Rightarrow> ipc_tables" where
  "delete_objects P t =
     (let gone = map ob_id (filter P (tb_objects t)) in
      t\<lparr>tb_objects := filter (\<lambda>x. \<not> P x) (tb_objects t),
        tb_sems := filter (\<lambda>x. se_object x \<notin> set gone) (tb_sems t),
        tb_messages := filter (\<lambda>x. me_object x \<notin> set gone) (tb_messages t),
        tb_undo := filter (\<lambda>x. ud_object x \<notin> set gone) (tb_undo t),
        tb_waiters := filter (\<lambda>x. wt_object x \<notin> set gone) (tb_waiters t)\<rparr>)"

definition md_ipc_remove :: "int \<Rightarrow> unit ipc" where
  "md_ipc_remove object = ipc_then (sql_update (delete_objects (\<lambda>x. ob_id x = object))) (\<lambda>_. mark_changed)"

section \<open>Recorded processes\<close>

definition md_pid_identity_namespace :: "pid_store \<Rightarrow> nat option \<Rightarrow> pid_ptr" where
  "md_pid_identity_namespace s p = (case p of None \<Rightarrow> [] | Some i \<Rightarrow> pi_space (identity_at s i))"

definition md_ipc_pid_visible :: "md_ipc \<Rightarrow> pid_number_value list \<Rightarrow> nat option \<Rightarrow> int \<Rightarrow> int ipc" where
  "md_ipc_pid_visible ip pids observer native =
     ipc_lift (md_pid_numbers_visible (ip_pids ip) pids (16 * length pids) (md_pid_identity_namespace (ip_pids ip) observer) native)"

section \<open>The pending call\<close>

datatype sysv_nr = SYS_semget | SYS_semctl | SYS_semop | SYS_semtimedop | SYS_msgget | SYS_msgctl | SYS_msgsnd | SYS_msgrcv

record sembuf =
  sem_num :: u16
  sem_op :: "16 word"
  sem_flg :: u16

text \<open>\<open>input\<close> holds the operations of a \<open>semop\<close> or the type and text of a message to send.\<close>

record ipc_pending =
  p_nr :: sysv_nr
  p_args :: "u64 list"
  p_identity :: identity
  p_tid :: int
  p_pid :: int
  p_process :: "nat option"
  p_undo :: u64
  p_watcher :: bool
  p_registered :: bool
  p_number :: int
  p_zero :: bool
  p_blocked :: bool
  p_deadline :: int
  p_ops :: "sembuf list"
  p_message :: "int \<times> u8 list"

definition arg :: "ipc_pending \<Rightarrow> nat \<Rightarrow> u64" where
  "arg p i = p_args p ! i"

definition int_arg :: "ipc_pending \<Rightarrow> nat \<Rightarrow> int" where
  "int_arg p i = sint (ucast (arg p i) :: u32)"

definition command_of :: "u64 \<Rightarrow> u32" where
  "command_of a = ucast a AND NOT IPC_64"

section \<open>Success triples\<close>

text \<open>
  What holds of the tables after an operation that succeeded. Nothing is said of one that failed:
  the transaction takes it back.
\<close>

definition triple :: "(ipc_tables \<Rightarrow> bool) \<Rightarrow> 'a ipc \<Rightarrow> ('a \<Rightarrow> ipc_tables \<Rightarrow> bool) \<Rightarrow> bool" where
  "triple P m Q \<longleftrightarrow> (\<forall>s x t. P (st_tables s) \<longrightarrow> m s = (Inr x, t) \<longrightarrow> Q x (st_tables t))"

named_theorems triples \<open>triples of the operations\<close>

lemma tripleD: "triple P m Q \<Longrightarrow> m s = (Inr x, t) \<Longrightarrow> P (st_tables s) \<Longrightarrow> Q x (st_tables t)"
  by (auto simp: triple_def)

lemma triple_then:
  "triple P m R \<Longrightarrow> (\<And>x. triple (R x) (f x) Q) \<Longrightarrow> triple P (ipc_then m f) Q"
  unfolding triple_def ipc_then_def by (fastforce split: prod.splits sum.splits)

lemma triple_return: "(\<And>t. P t \<Longrightarrow> Q x t) \<Longrightarrow> triple P (ipc_return x) Q"
  by (simp add: triple_def ipc_return_def)

lemma triple_fail: "triple P (ipc_fail e) Q"
  by (simp add: triple_def ipc_fail_def)

lemma triple_weaken: "triple P m R \<Longrightarrow> (\<And>x t. R x t \<Longrightarrow> Q x t) \<Longrightarrow> triple P m Q"
  unfolding triple_def by blast

lemma triple_strengthen: "triple R m Q \<Longrightarrow> (\<And>t. P t \<Longrightarrow> R t) \<Longrightarrow> triple P m Q"
  unfolding triple_def by blast

lemma triple_lift: "triple P (ipc_lift r) (\<lambda>x t. P t \<and> r = Inr x)"
  by (auto simp: triple_def ipc_lift_def split: sum.splits)

lemma triple_check: "triple P (ipc_check b e) (\<lambda>_ t. P t \<and> \<not> b)"
  by (simp add: triple_def ipc_check_def ipc_fail_def ipc_return_def)

lemma triple_pass: "triple P (ipc_check b e) (\<lambda>_. P)" "triple P (ipc_lift r) (\<lambda>_. P)"
  by (auto simp: triple_def ipc_check_def ipc_lift_def ipc_fail_def ipc_return_def split: sum.splits if_splits)

lemma triple_answer: "triple P answer (\<lambda>_. P)"
  by (auto simp: triple_def answer_def split: list.splits option.splits)

lemma triple_answer_or: "triple P (answer_or e) (\<lambda>_. P)"
  using triple_answer [of P] unfolding triple_def answer_or_def by (fastforce split: prod.splits sum.splits)

lemma triple_select: "triple P (sql_select f) (\<lambda>x t. P t \<and> x = f t)"
  unfolding sql_select_def by (rule triple_then [OF triple_answer]) (auto simp: triple_def)

lemma triple_update: "(\<And>t. P t \<Longrightarrow> Q () (f t)) \<Longrightarrow> triple P (sql_update f) Q"
  unfolding sql_update_def by (rule triple_then [OF triple_answer]) (auto simp: triple_def)

lemma triple_insert: "(\<And>t. P t \<Longrightarrow> ok t \<Longrightarrow> Q () (f t)) \<Longrightarrow> triple P (sql_insert ok f) Q"
  unfolding sql_insert_def by (rule triple_then [OF triple_select]) (auto simp: triple_def split: if_splits)

lemma triple_changed: "triple P mark_changed (\<lambda>_. P)"
  by (auto simp: triple_def mark_changed_def)

lemma triple_memory: "triple P (md_ipc_memory a d n w) (\<lambda>_. P)"
  by (auto simp: triple_def md_ipc_memory_def Let_def split: if_splits)

lemma triple_stop: "triple P (\<lambda>s. (Inl e, f s)) Q"
  by (simp add: triple_def)

lemma triple_visible: "triple P (md_ipc_pid_visible ip pids v n) (\<lambda>_. P)"
  unfolding md_ipc_pid_visible_def by (rule triple_weaken [OF triple_lift]) simp

text \<open>Loading an object names the row it found.\<close>

definition has_info :: "int \<Rightarrow> ipc_info \<Rightarrow> ipc_tables \<Rightarrow> bool" where
  "has_info object info t \<longleftrightarrow> (\<exists>x \<in> set (tb_objects t). ob_id x = object \<and> ob_info x = info)"

lemma triple_load: "triple P (md_ipc_load ip kind object) (\<lambda>info t. P t \<and> has_info object info t)"
  unfolding md_ipc_load_def
  by (rule triple_then [OF triple_select])
    (auto simp: triple_def has_info_def ipc_return_def ipc_fail_def find_Some_iff split: option.splits intro!: nth_mem)

lemma triple_load_sem: "triple P (load_sem ip object) (\<lambda>st t. P t \<and> has_info object (Sem_Info st) t)"
  unfolding load_sem_def
  by (rule triple_then [OF triple_load]) (auto simp: triple_def ipc_return_def ipc_fail_def split: ipc_info.splits)

lemma triple_load_msg: "triple P (load_msg ip object) (\<lambda>st t. P t \<and> has_info object (Msg_Info st) t)"
  unfolding load_msg_def
  by (rule triple_then [OF triple_load]) (auto simp: triple_def ipc_return_def ipc_fail_def split: ipc_info.splits)

lemma triple_get: "triple P (md_ipc_get ip kind key flags) (\<lambda>_. P)"
  unfolding md_ipc_get_def Let_def
  by (intro triple_then [OF triple_select] triple_then [OF triple_check] triple_return) simp

end
