(* ===== verification/Sysv_Sem.thy ===== *)
theory Sysv_Sem
  imports Sysv_Ipc_Db "HOL-Library.Product_Lexorder"
begin

unbundle bit_operations_syntax

text \<open>
  Semaphore sets, from \<^verbatim>\<open>src/native/shroot/src/sysv_sem.c\<close>: creation, the operations of \<open>semop\<close> with
  their undo records, the commands of \<open>semctl\<close>, and the application of undo records when a process
  or a supervisor is gone. Each definition is one function of the source over the tables.
\<close>

definition SEMVMX :: int where "SEMVMX = 32767"
definition SEMAEM :: int where "SEMAEM = SEMVMX"
definition SEMMSL :: int where "SEMMSL = 32000"
definition SEM_UNDO :: u32 where "SEM_UNDO = 0x1000"
definition GETPID :: u32 where "GETPID = 11"
definition GETVAL :: u32 where "GETVAL = 12"
definition GETALL :: u32 where "GETALL = 13"
definition GETNCNT :: u32 where "GETNCNT = 14"
definition GETZCNT :: u32 where "GETZCNT = 15"
definition SETVAL :: u32 where "SETVAL = 16"
definition SETALL :: u32 where "SETALL = 17"

section \<open>One semaphore\<close>

definition sem_find :: "int \<Rightarrow> int \<Rightarrow> ipc_tables \<Rightarrow> sem_row option" where
  "sem_find object number t = find (\<lambda>x. se_object x = object \<and> se_n x = number) (tb_sems t)"

text \<open>The last process is looked up only for an observer.\<close>

definition sem_value :: "md_ipc \<Rightarrow> int \<Rightarrow> int \<Rightarrow> nat option option \<Rightarrow> (int \<times> int) ipc" where
  "sem_value ip object number observer =
     ipc_then (sql_select (sem_find object number))
       (\<lambda>row. case row of None \<Rightarrow> ipc_fail EINVAL
        | Some x \<Rightarrow> (case observer of None \<Rightarrow> ipc_return (se_value x, 0)
           | Some process \<Rightarrow> ipc_then (md_ipc_pid_visible ip (se_pids x) process (se_pid x)) (\<lambda>pid. ipc_return (se_value x, pid))))"

definition set_row :: "int \<Rightarrow> int \<Rightarrow> int \<Rightarrow> int \<Rightarrow> pid_number_value list \<Rightarrow> ipc_tables \<Rightarrow> ipc_tables" where
  "set_row object number val pid pids t =
     t\<lparr>tb_sems := map (\<lambda>x. if se_object x = object \<and> se_n x = number
         then x\<lparr>se_value := val, se_pid := pid, se_pids := pids\<rparr> else x) (tb_sems t)\<rparr>"

definition set_sem :: "int \<Rightarrow> int \<Rightarrow> int \<Rightarrow> int \<Rightarrow> pid_number_value list \<Rightarrow> unit ipc" where
  "set_sem object number val pid pids = ipc_then (sql_update (set_row object number val pid pids)) (\<lambda>_. mark_changed)"

definition set_process :: "md_ipc \<Rightarrow> int \<Rightarrow> int \<Rightarrow> int \<Rightarrow> int \<Rightarrow> nat option \<Rightarrow> unit ipc" where
  "set_process ip object number val pid process =
     set_sem object number val pid (md_pid_identity_export (ip_pids ip) process)"

section \<open>Undo records\<close>

definition undo_key :: "undo_row \<Rightarrow> int \<times> u64 \<times> int \<times> int" where
  "undo_key u = (ud_owner u, ud_space u, ud_object u, ud_n u)"

definition upsert_undo :: "undo_row \<Rightarrow> ipc_tables \<Rightarrow> ipc_tables" where
  "upsert_undo u t =
     (if \<exists>x \<in> set (tb_undo t). undo_key x = undo_key u
      then t\<lparr>tb_undo := map (\<lambda>x. if undo_key x = undo_key u then u else x) (tb_undo t)\<rparr>
      else t\<lparr>tb_undo := tb_undo t @ [u]\<rparr>)"

definition referenced :: "int \<Rightarrow> int \<Rightarrow> ipc_tables \<Rightarrow> bool" where
  "referenced lessee object t \<longleftrightarrow> lessee \<in> fst ` set (tb_owners t) \<and> object \<in> ob_id ` set (tb_objects t)"

definition undo :: "md_ipc \<Rightarrow> ipc_pending \<Rightarrow> int \<Rightarrow> int \<Rightarrow> unit ipc" where
  "undo ip p number delta =
     (let u = \<lparr>ud_owner = ip_owner ip, ud_space = p_undo p, ud_object = int_arg p 0, ud_n = number, ud_delta = delta,
               ud_pid = p_pid p, ud_pids = md_pid_identity_export (ip_pids ip) (p_process p)\<rparr> in
      ipc_then (sql_select (\<lambda>t. find (\<lambda>x. undo_key x = undo_key u) (tb_undo t)))
        (\<lambda>row. let total = delta + (case row of Some x \<Rightarrow> ud_delta x | None \<Rightarrow> 0) in
         ipc_then (ipc_check (total < - SEMAEM \<or> total > SEMAEM) ERANGE)
        (\<lambda>_. sql_insert (referenced (ip_owner ip) (int_arg p 0)) (upsert_undo (u\<lparr>ud_delta := total\<rparr>)))))"

text \<open>A negative number stands for every semaphore of the set.\<close>

definition clear_undo :: "int \<Rightarrow> int \<Rightarrow> unit ipc" where
  "clear_undo object number =
     sql_update (\<lambda>t. t\<lparr>tb_undo := filter (\<lambda>x. \<not> (ud_object x = object \<and> (number < 0 \<or> ud_n x = number))) (tb_undo t)\<rparr>)"

definition clamp :: "int \<Rightarrow> int" where
  "clamp v = (if v < 0 then 0 else if v > SEMVMX then SEMVMX else v)"

fun undo_each :: "md_ipc \<Rightarrow> (undo_row \<times> object_row) list \<Rightarrow> unit ipc" where
  "undo_each ip [] = ipc_return ()"
| "undo_each ip ((u, x) # rest) =
     (case ob_info x of
        Msg_Info _ \<Rightarrow> ipc_fail EIO
      | Sem_Info st \<Rightarrow>
         ipc_then (ipc_check (ob_kind x \<noteq> MD_IPC_SEM) EIO)
         (\<lambda>_. ipc_then (sem_value ip (ud_object u) (ud_n u) None)
         (\<lambda>(val, _). ipc_then (set_sem (ud_object u) (ud_n u) (clamp (val + ud_delta u)) (ud_pid u) (ud_pids u))
         (\<lambda>_. ipc_then (md_ipc_save (ud_object u) (Sem_Info (st\<lparr>sem_otime := ip_time ip\<rparr>)))
         (\<lambda>_. undo_each ip rest)))))"

definition undo_of :: "int \<Rightarrow> u64 \<Rightarrow> undo_row \<Rightarrow> bool" where
  "undo_of lessee space u \<longleftrightarrow> ud_owner u = lessee \<and> (space = 0 \<or> ud_space u = space)"

definition undo_join :: "int \<Rightarrow> u64 \<Rightarrow> ipc_tables \<Rightarrow> (undo_row \<times> object_row) list" where
  "undo_join lessee space t =
     [(u, x). u \<leftarrow> sort_key (\<lambda>u. (ud_space u, ud_object u, ud_n u)) (filter (undo_of lessee space) (tb_undo t)),
              x \<leftarrow> tb_objects t, ob_id x = ud_object u]"

definition md_ipc_undo_apply :: "md_ipc \<Rightarrow> int \<Rightarrow> u64 \<Rightarrow> unit ipc" where
  "md_ipc_undo_apply ip lessee space =
     ipc_then (sql_select (undo_join lessee space))
       (\<lambda>rows. ipc_then (undo_each ip rows)
       (\<lambda>_. sql_update (\<lambda>t. t\<lparr>tb_undo := filter (\<lambda>u. \<not> undo_of lessee space u) (tb_undo t)\<rparr>)))"

section \<open>Sets\<close>

definition creator_perm :: "identity \<Rightarrow> u32 \<Rightarrow> ipc_perm" where
  "creator_perm v flags =
     \<lparr>ipc_uid = id_effective (id_uid v), ipc_gid = id_effective (id_gid v), ipc_cuid = id_effective (id_uid v),
      ipc_cgid = id_effective (id_gid v), ipc_mode = flags AND 0x1FF\<rparr>"

definition requested_access :: "u32 \<Rightarrow> u32" where
  "requested_access flags = (drop_bit 6 flags OR drop_bit 3 flags OR flags) AND 7"

fun insert_sems :: "int \<Rightarrow> nat list \<Rightarrow> unit ipc" where
  "insert_sems object [] = ipc_return ()"
| "insert_sems object (i # rest) =
     ipc_then (sql_insert (\<lambda>t. sem_find object (int i) t = None \<and> object \<in> ob_id ` set (tb_objects t))
        (\<lambda>t. t\<lparr>tb_sems := tb_sems t @ [\<lparr>se_object = object, se_n = int i, se_value = 0, se_pid = 0, se_pids = []\<rparr>]\<rparr>))
       (\<lambda>_. insert_sems object rest)"

definition sem_get :: "md_ipc \<Rightarrow> ipc_pending \<Rightarrow> int ipc" where
  "sem_get ip p =
     (let key = int_arg p 0; count = int_arg p 1; flags = ucast (arg p 2) in
      ipc_then (ipc_check (count < 0 \<or> count > SEMMSL) EINVAL)
        (\<lambda>_. ipc_then (md_ipc_get ip MD_IPC_SEM key flags)
        (\<lambda>object.
          if object \<noteq> 0
          then ipc_then (load_sem ip object)
            (\<lambda>st. ipc_then (ipc_check (nat count > sem_nsems st) EINVAL)
            (\<lambda>_. ipc_then (ipc_lift (md_ipc_perm_access (ip_users ip) (ip_space ip) (p_identity p) (sem_perm st) (requested_access flags)))
            (\<lambda>_. ipc_return object)))
          else ipc_then (ipc_check (count = 0) EINVAL)
            (\<lambda>_. ipc_then (md_ipc_create ip MD_IPC_SEM key (Sem_Info \<lparr>sem_perm = creator_perm (p_identity p) flags, sem_key = key,
                sem_otime = 0, sem_ctime = ip_time ip, sem_nsems = nat count\<rparr>))
            (\<lambda>created. ipc_then (insert_sems created [0..<nat count])
            (\<lambda>_. ipc_return created))))))"

section \<open>Operations\<close>

fun operate_each :: "md_ipc \<Rightarrow> ipc_pending \<Rightarrow> sembuf list \<Rightarrow> unit ipc" where
  "operate_each ip p [] = ipc_return ()"
| "operate_each ip p (f # rest) =
     ipc_then (sem_value ip (int_arg p 0) (uint (sem_num f)) None)
       (\<lambda>(val, _). let change = sint (sem_op f) in
        if (change = 0 \<and> val \<noteq> 0) \<or> (change < 0 \<and> val < - change)
        then (if ucast (sem_flg f) AND IPC_NOWAIT \<noteq> 0 then ipc_fail EAGAIN
              else (\<lambda>s. (Inl Wait, s\<lparr>st_number := uint (sem_num f), st_zero := (change = 0)\<rparr>)))
        else ipc_then (ipc_check (val + change > SEMVMX) ERANGE)
          (\<lambda>_. ipc_then (if ucast (sem_flg f) AND SEM_UNDO \<noteq> 0 then undo ip p (uint (sem_num f)) (- change) else ipc_return ())
          (\<lambda>_. ipc_then (set_process ip (int_arg p 0) (uint (sem_num f)) (val + change) (p_pid p) (p_process p))
          (\<lambda>_. operate_each ip p rest))))"

definition operate_mode :: "sembuf list \<Rightarrow> u32" where
  "operate_mode fs = foldl (\<lambda>mode f. mode OR (if sem_op f \<noteq> 0 then 2 else 4)) 0 fs"

definition operate :: "md_ipc \<Rightarrow> ipc_pending \<Rightarrow> semid_ds \<Rightarrow> int ipc" where
  "operate ip p st =
     ipc_then (ipc_check (\<exists>f \<in> set (p_ops p). unat (sem_num f) \<ge> sem_nsems st) EFBIG)
       (\<lambda>_. ipc_then (ipc_lift (md_ipc_perm_access (ip_users ip) (ip_space ip) (p_identity p) (sem_perm st) (operate_mode (p_ops p))))
       (\<lambda>_. ipc_then (operate_each ip p (p_ops p))
       (\<lambda>_. ipc_then (md_ipc_save (int_arg p 0) (Sem_Info (st\<lparr>sem_otime := ip_time ip\<rparr>)))
       (\<lambda>_. ipc_return 0))))"

section \<open>Commands\<close>

definition short_bytes :: "u16 \<Rightarrow> u8 list" where
  "short_bytes w = [ucast w, ucast (drop_bit 8 w)]"

fun bytes_shorts :: "u8 list \<Rightarrow> u16 list" where
  "bytes_shorts (a # b # rest) = (ucast a OR push_bit 8 (ucast b)) # bytes_shorts rest"
| "bytes_shorts _ = []"

fun get_each :: "md_ipc \<Rightarrow> int \<Rightarrow> nat list \<Rightarrow> u16 list ipc" where
  "get_each ip object [] = ipc_return []"
| "get_each ip object (i # rest) =
     ipc_then (sem_value ip object (int i) None) (\<lambda>(val, _). ipc_then (get_each ip object rest) (\<lambda>vs. ipc_return (word_of_int val # vs)))"

fun set_each :: "md_ipc \<Rightarrow> ipc_pending \<Rightarrow> int \<Rightarrow> nat \<Rightarrow> u16 list \<Rightarrow> unit ipc" where
  "set_each ip p object i [] = ipc_return ()"
| "set_each ip p object i (w # rest) =
     ipc_then (set_process ip object (int i) (uint w) (p_pid p) (p_process p)) (\<lambda>_. set_each ip p object (Suc i) rest)"

definition sem_setall :: "md_ipc \<Rightarrow> ipc_pending \<Rightarrow> int \<Rightarrow> semid_ds \<Rightarrow> int ipc" where
  "sem_setall ip p object st =
     ipc_then (answer_or ENOMEM)
       (\<lambda>_. ipc_then (md_ipc_memory (arg p 3) [] (2 * sem_nsems st) False)
       (\<lambda>bytes. ipc_then (ipc_check (\<exists>w \<in> set (bytes_shorts bytes). uint w > SEMVMX) ERANGE)
       (\<lambda>_. ipc_then (set_each ip p object 0 (bytes_shorts bytes))
       (\<lambda>_. ipc_then (clear_undo object (- 1))
       (\<lambda>_. ipc_then (md_ipc_save object (Sem_Info (st\<lparr>sem_ctime := ip_time ip\<rparr>)))
       (\<lambda>_. ipc_return 0))))))"

definition sem_getall :: "md_ipc \<Rightarrow> ipc_pending \<Rightarrow> int \<Rightarrow> semid_ds \<Rightarrow> int ipc" where
  "sem_getall ip p object st =
     ipc_then (answer_or ENOMEM)
       (\<lambda>_. ipc_then (get_each ip object [0..<sem_nsems st])
       (\<lambda>vs. ipc_then (md_ipc_memory (arg p 3) (concat (map short_bytes vs)) (2 * sem_nsems st) True)
       (\<lambda>_. ipc_return 0)))"

definition sem_setval :: "md_ipc \<Rightarrow> ipc_pending \<Rightarrow> int \<Rightarrow> int \<Rightarrow> semid_ds \<Rightarrow> int ipc" where
  "sem_setval ip p object number st =
     (let val = int_arg p 3 in
      ipc_then (ipc_check (val < 0 \<or> val > SEMVMX) ERANGE)
        (\<lambda>_. ipc_then (set_process ip object number val (p_pid p) (p_process p))
        (\<lambda>_. ipc_then (clear_undo object number)
        (\<lambda>_. ipc_then (md_ipc_save object (Sem_Info (st\<lparr>sem_ctime := ip_time ip\<rparr>)))
        (\<lambda>_. ipc_return 0)))))"

definition sem_set :: "md_ipc \<Rightarrow> ipc_pending \<Rightarrow> int \<Rightarrow> semid_ds \<Rightarrow> int ipc" where
  "sem_set ip p object st =
     ipc_then (md_ipc_memory (arg p 3) [] (abi_semid_size (ip_abi ip)) False)
       (\<lambda>bytes. let from = sem_perm (abi_get_semid (ip_abi ip) bytes) in
        ipc_then (ipc_lift (md_ipc_perm_set (ip_users ip) (p_identity p) (sem_perm st) (ipc_uid from) (ipc_gid from) (ipc_mode from)))
       (\<lambda>perm. ipc_then (md_ipc_save object (Sem_Info (st\<lparr>sem_perm := perm, sem_ctime := ip_time ip\<rparr>)))
       (\<lambda>_. ipc_return 0)))"

definition sem_stat :: "md_ipc \<Rightarrow> ipc_pending \<Rightarrow> semid_ds \<Rightarrow> int ipc" where
  "sem_stat ip p st =
     (let bytes = abi_put_semid (ip_abi ip) (st\<lparr>sem_perm := md_ipc_perm_visible (ip_users ip) (p_identity p) (sem_perm st)\<rparr>) in
      ipc_then (md_ipc_memory (arg p 3) bytes (abi_semid_size (ip_abi ip)) True) (\<lambda>_. ipc_return 0))"

definition sem_number :: "md_ipc \<Rightarrow> ipc_pending \<Rightarrow> int \<Rightarrow> int \<Rightarrow> u32 \<Rightarrow> semid_ds \<Rightarrow> int ipc" where
  "sem_number ip p object number command st =
     (if number < 0 \<or> nat number \<ge> sem_nsems st then ipc_fail EINVAL
      else if command = GETVAL then ipc_then (sem_value ip object number None) (\<lambda>(val, _). ipc_return val)
      else if command = GETPID then ipc_then (sem_value ip object number (Some (p_process p))) (\<lambda>(_, pid). ipc_return pid)
      else if command = SETVAL then sem_setval ip p object number st
      else if command = GETNCNT \<or> command = GETZCNT
      then sql_select (\<lambda>t. int (length (filter (\<lambda>x. wt_object x = object \<and> wt_n x = number \<and> wt_zero x = (command = GETZCNT)) (tb_waiters t))))
      else ipc_fail ENOTSUP)"

definition sem_control :: "md_ipc \<Rightarrow> ipc_pending \<Rightarrow> int \<Rightarrow> semid_ds \<Rightarrow> int ipc" where
  "sem_control ip p object st =
     (let command = command_of (arg p 2) in
      if command = IPC_RMID \<or> command = IPC_SET
      then ipc_then (ipc_lift (md_ipc_perm_owner (ip_users ip) (ip_space ip) (p_identity p) (sem_perm st)))
        (\<lambda>_. if command = IPC_RMID then ipc_then (md_ipc_remove object) (\<lambda>_. ipc_return 0) else sem_set ip p object st)
      else ipc_then (ipc_lift (md_ipc_perm_access (ip_users ip) (ip_space ip) (p_identity p) (sem_perm st)
             (if command = SETVAL \<or> command = SETALL then 2 else 4)))
        (\<lambda>_. if command = IPC_STAT then sem_stat ip p st
             else if command = GETALL then sem_getall ip p object st
             else if command = SETALL then sem_setall ip p object st
             else sem_number ip p object (int_arg p 1) command st))"

text \<open>A caller that was waiting learns that its set is gone.\<close>

definition removed_error :: "bool \<Rightarrow> 'a ipc \<Rightarrow> 'a ipc" where
  "removed_error blocked m s =
     (case m s of (Inl e, t) \<Rightarrow> (Inl (if e = Error EINVAL \<and> blocked then Error EIDRM else e), t) | (Inr x, t) \<Rightarrow> (Inr x, t))"

definition md_ipc_sem :: "md_ipc \<Rightarrow> ipc_pending \<Rightarrow> int ipc" where
  "md_ipc_sem ip p =
     (if p_nr p = SYS_semget then sem_get ip p
      else ipc_then (removed_error (p_blocked p) (load_sem ip (int_arg p 0)))
        (\<lambda>st. if p_nr p = SYS_semop \<or> p_nr p = SYS_semtimedop then operate ip p st else sem_control ip p (int_arg p 0) st))"

end
