(* ===== verification/Sysv_Msg.thy ===== *)
theory Sysv_Msg
  imports Sysv_Sem
begin

unbundle bit_operations_syntax

text \<open>
  Message queues, from \<^verbatim>\<open>src/native/shroot/src/sysv_msg.c\<close>: creation, sending within the limit of the
  queue, receiving by type, and the commands of \<open>msgctl\<close>.
\<close>

definition MSG_NOERROR :: u64 where "MSG_NOERROR = 0x1000"
definition MSG_EXCEPT :: u64 where "MSG_EXCEPT = 0x2000"
definition MSG_COPY :: u64 where "MSG_COPY = 0x4000"
definition LONG_MAX :: int where "LONG_MAX = 2 ^ 63 - 1"
definition QBYTES_MAX :: u64 where "QBYTES_MAX = 1024 * 1024"

definition long_bytes :: "int \<Rightarrow> u8 list" where
  "long_bytes v = map (\<lambda>i. ucast (drop_bit (8 * i) (word_of_int v :: u64))) [0..<8]"

section \<open>Processes of a queue\<close>

definition save_queue :: "bool \<Rightarrow> int \<Rightarrow> msqid_ds \<Rightarrow> pid_number_value list \<Rightarrow> ipc_tables \<Rightarrow> ipc_tables" where
  "save_queue sending object st pids t =
     t\<lparr>tb_objects := map (\<lambda>x. if ob_id x = object
         then (if sending then x\<lparr>ob_info := Msg_Info st, ob_send_pids := pids\<rparr> else x\<lparr>ob_info := Msg_Info st, ob_receive_pids := pids\<rparr>)
         else x) (tb_objects t)\<rparr>"

definition save_process :: "md_ipc \<Rightarrow> ipc_pending \<Rightarrow> msqid_ds \<Rightarrow> bool \<Rightarrow> unit ipc" where
  "save_process ip p st sending =
     ipc_then (sql_update (save_queue sending (int_arg p 0) st (md_pid_identity_export (ip_pids ip) (p_process p)))) (\<lambda>_. mark_changed)"

definition visible_processes :: "md_ipc \<Rightarrow> ipc_pending \<Rightarrow> msqid_ds \<Rightarrow> msqid_ds ipc" where
  "visible_processes ip p st =
     ipc_then (sql_select (\<lambda>t. find (\<lambda>x. ob_id x = int_arg p 0) (tb_objects t)))
       (\<lambda>row. case row of None \<Rightarrow> ipc_fail EIO
        | Some x \<Rightarrow>
           ipc_then (md_ipc_pid_visible ip (ob_send_pids x) (p_process p) (msg_lspid st))
           (\<lambda>sent. ipc_then (md_ipc_pid_visible ip (ob_receive_pids x) (p_process p) (msg_lrpid st))
           (\<lambda>received. ipc_return (st\<lparr>msg_lspid := sent, msg_lrpid := received\<rparr>))))"

section \<open>Queues\<close>

definition msg_get :: "md_ipc \<Rightarrow> ipc_pending \<Rightarrow> int ipc" where
  "msg_get ip p =
     (let key = int_arg p 0; flags = ucast (arg p 1) in
      ipc_then (md_ipc_get ip MD_IPC_MSG key flags)
        (\<lambda>object.
          if object \<noteq> 0
          then ipc_then (load_msg ip object)
            (\<lambda>st. ipc_then (ipc_lift (md_ipc_perm_access (ip_users ip) (ip_space ip) (p_identity p) (msg_perm st) (requested_access flags)))
            (\<lambda>_. ipc_return object))
          else md_ipc_create ip MD_IPC_MSG key (Msg_Info \<lparr>msg_perm = creator_perm (p_identity p) flags, msg_key = key,
              msg_stime = 0, msg_rtime = 0, msg_ctime = ip_time ip, msg_cbytes = 0, msg_qnum = 0, msg_qbytes = MD_MSGMNB,
              msg_lspid = 0, msg_lrpid = 0\<rparr>)))"

definition queue_full :: "msqid_ds \<Rightarrow> u64 \<Rightarrow> bool" where
  "queue_full st bytes \<longleftrightarrow> bytes > msg_qbytes st \<or> msg_cbytes st > msg_qbytes st - bytes \<or> msg_qnum st \<ge> msg_qbytes st"

definition insert_message :: "int \<Rightarrow> int \<Rightarrow> u8 list \<Rightarrow> ipc_tables \<Rightarrow> ipc_tables" where
  "insert_message object type data t =
     (let seq = tb_last_message t + 1 in
      t\<lparr>tb_messages := tb_messages t @ [\<lparr>me_seq = seq, me_object = object, me_type = type, me_data = data\<rparr>],
        tb_last_message := seq\<rparr>)"

definition msg_send :: "md_ipc \<Rightarrow> ipc_pending \<Rightarrow> msqid_ds \<Rightarrow> int ipc" where
  "msg_send ip p st =
     (let (type, data) = p_message p; bytes = of_nat (length data) in
      ipc_then (ipc_lift (md_ipc_perm_access (ip_users ip) (ip_space ip) (p_identity p) (msg_perm st) 2))
        (\<lambda>_. if queue_full st bytes
         then (if arg p 3 AND ucast IPC_NOWAIT \<noteq> 0 then ipc_fail EAGAIN else (\<lambda>s. (Inl Wait, s)))
         else ipc_then (sql_insert (\<lambda>t. int_arg p 0 \<in> ob_id ` set (tb_objects t)) (insert_message (int_arg p 0) type data))
           (\<lambda>_. ipc_then (save_process ip p (st\<lparr>msg_qnum := msg_qnum st + 1, msg_cbytes := msg_cbytes st + bytes,
                 msg_stime := ip_time ip, msg_lspid := p_pid p\<rparr>) True)
           (\<lambda>_. ipc_return 0))))"

text \<open>
  The four queries of \<open>receive\<close>: the first message of the queue, of the type, of another type, or the
  first of the lowest type up to a bound.
\<close>

definition queue_of :: "int \<Rightarrow> ipc_tables \<Rightarrow> message_row list" where
  "queue_of object t = sort_key me_seq (filter (\<lambda>m. me_object m = object) (tb_messages t))"

definition type_bound :: "int \<Rightarrow> int" where
  "type_bound type = (if type = - LONG_MAX - 1 then LONG_MAX else if type < 0 then - type else type)"

definition first_row :: "message_row list \<Rightarrow> message_row option" where
  "first_row ms = (case ms of [] \<Rightarrow> None | m # _ \<Rightarrow> Some m)"

definition select_message :: "int \<Rightarrow> int \<Rightarrow> bool \<Rightarrow> ipc_tables \<Rightarrow> message_row option" where
  "select_message object type except t =
     first_row (if type = 0 then queue_of object t
      else if type < 0 then sort_key me_type (filter (\<lambda>m. me_type m \<le> type_bound type) (queue_of object t))
      else if except then filter (\<lambda>m. me_type m \<noteq> type_bound type) (queue_of object t)
      else filter (\<lambda>m. me_type m = type_bound type) (queue_of object t))"

definition deliver :: "ipc_pending \<Rightarrow> message_row \<Rightarrow> nat ipc" where
  "deliver p m =
     (let room = unat (arg p 2); copied = min (length (me_data m)) room in
      ipc_then (ipc_check (length (me_data m) > room \<and> arg p 4 AND MSG_NOERROR = 0) E2BIG)
        (\<lambda>_. ipc_then (md_ipc_memory (arg p 1) (long_bytes (me_type m)) 8 True)
        (\<lambda>_. ipc_then (ipc_check (unat (arg p 1) > 2 ^ 64 - 1 - 8) EFAULT)
        (\<lambda>_. ipc_then (md_ipc_memory (arg p 1 + 8) (take copied (me_data m)) copied True)
        (\<lambda>_. ipc_return copied)))))"

definition delete_message :: "int \<Rightarrow> ipc_tables \<Rightarrow> ipc_tables" where
  "delete_message seq t = t\<lparr>tb_messages := filter (\<lambda>m. me_seq m \<noteq> seq) (tb_messages t)\<rparr>"

definition msg_receive :: "md_ipc \<Rightarrow> ipc_pending \<Rightarrow> msqid_ds \<Rightarrow> int ipc" where
  "msg_receive ip p st =
     ipc_then (ipc_lift (md_ipc_perm_access (ip_users ip) (ip_space ip) (p_identity p) (msg_perm st) 4))
       (\<lambda>_. ipc_then (ipc_check (arg p 4 AND MSG_COPY \<noteq> 0) ENOTSUP)
       (\<lambda>_. ipc_then (sql_select (select_message (int_arg p 0) (sint (arg p 3)) (arg p 4 AND MSG_EXCEPT \<noteq> 0)))
       (\<lambda>row. case row of
          None \<Rightarrow> if arg p 4 AND ucast IPC_NOWAIT \<noteq> 0 then ipc_fail ENOMSG else (\<lambda>s. (Inl Wait, s))
        | Some m \<Rightarrow>
           ipc_then (deliver p m)
           (\<lambda>copied. ipc_then (sql_update (delete_message (me_seq m)))
           (\<lambda>_. ipc_then (save_process ip p (st\<lparr>msg_qnum := msg_qnum st - 1, msg_cbytes := msg_cbytes st - of_nat (length (me_data m)),
                 msg_rtime := ip_time ip, msg_lrpid := p_pid p\<rparr>) False)
           (\<lambda>_. ipc_return (int copied)))))))"

section \<open>Commands\<close>

definition msg_stat :: "md_ipc \<Rightarrow> ipc_pending \<Rightarrow> msqid_ds \<Rightarrow> int ipc" where
  "msg_stat ip p st =
     ipc_then (ipc_lift (md_ipc_perm_access (ip_users ip) (ip_space ip) (p_identity p) (msg_perm st) 4))
       (\<lambda>_. ipc_then (visible_processes ip p st)
       (\<lambda>seen. ipc_then (md_ipc_memory (arg p 2)
            (abi_put_msqid (ip_abi ip) (seen\<lparr>msg_perm := md_ipc_perm_visible (ip_users ip) (p_identity p) (msg_perm st)\<rparr>))
            (abi_msqid_size (ip_abi ip)) True)
       (\<lambda>_. ipc_return 0)))"

definition msg_set :: "md_ipc \<Rightarrow> ipc_pending \<Rightarrow> msqid_ds \<Rightarrow> int ipc" where
  "msg_set ip p st =
     ipc_then (md_ipc_memory (arg p 2) [] (abi_msqid_size (ip_abi ip)) False)
       (\<lambda>bytes. let from = abi_get_msqid (ip_abi ip) bytes in
        ipc_then (ipc_check (msg_qbytes from > MD_MSGMNB \<and> \<not> md_identity_capable_in (ip_users ip) (p_identity p) (ip_space ip) CAP_SYS_RESOURCE) EPERM)
       (\<lambda>_. ipc_then (ipc_check (msg_qbytes from > QBYTES_MAX) ERANGE)
       (\<lambda>_. ipc_then (ipc_lift (md_ipc_perm_set (ip_users ip) (p_identity p) (msg_perm st) (ipc_uid (msg_perm from)) (ipc_gid (msg_perm from)) (ipc_mode (msg_perm from))))
       (\<lambda>perm. ipc_then (md_ipc_save (int_arg p 0) (Msg_Info (st\<lparr>msg_perm := perm, msg_qbytes := msg_qbytes from, msg_ctime := ip_time ip\<rparr>)))
       (\<lambda>_. ipc_return 0)))))"

definition msg_control :: "md_ipc \<Rightarrow> ipc_pending \<Rightarrow> msqid_ds \<Rightarrow> int ipc" where
  "msg_control ip p st =
     (let command = command_of (arg p 1) in
      if command = IPC_STAT then msg_stat ip p st
      else if command \<noteq> IPC_SET \<and> command \<noteq> IPC_RMID then ipc_fail ENOTSUP
      else ipc_then (ipc_lift (md_ipc_perm_owner (ip_users ip) (ip_space ip) (p_identity p) (msg_perm st)))
        (\<lambda>_. if command = IPC_RMID then ipc_then (md_ipc_remove (int_arg p 0)) (\<lambda>_. ipc_return 0) else msg_set ip p st))"

definition md_ipc_msg :: "md_ipc \<Rightarrow> ipc_pending \<Rightarrow> int ipc" where
  "md_ipc_msg ip p =
     (if p_nr p = SYS_msgget then msg_get ip p
      else ipc_then (removed_error (p_blocked p) (load_msg ip (int_arg p 0)))
        (\<lambda>st. if p_nr p = SYS_msgsnd then msg_send ip p st
             else if p_nr p = SYS_msgrcv then msg_receive ip p st
             else msg_control ip p st))"

lemma triple_removed: "triple P m Q \<Longrightarrow> triple P (removed_error b m) Q"
  unfolding triple_def removed_error_def by (fastforce split: prod.splits sum.splits)


section \<open>The invariant of the tables\<close>

definition in_queue :: "int \<Rightarrow> ipc_tables \<Rightarrow> message_row list" where
  "in_queue object t = filter (\<lambda>m. me_object m = object) (tb_messages t)"

definition counts_exact :: "int \<Rightarrow> msqid_ds \<Rightarrow> ipc_tables \<Rightarrow> bool" where
  "counts_exact object st t \<longleftrightarrow>
     unat (msg_qnum st) = length (in_queue object t)
     \<and> unat (msg_cbytes st) = sum_list (map (\<lambda>m. length (me_data m)) (in_queue object t))"

definition sems_ok :: "ipc_tables \<Rightarrow> bool" where
  "sems_ok t \<longleftrightarrow> (\<forall>x \<in> set (tb_sems t). 0 \<le> se_value x \<and> se_value x \<le> SEMVMX)
     \<and> (\<forall>u \<in> set (tb_undo t). - SEMAEM \<le> ud_delta u \<and> ud_delta u \<le> SEMAEM)"

definition queues_ok :: "ipc_tables \<Rightarrow> bool" where
  "queues_ok t \<longleftrightarrow> (\<forall>x \<in> set (tb_objects t). ob_id x \<le> tb_last_object t)
     \<and> (\<forall>m \<in> set (tb_messages t). me_object m \<le> tb_last_object t \<and> me_seq m \<le> tb_last_message t)
     \<and> distinct (map me_seq (tb_messages t)) \<and> distinct (map ob_id (tb_objects t))
     \<and> (\<forall>x \<in> set (tb_objects t). \<forall>st. ob_info x = Msg_Info st \<longrightarrow> counts_exact (ob_id x) st t)"

definition tables_ok :: "ipc_tables \<Rightarrow> bool" where
  "tables_ok t \<longleftrightarrow> sems_ok t \<and> queues_ok t"

lemma queues_ok_frame:
  assumes "queues_ok t" "tb_objects u = tb_objects t" "tb_messages u = tb_messages t"
    "tb_last_object u = tb_last_object t" "tb_last_message u = tb_last_message t"
  shows "queues_ok u"
  using assms by (simp add: queues_ok_def counts_exact_def in_queue_def)

lemma sems_ok_frame:
  assumes "sems_ok t" "set (tb_sems u) \<subseteq> set (tb_sems t)" "set (tb_undo u) \<subseteq> set (tb_undo t)"
  shows "sems_ok u"
  using assms by (auto simp: sems_ok_def)

text \<open>An update of rows keeps the identifiers; what is left are the messages and the counts.\<close>

lemma queues_ok_update:
  assumes "queues_ok t" "map ob_id (tb_objects u) = map ob_id (tb_objects t)" "tb_last_object u = tb_last_object t"
    and "\<And>m. m \<in> set (tb_messages u) \<Longrightarrow> me_object m \<le> tb_last_object t \<and> me_seq m \<le> tb_last_message u"
    and "distinct (map me_seq (tb_messages u))"
    and "\<And>x st. x \<in> set (tb_objects u) \<Longrightarrow> ob_info x = Msg_Info st \<Longrightarrow> counts_exact (ob_id x) st u"
  shows "queues_ok u"
proof -
  have "\<forall>k \<in> set (map ob_id (tb_objects t)). k \<le> tb_last_object t" using assms(1) by (simp add: queues_ok_def)
  hence "\<forall>k \<in> set (map ob_id (tb_objects u)). k \<le> tb_last_object u" by (simp only: assms(2,3))
  hence "\<forall>x \<in> set (tb_objects u). ob_id x \<le> tb_last_object u" by simp
  moreover have "distinct (map ob_id (tb_objects u))" using assms(1,2) by (simp add: queues_ok_def)
  ultimately show ?thesis using assms(3-6) by (simp add: queues_ok_def)
qed

lemma save_info_ok:
  assumes "tables_ok t" "\<And>st. info = Msg_Info st \<Longrightarrow> counts_exact object st t"
  shows "tables_ok (save_info object info t)"
proof -
  have q: "queues_ok t" using assms(1) by (simp add: tables_ok_def)
  have "queues_ok (save_info object info t)"
    by (rule queues_ok_update [OF q])
      (use q assms(2) in \<open>auto simp: save_info_def queues_ok_def counts_exact_def in_queue_def split: if_splits\<close>)
  thus ?thesis using assms(1) by (auto simp: tables_ok_def save_info_def sems_ok_def)
qed

lemma insert_object_ok:
  assumes "tables_ok t" "\<And>st. info = Msg_Info st \<Longrightarrow> msg_qnum st = 0 \<and> msg_cbytes st = 0"
  shows "tables_ok (insert_object ip kind key info t)"
proof -
  have m: "me_object m \<le> tb_last_object t" if "m \<in> set (tb_messages t)" for m
    using assms(1) that by (auto simp: tables_ok_def queues_ok_def)
  have x: "ob_id x \<le> tb_last_object t" if "x \<in> set (tb_objects t)" for x
    using assms(1) that by (auto simp: tables_ok_def queues_ok_def)
  have empty: "filter (\<lambda>m. me_object m = tb_last_object t + 1) (tb_messages t) = []"
    using m by (fastforce simp: filter_empty_conv)
  have new: "tb_last_object t + 1 \<notin> set (map ob_id (tb_objects t))" using x by fastforce
  have "queues_ok (insert_object ip kind key info t)"
    using assms empty new m x unfolding tables_ok_def queues_ok_def counts_exact_def in_queue_def insert_object_def
    by (auto simp: Let_def add_increasing2)
  thus ?thesis using assms(1) by (auto simp: tables_ok_def insert_object_def sems_ok_def Let_def)
qed

lemma delete_objects_ok:
  assumes "tables_ok t"
  shows "tables_ok (delete_objects P t)"
proof -
  let ?u = "delete_objects P t"
  have q: "queues_ok t" using assms by (simp add: tables_ok_def)
  have "in_queue (ob_id x) ?u = in_queue (ob_id x) t" if "x \<in> set (tb_objects t)" "\<not> P x" for x
  proof -
    have "ob_id y \<noteq> ob_id x" if "y \<in> set (tb_objects t)" "P y" for y
      using q that \<open>x \<in> _\<close> \<open>\<not> P x\<close> unfolding queues_ok_def distinct_map by (metis inj_onD)
    thus ?thesis by (fastforce simp: in_queue_def delete_objects_def Let_def intro!: filter_cong)
  qed
  hence "queues_ok ?u" using q
    by (auto simp: queues_ok_def counts_exact_def delete_objects_def Let_def distinct_map inj_on_def)
  thus ?thesis using assms by (auto simp: tables_ok_def sems_ok_def delete_objects_def Let_def)
qed

lemma queue_room:
  assumes "\<not> queue_full st b"
  shows "unat (msg_qnum st + 1) = Suc (unat (msg_qnum st))" "unat (msg_cbytes st + b) = unat (msg_cbytes st) + unat b"
proof -
  have a: "b \<le> msg_qbytes st" "msg_cbytes st \<le> msg_qbytes st - b" "msg_qnum st < msg_qbytes st"
    using assms by (auto simp: queue_full_def not_less not_le)
  have "unat (msg_qnum st) < unat (msg_qbytes st)" using a(3) by (simp add: word_less_nat_alt)
  moreover have qb: "unat (msg_qbytes st) < 2 ^ 64" using unsigned_less [of "msg_qbytes st", where 'a = nat] by simp
  ultimately show "unat (msg_qnum st + 1) = Suc (unat (msg_qnum st))" by (simp add: unat_word_ariths(1))
  have "unat (msg_cbytes st) \<le> unat (msg_qbytes st) - unat b"
    using a(1,2) by (simp add: word_le_nat_alt unat_sub)
  moreover have "unat b \<le> unat (msg_qbytes st)" using a(1) by (simp add: word_le_nat_alt)
  ultimately have "unat (msg_cbytes st) + unat b < 2 ^ 64" using qb by simp
  thus "unat (msg_cbytes st + b) = unat (msg_cbytes st) + unat b" by (simp add: unat_word_ariths(1))
qed

lemma insert_message_ok:
  assumes ok: "tables_ok t" and room: "\<not> queue_full st (of_nat (length data))" and len: "length data < 2 ^ 64"
    and st: "has_info object (Msg_Info st) t"
    and st': "msg_qnum st' = msg_qnum st + 1" "msg_cbytes st' = msg_cbytes st + of_nat (length data)"
  shows "tables_ok (save_queue sending object st' pids (insert_message object type data t))"
proof -
  let ?u = "save_queue sending object st' pids (insert_message object type data t)"
  have q: "queues_ok t" using ok by (simp add: tables_ok_def)
  from st obtain x where x: "x \<in> set (tb_objects t)" "ob_id x = object" "ob_info x = Msg_Info st" by (auto simp: has_info_def)
  hence old: "counts_exact object st t" and le: "object \<le> tb_last_object t" using q by (auto simp: queues_ok_def)
  have bytes: "unat (of_nat (length data) :: u64) = length data" using len by (simp add: unat_of_nat take_bit_nat_eq_self)
  have "in_queue object ?u = in_queue object t @ [\<lparr>me_seq = tb_last_message t + 1, me_object = object, me_type = type, me_data = data\<rparr>]"
    by (simp add: in_queue_def save_queue_def insert_message_def Let_def)
  hence new: "counts_exact object st' ?u"
    using old queue_room [OF room] bytes by (simp add: counts_exact_def st')
  have other: "in_queue k ?u = in_queue k t" if "k \<noteq> object" for k
    using that by (auto simp: in_queue_def save_queue_def insert_message_def Let_def)
  have "tb_last_message t + 1 \<notin> me_seq ` set (tb_messages t)" using q by (force simp: queues_ok_def)
  hence "queues_ok ?u"
    by (intro queues_ok_update [OF q])
      (use q le new other in \<open>auto simp: save_queue_def insert_message_def Let_def queues_ok_def counts_exact_def split: if_splits\<close>)
  thus ?thesis using ok by (auto simp: tables_ok_def sems_ok_def save_queue_def insert_message_def Let_def)
qed


lemma sum_list_remove:
  assumes "distinct (map f xs)" "m \<in> set xs"
  shows "length (filter (\<lambda>x. f x \<noteq> f m) xs) = length xs - 1"
    "sum_list (map g (filter (\<lambda>x. f x \<noteq> f m) xs)) = sum_list (map g xs) - (g m :: nat)"
    "g m \<le> sum_list (map g xs)"
proof -
  obtain as bs where xs: "xs = as @ m # bs" using assms(2) by (meson split_list)
  have "filter (\<lambda>x. f x \<noteq> f m) as = as" "filter (\<lambda>x. f x \<noteq> f m) bs = bs"
    using assms(1) by (auto simp: xs filter_id_conv image_iff)
  thus "length (filter (\<lambda>x. f x \<noteq> f m) xs) = length xs - 1"
    "sum_list (map g (filter (\<lambda>x. f x \<noteq> f m) xs)) = sum_list (map g xs) - g m" "g m \<le> sum_list (map g xs)"
    by (simp_all add: xs)
qed

lemma delete_message_ok:
  assumes ok: "tables_ok t" and st: "has_info object (Msg_Info st) t" and m: "m \<in> set (in_queue object t)"
    and st': "msg_qnum st' = msg_qnum st - 1" "msg_cbytes st' = msg_cbytes st - of_nat (length (me_data m))"
  shows "tables_ok (save_queue sending object st' pids (delete_message (me_seq m) t))"
proof -
  let ?u = "save_queue sending object st' pids (delete_message (me_seq m) t)"
  have q: "queues_ok t" using ok by (simp add: tables_ok_def)
  hence seqs: "distinct (map me_seq (tb_messages t))" by (simp add: queues_ok_def)
  from st obtain x where x: "x \<in> set (tb_objects t)" "ob_id x = object" "ob_info x = Msg_Info st" by (auto simp: has_info_def)
  hence old: "counts_exact object st t" using q by (auto simp: queues_ok_def)
  have dq: "distinct (map me_seq (in_queue object t))" using seqs by (simp add: in_queue_def distinct_map_filter)
  have rest: "in_queue k ?u = filter (\<lambda>x. me_seq x \<noteq> me_seq m) (in_queue k t)" for k
    by (simp add: in_queue_def save_queue_def delete_message_def conj_commute)
  have nonempty: "in_queue object t \<noteq> []" using m by auto
  have "unat (msg_qnum st - 1) = unat (msg_qnum st) - 1"
    using old nonempty by (subst unat_sub) (auto simp: counts_exact_def word_le_nat_alt Suc_le_eq)
  moreover have "unat (msg_cbytes st - of_nat (length (me_data m))) = unat (msg_cbytes st) - length (me_data m)"
  proof -
    have le: "length (me_data m) \<le> unat (msg_cbytes st)"
      using old sum_list_remove(3) [OF dq m, of "\<lambda>m. length (me_data m)"] by (simp add: counts_exact_def)
    hence "length (me_data m) < 2 ^ 64" using unsigned_less [of "msg_cbytes st", where 'a = nat] by simp
    hence bytes: "unat (of_nat (length (me_data m)) :: u64) = length (me_data m)" by (simp add: unat_of_nat take_bit_nat_eq_self)
    thus ?thesis using le by (subst unat_sub) (auto simp: word_le_nat_alt)
  qed
  ultimately have new: "counts_exact object st' ?u"
    using old sum_list_remove [OF dq m] unfolding counts_exact_def rest st' by simp
  have other: "in_queue k ?u = in_queue k t" if "k \<noteq> object" for k
  proof -
    have "me_seq y \<noteq> me_seq m" if "y \<in> set (in_queue k t)" for y
      using that m seqs \<open>k \<noteq> object\<close> by (auto simp: in_queue_def distinct_map dest: inj_onD)
    thus ?thesis by (simp add: rest filter_id_conv)
  qed
  have "queues_ok ?u"
    by (intro queues_ok_update [OF q])
      (use q new other in \<open>auto simp: save_queue_def delete_message_def queues_ok_def counts_exact_def distinct_map_filter split: if_splits\<close>)
  thus ?thesis using ok by (auto simp: tables_ok_def sems_ok_def save_queue_def delete_message_def)
qed


section \<open>Semaphores keep the invariant\<close>

abbreviation keeps :: "'a ipc \<Rightarrow> bool" where
  "keeps m \<equiv> triple tables_ok m (\<lambda>_. tables_ok)"

lemma keeps_then: "keeps m \<Longrightarrow> (\<And>x. keeps (f x)) \<Longrightarrow> keeps (ipc_then m f)"
  by (rule triple_then)

lemma keeps_if: "(b \<Longrightarrow> keeps m) \<Longrightarrow> (\<not> b \<Longrightarrow> keeps n) \<Longrightarrow> keeps (if b then m else n)"
  by simp

lemma keeps_prod: "(\<And>x y. keeps (f x y)) \<Longrightarrow> keeps (case_prod f z)"
  by (cases z) simp

lemma keeps_option: "keeps m \<Longrightarrow> (\<And>x. keeps (f x)) \<Longrightarrow> keeps (case v of None \<Rightarrow> m | Some x \<Rightarrow> f x)"
  by (cases v) simp_all

lemma keeps_check_then: "(\<not> b \<Longrightarrow> keeps (f ())) \<Longrightarrow> keeps (ipc_then (ipc_check b e) f)"
  by (cases b) (auto simp: triple_def ipc_then_def ipc_check_def ipc_fail_def ipc_return_def)

lemma keeps_basic [triples]:
  "keeps (ipc_return x)" "keeps (ipc_fail e)" "keeps answer" "keeps (answer_or e)" "keeps mark_changed"
  "keeps (md_ipc_memory a d n w)" "keeps (md_ipc_pid_visible ip pids v k)" "keeps (md_ipc_get ip kind key flags)"
  by (simp_all add: triple_return triple_fail triple_answer triple_answer_or triple_changed triple_memory triple_visible triple_get)

lemma keeps_lift [triples]: "keeps (ipc_lift r)"
  by (rule triple_weaken [OF triple_lift]) simp

lemma keeps_check [triples]: "keeps (ipc_check b e)"
  by (rule triple_weaken [OF triple_check]) simp

lemma keeps_select [triples]: "keeps (sql_select f)"
  by (rule triple_weaken [OF triple_select]) simp

lemma keeps_load [triples]: "keeps (load_sem ip object)" "keeps (load_msg ip object)"
  by (rule triple_weaken [OF triple_load_sem], simp, rule triple_weaken [OF triple_load_msg], simp)

lemma keeps_save_sem [triples]: "keeps (md_ipc_save object (Sem_Info st))"
  unfolding md_ipc_save_def by (rule triple_then [OF triple_update triple_changed]) (auto intro: save_info_ok)

lemma keeps_remove [triples]: "keeps (md_ipc_remove object)"
  unfolding md_ipc_remove_def by (rule triple_then [OF triple_update triple_changed]) (simp add: delete_objects_ok)

lemma keeps_create: "(\<And>st. info = Msg_Info st \<Longrightarrow> msg_qnum st = 0 \<and> msg_cbytes st = 0) \<Longrightarrow> keeps (md_ipc_create ip kind key info)"
  unfolding md_ipc_create_def
  by (rule triple_then [OF triple_insert], erule insert_object_ok, blast, rule triple_then [OF triple_changed])
    (auto simp: triple_def Let_def split: if_splits)

lemma value_range:
  "triple tables_ok (sem_value ip object n v) (\<lambda>(x, _) t. tables_ok t \<and> 0 \<le> x \<and> x \<le> SEMVMX)"
proof -
  have found: "0 \<le> se_value x \<and> se_value x \<le> SEMVMX" if "tables_ok t" "sem_find object n t = Some x" for x t
    using that by (auto simp: tables_ok_def sems_ok_def sem_find_def find_Some_iff)
  show ?thesis unfolding sem_value_def
  proof (rule triple_then [OF triple_select])
    fix row
    show "triple (\<lambda>t. tables_ok t \<and> row = sem_find object n t)
       (case row of None \<Rightarrow> ipc_fail EINVAL
        | Some x \<Rightarrow> (case v of None \<Rightarrow> ipc_return (se_value x, 0)
           | Some process \<Rightarrow> ipc_then (md_ipc_pid_visible ip (se_pids x) process (se_pid x)) (\<lambda>pid. ipc_return (se_value x, pid))))
       (\<lambda>(x, _) t. tables_ok t \<and> 0 \<le> x \<and> x \<le> SEMVMX)"
      by (cases row; cases v)
        (auto intro!: triple_fail triple_return triple_then [OF triple_visible] dest: found found [OF _ sym])
  qed
qed

lemma keeps_value [triples]: "keeps (sem_value ip object n v)"
  by (rule triple_weaken [OF value_range]) auto

lemma keeps_value_then:
  assumes "\<And>x y. 0 \<le> x \<Longrightarrow> x \<le> SEMVMX \<Longrightarrow> keeps (f (x, y))"
  shows "keeps (ipc_then (sem_value ip object n v) f)"
proof (rule triple_then [OF value_range])
  fix z
  show "triple (case z of (x, _) \<Rightarrow> \<lambda>t. tables_ok t \<and> 0 \<le> x \<and> x \<le> SEMVMX) (f z) (\<lambda>_. tables_ok)"
    using assms [of "fst z" "snd z"] by (cases z) (auto simp: triple_def)
qed

lemma set_row_ok: "tables_ok t \<Longrightarrow> 0 \<le> v \<Longrightarrow> v \<le> SEMVMX \<Longrightarrow> tables_ok (set_row object n v pid pids t)"
  by (auto simp: tables_ok_def sems_ok_def set_row_def elim!: queues_ok_frame)

lemma keeps_set: "0 \<le> v \<Longrightarrow> v \<le> SEMVMX \<Longrightarrow> keeps (set_sem object n v pid pids)"
  unfolding set_sem_def by (rule triple_then [OF triple_update triple_changed]) (simp add: set_row_ok)

lemma keeps_set_process: "0 \<le> v \<Longrightarrow> v \<le> SEMVMX \<Longrightarrow> keeps (set_process ip object n v pid process)"
  unfolding set_process_def by (rule keeps_set)

lemma upsert_undo_ok: "tables_ok t \<Longrightarrow> - SEMAEM \<le> ud_delta u \<Longrightarrow> ud_delta u \<le> SEMAEM \<Longrightarrow> tables_ok (upsert_undo u t)"
  by (auto simp: tables_ok_def sems_ok_def upsert_undo_def elim!: queues_ok_frame)

lemma keeps_undo [triples]: "keeps (undo ip p n delta)"
  unfolding undo_def Let_def
  by (intro keeps_then keeps_select keeps_check_then triple_insert upsert_undo_ok) auto

lemma undo_filter_ok: "tables_ok t \<Longrightarrow> tables_ok (t\<lparr>tb_undo := filter P (tb_undo t)\<rparr>)"
  by (auto simp: tables_ok_def sems_ok_def elim!: queues_ok_frame)

lemma keeps_clear_undo [triples]: "keeps (clear_undo object n)"
  unfolding clear_undo_def by (intro triple_update undo_filter_ok)

lemma clamp_range: "0 \<le> clamp v" "clamp v \<le> SEMVMX"
  by (simp_all add: clamp_def SEMVMX_def)

lemma keeps_undo_each [triples]: "keeps (undo_each ip rows)"
proof (induction rows rule: undo_each.induct)
  case (2 ip u x rest)
  show ?case
    by (cases "ob_info x") (auto intro!: keeps_then keeps_check keeps_value_then keeps_set clamp_range keeps_save_sem 2 triple_fail)
qed (simp add: triple_return)

lemma keeps_undo_apply [triples]: "keeps (md_ipc_undo_apply ip lessee space)"
  unfolding md_ipc_undo_apply_def by (intro keeps_then keeps_select keeps_undo_each triple_update undo_filter_ok)

lemma new_sem_ok: "tables_ok t \<Longrightarrow> se_value x = 0 \<Longrightarrow> tables_ok (t\<lparr>tb_sems := tb_sems t @ [x]\<rparr>)"
  by (auto simp: tables_ok_def sems_ok_def SEMVMX_def elim!: queues_ok_frame)

lemma keeps_insert_sems [triples]: "keeps (insert_sems object ns)"
  by (induction ns) (auto intro!: keeps_then triple_insert triple_return new_sem_ok)

lemma keeps_sem_get [triples]: "keeps (sem_get ip p)"
  unfolding sem_get_def Let_def by (auto intro!: keeps_then triples keeps_create)

lemma keeps_operate_each [triples]: "keeps (operate_each ip p fs)"
proof (induction fs rule: operate_each.induct)
  case (2 ip p f rest)
  show ?case by (auto simp: Let_def intro!: keeps_value_then keeps_then keeps_check_then triples keeps_set_process triple_stop 2)
qed (simp add: triple_return)

lemma keeps_operate [triples]: "keeps (operate ip p st)"
  unfolding operate_def by (intro keeps_then triples)

lemma keeps_get_each [triples]: "keeps (get_each ip object ns)"
  by (induction ns) (auto intro!: keeps_then triples)

lemma keeps_set_each: "\<forall>w \<in> set ws. uint w \<le> SEMVMX \<Longrightarrow> keeps (set_each ip p object i ws)"
  by (induction ws arbitrary: i) (auto intro!: keeps_then triples keeps_set_process)

lemma keeps_sem_stat [triples]: "keeps (sem_stat ip p st)"
  unfolding sem_stat_def Let_def by (intro keeps_then triples)

lemma keeps_sem_set [triples]: "keeps (sem_set ip p object st)"
  unfolding sem_set_def Let_def by (intro keeps_then triples)

lemma keeps_sem_getall [triples]: "keeps (sem_getall ip p object st)"
  unfolding sem_getall_def by (intro keeps_then triples)

lemma keeps_sem_setall [triples]: "keeps (sem_setall ip p object st)"
  unfolding sem_setall_def by (intro keeps_then keeps_check_then keeps_set_each triples) auto

lemma keeps_sem_setval [triples]: "keeps (sem_setval ip p object n st)"
  unfolding sem_setval_def Let_def by (intro keeps_then keeps_check_then keeps_set_process triples) auto

lemma keeps_sem_number [triples]: "keeps (sem_number ip p object n command st)"
  unfolding sem_number_def by (intro keeps_if keeps_then keeps_prod triples)

lemma keeps_sem_control [triples]: "keeps (sem_control ip p object st)"
  unfolding sem_control_def Let_def by (intro keeps_if keeps_then triples)

lemma keeps_md_ipc_sem [triples]: "keeps (md_ipc_sem ip p)"
  unfolding md_ipc_sem_def by (intro keeps_if keeps_then triple_removed triples)

section \<open>Message queues keep the invariant\<close>

lemma first_row_in: "first_row ms = Some m \<Longrightarrow> m \<in> set ms"
  by (auto simp: first_row_def split: list.splits)

lemma select_in_queue: "select_message object type except t = Some m \<Longrightarrow> m \<in> set (in_queue object t)"
  unfolding select_message_def by (drule first_row_in) (auto simp: queue_of_def in_queue_def split: if_splits)

lemma keeps_visible_processes [triples]: "keeps (visible_processes ip p st)"
  unfolding visible_processes_def by (intro keeps_then keeps_option triples)

lemma keeps_msg_get [triples]: "keeps (msg_get ip p)"
  unfolding msg_get_def Let_def by (intro keeps_then keeps_if keeps_create triples) auto

lemma triple_if: "(b \<Longrightarrow> triple P m Q) \<Longrightarrow> (\<not> b \<Longrightarrow> triple P n Q) \<Longrightarrow> triple P (if b then m else n) Q"
  by simp

lemma triple_save_process:
  "(\<And>t. P t \<Longrightarrow> Q (save_queue sending (int_arg p 0) st (md_pid_identity_export (ip_pids ip) (p_process p)) t)) \<Longrightarrow>
   triple P (save_process ip p st sending) (\<lambda>_. Q)"
  unfolding save_process_def by (rule triple_then [OF triple_update triple_changed])

text \<open>The tables of a queue whose structure was loaded in the same transaction.\<close>

definition loaded :: "int \<Rightarrow> msqid_ds \<Rightarrow> ipc_tables \<Rightarrow> bool" where
  "loaded object st t \<longleftrightarrow> tables_ok t \<and> has_info object (Msg_Info st) t"

lemma send_keeps:
  assumes "length (snd (p_message p)) < 2 ^ 64"
  shows "triple (loaded (int_arg p 0) st) (msg_send ip p st) (\<lambda>_. tables_ok)"
proof -
  obtain type data where pm: "p_message p = (type, data)" by fastforce
  hence len: "length data < 2 ^ 64" using assms by simp
  show ?thesis unfolding msg_send_def pm Let_def prod.case
  proof (rule triple_then [OF triple_lift], intro triple_if triple_stop triple_fail)
    assume room: "\<not> queue_full st (of_nat (length data))"
    fix x
    let ?st = "st\<lparr>msg_qnum := msg_qnum st + 1, msg_cbytes := msg_cbytes st + of_nat (length data), msg_stime := ip_time ip, msg_lspid := p_pid p\<rparr>"
    let ?R = "\<lambda>(_ :: unit) u. \<exists>t. loaded (int_arg p 0) st t \<and> u = insert_message (int_arg p 0) type data t"
    show "triple (\<lambda>t. loaded (int_arg p 0) st t \<and> md_ipc_perm_access (ip_users ip) (ip_space ip) (p_identity p) (msg_perm st) 2 = Inr x)
      (ipc_then (sql_insert (\<lambda>t. int_arg p 0 \<in> ob_id ` set (tb_objects t)) (insert_message (int_arg p 0) type data))
        (\<lambda>_. ipc_then (save_process ip p ?st True) (\<lambda>_. ipc_return 0))) (\<lambda>_. tables_ok)"
      by (rule triple_then [of _ _ ?R, OF triple_insert], blast,
          rule triple_then [OF triple_save_process [of _ tables_ok]])
        (auto simp: loaded_def intro!: insert_message_ok [OF _ room len] triple_return)
  qed
qed

lemma receive_keeps: "triple (loaded (int_arg p 0) st) (msg_receive ip p st) (\<lambda>_. tables_ok)"
proof -
  have deliver: "triple P (deliver p m) (\<lambda>_. P)" for P m
    unfolding deliver_def Let_def
    by (intro triple_then [OF triple_pass(1)] triple_then [OF triple_memory] triple_return)
  show ?thesis unfolding msg_receive_def
  proof (rule triple_then [OF triple_lift], rule triple_then [OF triple_check], rule triple_then [OF triple_select])
    fix row :: "message_row option" and x y :: unit
    let ?P = "\<lambda>t. loaded (int_arg p 0) st t \<and> row = select_message (int_arg p 0) (sint (arg p 3)) (arg p 4 AND MSG_EXCEPT \<noteq> 0) t"
    let ?st = "\<lambda>m. st\<lparr>msg_qnum := msg_qnum st - 1, msg_cbytes := msg_cbytes st - of_nat (length (me_data m)), msg_rtime := ip_time ip, msg_lrpid := p_pid p\<rparr>"
    let ?R = "\<lambda>m (_ :: unit) u. \<exists>t. loaded (int_arg p 0) st t \<and> m \<in> set (in_queue (int_arg p 0) t) \<and> u = delete_message (me_seq m) t"
    have some: "triple ?P (ipc_then (deliver p m) (\<lambda>copied. ipc_then (sql_update (delete_message (me_seq m)))
        (\<lambda>_. ipc_then (save_process ip p (?st m) False) (\<lambda>_. ipc_return (int copied))))) (\<lambda>_. tables_ok)"
      if row: "row = Some m" for m
      by (rule triple_then [OF deliver], rule triple_then [of _ _ "?R m", OF triple_update],
          use row select_in_queue in force, rule triple_then [OF triple_save_process [of _ tables_ok]])
        (auto simp: loaded_def intro!: delete_message_ok triple_return)
    show "triple (\<lambda>t. ((loaded (int_arg p 0) st t \<and> md_ipc_perm_access (ip_users ip) (ip_space ip) (p_identity p) (msg_perm st) 4 = Inr x) \<and>
            \<not> arg p 4 AND MSG_COPY \<noteq> 0) \<and> row = select_message (int_arg p 0) (sint (arg p 3)) (arg p 4 AND MSG_EXCEPT \<noteq> 0) t)
      (case row of None \<Rightarrow> if arg p 4 AND ucast IPC_NOWAIT \<noteq> 0 then ipc_fail ENOMSG else (\<lambda>s. (Inl Wait, s))
        | Some m \<Rightarrow> ipc_then (deliver p m) (\<lambda>copied. ipc_then (sql_update (delete_message (me_seq m)))
           (\<lambda>_. ipc_then (save_process ip p (?st m) False) (\<lambda>_. ipc_return (int copied))))) (\<lambda>_. tables_ok)"
    proof (cases row)
      case (Some m)
      show ?thesis unfolding Some option.case by (rule triple_strengthen [OF some [OF Some]]) (simp add: Some)
    qed (auto intro: triple_fail triple_stop)
  qed
qed


lemma keeps_msg_stat [triples]: "keeps (msg_stat ip p st)"
  unfolding msg_stat_def by (intro keeps_then triples)

lemma set_keeps: "triple (loaded (int_arg p 0) st) (msg_set ip p st) (\<lambda>_. tables_ok)"
proof -
  have saved: "tables_ok (save_info (int_arg p 0) (Msg_Info st') t)"
    if "loaded (int_arg p 0) st t" "msg_qnum st' = msg_qnum st" "msg_cbytes st' = msg_cbytes st" for st' t
  proof (rule save_info_ok)
    show "tables_ok t" using that(1) by (simp add: loaded_def)
    fix s assume "Msg_Info st' = Msg_Info s"
    thus "counts_exact (int_arg p 0) s t"
      using that by (auto simp: loaded_def has_info_def tables_ok_def queues_ok_def counts_exact_def)
  qed
  have save: "triple (loaded (int_arg p 0) st) (md_ipc_save (int_arg p 0) (Msg_Info st')) (\<lambda>_. tables_ok)"
    if "msg_qnum st' = msg_qnum st" "msg_cbytes st' = msg_cbytes st" for st'
    unfolding md_ipc_save_def by (rule triple_then [OF triple_update triple_changed]) (simp add: saved that)
  show ?thesis unfolding msg_set_def Let_def
    by (intro triple_then [OF triple_memory] triple_then [OF triple_pass(1)] triple_then [OF triple_pass(2)] triple_then [OF save] triple_return) simp_all
qed

lemma keeps_md_ipc_msg:
  assumes "length (snd (p_message p)) < 2 ^ 64"
  shows "keeps (md_ipc_msg ip p)"
proof -
  have weaken: "triple (loaded (int_arg p 0) st) m (\<lambda>_. tables_ok)" if "keeps m" for st and m :: "int ipc"
    by (rule triple_strengthen [OF that]) (simp add: loaded_def)
  have control: "triple (loaded (int_arg p 0) st) (msg_control ip p st) (\<lambda>_. tables_ok)" for st
    unfolding msg_control_def Let_def
    by (intro triple_if triple_then [OF triple_pass(2)] set_keeps triple_fail weaken [OF keeps_msg_stat] weaken [OF keeps_then] triples)
  have load: "triple tables_ok (removed_error (p_blocked p) (load_msg ip (int_arg p 0))) (loaded (int_arg p 0))"
    by (rule triple_removed, rule triple_weaken [OF triple_load_msg]) (simp add: loaded_def)
  show ?thesis unfolding md_ipc_msg_def
    by (intro triple_if triple_then [OF load] send_keeps [OF assms] receive_keeps control keeps_msg_get)
qed

end
