(* ===== verification/Sysv_Ipc.thy ===== *)
theory Sysv_Ipc
  imports Sysv_Msg
begin

unbundle bit_operations_syntax

text \<open>
  Calls on System V objects, from \<^verbatim>\<open>src/native/shroot/src/sysv_ipc.c\<close> with the transactions of
  \<^verbatim>\<open>sysv_ipc_db.c\<close> and \<^verbatim>\<open>ipc_database.c\<close>. A call reads its input once, then tries its operation in one
  transaction under a savepoint. An operation that has to wait is undone and leaves a waiter; the
  call subscribes to changes of the directory, tries once more, and is tried again on every later
  change until it ends or is cancelled.
\<close>

definition SEMOPM :: nat where "SEMOPM = 500"
definition INT64_MAX :: int where "INT64_MAX = 2 ^ 63 - 1"
definition SSIZE_MAX :: nat where "SSIZE_MAX = 2 ^ 63 - 1"

section \<open>Transactions\<close>

definition md_ipc_database_unlock :: "ipc_state \<Rightarrow> ipc_state" where
  "md_ipc_database_unlock s = s\<lparr>st_locked := False\<rparr>"

definition lock_gate :: "unit ipc" where
  "lock_gate s =
     (if st_locked s then (Inl (Error EBUSY), s)
      else case answer s of (Inl e, t) \<Rightarrow> (Inl e, t) | (Inr _, t) \<Rightarrow> (Inr (), t\<lparr>st_locked := True\<rparr>))"

definition md_ipc_database_begin :: "unit ipc" where
  "md_ipc_database_begin =
     ipc_then lock_gate (\<lambda>_ s. case answer s of (Inl e, t) \<Rightarrow> (Inl e, md_ipc_database_unlock t) | (Inr _, t) \<Rightarrow> (Inr (), t))"

text \<open>\<open>began\<close> are the tables when the transaction began. An error, or a commit that fails, restores them.\<close>

definition md_ipc_database_commit :: "ipc_tables \<Rightarrow> ipc_stop + unit \<Rightarrow> unit ipc" where
  "md_ipc_database_commit began r s =
     (case (case r of Inl e \<Rightarrow> (Inl e, s) | Inr _ \<Rightarrow> answer s) of
        (Inl e, t) \<Rightarrow> (Inl e, t\<lparr>st_tables := began\<rparr>)
      | (Inr _, t) \<Rightarrow> (Inr (), t))"

definition delete_owner :: "int \<Rightarrow> ipc_tables \<Rightarrow> ipc_tables" where
  "delete_owner lessee t =
     t\<lparr>tb_owners := filter (\<lambda>x. fst x \<noteq> lessee) (tb_owners t),
       tb_undo := filter (\<lambda>u. ud_owner u \<noteq> lessee) (tb_undo t),
       tb_waiters := filter (\<lambda>w. wt_owner w \<noteq> lessee) (tb_waiters t)\<rparr>"

definition orphaned :: "ipc_tables \<Rightarrow> object_row \<Rightarrow> bool" where
  "orphaned t x \<longleftrightarrow> ob_namespace x \<noteq> 0 \<and> ob_namespace x \<notin> snd ` set (tb_owners t)"

definition remove_owner :: "md_ipc \<Rightarrow> int \<Rightarrow> unit ipc" where
  "remove_owner ip lessee =
     ipc_then (md_ipc_undo_apply ip lessee 0)
       (\<lambda>_. ipc_then (sql_update (delete_owner lessee))
       (\<lambda>_. sql_update (\<lambda>t. delete_objects (orphaned t) t)))"

fun reap_each :: "md_ipc \<Rightarrow> int list \<Rightarrow> unit ipc" where
  "reap_each ip [] = ipc_return ()"
| "reap_each ip (lessee # rest) =
     (if lessee = ip_owner ip then reap_each ip rest
      else ipc_then (ipc_lift (ip_dead ip lessee))
        (\<lambda>dead. ipc_then (if dead then remove_owner ip lessee else ipc_return ()) (\<lambda>_. reap_each ip rest)))"

definition md_ipc_database_reap :: "md_ipc \<Rightarrow> unit ipc" where
  "md_ipc_database_reap ip = ipc_then (sql_select (\<lambda>t. map fst (tb_owners t))) (reap_each ip)"

definition md_ipc_begin :: "md_ipc \<Rightarrow> unit ipc" where
  "md_ipc_begin ip s =
     (case md_ipc_database_begin s of
        (Inl e, t) \<Rightarrow> (Inl e, t)
      | (Inr _, t) \<Rightarrow>
         (case md_ipc_database_reap ip (t\<lparr>st_changed := False\<rparr>) of
            (Inr _, u) \<Rightarrow> (Inr (), u)
          | (Inl e, u) \<Rightarrow> (Inl e, md_ipc_database_unlock (snd (md_ipc_database_commit (st_tables s) (Inl e) u)))))"

definition md_ipc_finish :: "ipc_tables \<Rightarrow> ipc_stop + unit \<Rightarrow> unit ipc" where
  "md_ipc_finish began r s =
     (case md_ipc_database_commit began r s of
        (Inl e, t) \<Rightarrow> (Inl e, md_ipc_database_unlock t)
      | (Inr _, t) \<Rightarrow>
         if st_changed t then (let (q, u) = answer_or EIO t in (q, md_ipc_database_unlock u))
         else (Inr (), md_ipc_database_unlock t))"

definition in_transaction :: "md_ipc \<Rightarrow> unit ipc \<Rightarrow> unit ipc" where
  "in_transaction ip m s =
     (case md_ipc_begin ip s of
        (Inl e, t) \<Rightarrow> (Inl e, t)
      | (Inr _, t) \<Rightarrow> (let (r, u) = m t in md_ipc_finish (st_tables s) r u))"

section \<open>Opening and closing\<close>

text \<open>
  The schema, the four added columns and the identity of the boot come from statements that change
  no row; after a boot the objects of the last one are gone.
\<close>

fun answers :: "nat \<Rightarrow> unit ipc" where
  "answers 0 = ipc_return ()"
| "answers (Suc n) = ipc_then answer (\<lambda>_. answers n)"

definition forget_boot :: "ipc_tables \<Rightarrow> ipc_tables" where
  "forget_boot t =
     (let u = delete_objects (\<lambda>_. True) t in u\<lparr>tb_owners := [], tb_undo := [], tb_waiters := []\<rparr>)"

definition admit :: "md_ipc \<Rightarrow> bool \<Rightarrow> unit ipc" where
  "admit ip rebooted =
     ipc_then (answers 5)
       (\<lambda>_. ipc_then (if rebooted then sql_update forget_boot else ipc_return ())
       (\<lambda>_. ipc_then (md_ipc_database_reap ip)
       (\<lambda>_. sql_insert (\<lambda>t. ip_owner ip \<notin> fst ` set (tb_owners t))
              (\<lambda>t. t\<lparr>tb_owners := tb_owners t @ [(ip_owner ip, ip_namespace ip)]\<rparr>))))"

definition md_ipc_open :: "md_ipc \<Rightarrow> bool \<Rightarrow> unit ipc" where
  "md_ipc_open ip rebooted s =
     (case ipc_then lock_gate (\<lambda>_. answers 8) s of
        (Inl e, t) \<Rightarrow> (Inl e, md_ipc_database_unlock t)
      | (Inr _, t) \<Rightarrow>
         let (r, u) = admit ip rebooted t; (q, v) = md_ipc_database_commit (st_tables t) r u
         in (q, md_ipc_database_unlock v))"

definition md_ipc_close :: "md_ipc \<Rightarrow> ipc_state \<Rightarrow> ipc_state" where
  "md_ipc_close ip s = snd (in_transaction ip (remove_owner ip (ip_owner ip)) s)"

section \<open>Undo spaces\<close>

record md_ipc_undo =
  un_refs :: u32
  un_used :: bool
  un_id :: u64

definition md_ipc_undo_new :: "bool \<Rightarrow> u64 \<Rightarrow> md_ipc_undo option \<times> u64" where
  "md_ipc_undo_new ok spaces =
     (if ok then (Some \<lparr>un_refs = 1, un_used = False, un_id = spaces + 1\<rparr>, spaces + 1) else (None, spaces))"

definition md_ipc_undo_fork :: "bool \<Rightarrow> md_ipc_undo \<Rightarrow> bool \<Rightarrow> u64 \<Rightarrow> md_ipc_undo option \<times> u64" where
  "md_ipc_undo_fork ok u shared spaces = (if shared then (Some (u\<lparr>un_refs := un_refs u + 1\<rparr>), spaces) else md_ipc_undo_new ok spaces)"

text \<open>The last reference applies what the space recorded and frees it.\<close>

definition md_ipc_undo_release :: "md_ipc option \<Rightarrow> md_ipc_undo option \<Rightarrow> ipc_state \<Rightarrow> (ipc_stop + unit) \<times> md_ipc_undo option \<times> ipc_state" where
  "md_ipc_undo_release db space s =
     (case space of None \<Rightarrow> (Inr (), None, s)
      | Some u \<Rightarrow>
         if un_refs u - 1 \<noteq> 0 then (Inr (), Some (u\<lparr>un_refs := un_refs u - 1\<rparr>), s)
         else (case db of
             Some ip \<Rightarrow> if un_used u then (let (r, t) = in_transaction ip (md_ipc_undo_apply ip (ip_owner ip) (un_id u)) s in (r, None, t))
                        else (Inr (), None, s)
           | None \<Rightarrow> (Inr (), None, s)))"

section \<open>Waiting\<close>

definition unregister :: "md_ipc \<Rightarrow> ipc_pending \<Rightarrow> unit ipc" where
  "unregister ip p =
     (if \<not> p_registered p then ipc_return ()
      else sql_update (\<lambda>t. t\<lparr>tb_waiters := filter (\<lambda>w. \<not> (wt_owner w = ip_owner ip \<and> wt_tid w = p_tid p)) (tb_waiters t)\<rparr>))"

definition md_ipc_cancel :: "md_ipc \<Rightarrow> ipc_pending option \<Rightarrow> unit ipc" where
  "md_ipc_cancel ip pending =
     (case pending of None \<Rightarrow> ipc_return ()
      | Some p \<Rightarrow> if p_registered p then in_transaction ip (unregister ip p) else ipc_return ())"

definition upsert_waiter :: "waiter_row \<Rightarrow> ipc_tables \<Rightarrow> ipc_tables" where
  "upsert_waiter w t =
     (if \<exists>x \<in> set (tb_waiters t). wt_owner x = wt_owner w \<and> wt_tid x = wt_tid w
      then t\<lparr>tb_waiters := map (\<lambda>x. if wt_owner x = wt_owner w \<and> wt_tid x = wt_tid w
               then x\<lparr>wt_n := wt_n w, wt_zero := wt_zero w\<rparr> else x) (tb_waiters t)\<rparr>
      else t\<lparr>tb_waiters := tb_waiters t @ [w]\<rparr>)"

definition register_wait :: "md_ipc \<Rightarrow> ipc_pending \<Rightarrow> unit ipc" where
  "register_wait ip p =
     (if p_number p < 0 then ipc_return ()
      else sql_insert (referenced (ip_owner ip) (int_arg p 0))
        (upsert_waiter \<lparr>wt_owner = ip_owner ip, wt_tid = p_tid p, wt_object = int_arg p 0, wt_n = p_number p, wt_zero = p_zero p\<rparr>))"

section \<open>Input\<close>

fun sembufs :: "u16 list \<Rightarrow> sembuf list" where
  "sembufs (a # b # c # rest) = \<lparr>sem_num = a, sem_op = b, sem_flg = c\<rparr> # sembufs rest"
| "sembufs _ = []"

definition bytes_long :: "u8 list \<Rightarrow> int" where
  "bytes_long bs = sint (foldr (\<lambda>b w. ucast b OR push_bit 8 w) (take 8 bs) (0 :: u64))"

definition deadline_at :: "int \<Rightarrow> int \<Rightarrow> int \<Rightarrow> int" where
  "deadline_at now sec nsec = (if sec \<le> (INT64_MAX - now - nsec) div 1000000000 then now + sec * 1000000000 + nsec else INT64_MAX)"

definition prepare_timeout :: "md_ipc \<Rightarrow> ipc_pending \<Rightarrow> int ipc" where
  "prepare_timeout ip p =
     (if p_nr p \<noteq> SYS_semtimedop \<or> arg p 3 = 0 then ipc_return INT64_MAX
      else ipc_then (md_ipc_memory (arg p 3) [] 16 False)
        (\<lambda>bytes. let sec = bytes_long bytes; nsec = bytes_long (drop 8 bytes) in
         ipc_then (ipc_check (sec < 0 \<or> nsec < 0 \<or> nsec \<ge> 1000000000) EINVAL)
        (\<lambda>_. ipc_then (ipc_lift (ip_clock ip)) (\<lambda>now. ipc_return (deadline_at now sec nsec)))))"

definition prepare :: "md_ipc \<Rightarrow> ipc_pending \<Rightarrow> ipc_pending ipc" where
  "prepare ip p0 =
     (let p = p0\<lparr>p_deadline := INT64_MAX, p_number := - 1\<rparr>; count = unat (arg p 2) in
      if p_nr p = SYS_semop \<or> p_nr p = SYS_semtimedop
      then ipc_then (ipc_check (count = 0) EINVAL)
        (\<lambda>_. ipc_then (ipc_check (count > SEMOPM) E2BIG)
        (\<lambda>_. ipc_then (answer_or ENOMEM)
        (\<lambda>_. ipc_then (md_ipc_memory (arg p 1) [] (6 * count) False)
        (\<lambda>bytes. ipc_then (prepare_timeout ip p)
        (\<lambda>deadline. ipc_return (p\<lparr>p_ops := sembufs (bytes_shorts bytes), p_deadline := deadline\<rparr>))))))
      else if p_nr p = SYS_msgsnd
      then ipc_then (ipc_check (count > MD_MSGMAX) EINVAL)
        (\<lambda>_. ipc_then (answer_or ENOMEM)
        (\<lambda>_. ipc_then (md_ipc_memory (arg p 1) [] (count + 8) False)
        (\<lambda>bytes. ipc_then (ipc_check (bytes_long bytes \<le> 0) EINVAL)
        (\<lambda>_. ipc_return (p\<lparr>p_message := (bytes_long bytes, drop 8 bytes)\<rparr>)))))
      else if p_nr p = SYS_msgrcv \<and> count > SSIZE_MAX then ipc_fail EINVAL
      else ipc_return p)"

section \<open>Calls\<close>

definition sem_call :: "sysv_nr \<Rightarrow> bool" where
  "sem_call nr \<longleftrightarrow> nr \<in> {SYS_semget, SYS_semctl, SYS_semop, SYS_semtimedop}"

text \<open>
  The operation under its savepoint: the error of the statements around it and its own result. After
  a savepoint that failed there is none to roll back to.
\<close>

definition operation :: "md_ipc \<Rightarrow> ipc_pending \<Rightarrow> ipc_state \<Rightarrow> (ipc_stop + unit) \<times> (ipc_stop + int) \<times> ipc_state" where
  "operation ip p s =
     (case answer s of
        (Inl e, t) \<Rightarrow> (Inl (Error EIO), Inl e, t)
      | (Inr _, t) \<Rightarrow>
         (case (if sem_call (p_nr p) then md_ipc_sem ip p t else md_ipc_msg ip p t) of
            (Inr v, u) \<Rightarrow> (let (r, w) = answer u in (r, Inr v, w))
          | (Inl e, u) \<Rightarrow>
             (case answer u of
                (Inl f, w) \<Rightarrow> (Inl f, Inl e, w\<lparr>st_changed := st_changed t\<rparr>)
              | (Inr _, w) \<Rightarrow> (let (r, x) = answer (w\<lparr>st_tables := st_tables t, st_changed := st_changed t\<rparr>) in (r, Inl e, x)))))"

definition expire :: "md_ipc \<Rightarrow> ipc_pending \<Rightarrow> ipc_stop + int \<Rightarrow> ipc_stop + int" where
  "expire ip p result =
     (if result \<noteq> Inl Wait \<or> p_deadline p = INT64_MAX then result
      else case ip_clock ip of Inl e \<Rightarrow> Inl (Error e) | Inr now \<Rightarrow> if now \<ge> p_deadline p then Inl (Error EAGAIN) else result)"

definition settle_wait ::
  "md_ipc \<Rightarrow> ipc_pending \<Rightarrow> ipc_stop + unit \<Rightarrow> ipc_stop + int \<Rightarrow> ipc_state \<Rightarrow> (ipc_stop + unit) \<times> ipc_pending \<times> ipc_state" where
  "settle_wait ip p r result s =
     (case r of Inl e \<Rightarrow> (Inl e, p, s)
      | Inr _ \<Rightarrow>
         if result = Inl Wait
         then (case register_wait ip p s of
                 (Inl e, t) \<Rightarrow> (Inl e, p, t)
               | (Inr _, t) \<Rightarrow> (Inr (), p\<lparr>p_registered := (p_number p \<ge> 0 \<or> p_registered p)\<rparr>, t))
         else (case unregister ip p s of
                 (Inl e, t) \<Rightarrow> (Inl e, p, t)
               | (Inr _, t) \<Rightarrow> (Inr (), p\<lparr>p_registered := False\<rparr>, t)))"

text \<open>One attempt: transaction, operation, waiter, commit.\<close>

definition attempt :: "md_ipc \<Rightarrow> ipc_pending \<Rightarrow> ipc_state \<Rightarrow> (ipc_stop + int) \<times> ipc_pending \<times> ipc_state" where
  "attempt ip p s =
     (case md_ipc_begin ip s of
        (Inl e, t) \<Rightarrow> (Inl e, p, t)
      | (Inr _, t) \<Rightarrow>
         let (r, tried, u) = operation ip p (t\<lparr>st_number := p_number p, st_zero := p_zero p\<rparr>);
             q = p\<lparr>p_number := st_number u, p_zero := st_zero u\<rparr>;
             result = expire ip q tried;
             (r, q, v) = settle_wait ip q r result u
         in (case md_ipc_finish (st_tables s) r v of
               (Inl e, w) \<Rightarrow> (Inl e, q, w)
             | (Inr _, w) \<Rightarrow> (result, q, w)))"

definition cleanup :: "md_ipc \<Rightarrow> ipc_pending \<Rightarrow> ipc_stop + int \<Rightarrow> ipc_state \<Rightarrow> (ipc_stop + int) \<times> ipc_pending option \<times> ipc_state" where
  "cleanup ip p result s =
     (case md_ipc_cancel ip (Some p) s of (Inl e, t) \<Rightarrow> (Inl e, None, t) | (Inr _, t) \<Rightarrow> (result, None, t))"

text \<open>Reading the events and making the watcher are system calls; the second needs two.\<close>

function call_loop :: "md_ipc \<Rightarrow> ipc_pending \<Rightarrow> ipc_state \<Rightarrow> (ipc_stop + int) \<times> ipc_pending option \<times> ipc_state" where
  "call_loop ip p s =
     (case (if p_watcher p then answer s else (Inr (), s)) of
        (Inl e, t) \<Rightarrow> cleanup ip p (Inl e) t
      | (Inr _, t) \<Rightarrow>
         let (result, q, u) = attempt ip p t in
         if result \<noteq> Inl Wait then cleanup ip q result u
         else if p_watcher p then (Inl Wait, Some (q\<lparr>p_blocked := True\<rparr>), u)
         else (case answers 2 u of
                 (Inl e, v) \<Rightarrow> cleanup ip (q\<lparr>p_blocked := True\<rparr>) (Inl e) v
               | (Inr _, v) \<Rightarrow> call_loop ip (q\<lparr>p_blocked := True, p_watcher := True\<rparr>) v))"
  by pat_completeness auto
termination by (relation "measure (\<lambda>(ip, p, s). if p_watcher p then 0 else 1)") auto

declare call_loop.simps [simp del]

definition new_pending :: "sysv_nr \<Rightarrow> u64 list \<Rightarrow> identity \<Rightarrow> int \<Rightarrow> int \<Rightarrow> nat option \<Rightarrow> u64 \<Rightarrow> ipc_pending" where
  "new_pending nr args v tid tgid process space =
     \<lparr>p_nr = nr, p_args = args, p_identity = v, p_tid = tid, p_pid = tgid, p_process = process, p_undo = space, p_watcher = False,
      p_registered = False, p_number = 0, p_zero = False, p_blocked = False, p_deadline = 0, p_ops = [], p_message = (0, [])\<rparr>"

definition uses_undo :: "ipc_pending \<Rightarrow> bool" where
  "uses_undo p \<longleftrightarrow> (p_nr p = SYS_semop \<or> p_nr p = SYS_semtimedop) \<and> (\<exists>f \<in> set (p_ops p). ucast (sem_flg f) AND SEM_UNDO \<noteq> 0)"

definition md_ipc_call ::
  "md_ipc \<Rightarrow> ipc_pending option \<Rightarrow> md_ipc_undo \<Rightarrow> identity \<Rightarrow> int \<Rightarrow> int \<Rightarrow> nat option \<Rightarrow> sysv_nr \<Rightarrow> u64 list \<Rightarrow> ipc_state
     \<Rightarrow> (ipc_stop + int) \<times> ipc_pending option \<times> md_ipc_undo \<times> ipc_state" where
  "md_ipc_call ip pending u v tid tgid process nr args s =
     (case pending of
        Some p \<Rightarrow> (let (r, q, t) = call_loop ip p s in (r, q, u, t))
      | None \<Rightarrow>
         (case answer_or ENOMEM s of
            (Inl e, t) \<Rightarrow> (Inl e, None, u, t)
          | (Inr _, t) \<Rightarrow>
             (case prepare ip (new_pending nr args v tid tgid process (un_id u)) t of
                (Inl e, w) \<Rightarrow> (Inl e, None, u, w)
              | (Inr p, w) \<Rightarrow>
                 let (r, q, x) = call_loop ip p w in (r, q, if uses_undo p then u\<lparr>un_used := True\<rparr> else u, x))))"

lemma answer_tables: "answer s = (r, t) \<Longrightarrow> st_tables t = st_tables s"
  by (auto simp: answer_def split: list.splits option.splits)

lemma answers_tables: "answers n s = (r, t) \<Longrightarrow> st_tables t = st_tables s"
proof (induction n arbitrary: s)
  case (Suc n)
  thus ?case by (auto simp: ipc_then_def dest: answer_tables split: prod.splits sum.splits)
qed (simp add: ipc_return_def)

lemma lock_tables: "lock_gate s = (r, t) \<Longrightarrow> st_tables t = st_tables s"
  by (auto simp: lock_gate_def dest: answer_tables split: prod.splits sum.splits if_splits)

lemma database_begin_tables: "md_ipc_database_begin s = (r, t) \<Longrightarrow> st_tables t = st_tables s"
  by (auto simp: md_ipc_database_begin_def ipc_then_def md_ipc_database_unlock_def dest!: lock_tables answer_tables split: prod.splits sum.splits)

lemma memory_tables: "md_ipc_memory a d n w s = (r, t) \<Longrightarrow> st_tables t = st_tables s"
  by (auto simp: md_ipc_memory_def Let_def split: if_splits)

definition reads :: "'a ipc \<Rightarrow> bool" where
  "reads m \<longleftrightarrow> (\<forall>s r t. m s = (r, t) \<longrightarrow> st_tables t = st_tables s)"

lemma reads_then: "reads m \<Longrightarrow> (\<And>x. reads (f x)) \<Longrightarrow> reads (ipc_then m f)"
  unfolding reads_def ipc_then_def by (fastforce split: prod.splits sum.splits)

lemma reads_if: "(b \<Longrightarrow> reads m) \<Longrightarrow> (\<not> b \<Longrightarrow> reads n) \<Longrightarrow> reads (if b then m else n)"
  by simp

lemma reads_basic:
  "reads (ipc_return x)" "reads (ipc_fail e)" "reads (ipc_check b e)" "reads (ipc_lift r)" "reads (answer_or e)" "reads (md_ipc_memory a d n w)"
  by (auto simp: reads_def ipc_return_def ipc_fail_def ipc_check_def ipc_lift_def answer_or_def memory_tables
      dest!: answer_tables split: sum.splits prod.splits if_splits)

lemma prepare_tables: "prepare ip p s = (r, t) \<Longrightarrow> st_tables t = st_tables s"
proof -
  have "reads (prepare ip p)" unfolding prepare_def prepare_timeout_def Let_def
    by (intro reads_then reads_if reads_basic)
  thus "prepare ip p s = (r, t) \<Longrightarrow> st_tables t = st_tables s" by (simp add: reads_def)
qed

lemma triple_any: "(\<And>x. triple (\<lambda>_. True) (f x) Q) \<Longrightarrow> triple (\<lambda>_. True) (ipc_then m f) Q"
  by (rule triple_then [of _ _ "\<lambda>_ _. True"]) (simp add: triple_def)

lemma prepare_message:
  assumes "prepare ip (new_pending nr args v tid tgid process space) s = (Inr p, t)"
  shows "length (snd (p_message p)) \<le> MD_MSGMAX"
proof -
  let ?T = "\<lambda>_ :: ipc_tables. True"
  let ?ok = "\<lambda>q (_ :: ipc_tables). length (snd (p_message q)) \<le> MD_MSGMAX"
  have memory: "triple ?T (md_ipc_memory a d n False) (\<lambda>bs _. length bs \<le> n)" for a d n
    by (auto simp: triple_def md_ipc_memory_def Let_def split: if_splits)
  have send: "triple ?T (ipc_then (ipc_check (count > MD_MSGMAX) EINVAL)
        (\<lambda>_. ipc_then (answer_or ENOMEM)
        (\<lambda>_. ipc_then (md_ipc_memory a [] (count + 8) False)
        (\<lambda>bytes. ipc_then (ipc_check (bytes_long bytes \<le> 0) EINVAL)
        (\<lambda>_. ipc_return (q\<lparr>p_message := (bytes_long bytes, drop 8 bytes)\<rparr>)))))) ?ok" for count a q
  proof (cases "count > MD_MSGMAX")
    case False
    have "triple (\<lambda>_. length bytes \<le> count + 8) (ipc_then (ipc_check (bytes_long bytes \<le> 0) EINVAL)
        (\<lambda>_. ipc_return (q\<lparr>p_message := (bytes_long bytes, drop 8 bytes)\<rparr>))) ?ok" for bytes
      using False by (intro triple_then [OF triple_pass(1)] triple_return) simp
    thus ?thesis by (rule triple_any [OF triple_any [OF triple_then [OF memory]]])
  qed (simp add: triple_def ipc_then_def ipc_check_def ipc_fail_def)
  have "triple ?T (prepare ip (new_pending nr args v tid tgid process space)) ?ok"
    unfolding prepare_def Let_def
    by (rule triple_if [OF _ triple_if [OF send triple_if]]; intro triple_any triple_fail triple_return) (simp_all add: new_pending_def)
  thus ?thesis using tripleD assms by fastforce
qed

text \<open>Silent statements write nothing to the caller's packet and never ask to wait.\<close>

definition silent :: "'a ipc \<Rightarrow> bool" where
  "silent m \<longleftrightarrow> (\<forall>s r t. m s = (r, t) \<longrightarrow> st_packet t = st_packet s \<and> st_output t = st_output s \<and> r \<noteq> Inl Wait)"

lemma silentD: "silent m \<Longrightarrow> m s = (r, t) \<Longrightarrow> st_packet t = st_packet s \<and> st_output t = st_output s \<and> r \<noteq> Inl Wait"
  unfolding silent_def by blast

lemma silent_then [intro]: "silent m \<Longrightarrow> (\<And>x. silent (f x)) \<Longrightarrow> silent (ipc_then m f)"
  unfolding silent_def ipc_then_def by (fastforce split: prod.splits sum.splits)

lemma silent_if [intro]: "(b \<Longrightarrow> silent m) \<Longrightarrow> (\<not> b \<Longrightarrow> silent n) \<Longrightarrow> silent (if b then m else n)"
  by simp

lemma silent_basic [intro, simp]:
  "silent (ipc_return x)" "silent (ipc_fail e)" "silent (ipc_check b e)" "silent (ipc_lift r)" "silent answer" "silent (answer_or e)"
  "silent mark_changed" "silent (md_ipc_memory a d n False)"
  by (auto simp: silent_def ipc_return_def ipc_fail_def ipc_check_def ipc_lift_def answer_def answer_or_def mark_changed_def
      md_ipc_memory_def Let_def split: sum.splits prod.splits if_splits list.splits option.splits)

lemma silent_sql [intro, simp]: "silent (sql_select f)" "silent (sql_update g)"
  unfolding sql_select_def sql_update_def by (rule silent_then [OF silent_basic(5)], simp add: silent_def)+

lemma silent_undo_each: "silent (undo_each ip rows)"
proof (induction rows rule: undo_each.induct)
  case (2 ip u x rest)
  have "silent (sem_value ip a n None)" for a n
    unfolding sem_value_def by (rule silent_then) (auto split: option.splits)
  thus ?case using 2 by (cases "ob_info x") (auto simp: set_sem_def md_ipc_save_def split_beta intro!: silent_then)
qed simp

lemma silent_reap_each: "silent (reap_each ip ls)"
  by (induction ls) (auto simp: remove_owner_def md_ipc_undo_apply_def intro!: silent_then silent_if silent_undo_each)

lemma silent_begin: "silent (md_ipc_begin ip)"
  unfolding silent_def
proof (intro allI impI)
  fix s r t
  assume run: "md_ipc_begin ip s = (r, t)"
  have "silent lock_gate" using silentD [OF silent_basic(5)] by (fastforce simp: silent_def lock_gate_def split: prod.splits sum.splits if_splits)
  moreover have "silent (\<lambda>s. case answer s of (Inl e, t) \<Rightarrow> (Inl e, md_ipc_database_unlock t) | (Inr _, t) \<Rightarrow> (Inr (), t))"
    using silentD [OF silent_basic(5)] by (fastforce simp: silent_def md_ipc_database_unlock_def split: prod.splits sum.splits)
  ultimately have 1: "silent md_ipc_database_begin" unfolding md_ipc_database_begin_def by (rule silent_then)
  have 2: "silent (md_ipc_database_reap ip)" unfolding md_ipc_database_reap_def by (auto intro: silent_reap_each)
  obtain a u where a: "md_ipc_database_begin s = (a, u)" by fastforce
  obtain b w where b: "md_ipc_database_reap ip (u\<lparr>st_changed := False\<rparr>) = (b, w)" by fastforce
  show "st_packet t = st_packet s \<and> st_output t = st_output s \<and> r \<noteq> Inl Wait"
    using silentD [OF 1 a] silentD [OF 2 b] run a b
    by (cases a; cases b) (auto simp: md_ipc_begin_def md_ipc_database_commit_def md_ipc_database_unlock_def)
qed

lemma silent_prepare: "silent (prepare ip p)"
  unfolding prepare_def prepare_timeout_def Let_def by (intro silent_then silent_if silent_basic)

lemma finish_silent:
  assumes "md_ipc_finish began r s = (q, t)" "r \<noteq> Inl Wait"
  shows "st_packet t = st_packet s \<and> st_output t = st_output s \<and> q \<noteq> Inl Wait
    \<and> (st_tables t = began \<or> r = Inr () \<and> st_tables t = st_tables s)"
proof -
  obtain a u where a: "answer s = (a, u)" by fastforce
  obtain b w where b: "answer_or EIO u = (b, w)" by fastforce
  have w: "st_tables w = st_tables u" using b by (auto simp: answer_or_def dest!: answer_tables split: prod.splits sum.splits)
  show ?thesis
    using assms a b w answer_tables [OF a] silentD [OF silent_basic(5) a] silentD [OF silent_basic(6) b]
    by (cases r; cases a) (auto simp: md_ipc_finish_def md_ipc_database_commit_def md_ipc_database_unlock_def split: if_splits)
qed

text \<open>What a prepared call keeps of its task; a semaphore call has operations to perform.\<close>

lemma call_prepared:
  assumes "prepare ip (new_pending nr args v tid tgid process space) s = (Inr p, t)"
  shows "p_nr p = nr \<and> p_args p = args \<and> p_identity p = v \<and> \<not> p_registered p \<and> \<not> p_watcher p
    \<and> (nr \<in> {SYS_semop, SYS_semtimedop} \<longrightarrow> p_ops p \<noteq> [])"
proof -
  have sembufs: "length bs < 6" if none: "sembufs (bytes_shorts bs) = []" for bs
  proof (rule ccontr)
    assume "\<not> length bs < 6"
    then obtain a b c d e f rest where "bs = a # b # c # d # e # f # rest"
      by (auto simp: numeral_eq_Suc Suc_le_length_iff not_less)
    thus False using none by simp
  qed
  have memory: "md_ipc_memory a d n False s = (Inr bs, t) \<Longrightarrow> length bs = n" for a d n s bs t
    by (auto simp: md_ipc_memory_def Let_def split: if_splits)
  show ?thesis
    using assms
    by (auto simp: prepare_def new_pending_def Let_def ipc_then_def ipc_check_def ipc_fail_def ipc_return_def
        dest!: memory sembufs split: prod.splits sum.splits if_splits)
qed

section \<open>What the calls rely on\<close>

text \<open>
  The call layer knows the operations by their contract: on success they keep a property of the
  tables. It adds the transactions, the waiters and the recovery of dead owners. A property kept by
  the recovery alone is kept by every begin of a transaction; one the operations keep as well is kept
  by every call.
\<close>

locale ipc_recovery =
  fixes ok :: "ipc_tables \<Rightarrow> bool"
  assumes recover: "triple ok (md_ipc_undo_apply ip lessee space) (\<lambda>_. ok)"
    and delete: "ok t \<Longrightarrow> ok (delete_objects P t)"
    and disown: "ok t \<Longrightarrow> ok (t\<lparr>tb_undo := filter Q (tb_undo t)\<rparr>)"
    and owners: "ok t \<Longrightarrow> ok (t\<lparr>tb_owners := os\<rparr>)"
    and waiters: "ok t \<Longrightarrow> ok (t\<lparr>tb_waiters := ws\<rparr>)"
begin

lemma ipc_remove_owner_ok: "triple ok (remove_owner ip lessee) (\<lambda>_. ok)"
proof -
  have "delete_owner lessee t = t\<lparr>tb_undo := filter (\<lambda>u. ud_owner u \<noteq> lessee) (tb_undo t)\<rparr>
      \<lparr>tb_owners := filter (\<lambda>x. fst x \<noteq> lessee) (tb_owners t)\<rparr>\<lparr>tb_waiters := filter (\<lambda>w. wt_owner w \<noteq> lessee) (tb_waiters t)\<rparr>" for t
    by (simp add: delete_owner_def)
  hence "ok t \<Longrightarrow> ok (delete_owner lessee t)" for t using disown owners waiters by simp
  thus ?thesis unfolding remove_owner_def
    by (intro triple_then [OF recover] triple_then [OF triple_update] triple_update delete) simp_all
qed

lemma ipc_reap_each_ok: "triple ok (reap_each ip ls) (\<lambda>_. ok)"
  by (induction ls) (auto intro!: triple_return triple_then [OF triple_pass(2)] triple_then [OF ipc_remove_owner_ok] triple_then [of _ _ "\<lambda>_. ok"] ipc_remove_owner_ok)

lemma ipc_reap_ok: "triple ok (md_ipc_database_reap ip) (\<lambda>_. ok)"
  unfolding md_ipc_database_reap_def
  by (rule triple_then [OF triple_select]) (auto intro: triple_strengthen [OF ipc_reap_each_ok])

lemma ipc_begin_ok:
  assumes "ok (st_tables s)" "md_ipc_begin ip s = (r, t)"
  shows "ok (st_tables t)"
proof -
  obtain q u where u: "md_ipc_database_begin s = (q, u)" by fastforce
  hence tu: "st_tables u = st_tables s" by (rule database_begin_tables)
  obtain q' v where v: "md_ipc_database_reap ip (u\<lparr>st_changed := False\<rparr>) = (q', v)" by fastforce
  show ?thesis
  proof (cases q)
    case (Inl e)
    thus ?thesis using assms u tu by (simp add: md_ipc_begin_def)
  next
    case (Inr x)
    show ?thesis
    proof (cases q')
      case (Inl e)
      thus ?thesis using assms u v Inr by (auto simp: md_ipc_begin_def md_ipc_database_commit_def md_ipc_database_unlock_def)
    next
      case (Inr y)
      moreover have "ok (st_tables v)" using tripleD [OF ipc_reap_ok v [unfolded Inr]] assms(1) tu by simp
      ultimately show ?thesis using assms u v \<open>q = Inr x\<close> by (simp add: md_ipc_begin_def)
    qed
  qed
qed

lemma ipc_finish_ok:
  assumes "ok began" "\<And>x. r = Inr x \<Longrightarrow> ok (st_tables s)" "md_ipc_finish began r s = (q, t)"
  shows "ok (st_tables t)"
  using assms
  by (auto simp: md_ipc_finish_def md_ipc_database_commit_def md_ipc_database_unlock_def answer_or_def
      dest!: answer_tables split: sum.splits prod.splits if_splits)

lemma ipc_transaction_ok:
  assumes "ok (st_tables s)" "triple ok m (\<lambda>_. ok)" "in_transaction ip m s = (r, t)"
  shows "ok (st_tables t)"
proof -
  obtain q u where u: "md_ipc_begin ip s = (q, u)" by fastforce
  hence tu: "ok (st_tables u)" by (rule ipc_begin_ok [OF assms(1)])
  show ?thesis
  proof (cases q)
    case (Inl e)
    thus ?thesis using assms u tu by (simp add: in_transaction_def)
  next
    case (Inr x)
    obtain q' v where v: "m u = (q', v)" by fastforce
    hence "md_ipc_finish (st_tables s) q' v = (r, t)" using assms(3) u Inr by (simp add: in_transaction_def)
    moreover have "\<And>y. q' = Inr y \<Longrightarrow> ok (st_tables v)" using tripleD [OF assms(2)] v tu by blast
    ultimately show ?thesis using ipc_finish_ok [OF assms(1)] by blast
  qed
qed

lemma ipc_waiting_ok:
  assumes "ok (st_tables s)"
  shows "register_wait ip p s = (Inr x, t) \<Longrightarrow> ok (st_tables t)" "unregister ip p s = (Inr x, t) \<Longrightarrow> ok (st_tables t)"
proof -
  have "triple ok (register_wait ip p) (\<lambda>_. ok)" "triple ok (unregister ip p) (\<lambda>_. ok)"
    unfolding register_wait_def unregister_def by (auto intro!: triple_insert triple_update triple_return simp: upsert_waiter_def waiters)
  thus "register_wait ip p s = (Inr x, t) \<Longrightarrow> ok (st_tables t)" "unregister ip p s = (Inr x, t) \<Longrightarrow> ok (st_tables t)"
    using assms by (auto dest: tripleD)
qed

end

locale ipc_service = ipc_recovery +
  assumes serve: "length (snd (p_message p)) < 2 ^ 64 \<Longrightarrow>
      triple ok (if sem_call (p_nr p) then md_ipc_sem ip p else md_ipc_msg ip p) (\<lambda>_. ok)"
begin

lemma ipc_operation_ok:
  assumes "ok (st_tables s)" "length (snd (p_message p)) < 2 ^ 64" "operation ip p s = (Inr x, result, t)"
  shows "ok (st_tables t)"
proof -
  obtain q u where u: "answer s = (q, u)" by fastforce
  have tu: "ok (st_tables u)" using answer_tables [OF u] assms(1) by simp
  obtain y where q: "q = Inr y" using assms(3) u by (cases q) (auto simp: operation_def)
  obtain r v where v: "(if sem_call (p_nr p) then md_ipc_sem ip p else md_ipc_msg ip p) u = (r, v)" by fastforce
  hence v': "(if sem_call (p_nr p) then md_ipc_sem ip p u else md_ipc_msg ip p u) = (r, v)" by (simp split: if_splits)
  show ?thesis
  proof (cases r)
    case (Inr z)
    hence "ok (st_tables v)" using tripleD [OF serve [OF assms(2)] v [unfolded Inr] tu] by simp
    moreover have "answer v = (Inr x, t)" using assms(3) u q v' Inr by (auto simp: operation_def split: prod.splits)
    ultimately show ?thesis using answer_tables by fastforce
  next
    case (Inl e)
    have "st_tables t = st_tables u" using assms(3) u q v' Inl
      by (auto simp: operation_def dest!: answer_tables split: prod.splits sum.splits)
    thus ?thesis using tu by simp
  qed
qed

lemma ipc_settle_ok:
  assumes "\<And>x. r = Inr x \<Longrightarrow> ok (st_tables s)" "settle_wait ip p r result s = (r', q, t)"
  shows "(\<forall>x. r' = Inr x \<longrightarrow> ok (st_tables t)) \<and> p_message q = p_message p"
proof (cases r)
  case (Inr x)
  hence ok: "ok (st_tables s)" by (rule assms(1))
  obtain r1 t1 where 1: "register_wait ip p s = (r1, t1)" by fastforce
  obtain r2 t2 where 2: "unregister ip p s = (r2, t2)" by fastforce
  show ?thesis using assms(2) Inr 1 2 ipc_waiting_ok [OF ok, of ip p]
    by (cases "result = Inl Wait"; cases r1; cases r2) (auto simp: settle_wait_def)
qed (use assms(2) in \<open>auto simp: settle_wait_def\<close>)

lemma ipc_attempt_ok:
  assumes "ok (st_tables s)" "length (snd (p_message p)) < 2 ^ 64" "attempt ip p s = (result, q, t)"
  shows "ok (st_tables t) \<and> p_message q = p_message p"
proof -
  obtain r u where u: "md_ipc_begin ip s = (r, u)" by fastforce
  hence tu: "ok (st_tables u)" by (rule ipc_begin_ok [OF assms(1)])
  show ?thesis
  proof (cases r)
    case (Inl e)
    thus ?thesis using assms u tu by (simp add: attempt_def)
  next
    case (Inr x)
    let ?u = "u\<lparr>st_number := p_number p, st_zero := p_zero p\<rparr>"
    obtain r2 res v where v: "operation ip p ?u = (r2, res, v)" by (metis prod_cases3)
    let ?p = "p\<lparr>p_number := st_number v, p_zero := st_zero v\<rparr>"
    obtain r3 p3 w where w: "settle_wait ip ?p r2 (expire ip ?p res) v = (r3, p3, w)" by (metis prod_cases3)
    have "ok (st_tables v)" if "r2 = Inr z" for z using ipc_operation_ok [OF _ assms(2) v [unfolded that]] tu by simp
    from ipc_settle_ok [OF this w] have w': "\<And>z. r3 = Inr z \<Longrightarrow> ok (st_tables w)" "p_message p3 = p_message p" by auto
    obtain r4 x where x: "md_ipc_finish (st_tables s) r3 w = (r4, x)" by fastforce
    have "t = x \<and> q = p3"
      using assms(3) u v w x Inr by (cases r4) (simp_all add: attempt_def)
    thus ?thesis using ipc_finish_ok [OF assms(1) w'(1) x] w'(2) by simp
  qed
qed

lemma ipc_cancel_ok:
  assumes "ok (st_tables s)" "md_ipc_cancel ip pending s = (r, t)"
  shows "ok (st_tables t)"
proof (cases pending)
  case (Some p)
  have "triple ok (unregister ip p) (\<lambda>_. ok)" using ipc_waiting_ok(2) by (auto simp: triple_def)
  thus ?thesis using assms Some ipc_transaction_ok [OF assms(1)]
    by (auto simp: md_ipc_cancel_def ipc_return_def split: if_splits)
qed (use assms in \<open>simp add: md_ipc_cancel_def ipc_return_def\<close>)

lemma ipc_cleanup_ok:
  assumes "ok (st_tables s)" "cleanup ip p result s = (r, q, t)"
  shows "ok (st_tables t) \<and> q = None"
  using assms ipc_cancel_ok [OF assms(1), of ip "Some p"] by (auto simp: cleanup_def split: prod.splits sum.splits)

lemma ipc_call_loop_step:
  assumes s: "ok (st_tables s)" "length (snd (p_message p)) < 2 ^ 64" and run: "call_loop ip p s = (r, q, t)"
    and again: "\<And>p' w. \<lbrakk>\<not> p_watcher p; p_watcher p'; p_message p' = p_message p; ok (st_tables w); call_loop ip p' w = (r, q, t)\<rbrakk>
      \<Longrightarrow> ok (st_tables t) \<and> (\<forall>p'. q = Some p' \<longrightarrow> p_message p' = p_message p)"
  shows "ok (st_tables t) \<and> (\<forall>p'. q = Some p' \<longrightarrow> p_message p' = p_message p)"
proof -
  obtain a u where u: "(if p_watcher p then answer s else (Inr (), s)) = (a, u)" by fastforce
  have tu: "ok (st_tables u)" using u s(1) answer_tables by (auto split: if_splits)
  show ?thesis
  proof (cases a)
    case (Inl e)
    hence "cleanup ip p (Inl e) u = (r, q, t)" using run u by (simp add: call_loop.simps [of ip p s])
    thus ?thesis using ipc_cleanup_ok [OF tu] by blast
  next
    case (Inr x)
    obtain res p2 v where v: "attempt ip p u = (res, p2, v)" by (metis prod_cases3)
    from ipc_attempt_ok [OF tu s(2) v] have tv: "ok (st_tables v)" and m: "p_message p2 = p_message p" by auto
    obtain b w where w: "answers 2 v = (b, w)" by fastforce
    have tw: "ok (st_tables w)" using answers_tables [OF w] tv by simp
    have eq: "(if res \<noteq> Inl Wait then cleanup ip p2 res v
        else if p_watcher p then (Inl Wait, Some (p2\<lparr>p_blocked := True\<rparr>), v)
        else case b of Inl e \<Rightarrow> cleanup ip (p2\<lparr>p_blocked := True\<rparr>) (Inl e) w
             | Inr _ \<Rightarrow> call_loop ip (p2\<lparr>p_blocked := True, p_watcher := True\<rparr>) w) = (r, q, t)"
      using run u v w Inr by (subst (asm) call_loop.simps) (cases b; simp split: if_splits)
    consider "res \<noteq> Inl Wait" | "res = Inl Wait" "p_watcher p" | e where "res = Inl Wait" "\<not> p_watcher p" "b = Inl e"
      | y where "res = Inl Wait" "\<not> p_watcher p" "b = Inr y" by (cases b) auto
    thus ?thesis
    proof cases
      case 4
      thus ?thesis using again [OF _ _ _ tw, of "p2\<lparr>p_blocked := True, p_watcher := True\<rparr>"] eq m by simp
    qed (use eq tv m in \<open>auto dest: ipc_cleanup_ok [OF tv] ipc_cleanup_ok [OF tw]\<close>)
  qed
qed

lemma ipc_call_loop_ok:
  assumes "ok (st_tables s)" "length (snd (p_message p)) < 2 ^ 64" "call_loop ip p s = (r, q, t)"
  shows "ok (st_tables t) \<and> (\<forall>p'. q = Some p' \<longrightarrow> p_message p' = p_message p)"
proof (rule ipc_call_loop_step [OF assms])
  fix p' w
  assume a: "p_watcher p'" "p_message p' = p_message p" "ok (st_tables w)" "call_loop ip p' w = (r, q, t)"
  have "ok (st_tables t) \<and> (\<forall>p''. q = Some p'' \<longrightarrow> p_message p'' = p_message p')"
    by (rule ipc_call_loop_step [OF a(3) _ a(4)]) (use a assms(2) in auto)
  thus "ok (st_tables t) \<and> (\<forall>p'. q = Some p' \<longrightarrow> p_message p' = p_message p)" using a(2) by simp
qed

lemma ipc_call_ok:
  assumes "ok (st_tables s)" "\<And>p. pending = Some p \<Longrightarrow> length (snd (p_message p)) \<le> MD_MSGMAX"
    and "md_ipc_call ip pending u v tid tgid process nr args s = (r, q, u', t)"
  shows "ok (st_tables t) \<and> (\<forall>p. q = Some p \<longrightarrow> length (snd (p_message p)) \<le> MD_MSGMAX)"
proof (cases pending)
  case (Some p)
  obtain r1 q1 t1 where 1: "call_loop ip p s = (r1, q1, t1)" by (metis prod_cases3)
  have "length (snd (p_message p)) \<le> MD_MSGMAX" using assms(2) Some by simp
  moreover hence "length (snd (p_message p)) < 2 ^ 64" by (simp add: MD_MSGMAX_def)
  ultimately show ?thesis using ipc_call_loop_ok [OF assms(1) _ 1] assms(3) 1 Some by (auto simp: md_ipc_call_def)
next
  case None
  obtain a s1 where a: "answer_or ENOMEM s = (a, s1)" by fastforce
  have t1: "st_tables s1 = st_tables s" using a by (auto simp: answer_or_def dest!: answer_tables split: prod.splits sum.splits)
  obtain b s2 where b: "prepare ip (new_pending nr args v tid tgid process (un_id u)) s1 = (b, s2)" by fastforce
  have t2: "st_tables s2 = st_tables s" using prepare_tables [OF b] t1 by simp
  show ?thesis
  proof (cases "\<exists>p. a = Inr () \<and> b = Inr p")
    case True
    then obtain p where p: "a = Inr ()" "b = Inr p" by blast
    have "length (snd (p_message p)) \<le> MD_MSGMAX" using prepare_message b p(2) by blast
    moreover hence "length (snd (p_message p)) < 2 ^ 64" by (simp add: MD_MSGMAX_def)
    moreover obtain r1 q1 t1 where 1: "call_loop ip p s2 = (r1, q1, t1)" by (metis prod_cases3)
    ultimately show ?thesis using ipc_call_loop_ok [OF _ _ 1] assms(1,3) 1 None p a b t2 by (auto simp: md_ipc_call_def)
  next
    case False
    hence "(\<exists>e. a = Inl e \<and> t = s1 \<or> a = Inr () \<and> b = Inl e \<and> t = s2) \<and> q = None"
      using assms(3) None a b by (cases a; cases b) (auto simp: md_ipc_call_def)
    thus ?thesis using assms(1) t1 t2 by auto
  qed
qed

lemma ipc_open_ok:
  assumes "ok (st_tables s)" "md_ipc_open ip rebooted s = (r, t)"
  shows "ok (st_tables t)"
proof -
  have forget: "ok t \<Longrightarrow> ok (forget_boot t)" for t
    using disown [of _ "\<lambda>_. False"] owners waiters delete by (simp add: forget_boot_def Let_def)
  have "triple ok (answers 5) (\<lambda>_. ok)" using answers_tables by (fastforce simp: triple_def)
  hence admitted: "triple ok (admit ip rebooted) (\<lambda>_. ok)" unfolding admit_def
    by (intro triple_then [of ok "answers 5"] triple_then [of ok _ "\<lambda>_. ok"] triple_insert ipc_reap_ok owners)
      (auto intro!: triple_update triple_return forget)
  obtain a u where a: "ipc_then lock_gate (\<lambda>_. answers 8) s = (a, u)" by fastforce
  have tu: "st_tables u = st_tables s" using a
    by (auto simp: ipc_then_def dest!: lock_tables answers_tables split: prod.splits sum.splits)
  obtain b v where b: "admit ip rebooted u = (b, v)" by fastforce
  have "b = Inr x \<Longrightarrow> ok (st_tables v)" for x using tripleD [OF admitted] b tu assms(1) by simp
  thus ?thesis using assms a b tu
    by (cases a; cases b) (auto simp: md_ipc_open_def md_ipc_database_commit_def md_ipc_database_unlock_def
        dest!: answer_tables split: prod.splits sum.splits)
qed

lemma ipc_release_ok:
  assumes "ok (st_tables s)" "md_ipc_undo_release db space s = (r, q, t)"
  shows "ok (st_tables t)"
  using assms ipc_transaction_ok [OF assms(1) recover]
  by (auto simp: md_ipc_undo_release_def split: option.splits if_splits prod.splits)

lemma ipc_close_ok: "ok (st_tables s) \<Longrightarrow> ok (st_tables (md_ipc_close ip s))"
  unfolding md_ipc_close_def by (rule ipc_transaction_ok [OF _ ipc_remove_owner_ok]) (auto simp: prod_eq_iff)

end

interpretation sysv: ipc_service tables_ok
proof
  fix p :: ipc_pending and ip
  assume "length (snd (p_message p)) < 2 ^ 64"
  thus "keeps (if sem_call (p_nr p) then md_ipc_sem ip p else md_ipc_msg ip p)"
    by (simp add: keeps_md_ipc_sem keeps_md_ipc_msg)
qed (auto simp: keeps_undo_apply delete_objects_ok undo_filter_ok,
     auto simp: tables_ok_def sems_ok_def elim!: queues_ok_frame)

section \<open>Histories\<close>

text \<open>
  The supervisors of a store share the tables; each keeps the pending calls of its tasks. Packets,
  clocks, leases and the answers of the script are arbitrary in every step.
\<close>

inductive ipc_step :: "ipc_tables \<times> (nat \<Rightarrow> ipc_pending option) \<Rightarrow> ipc_tables \<times> (nat \<Rightarrow> ipc_pending option) \<Rightarrow> bool" where
  step_open: "st_tables s = t \<Longrightarrow> md_ipc_open ip rebooted s = (r, s') \<Longrightarrow> ipc_step (t, ps) (st_tables s', ps)"
| step_close: "st_tables s = t \<Longrightarrow> ipc_step (t, ps) (st_tables (md_ipc_close ip s), ps)"
| step_call: "st_tables s = t \<Longrightarrow> md_ipc_call ip (ps k) u v tid tgid process nr args s = (r, q, u', s') \<Longrightarrow>
    ipc_step (t, ps) (st_tables s', ps(k := q))"
| step_cancel: "st_tables s = t \<Longrightarrow> md_ipc_cancel ip (ps k) s = (r, s') \<Longrightarrow> ipc_step (t, ps) (st_tables s', ps(k := None))"
| step_release: "st_tables s = t \<Longrightarrow> md_ipc_undo_release db space s = (r, q, s') \<Longrightarrow> ipc_step (t, ps) (st_tables s', ps)"

inductive_cases ipc_stepE: "ipc_step (t, ps) (t', ps')"

definition history_ok :: "ipc_tables \<times> (nat \<Rightarrow> ipc_pending option) \<Rightarrow> bool" where
  "history_ok x \<longleftrightarrow> tables_ok (fst x) \<and> (\<forall>k p. snd x k = Some p \<longrightarrow> length (snd (p_message p)) \<le> MD_MSGMAX)"

lemma step_ok: "ipc_step x y \<Longrightarrow> history_ok x \<Longrightarrow> history_ok y"
proof (induction rule: ipc_step.induct)
  case (step_call s t ip ps k u v tid tgid process nr args r q u' s')
  have "tables_ok (st_tables s)" "\<And>p. ps k = Some p \<Longrightarrow> length (snd (p_message p)) \<le> MD_MSGMAX"
    using step_call(1,3) by (auto simp: history_ok_def)
  from sysv.ipc_call_ok [OF this step_call(2)] show ?case using step_call(3) by (auto simp: history_ok_def)
qed (auto simp: history_ok_def dest: sysv.ipc_open_ok [rotated] sysv.ipc_close_ok sysv.ipc_cancel_ok [rotated] sysv.ipc_release_ok [rotated])

lemma history_start: "history_ok (no_tables, \<lambda>_. None)"
  by (simp add: history_ok_def tables_ok_def sems_ok_def queues_ok_def no_tables_def)

text \<open>
  C18: System V objects stay consistent under every history of calls by any number of supervisors,
  cancelled waits, released undo spaces, openings and closings, with any statement or system call
  failing: semaphores stay within their range, undo records within theirs, and every queue counts
  exactly its messages and their bytes.
\<close>

theorem ipc_tables_consistent:
  assumes "ipc_step\<^sup>*\<^sup>* (no_tables, \<lambda>_. None) (t, ps)"
  shows "(\<forall>x \<in> set (tb_sems t). 0 \<le> se_value x \<and> se_value x \<le> SEMVMX)
    \<and> (\<forall>u \<in> set (tb_undo t). - SEMAEM \<le> ud_delta u \<and> ud_delta u \<le> SEMAEM)
    \<and> (\<forall>x st. x \<in> set (tb_objects t) \<and> ob_info x = Msg_Info st \<longrightarrow>
         unat (msg_qnum st) = length (filter (\<lambda>m. me_object m = ob_id x) (tb_messages t))
         \<and> unat (msg_cbytes st) = sum_list (map (\<lambda>m. length (me_data m)) (filter (\<lambda>m. me_object m = ob_id x) (tb_messages t))))"
proof -
  have "history_ok (t, ps)" using assms history_start by (induction rule: rtranclp_induct) (auto dest: step_ok)
  thus ?thesis by (auto simp: history_ok_def tables_ok_def sems_ok_def queues_ok_def counts_exact_def in_queue_def)
qed

section \<open>Semaphore operations as a whole\<close>

definition sem_level :: "ipc_tables \<Rightarrow> int \<Rightarrow> int \<Rightarrow> int option" where
  "sem_level t object n = map_option se_value (sem_find object n t)"

text \<open>The reference: operations one after another on the values, all or none.\<close>

fun semop_effect :: "sembuf list \<Rightarrow> (int \<Rightarrow> int option) \<Rightarrow> (int \<Rightarrow> int option) option" where
  "semop_effect [] L = Some L"
| "semop_effect (f # fs) L =
     (case L (uint (sem_num f)) of None \<Rightarrow> None
      | Some v \<Rightarrow>
         let c = sint (sem_op f) in
         if (c = 0 \<and> v \<noteq> 0) \<or> (c < 0 \<and> v + c < 0) \<or> v + c > SEMVMX then None
         else semop_effect fs (L(uint (sem_num f) \<mapsto> v + c)))"

lemma find_map_row:
  assumes "\<And>y. P (g y) = P y"
  shows "find P (map g xs) = map_option g (find P xs)"
  by (induction xs) (auto simp: assms)

lemma level_set_row:
  assumes "sem_find object n t = Some x"
  shows "sem_level (set_row object n v pid pids t) = (sem_level t)(object := (sem_level t object)(n \<mapsto> v))"
proof (intro ext)
  fix a b
  let ?g = "\<lambda>x. if se_object x = object \<and> se_n x = n then x\<lparr>se_value := v, se_pid := pid, se_pids := pids\<rparr> else x"
  have find: "sem_find a b (set_row object n v pid pids t) = map_option ?g (sem_find a b t)"
    unfolding sem_find_def set_row_def by (subst find_map_row [symmetric]) auto
  have key: "se_object y = a \<and> se_n y = b" if "sem_find a b t = Some y" for y
    using that by (auto simp: sem_find_def find_Some_iff)
  show "sem_level (set_row object n v pid pids t) a b = ((sem_level t)(object := (sem_level t object)(n \<mapsto> v))) a b"
    using assms key unfolding sem_level_def find by (cases "sem_find a b t") auto
qed

lemma value_level: "triple P (sem_value ip object n None) (\<lambda>(v, _) t. P t \<and> sem_level t object n = Some v)"
  unfolding sem_value_def
proof (rule triple_then [OF triple_select])
  fix row
  show "triple (\<lambda>t. P t \<and> row = sem_find object n t)
     (case row of None \<Rightarrow> ipc_fail EINVAL
      | Some x \<Rightarrow> (case None of None \<Rightarrow> ipc_return (se_value x, 0)
         | Some process \<Rightarrow> ipc_then (md_ipc_pid_visible ip (se_pids x) process (se_pid x)) (\<lambda>pid. ipc_return (se_value x, pid))))
     (\<lambda>(v, _) t. P t \<and> sem_level t object n = Some v)"
    by (cases row) (auto intro!: triple_fail triple_return simp: sem_level_def dest: sym)
qed

lemma level_frame: "tb_sems u = tb_sems t \<Longrightarrow> sem_level u = sem_level t"
  by (simp add: sem_level_def sem_find_def fun_eq_iff)

lemma undo_level: "triple (\<lambda>t. Q (sem_level t)) (undo ip p n delta) (\<lambda>_ t. Q (sem_level t))"
proof -
  have "sem_level (upsert_undo u t) = sem_level t" for u t by (rule level_frame) (simp add: upsert_undo_def)
  thus ?thesis unfolding undo_def Let_def
    by (intro triple_then [OF triple_weaken [OF triple_select]] triple_then [OF triple_pass(1)] triple_insert) auto
qed

lemma set_level:
  "triple (\<lambda>t. sem_level t = L \<and> L object n \<noteq> None) (set_process ip object n v pid process)
     (\<lambda>_ t. sem_level t = L(object := (L object)(n \<mapsto> v)))"
proof -
  have "sem_level (set_row object n v pid pids t) = (sem_level t)(object := (sem_level t object)(n \<mapsto> v))"
    if "sem_level t object n \<noteq> None" for pids t
    using that level_set_row by (fastforce simp: sem_level_def)
  thus ?thesis unfolding set_process_def set_sem_def
    by (intro triple_then [OF triple_update triple_changed]) auto
qed

lemma operate_each_effect:
  "triple (\<lambda>t. sem_level t = L) (operate_each ip p fs)
     (\<lambda>_ t. \<exists>M. semop_effect fs (L (int_arg p 0)) = Some M \<and> sem_level t = L(int_arg p 0 := M))"
proof (induction fs arbitrary: L)
  case Nil
  show ?case by (auto intro!: triple_return)
next
  case (Cons f fs)
  let ?o = "int_arg p 0" and ?n = "uint (sem_num f)" and ?c = "sint (sem_op f)"
  let ?Q = "\<lambda>_ t. \<exists>M. semop_effect (f # fs) (L ?o) = Some M \<and> sem_level t = L(?o := M)"
  have go: "triple (\<lambda>t. sem_level t = L) (ipc_then (ipc_check (v + ?c > SEMVMX) ERANGE)
      (\<lambda>_. ipc_then (if ucast (sem_flg f) AND SEM_UNDO \<noteq> 0 then undo ip p ?n (- ?c) else ipc_return ())
      (\<lambda>_. ipc_then (set_process ip ?o ?n (v + ?c) (p_pid p) (p_process p))
      (\<lambda>_. operate_each ip p fs)))) ?Q"
    if v: "L ?o ?n = Some v" and free: "\<not> ((?c = 0 \<and> v \<noteq> 0) \<or> (?c < 0 \<and> v < - ?c))" for v
  proof (cases "v + ?c > SEMVMX")
    case False
    let ?L = "L(?o := (L ?o)(?n \<mapsto> v + ?c))"
    have eff: "semop_effect (f # fs) (L ?o) = semop_effect fs (?L ?o)" using v free False by (auto simp: Let_def)
    have rest: "triple (\<lambda>t. sem_level t = ?L) (operate_each ip p fs) ?Q"
      by (rule triple_weaken [OF Cons.IH [of ?L]]) (simp only: eff fun_upd_upd)
    have undone: "triple (\<lambda>t. sem_level t = L) (if b then undo ip p ?n (- ?c) else ipc_return ()) (\<lambda>_ t. sem_level t = L)" for b
      using undo_level [of "\<lambda>M. M = L"] by (auto intro: triple_return)
    have "triple (\<lambda>t. sem_level t = L) (set_process ip ?o ?n (v + ?c) (p_pid p) (p_process p)) (\<lambda>_ t. sem_level t = ?L)"
      by (rule triple_strengthen [OF set_level]) (simp add: v)
    thus ?thesis by (intro triple_then [OF triple_pass(1)] triple_then [OF undone] triple_then [OF _ rest])
  qed (simp add: triple_def ipc_then_def ipc_check_def ipc_fail_def)
  show ?case unfolding operate_each.simps
  proof (rule triple_then [OF value_level])
    fix z :: "int \<times> int"
    obtain v u where z: "z = (v, u)" by fastforce
    show "triple (case z of (v, _) \<Rightarrow> \<lambda>t. sem_level t = L \<and> sem_level t ?o ?n = Some v)
      (case z of (val, _) \<Rightarrow> let change = ?c in
        if (change = 0 \<and> val \<noteq> 0) \<or> (change < 0 \<and> val < - change)
        then (if ucast (sem_flg f) AND IPC_NOWAIT \<noteq> 0 then ipc_fail EAGAIN
              else (\<lambda>s. (Inl Wait, s\<lparr>st_number := ?n, st_zero := (change = 0)\<rparr>)))
        else ipc_then (ipc_check (val + change > SEMVMX) ERANGE)
          (\<lambda>_. ipc_then (if ucast (sem_flg f) AND SEM_UNDO \<noteq> 0 then undo ip p ?n (- change) else ipc_return ())
          (\<lambda>_. ipc_then (set_process ip ?o ?n (val + change) (p_pid p) (p_process p))
          (\<lambda>_. operate_each ip p fs)))) ?Q"
    proof (cases "L ?o ?n = Some v")
      case True
      show ?thesis unfolding z prod.case Let_def
        by (intro triple_if triple_fail triple_stop triple_strengthen [OF go [OF True]]) auto
    qed (auto simp: triple_def z)
  qed
qed

definition semop_applied :: "ipc_pending \<Rightarrow> ipc_tables \<Rightarrow> ipc_tables \<Rightarrow> bool" where
  "semop_applied p t u \<longleftrightarrow>
     (\<exists>M. semop_effect (p_ops p) (sem_level t (int_arg p 0)) = Some M \<and> sem_level u = (sem_level t)(int_arg p 0 := M))"

lemma semop_applies:
  assumes "p_nr p \<in> {SYS_semop, SYS_semtimedop}" "md_ipc_sem ip p s = (Inr x, t)"
  shows "x = 0 \<and> semop_applied p (st_tables s) (st_tables t)"
proof -
  let ?L = "sem_level (st_tables s)"
  let ?done = "\<lambda>t. \<exists>M. semop_effect (p_ops p) (?L (int_arg p 0)) = Some M \<and> sem_level t = ?L(int_arg p 0 := M)"
  have load: "triple P (removed_error b (load_sem ip object)) (\<lambda>_. P)" for P b object
    by (rule triple_removed, rule triple_weaken [OF triple_load_sem]) simp
  have "sem_level (save_info object info t) = sem_level t" for object info t by (rule level_frame) (simp add: save_info_def)
  hence save: "triple ?done (md_ipc_save object info) (\<lambda>_. ?done)" for object info
    unfolding md_ipc_save_def by (intro triple_then [OF triple_update triple_changed]) simp
  have "triple (\<lambda>t. sem_level t = ?L) (operate ip p st) (\<lambda>x t. x = 0 \<and> ?done t)" for st
    unfolding operate_def
    by (intro triple_then [OF triple_pass(1)] triple_then [OF triple_pass(2)] triple_then [OF operate_each_effect] triple_then [OF save] triple_return) simp
  hence "triple (\<lambda>t. sem_level t = ?L) (md_ipc_sem ip p) (\<lambda>x t. x = 0 \<and> ?done t)"
    using assms(1) unfolding md_ipc_sem_def by (auto intro!: triple_then [OF load])
  from tripleD [OF this assms(2)] show ?thesis by (simp add: semop_applied_def)
qed

lemma operation_semop:
  assumes nr: "p_nr p \<in> {SYS_semop, SYS_semtimedop}" and run: "operation ip p s = (Inr x, result, t)"
  shows "(\<forall>v. result = Inr v \<longrightarrow> v = 0 \<and> semop_applied p (st_tables s) (st_tables t))
    \<and> (\<forall>e. result = Inl e \<longrightarrow> st_tables t = st_tables s)"
proof -
  have sem: "sem_call (p_nr p)" using nr by (auto simp: sem_call_def)
  obtain a u where a: "answer s = (a, u)" by fastforce
  have u: "st_tables u = st_tables s" using answer_tables [OF a] .
  obtain y where y: "a = Inr y" using run a by (cases a) (auto simp: operation_def)
  obtain b v where b: "md_ipc_sem ip p u = (b, v)" by fastforce
  show ?thesis
  proof (cases b)
    case (Inl e)
    hence "st_tables t = st_tables s \<and> result = Inl e" using run a y b sem u
      by (auto simp: operation_def dest!: answer_tables split: prod.splits sum.splits)
    thus ?thesis by simp
  next
    case (Inr z)
    hence "answer v = (Inr x, t) \<and> result = Inr z" using run a y b sem by (auto simp: operation_def split: prod.splits)
    moreover have "z = 0 \<and> semop_applied p (st_tables s) (st_tables v)"
      using semop_applies [OF nr b [unfolded Inr]] u by simp
    ultimately show ?thesis using answer_tables by auto
  qed
qed

lemma level_waiters: "sem_level (t\<lparr>tb_waiters := ws\<rparr>) = sem_level t"
  by (rule level_frame) simp

lemma settle_level:
  assumes "settle_wait ip p r result s = (Inr x, q, t)"
  shows "(\<exists>y. r = Inr y) \<and> sem_level (st_tables t) = sem_level (st_tables s)"
proof -
  obtain y where y: "r = Inr y" using assms by (cases r) (auto simp: settle_wait_def)
  have "triple (\<lambda>t. sem_level t = L) (register_wait ip p) (\<lambda>_ t. sem_level t = L)"
    "triple (\<lambda>t. sem_level t = L) (unregister ip p) (\<lambda>_ t. sem_level t = L)" for L
    unfolding register_wait_def unregister_def
    by (auto intro!: triple_insert triple_update triple_return simp: upsert_waiter_def level_waiters)
  thus ?thesis using assms y
    by (auto simp: settle_wait_def dest: tripleD split: if_splits prod.splits sum.splits)
qed

lemma finish_tables:
  assumes "md_ipc_finish began r s = (q, t)"
  shows "(st_tables t = began \<and> (\<exists>e. q = Inl e)) \<or> ((\<exists>x. r = Inr x) \<and> st_tables t = st_tables s \<and> q \<noteq> Inl Wait)"
  using assms
  by (auto simp: md_ipc_finish_def md_ipc_database_commit_def md_ipc_database_unlock_def answer_or_def
      dest!: answer_tables split: sum.splits prod.splits if_splits)

lemma expire_result: "expire ip p result = Inr v \<Longrightarrow> result = Inr v" "expire ip p result = Inl Wait \<Longrightarrow> result = Inl Wait"
  "result = Inr v \<Longrightarrow> expire ip p result = Inr v"
  by (auto simp: expire_def split: if_splits sum.splits)

text \<open>
  C14: A set of semaphore operations is one step: after an attempt the values are those before it,
  restored to before the recovery of dead owners if the transaction failed, or all operations were
  applied in their order, each when it could proceed. An attempt that succeeds applied them, and one
  that has to wait left every value alone.
\<close>

theorem semop_atomic:
  assumes nr: "p_nr p \<in> {SYS_semop, SYS_semtimedop}"
    and start: "md_ipc_begin ip s = (Inr (), t)" and run: "attempt ip p s = (result, q, u)"
  shows "(sem_level (st_tables u) \<in> {sem_level (st_tables s), sem_level (st_tables t)} \<or> semop_applied p (st_tables t) (st_tables u))
    \<and> (\<forall>v. result = Inr v \<longrightarrow> v = 0 \<and> semop_applied p (st_tables t) (st_tables u))
    \<and> (result = Inl Wait \<longrightarrow> sem_level (st_tables u) \<in> {sem_level (st_tables s), sem_level (st_tables t)})"
proof -
  let ?t = "t\<lparr>st_number := p_number p, st_zero := p_zero p\<rparr>"
  obtain r1 tried v where v: "operation ip p ?t = (r1, tried, v)" by (metis prod_cases3)
  let ?p = "p\<lparr>p_number := st_number v, p_zero := st_zero v\<rparr>"
  obtain r2 p2 w where w: "settle_wait ip ?p r1 (expire ip ?p tried) v = (r2, p2, w)" by (metis prod_cases3)
  obtain r3 x where x: "md_ipc_finish (st_tables s) r2 w = (r3, x)" by fastforce
  have eqs: "u = x" "result = (case r3 of Inl e \<Rightarrow> Inl e | Inr _ \<Rightarrow> expire ip ?p tried)"
    using run start v w x by (cases r3; simp add: attempt_def)+
  show ?thesis
  proof (cases "st_tables u = st_tables s \<and> (\<exists>e. r3 = Inl e)")
    case True
    thus ?thesis using eqs by auto
  next
    case False
    with finish_tables [OF x] eqs(1) obtain y where y: "r2 = Inr y" "st_tables u = st_tables w" "r3 \<noteq> Inl Wait" by auto
    from settle_level [OF w [unfolded y(1)]] obtain z where z: "r1 = Inr z" and lev: "sem_level (st_tables w) = sem_level (st_tables v)" by auto
    note op = operation_semop [OF nr v [unfolded z]]
    have "semop_applied p (st_tables t) (st_tables u)" if "tried = Inr k" for k
      using op that lev y by (simp add: semop_applied_def)
    moreover have "sem_level (st_tables u) = sem_level (st_tables t)" if "tried = Inl e" for e
      using op that lev y by simp
    moreover have "result = Inr k \<Longrightarrow> tried = Inr k \<and> k = 0" for k
      using eqs(2) expire_result(1) [of ip ?p tried k] op by (cases r3; simp)
    moreover have "result = Inl Wait \<Longrightarrow> tried = Inl Wait"
      using eqs(2) y(3) expire_result(2) [of ip ?p tried] by (cases r3; simp)
    ultimately show ?thesis by (cases tried) blast+
  qed
qed


section \<open>A concrete database\<close>

definition demo_abi :: sysv_abi where
  "demo_abi = \<lparr>abi_semid_size = 88, abi_get_semid = (\<lambda>_. \<lparr>sem_perm = creator_perm demo_root 0, sem_key = 0, sem_otime = 0, sem_ctime = 0, sem_nsems = 0\<rparr>),
     abi_put_semid = (\<lambda>_. replicate 88 0), abi_msqid_size = 120,
     abi_get_msqid = (\<lambda>_. \<lparr>msg_perm = creator_perm demo_root 0, msg_key = 0, msg_stime = 0, msg_rtime = 0, msg_ctime = 0, msg_cbytes = 0,
       msg_qnum = 0, msg_qbytes = 0, msg_lspid = 0, msg_lrpid = 0\<rparr>), abi_put_msqid = (\<lambda>_. replicate 120 0)\<rparr>"

definition demo_ipc :: md_ipc where
  "demo_ipc = \<lparr>ip_owner = 77, ip_namespace = 0, ip_space = [], ip_users = initial_store, ip_pids = demo_pid0, ip_abi = demo_abi,
     ip_time = 1000, ip_clock = Inr 5, ip_dead = (\<lambda>_. Inr False)\<rparr>"

definition demo_sems :: ipc_tables where
  "demo_sems = no_tables\<lparr>tb_objects := [\<lparr>ob_id = 1, ob_kind = MD_IPC_SEM, ob_key = 5, ob_info = Sem_Info \<lparr>sem_perm = creator_perm demo_root 0x1B6,
        sem_key = 5, sem_otime = 0, sem_ctime = 900, sem_nsems = 2\<rparr>, ob_namespace = 0, ob_send_pids = [], ob_receive_pids = []\<rparr>],
     tb_sems := [\<lparr>se_object = 1, se_n = 0, se_value = 1, se_pid = 0, se_pids = []\<rparr>, \<lparr>se_object = 1, se_n = 1, se_value = 0, se_pid = 0, se_pids = []\<rparr>],
     tb_owners := [(77, 0)], tb_last_object := 1\<rparr>"

definition demo_ipc_state :: "ipc_tables \<Rightarrow> ipc_state" where
  "demo_ipc_state t = \<lparr>st_tables = t, st_changed = False, st_locked = False, st_packet = [], st_output = 0, st_number = 0, st_zero = False, st_faults = []\<rparr>"

definition demo_semop :: ipc_pending where
  "demo_semop = (new_pending SYS_semop [1, 32, 2, 0, 0, 0] demo_root 9 9 None 1)
     \<lparr>p_deadline := INT64_MAX, p_number := - 1, p_ops := [\<lparr>sem_num = 0, sem_op = - 1, sem_flg = 0\<rparr>, \<lparr>sem_num = 1, sem_op = 1, sem_flg = 0\<rparr>]\<rparr>"

lemmas ipc_defs =
  attempt_def md_ipc_begin_def md_ipc_database_begin_def md_ipc_database_reap_def md_ipc_database_unlock_def md_ipc_database_commit_def
  md_ipc_finish_def lock_gate_def answer_def answer_or_def ipc_then_def ipc_return_def ipc_fail_def ipc_check_def ipc_lift_def
  sql_select_def sql_update_def sql_insert_def mark_changed_def operation_def sem_call_def md_ipc_sem_def removed_error_def load_sem_def
  md_ipc_load_def md_ipc_save_def save_info_def operate_def sem_value_def sem_find_def set_process_def set_sem_def set_row_def
  settle_wait_def unregister_def expire_def int_arg_def arg_def

lemma demo_access: "md_ipc_perm_access initial_store [] demo_root p m = Inr ()"
proof -
  have "md_identity_capable_in initial_store demo_root [] CAP_IPC_OWNER" by code_simp
  thus ?thesis by (simp add: md_ipc_perm_access_def)
qed

lemma demo_begin: "\<exists>t. md_ipc_begin demo_ipc (demo_ipc_state demo_sems) = (Inr (), t) \<and> st_tables t = demo_sems"
  by (simp add: ipc_defs demo_ipc_def demo_ipc_state_def demo_sems_def no_tables_def)

lemma demo_attempt: "\<exists>q u. attempt demo_ipc demo_semop (demo_ipc_state demo_sems) = (Inr 0, q, u)"
  by (simp add: ipc_defs demo_ipc_def demo_ipc_state_def demo_sems_def no_tables_def demo_semop_def new_pending_def demo_access
      operate_mode_def md_pid_identity_export_def SEMVMX_def MD_IPC_SEM_def IPC_NOWAIT_def SEM_UNDO_def Let_def)

theorem semop_atomic_witness:
  "\<exists>q u. attempt demo_ipc demo_semop (demo_ipc_state demo_sems) = (Inr 0, q, u) \<and> semop_applied demo_semop demo_sems (st_tables u)"
proof -
  obtain t where t: "md_ipc_begin demo_ipc (demo_ipc_state demo_sems) = (Inr (), t)" "st_tables t = demo_sems" using demo_begin by blast
  obtain q u where u: "attempt demo_ipc demo_semop (demo_ipc_state demo_sems) = (Inr 0, q, u)" using demo_attempt by blast
  have "p_nr demo_semop \<in> {SYS_semop, SYS_semtimedop}" by (simp add: demo_semop_def new_pending_def)
  from semop_atomic [OF this t(1) u] t(2) u show ?thesis by auto
qed


text \<open>
  The notification comes after the commit: if writing it fails, the call reports an error although
  its operations are applied and stay.
\<close>

lemma unnotified_semop_applied:
  "\<exists>q u. attempt demo_ipc demo_semop ((demo_ipc_state demo_sems)\<lparr>st_faults := replicate 12 None @ [Some EIO]\<rparr>) = (Inl (Error EIO), q, u)
     \<and> map se_value (tb_sems (st_tables u)) = [0, 1] \<and> map se_value (tb_sems demo_sems) = [1, 0]"
  by (simp add: ipc_defs demo_ipc_def demo_ipc_state_def demo_sems_def no_tables_def demo_semop_def new_pending_def demo_access
      operate_mode_def md_pid_identity_export_def SEMVMX_def MD_IPC_SEM_def IPC_NOWAIT_def SEM_UNDO_def Let_def eval_nat_numeral)

definition demo_msgget :: "ipc_tables \<Rightarrow> (ipc_stop + int) \<times> ipc_pending option \<times> md_ipc_undo \<times> ipc_state" where
  "demo_msgget t = md_ipc_call demo_ipc None \<lparr>un_refs = 1, un_used = False, un_id = 1\<rparr> demo_root 9 9 None SYS_msgget [5, 0x380, 0, 0, 0, 0] (demo_ipc_state t)"

definition demo_opened :: ipc_tables where
  "demo_opened = st_tables (snd (md_ipc_open demo_ipc False (demo_ipc_state no_tables)))"

definition demo_msg_tables :: ipc_tables where
  "demo_msg_tables = st_tables (snd (snd (snd (demo_msgget demo_opened))))"

lemma demo_open: "demo_opened = no_tables\<lparr>tb_owners := [(77, 0)]\<rparr>"
  by (simp add: demo_opened_def md_ipc_open_def admit_def ipc_defs demo_ipc_def demo_ipc_state_def no_tables_def eval_nat_numeral)

lemma demo_created: "\<exists>x st. tb_objects demo_msg_tables = [x] \<and> ob_id x = 1 \<and> ob_info x = Msg_Info st"
  by (simp add: demo_msg_tables_def demo_msgget_def md_ipc_call_def demo_open call_loop.simps prepare_def new_pending_def ipc_defs cleanup_def
      md_ipc_cancel_def md_ipc_msg_def msg_get_def md_ipc_get_def md_ipc_create_def insert_object_def object_key_free_def
      demo_ipc_def demo_ipc_state_def no_tables_def Let_def IPC_CREAT_def IPC_EXCL_def)

theorem ipc_tables_consistent_witness:
  "\<exists>ps x st. ipc_step\<^sup>*\<^sup>* (no_tables, \<lambda>_. None) (demo_msg_tables, ps) \<and> tb_objects demo_msg_tables = [x] \<and> ob_info x = Msg_Info st
     \<and> unat (msg_qnum st) = length (filter (\<lambda>m. me_object m = 1) (tb_messages demo_msg_tables))"
proof -
  have start: "st_tables (demo_ipc_state t) = t" for t by (simp add: demo_ipc_state_def)
  have opened: "ipc_step (no_tables, \<lambda>_. None) (demo_opened, \<lambda>_. None)"
    unfolding demo_opened_def by (rule step_open [OF start prod.collapse [symmetric]])
  obtain r q u s' where call: "demo_msgget demo_opened = (r, q, u, s')" by (metis prod_cases4)
  have "ipc_step (demo_opened, \<lambda>_. None) (st_tables s', (\<lambda>_. None)(0 := q))"
    by (rule step_call [OF start]) (use call in \<open>simp add: demo_msgget_def\<close>)
  hence run: "ipc_step\<^sup>*\<^sup>* (no_tables, \<lambda>_. None) (demo_msg_tables, (\<lambda>_. None)(0 := q))"
    using opened call by (simp add: demo_msg_tables_def)
  obtain x st where x: "tb_objects demo_msg_tables = [x]" "ob_id x = 1" "ob_info x = Msg_Info st" using demo_created by blast
  from ipc_tables_consistent [OF run] x run show ?thesis by fastforce
qed

end
