(* ===== verification/Sysv_Transport.thy ===== *)
theory Sysv_Transport
  imports Sysv_Ipc
begin

unbundle bit_operations_syntax

text \<open>
  The packets of System V calls, from \<^verbatim>\<open>src/native/shroot/src/sysv_ipc_transport.c\<close>. Before a call its task's buffers are laid out behind the header of one
  packet, and the arguments that were addresses become offsets into it. The set of a \<open>GETALL\<close> or
  \<open>SETALL\<close> is looked up first for its size.
\<close>

definition MD_IPC_VALUE_MAX :: nat where "MD_IPC_VALUE_MAX = 65536"

record ipc_transport =
  tr_args :: "u64 list"
  tr_capacity :: nat
  tr_length :: nat
  tr_input :: nat
  tr_timeout :: nat

record buffers =
  bf_input :: nat
  bf_output :: nat
  bf_timeout :: nat
  bf_args :: "u64 list"

definition set_size :: "md_ipc \<Rightarrow> int \<Rightarrow> nat ipc" where
  "set_size ip object s =
     (case md_ipc_begin ip s of
        (Inl e, t) \<Rightarrow> (Inl e, t)
      | (Inr _, t) \<Rightarrow>
         let (r, u) = load_sem ip object t; (q, v) = md_ipc_finish (st_tables s) (map_sum id (\<lambda>_. ()) r) u
         in (case (q, r) of
               (Inr _, Inr st) \<Rightarrow> if int (sem_nsems st) > SEMMSL then (Inl (Error EIO), v) else (Inr (sem_nsems st), v)
             | (Inl e, _) \<Rightarrow> (Inl e, v)
             | (_, Inl e) \<Rightarrow> (Inl e, v)))"

definition semctl_buffers :: "md_ipc \<Rightarrow> u64 list \<Rightarrow> buffers ipc" where
  "semctl_buffers ip a =
     (let command = command_of (a ! 2); none = \<lparr>bf_input = 0, bf_output = 0, bf_timeout = 0, bf_args = a\<rparr>;
          placed = (\<lambda>b. b\<lparr>bf_args := if bf_input b \<noteq> 0 \<or> bf_output b \<noteq> 0 then a[3 := of_nat PACKET_DATA] else a\<rparr>) in
      if command = IPC_SET then ipc_return (placed (none\<lparr>bf_input := abi_semid_size (ip_abi ip)\<rparr>))
      else if command = IPC_STAT then ipc_return (placed (none\<lparr>bf_output := abi_semid_size (ip_abi ip)\<rparr>))
      else if command = SETALL \<or> command = GETALL
      then ipc_then (set_size ip (sint (ucast (a ! 0) :: u32)))
        (\<lambda>n. ipc_return (placed (if command = SETALL then none\<lparr>bf_input := 2 * n\<rparr> else none\<lparr>bf_output := 2 * n\<rparr>)))
      else ipc_return none)"

definition call_buffers :: "md_ipc \<Rightarrow> sysv_nr \<Rightarrow> u64 list \<Rightarrow> buffers ipc" where
  "call_buffers ip nr a =
     (let none = \<lparr>bf_input = 0, bf_output = 0, bf_timeout = 0, bf_args = a\<rparr>; base = of_nat PACKET_DATA in
      if nr = SYS_semop \<or> nr = SYS_semtimedop
      then ipc_then (ipc_check (a ! 2 = 0) EINVAL)
        (\<lambda>_. ipc_then (ipc_check (unat (a ! 2) > SEMOPM) E2BIG)
        (\<lambda>_. let n = 6 * unat (a ! 2) in
         ipc_return (if nr = SYS_semtimedop \<and> a ! 3 \<noteq> 0
           then none\<lparr>bf_input := n + 16, bf_timeout := n, bf_args := a[1 := base, 3 := base + of_nat n]\<rparr>
           else none\<lparr>bf_input := n, bf_args := a[1 := base]\<rparr>)))
      else if nr = SYS_semctl then semctl_buffers ip a
      else if nr = SYS_msgctl
      then (let command = command_of (a ! 1); n = abi_msqid_size (ip_abi ip) in
         ipc_return (if (command = IPC_SET \<or> command = IPC_STAT) \<and> n \<noteq> 0
           then none\<lparr>bf_input := (if command = IPC_SET then n else 0), bf_output := (if command = IPC_STAT then n else 0), bf_args := a[2 := base]\<rparr>
           else none))
      else if nr = SYS_msgsnd
      then ipc_then (ipc_check (unat (a ! 2) > MD_MSGMAX) EINVAL)
        (\<lambda>_. ipc_return (none\<lparr>bf_input := 8 + unat (a ! 2), bf_args := a[1 := base]\<rparr>))
      else if nr = SYS_msgrcv
      then ipc_then (ipc_check (sint (a ! 2) < 0) EINVAL)
        (\<lambda>_. ipc_return (none\<lparr>bf_output := 8 + min (unat (a ! 2)) MD_MSGMAX, bf_args := a[1 := base]\<rparr>))
      else ipc_return none)"

text \<open>\<open>room\<close> is the memory offered; a packet in use is refused, a retry sends no input again.\<close>

definition md_ipc_transport_prepare :: "md_ipc \<Rightarrow> bool \<Rightarrow> sysv_nr \<Rightarrow> u64 list \<Rightarrow> bool \<Rightarrow> nat option \<Rightarrow> ipc_transport ipc" where
  "md_ipc_transport_prepare ip busy nr a retry room =
     (case room of None \<Rightarrow> ipc_fail EINVAL
      | Some capacity \<Rightarrow>
         ipc_then (ipc_check busy EBUSY)
         (\<lambda>_. ipc_then (call_buffers ip nr a)
         (\<lambda>b. let n = max (bf_input b) (bf_output b) in
          ipc_then (ipc_check (n > MD_IPC_VALUE_MAX \<or> PACKET_DATA + n > capacity) E2BIG)
         (\<lambda>_. ipc_return \<lparr>tr_args = bf_args b, tr_capacity = n, tr_length = PACKET_DATA + n,
             tr_input = (if retry then 0 else bf_input b), tr_timeout = (if retry then 0 else bf_timeout b)\<rparr>))))"

definition in_packet :: "u64 \<Rightarrow> nat \<Rightarrow> ipc_state \<Rightarrow> bool" where
  "in_packet address n s \<longleftrightarrow> PACKET_DATA \<le> unat address \<and> unat address - PACKET_DATA + n \<le> length (st_packet s)"

lemma memory_in_packet: "in_packet address n s \<Longrightarrow> \<exists>bs. md_ipc_memory address d n False s = (Inr bs, s)"
  by (auto simp: md_ipc_memory_def in_packet_def Let_def)

lemma answer_or_packet: "answer_or e s = (r, t) \<Longrightarrow> st_packet t = st_packet s \<and> (r = Inr () \<or> r = Inl (Error e))"
  by (auto simp: answer_or_def answer_def split: prod.splits sum.splits list.splits option.splits)

lemma timeout_in_packet:
  assumes "ip_clock ip = Inr now" "p_nr p = SYS_semtimedop \<Longrightarrow> arg p 3 \<noteq> 0 \<Longrightarrow> in_packet (arg p 3) 16 s"
  shows "fst (prepare_timeout ip p s) \<noteq> Inl (Error EFAULT)"
proof (cases "p_nr p \<noteq> SYS_semtimedop \<or> arg p 3 = 0")
  case False
  then obtain bs where "md_ipc_memory (arg p 3) [] 16 False s = (Inr bs, s)" using assms(2) memory_in_packet by blast
  thus ?thesis using assms(1) False
    by (auto simp: prepare_timeout_def ipc_then_def ipc_check_def ipc_fail_def ipc_return_def ipc_lift_def Let_def)
qed (simp add: prepare_timeout_def ipc_return_def)

lemma prepare_in_packet:
  assumes clock: "ip_clock ip = Inr now"
    and ops: "p_nr p \<in> {SYS_semop, SYS_semtimedop} \<Longrightarrow> in_packet (arg p 1) (6 * unat (arg p 2)) t"
    and timeout: "p_nr p = SYS_semtimedop \<Longrightarrow> arg p 3 \<noteq> 0 \<Longrightarrow> in_packet (arg p 3) 16 t"
    and msg: "p_nr p = SYS_msgsnd \<Longrightarrow> in_packet (arg p 1) (unat (arg p 2) + 8) t"
  shows "fst (prepare ip p t) \<noteq> Inl (Error EFAULT)"
proof -
  define q where "q = p\<lparr>p_deadline := INT64_MAX, p_number := - 1\<rparr>"
  have q: "p_nr q = p_nr p" "arg q k = arg p k" for k by (simp_all add: q_def arg_def)
  obtain r u where u: "answer_or ENOMEM t = (r, u)" by fastforce
  have same: "st_packet u = st_packet t" and r: "r = Inr () \<or> r = Inl (Error ENOMEM)" using answer_or_packet [OF u] by auto
  have packet: "in_packet x n u = in_packet x n t" for x n by (simp add: in_packet_def same)
  show ?thesis
  proof (cases "p_nr p \<in> {SYS_semop, SYS_semtimedop}")
    case True
    obtain bs where bs: "md_ipc_memory (arg q 1) [] (6 * unat (arg q 2)) False u = (Inr bs, u)"
      using memory_in_packet ops [OF True] packet q by metis
    have "fst (prepare_timeout ip q u) \<noteq> Inl (Error EFAULT)"
      by (rule timeout_in_packet [OF clock]) (use timeout packet q in simp)
    thus ?thesis using True r u bs q unfolding prepare_def q_def [symmetric]
      by (auto simp: ipc_then_def ipc_check_def ipc_fail_def ipc_return_def Let_def split: prod.splits sum.splits)
  next
    case False
    show ?thesis
    proof (cases "p_nr p = SYS_msgsnd")
      case True
      then obtain bs where "md_ipc_memory (arg q 1) [] (unat (arg q 2) + 8) False u = (Inr bs, u)"
        using memory_in_packet msg packet q by metis
      thus ?thesis using True False r u q unfolding prepare_def q_def [symmetric]
        by (auto simp: ipc_then_def ipc_check_def ipc_fail_def ipc_return_def Let_def split: prod.splits sum.splits)
    qed (use False in \<open>auto simp: prepare_def ipc_fail_def ipc_return_def Let_def\<close>)
  qed
qed

text \<open>A call laid out by the transport finds its input in the packet.\<close>

lemma transport_covers_input:
  assumes run: "md_ipc_transport_prepare ip busy nr a retry room s = (Inr tr, s')"
    and args: "length a = 6" and clock: "ip_clock ip = Inr now"
    and p: "p_nr p = nr" "p_args p = tr_args tr" and packet: "length (st_packet t) = tr_capacity tr"
  shows "fst (prepare ip p t) \<noteq> Inl (Error EFAULT)"
proof -
  have "\<exists>b v. call_buffers ip nr a s = (Inr b, v) \<and> tr_args tr = bf_args b \<and> tr_capacity tr = max (bf_input b) (bf_output b)"
    using run by (auto simp: md_ipc_transport_prepare_def ipc_then_def ipc_check_def ipc_fail_def ipc_return_def Let_def
        split: option.splits prod.splits sum.splits if_splits)
  then obtain b v where b: "call_buffers ip nr a s = (Inr b, v)" and tr: "tr_args tr = bf_args b" "tr_capacity tr = max (bf_input b) (bf_output b)"
    by blast
  note layout = call_buffers_def ipc_then_def ipc_check_def ipc_fail_def ipc_return_def in_packet_def arg_def PACKET_DATA_def Let_def
  show ?thesis
  proof (rule prepare_in_packet [OF clock])
    assume "p_nr p \<in> {SYS_semop, SYS_semtimedop}"
    thus "in_packet (arg p 1) (6 * unat (arg p 2)) t" using b tr p packet args by (auto simp: layout split: if_splits)
  next
    assume "p_nr p = SYS_msgsnd"
    thus "in_packet (arg p 1) (unat (arg p 2) + 8) t" using b tr p packet args by (auto simp: layout split: if_splits)
  next
    assume timed: "p_nr p = SYS_semtimedop" "arg p 3 \<noteq> 0"
    have few: "\<not> unat (a ! 2) > SEMOPM" and given: "a ! 3 \<noteq> 0"
      using b timed p tr args by (auto simp: layout split: if_splits)
    have "unat (32 + of_nat (6 * unat (a ! 2)) :: u64) = 32 + 6 * unat (a ! 2)"
      using few by (simp add: SEMOPM_def unat_word_ariths unat_of_nat)
    thus "in_packet (arg p 3) 16 t" using b tr p packet args timed given by (auto simp: layout split: if_splits)
  qed
qed

end
