(* ===== verification/Bpf_Map.thy ===== *)
theory Bpf_Map
  imports Prelude
begin

unbundle bit_operations_syntax

text \<open>
  The hash maps of the emulated \<open>bpf\<close> call, from \<^verbatim>\<open>src/native/shroot/src/bpf_map.c\<close>. A map is a
  table of 256 chains of entries, each entry the bytes of its key followed by those of its value. A
  pointer into a chain is the rest of the chain from there on. The lock of the registry makes every
  call one step. What \<open>malloc\<close> answers is an argument of the operation, and a null key is \<open>None\<close>.
\<close>

section \<open>Data\<close>

definition BPF_BUCKETS :: nat where "BPF_BUCKETS = 256"

definition BPF_MAP_LOOKUP_ELEM :: u32 where "BPF_MAP_LOOKUP_ELEM = 1"
definition BPF_MAP_UPDATE_ELEM :: u32 where "BPF_MAP_UPDATE_ELEM = 2"
definition BPF_MAP_DELETE_ELEM :: u32 where "BPF_MAP_DELETE_ELEM = 3"
definition BPF_MAP_GET_NEXT_KEY :: u32 where "BPF_MAP_GET_NEXT_KEY = 4"
definition BPF_NOEXIST :: u64 where "BPF_NOEXIST = 1"
definition BPF_EXIST :: u64 where "BPF_EXIST = 2"

record bpf_map_info =
  map_type :: u32
  map_id :: u32
  key_size :: u32
  value_size :: u32
  max_entries :: u32
  map_flags :: u32
  map_name :: "u8 list"

type_synonym bpf_entry = "u8 list"

record bpf_map =
  map_info :: bpf_map_info
  map_refs :: u32
  map_count :: u32
  map_reserved :: u64
  map_buckets :: "bpf_entry list list"

section \<open>The elements of a map\<close>

definition bucket :: "u8 list \<Rightarrow> nat \<Rightarrow> nat" where
  "bucket key n = unat (foldl (\<lambda>hash p. (hash XOR ucast p) * 16777619) (2166136261 :: u32) (take n key))
     mod BPF_BUCKETS"

definition entry_matches :: "nat \<Rightarrow> u8 list \<Rightarrow> bpf_entry \<Rightarrow> bool" where
  "entry_matches n key e \<longleftrightarrow> take n e = take n key"

text \<open>The first entry of a list of chains, in the order of the chains.\<close>

fun first_entry :: "bpf_entry list list \<Rightarrow> bpf_entry option" where
  "first_entry [] = None"
| "first_entry ([] # rest) = first_entry rest"
| "first_entry ((e # chain) # rest) = Some e"

definition md_bpf_map_element ::
  "bool \<Rightarrow> bpf_map \<Rightarrow> u32 \<Rightarrow> u8 list option \<Rightarrow> u8 list \<Rightarrow> u64 \<Rightarrow> u8 list result \<times> bpf_map" where
  "md_bpf_map_element alloc m command key val flags =
    (if command \<noteq> BPF_MAP_LOOKUP_ELEM \<and> command \<noteq> BPF_MAP_UPDATE_ELEM
        \<and> command \<noteq> BPF_MAP_DELETE_ELEM \<and> command \<noteq> BPF_MAP_GET_NEXT_KEY then (Inl EINVAL, m)
     else if flags \<noteq> 0 \<and> (command \<noteq> BPF_MAP_UPDATE_ELEM \<or> BPF_EXIST < flags) then (Inl EINVAL, m)
     else
       let ks = unat (key_size (map_info m)); vs = unat (value_size (map_info m));
         index = (case key of Some k \<Rightarrow> bucket k ks | None \<Rightarrow> 0);
         chain = map_buckets m ! index;
         before = (case key of Some k \<Rightarrow> takeWhile (\<lambda>e. \<not> entry_matches ks k e) chain | None \<Rightarrow> []);
         at = (case key of Some k \<Rightarrow> dropWhile (\<lambda>e. \<not> entry_matches ks k e) chain | None \<Rightarrow> [])
       in if command = BPF_MAP_GET_NEXT_KEY then
         (case (case at of
             [] \<Rightarrow> first_entry (map_buckets m)
           | e # [] \<Rightarrow> first_entry (drop (index + 1) (map_buckets m))
           | e # e' # rest \<Rightarrow> Some e') of
           Some e \<Rightarrow> (Inr (take ks e), m) | None \<Rightarrow> (Inl ENOENT, m))
       else (case key of None \<Rightarrow> (Inl EFAULT, m) | Some k \<Rightarrow>
         if command = BPF_MAP_LOOKUP_ELEM then
           (case at of e # rest \<Rightarrow> (Inr (take vs (drop ks e)), m) | [] \<Rightarrow> (Inl ENOENT, m))
         else if command = BPF_MAP_DELETE_ELEM then
           (case at of
              e # rest \<Rightarrow> (Inr [], m\<lparr>map_buckets := (map_buckets m)[index := before @ rest],
                                   map_count := map_count m - 1\<rparr>)
            | [] \<Rightarrow> (Inl ENOENT, m))
         else if at \<noteq> [] \<and> flags = BPF_NOEXIST then (Inl EEXIST, m)
         else if at = [] \<and> flags = BPF_EXIST then (Inl ENOENT, m)
         else (case at of
             [] \<Rightarrow>
               if map_count m = max_entries (map_info m) then (Inl E2BIG, m)
               else if \<not> alloc then (Inl ENOMEM, m)
               else (Inr [], m\<lparr>map_buckets := (map_buckets m)[index := before @ [take ks k @ take vs val]],
                              map_count := map_count m + 1\<rparr>)
           | e # rest \<Rightarrow>
               (Inr [], m\<lparr>map_buckets := (map_buckets m)[index := before @ (take ks e @ take vs val) # rest]\<rparr>))))"

section \<open>Well-formed maps and what they hold\<close>

definition map_entries :: "bpf_map \<Rightarrow> bpf_entry list" where
  "map_entries m = concat (map_buckets m)"

definition stored_key :: "bpf_map \<Rightarrow> bpf_entry \<Rightarrow> u8 list" where
  "stored_key m e = take (unat (key_size (map_info m))) e"

definition entry_pair :: "bpf_map \<Rightarrow> bpf_entry \<Rightarrow> u8 list \<times> u8 list" where
  "entry_pair m e = (stored_key m e, drop (unat (key_size (map_info m))) e)"

definition contents :: "bpf_map \<Rightarrow> u8 list \<rightharpoonup> u8 list" where
  "contents m = map_of (map (entry_pair m) (map_entries m))"

definition map_ok :: "bpf_map \<Rightarrow> bool" where
  "map_ok m \<longleftrightarrow> length (map_buckets m) = BPF_BUCKETS
     \<and> (\<forall>i < BPF_BUCKETS. \<forall>e \<in> set (map_buckets m ! i).
          length e = unat (key_size (map_info m)) + unat (value_size (map_info m))
          \<and> bucket (stored_key m e) (unat (key_size (map_info m))) = i)
     \<and> distinct (map (stored_key m) (map_entries m))
     \<and> unat (map_count m) = length (map_entries m)
     \<and> map_count m \<le> max_entries (map_info m)"


text \<open>The dictionary a map stands for, and what it allows as the answer to a call.\<close>

record dictionary =
  dict_info :: bpf_map_info
  dict_map :: "u8 list \<rightharpoonup> u8 list"

definition dictionary_of :: "bpf_map \<Rightarrow> dictionary" where
  "dictionary_of m = \<lparr>dict_info = map_info m, dict_map = contents m\<rparr>"

record element_call =
  call_alloc :: bool
  call_command :: u32
  call_key :: "u8 list option"
  call_value :: "u8 list"
  call_flags :: u64

definition element_step :: "element_call \<Rightarrow> bpf_map \<Rightarrow> u8 list result \<times> bpf_map" where
  "element_step c m =
     md_bpf_map_element (call_alloc c) m (call_command c) (call_key c) (call_value c) (call_flags c)"

text \<open>The buffers of a call have the sizes of the map.\<close>

definition call_fits :: "element_call \<Rightarrow> dictionary \<Rightarrow> bool" where
  "call_fits c d \<longleftrightarrow> (\<forall>k. call_key c = Some k \<longrightarrow> length k = unat (key_size (dict_info d)))
     \<and> length (call_value c) = unat (value_size (dict_info d))"

definition call_invalid :: "element_call \<Rightarrow> bool" where
  "call_invalid c \<longleftrightarrow> call_command c \<notin> {BPF_MAP_LOOKUP_ELEM, BPF_MAP_UPDATE_ELEM, BPF_MAP_DELETE_ELEM,
       BPF_MAP_GET_NEXT_KEY}
     \<or> call_flags c \<noteq> 0 \<and> (call_command c \<noteq> BPF_MAP_UPDATE_ELEM \<or> BPF_EXIST < call_flags c)"

definition next_allowed :: "(u8 list \<rightharpoonup> u8 list) \<Rightarrow> u8 list option \<Rightarrow> u8 list result \<Rightarrow> bool" where
  "next_allowed d key r \<longleftrightarrow> (case r of
     Inr k \<Rightarrow> k \<in> dom d \<and> key \<noteq> Some k
   | Inl e \<Rightarrow> e = ENOENT \<and> (dom d = {} \<or> (\<exists>k \<in> dom d. key = Some k)))"

definition update_answer :: "element_call \<Rightarrow> dictionary \<Rightarrow> u8 list \<Rightarrow> errno option" where
  "update_answer c d k =
    (if k \<in> dom (dict_map d) \<and> call_flags c = BPF_NOEXIST then Some EEXIST
     else if k \<notin> dom (dict_map d) \<and> call_flags c = BPF_EXIST then Some ENOENT
     else if k \<in> dom (dict_map d) then None
     else if card (dom (dict_map d)) = unat (max_entries (dict_info d)) then Some E2BIG
     else if \<not> call_alloc c then Some ENOMEM else None)"

definition dictionary_allows :: "element_call \<Rightarrow> dictionary \<Rightarrow> u8 list result \<Rightarrow> dictionary \<Rightarrow> bool" where
  "dictionary_allows c d r d' \<longleftrightarrow>
    (if call_invalid c then r = Inl EINVAL \<and> d' = d
     else if call_command c = BPF_MAP_GET_NEXT_KEY then next_allowed (dict_map d) (call_key c) r \<and> d' = d
     else case call_key c of None \<Rightarrow> r = Inl EFAULT \<and> d' = d | Some k \<Rightarrow>
       if call_command c = BPF_MAP_LOOKUP_ELEM then
         r = (case dict_map d k of Some v \<Rightarrow> Inr v | None \<Rightarrow> Inl ENOENT) \<and> d' = d
       else if call_command c = BPF_MAP_DELETE_ELEM then
         (if k \<in> dom (dict_map d) then r = Inr [] \<and> d' = d\<lparr>dict_map := (dict_map d)(k := None)\<rparr>
          else r = Inl ENOENT \<and> d' = d)
       else (case update_answer c d k of Some e \<Rightarrow> r = Inl e \<and> d' = d
         | None \<Rightarrow> r = Inr [] \<and> d' = d\<lparr>dict_map := (dict_map d)(k \<mapsto> call_value c)\<rparr>))"

text \<open>Walking a map: each call passes the key of the one before; \<open>None\<close> is running out of fuel.\<close>

fun walk_keys :: "nat \<Rightarrow> bpf_map \<Rightarrow> u8 list option \<Rightarrow> u8 list list option" where
  "walk_keys 0 m key = None"
| "walk_keys (Suc n) m key =
    (case fst (md_bpf_map_element True m BPF_MAP_GET_NEXT_KEY key [] 0) of
       Inl e \<Rightarrow> Some []
     | Inr k \<Rightarrow> map_option (\<lambda>ks. k # ks) (walk_keys n m (Some k)))"

lemmas bpf_constants = BPF_MAP_LOOKUP_ELEM_def BPF_MAP_UPDATE_ELEM_def BPF_MAP_DELETE_ELEM_def
  BPF_MAP_GET_NEXT_KEY_def BPF_NOEXIST_def BPF_EXIST_def

section \<open>Lists of entries\<close>

lemma concat_split: "i < length bs \<Longrightarrow> concat bs = concat (take i bs) @ bs ! i @ concat (drop (Suc i) bs)"
  by (subst id_take_nth_drop) simp_all

lemma concat_update:
  "i < length bs \<Longrightarrow> concat (bs[i := c]) = concat (take i bs) @ c @ concat (drop (Suc i) bs)"
  by (simp add: upd_conv_take_nth_drop)

lemma first_entry_concat: "first_entry bs = (case concat bs of [] \<Rightarrow> None | e # _ \<Rightarrow> Some e)"
  by (induction bs rule: first_entry.induct) auto

lemma map_of_drop_one:
  "distinct (map fst (xs @ p # ys)) \<Longrightarrow> map_of (xs @ ys) = (map_of (xs @ p # ys))(fst p := None)"
  by (induction xs) (auto simp: fun_eq_iff map_of_eq_None_iff)

lemma map_of_insert_one:
  "k \<notin> fst ` set (xs @ ys) \<Longrightarrow> map_of (xs @ (k, v) # ys) = (map_of (xs @ ys))(k \<mapsto> v)"
  by (induction xs) (auto simp: fun_eq_iff)

lemma map_of_replace_one:
  assumes "distinct (map fst (xs @ (k, w) # ys))"
  shows "map_of (xs @ (k, v) # ys) = (map_of (xs @ (k, w) # ys))(k \<mapsto> v)"
proof -
  have k: "k \<notin> fst ` set (xs @ ys)" using assms by auto
  show ?thesis unfolding map_of_insert_one [OF k] by simp
qed

section \<open>Finding an entry\<close>

declare dropWhile_eq_Nil_conv [simp del] takeWhile_eq_all_conv [simp del]

lemma bpf_bucket_less: "bucket k n < BPF_BUCKETS"
  by (simp add: bucket_def BPF_BUCKETS_def)

lemma map_okD:
  assumes "map_ok m"
  shows "length (map_buckets m) = BPF_BUCKETS" "distinct (map (stored_key m) (map_entries m))"
    and "unat (map_count m) = length (map_entries m)" "map_count m \<le> max_entries (map_info m)"
  using assms by (simp_all add: map_ok_def)

lemma map_ok_entry:
  assumes "map_ok m" "i < BPF_BUCKETS" "e \<in> set (map_buckets m ! i)"
  shows "length e = unat (key_size (map_info m)) + unat (value_size (map_info m))"
    and "bucket (stored_key m e) (unat (key_size (map_info m))) = i"
  using assms by (auto simp: map_ok_def)

lemma entry_bucket:
  assumes "map_ok m" "e \<in> set (map_entries m)"
  shows "e \<in> set (map_buckets m ! bucket (stored_key m e) (unat (key_size (map_info m))))"
proof -
  obtain b where b: "b \<in> set (map_buckets m)" "e \<in> set b"
    using assms(2) by (auto simp: map_entries_def)
  then obtain i where "i < BPF_BUCKETS" "b = map_buckets m ! i"
    using map_okD(1) [OF assms(1)] by (auto simp: in_set_conv_nth)
  with b map_ok_entry(2) [OF assms(1)] show ?thesis by blast
qed

lemma entry_length:
  assumes "map_ok m" "e \<in> set (map_entries m)"
  shows "length (stored_key m e) = unat (key_size (map_info m))"
  using map_ok_entry(1) [OF assms(1) bpf_bucket_less entry_bucket [OF assms]] by (simp add: stored_key_def)

lemma contents_dom: "dom (contents m) = stored_key m ` set (map_entries m)"
  by (force simp: contents_def entry_pair_def dom_map_of_conv_image_fst)

lemma contents_card: "map_ok m \<Longrightarrow> card (dom (contents m)) = unat (map_count m)"
  using distinct_card [OF map_okD(2), of m] by (simp add: contents_dom map_okD(3))

text \<open>Where the search of a chain ends: at its end, and the key is absent, or at the entry of the key.\<close>

lemma locate:
  fixes m k
  defines "ks \<equiv> unat (key_size (map_info m))"
  defines "chain \<equiv> map_buckets m ! bucket k ks"
  assumes ok: "map_ok m" and k: "length k = ks"
  obtains (absent) "takeWhile (\<lambda>e. \<not> entry_matches ks k e) chain = chain"
      "dropWhile (\<lambda>e. \<not> entry_matches ks k e) chain = []" "k \<notin> dom (contents m)"
  | (present) before e rest where "takeWhile (\<lambda>e. \<not> entry_matches ks k e) chain = before"
      "dropWhile (\<lambda>e. \<not> entry_matches ks k e) chain = e # rest" "chain = before @ e # rest"
      "stored_key m e = k" "k \<in> dom (contents m)"
proof (cases "dropWhile (\<lambda>e. \<not> entry_matches ks k e) chain")
  case Nil
  then have no: "\<forall>e \<in> set chain. stored_key m e \<noteq> k"
    using k by (auto simp: dropWhile_eq_Nil_conv entry_matches_def stored_key_def ks_def)
  have "k \<notin> dom (contents m)"
  proof
    assume "k \<in> dom (contents m)"
    then obtain e where e: "e \<in> set (map_entries m)" "stored_key m e = k" by (auto simp: contents_dom)
    then have "e \<in> set chain" using entry_bucket [OF ok e(1)] by (simp add: chain_def ks_def)
    with no e(2) show False by blast
  qed
  with Nil absent show thesis by (metis append.right_neutral takeWhile_dropWhile_id)
next
  case (Cons e rest)
  then have "entry_matches ks k e" using hd_dropWhile [of "\<lambda>e. \<not> entry_matches ks k e" chain] by auto
  then have e: "stored_key m e = k" using k by (simp add: entry_matches_def stored_key_def ks_def)
  have chain: "chain = takeWhile (\<lambda>e. \<not> entry_matches ks k e) chain @ e # rest"
    using Cons by (metis takeWhile_dropWhile_id)
  then have "e \<in> set chain" by (metis in_set_conv_decomp)
  moreover have "chain \<in> set (map_buckets m)"
    using bpf_bucket_less [of k ks] map_okD(1) [OF ok] by (simp add: chain_def)
  ultimately have "e \<in> set (map_entries m)" by (auto simp: map_entries_def)
  with e have "k \<in> dom (contents m)" by (auto simp: contents_dom)
  with present [OF refl Cons chain e] show thesis .
qed


section \<open>Changing a chain\<close>

definition chain_fits :: "bpf_map \<Rightarrow> nat \<Rightarrow> bpf_entry \<Rightarrow> bool" where
  "chain_fits m i e \<longleftrightarrow> length e = unat (key_size (map_info m)) + unat (value_size (map_info m))
     \<and> bucket (stored_key m e) (unat (key_size (map_info m))) = i"

lemma chain_fitsI: "map_ok m \<Longrightarrow> i < BPF_BUCKETS \<Longrightarrow> e \<in> set (map_buckets m ! i) \<Longrightarrow> chain_fits m i e"
  using map_ok_entry by (simp add: chain_fits_def)

lemma map_ok_update:
  assumes ok: "map_ok m" and i: "i < BPF_BUCKETS" and c: "\<forall>e \<in> set c. chain_fits m i e"
    and d: "distinct (map (stored_key m) (concat ((map_buckets m)[i := c])))"
    and n: "unat n = length (concat ((map_buckets m)[i := c]))" "n \<le> max_entries (map_info m)"
  shows "map_ok (m\<lparr>map_buckets := (map_buckets m)[i := c], map_count := n\<rparr>)"
proof -
  let ?m = "m\<lparr>map_buckets := (map_buckets m)[i := c], map_count := n\<rparr>"
  have key: "stored_key ?m = stored_key m" by (simp add: stored_key_def fun_eq_iff)
  have "chain_fits m j e" if "j < BPF_BUCKETS" "e \<in> set (map_buckets ?m ! j)" for j e
    using that c chain_fitsI [OF ok] map_okD(1) [OF ok] by (cases "j = i") auto
  then show ?thesis
    using d n map_okD(1) [OF ok] unfolding map_ok_def key by (auto simp: map_entries_def chain_fits_def)
qed

lemma contents_update:
  assumes "i < length (map_buckets m)"
  shows "contents (m\<lparr>map_buckets := (map_buckets m)[i := c], map_count := n\<rparr>)
    = map_of (map (entry_pair m)
        (concat (take i (map_buckets m)) @ c @ concat (drop (Suc i) (map_buckets m))))"
proof -
  have "entry_pair (m\<lparr>map_buckets := bs, map_count := n\<rparr>) = entry_pair m" for bs
    by (simp add: fun_eq_iff entry_pair_def stored_key_def)
  with assms show ?thesis by (simp add: contents_def map_entries_def concat_update)
qed

text \<open>The three changes of a chain, each with the dictionary it leads to.\<close>

lemma fst_entry_pair: "map fst (map (entry_pair m) es) = map (stored_key m) es"
  by (simp add: entry_pair_def)

lemma chain_frame:
  assumes "map_ok m"
  obtains A B where "map_entries m = A @ map_buckets m ! bucket k n @ B"
    "\<And>c. concat ((map_buckets m)[bucket k n := c]) = A @ c @ B"
    "\<And>c n'. contents (m\<lparr>map_buckets := (map_buckets m)[bucket k n := c], map_count := n'\<rparr>)
        = map_of (map (entry_pair m) (A @ c @ B))"
proof -
  have i: "bucket k n < length (map_buckets m)" using bpf_bucket_less map_okD(1) [OF assms] by simp
  show thesis
    by (rule that [of "concat (take (bucket k n) (map_buckets m))"
          "concat (drop (Suc (bucket k n)) (map_buckets m))"])
      (simp_all add: map_entries_def concat_split [OF i, symmetric] concat_update [OF i]
        contents_update [OF i] entry_pair_def)
qed

lemma chain_deleted:
  fixes m k
  defines "i \<equiv> bucket k (unat (key_size (map_info m)))"
  assumes ok: "map_ok m" and chain: "map_buckets m ! i = before @ e # rest" and e: "stored_key m e = k"
  shows "map_ok (m\<lparr>map_buckets := (map_buckets m)[i := before @ rest], map_count := map_count m - 1\<rparr>)"
    and "contents (m\<lparr>map_buckets := (map_buckets m)[i := before @ rest], map_count := map_count m - 1\<rparr>)
      = (contents m)(k := None)"
proof -
  obtain A B where f: "map_entries m = A @ map_buckets m ! i @ B"
      "\<And>c. concat ((map_buckets m)[i := c]) = A @ c @ B"
      "\<And>c n'. contents (m\<lparr>map_buckets := (map_buckets m)[i := c], map_count := n'\<rparr>)
        = map_of (map (entry_pair m) (A @ c @ B))"
    using chain_frame [OF ok] unfolding i_def by blast
  have es: "map_entries m = (A @ before) @ e # (rest @ B)" using f(1) chain by simp
  note d = map_okD(2) [OF ok, unfolded es]
  have n: "unat (map_count m) = Suc (length (A @ before @ rest @ B))" using map_okD(3) [OF ok] es by simp
  then have pos: "map_count m \<noteq> 0" by auto
  then have n': "unat (map_count m - 1) = length (A @ before @ rest @ B)"
    using n by (simp add: unat_minus_one)
  then have le: "map_count m - 1 \<le> max_entries (map_info m)"
    using map_okD(4) [OF ok] n by (simp add: word_le_nat_alt)
  have i: "i < BPF_BUCKETS" by (simp add: i_def bpf_bucket_less)
  have "\<forall>e \<in> set (before @ rest). chain_fits m i e" using chain_fitsI [OF ok i] chain by simp
  then show "map_ok (m\<lparr>map_buckets := (map_buckets m)[i := before @ rest], map_count := map_count m - 1\<rparr>)"
    using d n' le by (intro map_ok_update [OF ok i]) (simp_all add: f(2))
  have "distinct (map fst (map (entry_pair m) (A @ before) @ entry_pair m e # map (entry_pair m) (rest @ B)))"
    using d by (simp add: fst_entry_pair entry_pair_def image_comp comp_def)
  from map_of_drop_one [OF this] show "contents (m\<lparr>map_buckets := (map_buckets m)[i := before @ rest],
        map_count := map_count m - 1\<rparr>) = (contents m)(k := None)"
    unfolding f(3) contents_def [of m] es by (simp add: entry_pair_def e)
qed

lemma chain_inserted:
  fixes m k
  defines "ks \<equiv> unat (key_size (map_info m))" and "i \<equiv> bucket k (unat (key_size (map_info m)))"
  assumes ok: "map_ok m" and k: "length k = ks" "k \<notin> dom (contents m)"
    and v: "length v = unat (value_size (map_info m))" and room: "map_count m \<noteq> max_entries (map_info m)"
  shows "map_ok (m\<lparr>map_buckets := (map_buckets m)[i := map_buckets m ! i @ [k @ v]], map_count := map_count m + 1\<rparr>)"
    and "contents (m\<lparr>map_buckets := (map_buckets m)[i := map_buckets m ! i @ [k @ v]], map_count := map_count m + 1\<rparr>)
      = (contents m)(k \<mapsto> v)"
proof -
  obtain A B where f: "map_entries m = A @ map_buckets m ! i @ B"
      "\<And>c. concat ((map_buckets m)[i := c]) = A @ c @ B"
      "\<And>c n'. contents (m\<lparr>map_buckets := (map_buckets m)[i := c], map_count := n'\<rparr>)
        = map_of (map (entry_pair m) (A @ c @ B))"
    using chain_frame [OF ok] unfolding i_def by blast
  have key: "stored_key m (k @ v) = k" using k(1) by (simp add: stored_key_def ks_def)
  have fresh: "k \<notin> stored_key m ` set (map_entries m)" using k(2) by (simp add: contents_dom)
  have less: "map_count m < max_entries (map_info m)" using map_okD(4) [OF ok] room by simp
  have n: "unat (map_count m + 1) = Suc (length (map_entries m))"
    using unat_plus_one [OF less] map_okD(3) [OF ok] by simp
  have le: "map_count m + 1 \<le> max_entries (map_info m)" using less by (rule inc_le)
  have i: "i < BPF_BUCKETS" by (simp add: i_def bpf_bucket_less)
  have "chain_fits m i (k @ v)" using k(1) v key by (simp add: chain_fits_def i_def ks_def)
  then have "\<forall>e \<in> set (map_buckets m ! i @ [k @ v]). chain_fits m i e" using chain_fitsI [OF ok i] by auto
  then show "map_ok (m\<lparr>map_buckets := (map_buckets m)[i := map_buckets m ! i @ [k @ v]], map_count := map_count m + 1\<rparr>)"
    using map_okD(2) [OF ok] fresh n le
    by (intro map_ok_update [OF ok i]) (simp_all add: f key image_Un)
  have "k \<notin> fst ` set (map (entry_pair m) (A @ map_buckets m ! i) @ map (entry_pair m) B)"
    using fresh by (auto simp: f(1) entry_pair_def)
  from map_of_insert_one [OF this, of v]
  show "contents (m\<lparr>map_buckets := (map_buckets m)[i := map_buckets m ! i @ [k @ v]], map_count := map_count m + 1\<rparr>)
      = (contents m)(k \<mapsto> v)"
    unfolding f(3) contents_def [of m] f(1) using k(1) key by (simp add: entry_pair_def ks_def)
qed

lemma chain_replaced:
  fixes m k
  defines "ks \<equiv> unat (key_size (map_info m))" and "i \<equiv> bucket k (unat (key_size (map_info m)))"
  assumes ok: "map_ok m" and k: "length k = ks" and v: "length v = unat (value_size (map_info m))"
    and chain: "map_buckets m ! i = before @ e # rest" and e: "stored_key m e = k"
  shows "map_ok (m\<lparr>map_buckets := (map_buckets m)[i := before @ (k @ v) # rest], map_count := map_count m\<rparr>)"
    and "contents (m\<lparr>map_buckets := (map_buckets m)[i := before @ (k @ v) # rest], map_count := map_count m\<rparr>)
      = (contents m)(k \<mapsto> v)"
proof -
  obtain A B where f: "map_entries m = A @ map_buckets m ! i @ B"
      "\<And>c. concat ((map_buckets m)[i := c]) = A @ c @ B"
      "\<And>c n'. contents (m\<lparr>map_buckets := (map_buckets m)[i := c], map_count := n'\<rparr>)
        = map_of (map (entry_pair m) (A @ c @ B))"
    using chain_frame [OF ok] unfolding i_def by blast
  have key: "stored_key m (k @ v) = k" using k by (simp add: stored_key_def ks_def)
  have es: "map_entries m = (A @ before) @ e # (rest @ B)" using f(1) chain by simp
  note d = map_okD(2) [OF ok, unfolded es]
  have i: "i < BPF_BUCKETS" by (simp add: i_def bpf_bucket_less)
  have "chain_fits m i (k @ v)" using k v key by (simp add: chain_fits_def i_def ks_def)
  then have "\<forall>e \<in> set (before @ (k @ v) # rest). chain_fits m i e" using chain_fitsI [OF ok i] chain by auto
  then show "map_ok (m\<lparr>map_buckets := (map_buckets m)[i := before @ (k @ v) # rest], map_count := map_count m\<rparr>)"
    using d e map_okD(3,4) [OF ok] by (intro map_ok_update [OF ok i]) (simp_all add: f(2) key es)
  have "distinct (map fst (map (entry_pair m) (A @ before) @ (k, snd (entry_pair m e)) # map (entry_pair m) (rest @ B)))"
    using d e by (simp add: entry_pair_def image_comp comp_def)
  from map_of_replace_one [OF this, of v]
  show "contents (m\<lparr>map_buckets := (map_buckets m)[i := before @ (k @ v) # rest], map_count := map_count m\<rparr>)
      = (contents m)(k \<mapsto> v)"
    unfolding f(3) contents_def [of m] es using k key e by (simp add: entry_pair_def ks_def)
qed


section \<open>Every call against the dictionary\<close>

lemma dictionary_of_simps [simp]:
  "dict_info (dictionary_of m) = map_info m" "dict_map (dictionary_of m) = contents m"
  by (simp_all add: dictionary_of_def)

lemma contents_present:
  assumes "map_ok m" "map_buckets m ! bucket k (unat (key_size (map_info m))) = before @ e # rest"
    and "stored_key m e = k"
  shows "contents m k = Some (drop (unat (key_size (map_info m))) e)"
    and "length e = unat (key_size (map_info m)) + unat (value_size (map_info m))"
proof -
  let ?i = "bucket k (unat (key_size (map_info m)))"
  have e: "e \<in> set (map_buckets m ! ?i)" using assms(2) by simp
  then show "length e = unat (key_size (map_info m)) + unat (value_size (map_info m))"
    using map_ok_entry(1) [OF assms(1) bpf_bucket_less] by blast
  have "map_buckets m ! ?i \<in> set (map_buckets m)" using map_okD(1) [OF assms(1)] bpf_bucket_less by simp
  with e have "e \<in> set (map_entries m)" by (auto simp: map_entries_def)
  then have "(k, drop (unat (key_size (map_info m))) e) \<in> set (map (entry_pair m) (map_entries m))"
    using assms(3) by (auto simp: entry_pair_def)
  moreover have "distinct (map fst (map (entry_pair m) (map_entries m)))"
    using map_okD(2) [OF assms(1)] by (simp only: fst_entry_pair)
  ultimately show "contents m k = Some (drop (unat (key_size (map_info m))) e)"
    unfolding contents_def by (rule map_of_is_SomeI [rotated])
qed

text \<open>The order in which keys are enumerated is the order of the chains.\<close>

definition next_entry :: "bpf_map \<Rightarrow> u8 list option \<Rightarrow> bpf_entry option" where
  "next_entry m key = (case dropWhile (\<lambda>e. key \<noteq> Some (stored_key m e)) (map_entries m) of
     e # e' # _ \<Rightarrow> Some e' | [e] \<Rightarrow> None | [] \<Rightarrow> (case map_entries m of [] \<Rightarrow> None | e # _ \<Rightarrow> Some e))"

definition next_answer :: "bpf_map \<Rightarrow> u8 list option \<Rightarrow> u8 list result" where
  "next_answer m key = (case next_entry m key of Some e \<Rightarrow> Inr (stored_key m e) | None \<Rightarrow> Inl ENOENT)"

lemma next_entry_absent:
  assumes "\<And>k. key = Some k \<Longrightarrow> k \<notin> dom (contents m)"
  shows "next_entry m key = first_entry (map_buckets m)"
proof -
  have "dropWhile (\<lambda>e. key \<noteq> Some (stored_key m e)) (map_entries m) = []"
    using assms by (auto simp: dropWhile_eq_Nil_conv contents_dom)
  then show ?thesis
    unfolding next_entry_def first_entry_concat map_entries_def by simp
qed

lemma next_entry_split:
  assumes "map_entries m = A @ e # B" "distinct (map (stored_key m) (map_entries m))"
  shows "next_entry m (Some (stored_key m e)) = (case B of [] \<Rightarrow> None | e' # _ \<Rightarrow> Some e')"
proof -
  have "\<forall>x \<in> set A. stored_key m e \<noteq> stored_key m x" using assms by auto
  then have "dropWhile (\<lambda>x. Some (stored_key m e) \<noteq> Some (stored_key m x)) (map_entries m) = e # B"
    by (simp add: assms(1) dropWhile_append3)
  then show ?thesis unfolding next_entry_def by (simp split: list.splits)
qed

lemma get_next_key_answer:
  assumes ok: "map_ok m" and k: "\<And>k. key = Some k \<Longrightarrow> length k = unat (key_size (map_info m))"
  shows "md_bpf_map_element alloc m BPF_MAP_GET_NEXT_KEY key val 0 = (next_answer m key, m)"
proof (cases key)
  case None
  have "next_entry m None = first_entry (map_buckets m)" by (rule next_entry_absent) simp
  with None show ?thesis
    by (simp add: md_bpf_map_element_def bpf_constants next_answer_def stored_key_def split: option.splits)
next
  case (Some k)
  let ?ks = "unat (key_size (map_info m))"
  let ?i = "bucket k ?ks"
  have lk: "length k = ?ks" using k Some by simp
  show ?thesis
  proof (cases rule: locate [OF ok lk])
    case 1
    then have "next_entry m (Some k) = first_entry (map_buckets m)" by (intro next_entry_absent) simp
    with 1(2) Some show ?thesis
      by (simp add: md_bpf_map_element_def bpf_constants Let_def next_answer_def stored_key_def
          split: option.splits)
  next
    case (2 before e rest)
    have i: "?i < length (map_buckets m)" using bpf_bucket_less map_okD(1) [OF ok] by simp
    have es: "map_entries m = (concat (take ?i (map_buckets m)) @ before) @ e
        # (rest @ concat (drop (Suc ?i) (map_buckets m)))"
      using concat_split [OF i] 2(3) by (simp add: map_entries_def)
    have "next_entry m key = (case rest @ concat (drop (Suc ?i) (map_buckets m)) of [] \<Rightarrow> None | e' # _ \<Rightarrow> Some e')"
      using next_entry_split [OF es map_okD(2) [OF ok]] Some 2(4) by simp
    then show ?thesis using Some 2(1,2)
      by (cases rest) (simp_all add: md_bpf_map_element_def bpf_constants Let_def next_answer_def
          stored_key_def first_entry_concat split: option.splits)
  qed
qed


lemma next_answer_allowed:
  assumes "map_ok m"
  shows "next_allowed (contents m) key (next_answer m key)"
proof (cases "dropWhile (\<lambda>e. key \<noteq> Some (stored_key m e)) (map_entries m)")
  case Nil
  then have "next_entry m key = (case map_entries m of [] \<Rightarrow> None | e # _ \<Rightarrow> Some e)"
    unfolding next_entry_def by simp
  with Nil show ?thesis
    by (cases "map_entries m") (auto simp: next_allowed_def next_answer_def contents_dom split: if_splits)
next
  case (Cons e B)
  then obtain A where es: "map_entries m = A @ e # B" by (metis takeWhile_dropWhile_id)
  have key: "key = Some (stored_key m e)"
    using hd_dropWhile [of "\<lambda>e. key \<noteq> Some (stored_key m e)" "map_entries m"] Cons by simp
  have "next_entry m key = (case B of [] \<Rightarrow> None | e' # _ \<Rightarrow> Some e')"
    unfolding key by (rule next_entry_split [OF es map_okD(2) [OF assms]])
  with key es map_okD(2) [OF assms] show ?thesis
    by (cases B) (auto simp: next_allowed_def next_answer_def contents_dom)
qed

lemma lookup_answer:
  assumes ok: "map_ok m" and k: "length k = unat (key_size (map_info m))"
  shows "md_bpf_map_element alloc m BPF_MAP_LOOKUP_ELEM (Some k) val 0
    = (case contents m k of Some v \<Rightarrow> Inr v | None \<Rightarrow> Inl ENOENT, m)"
proof (cases rule: locate [OF ok k])
  case 1
  then have "contents m k = None" by auto
  with 1(2) show ?thesis
    by (simp add: md_bpf_map_element_def bpf_constants Let_def)
next
  case (2 before e rest)
  from contents_present [OF ok 2(3,4)] 2(2) show ?thesis
    by (simp add: md_bpf_map_element_def bpf_constants Let_def)
qed

lemma delete_answer:
  assumes ok: "map_ok m" and k: "length k = unat (key_size (map_info m))"
    and r: "md_bpf_map_element alloc m BPF_MAP_DELETE_ELEM (Some k) val 0 = (r, m')"
  shows "map_ok m' \<and> map_info m' = map_info m \<and> (if k \<in> dom (contents m)
    then r = Inr [] \<and> contents m' = (contents m)(k := None) else r = Inl ENOENT \<and> m' = m)"
proof (cases rule: locate [OF ok k])
  case 1
  with ok r show ?thesis
    by (auto simp: md_bpf_map_element_def bpf_constants Let_def)
next
  case (2 before e rest)
  with r have "r = Inr []" and m': "m' = m\<lparr>map_buckets := (map_buckets m)[bucket k (unat (key_size (map_info m)))
      := before @ rest], map_count := map_count m - 1\<rparr>"
    by (simp_all add: md_bpf_map_element_def bpf_constants Let_def)
  with chain_deleted [OF ok 2(3,4)] 2(5) show ?thesis by simp
qed

lemma update_absent:
  assumes ok: "map_ok m" and k: "length k = unat (key_size (map_info m))" "k \<notin> dom (contents m)"
    and v: "length v = unat (value_size (map_info m))" and f: "\<not> BPF_EXIST < flags" "flags \<noteq> BPF_EXIST"
    and r: "md_bpf_map_element alloc m BPF_MAP_UPDATE_ELEM (Some k) v flags = (r, m')"
  shows "map_ok m' \<and> map_info m' = map_info m \<and> (if map_count m = max_entries (map_info m)
    then r = Inl E2BIG \<and> m' = m else if \<not> alloc then r = Inl ENOMEM \<and> m' = m
    else r = Inr [] \<and> contents m' = (contents m)(k \<mapsto> v))"
proof (cases rule: locate [OF ok k(1)])
  case 1
  let ?i = "bucket k (unat (key_size (map_info m)))"
  have "md_bpf_map_element alloc m BPF_MAP_UPDATE_ELEM (Some k) v flags =
    (if map_count m = max_entries (map_info m) then (Inl E2BIG, m)
     else if \<not> alloc then (Inl ENOMEM, m)
     else (Inr [], m\<lparr>map_buckets := (map_buckets m)[?i := map_buckets m ! ?i @ [k @ v]], map_count := map_count m + 1\<rparr>))"
    using 1(1,2) k(1) v f
    by (simp add: md_bpf_map_element_def bpf_constants Let_def)
  with r ok chain_inserted [OF ok k v] show ?thesis by (auto split: if_splits)
qed (use k in simp)

lemma update_present:
  assumes ok: "map_ok m" and k: "length k = unat (key_size (map_info m))" "k \<in> dom (contents m)"
    and v: "length v = unat (value_size (map_info m))" and f: "\<not> BPF_EXIST < flags" "flags \<noteq> BPF_NOEXIST"
    and r: "md_bpf_map_element alloc m BPF_MAP_UPDATE_ELEM (Some k) v flags = (r, m')"
  shows "map_ok m' \<and> map_info m' = map_info m \<and> r = Inr [] \<and> contents m' = (contents m)(k \<mapsto> v)"
proof (cases rule: locate [OF ok k(1)])
  case (2 before e rest)
  let ?i = "bucket k (unat (key_size (map_info m)))"
  have "take (unat (key_size (map_info m))) e = k" using 2(4) by (simp add: stored_key_def)
  then have "md_bpf_map_element alloc m BPF_MAP_UPDATE_ELEM (Some k) v flags = (Inr [],
      m\<lparr>map_buckets := (map_buckets m)[?i := before @ (k @ v) # rest], map_count := map_count m\<rparr>)"
    using 2(1,2) v f by (simp add: md_bpf_map_element_def bpf_constants Let_def)
  with chain_replaced [OF ok k(1) v 2(3,4)] r show ?thesis by auto
qed (use k in simp)

definition update_refusal :: "(u8 list \<rightharpoonup> u8 list) \<Rightarrow> u8 list \<Rightarrow> u64 \<Rightarrow> errno option" where
  "update_refusal d k flags =
    (if k \<in> dom d \<and> flags = BPF_NOEXIST then Some EEXIST
     else if k \<notin> dom d \<and> flags = BPF_EXIST then Some ENOENT else None)"

lemma update_refused:
  assumes ok: "map_ok m" and k: "length k = unat (key_size (map_info m))"
    and e: "update_refusal (contents m) k flags = Some e"
  shows "md_bpf_map_element alloc m BPF_MAP_UPDATE_ELEM (Some k) v flags = (Inl e, m)"
proof (cases rule: locate [OF ok k])
  case 1
  with e show ?thesis
    by (auto simp: md_bpf_map_element_def update_refusal_def bpf_constants Let_def split: if_splits)
next
  case (2 before x rest)
  with e show ?thesis
    by (auto simp: md_bpf_map_element_def update_refusal_def bpf_constants Let_def split: if_splits)
qed

lemma update_refines:
  assumes ok: "map_ok m" and c: "\<not> call_invalid c" "call_command c = BPF_MAP_UPDATE_ELEM" "call_key c = Some k"
    and k: "length k = unat (key_size (map_info m))" and v: "length (call_value c) = unat (value_size (map_info m))"
    and r: "element_step c m = (r, m')"
  shows "map_ok m' \<and> dictionary_allows c (dictionary_of m) r (dictionary_of m')"
proof -
  have f: "\<not> BPF_EXIST < call_flags c" using c(1,2) by (auto simp: call_invalid_def bpf_constants)
  have r': "md_bpf_map_element (call_alloc c) m BPF_MAP_UPDATE_ELEM (Some k) (call_value c) (call_flags c) = (r, m')"
    using r c by (simp add: element_step_def)
  have allows: "dictionary_allows c (dictionary_of m) r d \<longleftrightarrow> (case update_answer c (dictionary_of m) k of
      Some e \<Rightarrow> r = Inl e \<and> d = dictionary_of m
    | None \<Rightarrow> r = Inr [] \<and> d = (dictionary_of m)\<lparr>dict_map := (contents m)(k \<mapsto> call_value c)\<rparr>)" for d
    using c by (simp add: dictionary_allows_def bpf_constants split: option.splits)
  have count: "card (dom (contents m)) = unat (max_entries (map_info m)) \<longleftrightarrow> map_count m = max_entries (map_info m)"
    using contents_card [OF ok] by (simp add: word_unat_eq_iff)
  consider (refused) e where "update_refusal (contents m) k (call_flags c) = Some e"
    | (present) "k \<in> dom (contents m)" "call_flags c \<noteq> BPF_NOEXIST"
    | (absent) "k \<notin> dom (contents m)" "call_flags c \<noteq> BPF_EXIST"
    unfolding update_refusal_def
    by (cases "k \<in> dom (contents m)"; cases "call_flags c = BPF_NOEXIST"; cases "call_flags c = BPF_EXIST") simp_all
  then show ?thesis
  proof cases
    case (refused e)
    with update_refused [OF ok k refused] r' ok show ?thesis
      unfolding allows by (auto simp: update_answer_def update_refusal_def split: if_splits)
  next
    case present
    with update_present [OF ok k present(1) v f present(2) r'] show ?thesis
      unfolding allows by (simp add: update_answer_def dictionary_of_def)
  next
    case absent
    with update_absent [OF ok k absent(1) v f absent(2) r'] count show ?thesis
      unfolding allows by (auto simp: update_answer_def dictionary_of_def split: if_splits)
  qed
qed

lemma keyed_refines:
  assumes ok: "map_ok m" and c: "\<not> call_invalid c" "call_command c \<noteq> BPF_MAP_GET_NEXT_KEY" "call_key c = Some k"
    and k: "length k = unat (key_size (map_info m))" and v: "length (call_value c) = unat (value_size (map_info m))"
    and r: "element_step c m = (r, m')"
  shows "map_ok m' \<and> dictionary_allows c (dictionary_of m) r (dictionary_of m')"
proof -
  have flags: "call_flags c = 0" if "call_command c \<noteq> BPF_MAP_UPDATE_ELEM"
    using c(1) that by (auto simp: call_invalid_def)
  consider "call_command c = BPF_MAP_LOOKUP_ELEM" | "call_command c = BPF_MAP_DELETE_ELEM"
    | "call_command c = BPF_MAP_UPDATE_ELEM"
    using c(1,2) by (auto simp: call_invalid_def)
  then show ?thesis
  proof cases
    case 1
    with flags r c lookup_answer [OF ok k] have "m' = m" "r = (case contents m k of Some v \<Rightarrow> Inr v | None \<Rightarrow> Inl ENOENT)"
      by (auto simp: element_step_def bpf_constants)
    with 1 c ok show ?thesis by (simp add: dictionary_allows_def)
  next
    case 2
    then have "md_bpf_map_element (call_alloc c) m BPF_MAP_DELETE_ELEM (Some k) (call_value c) 0 = (r, m')"
      using flags r c by (simp add: element_step_def bpf_constants)
    from delete_answer [OF ok k this] 2 c show ?thesis
      by (auto simp: dictionary_allows_def dictionary_of_def bpf_constants split: if_splits)
  next
    case 3
    show ?thesis by (rule update_refines [OF ok c(1) 3 c(3) k v r])
  qed
qed

lemma invalid_answer: "call_invalid c \<Longrightarrow> element_step c m = (Inl EINVAL, m)"
  unfolding call_invalid_def element_step_def md_bpf_map_element_def by (auto simp del: Let_def)

lemma null_answer:
  "\<not> call_invalid c \<Longrightarrow> call_command c \<noteq> BPF_MAP_GET_NEXT_KEY \<Longrightarrow> call_key c = None
    \<Longrightarrow> element_step c m = (Inl EFAULT, m)"
  unfolding call_invalid_def element_step_def md_bpf_map_element_def by (auto simp: Let_def)

lemma element_frame:
  "map_refs (snd (element_step c m)) = map_refs m \<and> map_reserved (snd (element_step c m)) = map_reserved m"
proof (cases "call_key c")
  case None
  show ?thesis
    unfolding element_step_def md_bpf_map_element_def Let_def None by (simp split: option.splits)
next
  case (Some k)
  let ?ks = "unat (key_size (map_info m))"
  define at where "at = dropWhile (\<lambda>e. \<not> entry_matches ?ks k e) (map_buckets m ! bucket k ?ks)"
  show ?thesis
    unfolding element_step_def md_bpf_map_element_def Let_def Some option.case at_def [symmetric]
    by (cases at) (simp_all split: option.splits)
qed

lemma element_refines:
  assumes ok: "map_ok m" and fits: "call_fits c (dictionary_of m)" and r: "element_step c m = (r, m')"
  shows "map_ok m' \<and> dictionary_allows c (dictionary_of m) r (dictionary_of m')"
proof -
  have same: ?thesis if "m' = m" "dictionary_allows c (dictionary_of m) r (dictionary_of m)"
    using ok that by simp
  consider (invalid) "call_invalid c" | (nextkey) "\<not> call_invalid c" "call_command c = BPF_MAP_GET_NEXT_KEY"
    | (null) "\<not> call_invalid c" "call_command c \<noteq> BPF_MAP_GET_NEXT_KEY" "call_key c = None"
    | (keyed) k where "\<not> call_invalid c" "call_command c \<noteq> BPF_MAP_GET_NEXT_KEY" "call_key c = Some k"
    by (cases "call_key c") blast+
  then show ?thesis
  proof cases
    case invalid
    with r invalid_answer show ?thesis by (intro same) (simp_all add: dictionary_allows_def)
  next
    case nextkey
    then have "call_flags c = 0" by (auto simp: call_invalid_def bpf_constants)
    with r nextkey fits have "r = next_answer m (call_key c)" "m' = m"
      using get_next_key_answer [OF ok, of "call_key c"] by (auto simp: element_step_def call_fits_def)
    with nextkey next_answer_allowed [OF ok] show ?thesis
      by (intro same) (simp_all add: dictionary_allows_def)
  next
    case null
    with r null_answer show ?thesis by (intro same) (simp_all add: dictionary_allows_def)
  next
    case (keyed k)
    with fits show ?thesis using keyed_refines [OF ok _ _ _ _ _ r] by (simp add: call_fits_def)
  qed
qed


section \<open>Sequences of calls\<close>

lemma dictionary_allows_info: "dictionary_allows c d r d' \<Longrightarrow> dict_info d' = dict_info d"
  by (auto simp: dictionary_allows_def split: if_splits option.splits)

interpretation bpf: simulation element_step map_ok dictionary_of dictionary_allows call_fits
proof
  show "map_ok s' \<and> dictionary_allows c (dictionary_of s) r (dictionary_of s')"
    if "map_ok s" "call_fits c (dictionary_of s)" "element_step c s = (r, s')" for s c r s'
    using that by (rule element_refines)
  show "call_fits b d' = call_fits b d" if "dictionary_allows c d r d'" for b c d r d'
    using dictionary_allows_info [OF that] by (simp add: call_fits_def)
qed

section \<open>Walking over the keys\<close>

lemma walk_suffix:
  assumes ok: "map_ok m" and es: "map_entries m = A @ e # B" and n: "length B < n"
  shows "walk_keys n m (Some (stored_key m e)) = Some (map (stored_key m) B)"
  using es n
proof (induction B arbitrary: A e n)
  case Nil
  note nx = next_entry_split [OF Nil(1) map_okD(2) [OF ok]]
  have "length (stored_key m e) = unat (key_size (map_info m))"
    using entry_length [OF ok] Nil(1) by simp
  then show ?case using Nil(2) nx get_next_key_answer [OF ok, of "Some (stored_key m e)"]
    by (cases n) (simp_all add: next_answer_def)
next
  case (Cons e' B)
  note nx = next_entry_split [OF Cons.prems(1) map_okD(2) [OF ok]]
  have "length (stored_key m e) = unat (key_size (map_info m))"
    using entry_length [OF ok] Cons.prems(1) by simp
  moreover obtain k where n: "n = Suc k" using Cons.prems(2) by (cases n) auto
  moreover have "walk_keys k m (Some (stored_key m e')) = Some (map (stored_key m) B)"
    using Cons.IH [of "A @ [e]" e' k] Cons.prems n by simp
  ultimately show ?case using nx get_next_key_answer [OF ok, of "Some (stored_key m e)"]
    by (simp add: next_answer_def)
qed

lemma walk_all:
  assumes ok: "map_ok m"
  shows "walk_keys (Suc (unat (map_count m))) m None = Some (map (stored_key m) (map_entries m))"
proof -
  have "next_entry m None = (case map_entries m of [] \<Rightarrow> None | e # _ \<Rightarrow> Some e)"
    using next_entry_absent [of None m] by (simp add: first_entry_concat map_entries_def)
  moreover have "walk_keys (unat (map_count m)) m (Some (stored_key m e)) = Some (map (stored_key m) B)"
    if "map_entries m = e # B" for e B
    using that map_okD(3) [OF ok] by (intro walk_suffix [OF ok, of "[]"]) simp_all
  ultimately show ?thesis using get_next_key_answer [OF ok, of None]
    by (cases "map_entries m") (simp_all add: next_answer_def)
qed

definition fresh_map :: "bpf_map_info \<Rightarrow> u64 \<Rightarrow> bpf_map" where
  "fresh_map info n = \<lparr>map_info = info, map_refs = 1, map_count = 0, map_reserved = n,
     map_buckets = replicate BPF_BUCKETS []\<rparr>"

lemma fresh_map_ok: "map_ok (fresh_map info n)" "contents (fresh_map info n) = Map.empty"
  by (simp_all add: fresh_map_def map_ok_def map_entries_def contents_def concat_replicate_trivial)

lemma fresh_map_simps [simp]:
  "map_info (fresh_map info n) = info" "map_refs (fresh_map info n) = 1" "map_reserved (fresh_map info n) = n"
  by (simp_all add: fresh_map_def)

section \<open>Properties\<close>

text \<open>
  C8: the elements of a map behave as a bounded dictionary. Over any sequence of calls with buffers of
  the sizes of the map, every answer is the one the dictionary allows: a lookup gives the value last
  stored, an update obeys its flags, the limit on entries and the allocator, a deletion removes the
  key, an enumeration gives another key that is there, and a refused call changes nothing.
\<close>

theorem bpf_map_dictionary:
  assumes "map_ok m" "\<forall>c \<in> set cs. call_fits c (dictionary_of m)"
  shows "map_ok (snd (run_calls element_step cs m))
    \<and> run_allowed dictionary_allows cs (fst (run_calls element_step cs m))
        (dictionary_of m) (dictionary_of (snd (run_calls element_step cs m)))"
  using assms by (rule bpf.run_refines)

definition demo_info :: bpf_map_info where
  "demo_info = \<lparr>map_type = 1, map_id = 0, key_size = 1, value_size = 1, max_entries = 2, map_flags = 0,
     map_name = replicate 16 0\<rparr>"

definition demo_elements :: "element_call list" where
  "demo_elements =
    [\<lparr>call_alloc = True, call_command = BPF_MAP_UPDATE_ELEM, call_key = Some [7], call_value = [9], call_flags = 0\<rparr>,
     \<lparr>call_alloc = True, call_command = BPF_MAP_LOOKUP_ELEM, call_key = Some [7], call_value = [0], call_flags = 0\<rparr>]"

theorem bpf_map_dictionary_witness:
  "fst (run_calls element_step demo_elements (fresh_map demo_info 0)) = [Inr [], Inr [9]]
   \<and> map_ok (snd (run_calls element_step demo_elements (fresh_map demo_info 0)))"
proof -
  have "\<forall>c \<in> set demo_elements. call_fits c (dictionary_of (fresh_map demo_info 0))"
    by (simp add: demo_elements_def call_fits_def demo_info_def)
  from bpf_map_dictionary [OF fresh_map_ok(1) this] show ?thesis
    by (simp add: demo_elements_def element_step_def md_bpf_map_element_def bpf_constants fresh_map_def
        demo_info_def bucket_def BPF_BUCKETS_def entry_matches_def Let_def)
qed

text \<open>
  Enumerating a map ends and is complete. Starting with no key and passing each key on to the next
  call, the enumeration returns, within one call more than there are entries, and has then given every
  key of the map exactly once.
\<close>

theorem bpf_walk_complete:
  assumes "map_ok m"
  shows "\<exists>ks. walk_keys (Suc (unat (map_count m))) m None = Some ks \<and> distinct ks \<and> set ks = dom (contents m)"
  using walk_all [OF assms] map_okD(2) [OF assms] by (simp add: contents_dom)

theorem bpf_walk_complete_witness:
  "\<exists>ks. walk_keys 1 (fresh_map demo_info 0) None = Some ks \<and> distinct ks
    \<and> set ks = dom (contents (fresh_map demo_info 0))"
  using bpf_walk_complete [OF fresh_map_ok(1) [of demo_info 0]] by (simp add: fresh_map_def)

end
