(* ===== verification/Bpf_Registry.thy ===== *)
theory Bpf_Registry
  imports Bpf_Map
begin

unbundle bit_operations_syntax

text \<open>
  The registry of the maps of a launch, from \<^verbatim>\<open>src/native/shroot/src/bpf_map.c\<close> with the limits of
  \<^verbatim>\<open>bpf_request.h\<close>. A map is named by its address and lives while it is on the list of the registry.
  What \<open>calloc\<close> answers is an argument of the operations that call it, and so is the size of a map
  without its entries, which depends on the kernel headers. Functions that return at once on a null
  registry or map are modelled on the others.
\<close>

section \<open>Data\<close>

definition MAP_LIMIT :: u32 where "MAP_LIMIT = 4096"
definition MEMORY_LIMIT :: u64 where "MEMORY_LIMIT = 64 * 1024 * 1024"
definition MD_BPF_MAP_KEY_MAX :: u32 where "MD_BPF_MAP_KEY_MAX = 512"
definition MD_BPF_MAP_VALUE_MAX :: u32 where "MD_BPF_MAP_VALUE_MAX = 4096"
definition BPF_MAP_TYPE_HASH :: u32 where "BPF_MAP_TYPE_HASH = 1"
definition BPF_F_NO_PREALLOC :: u32 where "BPF_F_NO_PREALLOC = 1"
definition SIZEOF_ENTRY :: u64 where "SIZEOF_ENTRY = 8"

record bpf_maps =
  maps_refs :: u32
  maps_first :: "(nat \<times> bpf_map) list"
  maps_next :: u32
  maps_count :: u32
  maps_reserved :: u64

section \<open>The registry of maps\<close>

definition md_bpf_maps_new :: "bool \<Rightarrow> errno option \<Rightarrow> bpf_maps result" where
  "md_bpf_maps_new alloc mutex =
    (if \<not> alloc then Inl ENOMEM
     else case mutex of Some r \<Rightarrow> Inl r
     | None \<Rightarrow> Inr \<lparr>maps_refs = 1, maps_first = [], maps_next = 0, maps_count = 0, maps_reserved = 0\<rparr>)"

definition md_bpf_maps_retain :: "bpf_maps \<Rightarrow> bpf_maps" where
  "md_bpf_maps_retain p = p\<lparr>maps_refs := maps_refs p + 1\<rparr>"

text \<open>The registry is freed when the count drops to zero; a state with count zero stands for that.\<close>

definition md_bpf_maps_release :: "bpf_maps \<Rightarrow> bpf_maps" where
  "md_bpf_maps_release p = p\<lparr>maps_refs := maps_refs p - 1\<rparr>"

definition name_char :: "u8 \<Rightarrow> bool" where
  "name_char c \<longleftrightarrow> 97 \<le> c \<and> c \<le> 122 \<or> 65 \<le> c \<and> c \<le> 90 \<or> 48 \<le> c \<and> c \<le> 57 \<or> c = 95 \<or> c = 46"

definition map_info_check :: "bpf_map_info \<Rightarrow> errno option" where
  "map_info_check info =
    (if map_type info = 0 then Some EINVAL
     else if map_type info \<noteq> BPF_MAP_TYPE_HASH \<or> map_flags info AND NOT BPF_F_NO_PREALLOC \<noteq> 0 then Some EOPNOTSUPP
     else if key_size info = 0 \<or> value_size info = 0 \<or> max_entries info = 0 then Some EINVAL
     else if MD_BPF_MAP_KEY_MAX < key_size info \<or> MD_BPF_MAP_VALUE_MAX < value_size info
        \<or> 65536 < max_entries info then Some E2BIG
     else if 0 \<notin> set (map_name info) then Some EINVAL
     else if \<not> list_all name_char (takeWhile (\<lambda>c. c \<noteq> 0) (map_name info)) then Some EINVAL
     else None)"

definition reservation :: "u64 \<Rightarrow> bpf_map_info \<Rightarrow> u64" where
  "reservation sizeof_map info =
     sizeof_map + (SIZEOF_ENTRY + ucast (key_size info) + ucast (value_size info)) * ucast (max_entries info)"

definition md_bpf_map_new ::
  "u64 \<Rightarrow> nat option \<Rightarrow> bpf_maps \<Rightarrow> bpf_map_info \<Rightarrow> nat result \<times> bpf_maps" where
  "md_bpf_map_new sizeof_map alloc p info =
    (case map_info_check info of Some e \<Rightarrow> (Inl e, p) | None \<Rightarrow>
     case alloc of None \<Rightarrow> (Inl ENOMEM, p) | Some a \<Rightarrow>
     if maps_count p = MAP_LIMIT \<or> maps_next p = UINT32_MAX then (Inl ENOSPC, p)
     else if MEMORY_LIMIT - maps_reserved p < reservation sizeof_map info then (Inl ENOMEM, p)
     else
       let m = \<lparr>map_info = info\<lparr>map_id := maps_next p + 1\<rparr>, map_refs = 1, map_count = 0,
             map_reserved = reservation sizeof_map info, map_buckets = replicate BPF_BUCKETS []\<rparr>
       in (Inr a, md_bpf_maps_retain (p\<lparr>maps_next := maps_next p + 1, maps_first := (a, m) # maps_first p,
             maps_count := maps_count p + 1, maps_reserved := maps_reserved p + map_reserved m\<rparr>)))"

definition put_map :: "nat \<Rightarrow> bpf_map \<Rightarrow> bpf_maps \<Rightarrow> bpf_maps" where
  "put_map a m p = p\<lparr>maps_first := map (\<lambda>(b, n). (b, if b = a then m else n)) (maps_first p)\<rparr>"

definition md_bpf_map_retain :: "nat \<Rightarrow> bpf_maps \<Rightarrow> bpf_maps" where
  "md_bpf_map_retain a p = (case map_of (maps_first p) a of
     None \<Rightarrow> p | Some m \<Rightarrow> put_map a (m\<lparr>map_refs := map_refs m + 1\<rparr>) p)"

definition md_bpf_map_release :: "nat \<Rightarrow> bpf_maps \<Rightarrow> bpf_maps" where
  "md_bpf_map_release a p = (case map_of (maps_first p) a of
     None \<Rightarrow> p
   | Some m \<Rightarrow>
       if map_refs m - 1 = 0 then
         md_bpf_maps_release (p\<lparr>maps_first := filter (\<lambda>(b, n). b \<noteq> a) (maps_first p),
           maps_count := maps_count p - 1, maps_reserved := maps_reserved p - map_reserved m\<rparr>)
       else put_map a (m\<lparr>map_refs := map_refs m - 1\<rparr>) p)"

definition md_bpf_map_find :: "u32 \<Rightarrow> bpf_maps \<Rightarrow> nat option \<times> bpf_maps" where
  "md_bpf_map_find i p = (case find (\<lambda>(a, m). map_id (map_info m) = i) (maps_first p) of
     None \<Rightarrow> (None, p) | Some (a, m) \<Rightarrow> (Some a, put_map a (m\<lparr>map_refs := map_refs m + 1\<rparr>) p))"

definition md_bpf_map_info :: "nat \<Rightarrow> bpf_maps \<Rightarrow> bpf_map_info option" where
  "md_bpf_map_info a p = map_option map_info (map_of (maps_first p) a)"

definition info_ok :: "bpf_map_info \<Rightarrow> bool" where
  "info_ok info \<longleftrightarrow> map_info_check info = None"

section \<open>The registry under any history of calls\<close>

text \<open>
  One call of a client. \<open>calloc\<close> returns memory that is not in use; a client passes maps that exist,
  buffers of the sizes of the map, and gives back the registry only when it holds a reference that is
  not one of the maps'. No count of references reaches its 32-bit limit.
\<close>

inductive maps_step :: "u64 \<Rightarrow> bpf_maps \<Rightarrow> bpf_maps \<Rightarrow> bool" for sizeof_map where
  create: "maps_refs p \<noteq> 0 \<Longrightarrow> maps_refs p \<noteq> UINT32_MAX \<Longrightarrow> \<forall>a. alloc = Some a \<longrightarrow> a \<notin> fst ` set (maps_first p)
    \<Longrightarrow> maps_step sizeof_map p (snd (md_bpf_map_new sizeof_map alloc p info))"
| retain: "map_of (maps_first p) a = Some m \<Longrightarrow> map_refs m \<noteq> UINT32_MAX
    \<Longrightarrow> maps_step sizeof_map p (md_bpf_map_retain a p)"
| release: "map_of (maps_first p) a = Some m \<Longrightarrow> maps_step sizeof_map p (md_bpf_map_release a p)"
| find: "\<forall>(a, m) \<in> set (maps_first p). map_refs m \<noteq> UINT32_MAX
    \<Longrightarrow> maps_step sizeof_map p (snd (md_bpf_map_find i p))"
| element: "map_of (maps_first p) a = Some m \<Longrightarrow> call_fits c (dictionary_of m)
    \<Longrightarrow> maps_step sizeof_map p (put_map a (snd (element_step c m)) p)"
| maps_retain: "maps_refs p \<noteq> 0 \<Longrightarrow> maps_refs p \<noteq> UINT32_MAX \<Longrightarrow> maps_step sizeof_map p (md_bpf_maps_retain p)"
| maps_release: "length (maps_first p) < unat (maps_refs p) \<Longrightarrow> maps_step sizeof_map p (md_bpf_maps_release p)"

definition member_ok :: "u64 \<Rightarrow> u32 \<Rightarrow> bpf_map \<Rightarrow> bool" where
  "member_ok sizeof_map bound m \<longleftrightarrow> map_ok m \<and> info_ok (map_info m) \<and> map_refs m \<noteq> 0
     \<and> map_id (map_info m) \<noteq> 0 \<and> map_id (map_info m) \<le> bound
     \<and> map_reserved m = reservation sizeof_map (map_info m)"

definition map_ids :: "bpf_maps \<Rightarrow> u32 list" where
  "map_ids p = map (\<lambda>(a, m). map_id (map_info m)) (maps_first p)"

definition reserved_sum :: "(nat \<times> bpf_map) list \<Rightarrow> nat" where
  "reserved_sum xs = (\<Sum>(a, m) \<leftarrow> xs. unat (map_reserved m))"

definition registry_ok :: "u64 \<Rightarrow> bpf_maps \<Rightarrow> bool" where
  "registry_ok sizeof_map p \<longleftrightarrow> distinct (map fst (maps_first p)) \<and> distinct (map_ids p)
     \<and> (\<forall>(a, m) \<in> set (maps_first p). member_ok sizeof_map (maps_next p) m)
     \<and> unat (maps_count p) = length (maps_first p) \<and> maps_count p \<le> MAP_LIMIT
     \<and> unat (maps_reserved p) = reserved_sum (maps_first p) \<and> maps_reserved p \<le> MEMORY_LIMIT
     \<and> length (maps_first p) \<le> unat (maps_refs p)"

text \<open>What a map with all its entries takes.\<close>

definition map_memory :: "u64 \<Rightarrow> bpf_map \<Rightarrow> nat" where
  "map_memory sizeof_map m = unat sizeof_map + length (map_entries m)
     * (8 + unat (key_size (map_info m)) + unat (value_size (map_info m)))"

lemma registry_okD:
  assumes "registry_ok sz p"
  shows "distinct (map fst (maps_first p))" "distinct (map_ids p)"
    and "\<And>a m. (a, m) \<in> set (maps_first p) \<Longrightarrow> member_ok sz (maps_next p) m"
    and "unat (maps_count p) = length (maps_first p)" "maps_count p \<le> MAP_LIMIT"
    and "unat (maps_reserved p) = reserved_sum (maps_first p)" "maps_reserved p \<le> MEMORY_LIMIT"
    and "length (maps_first p) \<le> unat (maps_refs p)"
  using assms by (auto simp: registry_ok_def)

lemma put_map_simps [simp]:
  "maps_first (put_map a m p) = map (\<lambda>(b, n). (b, if b = a then m else n)) (maps_first p)"
  "maps_next (put_map a m p) = maps_next p" "maps_count (put_map a m p) = maps_count p"
  "maps_reserved (put_map a m p) = maps_reserved p" "maps_refs (put_map a m p) = maps_refs p"
  by (simp_all add: put_map_def)

lemma put_map_member:
  assumes "registry_ok sz p" "map_of (maps_first p) a = Some m"
    and m': "member_ok sz (maps_next p) m'" "map_info m' = map_info m"
  shows "registry_ok sz (put_map a m' p)"
proof -
  let ?f = "\<lambda>(b, n). (b, if b = a then m' else n)"
  have d: "distinct (map fst (maps_first p))" using assms(1) by (simp add: registry_ok_def)
  have m: "n = m" if "(a, n) \<in> set (maps_first p)" for n
    using that d assms(2) by (metis map_of_eq_Some_iff option.inject)
  have mm: "member_ok sz (maps_next p) m"
    using assms(1) map_of_SomeD [OF assms(2)] by (auto simp: registry_ok_def)
  then have res: "map_reserved m' = map_reserved m" using m' by (simp add: member_ok_def)
  have ids: "map_ids (put_map a m' p) = map_ids p"
    using m m'(2) by (auto simp: map_ids_def)
  have sum: "reserved_sum (map ?f (maps_first p)) = reserved_sum (maps_first p)"
    unfolding reserved_sum_def map_map using m res by (intro arg_cong [of _ _ sum_list] map_cong) auto
  show ?thesis using assms(1) m'(1) ids sum
    unfolding registry_ok_def by (auto simp: comp_def case_prod_beta)
qed


lemma member_ok_refs:
  "member_ok sz b m \<Longrightarrow> r \<noteq> 0 \<Longrightarrow> member_ok sz b (m\<lparr>map_refs := r\<rparr>)"
  by (simp add: member_ok_def map_ok_def map_entries_def stored_key_def [abs_def])

lemma refs_up: "r \<noteq> UINT32_MAX \<Longrightarrow> (r :: u32) + 1 \<noteq> 0"
  by (auto simp: neq_UINT32_MAX_iff UINT32_MAX_def eq_neg_iff_add_eq_0 [symmetric])

lemma neq_UINT32_MAX_less: "(r :: u32) \<noteq> UINT32_MAX \<longleftrightarrow> r < UINT32_MAX"
  by (simp add: neq_UINT32_MAX_iff word_less_nat_alt unat_UINT32_MAX)

lemma less_Suc_word: "(r :: u32) \<noteq> UINT32_MAX \<Longrightarrow> r < r + 1"
  using unat_plus_one [of r UINT32_MAX] by (simp add: neq_UINT32_MAX_less word_less_nat_alt)

lemma reserve_sum:
  fixes x y :: u64
  assumes "x \<le> MEMORY_LIMIT" "\<not> MEMORY_LIMIT - x < y"
  shows "unat (x + y) = unat x + unat y" "x + y \<le> MEMORY_LIMIT"
proof -
  have "unat y \<le> unat MEMORY_LIMIT - unat x"
    using assms by (simp add: word_less_nat_alt unat_sub)
  moreover have "unat x \<le> unat MEMORY_LIMIT" using assms(1) by (simp add: word_le_nat_alt)
  moreover have "unat MEMORY_LIMIT = 67108864" by (simp add: MEMORY_LIMIT_def)
  ultimately show "unat (x + y) = unat x + unat y" "x + y \<le> MEMORY_LIMIT"
    by (simp_all add: unat_word_ariths word_le_nat_alt)
qed

lemma registry_member:
  assumes "registry_ok sz p" "map_of (maps_first p) a = Some m"
  shows "member_ok sz (maps_next p) m"
  using assms map_of_SomeD [OF assms(2)] by (auto simp: registry_ok_def)

lemma retain_registry:
  assumes "registry_ok sz p" "map_of (maps_first p) a = Some m" "map_refs m \<noteq> UINT32_MAX"
  shows "registry_ok sz (put_map a (m\<lparr>map_refs := map_refs m + 1\<rparr>) p)"
  using assms registry_member member_ok_refs refs_up by (intro put_map_member) auto

lemma find_registry:
  assumes ok: "registry_ok sz p" and refs: "\<forall>(a, m) \<in> set (maps_first p). map_refs m \<noteq> UINT32_MAX"
  shows "registry_ok sz (snd (md_bpf_map_find i p))"
proof (cases "find (\<lambda>(a, m). map_id (map_info m) = i) (maps_first p)")
  case None
  with ok show ?thesis by (simp add: md_bpf_map_find_def)
next
  case (Some am)
  then obtain a m where am: "am = (a, m)" "(a, m) \<in> set (maps_first p)" using find_SomeD by (cases am) fastforce
  then have "map_of (maps_first p) a = Some m" using ok by (simp add: registry_ok_def)
  with retain_registry [OF ok] refs am Some show ?thesis by (auto simp: md_bpf_map_find_def)
qed

lemma element_registry:
  assumes ok: "registry_ok sz p" and a: "map_of (maps_first p) a = Some m" and c: "call_fits c (dictionary_of m)"
  shows "registry_ok sz (put_map a (snd (element_step c m)) p)"
proof -
  have m: "member_ok sz (maps_next p) m" by (rule registry_member [OF ok a])
  obtain r m' where st: "element_step c m = (r, m')" by fastforce
  have "map_ok m'" "map_info m' = map_info m"
    using element_refines [OF _ c st] m dictionary_allows_info by (fastforce simp: member_ok_def)+
  moreover have "map_refs m' = map_refs m" "map_reserved m' = map_reserved m"
    using element_frame [of c m] st by simp_all
  ultimately have "member_ok sz (maps_next p) m'" using m by (simp add: member_ok_def)
  with put_map_member [OF ok a] \<open>map_info m' = map_info m\<close> st show ?thesis by simp
qed

lemma maps_refs_registry:
  "registry_ok sz p \<Longrightarrow> length (maps_first p) \<le> unat r \<Longrightarrow> registry_ok sz (p\<lparr>maps_refs := r\<rparr>)"
  by (simp add: registry_ok_def map_ids_def)


lemma info_id_simps [simp]:
  "map_info_check (info\<lparr>map_id := i\<rparr>) = map_info_check info"
  "reservation sz (info\<lparr>map_id := i\<rparr>) = reservation sz info"
  by (simp_all add: map_info_check_def reservation_def)

lemma create_registry:
  assumes ok: "registry_ok sz p" and refs: "maps_refs p \<noteq> UINT32_MAX"
    and a: "\<forall>a. alloc = Some a \<longrightarrow> a \<notin> fst ` set (maps_first p)"
  shows "registry_ok sz (snd (md_bpf_map_new sz alloc p info))"
proof (cases "snd (md_bpf_map_new sz alloc p info) = p")
  case False
  let ?n = "maps_next p + 1"
  let ?m = "fresh_map (info\<lparr>map_id := ?n\<rparr>) (reservation sz info)"
  let ?p = "p\<lparr>maps_refs := maps_refs p + 1, maps_next := ?n, maps_first := (the alloc, ?m) # maps_first p,
      maps_count := maps_count p + 1, maps_reserved := maps_reserved p + reservation sz info\<rparr>"
  from False have c: "map_info_check info = None" "alloc \<noteq> None" "maps_count p \<noteq> MAP_LIMIT"
      "maps_next p \<noteq> UINT32_MAX" "\<not> MEMORY_LIMIT - maps_reserved p < reservation sz info"
    and p': "snd (md_bpf_map_new sz alloc p info) = ?p"
    by (auto simp: md_bpf_map_new_def md_bpf_maps_retain_def fresh_map_def Let_def split: option.splits if_splits)
  have count: "maps_count p < MAP_LIMIT" using registry_okD(5) [OF ok] c(3) by simp
  then have count': "unat (maps_count p + 1) = Suc (length (maps_first p))" "maps_count p + 1 \<le> MAP_LIMIT"
    using unat_plus_one registry_okD(4) [OF ok] by (simp_all add: inc_le)
  have nxt: "maps_next p < ?n" using c(4) by (simp add: less_Suc_word)
  have id0: "?n \<noteq> 0" using nxt by auto
  have older: "member_ok sz ?n m \<and> map_id (map_info m) \<noteq> ?n" if "(b, m) \<in> set (maps_first p)" for b m
    using registry_okD(3) [OF ok that] nxt by (auto simp: member_ok_def)
  have ids: "?n \<notin> set (map_ids p)" using older by (fastforce simp: map_ids_def)
  have res: "unat (maps_reserved p + reservation sz info) = unat (reservation sz info) + reserved_sum (maps_first p)"
    "maps_reserved p + reservation sz info \<le> MEMORY_LIMIT"
    using reserve_sum [OF registry_okD(7) [OF ok] c(5)] registry_okD(6) [OF ok] by simp_all
  have new: "member_ok sz ?n ?m"
    using c(1) id0 fresh_map_ok by (simp add: member_ok_def info_ok_def)
  have "Suc (length (maps_first p)) \<le> unat (maps_refs p + 1)"
    using registry_okD(8) [OF ok] refs unat_plus_one [of "maps_refs p" UINT32_MAX] by (simp add: neq_UINT32_MAX_less)
  then show ?thesis
    using ok a c(2) count' ids older res new unfolding p' registry_ok_def
    by (auto simp: map_ids_def reserved_sum_def)
qed (use ok in simp)

lemma release_registry:
  assumes ok: "registry_ok sz p" and a: "map_of (maps_first p) a = Some m"
  shows "registry_ok sz (md_bpf_map_release a p)"
proof (cases "map_refs m - 1 = 0")
  case False
  have "registry_ok sz (put_map a (m\<lparr>map_refs := map_refs m - 1\<rparr>) p)"
    using registry_member [OF ok a] member_ok_refs [OF _ False] by (intro put_map_member [OF ok a]) auto
  with a False show ?thesis by (simp add: md_bpf_map_release_def)
next
  case True
  obtain xs ys where f: "maps_first p = xs @ (a, m) # ys" using map_of_SomeD [OF a] by (metis split_list)
  have d: "a \<notin> fst ` set xs" "a \<notin> fst ` set ys" using ok f by (auto simp: registry_ok_def)
  then have "filter (\<lambda>(b, n). b \<noteq> a) xs = xs" "filter (\<lambda>(b, n). b \<noteq> a) ys = ys"
    by (force simp: filter_id_conv)+
  then have flt: "filter (\<lambda>(b, n). b \<noteq> a) (maps_first p) = xs @ ys" unfolding f by simp
  have c: "unat (maps_count p - 1) = length (xs @ ys)" "maps_count p - 1 \<le> MAP_LIMIT"
    and r: "unat (maps_reserved p - map_reserved m) = reserved_sum (xs @ ys)"
      "maps_reserved p - map_reserved m \<le> MEMORY_LIMIT"
    and l: "length (xs @ ys) \<le> unat (maps_refs p - 1)"
  proof -
    have n: "unat (maps_count p) = Suc (length (xs @ ys))" using registry_okD(4) [OF ok] f by simp
    then have "maps_count p \<noteq> 0" by auto
    with n show "unat (maps_count p - 1) = length (xs @ ys)" by (simp add: unat_minus_one)
    with n show "maps_count p - 1 \<le> MAP_LIMIT" using registry_okD(5) [OF ok] by (simp add: word_le_nat_alt)
    have s: "unat (maps_reserved p) = unat (map_reserved m) + reserved_sum (xs @ ys)"
      using registry_okD(6) [OF ok] f by (simp add: reserved_sum_def)
    then have "map_reserved m \<le> maps_reserved p" by (simp add: word_le_nat_alt)
    with s show "unat (maps_reserved p - map_reserved m) = reserved_sum (xs @ ys)" by (simp add: unat_sub)
    with s show "maps_reserved p - map_reserved m \<le> MEMORY_LIMIT"
      using registry_okD(7) [OF ok] by (simp add: word_le_nat_alt)
    have "Suc (length (xs @ ys)) \<le> unat (maps_refs p)" using registry_okD(8) [OF ok] f by simp
    moreover from this have "maps_refs p \<noteq> 0" by auto
    ultimately show "length (xs @ ys) \<le> unat (maps_refs p - 1)" by (simp add: unat_minus_one)
  qed
  moreover have "md_bpf_map_release a p = p\<lparr>maps_refs := maps_refs p - 1, maps_first := xs @ ys,
      maps_count := maps_count p - 1, maps_reserved := maps_reserved p - map_reserved m\<rparr>"
    by (simp add: md_bpf_map_release_def a True flt md_bpf_maps_release_def)
  ultimately show ?thesis using ok d by (simp add: registry_ok_def map_ids_def f)
qed


lemma step_registry [inv_intros]:
  assumes "maps_step sz p q" "registry_ok sz p"
  shows "registry_ok sz q"
  using assms
proof cases
  case (retain a m)
  with assms(2) retain_registry show ?thesis by (simp add: md_bpf_map_retain_def)
next
  case maps_retain
  have "length (maps_first p) \<le> unat (maps_refs p + 1)"
    using registry_okD(8) [OF assms(2)] unat_plus_one [of "maps_refs p" UINT32_MAX] maps_retain
    by (simp add: neq_UINT32_MAX_less)
  with maps_retain assms(2) show ?thesis by (simp add: md_bpf_maps_retain_def maps_refs_registry)
next
  case maps_release
  then have "maps_refs p \<noteq> 0" by auto
  then have "length (maps_first p) \<le> unat (maps_refs p - 1)" using maps_release by (simp add: unat_minus_one)
  with maps_release assms(2) show ?thesis by (simp add: md_bpf_maps_release_def maps_refs_registry)
qed (use assms(2) create_registry release_registry find_registry element_registry in blast)+

lemma new_registry: "md_bpf_maps_new alloc mutex = Inr p \<Longrightarrow> registry_ok sz p"
  by (auto simp: md_bpf_maps_new_def registry_ok_def map_ids_def reserved_sum_def MAP_LIMIT_def
      MEMORY_LIMIT_def split: if_splits option.splits)

lemma reach_registry:
  assumes "(maps_step sz)\<^sup>*\<^sup>* p q" "registry_ok sz p"
  shows "registry_ok sz q"
  using assms by (induction rule: rtranclp_induct) (auto intro: inv_intros)

text \<open>The reservation of a map covers it with all its entries.\<close>

lemma unat_widen: "unat (ucast (x :: u32) :: u64) = unat x"
  using unat32_less [of x] by (simp add: unsigned_ucast_eq take_bit_nat_eq_self)

lemma map_memory_reserved:
  assumes "member_ok sz b m" "unat sz < 2 ^ 32"
  shows "map_memory sz m \<le> unat (map_reserved m)"
proof -
  let ?i = "map_info m"
  have i: "key_size ?i \<le> 512" "value_size ?i \<le> 4096" "max_entries ?i \<le> 65536"
    using assms(1) by (auto simp: member_ok_def info_ok_def map_info_check_def MD_BPF_MAP_KEY_MAX_def
        MD_BPF_MAP_VALUE_MAX_def split: if_splits)
  let ?e = "8 + unat (key_size ?i) + unat (value_size ?i)"
  have e: "?e \<le> 4616" "unat (max_entries ?i) \<le> 65536" using i by (simp_all add: word_le_nat_alt)
  define w where "w = SIZEOF_ENTRY + ucast (key_size ?i) + ucast (value_size ?i)"
  have u: "unat w = ?e"
    unfolding w_def using e by (simp add: SIZEOF_ENTRY_def unat_word_ariths unat_widen)
  have p: "?e * unat (max_entries ?i) \<le> 4616 * 65536" using e by (rule mult_le_mono)
  have "unat (reservation sz ?i) = unat sz + ?e * unat (max_entries ?i)"
    using p assms(2) unfolding reservation_def w_def [symmetric] unat_word_ariths(1,2) u
    by (simp add: unat_widen)
  moreover have "length (map_entries m) \<le> unat (max_entries ?i)"
    using assms(1) map_okD(3,4) [of m] by (simp add: member_ok_def word_le_nat_alt)
  ultimately show ?thesis using assms(1)
    by (simp add: map_memory_def member_ok_def mult.commute)
qed

lemma registry_memory:
  assumes "registry_ok sz p" "unat sz < 2 ^ 32"
  shows "(\<Sum>(a, m) \<leftarrow> maps_first p. map_memory sz m) \<le> unat MEMORY_LIMIT"
proof -
  have "(\<Sum>(a, m) \<leftarrow> maps_first p. map_memory sz m) \<le> reserved_sum (maps_first p)"
    unfolding reserved_sum_def
    using registry_okD(3) [OF assms(1)] map_memory_reserved [OF _ assms(2)]
    by (intro sum_list_mono) auto
  also have "\<dots> \<le> unat MEMORY_LIMIT"
    using registry_okD(6,7) [OF assms(1)] by (simp add: word_le_nat_alt)
  finally show ?thesis .
qed

text \<open>The map an identifier names.\<close>

definition map_named :: "u32 \<Rightarrow> bpf_maps \<Rightarrow> (nat \<times> bpf_map_info) option" where
  "map_named i p = map_option (\<lambda>(a, m). (a, map_info m))
     (find (\<lambda>(a, m). map_id (map_info m) = i) (maps_first p))"

lemma map_named_iff:
  assumes "registry_ok sz p"
  shows "map_named i p = Some (a, info) \<longleftrightarrow>
    map_id info = i \<and> (\<exists>m. (a, m) \<in> set (maps_first p) \<and> map_info m = info)"
proof -
  have "find (\<lambda>(a, m). map_id (map_info m) = i) (maps_first p) = Some (a, m) \<longleftrightarrow>
      (a, m) \<in> set (maps_first p) \<and> map_id (map_info m) = i" for m
    using find_Some_iff_distinct [of "\<lambda>(a, m). map_id (map_info m)" "maps_first p" i "(a, m)"]
      registry_okD(2) [OF assms] by (simp add: map_ids_def case_prod_unfold)
  then show ?thesis by (auto simp: map_named_def)
qed

definition infos :: "bpf_maps \<Rightarrow> (nat \<times> bpf_map_info) set" where
  "infos p = (\<lambda>(a, m). (a, map_info m)) ` set (maps_first p)"

lemma map_named_infos:
  "registry_ok sz p \<Longrightarrow> map_named i p = Some (a, info) \<longleftrightarrow> map_id info = i \<and> (a, info) \<in> infos p"
  by (force simp: map_named_iff infos_def)

lemma put_map_infos:
  assumes "registry_ok sz p" "map_of (maps_first p) a = Some m" "map_info m' = map_info m"
  shows "infos (put_map a m' p) = infos p"
proof -
  have "n = m" if "(a, n) \<in> set (maps_first p)" for n
    using that assms(2) registry_okD(1) [OF assms(1)] by (metis map_of_eq_Some_iff option.inject)
  then have "(\<lambda>(b, n). (b, map_info n)) (case x of (b, n) \<Rightarrow> (b, if b = a then m' else n)) = (\<lambda>(b, n). (b, map_info n)) x"
    if "x \<in> set (maps_first p)" for x
    using that assms(3) by (cases x) auto
  then show ?thesis unfolding infos_def put_map_simps set_map image_image by (rule image_cong [OF refl])
qed

lemma element_info: "map_ok m \<Longrightarrow> call_fits c (dictionary_of m) \<Longrightarrow> map_info (snd (element_step c m)) = map_info m"
  using element_refines dictionary_allows_info by (metis dictionary_of_simps(1) prod.collapse)

lemma step_infos:
  assumes "maps_step sz p q" "registry_ok sz p"
  shows "maps_next p \<le> maps_next q \<and> (\<forall>(a, info) \<in> infos q. (a, info) \<in> infos p \<or> maps_next p < map_id info)"
  using assms(1)
proof cases
  case (create alloc info)
  then show ?thesis
    using less_Suc_word [of "maps_next p"]
    by (auto simp: md_bpf_map_new_def md_bpf_maps_retain_def infos_def Let_def split: option.splits)
next
  case (retain a m)
  then show ?thesis using put_map_infos [OF assms(2) retain(2)] by (auto simp: md_bpf_map_retain_def)
next
  case (release a m)
  show ?thesis
  proof (cases "map_refs m - 1 = 0")
    case True
    with release show ?thesis by (auto simp: md_bpf_map_release_def md_bpf_maps_release_def infos_def)
  next
    case False
    with release show ?thesis using put_map_infos [OF assms(2) release(2)] by (auto simp: md_bpf_map_release_def)
  qed
next
  case (find i)
  show ?thesis
  proof (cases "find (\<lambda>(a, m). map_id (map_info m) = i) (maps_first p)")
    case (Some am)
    obtain a m where am: "am = (a, m)" by fastforce
    with Some have "map_of (maps_first p) a = Some m"
      using find_SomeD registry_okD(1) [OF assms(2)] by fastforce
    from put_map_infos [OF assms(2) this] find(1) Some am show ?thesis by (auto simp: md_bpf_map_find_def)
  qed (use find(1) in \<open>auto simp: md_bpf_map_find_def\<close>)
next
  case (element a m c)
  have "map_ok m" using registry_member [OF assms(2) element(2)] by (simp add: member_ok_def)
  from put_map_infos [OF assms(2) element(2) element_info [OF this element(3)]] element(1) show ?thesis by auto
qed (auto simp: md_bpf_maps_retain_def md_bpf_maps_release_def infos_def)

lemma reach_infos:
  assumes "(maps_step sz)\<^sup>*\<^sup>* p q" "registry_ok sz p"
  shows "maps_next p \<le> maps_next q \<and> (\<forall>(a, info) \<in> infos q. (a, info) \<in> infos p \<or> maps_next p < map_id info)"
  using assms
proof (induction rule: rtranclp_induct)
  case (step q r)
  with step_infos [OF step(2) reach_registry [OF step(1) assms(2)]] show ?case by fastforce
qed auto

section \<open>Property\<close>

text \<open>
  C27: the registry is bounded and its identifiers last. After any history of calls from a new registry
  at most 4096 maps exist and with all their entries they take at most 64 MiB, no two share an
  identifier, the registry is not freed while a map is left, and an identifier that has been given out
  names the same map or none for ever after.
\<close>

theorem bpf_registry_bounded:
  assumes "md_bpf_maps_new alloc mutex = Inr start" "(maps_step sz)\<^sup>*\<^sup>* start p" "(maps_step sz)\<^sup>*\<^sup>* p q"
    and "unat sz < 2 ^ 32"
  shows "length (maps_first p) \<le> 4096 \<and> (\<Sum>(a, m) \<leftarrow> maps_first p. map_memory sz m) \<le> 64 * 1024 * 1024
    \<and> distinct (map_ids p) \<and> (maps_refs p = 0 \<longrightarrow> maps_first p = [])
    \<and> (\<forall>i. i \<le> maps_next p \<longrightarrow> map_named i q \<in> {None, map_named i p})"
proof -
  have ok: "registry_ok sz p" by (rule reach_registry [OF assms(2) new_registry [OF assms(1)]])
  have "map_named i q \<in> {None, map_named i p}" if "i \<le> maps_next p" for i
  proof (cases "map_named i q")
    case (Some ai)
    obtain a info where ai: "ai = (a, info)" by fastforce
    with Some have q: "map_id info = i" "(a, info) \<in> infos q"
      using map_named_infos [OF reach_registry [OF assms(3) ok]] by blast+
    with reach_infos [OF assms(3) ok] that have "(a, info) \<in> infos p" by fastforce
    with q(1) have "map_named i p = Some (a, info)" using map_named_infos [OF ok] by blast
    with Some ai show ?thesis by simp
  qed simp
  then show ?thesis
    using registry_okD(2,4,5,8) [OF ok] registry_memory [OF ok assms(4)]
    by (auto simp: MAP_LIMIT_def MEMORY_LIMIT_def word_le_nat_alt)
qed

definition empty_registry :: bpf_maps where
  "empty_registry = \<lparr>maps_refs = 1, maps_first = [], maps_next = 0, maps_count = 0, maps_reserved = 0\<rparr>"

definition demo_registry :: bpf_maps where
  "demo_registry = snd (md_bpf_map_new 2200 (Some 5) empty_registry demo_info)"

lemma demo_registry_eq:
  "demo_registry = \<lparr>maps_refs = 2, maps_first = [(5, fresh_map (demo_info\<lparr>map_id := 1\<rparr>) 2220)],
     maps_next = 1, maps_count = 1, maps_reserved = 2220\<rparr>"
  by (simp add: demo_registry_def empty_registry_def md_bpf_map_new_def map_info_check_def demo_info_def
      BPF_MAP_TYPE_HASH_def MD_BPF_MAP_KEY_MAX_def MD_BPF_MAP_VALUE_MAX_def MAP_LIMIT_def UINT32_MAX_def
      MEMORY_LIMIT_def reservation_def SIZEOF_ENTRY_def md_bpf_maps_retain_def fresh_map_def Let_def)

theorem bpf_registry_bounded_witness:
  "map_named 1 demo_registry = Some (5, demo_info\<lparr>map_id := 1\<rparr>)
   \<and> map_named 1 (md_bpf_map_release 5 demo_registry) \<in> {None, map_named 1 demo_registry}"
proof -
  have new: "md_bpf_maps_new True None = Inr empty_registry"
    by (simp add: md_bpf_maps_new_def empty_registry_def)
  have "maps_step 2200 empty_registry demo_registry"
    unfolding demo_registry_def by (rule maps_step.create) (simp_all add: empty_registry_def UINT32_MAX_def)
  moreover have "maps_step 2200 demo_registry (md_bpf_map_release 5 demo_registry)"
    by (rule maps_step.release [where m = "fresh_map (demo_info\<lparr>map_id := 1\<rparr>) 2220"]) (simp add: demo_registry_eq)
  ultimately have "map_named 1 (md_bpf_map_release 5 demo_registry) \<in> {None, map_named 1 demo_registry}"
    using bpf_registry_bounded [OF new r_into_rtranclp r_into_rtranclp] by (simp add: demo_registry_eq)
  then show ?thesis by (simp add: demo_registry_eq map_named_def demo_info_def)
qed

end
