(* ===== verification/Binfmt_Rule.thy ===== *)
theory Binfmt_Rule
  imports Prelude
begin

unbundle bit_operations_syntax

text \<open>
  The registration language of binary formats, from \<^verbatim>\<open>src/native/shroot/src/binfmt_rule.c\<close>: parsing a
  registration into a rule, matching a program against it and printing it. Text is a list of bytes
  without its terminating zero, and the two 256-byte arrays of a rule are lists of that length.
\<close>

section \<open>Data\<close>

definition MD_BINFMT_REGISTER_MAX :: nat where "MD_BINFMT_REGISTER_MAX = 1920"
definition MD_BINFMT_HEADER :: nat where "MD_BINFMT_HEADER = 256"
definition BINFMT_NAME_MAX :: nat where "BINFMT_NAME_MAX = 255"
definition MD_BINFMT_PRESERVE :: u32 where "MD_BINFMT_PRESERVE = 1"
definition MD_BINFMT_OPEN :: u32 where "MD_BINFMT_OPEN = 2"
definition MD_BINFMT_CREDENTIALS :: u32 where "MD_BINFMT_CREDENTIALS = 4"
definition MD_BINFMT_FIXED :: u32 where "MD_BINFMT_FIXED = 8"

text \<open>Bytes of a literal of the source.\<close>

definition lit :: "string \<Rightarrow> u8 list" where
  "lit s = map (\<lambda>c. of_nat (of_char c)) s"

abbreviation slash :: u8 where "slash \<equiv> 47"
abbreviation dot :: u8 where "dot \<equiv> 46"
abbreviation newline :: u8 where "newline \<equiv> 10"
abbreviation backslash :: u8 where "backslash \<equiv> 92"
abbreviation letter_x :: u8 where "letter_x \<equiv> 120"

record binfmt_rule =
  rule_name :: "u8 list"
  rule_interpreter :: "u8 list"
  rule_flags :: u32
  rule_offset :: u32
  rule_size :: u32
  rule_extension :: bool
  rule_magic :: "u8 list"
  rule_mask :: "u8 list"

section \<open>Parsing\<close>

definition hex :: "u8 \<Rightarrow> u8 option" where
  "hex c = (if 48 \<le> c \<and> c \<le> 57 then Some (c - 48)
    else if 97 \<le> c \<and> c \<le> 102 then Some (c - 97 + 10)
    else if 65 \<le> c \<and> c \<le> 70 then Some (c - 65 + 10)
    else None)"

text \<open>The bytes stored from position \<open>n\<close> on, or \<open>None\<close> for the error.\<close>

function decode :: "u8 list \<Rightarrow> nat \<Rightarrow> nat \<Rightarrow> u8 list option" where
  "decode [] n capacity = Some []"
| "decode (c # s) n capacity =
    (if c = backslash \<and> s \<noteq> [] \<and> hd s = letter_x then
       (case tl s of a # b # rest \<Rightarrow>
          (case (hex a, hex b) of (Some h, Some l) \<Rightarrow>
             if n = capacity then None
             else map_option (\<lambda>out. (push_bit 4 h OR l) # out) (decode (drop 3 s) (n + 1) capacity)
           | _ \<Rightarrow> None)
        | _ \<Rightarrow> None)
     else if n = capacity then None
     else map_option (\<lambda>out. c # out) (decode s (n + 1) capacity))"
  by pat_completeness auto
termination by (relation "measure (\<lambda>(s, n, capacity). length s)") auto

text \<open>The fields up to the \<open>k\<close>-th delimiter and the rest.\<close>

fun split_fields :: "nat \<Rightarrow> u8 \<Rightarrow> u8 list \<Rightarrow> u8 list list option" where
  "split_fields 0 d s = Some [s]"
| "split_fields (Suc k) d s =
    (if d \<notin> set s then None
     else map_option (\<lambda>fs. takeWhile (\<lambda>c. c \<noteq> d) s # fs) (split_fields k d (tl (dropWhile (\<lambda>c. c \<noteq> d) s))))"

fun parse_offset :: "u8 list \<Rightarrow> u32 \<Rightarrow> u32 option" where
  "parse_offset [] offset = Some offset"
| "parse_offset (c # s) offset =
    (if c < 48 \<or> 57 < c \<or> 256 \<le> offset then None
     else parse_offset s (offset * 10 + ucast (c - 48)))"

definition flag_of :: "u8 \<Rightarrow> u32" where
  "flag_of c = (if c = 80 then MD_BINFMT_PRESERVE else if c = 79 then MD_BINFMT_OPEN
     else if c = 67 then MD_BINFMT_CREDENTIALS else if c = 70 then MD_BINFMT_FIXED else 0)"

fun parse_flags :: "u8 list \<Rightarrow> u32 \<Rightarrow> u32 option" where
  "parse_flags [] flags = Some flags"
| "parse_flags (c # s) flags =
    (if flag_of c = 0 \<or> flags AND flag_of c \<noteq> 0 then None else parse_flags s (flags OR flag_of c))"

definition pad :: "u8 list \<Rightarrow> u8 list" where
  "pad xs = xs @ replicate (MD_BINFMT_HEADER - length xs) 0"

definition names_valid :: "u8 list \<Rightarrow> u8 list \<Rightarrow> bool" where
  "names_valid name interpreter \<longleftrightarrow> name \<noteq> [] \<and> length name \<le> BINFMT_NAME_MAX \<and> slash \<notin> set name \<and> name \<noteq> [dot]
     \<and> name \<noteq> [dot, dot] \<and> interpreter \<noteq> [] \<and> hd interpreter = slash
     \<and> length interpreter < MD_BINFMT_REGISTER_MAX"

definition parse_pattern :: "bool \<Rightarrow> u8 list \<Rightarrow> u8 list \<Rightarrow> u8 list \<Rightarrow> binfmt_rule \<Rightarrow> binfmt_rule option" where
  "parse_pattern extension offset magic masks r =
    (if extension then
       (if magic = [] \<or> MD_BINFMT_HEADER \<le> length magic \<or> slash \<in> set magic then None
        else Some (r\<lparr>rule_magic := pad magic, rule_size := of_nat (length magic)\<rparr>))
     else case parse_offset offset 0 of None \<Rightarrow> None | Some off \<Rightarrow>
       case decode magic 0 MD_BINFMT_HEADER of None \<Rightarrow> None | Some bytes \<Rightarrow>
       if bytes = [] \<or> MD_BINFMT_HEADER < unat (off + of_nat (length bytes)) then None
       else
         let r' = r\<lparr>rule_offset := off, rule_magic := pad bytes, rule_size := of_nat (length bytes),
               rule_mask := pad (replicate (length bytes) 255)\<rparr>
         in if masks = [] then Some r'
            else case decode masks 0 MD_BINFMT_HEADER of None \<Rightarrow> None | Some m \<Rightarrow>
              if length m \<noteq> length bytes then None else Some (r'\<lparr>rule_mask := pad m\<rparr>))"

definition strip_newline :: "u8 list \<Rightarrow> u8 list" where
  "strip_newline s = (if last s = newline then butlast s else s)"

definition parse_fields :: "u8 list list \<Rightarrow> binfmt_rule option" where
  "parse_fields f =
    (if \<not> names_valid (f ! 0) (f ! 5) then None
     else if f ! 1 \<noteq> [77] \<and> f ! 1 \<noteq> [69] then None
     else case parse_pattern (f ! 1 = [69]) (f ! 2) (f ! 3) (f ! 4)
         \<lparr>rule_name = f ! 0, rule_interpreter = f ! 5, rule_flags = 0, rule_offset = 0, rule_size = 0,
          rule_extension = (f ! 1 = [69]), rule_magic = pad [], rule_mask = pad []\<rparr> of
       None \<Rightarrow> None
     | Some r \<Rightarrow> (case parse_flags (f ! 6) 0 of None \<Rightarrow> None
       | Some flags \<Rightarrow> Some (r\<lparr>rule_flags :=
           (if flags AND MD_BINFMT_CREDENTIALS \<noteq> 0 then flags OR MD_BINFMT_OPEN else flags)\<rparr>)))"

definition md_binfmt_rule_parse :: "u8 list \<Rightarrow> binfmt_rule result" where
  "md_binfmt_rule_parse data =
    (if data = [] \<or> MD_BINFMT_REGISTER_MAX < length data \<or> 0 \<in> set data then Inl EINVAL
     else case strip_newline data of [] \<Rightarrow> Inl EINVAL
     | delimiter # s \<Rightarrow>
         if delimiter = newline then Inl EINVAL
         else case split_fields 6 delimiter s of None \<Rightarrow> Inl EINVAL
         | Some f \<Rightarrow> (case parse_fields f of None \<Rightarrow> Inl EINVAL | Some r \<Rightarrow> Inr r))"

section \<open>Matching\<close>

definition after_last :: "u8 \<Rightarrow> u8 list \<Rightarrow> u8 list option" where
  "after_last c s = (if c \<in> set s then Some (rev (takeWhile (\<lambda>x. x \<noteq> c) (rev s))) else None)"

definition c_string :: "u8 list \<Rightarrow> u8 list" where
  "c_string s = takeWhile (\<lambda>c. c \<noteq> 0) s"

definition md_binfmt_rule_matches :: "binfmt_rule \<Rightarrow> u8 list \<Rightarrow> u8 list \<Rightarrow> bool" where
  "md_binfmt_rule_matches r path header =
    (if rule_extension r then
       (let base = (case after_last slash path of Some b \<Rightarrow> b | None \<Rightarrow> path)
        in case after_last dot base of Some suffix \<Rightarrow> suffix = c_string (rule_magic r) | None \<Rightarrow> False)
     else if length header < unat (rule_offset r + rule_size r) then False
     else list_all (\<lambda>i. (header ! (unat (rule_offset r) + i) XOR rule_magic r ! i) AND rule_mask r ! i = 0)
        [0..<unat (rule_size r)])"

section \<open>Printing\<close>

fun decimal :: "nat \<Rightarrow> u8 list" where
  "decimal n = (if n < 10 then [48 + of_nat n] else decimal (n div 10) @ [48 + of_nat (n mod 10)])"

declare decimal.simps [simp del]

definition digit :: "u8 \<Rightarrow> u8" where
  "digit v = lit ''0123456789abcdef'' ! unat v"

definition hex_bytes :: "u8 list \<Rightarrow> u8 list" where
  "hex_bytes bs = concat (map (\<lambda>b. [digit (drop_bit 4 b), digit (b AND 15)]) bs)"

definition flag_letters :: "u32 \<Rightarrow> u8 list" where
  "flag_letters f = (if f AND MD_BINFMT_PRESERVE \<noteq> 0 then [80] else []) @ (if f AND MD_BINFMT_OPEN \<noteq> 0 then [79] else [])
     @ (if f AND MD_BINFMT_CREDENTIALS \<noteq> 0 then [67] else []) @ (if f AND MD_BINFMT_FIXED \<noteq> 0 then [70] else [])"

definition format_head :: "binfmt_rule \<Rightarrow> bool \<Rightarrow> u8 list" where
  "format_head r enabled = lit (if enabled then ''enabled'' else ''disabled'') @ newline # lit ''interpreter ''
     @ rule_interpreter r @ newline # lit ''flags: '' @ flag_letters (rule_flags r) @ [newline]"

definition format_tail :: "binfmt_rule \<Rightarrow> u8 list" where
  "format_tail r = (if rule_extension r then lit ''extension .'' @ c_string (rule_magic r) @ [newline]
     else lit ''offset '' @ decimal (unat (rule_offset r)) @ newline # lit ''magic ''
       @ hex_bytes (take (unat (rule_size r)) (rule_magic r)) @ newline # lit ''mask ''
       @ hex_bytes (take (unat (rule_size r)) (rule_mask r)) @ [newline])"

text \<open>\<open>snprintf\<close> into a buffer of a given capacity fails when the text and its zero do not fit.\<close>

definition md_binfmt_rule_format :: "binfmt_rule \<Rightarrow> bool \<Rightarrow> nat \<Rightarrow> u8 list result" where
  "md_binfmt_rule_format r enabled capacity =
    (let head = format_head r enabled; tail = format_tail r
     in if capacity \<le> length head then Inl ENOSPC
        else if capacity - length head \<le> length tail then Inl ENOSPC
        else Inr (head @ tail))"

section \<open>Well-formed rules\<close>

definition rule_ok :: "binfmt_rule \<Rightarrow> bool" where
  "rule_ok r \<longleftrightarrow> names_valid (rule_name r) (rule_interpreter r)
     \<and> 0 < unat (rule_size r) \<and> unat (rule_offset r) + unat (rule_size r) \<le> MD_BINFMT_HEADER
     \<and> rule_magic r = pad (take (unat (rule_size r)) (rule_magic r))
     \<and> rule_flags r < 16
     \<and> (rule_flags r AND MD_BINFMT_CREDENTIALS \<noteq> 0 \<longrightarrow> rule_flags r AND MD_BINFMT_OPEN \<noteq> 0)
     \<and> (if rule_extension r then rule_offset r = 0 \<and> unat (rule_size r) < MD_BINFMT_HEADER \<and> rule_mask r = pad []
          \<and> slash \<notin> set (take (unat (rule_size r)) (rule_magic r))
        else rule_mask r = pad (take (unat (rule_size r)) (rule_mask r)))"

lemma length_pad: "length xs \<le> MD_BINFMT_HEADER \<Longrightarrow> length (pad xs) = MD_BINFMT_HEADER"
  by (simp add: pad_def)

lemma take_pad: "take (length xs) (pad xs) = xs"
  by (simp add: pad_def)

lemma decode_length: "n \<le> capacity \<Longrightarrow> decode s n capacity = Some out \<Longrightarrow> n + length out \<le> capacity"
  by (induction s n capacity arbitrary: out rule: decode.induct)
    (auto split: if_splits list.splits option.splits)

lemma parse_offset_bound: "parse_offset s off = Some v \<Longrightarrow> unat off \<le> 2559 \<Longrightarrow> unat v \<le> 2559"
proof (induction s off rule: parse_offset.induct)
  case (2 c s off)
  then have c: "48 \<le> c" "c \<le> 57" "off < 256" by (auto split: if_splits)
  have d: "unat (c - 48) \<le> 9" using c(1,2) by (simp add: word_le_nat_alt unat_sub)
  have "unat (ucast (c - 48) :: u32) \<le> 9"
    using d by (simp add: unsigned_ucast_eq take_bit_nat_eq_self)
  moreover have "unat off < 256" using c(3) by (simp add: word_less_nat_alt)
  ultimately have "unat (off * 10 + ucast (c - 48)) \<le> 2559"
    by (simp add: unat_word_ariths)
  with 2 show ?case by (auto split: if_splits)
qed simp

lemma flag_of_cases: "flag_of c \<in> {0, 1, 2, 4, 8}"
  by (simp add: flag_of_def MD_BINFMT_PRESERVE_def MD_BINFMT_OPEN_def MD_BINFMT_CREDENTIALS_def MD_BINFMT_FIXED_def)

lemma parse_flags_bound: "parse_flags s f = Some v \<Longrightarrow> f AND 15 = f \<Longrightarrow> v AND 15 = v"
proof (induction s f rule: parse_flags.induct)
  case (2 c s f)
  have "(f OR flag_of c) AND 15 = f OR flag_of c"
    using flag_of_cases [of c] 2(3) by (auto simp: bit.conj_disj_distrib2)
  with 2 show ?case by (auto split: if_splits)
qed simp


lemma unat_len: "length xs \<le> MD_BINFMT_HEADER \<Longrightarrow> unat (of_nat (length xs) :: u32) = length xs"
  by (simp add: MD_BINFMT_HEADER_def unat_of_nat)

definition pattern_ok :: "binfmt_rule \<Rightarrow> bool" where
  "pattern_ok r \<longleftrightarrow> 0 < unat (rule_size r) \<and> unat (rule_offset r) + unat (rule_size r) \<le> MD_BINFMT_HEADER
     \<and> rule_magic r = pad (take (unat (rule_size r)) (rule_magic r))
     \<and> (if rule_extension r then rule_offset r = 0 \<and> unat (rule_size r) < MD_BINFMT_HEADER \<and> rule_mask r = pad []
          \<and> slash \<notin> set (take (unat (rule_size r)) (rule_magic r))
        else rule_mask r = pad (take (unat (rule_size r)) (rule_mask r)))"

lemma pattern_extension:
  assumes "parse_pattern True offset magic masks r = Some r'" "rule_extension r" "rule_offset r = 0" "rule_mask r = pad []"
  shows "pattern_ok r' \<and> (\<exists>m n. r' = r\<lparr>rule_magic := m, rule_size := n\<rparr>)"
proof -
  from assms(1) have m: "magic \<noteq> []" "length magic < MD_BINFMT_HEADER" "slash \<notin> set magic"
    and r': "r' = r\<lparr>rule_magic := pad magic, rule_size := of_nat (length magic)\<rparr>"
    by (auto simp: parse_pattern_def split: if_splits)
  have "unat (of_nat (length magic) :: u32) = length magic" using m(2) by (simp add: unat_len)
  with m assms(2-4) show ?thesis unfolding r' by (auto simp: pattern_ok_def take_pad)
qed

lemma pattern_magic:
  assumes "parse_pattern False offset magic masks r = Some r'" "\<not> rule_extension r"
  shows "pattern_ok r' \<and> (\<exists>off m n k. r' = r\<lparr>rule_offset := off, rule_magic := m, rule_size := n, rule_mask := k\<rparr>)"
proof -
  from assms(1) obtain off bytes k where o: "parse_offset offset 0 = Some off"
    and b: "decode magic 0 MD_BINFMT_HEADER = Some bytes" "bytes \<noteq> []"
    and le: "unat (off + of_nat (length bytes)) \<le> MD_BINFMT_HEADER" and k: "length k = length bytes"
    and r': "r' = r\<lparr>rule_offset := off, rule_magic := pad bytes, rule_size := of_nat (length bytes), rule_mask := pad k\<rparr>"
    by (auto simp: parse_pattern_def Let_def not_less split: if_splits option.splits) (metis length_replicate)
  have len: "length bytes \<le> MD_BINFMT_HEADER" using decode_length [OF _ b(1)] by simp
  have off: "unat off \<le> 2559" using parse_offset_bound [OF o] by simp
  have "unat (off + of_nat (length bytes)) = unat off + length bytes"
    using off len unat_len [OF len] by (simp add: unat_word_ariths MD_BINFMT_HEADER_def)
  then show ?thesis
    using assms(2) b(2) le k len unfolding r' by (auto simp: pattern_ok_def unat_len) (metis k take_pad)+
qed

lemma flags_closed:
  fixes f :: u32
  assumes "f AND 15 = f"
  defines "g \<equiv> (if f AND MD_BINFMT_CREDENTIALS \<noteq> 0 then f OR MD_BINFMT_OPEN else f)"
  shows "g < 16" "g AND MD_BINFMT_CREDENTIALS \<noteq> 0 \<longrightarrow> g AND MD_BINFMT_OPEN \<noteq> 0"
proof -
  have "g AND 15 = g"
    using assms(1) by (simp add: g_def bit.conj_disj_distrib2 MD_BINFMT_OPEN_def)
  then have "g \<le> 15" by (metis word_and_le1)
  then show "g < 16" by (rule order_le_less_trans) simp
  show "g AND MD_BINFMT_CREDENTIALS \<noteq> 0 \<longrightarrow> g AND MD_BINFMT_OPEN \<noteq> 0"
    by (simp add: g_def bit.conj_disj_distrib2 MD_BINFMT_OPEN_def MD_BINFMT_CREDENTIALS_def)
qed

lemma parse_fields_ok:
  assumes "parse_fields f = Some r"
  shows "rule_ok r"
proof -
  let ?e = "f ! 1 = [69]"
  let ?r = "\<lparr>rule_name = f ! 0, rule_interpreter = f ! 5, rule_flags = 0, rule_offset = 0, rule_size = 0,
      rule_extension = ?e, rule_magic = pad [], rule_mask = pad []\<rparr>"
  from assms obtain p flags where n: "names_valid (f ! 0) (f ! 5)"
    and p: "parse_pattern ?e (f ! 2) (f ! 3) (f ! 4) ?r = Some p" and flags: "parse_flags (f ! 6) 0 = Some flags"
    and r: "r = p\<lparr>rule_flags := (if flags AND MD_BINFMT_CREDENTIALS \<noteq> 0 then flags OR MD_BINFMT_OPEN else flags)\<rparr>"
    by (auto simp: parse_fields_def split: if_splits option.splits)
  have ok: "pattern_ok p \<and> rule_name p = f ! 0 \<and> rule_interpreter p = f ! 5"
  proof (cases ?e)
    case True
    with p have "parse_pattern True (f ! 2) (f ! 3) (f ! 4) ?r = Some p" by simp
    from pattern_extension [OF this] True show ?thesis by auto
  next
    case False
    with p have "parse_pattern False (f ! 2) (f ! 3) (f ! 4) ?r = Some p" by simp
    from pattern_magic [OF this] False show ?thesis by auto
  qed
  have "flags AND 15 = flags" using parse_flags_bound [OF flags] by simp
  with ok n flags_closed show ?thesis unfolding r rule_ok_def by (simp add: pattern_ok_def)
qed

lemma parse_ok: "md_binfmt_rule_parse data = Inr r \<Longrightarrow> rule_ok r"
  using parse_fields_ok by (auto simp: md_binfmt_rule_parse_def split: if_splits option.splits list.splits)


section \<open>Printed rules fit their buffer\<close>

lemma length_lit: "length (lit s) = length s"
  by (simp add: lit_def)

lemma length_hex_bytes: "length (hex_bytes bs) = 2 * length bs"
  by (induction bs) (simp_all add: hex_bytes_def)

lemma length_flag_letters: "length (flag_letters f) \<le> 4"
  by (simp add: flag_letters_def)

lemma length_decimal: "n < 1000 \<Longrightarrow> length (decimal n) \<le> 3"
  by (subst decimal.simps, subst decimal.simps, subst decimal.simps) auto

lemma format_fits:
  assumes "rule_ok r"
  shows "\<exists>out. md_binfmt_rule_format r enabled 3072 = Inr out \<and> length out < 3072"
proof -
  have i: "length (rule_interpreter r) < 1920"
    using assms by (simp add: rule_ok_def names_valid_def MD_BINFMT_REGISTER_MAX_def)
  have o: "unat (rule_offset r) + unat (rule_size r) \<le> 256" using assms by (simp add: rule_ok_def MD_BINFMT_HEADER_def)
  have d: "length (decimal (unat (rule_offset r))) \<le> 3" using o by (intro length_decimal) simp
  have "length (rule_magic r) = 256"
    using assms length_pad [of "take (unat (rule_size r)) (rule_magic r)"] o
    by (simp add: rule_ok_def MD_BINFMT_HEADER_def)
  then have c: "length (c_string (rule_magic r)) \<le> 256"
    using length_takeWhile_le [of _ "rule_magic r"] by (simp add: c_string_def)
  have h: "length (format_head r enabled) \<le> 1953"
    using i length_flag_letters [of "rule_flags r"] by (simp add: format_head_def length_lit)
  have x: "length (hex_bytes (take (unat (rule_size r)) bs)) \<le> 512" for bs
    using o by (simp add: length_hex_bytes)
  have "length (format_tail r) \<le> 1060"
    using c d x [of "rule_magic r"] x [of "rule_mask r"] by (simp add: format_tail_def length_lit)
  with h show ?thesis by (simp add: md_binfmt_rule_format_def Let_def)
qed

section \<open>Writing a rule as a registration\<close>

definition escape :: "u8 list \<Rightarrow> u8 list" where
  "escape bs = concat (map (\<lambda>b. [backslash, letter_x, digit (drop_bit 4 b), digit (b AND 15)]) bs)"

definition magic_bytes :: "binfmt_rule \<Rightarrow> u8 list" where
  "magic_bytes r = take (unat (rule_size r)) (rule_magic r)"

definition rule_fields :: "binfmt_rule \<Rightarrow> u8 list list" where
  "rule_fields r = [rule_name r, (if rule_extension r then [69] else [77]), decimal (unat (rule_offset r)),
     (if rule_extension r then magic_bytes r else escape (magic_bytes r)),
     (if rule_extension r then [] else escape (take (unat (rule_size r)) (rule_mask r))),
     rule_interpreter r, flag_letters (rule_flags r)]"

fun join_fields :: "u8 \<Rightarrow> u8 list list \<Rightarrow> u8 list" where
  "join_fields d [] = []"
| "join_fields d (f # fs) = d # f @ join_fields d fs"

definition registration :: "u8 \<Rightarrow> binfmt_rule \<Rightarrow> u8 list" where
  "registration d r = join_fields d (rule_fields r)"

text \<open>A delimiter that occurs in no field, and no field with a zero byte.\<close>

definition separable :: "u8 \<Rightarrow> binfmt_rule \<Rightarrow> bool" where
  "separable d r \<longleftrightarrow> d \<noteq> 0 \<and> d \<noteq> newline \<and> list_all (\<lambda>f. d \<notin> set f \<and> 0 \<notin> set f) (rule_fields r)"

text \<open>A registration that also fits the buffer for it.\<close>

definition registrable :: "u8 \<Rightarrow> binfmt_rule \<Rightarrow> bool" where
  "registrable d r \<longleftrightarrow> separable d r \<and> length (registration d r) \<le> MD_BINFMT_REGISTER_MAX"

lemma below_16:
  fixes v :: "'a::len word"
  assumes "list_all (\<lambda>n. P (of_nat n)) [0..<16]" "unat v < 16"
  shows "P v"
proof -
  have "P (of_nat (unat v))" using assms unfolding list_all_iff by (metis atLeastLessThan_iff atLeastLessThan_upt zero_le)
  then show ?thesis by simp
qed

lemma hex_digit: "v < 16 \<Longrightarrow> hex (digit v) = Some v"
  by (rule below_16 [where P = "\<lambda>v. hex (digit v) = Some v"], code_simp) (simp add: word_less_nat_alt)

lemma nibbles: "push_bit 4 (drop_bit 4 b) OR (b AND 15) = (b :: u8)" "drop_bit 4 b < (16 :: u8)" "b AND 15 < (16 :: u8)"
proof -
  have "b AND 15 = take_bit 4 b" by (simp add: take_bit_eq_mask mask_eq_exp_minus_1)
  moreover have "push_bit 4 (drop_bit 4 b) OR take_bit 4 b = b"
    by (rule bit_word_eqI) (auto simp: bit_or_iff bit_push_bit_iff bit_drop_bit_eq bit_take_bit_iff)
  ultimately show "push_bit 4 (drop_bit 4 b) OR (b AND 15) = b" by simp
  have "unat b < 256" using unsigned_less [of b] by simp
  then show "drop_bit 4 b < (16 :: u8)"
    by (simp add: word_less_nat_alt drop_bit_eq_div unat_div)
  have "b AND 15 \<le> 15" by (rule word_and_le1)
  then show "b AND 15 < (16 :: u8)" by (rule order_le_less_trans) simp
qed

lemma decode_escape: "n + length bs \<le> capacity \<Longrightarrow> decode (escape bs) n capacity = Some bs"
proof (induction bs arbitrary: n)
  case (Cons b bs)
  have "escape (b # bs) = [backslash, letter_x, digit (drop_bit 4 b), digit (b AND 15)] @ escape bs"
    by (simp add: escape_def)
  moreover have "decode (escape bs) (n + 1) capacity = Some bs" using Cons by simp
  ultimately show ?case using Cons.prems nibbles [of b] by (simp add: hex_digit)
qed (simp add: escape_def)

lemma parse_offset_append:
  "parse_offset (xs @ ys) off = (case parse_offset xs off of None \<Rightarrow> None | Some v \<Rightarrow> parse_offset ys v)"
  by (induction xs off rule: parse_offset.induct) simp_all

lemma parse_digit:
  assumes "n < 10" "off < 256"
  shows "parse_offset [48 + of_nat n] off = Some (off * 10 + of_nat n)"
proof -
  have u: "unat (48 + of_nat n :: u8) = 48 + n" using assms(1) by (simp add: unat_word_ariths unat_of_nat)
  have "ucast (of_nat n :: u8) = (of_nat n :: u32)"
    using assms(1) by (intro word_unat_eq_iff [THEN iffD2]) (simp add: unsigned_ucast_eq unat_of_nat take_bit_nat_eq_self)
  with u assms show ?thesis by (simp add: word_less_nat_alt word_le_nat_alt)
qed

lemma parse_decimal: "n < 2560 \<Longrightarrow> parse_offset (decimal n) 0 = Some (of_nat n)"
proof (induction n rule: decimal.induct)
  case (1 n)
  show ?case
  proof (cases "n < 10")
    case True
    then show ?thesis using parse_digit [OF True, of 0] by (subst decimal.simps) simp
  next
    case False
    have d: "of_nat (n div 10) < (256 :: u32)"
      using 1(2) by (simp add: word_less_nat_alt unat_of_nat)
    have "(of_nat (n div 10) * 10 + of_nat (n mod 10) :: u32) = of_nat n"
      by (metis div_mult_mod_eq of_nat_add of_nat_mult of_nat_numeral)
    with False 1 parse_digit [OF _ d, of "n mod 10"] show ?thesis
      by (subst decimal.simps) (simp add: parse_offset_append)
  qed
qed


lemma parse_flag_letters: "f < 16 \<Longrightarrow> parse_flags (flag_letters f) 0 = Some f"
  by (rule below_16 [where P = "\<lambda>f. parse_flags (flag_letters f) 0 = Some f"], code_simp) (simp add: word_less_nat_alt)

lemma flags_settled: "f < 16 \<Longrightarrow> f AND MD_BINFMT_OPEN \<noteq> 0 \<longrightarrow> f OR MD_BINFMT_OPEN = f"
  by (rule below_16 [where P = "\<lambda>f. f AND MD_BINFMT_OPEN \<noteq> 0 \<longrightarrow> f OR MD_BINFMT_OPEN = f"], code_simp)
    (simp add: word_less_nat_alt)

lemma padded_length: "x = pad (take n x) \<Longrightarrow> n \<le> MD_BINFMT_HEADER \<Longrightarrow> length x = MD_BINFMT_HEADER"
  by (metis length_pad length_take min.cobounded2 order_trans)

lemma upto_delimiter:
  "d \<notin> set f \<Longrightarrow> takeWhile (\<lambda>c. c \<noteq> d) (f @ d # s) = f \<and> dropWhile (\<lambda>c. c \<noteq> d) (f @ d # s) = d # s"
  by (induction f) auto

lemma split_join:
  "list_all (\<lambda>f. d \<notin> set f) (f # fs) \<Longrightarrow> split_fields (length fs) d (f @ join_fields d fs) = Some (f # fs)"
proof (induction fs arbitrary: f)
  case (Cons g fs)
  have "d \<notin> set f" using Cons.prems by simp
  from upto_delimiter [OF this] Cons show ?case by simp
qed simp

lemma parse_rule_fields:
  assumes ok: "rule_ok r"
  shows "parse_fields (rule_fields r) = Some r"
proof -
  let ?n = "unat (rule_size r)"
  have n: "0 < ?n" "unat (rule_offset r) + ?n \<le> MD_BINFMT_HEADER" and m: "rule_magic r = pad (magic_bytes r)"
    and names: "names_valid (rule_name r) (rule_interpreter r)" and f: "rule_flags r < 16"
    and c: "rule_flags r AND MD_BINFMT_CREDENTIALS \<noteq> 0 \<longrightarrow> rule_flags r AND MD_BINFMT_OPEN \<noteq> 0"
    using ok by (auto simp: rule_ok_def magic_bytes_def)
  have len: "length (magic_bytes r) = ?n"
    using padded_length [OF m [unfolded magic_bytes_def]] n(2) unfolding magic_bytes_def by simp
  have p: "parse_pattern (rule_extension r) (rule_fields r ! 2) (rule_fields r ! 3) (rule_fields r ! 4)
      \<lparr>rule_name = rule_name r, rule_interpreter = rule_interpreter r, rule_flags = 0, rule_offset = 0, rule_size = 0,
       rule_extension = rule_extension r, rule_magic = pad [], rule_mask = pad []\<rparr> = Some (r\<lparr>rule_flags := 0\<rparr>)"
  proof (cases "rule_extension r")
    case True
    have "rule_offset r = 0 \<and> ?n < MD_BINFMT_HEADER \<and> rule_mask r = pad [] \<and> slash \<notin> set (magic_bytes r)"
      using ok True unfolding rule_ok_def magic_bytes_def by metis
    with True n len m show ?thesis
      by (auto simp: parse_pattern_def rule_fields_def intro!: binfmt_rule.equality)
  next
    case False
    define k where "k = take ?n (rule_mask r)"
    have k: "rule_mask r = pad k" using ok False unfolding rule_ok_def k_def by metis
    have lk: "length k = ?n" using padded_length [OF k [unfolded k_def]] n(2) unfolding k_def by simp
    have "unat (rule_offset r + of_nat ?n) \<le> MD_BINFMT_HEADER"
      using n(2) by (simp add: unat_word_ariths MD_BINFMT_HEADER_def)
    moreover have "parse_offset (decimal (unat (rule_offset r))) 0 = Some (rule_offset r)"
      using parse_decimal [of "unat (rule_offset r)"] n(2) by (simp add: MD_BINFMT_HEADER_def)
    moreover have "escape k \<noteq> []" "magic_bytes r \<noteq> []" using n(1) lk len by (auto simp: escape_def)
    moreover have "rule_fields r ! 2 = decimal (unat (rule_offset r))"
        "rule_fields r ! 3 = escape (magic_bytes r)" "rule_fields r ! 4 = escape k"
      using False by (simp_all add: rule_fields_def k_def)
    ultimately show ?thesis
      using False n(2) len lk k m decode_escape [of 0 "magic_bytes r"] decode_escape [of 0 k]
      by (auto simp: parse_pattern_def Let_def intro!: binfmt_rule.equality)
  qed
  have "(if rule_flags r AND MD_BINFMT_CREDENTIALS \<noteq> 0 then rule_flags r OR MD_BINFMT_OPEN else rule_flags r) = rule_flags r"
    using c flags_settled [OF f] by simp
  moreover have "rule_fields r ! 0 = rule_name r" "rule_fields r ! 5 = rule_interpreter r"
      "rule_fields r ! 6 = flag_letters (rule_flags r)" "(rule_fields r ! 1 = [69]) = rule_extension r"
      "rule_fields r ! 1 \<noteq> [77] \<longrightarrow> rule_extension r"
    by (simp_all add: rule_fields_def)
  ultimately show ?thesis using p names parse_flag_letters [OF f] by (auto simp: parse_fields_def)
qed

lemma join_clean: "d \<noteq> 0 \<Longrightarrow> \<forall>f \<in> set fs. 0 \<notin> set f \<Longrightarrow> 0 \<notin> set (join_fields d fs)"
  by (induction fs) auto

lemma parse_registration:
  assumes "rule_ok r" "registrable d r"
  shows "md_binfmt_rule_parse (registration d r) = Inr r"
proof -
  obtain f fs where r: "rule_fields r = f # fs" "length fs = 6" by (simp add: rule_fields_def)
  have reg: "registration d r = d # f @ join_fields d fs" by (simp add: registration_def r)
  have clean: "list_all (\<lambda>f. d \<notin> set f) (f # fs)" "0 \<notin> set (registration d r)"
    using assms(2) join_clean [of d fs] by (auto simp: registrable_def separable_def r reg list_all_iff)
  have "set (flag_letters (rule_flags r)) \<subseteq> {80, 79, 67, 70}" by (auto simp: flag_letters_def)
  then have "flag_letters (rule_flags r) = [] \<or> last (flag_letters (rule_flags r)) \<in> {80, 79, 67, 70}"
    using last_in_set by blast
  then have "last (d # flag_letters (rule_flags r)) \<noteq> newline" using assms(2) by (auto simp: registrable_def separable_def)
  then have "last (registration d r) \<noteq> newline" by (simp add: registration_def rule_fields_def)
  then have "strip_newline (registration d r) = d # f @ join_fields d fs" by (simp add: strip_newline_def reg)
  moreover have "split_fields 6 d (f @ join_fields d fs) = Some (rule_fields r)"
    using split_join [OF clean(1)] r by simp
  ultimately show ?thesis using assms parse_rule_fields clean(2)
    by (auto simp: md_binfmt_rule_parse_def registrable_def separable_def reg)
qed


section \<open>Properties\<close>

text \<open>
  C33: a registration that is accepted is a well-formed rule: a usable name, an absolute interpreter
  path, a non-empty pattern that lies within the 256 bytes of header that are read, and the open flag
  set where credentials are asked for. Such a rule always prints within the buffer the control file
  reserves for it.
\<close>

theorem binfmt_parse_sound:
  assumes "md_binfmt_rule_parse data = Inr r"
  shows "rule_ok r \<and> (\<exists>out. md_binfmt_rule_format r enabled 3072 = Inr out \<and> length out < 3072)"
  using parse_ok [OF assms] format_fits by blast

definition demo_format :: binfmt_rule where
  "demo_format = \<lparr>rule_name = lit ''elf'', rule_interpreter = lit ''/bin/qemu'', rule_flags = 6, rule_offset = 1,
     rule_size = 2, rule_extension = False, rule_magic = pad [69, 76], rule_mask = pad [255, 15]\<rparr>"

lemma demo_format_ok: "rule_ok demo_format"
  by (simp add: rule_ok_def demo_format_def names_valid_def lit_def BINFMT_NAME_MAX_def MD_BINFMT_REGISTER_MAX_def
      MD_BINFMT_HEADER_def MD_BINFMT_OPEN_def MD_BINFMT_CREDENTIALS_def pad_def)

lemma demo_registrable: "registrable 58 demo_format"
  by (simp add: registrable_def separable_def registration_def rule_fields_def demo_format_def lit_def decimal.simps
      magic_bytes_def pad_def escape_def digit_def flag_letters_def MD_BINFMT_REGISTER_MAX_def
      MD_BINFMT_PRESERVE_def MD_BINFMT_OPEN_def MD_BINFMT_CREDENTIALS_def MD_BINFMT_FIXED_def)

theorem binfmt_parse_sound_witness:
  "\<exists>out. md_binfmt_rule_format demo_format True 3072 = Inr out \<and> length out < 3072"
  using binfmt_parse_sound [OF parse_registration [OF demo_format_ok demo_registrable]] by blast




end
