(* ===== verification/Binfmt.thy ===== *)
theory Binfmt
  imports Guest_Identity Binfmt_Rule
begin

unbundle bit_operations_syntax

text \<open>
  The registry of binary formats and its control files, from \<^verbatim>\<open>src/native/shroot/src/binfmt.c\<close>. Each user
  namespace can have a view, a directory with the files \<^verbatim>\<open>status\<close> and \<^verbatim>\<open>register\<close> and one file for each
  entry. Entries are cells of a store named by address, since an open control file keeps its entry
  after the view has dropped it. The lock of the view makes every change one step. The answers of the
  operating system and of the file-system service that opens an interpreter are arguments.
\<close>

section \<open>Data\<close>

record binfmt_entry =
  entry_rule :: binfmt_rule
  entry_enabled :: bool
  entry_removed :: bool

record binfmt_view =
  view_owner :: ns_ptr
  view_entries :: "nat list"
  view_store :: "nat \<rightharpoonup> binfmt_entry"
  view_nodes :: "u8 list list"
  view_enabled :: bool

datatype binfmt_file = Status | Register | Entry_file nat

text \<open>What the system answers to the calls of one change.\<close>

record change_os =
  os_calloc :: "nat option"
  os_calloc_change :: bool
  os_readonly :: bool
  os_interpreter :: "errno option"
  os_create :: "errno option"
  os_fstat :: "errno option"
  os_unlink :: "u8 list \<Rightarrow> errno option"

section \<open>Matching a program\<close>

definition entry_at :: "binfmt_view \<Rightarrow> nat \<Rightarrow> binfmt_entry" where
  "entry_at v a = the (view_store v a)"

definition view_match :: "binfmt_view \<Rightarrow> u8 list \<Rightarrow> u8 list \<Rightarrow> nat option" where
  "view_match v path header = (if \<not> view_enabled v then None
     else find (\<lambda>a. entry_enabled (entry_at v a) \<and> md_binfmt_rule_matches (entry_rule (entry_at v a)) path header)
       (view_entries v))"

fun md_binfmt_match :: "user_store \<Rightarrow> binfmt_view list \<Rightarrow> ns_ptr \<Rightarrow> u8 list \<Rightarrow> u8 list
    \<Rightarrow> (binfmt_view \<times> nat) option" where
  "md_binfmt_match s mounts ns path header =
    (case find (\<lambda>v. same s (view_owner v) ns) mounts of
       Some v \<Rightarrow> map_option (\<lambda>a. (v, a)) (view_match v path header)
     | None \<Rightarrow> (case ns of [] \<Rightarrow> None | _ # up \<Rightarrow> md_binfmt_match s mounts up path header))"

declare md_binfmt_match.simps [simp del]

section \<open>Reading and changing a view\<close>

definition read_file :: "binfmt_view \<Rightarrow> binfmt_file \<Rightarrow> nat \<Rightarrow> int \<Rightarrow> u8 list result" where
  "read_file v f count offset =
    (if f = Register then Inl EINVAL
     else if offset < 0 then Inl EINVAL
     else case (case f of
         Entry_file a \<Rightarrow> if entry_removed (entry_at v a) then Inl ENOENT
           else md_binfmt_rule_format (entry_rule (entry_at v a)) (entry_enabled (entry_at v a))
             (MD_BINFMT_REGISTER_MAX + MD_BINFMT_HEADER * 4 + 128)
       | _ \<Rightarrow> Inr (lit (if view_enabled v then ''enabled'' else ''disabled'') @ [newline])) of
       Inl e \<Rightarrow> Inl e
     | Inr out \<Rightarrow> Inr (take count (drop (nat offset) out)))"

text \<open>
  Creating the node of an entry. A name that is there already is refused; a node whose status cannot
  be read is removed again, unless that fails as well.
\<close>

definition create_node :: "change_os \<Rightarrow> binfmt_view \<Rightarrow> u8 list \<Rightarrow> errno option \<times> binfmt_view" where
  "create_node os v name =
    (if name \<in> set (view_nodes v) then (Some EEXIST, v)
     else case os_create os of Some e \<Rightarrow> (Some e, v) | None \<Rightarrow>
       case os_fstat os of
         Some e \<Rightarrow> (Some e, if os_unlink os name = None then v else v\<lparr>view_nodes := name # view_nodes v\<rparr>)
       | None \<Rightarrow> (None, v\<lparr>view_nodes := name # view_nodes v\<rparr>))"

definition update_entry :: "nat \<Rightarrow> (binfmt_entry \<Rightarrow> binfmt_entry) \<Rightarrow> binfmt_view \<Rightarrow> binfmt_view" where
  "update_entry a f v = v\<lparr>view_store := (view_store v)(a := map_option f (view_store v a))\<rparr>"

definition drop_entry :: "nat \<Rightarrow> binfmt_view \<Rightarrow> binfmt_view" where
  "drop_entry a v = update_entry a (\<lambda>e. e\<lparr>entry_removed := True\<rparr>)
     (v\<lparr>view_entries := remove1 a (view_entries v),
        view_nodes := remove1 (rule_name (entry_rule (entry_at v a))) (view_nodes v)\<rparr>)"

text \<open>The entries in order: all of them, or only the one of the file.\<close>

fun remove_entries :: "change_os \<Rightarrow> nat option \<Rightarrow> nat list \<Rightarrow> binfmt_view \<Rightarrow> errno option \<times> binfmt_view" where
  "remove_entries os target [] v = (None, v)"
| "remove_entries os target (a # rest) v =
    (if target \<noteq> None \<and> target \<noteq> Some a then remove_entries os target rest v
     else case os_unlink os (rule_name (entry_rule (entry_at v a))) of
       Some e \<Rightarrow> (Some e, v)
     | None \<Rightarrow>
         if target \<noteq> None then (None, drop_entry a v)
         else remove_entries os target rest (drop_entry a v))"

datatype change = Add nat binfmt_rule | Enable bool | Remove

definition file_entry :: "binfmt_file \<Rightarrow> nat option" where
  "file_entry f = (case f of Entry_file a \<Rightarrow> Some a | _ \<Rightarrow> None)"

definition change_locked :: "change_os \<Rightarrow> binfmt_file \<Rightarrow> change \<Rightarrow> binfmt_view \<Rightarrow> errno option \<times> binfmt_view" where
  "change_locked os f c v =
    (case c of
       Add a r \<Rightarrow> (case create_node os v (rule_name r) of
           (Some e, v') \<Rightarrow> (Some e, v')
         | (None, v') \<Rightarrow> (None, v'\<lparr>view_entries := a # view_entries v',
             view_store := (view_store v')(a \<mapsto> \<lparr>entry_rule = r, entry_enabled = True, entry_removed = False\<rparr>)\<rparr>))
     | Enable b \<Rightarrow> (case file_entry f of
           Some a \<Rightarrow> if entry_removed (entry_at v a) then (Some ENOENT, v)
             else (None, update_entry a (\<lambda>e. e\<lparr>entry_enabled := b\<rparr>) v)
         | None \<Rightarrow> (None, v\<lparr>view_enabled := b\<rparr>))
     | Remove \<Rightarrow> (case file_entry f of
           Some a \<Rightarrow> if entry_removed (entry_at v a) then (Some ENOENT, v)
             else remove_entries os (Some a) (view_entries v) v
         | None \<Rightarrow> remove_entries os None (view_entries v) v))"

definition change_run ::
  "user_store \<Rightarrow> identity \<Rightarrow> change_os \<Rightarrow> binfmt_file \<Rightarrow> change \<Rightarrow> binfmt_view \<Rightarrow> errno option \<times> binfmt_view" where
  "change_run s actor os f c v =
    (if os_readonly os then (Some EROFS, v)
     else if \<not> md_identity_capable_in s actor (view_owner v) CAP_SYS_ADMIN then (Some EPERM, v)
     else case c of
       Add a r \<Rightarrow>
         if rule_flags r AND MD_BINFMT_FIXED \<noteq> 0 \<and> os_interpreter os \<noteq> None then (os_interpreter os, v)
         else change_locked os f c v
     | _ \<Rightarrow> change_locked os f c v)"

definition control_command :: "u8 list \<Rightarrow> change option" where
  "control_command bytes =
    (let s = strip_newline bytes
     in if s = lit ''0'' then Some (Enable False) else if s = lit ''1'' then Some (Enable True)
        else if s = lit ''-1'' then Some Remove else None)"

text \<open>The change that the bytes of a write stand for.\<close>

definition write_change :: "change_os \<Rightarrow> binfmt_file \<Rightarrow> u8 list \<Rightarrow> change result" where
  "write_change os f bytes =
    (if f = Register then
       (case os_calloc os of None \<Rightarrow> Inl ENOMEM
        | Some a \<Rightarrow> (case md_binfmt_rule_parse bytes of Inl e \<Rightarrow> Inl e | Inr r \<Rightarrow> Inr (Add a r)))
     else (case control_command bytes of None \<Rightarrow> Inl EINVAL | Some c \<Rightarrow> Inr c))"

definition opened_write ::
  "user_store \<Rightarrow> identity \<Rightarrow> change_os \<Rightarrow> binfmt_file \<Rightarrow> u8 list \<Rightarrow> binfmt_view \<Rightarrow> nat result \<times> binfmt_view" where
  "opened_write s actor os f bytes v =
    (if MD_BINFMT_REGISTER_MAX < length bytes \<or> bytes = [] then (Inl EINVAL, v)
     else if \<not> os_calloc_change os then (Inl ENOMEM, v)
     else case write_change os f bytes of
       Inl e \<Rightarrow> (Inl e, v)
     | Inr c \<Rightarrow> (case change_run s actor os f c v of
           (Some e, v') \<Rightarrow> (Inl e, v') | (None, v') \<Rightarrow> (Inr (length bytes), v')))"

text \<open>
  Mounting the registry in a namespace. \<open>tree\<close> is the outcome of allocating the view and its directory.
\<close>

definition md_binfmt_mount ::
  "user_store \<Rightarrow> identity \<Rightarrow> errno option \<Rightarrow> change_os \<Rightarrow> change_os \<Rightarrow> binfmt_view list
    \<Rightarrow> errno option \<times> binfmt_view list" where
  "md_binfmt_mount s actor tree os os' mounts =
    (if \<not> md_identity_capable_in s actor (id_ns actor) CAP_SYS_ADMIN then (Some EPERM, mounts)
     else if \<exists>v \<in> set mounts. same s (view_owner v) (id_ns actor) then (None, mounts)
     else case tree of Some e \<Rightarrow> (Some e, mounts) | None \<Rightarrow>
       case create_node os \<lparr>view_owner = id_ns actor, view_entries = [], view_store = Map.empty,
           view_nodes = [], view_enabled = True\<rparr> (lit ''status'') of
         (Some e, v) \<Rightarrow> (Some e, mounts)
       | (None, v) \<Rightarrow> (case create_node os' v (lit ''register'') of
           (Some e, v) \<Rightarrow> (Some e, mounts)
         | (None, v) \<Rightarrow> (None, v # mounts)))"

section \<open>Consistent views\<close>

definition entry_name :: "binfmt_view \<Rightarrow> nat \<Rightarrow> u8 list" where
  "entry_name v a = rule_name (entry_rule (entry_at v a))"

definition entry_live :: "binfmt_view \<Rightarrow> nat \<Rightarrow> bool" where
  "entry_live v a \<longleftrightarrow> view_store v a \<noteq> None \<and> \<not> entry_removed (entry_at v a) \<and> rule_ok (entry_rule (entry_at v a))"

definition view_ok :: "binfmt_view \<Rightarrow> bool" where
  "view_ok v \<longleftrightarrow> distinct (view_entries v) \<and> (\<forall>a \<in> set (view_entries v). entry_live v a)
     \<and> (\<forall>a. view_store v a \<noteq> None \<and> a \<notin> set (view_entries v) \<longrightarrow> entry_removed (entry_at v a))
     \<and> distinct (map (entry_name v) (view_entries v)) \<and> distinct (view_nodes v)
     \<and> entry_name v ` set (view_entries v) \<union> {lit ''status'', lit ''register''} \<subseteq> set (view_nodes v)
     \<and> lit ''status'' \<notin> entry_name v ` set (view_entries v) \<and> lit ''register'' \<notin> entry_name v ` set (view_entries v)"

text \<open>A write to an open control file, by anyone; the allocator returns memory that is not in use.\<close>

inductive binfmt_step :: "user_store \<Rightarrow> binfmt_view \<Rightarrow> binfmt_view \<Rightarrow> bool" for s where
  "\<forall>a. os_calloc os = Some a \<longrightarrow> view_store v a = None \<Longrightarrow> \<forall>a. f = Entry_file a \<longrightarrow> view_store v a \<noteq> None
    \<Longrightarrow> binfmt_step s v (snd (opened_write s actor os f bytes v))"

lemma update_entry_simps [simp]:
  "view_entries (update_entry a f v) = view_entries v" "view_nodes (update_entry a f v) = view_nodes v"
  "view_owner (update_entry a f v) = view_owner v"
  "view_store (update_entry a f v) b = (if b = a then map_option f (view_store v a) else view_store v b)"
  by (simp_all add: update_entry_def)

lemma entry_at_update:
  "view_store v a \<noteq> None \<Longrightarrow> entry_at (update_entry a f v) b = (if b = a then f (entry_at v a) else entry_at v b)"
  by (auto simp: entry_at_def)

lemma view_ok_keep:
  assumes "view_ok v" "view_entries v' = view_entries v" "view_store v' = view_store v"
    and "set (view_nodes v) \<subseteq> set (view_nodes v')" "distinct (view_nodes v')"
  shows "view_ok v'"
proof -
  have "entry_at v' = entry_at v" by (simp add: entry_at_def [abs_def] assms(3))
  then show ?thesis using assms unfolding view_ok_def entry_live_def entry_name_def by auto
qed

lemma enable_ok:
  assumes ok: "view_ok v" and a: "view_store v a \<noteq> None"
  shows "view_ok (update_entry a (\<lambda>e. e\<lparr>entry_enabled := b\<rparr>) v)"
proof -
  let ?v = "update_entry a (\<lambda>e. e\<lparr>entry_enabled := b\<rparr>) v"
  have "entry_name ?v = entry_name v" "entry_live ?v = entry_live v"
    using a by (auto simp: entry_name_def entry_live_def entry_at_update fun_eq_iff)
  moreover have "entry_removed (entry_at ?v x) = entry_removed (entry_at v x)" for x
    using a by (simp add: entry_at_update)
  ultimately show ?thesis using ok unfolding view_ok_def by auto
qed


lemma view_okD:
  assumes "view_ok v"
  shows "distinct (view_entries v)" "\<And>a. a \<in> set (view_entries v) \<Longrightarrow> entry_live v a"
    and "\<And>a. view_store v a \<noteq> None \<Longrightarrow> a \<notin> set (view_entries v) \<Longrightarrow> entry_removed (entry_at v a)"
    and "inj_on (entry_name v) (set (view_entries v))" "distinct (view_nodes v)"
    and "entry_name v ` set (view_entries v) \<union> {lit ''status'', lit ''register''} \<subseteq> set (view_nodes v)"
    and "lit ''status'' \<notin> entry_name v ` set (view_entries v)" "lit ''register'' \<notin> entry_name v ` set (view_entries v)"
  using assms by (auto simp: view_ok_def distinct_map)

lemma view_okI:
  assumes "distinct (view_entries v)" "\<And>a. a \<in> set (view_entries v) \<Longrightarrow> entry_live v a"
    and "\<And>a. view_store v a \<noteq> None \<Longrightarrow> a \<notin> set (view_entries v) \<Longrightarrow> entry_removed (entry_at v a)"
    and "inj_on (entry_name v) (set (view_entries v))" "distinct (view_nodes v)"
    and "entry_name v ` set (view_entries v) \<union> {lit ''status'', lit ''register''} \<subseteq> set (view_nodes v)"
    and "lit ''status'' \<notin> entry_name v ` set (view_entries v)" "lit ''register'' \<notin> entry_name v ` set (view_entries v)"
  shows "view_ok v"
  using assms by (auto simp: view_ok_def distinct_map)

lemma drop_entry_ok:
  assumes ok: "view_ok v" and a: "a \<in> set (view_entries v)"
  shows "view_ok (drop_entry a v)" "set (view_entries (drop_entry a v)) = set (view_entries v) - {a}"
proof -
  let ?v = "drop_entry a v"
  have st: "view_store v a \<noteq> None" using view_okD(2) [OF ok a] by (simp add: entry_live_def)
  then have at: "entry_at ?v b = (if b = a then (entry_at v a)\<lparr>entry_removed := True\<rparr> else entry_at v b)" for b
    by (auto simp: drop_entry_def entry_at_def)
  have sto: "view_store ?v b \<noteq> None \<longleftrightarrow> view_store v b \<noteq> None" for b by (simp add: drop_entry_def)
  have name: "entry_name ?v = entry_name v" by (simp add: entry_name_def at fun_eq_iff)
  have entries: "view_entries ?v = remove1 a (view_entries v)" by (simp add: drop_entry_def)
  show es: "set (view_entries ?v) = set (view_entries v) - {a}"
    using view_okD(1) [OF ok] by (simp add: entries)
  have ns: "set (view_nodes ?v) = set (view_nodes v) - {entry_name v a}"
    using view_okD(5) [OF ok] by (simp add: drop_entry_def entry_name_def)
  have live: "entry_live ?v b" if "b \<in> set (view_entries ?v)" for b
    using that view_okD(2) [OF ok, of b] unfolding es entry_live_def sto at by auto
  have inj: "entry_name v b \<noteq> entry_name v a" if "b \<in> set (view_entries v)" "b \<noteq> a" for b
    using view_okD(4) [OF ok] a that by (auto simp: inj_on_def)
  show "view_ok ?v"
  proof (rule view_okI)
    show "distinct (view_entries ?v)" "distinct (view_nodes ?v)"
      using view_okD(1,5) [OF ok] by (simp_all add: drop_entry_def)
    show "entry_removed (entry_at ?v b)" if "view_store ?v b \<noteq> None" "b \<notin> set (view_entries ?v)" for b
      using that view_okD(3) [OF ok, of b] unfolding es sto at by auto
    show "inj_on (entry_name ?v) (set (view_entries ?v))"
      using view_okD(4) [OF ok] unfolding name es by (rule inj_on_subset) auto
    show "entry_name ?v ` set (view_entries ?v) \<union> {lit ''status'', lit ''register''} \<subseteq> set (view_nodes ?v)"
      using view_okD(6,7,8) [OF ok] a inj unfolding name es ns by auto
  qed (use live view_okD(7,8) [OF ok] in \<open>auto simp: name es\<close>)
qed

lemma remove_entries_ok:
  "view_ok v \<Longrightarrow> set as \<subseteq> set (view_entries v) \<Longrightarrow> distinct as \<Longrightarrow> view_ok (snd (remove_entries os target as v))"
proof (induction os target as v rule: remove_entries.induct)
  case (2 os target a rest v)
  have d: "view_ok (drop_entry a v)" "set rest \<subseteq> set (view_entries (drop_entry a v))"
    using drop_entry_ok [of v a] 2(3-5) by auto
  with 2 show ?case by (auto split: option.splits)
qed simp

lemma create_node_ok:
  assumes "view_ok v" "create_node os v n = (e, v')"
  shows "view_ok v' \<and> view_entries v' = view_entries v \<and> view_store v' = view_store v \<and> view_enabled v' = view_enabled v
    \<and> view_owner v' = view_owner v \<and> (e = None \<longrightarrow> n \<notin> set (view_nodes v) \<and> view_nodes v' = n # view_nodes v)"
proof -
  have "view_ok (v\<lparr>view_nodes := n # view_nodes v\<rparr>)" if "n \<notin> set (view_nodes v)"
    using that view_okD(5) [OF assms(1)] by (intro view_ok_keep [OF assms(1)]) auto
  with assms show ?thesis
    by (cases "os_create os"; cases "os_fstat os") (auto simp: create_node_def split: if_splits, metis+)
qed

lemma add_entry_ok:
  assumes ok: "view_ok v" and r: "rule_ok r" and a: "view_store v a = None" and fn: "rule_name r \<notin> set (view_nodes v)"
    and w: "view_entries w = a # view_entries v" "view_nodes w = rule_name r # view_nodes v"
      "view_store w = (view_store v)(a \<mapsto> \<lparr>entry_rule = r, entry_enabled = True, entry_removed = False\<rparr>)"
  shows "view_ok w"
proof -
  have at: "entry_at w b = (if b = a then \<lparr>entry_rule = r, entry_enabled = True, entry_removed = False\<rparr> else entry_at v b)" for b
    by (simp add: entry_at_def w)
  have fresh: "a \<notin> set (view_entries v)" using view_okD(2) [OF ok, of a] a by (auto simp: entry_live_def)
  have name: "entry_name w b = (if b = a then rule_name r else entry_name v b)" for b by (simp add: entry_name_def at)
  have old: "entry_name w ` set (view_entries v) = entry_name v ` set (view_entries v)"
    using fresh by (intro image_cong) (auto simp: name)
  have new: "rule_name r \<notin> entry_name v ` set (view_entries v)" "rule_name r \<notin> {lit ''status'', lit ''register''}"
    using fn view_okD(6) [OF ok] by auto
  have "inj_on (entry_name w) (set (view_entries v))"
    using view_okD(4) [OF ok] fresh inj_on_cong [of "set (view_entries v)" "entry_name w" "entry_name v"]
    by (metis name)
  moreover have "entry_name w a \<notin> entry_name w ` set (view_entries v)" unfolding old using new(1) by (simp add: name)
  ultimately have inj: "inj_on (entry_name w) (insert a (set (view_entries v)))" using fresh by (simp add: inj_on_insert)
  show ?thesis
  proof (rule view_okI)
    show "inj_on (entry_name w) (set (view_entries w))" using inj w(1) by simp
    show "entry_live w b" if "b \<in> set (view_entries w)" for b
      using that view_okD(2) [OF ok, of b] r by (auto simp: entry_live_def at w)
    show "entry_removed (entry_at w b)" if "view_store w b \<noteq> None" "b \<notin> set (view_entries w)" for b
      using that view_okD(3) [OF ok, of b] by (auto simp: at w)
    show "entry_name w ` set (view_entries w) \<union> {lit ''status'', lit ''register''} \<subseteq> set (view_nodes w)"
      using view_okD(6) [OF ok] by (auto simp: old name w)
    show "lit ''status'' \<notin> entry_name w ` set (view_entries w)" "lit ''register'' \<notin> entry_name w ` set (view_entries w)"
      using view_okD(7,8) [OF ok] new(2) by (auto simp: old name w)
  qed (use w fn view_okD(1,5) [OF ok] fresh in auto)
qed

lemma change_locked_ok:
  assumes ok: "view_ok v" and c: "\<forall>a r. c = Add a r \<longrightarrow> rule_ok r \<and> view_store v a = None"
    and f: "\<forall>a. f = Entry_file a \<longrightarrow> view_store v a \<noteq> None"
  shows "view_ok (snd (change_locked os f c v))"
proof (cases c)
  case (Add a r)
  obtain e v' where n: "create_node os v (rule_name r) = (e, v')" by fastforce
  show ?thesis
  proof (cases e)
    case None
    with create_node_ok [OF ok n] n Add c show ?thesis
      by (auto simp: change_locked_def intro!: add_entry_ok [OF ok, of r a])
  next
    case (Some x)
    with create_node_ok [OF ok n] n Add show ?thesis by (simp add: change_locked_def)
  qed
next
  case (Enable b)
  have "view_ok (v\<lparr>view_enabled := b\<rparr>)" using view_okD(5) [OF ok] by (intro view_ok_keep [OF ok]) auto
  with Enable ok f enable_ok [OF ok] show ?thesis
    by (auto simp: change_locked_def file_entry_def split: binfmt_file.splits)
next
  case Remove
  with ok remove_entries_ok [OF ok] view_okD(1) [OF ok] show ?thesis
    by (auto simp: change_locked_def split: option.splits)
qed

lemma change_run_ok:
  assumes "view_ok v" "\<forall>a r. c = Add a r \<longrightarrow> rule_ok r \<and> view_store v a = None"
    and "\<forall>a. f = Entry_file a \<longrightarrow> view_store v a \<noteq> None"
  shows "view_ok (snd (change_run s actor os f c v))"
  using assms(1) change_locked_ok [OF assms] by (auto simp: change_run_def split: change.splits)

lemma change_run_needs_admin:
  assumes "snd (change_run s actor os f c v) \<noteq> v"
  shows "md_identity_capable_in s actor (view_owner v) CAP_SYS_ADMIN"
  using assms by (auto simp: change_run_def split: if_splits)

text \<open>What a write does: nothing, or the change its bytes stand for.\<close>

lemma write_change_add:
  assumes "write_change os f bytes = Inr (Add a r)"
  shows "rule_ok r \<and> os_calloc os = Some a"
proof -
  have "control_command bytes \<noteq> Some (Add a r)" by (simp add: control_command_def Let_def)
  with assms parse_ok show ?thesis
    by (auto simp: write_change_def split: if_splits option.splits sum.splits)
qed

lemma opened_write_cases:
  obtains "snd (opened_write s actor os f bytes v) = v"
  | c where "snd (opened_write s actor os f bytes v) = snd (change_run s actor os f c v)"
      "\<forall>a r. c = Add a r \<longrightarrow> rule_ok r \<and> os_calloc os = Some a"
proof (cases "write_change os f bytes")
  case (Inl e)
  then show thesis by (intro that(1)) (simp add: opened_write_def)
next
  case (Inr c)
  obtain e v' where "change_run s actor os f c v = (e, v')" by fastforce
  with Inr have "snd (opened_write s actor os f bytes v) \<in> {v, snd (change_run s actor os f c v)}"
    by (auto simp: opened_write_def split: option.splits)
  with write_change_add [of os f bytes] Inr that show thesis by blast
qed

lemma step_view_ok:
  assumes "binfmt_step s v w" "view_ok v"
  shows "view_ok w"
  using assms(1)
proof cases
  case (1 os f actor bytes)
  show ?thesis
  proof (cases rule: opened_write_cases [of s actor os f bytes v])
    case 1
    with assms(2) \<open>w = _\<close> show ?thesis by simp
  next
    case (2 c)
    with \<open>w = _\<close> 1(2,3) change_run_ok [OF assms(2), of c f s actor os] show ?thesis by auto
  qed
qed

lemma write_needs_admin:
  assumes "snd (opened_write s actor os f bytes v) \<noteq> v"
  shows "md_identity_capable_in s actor (view_owner v) CAP_SYS_ADMIN"
  using assms change_run_needs_admin
  by (cases rule: opened_write_cases [of s actor os f bytes v]) auto

lemma fresh_view_ok:
  "view_ok \<lparr>view_owner = ns, view_entries = [], view_store = Map.empty,
     view_nodes = [lit ''register'', lit ''status''], view_enabled = True\<rparr>"
  by (simp add: view_ok_def lit_def)

lemma mount_cases:
  "snd (md_binfmt_mount s actor tree os os' mounts) \<in> {mounts, \<lparr>view_owner = id_ns actor, view_entries = [],
     view_store = Map.empty, view_nodes = [lit ''register'', lit ''status''], view_enabled = True\<rparr> # mounts}"
  by (simp add: md_binfmt_mount_def create_node_def lit_def split: option.splits)

lemma mount_view_ok:
  "\<forall>v \<in> set mounts. view_ok v \<Longrightarrow> \<forall>v \<in> set (snd (md_binfmt_mount s actor tree os os' mounts)). view_ok v"
  using mount_cases [of s actor tree os os' mounts] fresh_view_ok by auto

section \<open>The nearest view decides\<close>

fun enclosing :: "ns_ptr \<Rightarrow> ns_ptr list" where
  "enclosing [] = [[]]"
| "enclosing (a # up) = (a # up) # enclosing up"

text \<open>The views that govern a namespace, the nearest first.\<close>

definition governing :: "user_store \<Rightarrow> binfmt_view list \<Rightarrow> ns_ptr \<Rightarrow> binfmt_view list" where
  "governing s mounts ns = concat (map (\<lambda>n. filter (\<lambda>v. same s (view_owner v) n) mounts) (enclosing ns))"

lemma governing_simps:
  "governing s mounts [] = filter (\<lambda>v. same s (view_owner v) []) mounts"
  "governing s mounts (a # up) = filter (\<lambda>v. same s (view_owner v) (a # up)) mounts @ governing s mounts up"
  by (simp_all add: governing_def)

lemma find_filter: "find P xs = (case filter P xs of [] \<Rightarrow> None | x # _ \<Rightarrow> Some x)"
  by (induction xs) auto

lemma match_governing:
  "md_binfmt_match s mounts ns path header = (case governing s mounts ns of [] \<Rightarrow> None
     | v # _ \<Rightarrow> map_option (\<lambda>a. (v, a)) (view_match v path header))"
proof (induction ns)
  case Nil
  show ?case
    by (subst md_binfmt_match.simps) (simp add: governing_simps find_filter split: list.splits)
next
  case (Cons a up)
  then show ?case
    by (subst md_binfmt_match.simps, cases "filter (\<lambda>v. same s (view_owner v) (a # up)) mounts")
      (simp_all add: governing_simps find_filter)
qed

lemma governing_contains:
  assumes "v \<in> set (governing s mounts ns)"
  shows "v \<in> set mounts \<and> md_user_namespace_contains s (view_owner v) ns"
  using assms
proof (induction ns)
  case Nil
  then show ?case by (auto simp: governing_simps md_user_namespace_contains.simps same_def)
next
  case (Cons a up)
  then show ?case
    by (subst md_user_namespace_contains.simps) (auto simp: governing_simps same_def same_id_def)
qed

section \<open>Properties\<close>

text \<open>
  C30: the registry of binary formats stays consistent and only its administrators change it. Under
  every sequence of writes to control files of a view, by any callers and with any failures of the
  system, the entries of the view are well-formed rules that are not removed, no two have the same
  name or that of a control file, and each has its node; a write that changes the view is by a caller
  with the administration capability over the namespace of the view.
\<close>

theorem binfmt_registry_consistent:
  assumes "v \<in> set (snd (md_binfmt_mount s opener tree os1 os2 []))" "(binfmt_step s)\<^sup>*\<^sup>* v w"
  shows "view_ok w \<and> (snd (opened_write s actor os f bytes w) \<noteq> w \<longrightarrow>
    md_identity_capable_in s actor (view_owner w) CAP_SYS_ADMIN)"
  using assms(2)
proof (induction rule: rtranclp_induct)
  case base
  with assms(1) mount_view_ok [of "[]"] write_needs_admin show ?case by simp
next
  case (step w x)
  then show ?case using step_view_ok write_needs_admin by blast
qed

definition demo_view :: binfmt_view where
  "demo_view = \<lparr>view_owner = [], view_entries = [], view_store = Map.empty,
     view_nodes = [lit ''register'', lit ''status''], view_enabled = True\<rparr>"

definition demo_change_os :: change_os where
  "demo_change_os = \<lparr>os_calloc = Some 3, os_calloc_change = True, os_readonly = False, os_interpreter = None,
     os_create = None, os_fstat = None, os_unlink = (\<lambda>_. None)\<rparr>"

definition demo_registered :: binfmt_view where
  "demo_registered = snd (opened_write initial_store (md_identity_new 0 0) demo_change_os Register (registration 58 demo_format) demo_view)"

lemma demo_admin: "md_identity_capable_in initial_store (md_identity_new 0 0) [] CAP_SYS_ADMIN"
  by (simp add: md_identity_capable_in_def md_user_namespace_capable_def capable_walk.simps same_def CAP_SYS_ADMIN_def
      md_identity_new_def MD_CAP_VALID_def MD_CAP_LAST_def)

lemma demo_registered_eq:
  "demo_registered = demo_view\<lparr>view_entries := [3], view_nodes := lit ''elf'' # view_nodes demo_view,
     view_store := [3 \<mapsto> \<lparr>entry_rule = demo_format, entry_enabled = True, entry_removed = False\<rparr>]\<rparr>"
proof -
  have "length (registration 58 demo_format) \<le> MD_BINFMT_REGISTER_MAX" "registration 58 demo_format \<noteq> []"
    using demo_registrable by (auto simp: registrable_def registration_def rule_fields_def)
  then show ?thesis
    using demo_admin parse_registration [OF demo_format_ok demo_registrable]
    by (simp add: demo_registered_def opened_write_def write_change_def change_run_def change_locked_def
        create_node_def demo_change_os_def demo_view_def demo_format_def lit_def MD_BINFMT_FIXED_def)
qed

theorem binfmt_registry_consistent_witness:
  "view_ok demo_registered \<and> view_entries demo_registered = [3]"
proof -
  have "demo_view \<in> set (snd (md_binfmt_mount initial_store (md_identity_new 0 0) None demo_change_os demo_change_os []))"
    using demo_admin by (simp add: md_binfmt_mount_def create_node_def demo_change_os_def demo_view_def lit_def md_identity_new_def)
  moreover have "binfmt_step initial_store demo_view demo_registered"
    unfolding demo_registered_def by (rule binfmt_step.intros) (simp_all add: demo_view_def)
  ultimately show ?thesis
    using binfmt_registry_consistent [OF _ r_into_rtranclp] by (simp add: demo_registered_eq)
qed

text \<open>
  C34: the nearest view decides how a program is run. Among the views of the namespace of the program
  and of those that enclose it, the nearest one shadows the others: the outcome is its first enabled
  entry that matches, or none. A rule that is applied therefore belongs to a namespace that contains
  the program, is enabled in an enabled view, and matches the path or the header.
\<close>

theorem binfmt_nearest_match:
  "md_binfmt_match s mounts ns path header = (case governing s mounts ns of [] \<Rightarrow> None
     | v # _ \<Rightarrow> map_option (\<lambda>a. (v, a)) (view_match v path header))
   \<and> (\<forall>v a. md_binfmt_match s mounts ns path header = Some (v, a) \<longrightarrow>
       v \<in> set mounts \<and> md_user_namespace_contains s (view_owner v) ns \<and> view_enabled v \<and> a \<in> set (view_entries v)
       \<and> entry_enabled (entry_at v a) \<and> md_binfmt_rule_matches (entry_rule (entry_at v a)) path header)"
proof -
  have "v \<in> set mounts \<and> md_user_namespace_contains s (view_owner v) ns \<and> view_enabled v \<and> a \<in> set (view_entries v)
      \<and> entry_enabled (entry_at v a) \<and> md_binfmt_rule_matches (entry_rule (entry_at v a)) path header"
    if "md_binfmt_match s mounts ns path header = Some (v, a)" for v a
  proof -
    from that obtain vs where g: "governing s mounts ns = v # vs" and m: "view_match v path header = Some a"
      unfolding match_governing by (auto split: list.splits)
    have "view_enabled v" "find (\<lambda>a. entry_enabled (entry_at v a)
        \<and> md_binfmt_rule_matches (entry_rule (entry_at v a)) path header) (view_entries v) = Some a"
      using m by (auto simp: view_match_def split: if_splits)
    with find_SomeD governing_contains [of v s mounts ns] g show ?thesis by fastforce
  qed
  then show ?thesis using match_governing by blast
qed


theorem binfmt_nearest_match_witness:
  "md_binfmt_match initial_store [demo_registered] [] [] [0, 69, 76] = Some (demo_registered, 3)
   \<and> entry_enabled (entry_at demo_registered 3)"
proof -
  have "md_binfmt_match initial_store [demo_registered] [] [] [0, 69, 76] = Some (demo_registered, 3)"
    by (simp add: md_binfmt_match.simps demo_registered_eq demo_view_def same_def view_match_def entry_at_def
        md_binfmt_rule_matches_def demo_format_def pad_def upt_rec)
  with binfmt_nearest_match [of initial_store "[demo_registered]" "[]" "[]" "[0, 69, 76]"] show ?thesis by blast
qed

end
