(* ===== verification/Mount_Propagation.thy ===== *)
theory Mount_Propagation
  imports Prelude "HOL-Library.Multiset"
begin

text \<open>
  Mount propagation, from \<^verbatim>\<open>src/native/shroot/src/mount_propagation.c\<close>: peer groups with their reference
  counts, the links of a mount to the group it shares with and the group it follows, the four changes
  of propagation, and the families of mount namespaces. Groups are cells of a store. A pointer to a
  group is the list of its address and those of its parents, innermost first, and \<open>[]\<close> is the null
  pointer; the parent of a group is set when it is made. \<open>calloc\<close> and the allocator of mount numbers
  answer through arguments.
\<close>

section \<open>Data\<close>

definition MS_UNBINDABLE :: u32 where "MS_UNBINDABLE = 0x20000"
definition MS_PRIVATE :: u32 where "MS_PRIVATE = 0x40000"
definition MS_SLAVE :: u32 where "MS_SLAVE = 0x80000"
definition MS_SHARED :: u32 where "MS_SHARED = 0x100000"

type_synonym group_ptr = "nat list"

record mount_group =
  references :: u32
  group_id :: u32
  foreign :: bool
  group_parent :: group_ptr

type_synonym group_store = "nat \<rightharpoonup> mount_group"

record mount_links =
  shared :: group_ptr
  master :: group_ptr
  unbindable :: bool

definition no_links :: mount_links where
  "no_links = \<lparr>shared = [], master = [], unbindable = False\<rparr>"

text \<open>A mount as the propagation code reads it; its links are named by its address.\<close>

record view_mount =
  mount_address :: nat
  mount_id :: u32
  detached :: bool
  mount_links :: mount_links

text \<open>What the allocators answer: an address or nothing, and a mount number or an error.\<close>

record group_os =
  os_group :: "nat option"
  os_number :: "u32 result"

section \<open>Groups\<close>

definition group_at :: "group_store \<Rightarrow> nat \<Rightarrow> mount_group" where
  "group_at s a = the (s a)"

definition md_mount_group_retain :: "group_ptr \<Rightarrow> group_store \<Rightarrow> group_store" where
  "md_mount_group_retain g s = (case g of [] \<Rightarrow> s
     | a # _ \<Rightarrow> s(a \<mapsto> (group_at s a)\<lparr>references := references (group_at s a) + 1\<rparr>))"

fun md_mount_group_release :: "group_ptr \<Rightarrow> group_store \<Rightarrow> group_store" where
  "md_mount_group_release [] s = s"
| "md_mount_group_release (a # up) s =
    (if references (group_at s a) = 1 then md_mount_group_release up (s(a := None))
     else s(a \<mapsto> (group_at s a)\<lparr>references := references (group_at s a) - 1\<rparr>))"

definition md_mount_group_new :: "group_os \<Rightarrow> group_ptr \<Rightarrow> group_store \<Rightarrow> group_ptr result \<times> group_store" where
  "md_mount_group_new os up s =
    (case os_group os of None \<Rightarrow> (Inl ENOMEM, s) | Some a \<Rightarrow>
     case os_number os of Inl e \<Rightarrow> (Inl e, s) | Inr i \<Rightarrow>
       (Inr (a # up), (md_mount_group_retain up s)
          (a \<mapsto> \<lparr>references = 1, group_id = i, foreign = False, group_parent = up\<rparr>)))"

definition observe :: "nat option \<Rightarrow> u32 \<Rightarrow> group_ptr \<Rightarrow> group_store \<Rightarrow> group_ptr \<times> group_store" where
  "observe alloc i up s =
    (if i = 0 then ([], s)
     else case alloc of None \<Rightarrow> ([], s) | Some a \<Rightarrow>
       (a # up, (md_mount_group_retain up s)(a \<mapsto> \<lparr>references = 1, group_id = i, foreign = True, group_parent = up\<rparr>)))"

definition md_mount_group_id :: "group_store \<Rightarrow> group_ptr \<Rightarrow> u32" where
  "md_mount_group_id s g = (case g of [] \<Rightarrow> 0 | a # _ \<Rightarrow> group_id (group_at s a))"

definition md_mount_group_parent :: "group_ptr \<Rightarrow> group_ptr" where
  "md_mount_group_parent g = tl g"

fun md_mount_group_contains :: "group_ptr \<Rightarrow> group_ptr \<Rightarrow> bool" where
  "md_mount_group_contains g [] = False"
| "md_mount_group_contains [] (b # bs) = False"
| "md_mount_group_contains (a # up) (b # bs) = (if a = b then True else md_mount_group_contains up (b # bs))"

section \<open>Links\<close>

definition md_mount_links_copy :: "mount_links \<Rightarrow> group_store \<Rightarrow> mount_links \<times> group_store" where
  "md_mount_links_copy l s = (l, md_mount_group_retain (master l) (md_mount_group_retain (shared l) s))"

definition md_mount_links_release :: "mount_links \<Rightarrow> group_store \<Rightarrow> group_store" where
  "md_mount_links_release l s = md_mount_group_release (master l) (md_mount_group_release (shared l) s)"

definition md_mount_links_foreign :: "group_store \<Rightarrow> mount_links \<Rightarrow> bool" where
  "md_mount_links_foreign s l \<longleftrightarrow> (shared l \<noteq> [] \<and> foreign (group_at s (hd (shared l))))
     \<or> (master l \<noteq> [] \<and> foreign (group_at s (hd (master l))))"

definition md_mount_links_observe ::
  "nat option \<Rightarrow> nat option \<Rightarrow> u32 \<Rightarrow> u32 \<Rightarrow> u32 \<Rightarrow> group_store \<Rightarrow> mount_links result \<times> group_store" where
  "md_mount_links_observe alloc_master alloc_shared sh ma un s =
    (if (un \<noteq> 0 \<and> (sh \<noteq> 0 \<or> ma \<noteq> 0)) \<or> (sh \<noteq> 0 \<and> sh = ma) \<or> 1 < un then (Inl EPROTO, s)
     else let (m, s1) = observe alloc_master ma [] s
       in if ma \<noteq> 0 \<and> m = [] then (Inl ENOMEM, s1)
          else let (g, s2) = observe alloc_shared sh m s1
            in if sh \<noteq> 0 \<and> g = []
               then (Inl ENOMEM, md_mount_links_release \<lparr>shared = [], master = m, unbindable = un \<noteq> 0\<rparr> s2)
               else (Inr \<lparr>shared = g, master = m, unbindable = un \<noteq> 0\<rparr>, s2))"

text \<open>
  The nearest group, from \<open>g\<close> upwards, that some attached mount other than the excluded one shares
  with.
\<close>

definition shares :: "view_mount list list \<Rightarrow> nat option \<Rightarrow> group_ptr \<Rightarrow> bool" where
  "shares members excluded g \<longleftrightarrow> list_ex (list_ex (\<lambda>m. mount_id m \<noteq> 0 \<and> \<not> detached m
     \<and> excluded \<noteq> Some (mount_address m) \<and> shared (mount_links m) = g)) members"

fun md_mount_group_live :: "view_mount list list \<Rightarrow> group_ptr \<Rightarrow> nat option \<Rightarrow> group_ptr" where
  "md_mount_group_live members [] excluded = []"
| "md_mount_group_live members (a # up) excluded =
    (if shares members excluded (a # up) then a # up else md_mount_group_live members up excluded)"

definition md_mount_links_change ::
  "group_os \<Rightarrow> view_mount list list \<Rightarrow> nat option \<Rightarrow> mount_links \<Rightarrow> u32 \<Rightarrow> group_store
    \<Rightarrow> mount_links result \<times> group_store" where
  "md_mount_links_change os members self old propagation s =
    (if propagation = MS_PRIVATE then (Inr no_links, s)
     else if propagation = MS_UNBINDABLE then (Inr (no_links\<lparr>unbindable := True\<rparr>), s)
     else if propagation = MS_SHARED then
       (let (l, s1) = md_mount_links_copy old s; next_links = l\<lparr>unbindable := False\<rparr>
        in if shared next_links \<noteq> [] then (Inr next_links, s1)
           else let up = md_mount_group_live members (master next_links) None
             in case md_mount_group_new os up s1 of
                  (Inl e, s2) \<Rightarrow> (Inl e, md_mount_links_release next_links s2)
                | (Inr g, s2) \<Rightarrow>
                    (Inr (next_links\<lparr>shared := g, master := up\<rparr>),
                     md_mount_group_retain up (md_mount_group_release (master next_links) s2)))
     else if propagation = MS_SLAVE then
       (if shared old = [] then (let (l, s1) = md_mount_links_copy old s in (Inr l, s1))
        else let up = md_mount_group_live members (shared old) self
          in (Inr (no_links\<lparr>master := up\<rparr>), md_mount_group_retain up s))
     else (Inl EINVAL, s))"


section \<open>Families of namespaces\<close>

text \<open>
  The namespaces copied from one another form a family. The fields of a namespace that this code uses
  are maps from its address: the family it is in, its references, and whether it has detached mounts.
  The lock of the family makes each operation one step.
\<close>

record mount_family =
  family_count :: u32
  family_first :: "nat list"
  family_collect :: bool

record family_store =
  families :: "nat \<rightharpoonup> mount_family"
  view_family :: "nat \<rightharpoonup> nat"
  view_refs :: "nat \<Rightarrow> u32"
  detached_mounts :: "nat \<Rightarrow> bool"

definition family_at :: "family_store \<Rightarrow> nat \<Rightarrow> mount_family" where
  "family_at t f = the (families t f)"

definition md_mount_family_new :: "nat option \<Rightarrow> errno option \<Rightarrow> nat \<Rightarrow> family_store \<Rightarrow> errno option \<times> family_store" where
  "md_mount_family_new alloc mutex v t =
    (case alloc of None \<Rightarrow> (Some ENOMEM, t) | Some f \<Rightarrow>
     case mutex of Some e \<Rightarrow> (Some e, t) | None \<Rightarrow>
       (None, t\<lparr>families := (families t)(f \<mapsto> \<lparr>family_count = 1, family_first = [v], family_collect = False\<rparr>),
          view_family := (view_family t)(v \<mapsto> f)\<rparr>))"

definition md_mount_family_leave :: "nat \<Rightarrow> family_store \<Rightarrow> family_store" where
  "md_mount_family_leave v t =
    (case view_family t v of None \<Rightarrow> t | Some f \<Rightarrow>
       let c = family_at t f;
         c' = (if v \<in> set (family_first c)
           then c\<lparr>family_first := remove1 v (family_first c), family_count := family_count c - 1\<rparr> else c)
       in t\<lparr>families := (families t)(f := if family_count c' = 0 then None else Some c'),
            view_family := (view_family t)(v := None)\<rparr>)"

definition md_mount_family_join :: "nat \<Rightarrow> nat \<Rightarrow> family_store \<Rightarrow> family_store" where
  "md_mount_family_join v source t =
    (if view_family t v = view_family t source then t
     else let t1 = md_mount_family_leave v t; f = the (view_family t1 source); c = family_at t1 f
       in t1\<lparr>families := (families t1)(f \<mapsto> c\<lparr>family_first := v # family_first c, family_count := family_count c + 1\<rparr>),
             view_family := (view_family t1)(v \<mapsto> f)\<rparr>)"

definition md_mount_family_capture :: "bool \<Rightarrow> nat \<Rightarrow> family_store \<Rightarrow> nat list result \<times> family_store" where
  "md_mount_family_capture alloc v t =
    (case view_family t v of None \<Rightarrow> (Inl EINVAL, t) | Some f \<Rightarrow>
     if \<not> alloc then (Inl ENOMEM, t)
     else let live = filter (\<lambda>n. view_refs t n \<noteq> 0) (family_first (family_at t f))
       in (Inr live, t\<lparr>view_refs := (\<lambda>n. if n \<in> set live then view_refs t n + 1 else view_refs t n)\<rparr>))"

text \<open>Whether the wake-up is signalled, and whether there is something to collect.\<close>

definition md_mount_family_retire :: "nat \<Rightarrow> family_store \<Rightarrow> bool \<times> family_store" where
  "md_mount_family_retire v t =
    (case view_family t v of None \<Rightarrow> (False, t) | Some f \<Rightarrow>
     if \<not> detached_mounts t v then (False, t)
     else (\<not> family_collect (family_at t f), t\<lparr>families := (families t)(f \<mapsto> (family_at t f)\<lparr>family_collect := True\<rparr>)\<rparr>))"

definition md_mount_family_take_collection :: "nat \<Rightarrow> family_store \<Rightarrow> bool \<times> family_store" where
  "md_mount_family_take_collection v t =
    (case view_family t v of None \<Rightarrow> (False, t) | Some f \<Rightarrow>
     (family_collect (family_at t f), t\<lparr>families := (families t)(f \<mapsto> (family_at t f)\<lparr>family_collect := False\<rparr>)\<rparr>))"

section \<open>Exact reference counts\<close>

text \<open>
  A pointer is good when every group on its way is there with the rest of the pointer as its parent.
  The references of a group are the pointers that are held to it and the groups that have it as
  parent.
\<close>

fun ptr_ok :: "group_store \<Rightarrow> group_ptr \<Rightarrow> bool" where
  "ptr_ok s [] = True"
| "ptr_ok s (a # up) = (s a \<noteq> None \<and> group_parent (group_at s a) = up \<and> ptr_ok s up)"

definition points_to :: "nat \<Rightarrow> group_ptr \<Rightarrow> bool" where
  "points_to a p \<longleftrightarrow> p \<noteq> [] \<and> hd p = a"

definition children :: "group_store \<Rightarrow> nat \<Rightarrow> nat set" where
  "children s a = {b \<in> dom s. points_to a (group_parent (group_at s b))}"

definition holds :: "nat \<Rightarrow> group_ptr multiset \<Rightarrow> nat" where
  "holds a ps = size (filter_mset (points_to a) ps)"

definition groups_ok :: "group_store \<Rightarrow> group_ptr multiset \<Rightarrow> bool" where
  "groups_ok s ps \<longleftrightarrow> finite (dom s) \<and> (\<forall>p \<in># ps. ptr_ok s p)
     \<and> (\<forall>a \<in> dom s. ptr_ok s (a # group_parent (group_at s a)) \<and> references (group_at s a) \<noteq> 0
          \<and> unat (references (group_at s a)) = holds a ps + card (children s a))"

text \<open>Room for \<open>k\<close> more references to every group before its 32-bit count wraps.\<close>

definition room :: "nat \<Rightarrow> group_store \<Rightarrow> bool" where
  "room k s \<longleftrightarrow> (\<forall>a \<in> dom s. unat (references (group_at s a)) + k < 2 ^ 32)"

lemma holds_add [simp]: "holds a (add_mset p ps) = (if points_to a p then 1 else 0) + holds a ps"
  by (simp add: holds_def)

lemma points_to_simps [simp]: "\<not> points_to a []" "points_to a (b # up) \<longleftrightarrow> b = a"
  by (auto simp: points_to_def)

lemma groups_okD:
  assumes "groups_ok s ps"
  shows "finite (dom s)" "\<And>p. p \<in># ps \<Longrightarrow> ptr_ok s p"
    and "\<And>a. a \<in> dom s \<Longrightarrow> ptr_ok s (a # group_parent (group_at s a))"
    and "\<And>a. a \<in> dom s \<Longrightarrow> references (group_at s a) \<noteq> 0"
    and "\<And>a. a \<in> dom s \<Longrightarrow> unat (references (group_at s a)) = holds a ps + card (children s a)"
  using assms by (auto simp: groups_ok_def)

lemma group_at_upd [simp]: "group_at (s(a \<mapsto> c)) b = (if b = a then c else group_at s b)"
  by (simp add: group_at_def)

lemma children_finite: "finite (dom s) \<Longrightarrow> finite (children s a)"
  by (simp add: children_def)

text \<open>Changing the count of a group changes neither pointers nor children.\<close>

lemma count_frame:
  fixes n :: u32
  assumes "s a \<noteq> None"
  defines "t \<equiv> s(a \<mapsto> (group_at s a)\<lparr>references := n\<rparr>)"
  shows "dom t = dom s" "ptr_ok t p = ptr_ok s p" "children t b = children s b"
    and "group_parent (group_at t b) = group_parent (group_at s b)"
proof -
  show d: "dom t = dom s" using assms by (auto simp: t_def)
  show p: "group_parent (group_at t b) = group_parent (group_at s b)" for b by (simp add: t_def)
  show "ptr_ok t p = ptr_ok s p"
  proof (induction p)
    case (Cons b up)
    have "t b \<noteq> None \<longleftrightarrow> s b \<noteq> None" using d by blast
    with Cons p show ?case by simp
  qed simp
  show "children t b = children s b" unfolding children_def d p by simp
qed

lemma room_less: "room (Suc k) s \<Longrightarrow> room k s"
  unfolding room_def by (metis Suc_lessD add_Suc_right)

lemma groups_ok_null [simp]: "groups_ok s (add_mset [] ps) = groups_ok s ps"
  by (simp add: groups_ok_def)

lemma retain_ok:
  assumes ok: "groups_ok s ps" and p: "ptr_ok s p" and r: "room (Suc k) s"
  shows "groups_ok (md_mount_group_retain p s) (add_mset p ps)" "room k (md_mount_group_retain p s)"
    and "ptr_ok (md_mount_group_retain p s) q = ptr_ok s q" "dom (md_mount_group_retain p s) = dom s"
proof -
  have "groups_ok (md_mount_group_retain p s) (add_mset p ps) \<and> room k (md_mount_group_retain p s)
    \<and> ptr_ok (md_mount_group_retain p s) q = ptr_ok s q \<and> dom (md_mount_group_retain p s) = dom s"
  proof (cases p)
    case Nil
    with ok room_less [OF r] show ?thesis by (simp add: md_mount_group_retain_def)
  next
    case (Cons a up)
    let ?n = "references (group_at s a) + 1"
    let ?t = "s(a \<mapsto> (group_at s a)\<lparr>references := ?n\<rparr>)"
    have a: "s a \<noteq> None" using p Cons by simp
    then have "unat (references (group_at s a)) + Suc k < 2 ^ 32" using r by (auto simp: room_def)
    then have n: "unat ?n = Suc (unat (references (group_at s a)))" by (simp add: unat_word_ariths)
    then have "?n \<noteq> 0" by auto
    with n a ok p Cons have "groups_ok ?t (add_mset p ps)"
      unfolding groups_ok_def count_frame [of s a, OF a] by (auto simp del: fun_upd_apply ptr_ok.simps)
    moreover have "room k ?t" using r n a unfolding room_def by (auto simp: dom_def)
    ultimately show ?thesis using Cons count_frame [of s a, OF a] by (simp add: md_mount_group_retain_def)
  qed
  then show "groups_ok (md_mount_group_retain p s) (add_mset p ps)" "room k (md_mount_group_retain p s)"
    "ptr_ok (md_mount_group_retain p s) q = ptr_ok s q" "dom (md_mount_group_retain p s) = dom s" by simp_all
qed


lemma ptr_ok_remove:
  assumes "ptr_ok s q" "\<not> points_to a q" "children s a = {}"
  shows "ptr_ok (s(a := None)) q"
  using assms(1,2)
proof (induction q)
  case (Cons b up)
  then have "b \<in> dom s" "group_parent (group_at s b) = up" by auto
  then have "\<not> points_to a up" using assms(3) by (auto simp: children_def)
  with Cons show ?case by (simp add: group_at_def)
qed simp

text \<open>The last reference to a group turns into one to its parent.\<close>

lemma remove_ok:
  assumes ok: "groups_ok s (add_mset (a # up) ps)" and one: "references (group_at s a) = 1"
  shows "groups_ok (s(a := None)) (add_mset up ps)"
proof -
  let ?t = "s(a := None)"
  have p: "ptr_ok s (a # up)" by (rule groups_okD(2) [OF ok]) simp
  then have a: "a \<in> dom s" "group_parent (group_at s a) = up" by auto
  have "holds a (add_mset (a # up) ps) + card (children s a) = 1" using groups_okD(5) [OF ok a(1)] one by simp
  then have h: "holds a ps = 0" and "card (children s a) = 0" by auto
  then have c: "children s a = {}" using children_finite groups_okD(1) [OF ok] by simp
  have no: "\<not> points_to a q" if "q \<in># ps" for q using h that by (auto simp: holds_def)
  have at: "group_at ?t b = group_at s b" if "b \<noteq> a" for b using that by (simp add: group_at_def)
  have "\<not> points_to a up" using a c by (auto simp: children_def)
  then have ptrs: "\<forall>q \<in># add_mset up ps. ptr_ok ?t q"
    using p no groups_okD(2) [OF ok] ptr_ok_remove [OF _ _ c] by (metis insert_iff ptr_ok.simps(2) set_mset_add_mset_insert)
  have kids: "children ?t b = children s b - {a}" for b using at by (auto simp: children_def)
  have cells: "ptr_ok ?t (b # group_parent (group_at ?t b)) \<and> references (group_at ?t b) \<noteq> 0
      \<and> unat (references (group_at ?t b)) = holds b (add_mset up ps) + card (children ?t b)" if "b \<in> dom ?t" for b
  proof -
    have b: "b \<noteq> a" "b \<in> dom s" using that by auto
    have fin: "finite (children s b)" using children_finite groups_okD(1) [OF ok] by simp
    have "a \<in> children s b \<longleftrightarrow> points_to b up" using a by (simp add: children_def)
    then have "(if points_to b up then 1 else 0) + card (children ?t b) = card (children s b)"
      unfolding kids using fin by (auto simp: card_Diff_singleton_if card_gt_0_iff intro!: Suc_pred)
    moreover have "ptr_ok ?t (b # group_parent (group_at s b))"
      using groups_okD(3) [OF ok b(2)] b(1) by (intro ptr_ok_remove [OF _ _ c]) simp_all
    ultimately show ?thesis using groups_okD(4,5) [OF ok b(2)] at [OF b(1)] b(1) by simp
  qed
  show ?thesis using groups_okD(1) [OF ok] ptrs cells by (simp add: groups_ok_def)
qed

lemma group_release_ok:
  "groups_ok s (add_mset p ps) \<Longrightarrow> groups_ok (md_mount_group_release p s) ps"
proof (induction p arbitrary: s)
  case (Cons a up)
  let ?n = "references (group_at s a)"
  have "ptr_ok s (a # up)" by (rule groups_okD(2) [OF Cons.prems]) simp
  then have a: "s a \<noteq> None" by simp
  then have dom: "a \<in> dom s" by blast
  show ?case
  proof (cases "?n = 1")
    case True
    show ?thesis
      using Cons.IH [OF remove_ok [OF Cons.prems True]]
      by (simp only: md_mount_group_release.simps True simp_thms if_True)
  next
    case False
    let ?t = "s(a \<mapsto> (group_at s a)\<lparr>references := ?n - 1\<rparr>)"
    have "?n \<noteq> 0" using groups_okD(4) [OF Cons.prems dom] .
    then have n: "unat (?n - 1) = unat ?n - 1" "?n - 1 \<noteq> 0" using False by (simp_all add: unat_minus_one)
    have "groups_ok ?t ps"
      using Cons.prems n a unfolding groups_ok_def count_frame [of s a, OF a] by (auto simp del: fun_upd_apply ptr_ok.simps)
    with False show ?thesis by (simp only: md_mount_group_release.simps if_False)
  qed
qed simp

lemma release_room: "groups_ok s (add_mset p ps) \<Longrightarrow> room k s \<Longrightarrow> room k (md_mount_group_release p s)"
proof (induction p arbitrary: s)
  case (Cons a up)
  show ?case
  proof (cases "references (group_at s a) = 1")
    case True
    have "room k (s(a := None))" using Cons.prems(2) by (auto simp: room_def group_at_def)
    with Cons.IH [OF remove_ok [OF Cons.prems(1) True]] show ?thesis
      by (simp only: md_mount_group_release.simps True simp_thms if_True)
  next
    case False
    have p: "ptr_ok s (a # up)" by (rule groups_okD(2) [OF Cons.prems(1)]) simp
    then have a: "a \<in> dom s" by auto
    then have "references (group_at s a) \<noteq> 0" by (rule groups_okD(4) [OF Cons.prems(1)])
    then have "unat (references (group_at s a) - 1) = unat (references (group_at s a)) - 1" by (simp add: unat_minus_one)
    moreover have "unat (references (group_at s a)) + k < 2 ^ 32" using Cons.prems(2) a by (simp add: room_def)
    ultimately have "room k (s(a \<mapsto> (group_at s a)\<lparr>references := references (group_at s a) - 1\<rparr>))"
      using Cons.prems(2) by (auto simp: room_def)
    with False show ?thesis by (simp only: md_mount_group_release.simps if_False)
  qed
qed simp

text \<open>A new group takes over a reference to its parent.\<close>

lemma ptr_ok_extend: "a \<notin> dom s \<Longrightarrow> ptr_ok s q \<Longrightarrow> ptr_ok (s(a \<mapsto> c)) q"
  by (induction q) auto

lemma adopt_ok:
  assumes ok: "groups_ok s (add_mset up ps)" and a: "a \<notin> dom s"
    and c: "references c = 1" "group_parent c = up"
  shows "groups_ok (s(a \<mapsto> c)) (add_mset (a # up) ps)"
proof -
  let ?t = "s(a \<mapsto> c)"
  have up: "ptr_ok s up" by (rule groups_okD(2) [OF ok]) simp
  have fin: "finite (children s b)" for b using children_finite groups_okD(1) [OF ok] by simp
  have none: "\<not> points_to a q" if "ptr_ok s q" for q using that a by (cases q) auto
  have kids: "children ?t b = (if points_to b up then insert a (children s b) else children s b)" for b
    using a c(2) by (auto simp: children_def)
  have ptrs: "\<forall>q \<in># add_mset (a # up) ps. ptr_ok ?t q"
    using c(2) up groups_okD(2) [OF ok] ptr_ok_extend [OF a] by simp
  have self: "children ?t a = {}" "holds a ps = 0"
  proof -
    have "\<not> points_to a (group_parent (group_at s b))" if "b \<in> dom s" for b
      using none groups_okD(3) [OF ok that] by simp
    then show "children ?t a = {}" unfolding kids using none [OF up] by (auto simp: children_def)
    have "filter_mset (points_to a) ps = filter_mset (\<lambda>_. False) ps"
      using none groups_okD(2) [OF ok] by (intro filter_mset_cong) auto
    then show "holds a ps = 0" by (simp add: holds_def)
  qed
  have cells: "ptr_ok ?t (b # group_parent (group_at ?t b)) \<and> references (group_at ?t b) \<noteq> 0
      \<and> unat (references (group_at ?t b)) = holds b (add_mset (a # up) ps) + card (children ?t b)" if "b \<in> dom ?t" for b
  proof (cases "b = a")
    case True
    then show ?thesis using c self up ptr_ok_extend [OF a up] by simp
  next
    case False
    then have b: "b \<in> dom s" using that by simp
    have "a \<notin> children s b" using a by (auto simp: children_def)
    then have "card (children ?t b) = (if points_to b up then 1 else 0) + card (children s b)"
      unfolding kids using fin [of b] by simp
    moreover have "ptr_ok ?t (b # group_parent (group_at s b))" by (rule ptr_ok_extend [OF a groups_okD(3) [OF ok b]])
    ultimately show ?thesis using groups_okD(4,5) [OF ok b] False by simp
  qed
  show ?thesis using groups_okD(1) [OF ok] ptrs cells by (simp add: groups_ok_def)
qed


lemma new_ok:
  assumes ok: "groups_ok s ps" and up: "ptr_ok s up" and r: "room (Suc k) s" and a: "\<forall>a. os_group os = Some a \<longrightarrow> a \<notin> dom s"
    and n: "md_mount_group_new os up s = (x, t)" and k: "k < 4294967295"
  shows "case x of Inl _ \<Rightarrow> t = s
    | Inr g \<Rightarrow> groups_ok t (add_mset g ps) \<and> room k t \<and> g \<noteq> [] \<and> tl g = up \<and> (\<forall>q. ptr_ok s q \<longrightarrow> ptr_ok t q)"
proof (cases x)
  case (Inl e)
  with n show ?thesis by (auto simp: md_mount_group_new_def split: option.splits sum.splits)
next
  case (Inr g)
  let ?s = "md_mount_group_retain up s"
  from n Inr obtain b i where b: "os_group os = Some b" "g = b # up"
    and t: "t = ?s(b \<mapsto> \<lparr>references = 1, group_id = i, foreign = False, group_parent = up\<rparr>)"
    by (auto simp: md_mount_group_new_def split: option.splits sum.splits)
  note ret = retain_ok [OF ok up r]
  have fresh: "b \<notin> dom ?s" using a b(1) ret(4) by simp
  have "groups_ok t (add_mset g ps)" unfolding t b(2) by (rule adopt_ok [OF ret(1) fresh]) simp_all
  moreover have "room k t" using ret(2) k by (auto simp: room_def t)
  moreover have "ptr_ok t q" if "ptr_ok s q" for q
    unfolding t using that ret(3) by (intro ptr_ok_extend [OF fresh]) simp
  ultimately show ?thesis using Inr b(2) by simp
qed

lemma observe_ok:
  assumes ok: "groups_ok s ps" and up: "ptr_ok s up" and r: "room (Suc k) s" and a: "\<forall>a. alloc = Some a \<longrightarrow> a \<notin> dom s"
    and n: "observe alloc i up s = (g, t)" and k: "k < 4294967295"
  shows "groups_ok t (add_mset g ps)" "room k t" "g \<noteq> [] \<longrightarrow> tl g = up" "ptr_ok s q \<longrightarrow> ptr_ok t q" "dom t \<subseteq> dom s \<union> set_option alloc"
proof -
  let ?s = "md_mount_group_retain up s"
  note ret = retain_ok [OF ok up r]
  have "groups_ok t (add_mset g ps) \<and> room k t \<and> (g \<noteq> [] \<longrightarrow> tl g = up) \<and> (ptr_ok s q \<longrightarrow> ptr_ok t q)
    \<and> dom t \<subseteq> dom s \<union> set_option alloc"
  proof (cases "i = 0 \<or> alloc = None")
    case True
    with n have "g = []" "t = s" by (auto simp: observe_def split: if_splits)
    with ok room_less [OF r] show ?thesis by simp
  next
    case False
    then obtain b where b: "alloc = Some b" "i \<noteq> 0" by auto
    with n have g: "g = b # up" and t: "t = ?s(b \<mapsto> \<lparr>references = 1, group_id = i, foreign = True, group_parent = up\<rparr>)"
      by (auto simp: observe_def)
    have fresh: "b \<notin> dom ?s" using a b(1) ret(4) by simp
    have "groups_ok t (add_mset g ps)" unfolding t g by (rule adopt_ok [OF ret(1) fresh]) simp_all
    moreover have "room k t" using ret(2) k by (auto simp: room_def t)
    moreover have "ptr_ok t q" if "ptr_ok s q"
      unfolding t using that ret(3) by (intro ptr_ok_extend [OF fresh]) simp
    ultimately show ?thesis using g b ret(4) by (auto simp: t)
  qed
  then show "groups_ok t (add_mset g ps)" "room k t" "g \<noteq> [] \<longrightarrow> tl g = up" "ptr_ok s q \<longrightarrow> ptr_ok t q"
    "dom t \<subseteq> dom s \<union> set_option alloc" by blast+
qed

section \<open>Links of mounts\<close>

definition pointers :: "mount_links \<Rightarrow> group_ptr multiset" where
  "pointers l = {#shared l, master l#}"

definition held :: "mount_links multiset \<Rightarrow> group_ptr multiset" where
  "held ls = (\<Sum>l \<in># ls. pointers l)"

definition links_ok :: "mount_links \<Rightarrow> bool" where
  "links_ok l \<longleftrightarrow> (unbindable l \<longrightarrow> shared l = [] \<and> master l = []) \<and> (shared l \<noteq> [] \<longrightarrow> master l = tl (shared l))"

lemma held_add [simp]: "held (add_mset l ls) = add_mset (shared l) (add_mset (master l) (held ls))"
  by (simp add: held_def pointers_def)

lemma held_member: "l \<in># ls \<Longrightarrow> shared l \<in># held ls \<and> master l \<in># held ls"
  by (auto dest!: multi_member_split)

lemma copy_ok:
  assumes ok: "groups_ok s ps" and l: "ptr_ok s (shared l)" "ptr_ok s (master l)" and r: "room (Suc (Suc k)) s"
    and c: "md_mount_links_copy l s = (l', t)"
  shows "l' = l" "groups_ok t (add_mset (shared l) (add_mset (master l) ps))" "room k t" "ptr_ok t q = ptr_ok s q" "dom t = dom s"
proof -
  let ?s = "md_mount_group_retain (shared l) s"
  note one = retain_ok [OF ok l(1) r]
  have "ptr_ok ?s (master l)" using l(2) one(3) by simp
  note two = retain_ok [OF one(1) this one(2)]
  from c have t: "l' = l" "t = md_mount_group_retain (master l) ?s" by (auto simp: md_mount_links_copy_def)
  then show "l' = l" "groups_ok t (add_mset (shared l) (add_mset (master l) ps))" "room k t" "ptr_ok t q = ptr_ok s q" "dom t = dom s"
    using one two by (simp_all add: add_mset_commute)
qed

lemma links_release_ok:
  assumes "groups_ok s (add_mset (shared l) (add_mset (master l) ps))"
  shows "groups_ok (md_mount_links_release l s) ps"
  using group_release_ok [OF group_release_ok [OF assms]] by (simp add: md_mount_links_release_def)

lemma live_suffix: "ptr_ok s g \<Longrightarrow> ptr_ok s (md_mount_group_live members g excluded)"
  by (induction members g excluded rule: md_mount_group_live.induct) simp_all


lemma share_ok:
  assumes ok: "groups_ok s (add_mset ma ps)" and r: "room (Suc (Suc k)) s" and k: "k < 4294967294"
    and a: "\<forall>a. os_group os = Some a \<longrightarrow> a \<notin> dom s" and up: "ptr_ok s up"
    and n: "md_mount_group_new os up s = (Inr g, t)"
  shows "groups_ok (md_mount_group_retain up (md_mount_group_release ma t)) (add_mset g (add_mset up ps))"
proof -
  note new = new_ok [OF ok up r a n, simplified]
  have t: "groups_ok t (add_mset ma (add_mset g ps))" "room (Suc k) t" "g \<noteq> []" "tl g = up"
    using new k by (simp_all add: add_mset_commute)
  let ?t = "md_mount_group_release ma t"
  have rel: "groups_ok ?t (add_mset g ps)" by (rule group_release_ok [OF t(1)])
  then have "ptr_ok ?t g" by (rule groups_okD(2)) simp
  then have "ptr_ok ?t up" using t(3,4) by (cases g) auto
  from retain_ok(1) [OF rel this release_room [OF t(1,2)]] show ?thesis by (simp add: add_mset_commute)
qed

text \<open>The change to shared propagation, with the copy of the links taken.\<close>

lemma change_shared_eq:
  assumes "md_mount_links_copy l s = (l, s1)"
  shows "md_mount_links_change os members self l MS_SHARED s =
    (if shared l \<noteq> [] then (Inr (l\<lparr>unbindable := False\<rparr>), s1)
     else let up = md_mount_group_live members (master l) None
       in case md_mount_group_new os up s1 of
            (Inl e, s2) \<Rightarrow> (Inl e, md_mount_group_release (master l) s2)
          | (Inr g, s2) \<Rightarrow> (Inr (l\<lparr>unbindable := False, shared := g, master := up\<rparr>),
              md_mount_group_retain up (md_mount_group_release (master l) s2)))"
  using assms
  by (simp add: md_mount_links_change_def MS_SHARED_def MS_PRIVATE_def MS_UNBINDABLE_def md_mount_links_release_def Let_def
      split: prod.split sum.split)

lemma change_shared_ok:
  assumes ok: "groups_ok s ps" and l: "ptr_ok s (shared l)" "ptr_ok s (master l)" "links_ok l"
    and r: "room (Suc (Suc (Suc (Suc 0)))) s" and a: "\<forall>a. os_group os = Some a \<longrightarrow> a \<notin> dom s"
    and c: "md_mount_links_change os members self l MS_SHARED s = (x, t)"
  shows "case x of Inl _ \<Rightarrow> groups_ok t ps
    | Inr l' \<Rightarrow> groups_ok t (add_mset (shared l') (add_mset (master l') ps)) \<and> links_ok l'"
proof -
  obtain s1 where cp: "md_mount_links_copy l s = (l, s1)" by (simp add: md_mount_links_copy_def)
  note copy = copy_ok [OF ok l(1,2) r cp]
  show ?thesis
  proof (cases "shared l = []")
    case False
    with change_shared_eq [OF cp] c copy l(3) show ?thesis by (auto simp: links_ok_def)
  next
    case True
    let ?up = "md_mount_group_live members (master l) None"
    have held: "groups_ok s1 (add_mset (master l) ps)" using copy(2) True by simp
    have up: "ptr_ok s1 ?up" using live_suffix [of s1 "master l"] l(2) copy(4) by simp
    have fresh: "\<forall>a. os_group os = Some a \<longrightarrow> a \<notin> dom s1" using a copy(5) by simp
    obtain y s2 where n: "md_mount_group_new os ?up s1 = (y, s2)" by fastforce
    show ?thesis
    proof (cases y)
      case (Inl e)
      then have "s2 = s1" using new_ok [OF held up copy(3) fresh n] by simp
      with Inl n change_shared_eq [OF cp] c True group_release_ok [OF held] show ?thesis by auto
    next
      case (Inr g)
      have "g \<noteq> []" "tl g = ?up" using new_ok [OF held up copy(3) fresh n] Inr by simp_all
      with Inr n change_shared_eq [OF cp] c True share_ok [OF held copy(3) _ fresh up] show ?thesis
        by (auto simp: links_ok_def Let_def)
    qed
  qed
qed

lemma change_ok:
  assumes ok: "groups_ok s ps" and l: "ptr_ok s (shared l)" "ptr_ok s (master l)" "links_ok l"
    and r: "room (Suc (Suc (Suc (Suc 0)))) s" and a: "\<forall>a. os_group os = Some a \<longrightarrow> a \<notin> dom s"
    and c: "md_mount_links_change os members self l propagation s = (x, t)"
  shows "case x of Inl _ \<Rightarrow> groups_ok t ps
    | Inr l' \<Rightarrow> groups_ok t (add_mset (shared l') (add_mset (master l') ps)) \<and> links_ok l'"
proof -
  note defs = md_mount_links_change_def MS_SHARED_def MS_PRIVATE_def MS_UNBINDABLE_def MS_SLAVE_def no_links_def
  consider (shared) "propagation = MS_SHARED" | (slave) "propagation = MS_SLAVE"
    | (other) "propagation \<noteq> MS_SHARED" "propagation \<noteq> MS_SLAVE" by blast
  then show ?thesis
  proof cases
    case shared
    with change_shared_ok [OF ok l r a] c show ?thesis by simp
  next
    case slave
    obtain s1 where cp: "md_mount_links_copy l s = (l, s1)" by (simp add: md_mount_links_copy_def)
    note copy = copy_ok [OF ok l(1,2) r cp]
    have up: "ptr_ok s (md_mount_group_live members (shared l) self)" by (rule live_suffix [OF l(1)])
    from slave c cp copy(2) l(3) retain_ok(1) [OF ok up r] show ?thesis
      by (auto simp: defs links_ok_def Let_def split: if_splits)
  next
    case other
    with ok c show ?thesis by (auto simp: defs links_ok_def split: if_splits)
  qed
qed

lemma links_observe_ok:
  assumes ok: "groups_ok s ps" and r: "room (Suc (Suc 0)) s" and am: "\<forall>a. alloc_master = Some a \<longrightarrow> a \<notin> dom s"
    and as: "\<forall>a. alloc_shared = Some a \<longrightarrow> a \<notin> dom s \<and> alloc_master \<noteq> Some a"
    and c: "md_mount_links_observe alloc_master alloc_shared sh ma un s = (x, t)"
  shows "case x of Inl _ \<Rightarrow> groups_ok t ps
    | Inr l \<Rightarrow> groups_ok t (add_mset (shared l) (add_mset (master l) ps)) \<and> links_ok l"
proof -
  obtain m s1 where o1: "observe alloc_master ma [] s = (m, s1)" by fastforce
  obtain g s2 where o2: "observe alloc_shared sh m s1 = (g, s2)" by fastforce
  note one = observe_ok [OF ok _ r am o1, simplified]
  have m: "ptr_ok s1 m" by (rule groups_okD(2) [OF one(1)]) simp
  have "\<forall>a. alloc_shared = Some a \<longrightarrow> a \<notin> dom s1" using as one(5) by (meson UnE elem_set subset_iff)
  note two = observe_ok [OF one(1) m one(2) this o2, simplified]
  have zero: "ma = 0 \<Longrightarrow> m = [] \<and> s1 = s" "sh = 0 \<Longrightarrow> g = [] \<and> s2 = s1"
    using o1 o2 by (auto simp: observe_def)
  have none: "m = [] \<Longrightarrow> s1 = s" "g = [] \<Longrightarrow> s2 = s1"
    using o1 o2 by (auto simp: observe_def split: if_splits option.splits)
  show ?thesis
  proof (cases x)
    case (Inl e)
    with c o1 o2 none ok one(1) group_release_ok [OF one(1)] show ?thesis
      by (auto simp: md_mount_links_observe_def md_mount_links_release_def Let_def split: if_splits)
  next
    case (Inr l)
    with c o1 o2 have l: "l = \<lparr>shared = g, master = m, unbindable = un \<noteq> 0\<rparr>" "t = s2"
      and un: "un \<noteq> 0 \<Longrightarrow> sh = 0 \<and> ma = 0"
      by (auto simp: md_mount_links_observe_def Let_def split: if_splits)
    with Inr two zero show ?thesis by (auto simp: links_ok_def)
  qed
qed


section \<open>Any history of links\<close>

text \<open>
  One operation on the links that are held. The allocator returns memory that is not in use, and no
  group comes within four references of the limit of its count.
\<close>

inductive links_step :: "group_store \<times> mount_links multiset \<Rightarrow> group_store \<times> mount_links multiset \<Rightarrow> bool" where
  observed: "room 4 s \<Longrightarrow> \<forall>a. am = Some a \<longrightarrow> a \<notin> dom s \<Longrightarrow> \<forall>a. as = Some a \<longrightarrow> a \<notin> dom s \<and> am \<noteq> Some a
    \<Longrightarrow> md_mount_links_observe am as sh ma un s = (Inr l, t) \<Longrightarrow> links_step (s, ls) (t, add_mset l ls)"
| unobserved: "room 4 s \<Longrightarrow> \<forall>a. am = Some a \<longrightarrow> a \<notin> dom s \<Longrightarrow> \<forall>a. as = Some a \<longrightarrow> a \<notin> dom s \<and> am \<noteq> Some a
    \<Longrightarrow> md_mount_links_observe am as sh ma un s = (Inl e, t) \<Longrightarrow> links_step (s, ls) (t, ls)"
| copied: "room 4 s \<Longrightarrow> l \<in># ls \<Longrightarrow> md_mount_links_copy l s = (l', t) \<Longrightarrow> links_step (s, ls) (t, add_mset l' ls)"
| changed: "room 4 s \<Longrightarrow> l \<in># ls \<Longrightarrow> \<forall>a. os_group os = Some a \<longrightarrow> a \<notin> dom s
    \<Longrightarrow> md_mount_links_change os members self l propagation s = (Inr l', t) \<Longrightarrow> links_step (s, ls) (t, add_mset l' ls)"
| unchanged: "room 4 s \<Longrightarrow> l \<in># ls \<Longrightarrow> \<forall>a. os_group os = Some a \<longrightarrow> a \<notin> dom s
    \<Longrightarrow> md_mount_links_change os members self l propagation s = (Inl e, t) \<Longrightarrow> links_step (s, ls) (t, ls)"
| released: "l \<in># ls \<Longrightarrow> links_step (s, ls) (md_mount_links_release l s, ls - {#l#})"

definition links_inv :: "group_store \<times> mount_links multiset \<Rightarrow> bool" where
  "links_inv x \<longleftrightarrow> groups_ok (fst x) (held (snd x)) \<and> (\<forall>l \<in># snd x. links_ok l)"

lemma room_4: "room 4 s \<Longrightarrow> room (Suc (Suc (Suc (Suc 0)))) s"
  by (simp add: eval_nat_numeral)

lemma links_step_inv [inv_intros]: "links_step x y \<Longrightarrow> links_inv x \<Longrightarrow> links_inv y"
proof (induction rule: links_step.induct)
  case (observed s am as sh ma un l t ls)
  then show ?case
    using links_observe_ok [of s "held ls" am as sh ma un "Inr l" t] room_less room_4 by (simp add: links_inv_def)
next
  case (unobserved s am as sh ma un e t ls)
  then show ?case
    using links_observe_ok [of s "held ls" am as sh ma un "Inl e" t] room_less room_4 by (simp add: links_inv_def)
next
  case (copied s l ls l' t)
  then have ok: "groups_ok s (held ls)" "links_ok l" by (simp_all add: links_inv_def)
  have "ptr_ok s (shared l)" "ptr_ok s (master l)" using groups_okD(2) [OF ok(1)] held_member [OF copied(2)] by blast+
  from copy_ok [OF ok(1) this room_4 [OF copied(1)] copied(3)] copied show ?case by (auto simp: links_inv_def)
next
  case (changed s l ls os members self propagation l' t)
  then have ok: "groups_ok s (held ls)" "links_ok l" by (simp_all add: links_inv_def)
  have "ptr_ok s (shared l)" "ptr_ok s (master l)" using groups_okD(2) [OF ok(1)] held_member [OF changed(2)] by blast+
  from change_ok [OF ok(1) this ok(2) room_4 [OF changed(1)] changed(3,4)] changed show ?case by (simp add: links_inv_def)
next
  case (unchanged s l ls os members self propagation e t)
  then have ok: "groups_ok s (held ls)" "links_ok l" by (simp_all add: links_inv_def)
  have "ptr_ok s (shared l)" "ptr_ok s (master l)" using groups_okD(2) [OF ok(1)] held_member [OF unchanged(2)] by blast+
  from change_ok [OF ok(1) this ok(2) room_4 [OF unchanged(1)] unchanged(3,4)] unchanged show ?case
    by (simp add: links_inv_def)
next
  case (released l ls s)
  then obtain ks where "ls = add_mset l ks" by (auto dest: multi_member_split)
  with released links_release_ok [of s l "held ks"] show ?case by (simp add: links_inv_def)
qed

lemma reach_links_inv: "links_step\<^sup>*\<^sup>* x y \<Longrightarrow> links_inv x \<Longrightarrow> links_inv y"
  by (induction rule: rtranclp_induct) (auto intro: inv_intros)

text \<open>Without links every group would need a longer chain below it.\<close>

lemma unheld_empty:
  assumes "groups_ok s {#}"
  shows "s = Map.empty"
proof (rule ccontr)
  assume "s \<noteq> Map.empty"
  then have ne: "dom s \<noteq> {}" by simp
  let ?len = "\<lambda>a. length (group_parent (group_at s a))"
  have fin: "finite (?len ` dom s)" using groups_okD(1) [OF assms] by simp
  then have "Max (?len ` dom s) \<in> ?len ` dom s" using ne by (intro Max_in) auto
  then obtain a where a: "a \<in> dom s" "?len a = Max (?len ` dom s)" by force
  have max: "?len b \<le> ?len a" if "b \<in> dom s" for b
    unfolding a(2) using that by (intro Max_ge [OF fin]) simp
  have "unat (references (group_at s a)) = card (children s a)" "references (group_at s a) \<noteq> 0"
    using groups_okD(4,5) [OF assms a(1)] by (simp_all add: holds_def)
  then have "card (children s a) \<noteq> 0" by (metis unat_eq_zero)
  then obtain b where b: "b \<in> children s a" by fastforce
  then have "b \<in> dom s" "points_to a (group_parent (group_at s b))" by (simp_all add: children_def)
  then have "group_parent (group_at s b) = a # group_parent (group_at s a)"
    using groups_okD(3) [OF assms, of b] by (cases "group_parent (group_at s b)") auto
  then have "?len b = Suc (?len a)" by simp
  with max [OF \<open>b \<in> dom s\<close>] show False by simp
qed

section \<open>Families partition the namespaces\<close>

definition families_ok :: "family_store \<Rightarrow> bool" where
  "families_ok t \<longleftrightarrow>
     (\<forall>v f. view_family t v = Some f \<longleftrightarrow> (\<exists>c. families t f = Some c \<and> v \<in> set (family_first c)))
     \<and> (\<forall>f c. families t f = Some c \<longrightarrow> distinct (family_first c) \<and> family_first c \<noteq> []
          \<and> unat (family_count c) = length (family_first c))"

lemma families_okD:
  assumes "families_ok t" "families t f = Some c"
  shows "distinct (family_first c)" "family_first c \<noteq> []" "unat (family_count c) = length (family_first c)"
    and "view_family t v = Some f \<longleftrightarrow> v \<in> set (family_first c)"
  using assms by (auto simp: families_ok_def)

lemma families_okI:
  assumes "\<And>v f c. families t f = Some c \<Longrightarrow> view_family t v = Some f \<longleftrightarrow> v \<in> set (family_first c)"
    and "\<And>v f. view_family t v = Some f \<Longrightarrow> families t f \<noteq> None"
    and "\<And>f c. families t f = Some c \<Longrightarrow> distinct (family_first c) \<and> family_first c \<noteq> []
        \<and> unat (family_count c) = length (family_first c)"
  shows "families_ok t"
  using assms unfolding families_ok_def by blast

lemma family_leave_ok:
  assumes ok: "families_ok t"
  shows "families_ok (md_mount_family_leave v t)"
proof (cases "view_family t v")
  case None
  with ok show ?thesis by (simp add: md_mount_family_leave_def)
next
  case (Some f)
  then obtain c where c: "families t f = Some c" "v \<in> set (family_first c)" using ok by (auto simp: families_ok_def)
  note d = families_okD [OF ok c(1)]
  let ?c = "c\<lparr>family_first := remove1 v (family_first c), family_count := family_count c - 1\<rparr>"
  have n: "unat (family_count c - 1) = length (remove1 v (family_first c))"
  proof -
    have "family_count c \<noteq> 0" using d(2,3) by auto
    with d(3) c(2) show ?thesis by (simp add: unat_minus_one length_remove1)
  qed
  have e: "md_mount_family_leave v t = t\<lparr>families := (families t)(f := if family_count c - 1 = 0 then None else Some ?c),
      view_family := (view_family t)(v := None)\<rparr>"
    using Some c by (simp add: md_mount_family_leave_def family_at_def Let_def)
  have zero: "family_count c - 1 = 0 \<longleftrightarrow> remove1 v (family_first c) = []" using n by (metis length_0_conv unat_eq_zero)
  have other: "v \<notin> set (family_first c')" if "families t f' = Some c'" "f' \<noteq> f" for f' c'
    using families_okD(4) [OF ok that(1), of v] Some that(2) by auto
  have only: "family_first c = [v]" if "remove1 v (family_first c) = []"
    using that c(2) by (cases "family_first c") (auto split: if_splits)
  let ?t = "md_mount_family_leave v t"
  have fam: "families ?t f' = (if f' = f then if remove1 v (family_first c) = [] then None else Some ?c else families t f')"
    and vf: "view_family ?t w = (if w = v then None else view_family t w)" for f' w
    using zero by (auto simp: e)
  show ?thesis
  proof (rule families_okI)
    show "view_family ?t w = Some f' \<longleftrightarrow> w \<in> set (family_first c')" if "families ?t f' = Some c'" for w f' c'
      using that families_okD(4) [OF ok, of f' _ w] c(1) d(1) other [of f' c'] by (auto simp: fam vf split: if_splits)
    show "families ?t f' \<noteq> None" if "view_family ?t w = Some f'" for w f'
      using that ok only d(4) [of w] by (auto simp: fam vf families_ok_def split: if_splits)
    show "distinct (family_first c') \<and> family_first c' \<noteq> [] \<and> unat (family_count c') = length (family_first c')"
      if "families ?t f' = Some c'" for f' c'
      using that families_okD(1-3) [OF ok, of f' c'] n d(1) by (auto simp: fam split: if_splits)
  qed
qed

lemma leave_view: "view_family (md_mount_family_leave v t) w = (if w = v then None else view_family t w)"
  by (simp add: md_mount_family_leave_def Let_def split: option.split)

lemma family_join_ok:
  assumes ok: "families_ok t" and s: "view_family t source = Some g"
    and room: "\<forall>f c. families t f = Some c \<longrightarrow> family_count c \<noteq> UINT32_MAX"
  shows "families_ok (md_mount_family_join v source t)"
proof (cases "view_family t v = view_family t source")
  case True
  with ok show ?thesis by (simp add: md_mount_family_join_def)
next
  case False
  let ?t1 = "md_mount_family_leave v t" and ?t = "md_mount_family_join v source t"
  have ok1: "families_ok ?t1" by (rule family_leave_ok [OF ok])
  have src: "view_family ?t1 source = Some g" "view_family ?t1 v = None" using s False by (auto simp: leave_view)
  have same: "families ?t1 g = families t g" using False s by (auto simp: md_mount_family_leave_def Let_def split: option.split)
  obtain c where c: "families ?t1 g = Some c" using src(1) ok1 by (auto simp: families_ok_def)
  note d = families_okD [OF ok1 c]
  have n: "unat (family_count c + 1) = Suc (length (family_first c))"
    using room c same d(3) unat_plus_one [of "family_count c" UINT32_MAX]
    by (metis Suc_eq_plus1 neq_UINT32_MAX_iff unat_UINT32_MAX word_less_nat_alt)
  have v: "v \<notin> set (family_first c)" using d(4) [of v] src(2) by auto
  have fam: "families ?t f = (if f = g then Some (c\<lparr>family_first := v # family_first c, family_count := family_count c + 1\<rparr>)
      else families ?t1 f)" and vf: "view_family ?t w = (if w = v then Some g else view_family ?t1 w)" for f w
    using False src(1) c by (simp_all add: md_mount_family_join_def family_at_def Let_def)
  show ?thesis
  proof (rule families_okI)
    show "view_family ?t w = Some f \<longleftrightarrow> w \<in> set (family_first c')" if "families ?t f = Some c'" for w f c'
      using that d(4) [of w] families_okD(4) [OF ok1, of f c' w] src(2) by (auto simp: fam vf split: if_splits)
    show "families ?t f \<noteq> None" if "view_family ?t w = Some f" for w f
      using that ok1 by (auto simp: fam vf families_ok_def split: if_splits)
    show "distinct (family_first c') \<and> family_first c' \<noteq> [] \<and> unat (family_count c') = length (family_first c')"
      if "families ?t f = Some c'" for f c'
      using that families_okD(1-3) [OF ok1, of f c'] n v d(1) by (auto simp: fam split: if_splits)
  qed
qed

text \<open>A snapshot pins exactly the live namespaces of the family, the caller among them.\<close>

lemma family_capture_exact:
  assumes "families_ok t" "md_mount_family_capture alloc v t = (Inr live, t')"
    and "\<forall>n. view_refs t n \<noteq> UINT32_MAX"
  shows "n \<in> set live \<longleftrightarrow> view_family t n = view_family t v \<and> view_refs t n \<noteq> 0"
    and "unat (view_refs t' n) = unat (view_refs t n) + (if n \<in> set live then 1 else 0)"
    and "families t' = families t \<and> view_family t' = view_family t"
proof -
  from assms(2) obtain f where f: "view_family t v = Some f"
    and live: "live = filter (\<lambda>n. view_refs t n \<noteq> 0) (family_first (family_at t f))"
    and t': "t' = t\<lparr>view_refs := (\<lambda>n. if n \<in> set live then view_refs t n + 1 else view_refs t n)\<rparr>"
    by (auto simp: md_mount_family_capture_def Let_def split: option.splits if_splits)
  then obtain c where c: "families t f = Some c" using assms(1) by (auto simp: families_ok_def)
  have at: "family_at t f = c" by (simp add: family_at_def c)
  show "n \<in> set live \<longleftrightarrow> view_family t n = view_family t v \<and> view_refs t n \<noteq> 0"
    using families_okD(4) [OF assms(1) c, of n] by (auto simp: live at f)
  have "unat (view_refs t n + 1) = unat (view_refs t n) + 1"
    using assms(3) unat_plus_one [of "view_refs t n" UINT32_MAX]
    by (metis neq_UINT32_MAX_iff unat_UINT32_MAX word_less_nat_alt)
  then show "unat (view_refs t' n) = unat (view_refs t n) + (if n \<in> set live then 1 else 0)" by (simp add: t')
  show "families t' = families t \<and> view_family t' = view_family t" by (simp add: t')
qed

section \<open>Property\<close>

text \<open>
  C19: peer groups live exactly as long as they are used. Whatever is done with the links of mounts
  (observing them, copying, changing propagation, releasing, with every failure of the allocators),
  the count of every group is the number of links that hold it plus the number of groups below it,
  every group a link can reach is there, an unbindable mount has no group, a sharing mount follows
  exactly the group above its own, and once no links are left no group is left.
\<close>

theorem mount_groups_exact:
  assumes "links_step\<^sup>*\<^sup>* (Map.empty, {#}) (s, ls)"
  shows "(\<forall>a g. s a = Some g \<longrightarrow> unat (references g) = holds a (held ls) + card (children s a))
    \<and> (\<forall>l \<in># ls. ptr_ok s (shared l) \<and> ptr_ok s (master l) \<and> links_ok l) \<and> (ls = {#} \<longrightarrow> s = Map.empty)"
proof -
  have "links_inv (Map.empty, {#})" by (simp add: links_inv_def groups_ok_def held_def)
  with assms have "links_inv (s, ls)" by (rule reach_links_inv)
  then have ok: "groups_ok s (held ls)" and l: "\<forall>l \<in># ls. links_ok l" by (simp_all add: links_inv_def)
  have "unat (references g) = holds a (held ls) + card (children s a)" if "s a = Some g" for a g
    using groups_okD(5) [OF ok, of a] that by (auto simp: group_at_def)
  moreover have "ptr_ok s (shared l) \<and> ptr_ok s (master l)" if "l \<in># ls" for l
    using held_member [OF that] groups_okD(2) [OF ok] by blast
  moreover have "ls = {#} \<longrightarrow> s = Map.empty" using ok unheld_empty by (auto simp: held_def)
  ultimately show ?thesis using l by blast
qed


definition demo_groups :: group_store where
  "demo_groups = [1 \<mapsto> \<lparr>references = 2, group_id = 5, foreign = True, group_parent = []\<rparr>,
     2 \<mapsto> \<lparr>references = 1, group_id = 7, foreign = True, group_parent = [1]\<rparr>]"

definition demo_links :: mount_links where
  "demo_links = \<lparr>shared = [2, 1], master = [1], unbindable = False\<rparr>"

theorem mount_groups_exact_witness:
  "holds 1 (held {#demo_links#}) + card (children demo_groups 1) = 2 \<and> ptr_ok demo_groups (shared demo_links)"
proof -
  have "md_mount_links_observe (Some 1) (Some 2) 7 5 0 Map.empty = (Inr demo_links, demo_groups)"
    by (simp add: md_mount_links_observe_def observe_def md_mount_group_retain_def demo_links_def demo_groups_def
        group_at_def fun_upd_twist)
  then have "links_step (Map.empty, {#}) (demo_groups, {#demo_links#})"
    by (intro links_step.observed [where am = "Some 1" and as = "Some 2"]) (simp_all add: room_def)
  note exact = mount_groups_exact [OF r_into_rtranclp [of links_step, OF this]]
  have "demo_groups 1 = Some \<lparr>references = 2, group_id = 5, foreign = True, group_parent = []\<rparr>"
    by (simp add: demo_groups_def)
  with exact have "unat (2 :: u32) = holds 1 (held {#demo_links#}) + card (children demo_groups 1)"
    by (metis mount_group.select_convs(1))
  with exact show ?thesis by simp
qed

end
