(* ===== verification/Sysv_Shm.thy ===== *)
theory Sysv_Shm
  imports Sysv_Sem
begin

unbundle bit_operations_syntax

text \<open>
  The database of shared memory segments, from \<^verbatim>\<open>src/native/shroot/src/sysv_shm.c\<close>. A store has one
  SQLite file with the segments, the attachment counts per owner, address space and segment, the
  owners, and the segments whose bytes are still to be deleted; the bytes of segment \<open>n\<close> are the
  file \<open>segment-n\<close> beside it. Every statement is a function on the tables.

  SQLite, the allocator and the file system answer from a script, as for the other System V
  objects: \<open>db_faults\<close> holds what the next calls report and an empty script means success. The
  calls after a commit, which delete files of segments already gone, have a script of their own.
\<close>

section \<open>Constants\<close>

definition SHM_DEST :: u32 where "SHM_DEST = 0x200"
definition SHM_NORESERVE :: u32 where "SHM_NORESERVE = 0x1000"
definition SHM_RDONLY :: u64 where "SHM_RDONLY = 0x1000"
definition SHM_EXEC :: u64 where "SHM_EXEC = 0x8000"
definition SHM_LONG_MAX :: u64 where "SHM_LONG_MAX = 0x7FFFFFFFFFFFFFFF"
definition UINTPTR_MAX :: u64 where "UINTPTR_MAX = 0xFFFFFFFFFFFFFFFF"

section \<open>Rows\<close>

record shmid_ds =
  shm_perm :: ipc_perm
  shm_key :: int
  shm_segsz :: u64
  shm_atime :: int
  shm_dtime :: int
  shm_ctime :: int
  shm_cpid :: int
  shm_lpid :: int
  shm_nattch :: u64

record segment_row =
  sg_id :: int
  sg_key :: int
  sg_removed :: bool
  sg_info :: shmid_ds
  sg_namespace :: u64
  sg_creator_pids :: "pid_number_value list"
  sg_last_pids :: "pid_number_value list"

record ref_row =
  rf_owner :: int
  rf_space :: u64
  rf_segment :: int
  rf_n :: int

record shm_tables =
  sh_segments :: "segment_row list"
  sh_owners :: "(int \<times> u64) list"
  sh_garbage :: "int list"
  sh_refs :: "ref_row list"
  sh_last :: int

text \<open>
  The open database: its tables, the tables a transaction began with, the files with their lengths,
  the gate and the scripts.
\<close>

record shm_db =
  db_tables :: shm_tables
  db_began :: shm_tables
  db_bodies :: "(int \<times> u64) list"
  db_locked :: bool
  db_faults :: "errno option list"
  db_cleanup :: "errno option list"

text \<open>
  \<open>struct md_shm\<close> with the supervisor it lives in, and what the operations read of their surroundings:
  the namespaces, the clock, the page size, the next descriptor and lease, and for every owner whether
  its lease is free.
\<close>

record md_shm =
  au_owner :: int
  au_namespace :: u64
  au_users :: ns_ptr
  au_references :: nat
  au_home :: nat

record shm_env =
  en_users :: user_store
  en_pids :: pid_store
  en_time :: int
  en_page :: u64
  en_descriptor :: u64
  en_lease :: int
  en_dead :: "int \<Rightarrow> bool result"

type_synonym 'a shm = "shm_db \<Rightarrow> 'a result \<times> shm_db"

definition sh_return :: "'a \<Rightarrow> 'a shm" where
  "sh_return x d = (Inr x, d)"

definition sh_fail :: "errno \<Rightarrow> 'a shm" where
  "sh_fail e d = (Inl e, d)"

definition sh_then :: "'a shm \<Rightarrow> ('a \<Rightarrow> 'b shm) \<Rightarrow> 'b shm" where
  "sh_then m f d = (case m d of (Inl e, t) \<Rightarrow> (Inl e, t) | (Inr x, t) \<Rightarrow> f x t)"

definition sh_lift :: "'a result \<Rightarrow> 'a shm" where
  "sh_lift r d = (r, d)"

definition sh_check :: "bool \<Rightarrow> errno \<Rightarrow> unit shm" where
  "sh_check refused e = (if refused then sh_fail e else sh_return ())"

definition sh_answer :: "unit shm" where
  "sh_answer d = (case db_faults d of
       [] \<Rightarrow> (Inr (), d)
     | None # rest \<Rightarrow> (Inr (), d\<lparr>db_faults := rest\<rparr>)
     | Some e # rest \<Rightarrow> (Inl e, d\<lparr>db_faults := rest\<rparr>))"

definition sh_cleanup :: "unit shm" where
  "sh_cleanup d = (case db_cleanup d of
       [] \<Rightarrow> (Inr (), d)
     | None # rest \<Rightarrow> (Inr (), d\<lparr>db_cleanup := rest\<rparr>)
     | Some e # rest \<Rightarrow> (Inl e, d\<lparr>db_cleanup := rest\<rparr>))"

definition sh_select :: "(shm_tables \<Rightarrow> 'a) \<Rightarrow> 'a shm" where
  "sh_select f = sh_then sh_answer (\<lambda>_ d. (Inr (f (db_tables d)), d))"

definition sh_update :: "(shm_tables \<Rightarrow> shm_tables) \<Rightarrow> unit shm" where
  "sh_update f = sh_then sh_answer (\<lambda>_ d. (Inr (), d\<lparr>db_tables := f (db_tables d)\<rparr>))"

text \<open>A statement whose result would violate a constraint of the schema is the error \<open>EIO\<close>.\<close>

definition segment_key_unique :: "shm_tables \<Rightarrow> bool" where
  "segment_key_unique t \<longleftrightarrow>
     distinct (map (\<lambda>x. (sg_namespace x, sg_key x)) (filter (\<lambda>x. sg_key x \<noteq> 0 \<and> \<not> sg_removed x) (sh_segments t)))"

definition sh_write :: "(shm_tables \<Rightarrow> bool) \<Rightarrow> (shm_tables \<Rightarrow> shm_tables) \<Rightarrow> unit shm" where
  "sh_write allowed f = sh_then sh_answer (\<lambda>_ d. if allowed (f (db_tables d)) then (Inr (), d\<lparr>db_tables := f (db_tables d)\<rparr>) else (Inl EIO, d))"

section \<open>Attachment counts\<close>

fun upsert_ref :: "int \<Rightarrow> u64 \<Rightarrow> int \<Rightarrow> int \<Rightarrow> ref_row list \<Rightarrow> ref_row list" where
  "upsert_ref lessee space segment delta [] = [\<lparr>rf_owner = lessee, rf_space = space, rf_segment = segment, rf_n = delta\<rparr>]"
| "upsert_ref lessee space segment delta (x # xs) =
     (if rf_owner x = lessee \<and> rf_space x = space \<and> rf_segment x = segment then x\<lparr>rf_n := rf_n x + delta\<rparr> # xs
      else x # upsert_ref lessee space segment delta xs)"

definition shm_refs :: "int \<Rightarrow> u64 \<Rightarrow> int \<Rightarrow> int \<Rightarrow> unit shm" where
  "shm_refs lessee space segment delta = sh_update (\<lambda>t. t\<lparr>sh_refs := upsert_ref lessee space segment delta (sh_refs t)\<rparr>)"

definition attached :: "int \<Rightarrow> shm_tables \<Rightarrow> int" where
  "attached segment t = sum_list (map rf_n (filter (\<lambda>x. rf_segment x = segment) (sh_refs t)))"

section \<open>Segments\<close>

definition shm_load :: "md_shm \<Rightarrow> int \<Rightarrow> shmid_ds shm" where
  "shm_load s segment =
     sh_then (sh_select (\<lambda>t. (find (\<lambda>x. sg_id x = segment \<and> sg_namespace x = au_namespace s) (sh_segments t), attached segment t)))
       (\<lambda>(row, n). case row of None \<Rightarrow> sh_fail EINVAL | Some x \<Rightarrow> sh_return ((sg_info x)\<lparr>shm_nattch := word_of_int n\<rparr>))"

text \<open>A removed segment is gone with its last attachment, collected or not.\<close>

definition shm_load_live :: "md_shm \<Rightarrow> int \<Rightarrow> shmid_ds shm" where
  "shm_load_live s segment =
     sh_then (shm_load s segment)
       (\<lambda>st. sh_then (sh_check (ipc_mode (shm_perm st) AND SHM_DEST \<noteq> 0 \<and> shm_nattch st = 0) EINVAL) (\<lambda>_. sh_return st))"

definition save_segment :: "int \<Rightarrow> shmid_ds \<Rightarrow> pid_number_value list option \<Rightarrow> shm_tables \<Rightarrow> shm_tables" where
  "save_segment segment st pids t =
     t\<lparr>sh_segments := map (\<lambda>x. if sg_id x = segment
         then x\<lparr>sg_info := st, sg_key := shm_key st, sg_removed := (ipc_mode (shm_perm st) AND SHM_DEST \<noteq> 0),
                sg_last_pids := (case pids of Some v \<Rightarrow> v | None \<Rightarrow> sg_last_pids x)\<rparr> else x) (sh_segments t)\<rparr>"

definition shm_save :: "int \<Rightarrow> shmid_ds \<Rightarrow> pid_number_value list option \<Rightarrow> unit shm" where
  "shm_save segment st pids = sh_write segment_key_unique (save_segment segment st pids)"

definition shm_pid_visible :: "shm_env \<Rightarrow> pid_number_value list \<Rightarrow> nat option \<Rightarrow> int \<Rightarrow> int result" where
  "shm_pid_visible e pids observer native =
     md_pid_numbers_visible (en_pids e) pids (16 * length pids) (md_pid_identity_namespace (en_pids e) observer) native"

definition shm_visible_processes :: "shm_env \<Rightarrow> int \<Rightarrow> nat option \<Rightarrow> shmid_ds \<Rightarrow> shmid_ds shm" where
  "shm_visible_processes e segment observer st =
     sh_then (sh_select (\<lambda>t. find (\<lambda>x. sg_id x = segment) (sh_segments t)))
       (\<lambda>row. case row of None \<Rightarrow> sh_fail EIO
        | Some x \<Rightarrow> sh_then (sh_lift (shm_pid_visible e (sg_creator_pids x) observer (shm_cpid st)))
            (\<lambda>creator. sh_then (sh_lift (shm_pid_visible e (sg_last_pids x) observer (shm_lpid st)))
            (\<lambda>last. sh_return (st\<lparr>shm_cpid := creator, shm_lpid := last\<rparr>))))"

section \<open>Collection\<close>

text \<open>
  Segments of a namespace without owners count as removed; rows that count nothing go; a removed
  segment nobody holds moves to the garbage.
\<close>

definition mark_orphans :: "shm_tables \<Rightarrow> shm_tables" where
  "mark_orphans t =
     t\<lparr>sh_segments := map (\<lambda>x. if sg_namespace x \<noteq> 0 \<and> sg_namespace x \<notin> snd ` set (sh_owners t)
         then x\<lparr>sg_removed := True, sg_key := 0\<rparr> else x) (sh_segments t)\<rparr>"

definition collectable :: "shm_tables \<Rightarrow> segment_row \<Rightarrow> bool" where
  "collectable t x \<longleftrightarrow> sg_removed x \<and> \<not> (\<exists>y \<in> set (sh_refs t). rf_segment y = sg_id x \<and> rf_n y > 0)"

definition to_garbage :: "shm_tables \<Rightarrow> shm_tables" where
  "to_garbage t =
     (let u = t\<lparr>sh_refs := filter (\<lambda>y. rf_n y \<noteq> 0) (sh_refs t)\<rparr>;
          v = u\<lparr>sh_garbage := sh_garbage u @ filter (\<lambda>g. g \<notin> set (sh_garbage u)) (map sg_id (filter (collectable u) (sh_segments u)))\<rparr>
      in v\<lparr>sh_segments := filter (\<lambda>x. sg_id x \<notin> set (sh_garbage v)) (sh_segments v)\<rparr>)"

definition shm_collect :: "unit shm" where
  "shm_collect = sh_update (\<lambda>t. to_garbage (mark_orphans t))"

definition has_body :: "int \<Rightarrow> shm_db \<Rightarrow> bool" where
  "has_body segment d \<longleftrightarrow> segment \<in> fst ` set (db_bodies d)"

definition remove_body :: "int \<Rightarrow> shm_db \<Rightarrow> shm_db" where
  "remove_body segment d = d\<lparr>db_bodies := filter (\<lambda>x. fst x \<noteq> segment) (db_bodies d)\<rparr>"

text \<open>A file that is not there counts as deleted.\<close>

fun unlink_bodies :: "int list \<Rightarrow> unit shm" where
  "unlink_bodies [] d = (Inr (), d)"
| "unlink_bodies (g # rest) d =
     (case sh_cleanup d of
        (Inl e, t) \<Rightarrow> if e = ENOENT then unlink_bodies rest t else (Inl e, t)
      | (Inr _, t) \<Rightarrow> unlink_bodies rest (remove_body g t))"

definition collect_bodies :: "unit shm" where
  "collect_bodies =
     sh_then sh_cleanup (\<lambda>_. sh_then (\<lambda>d. unlink_bodies (sh_garbage (db_tables d)) d)
       (\<lambda>_. sh_then sh_cleanup (\<lambda>_ d. (Inr (), d\<lparr>db_tables := (db_tables d)\<lparr>sh_garbage := []\<rparr>\<rparr>))))"

section \<open>Transactions\<close>

definition shm_remove_owner :: "int \<Rightarrow> unit shm" where
  "shm_remove_owner lessee =
     sh_then (sh_update (\<lambda>t. t\<lparr>sh_refs := filter (\<lambda>x. rf_owner x \<noteq> lessee) (sh_refs t)\<rparr>))
       (\<lambda>_. sh_update (\<lambda>t. t\<lparr>sh_owners := filter (\<lambda>x. fst x \<noteq> lessee) (sh_owners t)\<rparr>))"

fun shm_reap :: "shm_env \<Rightarrow> md_shm \<Rightarrow> int list \<Rightarrow> unit shm" where
  "shm_reap e s [] = sh_return ()"
| "shm_reap e s (lessee # rest) =
     (if lessee = au_owner s then shm_reap e s rest
      else sh_then (sh_lift (en_dead e lessee))
        (\<lambda>dead. sh_then (if dead then shm_remove_owner lessee else sh_return ()) (\<lambda>_. shm_reap e s rest)))"

definition dead_owners :: "shm_env \<Rightarrow> md_shm \<Rightarrow> unit shm" where
  "dead_owners e s = sh_then (sh_select (\<lambda>t. map fst (sh_owners t))) (shm_reap e s)"

definition shm_unlock :: "shm_db \<Rightarrow> shm_db" where
  "shm_unlock d = d\<lparr>db_locked := False\<rparr>"

definition shm_lock :: "unit shm" where
  "shm_lock d = (if db_locked d then (Inl EBUSY, d)
     else case sh_answer d of (Inl e, t) \<Rightarrow> (Inl e, t) | (Inr _, t) \<Rightarrow> (Inr (), t\<lparr>db_locked := True\<rparr>))"

definition shm_rollback :: "shm_db \<Rightarrow> shm_db" where
  "shm_rollback d = d\<lparr>db_tables := db_began d\<rparr>"

definition shm_begin :: "shm_env \<Rightarrow> md_shm \<Rightarrow> unit shm" where
  "shm_begin e s d =
     (case shm_lock d of (Inl er, t) \<Rightarrow> (Inl er, t)
      | (Inr _, t) \<Rightarrow>
         (case sh_answer t of (Inl er, u) \<Rightarrow> (Inl er, shm_unlock u)
          | (Inr _, u) \<Rightarrow>
             (case dead_owners e s (u\<lparr>db_began := db_tables u\<rparr>) of
                (Inl er, v) \<Rightarrow> (Inl er, shm_unlock (shm_rollback v))
              | (Inr _, v) \<Rightarrow> (Inr (), v))))"

definition shm_commit :: "'a result \<Rightarrow> 'a shm" where
  "shm_commit r d =
     (case r of Inl er \<Rightarrow> (Inl er, shm_rollback d)
      | Inr x \<Rightarrow> (case sh_answer d of (Inl er, t) \<Rightarrow> (Inl er, shm_rollback t) | (Inr _, t) \<Rightarrow> (Inr x, t)))"

text \<open>Bytes are deleted only after the removal is committed.\<close>

definition shm_finish :: "'a result \<Rightarrow> 'a shm" where
  "shm_finish r d =
     (case sh_then (sh_lift r) (\<lambda>x. sh_then shm_collect (\<lambda>_. sh_return x)) d of (q, t) \<Rightarrow>
       (case shm_commit q t of
          (Inl er, u) \<Rightarrow> (Inl er, shm_unlock u)
        | (Inr x, u) \<Rightarrow>
           (case collect_bodies u of (Inl er, v) \<Rightarrow> (Inl er, shm_unlock v) | (Inr _, v) \<Rightarrow> (Inr x, shm_unlock v))))"

definition shm_transaction :: "shm_env \<Rightarrow> md_shm \<Rightarrow> 'a shm \<Rightarrow> 'a shm" where
  "shm_transaction e s m d =
     (case shm_begin e s d of
        (Inl er, t) \<Rightarrow> (Inl er, t)
      | (Inr _, t) \<Rightarrow> (case m t of (r, u) \<Rightarrow> shm_finish r u))"

section \<open>Files\<close>

definition page_round :: "u64 \<Rightarrow> u64 \<Rightarrow> u64" where
  "page_round unit bytes = (bytes + unit - 1) AND NOT (unit - 1)"

definition open_body :: "int \<Rightarrow> unit shm" where
  "open_body segment = sh_then sh_answer (\<lambda>_ d. if has_body segment d then (Inr (), d) else (Inl ENOENT, d))"

definition new_body :: "int \<Rightarrow> unit shm" where
  "new_body segment = sh_then sh_answer
     (\<lambda>_ d. if has_body segment d then (Inl EEXIST, d) else (Inr (), d\<lparr>db_bodies := db_bodies d @ [(segment, 0)]\<rparr>))"

definition truncate_body :: "int \<Rightarrow> u64 \<Rightarrow> unit shm" where
  "truncate_body segment bytes = sh_then sh_answer
     (\<lambda>_ d. (Inr (), d\<lparr>db_bodies := map (\<lambda>x. if fst x = segment then (segment, bytes) else x) (db_bodies d)\<rparr>))"

text \<open>A file that could not be made is deleted again; that deletion may fail unnoticed.\<close>

definition discard_body :: "int \<Rightarrow> shm_db \<Rightarrow> shm_db" where
  "discard_body segment d = (case sh_answer d of (Inl _, t) \<Rightarrow> t | (Inr _, t) \<Rightarrow> remove_body segment t)"

definition create_body :: "int \<Rightarrow> u64 \<Rightarrow> unit shm" where
  "create_body segment bytes d =
     (case sh_then (new_body segment) (\<lambda>_. truncate_body segment bytes) d of
        (Inl er, t) \<Rightarrow> (Inl er, discard_body segment t)
      | (Inr _, t) \<Rightarrow> (Inr (), t))"

text \<open>Files without a row are left over from an interrupted creation.\<close>

fun unlink_orphans :: "int list \<Rightarrow> unit shm" where
  "unlink_orphans [] = sh_return ()"
| "unlink_orphans (g # rest) =
     (if g \<le> 0 then unlink_orphans rest
      else sh_then (sh_select (\<lambda>t. g \<in> sg_id ` set (sh_segments t)))
        (\<lambda>known. sh_then (if known then sh_return () else sh_then sh_answer (\<lambda>_ d. (Inr (), remove_body g d)))
        (\<lambda>_. unlink_orphans rest)))"

definition collect_orphans :: "unit shm" where
  "collect_orphans = sh_then sh_answer (\<lambda>_ d. unlink_orphans (map fst (db_bodies d)) d)"

section \<open>Operations inside a transaction\<close>

definition shm_permission :: "shm_env \<Rightarrow> md_shm \<Rightarrow> identity \<Rightarrow> shmid_ds \<Rightarrow> u32 \<Rightarrow> unit shm" where
  "shm_permission e s v st mode = sh_lift (md_ipc_perm_access (en_users e) (au_users s) v (shm_perm st) mode)"

definition insert_segment :: "md_shm \<Rightarrow> int \<Rightarrow> shmid_ds \<Rightarrow> pid_number_value list \<Rightarrow> shm_tables \<Rightarrow> shm_tables" where
  "insert_segment s key st pids t =
     (let segment = sh_last t + 1 in
      t\<lparr>sh_segments := sh_segments t @ [\<lparr>sg_id = segment, sg_key = key, sg_removed = False, sg_info = st,
             sg_namespace = au_namespace s, sg_creator_pids = pids, sg_last_pids = []\<rparr>], sh_last := segment\<rparr>)"

definition new_segment :: "shm_env \<Rightarrow> md_shm \<Rightarrow> identity \<Rightarrow> int \<Rightarrow> nat option \<Rightarrow> int \<Rightarrow> u64 \<Rightarrow> u32 \<Rightarrow> int shm" where
  "new_segment e s v pid process key bytes flags =
     sh_then (sh_write segment_key_unique (insert_segment s key
         \<lparr>shm_perm = creator_perm v flags, shm_key = key, shm_segsz = bytes, shm_atime = 0, shm_dtime = 0,
          shm_ctime = en_time e, shm_cpid = pid, shm_lpid = 0, shm_nattch = 0\<rparr> (md_pid_identity_export (en_pids e) process)))
       (\<lambda>_. sh_then (\<lambda>d. (Inr (sh_last (db_tables d)), d))
       (\<lambda>segment. sh_then (sh_check (segment \<le> 0 \<or> segment > 2 ^ 31 - 1) ENOSPC)
       (\<lambda>_. sh_then (create_body segment (page_round (en_page e) bytes))
       (\<lambda>_. sh_return segment))))"

definition shm_get :: "shm_env \<Rightarrow> md_shm \<Rightarrow> identity \<Rightarrow> int \<Rightarrow> nat option \<Rightarrow> int \<Rightarrow> u64 \<Rightarrow> u32 \<Rightarrow> int shm" where
  "shm_get e s v pid process key bytes flags =
     sh_then (sh_check (flags AND NOT (0x1FF OR IPC_CREAT OR IPC_EXCL OR SHM_NORESERVE) \<noteq> 0) ENOTSUP)
       (\<lambda>_. sh_then (sh_select (\<lambda>t. find (\<lambda>x. sg_key x = key \<and> sg_key x \<noteq> 0 \<and> \<not> sg_removed x \<and> sg_namespace x = au_namespace s) (sh_segments t)))
       (\<lambda>row. case row of
          Some x \<Rightarrow>
            sh_then (shm_load s (sg_id x))
            (\<lambda>st. sh_then (sh_check (flags AND (IPC_CREAT OR IPC_EXCL) = IPC_CREAT OR IPC_EXCL) EEXIST)
            (\<lambda>_. sh_then (sh_check (bytes > shm_segsz st) EINVAL)
            (\<lambda>_. sh_then (shm_permission e s v st (requested_access flags))
            (\<lambda>_. sh_return (sg_id x)))))
        | None \<Rightarrow>
            sh_then (sh_check (key \<noteq> 0 \<and> flags AND IPC_CREAT = 0) ENOENT)
            (\<lambda>_. sh_then (sh_check (bytes = 0 \<or> bytes > SHM_LONG_MAX - en_page e) EINVAL)
            (\<lambda>_. new_segment e s v pid process key bytes flags))))"

text \<open>Counting one attachment and recording who made it.\<close>

definition count_attachment :: "shm_env \<Rightarrow> int \<Rightarrow> u64 \<Rightarrow> int \<Rightarrow> shmid_ds \<Rightarrow> int \<Rightarrow> nat option \<Rightarrow> unit shm" where
  "count_attachment e lessee space segment st pid process =
     sh_then (shm_refs lessee space segment 1)
       (\<lambda>_. shm_save segment (st\<lparr>shm_atime := en_time e, shm_lpid := pid\<rparr>) (Some (md_pid_identity_export (en_pids e) process)))"

definition shm_attach ::
  "shm_env \<Rightarrow> md_shm \<Rightarrow> u64 \<Rightarrow> identity \<Rightarrow> int \<Rightarrow> nat option \<Rightarrow> int \<Rightarrow> u64 \<Rightarrow> bool \<Rightarrow> shmid_ds \<Rightarrow> u64 shm" where
  "shm_attach e s space v pid process segment flags busy st =
     sh_then (sh_check busy EBUSY)
       (\<lambda>_. sh_then (shm_permission e s v st (if flags AND SHM_RDONLY \<noteq> 0 then 4 else 6))
       (\<lambda>_. sh_then (if flags AND SHM_EXEC \<noteq> 0 then shm_permission e s v st 1 else sh_return ())
       (\<lambda>_. sh_then (open_body segment)
       (\<lambda>_. sh_then sh_answer
       (\<lambda>_. sh_then (count_attachment e (au_owner s) space segment st pid process)
       (\<lambda>_. sh_return (page_round (en_page e) (shm_segsz st))))))))"

definition shm_detach :: "shm_env \<Rightarrow> md_shm \<Rightarrow> u64 \<Rightarrow> int \<Rightarrow> nat option \<Rightarrow> int \<Rightarrow> unit shm" where
  "shm_detach e s space pid process segment =
     sh_then (shm_refs (au_owner s) space segment (- 1))
       (\<lambda>_. sh_then (shm_load s segment)
       (\<lambda>st. shm_save segment (st\<lparr>shm_dtime := en_time e, shm_lpid := pid\<rparr>) (Some (md_pid_identity_export (en_pids e) process))))"

definition shm_stat :: "shm_env \<Rightarrow> md_shm \<Rightarrow> identity \<Rightarrow> nat option \<Rightarrow> int \<Rightarrow> shmid_ds \<Rightarrow> shmid_ds shm" where
  "shm_stat e s v process segment st =
     sh_then (shm_permission e s v st 4)
       (\<lambda>_. sh_then (shm_visible_processes e segment process st)
       (\<lambda>out. sh_return (out\<lparr>shm_perm := md_ipc_perm_visible (en_users e) v (shm_perm out)\<rparr>)))"

definition shm_set :: "shm_env \<Rightarrow> md_shm \<Rightarrow> identity \<Rightarrow> int \<Rightarrow> u64 \<Rightarrow> u64 \<Rightarrow> shmid_ds \<Rightarrow> unit shm" where
  "shm_set e s v segment owners mode st =
     sh_then (sh_lift (md_ipc_perm_owner (en_users e) (au_users s) v (shm_perm st)))
       (\<lambda>_. sh_then (sh_lift (md_ipc_perm_set (en_users e) v (shm_perm st) (ucast owners) (ucast (drop_bit 32 owners)) (ucast mode)))
       (\<lambda>perm. shm_save segment (st\<lparr>shm_perm := perm, shm_ctime := en_time e\<rparr>) None))"

definition shm_remove :: "shm_env \<Rightarrow> md_shm \<Rightarrow> identity \<Rightarrow> int \<Rightarrow> shmid_ds \<Rightarrow> unit shm" where
  "shm_remove e s v segment st =
     sh_then (sh_lift (md_ipc_perm_owner (en_users e) (au_users s) v (shm_perm st)))
       (\<lambda>_. shm_save segment (st\<lparr>shm_perm := (shm_perm st)\<lparr>ipc_mode := ipc_mode (shm_perm st) OR SHM_DEST\<rparr>, shm_key := 0\<rparr>) None)"

text \<open>
  An attachment handed to another process is owned by a lease of its own. The result is the size of
  the segment; the two descriptors are system resources.
\<close>

definition add_owner :: "int \<Rightarrow> u64 \<Rightarrow> unit shm" where
  "add_owner lessee namespace =
     sh_write (\<lambda>t. distinct (map fst (sh_owners t))) (\<lambda>t. t\<lparr>sh_owners := sh_owners t @ [(lessee, namespace)]\<rparr>)"

definition shm_hand_over :: "shm_env \<Rightarrow> md_shm \<Rightarrow> identity \<Rightarrow> int \<Rightarrow> nat option \<Rightarrow> int \<Rightarrow> bool \<Rightarrow> u64 shm" where
  "shm_hand_over e s v pid process segment readonly =
     sh_then (shm_load_live s segment)
       (\<lambda>st. sh_then (shm_permission e s v st (if readonly then 4 else 6))
       (\<lambda>_. sh_then (open_body segment)
       (\<lambda>_. sh_then sh_answer
       (\<lambda>_. sh_then (add_owner (en_lease e) (au_namespace s))
       (\<lambda>_. sh_then (count_attachment e (en_lease e) 0 segment st pid process)
       (\<lambda>_. sh_return (shm_segsz st)))))))"

definition md_shm_export :: "shm_env \<Rightarrow> md_shm \<Rightarrow> identity \<Rightarrow> int \<Rightarrow> nat option \<Rightarrow> int \<Rightarrow> u32 \<Rightarrow> u64 shm" where
  "md_shm_export e s v pid process segment readonly =
     (if readonly \<noteq> 0 \<and> readonly \<noteq> 1 then sh_fail EINVAL
      else shm_transaction e s (shm_hand_over e s v pid process segment (readonly = 1)))"

section \<open>Opening and closing\<close>

fun sh_answers :: "nat \<Rightarrow> unit shm" where
  "sh_answers 0 = sh_return ()"
| "sh_answers (Suc n) = sh_then sh_answer (\<lambda>_. sh_answers n)"

definition forget_segments :: "shm_tables \<Rightarrow> shm_tables" where
  "forget_segments t = t\<lparr>sh_refs := [], sh_owners := [], sh_segments := map (\<lambda>x. x\<lparr>sg_removed := True\<rparr>) (sh_segments t)\<rparr>"

text \<open>
  The statements that add columns and read the identity of the boot change no row. After another
  boot nothing of the last one is attached.
\<close>

definition shm_admit :: "shm_env \<Rightarrow> md_shm \<Rightarrow> bool \<Rightarrow> unit shm" where
  "shm_admit e s rebooted =
     sh_then (sh_answers 3)
       (\<lambda>_. sh_then (if rebooted then sh_update forget_segments else sh_return ())
       (\<lambda>_. sh_then (dead_owners e s)
       (\<lambda>_. sh_then shm_collect
       (\<lambda>_. add_owner (au_owner s) (au_namespace s)))))"

definition shm_leave :: "shm_env \<Rightarrow> md_shm \<Rightarrow> shm_db \<Rightarrow> shm_db" where
  "shm_leave e s d = snd (shm_transaction e s (shm_remove_owner (au_owner s)) d)"

definition shm_sweep :: "unit shm" where
  "shm_sweep = sh_then collect_bodies (\<lambda>_. sh_then collect_orphans (\<lambda>_. sh_answer))"

text \<open>The gate, the lease, the file, the schema and the start of the transaction may each fail.\<close>

definition shm_open_database :: "shm_env \<Rightarrow> md_shm \<Rightarrow> bool \<Rightarrow> unit shm" where
  "shm_open_database e s rebooted d =
     (case sh_then (sh_answers 3) (\<lambda>_. sh_then shm_lock (\<lambda>_. sh_answers 5)) d of
        (Inl er, t) \<Rightarrow> (Inl er, shm_unlock t)
      | (Inr _, t) \<Rightarrow>
         (case shm_admit e s rebooted (t\<lparr>db_began := db_tables t\<rparr>) of (r, u) \<Rightarrow>
           (case shm_commit r u of
              (Inl er, v) \<Rightarrow> (Inl er, shm_unlock v)
            | (Inr _, v) \<Rightarrow>
               (case shm_sweep v of
                  (Inl er, w) \<Rightarrow> (Inl er, shm_leave e s (shm_unlock w))
                | (Inr _, w) \<Rightarrow> (Inr (), shm_unlock w)))))"

section \<open>What the tables keep\<close>

definition refs_sum :: "ref_row list \<Rightarrow> int \<Rightarrow> u64 \<Rightarrow> int \<Rightarrow> int" where
  "refs_sum xs lessee space segment =
     sum_list (map rf_n (filter (\<lambda>x. rf_owner x = lessee \<and> rf_space x = space \<and> rf_segment x = segment) xs))"

abbreviation segment_ids :: "shm_tables \<Rightarrow> int set" where
  "segment_ids t \<equiv> sg_id ` set (sh_segments t)"

abbreviation body_ids :: "shm_db \<Rightarrow> int set" where
  "body_ids d \<equiv> fst ` set (db_bodies d)"

text \<open>
  Numbers are not used twice, what waits for deletion is no segment, every segment has its bytes,
  and whoever holds a segment is an owner.
\<close>

definition segments_ok :: "int set \<Rightarrow> shm_tables \<Rightarrow> bool" where
  "segments_ok files t \<longleftrightarrow>
     (\<forall>g \<in> segment_ids t. g \<le> sh_last t) \<and> (\<forall>g \<in> set (sh_garbage t). g \<le> sh_last t \<and> g \<notin> segment_ids t)
     \<and> segment_ids t \<subseteq> files \<and> rf_owner ` set (sh_refs t) \<subseteq> fst ` set (sh_owners t)"

text \<open>The live owners \<open>L\<close> are known, and what they hold is there.\<close>

definition holds_kept :: "int set \<Rightarrow> shm_tables \<Rightarrow> bool" where
  "holds_kept L t \<longleftrightarrow> L \<subseteq> fst ` set (sh_owners t)
     \<and> (\<forall>lessee \<in> L. \<forall>space segment. refs_sum (sh_refs t) lessee space segment > 0 \<longrightarrow> segment \<in> segment_ids t)"

definition view :: "int set \<Rightarrow> shm_tables \<Rightarrow> int \<Rightarrow> u64 \<Rightarrow> int \<Rightarrow> int" where
  "view L t lessee space segment = (if lessee \<in> L then refs_sum (sh_refs t) lessee space segment else 0)"

definition ref_bump :: "int set \<Rightarrow> int \<Rightarrow> u64 \<Rightarrow> int \<Rightarrow> int \<Rightarrow> (int \<Rightarrow> u64 \<Rightarrow> int \<Rightarrow> int) \<Rightarrow> int \<Rightarrow> u64 \<Rightarrow> int \<Rightarrow> int" where
  "ref_bump L lessee space segment delta N =
     (\<lambda>l s g. N l s g + (if l \<in> L \<and> l = lessee \<and> s = space \<and> g = segment then delta else 0))"

lemma view_same [simp]:
  "view L (t\<lparr>sh_segments := rows\<rparr>) = view L t" "view L (t\<lparr>sh_owners := os\<rparr>) = view L t" "view L (t\<lparr>sh_garbage := gs\<rparr>) = view L t"
  by (simp_all add: view_def fun_eq_iff)

lemma refs_sum_upsert:
  "refs_sum (upsert_ref l s g delta xs) l' s' g' = refs_sum xs l' s' g' + (if l' = l \<and> s' = s \<and> g' = g then delta else 0)"
  by (induction l s g delta xs rule: upsert_ref.induct) (auto simp: refs_sum_def)

lemma refs_sum_nonzero: "refs_sum (filter (\<lambda>y. rf_n y \<noteq> 0) xs) l s g = refs_sum xs l s g"
  by (induction xs) (auto simp: refs_sum_def)

lemma refs_sum_filter_other:
  "(\<And>x. x \<in> set xs \<Longrightarrow> rf_owner x = l \<Longrightarrow> rf_space x = s \<Longrightarrow> P x) \<Longrightarrow> refs_sum (filter P xs) l s g = refs_sum xs l s g"
  by (induction xs) (auto simp: refs_sum_def)

lemma refs_sum_filter_none:
  "(\<And>x. x \<in> set xs \<Longrightarrow> rf_owner x = l \<Longrightarrow> rf_space x = s \<Longrightarrow> \<not> P x) \<Longrightarrow> refs_sum (filter P xs) l s g = 0"
  by (induction xs) (auto simp: refs_sum_def)

lemma refs_sum_unowned: "l \<notin> rf_owner ` set xs \<Longrightarrow> refs_sum xs l s g = 0"
  by (induction xs) (auto simp: refs_sum_def)

lemma refs_sum_pos:
  "refs_sum xs l s g > 0 \<Longrightarrow> \<exists>y \<in> set xs. rf_segment y = g \<and> rf_n y > 0"
  by (induction xs) (force simp: refs_sum_def split: if_splits)+

lemma upsert_owners: "rf_owner ` set (upsert_ref l s g delta xs) = insert l (rf_owner ` set xs)"
  by (induction l s g delta xs rule: upsert_ref.induct) auto

lemma view_upsert: "view L (t\<lparr>sh_refs := upsert_ref l s g delta (sh_refs t)\<rparr>) = ref_bump L l s g delta (view L t)"
  by (auto simp: view_def ref_bump_def refs_sum_upsert fun_eq_iff)

text \<open>A statement on the segments that keeps their numbers keeps everything else.\<close>

lemma same_segment_ids: "map sg_id rows = map sg_id (sh_segments t) \<Longrightarrow> segment_ids (t\<lparr>sh_segments := rows\<rparr>) = segment_ids t"
  by (drule arg_cong [of _ _ set]) simp

lemma segments_ok_rows:
  assumes "segments_ok files t" "map sg_id rows = map sg_id (sh_segments t)"
  shows "segments_ok files (t\<lparr>sh_segments := rows\<rparr>)"
  using assms(1) same_segment_ids [OF assms(2)] by (simp add: segments_ok_def)

lemma holds_kept_rows:
  assumes "holds_kept L t" "map sg_id rows = map sg_id (sh_segments t)"
  shows "holds_kept L (t\<lparr>sh_segments := rows\<rparr>)"
  using assms(1) same_segment_ids [OF assms(2)] by (simp add: holds_kept_def)

text \<open>Collecting keeps every segment a live owner holds.\<close>

lemma to_garbage_simps [simp]:
  "sh_refs (to_garbage t) = filter (\<lambda>y. rf_n y \<noteq> 0) (sh_refs t)" "sh_owners (to_garbage t) = sh_owners t"
  "sh_last (to_garbage t) = sh_last t"
  by (simp_all add: to_garbage_def Let_def)

lemma to_garbage_sets:
  "set (sh_garbage (to_garbage t)) =
     set (sh_garbage t) \<union> {sg_id x |x. x \<in> set (sh_segments t) \<and> collectable (t\<lparr>sh_refs := filter (\<lambda>y. rf_n y \<noteq> 0) (sh_refs t)\<rparr>) x}"
  "segment_ids (to_garbage t) = segment_ids t - set (sh_garbage (to_garbage t))"
  by (auto simp: to_garbage_def Let_def)

lemma collected_ok:
  assumes "segments_ok files t" "holds_kept L t"
  shows "segments_ok files (to_garbage t)" "holds_kept L (to_garbage t)" "view L (to_garbage t) = view L t"
proof -
  show "segments_ok files (to_garbage t)" using assms(1) unfolding segments_ok_def to_garbage_sets by auto
  show "view L (to_garbage t) = view L t" by (simp add: view_def fun_eq_iff refs_sum_nonzero)
  show "holds_kept L (to_garbage t)"
    unfolding holds_kept_def
  proof (intro conjI ballI allI impI)
    fix l s g
    assume l: "l \<in> L" and n: "refs_sum (sh_refs (to_garbage t)) l s g > 0"
    obtain y where y: "y \<in> set (filter (\<lambda>y. rf_n y \<noteq> 0) (sh_refs t))" "rf_segment y = g" "rf_n y > 0"
      using refs_sum_pos [OF n] by (auto simp: to_garbage_simps)
    have g: "g \<in> segment_ids t" using assms(2) l n by (auto simp: holds_kept_def refs_sum_nonzero)
    have "g \<notin> set (sh_garbage t)" using assms(1) g by (auto simp: segments_ok_def)
    thus "g \<in> segment_ids (to_garbage t)" using g y unfolding to_garbage_sets by (auto simp: collectable_def)
  qed (use assms(2) in \<open>simp add: holds_kept_def\<close>)
qed

lemma marked_ok:
  assumes "segments_ok files t" "holds_kept L t"
  shows "segments_ok files (mark_orphans t)" "holds_kept L (mark_orphans t)" "view L (mark_orphans t) = view L t"
  unfolding mark_orphans_def
  by (rule segments_ok_rows [OF assms(1)], simp, rule holds_kept_rows [OF assms(2)], simp) (simp add: view_def fun_eq_iff)

lemma collect_segments_ok:
  assumes "segments_ok files t" "holds_kept L t"
  shows "segments_ok files (to_garbage (mark_orphans t))" "holds_kept L (to_garbage (mark_orphans t))"
    "view L (to_garbage (mark_orphans t)) = view L t"
  using collected_ok [OF marked_ok(1,2) [OF assms]] marked_ok(3) [OF assms] by simp_all

lemma upsert_ok:
  assumes "segments_ok files t" "l \<in> fst ` set (sh_owners t)"
  shows "segments_ok files (t\<lparr>sh_refs := upsert_ref l s g delta (sh_refs t)\<rparr>)"
  using assms by (auto simp: segments_ok_def upsert_owners)

lemma upsert_kept:
  assumes "holds_kept L t" "delta \<le> 0 \<or> g \<in> segment_ids t \<or> l \<notin> L"
  shows "holds_kept L (t\<lparr>sh_refs := upsert_ref l s g delta (sh_refs t)\<rparr>)"
  unfolding holds_kept_def
proof (intro conjI ballI allI impI)
  fix l' s' g'
  assume l: "l' \<in> L" and n: "refs_sum (sh_refs (t\<lparr>sh_refs := upsert_ref l s g delta (sh_refs t)\<rparr>)) l' s' g' > 0"
  show "g' \<in> segment_ids (t\<lparr>sh_refs := upsert_ref l s g delta (sh_refs t)\<rparr>)"
  proof (cases "refs_sum (sh_refs t) l' s' g' > 0")
    case True
    thus ?thesis using assms(1) l by (simp add: holds_kept_def)
  next
    case False
    thus ?thesis using assms(2) l n by (auto simp: refs_sum_upsert split: if_splits)
  qed
qed (use assms(1) in \<open>simp add: holds_kept_def\<close>)

lemma forget_owner_ok:
  assumes "segments_ok files t" "holds_kept L t" "l \<notin> L"
  defines "u \<equiv> t\<lparr>sh_refs := filter (\<lambda>x. rf_owner x \<noteq> l) (sh_refs t)\<rparr>"
  shows "segments_ok files u" "holds_kept L u" "view L u = view L t" "l \<notin> rf_owner ` set (sh_refs u)"
proof -
  have "refs_sum (sh_refs u) l' s g = refs_sum (sh_refs t) l' s g" if "l' \<in> L" for l' s g
    using that assms(3) unfolding u_def by (auto intro: refs_sum_filter_other)
  thus "holds_kept L u" "view L u = view L t" using assms(2) by (auto simp: holds_kept_def view_def u_def fun_eq_iff)
  show "segments_ok files u" "l \<notin> rf_owner ` set (sh_refs u)" using assms(1) by (auto simp: segments_ok_def u_def)
qed

lemma drop_owner_ok:
  assumes "segments_ok files t" "holds_kept L t" "l \<notin> L" "l \<notin> rf_owner ` set (sh_refs t)"
  defines "u \<equiv> t\<lparr>sh_owners := filter (\<lambda>x. fst x \<noteq> l) (sh_owners t)\<rparr>"
  shows "segments_ok files u" "holds_kept L u" "view L u = view L t"
proof -
  have left: "fst ` set (sh_owners u) = fst ` set (sh_owners t) - {l}" unfolding u_def by force
  show "segments_ok files u" "holds_kept L u" using assms(1-4) unfolding segments_ok_def holds_kept_def left by (auto simp: u_def)
  show "view L u = view L t" by (simp add: view_def u_def fun_eq_iff)
qed

lemma forget_space_ok:
  fixes l :: int and s :: u64
  assumes "segments_ok files t" "holds_kept L t"
  defines "u \<equiv> t\<lparr>sh_refs := filter (\<lambda>x. \<not> (rf_owner x = l \<and> rf_space x = s)) (sh_refs t)\<rparr>"
  shows "segments_ok files u" "holds_kept L u"
    "view L u = (\<lambda>l' s' g. if l' = l \<and> s' = s then 0 else view L t l' s' g)"
proof -
  have n: "refs_sum (sh_refs u) l' s' g = (if l' = l \<and> s' = s then 0 else refs_sum (sh_refs t) l' s' g)" for l' s' g
    unfolding u_def by (auto intro: refs_sum_filter_other refs_sum_filter_none)
  show "segments_ok files u" using assms(1) by (auto simp: segments_ok_def u_def)
  show "view L u = (\<lambda>l' s' g. if l' = l \<and> s' = s then 0 else view L t l' s' g)" using n by (auto simp: view_def fun_eq_iff)
  show "holds_kept L u" using assms(2) n by (auto simp: holds_kept_def u_def split: if_splits)
qed

lemma insert_segment_ok:
  assumes "segments_ok files t" "holds_kept L t" "sh_last t + 1 \<in> files"
  shows "segments_ok files (insert_segment s key st pids t)" "holds_kept L (insert_segment s key st pids t)"
    "view L (insert_segment s key st pids t) = view L t"
  using assms by (auto simp: segments_ok_def holds_kept_def view_def insert_segment_def Let_def fun_eq_iff)

section \<open>Outcomes of operations\<close>

text \<open>\<open>Q\<close> holds after an operation that succeeded, \<open>F\<close> after one that failed.\<close>

definition run_ok :: "(shm_db \<Rightarrow> bool) \<Rightarrow> (shm_db \<Rightarrow> bool) \<Rightarrow> 'a shm \<Rightarrow> ('a \<Rightarrow> shm_db \<Rightarrow> bool) \<Rightarrow> bool" where
  "run_ok F P m Q \<longleftrightarrow> (\<forall>d. P d \<longrightarrow> (case m d of (Inl _, t) \<Rightarrow> F t | (Inr x, t) \<Rightarrow> Q x t))"

named_theorems shm_runs \<open>outcomes of the operations on segments\<close>

lemma run_okD: "run_ok F P m Q \<Longrightarrow> P d \<Longrightarrow> case m d of (Inl _, t) \<Rightarrow> F t | (Inr x, t) \<Rightarrow> Q x t"
  by (simp add: run_ok_def)

lemma run_then: "run_ok F P m R \<Longrightarrow> (\<And>x. run_ok F (R x) (f x) Q) \<Longrightarrow> run_ok F P (sh_then m f) Q"
  unfolding run_ok_def sh_then_def by (fastforce split: prod.splits sum.splits)

lemma run_return: "(\<And>d. P d \<Longrightarrow> Q x d) \<Longrightarrow> run_ok F P (sh_return x) Q"
  by (simp add: run_ok_def sh_return_def)

lemma run_fail: "(\<And>d. P d \<Longrightarrow> F d) \<Longrightarrow> run_ok F P (sh_fail e) Q"
  by (simp add: run_ok_def sh_fail_def)

lemma run_lift: "(\<And>d. P d \<Longrightarrow> F d) \<Longrightarrow> run_ok F P (sh_lift r) (\<lambda>x d. P d \<and> r = Inr x)"
  by (auto simp: run_ok_def sh_lift_def split: sum.splits)

lemma run_check: "(\<And>d. P d \<Longrightarrow> F d) \<Longrightarrow> run_ok F P (sh_check b e) (\<lambda>_. P)"
  by (auto simp: run_ok_def sh_check_def sh_fail_def sh_return_def)

lemma run_post: "run_ok F P m R \<Longrightarrow> (\<And>x d. R x d \<Longrightarrow> Q x d) \<Longrightarrow> run_ok F P m Q"
  unfolding run_ok_def by (fastforce split: prod.splits sum.splits)

lemma run_pre: "run_ok F R m Q \<Longrightarrow> (\<And>d. P d \<Longrightarrow> R d) \<Longrightarrow> run_ok F P m Q"
  by (simp add: run_ok_def)

text \<open>An assertion that does not look at the script survives an answer.\<close>

lemma run_answer:
  assumes "\<And>d. P d \<Longrightarrow> F d" "\<And>d x rest. db_faults d = x # rest \<Longrightarrow> P d \<Longrightarrow> P (d\<lparr>db_faults := rest\<rparr>)"
  shows "run_ok F P sh_answer (\<lambda>_. P)"
  using assms unfolding run_ok_def sh_answer_def by (fastforce split: list.splits option.splits)

lemma run_update:
  assumes "\<And>d. P d \<Longrightarrow> F d" "\<And>d x rest. db_faults d = x # rest \<Longrightarrow> P d \<Longrightarrow> P (d\<lparr>db_faults := rest\<rparr>)"
    "\<And>d. P d \<Longrightarrow> Q () (d\<lparr>db_tables := f (db_tables d)\<rparr>)"
  shows "run_ok F P (sh_update f) Q"
  unfolding sh_update_def by (rule run_then [OF run_answer]) (auto simp: run_ok_def assms)

section \<open>Inside a transaction\<close>

text \<open>
  \<open>B\<close> are the tables the transaction began with, \<open>N\<close> the counts of the live owners, \<open>S\<close> segments known
  to exist; \<open>q\<close> says which calls may fail: all of them, only those up to the commit, or none. The
  files never lose what the tables at the beginning need, so the transaction can be taken back at any
  time.
\<close>

datatype trouble = Any_Call | Until_Commit | No_Call

definition clean :: "trouble \<Rightarrow> shm_db \<Rightarrow> bool" where
  "clean q d \<longleftrightarrow> (q \<noteq> Any_Call \<longrightarrow> set (db_cleanup d) \<subseteq> {None}) \<and> (q = No_Call \<longrightarrow> db_faults d = [])"

definition failed :: "int set \<Rightarrow> shm_tables \<Rightarrow> trouble \<Rightarrow> shm_db \<Rightarrow> bool" where
  "failed L B q d \<longleftrightarrow> db_began d = B \<and> segments_ok (body_ids d) B \<and> holds_kept L B \<and> clean q d"

definition mid :: "int set \<Rightarrow> shm_tables \<Rightarrow> trouble \<Rightarrow> (int \<Rightarrow> u64 \<Rightarrow> int \<Rightarrow> int) \<Rightarrow> int set \<Rightarrow> shm_db \<Rightarrow> bool" where
  "mid L B q N S d \<longleftrightarrow> failed L B q d \<and> segments_ok (body_ids d) (db_tables d) \<and> holds_kept L (db_tables d)
     \<and> sh_last B \<le> sh_last (db_tables d) \<and> view L (db_tables d) = N \<and> S \<subseteq> segment_ids (db_tables d)"

definition settled :: "int set \<Rightarrow> trouble \<Rightarrow> (int \<Rightarrow> u64 \<Rightarrow> int \<Rightarrow> int) \<Rightarrow> shm_db \<Rightarrow> bool" where
  "settled L q N d \<longleftrightarrow> segments_ok (body_ids d) (db_tables d) \<and> holds_kept L (db_tables d) \<and> view L (db_tables d) = N \<and> clean q d"

abbreviation in_tx :: "int set \<Rightarrow> shm_tables \<Rightarrow> trouble \<Rightarrow> (int \<Rightarrow> u64 \<Rightarrow> int \<Rightarrow> int) \<Rightarrow> int set \<Rightarrow> 'a shm \<Rightarrow> ('a \<Rightarrow> shm_db \<Rightarrow> bool) \<Rightarrow> bool" where
  "in_tx L B q N S m Q \<equiv> run_ok (failed L B q) (mid L B q N S) m Q"

abbreviation steady :: "int set \<Rightarrow> shm_tables \<Rightarrow> trouble \<Rightarrow> (int \<Rightarrow> u64 \<Rightarrow> int \<Rightarrow> int) \<Rightarrow> int set \<Rightarrow> 'a shm \<Rightarrow> bool" where
  "steady L B q N S m \<equiv> in_tx L B q N S m (\<lambda>_. mid L B q N S)"

lemma mid_failed: "mid L B q N S d \<Longrightarrow> failed L B q d"
  by (simp add: mid_def)

lemma mid_faults: "db_faults d = x # rest \<Longrightarrow> mid L B q N S d \<Longrightarrow> mid L B q N S (d\<lparr>db_faults := rest\<rparr>)"
  by (simp add: mid_def failed_def clean_def)

lemma failed_faults: "db_faults d = x # rest \<Longrightarrow> failed L B q d \<Longrightarrow> failed L B q (d\<lparr>db_faults := rest\<rparr>)"
  by (simp add: failed_def clean_def)

lemma settled_faults: "db_faults d = x # rest \<Longrightarrow> settled L q N d \<Longrightarrow> settled L q N (d\<lparr>db_faults := rest\<rparr>)"
  by (simp add: settled_def clean_def)

lemma mid_tables:
  assumes "mid L B q N S d" "segments_ok (body_ids d) t" "holds_kept L t" "sh_last (db_tables d) \<le> sh_last t" "view L t = N'"
    "S' \<subseteq> segment_ids t"
  shows "mid L B q N' S' (d\<lparr>db_tables := t\<rparr>)"
  using assms by (simp add: mid_def failed_def clean_def)

lemma steady_answer [shm_runs]: "steady L B q N S sh_answer"
  by (rule run_answer) (auto intro: mid_failed mid_faults)

lemma steady_basic [shm_runs]:
  "steady L B q N S (sh_return x)" "steady L B q N S (sh_fail er)" "steady L B q N S (sh_check b er)"
  by (auto intro: run_return run_fail run_check mid_failed)

lemma steady_lift [shm_runs]: "steady L B q N S (sh_lift r)"
  by (rule run_post [OF run_lift]) (auto intro: mid_failed)

lemma steady_permission [shm_runs]: "steady L B q N S (shm_permission e s v st mode)"
  unfolding shm_permission_def by (rule steady_lift)

lemma tx_select: "in_tx L B q N S (sh_select f) (\<lambda>x d. mid L B q N S d \<and> x = f (db_tables d))"
  unfolding sh_select_def by (rule run_then [OF steady_answer]) (simp add: run_ok_def)

lemma steady_select [shm_runs]: "steady L B q N S (sh_select f)"
  by (rule run_post [OF tx_select]) simp

lemma tx_update:
  assumes "\<And>d. mid L B q N S d \<Longrightarrow> mid L B q N' S' (d\<lparr>db_tables := f (db_tables d)\<rparr>)"
  shows "in_tx L B q N S (sh_update f) (\<lambda>_. mid L B q N' S')"
  by (rule run_update) (auto intro: mid_failed mid_faults assms)

lemma tx_write:
  assumes "\<And>d. mid L B q N S d \<Longrightarrow> ok (f (db_tables d)) \<Longrightarrow> R (d\<lparr>db_tables := f (db_tables d)\<rparr>)"
  shows "in_tx L B q N S (sh_write ok f) (\<lambda>_. R)"
  unfolding sh_write_def by (rule run_then [OF steady_answer]) (auto simp: run_ok_def assms intro: mid_failed)

subsection \<open>Statements\<close>

lemma tx_load: "in_tx L B q N S (shm_load s g) (\<lambda>_. mid L B q N (insert g S))"
  unfolding shm_load_def
proof (rule run_then [OF tx_select])
  fix p
  show "run_ok (failed L B q) (\<lambda>d. mid L B q N S d \<and> p = (find (\<lambda>x. sg_id x = g \<and> sg_namespace x = au_namespace s) (sh_segments (db_tables d)), attached g (db_tables d)))
     ((\<lambda>(row, n). case row of None \<Rightarrow> sh_fail EINVAL | Some x \<Rightarrow> sh_return ((sg_info x)\<lparr>shm_nattch := word_of_int n\<rparr>)) p) (\<lambda>_. mid L B q N (insert g S))"
    by (auto simp: run_ok_def sh_fail_def sh_return_def mid_def split: option.splits dest!: find_SomeD)
qed

lemma tx_load_live: "in_tx L B q N S (shm_load_live s g) (\<lambda>_. mid L B q N (insert g S))"
  unfolding shm_load_live_def by (rule run_then [OF tx_load]) (rule run_then [OF steady_basic(3) steady_basic(1)])

lemma mid_rows:
  assumes "mid L B q N S d" "map sg_id rows = map sg_id (sh_segments (db_tables d))"
  shows "mid L B q N S (d\<lparr>db_tables := (db_tables d)\<lparr>sh_segments := rows\<rparr>\<rparr>)"
  using assms(1) same_segment_ids [OF assms(2)]
  by (intro mid_tables [OF assms(1) segments_ok_rows [OF _ assms(2)] holds_kept_rows [OF _ assms(2)]]) (auto simp: mid_def view_def)

lemma steady_save [shm_runs]: "steady L B q N S (shm_save g st pids)"
  unfolding shm_save_def save_segment_def by (rule tx_write, rule mid_rows) simp_all

lemma run_refs:
  assumes "delta \<le> 0 \<or> g \<in> S \<or> l \<notin> L"
  shows "run_ok (failed L B q) (\<lambda>d. mid L B q N S d \<and> l \<in> fst ` set (sh_owners (db_tables d))) (shm_refs l space g delta)
           (\<lambda>_. mid L B q (ref_bump L l space g delta N) S)"
  unfolding shm_refs_def
proof (rule run_update)
  fix d assume d: "mid L B q N S d \<and> l \<in> fst ` set (sh_owners (db_tables d))"
  show "mid L B q (ref_bump L l space g delta N) S (d\<lparr>db_tables := (db_tables d)\<lparr>sh_refs := upsert_ref l space g delta (sh_refs (db_tables d))\<rparr>\<rparr>)"
    using d assms by (intro mid_tables [OF _ upsert_ok upsert_kept]) (auto simp: mid_def view_upsert)
qed (auto intro: mid_failed mid_faults)

lemma tx_refs:
  assumes "l \<in> L" "delta \<le> 0 \<or> g \<in> S"
  shows "in_tx L B q N S (shm_refs l space g delta) (\<lambda>_. mid L B q (ref_bump L l space g delta N) S)"
  by (rule run_pre [OF run_refs]) (use assms in \<open>auto simp: mid_def holds_kept_def\<close>)

lemma ref_bump_other [simp]: "l \<notin> L \<Longrightarrow> ref_bump L l space g delta N = N"
  by (auto simp: ref_bump_def fun_eq_iff)

lemma tx_forget_space:
  "in_tx L B q N S (sh_update (\<lambda>t. t\<lparr>sh_refs := filter (\<lambda>x. \<not> (rf_owner x = l \<and> rf_space x = s)) (sh_refs t)\<rparr>))
     (\<lambda>_. mid L B q (\<lambda>l' s' g. if l' = l \<and> s' = s then 0 else N l' s' g) S)"
proof (rule tx_update)
  fix d assume d: "mid L B q N S d"
  have ok: "segments_ok (body_ids d) (db_tables d)" "holds_kept L (db_tables d)" using d by (simp_all add: mid_def)
  show "mid L B q (\<lambda>l' s' g. if l' = l \<and> s' = s then 0 else N l' s' g) S
     (d\<lparr>db_tables := (db_tables d)\<lparr>sh_refs := filter (\<lambda>x. \<not> (rf_owner x = l \<and> rf_space x = s)) (sh_refs (db_tables d))\<rparr>\<rparr>)"
    by (rule mid_tables [OF d forget_space_ok(1) [OF ok] forget_space_ok(2) [OF ok]]) (use d forget_space_ok(3) [OF ok, of l s] in \<open>auto simp: mid_def\<close>)
qed

subsection \<open>Reaping and creating\<close>

lemma mid_forget_owner:
  assumes "mid L B q N S d" "l \<notin> L"
  shows "mid L B q N S (d\<lparr>db_tables := (db_tables d)\<lparr>sh_refs := filter (\<lambda>x. rf_owner x \<noteq> l) (sh_refs (db_tables d))\<rparr>\<rparr>)"
proof -
  have ok: "segments_ok (body_ids d) (db_tables d)" "holds_kept L (db_tables d)" using assms by (simp_all add: mid_def)
  show ?thesis using assms forget_owner_ok(3) [OF ok assms(2)]
    by (intro mid_tables [OF assms(1) forget_owner_ok(1) [OF ok assms(2)] forget_owner_ok(2) [OF ok assms(2)]]) (auto simp: mid_def)
qed

lemma mid_drop_owner:
  assumes "mid L B q N S d" "l \<notin> L" "l \<notin> rf_owner ` set (sh_refs (db_tables d))"
  shows "mid L B q N S (d\<lparr>db_tables := (db_tables d)\<lparr>sh_owners := filter (\<lambda>x. fst x \<noteq> l) (sh_owners (db_tables d))\<rparr>\<rparr>)"
proof -
  have ok: "segments_ok (body_ids d) (db_tables d)" "holds_kept L (db_tables d)" using assms by (simp_all add: mid_def)
  show ?thesis using assms
    by (intro mid_tables [OF assms(1) drop_owner_ok(1) [OF ok assms(2,3)] drop_owner_ok(2) [OF ok assms(2,3)]]) (auto simp: mid_def)
qed

lemma steady_remove_owner:
  assumes "l \<notin> L"
  shows "steady L B q N S (shm_remove_owner l)"
proof -
  let ?P = "\<lambda>d. mid L B q N S d \<and> l \<notin> rf_owner ` set (sh_refs (db_tables d))"
  show ?thesis
    unfolding shm_remove_owner_def
    by (rule run_then [where R = "\<lambda>_. ?P"]; rule run_update) (auto simp: mid_forget_owner mid_drop_owner assms intro: mid_failed mid_faults)
qed

text \<open>The lock on its lease keeps an owner from being taken for dead.\<close>

definition leases_held :: "shm_env \<Rightarrow> int set \<Rightarrow> bool" where
  "leases_held e L \<longleftrightarrow> (\<forall>l \<in> L. en_dead e l \<noteq> Inr True)"

lemma steady_reap:
  assumes "leases_held e L"
  shows "steady L B q N S (shm_reap e s ls)"
proof (induction ls)
  case Nil
  show ?case by (simp add: steady_basic)
next
  case (Cons l ls)
  show ?case
  proof (cases "l = au_owner s")
    case True
    thus ?thesis using Cons by simp
  next
    case False
    have dead: "in_tx L B q N S (sh_lift (en_dead e l)) (\<lambda>x d. mid L B q N S d \<and> en_dead e l = Inr x)"
      by (rule run_lift) (rule mid_failed)
    have "in_tx L B q N S (sh_then (sh_lift (en_dead e l))
        (\<lambda>x. sh_then (if x then shm_remove_owner l else sh_return ()) (\<lambda>_. shm_reap e s ls))) (\<lambda>_. mid L B q N S)"
    proof (rule run_then [OF dead])
      fix x
      show "run_ok (failed L B q) (\<lambda>d. mid L B q N S d \<and> en_dead e l = Inr x)
          (sh_then (if x then shm_remove_owner l else sh_return ()) (\<lambda>_. shm_reap e s ls)) (\<lambda>_. mid L B q N S)"
      proof (cases "en_dead e l = Inr x")
        case True
        have "steady L B q N S (if x then shm_remove_owner l else sh_return ())"
          using True assms steady_remove_owner [of l L B q N S] by (auto simp: leases_held_def steady_basic)
        from run_then [OF this Cons] show ?thesis by (rule run_pre) simp
      qed (simp add: run_ok_def)
    qed
    thus ?thesis using False by simp
  qed
qed

lemma steady_dead_owners: "leases_held e L \<Longrightarrow> steady L B q N S (dead_owners e s)"
  unfolding dead_owners_def by (intro run_then [OF steady_select steady_reap])

text \<open>Between its row and its file a new segment is the newest one and only it may lack a file.\<close>

definition born :: "int set \<Rightarrow> shm_tables \<Rightarrow> trouble \<Rightarrow> (int \<Rightarrow> u64 \<Rightarrow> int \<Rightarrow> int) \<Rightarrow> int set \<Rightarrow> int \<Rightarrow> shm_db \<Rightarrow> bool" where
  "born L B q N S g d \<longleftrightarrow> failed L B q d \<and> g = sh_last (db_tables d) \<and> sh_last B < g
     \<and> segments_ok (insert g (body_ids d)) (db_tables d) \<and> holds_kept L (db_tables d) \<and> view L (db_tables d) = N \<and> S \<subseteq> segment_ids (db_tables d)"

lemma tx_insert:
  "in_tx L B q N S (sh_write ok (insert_segment s key st pids)) (\<lambda>_ d. born L B q N S (sh_last (db_tables d)) d)"
proof (rule tx_write)
  fix d assume d: "mid L B q N S d"
  let ?t = "db_tables d" and ?F = "insert (sh_last (db_tables d) + 1) (body_ids d)"
  have ok: "segments_ok ?F ?t" "holds_kept L ?t" "sh_last ?t + 1 \<in> ?F" using d by (auto simp: mid_def segments_ok_def)
  show "born L B q N S (sh_last (db_tables (d\<lparr>db_tables := insert_segment s key st pids ?t\<rparr>))) (d\<lparr>db_tables := insert_segment s key st pids ?t\<rparr>)"
    using d insert_segment_ok [OF ok, of s key st pids]
    by (auto simp: born_def mid_def failed_def clean_def insert_segment_def Let_def)
qed

lemma remove_body_simps [simp]:
  "body_ids (remove_body g d) = body_ids d - {g}" "db_tables (remove_body g d) = db_tables d" "db_began (remove_body g d) = db_began d"
  "clean q (remove_body g d) = clean q d"
  by (force simp: remove_body_def, simp_all add: remove_body_def clean_def)

lemma discard_failed:
  assumes "failed L B q d" "sh_last B < g"
  shows "failed L B q (discard_body g d)"
proof -
  have "failed L B q (remove_body g d)" if "failed L B q d" for d
    using that assms(2) unfolding failed_def segments_ok_def by fastforce
  thus ?thesis using assms(1) by (auto simp: discard_body_def sh_answer_def failed_faults split: list.splits option.splits prod.splits sum.splits)
qed

lemma born_bodies:
  assumes "born L B q N S g d" "fst ` set bodies = insert g (body_ids d)"
  shows "mid L B q N S (d\<lparr>db_bodies := bodies\<rparr>)"
  using assms by (auto simp: born_def mid_def failed_def clean_def segments_ok_def)

lemma run_create_body: "run_ok (failed L B q) (born L B q N S g) (create_body g bytes) (\<lambda>_. mid L B q N S)"
proof -
  let ?F = "\<lambda>d. failed L B q d \<and> sh_last B < g"
  have one: "run_ok ?F (born L B q N S g) (new_body g) (\<lambda>_ d. mid L B q N S d \<and> sh_last B < g)"
    unfolding new_body_def
  proof (rule run_then [OF run_answer])
    show "run_ok ?F (born L B q N S g) (\<lambda>d. if has_body g d then (Inl EEXIST, d) else (Inr (), d\<lparr>db_bodies := db_bodies d @ [(g, 0)]\<rparr>))
        (\<lambda>_ d. mid L B q N S d \<and> sh_last B < g)"
      using born_bodies by (auto simp: run_ok_def born_def)
  qed (auto simp: born_def failed_faults)
  have two: "run_ok ?F (\<lambda>d. mid L B q N S d \<and> sh_last B < g) (truncate_body g bytes) (\<lambda>_. mid L B q N S)"
    unfolding truncate_body_def
  proof (rule run_then [OF run_answer])
    have "fst ` set (map (\<lambda>x. if fst x = g then (g, bytes) else x) xs) = fst ` set xs" for xs :: "(int \<times> u64) list"
      by (induction xs) auto
    thus "run_ok ?F (\<lambda>d. mid L B q N S d \<and> sh_last B < g)
       (\<lambda>d. (Inr (), d\<lparr>db_bodies := map (\<lambda>x. if fst x = g then (g, bytes) else x) (db_bodies d)\<rparr>)) (\<lambda>_. mid L B q N S)"
      by (simp add: run_ok_def mid_def failed_def clean_def)
  qed (auto intro: mid_failed mid_faults)
  show ?thesis
    unfolding run_ok_def create_body_def
    using run_then [OF one two] discard_failed by (fastforce simp: run_ok_def split: prod.splits sum.splits)
qed

subsection \<open>Operations\<close>

lemma steady_new_segment: "steady L B q N S (new_segment e s v pid process key bytes flags)"
  unfolding new_segment_def
proof (rule run_then [OF tx_insert])
  let ?P = "\<lambda>d. born L B q N S (sh_last (db_tables d)) d"
  have read: "run_ok (failed L B q) ?P (\<lambda>d. (Inr (sh_last (db_tables d)), d)) (\<lambda>g. born L B q N S g)" by (simp add: run_ok_def)
  have check: "run_ok (failed L B q) (born L B q N S g) (sh_check b er) (\<lambda>_. born L B q N S g)" for g b er
    by (rule run_check) (simp add: born_def)
  show "run_ok (failed L B q) ?P (sh_then (\<lambda>d. (Inr (sh_last (db_tables d)), d))
      (\<lambda>segment. sh_then (sh_check (segment \<le> 0 \<or> segment > 2 ^ 31 - 1) ENOSPC)
      (\<lambda>_. sh_then (create_body segment (page_round (en_page e) bytes)) (\<lambda>_. sh_return segment)))) (\<lambda>_. mid L B q N S)"
    by (intro run_then [OF read] run_then [OF check] run_then [OF run_create_body] steady_basic)
qed

lemma steady_load [shm_runs]: "steady L B q N S (shm_load s g)" "steady L B q N S (shm_load_live s g)"
  by (rule run_post [OF tx_load], simp add: mid_def, rule run_post [OF tx_load_live], simp add: mid_def)

lemma steady_get: "steady L B q N S (shm_get e s v pid process key bytes flags)"
  unfolding shm_get_def
  by (intro run_then [OF steady_basic(3)] run_then [OF steady_select])
    (auto split: option.splits intro!: run_then [OF steady_load(1)] run_then [OF steady_basic(3)] run_then [OF steady_permission] steady_basic steady_new_segment)

lemma steady_open_body [shm_runs]: "steady L B q N S (open_body g)"
  unfolding open_body_def by (rule run_then [OF steady_answer]) (auto simp: run_ok_def intro: mid_failed)

lemma tx_attach:
  assumes "au_owner s \<in> L" "g \<in> S"
  shows "in_tx L B q N S (shm_attach e s space v pid process g flags busy st) (\<lambda>_. mid L B q (ref_bump L (au_owner s) space g 1 N) S)"
proof -
  have perm: "steady L B q N S (if flags AND SHM_EXEC \<noteq> 0 then shm_permission e s v st 1 else sh_return ())"
    by (simp add: steady_permission steady_basic)
  have count: "in_tx L B q N S (count_attachment e (au_owner s) space g st pid process) (\<lambda>_. mid L B q (ref_bump L (au_owner s) space g 1 N) S)"
    unfolding count_attachment_def by (rule run_then [OF tx_refs steady_save]) (use assms in auto)
  show ?thesis
    unfolding shm_attach_def
    by (intro run_then [OF steady_basic(3)] run_then [OF steady_permission] run_then [OF perm] run_then [OF steady_open_body]
        run_then [OF steady_answer] run_then [OF count] steady_basic)
qed

lemma tx_detach:
  assumes "au_owner s \<in> L"
  shows "in_tx L B q N S (shm_detach e s space pid process g) (\<lambda>_. mid L B q (ref_bump L (au_owner s) space g (- 1) N) S)"
  unfolding shm_detach_def
  by (rule run_then [OF tx_refs [OF assms]], simp) (intro run_then [OF steady_load(1)] steady_save)

lemma steady_stat: "steady L B q N S (shm_stat e s v process g st)"
proof -
  have "steady L B q N S (shm_visible_processes e g process st)"
    unfolding shm_visible_processes_def
    by (rule run_then [OF steady_select]) (auto split: option.splits intro!: run_then [OF steady_lift] steady_basic)
  thus ?thesis unfolding shm_stat_def by (intro run_then [OF steady_permission] run_then [OF \<open>steady L B q N S _\<close>] steady_basic)
qed

lemma steady_change:
  "steady L B q N S (shm_set e s v g owners mode st)" "steady L B q N S (shm_remove e s v g st)"
  unfolding shm_set_def shm_remove_def by (intro run_then [OF steady_lift] steady_save)+

lemma add_owner_new:
  fixes ns :: u64
  assumes "segments_ok files t" "holds_kept L t" "l \<notin> fst ` set (sh_owners t)"
  defines "u \<equiv> t\<lparr>sh_owners := sh_owners t @ [(l, ns)]\<rparr>"
  shows "segments_ok files u" "holds_kept (insert l L) u" "view (insert l L) u = view L t"
proof -
  have none: "refs_sum (sh_refs t) l s g = 0" for s g
    using assms(1,3) by (intro refs_sum_unowned) (auto simp: segments_ok_def)
  have "l \<notin> L" using assms(2,3) by (auto simp: holds_kept_def)
  thus "view (insert l L) u = view L t" using none by (auto simp: view_def u_def fun_eq_iff)
  show "segments_ok files u" using assms(1) by (auto simp: segments_ok_def u_def)
  show "holds_kept (insert l L) u" using assms(2) none by (auto simp: holds_kept_def u_def)
qed

lemma holds_kept_mono: "holds_kept L t \<Longrightarrow> L' \<subseteq> L \<Longrightarrow> holds_kept L' t"
  unfolding holds_kept_def by blast

lemma distinct_new: "distinct (map fst (xs @ [(l, n)])) \<Longrightarrow> l \<notin> fst ` set xs"
  by auto

lemma tx_add_owner:
  "in_tx L B q N S (add_owner l ns) (\<lambda>_ d. mid L B q N S d \<and> l \<in> fst ` set (sh_owners (db_tables d)) \<and> l \<notin> L
     \<and> holds_kept (insert l L) (db_tables d) \<and> view (insert l L) (db_tables d) = N)"
  unfolding add_owner_def
proof (rule tx_write)
  fix d :: shm_db
  let ?u = "(db_tables d)\<lparr>sh_owners := sh_owners (db_tables d) @ [(l, ns)]\<rparr>"
  assume d: "mid L B q N S d" and new: "distinct (map fst (sh_owners ?u))"
  have l: "l \<notin> fst ` set (sh_owners (db_tables d))" using distinct_new new by simp
  have ok: "segments_ok (body_ids d) (db_tables d)" "holds_kept L (db_tables d)" using d by (simp_all add: mid_def)
  note new = add_owner_new [OF ok l, of ns]
  have "mid L B q N S (d\<lparr>db_tables := ?u\<rparr>)"
    using d by (intro mid_tables [OF d new(1) holds_kept_mono [OF new(2)]]) (auto simp: mid_def)
  thus "mid L B q N S (d\<lparr>db_tables := ?u\<rparr>) \<and> l \<in> fst ` set (sh_owners (db_tables (d\<lparr>db_tables := ?u\<rparr>))) \<and> l \<notin> L
     \<and> holds_kept (insert l L) (db_tables (d\<lparr>db_tables := ?u\<rparr>)) \<and> view (insert l L) (db_tables (d\<lparr>db_tables := ?u\<rparr>)) = N"
    using d l ok new by (auto simp: mid_def holds_kept_def)
qed

lemma steady_hand_over: "steady L B q N S (shm_hand_over e s v pid process g readonly)"
proof -
  let ?l = "en_lease e" and ?S = "insert g S"
  have count: "run_ok (failed L B q) (\<lambda>d. mid L B q N ?S d \<and> ?l \<in> fst ` set (sh_owners (db_tables d)) \<and> ?l \<notin> L
     \<and> holds_kept (insert ?l L) (db_tables d) \<and> view (insert ?l L) (db_tables d) = N)
     (count_attachment e ?l 0 g st pid process) (\<lambda>_. mid L B q N ?S)" for st
  proof (cases "?l \<in> L")
    case False
    show ?thesis unfolding count_attachment_def
      by (rule run_then [OF run_pre [OF run_refs]]) (use False in \<open>auto intro: steady_save\<close>)
  qed (simp add: run_ok_def)
  have "in_tx L B q N S (shm_hand_over e s v pid process g readonly) (\<lambda>_. mid L B q N ?S)"
    unfolding shm_hand_over_def
    by (intro run_then [OF tx_load_live] run_then [OF steady_permission] run_then [OF steady_open_body] run_then [OF steady_answer]
        run_then [OF tx_add_owner] run_then [OF count] steady_basic)
  thus ?thesis by (rule run_post) (simp add: mid_def)
qed

section \<open>Whole transactions\<close>

lemma settled_garbage:
  assumes "settled L q N d" "g \<notin> segment_ids (db_tables d)"
  shows "settled L q N (remove_body g d)"
  using assms by (auto simp: settled_def segments_ok_def)

lemma cleanup_cases:
  assumes "clean q d"
  obtains rest where "sh_cleanup d = (Inr (), d\<lparr>db_cleanup := rest\<rparr>)" "clean q (d\<lparr>db_cleanup := rest\<rparr>)"
    | er rest where "q = Any_Call" "sh_cleanup d = (Inl er, d\<lparr>db_cleanup := rest\<rparr>)" "clean q (d\<lparr>db_cleanup := rest\<rparr>)"
proof (cases "db_cleanup d")
  case Nil
  hence "sh_cleanup d = (Inr (), d\<lparr>db_cleanup := []\<rparr>)" by (simp add: sh_cleanup_def)
  thus thesis using assms Nil by (intro that(1) [of "[]"]) (simp_all add: clean_def)
next
  case (Cons x rest)
  thus thesis using assms that by (cases x) (auto simp: sh_cleanup_def clean_def)
qed

lemma settled_cleanup: "settled L q N d \<Longrightarrow> clean q (d\<lparr>db_cleanup := rest\<rparr>) \<Longrightarrow> settled L q N (d\<lparr>db_cleanup := rest\<rparr>)"
  by (simp add: settled_def)

text \<open>
  Deleting the files of what is removed keeps the tables whether it succeeds or not; it fails only
  where every call may.
\<close>

abbreviation tidied :: "int set \<Rightarrow> trouble \<Rightarrow> (int \<Rightarrow> u64 \<Rightarrow> int \<Rightarrow> int) \<Rightarrow> unit result \<times> shm_db \<Rightarrow> bool" where
  "tidied L q N x \<equiv> settled L q N (snd x) \<and> (q = Any_Call \<or> fst x = Inr ())"

lemma unlink_bodies_ok:
  "settled L q N d \<Longrightarrow> set gs \<inter> segment_ids (db_tables d) = {} \<Longrightarrow> tidied L q N (unlink_bodies gs d)"
proof (induction gs arbitrary: d)
  case (Cons g gs)
  have "clean q d" using Cons.prems(1) by (simp add: settled_def)
  thus ?case
  proof (cases rule: cleanup_cases)
    case (1 rest)
    have "settled L q N (remove_body g (d\<lparr>db_cleanup := rest\<rparr>))"
      using Cons.prems 1 by (intro settled_garbage settled_cleanup) auto
    from Cons.IH [OF this] show ?thesis using Cons.prems(2) 1 by simp
  next
    case (2 er rest)
    note s = settled_cleanup [OF Cons.prems(1) 2(3)]
    show ?thesis using Cons.IH [OF s] Cons.prems(2) s 2 by simp
  qed
qed simp

lemma collect_bodies_ok:
  assumes "settled L q N d"
  shows "tidied L q N (collect_bodies d)"
proof -
  have "clean q d" using assms by (simp add: settled_def)
  thus ?thesis
  proof (cases rule: cleanup_cases)
    case (1 r1)
    let ?d = "d\<lparr>db_cleanup := r1\<rparr>"
    note s1 = settled_cleanup [OF assms 1(2)]
    have "set (sh_garbage (db_tables d)) \<inter> segment_ids (db_tables d) = {}" using assms by (auto simp: settled_def segments_ok_def)
    with unlink_bodies_ok [OF s1, of "sh_garbage (db_tables d)"]
    have u: "tidied L q N (unlink_bodies (sh_garbage (db_tables d)) ?d)" by simp
    obtain r t where t: "unlink_bodies (sh_garbage (db_tables d)) ?d = (r, t)" by fastforce
    have s2: "settled L q N t" and c: "clean q t" using u t by (simp_all add: settled_def)
    show ?thesis
    proof (cases r)
      case (Inl er)
      thus ?thesis using 1 t u by (auto simp: collect_bodies_def sh_then_def)
    next
      case (Inr x)
      from c show ?thesis
      proof (cases rule: cleanup_cases)
        case 2: (1 r2)
        have "settled L q N (t\<lparr>db_cleanup := r2, db_tables := (db_tables t)\<lparr>sh_garbage := []\<rparr>\<rparr>)"
          using settled_cleanup [OF s2 2(2)] by (auto simp: settled_def segments_ok_def holds_kept_def clean_def)
        thus ?thesis using 1 t Inr 2 by (simp add: collect_bodies_def sh_then_def)
      next
        case (2 er r2)
        thus ?thesis using 1 t Inr settled_cleanup [OF s2 2(3)] by (simp add: collect_bodies_def sh_then_def)
      qed
    qed
  next
    case (2 er rest)
    thus ?thesis using settled_cleanup [OF assms 2(3)] by (simp add: collect_bodies_def sh_then_def)
  qed
qed

definition at_rest :: "int set \<Rightarrow> trouble \<Rightarrow> (int \<Rightarrow> u64 \<Rightarrow> int \<Rightarrow> int) \<Rightarrow> shm_db \<Rightarrow> bool" where
  "at_rest L q N d \<longleftrightarrow> settled L q N d \<and> \<not> db_locked d"

lemma unlock_rest: "settled L q N d \<Longrightarrow> at_rest L q N (shm_unlock d)"
  by (simp add: at_rest_def settled_def shm_unlock_def clean_def)

lemma mid_settled: "mid L B q N S d \<Longrightarrow> settled L q N d"
  by (simp add: mid_def settled_def failed_def)

lemma failed_rollback: "failed L B q d \<Longrightarrow> settled L q (view L B) (shm_rollback d)"
  by (auto simp: failed_def settled_def shm_rollback_def clean_def)

lemma begin_ok:
  assumes "at_rest L q N d" "leases_held e L"
  shows "case shm_begin e s d of (Inl _, t) \<Rightarrow> at_rest L q N t | (Inr _, t) \<Rightarrow> mid L (db_tables d) q N {} t"
proof -
  let ?F = "at_rest L q N" and ?P = "\<lambda>t. settled L q N t \<and> db_tables t = db_tables d"
  have answer: "run_ok ?P ?P sh_answer (\<lambda>_. ?P)" by (rule run_answer) (auto intro: settled_faults)
  obtain r1 t where a: "sh_answer d = (r1, t)" by fastforce
  have t: "?P t" "db_locked t = db_locked d" using run_okD [OF answer, of d] assms(1) a
    by (auto simp: at_rest_def sh_answer_def split: sum.splits list.splits option.splits)
  show ?thesis
  proof (cases r1)
    case Inl
    thus ?thesis using a t assms(1) by (simp add: shm_begin_def shm_lock_def at_rest_def)
  next
    case Inr
    let ?t = "t\<lparr>db_locked := True\<rparr>"
    have lock: "shm_lock d = (Inr (), ?t)" using a Inr assms(1) by (simp add: shm_lock_def at_rest_def)
    obtain r2 u where b: "sh_answer ?t = (r2, u)" by fastforce
    have u: "?P u" using run_okD [OF answer, of ?t] t b by (auto simp: settled_def clean_def split: sum.splits)
    show ?thesis
    proof (cases r2)
      case Inl
      thus ?thesis using lock b u by (simp add: shm_begin_def unlock_rest)
    next
      case Inr
      let ?u = "u\<lparr>db_began := db_tables u\<rparr>"
      have "mid L (db_tables d) q N {} ?u" using u by (auto simp: mid_def failed_def settled_def clean_def)
      from run_okD [OF steady_dead_owners [OF assms(2)] this, of s] show ?thesis
        using lock b u Inr unlock_rest [OF failed_rollback] by (fastforce simp: shm_begin_def settled_def split: prod.splits sum.splits)
    qed
  qed
qed

lemma tx_collect: "in_tx L B q N S shm_collect (\<lambda>_. mid L B q N {})"
  unfolding shm_collect_def
proof (rule tx_update)
  fix d assume d: "mid L B q N S d"
  have ok: "segments_ok (body_ids d) (db_tables d)" "holds_kept L (db_tables d)" using d by (simp_all add: mid_def)
  show "mid L B q N {} (d\<lparr>db_tables := to_garbage (mark_orphans (db_tables d))\<rparr>)"
    using d collect_segments_ok(3) [OF ok]
    by (intro mid_tables [OF d collect_segments_ok(1,2) [OF ok]]) (auto simp: mid_def mark_orphans_def)
qed

text \<open>A failure takes everything back, except one that comes after the commit.\<close>

lemma finish_ok:
  assumes "case r of Inl _ \<Rightarrow> failed L B q d | Inr x \<Rightarrow> mid L B q (N x) (S x) d"
  shows "case shm_finish r d of
      (Inl _, t) \<Rightarrow> at_rest L q (view L B) t \<or> q = Any_Call \<and> (\<exists>x. r = Inr x \<and> at_rest L q (N x) t)
    | (Inr x, t) \<Rightarrow> r = Inr x \<and> at_rest L q (N x) t"
proof (cases r)
  case (Inl er)
  thus ?thesis using assms by (simp add: shm_finish_def sh_then_def sh_lift_def shm_commit_def unlock_rest failed_rollback)
next
  case (Inr x)
  have d: "mid L B q (N x) (S x) d" using assms Inr by simp
  obtain r1 t where c: "shm_collect d = (r1, t)" by fastforce
  show ?thesis
  proof (cases r1)
    case (Inl er)
    have "failed L B q t" using run_okD [OF tx_collect d] c Inl by simp
    thus ?thesis using c Inl \<open>r = Inr x\<close> by (simp add: shm_finish_def sh_then_def sh_lift_def shm_commit_def unlock_rest failed_rollback)
  next
    case Inr
    have t: "mid L B q (N x) {} t" using run_okD [OF tx_collect d] c Inr by simp
    obtain r2 u where a: "sh_answer t = (r2, u)" by fastforce
    have u: "case r2 of Inl _ \<Rightarrow> failed L B q u | Inr _ \<Rightarrow> mid L B q (N x) {} u"
      using run_okD [OF steady_answer t] a by simp
    show ?thesis
    proof (cases r2)
      case (Inl er)
      thus ?thesis using c a u Inr \<open>r = Inr x\<close>
        by (simp add: shm_finish_def sh_then_def sh_lift_def sh_return_def shm_commit_def unlock_rest failed_rollback)
    next
      case Inr2: Inr
      hence "settled L q (N x) u" using u by (simp add: mid_settled)
      note tidy = collect_bodies_ok [OF this]
      obtain r3 v where v: "collect_bodies u = (r3, v)" by fastforce
      have "at_rest L q (N x) (shm_unlock v)" "q = Any_Call \<or> r3 = Inr ()" using tidy v by (simp_all add: unlock_rest)
      thus ?thesis using c a v Inr Inr2 \<open>r = Inr x\<close>
        by (cases r3) (simp_all add: shm_finish_def sh_then_def sh_lift_def sh_return_def shm_commit_def)
    qed
  qed
qed

theorem transaction_ok:
  assumes "at_rest L q N d" "leases_held e L"
    and "in_tx L (db_tables d) q N {} m (\<lambda>x. mid L (db_tables d) q (N' x) (S' x))"
  shows "case shm_transaction e s m d of
      (Inl _, t) \<Rightarrow> at_rest L q N t \<or> q = Any_Call \<and> (\<exists>x. at_rest L q (N' x) t)
    | (Inr x, t) \<Rightarrow> at_rest L q (N' x) t"
proof -
  obtain r t where b: "shm_begin e s d = (r, t)" by fastforce
  note start = begin_ok [OF assms(1,2), of s, unfolded b]
  show ?thesis
  proof (cases r)
    case Inl
    thus ?thesis using b start by (simp add: shm_transaction_def)
  next
    case Inr
    obtain r2 u where m: "m t = (r2, u)" by fastforce
    have t: "mid L (db_tables d) q N {} t" using start Inr by simp
    have "case r2 of Inl _ \<Rightarrow> failed L (db_tables d) q u | Inr x \<Rightarrow> mid L (db_tables d) q (N' x) (S' x) u"
      using run_okD [OF assms(3) t] m by simp
    note fin = finish_ok [OF this]
    have "view L (db_tables d) = N" using assms(1) by (simp add: at_rest_def settled_def)
    thus ?thesis using fin b m Inr by (auto simp: shm_transaction_def split: prod.splits sum.splits)
  qed
qed

section \<open>Owners come and go\<close>

definition only :: "int set \<Rightarrow> (int \<Rightarrow> u64 \<Rightarrow> int \<Rightarrow> int) \<Rightarrow> int \<Rightarrow> u64 \<Rightarrow> int \<Rightarrow> int" where
  "only L N = (\<lambda>l s g. if l \<in> L then N l s g else 0)"

lemma view_only: "L' \<subseteq> L \<Longrightarrow> view L' t = only L' (view L t)"
  by (auto simp: view_def only_def fun_eq_iff)

lemma settled_mono: "settled L q N d \<Longrightarrow> L' \<subseteq> L \<Longrightarrow> settled L' q (only L' N) d"
  using view_only [of L' L "db_tables d"] holds_kept_mono [of L "db_tables d" L'] by (auto simp: settled_def)

lemma rest_mono: "at_rest L q N d \<Longrightarrow> L' \<subseteq> L \<Longrightarrow> at_rest L' q (only L' N) d"
  using settled_mono [of L q N d L'] by (simp add: at_rest_def)

lemma settled_only: "settled L q N d \<Longrightarrow> only L N = N"
  using view_only [of L L "db_tables d"] by (simp add: settled_def)

lemma leases_mono: "leases_held e L \<Longrightarrow> L' \<subseteq> L \<Longrightarrow> leases_held e L'"
  by (auto simp: leases_held_def)

lemma leave_ok:
  assumes "at_rest L q N d" "leases_held e L" "au_owner s \<notin> L"
  shows "at_rest L q N (shm_leave e s d)"
  using transaction_ok [OF assms(1,2) steady_remove_owner [OF assms(3)], of s]
  by (auto simp: shm_leave_def split: prod.splits sum.splits)

lemma settled_orphans:
  assumes "settled L q N d"
  shows "case unlink_orphans gs d of (_, t) \<Rightarrow> settled L q N t"
proof -
  let ?P = "settled L q N"
  have answer: "run_ok ?P ?P sh_answer (\<lambda>_. ?P)" by (rule run_answer) (auto intro: settled_faults)
  have select: "run_ok ?P ?P (sh_select f) (\<lambda>x d. ?P d \<and> x = f (db_tables d))" for f :: "shm_tables \<Rightarrow> bool"
    unfolding sh_select_def by (rule run_then [OF answer]) (simp add: run_ok_def)
  have "run_ok ?P ?P (unlink_orphans gs) (\<lambda>_. ?P)"
  proof (induction gs)
    case (Cons g gs)
    have one: "run_ok ?P (\<lambda>d. ?P d \<and> known = (g \<in> segment_ids (db_tables d)))
       (if known then sh_return () else sh_then sh_answer (\<lambda>_ d. (Inr (), remove_body g d))) (\<lambda>_. ?P)" for known
    proof (cases known)
      case False
      have "run_ok ?P (\<lambda>d. ?P d \<and> g \<notin> segment_ids (db_tables d)) (sh_then sh_answer (\<lambda>_ d. (Inr (), remove_body g d))) (\<lambda>_. ?P)"
        by (rule run_then [OF run_answer]) (auto intro: settled_faults simp: run_ok_def settled_garbage)
      thus ?thesis using False by (auto elim: run_pre)
    qed (auto intro: run_return)
    show ?case using run_then [OF select run_then [OF one Cons]] Cons by simp
  qed (simp add: run_return)
  thus ?thesis using run_okD [of ?P ?P _ "\<lambda>_. ?P"] assms by (fastforce split: prod.splits sum.splits)
qed

lemma sweep_ok:
  assumes "settled L q N d"
  shows "settled L q N (snd (shm_sweep d))"
proof -
  let ?P = "settled L q N"
  have answer: "run_ok ?P ?P sh_answer (\<lambda>_. ?P)" by (rule run_answer) (auto intro: settled_faults)
  have bodies: "run_ok ?P ?P collect_bodies (\<lambda>_. ?P)"
    using collect_bodies_ok [of L q N] by (fastforce simp: run_ok_def split: prod.splits sum.splits)
  have "run_ok ?P ?P collect_orphans (\<lambda>_. ?P)"
    unfolding collect_orphans_def
    by (rule run_then [OF answer]) (use settled_orphans in \<open>fastforce simp: run_ok_def split: prod.splits sum.splits\<close>)
  hence "run_ok ?P ?P shm_sweep (\<lambda>_. ?P)"
    unfolding shm_sweep_def by (intro run_then [OF bodies] run_then [OF _ answer])
  thus ?thesis using run_okD [of ?P ?P _ "\<lambda>_. ?P"] assms by (fastforce split: prod.splits sum.splits)
qed

lemma tx_admit:
  assumes "leases_held e L" "rebooted \<longrightarrow> L = {}"
  shows "in_tx L B q N {} (shm_admit e s rebooted)
    (\<lambda>_ d. mid L B q N {} d \<and> au_owner s \<in> fst ` set (sh_owners (db_tables d)) \<and> au_owner s \<notin> L
       \<and> holds_kept (insert (au_owner s) L) (db_tables d) \<and> view (insert (au_owner s) L) (db_tables d) = N)"
proof -
  have answers: "steady L B q N {} (sh_answers n)" for n
    by (induction n) (auto intro: steady_basic run_then [OF steady_answer])
  have "mid L B q N {} (d\<lparr>db_tables := forget_segments (db_tables d)\<rparr>)" if "mid L B q N {} d" "L = {}" for d
  proof -
    have ids: "segment_ids (forget_segments t) = segment_ids t" for t by (simp add: forget_segments_def image_image)
    show ?thesis using that
      by (intro mid_tables [OF that(1)]) (auto simp: mid_def segments_ok_def holds_kept_def ids view_def, auto simp: forget_segments_def view_def fun_eq_iff)
  qed
  hence forget: "steady L B q N {} (if rebooted then sh_update forget_segments else sh_return ())"
    using assms(2) by (auto intro!: tx_update steady_basic)
  show ?thesis
    unfolding shm_admit_def
    by (intro run_then [OF answers] run_then [OF forget] run_then [OF steady_dead_owners] run_then [OF tx_collect] tx_add_owner assms(1))
qed

lemma open_database_ok:
  assumes "at_rest L q N d" "leases_held e L" "rebooted \<longrightarrow> L = {}" "shm_open_database e s rebooted d = (r, t)"
  shows "case r of Inl _ \<Rightarrow> at_rest L q N t | Inr _ \<Rightarrow> au_owner s \<notin> L \<and> at_rest (insert (au_owner s) L) q N t"
proof -
  let ?P = "settled L q N" and ?o = "au_owner s"
  have answer: "run_ok ?P ?P sh_answer (\<lambda>_. ?P)" by (rule run_answer) (auto intro: settled_faults)
  have answers: "run_ok ?P ?P (sh_answers n) (\<lambda>_. ?P)" for n
    by (induction n) (auto intro: run_return run_then [OF answer])
  have lock: "run_ok ?P ?P shm_lock (\<lambda>_. ?P)"
    using answer by (auto simp: run_ok_def shm_lock_def settled_def clean_def split: prod.splits sum.splits)
  obtain r1 u where u: "sh_then (sh_answers 3) (\<lambda>_. sh_then shm_lock (\<lambda>_. sh_answers 5)) d = (r1, u)" by fastforce
  have p: "?P u"
    using run_okD [OF run_then [OF answers [of 3] run_then [OF lock answers [of 5]]], of d] assms(1) u by (auto simp: at_rest_def split: sum.splits)
  show ?thesis
  proof (cases r1)
    case Inl
    thus ?thesis using assms(4) u p by (auto simp: shm_open_database_def unlock_rest)
  next
    case Inr
    let ?u = "u\<lparr>db_began := db_tables u\<rparr>"
    have "mid L (db_tables u) q N {} ?u" using p by (auto simp: mid_def failed_def settled_def clean_def)
    note admit = run_okD [OF tx_admit [OF assms(2,3), of "db_tables u" q N s] this]
    obtain r2 v where v: "shm_admit e s rebooted ?u = (r2, v)" by fastforce
    have undone: "failed L (db_tables u) q x \<Longrightarrow> at_rest L q N (shm_unlock (shm_rollback x))" for x
      using unlock_rest [OF failed_rollback] p by (fastforce simp: settled_def)
    show ?thesis
    proof (cases r2)
      case Inl
      thus ?thesis using assms(4) u v admit Inr undone by (auto simp: shm_open_database_def shm_commit_def)
    next
      case Inr2: Inr
      let ?Q = "\<lambda>x. failed L (db_tables u) q x \<and> settled (insert ?o L) q N x"
      have q: "?Q v" "?o \<notin> L" using admit v Inr2 by (auto simp: mid_def settled_def failed_def)
      have commit: "run_ok ?Q ?Q sh_answer (\<lambda>_. ?Q)" by (rule run_answer) (auto intro: settled_faults failed_faults)
      obtain r3 w where w: "sh_answer v = (r3, w)" by fastforce
      have "?Q w" using run_okD [OF commit q(1)] w by (auto split: sum.splits)
      note swept = sweep_ok [OF conjunct2 [OF this]]
      have small: "only L N = N" using settled_only p by blast
      have "at_rest L q N (shm_leave e s (shm_unlock (snd (shm_sweep w))))"
        using leave_ok [OF rest_mono [OF unlock_rest [OF swept], of L] assms(2) q(2)] small by auto
      thus ?thesis
        using assms(4) u v w q(2) Inr Inr2 undone \<open>?Q w\<close> unlock_rest [OF swept]
        by (cases r3; cases "shm_sweep w") (auto simp: shm_open_database_def shm_commit_def split: sum.splits)
    qed
  qed
qed

section \<open>When no call fails\<close>

abbreviation sure :: "'a shm \<Rightarrow> bool" where
  "sure m \<equiv> run_ok (\<lambda>_. False) (clean No_Call) m (\<lambda>_. clean No_Call)"

lemma sure_answer: "sure sh_answer"
  by (auto simp: run_ok_def sh_answer_def clean_def)

lemma sure_update: "sure (sh_update f)"
  unfolding sh_update_def by (rule run_then [OF sure_answer]) (simp add: run_ok_def clean_def)

lemma sure_select: "sure (sh_select f)"
  unfolding sh_select_def by (rule run_then [OF sure_answer]) (simp add: run_ok_def)

lemma sure_refs: "sure (shm_refs l s g delta)"
  unfolding shm_refs_def by (rule sure_update)

lemma sure_remove_owner: "sure (shm_remove_owner l)"
  unfolding shm_remove_owner_def by (rule run_then [OF sure_update sure_update])

definition leases_known :: "shm_env \<Rightarrow> bool" where
  "leases_known e \<longleftrightarrow> (\<forall>l er. en_dead e l \<noteq> Inl er)"

lemma sure_reap: "leases_known e \<Longrightarrow> sure (shm_reap e s ls)"
proof (induction ls)
  case (Cons l ls)
  obtain x where x: "en_dead e l = Inr x" using Cons.prems by (cases "en_dead e l") (auto simp: leases_known_def)
  have "sure (sh_lift (en_dead e l))" using x by (simp add: run_ok_def sh_lift_def)
  moreover have "sure (if y then shm_remove_owner l else sh_return ())" for y
    by (auto intro: sure_remove_owner run_return)
  ultimately show ?case using Cons by (auto intro!: run_then)
qed (auto intro: run_return)

lemma sure_collect_bodies: "sure collect_bodies"
proof -
  have cleanup: "sure sh_cleanup"
    by (auto simp: run_ok_def sh_cleanup_def clean_def split: list.splits option.splits)
  have unlink: "\<exists>t. unlink_bodies gs d = (Inr (), t) \<and> clean No_Call t" if "clean No_Call d" for gs d
    using that
  proof (induction gs arbitrary: d)
    case (Cons g gs)
    from Cons.prems show ?case
      by (cases rule: cleanup_cases) (use Cons.IH in \<open>auto simp: clean_def remove_body_def\<close>)
  qed simp
  have "case unlink_bodies gs d of (Inl _, t) \<Rightarrow> False | (Inr x, t) \<Rightarrow> clean No_Call t" if "clean No_Call d" for gs d
    using unlink [OF that, of gs] by auto
  hence unlinks: "sure (\<lambda>d. unlink_bodies (sh_garbage (db_tables d)) d)" by (simp add: run_ok_def)
  have cleared: "sure (\<lambda>d. (Inr (), d\<lparr>db_tables := (db_tables d)\<lparr>sh_garbage := []\<rparr>\<rparr>))" by (simp add: run_ok_def clean_def)
  show ?thesis unfolding collect_bodies_def by (rule run_then [OF cleanup run_then [OF unlinks run_then [OF cleanup cleared]]])
qed

lemma transaction_sure:
  assumes "clean No_Call d" "\<not> db_locked d" "leases_known e" "sure m"
  shows "\<exists>x t. shm_transaction e s m d = (Inr x, t)"
proof -
  have "shm_lock d = (Inr (), d\<lparr>db_locked := True\<rparr>)" "sh_answer (d\<lparr>db_locked := True\<rparr>) = (Inr (), d\<lparr>db_locked := True\<rparr>)"
    using assms(1,2) by (simp_all add: shm_lock_def sh_answer_def clean_def)
  moreover have "sure (dead_owners e s)" unfolding dead_owners_def by (rule run_then [OF sure_select sure_reap [OF assms(3)]])
  from run_okD [OF this, of "d\<lparr>db_locked := True, db_began := db_tables d\<rparr>"]
  obtain t where t: "dead_owners e s (d\<lparr>db_locked := True, db_began := db_tables d\<rparr>) = (Inr (), t)" "clean No_Call t"
    using assms(1) by (auto simp: clean_def split: prod.splits sum.splits)
  ultimately have "shm_begin e s d = (Inr (), t)" by (simp add: shm_begin_def)
  moreover obtain x u where m: "m t = (Inr x, u)" "clean No_Call u" using run_okD [OF assms(4) t(2)] by (auto split: prod.splits sum.splits)
  moreover have "sure shm_collect" unfolding shm_collect_def by (rule sure_update)
  from run_okD [OF this m(2)] obtain v where v: "shm_collect u = (Inr (), v)" "clean No_Call v" by (auto split: prod.splits sum.splits)
  moreover have "sh_answer v = (Inr (), v)" using v(2) by (simp add: sh_answer_def clean_def)
  moreover obtain w where "collect_bodies v = (Inr (), w)" using run_okD [OF sure_collect_bodies v(2)] by (auto split: prod.splits sum.splits)
  ultimately show ?thesis by (simp add: shm_transaction_def shm_finish_def sh_then_def sh_lift_def sh_return_def shm_commit_def)
qed

end
