(* ===== verification/Sysv_Shm_Space.thy ===== *)
theory Sysv_Shm_Space
  imports Sysv_Shm
begin

unbundle bit_operations_syntax

text \<open>
  Address spaces with shared memory, from \<^verbatim>\<open>src/native/shroot/src/sysv_shm.c\<close>. A supervisor keeps for
  every address space of its guests the mappings of segments; a mapping keeps its authority open, and
  the database counts it. An attachment is first pending, held by the call that makes it, and then
  either published or aborted.

  The world holds all supervisors of a store: authorities, address spaces and pending attachments are
  addressed by their positions, and each belongs to the supervisor it lives in. The calls of all
  supervisors come in any order.
\<close>

section \<open>State\<close>

record shm_mapping =
  mp_space :: nat
  mp_authority :: nat
  mp_segment :: int
  mp_address :: u64
  mp_base :: u64
  mp_size :: u64

record shm_space =
  sp_references :: nat
  sp_used :: bool
  sp_id :: u64
  sp_maps :: "shm_mapping list"
  sp_home :: nat

text \<open>\<open>wd_next\<close> is the counter \<open>spaces\<close> of each supervisor.\<close>

record shm_world =
  wd_db :: shm_db
  wd_authorities :: "md_shm option list"
  wd_spaces :: "shm_space option list"
  wd_pending :: "shm_mapping option list"
  wd_next :: "nat \<Rightarrow> u64"

definition authority :: "shm_world \<Rightarrow> nat \<Rightarrow> md_shm" where
  "authority w a = the (wd_authorities w ! a)"

definition shm_space_at :: "shm_world \<Rightarrow> nat \<Rightarrow> shm_space" where
  "shm_space_at w m = the (wd_spaces w ! m)"

abbreviation maps_at :: "shm_world \<Rightarrow> nat \<Rightarrow> shm_mapping list" where
  "maps_at w m \<equiv> sp_maps (shm_space_at w m)"

definition put_authority :: "nat \<Rightarrow> md_shm option \<Rightarrow> shm_world \<Rightarrow> shm_world" where
  "put_authority a s w = w\<lparr>wd_authorities := (wd_authorities w)[a := s]\<rparr>"

definition put_shm_space :: "nat \<Rightarrow> shm_space option \<Rightarrow> shm_world \<Rightarrow> shm_world" where
  "put_shm_space m sp w = w\<lparr>wd_spaces := (wd_spaces w)[m := sp]\<rparr>"

definition set_maps :: "nat \<Rightarrow> shm_mapping list \<Rightarrow> shm_world \<Rightarrow> shm_world" where
  "set_maps m maps w = put_shm_space m (Some ((shm_space_at w m)\<lparr>sp_maps := maps\<rparr>)) w"

definition put_pending :: "nat \<Rightarrow> shm_mapping option \<Rightarrow> shm_world \<Rightarrow> shm_world" where
  "put_pending i p w = w\<lparr>wd_pending := (wd_pending w)[i := p]\<rparr>"

definition on_db :: "'a shm \<Rightarrow> shm_world \<Rightarrow> 'a result \<times> shm_world" where
  "on_db m w = (case m (wd_db w) of (r, d) \<Rightarrow> (r, w\<lparr>wd_db := d\<rparr>))"

section \<open>Authorities\<close>

definition md_shm_open :: "shm_env \<Rightarrow> u64 \<Rightarrow> ns_ptr \<Rightarrow> nat \<Rightarrow> bool \<Rightarrow> shm_world \<Rightarrow> nat result \<times> shm_world" where
  "md_shm_open e namespace users home rebooted w =
     (let s = \<lparr>au_owner = en_lease e, au_namespace = namespace, au_users = users, au_references = 1, au_home = home\<rparr> in
      case on_db (shm_open_database e s rebooted) w of
        (Inl er, t) \<Rightarrow> (Inl er, t)
      | (Inr _, t) \<Rightarrow> (Inr (length (wd_authorities t)), t\<lparr>wd_authorities := wd_authorities t @ [Some s]\<rparr>))"

definition md_shm_retain :: "nat \<Rightarrow> shm_world \<Rightarrow> shm_world" where
  "md_shm_retain a w = put_authority a (Some ((authority w a)\<lparr>au_references := au_references (authority w a) + 1\<rparr>)) w"

definition md_shm_close :: "shm_env \<Rightarrow> nat \<Rightarrow> shm_world \<Rightarrow> shm_world" where
  "md_shm_close e a w =
     (let s = authority w a in
      if au_references s \<noteq> 1 then put_authority a (Some (s\<lparr>au_references := au_references s - 1\<rparr>)) w
      else put_authority a None (w\<lparr>wd_db := shm_leave e s (wd_db w)\<rparr>))"

section \<open>Address spaces\<close>

definition md_shm_space_new :: "nat \<Rightarrow> shm_world \<Rightarrow> nat option \<times> shm_world" where
  "md_shm_space_new home w =
     (case on_db sh_answer w of
        (Inl _, t) \<Rightarrow> (None, t)
      | (Inr _, t) \<Rightarrow>
         let number = wd_next t home + 1 in
         (Some (length (wd_spaces t)),
          t\<lparr>wd_spaces := wd_spaces t @ [Some \<lparr>sp_references = 1, sp_used = False, sp_id = number, sp_maps = [], sp_home = home\<rparr>],
            wd_next := (wd_next t)(home := number)\<rparr>))"

definition md_shm_space_used :: "nat option \<Rightarrow> shm_world \<Rightarrow> bool" where
  "md_shm_space_used m w = (case m of None \<Rightarrow> False | Some m \<Rightarrow> sp_used (shm_space_at w m))"

text \<open>Every mapping of one authority leaves the space and gives up its reference.\<close>

fun drop_maps :: "shm_env \<Rightarrow> nat \<Rightarrow> nat \<Rightarrow> shm_mapping list \<Rightarrow> shm_mapping list \<Rightarrow> shm_world \<Rightarrow> shm_world" where
  "drop_maps e m a kept [] w = w"
| "drop_maps e m a kept (p # rest) w =
     (if mp_authority p \<noteq> a then drop_maps e m a (kept @ [p]) rest w
      else drop_maps e m a kept rest (md_shm_close e a (set_maps m (kept @ rest) w)))"

definition forget_space :: "int \<Rightarrow> u64 \<Rightarrow> unit shm" where
  "forget_space lessee space = sh_update (\<lambda>t. t\<lparr>sh_refs := filter (\<lambda>x. \<not> (rf_owner x = lessee \<and> rf_space x = space)) (sh_refs t)\<rparr>)"

function release_each :: "shm_env \<Rightarrow> nat \<Rightarrow> shm_mapping list \<Rightarrow> unit result \<Rightarrow> shm_world \<Rightarrow> unit result \<times> shm_world" where
  "release_each e m [] r w = (r, w)"
| "release_each e m (p # ps) r w =
     (let a = mp_authority p; t = md_shm_retain a w; s = authority t a;
          (er, u) = on_db (shm_transaction e s (forget_space (au_owner s) (sp_id (shm_space_at t m)))) t;
          v = md_shm_close e a (drop_maps e m a [] (p # ps) u)
      in release_each e m (filter (\<lambda>x. mp_authority x \<noteq> a) (p # ps)) (case r of Inl x \<Rightarrow> Inl x | Inr _ \<Rightarrow> er) v)"
  by pat_completeness auto
termination by (relation "measure (\<lambda>(_, _, ps, _, _). length ps)") (auto simp: less_Suc_eq_le)

definition md_shm_space_release :: "shm_env \<Rightarrow> nat option \<Rightarrow> shm_world \<Rightarrow> unit result \<times> shm_world" where
  "md_shm_space_release e space w =
     (case space of None \<Rightarrow> (Inr (), w)
      | Some m \<Rightarrow>
         let left = sp_references (shm_space_at w m) - 1; t = put_shm_space m (Some ((shm_space_at w m)\<lparr>sp_references := left\<rparr>)) w in
         if left \<noteq> 0 then (Inr (), t)
         else case release_each e m (maps_at t m) (Inr ()) t of (r, u) \<Rightarrow> (r, put_shm_space m None u))"

subsection \<open>Copies\<close>

text \<open>The copies are made in front of each other, one allocation each.\<close>

fun copy_maps :: "nat \<Rightarrow> shm_mapping list \<Rightarrow> shm_mapping list \<Rightarrow> shm_mapping list shm" where
  "copy_maps m [] pending = sh_return pending"
| "copy_maps m (p # ps) pending = sh_then sh_answer (\<lambda>_. copy_maps m ps (p\<lparr>mp_space := m\<rparr> # pending))"

fun count_copies :: "nat \<Rightarrow> int \<Rightarrow> u64 \<Rightarrow> shm_mapping list \<Rightarrow> unit shm" where
  "count_copies a lessee space [] = sh_return ()"
| "count_copies a lessee space (p # ps) =
     sh_then (if mp_authority p = a then shm_refs lessee space (mp_segment p) 1 else sh_return ()) (\<lambda>_. count_copies a lessee space ps)"

fun publish_maps :: "nat \<Rightarrow> nat \<Rightarrow> shm_mapping list \<Rightarrow> shm_world \<Rightarrow> shm_world" where
  "publish_maps m a [] w = w"
| "publish_maps m a (p # ps) w =
     publish_maps m a ps (if mp_authority p = a then md_shm_retain a (set_maps m (p # maps_at w m) w) else w)"

text \<open>The mappings of one authority are published after all of them are counted in one transaction.\<close>

function publish_copies :: "shm_env \<Rightarrow> nat \<Rightarrow> shm_mapping list \<Rightarrow> shm_world \<Rightarrow> unit result \<times> shm_world" where
  "publish_copies e m [] w = (Inr (), w)"
| "publish_copies e m (p # ps) w =
     (let a = mp_authority p; s = authority w a in
      case on_db (shm_transaction e s (count_copies a (au_owner s) (sp_id (shm_space_at w m)) (p # ps))) w of
        (Inl er, t) \<Rightarrow> (Inl er, t)
      | (Inr _, t) \<Rightarrow> publish_copies e m (filter (\<lambda>x. mp_authority x \<noteq> a) (p # ps)) (publish_maps m a (p # ps) t))"
  by pat_completeness auto
termination by (relation "measure (\<lambda>(_, _, ps, _). length ps)") (auto simp: less_Suc_eq_le)

definition md_shm_space_fork :: "shm_env \<Rightarrow> nat \<Rightarrow> bool \<Rightarrow> shm_world \<Rightarrow> nat option \<times> shm_world" where
  "md_shm_space_fork e m shared w =
     (if shared then (Some m, put_shm_space m (Some ((shm_space_at w m)\<lparr>sp_references := sp_references (shm_space_at w m) + 1\<rparr>)) w)
      else case md_shm_space_new (sp_home (shm_space_at w m)) w of
        (None, t) \<Rightarrow> (None, t)
      | (Some n, t) \<Rightarrow>
         let u = put_shm_space n (Some ((shm_space_at t n)\<lparr>sp_used := sp_used (shm_space_at t m)\<rparr>)) t in
         (case on_db (copy_maps n (maps_at u m) []) u of
            (Inl _, v) \<Rightarrow> (None, snd (md_shm_space_release e (Some n) v))
          | (Inr pending, v) \<Rightarrow>
             (case publish_copies e n pending v of
                (Inl _, x) \<Rightarrow> (None, snd (md_shm_space_release e (Some n) x))
              | (Inr _, x) \<Rightarrow> (Some n, x))))"

section \<open>Pending attachments and unmapping\<close>

definition md_shm_abort :: "shm_env \<Rightarrow> nat \<Rightarrow> shm_world \<Rightarrow> unit result \<times> shm_world" where
  "md_shm_abort e i w =
     (case wd_pending w ! i of None \<Rightarrow> (Inr (), w)
      | Some p \<Rightarrow>
         let a = mp_authority p; s = authority w a;
             (r, t) = on_db (shm_transaction e s (shm_refs (au_owner s) (sp_id (shm_space_at w (mp_space p))) (mp_segment p) (- 1))) w
         in (r, md_shm_close e a (put_pending i None t)))"

definition md_shm_pending_size :: "shm_mapping option \<Rightarrow> u64" where
  "md_shm_pending_size p = (case p of None \<Rightarrow> 0 | Some p \<Rightarrow> mp_size p)"

definition range_end :: "u64 \<Rightarrow> u64 \<Rightarrow> u64" where
  "range_end address bytes = (if bytes > UINTPTR_MAX - address then UINTPTR_MAX else address + bytes)"

definition md_shm_intersects :: "shm_mapping list \<Rightarrow> u64 \<Rightarrow> u64 \<Rightarrow> bool" where
  "md_shm_intersects maps address bytes \<longleftrightarrow>
     (\<exists>p \<in> set maps. mp_address p < range_end address bytes \<and> mp_address p + mp_size p > address)"

text \<open>A mapping that sticks out on both sides is split, one inside goes, another is shortened.\<close>

definition splits :: "u64 \<Rightarrow> u64 \<Rightarrow> shm_mapping \<Rightarrow> bool" where
  "splits lo hi p \<longleftrightarrow> mp_address p < lo \<and> mp_address p + mp_size p > hi"

definition inside :: "u64 \<Rightarrow> u64 \<Rightarrow> shm_mapping \<Rightarrow> bool" where
  "inside lo hi p \<longleftrightarrow> mp_address p \<ge> lo \<and> mp_address p + mp_size p \<le> hi"

definition unmap_count :: "shm_env \<Rightarrow> md_shm \<Rightarrow> u64 \<Rightarrow> u64 \<Rightarrow> u64 \<Rightarrow> int \<Rightarrow> nat option \<Rightarrow> shm_mapping \<Rightarrow> unit shm" where
  "unmap_count e s space lo hi pid process p =
     (if splits lo hi p then sh_then sh_answer (\<lambda>_. shm_refs (au_owner s) space (mp_segment p) 1)
      else if inside lo hi p then shm_detach e s space pid process (mp_segment p)
      else sh_return ())"

definition remains :: "u64 \<Rightarrow> u64 \<Rightarrow> shm_mapping \<Rightarrow> shm_mapping list" where
  "remains lo hi p =
     (let left = p\<lparr>mp_size := lo - mp_address p\<rparr>; right = p\<lparr>mp_address := hi, mp_size := mp_address p + mp_size p - hi\<rparr> in
      if splits lo hi p then [left, right] else if inside lo hi p then []
      else if mp_address p < lo then [left] else [right])"

fun unmap_each ::
  "shm_env \<Rightarrow> nat \<Rightarrow> u64 \<Rightarrow> u64 \<Rightarrow> int \<Rightarrow> nat option \<Rightarrow> shm_mapping list \<Rightarrow> shm_mapping list \<Rightarrow> shm_world \<Rightarrow> unit result \<times> shm_world" where
  "unmap_each e m lo hi pid process walked [] w = (Inr (), w)"
| "unmap_each e m lo hi pid process walked (p # rest) w =
     (if mp_address p \<ge> hi \<or> mp_address p + mp_size p \<le> lo then unmap_each e m lo hi pid process (walked @ [p]) rest w
      else
        let a = mp_authority p; s = authority w a in
        case on_db (shm_transaction e s (unmap_count e s (sp_id (shm_space_at w m)) lo hi pid process p)) w of
          (Inl er, t) \<Rightarrow> (Inl er, t)
        | (Inr _, t) \<Rightarrow>
           let u = set_maps m (walked @ remains lo hi p @ rest) t;
               v = (if splits lo hi p then md_shm_retain a u else if inside lo hi p then md_shm_close e a u else u)
           in unmap_each e m lo hi pid process (walked @ remains lo hi p) rest v)"

definition md_shm_unmapped :: "shm_env \<Rightarrow> nat \<Rightarrow> u64 \<Rightarrow> u64 \<Rightarrow> int \<Rightarrow> nat option \<Rightarrow> shm_world \<Rightarrow> unit result \<times> shm_world" where
  "md_shm_unmapped e m address bytes pid process w =
     (if \<not> md_shm_intersects (maps_at w m) address bytes then (Inr (), w)
      else unmap_each e m address (range_end address bytes) pid process [] (maps_at w m) w)"

section \<open>Calls\<close>

datatype shm_operation =
    MD_SHM_GET | MD_SHM_OPEN | MD_SHM_STAT | MD_SHM_SET | MD_SHM_REMOVE
  | MD_SHM_ATTACHED | MD_SHM_ABORT | MD_SHM_DETACH_SIZE | MD_SHM_DETACHED | MD_SHM_DETACH_ADDRESS
  | MD_SHM_UNKNOWN

text \<open>
  Attaching: the call holds the new mapping until its bytes are mapped. A call that fails leaves
  nothing pending, not even what was pending before.
\<close>

definition shm_open_segment ::
  "shm_env \<Rightarrow> nat \<Rightarrow> nat \<Rightarrow> nat \<Rightarrow> identity \<Rightarrow> int \<Rightarrow> nat option \<Rightarrow> int \<Rightarrow> u64 \<Rightarrow> shm_world \<Rightarrow> u64 result \<times> shm_world" where
  "shm_open_segment e a m i v pid process segment flags w =
     (let s = authority w a in
      case on_db (shm_begin e s) w of
        (Inl er, t) \<Rightarrow> (Inl er, t)
      | (Inr _, t) \<Rightarrow>
         (case on_db (shm_load_live s segment) t of
            (Inl er, u) \<Rightarrow> (case on_db (shm_finish (Inl er :: u64 result)) u of (_, x) \<Rightarrow> (Inl er, put_pending i None x))
          | (Inr st, u) \<Rightarrow>
             let u' = put_shm_space m (Some ((shm_space_at u m)\<lparr>sp_used := True\<rparr>)) u;
                 (r, x) = on_db (shm_attach e s (sp_id (shm_space_at u m)) v pid process segment flags (wd_pending u ! i \<noteq> None) st) u'
             in (case on_db (shm_finish r) x of
                   (Inl er, y) \<Rightarrow> (Inl er, put_pending i None y)
                 | (Inr bytes, y) \<Rightarrow>
                    (Inr (en_descriptor e),
                     md_shm_retain a (put_pending i (Some \<lparr>mp_space = m, mp_authority = a, mp_segment = segment, mp_address = 0,
                        mp_base = 0, mp_size = bytes\<rparr>) y)))))"

text \<open>The operations on a segment that change no mapping.\<close>

definition shm_control ::
  "shm_env \<Rightarrow> md_shm \<Rightarrow> identity \<Rightarrow> nat option \<Rightarrow> shm_operation \<Rightarrow> u64 list \<Rightarrow> int \<Rightarrow> (u64 \<times> shmid_ds option) shm" where
  "shm_control e s v process operation args segment =
     sh_then (shm_load_live s segment)
       (\<lambda>st. case operation of
          MD_SHM_STAT \<Rightarrow> sh_then (shm_stat e s v process segment st) (\<lambda>info. sh_return (0, Some info))
        | MD_SHM_SET \<Rightarrow> sh_then (shm_set e s v segment (args ! 1) (args ! 2) st) (\<lambda>_. sh_return (0, None))
        | MD_SHM_REMOVE \<Rightarrow> sh_then (shm_remove e s v segment st) (\<lambda>_. sh_return (0, None))
        | _ \<Rightarrow> sh_fail ENOTSUP)"

definition with_value :: "'a result \<times> shm_world \<Rightarrow> ('a \<Rightarrow> u64) \<Rightarrow> (u64 \<times> shmid_ds option) result \<times> shm_world" where
  "with_value x f = (case x of (Inl er, w) \<Rightarrow> (Inl er, w) | (Inr y, w) \<Rightarrow> (Inr (f y, None), w))"

definition md_shm_call ::
  "shm_env \<Rightarrow> nat \<Rightarrow> nat \<Rightarrow> nat \<Rightarrow> identity \<Rightarrow> int \<Rightarrow> nat option \<Rightarrow> shm_operation \<Rightarrow> u64 list \<Rightarrow> shm_world \<Rightarrow>
     (u64 \<times> shmid_ds option) result \<times> shm_world" where
  "md_shm_call e a m i v pid process operation args w =
     (let segment = sint (ucast (args ! 0) :: u32); s = authority w a in
      case operation of
        MD_SHM_ABORT \<Rightarrow> with_value (md_shm_abort e i w) (\<lambda>_. 0)
      | MD_SHM_ATTACHED \<Rightarrow>
         (case wd_pending w ! i of None \<Rightarrow> (Inl EINVAL, w)
          | Some p \<Rightarrow> if mp_space p \<noteq> m \<or> args ! 0 = 0 then (Inl EINVAL, w)
             else (Inr (0, None), put_pending i None (set_maps m (p\<lparr>mp_address := args ! 0, mp_base := args ! 0\<rparr> # maps_at w m) w)))
      | MD_SHM_DETACH_ADDRESS \<Rightarrow>
         (case find (\<lambda>p. mp_base p = args ! 0) (maps_at w m) of None \<Rightarrow> (Inl EINVAL, w) | Some p \<Rightarrow> (Inr (mp_address p, None), w))
      | MD_SHM_DETACH_SIZE \<Rightarrow>
         (case find (\<lambda>p. mp_address p = args ! 0) (maps_at w m) of None \<Rightarrow> (Inl EINVAL, w) | Some p \<Rightarrow> (Inr (mp_size p, None), w))
      | MD_SHM_DETACHED \<Rightarrow>
         (case find (\<lambda>p. mp_address p = args ! 0) (maps_at w m) of None \<Rightarrow> (Inl EINVAL, w)
          | Some p \<Rightarrow> with_value (md_shm_unmapped e m (mp_address p) (mp_size p) pid process w) (\<lambda>_. 0))
      | MD_SHM_GET \<Rightarrow> with_value (on_db (shm_transaction e s (shm_get e s v pid process segment (args ! 1) (ucast (args ! 2)))) w) word_of_int
      | MD_SHM_OPEN \<Rightarrow> with_value (shm_open_segment e a m i v pid process segment (args ! 1) w) (\<lambda>x. x)
      | _ \<Rightarrow> on_db (shm_transaction e s (shm_control e s v process operation args segment)) w)"

section \<open>The invariant\<close>

definition cnt :: "(shm_mapping \<Rightarrow> bool) \<Rightarrow> shm_mapping list \<Rightarrow> nat" where
  "cnt P ps = length (filter P ps)"

definition space_maps :: "shm_space option \<Rightarrow> shm_mapping list" where
  "space_maps x = (case x of None \<Rightarrow> [] | Some sp \<Rightarrow> sp_maps sp)"

definition slot_maps :: "shm_mapping option \<Rightarrow> shm_mapping list" where
  "slot_maps x = (case x of None \<Rightarrow> [] | Some p \<Rightarrow> [p])"

text \<open>How many mappings, published and pending, have a property.\<close>

definition mapped :: "(shm_mapping \<Rightarrow> bool) \<Rightarrow> shm_world \<Rightarrow> nat" where
  "mapped P w = sum_list (map (\<lambda>x. cnt P (space_maps x)) (wd_spaces w)) + sum_list (map (\<lambda>x. cnt P (slot_maps x)) (wd_pending w))"

definition all_maps :: "shm_world \<Rightarrow> shm_mapping set" where
  "all_maps w = (\<Union>x \<in> set (wd_spaces w). set (space_maps x)) \<union> (\<Union>x \<in> set (wd_pending w). set (slot_maps x))"

abbreviation uses :: "nat \<Rightarrow> shm_mapping \<Rightarrow> bool" where
  "uses a p \<equiv> mp_authority p = a"

abbreviation key :: "nat \<Rightarrow> nat \<Rightarrow> int \<Rightarrow> shm_mapping \<Rightarrow> bool" where
  "key a m g p \<equiv> mp_authority p = a \<and> mp_space p = m \<and> mp_segment p = g"

text \<open>What identifies authorities and address spaces.\<close>

definition at :: "'a option list \<Rightarrow> nat \<Rightarrow> 'a \<Rightarrow> bool" where
  "at xs i x \<longleftrightarrow> i < length xs \<and> xs ! i = Some x"

definition auth_frame :: "shm_world \<Rightarrow> (int \<times> nat) option list" where
  "auth_frame w = map (map_option (\<lambda>s. (au_owner s, au_home s))) (wd_authorities w)"

definition space_frame :: "shm_world \<Rightarrow> (u64 \<times> nat) option list" where
  "space_frame w = map (map_option (\<lambda>sp. (sp_id sp, sp_home sp))) (wd_spaces w)"

definition live_owners :: "shm_world \<Rightarrow> int set" where
  "live_owners w = {l. \<exists>a h. at (auth_frame w) a (l, h)}"

definition placed :: "shm_world \<Rightarrow> shm_mapping \<Rightarrow> bool" where
  "placed w p \<longleftrightarrow> (\<exists>l h number. at (auth_frame w) (mp_authority p) (l, h) \<and> at (space_frame w) (mp_space p) (number, h))"

text \<open>
  A mapping is in its space and its authority is open and of the same supervisor; the references of
  an authority cover its mappings; numbers of spaces and owners are not shared.
\<close>

definition world_wf :: "shm_world \<Rightarrow> bool" where
  "world_wf w \<longleftrightarrow>
     (\<forall>m sp. at (wd_spaces w) m sp \<longrightarrow> (\<forall>p \<in> set (sp_maps sp). mp_space p = m))
     \<and> (\<forall>p \<in> all_maps w. placed w p)
     \<and> (\<forall>a s. at (wd_authorities w) a s \<longrightarrow> mapped (uses a) w \<le> au_references s \<and> 0 < au_references s)
     \<and> (\<forall>m n x. at (space_frame w) m x \<longrightarrow> at (space_frame w) n x \<longrightarrow> m = n)
     \<and> (\<forall>m number h. at (space_frame w) m (number, h) \<longrightarrow> number \<le> wd_next w h)
     \<and> (\<forall>a b l h k. at (auth_frame w) a (l, h) \<longrightarrow> at (auth_frame w) b (l, k) \<longrightarrow> a = b)"

text \<open>A count covers the mappings, and equals their number when no call fails.\<close>

definition fits :: "trouble \<Rightarrow> int \<Rightarrow> nat \<Rightarrow> bool" where
  "fits q n k \<longleftrightarrow> int k \<le> n \<and> (q = No_Call \<longrightarrow> n = int k)"

text \<open>\<open>H\<close> are the authorities in spaces whose mappings are just leaving.\<close>

definition counts_fit :: "trouble \<Rightarrow> (nat \<times> nat) set \<Rightarrow> (int \<Rightarrow> u64 \<Rightarrow> int \<Rightarrow> int) \<Rightarrow> (int \<times> nat) option list \<Rightarrow> (u64 \<times> nat) option list
    \<Rightarrow> (nat \<Rightarrow> nat \<Rightarrow> int \<Rightarrow> nat) \<Rightarrow> bool" where
  "counts_fit q H N A S T \<longleftrightarrow> (\<forall>a l h g. at A a (l, h) \<longrightarrow>
     (\<forall>m number. at S m (number, h) \<longrightarrow> fits q (N l number g) (if (a, m) \<in> H then 0 else T a m g))
     \<and> (\<forall>number. (\<forall>m. \<not> at S m (number, h)) \<longrightarrow> fits q (N l number g) 0))"

abbreviation tally :: "shm_world \<Rightarrow> nat \<Rightarrow> nat \<Rightarrow> int \<Rightarrow> nat" where
  "tally w a m g \<equiv> mapped (key a m g) w"

definition env_ok :: "trouble \<Rightarrow> shm_env \<Rightarrow> shm_world \<Rightarrow> bool" where
  "env_ok q e w \<longleftrightarrow> leases_held e (live_owners w) \<and> (q = No_Call \<longrightarrow> leases_known e)"

definition world_inv :: "trouble \<Rightarrow> (nat \<times> nat) set \<Rightarrow> (int \<Rightarrow> u64 \<Rightarrow> int \<Rightarrow> int) \<Rightarrow> shm_world \<Rightarrow> bool" where
  "world_inv q H N w \<longleftrightarrow> world_wf w \<and> at_rest (live_owners w) q N (wd_db w)
     \<and> counts_fit q H N (auth_frame w) (space_frame w) (tally w)"

subsection \<open>Parts of the world\<close>

lemma sum_update: "i < length xs \<Longrightarrow> sum_list (map f (xs[i := y])) + f (xs ! i) = sum_list (map f xs) + (f y :: nat)"
  by (induction xs arbitrary: i) (auto split: nat.splits)

lemma cnt_simps [simp]:
  "cnt P [] = 0" "cnt P (p # ps) = (if P p then 1 else 0) + cnt P ps" "cnt P (xs @ ys) = cnt P xs + cnt P ys"
  by (simp_all add: cnt_def)

lemma slot_simps [simp]: "slot_maps None = []" "slot_maps (Some p) = [p]" "space_maps None = []" "space_maps (Some sp) = sp_maps sp"
  by (simp_all add: slot_maps_def space_maps_def)

lemma at_get: "at (wd_spaces w) m sp \<Longrightarrow> shm_space_at w m = sp" "at (wd_authorities w) a s \<Longrightarrow> authority w a = s"
  by (simp_all add: at_def shm_space_at_def authority_def)

lemma at_update: "at (xs[i := y]) j x \<longleftrightarrow> (if j = i then i < length xs \<and> y = Some x else at xs j x)"
  by (auto simp: at_def)

lemma at_append: "at (xs @ [y]) j x \<longleftrightarrow> (if j = length xs then y = Some x else at xs j x)"
  by (auto simp: at_def nth_append)

lemma at_map: "at (map (map_option f) xs) i y \<longleftrightarrow> (\<exists>x. at xs i x \<and> y = f x)"
  by (auto simp: at_def)

lemma at_unique: "at xs i x \<Longrightarrow> at xs i y \<Longrightarrow> x = y"
  by (simp add: at_def)

lemma frame_at:
  "at (auth_frame w) a (l, h) \<longleftrightarrow> (\<exists>s. at (wd_authorities w) a s \<and> l = au_owner s \<and> h = au_home s)"
  "at (space_frame w) m (number, h) \<longleftrightarrow> (\<exists>sp. at (wd_spaces w) m sp \<and> number = sp_id sp \<and> h = sp_home sp)"
  by (auto simp: auth_frame_def space_frame_def at_map)

lemma mapped_zero_iff: "mapped P w = 0 \<longleftrightarrow> (\<forall>p \<in> all_maps w. \<not> P p)"
  unfolding mapped_def all_maps_def cnt_def by (auto simp: sum_list_eq_0_iff filter_empty_conv)

lemma mapped_positive: "p \<in> all_maps w \<Longrightarrow> P p \<Longrightarrow> 0 < mapped P w"
  using mapped_zero_iff [of P w] by auto

lemma mapped_zero: "(\<And>p. p \<in> all_maps w \<Longrightarrow> \<not> P p) \<Longrightarrow> mapped P w = 0"
  using mapped_zero_iff [of P w] by auto

text \<open>Changing the database.\<close>

lemma db_parts [simp]:
  "auth_frame (w\<lparr>wd_db := d\<rparr>) = auth_frame w" "space_frame (w\<lparr>wd_db := d\<rparr>) = space_frame w" "mapped P (w\<lparr>wd_db := d\<rparr>) = mapped P w"
  "all_maps (w\<lparr>wd_db := d\<rparr>) = all_maps w" "live_owners (w\<lparr>wd_db := d\<rparr>) = live_owners w" "placed (w\<lparr>wd_db := d\<rparr>) = placed w"
  "world_wf (w\<lparr>wd_db := d\<rparr>) = world_wf w" "shm_space_at (w\<lparr>wd_db := d\<rparr>) = shm_space_at w" "authority (w\<lparr>wd_db := d\<rparr>) = authority w"
  by (simp_all add: auth_frame_def space_frame_def mapped_def all_maps_def live_owners_def placed_def world_wf_def shm_space_at_def
      authority_def fun_eq_iff)

lemma env_db [simp]: "env_ok q e (w\<lparr>wd_db := d\<rparr>) = env_ok q e w"
  by (simp add: env_ok_def)

text \<open>Changing mappings and slots.\<close>

lemma set_maps_parts:
  assumes "at (wd_spaces w) m sp"
  shows "auth_frame (set_maps m maps w) = auth_frame w" "space_frame (set_maps m maps w) = space_frame w"
    "mapped P (set_maps m maps w) + cnt P (sp_maps sp) = mapped P w + cnt P maps"
    "all_maps (set_maps m maps w) \<subseteq> all_maps w \<union> set maps"
    "wd_authorities (set_maps m maps w) = wd_authorities w" "wd_next (set_maps m maps w) = wd_next w" "wd_db (set_maps m maps w) = wd_db w"
    "wd_pending (set_maps m maps w) = wd_pending w" "wd_spaces (set_maps m maps w) = (wd_spaces w)[m := Some (sp\<lparr>sp_maps := maps\<rparr>)]"
proof -
  have m: "m < length (wd_spaces w)" "wd_spaces w ! m = Some sp" "shm_space_at w m = sp" using assms by (auto simp: at_def shm_space_at_def)
  show spaces: "wd_spaces (set_maps m maps w) = (wd_spaces w)[m := Some (sp\<lparr>sp_maps := maps\<rparr>)]"
    using m by (simp add: set_maps_def put_shm_space_def)
  show rest: "wd_authorities (set_maps m maps w) = wd_authorities w" "wd_next (set_maps m maps w) = wd_next w"
    "wd_db (set_maps m maps w) = wd_db w" "wd_pending (set_maps m maps w) = wd_pending w"
    by (simp_all add: set_maps_def put_shm_space_def)
  show "auth_frame (set_maps m maps w) = auth_frame w" by (simp add: auth_frame_def rest)
  show "space_frame (set_maps m maps w) = space_frame w"
    using m by (auto simp: space_frame_def spaces map_update intro!: nth_equalityI simp: nth_list_update)
  show "all_maps (set_maps m maps w) \<subseteq> all_maps w \<union> set maps"
    unfolding all_maps_def spaces rest using set_update_subset_insert [of "wd_spaces w" m "Some (sp\<lparr>sp_maps := maps\<rparr>)"] by fastforce
  show "mapped P (set_maps m maps w) + cnt P (sp_maps sp) = mapped P w + cnt P maps"
    using sum_update [OF m(1), of "\<lambda>x. cnt P (space_maps x)" "Some (sp\<lparr>sp_maps := maps\<rparr>)"] m(2) by (simp add: mapped_def spaces rest)
qed

lemma put_pending_parts:
  assumes "i < length (wd_pending w)"
  shows "auth_frame (put_pending i x w) = auth_frame w" "space_frame (put_pending i x w) = space_frame w"
    "mapped P (put_pending i x w) + cnt P (slot_maps (wd_pending w ! i)) = mapped P w + cnt P (slot_maps x)"
    "all_maps (put_pending i x w) \<subseteq> all_maps w \<union> set (slot_maps x)"
    "wd_authorities (put_pending i x w) = wd_authorities w" "wd_next (put_pending i x w) = wd_next w" "wd_db (put_pending i x w) = wd_db w"
    "wd_spaces (put_pending i x w) = wd_spaces w"
proof -
  show "auth_frame (put_pending i x w) = auth_frame w" "space_frame (put_pending i x w) = space_frame w"
    "wd_authorities (put_pending i x w) = wd_authorities w" "wd_next (put_pending i x w) = wd_next w" "wd_db (put_pending i x w) = wd_db w"
    "wd_spaces (put_pending i x w) = wd_spaces w"
    by (simp_all add: put_pending_def auth_frame_def space_frame_def)
  show "mapped P (put_pending i x w) + cnt P (slot_maps (wd_pending w ! i)) = mapped P w + cnt P (slot_maps x)"
    using sum_update [OF assms, of "\<lambda>x. cnt P (slot_maps x)" x] by (simp add: mapped_def put_pending_def)
  show "all_maps (put_pending i x w) \<subseteq> all_maps w \<union> set (slot_maps x)"
    unfolding all_maps_def put_pending_def using set_update_subset_insert [of "wd_pending w" i x] by fastforce
qed

text \<open>Changing what does not identify an authority or a space.\<close>

lemma put_authority_parts:
  assumes "at (wd_authorities w) a s" "au_owner s' = au_owner s" "au_home s' = au_home s"
  shows "auth_frame (put_authority a (Some s') w) = auth_frame w" "space_frame (put_authority a (Some s') w) = space_frame w"
    "mapped P (put_authority a (Some s') w) = mapped P w" "all_maps (put_authority a (Some s') w) = all_maps w"
proof -
  show "auth_frame (put_authority a (Some s') w) = auth_frame w"
    using assms by (auto simp: auth_frame_def put_authority_def map_update at_def intro!: nth_equalityI simp: nth_list_update)
qed (simp_all add: put_authority_def space_frame_def mapped_def all_maps_def)

lemma put_shm_space_parts:
  assumes "at (wd_spaces w) m sp" "sp_id sp' = sp_id sp" "sp_home sp' = sp_home sp" "sp_maps sp' = sp_maps sp"
  shows "auth_frame (put_shm_space m (Some sp') w) = auth_frame w" "space_frame (put_shm_space m (Some sp') w) = space_frame w"
    "mapped P (put_shm_space m (Some sp') w) = mapped P w" "all_maps (put_shm_space m (Some sp') w) = all_maps w"
proof -
  have m: "m < length (wd_spaces w)" "wd_spaces w ! m = Some sp" using assms by (auto simp: at_def)
  show "auth_frame (put_shm_space m (Some sp') w) = auth_frame w" by (simp add: auth_frame_def put_shm_space_def)
  show "space_frame (put_shm_space m (Some sp') w) = space_frame w"
    using m assms by (auto simp: space_frame_def put_shm_space_def map_update intro!: nth_equalityI simp: nth_list_update)
  show "mapped P (put_shm_space m (Some sp') w) = mapped P w"
    using sum_update [OF m(1), of "\<lambda>x. cnt P (space_maps x)" "Some sp'"] m(2) assms(4) by (simp add: mapped_def put_shm_space_def)
  have "map space_maps ((wd_spaces w)[m := Some sp']) = map space_maps (wd_spaces w)"
    using m assms(4) by (auto simp: map_update intro!: nth_equalityI simp: nth_list_update)
  from arg_cong [OF this, of set] have "space_maps ` set ((wd_spaces w)[m := Some sp']) = space_maps ` set (wd_spaces w)" by simp
  hence "(\<Union>x \<in> set ((wd_spaces w)[m := Some sp']). set (space_maps x)) = (\<Union>x \<in> set (wd_spaces w). set (space_maps x))"
    by (metis (mono_tags, lifting) SUP_cong UN_simps(10))
  thus "all_maps (put_shm_space m (Some sp') w) = all_maps w" by (simp add: all_maps_def put_shm_space_def)
qed

subsection \<open>Steps that keep who is there\<close>

definition moves :: "trouble \<Rightarrow> int \<Rightarrow> int \<Rightarrow> bool" where
  "moves q x y \<longleftrightarrow> y \<le> x \<and> (q = No_Call \<longrightarrow> x = y)"

lemma fits_moves: "fits q n k \<Longrightarrow> moves q (n' - n) (int k' - int k) \<Longrightarrow> fits q n' k'"
  by (auto simp: fits_def moves_def)

lemma frames_determine:
  assumes "auth_frame w' = auth_frame w" "space_frame w' = space_frame w"
  shows "live_owners w' = live_owners w" "placed w' = placed w" "env_ok q e w' = env_ok q e w"
  using assms by (simp_all add: live_owners_def placed_def env_ok_def fun_eq_iff)

lemma wfD:
  assumes "world_wf w"
  shows "at (wd_spaces w) m sp \<Longrightarrow> p \<in> set (sp_maps sp) \<Longrightarrow> mp_space p = m"
    and "p \<in> all_maps w \<Longrightarrow> placed w p"
    and "at (wd_authorities w) a s \<Longrightarrow> mapped (uses a) w \<le> au_references s \<and> 0 < au_references s"
    and "at (space_frame w) m x \<Longrightarrow> at (space_frame w) n x \<Longrightarrow> m = n"
    and "at (space_frame w) m (k, h) \<Longrightarrow> k \<le> wd_next w h"
    and "at (auth_frame w) a (l, h) \<Longrightarrow> at (auth_frame w) b (l, h') \<Longrightarrow> a = b"
  using assms unfolding world_wf_def by blast+

lemma wfI:
  assumes "\<And>m sp p. at (wd_spaces w) m sp \<Longrightarrow> p \<in> set (sp_maps sp) \<Longrightarrow> mp_space p = m"
    and "\<And>p. p \<in> all_maps w \<Longrightarrow> placed w p"
    and "\<And>a s. at (wd_authorities w) a s \<Longrightarrow> mapped (uses a) w \<le> au_references s \<and> 0 < au_references s"
    and "\<And>m n k h. at (space_frame w) m (k, h) \<Longrightarrow> at (space_frame w) n (k, h) \<Longrightarrow> m = n"
    and "\<And>m k h. at (space_frame w) m (k, h) \<Longrightarrow> k \<le> wd_next w h"
    and "\<And>a b l h h'. at (auth_frame w) a (l, h) \<Longrightarrow> at (auth_frame w) b (l, h') \<Longrightarrow> a = b"
  shows "world_wf w"
  unfolding world_wf_def split_paired_All
  by (intro conjI allI impI ballI) (rule assms(1,2,4-6) assms(3) [THEN conjunct1] assms(3) [THEN conjunct2]; assumption)+

lemma wf_change:
  assumes "world_wf w" "auth_frame w' = auth_frame w" "space_frame w' = space_frame w" "wd_next w' = wd_next w"
    and "\<And>m sp p. at (wd_spaces w') m sp \<Longrightarrow> p \<in> set (sp_maps sp) \<Longrightarrow> mp_space p = m"
    and "\<And>p. p \<in> all_maps w' \<Longrightarrow> placed w p"
    and "\<And>a s. at (wd_authorities w') a s \<Longrightarrow> mapped (uses a) w' \<le> au_references s \<and> 0 < au_references s"
  shows "world_wf w'"
  by (rule wfI, rule assms(5), assumption+, unfold frames_determine(2) [OF assms(2,3)] assms(2-4), rule assms(6), assumption, rule assms(7), assumption)
    (rule wfD [OF assms(1)], assumption+)+

lemma countsD:
  "counts_fit q H N A S T \<Longrightarrow> at A a (l, h) \<Longrightarrow>
     (\<forall>m number. at S m (number, h) \<longrightarrow> fits q (N l number g) (if (a, m) \<in> H then 0 else T a m g))
     \<and> (\<forall>number. (\<forall>m. \<not> at S m (number, h)) \<longrightarrow> fits q (N l number g) 0)"
  unfolding counts_fit_def by blast

lemma inv_change:
  assumes "world_inv q H N w" "world_wf w'" "auth_frame w' = auth_frame w" "space_frame w' = space_frame w"
    "at_rest (live_owners w) q N' (wd_db w')"
    and shift: "\<And>a l h m k g. at (auth_frame w) a (l, h) \<Longrightarrow> at (space_frame w) m (k, h) \<Longrightarrow>
       moves q (N' l k g - N l k g) (if (a, m) \<in> H then 0 else int (tally w' a m g) - int (tally w a m g))"
    and other: "\<And>a l h k g. at (auth_frame w) a (l, h) \<Longrightarrow> (\<And>m. \<not> at (space_frame w) m (k, h)) \<Longrightarrow> N' l k g = N l k g"
  shows "world_inv q H N' w'"
proof -
  have c: "counts_fit q H N (auth_frame w) (space_frame w) (tally w)" using assms(1) by (simp add: world_inv_def)
  have "counts_fit q H N' (auth_frame w) (space_frame w) (tally w')"
    unfolding counts_fit_def
  proof (intro allI impI conjI)
    fix a l h g m k assume a: "at (auth_frame w) a (l, h)" "at (space_frame w) m (k, h)"
    have "fits q (N l k g) (if (a, m) \<in> H then 0 else tally w a m g)" using c a by (auto simp: counts_fit_def)
    thus "fits q (N' l k g) (if (a, m) \<in> H then 0 else tally w' a m g)"
      using shift [OF a, of g] by (auto elim!: fits_moves split: if_splits)
  next
    fix a l h g k assume a: "at (auth_frame w) a (l, h)" "\<forall>m. \<not> at (space_frame w) m (k, h)"
    thus "fits q (N' l k g) 0" using c other [OF a(1), of k g] by (simp add: counts_fit_def)
  qed
  thus ?thesis using assms(2-5) by (simp add: world_inv_def live_owners_def)
qed

text \<open>Only the database changes.\<close>

lemma inv_db:
  assumes "world_inv q H N w" "at_rest (live_owners w) q N d"
  shows "world_inv q H N (w\<lparr>wd_db := d\<rparr>)"
  using assms by (simp add: world_inv_def)

lemma retain_parts:
  assumes "at (wd_authorities w) a s"
  shows "auth_frame (md_shm_retain a w) = auth_frame w" "space_frame (md_shm_retain a w) = space_frame w"
    "mapped P (md_shm_retain a w) = mapped P w" "all_maps (md_shm_retain a w) = all_maps w"
    "wd_authorities (md_shm_retain a w) = (wd_authorities w)[a := Some (s\<lparr>au_references := au_references s + 1\<rparr>)]"
    "wd_spaces (md_shm_retain a w) = wd_spaces w" "wd_pending (md_shm_retain a w) = wd_pending w" "wd_next (md_shm_retain a w) = wd_next w"
    "wd_db (md_shm_retain a w) = wd_db w" "shm_space_at (md_shm_retain a w) = shm_space_at w"
  using put_authority_parts [OF assms, of "s\<lparr>au_references := au_references s + 1\<rparr>"] at_get(2) [OF assms]
  by (simp_all add: md_shm_retain_def) (simp_all add: put_authority_def shm_space_at_def fun_eq_iff)

lemma shm_retain_ok:
  assumes "world_inv q H N w" "at (wd_authorities w) a s"
  shows "world_inv q H N (md_shm_retain a w)"
proof (rule inv_change [OF assms(1)])
  note parts = retain_parts [OF assms(2)]
  have wf: "world_wf w" using assms(1) by (simp add: world_inv_def)
  show "world_wf (md_shm_retain a w)"
    by (rule wf_change [OF wf parts(1,2,8)]) (use wf assms(2) in \<open>auto simp: parts at_update world_wf_def le_Suc_eq split: if_splits\<close>)
qed (use assms(1) in \<open>simp_all add: retain_parts [OF assms(2)] world_inv_def moves_def\<close>)

definition dropped :: "nat \<Rightarrow> shm_world \<Rightarrow> shm_world" where
  "dropped a w = put_authority a (Some ((authority w a)\<lparr>au_references := au_references (authority w a) - 1\<rparr>)) w"

lemma dropped_parts:
  assumes "at (wd_authorities w) a s"
  shows "auth_frame (dropped a w) = auth_frame w" "space_frame (dropped a w) = space_frame w"
    "mapped P (dropped a w) = mapped P w" "all_maps (dropped a w) = all_maps w"
    "wd_authorities (dropped a w) = (wd_authorities w)[a := Some (s\<lparr>au_references := au_references s - 1\<rparr>)]"
    "wd_spaces (dropped a w) = wd_spaces w" "wd_pending (dropped a w) = wd_pending w" "wd_next (dropped a w) = wd_next w"
    "wd_db (dropped a w) = wd_db w" "shm_space_at (dropped a w) = shm_space_at w"
  using put_authority_parts [OF assms, of "s\<lparr>au_references := au_references s - 1\<rparr>"] at_get(2) [OF assms]
  by (simp_all add: dropped_def) (simp_all add: put_authority_def shm_space_at_def fun_eq_iff)

lemma dropped_ok:
  assumes "world_inv q H N w" "at (wd_authorities w) a s" "mapped (uses a) w < au_references s" "au_references s \<noteq> 1"
  shows "world_inv q H N (dropped a w)"
proof (rule inv_change [OF assms(1)])
  note parts = dropped_parts [OF assms(2)]
  have wf: "world_wf w" using assms(1) by (simp add: world_inv_def)
  show "world_wf (dropped a w)"
    by (rule wf_change [OF wf parts(1,2,8)]) (use wf assms(2-4) in \<open>auto simp: parts at_update world_wf_def split: if_splits\<close>)
qed (use assms(1) in \<open>simp_all add: dropped_parts [OF assms(2)] world_inv_def moves_def\<close>)

subsection \<open>Authorities leave\<close>

lemma close_cases:
  assumes "at (wd_authorities w) a s"
  shows "md_shm_close e a w = (if au_references s \<noteq> 1 then dropped a w else put_authority a None (w\<lparr>wd_db := shm_leave e s (wd_db w)\<rparr>))"
  using at_get(2) [OF assms] by (simp add: md_shm_close_def dropped_def)

lemma close_frames:
  "wd_spaces (md_shm_close e a w) = wd_spaces w" "wd_pending (md_shm_close e a w) = wd_pending w" "wd_next (md_shm_close e a w) = wd_next w"
  "space_frame (md_shm_close e a w) = space_frame w" "mapped P (md_shm_close e a w) = mapped P w" "all_maps (md_shm_close e a w) = all_maps w"
  "b \<noteq> a \<Longrightarrow> wd_authorities (md_shm_close e a w) ! b = wd_authorities w ! b"
  by (simp_all add: md_shm_close_def Let_def put_authority_def space_frame_def mapped_def all_maps_def)

lemma last_close_ok:
  assumes inv: "world_inv q H N w" and a: "at (wd_authorities w) a s" and "mapped (uses a) w = 0" and env: "env_ok q e w"
  defines "w' \<equiv> put_authority a None (w\<lparr>wd_db := shm_leave e s (wd_db w)\<rparr>)"
  shows "world_inv q H (only (live_owners w') N) w'" "live_owners w' \<subseteq> live_owners w"
proof -
  have wf: "world_wf w" and c: "counts_fit q H N (auth_frame w) (space_frame w) (tally w)" using inv by (simp_all add: world_inv_def)
  have frame: "auth_frame w' = (auth_frame w)[a := None]" by (simp add: w'_def auth_frame_def put_authority_def map_update)
  have same: "space_frame w' = space_frame w" "mapped P w' = mapped P w" "all_maps w' = all_maps w" "wd_spaces w' = wd_spaces w" "wd_next w' = wd_next w"
    "wd_authorities w' = (wd_authorities w)[a := None]" for P
    by (simp_all add: w'_def put_authority_def space_frame_def mapped_def all_maps_def)
  have at: "at (auth_frame w') b x \<longleftrightarrow> b \<noteq> a \<and> at (auth_frame w) b x" for b x by (auto simp: frame at_update)
  show sub: "live_owners w' \<subseteq> live_owners w" by (auto simp: live_owners_def at)
  have own: "at (auth_frame w) a (au_owner s, au_home s)" using a by (auto simp: frame_at)
  hence gone: "au_owner s \<notin> live_owners w'" using wf unfolding live_owners_def at world_wf_def by blast
  have "mp_authority p \<noteq> a" if "p \<in> all_maps w" for p using assms(3) that by (auto simp: mapped_zero_iff)
  hence placed: "placed w' p" if "p \<in> all_maps w" for p using that wf by (auto simp: placed_def world_wf_def at same)
  have wf': "world_wf w'"
  proof (rule wfI)
    show "mp_space p = m" if "at (wd_spaces w') m sp" "p \<in> set (sp_maps sp)" for m sp p using wfD(1) [OF wf] that by (simp add: same)
    show "mapped (uses b) w' \<le> au_references t \<and> 0 < au_references t" if "at (wd_authorities w') b t" for b t
      using wfD(3) [OF wf, of b t] that by (auto simp: same at_update split: if_splits)
    show "m = n" if "at (space_frame w') m (k, h)" "at (space_frame w') n (k, h)" for m n k h using wfD(4) [OF wf] that by (simp add: same)
    show "k \<le> wd_next w' h" if "at (space_frame w') m (k, h)" for m k h using wfD(5) [OF wf] that by (simp add: same)
    show "b = c" if "at (auth_frame w') b (l, h)" "at (auth_frame w') c (l, h')" for b c l h h' using wfD(6) [OF wf, of b l h c h'] that by (simp add: at)
  qed (use placed in \<open>simp add: same\<close>)
  have "at_rest (live_owners w) q N (wd_db w)" using inv by (simp add: world_inv_def)
  hence "at_rest (live_owners w') q (only (live_owners w') N) (shm_leave e s (wd_db w))"
    using env leases_mono [OF _ sub] by (intro leave_ok rest_mono [OF _ sub] gone) (auto simp: env_ok_def)
  moreover have "counts_fit q H (only (live_owners w') N) (auth_frame w') (space_frame w') (tally w')"
    unfolding counts_fit_def
  proof (intro allI impI)
    fix b l h g assume b: "at (auth_frame w') b (l, h)"
    hence "only (live_owners w') N l = N l" by (auto simp: only_def live_owners_def fun_eq_iff)
    with countsD [OF c, of b l h g] show "(\<forall>m k. at (space_frame w') m (k, h) \<longrightarrow> fits q (only (live_owners w') N l k g) (if (b, m) \<in> H then 0 else tally w' b m g)) \<and>
        (\<forall>k. (\<forall>m. \<not> at (space_frame w') m (k, h)) \<longrightarrow> fits q (only (live_owners w') N l k g) 0)"
      using b by (simp add: at same split del: if_split cong: if_cong)
  qed
  ultimately show "world_inv q H (only (live_owners w') N) w'" using wf' by (simp add: world_inv_def w'_def put_authority_def)
qed

lemma close_ok:
  assumes "world_inv q H N w" "at (wd_authorities w) a s" "mapped (uses a) w < au_references s" "env_ok q e w"
  shows "\<exists>N'. world_inv q H N' (md_shm_close e a w)" "env_ok q e (md_shm_close e a w)"
proof -
  note parts = dropped_parts [OF assms(2)]
  have zero: "au_references s = 1 \<Longrightarrow> mapped (uses a) w = 0" using assms(3) by simp
  show "\<exists>N'. world_inv q H N' (md_shm_close e a w)"
    using dropped_ok [OF assms(1-3)] last_close_ok(1) [OF assms(1,2) zero assms(4)] by (auto simp: close_cases [OF assms(2)])
  show "env_ok q e (md_shm_close e a w)"
    using assms(4) frames_determine(3) [OF parts(1,2)] last_close_ok(2) [OF assms(1,2) zero assms(4)] leases_mono
    by (fastforce simp: close_cases [OF assms(2)] env_ok_def)
qed

subsection \<open>Mappings move\<close>

lemma cnt_none: "(\<And>p. p \<in> set ps \<Longrightarrow> \<not> P p) \<Longrightarrow> cnt P ps = 0"
  by (simp add: cnt_def filter_empty_conv)

lemma set_maps_inv:
  assumes inv: "world_inv q H N w" and m: "at (wd_spaces w) m sp"
    and maps: "\<And>p. p \<in> set maps \<Longrightarrow> mp_space p = m \<and> placed w p"
    and refs: "\<And>a s. at (wd_authorities w) a s \<Longrightarrow> mapped (uses a) w + cnt (uses a) maps \<le> au_references s + cnt (uses a) (sp_maps sp)"
    and rest: "at_rest (live_owners w) q N' d"
    and shift: "\<And>a l g. at (auth_frame w) a (l, sp_home sp) \<Longrightarrow>
       moves q (N' l (sp_id sp) g - N l (sp_id sp) g) (if (a, m) \<in> H then 0 else int (cnt (key a m g) maps) - int (cnt (key a m g) (sp_maps sp)))"
    and other: "\<And>a l h k g. at (auth_frame w) a (l, h) \<Longrightarrow> (k, h) \<noteq> (sp_id sp, sp_home sp) \<Longrightarrow> N' l k g = N l k g"
  shows "world_inv q H N' (set_maps m maps (w\<lparr>wd_db := d\<rparr>))"
proof (rule inv_change [OF inv])
  let ?w = "w\<lparr>wd_db := d\<rparr>" and ?t = "set_maps m maps (w\<lparr>wd_db := d\<rparr>)"
  have wf: "world_wf w" using inv by (simp add: world_inv_def)
  have m': "at (wd_spaces ?w) m sp" using m by simp
  note parts = set_maps_parts [OF m', where maps = maps]
  show frames: "auth_frame ?t = auth_frame w" "space_frame ?t = space_frame w" by (simp_all add: parts)
  show "at_rest (live_owners w) q N' (wd_db ?t)" using rest by (simp add: parts)
  show "world_wf ?t"
  proof (rule wf_change [OF wf frames])
    show "wd_next ?t = wd_next w" by (simp add: parts)
    show "placed w p" if "p \<in> all_maps ?t" for p using that parts(4) maps wfD(2) [OF wf] by auto
    show "mp_space p = n" if "at (wd_spaces ?t) n sq" "p \<in> set (sp_maps sq)" for n sq p
      using that maps wfD(1) [OF wf, of n sq p] by (auto simp: parts at_update split: if_splits)
    show "mapped (uses a) ?t \<le> au_references s \<and> 0 < au_references s" if "at (wd_authorities ?t) a s" for a s
    proof -
      have a: "at (wd_authorities w) a s" using that by (simp add: parts)
      show ?thesis using parts(3) [of "uses a"] refs [OF a] wfD(3) [OF wf a] by simp
    qed
  qed
  have home: "at (space_frame w) m (sp_id sp, sp_home sp)" using m by (auto simp: frame_at)
  show "N' l k g = N l k g" if "at (auth_frame w) a (l, h)" "\<And>n. \<not> at (space_frame w) n (k, h)" for a l h k g
    using other [OF that(1), of k g] that(2) [of m] home by auto
  show "moves q (N' l k g - N l k g) (if (a, n) \<in> H then 0 else int (tally ?t a n g) - int (tally w a n g))"
    if "at (auth_frame w) a (l, h)" "at (space_frame w) n (k, h)" for a l h n k g
  proof (cases "n = m")
    case True
    hence kh: "k = sp_id sp" "h = sp_home sp" using at_unique [OF that(2)] home by auto
    have "int (tally ?t a m g) - int (tally w a m g) = int (cnt (key a m g) maps) - int (cnt (key a m g) (sp_maps sp))"
      using parts(3) [of "key a m g"] by simp
    thus ?thesis using shift [of a l g] that(1) True kh by (simp split: if_splits)
  next
    case False
    hence "(k, h) \<noteq> (sp_id sp, sp_home sp)" using wfD(4) [OF wf that(2)] home by auto
    moreover have "cnt (key a n g) maps = 0" "cnt (key a n g) (sp_maps sp) = 0"
      using False maps wfD(1) [OF wf m] by (auto intro!: cnt_none)
    ultimately show ?thesis using other [OF that(1)] parts(3) [of "key a n g"] by (simp add: moves_def)
  qed
qed

lemma slot_inv:
  assumes inv: "world_inv q H N w" and i: "i < length (wd_pending w)"
    and x: "\<And>p. p \<in> set (slot_maps x) \<Longrightarrow> placed w p"
    and refs: "\<And>a s. at (wd_authorities w) a s \<Longrightarrow> mapped (uses a) w + cnt (uses a) (slot_maps x) \<le> au_references s + cnt (uses a) (slot_maps (wd_pending w ! i))"
    and rest: "at_rest (live_owners w) q N' d"
    and shift: "\<And>a l h m k g. at (auth_frame w) a (l, h) \<Longrightarrow> at (space_frame w) m (k, h) \<Longrightarrow>
       moves q (N' l k g - N l k g) (if (a, m) \<in> H then 0 else int (cnt (key a m g) (slot_maps x)) - int (cnt (key a m g) (slot_maps (wd_pending w ! i))))"
    and other: "\<And>a l h k g. at (auth_frame w) a (l, h) \<Longrightarrow> (\<And>m. \<not> at (space_frame w) m (k, h)) \<Longrightarrow> N' l k g = N l k g"
  shows "world_inv q H N' (put_pending i x (w\<lparr>wd_db := d\<rparr>))"
proof (rule inv_change [OF inv])
  let ?w = "w\<lparr>wd_db := d\<rparr>" and ?t = "put_pending i x (w\<lparr>wd_db := d\<rparr>)"
  have wf: "world_wf w" using inv by (simp add: world_inv_def)
  have i': "i < length (wd_pending ?w)" using i by simp
  note parts = put_pending_parts [OF i', where x = x]
  show frames: "auth_frame ?t = auth_frame w" "space_frame ?t = space_frame w" by (simp_all add: parts)
  show "at_rest (live_owners w) q N' (wd_db ?t)" using rest by (simp add: parts)
  show "world_wf ?t"
  proof (rule wf_change [OF wf frames])
    show "wd_next ?t = wd_next w" by (simp add: parts)
    show "placed w p" if "p \<in> all_maps ?t" for p using that parts(4) x wfD(2) [OF wf] by auto
    show "mp_space p = n" if "at (wd_spaces ?t) n sq" "p \<in> set (sp_maps sq)" for n sq p
      using that wfD(1) [OF wf, of n sq p] by (simp add: parts)
    show "mapped (uses a) ?t \<le> au_references s \<and> 0 < au_references s" if "at (wd_authorities ?t) a s" for a s
    proof -
      have a: "at (wd_authorities w) a s" using that by (simp add: parts)
      show ?thesis using parts(3) [of "uses a"] refs [OF a] wfD(3) [OF wf a] by simp
    qed
  qed
  show "N' l k g = N l k g" if "at (auth_frame w) a (l, h)" "\<And>n. \<not> at (space_frame w) n (k, h)" for a l h k g
    using other [OF that] .
  show "moves q (N' l k g - N l k g) (if (a, n) \<in> H then 0 else int (tally ?t a n g) - int (tally w a n g))"
    if "at (auth_frame w) a (l, h)" "at (space_frame w) n (k, h)" for a l h n k g
  proof -
    have "int (tally ?t a n g) - int (tally w a n g) = int (cnt (key a n g) (slot_maps x)) - int (cnt (key a n g) (slot_maps (wd_pending w ! i)))"
      using parts(3) [of "key a n g"] by simp
    thus ?thesis using shift [OF that, of g] by (simp split: if_splits)
  qed
qed

lemma live_owner: "at (wd_authorities w) a s \<Longrightarrow> au_owner s \<in> live_owners w"
  by (auto simp: live_owners_def frame_at)

lemma bump_moves:
  assumes "world_wf w" "at (wd_authorities w) a s" "at (auth_frame w) b (l, h)"
  shows "ref_bump (live_owners w) (au_owner s) number g delta N l k g' = N l k g' + (if b = a \<and> k = number \<and> g' = g then delta else 0)"
proof -
  have a: "at (auth_frame w) a (au_owner s, au_home s)" using assms(2) by (auto simp: frame_at)
  have "l = au_owner s \<longleftrightarrow> b = a"
    using wfD(6) [OF assms(1) a, of b h] assms(3) at_unique [OF a, of "(l, h)"] by auto
  moreover have "l \<in> live_owners w" using assms(3) by (auto simp: live_owners_def)
  ultimately show ?thesis by (auto simp: ref_bump_def)
qed

text \<open>A transaction of the world.\<close>

lemma world_transaction:
  assumes "world_inv q H N w" "env_ok q e w"
    and "\<And>B. in_tx (live_owners w) B q N {} m (\<lambda>x. mid (live_owners w) B q (N' x) (S' x))"
    and "on_db (shm_transaction e s m) w = (r, t)"
  shows "\<exists>d. t = w\<lparr>wd_db := d\<rparr> \<and> (case r of
      Inl _ \<Rightarrow> at_rest (live_owners w) q N d \<or> q = Any_Call \<and> (\<exists>x. at_rest (live_owners w) q (N' x) d)
    | Inr x \<Rightarrow> at_rest (live_owners w) q (N' x) d)"
proof -
  have "at_rest (live_owners w) q N (wd_db w)" "leases_held e (live_owners w)" using assms(1,2) by (simp_all add: world_inv_def env_ok_def)
  from transaction_ok [OF this assms(3), of s] assms(4) show ?thesis by (auto simp: on_db_def split: prod.splits sum.splits)
qed

lemma world_transaction_sure:
  assumes "world_inv q H N w" "env_ok q e w" "sure m" "on_db (shm_transaction e s m) w = (r, t)" "q = No_Call"
  shows "\<exists>x. r = Inr x"
proof -
  have "clean No_Call (wd_db w)" "\<not> db_locked (wd_db w)" "leases_known e"
    using assms(1,2,5) by (simp_all add: world_inv_def at_rest_def settled_def env_ok_def)
  from transaction_sure [OF this assms(3), of s] assms(4) show ?thesis by (auto simp: on_db_def)
qed

lemma mid_positive: "mid L B q N S d \<Longrightarrow> mid L B q N (S \<union> {g. \<exists>l k. 0 < N l k g}) d"
  by (auto simp: mid_def view_def holds_kept_def split: if_splits)

lemma tx_positive: "in_tx L B q N (S \<union> {g. \<exists>l k. 0 < N l k g}) m Q \<Longrightarrow> in_tx L B q N S m Q"
  by (erule run_pre) (rule mid_positive)

text \<open>Counts that are too high do no harm where calls may fail.\<close>

lemma inv_raise:
  assumes inv: "world_inv q H N w" and "q \<noteq> No_Call" "at_rest (live_owners w) q M d" "\<And>l k g. N l k g \<le> M l k g"
  shows "world_inv q H M (w\<lparr>wd_db := d\<rparr>)"
proof -
  have more: "fits q (N l k g) n \<Longrightarrow> fits q (M l k g) n" for l k g n
    using assms(2) order_trans [OF _ assms(4)] by (auto simp: fits_def)
  have "counts_fit q H N (auth_frame w) (space_frame w) (tally w)" using inv by (simp add: world_inv_def)
  hence "counts_fit q H M (auth_frame w) (space_frame w) (tally w)" unfolding counts_fit_def using more by blast
  thus ?thesis using inv assms(3) by (simp add: world_inv_def)
qed

end
