(* ===== verification/Sysv_Shm_Life.thy ===== *)
theory Sysv_Shm_Life
  imports Sysv_Shm_Space
begin

text \<open>
  Every operation on address spaces and pending attachments keeps the invariant of
  \<^verbatim>\<open>Sysv_Shm_Space\<close>: releasing and forking a space, unmapping, attaching, aborting, the control calls, and a
  supervisor that dies without a word.
\<close>

section \<open>What every operation keeps\<close>

lemma placedD:
  assumes "placed w p"
  obtains s sp where "at (wd_authorities w) (mp_authority p) s" "at (wd_spaces w) (mp_space p) sp" "sp_home sp = au_home s"
  using assms by (auto simp: placed_def frame_at)

lemma bump_key:
  fixes g :: int and delta :: int and N :: "int \<Rightarrow> u64 \<Rightarrow> int \<Rightarrow> int"
  assumes wf: "world_wf w" and a: "at (wd_authorities w) a s" and m: "at (wd_spaces w) m sp" and home: "sp_home sp = au_home s"
    and b: "at (auth_frame w) b (l, h)"
  defines "N' \<equiv> ref_bump (live_owners w) (au_owner s) (sp_id sp) g delta N"
  shows "at (space_frame w) n (k, h) \<Longrightarrow> N' l k g' - N l k g' = (if b = a \<and> n = m \<and> g' = g then delta else 0)"
    and "(\<And>n. \<not> at (space_frame w) n (k, h)) \<Longrightarrow> N' l k g' = N l k g'"
    and "(k, h) \<noteq> (sp_id sp, sp_home sp) \<Longrightarrow> N' l k g' = N l k g'"
proof -
  have m': "at (space_frame w) m (sp_id sp, sp_home sp)" using m by (auto simp: frame_at)
  have h: "h = sp_home sp" if "b = a" using that b a home at_unique [of "auth_frame w" a "(l, h)" "(au_owner s, au_home s)"] by (auto simp: frame_at)
  have n: "N' l k g' = N l k g' + (if b = a \<and> k = sp_id sp \<and> g' = g then delta else 0)"
    unfolding N'_def by (rule bump_moves [OF wf a b])
  show "(k, h) \<noteq> (sp_id sp, sp_home sp) \<Longrightarrow> N' l k g' = N l k g'" using n h by auto
  show "(\<And>n. \<not> at (space_frame w) n (k, h)) \<Longrightarrow> N' l k g' = N l k g'" using n h m' by (cases "b = a \<and> k = sp_id sp \<and> g' = g") auto
  show "N' l k g' - N l k g' = (if b = a \<and> n = m \<and> g' = g then delta else 0)" if "at (space_frame w) n (k, h)"
  proof (cases "b = a")
    case True
    have "k = sp_id sp \<longleftrightarrow> n = m" using wfD(4) [OF wf that, of m] at_unique [OF m', of "(k, h)"] that m' h [OF True] by auto
    thus ?thesis using n by simp
  qed (simp add: n)
qed

lemma slot_placed:
  assumes "world_wf w" "i < length (wd_pending w)" "wd_pending w ! i = Some p"
  shows "p \<in> all_maps w" "placed w p"
proof -
  show "p \<in> all_maps w" using assms(2,3) nth_mem [OF assms(2)] by (force simp: all_maps_def)
  thus "placed w p" by (rule wfD(2) [OF assms(1)])
qed

section \<open>Every operation keeps the invariant\<close>

lemma world_change:
  assumes "world_inv q H N w" "env_ok q e w"
    and "\<And>B. in_tx (live_owners w) B q N {} m (\<lambda>_. mid (live_owners w) B q N' S')"
    and "on_db (shm_transaction e s m) w = (r, t)"
  obtains d where "t = w\<lparr>wd_db := d\<rparr>"
    "case r of Inl _ \<Rightarrow> at_rest (live_owners w) q N d \<or> q = Any_Call \<and> at_rest (live_owners w) q N' d | Inr _ \<Rightarrow> at_rest (live_owners w) q N' d"
  using world_transaction [OF assms] by (cases r) auto

definition kept :: "trouble \<Rightarrow> shm_env \<Rightarrow> shm_world \<Rightarrow> bool" where
  "kept q e w \<longleftrightarrow> (\<exists>N. world_inv q {} N w) \<and> env_ok q e w"

lemma keptI: "world_inv q {} N w \<Longrightarrow> env_ok q e w \<Longrightarrow> kept q e w"
  by (auto simp: kept_def)

lemma kept_close:
  assumes "kept q e w" "at (wd_authorities w) a s" "mapped (uses a) w < au_references s"
  shows "kept q e (md_shm_close e a w)"
proof -
  obtain N where "world_inv q {} N w" "env_ok q e w" using assms(1) by (auto simp: kept_def)
  from close_ok [OF this(1) assms(2,3) this(2)] show ?thesis by (simp add: kept_def)
qed

lemma kept_steady:
  assumes "kept q e w" "\<And>B N. steady (live_owners w) B q N {} m" "on_db (shm_transaction e s m) w = (r, t)"
  shows "kept q e t"
proof -
  obtain N where w: "world_inv q {} N w" "env_ok q e w" using assms(1) by (auto simp: kept_def)
  from world_transaction [OF w assms(2,3)] obtain d where "t = w\<lparr>wd_db := d\<rparr>" "at_rest (live_owners w) q N d"
    by (cases r) auto
  thus ?thesis using inv_db [OF w(1)] w(2) by (auto intro!: keptI)
qed

text \<open>A slot is emptied after the count of its mapping was lowered, or that failed.\<close>

lemma abort_kept:
  assumes "kept q e w" "i < length (wd_pending w)"
  shows "kept q e (snd (md_shm_abort e i w))"
proof (cases "wd_pending w ! i")
  case None
  thus ?thesis using assms(1) by (simp add: md_shm_abort_def)
next
  case (Some p)
  obtain N where w: "world_inv q {} N w" "env_ok q e w" using assms(1) by (auto simp: kept_def)
  have wf: "world_wf w" using w(1) by (simp add: world_inv_def)
  let ?a = "mp_authority p" and ?L = "live_owners w"
  obtain s sp where s: "at (wd_authorities w) ?a s" "at (wd_spaces w) (mp_space p) sp" "sp_home sp = au_home s"
    using slot_placed(2) [OF wf assms(2) Some] by (rule placedD)
  let ?m = "shm_refs (au_owner s) (sp_id sp) (mp_segment p) (- 1)"
  let ?N = "ref_bump ?L (au_owner s) (sp_id sp) (mp_segment p) (- 1) N"
  obtain r t where t: "on_db (shm_transaction e s ?m) w = (r, t)" by fastforce
  have tx: "in_tx ?L B q N {} ?m (\<lambda>_. mid ?L B q ?N {})" for B by (rule tx_refs [OF live_owner [OF s(1)]]) simp
  obtain d where d: "t = w\<lparr>wd_db := d\<rparr>"
    "case r of Inl _ \<Rightarrow> at_rest ?L q N d \<or> q = Any_Call \<and> at_rest ?L q ?N d | Inr _ \<Rightarrow> at_rest ?L q ?N d"
    by (rule world_change [OF w tx t])
  have sure: "q = No_Call \<Longrightarrow> \<exists>x. r = Inr x" using world_transaction_sure [OF w sure_refs t] .
  let ?w = "put_pending i None t"
  have refs: "mapped (uses b) w + cnt (uses b) (slot_maps None) \<le> au_references x + cnt (uses b) (slot_maps (wd_pending w ! i))"
    if "at (wd_authorities w) b x" for b x using wfD(3) [OF wf that] by simp
  have "at_rest ?L q ?N d \<or> q \<noteq> No_Call \<and> at_rest ?L q N d" using d(2) sure by (auto split: sum.splits)
  hence "\<exists>N'. world_inv q {} N' ?w"
  proof (elim disjE conjE)
    assume rest: "at_rest ?L q ?N d"
    have "world_inv q {} ?N ?w" unfolding d(1)
      by (rule slot_inv [OF w(1) assms(2) _ refs])
        (use rest bump_key(1,2) [OF wf s] in \<open>auto simp: moves_def Some\<close>)
    thus ?thesis by - (rule exI, assumption)
  next
    assume rest: "q \<noteq> No_Call" "at_rest ?L q N d"
    hence "world_inv q {} N ?w" unfolding d(1)
      by (intro slot_inv [OF w(1) assms(2) _ refs]) (use rest in \<open>auto simp: moves_def\<close>)
    thus ?thesis by - (rule exI, assumption)
  qed
  moreover have parts: "auth_frame ?w = auth_frame w" "space_frame ?w = space_frame w" "wd_authorities ?w = wd_authorities w"
    "mapped (uses ?a) ?w + 1 = mapped (uses ?a) w"
    using put_pending_parts(1,2,5) [of i t None] put_pending_parts(3) [of i t "uses ?a" None] assms(2) d(1) Some by simp_all
  moreover have "env_ok q e ?w" using w(2) frames_determine(3) [OF parts(1,2)] by simp
  ultimately have "kept q e (md_shm_close e ?a ?w)"
    using wfD(3) [OF wf s(1)] s(1) by (intro kept_close [of _ _ _ _ s]) (auto simp: kept_def)
  thus ?thesis using Some t at_get(1) [OF s(2)] at_get(2) [OF s(1)] by (simp add: md_shm_abort_def Let_def)
qed

subsection \<open>Releasing a space\<close>

text \<open>While the mappings of one authority leave, the authority is held once more.\<close>

lemma drop_maps_ok:
  assumes "world_inv q H N w" "(a, m) \<in> H" "at (wd_spaces w) m sp" "sp_maps sp = walked @ rest"
    "at (wd_authorities w) a s" "mapped (uses a) w < au_references s"
  shows "\<exists>t s'. drop_maps e m a walked rest w = t \<and> world_inv q H N t \<and> auth_frame t = auth_frame w \<and> space_frame t = space_frame w
     \<and> wd_spaces t = (wd_spaces w)[m := Some (sp\<lparr>sp_maps := walked @ filter (\<lambda>p. \<not> uses a p) rest\<rparr>)] \<and> wd_pending t = wd_pending w
     \<and> at (wd_authorities t) a s' \<and> mapped (uses a) t < au_references s'"
  using assms
proof (induction rest arbitrary: walked w sp s)
  case Nil
  have "(wd_spaces w)[m := Some (sp\<lparr>sp_maps := walked\<rparr>)] = wd_spaces w"
    using Nil.prems(3,4) by (metis append_Nil2 at_def list_update_id shm_space.surjective shm_space.update_convs(4))
  thus ?case using Nil by auto
next
  case (Cons p rest)
  show ?case
  proof (cases "uses a p")
    case False
    thus ?thesis using Cons.IH [OF Cons.prems(1-3) _ Cons.prems(5,6), of "walked @ [p]"] Cons.prems(4) by simp
  next
    case True
    let ?w = "set_maps m (walked @ rest) w"
    have wf: "world_wf w" using Cons.prems(1) by (simp add: world_inv_def)
    have in_m: "set (sp_maps sp) \<subseteq> all_maps w" using Cons.prems(3) nth_mem by (force simp: at_def all_maps_def)
    have maps: "mp_space x = m \<and> placed w x" if "x \<in> set (walked @ rest)" for x
      using that Cons.prems(4) wfD(1) [OF wf Cons.prems(3)] wfD(2) [OF wf] in_m by auto
    have rest: "at_rest (live_owners w) q N (wd_db w)" using Cons.prems(1) by (simp add: world_inv_def)
    have inv: "world_inv q H N (set_maps m (walked @ rest) (w\<lparr>wd_db := wd_db w\<rparr>))"
      by (rule set_maps_inv [OF Cons.prems(1,3) maps _ rest])
        (use Cons.prems(2,4) True wfD(3) [OF wf] in \<open>auto simp: moves_def add_increasing2\<close>)
    note parts = set_maps_parts [OF Cons.prems(3), where maps = "walked @ rest"]
    have a: "at (wd_authorities ?w) a s" using Cons.prems(5) by (simp add: parts)
    have less: "mapped (uses a) ?w + 1 = mapped (uses a) w" using parts(3) [of "uses a"] Cons.prems(4) True by simp
    hence two: "au_references s \<noteq> 1" "mapped (uses a) ?w < au_references s" "mapped (uses a) ?w < au_references s - 1"
      using Cons.prems(6) by auto
    have close: "md_shm_close e a ?w = dropped a ?w" using close_cases [OF a] two(1) by simp
    note dp = dropped_parts [OF a]
    have inv': "world_inv q H N (dropped a ?w)" using dropped_ok [OF _ a two(2,1)] inv by simp
    have sp': "at (wd_spaces (dropped a ?w)) m (sp\<lparr>sp_maps := walked @ rest\<rparr>)" using Cons.prems(3) by (simp add: dp parts at_def)
    have a': "at (wd_authorities (dropped a ?w)) a (s\<lparr>au_references := au_references s - 1\<rparr>)" using a by (simp add: dp at_def)
    obtain t s' where t: "drop_maps e m a walked rest (dropped a ?w) = t" "world_inv q H N t" "auth_frame t = auth_frame (dropped a ?w)"
      "space_frame t = space_frame (dropped a ?w)" "wd_spaces t = (wd_spaces (dropped a ?w))[m := Some (sp\<lparr>sp_maps := walked @ filter (\<lambda>p. \<not> uses a p) rest\<rparr>)]"
      "wd_pending t = wd_pending (dropped a ?w)" "at (wd_authorities t) a s'" "mapped (uses a) t < au_references s'"
      using Cons.IH [OF inv' Cons.prems(2) sp' _ a'] two(3) dp(3) by auto
    show ?thesis using t close True by (intro exI [of _ t] exI [of _ s']) (simp add: dp parts)
  qed
qed

definition unclaimed :: "nat \<Rightarrow> shm_world \<Rightarrow> bool" where
  "unclaimed m w \<longleftrightarrow> (\<forall>p. Some p \<in> set (wd_pending w) \<longrightarrow> mp_space p \<noteq> m)"

lemma tally_maps:
  assumes "world_wf w" "at (wd_spaces w) m sp" "unclaimed m w"
  shows "tally w a m g = cnt (key a m g) (sp_maps sp)"
proof -
  have m: "m < length (wd_spaces w)" "wd_spaces w ! m = Some sp" using assms(2) by (auto simp: at_def)
  let ?f = "\<lambda>x. cnt (key a m g) (space_maps x)"
  have zero: "?f (wd_spaces w ! n) = 0" if "n < length (wd_spaces w)" "n \<noteq> m" for n
    using that wfD(1) [OF assms(1), of n] by (cases "wd_spaces w ! n") (auto intro!: cnt_none simp: at_def)
  have "?f ((wd_spaces w)[m := None] ! n) = 0" if "n < length (wd_spaces w)" for n
    using zero [OF that] that by (cases "n = m") simp_all
  hence "sum_list (map ?f ((wd_spaces w)[m := None])) = 0" by (auto simp: sum_list_eq_0_iff in_set_conv_nth)
  moreover have "sum_list (map (\<lambda>x. cnt (key a m g) (slot_maps x)) (wd_pending w)) = 0"
    using assms(3) by (auto simp: sum_list_eq_0_iff unclaimed_def slot_maps_def split: option.splits)
  ultimately show ?thesis using sum_update [OF m(1), of ?f None] m(2) by (simp add: mapped_def del: sum_list_eq_0_iff)
qed

lemma open_hole:
  assumes "world_inv q {} N w" "at_rest (live_owners w) q N' d"
    and "\<And>b l h n k g. at (auth_frame w) b (l, h) \<Longrightarrow> at (space_frame w) n (k, h) \<Longrightarrow> (b, n) \<noteq> (a, m) \<Longrightarrow> N' l k g = N l k g"
    and "\<And>b l h k g. at (auth_frame w) b (l, h) \<Longrightarrow> (\<And>n. \<not> at (space_frame w) n (k, h)) \<Longrightarrow> N' l k g = N l k g"
    and "\<And>l h k g. at (auth_frame w) a (l, h) \<Longrightarrow> at (space_frame w) m (k, h) \<Longrightarrow> fits q (N' l k g) 0"
  shows "world_inv q {(a, m)} N' (w\<lparr>wd_db := d\<rparr>)"
proof -
  have c: "counts_fit q {} N (auth_frame w) (space_frame w) (tally w)" using assms(1) by (simp add: world_inv_def)
  have "counts_fit q {(a, m)} N' (auth_frame w) (space_frame w) (tally w)"
    unfolding counts_fit_def
  proof (intro allI impI conjI)
    fix b l h g n k assume b: "at (auth_frame w) b (l, h)" "at (space_frame w) n (k, h)"
    have old: "fits q (N l k g) (tally w b n g)" using countsD [OF c b(1), of g] b(2) by auto
    show "fits q (N' l k g) (if (b, n) \<in> {(a, m)} then 0 else tally w b n g)"
      using old assms(3) [OF b, of g] assms(5) [of l h k g] b by (cases "(b, n) = (a, m)") auto
  next
    fix b l h g k assume b: "at (auth_frame w) b (l, h)" "\<forall>n. \<not> at (space_frame w) n (k, h)"
    thus "fits q (N' l k g) 0" using countsD [OF c b(1), of g] assms(4) [OF b(1), of k g] by simp
  qed
  thus ?thesis using assms(1,2) by (simp add: world_inv_def)
qed

lemma close_hole:
  assumes "world_inv q {(a, m)} N w" "\<And>g. tally w a m g = 0"
  shows "world_inv q {} N w"
proof -
  have same: "(if (b, n) \<in> {(a, m)} then 0 else tally w b n g) = (if (b, n) \<in> {} then 0 else tally w b n g)" for b n g
    using assms(2) by auto
  have "counts_fit q {(a, m)} N (auth_frame w) (space_frame w) (tally w)" using assms(1) by (simp add: world_inv_def)
  hence "counts_fit q {} N (auth_frame w) (space_frame w) (tally w)" unfolding counts_fit_def same .
  thus ?thesis using assms(1) by (simp add: world_inv_def)
qed

text \<open>One authority leaves a space.\<close>

lemma owner_key:
  assumes wf: "world_wf w" and s: "at (wd_authorities w) a s" and sp: "at (wd_spaces w) m sp" "sp_home sp = au_home s"
    and b: "at (auth_frame w) b (l, h)" "l = au_owner s"
  shows "b = a" "h = au_home s" "at (space_frame w) n (sp_id sp, h) \<Longrightarrow> n = m" "at (space_frame w) m (sp_id sp, h)"
proof -
  have A: "at (auth_frame w) a (au_owner s, au_home s)" and M: "at (space_frame w) m (sp_id sp, au_home s)"
    using s sp by (auto simp: frame_at)
  show ba: "b = a" using wfD(6) [OF wf, of b "au_owner s" h a "au_home s"] A b by simp
  thus h: "h = au_home s" using at_unique [OF A, of "(l, h)"] b by simp
  show "at (space_frame w) m (sp_id sp, h)" using M h by simp
  show "n = m" if "at (space_frame w) n (sp_id sp, h)" using wfD(4) [OF wf M, of n] that h by simp
qed

text \<open>Whether the counts of a leaving space are forgotten or not, its mappings may go.\<close>

lemma forget_opens:
  assumes t: "world_inv q {} N t" "env_ok q e t" and s: "at (wd_authorities t) a s" and sp: "at (wd_spaces t) m sp" "sp_home sp = au_home s"
    and run: "on_db (shm_transaction e s (forget_space (au_owner s) (sp_id sp))) t = (r, u)"
  shows "\<exists>N' d. u = t\<lparr>wd_db := d\<rparr> \<and> world_inv q {(a, m)} N' u"
proof -
  let ?L = "live_owners t" and ?N = "\<lambda>l' s' g. if l' = au_owner s \<and> s' = sp_id sp then 0 else N l' s' g"
  have wf: "world_wf t" using t(1) by (simp add: world_inv_def)
  note key = owner_key [OF wf s sp]
  have tx: "in_tx ?L B q N {} (forget_space (au_owner s) (sp_id sp)) (\<lambda>_. mid ?L B q ?N {})" for B
    unfolding forget_space_def by (rule tx_forget_space)
  obtain d where d: "u = t\<lparr>wd_db := d\<rparr>"
    "case r of Inl _ \<Rightarrow> at_rest ?L q N d \<or> q = Any_Call \<and> at_rest ?L q ?N d | Inr _ \<Rightarrow> at_rest ?L q ?N d"
    by (rule world_change [OF t tx run])
  have "sure (forget_space (au_owner s) (sp_id sp))" unfolding forget_space_def by (rule sure_update)
  hence "q = No_Call \<Longrightarrow> \<exists>x. r = Inr x" using world_transaction_sure [OF t _ run] by blast
  hence cases: "at_rest ?L q ?N d \<or> q \<noteq> No_Call \<and> at_rest ?L q N d" using d(2) by (auto split: sum.splits)
  have A: "at (auth_frame t) a (au_owner s, au_home s)" and M: "at (space_frame t) m (sp_id sp, au_home s)"
    using s sp by (auto simp: frame_at)
  from cases have "\<exists>N'. world_inv q {(a, m)} N' (t\<lparr>wd_db := d\<rparr>)"
  proof (elim disjE conjE)
    assume rest: "at_rest ?L q ?N d"
    have "world_inv q {(a, m)} ?N (t\<lparr>wd_db := d\<rparr>)"
    proof (rule open_hole [OF t(1) rest])
      show "?N l k g = N l k g" if "at (auth_frame t) b (l, h)" "at (space_frame t) n (k, h)" "(b, n) \<noteq> (a, m)" for b l h n k g
        using key(1,3) [OF that(1)] that(2,3) by auto
      show "?N l k g = N l k g" if "at (auth_frame t) b (l, h)" "\<And>n. \<not> at (space_frame t) n (k, h)" for b l h k g
        using key(4) [OF that(1)] that(2) by auto
      show "fits q (?N l k g) 0" if "at (auth_frame t) a (l, h)" "at (space_frame t) m (k, h)" for l h k g
        using at_unique [OF A that(1)] at_unique [OF M that(2)] by (simp add: fits_def)
    qed
    thus ?thesis by blast
  next
    assume rest: "q \<noteq> No_Call" "at_rest ?L q N d"
    have "world_inv q {(a, m)} N (t\<lparr>wd_db := d\<rparr>)"
    proof (rule open_hole [OF t(1) rest(2)])
      show "fits q (N l k g) 0" if "at (auth_frame t) a (l, h)" "at (space_frame t) m (k, h)" for l h k g
      proof -
        have "fits q (N l k g) (tally t a m g)"
          using t(1) that countsD [of q "{}" N "auth_frame t" "space_frame t" "tally t" a l h g] by (auto simp: world_inv_def)
        thus ?thesis using rest(1) by (auto simp: fits_def)
      qed
    qed simp_all
    thus ?thesis by blast
  qed
  thus ?thesis using d by blast
qed

lemma release_one:
  assumes "kept q e w" "at (wd_spaces w) m sp" "sp_maps sp = p # ps" "unclaimed m w"
  defines "t \<equiv> md_shm_retain (mp_authority p) w"
  defines "s \<equiv> authority t (mp_authority p)"
  assumes "on_db (shm_transaction e s (forget_space (au_owner s) (sp_id (shm_space_at t m)))) t = (r, u)"
  defines "v \<equiv> md_shm_close e (mp_authority p) (drop_maps e m (mp_authority p) [] (p # ps) u)"
  shows "kept q e v" "wd_spaces v = (wd_spaces w)[m := Some (sp\<lparr>sp_maps := filter (\<lambda>x. \<not> uses (mp_authority p) x) (p # ps)\<rparr>)]"
    "wd_pending v = wd_pending w"
proof -
  let ?a = "mp_authority p"
  obtain N where w: "world_inv q {} N w" "env_ok q e w" using assms(1) by (auto simp: kept_def)
  have wf: "world_wf w" using w(1) by (simp add: world_inv_def)
  have "p \<in> all_maps w" using assms(2,3) nth_mem by (force simp: at_def all_maps_def)
  then obtain s0 sp0 where s0': "at (wd_authorities w) ?a s0" "at (wd_spaces w) (mp_space p) sp0" "sp_home sp0 = au_home s0"
    by (rule placedD [OF wfD(2) [OF wf]])
  have "mp_space p = m" using wfD(1) [OF wf assms(2), of p] assms(3) by simp
  hence s0: "at (wd_authorities w) ?a s0" "sp_home sp = au_home s0" using s0' at_unique [OF assms(2)] by auto
  note parts = retain_parts [OF s0(1)]
  have t: "world_inv q {} N t" "env_ok q e t" "at (wd_authorities t) ?a s" "au_owner s = au_owner s0" "shm_space_at t m = sp"
    "mapped (uses ?a) t < au_references s" "at (wd_spaces t) m sp" "au_home s = au_home s0"
    using shm_retain_ok [OF w(1) s0(1)] w(2) frames_determine(3) [OF parts(1,2)] s0(1) at_get(1) [OF assms(2)] wfD(3) [OF wf s0(1)] assms(2)
    unfolding t_def s_def by (auto simp: parts authority_def at_def)
  have "on_db (shm_transaction e s (forget_space (au_owner s) (sp_id sp))) t = (r, u)" using assms(7) t(5) by simp
  from forget_opens [OF t(1-3,7) _ this] s0(2) t(8) obtain N' d where d: "u = t\<lparr>wd_db := d\<rparr>" and u: "world_inv q {(?a, m)} N' u" by auto
  have "at (wd_spaces u) m sp" "at (wd_authorities u) ?a s" "mapped (uses ?a) u < au_references s" using t(3,6,7) d by simp_all
  from drop_maps_ok [OF u _ this(1) _ this(2,3), of "[]" "p # ps" e] assms(3)
  obtain x s' where x: "drop_maps e m ?a [] (p # ps) u = x" "world_inv q {(?a, m)} N' x" "auth_frame x = auth_frame u" "space_frame x = space_frame u"
    "wd_spaces x = (wd_spaces u)[m := Some (sp\<lparr>sp_maps := filter (\<lambda>y. \<not> uses ?a y) (p # ps)\<rparr>)]" "wd_pending x = wd_pending u"
    "at (wd_authorities x) ?a s'" "mapped (uses ?a) x < au_references s'" by auto
  have same: "wd_spaces u = wd_spaces w" "wd_pending u = wd_pending w" using d by (simp_all add: t_def parts)
  have "at (wd_spaces x) m (sp\<lparr>sp_maps := filter (\<lambda>y. \<not> uses ?a y) (p # ps)\<rparr>)" using assms(2) same x(5) by (simp add: at_def)
  from tally_maps [OF _ this] have "tally x ?a m g = 0" for g
    using x(2,6) assms(4) same(2) by (auto simp: world_inv_def unclaimed_def intro!: cnt_none)
  from close_hole [OF x(2) this] have "kept q e x" using t(2) x(3,4) d by (auto intro!: keptI simp: env_ok_def live_owners_def)
  from kept_close [OF this x(7,8)] show "kept q e v" unfolding v_def x(1) .
  show "wd_spaces v = (wd_spaces w)[m := Some (sp\<lparr>sp_maps := filter (\<lambda>x. \<not> uses (mp_authority p) x) (p # ps)\<rparr>)]" "wd_pending v = wd_pending w"
    unfolding v_def x(1) close_frames using x(5,6) same by simp_all
qed

lemma release_each_kept:
  assumes "kept q e w" "at (wd_spaces w) m sp" "sp_maps sp = ps" "unclaimed m w"
  shows "\<exists>r' t. release_each e m ps r w = (r', t) \<and> kept q e t \<and> at (wd_spaces t) m (sp\<lparr>sp_maps := []\<rparr>) \<and> unclaimed m t"
  using assms
proof (induction e m ps r w arbitrary: sp rule: release_each.induct)
  case (1 e m r w)
  have "sp\<lparr>sp_maps := []\<rparr> = sp" using "1.prems"(3) by simp
  hence "at (wd_spaces w) m (sp\<lparr>sp_maps := []\<rparr>)" using "1.prems"(2) by (simp only:)
  thus ?case using "1.prems"(1,4) by simp
next
  case (2 e m p ps r w)
  let ?a = "mp_authority p"
  let ?t = "md_shm_retain ?a w"
  let ?s = "authority ?t ?a"
  obtain er u where run: "on_db (shm_transaction e ?s (forget_space (au_owner ?s) (sp_id (shm_space_at ?t m)))) ?t = (er, u)" by fastforce
  let ?v = "md_shm_close e ?a (drop_maps e m ?a [] (p # ps) u)" and ?ps = "filter (\<lambda>x. mp_authority x \<noteq> ?a) (p # ps)"
  note one = release_one [OF "2.prems" run]
  have "at (wd_spaces ?v) m (sp\<lparr>sp_maps := ?ps\<rparr>)" using "2.prems"(2) one(2) by (simp add: at_def)
  moreover have "unclaimed m ?v" using "2.prems"(4) one(3) by (simp add: unclaimed_def)
  ultimately have "\<exists>r' t. release_each e m ?ps (case r of Inl x \<Rightarrow> Inl x | Inr _ \<Rightarrow> er) ?v = (r', t) \<and> kept q e t
      \<and> at (wd_spaces t) m (sp\<lparr>sp_maps := ?ps, sp_maps := []\<rparr>) \<and> unclaimed m t"
    using one(1) run by (intro "2.IH") auto
  thus ?case using run by (simp add: Let_def del: drop_maps.simps)
qed

lemma put_shm_space_kept:
  assumes "kept q e w" "at (wd_spaces w) m sp" "sp_id sp' = sp_id sp" "sp_home sp' = sp_home sp" "sp_maps sp' = sp_maps sp"
  shows "kept q e (put_shm_space m (Some sp') w)"
proof -
  note parts = put_shm_space_parts [OF assms(2-5)]
  obtain N where w: "world_inv q {} N w" "env_ok q e w" using assms(1) by (auto simp: kept_def)
  have wf: "world_wf w" using w(1) by (simp add: world_inv_def)
  have "world_wf (put_shm_space m (Some sp') w)"
  proof (rule wf_change [OF wf parts(1,2)])
    show "mp_space p = n" if "at (wd_spaces (put_shm_space m (Some sp') w)) n sq" "p \<in> set (sp_maps sq)" for n sq p
      using that wfD(1) [OF wf, of n sq p] wfD(1) [OF wf assms(2), of p] assms(5) by (auto simp: put_shm_space_def at_update split: if_splits)
    show "placed w p" if "p \<in> all_maps (put_shm_space m (Some sp') w)" for p using that wfD(2) [OF wf] by (simp add: parts)
    show "mapped (uses a) (put_shm_space m (Some sp') w) \<le> au_references s \<and> 0 < au_references s"
      if "at (wd_authorities (put_shm_space m (Some sp') w)) a s" for a s
      using that wfD(3) [OF wf] by (simp add: parts) (simp add: put_shm_space_def)
  qed (simp add: put_shm_space_def)
  hence "world_inv q {} N (put_shm_space m (Some sp') w)"
    using w(1) by (intro inv_change [OF w(1)]) (simp_all add: parts moves_def world_inv_def, simp add: put_shm_space_def)
  thus ?thesis using w(2) frames_determine(3) [OF parts(1,2)] by (auto intro: keptI)
qed

text \<open>A space without mappings is freed.\<close>

lemma free_space_kept:
  assumes "kept q e w" "at (wd_spaces w) m sp" "sp_maps sp = []" "unclaimed m w"
  shows "kept q e (put_shm_space m None w)"
proof -
  let ?w = "put_shm_space m None w"
  obtain N where w: "world_inv q {} N w" "env_ok q e w" using assms(1) by (auto simp: kept_def)
  have wf: "world_wf w" and c: "counts_fit q {} N (auth_frame w) (space_frame w) (tally w)" using w(1) by (simp_all add: world_inv_def)
  have m: "m < length (wd_spaces w)" "wd_spaces w ! m = Some sp" using assms(2) by (auto simp: at_def)
  have frame: "space_frame ?w = (space_frame w)[m := None]" "auth_frame ?w = auth_frame w"
    by (simp_all add: put_shm_space_def space_frame_def auth_frame_def map_update)
  have at: "at (space_frame ?w) n x \<longleftrightarrow> n \<noteq> m \<and> at (space_frame w) n x" for n x by (auto simp: frame at_update)
  have sum: "mapped P ?w = mapped P w" for P
    using sum_update [OF m(1), of "\<lambda>x. cnt P (space_maps x)" None] m(2) assms(3) by (simp add: mapped_def put_shm_space_def)
  have zero: "tally w a m g = 0" for a g using tally_maps [OF wf assms(2,4)] assms(3) by simp
  have sub: "all_maps ?w \<subseteq> all_maps w"
    using set_update_subset_insert [of "wd_spaces w" m None] by (fastforce simp: all_maps_def put_shm_space_def)
  have away: "mp_space p \<noteq> m" if "p \<in> all_maps w" for p
    using zero [of "mp_authority p" "mp_segment p"] that by (auto simp: mapped_zero_iff)
  have "world_wf ?w"
  proof (rule wfI)
    show "mp_space p = n" if "at (wd_spaces ?w) n sq" "p \<in> set (sp_maps sq)" for n sq p
      using that wfD(1) [OF wf, of n sq p] by (auto simp: put_shm_space_def at_update split: if_splits)
    show "placed ?w p" if "p \<in> all_maps ?w" for p
      using wfD(2) [OF wf, of p] away [of p] sub that by (auto simp: placed_def at frame(2))
    show "mapped (uses a) ?w \<le> au_references s \<and> 0 < au_references s" if "at (wd_authorities ?w) a s" for a s
      using that wfD(3) [OF wf, of a s] by (simp add: sum) (simp add: put_shm_space_def)
    show "n = n'" if "at (space_frame ?w) n (k, h)" "at (space_frame ?w) n' (k, h)" for n n' k h
      using that wfD(4) [OF wf, of n "(k, h)" n'] by (simp add: at)
    show "k \<le> wd_next ?w h" if "at (space_frame ?w) n (k, h)" for n k h using that wfD(5) [OF wf, of n k h] by (simp add: at) (simp add: put_shm_space_def)
    show "a = b" if "at (auth_frame ?w) a (l, h)" "at (auth_frame ?w) b (l, h')" for a b l h h'
      using that wfD(6) [OF wf, of a l h b h'] by (simp add: frame)
  qed
  moreover have "counts_fit q {} N (auth_frame ?w) (space_frame ?w) (tally ?w)"
    unfolding counts_fit_def frame(2) sum
  proof (intro allI impI conjI)
    fix a l h g k assume a: "at (auth_frame w) a (l, h)" "\<forall>n. \<not> at (space_frame ?w) n (k, h)"
    show "fits q (N l k g) 0"
    proof (cases "at (space_frame w) m (k, h)")
      case True
      thus ?thesis using countsD [OF c a(1), THEN conjunct1, rule_format, of m k g] zero [of a g] by simp
    next
      case False
      hence "\<not> at (space_frame w) n (k, h)" for n using a(2) by (cases "n = m") (auto simp: at)
      thus ?thesis using countsD [OF c a(1), of g] by simp
    qed
  qed (use countsD [OF c] in \<open>simp add: at\<close>)
  ultimately have "world_inv q {} N ?w" using w(1) by (simp add: world_inv_def live_owners_def frame) (simp add: put_shm_space_def)
  thus ?thesis using w(2) by (auto intro!: keptI simp: env_ok_def live_owners_def frame)
qed

lemma release_kept:
  assumes "kept q e w" "at (wd_spaces w) m sp" "sp_references sp = 1 \<Longrightarrow> unclaimed m w" "0 < sp_references sp"
  shows "kept q e (snd (md_shm_space_release e (Some m) w))"
proof -
  let ?sp = "sp\<lparr>sp_references := sp_references sp - 1\<rparr>"
  let ?t = "put_shm_space m (Some ?sp) w"
  have t: "kept q e ?t" by (rule put_shm_space_kept [OF assms(1,2)]) simp_all
  have at: "at (wd_spaces ?t) m ?sp" using assms(2) by (simp add: put_shm_space_def at_def)
  show ?thesis
  proof (cases "sp_references sp = 1")
    case True
    have "unclaimed m ?t" using assms(3) True by (simp add: unclaimed_def put_shm_space_def)
    from release_each_kept [OF t at refl this, of "Inr ()"] obtain r u where u:
      "release_each e m (sp_maps ?sp) (Inr ()) ?t = (r, u)" "kept q e u" "at (wd_spaces u) m (?sp\<lparr>sp_maps := []\<rparr>)" "unclaimed m u" by blast
    from free_space_kept [OF u(2,3) _ u(4)] show ?thesis
      using u(1) True at_get(1) [OF assms(2)] at_get(1) [OF at] by (simp add: md_shm_space_release_def Let_def)
  next
    case False
    thus ?thesis using t assms(4) at_get(1) [OF assms(2)] by (simp add: md_shm_space_release_def Let_def)
  qed
qed

subsection \<open>Making spaces and copies\<close>

text \<open>A new space has a number of its own and no mappings.\<close>

definition with_space :: "nat \<Rightarrow> shm_db \<Rightarrow> shm_world \<Rightarrow> shm_world" where
  "with_space home d w =
     w\<lparr>wd_db := d, wd_next := (wd_next w)(home := wd_next w home + 1),
       wd_spaces := wd_spaces w @ [Some \<lparr>sp_references = 1, sp_used = False, sp_id = wd_next w home + 1, sp_maps = [], sp_home = home\<rparr>]\<rparr>"

lemma with_space_simps [simp]:
  "auth_frame (with_space home d w) = auth_frame w" "mapped P (with_space home d w) = mapped P w"
  "all_maps (with_space home d w) = all_maps w" "wd_authorities (with_space home d w) = wd_authorities w"
  "wd_pending (with_space home d w) = wd_pending w" "wd_db (with_space home d w) = d"
  by (simp_all add: with_space_def auth_frame_def mapped_def all_maps_def)

lemma with_space_at:
  "at (space_frame (with_space home d w)) n x \<longleftrightarrow>
     (if n = length (wd_spaces w) then x = (wd_next w home + 1, home) else at (space_frame w) n x)"
  by (auto simp: with_space_def space_frame_def at_append)

lemma fresh_number:
  "world_wf w \<Longrightarrow> wd_next w home < wd_next w home + 1 \<Longrightarrow> \<not> at (space_frame w) n (wd_next w home + 1, home)"
  using wfD(5) [of w n "wd_next w home + 1" home] by auto

lemma space_bound: "world_wf w \<Longrightarrow> p \<in> all_maps w \<Longrightarrow> mp_space p < length (wd_spaces w)"
  using wfD(2) [of w p] by (auto simp: placed_def at_def space_frame_def)

lemma with_space_wf:
  assumes wf: "world_wf w" and next_number: "wd_next w home < wd_next w home + 1"
  shows "world_wf (with_space home d w)"
proof (rule wfI)
  let ?t = "with_space home d w"
  note fresh = fresh_number [OF assms]
  show "mp_space p = n" if "at (wd_spaces ?t) n sq" "p \<in> set (sp_maps sq)" for n sq p
    using that wfD(1) [OF wf, of n sq p] by (auto simp: with_space_def at_append split: if_splits)
  show "placed ?t p" if "p \<in> all_maps ?t" for p
    using that wfD(2) [OF wf, of p] space_bound [OF wf, of p] by (auto simp: placed_def with_space_at)
  show "mapped (uses a) ?t \<le> au_references s \<and> 0 < au_references s" if "at (wd_authorities ?t) a s" for a s
    using that wfD(3) [OF wf, of a s] by simp
  show "n = n'" if "at (space_frame ?t) n (k, h)" "at (space_frame ?t) n' (k, h)" for n n' k h
    using that wfD(4) [OF wf, of n "(k, h)" n'] fresh [of n] fresh [of n'] unfolding with_space_at by (auto split: if_splits)
  show "k \<le> wd_next ?t h" if "at (space_frame ?t) n (k, h)" for n k h
    using that wfD(5) [OF wf, of n k h] next_number unfolding with_space_at by (auto simp: with_space_def split: if_splits)
  show "a = b" if "at (auth_frame ?t) a (l, h)" "at (auth_frame ?t) b (l, h')" for a b l h h'
    using that wfD(6) [OF wf, of a l h b h'] by simp
qed

lemma with_space_inv:
  assumes "world_inv q {} N w" and next_number: "wd_next w home < wd_next w home + 1" and "at_rest (live_owners w) q N d"
  shows "world_inv q {} N (with_space home d w)"
proof -
  let ?t = "with_space home d w"
  have wf: "world_wf w" and c: "counts_fit q {} N (auth_frame w) (space_frame w) (tally w)" using assms(1) by (simp_all add: world_inv_def)
  have "counts_fit q {} N (auth_frame ?t) (space_frame ?t) (tally ?t)"
    unfolding counts_fit_def with_space_simps
  proof (intro allI impI conjI)
    fix a l h g n k assume a: "at (auth_frame w) a (l, h)" "at (space_frame ?t) n (k, h)"
    show "fits q (N l k g) (if (a, n) \<in> {} then 0 else tally w a n g)"
    proof (cases "n = length (wd_spaces w)")
      case True
      hence "k = wd_next w home + 1" "h = home" using a(2) by (simp_all add: with_space_at)
      moreover have "tally w a n g = 0" using True by (intro mapped_zero) (auto dest: space_bound [OF wf])
      ultimately show ?thesis using countsD [OF c a(1), of g] fresh_number [OF wf next_number] by simp
    next
      case False
      thus ?thesis using countsD [OF c a(1), of g] a(2) by (simp add: with_space_at)
    qed
  next
    fix a l h g k assume a: "at (auth_frame w) a (l, h)" "\<forall>n. \<not> at (space_frame ?t) n (k, h)"
    have "\<not> at (space_frame w) n (k, h)" for n
      using a(2) [rule_format, of n] unfolding with_space_at by (cases "n = length (wd_spaces w)") (auto simp: at_def space_frame_def)
    thus "fits q (N l k g) 0" using countsD [OF c a(1), of g] by simp
  qed
  thus ?thesis using with_space_wf [OF wf next_number] assms(3) by (simp add: world_inv_def live_owners_def)
qed

lemma new_space_kept:
  assumes "kept q e w" "wd_next w home < wd_next w home + 1" "md_shm_space_new home w = (r, t)"
  shows "kept q e t"
    and "wd_pending t = wd_pending w"
    and "r = Some n \<Longrightarrow> n = length (wd_spaces w) \<and> unclaimed n t \<and>
       (\<exists>sp. wd_spaces t = wd_spaces w @ [Some sp] \<and> sp_maps sp = [] \<and> sp_home sp = home \<and> sp_references sp = 1)"
proof -
  obtain N where w: "world_inv q {} N w" "env_ok q e w" using assms(1) by (auto simp: kept_def)
  have wf: "world_wf w" and rest: "at_rest (live_owners w) q N (wd_db w)" using w(1) by (simp_all add: world_inv_def)
  obtain r0 d where d: "sh_answer (wd_db w) = (r0, d)" by fastforce
  have rest': "at_rest (live_owners w) q N d"
    using rest d by (auto simp: sh_answer_def at_rest_def settled_faults split: list.splits option.splits)
  let ?T = "with_space home d w"
  have t: "t = (case r0 of Inl _ \<Rightarrow> w\<lparr>wd_db := d\<rparr> | Inr _ \<Rightarrow> ?T)" "r = (case r0 of Inl _ \<Rightarrow> None | Inr _ \<Rightarrow> Some (length (wd_spaces w)))"
    using assms(3) d by (auto simp: md_shm_space_new_def on_db_def Let_def with_space_def split: sum.splits)
  show "wd_pending t = wd_pending w" using t(1) by (simp split: sum.splits)
  have "env_ok q e ?T" using w(2) by (simp add: env_ok_def live_owners_def)
  thus "kept q e t" using t(1) inv_db [OF w(1) rest'] with_space_inv [OF w(1) assms(2) rest'] w(2) by (auto intro: keptI split: sum.splits)
  show "n = length (wd_spaces w) \<and> unclaimed n t \<and> (\<exists>sp. wd_spaces t = wd_spaces w @ [Some sp] \<and> sp_maps sp = [] \<and> sp_home sp = home \<and> sp_references sp = 1)"
    if "r = Some n"
  proof -
    have n: "n = length (wd_spaces w)" "t = ?T" using that t by (auto split: sum.splits)
    have "p \<in> all_maps w" if "Some p \<in> set (wd_pending w)" for p using that by (force simp: all_maps_def)
    thus ?thesis using n space_bound [OF wf] by (fastforce simp: unclaimed_def with_space_def)
  qed
qed

lemma retain_db: "md_shm_retain a (w\<lparr>wd_db := d\<rparr>) = (md_shm_retain a w)\<lparr>wd_db := d\<rparr>"
  by (simp add: md_shm_retain_def put_authority_def)

lemma retain_n:
  fixes c :: nat
  assumes "at (wd_authorities w) a s"
  defines "t \<equiv> (md_shm_retain a ^^ c) w"
  shows "auth_frame t = auth_frame w" "space_frame t = space_frame w" "mapped P t = mapped P w" "all_maps t = all_maps w"
    "wd_authorities t = (wd_authorities w)[a := Some (s\<lparr>au_references := au_references s + c\<rparr>)]"
    "wd_spaces t = wd_spaces w" "wd_pending t = wd_pending w" "wd_next t = wd_next w" "wd_db t = wd_db w"
    "world_inv q H N w \<Longrightarrow> world_inv q H N t" "(md_shm_retain a ^^ c) (w\<lparr>wd_db := d\<rparr>) = t\<lparr>wd_db := d\<rparr>"
proof -
  have at: "at ((wd_authorities w)[a := Some x]) a x" for x using assms(1) by (simp add: at_def)
  have id: "(wd_authorities w)[a := Some s] = wd_authorities w" using assms(1) by (simp add: at_def list_update_same_conv)
  have "auth_frame ((md_shm_retain a ^^ c) w) = auth_frame w \<and> space_frame ((md_shm_retain a ^^ c) w) = space_frame w
     \<and> mapped P ((md_shm_retain a ^^ c) w) = mapped P w \<and> all_maps ((md_shm_retain a ^^ c) w) = all_maps w
     \<and> wd_authorities ((md_shm_retain a ^^ c) w) = (wd_authorities w)[a := Some (s\<lparr>au_references := au_references s + c\<rparr>)]
     \<and> wd_spaces ((md_shm_retain a ^^ c) w) = wd_spaces w \<and> wd_pending ((md_shm_retain a ^^ c) w) = wd_pending w
     \<and> wd_next ((md_shm_retain a ^^ c) w) = wd_next w \<and> wd_db ((md_shm_retain a ^^ c) w) = wd_db w
     \<and> (world_inv q H N w \<longrightarrow> world_inv q H N ((md_shm_retain a ^^ c) w))
     \<and> (md_shm_retain a ^^ c) (w\<lparr>wd_db := d\<rparr>) = ((md_shm_retain a ^^ c) w)\<lparr>wd_db := d\<rparr>"
  proof (induction c)
    case 0
    show ?case by (simp add: id)
  next
    case (Suc c)
    let ?t = "(md_shm_retain a ^^ c) w"
    have a: "at (wd_authorities ?t) a (s\<lparr>au_references := au_references s + c\<rparr>)" using Suc at by simp
    show ?case using Suc retain_parts [OF a] shm_retain_ok [OF _ a] by (simp add: retain_db)
  qed
  thus "auth_frame t = auth_frame w" "space_frame t = space_frame w" "mapped P t = mapped P w" "all_maps t = all_maps w"
    "wd_authorities t = (wd_authorities w)[a := Some (s\<lparr>au_references := au_references s + c\<rparr>)]"
    "wd_spaces t = wd_spaces w" "wd_pending t = wd_pending w" "wd_next t = wd_next w" "wd_db t = wd_db w"
    "world_inv q H N w \<Longrightarrow> world_inv q H N t" "(md_shm_retain a ^^ c) (w\<lparr>wd_db := d\<rparr>) = t\<lparr>wd_db := d\<rparr>"
    unfolding t_def by auto
qed

text \<open>Mappings of one authority change together with its references and its counts.\<close>

lemma maps_inv:
  assumes inv: "world_inv q {} N w" and m: "at (wd_spaces w) m sp" and a: "at (wd_authorities w) a s"
    and maps: "\<And>p. p \<in> set maps \<Longrightarrow> mp_space p = m \<and> placed w p"
    and mine: "cnt (uses a) maps \<le> c + cnt (uses a) (sp_maps sp)"
    and others: "\<And>b. b \<noteq> a \<Longrightarrow> cnt (uses b) maps = cnt (uses b) (sp_maps sp)"
    and rest: "at_rest (live_owners w) q N' d"
    and shift: "\<And>b l g. at (auth_frame w) b (l, sp_home sp) \<Longrightarrow>
       moves q (N' l (sp_id sp) g - N l (sp_id sp) g) (int (cnt (key b m g) maps) - int (cnt (key b m g) (sp_maps sp)))"
    and other: "\<And>b l h k g. at (auth_frame w) b (l, h) \<Longrightarrow> (k, h) \<noteq> (sp_id sp, sp_home sp) \<Longrightarrow> N' l k g = N l k g"
  shows "world_inv q {} N' (set_maps m maps ((md_shm_retain a ^^ c) (w\<lparr>wd_db := d\<rparr>)))"
proof -
  let ?t = "(md_shm_retain a ^^ c) w"
  note parts = retain_n [OF a, where c = c]
  have wf: "world_wf w" using inv by (simp add: world_inv_def)
  have t: "world_inv q {} N ?t" using parts(10) inv by simp
  have "world_inv q {} N' (set_maps m maps (?t\<lparr>wd_db := d\<rparr>))"
  proof (rule set_maps_inv [OF t])
    show "at (wd_spaces ?t) m sp" using m by (simp add: parts)
    show "mp_space p = m \<and> placed ?t p" if "p \<in> set maps" for p
      using maps [OF that] frames_determine(2) [OF parts(1,2)] by simp
    show "at_rest (live_owners ?t) q N' d" using rest frames_determine(1) [OF parts(1,2)] by simp
    show "mapped (uses b) ?t + cnt (uses b) maps \<le> au_references x + cnt (uses b) (sp_maps sp)" if "at (wd_authorities ?t) b x" for b x
      using that wfD(3) [OF wf a] wfD(3) [OF wf, of b x] mine others [of b] by (auto simp: parts at_update split: if_splits)
  qed (use shift other in \<open>simp_all add: parts\<close>)
  thus ?thesis by (simp add: parts(11))
qed

text \<open>Counting the copies of one authority.\<close>

definition raised :: "int set \<Rightarrow> int \<Rightarrow> u64 \<Rightarrow> nat \<Rightarrow> shm_mapping list \<Rightarrow> (int \<Rightarrow> u64 \<Rightarrow> int \<Rightarrow> int) \<Rightarrow> int \<Rightarrow> u64 \<Rightarrow> int \<Rightarrow> int" where
  "raised L lessee space a ps N =
     (\<lambda>l k g. N l k g + (if l \<in> L \<and> l = lessee \<and> k = space then int (cnt (\<lambda>p. uses a p \<and> mp_segment p = g) ps) else 0))"

lemma tx_count_copies:
  assumes "l \<in> L" "\<And>p. p \<in> set ps \<Longrightarrow> uses a p \<Longrightarrow> mp_segment p \<in> S"
  shows "in_tx L B q N S (count_copies a l k ps) (\<lambda>_. mid L B q (raised L l k a ps N) S)"
  using assms(2)
proof (induction ps arbitrary: N)
  case Nil
  have "raised L l k a [] N = N" by (simp add: raised_def fun_eq_iff)
  thus ?case by (simp add: steady_basic)
next
  case (Cons p ps)
  let ?N = "if uses a p then ref_bump L l k (mp_segment p) 1 N else N"
  have one: "in_tx L B q N S (if uses a p then shm_refs l k (mp_segment p) 1 else sh_return ()) (\<lambda>_. mid L B q ?N S)"
    using tx_refs [OF assms(1), of 1 "mp_segment p" S] Cons.prems [of p] by (simp add: steady_basic)
  have step: "raised L l k a ps ?N = raised L l k a (p # ps) N" by (auto simp: raised_def ref_bump_def fun_eq_iff)
  have two: "in_tx L B q ?N S (count_copies a l k ps) (\<lambda>_. mid L B q (raised L l k a (p # ps) N) S)"
    using Cons.IH [of ?N] Cons.prems unfolding step by simp
  show ?case using run_then [OF one two] by simp
qed

lemma publish_maps_eq:
  assumes "at (wd_spaces w) m sp" "at (wd_authorities w) a s"
  shows "publish_maps m a ps w = set_maps m (rev (filter (uses a) ps) @ sp_maps sp) ((md_shm_retain a ^^ cnt (uses a) ps) w)"
  using assms
proof (induction ps arbitrary: w sp s)
  case Nil
  have "(wd_spaces w)[m := Some sp] = wd_spaces w" using Nil by (simp add: at_def list_update_same_conv)
  thus ?case using Nil by (simp add: set_maps_def put_shm_space_def shm_space_at_def at_def)
next
  case (Cons p ps)
  show ?case
  proof (cases "uses a p")
    case True
    let ?t = "md_shm_retain a (set_maps m (p # sp_maps sp) w)" and ?c = "cnt (uses a) ps"
    have swap: "md_shm_retain a (set_maps m x v) = set_maps m x (md_shm_retain a v)" for x v
      by (simp add: md_shm_retain_def set_maps_def put_authority_def put_shm_space_def authority_def shm_space_at_def)
    have swaps: "(md_shm_retain a ^^ c) (set_maps m x v) = set_maps m x ((md_shm_retain a ^^ c) v)" for c x v
      by (induction c) (simp_all add: swap)
    have over: "set_maps m y (set_maps m x v) = set_maps m y v" if "m < length (wd_spaces v)" for x y v
      using that by (simp add: set_maps_def put_shm_space_def shm_space_at_def)
    have len: "length (wd_spaces ((md_shm_retain a ^^ c) (md_shm_retain a w))) = length (wd_spaces w)" for c
      using retain_n(6) [OF Cons.prems(2), of "Suc c"] by (simp add: funpow_swap1)
    have "at (wd_spaces ?t) m (sp\<lparr>sp_maps := p # sp_maps sp\<rparr>)" "at (wd_authorities ?t) a (s\<lparr>au_references := au_references s + 1\<rparr>)"
      using Cons.prems by (auto simp: md_shm_retain_def put_authority_def authority_def set_maps_def put_shm_space_def shm_space_at_def at_def)
    from Cons.IH [OF this] True show ?thesis
      using Cons.prems(1) by (simp add: swap swaps over len at_get(1) funpow_swap1 at_def)
  next
    case False
    thus ?thesis using Cons.IH [OF Cons.prems] by simp
  qed
qed

lemma positive_count:
  assumes inv: "world_inv q {} N w" and p: "p \<in> all_maps w"
  shows "\<exists>l k. 0 < N l k (mp_segment p)"
proof -
  have wf: "world_wf w" and c: "counts_fit q {} N (auth_frame w) (space_frame w) (tally w)" using inv by (simp_all add: world_inv_def)
  obtain l h k where at: "at (auth_frame w) (mp_authority p) (l, h)" "at (space_frame w) (mp_space p) (k, h)"
    using wfD(2) [OF wf p] by (auto simp: placed_def)
  have "0 < tally w (mp_authority p) (mp_space p) (mp_segment p)" using p by (rule mapped_positive) simp
  moreover have "fits q (N l k (mp_segment p)) (tally w (mp_authority p) (mp_space p) (mp_segment p))"
    using countsD [OF c at(1), THEN conjunct1, rule_format, OF at(2)] by simp
  ultimately show ?thesis by (auto simp: fits_def intro!: exI [of _ l] exI [of _ k])
qed

lemma space_in_all: "at (wd_spaces w) m sp \<Longrightarrow> p \<in> set (sp_maps sp) \<Longrightarrow> p \<in> all_maps w"
  using nth_mem by (force simp: at_def all_maps_def)

lemma cnt_rev [simp]: "cnt P (rev ps) = cnt P ps"
  by (simp add: cnt_def rev_filter [symmetric])

lemma cnt_filter: "cnt P (filter Q ps) = cnt (\<lambda>p. Q p \<and> P p) ps"
  by (simp add: cnt_def conj_commute)

abbreviation copies_of :: "nat \<Rightarrow> shm_space \<Rightarrow> shm_mapping list \<Rightarrow> bool" where
  "copies_of n src ps \<equiv> \<forall>x \<in> set ps. mp_space x = n \<and> (\<exists>y \<in> set (sp_maps src). mp_authority y = mp_authority x \<and> mp_segment y = mp_segment x)"

lemma copy_source:
  assumes wf: "world_wf w" and "at (wd_spaces w) n sp" "at (wd_spaces w) m src" "sp_home sp = sp_home src" "copies_of n src ps" "x \<in> set ps"
  shows "\<exists>y \<in> all_maps w. mp_segment y = mp_segment x" "placed w x"
proof -
  obtain y where y: "y \<in> all_maps w" "mp_authority y = mp_authority x" "mp_space y = m" "mp_segment y = mp_segment x"
    using assms(5,6) space_in_all [OF assms(3)] wfD(1) [OF wf assms(3)] by blast
  thus "\<exists>y \<in> all_maps w. mp_segment y = mp_segment x" by blast
  obtain s sq where "at (wd_authorities w) (mp_authority y) s" "at (wd_spaces w) (mp_space y) sq" "sp_home sq = au_home s"
    using wfD(2) [OF wf y(1)] by (rule placedD)
  thus "placed w x" using y assms(2-6) at_unique [OF assms(3)] unfolding placed_def frame_at by metis
qed

text \<open>Once the copies of one authority are counted, publishing them keeps the invariant.\<close>

lemma published_inv:
  assumes w: "world_inv q {} N w" and sp: "at (wd_spaces w) n sp" and s: "at (wd_authorities w) a s" and home: "sp_home sp = au_home s"
    and ps: "\<And>x. x \<in> set ps \<Longrightarrow> mp_space x = n \<and> placed w x"
  defines "M \<equiv> raised (live_owners w) (au_owner s) (sp_id sp) a ps N"
  assumes rest: "at_rest (live_owners w) q M d"
  shows "world_inv q {} M (set_maps n (rev (filter (uses a) ps) @ sp_maps sp) ((md_shm_retain a ^^ cnt (uses a) ps) (w\<lparr>wd_db := d\<rparr>)))"
proof (rule maps_inv [OF w sp s])
  let ?maps = "rev (filter (uses a) ps) @ sp_maps sp"
  have wf: "world_wf w" using w by (simp add: world_inv_def)
  show "mp_space x = n \<and> placed w x" if "x \<in> set ?maps" for x
    using that ps [of x] wfD(1) [OF wf sp] wfD(2) [OF wf] space_in_all [OF sp] by auto
  show "cnt (uses a) ?maps \<le> cnt (uses a) ps + cnt (uses a) (sp_maps sp)" by (simp add: cnt_filter)
  show "cnt (uses b) ?maps = cnt (uses b) (sp_maps sp)" if "b \<noteq> a" for b using that by (auto intro!: cnt_none)
  show "at_rest (live_owners w) q M d" by fact
  have live: "l \<in> live_owners w" if "at (auth_frame w) b (l, h)" for b l h using that by (auto simp: live_owners_def)
  note key = owner_key [OF wf s sp home]
  have own: "l = au_owner s \<longleftrightarrow> b = a" if "at (auth_frame w) b (l, h)" for b l h
    using key(1) [OF that] s that by (auto simp: frame_at dest: at_unique)
  show "M l k g = N l k g" if "at (auth_frame w) b (l, h)" "(k, h) \<noteq> (sp_id sp, sp_home sp)" for b l h k g
    using that(2) key(2) [OF that(1)] home by (auto simp: M_def raised_def)
  show "moves q (M l (sp_id sp) g - N l (sp_id sp) g) (int (cnt (key b n g) ?maps) - int (cnt (key b n g) (sp_maps sp)))"
    if b: "at (auth_frame w) b (l, sp_home sp)" for b l g
  proof (cases "b = a")
    case True
    have "cnt (key a n g) (filter (uses a) ps) = cnt (\<lambda>p. uses a p \<and> mp_segment p = g) ps"
      unfolding cnt_def using ps by (auto intro!: arg_cong [of _ _ length] filter_cong)
    thus ?thesis using own [OF b] live [OF b] True by (simp add: M_def raised_def moves_def)
  next
    case False
    have "cnt (key b n g) (filter (uses a) ps) = 0" using False by (auto intro!: cnt_none)
    thus ?thesis using own [OF b] False by (simp add: M_def raised_def moves_def)
  qed
qed

lemma publish_one:
  assumes "kept q e w" "at (wd_spaces w) n sp" "at (wd_spaces w) m src" "sp_home sp = sp_home src"
    and copied: "\<forall>x \<in> set ps. mp_space x = n \<and> (\<exists>y \<in> set (sp_maps src). mp_authority y = mp_authority x \<and> mp_segment y = mp_segment x)"
    and p: "p \<in> set ps"
  defines "a \<equiv> mp_authority p"
  defines "s \<equiv> authority w a"
  assumes run: "on_db (shm_transaction e s (count_copies a (au_owner s) (sp_id (shm_space_at w n)) ps)) w = (r, t)"
  shows "r = Inl er \<Longrightarrow> kept q e t" "\<exists>d. t = w\<lparr>wd_db := d\<rparr>" "r = Inr x \<Longrightarrow> kept q e (publish_maps n a ps t)"
    "wd_spaces (publish_maps n a ps t) = (wd_spaces w)[n := Some (sp\<lparr>sp_maps := rev (filter (uses a) ps) @ sp_maps sp\<rparr>)]"
    "wd_pending (publish_maps n a ps t) = wd_pending w"
proof -
  obtain N where w: "world_inv q {} N w" "env_ok q e w" using assms(1) by (auto simp: kept_def)
  have wf: "world_wf w" using w(1) by (simp add: world_inv_def)
  note source = copy_source [OF wf assms(2-4) copied]
  have placed: "mp_space x = n \<and> placed w x" if "x \<in> set ps" for x using source(2) [OF that] copied that by simp
  have s: "at (wd_authorities w) a s" using source(2) [OF p] unfolding a_def s_def by (auto elim!: placedD simp: at_get)
  have home: "sp_home sp = au_home s"
  proof -
    obtain s' sp' where "at (wd_authorities w) a s'" "at (wd_spaces w) n sp'" "sp_home sp' = au_home s'"
      using placed [OF p] unfolding a_def by (auto elim!: placedD)
    thus ?thesis using at_unique [OF s] at_unique [OF assms(2)] by metis
  qed
  let ?L = "live_owners w" and ?k = "sp_id sp" and ?S = "{g. \<exists>l k. 0 < N l k g}"
  let ?N = "raised ?L (au_owner s) ?k a ps N"
  have seg: "mp_segment x \<in> ?S" if "x \<in> set ps" for x
    using source(1) [OF that] positive_count [OF w(1)] by force
  have tx: "in_tx ?L B q N {} (count_copies a (au_owner s) ?k ps) (\<lambda>_. mid ?L B q ?N ?S)" for B
    by (rule tx_positive, unfold Un_empty_left, rule tx_count_copies [OF live_owner [OF s]]) (rule seg)
  have run': "on_db (shm_transaction e s (count_copies a (au_owner s) ?k ps)) w = (r, t)" using run at_get(1) [OF assms(2)] by simp
  obtain d where d: "t = w\<lparr>wd_db := d\<rparr>"
    "case r of Inl _ \<Rightarrow> at_rest ?L q N d \<or> q = Any_Call \<and> at_rest ?L q ?N d | Inr _ \<Rightarrow> at_rest ?L q ?N d"
    by (rule world_change [OF w tx run'])
  show "\<exists>d. t = w\<lparr>wd_db := d\<rparr>" using d(1) by blast
  let ?maps = "rev (filter (uses a) ps) @ sp_maps sp" and ?c = "cnt (uses a) ps"
  have eq: "publish_maps n a ps t = set_maps n ?maps ((md_shm_retain a ^^ ?c) t)"
    using publish_maps_eq [of t n sp a s ps] assms(2) s d(1) by simp
  have len: "at (wd_spaces ((md_shm_retain a ^^ ?c) t)) n sp"
    using assms(2) s d(1) retain_n(6) [of t a s ?c] by simp
  show "wd_spaces (publish_maps n a ps t) = (wd_spaces w)[n := Some (sp\<lparr>sp_maps := ?maps\<rparr>)]" "wd_pending (publish_maps n a ps t) = wd_pending w"
    unfolding eq using set_maps_parts(8,9) [OF len, of ?maps] retain_n(6,7) [of t a s ?c] s d(1) by simp_all
  have inv: "world_inv q {} ?N (publish_maps n a ps t)" if "at_rest ?L q ?N d"
    unfolding eq unfolding d(1) by (rule published_inv [OF w(1) assms(2) s home placed that])
  have same: "env_ok q e (publish_maps n a ps t)"
    unfolding eq using w(2) set_maps_parts(1,2) [OF len, of ?maps] retain_n(1,2) [of t a s ?c] s d(1)
    by (simp add: env_ok_def live_owners_def)
  show "kept q e (publish_maps n a ps t)" if "r = Inr x" using inv d(2) that same by (auto intro: keptI)
  have more: "N l k g \<le> ?N l k g" for l k g by (simp add: raised_def)
  have env: "env_ok q e t" using w(2) d(1) by simp
  show "kept q e t" if "r = Inl er"
    using that d(2) keptI [OF inv_db [OF w(1)], of d e] keptI [OF inv_raise [OF w(1) _ _ more, of d], of e] env unfolding d(1) by auto
qed

lemma publish_copies_kept:
  assumes "kept q e w" "at (wd_spaces w) n sp" "at (wd_spaces w) m src" "m \<noteq> n" "sp_home sp = sp_home src"
    and "\<forall>x \<in> set ps. mp_space x = n \<and> (\<exists>y \<in> set (sp_maps src). mp_authority y = mp_authority x \<and> mp_segment y = mp_segment x)"
  shows "\<exists>r t. publish_copies e n ps w = (r, t) \<and> kept q e t \<and> wd_pending t = wd_pending w
     \<and> (\<exists>sq. at (wd_spaces t) n sq \<and> sp_references sq = sp_references sp)"
  using assms
proof (induction e n ps w arbitrary: sp rule: publish_copies.induct)
  case (1 e n w)
  thus ?case by auto
next
  case (2 e n p ps w)
  let ?a = "mp_authority p"
  let ?s = "authority w ?a"
  obtain r t where run: "on_db (shm_transaction e ?s (count_copies ?a (au_owner ?s) (sp_id (shm_space_at w n)) (p # ps))) w = (r, t)" by fastforce
  have p: "p \<in> set (p # ps)" by simp
  note one = publish_one [OF "2.prems"(1-3,5,6) p run]
  show ?case
  proof (cases r)
    case (Inl er)
    thus ?thesis using one(1,2) run "2.prems"(2) by (auto simp: Let_def)
  next
    case (Inr x)
    let ?ps = "filter (\<lambda>y. mp_authority y \<noteq> ?a) (p # ps)" and ?v = "publish_maps n ?a (p # ps) t"
    let ?sp = "sp\<lparr>sp_maps := rev (filter (uses ?a) (p # ps)) @ sp_maps sp\<rparr>"
    have v: "wd_spaces ?v = (wd_spaces w)[n := Some ?sp]" "wd_pending ?v = wd_pending w" "kept q e ?v"
      using one(3-5) Inr by blast+
    have "at (wd_spaces ?v) n ?sp" "at (wd_spaces ?v) m src"
      using "2.prems"(2-4) unfolding v(1) by (simp_all add: at_def)
    hence "\<exists>r' u. publish_copies e n ?ps ?v = (r', u) \<and> kept q e u \<and> wd_pending u = wd_pending ?v
        \<and> (\<exists>sq. at (wd_spaces u) n sq \<and> sp_references sq = sp_references ?sp)"
      using "2.prems"(4-6) v(3) run Inr by (intro "2.IH") auto
    thus ?thesis using run Inr v(2) by (simp add: Let_def del: publish_maps.simps)
  qed
qed

lemma copy_maps_rest:
  assumes "at_rest L q N d" "copy_maps n ps acc d = (r, t)"
  shows "at_rest L q N t" "r = Inr xs \<Longrightarrow> xs = rev (map (\<lambda>p. p\<lparr>mp_space := n\<rparr>) ps) @ acc"
proof -
  have "at_rest L q N t \<and> (\<forall>xs. r = Inr xs \<longrightarrow> xs = rev (map (\<lambda>p. p\<lparr>mp_space := n\<rparr>) ps) @ acc)"
    using assms
  proof (induction ps arbitrary: acc d)
    case (Cons p ps)
    obtain r0 u where a: "sh_answer d = (r0, u)" by fastforce
    have u: "at_rest L q N u"
      using Cons.prems(1) a by (auto simp: sh_answer_def at_rest_def settled_faults split: list.splits option.splits)
    show ?case using Cons.IH [OF u, of "p\<lparr>mp_space := n\<rparr> # acc"] Cons.prems(2) a u by (auto simp: sh_then_def split: sum.splits)
  qed (auto simp: sh_return_def)
  thus "at_rest L q N t" "r = Inr xs \<Longrightarrow> xs = rev (map (\<lambda>p. p\<lparr>mp_space := n\<rparr>) ps) @ acc" by auto
qed

lemma fork_kept:
  assumes "kept q e w" "at (wd_spaces w) m src" "\<not> shared \<Longrightarrow> wd_next w (sp_home src) < wd_next w (sp_home src) + 1"
  shows "kept q e (snd (md_shm_space_fork e m shared w))"
proof (cases shared)
  case True
  thus ?thesis using put_shm_space_kept [OF assms(1,2)] at_get(1) [OF assms(2)] by (simp add: md_shm_space_fork_def)
next
  case False
  obtain r t where new: "md_shm_space_new (sp_home src) w = (r, t)" by fastforce
  note made = new_space_kept [OF assms(1) assms(3) [OF False] new]
  show ?thesis
  proof (cases r)
    case None
    thus ?thesis using False new made(1) at_get(1) [OF assms(2)] by (simp add: md_shm_space_fork_def)
  next
    case (Some n)
    obtain sp where sp: "wd_spaces t = wd_spaces w @ [Some sp]" "sp_maps sp = []" "sp_home sp = sp_home src" "sp_references sp = 1"
      "n = length (wd_spaces w)" "unclaimed n t" using made(3) [OF Some] by auto
    have at: "at (wd_spaces t) n sp" "at (wd_spaces t) m src" "m \<noteq> n" using sp(1,5) assms(2) by (auto simp: at_def nth_append)
    let ?sp = "sp\<lparr>sp_used := sp_used src\<rparr>"
    let ?u = "put_shm_space n (Some ?sp) t"
    have u: "kept q e ?u" by (rule put_shm_space_kept [OF made(1) at(1)]) simp_all
    have at': "at (wd_spaces ?u) n ?sp" "at (wd_spaces ?u) m src" "unclaimed n ?u"
      using at sp(6) by (auto simp: put_shm_space_def at_def unclaimed_def)
    obtain N where N: "world_inv q {} N ?u" "env_ok q e ?u" using u by (auto simp: kept_def)
    obtain r1 d where copy: "copy_maps n (sp_maps src) [] (wd_db ?u) = (r1, d)" by fastforce
    have "at_rest (live_owners ?u) q N (wd_db ?u)" using N(1) by (simp add: world_inv_def)
    note copied = copy_maps_rest [OF this copy]
    have v: "kept q e (?u\<lparr>wd_db := d\<rparr>)" using inv_db [OF N(1) copied(1)] N(2) by (auto intro: keptI)
    have at'': "at (wd_spaces (?u\<lparr>wd_db := d\<rparr>)) n ?sp" "at (wd_spaces (?u\<lparr>wd_db := d\<rparr>)) m src" "unclaimed n (?u\<lparr>wd_db := d\<rparr>)"
      using at' by (simp_all add: unclaimed_def)
    have head: "md_shm_space_fork e m shared w = (case r1 of
        Inl _ \<Rightarrow> (None, snd (md_shm_space_release e (Some n) (?u\<lparr>wd_db := d\<rparr>)))
      | Inr pending \<Rightarrow> (case publish_copies e n pending (?u\<lparr>wd_db := d\<rparr>) of
           (Inl _, x) \<Rightarrow> (None, snd (md_shm_space_release e (Some n) x)) | (Inr _, x) \<Rightarrow> (Some n, x)))"
      using False new Some copy at_get(1) [OF assms(2)] at_get(1) [OF at(1)] at_get(1) [OF at(2)] at_get(1) [OF at'(2)]
      by (simp add: md_shm_space_fork_def on_db_def Let_def split: sum.splits)
    show ?thesis
    proof (cases r1)
      case Inl
      thus ?thesis using release_kept [OF v at''(1)] at''(3) sp(4) head by simp
    next
      case (Inr xs)
      have xs: "xs = rev (map (\<lambda>p. p\<lparr>mp_space := n\<rparr>) (sp_maps src))" using copied(2) [OF Inr] by simp
      have "\<exists>r t. publish_copies e n xs (?u\<lparr>wd_db := d\<rparr>) = (r, t) \<and> kept q e t \<and> wd_pending t = wd_pending (?u\<lparr>wd_db := d\<rparr>)
         \<and> (\<exists>sq. at (wd_spaces t) n sq \<and> sp_references sq = sp_references ?sp)"
        by (rule publish_copies_kept [OF v at''(1,2) at(3)]) (use sp(3) xs in auto)
      then obtain r2 x sq where x: "publish_copies e n xs (?u\<lparr>wd_db := d\<rparr>) = (r2, x)" "kept q e x"
        "wd_pending x = wd_pending (?u\<lparr>wd_db := d\<rparr>)" "at (wd_spaces x) n sq" "sp_references sq = 1" using sp(4) by auto
      have "unclaimed n x" using x(3) at''(3) by (simp add: unclaimed_def)
      thus ?thesis using release_kept [OF x(2,4)] x(1,2,5) head Inr by (auto split: sum.splits)
    qed
  qed
qed

subsection \<open>Unmapping\<close>

lemma remains_same:
  "x \<in> set (remains lo hi p) \<Longrightarrow> mp_space x = mp_space p \<and> mp_authority x = mp_authority p \<and> mp_segment x = mp_segment p"
  by (auto simp: remains_def Let_def split: if_splits)

lemma cnt_remains:
  "cnt (uses b) (remains lo hi p) = (if uses b p then (if splits lo hi p then 2 else if inside lo hi p then 0 else 1) else 0)"
  "cnt (key b m g) (remains lo hi p) = (if key b m g p then (if splits lo hi p then 2 else if inside lo hi p then 0 else 1) else 0)"
  by (simp_all add: remains_def Let_def)

definition unmap_delta :: "u64 \<Rightarrow> u64 \<Rightarrow> shm_mapping \<Rightarrow> int" where
  "unmap_delta lo hi p = (if splits lo hi p then 1 else if inside lo hi p then - 1 else 0)"

lemma tx_unmap_count:
  assumes "au_owner s \<in> L" "mp_segment p \<in> S"
  shows "in_tx L B q N S (unmap_count e s space lo hi pid process p) (\<lambda>_. mid L B q (ref_bump L (au_owner s) space (mp_segment p) (unmap_delta lo hi p) N) S)"
proof -
  have zero: "ref_bump L (au_owner s) space (mp_segment p) 0 N = N" by (simp add: ref_bump_def fun_eq_iff)
  show ?thesis
    unfolding unmap_count_def unmap_delta_def
    using run_then [OF steady_answer tx_refs [OF assms(1)], of 1 "mp_segment p" S] assms(2) tx_detach [OF assms(1)] zero
    by (simp add: steady_basic)
qed

text \<open>Once the count is adjusted, the mapping may be cut.\<close>

lemma trimmed_inv:
  fixes lo hi :: u64
  assumes w: "world_inv q {} N w" and sp: "at (wd_spaces w) m sp" "sp_maps sp = walked @ p # rest"
    and s: "at (wd_authorities w) (mp_authority p) s" "sp_home sp = au_home s"
  defines "M \<equiv> ref_bump (live_owners w) (au_owner s) (sp_id sp) (mp_segment p) (unmap_delta lo hi p) N"
  assumes rest: "at_rest (live_owners w) q M d"
  shows "world_inv q {} M (set_maps m (walked @ remains lo hi p @ rest) ((md_shm_retain (mp_authority p) ^^ (if splits lo hi p then 1 else 0)) (w\<lparr>wd_db := d\<rparr>)))"
proof (rule maps_inv [OF w sp(1) s(1)])
  let ?maps = "walked @ remains lo hi p @ rest"
  have wf: "world_wf w" using w by (simp add: world_inv_def)
  have p: "p \<in> all_maps w" "mp_space p = m" using space_in_all [OF sp(1)] wfD(1) [OF wf sp(1)] sp(2) by auto
  show "mp_space x = m \<and> placed w x" if x: "x \<in> set ?maps" for x
  proof (cases "x \<in> set (remains lo hi p)")
    case True
    show ?thesis using wfD(2) [OF wf p(1)] remains_same [OF True] p(2) by (simp add: placed_def)
  next
    case False
    hence "x \<in> set (sp_maps sp)" using x sp(2) by auto
    thus ?thesis using wfD(1) [OF wf sp(1)] wfD(2) [OF wf] space_in_all [OF sp(1)] by blast
  qed
  show "cnt (uses (mp_authority p)) ?maps \<le> (if splits lo hi p then 1 else 0) + cnt (uses (mp_authority p)) (sp_maps sp)"
    by (simp add: sp(2) cnt_remains)
  show "cnt (uses b) ?maps = cnt (uses b) (sp_maps sp)" if "b \<noteq> mp_authority p" for b using that by (simp add: sp(2) cnt_remains)
  show "at_rest (live_owners w) q M d" by fact
  show "M l k g = N l k g" if "at (auth_frame w) b (l, h)" "(k, h) \<noteq> (sp_id sp, sp_home sp)" for b l h k g
    using bump_key(3) [OF wf s(1) sp(1) s(2) that(1)] that(2) by (simp add: M_def)
  show "moves q (M l (sp_id sp) g - N l (sp_id sp) g) (int (cnt (key b m g) ?maps) - int (cnt (key b m g) (sp_maps sp)))"
    if "at (auth_frame w) b (l, sp_home sp)" for b l g
  proof -
    have "at (space_frame w) m (sp_id sp, sp_home sp)" using sp(1) by (auto simp: frame_at)
    from bump_key(1) [OF wf s(1) sp(1) s(2) that this, of "mp_segment p" "unmap_delta lo hi p" N g]
    show ?thesis using p(2) by (auto simp: sp(2) cnt_remains moves_def unmap_delta_def M_def)
  qed
qed

text \<open>
  A deletion that fails after the commit leaves the mapping although its count is lowered: until its
  supervisor ends, the counts of one authority in one space promise nothing.
\<close>

definition torn :: "trouble \<Rightarrow> nat \<Rightarrow> shm_world \<Rightarrow> bool" where
  "torn q h w \<longleftrightarrow> q = Any_Call \<and> (\<exists>N a s m. world_inv q {(a, m)} N w \<and> at (wd_authorities w) a s \<and> au_home s = h)"

lemma trimmed_torn:
  assumes w: "world_inv Any_Call {} N w" and sp: "at (wd_spaces w) m sp" "p \<in> set (sp_maps sp)"
    and s: "at (wd_authorities w) (mp_authority p) s" "sp_home sp = au_home s"
    and rest: "at_rest (live_owners w) Any_Call (ref_bump (live_owners w) (au_owner s) (sp_id sp) (mp_segment p) (unmap_delta lo hi p) N) d"
  shows "torn Any_Call (sp_home sp) (w\<lparr>wd_db := d\<rparr>)"
proof -
  let ?a = "mp_authority p" and ?M = "ref_bump (live_owners w) (au_owner s) (sp_id sp) (mp_segment p) (unmap_delta lo hi p) N"
  have wf: "world_wf w" and c: "counts_fit Any_Call {} N (auth_frame w) (space_frame w) (tally w)" using w by (simp_all add: world_inv_def)
  note key = bump_key [OF wf s(1) sp(1) s(2), where delta = "unmap_delta lo hi p" and g = "mp_segment p" and N = N]
  have one: "0 < tally w ?a m (mp_segment p)"
    using space_in_all [OF sp] wfD(1) [OF wf sp] by (intro mapped_positive) auto
  have "world_inv Any_Call {(?a, m)} ?M (w\<lparr>wd_db := d\<rparr>)"
  proof (rule open_hole [OF w rest])
    show "?M l k g = N l k g" if "at (auth_frame w) b (l, h)" "at (space_frame w) n (k, h)" "(b, n) \<noteq> (?a, m)" for b l h n k g
      using key(1) [OF that(1,2), of g] that(3) by auto
    show "?M l k g = N l k g" if "at (auth_frame w) b (l, h)" "\<And>n. \<not> at (space_frame w) n (k, h)" for b l h k g
      using key(2) [OF that(1)] that(2) by blast
    show "fits Any_Call (?M l k g) 0" if "at (auth_frame w) ?a (l, h)" "at (space_frame w) m (k, h)" for l h k g
    proof -
      have "fits Any_Call (N l k g) (tally w ?a m g)" using countsD [OF c that(1), of g] that(2) by simp
      moreover have "?M l k g = N l k g + (if g = mp_segment p then unmap_delta lo hi p else 0)" using key(1) [OF that, of g] by simp
      ultimately show ?thesis using one by (auto simp: fits_def unmap_delta_def)
    qed
  qed
  moreover have "at (wd_authorities (w\<lparr>wd_db := d\<rparr>)) ?a s" "au_home s = sp_home sp" using s by simp_all
  ultimately show ?thesis unfolding torn_def by blast
qed

lemma unmap_one:
  assumes "kept q e w" "at (wd_spaces w) m sp" "sp_maps sp = walked @ p # rest"
  defines "a \<equiv> mp_authority p"
  defines "s \<equiv> authority w a"
  assumes run: "on_db (shm_transaction e s (unmap_count e s (sp_id (shm_space_at w m)) lo hi pid process p)) w = (r, t)"
  defines "u \<equiv> set_maps m (walked @ remains lo hi p @ rest) t"
  defines "v \<equiv> (if splits lo hi p then md_shm_retain a u else if inside lo hi p then md_shm_close e a u else u)"
  shows "r = Inl er \<Longrightarrow> kept q e t \<or> torn q (sp_home sp) t" "r = Inr x \<Longrightarrow> kept q e v"
    "at (wd_spaces v) m (sp\<lparr>sp_maps := walked @ remains lo hi p @ rest\<rparr>)"
proof -
  obtain N where w: "world_inv q {} N w" "env_ok q e w" using assms(1) by (auto simp: kept_def)
  have wf: "world_wf w" using w(1) by (simp add: world_inv_def)
  have p: "p \<in> all_maps w" "mp_space p = m" using space_in_all [OF assms(2)] wfD(1) [OF wf assms(2)] assms(3) by auto
  obtain s' sp' where sp': "at (wd_authorities w) a s'" "at (wd_spaces w) m sp'" "sp_home sp' = au_home s'"
    using wfD(2) [OF wf p(1)] p(2) unfolding a_def by (auto elim!: placedD)
  have s: "at (wd_authorities w) a s" "sp_home sp = au_home s"
    using sp' at_unique [OF assms(2) sp'(2)] at_get(2) [OF sp'(1)] by (auto simp: s_def)
  let ?L = "live_owners w" and ?k = "sp_id sp" and ?g = "mp_segment p" and ?S = "{g. \<exists>l k. 0 < N l k g}"
  let ?N = "ref_bump ?L (au_owner s) ?k ?g (unmap_delta lo hi p) N" and ?maps = "walked @ remains lo hi p @ rest"
  have tx: "in_tx ?L B q N {} (unmap_count e s ?k lo hi pid process p) (\<lambda>_. mid ?L B q ?N ?S)" for B
    by (rule tx_positive, unfold Un_empty_left, rule tx_unmap_count [OF live_owner [OF s(1)]]) (use positive_count [OF w(1) p(1)] in simp)
  have run': "on_db (shm_transaction e s (unmap_count e s ?k lo hi pid process p)) w = (r, t)" using run at_get(1) [OF assms(2)] by simp
  obtain d where d: "t = w\<lparr>wd_db := d\<rparr>"
    "case r of Inl _ \<Rightarrow> at_rest ?L q N d \<or> q = Any_Call \<and> at_rest ?L q ?N d | Inr _ \<Rightarrow> at_rest ?L q ?N d"
    by (rule world_change [OF w tx run'])
  show "kept q e t \<or> torn q (sp_home sp) t" if "r = Inl er"
    using that d inv_db [OF w(1), of d] keptI [of q N t e] w trimmed_torn [of N w m sp p s lo hi d] assms(2,3) s
    unfolding a_def by auto
  define c :: nat where "c = (if splits lo hi p then 1 else 0)"
  let ?u = "set_maps m ?maps ((md_shm_retain a ^^ c) t)"
  have inv: "world_inv q {} ?N ?u" if "at_rest ?L q ?N d"
    using trimmed_inv [OF w(1) assms(2,3) _ s(2), of lo hi d] s(1) that unfolding a_def d(1) c_def by simp
  have at: "at (wd_spaces t) m sp" "at (wd_authorities t) a s" using assms(2) s(1) d(1) by simp_all
  have swap: "md_shm_retain a u = set_maps m ?maps (md_shm_retain a t)"
    by (simp add: u_def md_shm_retain_def set_maps_def put_authority_def put_shm_space_def authority_def shm_space_at_def)
  have mid: "(if splits lo hi p then md_shm_retain a u else u) = ?u" using swap by (simp add: c_def u_def)
  note parts = set_maps_parts [OF at(1), where maps = ?maps]
  have "env_ok q e u" using w(2) parts(1,2) d(1) by (simp add: u_def env_ok_def live_owners_def)
  moreover have "env_ok q e (md_shm_retain a u)"
    using calculation frames_determine(3) [OF retain_parts(1,2) [of u a s]] at(2) parts(5) by (simp add: u_def)
  ultimately have kept: "kept q e (if splits lo hi p then md_shm_retain a u else u)" if "r = Inr x"
    using inv d(2) that unfolding mid by (auto intro!: keptI simp: mid [symmetric])
  show "kept q e v" if "r = Inr x"
  proof (cases "\<not> splits lo hi p \<and> inside lo hi p")
    case True
    have a: "at (wd_authorities u) a s" using at(2) parts(5) by (simp add: u_def)
    have "mapped (uses a) u < mapped (uses a) w"
      using parts(3) [of "uses a"] True d(1) by (simp add: u_def assms(3) cnt_remains a_def)
    hence "mapped (uses a) u < au_references s" using wfD(3) [OF wf s(1)] by simp
    from kept_close [OF _ a this] kept [OF that] True show ?thesis by (simp add: v_def)
  next
    case False
    thus ?thesis using kept [OF that] by (auto simp: v_def)
  qed
  have "wd_spaces v = wd_spaces u"
    using retain_parts(6) [of u a s] at(2) parts(5) by (simp add: v_def close_frames u_def)
  thus "at (wd_spaces v) m (sp\<lparr>sp_maps := ?maps\<rparr>)" using parts(9) at(1) by (simp add: u_def at_def)
qed

lemma unmap_each_kept:
  assumes "kept q e w" "at (wd_spaces w) m sp" "sp_maps sp = walked @ rest"
  shows "kept q e (snd (unmap_each e m lo hi pid process walked rest w)) \<or> torn q (sp_home sp) (snd (unmap_each e m lo hi pid process walked rest w))"
  using assms
proof (induction rest arbitrary: walked w sp)
  case (Cons p rest)
  show ?case
  proof (cases "mp_address p \<ge> hi \<or> mp_address p + mp_size p \<le> lo")
    case True
    thus ?thesis using Cons.IH [OF Cons.prems(1,2), of "walked @ [p]"] Cons.prems(3) by simp
  next
    case False
    let ?a = "mp_authority p"
    let ?s = "authority w ?a"
    obtain r t where run: "on_db (shm_transaction e ?s (unmap_count e ?s (sp_id (shm_space_at w m)) lo hi pid process p)) w = (r, t)" by fastforce
    note one = unmap_one [OF Cons.prems run]
    show ?thesis
    proof (cases r)
      case (Inl er)
      thus ?thesis using False run one(1) by (simp add: Let_def)
    next
      case (Inr x)
      show ?thesis using Cons.IH [OF one(2) [OF Inr] one(3)] False run Inr by (simp add: Let_def)
    qed
  qed
qed simp

lemma unmapped_cases:
  assumes "kept q e w" "at (wd_spaces w) m sp"
  shows "kept q e (snd (md_shm_unmapped e m address bytes pid process w)) \<or> torn q (sp_home sp) (snd (md_shm_unmapped e m address bytes pid process w))"
  using unmap_each_kept [OF assms, of "[]" "sp_maps sp"] assms at_get(1) [OF assms(2)] by (simp add: md_shm_unmapped_def)

lemma unmapped_kept:
  "kept q e w \<Longrightarrow> at (wd_spaces w) m sp \<Longrightarrow> q \<noteq> Any_Call \<Longrightarrow> kept q e (snd (md_shm_unmapped e m address bytes pid process w))"
  using unmapped_cases [of q e w m sp] by (auto simp: torn_def)

subsection \<open>Calls\<close>

lemma rest_view: "at_rest L q N d \<Longrightarrow> N = view L (db_tables d)"
  by (simp add: at_rest_def settled_def)

text \<open>The space remembers that it was used.\<close>

definition used_world :: "bool \<Rightarrow> nat \<Rightarrow> shm_world \<Rightarrow> shm_world" where
  "used_world b m w = (if b then put_shm_space m (Some ((shm_space_at w m)\<lparr>sp_used := True\<rparr>)) w else w)"

lemma used_world_db: "used_world b m (w\<lparr>wd_db := d\<rparr>) = (used_world b m w)\<lparr>wd_db := d\<rparr>"
  by (simp add: used_world_def put_shm_space_def)

lemma used_world_parts:
  assumes "at (wd_spaces w) m sp"
  shows "auth_frame (used_world b m w) = auth_frame w" "space_frame (used_world b m w) = space_frame w"
    "mapped P (used_world b m w) = mapped P w" "all_maps (used_world b m w) = all_maps w"
    "wd_authorities (used_world b m w) = wd_authorities w" "wd_pending (used_world b m w) = wd_pending w" "wd_db (used_world b m w) = wd_db w"
    "\<exists>sq. at (wd_spaces (used_world b m w)) m sq \<and> sp_id sq = sp_id sp \<and> sp_home sq = sp_home sp"
  using put_shm_space_parts [OF assms, of "sp\<lparr>sp_used := True\<rparr>"] at_get(1) [OF assms] assms
  by (auto simp: used_world_def put_shm_space_def at_def)

lemma used_world_inv:
  assumes "world_inv q {} N w" "env_ok q e w" "at (wd_spaces w) m sp"
  shows "world_inv q {} N (used_world b m w)"
proof (cases b)
  case True
  let ?w = "put_shm_space m (Some (sp\<lparr>sp_used := True\<rparr>)) w"
  have "kept q e ?w" by (rule put_shm_space_kept [OF keptI [OF assms(1,2)] assms(3)]) simp_all
  then obtain N' where N': "world_inv q {} N' ?w" by (auto simp: kept_def)
  have "live_owners ?w = live_owners w" "wd_db ?w = wd_db w" by (simp_all add: put_shm_space_def live_owners_def auth_frame_def)
  hence "at_rest (live_owners w) q N' (wd_db w)" "at_rest (live_owners w) q N (wd_db w)" using N' assms(1) by (simp_all add: world_inv_def)
  hence "N' = N" using rest_view by metis
  thus ?thesis using N' True at_get(1) [OF assms(3)] by (simp add: used_world_def)
next
  case False
  thus ?thesis using assms(1) by (simp add: used_world_def)
qed

text \<open>What an attachment does: the outcome of its transaction and the world it leaves.\<close>

lemma open_segment_cases:
  assumes "world_inv q {} N w" "env_ok q e w" "at (wd_authorities w) a s" "at (wd_spaces w) m sp" "sp_home sp = au_home s"
    "i < length (wd_pending w)"
  obtains (refused) d where "at_rest (live_owners w) q N d" "snd (shm_open_segment e a m i v pid process g flags w) = w\<lparr>wd_db := d\<rparr>"
    | (failed) d b where "at_rest (live_owners w) q N d \<or> q = Any_Call \<and> at_rest (live_owners w) q (ref_bump (live_owners w) (au_owner s) (sp_id sp) g 1 N) d"
        "snd (shm_open_segment e a m i v pid process g flags w) = put_pending i None (used_world b m (w\<lparr>wd_db := d\<rparr>))"
    | (attached) d bytes where "at_rest (live_owners w) q (ref_bump (live_owners w) (au_owner s) (sp_id sp) g 1 N) d"
        "snd (shm_open_segment e a m i v pid process g flags w) = md_shm_retain a (put_pending i
          (Some \<lparr>mp_space = m, mp_authority = a, mp_segment = g, mp_address = 0, mp_base = 0, mp_size = bytes\<rparr>) (used_world True m (w\<lparr>wd_db := d\<rparr>)))"
proof -
  let ?L = "live_owners w" and ?B = "db_tables (wd_db w)"
  have rest: "at_rest ?L q N (wd_db w)" and leases: "leases_held e ?L" using assms(1,2) by (simp_all add: world_inv_def env_ok_def)
  have B: "view ?L ?B = N" using rest_view [OF rest] by simp
  note auth = at_get(2) [OF assms(3)] and space = at_get(1) [OF assms(4)]
  obtain r1 d1 where b: "shm_begin e s (wd_db w) = (r1, d1)" by fastforce
  note start = begin_ok [OF rest leases, of s, unfolded b]
  show thesis
  proof (cases r1)
    case (Inl er)
    show thesis by (rule refused [of d1]) (use start b Inl auth in \<open>simp_all add: shm_open_segment_def on_db_def\<close>)
  next
    case Inr1: (Inr x1)
    have d1: "mid ?L ?B q N {} d1" using start Inr1 by simp
    obtain r2 d2 where load: "shm_load_live s g d1 = (r2, d2)" by fastforce
    note loaded = run_okD [OF tx_load_live d1, of g s, unfolded load]
    show thesis
    proof (cases r2)
      case (Inl er)
      obtain r3 d3 where f: "shm_finish (Inl er :: u64 result) d2 = (r3, d3)" by fastforce
      have "failed ?L ?B q d2" using loaded Inl by simp
      hence "at_rest ?L q N d3" using finish_ok [where r = "Inl er :: u64 result" and L = ?L and B = ?B and q = q and d = d2 and N = "\<lambda>_. N"] f B by (cases r3) auto
      hence "at_rest ?L q N d3 \<or> q = Any_Call \<and> at_rest ?L q (ref_bump ?L (au_owner s) (sp_id sp) g 1 N) d3" ..
      thus thesis by (rule failed [of d3 False]) (use b Inr1 load Inl f auth in \<open>simp add: shm_open_segment_def on_db_def used_world_def\<close>)
    next
      case (Inr st)
      have d2: "mid ?L ?B q N (insert g {}) d2" using loaded Inr by simp
      let ?busy = "wd_pending w ! i \<noteq> None" and ?N = "ref_bump ?L (au_owner s) (sp_id sp) g 1 N"
      obtain r3 d3 where att: "shm_attach e s (sp_id sp) v pid process g flags ?busy st d2 = (r3, d3)" by fastforce
      have tx: "in_tx ?L ?B q N (insert g {}) (shm_attach e s (sp_id sp) v pid process g flags ?busy st) (\<lambda>_. mid ?L ?B q ?N (insert g {}))"
        by (rule tx_attach) (use live_owner [OF assms(3)] in auto)
      have d3: "case r3 of Inl _ \<Rightarrow> failed ?L ?B q d3 | Inr x \<Rightarrow> mid ?L ?B q ?N (insert g {}) d3"
        using run_okD [OF tx d2] att by simp
      obtain r4 d4 where f: "shm_finish r3 d3 = (r4, d4)" by fastforce
      have fin: "case r4 of Inl _ \<Rightarrow> at_rest ?L q N d4 \<or> q = Any_Call \<and> at_rest ?L q ?N d4 | Inr _ \<Rightarrow> at_rest ?L q ?N d4"
        using finish_ok [OF d3] f B by (auto split: sum.splits)
      have used: "put_shm_space m (Some (sp\<lparr>sp_used := True\<rparr>)) (w\<lparr>wd_db := d\<rparr>) = used_world True m (w\<lparr>wd_db := d\<rparr>)" for d
        using space by (simp add: used_world_def)
      have move: "(used_world True m (w\<lparr>wd_db := c\<rparr>))\<lparr>wd_db := d\<rparr> = used_world True m (w\<lparr>wd_db := d\<rparr>)"
        "wd_db (used_world True m (w\<lparr>wd_db := c\<rparr>)) = c" for c d
        by (simp_all add: used_world_db)
      have head: "snd (shm_open_segment e a m i v pid process g flags w) =
        (case r4 of Inl _ \<Rightarrow> put_pending i None (used_world True m (w\<lparr>wd_db := d4\<rparr>))
         | Inr bytes \<Rightarrow> md_shm_retain a (put_pending i
          (Some \<lparr>mp_space = m, mp_authority = a, mp_segment = g, mp_address = 0, mp_base = 0, mp_size = bytes\<rparr>) (used_world True m (w\<lparr>wd_db := d4\<rparr>))))"
        using b Inr1 load Inr att f auth space used
        by (simp add: shm_open_segment_def on_db_def Let_def move split: sum.splits)
      show thesis
      proof (cases r4)
        case (Inl er)
        show thesis by (rule failed [of d4 True]) (use fin head Inl in simp_all)
      next
        case (Inr bytes)
        show thesis by (rule attached [of d4 bytes]) (use fin head Inr in simp_all)
      qed
    qed
  qed
qed

lemma open_segment_kept:
  assumes "kept q e w" "at (wd_authorities w) a s" "at (wd_spaces w) m sp" "sp_home sp = au_home s" "i < length (wd_pending w)"
    "q = No_Call \<longrightarrow> wd_pending w ! i = None"
  shows "kept q e (snd (shm_open_segment e a m i v pid process g flags w))"
proof -
  obtain N where w: "world_inv q {} N w" "env_ok q e w" using assms(1) by (auto simp: kept_def)
  have wf: "world_wf w" using w(1) by (simp add: world_inv_def)
  show ?thesis
    using w assms(2-5)
  proof (cases rule: open_segment_cases [where v = v and pid = pid and process = process and g = g and flags = flags])
    case (refused d)
    thus ?thesis using inv_db [OF w(1)] w(2) by (auto intro!: keptI)
  next
    case (failed d b)
    let ?w = "used_world b m w"
    note parts = used_world_parts [OF assms(3), where b = b]
    have owners: "live_owners ?w = live_owners w" by (simp add: live_owners_def parts)
    have more: "N l k g' \<le> ref_bump (live_owners w) (au_owner s) (sp_id sp) g 1 N l k g'" for l k g' by (simp add: ref_bump_def)
    note used = used_world_inv [OF w assms(3), of b]
    obtain M where M: "world_inv q {} M (?w\<lparr>wd_db := d\<rparr>)"
      using failed(1) inv_db [OF used, of d] inv_raise [OF used _ _ more, of d] owners by auto
    have "world_inv q {} M (put_pending i None (?w\<lparr>wd_db := d\<rparr>\<lparr>wd_db := d\<rparr>))"
    proof (rule slot_inv [OF M])
      show "mapped (uses b') (?w\<lparr>wd_db := d\<rparr>) + cnt (uses b') (slot_maps None) \<le> au_references x + cnt (uses b') (slot_maps (wd_pending (?w\<lparr>wd_db := d\<rparr>) ! i))"
        if "at (wd_authorities (?w\<lparr>wd_db := d\<rparr>)) b' x" for b' x using wfD(3) [OF wf, of b' x] that by (simp add: parts)
      show "at_rest (live_owners (?w\<lparr>wd_db := d\<rparr>)) q M d" using M by (simp add: world_inv_def)
    qed (use assms(5,6) in \<open>auto simp: parts moves_def\<close>)
    hence "world_inv q {} M (put_pending i None (?w\<lparr>wd_db := d\<rparr>))" by simp
    moreover have "env_ok q e (put_pending i None (?w\<lparr>wd_db := d\<rparr>))"
      using w(2) put_pending_parts(1) [of i "?w\<lparr>wd_db := d\<rparr>" None] assms(5) by (simp add: env_ok_def live_owners_def parts)
    ultimately show ?thesis unfolding failed(2) used_world_db by (rule keptI)
  next
    case (attached d bytes)
    let ?p = "\<lparr>mp_space = m, mp_authority = a, mp_segment = g, mp_address = 0, mp_base = 0, mp_size = bytes\<rparr>"
    let ?w = "used_world True m w" and ?N = "ref_bump (live_owners w) (au_owner s) (sp_id sp) g 1 N"
    note parts = used_world_parts [OF assms(3), where b = True]
    have a: "at (wd_authorities ?w) a s" using assms(2) by (simp add: parts)
    let ?t = "md_shm_retain a ?w"
    note rp = retain_parts [OF a]
    have inv: "world_inv q {} N ?t" by (rule shm_retain_ok [OF used_world_inv [OF w assms(3)] a])
    have placed: "placed w ?p" using assms(2-4) unfolding placed_def frame_at by auto
    have "world_inv q {} ?N (put_pending i (Some ?p) (?t\<lparr>wd_db := d\<rparr>))"
    proof (rule slot_inv [OF inv])
      show "i < length (wd_pending ?t)" using assms(5) by (simp add: rp parts)
      show "placed ?t p" if "p \<in> set (slot_maps (Some ?p))" for p
        using that placed frames_determine(2) [of ?t w] by (simp add: rp parts)
      show "mapped (uses b) ?t + cnt (uses b) (slot_maps (Some ?p)) \<le> au_references x + cnt (uses b) (slot_maps (wd_pending ?t ! i))"
        if "at (wd_authorities ?t) b x" for b x
        using that wfD(3) [OF wf, of b x] wfD(3) [OF wf assms(2)] by (auto simp: rp parts at_update split: if_splits)
      show "at_rest (live_owners ?t) q ?N d" using attached(1) by (simp add: live_owners_def rp parts)
      show "?N l k g' = N l k g'" if "at (auth_frame ?t) b (l, h)" "\<And>m. \<not> at (space_frame ?t) m (k, h)" for b l h k g'
        using bump_key(2) [OF wf assms(2,3,4)] that by (simp add: rp parts)
      show "moves q (?N l k g' - N l k g') (if (b, n) \<in> {} then 0 else int (cnt (key b n g') (slot_maps (Some ?p))) - int (cnt (key b n g') (slot_maps (wd_pending ?t ! i))))"
        if "at (auth_frame ?t) b (l, h)" "at (space_frame ?t) n (k, h)" for b l h n k g'
        using bump_key(1) [OF wf assms(2,3,4), of b l h n k g 1 N g'] that assms(6) by (auto simp: rp parts moves_def)
    qed
    moreover have "md_shm_retain a (put_pending i (Some ?p) (used_world True m (w\<lparr>wd_db := d\<rparr>))) = put_pending i (Some ?p) (?t\<lparr>wd_db := d\<rparr>)"
      by (simp add: used_world_db md_shm_retain_def put_pending_def put_authority_def authority_def)
    moreover have "env_ok q e (put_pending i (Some ?p) (?t\<lparr>wd_db := d\<rparr>))"
      using w(2) put_pending_parts(1) [of i "?t\<lparr>wd_db := d\<rparr>" "Some ?p"] assms(5) by (simp add: env_ok_def live_owners_def parts rp)
    ultimately show ?thesis unfolding attached(2) by (simp add: keptI)
  qed
qed

lemma attached_kept:
  assumes "kept q e w" "at (wd_spaces w) m sp" "i < length (wd_pending w)" "wd_pending w ! i = Some p" "mp_space p = m"
  shows "kept q e (put_pending i None (set_maps m (p\<lparr>mp_address := x, mp_base := x\<rparr> # sp_maps sp) w))"
proof -
  let ?p = "p\<lparr>mp_address := x, mp_base := x\<rparr>"
  let ?u = "set_maps m (?p # sp_maps sp) w"
  let ?t = "put_pending i None ?u"
  obtain N where w: "world_inv q {} N w" "env_ok q e w" using assms(1) by (auto simp: kept_def)
  have wf: "world_wf w" using w(1) by (simp add: world_inv_def)
  note placed = slot_placed(2) [OF wf assms(3,4)]
  note parts = set_maps_parts [OF assms(2), where maps = "?p # sp_maps sp"]
  have i: "i < length (wd_pending ?u)" using assms(3) by (simp add: parts)
  note pp = put_pending_parts [OF i, where x = None]
  have frames: "auth_frame ?t = auth_frame w" "space_frame ?t = space_frame w" by (simp_all add: parts pp)
  have same: "mapped P ?t = mapped P w" if "P ?p = P p" for P
    using pp(3) [of P] parts(3) [of P] assms(4) that by (simp add: parts(8))
  have "world_wf ?t"
  proof (rule wf_change [OF wf frames])
    show "mp_space y = n" if "at (wd_spaces ?t) n sq" "y \<in> set (sp_maps sq)" for n sq y
      using that wfD(1) [OF wf, of n sq y] wfD(1) [OF wf assms(2), of y] assms(5) by (auto simp: pp parts at_update split: if_splits)
    show "placed w y" if "y \<in> all_maps ?t" for y
    proof -
      have "y \<in> all_maps w \<or> y = ?p" using that pp(4) parts(4) space_in_all [OF assms(2)] by auto
      moreover have "placed w ?p" using placed by (simp add: placed_def)
      ultimately show ?thesis using wfD(2) [OF wf, of y] by blast
    qed
    show "mapped (uses a) ?t \<le> au_references s \<and> 0 < au_references s" if "at (wd_authorities ?t) a s" for a s
      using that wfD(3) [OF wf, of a s] same [of "uses a"] by (simp add: pp parts)
  qed (simp add: pp parts)
  hence "world_inv q {} N ?t"
    using w(1) by (intro inv_change [OF w(1) _ frames]) (simp_all add: pp parts world_inv_def moves_def same)
  thus ?thesis using w(2) frames_determine(3) [OF frames] by (auto intro: keptI)
qed

lemma snd_with_value: "snd (with_value x f) = snd x"
  by (cases x; cases "fst x") (auto simp: with_value_def)

lemma steady_control: "steady L B q N S (shm_control e s v process operation args g)"
  unfolding shm_control_def
proof (rule run_then [OF steady_load(2)])
  show "steady L B q N S (case operation of
      MD_SHM_STAT \<Rightarrow> sh_then (shm_stat e s v process g st) (\<lambda>info. sh_return (0, Some info))
    | MD_SHM_SET \<Rightarrow> sh_then (shm_set e s v g (args ! 1) (args ! 2) st) (\<lambda>_. sh_return (0, None))
    | MD_SHM_REMOVE \<Rightarrow> sh_then (shm_remove e s v g st) (\<lambda>_. sh_return (0, None))
    | _ \<Rightarrow> sh_fail ENOTSUP)" for st
    by (cases operation)
      (simp_all add: steady_basic run_then [OF steady_stat steady_basic(1)] run_then [OF steady_change(1) steady_basic(1)]
        run_then [OF steady_change(2) steady_basic(1)])
qed

lemma call_kept:
  assumes "kept q e w" "at (wd_authorities w) a s" "at (wd_spaces w) m sp" "sp_home sp = au_home s" "i < length (wd_pending w)"
    "q = No_Call \<longrightarrow> operation = MD_SHM_OPEN \<longrightarrow> wd_pending w ! i = None" "operation = MD_SHM_DETACHED \<longrightarrow> q \<noteq> Any_Call"
  shows "kept q e (snd (md_shm_call e a m i v pid process operation args w))"
proof -
  note auth = at_get(2) [OF assms(2)] and space = at_get(1) [OF assms(3)]
  have get: "kept q e (snd (on_db (shm_transaction e s (shm_get e s v pid process key bytes flags)) w))" for key bytes flags
    by (rule kept_steady [OF assms(1) steady_get]) (rule surjective_pairing)
  have control: "kept q e (snd (on_db (shm_transaction e s (shm_control e s v process operation args g)) w))" for g
    by (rule kept_steady [OF assms(1) steady_control]) (rule surjective_pairing)
  show ?thesis
  proof (cases operation)
    case MD_SHM_ATTACHED
    thus ?thesis using assms(1) attached_kept [OF assms(1,3,5)] space by (auto simp: md_shm_call_def Let_def split: option.splits)
  next
    case MD_SHM_DETACHED
    thus ?thesis using assms(1,7) unmapped_kept [OF assms(1,3)] by (auto simp: md_shm_call_def Let_def snd_with_value split: option.splits)
  next
    case MD_SHM_OPEN
    thus ?thesis using open_segment_kept [OF assms(1-5)] assms(6) by (simp add: md_shm_call_def Let_def snd_with_value)
  next
    case MD_SHM_ABORT
    thus ?thesis using abort_kept [OF assms(1,5)] by (simp add: md_shm_call_def Let_def snd_with_value)
  qed (use assms(1) get control auth in \<open>auto simp: md_shm_call_def Let_def snd_with_value split: option.splits\<close>)
qed

subsection \<open>Authorities come, supervisors die\<close>

text \<open>A new authority has an owner of its own and no mappings.\<close>

definition with_authority :: "md_shm \<Rightarrow> shm_db \<Rightarrow> shm_world \<Rightarrow> shm_world" where
  "with_authority s d w = w\<lparr>wd_db := d, wd_authorities := wd_authorities w @ [Some s]\<rparr>"

lemma with_authority_simps [simp]:
  "space_frame (with_authority s d w) = space_frame w" "mapped P (with_authority s d w) = mapped P w"
  "all_maps (with_authority s d w) = all_maps w" "wd_spaces (with_authority s d w) = wd_spaces w"
  "wd_next (with_authority s d w) = wd_next w" "wd_authorities (with_authority s d w) = wd_authorities w @ [Some s]"
  "wd_db (with_authority s d w) = d"
  by (simp_all add: with_authority_def space_frame_def mapped_def all_maps_def)

lemma with_authority_at:
  "at (auth_frame (with_authority s d w)) b y \<longleftrightarrow>
     (if b = length (wd_authorities w) then y = (au_owner s, au_home s) else at (auth_frame w) b y)"
  by (auto simp: with_authority_def auth_frame_def at_append)

lemma authority_bound: "at (auth_frame w) b y \<Longrightarrow> b < length (wd_authorities w)"
  by (simp add: at_def auth_frame_def)

lemma mapping_bound: "world_wf w \<Longrightarrow> p \<in> all_maps w \<Longrightarrow> mp_authority p < length (wd_authorities w)"
  using wfD(2) [of w p] authority_bound by (auto simp: placed_def)

lemma with_authority_owners: "live_owners (with_authority s d w) = insert (au_owner s) (live_owners w)"
proof (intro equalityI subsetI)
  fix l assume "l \<in> live_owners (with_authority s d w)"
  thus "l \<in> insert (au_owner s) (live_owners w)" by (auto simp: live_owners_def with_authority_at split: if_splits)
next
  fix l assume "l \<in> insert (au_owner s) (live_owners w)"
  then consider "l = au_owner s" | a h where "at (auth_frame w) a (l, h)" by (auto simp: live_owners_def)
  hence "\<exists>a h. at (auth_frame (with_authority s d w)) a (l, h)"
  proof cases
    case 1
    thus ?thesis by (intro exI [of _ "length (wd_authorities w)"] exI [of _ "au_home s"]) (simp add: with_authority_at)
  next
    case (2 a h)
    thus ?thesis using authority_bound [OF 2] by (intro exI [of _ a] exI [of _ h]) (simp add: with_authority_at)
  qed
  thus "l \<in> live_owners (with_authority s d w)" by (simp add: live_owners_def)
qed

lemma unborn_mapped:
  assumes "world_wf w" "\<And>p. P p \<Longrightarrow> mp_authority p = length (wd_authorities w)"
  shows "mapped P w = 0"
  using mapping_bound [OF assms(1)] assms(2) by (intro mapped_zero) fastforce

lemma with_authority_wf:
  assumes wf: "world_wf w" and new: "au_owner s \<notin> live_owners w" "au_references s = 1"
  shows "world_wf (with_authority s d w)"
proof (rule wfI)
  let ?t = "with_authority s d w"
  show "mp_space p = n" if "at (wd_spaces ?t) n sq" "p \<in> set (sp_maps sq)" for n sq p using wfD(1) [OF wf] that by simp
  show "placed ?t p" if "p \<in> all_maps ?t" for p
    using wfD(2) [OF wf, of p] that mapping_bound [OF wf, of p] unfolding placed_def with_authority_at by auto
  show "mapped (uses b) ?t \<le> au_references x \<and> 0 < au_references x" if "at (wd_authorities ?t) b x" for b x
    using that wfD(3) [OF wf, of b x] unborn_mapped [OF wf, of "uses b"] new(2) by (auto simp: at_append split: if_splits)
  show "n = n'" if "at (space_frame ?t) n (k, h)" "at (space_frame ?t) n' (k, h)" for n n' k h using wfD(4) [OF wf] that by simp
  show "k \<le> wd_next ?t h" if "at (space_frame ?t) n (k, h)" for n k h using wfD(5) [OF wf] that by simp
  show "b = c" if "at (auth_frame ?t) b (l, h)" "at (auth_frame ?t) c (l, h')" for b c l h h'
  proof -
    have "l \<noteq> au_owner s" if "at (auth_frame w) x (l, y)" for x y using new(1) that by (auto simp: live_owners_def)
    thus ?thesis using that wfD(6) [OF wf, of b l h c h'] by (auto simp: with_authority_at split: if_splits)
  qed
qed

lemma with_authority_inv:
  assumes "world_inv q {} N w" and new: "au_owner s \<notin> live_owners w" "au_references s = 1"
    and "at_rest (insert (au_owner s) (live_owners w)) q N d"
  shows "world_inv q {} N (with_authority s d w)"
proof -
  let ?t = "with_authority s d w"
  have wf: "world_wf w" and rest: "at_rest (live_owners w) q N (wd_db w)"
    and c: "counts_fit q {} N (auth_frame w) (space_frame w) (tally w)" using assms(1) by (simp_all add: world_inv_def)
  have "counts_fit q {} N (auth_frame ?t) (space_frame ?t) (tally ?t)"
    unfolding counts_fit_def with_authority_simps
  proof (intro allI impI)
    fix b l h g assume b: "at (auth_frame ?t) b (l, h)"
    show "(\<forall>m k. at (space_frame w) m (k, h) \<longrightarrow> fits q (N l k g) (if (b, m) \<in> {} then 0 else tally w b m g))
        \<and> (\<forall>k. (\<forall>m. \<not> at (space_frame w) m (k, h)) \<longrightarrow> fits q (N l k g) 0)"
    proof (cases "b = length (wd_authorities w)")
      case True
      hence "l \<notin> live_owners w" using b new(1) by (simp add: with_authority_at)
      hence "N l k g = 0" for k using rest_view [OF rest] by (simp add: view_def)
      moreover have "tally w b m g = 0" for m using True by (intro unborn_mapped [OF wf]) simp
      ultimately show ?thesis by (simp add: fits_def)
    next
      case False
      thus ?thesis using countsD [OF c, of b l h g] b by (simp add: with_authority_at)
    qed
  qed
  thus ?thesis using with_authority_wf [OF wf new] assms(4) by (simp add: world_inv_def with_authority_owners)
qed

lemma open_kept:
  assumes "kept q e w" "rebooted \<longrightarrow> live_owners w = {}"
  shows "\<exists>N. world_inv q {} N (snd (md_shm_open e namespace users home rebooted w))"
proof -
  obtain N where w: "world_inv q {} N w" "env_ok q e w" using assms(1) by (auto simp: kept_def)
  define s where "s = \<lparr>au_owner = en_lease e, au_namespace = namespace, au_users = users, au_references = 1, au_home = home\<rparr>"
  obtain r d where run: "shm_open_database e s rebooted (wd_db w) = (r, d)" by fastforce
  have "at_rest (live_owners w) q N (wd_db w)" "leases_held e (live_owners w)" using w by (simp_all add: world_inv_def env_ok_def)
  note opened = open_database_ok [OF this assms(2) run]
  show ?thesis
  proof (cases r)
    case (Inl er)
    thus ?thesis using run opened inv_db [OF w(1)] by (auto simp: md_shm_open_def on_db_def Let_def s_def)
  next
    case (Inr x)
    have "snd (md_shm_open e namespace users home rebooted w) = with_authority s d w"
      using run Inr by (simp add: md_shm_open_def on_db_def Let_def s_def with_authority_def)
    moreover have "world_inv q {} N (with_authority s d w)"
      by (rule with_authority_inv [OF w(1)]) (use opened Inr in \<open>simp_all add: s_def\<close>)
    ultimately show ?thesis by auto
  qed
qed

text \<open>A supervisor that dies takes its authorities, spaces and pending attachments with it.\<close>

definition survivor :: "('a \<Rightarrow> nat) \<Rightarrow> nat \<Rightarrow> 'a option \<Rightarrow> 'a option" where
  "survivor home h x = (if map_option home x = Some h then None else x)"

definition crash :: "nat \<Rightarrow> shm_world \<Rightarrow> shm_world" where
  "crash h w = w\<lparr>
     wd_authorities := map (survivor au_home h) (wd_authorities w),
     wd_spaces := map (survivor sp_home h) (wd_spaces w),
     wd_pending := map (survivor (\<lambda>p. au_home (authority w (mp_authority p))) h) (wd_pending w)\<rparr>"

lemma at_cut: "at (map (survivor f h) xs) i y \<longleftrightarrow> at xs i y \<and> f y \<noteq> h"
  by (cases "i < length xs"; cases "xs ! i") (auto simp: at_def survivor_def)

abbreviation home_of :: "shm_world \<Rightarrow> shm_mapping \<Rightarrow> nat" where
  "home_of w p \<equiv> au_home (authority w (mp_authority p))"

lemma crash_at:
  "at (auth_frame (crash h w)) a (l, k) \<longleftrightarrow> at (auth_frame w) a (l, k) \<and> k \<noteq> h"
  "at (space_frame (crash h w)) m (j, k) \<longleftrightarrow> at (space_frame w) m (j, k) \<and> k \<noteq> h"
  by (auto simp: frame_at crash_def at_cut)

lemma mapping_home:
  "world_wf w \<Longrightarrow> p \<in> all_maps w \<Longrightarrow>
     \<exists>l j. at (auth_frame w) (mp_authority p) (l, home_of w p) \<and> at (space_frame w) (mp_space p) (j, home_of w p)"
  using wfD(2) [of w p] by (auto elim!: placedD simp: frame_at at_get)

lemma space_home:
  assumes "world_wf w" "at (wd_spaces w) m sp" "p \<in> set (sp_maps sp)"
  shows "home_of w p = sp_home sp"
proof -
  have "mp_space p = m" using wfD(1) [OF assms] .
  thus ?thesis using mapping_home [OF assms(1) space_in_all [OF assms(2,3)]] assms(2) by (auto simp: frame_at dest: at_unique)
qed

text \<open>Mappings of other supervisors survive, and no other does.\<close>

lemma crash_mapped:
  assumes "world_wf w" and far: "\<And>p. p \<in> all_maps w \<Longrightarrow> P p \<Longrightarrow> home_of w p \<noteq> h"
  shows "mapped P (crash h w) = mapped P w"
proof -
  have one: "cnt P (space_maps (survivor sp_home h x)) = cnt P (space_maps x)" if x: "x \<in> set (wd_spaces w)" for x
  proof (cases x)
    case (Some sp)
    obtain m where m: "at (wd_spaces w) m sp" using x Some by (auto simp: in_set_conv_nth at_def)
    have "cnt P (sp_maps sp) = 0" if "sp_home sp = h"
      by (rule cnt_none) (use far [OF space_in_all [OF m]] space_home [OF assms(1) m] that in blast)
    thus ?thesis using Some by (auto simp: survivor_def)
  qed (simp add: survivor_def)
  have two: "cnt P (slot_maps (survivor (home_of w) h x)) = cnt P (slot_maps x)" if x: "x \<in> set (wd_pending w)" for x
  proof (cases x)
    case (Some p)
    hence "p \<in> all_maps w" using x by (force simp: all_maps_def)
    thus ?thesis using Some far by (auto simp: survivor_def)
  qed (simp add: survivor_def)
  show ?thesis unfolding mapped_def crash_def by (simp add: comp_def one two cong: map_cong)
qed

lemma crash_fewer: "mapped P (crash h w) \<le> mapped P w"
  unfolding mapped_def crash_def by (auto simp: comp_def survivor_def intro!: add_mono sum_list_mono)

lemma crash_maps:
  assumes "world_wf w" "p \<in> all_maps (crash h w)"
  shows "p \<in> all_maps w \<and> home_of w p \<noteq> h"
proof -
  consider (maps) m sp where "at (wd_spaces (crash h w)) m sp" "p \<in> set (sp_maps sp)" | (slot) "Some p \<in> set (wd_pending (crash h w))"
    using assms(2) by (auto simp: all_maps_def space_maps_def slot_maps_def in_set_conv_nth at_def split: option.splits) metis+
  thus ?thesis
  proof cases
    case maps
    thus ?thesis using space_home [OF assms(1), of m sp p] space_in_all [of w m sp p] by (simp add: crash_def at_cut)
  next
    case slot
    thus ?thesis by (force simp: crash_def all_maps_def survivor_def split: if_splits)
  qed
qed

lemma crash_wf:
  assumes wf: "world_wf w"
  shows "world_wf (crash h w)"
proof (rule wfI)
  let ?t = "crash h w"
  show "mp_space p = n" if "at (wd_spaces ?t) n sq" "p \<in> set (sp_maps sq)" for n sq p
    using wfD(1) [OF wf, of n sq p] that by (simp add: crash_def at_cut)
  show "placed ?t p" if "p \<in> all_maps ?t" for p
    using mapping_home [OF wf, of p] crash_maps [OF wf that] unfolding placed_def crash_at by blast
  show "mapped (uses b) ?t \<le> au_references x \<and> 0 < au_references x" if "at (wd_authorities ?t) b x" for b x
    using that wfD(3) [OF wf, of b x] crash_fewer [of "uses b" h w] by (auto simp: crash_def at_cut)
  show "n = n'" if "at (space_frame ?t) n (k, j)" "at (space_frame ?t) n' (k, j)" for n n' k j
    using wfD(4) [OF wf, of n "(k, j)" n'] that by (simp add: crash_at)
  show "k \<le> wd_next ?t j" if "at (space_frame ?t) n (k, j)" for n k j
    using wfD(5) [OF wf, of n k j] that by (simp add: crash_at) (simp add: crash_def)
  show "b = c" if "at (auth_frame ?t) b (l, j)" "at (auth_frame ?t) c (l, j')" for b c l j j'
    using wfD(6) [OF wf, of b l j c j'] that by (simp add: crash_at)
qed

lemma crash_inv:
  assumes w: "world_inv q H N w" and H: "\<And>a m. (a, m) \<in> H \<Longrightarrow> \<exists>s. at (wd_authorities w) a s \<and> au_home s = h"
  shows "\<exists>N. world_inv q {} N (crash h w)"
proof -
  have wf: "world_wf w" and rest: "at_rest (live_owners w) q N (wd_db w)"
    and c: "counts_fit q H N (auth_frame w) (space_frame w) (tally w)" using w by (simp_all add: world_inv_def)
  let ?t = "crash h w"
  have less: "live_owners ?t \<subseteq> live_owners w" by (auto simp: live_owners_def crash_at)
  have "at_rest (live_owners ?t) q (only (live_owners ?t) N) (wd_db ?t)" using rest_mono [OF rest less] by (simp add: crash_def)
  moreover have "counts_fit q {} (only (live_owners ?t) N) (auth_frame ?t) (space_frame ?t) (tally ?t)"
    unfolding counts_fit_def
  proof (intro allI impI)
    fix b l k g assume b: "at (auth_frame ?t) b (l, k)"
    hence b': "at (auth_frame w) b (l, k)" "k \<noteq> h" by (simp_all add: crash_at)
    have whole: "(b, m) \<notin> H" for m using H [of b m] b' by (auto simp: frame_at dest: at_unique)
    have "only (live_owners ?t) N l = N l" using b by (auto simp: only_def live_owners_def fun_eq_iff)
    moreover have "home_of w p = k" if "mp_authority p = b" for p using b'(1) that by (auto simp: frame_at at_get)
    hence "tally ?t b m g = tally w b m g" for m using b'(2) by (intro crash_mapped [OF wf]) auto
    ultimately show "(\<forall>m j. at (space_frame ?t) m (j, k) \<longrightarrow> fits q (only (live_owners ?t) N l j g) (if (b, m) \<in> {} then 0 else tally ?t b m g))
        \<and> (\<forall>j. (\<forall>m. \<not> at (space_frame ?t) m (j, k)) \<longrightarrow> fits q (only (live_owners ?t) N l j g) 0)"
      using countsD [OF c b'(1), of g] b'(2) whole by (simp add: crash_at)
  qed
  ultimately show ?thesis using crash_wf [OF wf] by (auto simp: world_inv_def)
qed

lemma crash_kept: "kept q e w \<Longrightarrow> \<exists>N. world_inv q {} N (crash h w)"
  using crash_inv [where H = "{}"] by (auto simp: kept_def)

text \<open>What a failed deletion tore is gone with its supervisor.\<close>

lemma crash_torn: "torn q h w \<Longrightarrow> \<exists>N. world_inv q {} N (crash h w)"
  unfolding torn_def by (elim conjE exE) (rule crash_inv, assumption, auto)

end
