(* ===== verification/Sysv_Shm_History.thy ===== *)
theory Sysv_Shm_History
  imports Sysv_Shm_Life
begin

text \<open>
  Histories of all supervisors of a store with shared memory, and what holds in every one of them: mapped
  segments keep their bytes, counts are exact, and unmapping removes exactly its range.
\<close>

section \<open>Histories\<close>

text \<open>
  What can happen in a store. With \<open>q\<close> no call to the system fails. Without it any statement, commit,
  allocation and file operation may fail, also the deletions that follow a commit, with one exception:
  while a supervisor that lives on unmaps a range, deletions succeed. A supervisor may die at any time.
  Dying in the middle of a call is the call with everything after that point failing, and then the end of
  the supervisor; unmapping has a rule of its own for this, where deletions may fail.

  The guards are the contracts of the callers: an address space is released by one of its owners, the
  last one after its pending attachments ended; an authority is closed by an owner other than its
  mappings; no supervisor makes so many spaces that their counter wraps.
\<close>

abbreviation allowed :: "bool \<Rightarrow> trouble" where
  "allowed q \<equiv> if q then No_Call else Any_Call"

definition deletes :: "shm_db \<Rightarrow> bool" where
  "deletes d \<longleftrightarrow> set (db_cleanup d) \<subseteq> {None}"

inductive shm_step :: "bool \<Rightarrow> shm_world \<Rightarrow> shm_world \<Rightarrow> bool" for q where
  step_script: "clean (allowed q) ((wd_db w)\<lparr>db_faults := fs, db_cleanup := cs\<rparr>) \<Longrightarrow>
     shm_step q w (w\<lparr>wd_db := (wd_db w)\<lparr>db_faults := fs, db_cleanup := cs\<rparr>\<rparr>)"
| step_open: "env_ok (allowed q) e w \<Longrightarrow> rebooted \<longrightarrow> live_owners w = {} \<Longrightarrow> shm_step q w (snd (md_shm_open e namespace users home rebooted w))"
| step_retain: "at (wd_authorities w) a s \<Longrightarrow> shm_step q w (md_shm_retain a w)"
| step_close: "env_ok (allowed q) e w \<Longrightarrow> at (wd_authorities w) a s \<Longrightarrow> mapped (uses a) w < au_references s \<Longrightarrow> shm_step q w (md_shm_close e a w)"
| step_space: "wd_next w home < wd_next w home + 1 \<Longrightarrow> shm_step q w (snd (md_shm_space_new home w))"
| step_fork: "env_ok (allowed q) e w \<Longrightarrow> at (wd_spaces w) m sp \<Longrightarrow> wd_next w (sp_home sp) < wd_next w (sp_home sp) + 1 \<Longrightarrow>
     shm_step q w (snd (md_shm_space_fork e m shared w))"
| step_release: "env_ok (allowed q) e w \<Longrightarrow> at (wd_spaces w) m sp \<Longrightarrow> 0 < sp_references sp \<Longrightarrow> sp_references sp = 1 \<longrightarrow> unclaimed m w \<Longrightarrow>
     shm_step q w (snd (md_shm_space_release e (Some m) w))"
| step_call: "env_ok (allowed q) e w \<Longrightarrow> at (wd_authorities w) a s \<Longrightarrow> at (wd_spaces w) m sp \<Longrightarrow> sp_home sp = au_home s \<Longrightarrow>
     i < length (wd_pending w) \<Longrightarrow> q \<longrightarrow> operation = MD_SHM_OPEN \<longrightarrow> wd_pending w ! i = None \<Longrightarrow>
     operation = MD_SHM_DETACHED \<longrightarrow> q \<or> deletes (wd_db w) \<Longrightarrow>
     shm_step q w (snd (md_shm_call e a m i v pid process operation args w))"
| step_abort: "env_ok (allowed q) e w \<Longrightarrow> i < length (wd_pending w) \<Longrightarrow> shm_step q w (snd (md_shm_abort e i w))"
| step_unmapped: "env_ok (allowed q) e w \<Longrightarrow> at (wd_spaces w) m sp \<Longrightarrow> q \<or> deletes (wd_db w) \<Longrightarrow>
     shm_step q w (snd (md_shm_unmapped e m address bytes pid process w))"
| step_export: "env_ok (allowed q) e w \<Longrightarrow> at (wd_authorities w) a s \<Longrightarrow> shm_step q w (snd (on_db (md_shm_export e s v pid process segment readonly) w))"
| step_crash: "shm_step q w (crash h w)"
| step_crash_unmapping: "env_ok (allowed q) e w \<Longrightarrow> at (wd_spaces w) m sp \<Longrightarrow>
     shm_step q w (crash (sp_home sp) (snd (md_shm_unmapped e m address bytes pid process w)))"

definition fresh_world :: "shm_db \<Rightarrow> nat \<Rightarrow> shm_world" where
  "fresh_world d n = \<lparr>wd_db = d, wd_authorities = [], wd_spaces = [], wd_pending = replicate n None, wd_next = \<lambda>_. 0\<rparr>"

definition store_ok :: "bool \<Rightarrow> shm_db \<Rightarrow> bool" where
  "store_ok q d \<longleftrightarrow> segments_ok (body_ids d) (db_tables d) \<and> \<not> db_locked d \<and> clean (allowed q) d"

text \<open>An environment that knows of no dead owner shows that steps without one keep the invariant.\<close>

lemma quiet_env: "\<exists>e. env_ok q e w"
proof -
  have "env_ok q (e\<lparr>en_dead := \<lambda>_. Inr False\<rparr>) w" for e by (simp add: env_ok_def leases_held_def leases_known_def)
  thus ?thesis by blast
qed

text \<open>A call during which deletions succeed is one of a supervisor that only fails before commits.\<close>

lemma steadier:
  assumes "q \<noteq> Any_Call \<or> deletes (wd_db w)" and step: "\<And>r. r \<noteq> Any_Call \<Longrightarrow> kept r e w \<Longrightarrow> kept r e t" and "kept q e w"
  shows "kept q e t"
proof (cases "q = Any_Call")
  case True
  have fewer: "at_rest L Until_Commit N d" if "at_rest L Any_Call N d" "deletes d" for L N d
    using that by (simp add: at_rest_def settled_def clean_def deletes_def)
  have fits: "fits Until_Commit = fits Any_Call" "env_ok Until_Commit = env_ok Any_Call"
    by (simp_all add: fits_def env_ok_def fun_eq_iff)
  have "kept Until_Commit e w"
    using assms(1,3) fewer unfolding True by (auto simp: kept_def world_inv_def counts_fit_def fits)
  from step [OF _ this] show ?thesis
    unfolding True by (auto simp: kept_def world_inv_def counts_fit_def fits at_rest_def settled_def clean_def)
next
  case False
  thus ?thesis using step assms(3) by blast
qed

lemma kept_inv: "kept q e w \<Longrightarrow> \<exists>N. world_inv q {} N w"
  by (simp add: kept_def)

lemma step_inv:
  assumes "shm_step q w t" "\<exists>N. world_inv (allowed q) {} N w"
  shows "\<exists>N. world_inv (allowed q) {} N t"
proof -
  have kept: "kept (allowed q) e w" if "env_ok (allowed q) e w" for e using assms(2) that by (simp add: kept_def)
  obtain e0 where e0: "kept (allowed q) e0 w" using quiet_env kept by blast
  from assms(1) show ?thesis
  proof cases
    case (step_script cs fs)
    have "at_rest (live_owners w) (allowed q) N ((wd_db w)\<lparr>db_faults := fs, db_cleanup := cs\<rparr>)" if "world_inv (allowed q) {} N w" for N
      using that step_script by (simp add: world_inv_def at_rest_def settled_def)
    thus ?thesis using assms(2) inv_db step_script(1) by blast
  next
    case (step_open e rebooted namespace users home)
    thus ?thesis using open_kept [OF kept] by blast
  next
    case (step_retain a s)
    thus ?thesis using assms(2) shm_retain_ok by blast
  next
    case (step_close e a s)
    thus ?thesis using kept_close [OF kept] kept_inv by blast
  next
    case (step_space home)
    thus ?thesis using new_space_kept(1) [OF e0] kept_inv by (metis prod.collapse)
  next
    case (step_fork e m sp shared)
    thus ?thesis using fork_kept [OF kept] kept_inv by blast
  next
    case (step_release e m sp)
    thus ?thesis using release_kept [OF kept] kept_inv by blast
  next
    case (step_call e a s m sp i operation v pid process args)
    have "kept (allowed q) e t"
    proof (cases "operation = MD_SHM_DETACHED")
      case True
      show ?thesis
        unfolding step_call(1) using step_call(8) True call_kept [OF _ step_call(3-6)] step_call(7)
        by (intro steadier [OF _ _ kept [OF step_call(2)]]) auto
    next
      case False
      thus ?thesis unfolding step_call(1) using step_call(7) by (intro call_kept [OF kept [OF step_call(2)] step_call(3-6)]) auto
    qed
    thus ?thesis by (rule kept_inv)
  next
    case (step_abort e i)
    thus ?thesis using abort_kept [OF kept] kept_inv by blast
  next
    case (step_unmapped e m sp address bytes pid process)
    have "kept (allowed q) e t"
      unfolding step_unmapped(1) using unmapped_kept [OF _ step_unmapped(3)] step_unmapped(4)
      by (intro steadier [OF _ _ kept [OF step_unmapped(2)]]) auto
    thus ?thesis by (rule kept_inv)
  next
    case (step_export e a s v pid process segment readonly)
    have "kept (allowed q) e (snd (on_db (shm_transaction e s (shm_hand_over e s v pid process segment (readonly = 1))) w))"
      by (rule kept_steady [OF kept [OF step_export(2)] steady_hand_over]) (rule surjective_pairing)
    moreover have "snd (on_db (sh_fail er :: u64 shm) w) = w" for er by (simp add: on_db_def sh_fail_def)
    ultimately show ?thesis using assms(2) kept_inv unfolding step_export(1) md_shm_export_def by (auto split: if_splits)
  next
    case (step_crash h)
    thus ?thesis using crash_kept [OF e0] by blast
  next
    case (step_crash_unmapping e m sp address bytes pid process)
    thus ?thesis using unmapped_cases [OF kept step_crash_unmapping(3)] crash_kept crash_torn by blast
  qed
qed

lemma reachable_inv:
  assumes "store_ok q d" "(shm_step q)\<^sup>*\<^sup>* (fresh_world d n) w"
  shows "\<exists>N. world_inv (allowed q) {} N w"
  using assms(2)
proof (induction rule: rtranclp_induct)
  case base
  let ?w = "fresh_world d n"
  have none: "all_maps ?w = {}" by (auto simp: all_maps_def fresh_world_def slot_maps_def)
  have frames: "auth_frame ?w = []" "space_frame ?w = []" "wd_spaces ?w = []" "wd_authorities ?w = []" "wd_db ?w = d"
    by (simp_all add: fresh_world_def auth_frame_def space_frame_def)
  have "live_owners ?w = {}" by (simp add: live_owners_def frames at_def)
  moreover have "at_rest {} (allowed q) (\<lambda>_ _ _. 0) d"
    using assms(1) by (simp add: store_ok_def at_rest_def settled_def holds_kept_def view_def fun_eq_iff)
  ultimately have "world_inv (allowed q) {} (\<lambda>_ _ _. 0) ?w"
    by (simp add: world_inv_def world_wf_def counts_fit_def frames none at_def)
  thus ?case by blast
next
  case (step v w)
  thus ?case using step_inv by blast
qed

text \<open>
  C15: A mapped segment keeps its bytes. In every history of all supervisors of a store - opening,
  creating, attaching, forking, unmapping, removing, exporting, closing in any order, with any failures
  of statements, commits, allocations and file operations, and with supervisors dying between and within
  calls - a segment that some address space maps or is about to map still exists and its file is not
  deleted. The one proviso is the one of \<open>shm_step\<close>: while a supervisor that lives on unmaps a range, the
  deletions that follow its commits succeed. \<open>unmap_loses\<close> shows that the code needs it.
\<close>

theorem shm_mapped_kept:
  assumes "store_ok False d" "(shm_step False)\<^sup>*\<^sup>* (fresh_world d n) w" "p \<in> all_maps w"
  shows "mp_segment p \<in> segment_ids (db_tables (wd_db w)) \<and> has_body (mp_segment p) (wd_db w)"
proof -
  obtain N where inv: "world_inv Any_Call {} N w" using reachable_inv [OF assms(1,2)] by auto
  hence rest: "at_rest (live_owners w) Any_Call N (wd_db w)" by (simp add: world_inv_def)
  obtain l k where "0 < N l k (mp_segment p)" using positive_count [OF inv assms(3)] by blast
  hence "mp_segment p \<in> segment_ids (db_tables (wd_db w))"
    using rest by (auto simp: at_rest_def settled_def view_def holds_kept_def split: if_splits)
  thus ?thesis using rest by (auto simp: at_rest_def settled_def segments_ok_def has_body_def)
qed

text \<open>
  C16: In every history without failing calls the database counts attachments exactly: for an open
  authority and an address space of the same supervisor, the count of a segment is the number of mappings
  of it in the space and of those still pending for it.
\<close>

theorem shm_counts_exact:
  assumes "store_ok True d" "(shm_step True)\<^sup>*\<^sup>* (fresh_world d n) w"
    and "at (wd_authorities w) a s" "at (wd_spaces w) m sp" "sp_home sp = au_home s"
  shows "refs_sum (sh_refs (db_tables (wd_db w))) (au_owner s) (sp_id sp) segment = int (mapped (key a m segment) w)"
proof -
  obtain N where inv: "world_inv No_Call {} N w" using reachable_inv [OF assms(1,2)] by auto
  hence rest: "at_rest (live_owners w) No_Call N (wd_db w)" and c: "counts_fit No_Call {} N (auth_frame w) (space_frame w) (tally w)"
    by (simp_all add: world_inv_def)
  have at: "at (auth_frame w) a (au_owner s, au_home s)" "at (space_frame w) m (sp_id sp, au_home s)" using assms(3-5) by (auto simp: frame_at)
  have "fits No_Call (N (au_owner s) (sp_id sp) segment) (tally w a m segment)"
    using countsD [OF c at(1), THEN conjunct1, rule_format, OF at(2)] by simp
  moreover have "N (au_owner s) (sp_id sp) segment = refs_sum (sh_refs (db_tables (wd_db w))) (au_owner s) (sp_id sp) segment"
    using rest_view [OF rest] live_owner [OF assms(3)] by (simp add: view_def)
  ultimately show ?thesis by (simp add: fits_def)
qed

section \<open>What unmapping leaves\<close>

definition mp_covers :: "shm_mapping \<Rightarrow> u64 \<Rightarrow> bool" where
  "mp_covers p x \<longleftrightarrow> mp_address p \<le> x \<and> x < mp_address p + mp_size p"

definition trim :: "u64 \<Rightarrow> u64 \<Rightarrow> shm_mapping \<Rightarrow> shm_mapping list" where
  "trim lo hi p = (if mp_address p \<ge> hi \<or> mp_address p + mp_size p \<le> lo then [p] else remains lo hi p)"

lemma retain_spaces: "wd_spaces (md_shm_retain a w) = wd_spaces w"
  by (simp add: md_shm_retain_def put_authority_def)

lemma unmap_each_maps:
  assumes "unmap_each e m lo hi pid process walked rest w = (Inr (), t)" "at (wd_spaces w) m sp" "sp_maps sp = walked @ rest"
  shows "at (wd_spaces t) m (sp\<lparr>sp_maps := walked @ concat (map (trim lo hi) rest)\<rparr>)"
  using assms
proof (induction rest arbitrary: walked w sp)
  case Nil
  have "sp\<lparr>sp_maps := walked\<rparr> = sp" using Nil.prems(3) by simp
  thus ?case using Nil.prems(1,2) by (metis append_Nil2 concat.simps(1) list.map_disc_iff snd_conv unmap_each.simps(1))
next
  case (Cons p rest)
  show ?case
  proof (cases "mp_address p \<ge> hi \<or> mp_address p + mp_size p \<le> lo")
    case True
    thus ?thesis using Cons.IH [of "walked @ [p]" w sp] Cons.prems by (simp add: trim_def)
  next
    case False
    let ?s = "authority w (mp_authority p)"
    obtain r d where run: "shm_transaction e ?s (unmap_count e ?s (sp_id (shm_space_at w m)) lo hi pid process p) (wd_db w) = (r, d)" by fastforce
    obtain x where r: "r = Inr x" using Cons.prems(1) False run by (cases r) (auto simp: on_db_def Let_def)
    let ?u = "set_maps m (walked @ remains lo hi p @ rest) (w\<lparr>wd_db := d\<rparr>)"
    define v where "v = (if splits lo hi p then md_shm_retain (mp_authority p) ?u
      else if inside lo hi p then md_shm_close e (mp_authority p) ?u else ?u)"
    have at: "at (wd_spaces (w\<lparr>wd_db := d\<rparr>)) m sp" using Cons.prems(2) by simp
    have "at (wd_spaces v) m (sp\<lparr>sp_maps := walked @ remains lo hi p @ rest\<rparr>)"
      using set_maps_parts(9) [OF at, of "walked @ remains lo hi p @ rest"] Cons.prems(2)
      by (simp add: v_def retain_spaces close_frames at_def)
    moreover have "unmap_each e m lo hi pid process (walked @ remains lo hi p) rest v = (Inr (), t)"
      using Cons.prems(1) False run r by (simp add: on_db_def Let_def v_def)
    ultimately show ?thesis
      using Cons.IH [of "walked @ remains lo hi p" v "sp\<lparr>sp_maps := walked @ remains lo hi p @ rest\<rparr>"] False by (simp add: trim_def)
  qed
qed

lemma trim_covers:
  assumes "mp_address p \<le> mp_address p + mp_size p" "lo \<le> hi"
  shows "(\<exists>y \<in> set (trim lo hi p). mp_covers y x) \<longleftrightarrow> mp_covers p x \<and> \<not> (lo \<le> x \<and> x < hi)"
  using assms by (auto simp: trim_def remains_def Let_def mp_covers_def splits_def inside_def not_less not_le)

lemma unat_uintptr: "unat (UINTPTR_MAX - a) = 18446744073709551615 - unat a" "unat (a :: u64) \<le> 18446744073709551615"
proof -
  have "unat a < 2 ^ LENGTH(64)" by (rule unsigned_less)
  thus le: "unat a \<le> 18446744073709551615" by simp
  hence "a \<le> UINTPTR_MAX" by (simp add: UINTPTR_MAX_def word_le_nat_alt)
  thus "unat (UINTPTR_MAX - a) = 18446744073709551615 - unat a" by (simp add: unat_sub) (simp add: UINTPTR_MAX_def)
qed

lemma range_end_ge: "address \<le> range_end address bytes"
proof (cases "bytes > UINTPTR_MAX - address")
  case True
  have "address \<le> UINTPTR_MAX" using unat_uintptr(2) [of address] by (simp add: UINTPTR_MAX_def word_le_nat_alt)
  thus ?thesis using True by (simp add: range_end_def)
next
  case False
  have "unat address + unat bytes < 2 ^ 64"
    using False unat_uintptr [of address] by (simp add: word_less_nat_alt)
  hence "unat (address + bytes) = unat address + unat bytes" by (simp add: unat_word_ariths)
  thus ?thesis using False by (simp add: range_end_def word_le_nat_alt)
qed

lemma trim_segment: "y \<in> set (trim lo hi p) \<Longrightarrow> mp_segment y = mp_segment p"
  using remains_same by (auto simp: trim_def split: if_splits)

text \<open>
  C17: Unmapping a range that succeeds removes exactly the addresses of the range: afterwards an address is
  covered by a mapping of a segment just when it was before and does not lie in the range, whatever
  pieces mappings were split into.
\<close>

theorem shm_unmapped_exact:
  assumes "md_shm_unmapped e m address bytes pid process w = (Inr (), t)" "at (wd_spaces w) m sp"
    and "\<forall>p \<in> set (sp_maps sp). mp_address p \<le> mp_address p + mp_size p"
  shows "\<exists>sq. at (wd_spaces t) m sq \<and> (\<forall>segment x.
     (\<exists>p \<in> set (sp_maps sq). mp_segment p = segment \<and> mp_covers p x)
     \<longleftrightarrow> (\<exists>p \<in> set (sp_maps sp). mp_segment p = segment \<and> mp_covers p x) \<and> \<not> (address \<le> x \<and> x < range_end address bytes))"
proof -
  let ?hi = "range_end address bytes"
  show ?thesis
  proof (cases "md_shm_intersects (sp_maps sp) address bytes")
    case True
    hence "unmap_each e m address ?hi pid process [] (sp_maps sp) w = (Inr (), t)"
      using assms(1) at_get(1) [OF assms(2)] by (simp add: md_shm_unmapped_def)
    from unmap_each_maps [OF this assms(2)]
    have at: "at (wd_spaces t) m (sp\<lparr>sp_maps := concat (map (trim address ?hi) (sp_maps sp))\<rparr>)" by simp
    have "(\<exists>y \<in> set (trim address ?hi p). mp_segment y = g \<and> mp_covers y x) \<longleftrightarrow> mp_segment p = g \<and> mp_covers p x \<and> \<not> (address \<le> x \<and> x < ?hi)"
      if "p \<in> set (sp_maps sp)" for p g x
    proof -
      have "(\<exists>y \<in> set (trim address ?hi p). mp_covers y x) \<longleftrightarrow> mp_covers p x \<and> \<not> (address \<le> x \<and> x < ?hi)"
        using assms(3) that by (intro trim_covers range_end_ge) simp
      moreover have "\<forall>y \<in> set (trim address ?hi p). mp_segment y = mp_segment p" using trim_segment by blast
      ultimately show ?thesis by metis
    qed
    thus ?thesis using at by (intro exI [of _ "sp\<lparr>sp_maps := concat (map (trim address ?hi) (sp_maps sp))\<rparr>"]) auto
  next
    case False
    hence "t = w" using assms(1) at_get(1) [OF assms(2)] by (simp add: md_shm_unmapped_def)
    moreover have "\<not> (address \<le> x \<and> x < ?hi)" if "p \<in> set (sp_maps sp)" "mp_covers p x" for p x
      using False that by (auto simp: md_shm_intersects_def mp_covers_def)
    ultimately show ?thesis using assms(2) by blast
  qed
qed

section \<open>A history\<close>

text \<open>A store with one segment of three pages; a supervisor opens it, makes a space, attaches the segment and unmaps its middle.\<close>

definition demo_segment :: segment_row where
  "demo_segment = \<lparr>sg_id = 1, sg_key = 5, sg_removed = False, sg_info = \<lparr>shm_perm = creator_perm demo_root 0x180, shm_key = 5,
     shm_segsz = 0x3000, shm_atime = 0, shm_dtime = 0, shm_ctime = 0, shm_cpid = 0, shm_lpid = 0, shm_nattch = 0\<rparr>,
     sg_namespace = 0, sg_creator_pids = [], sg_last_pids = []\<rparr>"

definition demo_segments :: shm_tables where
  "demo_segments = \<lparr>sh_segments = [demo_segment], sh_owners = [], sh_garbage = [], sh_refs = [], sh_last = 1\<rparr>"

definition demo_shm_db :: shm_db where
  "demo_shm_db = \<lparr>db_tables = demo_segments, db_began = demo_segments, db_bodies = [(1, 0x3000)], db_locked = False, db_faults = [], db_cleanup = []\<rparr>"

definition demo_shm_env :: shm_env where
  "demo_shm_env = \<lparr>en_users = initial_store, en_pids = pid_store_init initial_store, en_time = 9, en_page = 0x1000, en_descriptor = 4,
     en_lease = 70, en_dead = \<lambda>_. Inr False\<rparr>"

definition demo_shm_opened :: shm_world where
  "demo_shm_opened = snd (md_shm_open demo_shm_env 0 [] 0 False (fresh_world demo_shm_db 1))"

definition demo_spaced :: shm_world where
  "demo_spaced = snd (md_shm_space_new 0 demo_shm_opened)"

definition demo_pending :: shm_world where
  "demo_pending = snd (md_shm_call demo_shm_env 0 0 0 demo_root 100 None MD_SHM_OPEN [1, 0] demo_spaced)"

definition demo_attached :: shm_world where
  "demo_attached = snd (md_shm_call demo_shm_env 0 0 0 demo_root 100 None MD_SHM_ATTACHED [0x10000] demo_pending)"

definition demo_unmapped :: shm_world where
  "demo_unmapped = snd (md_shm_unmapped demo_shm_env 0 0x11000 0x1000 100 None demo_attached)"

definition demo_mapping :: shm_mapping where
  "demo_mapping = \<lparr>mp_space = 0, mp_authority = 0, mp_segment = 1, mp_address = 0x10000, mp_base = 0x10000, mp_size = 0x3000\<rparr>"

definition demo_authority :: "nat \<Rightarrow> md_shm" where
  "demo_authority n = \<lparr>au_owner = 70, au_namespace = 0, au_users = [], au_references = n, au_home = 0\<rparr>"

definition demo_shm_space :: "bool \<Rightarrow> shm_mapping list \<Rightarrow> shm_space" where
  "demo_shm_space touched maps = \<lparr>sp_references = 1, sp_used = touched, sp_id = 1, sp_maps = maps, sp_home = 0\<rparr>"

lemma demo_env_ok: "env_ok q demo_shm_env w"
  by (simp add: env_ok_def leases_held_def leases_known_def demo_shm_env_def)

lemma demo_shm_opened_at: "at (wd_authorities demo_shm_opened) 0 (demo_authority 1)"
  by code_simp

lemma demo_counter: "wd_next demo_shm_opened 0 < wd_next demo_shm_opened 0 + 1"
  by code_simp

lemma demo_spaced_at: "at (wd_authorities demo_spaced) 0 (demo_authority 1) \<and> at (wd_spaces demo_spaced) 0 (demo_shm_space False []) \<and> wd_pending demo_spaced = [None]"
  by code_simp

lemma demo_pending_at: "at (wd_authorities demo_pending) 0 (demo_authority 2) \<and> at (wd_spaces demo_pending) 0 (demo_shm_space True []) \<and> length (wd_pending demo_pending) = 1"
  by code_simp

lemma demo_attached_at: "at (wd_authorities demo_attached) 0 (demo_authority 2) \<and> at (wd_spaces demo_attached) 0 (demo_shm_space True [demo_mapping])"
  by code_simp

lemma demo_history: "(shm_step q)\<^sup>*\<^sup>* (fresh_world demo_shm_db 1) demo_attached"
proof -
  have "shm_step q (fresh_world demo_shm_db 1) demo_shm_opened"
    unfolding demo_shm_opened_def by (rule step_open [OF demo_env_ok]) simp
  moreover have "shm_step q demo_shm_opened demo_spaced"
    unfolding demo_spaced_def by (rule step_space [OF demo_counter])
  moreover have "shm_step q demo_spaced demo_pending"
    unfolding demo_pending_def using demo_spaced_at
    by (intro step_call [OF demo_env_ok, of _ _ "demo_authority 1" _ "demo_shm_space False []"]) (simp_all add: demo_authority_def demo_shm_space_def)
  moreover have "shm_step q demo_pending demo_attached"
    unfolding demo_attached_def using demo_pending_at
    by (intro step_call [OF demo_env_ok, of _ _ "demo_authority 2" _ "demo_shm_space True []"]) (simp_all add: demo_authority_def demo_shm_space_def)
  ultimately show ?thesis by (meson r_into_rtranclp rtranclp_trans)
qed

lemma demo_store_ok: "store_ok q demo_shm_db"
  by (simp add: store_ok_def segments_ok_def demo_shm_db_def demo_segments_def clean_def demo_segment_def)

text \<open>The segment is removed, and the deletions after that commit fail.\<close>

definition demo_removed :: "errno option list \<Rightarrow> shm_world" where
  "demo_removed cs = snd (md_shm_call demo_shm_env 0 0 0 demo_root 100 None MD_SHM_REMOVE [1]
     (demo_attached\<lparr>wd_db := (wd_db demo_attached)\<lparr>db_faults := [], db_cleanup := cs\<rparr>\<rparr>))"

lemma demo_trouble:
  "at (wd_spaces (demo_removed [Some EIO])) 0 (demo_shm_space True [demo_mapping]) \<and> length (wd_pending demo_attached) = 1
   \<and> list_all sg_removed (sh_segments (db_tables (wd_db (demo_removed [Some EIO]))))"
  by code_simp

lemma demo_trouble_history: "(shm_step False)\<^sup>*\<^sup>* (fresh_world demo_shm_db 1) (demo_removed [Some EIO])"
proof -
  let ?w = "demo_attached\<lparr>wd_db := (wd_db demo_attached)\<lparr>db_faults := [], db_cleanup := [Some EIO]\<rparr>\<rparr>"
  have "shm_step False demo_attached ?w" by (rule step_script) (simp add: clean_def)
  moreover have "shm_step False ?w (demo_removed [Some EIO])"
    unfolding demo_removed_def using demo_attached_at demo_trouble
    by (intro step_call [OF demo_env_ok, of _ _ "demo_authority 2" _ "demo_shm_space True [demo_mapping]"]) (simp_all add: demo_authority_def demo_shm_space_def)
  ultimately show ?thesis using demo_history [of False] by (meson rtranclp.rtrancl_into_rtrancl)
qed

theorem shm_mapped_kept_witness:
  "demo_mapping \<in> all_maps (demo_removed [Some EIO]) \<and> 1 \<in> segment_ids (db_tables (wd_db (demo_removed [Some EIO])))
   \<and> has_body 1 (wd_db (demo_removed [Some EIO]))"
proof -
  have "Some (demo_shm_space True [demo_mapping]) \<in> set (wd_spaces (demo_removed [Some EIO]))"
    using demo_trouble by (metis at_def nth_mem)
  hence "demo_mapping \<in> all_maps (demo_removed [Some EIO])" by (force simp: all_maps_def demo_shm_space_def)
  with shm_mapped_kept [OF demo_store_ok demo_trouble_history this] show ?thesis by (simp add: demo_mapping_def)
qed

text \<open>
  Unmapping the last mapping of a removed segment while the rows of the collected segments cannot be
  deleted: the call fails and the mapping stays, but the segment and its file are gone.
\<close>

lemma unmap_loses:
  "case md_shm_unmapped demo_shm_env 0 0x10000 0x3000 100 None
      ((demo_removed [])\<lparr>wd_db := (wd_db (demo_removed []))\<lparr>db_cleanup := [None, None, Some EIO]\<rparr>\<rparr>) of (r, t) \<Rightarrow>
     r = Inl EIO \<and> at (wd_spaces t) 0 (demo_shm_space True [demo_mapping])
     \<and> sh_segments (db_tables (wd_db t)) = [] \<and> db_bodies (wd_db t) = []"
  by code_simp

theorem shm_counts_exact_witness:
  "refs_sum (sh_refs (db_tables (wd_db demo_attached))) 70 1 1 = int (mapped (key 0 0 1) demo_attached)"
  using shm_counts_exact [OF demo_store_ok demo_history, of 0 "demo_authority 2" 0 "demo_shm_space True [demo_mapping]" 1] demo_attached_at
  by (simp add: demo_authority_def demo_shm_space_def)

lemma demo_unmapped_done: "fst (md_shm_unmapped demo_shm_env 0 0x11000 0x1000 100 None demo_attached) = Inr ()"
  by code_simp

theorem shm_unmapped_exact_witness:
  "\<exists>sq. at (wd_spaces demo_unmapped) 0 sq \<and> (\<forall>segment x.
     (\<exists>p \<in> set (sp_maps sq). mp_segment p = segment \<and> mp_covers p x)
     \<longleftrightarrow> (1 = segment \<and> 0x10000 \<le> x \<and> x < 0x13000) \<and> \<not> (0x11000 \<le> x \<and> x < 0x12000))"
proof -
  have "md_shm_unmapped demo_shm_env 0 0x11000 0x1000 100 None demo_attached = (Inr (), demo_unmapped)"
    using demo_unmapped_done by (simp add: demo_unmapped_def prod_eq_iff)
  from shm_unmapped_exact [OF this, of "demo_shm_space True [demo_mapping]"] demo_attached_at show ?thesis
    by (simp add: demo_shm_space_def demo_mapping_def mp_covers_def range_end_def UINTPTR_MAX_def)
qed

text \<open>
  A second attachment while one is pending is refused, but the refusal also drops the pending one: its count
  and its hold on the authority stay.
\<close>

lemma open_busy_drops:
  "case md_shm_call demo_shm_env 0 0 0 demo_root 100 None MD_SHM_OPEN [1, 0] demo_pending of (r, t) \<Rightarrow>
     r = Inl EBUSY \<and> wd_pending t = [None] \<and> at (wd_authorities t) 0 (demo_authority 2)
     \<and> refs_sum (sh_refs (db_tables (wd_db t))) 70 1 1 = 1"
  by code_simp

end
