(* ===== verification/Spec2Isabelle.thy ===== *)
theory Spec2Isabelle
  imports Permissions Landlock Pid_Namespace Filter_Program Resource_Order Watch_Queue Mount_Policy Process_Limits Sysv_Transport
    Bpf_Registry Binfmt Mount_Propagation Sysv_Shm_History
begin

text \<open>
  Verification of the MagicDesk guest runtime \<^emph>\<open>Shroot\<close> (\<^verbatim>\<open>src/native/shroot/src\<close>), the user-space
  kernel that runs unprivileged Linux guests on Android.

  \<^bold>\<open>The program.\<close> A supervisor intercepts the system calls of guest processes and answers them from
  its own state: user namespaces and credentials, process numbers and process limits, file
  permissions and security policies, mount flags, file-change queues, System V objects, and a packet
  filter in front of the network. Several supervisors share an object store; within one, workers
  take turns on open files. The development models the parts of that state whose rules are written
  as C over data, each as the C functions have it: structures are records, linked structures are
  stores of records under addresses, arrays are lists, integers keep their width as words where
  arithmetic or masks matter, and every error return is a value of \<open>'a result\<close>. What the kernel,
  the allocator, the clocks and SQLite answer is a parameter of each operation.

  \<^bold>\<open>Theories and what they show.\<close> File names are under \<^verbatim>\<open>src/native/shroot/src\<close>.
  \<^item> \<open>Prelude\<close>: error numbers, results, word and list facts, the contract \<open>keyed_cells\<close> of stores that
    keep one value per key, the contract \<open>simulation\<close> from single calls to sequences of them.
  \<^item> \<open>User_Namespace\<close>, \<open>User_Charge\<close> (\<^verbatim>\<open>user_namespace.c\<close>, \<^verbatim>\<open>namespace_identity.c\<close>): a namespace is the list of page addresses from
    itself to the initial one. Translation through nested maps is inverse both ways, a published map
    is sound and cannot be replaced, an unprivileged one reaches only its opener's identifier,
    capabilities reach only contained namespaces; charges along the chain of creators are
    transactions within limits, creation and import of sealed pages are sound.
  \<^item> \<open>Guest_Identity\<close> (\<^verbatim>\<open>guest_identity.c\<close>), \<open>File_Capability\<close> (\<^verbatim>\<open>file_capability.h\<close>): credentials evolve by
    the steps \<open>id_evolve\<close>; capability sets stay consistent, dropped privileges, \<open>no_new_privs\<close> and
    locked securebits are permanent, an execution not marked secure gives nothing but to the root of
    its namespace.
  \<^item> \<open>Permissions\<close> (\<^verbatim>\<open>file_permissions.h\<close>, \<^verbatim>\<open>posix_acl.c\<close>, \<^verbatim>\<open>ipc_permissions.c\<close>): mode bits, access control
    lists and System V permissions; validation, mapping and \<open>chmod\<close> of lists are exact.
  \<^item> \<open>Landlock\<close> (\<^verbatim>\<open>landlock_policy.c\<close>, parts of \<^verbatim>\<open>fs_landlock.c\<close> and \<^verbatim>\<open>inode_landlock.c\<close>): layered rulesets; a check is exact and restriction only removes.
  \<^item> \<open>Pid_Namespace\<close> (\<^verbatim>\<open>pid_namespace.c\<close>): the numbers of a process in each namespace of its chain;
    reservation ends, is a transaction, lookups agree, dead namespaces stay closed.
  \<^item> \<open>Process_Limits\<close> (\<^verbatim>\<open>process_limits.c\<close>): tasks charged to accounts per user and namespace; the counts
    are exact under every history.
  \<^item> \<open>Network_Address\<close> (\<^verbatim>\<open>network_ip.c\<close>, \<^verbatim>\<open>network_reject.c\<close>), \<open>Network_Filter\<close> (\<^verbatim>\<open>network_filter.c\<close>),
    \<open>Network_Ipset\<close> (\<^verbatim>\<open>network_ipset.c\<close>), \<open>Filter_Validate\<close> and \<open>Filter_Program\<close>
    (\<^verbatim>\<open>network_filter_program.c\<close>): addresses, the catalogue of tables, chains, rules and sets, address
    sets, validation of a ruleset and its evaluation on packets. Searches equal plain readings, hooks
    run their chains in order, validated rulesets never meet the nesting limit.
  \<^item> \<open>Resource_Order\<close> (\<^verbatim>\<open>resource_order.c\<close>, \<^verbatim>\<open>ofd_order.c\<close>): intrusive queues of turns refine lists, and every
    waiting turn comes.
  \<^item> \<open>Watch_Queue\<close> (\<^verbatim>\<open>watch_queue.c\<close>): the queue of change records refines a stream.
  \<^item> \<open>Mount_Policy\<close> (\<^verbatim>\<open>mount_policy.c\<close>): mount flags stay well-formed and locked flags stay locked.
  \<^item> \<open>Mount_Propagation\<close> (\<^verbatim>\<open>mount_propagation.c\<close>): peer groups of mounts, the links of a mount and the
    families of mount namespaces; reference counts are exact and groups end with their last link.
  \<^item> \<open>Binfmt_Rule\<close>, \<open>Binfmt\<close> (\<^verbatim>\<open>binfmt_rule.c\<close>, \<^verbatim>\<open>binfmt.c\<close>): registered binary formats. Registrations within
    the limit of length parse back to their rule, accepted rules are well-formed, the control files keep the registry consistent and
    the nearest view decides.
  \<^item> \<open>Bpf_Map\<close>, \<open>Bpf_Registry\<close> (\<^verbatim>\<open>bpf_map.c\<close>): hash maps of the \<open>bpf\<close> call refine bounded dictionaries, their
    enumeration is complete, and the registry is bounded.
  \<^item> \<open>Sysv_Ipc_Db\<close>, \<open>Sysv_Sem\<close>, \<open>Sysv_Msg\<close>, \<open>Sysv_Ipc\<close>, \<open>Sysv_Transport\<close> (\<^verbatim>\<open>sysv_ipc_db.c\<close>, \<^verbatim>\<open>sysv_sem.c\<close>,
    \<^verbatim>\<open>sysv_msg.c\<close>, \<^verbatim>\<open>sysv_ipc.c\<close>, \<^verbatim>\<open>ipc_database.c\<close>, \<^verbatim>\<open>sysv_ipc_transport.c\<close>): tables, semaphore and message
    operations, transactions and waiting, call packets. Success triples carry the proofs; the call
    layer rests on the contracts \<open>ipc_recovery\<close> and \<open>ipc_service\<close>. Semaphore operations are atomic and the tables stay
    consistent under every history of several supervisors with any failures.
  \<^item> \<open>Sysv_Shm\<close>, \<open>Sysv_Shm_Space\<close>, \<open>Sysv_Shm_Life\<close>, \<open>Sysv_Shm_History\<close> (\<^verbatim>\<open>sysv_shm.c\<close>): the database of shared
    segments with its triples \<open>run_ok\<close>; authorities, address spaces and pending attachments of all
    supervisors of a store; the invariant every operation keeps; histories. A mapped segment keeps its
    bytes when statements, commits, allocations or the deletions after a commit fail and when
    supervisors die in the middle of a call, with one proviso the code needs: a supervisor that unmaps a
    range and lives on has its deletions succeed. Counts are exact when no call fails, and unmapping
    removes exactly its range.

  This theory adds what spans user namespaces, permissions and System V objects: what strangers to an
  object get from calls on it.

  \<^bold>\<open>Contracts.\<close> Locales state what one part needs of another and are interpreted on the model's
  definitions: \<open>keyed_cells\<close> for stores with one cell per key, \<open>id_translation\<close> for maps between two
  identifier spaces, \<open>number_table\<close> for the table of process numbers, \<open>simulation\<close> for a component against its
  specification, \<open>ipc_recovery\<close> for what the recovery of dead owners keeps and its extension \<open>ipc_service\<close>
  for the operations the call layer of System V objects drives.

  \<^bold>\<open>Bounds and fuel.\<close> Loops over lists and chains are structural or carry a measure. The scan for a
  free process number has as much fuel as the table has numbers and is shown to end. The hook loop has
  one round more than there are chains, and evaluation of nested chains one level more than the depth
  of 16 that validation admits; both are shown to suffice. A call on a System V object makes at most
  two attempts before it waits. Counts of tasks are exact for histories shorter than \<open>2 ^ 32\<close> calls,
  the width of the counter of members.

  \<^bold>\<open>Atomicity.\<close> An operation the code runs under one mutex, one gate or one transaction is one step;
  histories interleave such steps freely. Memory ordering inside a step is not modelled.

  \<^bold>\<open>Not modelled.\<close> The Java application, the Wayland, X11, audio and hosted runtimes and the terminal are
  user interface and protocol glue over Android services. In the runtime: interception, the
  supervisor's dispatch, bootstrap, ELF loading and the assembly entries act on registers and memory of
  native threads; the file system service, inode store, FUSE and image tools keep their rules in SQLite
  schemas and native directory operations; descriptor transport and the network stack below the
  filter are sequences of socket calls.
\<close>

unbundle bit_operations_syntax

section \<open>Strangers to a System V object\<close>

text \<open>
  User namespaces, identities, permissions and the object tables together. A stranger to an object
  lives in a user namespace that does not contain the one owning the database, is neither owner
  nor creator nor in one of their groups, and the object grants nothing to others.
\<close>

definition stranger :: "md_ipc \<Rightarrow> identity \<Rightarrow> ipc_perm \<Rightarrow> bool" where
  "stranger ip v p \<longleftrightarrow>
     \<not> md_user_namespace_contains (ip_users ip) (id_ns v) (ip_space ip)
     \<and> id_effective (id_uid v) \<noteq> ipc_uid p \<and> id_effective (id_uid v) \<noteq> ipc_cuid p
     \<and> \<not> md_identity_in_group v (ipc_gid p) \<and> \<not> md_identity_in_group v (ipc_cgid p) \<and> ipc_mode p AND 7 = 0"

fun info_perm :: "ipc_info \<Rightarrow> ipc_perm" where
  "info_perm (Sem_Info st) = sem_perm st"
| "info_perm (Msg_Info st) = msg_perm st"

definition shut :: "md_ipc \<Rightarrow> identity \<Rightarrow> int \<Rightarrow> ipc_tables \<Rightarrow> bool" where
  "shut ip v k t \<longleftrightarrow> (\<forall>x \<in> set (tb_objects t). ob_id x = k \<longrightarrow> stranger ip v (info_perm (ob_info x)))"

lemma stranger_incapable: "stranger ip v p \<Longrightarrow> \<not> md_identity_capable_in (ip_users ip) v (ip_space ip) cap"
  using capable_walk_contains by (auto simp: stranger_def md_identity_capable_in_def md_user_namespace_capable_def)

lemma stranger_access:
  assumes "stranger ip v p" "m AND 7 = m" "m \<noteq> 0"
  shows "md_ipc_perm_access (ip_users ip) (ip_space ip) v p m = Inl EACCES"
proof -
  have "ipc_mode p AND m = (ipc_mode p AND 7) AND m" using assms(2) by (metis and.assoc and.commute)
  hence "ipc_mode p AND m = 0" using assms(1) by (simp add: stranger_def)
  thus ?thesis using assms stranger_incapable [OF assms(1)] by (simp add: md_ipc_perm_access_def stranger_def Let_def)
qed

lemma stranger_owner: "stranger ip v p \<Longrightarrow> md_ipc_perm_owner (ip_users ip) (ip_space ip) v p = Inl EPERM"
  using stranger_incapable by (simp add: md_ipc_perm_owner_def stranger_def)

lemma operate_mode_bits: "operate_mode fs AND 7 = operate_mode fs" "fs \<noteq> [] \<Longrightarrow> operate_mode fs \<noteq> 0"
proof -
  have step: "(w OR (if b then 2 else 4)) AND 7 = w OR (if b then 2 else 4)" "w OR (if b then 2 else 4) \<noteq> 0" if "w AND 7 = w" for w :: u32 and b
    using that by (auto simp: and.commute [of _ 7] bit.conj_disj_distrib or_eq_0_iff)
  have all: "foldl (\<lambda>m f. m OR (if sem_op f \<noteq> 0 then 2 else 4)) w fs AND 7 = foldl (\<lambda>m f. m OR (if sem_op f \<noteq> 0 then 2 else 4)) w fs
     \<and> (fs \<noteq> [] \<or> w \<noteq> 0 \<longrightarrow> foldl (\<lambda>m f. m OR (if sem_op f \<noteq> 0 then 2 else 4)) w fs \<noteq> 0)" if "w AND 7 = w" for w :: u32
    using that by (induction fs arbitrary: w) (auto simp: step)
  show "operate_mode fs AND 7 = operate_mode fs" "fs \<noteq> [] \<Longrightarrow> operate_mode fs \<noteq> 0"
    using all [of 0] by (auto simp: operate_mode_def)
qed

text \<open>Refused: an error, and neither the tables nor the packet of the caller touched.\<close>

definition same_view :: "ipc_state \<Rightarrow> ipc_state \<Rightarrow> bool" where
  "same_view s t \<longleftrightarrow> st_tables t = st_tables s \<and> st_packet t = st_packet s \<and> st_output t = st_output s"

definition observes :: "ipc_tables \<Rightarrow> 'a ipc \<Rightarrow> ('a \<Rightarrow> bool) \<Rightarrow> bool" where
  "observes T m P \<longleftrightarrow> (\<forall>s r t. st_tables s = T \<longrightarrow> m s = (r, t) \<longrightarrow>
     same_view s t \<and> (case r of Inl e \<Rightarrow> e \<noteq> Wait | Inr x \<Rightarrow> P x))"

definition refuses :: "ipc_tables \<Rightarrow> 'a ipc \<Rightarrow> bool" where
  "refuses T m \<longleftrightarrow> observes T m (\<lambda>_. False)"

lemma observes_then: "observes T m P \<Longrightarrow> (\<And>x. P x \<Longrightarrow> observes T (f x) Q) \<Longrightarrow> observes T (ipc_then m f) Q"
  unfolding observes_def
proof (intro allI impI)
  fix s r t
  assume m: "\<forall>s r t. st_tables s = T \<longrightarrow> m s = (r, t) \<longrightarrow> same_view s t \<and> (case r of Inl e \<Rightarrow> e \<noteq> Wait | Inr x \<Rightarrow> P x)"
    and f: "\<And>x. P x \<Longrightarrow> \<forall>s r t. st_tables s = T \<longrightarrow> f x s = (r, t) \<longrightarrow> same_view s t \<and> (case r of Inl e \<Rightarrow> e \<noteq> Wait | Inr x \<Rightarrow> Q x)"
    and s: "st_tables s = T" and run: "ipc_then m f s = (r, t)"
  obtain a u where a: "m s = (a, u)" by fastforce
  with m s have u: "same_view s u" "case a of Inl e \<Rightarrow> e \<noteq> Wait | Inr x \<Rightarrow> P x" by blast+
  show "same_view s t \<and> (case r of Inl e \<Rightarrow> e \<noteq> Wait | Inr x \<Rightarrow> Q x)"
  proof (cases a)
    case (Inl e)
    thus ?thesis using run a u by (auto simp: ipc_then_def)
  next
    case (Inr x)
    hence "f x u = (r, t)" "P x" "st_tables u = T" using run a u s by (auto simp: ipc_then_def same_view_def)
    hence "same_view u t" "case r of Inl e \<Rightarrow> e \<noteq> Wait | Inr x \<Rightarrow> Q x" using f by blast+
    thus ?thesis using u(1) by (simp add: same_view_def)
  qed
qed

lemma observes_basic:
  "observes T (ipc_check b e) (\<lambda>_. \<not> b)" "observes T answer (\<lambda>_. True)" "observes T (sql_select f) (\<lambda>x. x = f T)"
  "observes T (ipc_lift r) (\<lambda>x. r = Inr x)" "P x \<Longrightarrow> observes T (ipc_return x) P" "observes T (ipc_fail e) P"
  by (auto simp: observes_def same_view_def ipc_check_def ipc_fail_def ipc_return_def answer_def sql_select_def ipc_then_def ipc_lift_def
      split: if_splits list.splits option.splits sum.splits)

lemma observes_load:
  "observes T (load_sem ip k) (\<lambda>st. has_info k (Sem_Info st) T)" "observes T (load_msg ip k) (\<lambda>st. has_info k (Msg_Info st) T)"
  unfolding load_sem_def load_msg_def md_ipc_load_def
  by (rule observes_then [of _ _ "\<lambda>info. has_info k info T"], rule observes_then [OF observes_basic(3)],
      auto simp: has_info_def find_Some_iff split: option.splits ipc_info.splits intro!: observes_basic nth_mem)+

lemma observes_removed: "observes T m P \<Longrightarrow> observes T (removed_error b m) P"
  unfolding observes_def
proof (intro allI impI)
  fix s r t
  assume m: "\<forall>s r t. st_tables s = T \<longrightarrow> m s = (r, t) \<longrightarrow> same_view s t \<and> (case r of Inl e \<Rightarrow> e \<noteq> Wait | Inr x \<Rightarrow> P x)"
    and s: "st_tables s = T" and run: "removed_error b m s = (r, t)"
  obtain a u where a: "m s = (a, u)" by fastforce
  with m s have "same_view s u" "case a of Inl e \<Rightarrow> e \<noteq> Wait | Inr x \<Rightarrow> P x" by blast+
  thus "same_view s t \<and> (case r of Inl e \<Rightarrow> e \<noteq> Wait | Inr x \<Rightarrow> P x)"
    using run a by (cases a) (auto simp: removed_error_def)
qed


lemma refused_lift: "refuses T (ipc_then (ipc_lift (Inl e)) f)"
  unfolding refuses_def by (rule observes_then [OF observes_basic(4)]) simp

lemma refuses_then: "observes T m P \<Longrightarrow> (\<And>x. P x \<Longrightarrow> refuses T (f x)) \<Longrightarrow> refuses T (ipc_then m f)"
  unfolding refuses_def by (rule observes_then)

lemma refusesD:
  assumes "refuses T m" "st_tables s = T" "m s = (r, t)"
  shows "same_view s t \<and> (\<exists>e. r = Inl (Error e))"
proof -
  have "same_view s t \<and> (case r of Inl e \<Rightarrow> e \<noteq> Wait | Inr x \<Rightarrow> False)"
    using assms unfolding refuses_def observes_def by blast
  thus ?thesis by (cases r) (auto intro: ipc_stop.exhaust)
qed

lemma refuses_fail: "refuses T (ipc_fail e)"
  unfolding refuses_def by (rule observes_basic)

lemma sem_refused:
  assumes "p_nr p \<notin> {SYS_semget}" "p_nr p \<in> {SYS_semop, SYS_semtimedop} \<Longrightarrow> p_ops p \<noteq> []"
    and str: "\<And>info. has_info (int_arg p 0) info T \<Longrightarrow> stranger ip (p_identity p) (info_perm info)"
  shows "refuses T (md_ipc_sem ip p)"
proof -
  have "refuses T (if p_nr p = SYS_semop \<or> p_nr p = SYS_semtimedop then operate ip p st else sem_control ip p (int_arg p 0) st)"
    if "has_info (int_arg p 0) (Sem_Info st) T" for st
  proof -
    have s: "stranger ip (p_identity p) (sem_perm st)" using str [OF that] by simp
    have "refuses T (operate ip p st)" if "p_ops p \<noteq> []"
      unfolding operate_def
      using stranger_access [OF s operate_mode_bits(1) operate_mode_bits(2) [OF that]]
      by (intro refuses_then [OF observes_basic(1)]) (simp add: refused_lift)
    moreover have "refuses T (sem_control ip p (int_arg p 0) st)"
      by (simp add: sem_control_def Let_def stranger_owner [OF s] stranger_access [OF s] refused_lift)
    ultimately show ?thesis using assms(2) by auto
  qed
  thus ?thesis using assms(1) unfolding md_ipc_sem_def by (auto intro!: refuses_then [OF observes_removed [OF observes_load(1)]])
qed

lemma msg_refused:
  assumes "p_nr p \<notin> {SYS_msgget}"
    and str: "\<And>info. has_info (int_arg p 0) info T \<Longrightarrow> stranger ip (p_identity p) (info_perm info)"
  shows "refuses T (md_ipc_msg ip p)"
proof -
  have "refuses T (if p_nr p = SYS_msgsnd then msg_send ip p st else if p_nr p = SYS_msgrcv then msg_receive ip p st else msg_control ip p st)"
    if "has_info (int_arg p 0) (Msg_Info st) T" for st
  proof -
    have s: "stranger ip (p_identity p) (msg_perm st)" using str [OF that] by simp
    have "refuses T (msg_send ip p st)" "refuses T (msg_receive ip p st)" "refuses T (msg_control ip p st)"
      by (simp_all add: msg_send_def msg_receive_def msg_control_def msg_stat_def Let_def split_beta refuses_fail
          stranger_owner [OF s] stranger_access [OF s] refused_lift)
    thus ?thesis by simp
  qed
  thus ?thesis using assms(1) unfolding md_ipc_msg_def by (auto intro!: refuses_then [OF observes_removed [OF observes_load(2)]])
qed

lemma operation_refused:
  assumes nr: "p_nr p \<notin> {SYS_semget, SYS_msgget}" "p_nr p \<in> {SYS_semop, SYS_semtimedop} \<Longrightarrow> p_ops p \<noteq> []"
    and str: "shut ip (p_identity p) (int_arg p 0) (st_tables s)"
    and run: "operation ip p s = (r, result, t)"
  shows "(\<exists>e. result = Inl (Error e)) \<and> r \<noteq> Inl Wait \<and> st_tables t = st_tables s \<and> st_packet t = st_packet s \<and> st_output t = st_output s"
proof -
  have info: "has_info (int_arg p 0) i (st_tables s) \<Longrightarrow> stranger ip (p_identity p) (info_perm i)" for i
    using str by (auto simp: shut_def has_info_def)
  have call: "refuses (st_tables s) (if sem_call (p_nr p) then md_ipc_sem ip p else md_ipc_msg ip p)"
    using sem_refused [OF _ nr(2) info] msg_refused [OF _ info] nr(1) by auto
  obtain a u where a: "answer s = (a, u)" by fastforce
  have u: "same_view s u" "\<forall>e. a = Inl e \<longrightarrow> e \<noteq> Wait"
    using observes_basic(2) [of "st_tables s"] a by (auto simp: observes_def split: sum.splits)
  show ?thesis
  proof (cases a)
    case (Inl e)
    thus ?thesis using run a u by (cases e) (auto simp: operation_def same_view_def)
  next
    case (Inr x)
    obtain b v where b: "(if sem_call (p_nr p) then md_ipc_sem ip p u else md_ipc_msg ip p u) = (b, v)" by fastforce
    hence "(if sem_call (p_nr p) then md_ipc_sem ip p else md_ipc_msg ip p) u = (b, v)" by (simp split: if_splits)
    hence v: "same_view u v" "\<exists>e. b = Inl (Error e)"
      using refusesD [OF call] u(1) unfolding same_view_def by blast+
    obtain c w where c: "answer v = (c, w)" by fastforce
    have w: "same_view v w" using observes_basic(2) [of "st_tables v"] c by (auto simp: observes_def)
    let ?w = "w\<lparr>st_tables := st_tables u, st_changed := st_changed u\<rparr>"
    obtain d x where d: "answer ?w = (d, x)" by fastforce
    have "same_view ?w x" using observes_basic(2) [of "st_tables ?w"] d by (auto simp: observes_def)
    thus ?thesis using run a Inr b v c w d u(1) silentD [OF silent_basic(5) c] silentD [OF silent_basic(5) d] by (cases c) (auto simp: operation_def same_view_def)
  qed
qed

text \<open>Recovering the undo records of dead owners writes time stamps, never permissions.\<close>

lemma undo_each_shut:
  assumes "\<forall>(u, x) \<in> set rows. ob_id x = ud_object u \<and> (ob_id x = k \<longrightarrow> stranger ip v (info_perm (ob_info x)))"
  shows "triple (shut ip v k) (undo_each db rows) (\<lambda>_. shut ip v k)"
  using assms
proof (induction db rows rule: undo_each.induct)
  case (2 db u x rest)
  show ?case
  proof (cases "ob_info x")
    case (Sem_Info st)
    let ?keeps = "\<lambda>m. triple (shut ip v k) m (\<lambda>_. shut ip v k)"
    have "?keeps (sem_value db a n None)" for a n
      unfolding sem_value_def
      by (rule triple_then [OF triple_select]) (auto simp: triple_def ipc_fail_def ipc_return_def split: option.splits)
    moreover have "?keeps (set_sem a n val pid pids)" for a n val pid pids
      unfolding set_sem_def by (rule triple_then [OF triple_update triple_changed]) (simp add: shut_def set_row_def)
    moreover have "?keeps (md_ipc_save (ud_object u) (Sem_Info (st\<lparr>sem_otime := now\<rparr>)))" for now
      unfolding md_ipc_save_def
      by (rule triple_then [OF triple_update triple_changed]) (use 2(2) Sem_Info in \<open>auto simp: shut_def save_info_def\<close>)
    ultimately show ?thesis using 2 Sem_Info
      by (auto simp: split_beta intro!: triple_then [of "shut ip v k" _ "\<lambda>_. shut ip v k"] triple_pass(1))
  qed (simp add: triple_fail)
qed (simp add: triple_return)

interpretation closed: ipc_recovery "shut ip v k" for ip v k
proof
  fix db lessee space
  have rows: "\<forall>(u, x) \<in> set (undo_join lessee space t). ob_id x = ud_object u \<and> (ob_id x = k \<longrightarrow> stranger ip v (info_perm (ob_info x)))"
    if "shut ip v k t" for t using that by (auto simp: undo_join_def shut_def)
  have "triple (\<lambda>t. shut ip v k t \<and> rows = undo_join lessee space t) (undo_each db rows) (\<lambda>_. shut ip v k)" for rows
    using undo_each_shut [of rows k ip v db] rows unfolding triple_def by blast
  thus "triple (shut ip v k) (md_ipc_undo_apply db lessee space) (\<lambda>_. shut ip v k)"
    unfolding md_ipc_undo_apply_def
    by (rule triple_then [OF triple_select triple_then [OF _ triple_update]]) (auto simp: shut_def)
qed (auto simp: shut_def delete_objects_def Let_def)

lemma begin_failed:
  assumes "md_ipc_begin ip s = (Inl e, t)"
  shows "st_tables t = st_tables s"
  using assms by (auto simp: md_ipc_begin_def md_ipc_database_commit_def md_ipc_database_unlock_def
      dest!: database_begin_tables split: prod.splits sum.splits)

lemma begin_nobody_dead:
  assumes "\<forall>l. ip_dead ip l \<noteq> Inr True" "md_ipc_begin ip s = (Inr x, t)"
  shows "st_tables t = st_tables s"
proof -
  have "reads (reap_each ip ls)" for ls
  proof (induction ls)
    case (Cons l ls)
    have "reads (ipc_then (ipc_lift (ip_dead ip l)) (\<lambda>dead. ipc_then (if dead then remove_owner ip l else ipc_return ()) (\<lambda>_. reap_each ip ls)))"
      using Cons assms(1) by (auto simp: reads_def ipc_then_def ipc_lift_def ipc_return_def split: sum.splits prod.splits)
    thus ?case using Cons by simp
  qed (simp add: reads_basic)
  hence "reads (md_ipc_database_reap ip)"
    unfolding md_ipc_database_reap_def sql_select_def
    by (intro reads_then) (auto simp: reads_def dest: answer_tables)
  thus ?thesis using assms(2)
    by (fastforce simp: md_ipc_begin_def reads_def dest!: database_begin_tables split: prod.splits sum.splits)
qed

lemma attempt_refused:
  assumes nr: "p_nr p \<notin> {SYS_semget, SYS_msgget}" "p_nr p \<in> {SYS_semop, SYS_semtimedop} \<Longrightarrow> p_ops p \<noteq> []" "\<not> p_registered p"
    and str: "shut ip (p_identity p) (int_arg p 0) (st_tables s)"
    and run: "attempt ip p s = (result, q, t)"
  shows "(\<exists>e. result = Inl (Error e)) \<and> \<not> p_registered q \<and> st_packet t = st_packet s \<and> st_output t = st_output s
    \<and> (st_tables t = st_tables s \<or> (\<exists>b. md_ipc_begin ip s = (Inr (), b) \<and> st_tables t = st_tables b))"
proof -
  obtain a b where b: "md_ipc_begin ip s = (a, b)" by fastforce
  note qb = silentD [OF silent_begin b]
  have sb: "shut ip (p_identity p) (int_arg p 0) (st_tables b)" by (rule closed.ipc_begin_ok [OF str b])
  show ?thesis
  proof (cases a)
    case (Inl e)
    thus ?thesis using run b qb nr(3) begin_failed [OF b [unfolded Inl]] by (cases e) (auto simp: attempt_def)
  next
    case (Inr x)
    let ?b = "b\<lparr>st_number := p_number p, st_zero := p_zero p\<rparr>"
    obtain r tried c where c: "operation ip p ?b = (r, tried, c)" by (metis prod_cases3)
    have op: "(\<exists>e. tried = Inl (Error e)) \<and> r \<noteq> Inl Wait \<and> st_tables c = st_tables ?b \<and> st_packet c = st_packet ?b \<and> st_output c = st_output ?b"
      by (rule operation_refused [OF nr(1,2) _ c]) (use sb in auto)
    let ?q = "p\<lparr>p_number := st_number c, p_zero := st_zero c\<rparr>"
    obtain f where f: "settle_wait ip ?q r (expire ip ?q tried) c = (r, f, c)" "\<not> p_registered f" "\<exists>e. expire ip ?q tried = Inl (Error e)"
      using op nr(3) by (cases r) (auto simp: settle_wait_def unregister_def expire_def ipc_return_def)
    obtain g d where d: "md_ipc_finish (st_tables s) r c = (g, d)" by fastforce
    from finish_silent [OF d] op have fin: "st_packet d = st_packet c" "st_output d = st_output c" "g \<noteq> Inl Wait"
      "st_tables d = st_tables s \<or> st_tables d = st_tables c" by auto
    have "t = d \<and> q = f \<and> (\<exists>e. result = Inl (Error e))"
      using run b Inr c f d fin(3) by (cases g) (auto simp: attempt_def intro: ipc_stop.exhaust)
    thus ?thesis using fin op qb f(2) b Inr by auto
  qed
qed

text \<open>
  C13: A stranger to a System V object gets nothing from it. Whatever a new call that names the
  object by its identifier asks for (\<open>semop\<close>, \<open>semtimedop\<close>, \<open>semctl\<close>, \<open>msgsnd\<close>, \<open>msgrcv\<close>, \<open>msgctl\<close>), the
  whole call ends in an error and leaves nothing pending: it never waits. The caller's packet and its
  output are as before. The tables are as before, or as the recovery of dead owners left them that
  opens every transaction; with no dead owner they are as before. All of this also holds when system
  calls and statements on the way fail. The two calls that look a key up, \<open>semget\<close> and \<open>msgget\<close>, are
  excluded: asked for no access they tell a stranger the identifier.
\<close>

theorem stranger_gets_nothing:
  assumes nr: "nr \<notin> {SYS_semget, SYS_msgget}"
    and str: "\<And>x. x \<in> set (tb_objects (st_tables s)) \<Longrightarrow> ob_id x = sint (ucast (args ! 0) :: u32) \<Longrightarrow> stranger ip v (info_perm (ob_info x))"
    and run: "md_ipc_call ip None u v tid tgid process nr args s = (r, q, u', t)"
  shows "(\<exists>e. r = Inl (Error e)) \<and> q = None \<and> st_packet t = st_packet s \<and> st_output t = st_output s
    \<and> (st_tables t = st_tables s \<or> (\<exists>a b. st_tables a = st_tables s \<and> md_ipc_begin ip a = (Inr (), b) \<and> st_tables t = st_tables b))
    \<and> ((\<forall>l. ip_dead ip l \<noteq> Inr True) \<longrightarrow> st_tables t = st_tables s)"
proof -
  obtain a s1 where a: "answer_or ENOMEM s = (a, s1)" by fastforce
  obtain b s2 where b: "prepare ip (new_pending nr args v tid tgid process (un_id u)) s1 = (b, s2)" by fastforce
  have T: "st_tables s1 = st_tables s" "st_tables s2 = st_tables s1"
    using reads_basic(5) a prepare_tables [OF b] by (auto simp: reads_def)
  note Q = silentD [OF silent_basic(6) a] silentD [OF silent_prepare b]
  show ?thesis
  proof (cases "\<exists>p. a = Inr () \<and> b = Inr p")
    case True
    then obtain p where p: "a = Inr ()" "b = Inr p" by blast
    note P = call_prepared [OF b [unfolded p(2)]]
    obtain result f w where w: "attempt ip p s2 = (result, f, w)" by (metis prod_cases3)
    have "shut ip (p_identity p) (int_arg p 0) (st_tables s2)" using str P T by (auto simp: shut_def int_arg_def arg_def)
    with P nr have "p_nr p \<notin> {SYS_semget, SYS_msgget}" "p_nr p \<in> {SYS_semop, SYS_semtimedop} \<Longrightarrow> p_ops p \<noteq> []" "\<not> p_registered p"
      "shut ip (p_identity p) (int_arg p 0) (st_tables s2)" by auto
    note A = attempt_refused [OF this w]
    hence "cleanup ip f result w = (result, None, w)" by (simp add: cleanup_def md_ipc_cancel_def ipc_return_def)
    hence "call_loop ip p s2 = (result, None, w)" using P A w by (auto simp: call_loop.simps [of ip p s2])
    hence "r = result \<and> q = None \<and> t = w" using run a b p by (simp add: md_ipc_call_def)
    thus ?thesis using A T Q begin_nobody_dead [of ip s2] by metis
  next
    case False
    hence "\<exists>e. r = Inl e \<and> q = None \<and> (a = Inl e \<and> t = s1 \<or> b = Inl e \<and> t = s2)"
      using run a b by (cases a; cases b) (auto simp: md_ipc_call_def)
    thus ?thesis using Q T by (auto intro: ipc_stop.exhaust)
  qed
qed

definition demo_stranger :: identity where
  "demo_stranger = demo_root\<lparr>id_ns := [7], id_uid := same_ids 1005, id_gid := same_ids 1005\<rparr>"

definition demo_private :: ipc_perm where
  "demo_private = creator_perm demo_root 0x1B0"

definition demo_private_sems :: ipc_tables where
  "demo_private_sems = save_info 1 (Sem_Info \<lparr>sem_perm = demo_private, sem_key = 5, sem_otime = 0, sem_ctime = 900, sem_nsems = 2\<rparr>) demo_sems"

definition demo_shared_ipc :: md_ipc where
  "demo_shared_ipc = demo_ipc\<lparr>ip_users := demo_store\<rparr>"

definition demo_intrusion :: "sysv_nr \<Rightarrow> u64 list \<Rightarrow> (ipc_stop + int) \<times> ipc_pending option \<times> md_ipc_undo \<times> ipc_state" where
  "demo_intrusion nr args = md_ipc_call demo_shared_ipc None \<lparr>un_refs = 1, un_used = False, un_id = 1\<rparr> demo_stranger 9 9 None nr args
     ((demo_ipc_state demo_private_sems)\<lparr>st_packet := [0, 0, 255, 255, 0, 0]\<rparr>)"

lemma demo_is_stranger: "stranger demo_shared_ipc demo_stranger demo_private"
  by code_simp

theorem stranger_gets_nothing_witness:
  "\<exists>e u t. demo_intrusion SYS_semop [1, 32, 1, 0, 0, 0] = (Inl (Error e), None, u, t)
     \<and> st_tables t = demo_private_sems \<and> st_packet t = [0, 0, 255, 255, 0, 0]"
proof -
  let ?s = "(demo_ipc_state demo_private_sems)\<lparr>st_packet := [0, 0, 255, 255, 0, 0]\<rparr>"
  obtain r q u t where run: "demo_intrusion SYS_semop [1, 32, 1, 0, 0, 0] = (r, q, u, t)" by (metis prod_cases4)
  have far: "stranger demo_shared_ipc demo_stranger (info_perm (ob_info x))" if "x \<in> set (tb_objects (st_tables ?s))" for x
    using that demo_is_stranger by (auto simp: demo_ipc_state_def demo_private_sems_def demo_sems_def no_tables_def save_info_def)
  have alive: "\<forall>l. ip_dead demo_shared_ipc l \<noteq> Inr True" by (simp add: demo_shared_ipc_def demo_ipc_def)
  show ?thesis
    using stranger_gets_nothing [OF _ far run [unfolded demo_intrusion_def]] alive run by (auto simp: demo_ipc_state_def)
qed

text \<open>Looking the key up with no access bits tells the stranger the identifier; with access bits it is refused.\<close>

lemma stranger_looks_up:
  "fst (demo_intrusion SYS_semget [5, 0, 0, 0, 0, 0]) = Inr 1" "fst (demo_intrusion SYS_semget [5, 0, 0x100, 0, 0, 0]) = Inl (Error EACCES)"
  by code_simp+

end
